(* ===== verification/Prelude.thy ===== *)
theory Prelude
  imports Main "HOL-Library.Word"
begin

text \<open>
  Shared ground of the development: how an operation of the C++ code that may not return
  normally is modelled, the few pieces of the language and its library that every
  component uses (checked and unchecked array access, pointer dereference,
  \<open>std::to_string\<close>), and the lemma collections the component theories extend.

  Every operation that can end the process is a function into \<open>'a res\<close>: \<open>Inr\<close> is a
  normal return, \<open>Inl\<close> says how the call failed to return. Pointers are \<open>nat option\<close>
  (\<open>None\<close> is \<open>nullptr\<close>): the only dynamically allocated objects of the exchange live in
  memory pools, so an address is an index into a pool.
\<close>

named_theorems res_simps "evaluation of the result monad on decided outcomes"
named_theorems wf_intros "establishing well-formedness of a component's state"
named_theorems view_simps "what an update of a pool or a table does to the views of it"

section \<open>Outcomes of an operation\<close>

datatype err =
    Assert_failed string  \<comment> \<open>\<open>ASSERT\<close> of \<open>common/macros.h\<close> failed: \<open>exit(EXIT_FAILURE)\<close>\<close>
  | Fatal_exit string     \<comment> \<open>\<open>FATAL\<close> of \<open>common/macros.h\<close>: \<open>exit(EXIT_FAILURE)\<close>\<close>
  | Terminated string     \<comment> \<open>an exception escapes a \<open>noexcept\<close> function or a thread\<close>
  | Undefined string      \<comment> \<open>undefined behaviour of the language\<close>
  | Diverges              \<comment> \<open>a loop that never ends\<close>

type_synonym 'a res = "err + 'a"

type_synonym ptr = "nat option"

definition bindr :: "'a res \<Rightarrow> ('a \<Rightarrow> 'b res) \<Rightarrow> 'b res" where
  "bindr m f = (case m of Inl e \<Rightarrow> Inl e | Inr x \<Rightarrow> f x)"

lemma bindr_Inl [simp, res_simps]: "bindr (Inl e) f = Inl e"
  by (simp add: bindr_def)

lemma bindr_Inr [simp, res_simps]: "bindr (Inr x) f = f x"
  by (simp add: bindr_def)

lemma bindr_eq_Inr: "bindr m f = Inr y \<longleftrightarrow> (\<exists>x. m = Inr x \<and> f x = Inr y)"
  by (cases m) auto

lemma bindr_InrE:
  assumes "bindr m f = Inr y"
  obtains x where "m = Inr x" "f x = Inr y"
  using assms by (auto simp: bindr_eq_Inr)

lemma bindr_assoc: "bindr (bindr m f) g = bindr m (\<lambda>x. bindr (f x) g)"
  by (cases m) auto

lemma bindr_cong [fundef_cong]:
  assumes "m = m'" and "\<And>x. m' = Inr x \<Longrightarrow> f x = f' x"
  shows "bindr m f = bindr m' f'"
  using assms by (cases m') auto

definition ASSERT :: "bool \<Rightarrow> string \<Rightarrow> unit res" where
  "ASSERT cond msg = (if \<not> cond then Inl (Assert_failed msg) else Inr ())"

definition FATAL :: "string \<Rightarrow> 'a res" where
  "FATAL msg = Inl (Fatal_exit msg)"

lemma ASSERT_simps [simp, res_simps]:
  "ASSERT True msg = Inr ()" "ASSERT False msg = Inl (Assert_failed msg)"
  by (simp_all add: ASSERT_def)

lemma ASSERT_eq_Inr [simp]: "ASSERT c msg = Inr u \<longleftrightarrow> c"
  by (simp add: ASSERT_def)

text \<open>A loop whose model may not return (\<open>None\<close>) as an outcome.\<close>

definition returned :: "'a res option \<Rightarrow> 'a res" where
  "returned r = (case r of None \<Rightarrow> Inl Diverges | Some x \<Rightarrow> x)"

lemma returned_simps [simp]: "returned None = Inl Diverges" "returned (Some x) = x"
  by (simp_all add: returned_def)

text \<open>A handler applied to each element in turn, stopping at the first failure.\<close>

fun fold_res :: "('a \<Rightarrow> 's \<Rightarrow> 's res) \<Rightarrow> 'a list \<Rightarrow> 's \<Rightarrow> 's res" where
  "fold_res h [] s = Inr s"
| "fold_res h (x # xs) s = bindr (h x s) (fold_res h xs)"

lemma fold_res_append:
  "fold_res h (xs @ ys) s = bindr (fold_res h xs s) (fold_res h ys)"
  by (induction xs arbitrary: s) (auto simp: bindr_assoc intro: bindr_cong)

lemma fold_res_map: "fold_res h (map f xs) s = fold_res (\<lambda>x. h (f x)) xs s"
  by (induction xs arbitrary: s) (auto intro: bindr_cong)

lemma fold_res_invariant:
  assumes "fold_res h xs s = Inr t" and "P s"
    and "\<And>x s t. x \<in> set xs \<Longrightarrow> P s \<Longrightarrow> h x s = Inr t \<Longrightarrow> P t"
  shows "P t"
  using assms by (induction xs arbitrary: s) (auto elim!: bindr_InrE)

text \<open>
  The loop of a thread: \<open>while(run_) body\<close>, over what the thread finds at the head of each
  iteration: what the other threads did to the shared state in between, and the value of the
  flag, which another thread clears to stop it.
\<close>

fun run_while :: "(('s \<Rightarrow> 's) \<times> bool) list \<Rightarrow> ('s \<Rightarrow> 's res) \<Rightarrow> 's \<Rightarrow> 's res" where
  "run_while [] body s = Inr s"
| "run_while ((env, run) # sched) body s =
     (if run then bindr (body (env s)) (run_while sched body) else Inr (env s))"

lemma run_while_invariant:
  assumes "run_while sched body s = Inr t" and "P s"
    and "\<And>env run s. (env, run) \<in> set sched \<Longrightarrow> P s \<Longrightarrow> P (env s)"
    and "\<And>s t. P s \<Longrightarrow> body s = Inr t \<Longrightarrow> P t"
  shows "P t"
  using assms
proof (induction sched arbitrary: s)
  case (Cons x sched)
  obtain env run where x: "x = (env, run)" by fastforce
  have Pe: "P (env s)" using Cons.prems(2,3) by (auto simp: x)
  show ?case
  proof (cases run)
    case True
    then obtain u where u: "body (env s) = Inr u" "run_while sched body u = Inr t"
      using Cons.prems(1) by (auto simp: x elim: bindr_InrE)
    show ?thesis
      by (rule Cons.IH[OF u(2) Cons.prems(4)[OF Pe u(1)]]) (use Cons.prems(3,4) in auto)
  next
    case False
    then show ?thesis using Cons.prems(1) Pe by (simp add: x)
  qed
qed simp

text \<open>\<open>n\<close> iterations with nobody else running.\<close>

definition undisturbed :: "nat \<Rightarrow> (('s \<Rightarrow> 's) \<times> bool) list" where
  "undisturbed n = replicate n (\<lambda>s. s, True)"

lemma run_while_undisturbed [simp]:
  "run_while (undisturbed 0) body s = Inr s"
  "run_while (undisturbed (Suc n)) body s = bindr (body s) (run_while (undisturbed n) body)"
  by (simp_all add: undisturbed_def)

section \<open>Arrays and pointers\<close>

text \<open>
  \<open>std::array\<close> and \<open>std::vector\<close> of a fixed size are functions from the index.
  \<open>.at(i)\<close> throws \<open>std::out_of_range\<close>, which ends the process in every function that
  uses it here (\<open>noexcept\<close>, or the body of a thread); \<open>operator[]\<close> is undefined out of range.
\<close>

definition at_idx :: "nat \<Rightarrow> nat \<Rightarrow> (nat \<Rightarrow> 'a) \<Rightarrow> 'a res" where
  "at_idx n i a = (if i < n then Inr (a i) else Inl (Terminated ''std::out_of_range''))"

definition sub_idx :: "nat \<Rightarrow> nat \<Rightarrow> (nat \<Rightarrow> 'a) \<Rightarrow> 'a res" where
  "sub_idx n i a = (if i < n then Inr (a i) else Inl (Undefined ''subscript out of range''))"

definition deref :: "'a option \<Rightarrow> 'a res" where
  "deref p = (case p of None \<Rightarrow> Inl (Undefined ''null pointer dereference'') | Some a \<Rightarrow> Inr a)"

lemma at_idx_ok [simp]: "i < n \<Longrightarrow> at_idx n i a = Inr (a i)"
  by (simp add: at_idx_def)

lemma at_idx_eq_Inr: "at_idx n i a = Inr x \<longleftrightarrow> i < n \<and> x = a i"
  by (auto simp: at_idx_def)

lemma sub_idx_ok [simp]: "i < n \<Longrightarrow> sub_idx n i a = Inr (a i)"
  by (simp add: sub_idx_def)

lemma sub_idx_eq_Inr: "sub_idx n i a = Inr x \<longleftrightarrow> i < n \<and> x = a i"
  by (auto simp: sub_idx_def)

lemma deref_simps [simp, res_simps]:
  "deref (Some a) = Inr a"
  "deref None = Inl (Undefined ''null pointer dereference'')"
  by (simp_all add: deref_def)

lemma deref_eq_Inr [simp]: "deref p = Inr a \<longleftrightarrow> p = Some a"
  by (cases p) auto

section \<open>Decimal strings\<close>

text \<open>\<open>std::to_string\<close> of an unsigned value.\<close>

fun nat_to_string :: "nat \<Rightarrow> string" where
  "nat_to_string n =
     (if n < 10 then [char_of (48 + n)]
      else nat_to_string (n div 10) @ [char_of (48 + n mod 10)])"

declare nat_to_string.simps [simp del]

definition is_digit :: "char \<Rightarrow> bool" where
  "is_digit c \<longleftrightarrow> 48 \<le> (of_char c :: nat) \<and> (of_char c :: nat) \<le> 57"

lemma nat_to_string_nonempty [simp]: "nat_to_string n \<noteq> []"
  by (subst nat_to_string.simps) simp

lemma is_digit_char_of: "d < 10 \<Longrightarrow> is_digit (char_of (48 + d :: nat))"
  by (simp add: is_digit_def of_char_of)

lemma nat_to_string_digits: "list_all is_digit (nat_to_string n)"
proof (induction n rule: nat_to_string.induct)
  case (1 n)
  show ?case
    using 1 by (subst nat_to_string.simps) (auto simp: is_digit_char_of)
qed

text \<open>\<open>std::to_string\<close> of a signed value.\<close>

definition int_to_string :: "int \<Rightarrow> string" where
  "int_to_string i = (if i < 0 then ''-'' @ nat_to_string (nat (- i)) else nat_to_string (nat i))"

text \<open>\<open>%ns\<close> and \<open>%-ns\<close> of \<open>printf\<close>: the string padded with blanks on the left or the right.\<close>

definition pad_left :: "nat \<Rightarrow> string \<Rightarrow> string" where
  "pad_left n s = replicate (n - length s) CHR '' '' @ s"

definition pad_right :: "nat \<Rightarrow> string \<Rightarrow> string" where
  "pad_right n s = s @ replicate (n - length s) CHR '' ''"

text \<open>Reading a decimal string back; the inverse that makes the printing injective.\<close>

definition string_to_nat :: "string \<Rightarrow> nat" where
  "string_to_nat s = foldl (\<lambda>acc c. 10 * acc + (of_char c - 48)) 0 s"

lemma string_to_nat_snoc: "string_to_nat (s @ [c]) = 10 * string_to_nat s + (of_char c - 48)"
  by (simp add: string_to_nat_def)

lemma string_to_nat_to_string: "string_to_nat (nat_to_string n) = n"
proof (induction n rule: nat_to_string.induct)
  case (1 n)
  show ?case
  proof (cases "n < 10")
    case True
    then show ?thesis
      by (subst nat_to_string.simps) (simp add: string_to_nat_def of_char_of)
  next
    case False
    then show ?thesis
      using 1 by (subst nat_to_string.simps) (simp add: string_to_nat_snoc of_char_of)
  qed
qed

lemma nat_to_string_inject [simp]: "nat_to_string m = nat_to_string n \<longleftrightarrow> m = n"
  using string_to_nat_to_string by metis

section \<open>Words\<close>

lemma unat_add_less:
  fixes a b :: "'a::len word"
  assumes "unat a + unat b < 2 ^ LENGTH('a)"
  shows "unat (a + b) = unat a + unat b"
  using assms by (simp add: unat_word_ariths)

lemma unat_minus_le:
  fixes a b :: "'a::len word"
  assumes "b \<le> a"
  shows "unat (a - b) = unat a - unat b"
  using assms by (rule unat_sub)

lemma unat_neq_0: "w \<noteq> 0 \<longleftrightarrow> 0 < unat w"
  by (simp add: unat_gt_0)

end
