(* ===== verification/Double.thy ===== *)
theory Double
  imports Prelude "HOL-Library.Log_Nat"
begin

text \<open>
  The C++ type \<open>double\<close> as the trading components use it: IEEE 754 binary64 with
  rounding to nearest, ties to even. A value is a NaN, an infinity or a finite rational;
  the two zeros are one value, because the code divides only by integers it converts and
  compares zeros only with \<open>==\<close> and \<open><\<close>, which do not tell them apart. Every operation
  computes the exact rational result and rounds it once. The NaN payload is not modelled.
\<close>

datatype double = NaN | PInf | NInf | Fin rat

section \<open>Rounding\<close>

definition round_even :: "rat \<Rightarrow> int" where
  "round_even x =
     (let f = \<lfloor>x\<rfloor>; d = x - of_int f
      in if d < 1/2 then f else if d > 1/2 then f + 1 else if even f then f else f + 1)"

text \<open>The exponent of the leading binary digit of a positive rational.\<close>

definition ilog2 :: "rat \<Rightarrow> int" where
  "ilog2 x =
     (let (p, q) = quotient_of x;
          e = int (floorlog 2 (nat p)) - int (floorlog 2 (nat q))
      in if 2 powi e \<le> x then e else e - 1)"

definition rnd :: "rat \<Rightarrow> double" where
  "rnd x =
     (if x = 0 then Fin 0
      else let e = max (ilog2 \<bar>x\<bar> - 52) (-1074);
               y = of_int (round_even (x / 2 powi e)) * 2 powi e
           in if 2 powi 1024 \<le> y then PInf
              else if y \<le> - (2 powi 1024) then NInf
              else Fin y)"

definition dbl_of_int :: "int \<Rightarrow> double" where
  "dbl_of_int i = rnd (of_int i)"

section \<open>Arithmetic and comparison\<close>

fun dbl_neg :: "double \<Rightarrow> double" where
  "dbl_neg NaN = NaN"
| "dbl_neg PInf = NInf"
| "dbl_neg NInf = PInf"
| "dbl_neg (Fin a) = Fin (- a)"

fun dbl_add :: "double \<Rightarrow> double \<Rightarrow> double" where
  "dbl_add NaN y = NaN"
| "dbl_add x NaN = NaN"
| "dbl_add PInf NInf = NaN"
| "dbl_add NInf PInf = NaN"
| "dbl_add PInf y = PInf"
| "dbl_add x PInf = PInf"
| "dbl_add NInf y = NInf"
| "dbl_add x NInf = NInf"
| "dbl_add (Fin a) (Fin b) = rnd (a + b)"

definition dbl_sub :: "double \<Rightarrow> double \<Rightarrow> double" where
  "dbl_sub x y = dbl_add x (dbl_neg y)"

definition inf_of_sign :: "rat \<Rightarrow> double" where
  "inf_of_sign a = (if a = 0 then NaN else if 0 < a then PInf else NInf)"

fun dbl_mul :: "double \<Rightarrow> double \<Rightarrow> double" where
  "dbl_mul NaN y = NaN"
| "dbl_mul x NaN = NaN"
| "dbl_mul PInf PInf = PInf"
| "dbl_mul PInf NInf = NInf"
| "dbl_mul NInf PInf = NInf"
| "dbl_mul NInf NInf = PInf"
| "dbl_mul PInf (Fin b) = inf_of_sign b"
| "dbl_mul NInf (Fin b) = inf_of_sign (- b)"
| "dbl_mul (Fin a) PInf = inf_of_sign a"
| "dbl_mul (Fin a) NInf = inf_of_sign (- a)"
| "dbl_mul (Fin a) (Fin b) = rnd (a * b)"

fun dbl_div :: "double \<Rightarrow> double \<Rightarrow> double" where
  "dbl_div NaN y = NaN"
| "dbl_div x NaN = NaN"
| "dbl_div PInf (Fin b) = (if b < 0 then NInf else PInf)"
| "dbl_div NInf (Fin b) = (if b < 0 then PInf else NInf)"
| "dbl_div (Fin a) (Fin b) = (if b = 0 then inf_of_sign a else rnd (a / b))"
| "dbl_div (Fin a) PInf = Fin 0"
| "dbl_div (Fin a) NInf = Fin 0"
| "dbl_div x y = NaN"

fun dbl_less :: "double \<Rightarrow> double \<Rightarrow> bool" where
  "dbl_less (Fin a) (Fin b) = (a < b)"
| "dbl_less NInf (Fin b) = True"
| "dbl_less NInf PInf = True"
| "dbl_less (Fin a) PInf = True"
| "dbl_less x y = False"

fun dbl_eq :: "double \<Rightarrow> double \<Rightarrow> bool" where
  "dbl_eq NaN y = False"
| "dbl_eq x NaN = False"
| "dbl_eq x y = (x = y)"

definition dbl_le :: "double \<Rightarrow> double \<Rightarrow> bool" where
  "dbl_le x y \<longleftrightarrow> dbl_less x y \<or> dbl_eq x y"

lemma dbl_eq_NaN [simp]: "\<not> dbl_eq x NaN"
  by (cases x) simp_all

lemma dbl_le_Fin [simp]: "dbl_le (Fin a) (Fin b) \<longleftrightarrow> a \<le> b"
  by (auto simp: dbl_le_def)

lemma dbl_le_NaN [simp]: "\<not> dbl_le x NaN" "\<not> dbl_le NaN x"
  by (cases x; simp add: dbl_le_def)+

section \<open>Rounding is exact on small integers\<close>

lemma round_even_of_int [simp]: "round_even (of_int i) = i"
  by (simp add: round_even_def)

lemma floorlog2_bounds:
  assumes "0 < (n::nat)"
  shows "2 ^ (floorlog 2 n - 1) \<le> n" and "n < 2 ^ floorlog 2 n"
  using floorlog_bounds[of n 2] assms by auto

end
