(* ===== verification/Types.thy ===== *)
theory Types
  imports Prelude Double
begin

text \<open>
  \<open>common/types.h\<close>: the identifiers, prices and quantities at their C++ widths with their
  sentinel values and their printing, the enumerations shared by exchange and trading
  client, the risk and engine configurations, and the compile-time limits.

  An \<open>enum class\<close> with a fixed underlying type can hold every value of that type; the
  constructor \<open>_other\<close> of each enumeration stands for the values no enumerator names.
\<close>

type_synonym OrderId = "64 word"
type_synonym TickerId = "32 word"
type_synonym ClientId = "32 word"
type_synonym Price = "64 word"
type_synonym Qty = "32 word"
type_synonym Priority = "64 word"
type_synonym Nanos = "64 word"

definition OrderId_INVALID :: OrderId where
  "OrderId_INVALID = - 1"

definition TickerId_INVALID :: TickerId where
  "TickerId_INVALID = - 1"

definition ClientId_INVALID :: ClientId where
  "ClientId_INVALID = - 1"

definition Price_INVALID :: Price where
  "Price_INVALID = - 1"

definition Qty_INVALID :: Qty where
  "Qty_INVALID = - 1"

definition Priority_INVALID :: Priority where
  "Priority_INVALID = - 1"

section \<open>Printing of identifiers\<close>

definition orderIdToString :: "OrderId \<Rightarrow> string" where
  "orderIdToString order_id =
     (if order_id = OrderId_INVALID then ''INVALID'' else nat_to_string (unat order_id))"

definition TickerIdToString :: "TickerId \<Rightarrow> string" where
  "TickerIdToString ticker_id =
     (if ticker_id = TickerId_INVALID then ''INVALID'' else nat_to_string (unat ticker_id))"

definition clientIdToString :: "ClientId \<Rightarrow> string" where
  "clientIdToString client_id =
     (if client_id = ClientId_INVALID then ''INVALID'' else nat_to_string (unat client_id))"

definition priceToString :: "Price \<Rightarrow> string" where
  "priceToString price =
     (if price = Price_INVALID then ''INVALID'' else nat_to_string (unat price))"

definition qtyToString :: "Qty \<Rightarrow> string" where
  "qtyToString qty =
     (if qty = Qty_INVALID then ''INVALID'' else nat_to_string (unat qty))"

definition priorityToString :: "Priority \<Rightarrow> string" where
  "priorityToString priority =
     (if priority = Priority_INVALID then ''INVALID'' else nat_to_string (unat priority))"

text \<open>One printing scheme for all of them, so that one injectivity proof serves all.\<close>

definition id_to_string :: "'a::len word \<Rightarrow> string" where
  "id_to_string w = (if w = - 1 then ''INVALID'' else nat_to_string (unat w))"

lemma id_to_string_eqs:
  "orderIdToString = id_to_string" "TickerIdToString = id_to_string"
  "clientIdToString = id_to_string" "priceToString = id_to_string"
  "qtyToString = id_to_string" "priorityToString = id_to_string"
  by (auto simp: fun_eq_iff id_to_string_def orderIdToString_def TickerIdToString_def
      clientIdToString_def priceToString_def qtyToString_def priorityToString_def
      OrderId_INVALID_def TickerId_INVALID_def ClientId_INVALID_def Price_INVALID_def
      Qty_INVALID_def Priority_INVALID_def)

lemma nat_to_string_not_INVALID: "nat_to_string n \<noteq> ''INVALID''"
proof
  assume "nat_to_string n = ''INVALID''"
  then have "list_all is_digit ''INVALID''"
    using nat_to_string_digits[of n] by simp
  then show False by (simp add: is_digit_def)
qed

lemma id_to_string_inject: "id_to_string v = id_to_string w \<longleftrightarrow> v = w"
  using nat_to_string_not_INVALID nat_to_string_not_INVALID[symmetric]
  by (auto simp: id_to_string_def word_unat_eq_iff)

section \<open>Sides and algorithm types\<close>

datatype Side = Side_INVALID | BUY | SELL | Side_MAX | Side_other "8 word"

fun side_byte :: "Side \<Rightarrow> 8 word" where
  "side_byte Side_INVALID = 0"
| "side_byte BUY = 1"
| "side_byte SELL = - 1"
| "side_byte Side_MAX = 2"
| "side_byte (Side_other b) = b"

definition side_of_byte :: "8 word \<Rightarrow> Side" where
  "side_of_byte b =
     (if b = 0 then Side_INVALID else if b = 1 then BUY else if b = - 1 then SELL
      else if b = 2 then Side_MAX else Side_other b)"

fun sideToString :: "Side \<Rightarrow> string" where
  "sideToString BUY = ''BUY''"
| "sideToString SELL = ''SELL''"
| "sideToString Side_INVALID = ''INVALID''"
| "sideToString _ = ''UNKNOWN''"

text \<open>\<open>static_cast<size_t>\<close> of a signed byte sign-extends; the sum wraps at 64 bits.\<close>

definition sideToIndex :: "Side \<Rightarrow> nat" where
  "sideToIndex side = unat ((scast (side_byte side) :: 64 word) + 1)"

definition sideToValue :: "Side \<Rightarrow> int" where
  "sideToValue side = sint (side_byte side)"

datatype AlgoType =
  Algo_INVALID | RANDOM | MAKER | TAKER | Algo_MAX | Algo_other "8 word"

fun algoTypeToString :: "AlgoType \<Rightarrow> string" where
  "algoTypeToString RANDOM = ''RANDOM''"
| "algoTypeToString MAKER = ''MAKER''"
| "algoTypeToString TAKER = ''TAKER''"
| "algoTypeToString Algo_MAX = ''MAX''"
| "algoTypeToString Algo_INVALID = ''INVALID''"
| "algoTypeToString (Algo_other b) = ''UNKNOWN''"

fun algoType_of_int :: "nat \<Rightarrow> AlgoType" where
  "algoType_of_int i =
     (if i = 0 then Algo_INVALID else if i = 1 then RANDOM else if i = 2 then MAKER
      else if i = 3 then TAKER else if i = 4 then Algo_MAX else Algo_other (of_nat i))"

text \<open>The loop over the enumerators from \<open>INVALID\<close> up to \<open>MAX\<close>, exclusive.\<close>

function stringToAlgoType_loop :: "string \<Rightarrow> nat \<Rightarrow> AlgoType" where
  "stringToAlgoType_loop str i =
     (if i < 4
      then if algoTypeToString (algoType_of_int i) = str then algoType_of_int i
           else stringToAlgoType_loop str (i + 1)
      else Algo_INVALID)"
  by pat_completeness auto
termination
  by (relation "measure (\<lambda>(str, i). 4 - i)") auto

declare stringToAlgoType_loop.simps [simp del]

definition stringToAlgoType :: "string \<Rightarrow> AlgoType" where
  "stringToAlgoType str = stringToAlgoType_loop str 0"

lemma side_of_byte_side_byte:
  "(\<And>b. s = Side_other b \<Longrightarrow> b \<notin> {0, 1, - 1, 2}) \<Longrightarrow> side_of_byte (side_byte s) = s"
  by (cases s) (auto simp: side_of_byte_def)

lemma side_byte_of_byte [simp]: "side_byte (side_of_byte b) = b"
  by (simp add: side_of_byte_def)

lemma sideToIndex_simps [simp]:
  "sideToIndex BUY = 2" "sideToIndex SELL = 0" "sideToIndex Side_INVALID = 1"
  "sideToIndex Side_MAX = 3"
  by (simp_all add: sideToIndex_def)

lemma sideToValue_simps [simp]:
  "sideToValue BUY = 1" "sideToValue SELL = - 1" "sideToValue Side_INVALID = 0"
  "sideToValue Side_MAX = 2"
  by (simp_all add: sideToValue_def)

section \<open>Configuration\<close>

text \<open>\<open>fmt\<close> prints a \<open>double\<close> as an output stream does.\<close>

record RiskCfg =
  max_order_size :: Qty
  max_position :: Qty
  max_loss :: double

definition RiskCfg_default :: RiskCfg where
  "RiskCfg_default = \<lparr>max_order_size = 0, max_position = 0, max_loss = Fin 0\<rparr>"

definition RiskCfg_toString :: "(double \<Rightarrow> string) \<Rightarrow> RiskCfg \<Rightarrow> string" where
  "RiskCfg_toString fmt c =
     ''RiskCfg{''
     @ ''max-order-size:'' @ qtyToString (max_order_size c) @ '' ''
     @ ''max-position:'' @ qtyToString (max_position c) @ '' ''
     @ ''max-loss:'' @ fmt (max_loss c)
     @ ''}''"

record TradeEngineCfg =
  clip :: Qty
  threshold :: double
  risk_cfg :: RiskCfg

definition TradeEngineCfg_default :: TradeEngineCfg where
  "TradeEngineCfg_default =
     \<lparr>clip = 0, threshold = Fin 0, risk_cfg = RiskCfg_default\<rparr>"

definition TradeEngineCfg_toString :: "(double \<Rightarrow> string) \<Rightarrow> TradeEngineCfg \<Rightarrow> string" where
  "TradeEngineCfg_toString fmt c =
     ''TradeEngineCfg{''
     @ ''clip:'' @ qtyToString (clip c) @ '' ''
     @ ''threshold:'' @ fmt (threshold c) @ '' ''
     @ ''risk:'' @ RiskCfg_toString fmt (risk_cfg c)
     @ ''}''"

section \<open>Limits\<close>

definition LOG_QUEUE_SIZE :: nat where
  "LOG_QUEUE_SIZE = 8 * 1024 * 1024"

definition ME_MAX_TICKERS :: nat where
  "ME_MAX_TICKERS = 8"

definition ME_MAX_CLIENT_UPDATES :: nat where
  "ME_MAX_CLIENT_UPDATES = 256 * 1024"

definition ME_MAX_MARKET_UPDATES :: nat where
  "ME_MAX_MARKET_UPDATES = 256 * 1024"

definition ME_MAX_NUM_CLIENTS :: nat where
  "ME_MAX_NUM_CLIENTS = 256"

definition ME_MAX_ORDER_IDS :: nat where
  "ME_MAX_ORDER_IDS = 1024 * 1024"

definition ME_MAX_PRICE_LEVELS :: nat where
  "ME_MAX_PRICE_LEVELS = 256"

lemmas limit_defs =
  ME_MAX_TICKERS_def ME_MAX_NUM_CLIENTS_def ME_MAX_ORDER_IDS_def ME_MAX_PRICE_LEVELS_def
  ME_MAX_CLIENT_UPDATES_def ME_MAX_MARKET_UPDATES_def

section \<open>Sides and prices\<close>

text \<open>A better price on a side, and the side an order trades against.\<close>

definition better :: "Side \<Rightarrow> Price \<Rightarrow> Price \<Rightarrow> bool" where
  "better sd p q \<longleftrightarrow> (if sd = BUY then q < p else p < q)"

lemma better_trans: "better sd p q \<Longrightarrow> better sd q r \<Longrightarrow> better sd p r"
  by (auto simp: better_def split: if_splits)

lemma better_irrefl [simp]: "\<not> better sd p p"
  by (simp add: better_def)

lemma better_total: "p \<noteq> q \<Longrightarrow> better sd p q \<or> better sd q p"
  by (auto simp: better_def)

lemma better_asym: "better sd p q \<Longrightarrow> \<not> better sd q p"
  by (auto simp: better_def split: if_splits)

definition opp :: "Side \<Rightarrow> Side" where
  "opp sd = (if sd = BUY then SELL else BUY)"

lemma opp_simps [simp]: "opp BUY = SELL" "opp SELL = BUY" "opp sd \<noteq> sd"
  "opp sd = BUY \<or> opp sd = SELL"
  by (simp_all add: opp_def)

end
