(* ===== verification/LockFreeQueue.thy ===== *)
theory LockFreeQueue
  imports Prelude
begin

text \<open>
  \<open>common/lockfree_queue.h\<close>: the ring buffer \<open>LFQueue<T>\<close> every pair of threads communicates
  through. This theory models each member function on its own, as one thread runs it; the
  theory \<open>LockFreeQueueSteps\<close> interleaves the atomic accesses of a producer and a consumer.
  The locale \<open>fifo_channel\<close> is the interface the components rely on: a bounded FIFO as
  long as the producer never gets a full lap ahead. Indices and \<open>num_elements_\<close> are numbers here and
  \<open>size_t\<close> in the code: the indices stay below the size, and \<open>num_elements_\<close> could differ only
  with \<open>2 ^ 64\<close> unread elements.
\<close>

record 'a LFQueue =
  q_store :: "nat \<Rightarrow> 'a"
  q_size :: nat
  next_write_index :: nat
  next_read_index :: nat
  num_elements :: nat

section \<open>The member functions\<close>

definition LFQueue_ctor :: "'a \<Rightarrow> nat \<Rightarrow> 'a LFQueue" where
  "LFQueue_ctor d num_elems =
     \<lparr>q_store = (\<lambda>_. d), q_size = num_elems, next_write_index = 0, next_read_index = 0,
      num_elements = 0\<rparr>"

definition getNextToWriteTo :: "'a LFQueue \<Rightarrow> nat res" where
  "getNextToWriteTo q = sub_idx (q_size q) (next_write_index q) (\<lambda>i. i)"

definition updateWriteIndex :: "'a LFQueue \<Rightarrow> 'a LFQueue res" where
  "updateWriteIndex q =
     (if q_size q = 0 then Inl (Undefined ''modulo by zero'')
      else Inr (q\<lparr>next_write_index := (next_write_index q + 1) mod q_size q,
                  num_elements := num_elements q + 1\<rparr>))"

definition getNextToRead :: "'a LFQueue \<Rightarrow> 'a option" where
  "getNextToRead q =
     (if next_read_index q = next_write_index q then None
      else Some (q_store q (next_read_index q)))"

definition updateReadIndex :: "'a LFQueue \<Rightarrow> 'a LFQueue res" where
  "updateReadIndex q =
     (if q_size q = 0 then Inl (Undefined ''modulo by zero'')
      else bindr (ASSERT (num_elements q \<noteq> 0) ''Read an invalid element in: '')
        (\<lambda>_. Inr (q\<lparr>next_read_index := (next_read_index q + 1) mod q_size q,
                    num_elements := num_elements q - 1\<rparr>)))"

definition LFQueue_size :: "'a LFQueue \<Rightarrow> nat" where
  "LFQueue_size q = num_elements q"

text \<open>
  The three statements every producer of the repository uses:
  \<open>auto p = q->getNextToWriteTo(); *p = v; q->updateWriteIndex();\<close>. Nothing in them, and
  nothing in the queue, checks whether the slot is still unread.
\<close>

definition lfq_push :: "'a \<Rightarrow> 'a LFQueue \<Rightarrow> 'a LFQueue res" where
  "lfq_push v q =
     bindr (getNextToWriteTo q) (\<lambda>i. updateWriteIndex (q\<lparr>q_store := (q_store q)(i := v)\<rparr>))"

text \<open>The guard of the loops that also test \<open>size()\<close> before they use the element.\<close>

definition lfq_peek_sized :: "'a LFQueue \<Rightarrow> 'a option" where
  "lfq_peek_sized q = (if LFQueue_size q \<noteq> 0 then getNextToRead q else None)"

text \<open>
  The consumer loops \<open>for(x = getNextToRead(); x; x = getNextToRead()) { handle(x);
  updateReadIndex(); }\<close>, over any queue operations and any handler.
\<close>

partial_function (option) drain ::
  "('q \<Rightarrow> 'a option) \<Rightarrow> ('q \<Rightarrow> 'q res) \<Rightarrow> ('a \<Rightarrow> 's \<Rightarrow> 's res) \<Rightarrow> 'q \<Rightarrow> 's
    \<Rightarrow> ('q \<times> 's) res option" where
  "drain peek pop h q s =
     (case peek q of
        None \<Rightarrow> Some (Inr (q, s))
      | Some x \<Rightarrow>
          (case h x s of
             Inl e \<Rightarrow> Some (Inl e)
           | Inr s' \<Rightarrow>
               (case pop q of
                  Inl e \<Rightarrow> Some (Inl e)
                | Inr q' \<Rightarrow> drain peek pop h q' s')))"

text \<open>What every call of the handler keeps, the loop keeps.\<close>

lemma drain_invariant:
  assumes "drain peek pop h q s = Some (Inr (q', s'))" and "P s"
    and "\<And>x s t. P s \<Longrightarrow> h x s = Inr t \<Longrightarrow> P t"
  shows "P s'"
proof -
  have "(\<forall>x s t. P s \<longrightarrow> h x s = Inr t \<longrightarrow> P t) \<longrightarrow> P s \<longrightarrow> r = Inr (q', s') \<longrightarrow> P s'"
    if "drain peek pop h q s = Some r" for r
    using that
  proof (induction rule: drain.raw_induct[rotated, consumes 1])
    case (1 drain peek pop h q s r)
    show ?case
    proof (cases "peek q")
      case None
      then show ?thesis using 1(2) by auto
    next
      case (Some x)
      show ?thesis
      proof (intro impI)
        assume h: "\<forall>x s t. P s \<longrightarrow> h x s = Inr t \<longrightarrow> P t" and s: "P s" and r: "r = Inr (q', s')"
        obtain t q1 where t: "h x s = Inr t" "drain peek pop h q1 t = Some r"
          using 1(2) Some r by (auto split: sum.splits)
        then show "P s'" using 1(1)[OF t(2)] h s r by blast
      qed
    qed
  qed
  then show ?thesis using assms by blast
qed

section \<open>The interface: a bounded FIFO\<close>

locale fifo_channel =
  fixes push :: "'a \<Rightarrow> 'q \<Rightarrow> 'q res"
    and peek :: "'q \<Rightarrow> 'a option"
    and pop :: "'q \<Rightarrow> 'q res"
    and items :: "'q \<Rightarrow> 'a list"
    and cap :: "'q \<Rightarrow> nat"
    and ok :: "'q \<Rightarrow> bool"
  assumes push_law: "ok q \<Longrightarrow> length (items q) < cap q \<Longrightarrow>
      \<exists>q'. push v q = Inr q' \<and> ok q' \<and> items q' = items q @ [v] \<and> cap q' = cap q"
    and peek_law: "ok q \<Longrightarrow>
      peek q = (case items q of [] \<Rightarrow> None | x # xs \<Rightarrow> Some x)"
    and pop_law: "ok q \<Longrightarrow> items q \<noteq> [] \<Longrightarrow>
      \<exists>q'. pop q = Inr q' \<and> ok q' \<and> items q' = tl (items q) \<and> cap q' = cap q"
begin

lemma push_all:
  assumes "ok q" and "length (items q) + length vs \<le> cap q"
  shows "\<exists>q'. fold_res push vs q = Inr q' \<and> ok q' \<and> items q' = items q @ vs \<and> cap q' = cap q"
  using assms
proof (induction vs arbitrary: q)
  case Nil
  then show ?case by simp
next
  case (Cons v vs)
  obtain q1 where q1: "push v q = Inr q1" "ok q1" "items q1 = items q @ [v]" "cap q1 = cap q"
    using push_law[of q v] Cons.prems by auto
  then show ?case
    using Cons.IH[of q1] Cons.prems by auto
qed

lemma drain_handles_all:
  assumes "ok q" and "fold_res h (items q) s = Inr s'"
  shows "\<exists>q'. drain peek pop h q s = Some (Inr (q', s')) \<and> ok q' \<and> items q' = [] \<and> cap q' = cap q"
  using assms
proof (induction "items q" arbitrary: q s)
  case Nil
  then show ?case by (subst drain.simps) (simp add: peek_law)
next
  case (Cons x xs)
  from Cons.hyps(2) have it: "items q = x # xs" by simp
  obtain q1 where q1: "pop q = Inr q1" "ok q1" "items q1 = xs" "cap q1 = cap q"
    using pop_law[of q] Cons.prems it by auto
  from Cons.prems(2) it obtain s1 where s1: "h x s = Inr s1" "fold_res h xs s1 = Inr s'"
    by (auto elim: bindr_InrE)
  have "\<exists>q'. drain peek pop h q1 s1 = Some (Inr (q', s')) \<and> ok q' \<and> items q' = []
      \<and> cap q' = cap q1"
    using Cons.hyps(1)[of q1 s1] q1 s1 by simp
  then show ?case
    using peek_law[OF Cons.prems(1)] it q1 s1 by (subst drain.simps) simp
qed

lemma drain_stops_at_error:
  assumes "ok q" and "fold_res h (items q) s = Inl e"
  shows "drain peek pop h q s = Some (Inl e)"
  using assms
proof (induction "items q" arbitrary: q s)
  case Nil
  then show ?case by simp
next
  case (Cons x xs)
  from Cons.hyps(2) have it: "items q = x # xs" by simp
  obtain q1 where q1: "pop q = Inr q1" "ok q1" "items q1 = xs" "cap q1 = cap q"
    using pop_law[of q] Cons.prems it by auto
  show ?case
  proof (cases "h x s")
    case (Inl e')
    then show ?thesis
      using peek_law[OF Cons.prems(1)] it Cons.prems(2) by (subst drain.simps) simp
  next
    case (Inr s1)
    then have "drain peek pop h q1 s1 = Some (Inl e)"
      using Cons.hyps(1)[of q1 s1] Cons.prems(2) q1 it by simp
    then show ?thesis
      using peek_law[OF Cons.prems(1)] it q1 Inr by (subst drain.simps) simp
  qed
qed

end

section \<open>What the ring buffer holds\<close>

definition lfq_items :: "'a LFQueue \<Rightarrow> 'a list" where
  "lfq_items q =
     map (\<lambda>k. q_store q ((next_read_index q + k) mod q_size q)) [0..<num_elements q]"

definition lfq_wf :: "'a LFQueue \<Rightarrow> bool" where
  "lfq_wf q \<longleftrightarrow> next_read_index q < q_size q
     \<and> next_write_index q = (next_read_index q + num_elements q) mod q_size q"

text \<open>One slot of the ring is unusable: with as many unread elements as slots the two
  indices coincide and the reader sees an empty queue.\<close>

definition lfq_capacity :: "'a LFQueue \<Rightarrow> nat" where
  "lfq_capacity q = q_size q - 1"

definition lfq_ok :: "'a LFQueue \<Rightarrow> bool" where
  "lfq_ok q \<longleftrightarrow> lfq_wf q \<and> num_elements q < q_size q"

lemma length_lfq_items [simp]: "length (lfq_items q) = num_elements q"
  by (simp add: lfq_items_def)

lemma lfq_ctor_ok [wf_intros]: "0 < n \<Longrightarrow> lfq_ok (LFQueue_ctor d n)"
  by (simp add: lfq_ok_def lfq_wf_def LFQueue_ctor_def)

lemma lfq_ctor_simps [simp]:
  "lfq_items (LFQueue_ctor d n) = []" "lfq_capacity (LFQueue_ctor d n) = n - 1"
  by (simp_all add: lfq_items_def lfq_capacity_def LFQueue_ctor_def)

lemma mod_index_inj:
  assumes "j < k" and "k < n" and "(r + j) mod n = (r + k) mod (n::nat)"
  shows False
proof -
  have "n dvd (r + k) - (r + j)"
    using assms(1,3) by (metis mod_eq_dvd_iff_nat add_le_cancel_left less_imp_le)
  then show False
    using assms(1,2) by (auto dest: dvd_imp_le)
qed

lemma lfq_push_wf:
  assumes "lfq_wf q"
  obtains q' where "lfq_push v q = Inr q'" "lfq_wf q'" "q_size q' = q_size q"
    "num_elements q' = num_elements q + 1" "next_read_index q' = next_read_index q"
    "q_store q' = (q_store q)(next_write_index q := v)"
proof -
  have "next_write_index q < q_size q" "q_size q \<noteq> 0"
    using assms by (auto simp: lfq_wf_def)
  then show thesis
    using assms
    by (intro that[of "q\<lparr>q_store := (q_store q)(next_write_index q := v),
                next_write_index := (next_write_index q + 1) mod q_size q,
                num_elements := num_elements q + 1\<rparr>"])
      (auto simp: lfq_push_def getNextToWriteTo_def updateWriteIndex_def lfq_wf_def mod_simps)
qed

lemma lfq_items_push:
  assumes "lfq_wf q" and "num_elements q < q_size q"
    and "q_size q' = q_size q" "num_elements q' = num_elements q + 1"
    "next_read_index q' = next_read_index q"
    "q_store q' = (q_store q)(next_write_index q := v)"
  shows "lfq_items q' = lfq_items q @ [v]"
proof -
  have "q_store q' ((next_read_index q + k) mod q_size q)
      = q_store q ((next_read_index q + k) mod q_size q)" if "k < num_elements q" for k
    using that assms(1,2,6) mod_index_inj[OF that] by (auto simp: lfq_wf_def)
  then show ?thesis
    using assms by (simp add: lfq_items_def lfq_wf_def)
qed

lemma lfq_pop_ok:
  assumes "lfq_wf q" and "num_elements q \<noteq> 0"
  obtains q' where "updateReadIndex q = Inr q'" "lfq_wf q'" "q_size q' = q_size q"
    "num_elements q' = num_elements q - 1" "lfq_items q' = tl (lfq_items q)"
proof -
  let ?q = "q\<lparr>next_read_index := (next_read_index q + 1) mod q_size q,
              num_elements := num_elements q - 1\<rparr>"
  have sz: "q_size q \<noteq> 0" using assms by (auto simp: lfq_wf_def)
  obtain m where m: "num_elements q = Suc m"
    using assms(2) not0_implies_Suc by blast
  have "lfq_wf ?q"
    using assms sz by (simp add: lfq_wf_def mod_simps m)
  moreover have "lfq_items ?q = tl (lfq_items q)"
  proof (rule nth_equalityI)
    show "length (lfq_items ?q) = length (tl (lfq_items q))" by simp
  next
    fix i assume "i < length (lfq_items ?q)"
    then show "lfq_items ?q ! i = tl (lfq_items q) ! i"
      by (simp add: lfq_items_def nth_tl mod_simps m del: upt_Suc)
  qed
  moreover have "updateReadIndex q = Inr ?q"
    using assms sz by (simp add: updateReadIndex_def)
  ultimately show thesis using that[of ?q] by simp
qed

lemma lfq_peek_ok:
  assumes "lfq_wf q" and "num_elements q < q_size q"
  shows "getNextToRead q = (case lfq_items q of [] \<Rightarrow> None | x # xs \<Rightarrow> Some x)"
proof (cases "num_elements q")
  case 0
  then show ?thesis
    using assms by (simp add: getNextToRead_def lfq_wf_def lfq_items_def)
next
  case (Suc n)
  have ne: "next_read_index q \<noteq> next_write_index q"
    using mod_index_inj[of 0 "num_elements q" "q_size q" "next_read_index q"] assms Suc
    by (auto simp: lfq_wf_def)
  have "lfq_items q \<noteq> []" "hd (lfq_items q) = q_store q (next_read_index q)"
    using assms Suc by (simp_all add: lfq_items_def lfq_wf_def upt_rec)
  then show ?thesis
    using ne by (auto simp: getNextToRead_def split: list.splits)
qed

interpretation lfq: fifo_channel lfq_push getNextToRead updateReadIndex lfq_items
  lfq_capacity lfq_ok
proof (unfold_locales, goal_cases)
  case (1 q v)
  then have wf: "lfq_wf q" and room: "num_elements q + 1 < q_size q"
    by (auto simp: lfq_ok_def lfq_capacity_def)
  from lfq_push_wf[OF wf] obtain q' where q': "lfq_push v q = Inr q'" "lfq_wf q'"
    "q_size q' = q_size q" "num_elements q' = num_elements q + 1"
    "next_read_index q' = next_read_index q"
    "q_store q' = (q_store q)(next_write_index q := v)"
    by blast
  then have "lfq_items q' = lfq_items q @ [v]"
    using wf room by (intro lfq_items_push) auto
  then show ?case
    using q' room by (auto simp: lfq_ok_def lfq_capacity_def)
next
  case (2 q)
  then show ?case by (simp add: lfq_ok_def lfq_peek_ok)
next
  case (3 q)
  then have ne: "num_elements q \<noteq> 0"
    using length_lfq_items[of q] by (metis length_0_conv)
  have wf: "lfq_wf q" using 3 by (simp add: lfq_ok_def)
  from lfq_pop_ok[OF wf ne] obtain q' where "updateReadIndex q = Inr q'" "lfq_wf q'" "q_size q' = q_size q"
    "num_elements q' = num_elements q - 1" "lfq_items q' = tl (lfq_items q)"
    by blast
  then show ?case
    using 3 by (auto simp: lfq_ok_def lfq_capacity_def)
qed

lemma lfq_peek_sized_eq: "lfq_ok q \<Longrightarrow> lfq_peek_sized q = getNextToRead q"
  by (auto simp: lfq_peek_sized_def LFQueue_size_def lfq_ok_def lfq_wf_def getNextToRead_def)

interpretation lfq_sized: fifo_channel lfq_push lfq_peek_sized updateReadIndex lfq_items
  lfq_capacity lfq_ok
  by unfold_locales
    (use lfq.push_law lfq.peek_law lfq.pop_law in \<open>auto simp: lfq_peek_sized_eq\<close>)

end
