(* ===== verification/Messages.thy ===== *)
theory Messages
  imports Types LockFreeQueue
begin

text \<open>
  The messages of the exchange: \<open>exchange/order_server/client_request.h\<close>,
  \<open>exchange/order_server/client_response.h\<close> and \<open>exchange/market_data/market_update.h\<close>,
  with the queue types that carry them inside a process. Fields of the three message types
  carry the prefixes \<open>rq\<close>, \<open>rs\<close> and \<open>mu\<close>.
\<close>

section \<open>Client requests\<close>

datatype ClientRequestType =
  CRT_INVALID | CRT_NEW | CRT_CANCEL | CRT_other "8 word"

fun clientRequestTypeToString :: "ClientRequestType \<Rightarrow> string" where
  "clientRequestTypeToString CRT_NEW = ''NEW''"
| "clientRequestTypeToString CRT_CANCEL = ''CANCEL''"
| "clientRequestTypeToString CRT_INVALID = ''INVALID''"
| "clientRequestTypeToString (CRT_other b) = ''UNKNOWN''"

record MEClientRequest =
  rq_type :: ClientRequestType
  rq_client_id :: ClientId
  rq_ticker_id :: TickerId
  rq_order_id :: OrderId
  rq_side :: Side
  rq_price :: Price
  rq_qty :: Qty

definition MEClientRequest_default :: MEClientRequest where
  "MEClientRequest_default =
     \<lparr>rq_type = CRT_INVALID, rq_client_id = ClientId_INVALID, rq_ticker_id = TickerId_INVALID,
      rq_order_id = OrderId_INVALID, rq_side = Side_INVALID, rq_price = Price_INVALID,
      rq_qty = Qty_INVALID\<rparr>"

definition MEClientRequest_toString :: "MEClientRequest \<Rightarrow> string" where
  "MEClientRequest_toString r =
     ''MEClientRequest'' @ '' [''
     @ ''type:'' @ clientRequestTypeToString (rq_type r) @ '' ''
     @ ''client:'' @ clientIdToString (rq_client_id r) @ '' ''
     @ ''ticker:'' @ TickerIdToString (rq_ticker_id r) @ '' ''
     @ ''oid:'' @ orderIdToString (rq_order_id r) @ '' ''
     @ ''side:'' @ sideToString (rq_side r) @ '' ''
     @ ''qty:'' @ qtyToString (rq_qty r) @ '' ''
     @ ''price:'' @ priceToString (rq_price r)
     @ '']''"

record OMClientRequest =
  omrq_seq_num :: "64 word"
  me_client_request :: MEClientRequest

definition OMClientRequest_toString :: "OMClientRequest \<Rightarrow> string" where
  "OMClientRequest_toString r =
     ''OMClientRequest'' @ '' [''
     @ ''seq:'' @ nat_to_string (unat (omrq_seq_num r))
     @ '' '' @ MEClientRequest_toString (me_client_request r)
     @ '']''"

type_synonym ClientRequestLFQueue = "MEClientRequest LFQueue"

section \<open>Client responses\<close>

datatype ClientResponseType =
  CRS_INVALID | CRS_ACCEPTED | CRS_CANCELED | CRS_FILLED | CRS_CANCEL_REJECTED
  | CRS_other "8 word"

fun clientResponseTypeToString :: "ClientResponseType \<Rightarrow> string" where
  "clientResponseTypeToString CRS_ACCEPTED = ''ACCEPTED''"
| "clientResponseTypeToString CRS_CANCELED = ''CANCELED''"
| "clientResponseTypeToString CRS_FILLED = ''FILLED''"
| "clientResponseTypeToString CRS_CANCEL_REJECTED = ''CANCEL_REJECTED''"
| "clientResponseTypeToString CRS_INVALID = ''INVALID''"
| "clientResponseTypeToString (CRS_other b) = ''UNKNOWN''"

record MEClientResponse =
  rs_type :: ClientResponseType
  rs_client_id :: ClientId
  rs_ticker_id :: TickerId
  rs_client_order_id :: OrderId
  rs_market_order_id :: OrderId
  rs_side :: Side
  rs_price :: Price
  rs_exec_qty :: Qty
  rs_leaves_qty :: Qty

definition MEClientResponse_default :: MEClientResponse where
  "MEClientResponse_default =
     \<lparr>rs_type = CRS_INVALID, rs_client_id = ClientId_INVALID, rs_ticker_id = TickerId_INVALID,
      rs_client_order_id = OrderId_INVALID, rs_market_order_id = OrderId_INVALID,
      rs_side = Side_INVALID, rs_price = Price_INVALID, rs_exec_qty = Qty_INVALID,
      rs_leaves_qty = Qty_INVALID\<rparr>"

definition MEClientResponse_toString :: "MEClientResponse \<Rightarrow> string" where
  "MEClientResponse_toString r =
     ''MEClientResponse'' @ '' [''
     @ ''type:'' @ clientResponseTypeToString (rs_type r) @ '' ''
     @ ''client:'' @ clientIdToString (rs_client_id r) @ '' ''
     @ ''ticker:'' @ TickerIdToString (rs_ticker_id r) @ '' ''
     @ ''coid:'' @ orderIdToString (rs_client_order_id r) @ '' ''
     @ ''moid:'' @ orderIdToString (rs_market_order_id r) @ '' ''
     @ ''side:'' @ sideToString (rs_side r) @ '' ''
     @ ''exec_qty:'' @ qtyToString (rs_exec_qty r) @ '' ''
     @ ''leaves_qty:'' @ qtyToString (rs_leaves_qty r) @ '' ''
     @ ''price:'' @ priceToString (rs_price r)
     @ '']''"

record OMClientResponse =
  omrs_seq_num :: "64 word"
  me_client_response :: MEClientResponse

definition OMClientResponse_toString :: "OMClientResponse \<Rightarrow> string" where
  "OMClientResponse_toString r =
     ''OMClientResponse'' @ '' [''
     @ ''seq:'' @ nat_to_string (unat (omrs_seq_num r))
     @ '' '' @ MEClientResponse_toString (me_client_response r)
     @ '']''"

type_synonym ClientResponseLFQueue = "MEClientResponse LFQueue"

section \<open>Market updates\<close>

datatype MarketUpdateType =
  MUT_INVALID | MUT_CLEAR | MUT_ADD | MUT_MODIFY | MUT_CANCEL | MUT_TRADE
  | MUT_SNAPSHOT_START | MUT_SNAPSHOT_END | MUT_other "8 word"

text \<open>The switch has no case for \<open>CLEAR\<close>, \<open>SNAPSHOT_START\<close> and \<open>SNAPSHOT_END\<close>.\<close>

fun marketUpdateTypeToString :: "MarketUpdateType \<Rightarrow> string" where
  "marketUpdateTypeToString MUT_ADD = ''ADD''"
| "marketUpdateTypeToString MUT_MODIFY = ''MODIFY''"
| "marketUpdateTypeToString MUT_CANCEL = ''CANCEL''"
| "marketUpdateTypeToString MUT_TRADE = ''TRADE''"
| "marketUpdateTypeToString MUT_INVALID = ''INVALID''"
| "marketUpdateTypeToString _ = ''UNKNOWN''"

record MEMarketUpdate =
  mu_type :: MarketUpdateType
  mu_order_id :: OrderId
  mu_ticker_id :: TickerId
  mu_side :: Side
  mu_price :: Price
  mu_qty :: Qty
  mu_priority :: Priority

definition MEMarketUpdate_default :: MEMarketUpdate where
  "MEMarketUpdate_default =
     \<lparr>mu_type = MUT_INVALID, mu_order_id = OrderId_INVALID, mu_ticker_id = TickerId_INVALID,
      mu_side = Side_INVALID, mu_price = Price_INVALID, mu_qty = Qty_INVALID,
      mu_priority = Priority_INVALID\<rparr>"

definition MEMarketUpdate_toString :: "MEMarketUpdate \<Rightarrow> string" where
  "MEMarketUpdate_toString u =
     ''MEMarketUpdate'' @ '' [''
     @ ''type:'' @ marketUpdateTypeToString (mu_type u) @ '' ''
     @ ''ticker:'' @ TickerIdToString (mu_ticker_id u) @ '' ''
     @ ''oid:'' @ orderIdToString (mu_order_id u) @ '' ''
     @ ''side:'' @ sideToString (mu_side u) @ '' ''
     @ ''qty:'' @ qtyToString (mu_qty u) @ '' ''
     @ ''price:'' @ priceToString (mu_price u) @ '' ''
     @ ''priority:'' @ priorityToString (mu_priority u)
     @ '']''"

record MDPMarketUpdate =
  mdp_seq_num :: "64 word"
  me_market_update :: MEMarketUpdate

definition MDPMarketUpdate_toString :: "MDPMarketUpdate \<Rightarrow> string" where
  "MDPMarketUpdate_toString u =
     ''MDPMarketUpdate'' @ '' [''
     @ '' seq:'' @ nat_to_string (unat (mdp_seq_num u))
     @ '' '' @ MEMarketUpdate_toString (me_market_update u)
     @ '']''"

type_synonym MEMarketUpdateLFQueue = "MEMarketUpdate LFQueue"
type_synonym MDPMarketUpdateLFQueue = "MDPMarketUpdate LFQueue"

end
