(* ===== verification/MemoryPool.thy ===== *)
theory MemoryPool
  imports Prelude
begin

text \<open>
  \<open>common/memory_pool.h\<close>: the pre-allocated pool \<open>MemPool<T>\<close>. An address is the index of
  a block; a released block keeps its old contents, so a stale pointer reads old data, as
  in the code. The locale \<open>allocator\<close> is the interface the order books rely on.
\<close>

record 'a ObjectBlock =
  object :: 'a
  is_free :: bool

record 'a MemPool =
  pool_store :: "nat \<Rightarrow> 'a ObjectBlock"
  pool_size :: nat
  next_free_index :: nat

section \<open>The member functions\<close>

text \<open>The constructor's assertion reads \<open>store_[0]\<close>; a block's object is its first member,
  so it holds.\<close>

definition MemPool_ctor :: "'a \<Rightarrow> nat \<Rightarrow> 'a MemPool" where
  "MemPool_ctor d num_elems =
     \<lparr>pool_store = (\<lambda>_. \<lparr>object = d, is_free = True\<rparr>), pool_size = num_elems,
      next_free_index = 0\<rparr>"

text \<open>The scan of \<open>updateNextFreeIndex\<close>; \<open>initial\<close> is where it started.\<close>

function scan_free :: "(nat \<Rightarrow> bool) \<Rightarrow> nat \<Rightarrow> nat \<Rightarrow> nat \<Rightarrow> nat res" where
  "scan_free free sz initial i =
     (if \<not> (i < sz \<and> initial < sz) then Inl (Undefined ''subscript out of range'')
      else if free i then Inr i
      else let i' = (if i + 1 = sz then 0 else i + 1)
           in if initial = i' then Inl (Assert_failed ''Memory pool out of space.'')
              else scan_free free sz initial i')"
  by pat_completeness auto
termination
  by (relation "measure (\<lambda>(free, sz, initial, i).
        if i < initial then initial - i else sz + initial - i)") auto

declare scan_free.simps [simp del]

definition updateNextFreeIndex :: "'a MemPool \<Rightarrow> 'a MemPool res" where
  "updateNextFreeIndex p =
     bindr (scan_free (\<lambda>i. is_free (pool_store p i)) (pool_size p) (next_free_index p)
              (next_free_index p))
       (\<lambda>i. Inr (p\<lparr>next_free_index := i\<rparr>))"

definition allocate :: "'a \<Rightarrow> 'a MemPool \<Rightarrow> (nat \<times> 'a MemPool) res" where
  "allocate v p =
     bindr (sub_idx (pool_size p) (next_free_index p) (pool_store p)) (\<lambda>obj_block.
     bindr (ASSERT (is_free obj_block)
              (''Expected free ObjectBlock at index: '' @ nat_to_string (next_free_index p)))
       (\<lambda>_. let ret = next_free_index p;
                p1 = p\<lparr>pool_store := (pool_store p)(ret := \<lparr>object = v, is_free = False\<rparr>)\<rparr>
            in bindr (updateNextFreeIndex p1) (\<lambda>p2. Inr (ret, p2))))"

definition deallocate :: "nat \<Rightarrow> 'a MemPool \<Rightarrow> 'a MemPool res" where
  "deallocate elem p =
     bindr (ASSERT (elem < pool_size p)
              ''Element being deallocated does not belong to this Memory pool.'') (\<lambda>_.
     bindr (ASSERT (\<not> is_free (pool_store p elem))
              (''Expected ObjectBlock at index: '' @ nat_to_string elem)) (\<lambda>_.
     Inr (p\<lparr>pool_store := (pool_store p)(elem := (pool_store p elem)\<lparr>is_free := True\<rparr>)\<rparr>)))"

text \<open>Reading and writing the object behind a pointer.\<close>

definition obj :: "'a MemPool \<Rightarrow> nat \<Rightarrow> 'a" where
  "obj p a = object (pool_store p a)"

definition upd_obj :: "nat \<Rightarrow> ('a \<Rightarrow> 'a) \<Rightarrow> 'a MemPool \<Rightarrow> 'a MemPool" where
  "upd_obj a f p =
     p\<lparr>pool_store := (pool_store p)(a := (pool_store p a)\<lparr>object := f (obj p a)\<rparr>)\<rparr>"

section \<open>What is allocated\<close>

definition live :: "'a MemPool \<Rightarrow> nat set" where
  "live p = {i. i < pool_size p \<and> \<not> is_free (pool_store p i)}"

definition pool_wf :: "'a MemPool \<Rightarrow> bool" where
  "pool_wf p \<longleftrightarrow> next_free_index p < pool_size p \<and> is_free (pool_store p (next_free_index p))"

lemma finite_live [simp]: "finite (live p)"
  by (simp add: live_def)

lemma live_bound: "i \<in> live p \<Longrightarrow> i < pool_size p"
  by (simp add: live_def)

lemma obj_upd [view_simps, simp]: "obj (upd_obj a f p) b = (if b = a then f (obj p a) else obj p b)"
  by (simp add: obj_def upd_obj_def)

lemma live_upd [view_simps, simp]: "live (upd_obj a f p) = live p"
  by (auto simp: live_def upd_obj_def)

lemma pool_size_upd [view_simps, simp]: "pool_size (upd_obj a f p) = pool_size p"
  by (simp add: upd_obj_def)

lemma pool_wf_upd [view_simps, simp]: "pool_wf (upd_obj a f p) = pool_wf p"
  by (simp add: pool_wf_def upd_obj_def)

lemma ctor_pool [simp]:
  "live (MemPool_ctor d n) = {}" "pool_size (MemPool_ctor d n) = n" "obj (MemPool_ctor d n) i = d"
  by (simp_all add: live_def MemPool_ctor_def obj_def)

lemma ctor_pool_wf [wf_intros]: "0 < n \<Longrightarrow> pool_wf (MemPool_ctor d n)"
  by (simp add: pool_wf_def MemPool_ctor_def)

section \<open>The scan for the next free block\<close>

text \<open>Every block between the start of the scan and the index it stands at is in use.\<close>

definition scanned :: "nat \<Rightarrow> nat \<Rightarrow> nat \<Rightarrow> nat set" where
  "scanned sz initial i =
     (if initial \<le> i then {initial..<i} else {initial..<sz} \<union> {0..<i})"

lemma scan_free_sound:
  "scan_free free sz initial i = Inr j \<Longrightarrow> j < sz \<and> free j"
proof (induction free sz initial i rule: scan_free.induct)
  case (1 free sz initial i)
  let ?i = "if i + 1 = sz then 0 else i + 1"
  show ?case
  proof (cases "i < sz \<and> initial < sz \<and> \<not> free i \<and> initial \<noteq> ?i")
    case True
    then have "scan_free free sz initial ?i = Inr j"
      using "1.prems" by (subst (asm) scan_free.simps) (auto simp: Let_def)
    then show ?thesis using "1.IH"[OF _ _ refl] True by blast
  next
    case False
    then show ?thesis
      using "1.prems" by (subst (asm) scan_free.simps) (auto simp: Let_def split: if_splits)
  qed
qed

lemma scan_free_finds:
  assumes "initial < sz" "i < sz" "\<forall>k \<in> scanned sz initial i. \<not> free k"
    and "\<exists>k < sz. free k"
  shows "\<exists>j. scan_free free sz initial i = Inr j"
  using assms
proof (induction free sz initial i rule: scan_free.induct)
  case (1 free sz initial i)
  let ?i = "if i + 1 = sz then 0 else i + 1"
  show ?case
  proof (cases "free i")
    case True
    then show ?thesis using "1.prems" by (subst scan_free.simps) simp
  next
    case False
    have sc: "\<forall>k \<in> scanned sz initial ?i. \<not> free k" if "initial \<noteq> ?i"
      using that False "1.prems" by (auto simp: scanned_def less_Suc_eq split: if_splits)
    have "initial \<noteq> ?i"
    proof
      assume eq: "initial = ?i"
      obtain k where k: "k < sz" "free k" using "1.prems"(4) by blast
      have "k = i \<or> k \<in> scanned sz initial i"
        using eq k "1.prems"(1,2) by (auto simp: scanned_def split: if_splits)
      then show False using k False "1.prems"(3) by blast
    qed
    moreover from this have "\<exists>j. scan_free free sz initial ?i = Inr j"
      using "1.IH"[OF _ False refl] sc "1.prems" False by auto
    ultimately show ?thesis
      using "1.prems" False by (subst scan_free.simps) (simp add: Let_def)
  qed
qed

lemma scan_free_full:
  assumes "initial < sz" "i < sz" "\<forall>k < sz. \<not> free k"
  shows "scan_free free sz initial i = Inl (Assert_failed ''Memory pool out of space.'')"
  using assms
proof (induction free sz initial i rule: scan_free.induct)
  case (1 free sz initial i)
  then show ?case by (subst scan_free.simps) (auto simp: Let_def)
qed

section \<open>Allocation and release\<close>

lemma allocate_ok:
  assumes "pool_wf p" and "card (live p) + 1 < pool_size p"
  obtains a p' where "allocate v p = Inr (a, p')" "a \<notin> live p" "a = next_free_index p"
    "live p' = insert a (live p)" "pool_wf p'" "pool_size p' = pool_size p"
    "\<And>b. obj p' b = (if b = a then v else obj p b)"
proof -
  let ?a = "next_free_index p"
  let ?p = "p\<lparr>pool_store := (pool_store p)(?a := \<lparr>object = v, is_free = False\<rparr>)\<rparr>"
  have a: "?a < pool_size p" "is_free (pool_store p ?a)"
    using assms(1) by (auto simp: pool_wf_def)
  then have na: "?a \<notin> live p" by (simp add: live_def)
  have "\<exists>k < pool_size p. is_free (pool_store ?p k)"
  proof (rule ccontr)
    assume "\<not> ?thesis"
    then have "{..<pool_size p} \<subseteq> insert ?a (live p)"
      by (auto simp: live_def split: if_splits)
    then have "card {..<pool_size p} \<le> card (insert ?a (live p))"
      by (intro card_mono) auto
    then show False using assms(2) na by simp
  qed
  then have "\<exists>j. scan_free (\<lambda>i. is_free (pool_store ?p i)) (pool_size p) ?a ?a = Inr j"
    using a by (intro scan_free_finds) (auto simp: scanned_def)
  then obtain j where j: "scan_free (\<lambda>i. is_free (pool_store ?p i)) (pool_size ?p) ?a ?a = Inr j"
    by auto
  then have jf: "j < pool_size p" "is_free (pool_store ?p j)"
    using scan_free_sound[OF j] by auto
  have "allocate v p = Inr (?a, ?p\<lparr>next_free_index := j\<rparr>)"
    using a j by (simp add: allocate_def updateNextFreeIndex_def Let_def)
  then show thesis
    using a na jf
    by (intro that[of ?a "?p\<lparr>next_free_index := j\<rparr>"])
      (auto simp: live_def pool_wf_def obj_def)
qed

lemma deallocate_ok:
  assumes "a \<in> live p" and "pool_wf p"
  obtains p' where "deallocate a p = Inr p'" "live p' = live p - {a}" "pool_wf p'"
    "pool_size p' = pool_size p" "\<And>b. obj p' b = obj p b"
  using assms
  by (intro that[of "p\<lparr>pool_store := (pool_store p)(a := (pool_store p a)\<lparr>is_free := True\<rparr>)\<rparr>"])
    (auto simp: deallocate_def live_def pool_wf_def obj_def)

lemma deallocate_InrD:
  assumes "deallocate a p = Inr p'"
  shows "a \<in> live p" and "live p' = live p - {a}" and "pool_size p' = pool_size p"
    and "\<And>b. obj p' b = obj p b"
  using assms by (auto simp: deallocate_def live_def obj_def elim!: bindr_InrE split: if_splits)

section \<open>The interface: an allocator\<close>

locale allocator =
  fixes alloc :: "'a \<Rightarrow> 'p \<Rightarrow> (nat \<times> 'p) res"
    and release :: "nat \<Rightarrow> 'p \<Rightarrow> 'p res"
    and get :: "'p \<Rightarrow> nat \<Rightarrow> 'a"
    and used :: "'p \<Rightarrow> nat set"
    and room :: "'p \<Rightarrow> nat"
    and ok :: "'p \<Rightarrow> bool"
  assumes used_finite: "finite (used p)"
    and alloc_law: "ok p \<Longrightarrow> card (used p) < room p \<Longrightarrow>
      \<exists>a p'. alloc v p = Inr (a, p') \<and> a \<notin> used p \<and> used p' = insert a (used p) \<and> ok p'
        \<and> room p' = room p \<and> (\<forall>b. get p' b = (if b = a then v else get p b))"
    and release_law: "ok p \<Longrightarrow> a \<in> used p \<Longrightarrow>
      \<exists>p'. release a p = Inr p' \<and> used p' = used p - {a} \<and> ok p' \<and> room p' = room p
        \<and> (\<forall>b. get p' b = get p b)"
begin

lemma alloc_release:
  assumes "ok p" "card (used p) < room p"
  shows "\<exists>a p' p''. alloc v p = Inr (a, p') \<and> release a p' = Inr p'' \<and> used p'' = used p
    \<and> ok p'' \<and> room p'' = room p \<and> (\<forall>b. b \<noteq> a \<longrightarrow> get p'' b = get p b)"
proof -
  obtain a p' where a: "alloc v p = Inr (a, p')" "a \<notin> used p" "used p' = insert a (used p)"
    "ok p'" "room p' = room p" "\<forall>b. get p' b = (if b = a then v else get p b)"
    using alloc_law[OF assms, of v] by blast
  then obtain p'' where "release a p' = Inr p''" "used p'' = used p' - {a}" "ok p''"
    "room p'' = room p'" "\<forall>b. get p'' b = get p' b"
    using release_law[of p' a] by auto
  then show ?thesis using a by auto
qed

lemma alloc_many:
  assumes "ok p" "card (used p) + length vs \<le> room p"
  shows "\<exists>p'. fold_res (\<lambda>v q. bindr (alloc v q) (\<lambda>(a, q'). Inr q')) vs p = Inr p' \<and> ok p'
    \<and> card (used p') = card (used p) + length vs \<and> room p' = room p"
  using assms
proof (induction vs arbitrary: p)
  case Nil
  then show ?case by simp
next
  case (Cons v vs)
  then obtain a p1 where a: "alloc v p = Inr (a, p1)" "a \<notin> used p" "used p1 = insert a (used p)"
    "ok p1" "room p1 = room p"
    using alloc_law[of p v] by auto
  then have "card (used p1) = Suc (card (used p))" by (simp add: used_finite)
  then show ?case
    using Cons.IH[of p1] Cons.prems a by auto
qed

end

interpretation pool: allocator allocate deallocate obj live "\<lambda>p. pool_size p - 1" pool_wf
proof (unfold_locales, goal_cases)
  case (1 p)
  then show ?case by simp
next
  case (2 p v)
  then have "card (live p) + 1 < pool_size p" by simp
  from allocate_ok[OF 2(1) this, of v] show ?case by metis
next
  case (3 p a)
  from deallocate_ok[OF 3(2) 3(1)] show ?case by metis
qed

end
