(* ===== verification/MEOrder.thy ===== *)
theory MEOrder
  imports Messages MemoryPool
begin

text \<open>
  \<open>exchange/matcher/me_order.h\<close> and \<open>me_order.cpp\<close>: the order and the price level of the
  matching engine's book. The pointer fields hold indices into the book's two pools.
\<close>

record MEOrder =
  o_ticker_id :: TickerId
  o_client_id :: ClientId
  o_client_order_id :: OrderId
  o_market_order_id :: OrderId
  o_side :: Side
  o_price :: Price
  o_qty :: Qty
  o_priority :: Priority
  o_prev :: ptr
  o_next :: ptr

definition MEOrder_default :: MEOrder where
  "MEOrder_default =
     \<lparr>o_ticker_id = TickerId_INVALID, o_client_id = ClientId_INVALID,
      o_client_order_id = OrderId_INVALID, o_market_order_id = OrderId_INVALID,
      o_side = Side_INVALID, o_price = Price_INVALID, o_qty = Qty_INVALID,
      o_priority = Priority_INVALID, o_prev = None, o_next = None\<rparr>"

definition MEOrder_ctor ::
  "TickerId \<Rightarrow> ClientId \<Rightarrow> OrderId \<Rightarrow> OrderId \<Rightarrow> Side \<Rightarrow> Price \<Rightarrow> Qty \<Rightarrow> Priority \<Rightarrow> ptr \<Rightarrow> ptr
    \<Rightarrow> MEOrder" where
  "MEOrder_ctor ticker_id client_id client_order_id market_order_id side price qty priority
     prev_order next_order =
     \<lparr>o_ticker_id = ticker_id, o_client_id = client_id, o_client_order_id = client_order_id,
      o_market_order_id = market_order_id, o_side = side, o_price = price, o_qty = qty,
      o_priority = priority, o_prev = prev_order, o_next = next_order\<rparr>"

record MEOrdersAtPrice =
  l_side :: Side
  l_price :: Price
  l_first :: ptr
  l_prev :: ptr
  l_next :: ptr

definition MEOrdersAtPrice_default :: MEOrdersAtPrice where
  "MEOrdersAtPrice_default =
     \<lparr>l_side = Side_INVALID, l_price = Price_INVALID, l_first = None, l_prev = None,
      l_next = None\<rparr>"

definition MEOrdersAtPrice_ctor ::
  "Side \<Rightarrow> Price \<Rightarrow> ptr \<Rightarrow> ptr \<Rightarrow> ptr \<Rightarrow> MEOrdersAtPrice" where
  "MEOrdersAtPrice_ctor side price first_me_order prev_entry next_entry =
     \<lparr>l_side = side, l_price = price, l_first = first_me_order, l_prev = prev_entry,
      l_next = next_entry\<rparr>"

text \<open>Printing an order reads the orders its links point to, hence the pool.\<close>

definition MEOrder_toString :: "MEOrder MemPool \<Rightarrow> MEOrder \<Rightarrow> string" where
  "MEOrder_toString pool ord =
     ''MEOrder'' @ '' [''
     @ ''ticker:'' @ TickerIdToString (o_ticker_id ord) @ '' ''
     @ ''cid:'' @ clientIdToString (o_client_id ord) @ '' ''
     @ ''coid:'' @ orderIdToString (o_client_order_id ord) @ '' ''
     @ ''moid:'' @ orderIdToString (o_market_order_id ord) @ '' ''
     @ ''side:'' @ sideToString (o_side ord) @ '' ''
     @ ''price:'' @ priceToString (o_price ord) @ '' ''
     @ ''prio:'' @ priorityToString (o_priority ord) @ '' ''
     @ ''prev:''
     @ orderIdToString (case o_prev ord of Some p \<Rightarrow> o_market_order_id (obj pool p)
                        | None \<Rightarrow> OrderId_INVALID) @ '' ''
     @ ''next:''
     @ orderIdToString (case o_next ord of Some p \<Rightarrow> o_market_order_id (obj pool p)
                        | None \<Rightarrow> OrderId_INVALID)
     @ '']''"

definition MEOrdersAtPrice_toString ::
  "MEOrder MemPool \<Rightarrow> MEOrdersAtPrice MemPool \<Rightarrow> MEOrdersAtPrice \<Rightarrow> string" where
  "MEOrdersAtPrice_toString orders levels l =
     ''MEOrdersAtPrice'' @ '' [''
     @ ''side:'' @ sideToString (l_side l) @ '' ''
     @ ''price:'' @ priceToString (l_price l)
     @ ''first_me_order:''
     @ (case l_first l of Some p \<Rightarrow> MEOrder_toString orders (obj orders p) | None \<Rightarrow> ''null'') @ '' ''
     @ ''prev:''
     @ priceToString (case l_prev l of Some p \<Rightarrow> l_price (obj levels p) | None \<Rightarrow> Price_INVALID) @ '' ''
     @ ''next:''
     @ priceToString (case l_next l of Some p \<Rightarrow> l_price (obj levels p) | None \<Rightarrow> Price_INVALID) @ '' ''
     @ '']''"

end
