(* ===== verification/CircList.thy ===== *)
theory CircList
  imports Prelude
begin

text \<open>
  Circular doubly linked lists, the shape of every list of the two order books (the orders
  at one price, the price levels of one side): \<open>nxt\<close> and \<open>prv\<close> are the link fields as
  functions of the address, \<open>seg\<close> says that consecutive addresses of a list are linked both
  ways, and \<open>circ nxt prv xs\<close> that the nodes \<open>xs\<close>, starting at the head, form a ring. A ring
  may be read from any of its nodes, so inserting before a node and unlinking a node are
  proved once, at the front.
\<close>

fun seg :: "('a \<Rightarrow> 'a option) \<Rightarrow> ('a \<Rightarrow> 'a option) \<Rightarrow> 'a list \<Rightarrow> bool" where
  "seg nxt prv (x # y # zs) \<longleftrightarrow> nxt x = Some y \<and> prv y = Some x \<and> seg nxt prv (y # zs)"
| "seg nxt prv _ \<longleftrightarrow> True"

definition circ :: "('a \<Rightarrow> 'a option) \<Rightarrow> ('a \<Rightarrow> 'a option) \<Rightarrow> 'a list \<Rightarrow> bool" where
  "circ nxt prv xs \<longleftrightarrow> xs \<noteq> [] \<and> distinct xs \<and> seg nxt prv (xs @ [hd xs])"

lemma seg_append: "seg nxt prv (xs @ y # zs) \<longleftrightarrow> seg nxt prv (xs @ [y]) \<and> seg nxt prv (y # zs)"
proof (induction xs)
  case Nil
  then show ?case by simp
next
  case (Cons x xs)
  then show ?case by (cases xs) auto
qed

lemma seg_cong:
  assumes "\<And>x. x \<in> set (butlast xs) \<Longrightarrow> nxt' x = nxt x"
    and "\<And>x. x \<in> set (tl xs) \<Longrightarrow> prv' x = prv x"
  shows "seg nxt' prv' xs = seg nxt prv xs"
  using assms by (induction nxt prv xs rule: seg.induct) auto

lemma circ_nonempty: "circ nxt prv xs \<Longrightarrow> xs \<noteq> []"
  by (simp add: circ_def)

lemma circ_distinct: "circ nxt prv xs \<Longrightarrow> distinct xs"
  by (simp add: circ_def)

lemma circ_rotate: "circ nxt prv (xs @ ys) \<Longrightarrow> circ nxt prv (ys @ xs)"
proof (cases xs; cases ys)
  fix x xs' y ys'
  assume eq: "xs = x # xs'" "ys = y # ys'" and "circ nxt prv (xs @ ys)"
  then have "distinct (xs @ ys)" and s: "seg nxt prv ((x # xs') @ y # (ys' @ [x]))"
    by (simp_all add: circ_def)
  from s have 1: "seg nxt prv ((x # xs') @ [y])" and 2: "seg nxt prv (y # (ys' @ [x]))"
    by (simp_all only: seg_append[of nxt prv "x # xs'" y "ys' @ [x]"])
  from 1 have "seg nxt prv (x # (xs' @ [y]))" by simp
  with 2 have "seg nxt prv ((y # ys') @ x # (xs' @ [y]))"
    using seg_append[of nxt prv "y # ys'" x "xs' @ [y]"] by simp
  then show ?thesis
    using \<open>distinct (xs @ ys)\<close> eq by (auto simp: circ_def)
qed auto

lemma circ_cong:
  assumes "circ nxt prv xs" "\<And>x. x \<in> set xs \<Longrightarrow> nxt' x = nxt x"
    "\<And>x. x \<in> set xs \<Longrightarrow> prv' x = prv x"
  shows "circ nxt' prv' xs"
proof -
  have "set (tl (xs @ [hd xs])) \<subseteq> set xs"
    using assms(1) by (cases xs) (auto simp: circ_def)
  then have "seg nxt' prv' (xs @ [hd xs]) = seg nxt prv (xs @ [hd xs])"
    using assms by (intro seg_cong) auto
  then show ?thesis using assms(1) by (simp add: circ_def)
qed

lemma circ_single [simp]: "circ nxt prv [x] \<longleftrightarrow> nxt x = Some x \<and> prv x = Some x"
  by (simp add: circ_def)

lemma circ_links:
  assumes "circ nxt prv (x # xs)"
  shows "prv x = Some (last (x # xs))" and "nxt x = Some (hd (xs @ [x]))"
    and "nxt (last (x # xs)) = Some x" and "prv (hd (xs @ [x])) = Some x"
proof -
  have s: "seg nxt prv ((x # xs) @ [x])"
    using assms by (simp add: circ_def)
  have "seg nxt prv (butlast (x # xs) @ last (x # xs) # [x])"
    using s by (metis append_Cons append_Nil append_assoc append_butlast_last_id list.discI)
  then have "seg nxt prv [last (x # xs), x]"
    using seg_append[of nxt prv "butlast (x # xs)" "last (x # xs)" "[x]"] by blast
  then show "prv x = Some (last (x # xs))" "nxt (last (x # xs)) = Some x"
    by simp_all
  show "nxt x = Some (hd (xs @ [x]))" "prv (hd (xs @ [x])) = Some x"
    using s by (cases xs; simp)+
qed

lemma circ_in_links:
  assumes "circ nxt prv xs" "x \<in> set xs"
  obtains b a where "prv x = Some b" "nxt x = Some a" "b \<in> set xs" "a \<in> set xs"
    "nxt b = Some x" "prv a = Some x"
proof -
  obtain us vs where xs: "xs = us @ x # vs"
    using assms(2) by (auto simp: in_set_conv_decomp)
  have c: "circ nxt prv (x # vs @ us)"
    using circ_rotate[of nxt prv us "x # vs"] assms(1) xs by simp
  have "last (x # vs @ us) \<in> set xs" "hd ((vs @ us) @ [x]) \<in> set xs"
    using xs last_in_set[of "x # vs @ us"] hd_in_set[of "(vs @ us) @ [x]"] by auto
  then show thesis using that circ_links[OF c] by blast
qed

text \<open>The two links around a position of the ring.\<close>

lemma circ_next_nth:
  assumes "circ nxt prv xs" "Suc i < length xs"
  shows "nxt (xs ! i) = Some (xs ! Suc i)"
proof -
  have "xs = take i xs @ xs ! i # drop (Suc i) xs"
    using assms(2) by (simp add: id_take_nth_drop)
  then have "circ nxt prv (xs ! i # drop (Suc i) xs @ take i xs)"
    using circ_rotate assms(1) by (metis append_Cons)
  then show ?thesis
    using circ_links(2)[of nxt prv "xs ! i"] assms(2)
    by (simp add: hd_append hd_drop_conv_nth)
qed

lemma circ_next_last:
  assumes "circ nxt prv xs"
  shows "nxt (last xs) = Some (hd xs)" "prv (hd xs) = Some (last xs)"
  using assms circ_links[of nxt prv "hd xs" "tl xs"] by (auto simp: circ_def)

section \<open>Insertion\<close>

text \<open>Inserting before the head of a ring, read as appending at its end.\<close>

lemma circ_snoc:
  assumes c: "circ nxt prv (x # xs)" and "a \<notin> set (x # xs)"
    and "nxt' = nxt(last (x # xs) := Some a, a := Some x)"
    and "prv' = prv(a := Some (last (x # xs)), x := Some a)"
  shows "circ nxt' prv' (x # xs @ [a])"
proof -
  let ?l = "last (x # xs)"
  have d: "distinct (x # xs)" and s: "seg nxt prv ((x # xs) @ [x])"
    using c by (simp_all add: circ_def)
  have split: "x # xs = butlast (x # xs) @ [?l]"
    by (metis append_butlast_last_id list.discI)
  have sl: "seg nxt prv (x # xs)"
    using s seg_append[of nxt prv "butlast (x # xs)" ?l "[x]"] split
    by (metis append_Cons append_Nil append_assoc)
  have "?l \<notin> set (butlast (x # xs))"
    using d split by (metis distinct_append disjoint_iff list.set_intros(1))
  then have "seg nxt' prv' (x # xs)"
    using assms(2-4) d sl
    by (subst seg_cong[of _ nxt' nxt prv' prv]) (auto dest: in_set_butlastD)
  then have "seg nxt' prv' (butlast (x # xs) @ [?l])"
    using split by simp
  moreover have "seg nxt' prv' [?l, a, x]"
    using assms(2-4) by auto
  ultimately have "seg nxt' prv' (butlast (x # xs) @ ?l # [a, x])"
    using seg_append[of nxt' prv' "butlast (x # xs)" ?l "[a, x]"] by simp
  then have "seg nxt' prv' ((x # xs @ [a]) @ [x])"
    using split by (metis append.assoc append_Cons append_Nil)
  then show ?thesis
    using d assms(2) by (auto simp: circ_def)
qed

lemma circ_append:
  assumes "circ nxt prv xs" and "a \<notin> set xs"
    and "nxt' = nxt(last xs := Some a, a := Some (hd xs))"
    and "prv' = prv(a := Some (last xs), hd xs := Some a)"
  shows "circ nxt' prv' (xs @ [a])"
  using assms circ_snoc[of nxt prv "hd xs" "tl xs" a nxt' prv'] circ_nonempty[OF assms(1)]
  by (metis append_Cons list.collapse)

lemma circ_insert_before:
  assumes c: "circ nxt prv (us @ t # vs)" and "a \<notin> set (us @ t # vs)"
    and b: "prv t = Some b"
    and "nxt' = nxt(b := Some a, a := Some t)" and "prv' = prv(a := Some b, t := Some a)"
  shows "circ nxt' prv' (us @ a # t # vs)"
proof -
  have r: "circ nxt prv (t # vs @ us)"
    using circ_rotate[OF c] by simp
  then have "b = last (t # vs @ us)"
    using circ_links(1)[OF r] b by simp
  then have "circ nxt' prv' (t # (vs @ us) @ [a])"
    using circ_snoc[OF r] assms by auto
  then have "circ nxt' prv' ((t # vs) @ us @ [a])"
    by simp
  then show ?thesis
    using circ_rotate[of nxt' prv' "t # vs" "us @ [a]"] by simp
qed

section \<open>Removal\<close>

lemma circ_unlink_hd:
  assumes c: "circ nxt prv (x # y # ys)"
    and "nxt' = nxt(last (y # ys) := Some y)" and "prv' = prv(y := Some (last (y # ys)))"
  shows "circ nxt' prv' (y # ys)"
proof -
  let ?l = "last (y # ys)"
  have d: "distinct (x # y # ys)" and s: "seg nxt prv (x # (y # ys) @ [x])"
    using c by (simp_all add: circ_def)
  have split: "y # ys = butlast (y # ys) @ [?l]"
    by (metis append_butlast_last_id list.discI)
  have "seg nxt prv ((y # ys) @ [x])"
    using s by simp
  then have sl: "seg nxt prv (y # ys)"
    using seg_append[of nxt prv "butlast (y # ys)" ?l "[x]"] split
    by (metis append_Cons append_Nil append_assoc)
  have "?l \<notin> set (butlast (y # ys))"
    using d split by (metis distinct.simps(2) distinct_append disjoint_iff list.set_intros(1))
  then have "seg nxt' prv' (y # ys)"
    using assms(2,3) d sl
    by (subst seg_cong[of _ nxt' nxt prv' prv]) auto
  then have "seg nxt' prv' (butlast (y # ys) @ [?l])"
    using split by simp
  moreover have "seg nxt' prv' [?l, y]"
    using assms(2,3) by simp
  ultimately have "seg nxt' prv' (butlast (y # ys) @ ?l # [y])"
    using seg_append[of nxt' prv' "butlast (y # ys)" ?l "[y]"] by simp
  then have "seg nxt' prv' ((y # ys) @ [y])"
    using split by (metis append.assoc append_Cons append_Nil)
  then show ?thesis
    using d by (simp add: circ_def)
qed

text \<open>The code's order of writes: \<open>before.next = after; after.prev = before;\<close> and then the
  removed node's own links are cleared.\<close>

lemma circ_unlink:
  assumes c: "circ nxt prv (us @ x # vs)" and ne: "us @ vs \<noteq> []"
    and b: "prv x = Some b" and a: "nxt x = Some a"
    and "nxt' = nxt(b := Some a, x := None)" and "prv' = prv(a := Some b, x := None)"
  shows "circ nxt' prv' (us @ vs)"
proof -
  obtain y ys where y: "vs @ us = y # ys"
    using ne by (cases "vs @ us") auto
  have r: "circ nxt prv (x # y # ys)"
    using circ_rotate[OF c] y by simp
  have ba: "b = last (y # ys)" "a = y"
    using circ_links[OF r] a b by simp_all
  have "circ (nxt(last (y # ys) := Some y)) (prv(y := Some (last (y # ys)))) (y # ys)"
    by (rule circ_unlink_hd[OF r]) simp_all
  moreover have "x \<notin> set (y # ys)"
    using circ_distinct[OF r] by simp
  ultimately have "circ nxt' prv' (y # ys)"
    using assms(5,6) ba by (elim circ_cong) auto
  then show ?thesis
    using circ_rotate[of nxt' prv' vs us] y by simp
qed

lemma circ_alone:
  assumes "circ nxt prv xs" "x \<in> set xs"
  shows "prv x = Some x \<longleftrightarrow> xs = [x]" and "nxt x = Some x \<longleftrightarrow> xs = [x]"
proof -
  obtain us vs where xs: "xs = us @ x # vs"
    using assms(2) by (auto simp: in_set_conv_decomp)
  have c: "circ nxt prv (x # vs @ us)"
    using circ_rotate[of nxt prv us "x # vs"] assms(1) xs by simp
  have x: "x \<notin> set (vs @ us)" using circ_distinct[OF c] by simp
  have "last (x # vs @ us) = x \<longleftrightarrow> vs @ us = []" "hd ((vs @ us) @ [x]) = x \<longleftrightarrow> vs @ us = []"
    using x last_in_set[of "vs @ us"] hd_in_set[of "vs @ us"]
    by (auto simp: hd_append split: if_splits)
  moreover have "xs = [x] \<longleftrightarrow> vs @ us = []"
    using xs by (cases us) auto
  ultimately show "prv x = Some x \<longleftrightarrow> xs = [x]" "nxt x = Some x \<longleftrightarrow> xs = [x]"
    using circ_links(1,2)[OF c] by simp_all
qed

end
