(* ===== verification/LevelWalk.thy ===== *)
theory LevelWalk
  imports CircList
begin

text \<open>
  The search loop of \<open>addOrdersAtPrice\<close>, textually the same in
  \<open>exchange/matcher/me_order_book.cpp\<close> (lines 66 to 72) and
  \<open>trading/strategy/market_order_book.h\<close> (lines 52 to 57): from \<open>target\<close>, walk along
  \<open>next_entry_\<close> while the new price is worse than the target's, until the best level comes
  round again. The loop reads the heap only through \<open>worse\<close> (the comparison with the new
  level) and \<open>nxt\<close> (the \<open>next_entry_\<close> field).
\<close>

partial_function (option) level_walk ::
  "(nat \<Rightarrow> bool) \<Rightarrow> (nat \<Rightarrow> ptr) \<Rightarrow> nat \<Rightarrow> nat \<Rightarrow> bool \<Rightarrow> (nat \<times> bool) res option" where
  "level_walk worse nxt best target add_after =
     (if add_after \<and> target \<noteq> best
      then if worse target
           then (case nxt target of
                   None \<Rightarrow> Some (Inl (Undefined ''null pointer dereference''))
                 | Some t \<Rightarrow> level_walk worse nxt best t True)
           else level_walk worse nxt best target False
      else Some (Inr (target, add_after)))"

lemma level_walk_stop: "level_walk worse nxt best target False = Some (Inr (target, False))"
  by (subst level_walk.simps) simp

lemma level_walk_best: "level_walk worse nxt best best b = Some (Inr (best, b))"
  by (subst level_walk.simps) simp

text \<open>
  On a ring read from the best level, the walk started at the second node stops at the
  first node that is not worse, or comes back to the best level.
\<close>

lemma level_walk_circ:
  assumes c: "circ nxt prv (best # us @ t # vs)"
    and us: "\<forall>u \<in> set us. worse u" and t: "\<not> worse t" and "us \<noteq> []"
  shows "level_walk worse nxt best (hd (us @ [t])) True = Some (Inr (t, False))"
proof -
  have "level_walk worse nxt best (hd (ws @ [t])) True = Some (Inr (t, False))"
    if "us = zs @ ws" for zs ws
    using that
  proof (induction ws arbitrary: zs)
    case Nil
    have "t \<noteq> best" using circ_distinct[OF c] by auto
    then show ?case
      using t by (subst level_walk.simps) (simp add: level_walk_stop)
  next
    case (Cons w ws)
    have "w \<noteq> best" using circ_distinct[OF c] Cons.prems by auto
    have "nxt w = Some (hd (ws @ [t]))"
    proof -
      have "circ nxt prv (w # (ws @ t # vs) @ best # zs)"
        using c circ_rotate[of nxt prv "best # zs" "w # ws @ t # vs"] Cons.prems by simp
      then show ?thesis
        using circ_links(2) by (cases ws) fastforce+
    qed
    then show ?case
      using Cons.IH[of "zs @ [w]"] Cons.prems us \<open>w \<noteq> best\<close>
      by (subst level_walk.simps) simp
  qed
  from this[of "[]" us] show ?thesis by simp
qed

lemma level_walk_round:
  assumes c: "circ nxt prv (best # us)" and us: "\<forall>u \<in> set us. worse u"
  shows "level_walk worse nxt best (hd (us @ [best])) True = Some (Inr (best, True))"
proof -
  have "level_walk worse nxt best (hd (ws @ [best])) True = Some (Inr (best, True))"
    if "us = zs @ ws" for zs ws
    using that
  proof (induction ws arbitrary: zs)
    case Nil
    then show ?case by (simp add: level_walk_best)
  next
    case (Cons w ws)
    have "w \<noteq> best" using circ_distinct[OF c] Cons.prems by auto
    have "nxt w = Some (hd (ws @ [best]))"
    proof -
      have "circ nxt prv (w # ws @ best # zs)"
        using c circ_rotate[of nxt prv "best # zs" "w # ws"] Cons.prems by simp
      then show ?thesis
        using circ_links(2) by (cases ws) fastforce+
    qed
    then show ?case
      using Cons.IH[of "zs @ [w]"] Cons.prems us \<open>w \<noteq> best\<close>
      by (subst level_walk.simps) simp
  qed
  from this[of "[]" us] show ?thesis by simp
qed

end
