(* ===== verification/MEOrderBook.thy ===== *)
theory MEOrderBook
  imports MEOrder LevelWalk
begin

text \<open>
  \<open>exchange/matcher/me_order_book.h\<close> and \<open>me_order_book.cpp\<close>: the limit order book of the
  matching engine, member function by member function. The state is the class's data
  members; \<open>MEContext\<close> adds the two queues of the engine that the book reaches through its
  \<open>matching_engine_\<close> pointer. The logger and the scratch string \<open>time_str_\<close> are left out:
  no function below reads them.
\<close>

record MEOrderBook =
  ticker_id :: TickerId
  cid_oid_to_order :: "nat \<Rightarrow> nat \<Rightarrow> ptr"
  orders_at_price_pool :: "MEOrdersAtPrice MemPool"
  bids_by_price :: ptr
  asks_by_price :: ptr
  price_orders_at_prices :: "nat \<Rightarrow> ptr"
  order_pool :: "MEOrder MemPool"
  client_response :: MEClientResponse
  market_update :: MEMarketUpdate
  next_market_order_id :: OrderId

record MEContext = MEOrderBook +
  outgoing_ogw_responses :: ClientResponseLFQueue
  outgoing_md_updates :: MEMarketUpdateLFQueue

type_synonym 'z book = "'z MEOrderBook_scheme"

text \<open>
  The two pointer tables have no initialiser: \<open>raw_cid\<close> and \<open>raw_px\<close> are what the memory
  of the new object held before.
\<close>

definition MEOrderBook_ctor ::
  "(nat \<Rightarrow> nat \<Rightarrow> ptr) \<Rightarrow> (nat \<Rightarrow> ptr) \<Rightarrow> TickerId \<Rightarrow> MEOrderBook" where
  "MEOrderBook_ctor raw_cid raw_px tid =
     \<lparr>ticker_id = tid, cid_oid_to_order = raw_cid,
      orders_at_price_pool = MemPool_ctor MEOrdersAtPrice_default ME_MAX_PRICE_LEVELS,
      bids_by_price = None, asks_by_price = None, price_orders_at_prices = raw_px,
      order_pool = MemPool_ctor MEOrder_default ME_MAX_ORDER_IDS,
      client_response = MEClientResponse_default, market_update = MEMarketUpdate_default,
      next_market_order_id = 1\<rparr>"

section \<open>Reading and writing through pointers\<close>

definition ord_at :: "'z book \<Rightarrow> nat \<Rightarrow> MEOrder" where
  "ord_at b a = obj (order_pool b) a"

definition lvl_at :: "'z book \<Rightarrow> nat \<Rightarrow> MEOrdersAtPrice" where
  "lvl_at b a = obj (orders_at_price_pool b) a"

definition set_ord :: "nat \<Rightarrow> (MEOrder \<Rightarrow> MEOrder) \<Rightarrow> 'z book \<Rightarrow> 'z book" where
  "set_ord a f b = b\<lparr>order_pool := upd_obj a f (order_pool b)\<rparr>"

definition set_lvl :: "nat \<Rightarrow> (MEOrdersAtPrice \<Rightarrow> MEOrdersAtPrice) \<Rightarrow> 'z book \<Rightarrow> 'z book" where
  "set_lvl a f b = b\<lparr>orders_at_price_pool := upd_obj a f (orders_at_price_pool b)\<rparr>"

text \<open>\<open>(side == Side::BUY ? bids_by_price_ : asks_by_price_)\<close>, read and written.\<close>

definition side_head :: "Side \<Rightarrow> 'z book \<Rightarrow> ptr" where
  "side_head side b = (if side = BUY then bids_by_price b else asks_by_price b)"

definition set_side_head :: "Side \<Rightarrow> ptr \<Rightarrow> 'z book \<Rightarrow> 'z book" where
  "set_side_head side p b =
     (if side = BUY then b\<lparr>bids_by_price := p\<rparr> else b\<lparr>asks_by_price := p\<rparr>)"

section \<open>Small member functions\<close>

text \<open>The counter is returned and never advanced.\<close>

definition generateNewMarketOrderId :: "'z book \<Rightarrow> OrderId \<times> 'z book" where
  "generateNewMarketOrderId b = (next_market_order_id b, b)"

definition priceToIndex :: "Price \<Rightarrow> nat" where
  "priceToIndex price = unat price mod ME_MAX_PRICE_LEVELS"

definition getOrdersAtPrice :: "Price \<Rightarrow> 'z book \<Rightarrow> ptr res" where
  "getOrdersAtPrice price b =
     at_idx ME_MAX_PRICE_LEVELS (priceToIndex price) (price_orders_at_prices b)"

definition getNextPriority :: "Price \<Rightarrow> 'z book \<Rightarrow> Priority res" where
  "getNextPriority price b =
     bindr (getOrdersAtPrice price b) (\<lambda>orders_at_price.
       (case orders_at_price of
          None \<Rightarrow> Inr 1
        | Some l \<Rightarrow>
            bindr (deref (l_first (lvl_at b l))) (\<lambda>first.
            bindr (deref (o_prev (ord_at b first))) (\<lambda>lst.
            Inr (o_priority (ord_at b lst) + 1)))))"

section \<open>Price levels\<close>

text \<open>Is the new level's price worse than the target's: the comparison of the search.\<close>

definition worse_than :: "'z book \<Rightarrow> nat \<Rightarrow> nat \<Rightarrow> bool" where
  "worse_than b new target \<longleftrightarrow>
     (l_side (lvl_at b new) = SELL \<and> l_price (lvl_at b new) > l_price (lvl_at b target))
   \<or> (l_side (lvl_at b new) = BUY \<and> l_price (lvl_at b new) < l_price (lvl_at b target))"

text \<open>The first comparison of the search, against the best level, has no side test in its
  second disjunct.\<close>

definition worse_than_first :: "'z book \<Rightarrow> nat \<Rightarrow> nat \<Rightarrow> bool" where
  "worse_than_first b new target \<longleftrightarrow>
     (l_side (lvl_at b new) = SELL \<and> l_price (lvl_at b new) > l_price (lvl_at b target))
   \<or> l_price (lvl_at b new) < l_price (lvl_at b target)"

definition better_than :: "'z book \<Rightarrow> nat \<Rightarrow> nat \<Rightarrow> bool" where
  "better_than b new best \<longleftrightarrow>
     (l_side (lvl_at b new) = BUY \<and> l_price (lvl_at b new) > l_price (lvl_at b best))
   \<or> (l_side (lvl_at b new) = SELL \<and> l_price (lvl_at b new) < l_price (lvl_at b best))"

text \<open>The two ways of linking the new level in, once the target is found.\<close>

definition insert_after_target :: "nat \<Rightarrow> nat \<Rightarrow> 'z book \<Rightarrow> 'z book res" where
  "insert_after_target new target b =
     (let b = set_lvl new (\<lambda>l. l\<lparr>l_prev := Some target\<rparr>) b
      in bindr (deref (l_next (lvl_at b target))) (\<lambda>after.
         let b = set_lvl after (\<lambda>l. l\<lparr>l_prev := Some new\<rparr>) b;
             b = set_lvl new (\<lambda>l. l\<lparr>l_next := l_next (lvl_at b target)\<rparr>) b;
             b = set_lvl target (\<lambda>l. l\<lparr>l_next := Some new\<rparr>) b
         in Inr b))"

definition insert_before_target :: "nat \<Rightarrow> nat \<Rightarrow> nat \<Rightarrow> 'z book \<Rightarrow> 'z book res" where
  "insert_before_target new target best b =
     (let b = set_lvl new (\<lambda>l. l\<lparr>l_prev := l_prev (lvl_at b target)\<rparr>) b;
          b = set_lvl new (\<lambda>l. l\<lparr>l_next := Some target\<rparr>) b
      in bindr (deref (l_prev (lvl_at b target))) (\<lambda>before.
         let b = set_lvl before (\<lambda>l. l\<lparr>l_next := Some new\<rparr>) b;
             b = set_lvl target (\<lambda>l. l\<lparr>l_prev := Some new\<rparr>) b
         in if better_than b new best
            then Inr (set_side_head (l_side (lvl_at b new)) (Some new)
                   (set_lvl target
                      (\<lambda>l. l\<lparr>l_next := (if l_next l = Some best then Some new else l_next l)\<rparr>) b))
            else Inr b))"

definition addOrdersAtPrice :: "nat \<Rightarrow> 'z book \<Rightarrow> 'z book res" where
  "addOrdersAtPrice new b =
     bindr (at_idx ME_MAX_PRICE_LEVELS (priceToIndex (l_price (lvl_at b new)))
              (price_orders_at_prices b)) (\<lambda>_.
     let b = b\<lparr>price_orders_at_prices :=
                 (price_orders_at_prices b)(priceToIndex (l_price (lvl_at b new)) := Some new)\<rparr>;
         side = l_side (lvl_at b new)
     in (case side_head side b of
           None \<Rightarrow>
             Inr (set_lvl new (\<lambda>l. l\<lparr>l_prev := Some new, l_next := Some new\<rparr>)
                   (set_side_head side (Some new) b))
         | Some best \<Rightarrow>
             bindr (if worse_than_first b new best
                    then bindr (deref (l_next (lvl_at b best))) (\<lambda>target.
                           Inr (target, worse_than b new target))
                    else Inr (best, False)) (\<lambda>(target, add_after).
             bindr (returned (level_walk (worse_than b new) (\<lambda>a. l_next (lvl_at b a)) best
                                target add_after)) (\<lambda>(target, add_after).
             if add_after
             then bindr (if target = best then deref (l_prev (lvl_at b best)) else Inr target)
                    (\<lambda>target. insert_after_target new target b)
             else insert_before_target new target best b))))"

definition removeOrdersAtPrice :: "Side \<Rightarrow> Price \<Rightarrow> 'z book \<Rightarrow> 'z book res" where
  "removeOrdersAtPrice side price b =
     (let best_orders_by_price = side_head side b
      in bindr (getOrdersAtPrice price b) (\<lambda>p. bindr (deref p) (\<lambda>l.
         bindr (if l_next (lvl_at b l) = Some l
                then Inr (set_side_head side None b)
                else bindr (deref (l_prev (lvl_at b l))) (\<lambda>before.
                     let b = set_lvl before (\<lambda>x. x\<lparr>l_next := l_next (lvl_at b l)\<rparr>) b
                     in bindr (deref (l_next (lvl_at b l))) (\<lambda>after.
                        let b = set_lvl after (\<lambda>x. x\<lparr>l_prev := l_prev (lvl_at b l)\<rparr>) b;
                            b = (if Some l = best_orders_by_price
                                 then set_side_head side (l_next (lvl_at b l)) b else b);
                            b = set_lvl l (\<lambda>x. x\<lparr>l_prev := None, l_next := None\<rparr>) b
                        in Inr b))) (\<lambda>b.
         let b = b\<lparr>price_orders_at_prices :=
                     (price_orders_at_prices b)(priceToIndex price := None)\<rparr>
         in bindr (deallocate l (orders_at_price_pool b)) (\<lambda>pool.
            Inr (b\<lparr>orders_at_price_pool := pool\<rparr>))))))"

section \<open>Orders\<close>

text \<open>\<open>cid_oid_to_order_.at(client).at(oid) = p\<close>\<close>

definition set_cid_oid :: "ClientId \<Rightarrow> OrderId \<Rightarrow> ptr \<Rightarrow> 'z book \<Rightarrow> 'z book res" where
  "set_cid_oid cid oid p b =
     bindr (at_idx ME_MAX_NUM_CLIENTS (unat cid) (cid_oid_to_order b)) (\<lambda>row.
     bindr (at_idx ME_MAX_ORDER_IDS (unat oid) row) (\<lambda>_.
     Inr (b\<lparr>cid_oid_to_order :=
              (cid_oid_to_order b)(unat cid := (cid_oid_to_order b (unat cid))(unat oid := p))\<rparr>)))"

definition addOrder :: "nat \<Rightarrow> 'z book \<Rightarrow> 'z book res" where
  "addOrder order b =
     bindr (getOrdersAtPrice (o_price (ord_at b order)) b) (\<lambda>orders_at_price.
     bindr (case orders_at_price of
              None \<Rightarrow>
                let b = set_ord order (\<lambda>x. x\<lparr>o_next := Some order, o_prev := Some order\<rparr>) b
                in bindr (allocate (MEOrdersAtPrice_ctor (o_side (ord_at b order))
                             (o_price (ord_at b order)) (Some order) None None)
                            (orders_at_price_pool b)) (\<lambda>(new, pool).
                   addOrdersAtPrice new (b\<lparr>orders_at_price_pool := pool\<rparr>))
            | Some l \<Rightarrow>
                bindr (deref (l_first (lvl_at b l))) (\<lambda>first_order.
                bindr (deref (o_prev (ord_at b first_order))) (\<lambda>lst.
                let b = set_ord lst (\<lambda>x. x\<lparr>o_next := Some order\<rparr>) b;
                    b = set_ord order (\<lambda>x. x\<lparr>o_prev := o_prev (ord_at b first_order)\<rparr>) b;
                    b = set_ord order (\<lambda>x. x\<lparr>o_next := Some first_order\<rparr>) b;
                    b = set_ord first_order (\<lambda>x. x\<lparr>o_prev := Some order\<rparr>) b
                in Inr b))) (\<lambda>b.
     set_cid_oid (o_client_id (ord_at b order)) (o_client_order_id (ord_at b order))
       (Some order) b))"

definition removeOrder :: "nat \<Rightarrow> 'z book \<Rightarrow> 'z book res" where
  "removeOrder order b =
     bindr (getOrdersAtPrice (o_price (ord_at b order)) b) (\<lambda>orders_at_price.
     bindr (if o_prev (ord_at b order) = Some order
            then removeOrdersAtPrice (o_side (ord_at b order)) (o_price (ord_at b order)) b
            else let order_before = o_prev (ord_at b order);
                     order_after = o_next (ord_at b order)
                 in bindr (deref order_before) (\<lambda>before.
                    let b = set_ord before (\<lambda>x. x\<lparr>o_next := order_after\<rparr>) b
                    in bindr (deref order_after) (\<lambda>after.
                       let b = set_ord after (\<lambda>x. x\<lparr>o_prev := order_before\<rparr>) b
                       in bindr (deref orders_at_price) (\<lambda>l.
                          let b = (if l_first (lvl_at b l) = Some order
                                   then set_lvl l (\<lambda>x. x\<lparr>l_first := order_after\<rparr>) b else b);
                              b = set_ord order (\<lambda>x. x\<lparr>o_prev := None, o_next := None\<rparr>) b
                          in Inr b)))) (\<lambda>b.
     bindr (set_cid_oid (o_client_id (ord_at b order)) (o_client_order_id (ord_at b order))
              None b) (\<lambda>b.
     bindr (deallocate order (order_pool b)) (\<lambda>pool.
     Inr (b\<lparr>order_pool := pool\<rparr>)))))"

section \<open>Matching\<close>

text \<open>\<open>MatchingEngine::sendClientResponse\<close> and \<open>sendMarketUpdate\<close> on the engine's queues.\<close>

definition sendClientResponse :: "MEClientResponse \<Rightarrow> MEContext \<Rightarrow> MEContext res" where
  "sendClientResponse r s =
     bindr (lfq_push r (outgoing_ogw_responses s)) (\<lambda>q.
     Inr (s\<lparr>outgoing_ogw_responses := q\<rparr>))"

definition sendMarketUpdate :: "MEMarketUpdate \<Rightarrow> MEContext \<Rightarrow> MEContext res" where
  "sendMarketUpdate u s =
     bindr (lfq_push u (outgoing_md_updates s)) (\<lambda>q.
     Inr (s\<lparr>outgoing_md_updates := q\<rparr>))"

text \<open>\<open>client_response_ = {...}; matching_engine_->sendClientResponse(&client_response_);\<close> and
  the same for the market update.\<close>

definition respond :: "MEClientResponse \<Rightarrow> MEContext \<Rightarrow> MEContext res" where
  "respond r s = sendClientResponse r (s\<lparr>client_response := r\<rparr>)"

definition publish :: "MEMarketUpdate \<Rightarrow> MEContext \<Rightarrow> MEContext res" where
  "publish u s = sendMarketUpdate u (s\<lparr>market_update := u\<rparr>)"

definition match_order ::
  "TickerId \<Rightarrow> ClientId \<Rightarrow> Side \<Rightarrow> OrderId \<Rightarrow> OrderId \<Rightarrow> nat \<Rightarrow> Qty \<Rightarrow> MEContext
    \<Rightarrow> (Qty \<times> MEContext) res" where
  "match_order tid cid side coid new_moid order leaves_qty s =
     (let order_qty = o_qty (ord_at s order);
          fill_qty = min leaves_qty order_qty;
          leaves_qty = leaves_qty - fill_qty;
          s = set_ord order (\<lambda>x. x\<lparr>o_qty := o_qty x - fill_qty\<rparr>) s;
          o1 = ord_at s order
      in bindr (respond \<lparr>rs_type = CRS_FILLED, rs_client_id = cid, rs_ticker_id = tid,
                  rs_client_order_id = coid, rs_market_order_id = new_moid, rs_side = side,
                  rs_price = o_price o1, rs_exec_qty = fill_qty, rs_leaves_qty = leaves_qty\<rparr> s) (\<lambda>s.
         bindr (respond \<lparr>rs_type = CRS_FILLED, rs_client_id = o_client_id o1, rs_ticker_id = tid,
                  rs_client_order_id = o_client_order_id o1,
                  rs_market_order_id = o_market_order_id o1, rs_side = o_side o1,
                  rs_price = o_price o1, rs_exec_qty = fill_qty, rs_leaves_qty = o_qty o1\<rparr> s) (\<lambda>s.
         bindr (publish \<lparr>mu_type = MUT_TRADE, mu_order_id = OrderId_INVALID, mu_ticker_id = tid,
                  mu_side = side, mu_price = o_price o1, mu_qty = fill_qty,
                  mu_priority = Priority_INVALID\<rparr> s) (\<lambda>s.
         if o_qty o1 = 0
         then bindr (publish \<lparr>mu_type = MUT_CANCEL, mu_order_id = o_market_order_id o1,
                       mu_ticker_id = tid, mu_side = o_side o1, mu_price = o_price o1,
                       mu_qty = order_qty, mu_priority = Priority_INVALID\<rparr> s) (\<lambda>s.
              bindr (removeOrder order s) (\<lambda>s. Inr (leaves_qty, s)))
         else bindr (publish \<lparr>mu_type = MUT_MODIFY, mu_order_id = o_market_order_id o1,
                       mu_ticker_id = tid, mu_side = o_side o1, mu_price = o_price o1,
                       mu_qty = o_qty o1, mu_priority = o_priority o1\<rparr> s) (\<lambda>s.
              Inr (leaves_qty, s))))))"

text \<open>
  The two loops of \<open>checkForMatch\<close>, one per side of the incoming order. \<open>crosses\<close> is the
  negated \<open>break\<close> condition and \<open>head\<close> the opposite side's best level.
\<close>

partial_function (option) match_loop ::
  "(MEContext \<Rightarrow> ptr) \<Rightarrow> (Price \<Rightarrow> bool) \<Rightarrow> (nat \<Rightarrow> Qty \<Rightarrow> MEContext \<Rightarrow> (Qty \<times> MEContext) res)
    \<Rightarrow> Qty \<Rightarrow> MEContext \<Rightarrow> (Qty \<times> MEContext) res option" where
  "match_loop head crosses mtch leaves_qty s =
     (if leaves_qty \<noteq> 0
      then (case head s of
              None \<Rightarrow> Some (Inr (leaves_qty, s))
            | Some l \<Rightarrow>
                (case l_first (lvl_at s l) of
                   None \<Rightarrow> Some (Inl (Undefined ''null pointer dereference''))
                 | Some itr \<Rightarrow>
                     if \<not> crosses (o_price (ord_at s itr)) then Some (Inr (leaves_qty, s))
                     else (case mtch itr leaves_qty s of
                             Inl e \<Rightarrow> Some (Inl e)
                           | Inr r \<Rightarrow> match_loop head crosses mtch (fst r) (snd r))))
      else Some (Inr (leaves_qty, s)))"

text \<open>\<open>new_market_order_id\<close> is a parameter of type \<open>Qty\<close>: it is cut to 32 bits.\<close>

definition checkForMatch ::
  "ClientId \<Rightarrow> OrderId \<Rightarrow> TickerId \<Rightarrow> Side \<Rightarrow> Price \<Rightarrow> Qty \<Rightarrow> OrderId \<Rightarrow> MEContext
    \<Rightarrow> (Qty \<times> MEContext) res" where
  "checkForMatch cid coid tid side price qty new_moid s =
     (let new_moid = (ucast (ucast new_moid :: Qty) :: OrderId);
          mtch = match_order tid cid side coid new_moid
      in if side = BUY
         then returned (match_loop asks_by_price (\<lambda>p. \<not> price < p) mtch qty s)
         else if side = SELL
         then returned (match_loop bids_by_price (\<lambda>p. \<not> price > p) mtch qty s)
         else Inr (qty, s))"

section \<open>The two client operations\<close>

definition rest_order ::
  "ClientId \<Rightarrow> OrderId \<Rightarrow> TickerId \<Rightarrow> Side \<Rightarrow> Price \<Rightarrow> Qty \<Rightarrow> OrderId \<Rightarrow> MEContext
    \<Rightarrow> MEContext res" where
  "rest_order cid coid tid side price leaves_qty new_moid s =
     bindr (getNextPriority price s) (\<lambda>priority.
     bindr (allocate (MEOrder_ctor tid cid coid new_moid side price leaves_qty priority None None)
              (order_pool s)) (\<lambda>(order, pool).
     bindr (addOrder order (s\<lparr>order_pool := pool\<rparr>)) (\<lambda>s.
     publish \<lparr>mu_type = MUT_ADD, mu_order_id = new_moid, mu_ticker_id = tid, mu_side = side,
               mu_price = price, mu_qty = leaves_qty, mu_priority = priority\<rparr> s)))"

definition add ::
  "ClientId \<Rightarrow> OrderId \<Rightarrow> TickerId \<Rightarrow> Side \<Rightarrow> Price \<Rightarrow> Qty \<Rightarrow> MEContext \<Rightarrow> MEContext res" where
  "add cid coid tid side price qty s =
     (let (new_moid, s) = generateNewMarketOrderId s
      in bindr (respond \<lparr>rs_type = CRS_ACCEPTED, rs_client_id = cid, rs_ticker_id = tid,
                  rs_client_order_id = coid, rs_market_order_id = new_moid, rs_side = side,
                  rs_price = price, rs_exec_qty = 0, rs_leaves_qty = qty\<rparr> s) (\<lambda>s.
         bindr (checkForMatch cid coid tid side price qty new_moid s) (\<lambda>(leaves_qty, s).
         if leaves_qty \<noteq> 0 then rest_order cid coid tid side price leaves_qty new_moid s
         else Inr s)))"

definition cancel :: "ClientId \<Rightarrow> OrderId \<Rightarrow> TickerId \<Rightarrow> MEContext \<Rightarrow> MEContext res" where
  "cancel cid oid tid s =
     bindr (if unat cid < ME_MAX_NUM_CLIENTS
            then bindr (at_idx ME_MAX_NUM_CLIENTS (unat cid) (cid_oid_to_order s)) (\<lambda>co_itr.
                 at_idx ME_MAX_ORDER_IDS (unat oid) co_itr)
            else Inr None) (\<lambda>exchange_order.
     bindr (case exchange_order of
              None \<Rightarrow>
                Inr (s\<lparr>client_response :=
                   \<lparr>rs_type = CRS_CANCEL_REJECTED, rs_client_id = cid, rs_ticker_id = tid,
                    rs_client_order_id = oid, rs_market_order_id = OrderId_INVALID,
                    rs_side = Side_INVALID, rs_price = Price_INVALID,
                    rs_exec_qty = Qty_INVALID, rs_leaves_qty = Qty_INVALID\<rparr>\<rparr>)
            | Some a \<Rightarrow>
                let o1 = ord_at s a;
                    s = s\<lparr>client_response :=
                       \<lparr>rs_type = CRS_CANCELED, rs_client_id = cid, rs_ticker_id = tid,
                        rs_client_order_id = oid, rs_market_order_id = o_market_order_id o1,
                        rs_side = o_side o1, rs_price = o_price o1, rs_exec_qty = Qty_INVALID,
                        rs_leaves_qty = o_qty o1\<rparr>\<rparr>;
                    s = s\<lparr>market_update :=
                       \<lparr>mu_type = MUT_CANCEL, mu_order_id = o_market_order_id o1,
                        mu_ticker_id = tid, mu_side = o_side o1, mu_price = o_price o1,
                        mu_qty = 0, mu_priority = o_priority o1\<rparr>\<rparr>
                in bindr (removeOrder a s) (\<lambda>s. sendMarketUpdate (market_update s) s)) (\<lambda>s.
     sendClientResponse (client_response s) s))"

end
