(* ===== verification/Ladder.thy ===== *)
theory Ladder
  imports Types CircList
begin

text \<open>
  The pointer structure the two order books share, independent of their record types: two
  rings of price levels, best price first, each level holding a ring of orders, and a table
  from price index to level. A \<open>ladder\<close> is the set of views of a book's heap (each field of
  each structure as a function of the address); \<open>ladder_rep v S\<close> says that the heap holds
  the levels \<open>S BUY\<close> and \<open>S SELL\<close>, each a pair of a level's address and the addresses of
  its orders in time priority. The lemmas say what the four pointer surgeries of the books
  (append an order, open a level, unlink an order, close a level) do to the representation.
\<close>

record ladder =
  eN :: "nat \<Rightarrow> ptr"       \<comment> \<open>level: \<open>next_entry_\<close>\<close>
  eP :: "nat \<Rightarrow> ptr"       \<comment> \<open>level: \<open>prev_entry_\<close>\<close>
  ePx :: "nat \<Rightarrow> Price"
  eSd :: "nat \<Rightarrow> Side"
  e1 :: "nat \<Rightarrow> ptr"       \<comment> \<open>level: first order\<close>
  oN :: "nat \<Rightarrow> ptr"       \<comment> \<open>order: \<open>next_order_\<close>\<close>
  oP :: "nat \<Rightarrow> ptr"
  oPx :: "nat \<Rightarrow> Price"
  oSd :: "nat \<Rightarrow> Side"
  best :: "Side \<Rightarrow> ptr"
  tab :: "nat \<Rightarrow> ptr"
  liveE :: "nat set"
  liveO :: "nat set"

type_synonym level = "nat \<times> nat list"
type_synonym levels = "Side \<Rightarrow> level list"

definition pidx :: "Price \<Rightarrow> nat" where
  "pidx p = unat p mod ME_MAX_PRICE_LEVELS"

lemma pidx_less [simp]: "pidx p < ME_MAX_PRICE_LEVELS"
  by (simp add: pidx_def ME_MAX_PRICE_LEVELS_def)

definition orders_of :: "level list \<Rightarrow> nat list" where
  "orders_of L = concat (map snd L)"

definition lvl_rep :: "ladder \<Rightarrow> Side \<Rightarrow> level \<Rightarrow> bool" where
  "lvl_rep v sd x \<longleftrightarrow> eSd v (fst x) = sd \<and> e1 v (fst x) = Some (hd (snd x))
     \<and> circ (oN v) (oP v) (snd x)
     \<and> (\<forall>a \<in> set (snd x). oSd v a = sd \<and> oPx v a = ePx v (fst x))"

definition side_rep :: "ladder \<Rightarrow> Side \<Rightarrow> level list \<Rightarrow> bool" where
  "side_rep v sd L \<longleftrightarrow>
     best v sd = (case L of [] \<Rightarrow> None | x # xs \<Rightarrow> Some (fst x))
     \<and> (L \<noteq> [] \<longrightarrow> circ (eN v) (eP v) (map fst L))
     \<and> (\<forall>x \<in> set L. lvl_rep v sd x)
     \<and> sorted_wrt (\<lambda>x y. better sd (ePx v (fst x)) (ePx v (fst y))) L"

definition tab_rep :: "ladder \<Rightarrow> bool" where
  "tab_rep v \<longleftrightarrow>
     (\<forall>l \<in> liveE v. tab v (pidx (ePx v l)) = Some l)
     \<and> (\<forall>i l. i < ME_MAX_PRICE_LEVELS \<longrightarrow> tab v i = Some l
           \<longrightarrow> l \<in> liveE v \<and> i = pidx (ePx v l))"

definition ladder_rep :: "ladder \<Rightarrow> levels \<Rightarrow> bool" where
  "ladder_rep v S \<longleftrightarrow> side_rep v BUY (S BUY) \<and> side_rep v SELL (S SELL)
     \<and> liveE v = fst ` set (S BUY) \<union> fst ` set (S SELL)
     \<and> liveO v = set (orders_of (S BUY)) \<union> set (orders_of (S SELL))
     \<and> tab_rep v \<and> (\<forall>sd. sd \<noteq> BUY \<longrightarrow> sd \<noteq> SELL \<longrightarrow> S sd = [])"

lemma ladder_rep_empty:
  "(\<And>sd. best v sd = None) \<Longrightarrow> (\<And>i. i < ME_MAX_PRICE_LEVELS \<Longrightarrow> tab v i = None)
    \<Longrightarrow> liveE v = {} \<Longrightarrow> liveO v = {} \<Longrightarrow> ladder_rep v (\<lambda>_. [])"
  by (simp add: ladder_rep_def side_rep_def orders_of_def tab_rep_def)

section \<open>Reading the representation\<close>

lemma orders_of_simps [simp]:
  "orders_of [] = []" "orders_of (x # L) = snd x @ orders_of L"
  "orders_of (L @ M) = orders_of L @ orders_of M"
  by (simp_all add: orders_of_def)

lemma in_orders_of: "a \<in> set (orders_of L) \<longleftrightarrow> (\<exists>x \<in> set L. a \<in> set (snd x))"
  by (auto simp: orders_of_def)

lemma side_repD:
  assumes "side_rep v sd L"
  shows "best v sd = (case L of [] \<Rightarrow> None | x # xs \<Rightarrow> Some (fst x))"
    and "L \<noteq> [] \<Longrightarrow> circ (eN v) (eP v) (map fst L)"
    and "x \<in> set L \<Longrightarrow> lvl_rep v sd x"
    and "sorted_wrt (\<lambda>x y. better sd (ePx v (fst x)) (ePx v (fst y))) L"
    and "distinct (map fst L)"
  using assms unfolding side_rep_def by (auto simp: circ_def)

lemma ladder_side_rep: "ladder_rep v S \<Longrightarrow> sd = BUY \<or> sd = SELL \<Longrightarrow> side_rep v sd (S sd)"
  by (auto simp: ladder_rep_def)

lemma ladder_lvl_rep:
  "ladder_rep v S \<Longrightarrow> sd = BUY \<or> sd = SELL \<Longrightarrow> x \<in> set (S sd) \<Longrightarrow> lvl_rep v sd x"
  using ladder_side_rep side_repD(3) by blast

lemma ladder_live:
  assumes "ladder_rep v S" "sd = BUY \<or> sd = SELL"
  shows "liveE v = fst ` set (S sd) \<union> fst ` set (S (opp sd))"
    and "liveO v = set (orders_of (S sd)) \<union> set (orders_of (S (opp sd)))"
  using assms by (auto simp: ladder_rep_def)

lemma ladder_tab: "ladder_rep v S \<Longrightarrow> tab_rep v"
  by (simp add: ladder_rep_def)

lemma ladder_best:
  "ladder_rep v S \<Longrightarrow> sd = BUY \<or> sd = SELL
    \<Longrightarrow> best v sd = (case S sd of [] \<Rightarrow> None | x # xs \<Rightarrow> Some (fst x))"
  using ladder_side_rep side_repD(1) by blast

lemma lvl_repD:
  assumes "lvl_rep v sd (l, os)"
  shows "eSd v l = sd" "e1 v l = Some (hd os)" "circ (oN v) (oP v) os" "os \<noteq> []"
    "distinct os" "a \<in> set os \<Longrightarrow> oSd v a = sd" "a \<in> set os \<Longrightarrow> oPx v a = ePx v l"
  using assms by (auto simp: lvl_rep_def circ_def)

text \<open>The order at an address: its level, its side and its place.\<close>

lemma ladder_order_cases:
  assumes "ladder_rep v S" "a \<in> liveO v"
  obtains sd us l os vs where "sd = BUY \<or> sd = SELL" "S sd = us @ (l, os) # vs" "a \<in> set os"
    "lvl_rep v sd (l, os)" "oSd v a = sd" "oPx v a = ePx v l" "tab v (pidx (oPx v a)) = Some l"
proof -
  obtain sd where sd: "sd = BUY \<or> sd = SELL" "a \<in> set (orders_of (S sd))"
    using assms ladder_live(2)[OF assms(1), of BUY] by auto
  then obtain l os where x: "(l, os) \<in> set (S sd)" "a \<in> set os"
    by (auto simp: in_orders_of)
  then obtain us vs where eq: "S sd = us @ (l, os) # vs"
    by (auto simp: in_set_conv_decomp)
  have r: "lvl_rep v sd (l, os)"
    using ladder_lvl_rep[OF assms(1) sd(1) x(1)] .
  have "l \<in> liveE v"
    using ladder_live(1)[OF assms(1) sd(1)] x(1) by force
  then have "tab v (pidx (oPx v a)) = Some l"
    using ladder_tab[OF assms(1)] lvl_repD(7)[OF r x(2)] by (simp add: tab_rep_def)
  then show thesis
    using that[OF sd(1) eq x(2) r] lvl_repD(6,7)[OF r x(2)] by blast
qed

lemma ladder_tab_level:
  assumes "ladder_rep v S" "tab v (pidx p) = Some l"
  obtains sd us os vs where "sd = BUY \<or> sd = SELL" "S sd = us @ (l, os) # vs"
    "lvl_rep v sd (l, os)" "pidx p = pidx (ePx v l)"
proof -
  have l: "l \<in> liveE v" "pidx p = pidx (ePx v l)"
    using ladder_tab[OF assms(1)] assms(2) pidx_less[of p] unfolding tab_rep_def by blast+
  then obtain sd where sd: "sd = BUY \<or> sd = SELL" "l \<in> fst ` set (S sd)"
    using ladder_live(1)[OF assms(1), of BUY] by auto
  then obtain os where x: "(l, os) \<in> set (S sd)" by auto
  then obtain us vs where eq: "S sd = us @ (l, os) # vs"
    by (auto simp: in_set_conv_decomp)
  show thesis
    by (rule that[OF sd(1) eq ladder_lvl_rep[OF assms(1) sd(1) x] l(2)])
qed

text \<open>Sides, prices and rings keep all structures apart.\<close>

lemma side_price_inj:
  assumes "side_rep v sd L" "x \<in> set L" "y \<in> set L" "ePx v (fst x) = ePx v (fst y)"
  shows "x = y"
proof (rule ccontr)
  assume "x \<noteq> y"
  obtain i j where ij: "i < length L" "x = L ! i" "j < length L" "y = L ! j"
    using assms(2,3) by (auto simp: in_set_conv_nth)
  then have "i < j \<or> j < i" using \<open>x \<noteq> y\<close> by (metis linorder_neqE_nat)
  then have "better sd (ePx v (fst x)) (ePx v (fst y)) \<or> better sd (ePx v (fst y)) (ePx v (fst x))"
    using sorted_wrt_nth_less[OF side_repD(4)[OF assms(1)]] ij by blast
  then show False using assms(4) by simp
qed

lemma order_level_unique:
  assumes "side_rep v sd L" "(l, os) \<in> set L" "(m, ps) \<in> set L" "a \<in> set os" "a \<in> set ps"
  shows "m = l \<and> ps = os"
  using side_price_inj[OF assms(1,2,3)] lvl_repD(7)[OF side_repD(3)[OF assms(1,2)] assms(4)]
    lvl_repD(7)[OF side_repD(3)[OF assms(1,3)] assms(5)] by auto

lemma distinct_orders_of:
  "side_rep v sd L \<Longrightarrow> distinct (orders_of L)"
proof -
  have "distinct (orders_of M)" if "set M \<subseteq> set L" "distinct (map fst M)" "side_rep v sd L" for M
    using that
  proof (induction M)
    case (Cons x M)
    obtain l os where x: "x = (l, os)" by (cases x)
    have "lvl_rep v sd (l, os)"
      using Cons.prems(1) x side_repD(3)[OF Cons.prems(3)] by auto
    moreover have "set os \<inter> set (orders_of M) = {}"
      using Cons.prems x order_level_unique[OF Cons.prems(3)]
      by (auto simp: in_orders_of) (metis image_eqI subset_iff fst_conv)
    ultimately show ?case
      using Cons x lvl_repD(5) by auto
  qed simp
  then show "side_rep v sd L \<Longrightarrow> distinct (orders_of L)"
    using side_repD(5) by blast
qed

section \<open>Frames\<close>

lemma lvl_rep_frame:
  assumes "lvl_rep v sd x"
    and "eSd v' (fst x) = eSd v (fst x)" "e1 v' (fst x) = e1 v (fst x)"
    "ePx v' (fst x) = ePx v (fst x)"
    and "\<And>a. a \<in> set (snd x) \<Longrightarrow> oN v' a = oN v a \<and> oP v' a = oP v a \<and> oSd v' a = oSd v a
      \<and> oPx v' a = oPx v a"
  shows "lvl_rep v' sd x"
  using assms by (auto simp: lvl_rep_def elim!: circ_cong)

lemma sorted_frame:
  assumes "sorted_wrt (\<lambda>x y. better sd (ePx v (fst x)) (ePx v (fst y))) L"
    and "\<And>x. x \<in> set L \<Longrightarrow> ePx v' (fst x) = ePx v (fst x)"
  shows "sorted_wrt (\<lambda>x y. better sd (ePx v' (fst x)) (ePx v' (fst y))) L"
  by (rule sorted_wrt_mono_rel[OF _ assms(1)]) (simp add: assms(2))

definition same_lvl :: "ladder \<Rightarrow> ladder \<Rightarrow> nat \<Rightarrow> bool" where
  "same_lvl v v' l \<longleftrightarrow> eN v' l = eN v l \<and> eP v' l = eP v l \<and> eSd v' l = eSd v l
     \<and> e1 v' l = e1 v l \<and> ePx v' l = ePx v l"

definition same_ord :: "ladder \<Rightarrow> ladder \<Rightarrow> nat \<Rightarrow> bool" where
  "same_ord v v' a \<longleftrightarrow> oN v' a = oN v a \<and> oP v' a = oP v a \<and> oSd v' a = oSd v a
     \<and> oPx v' a = oPx v a"

lemma side_rep_frame:
  assumes r: "side_rep v sd L" and b: "best v' sd = best v sd"
    and l: "\<And>x. x \<in> set L \<Longrightarrow> same_lvl v v' (fst x)"
    and o: "\<And>a. a \<in> set (orders_of L) \<Longrightarrow> same_ord v v' a"
  shows "side_rep v' sd L"
proof -
  have "circ (eN v') (eP v') (map fst L)" if "L \<noteq> []"
    by (rule circ_cong[OF side_repD(2)[OF r that]]) (use l in \<open>auto simp: same_lvl_def\<close>)
  moreover have "lvl_rep v' sd x" if "x \<in> set L" for x
    by (rule lvl_rep_frame[OF side_repD(3)[OF r that]])
      (use l o that in \<open>auto simp: same_lvl_def same_ord_def in_orders_of\<close>)
  moreover have "sorted_wrt (\<lambda>x y. better sd (ePx v' (fst x)) (ePx v' (fst y))) L"
    by (rule sorted_frame[OF side_repD(4)[OF r]]) (use l in \<open>auto simp: same_lvl_def\<close>)
  ultimately show ?thesis
    using side_repD(1)[OF r] b by (simp add: side_rep_def)
qed

text \<open>Only the data of the two structures the representation does not speak of changed.\<close>

lemma ladder_rep_cong:
  assumes r: "ladder_rep v S"
    and l: "\<And>l. l \<in> liveE v \<Longrightarrow> same_lvl v v' l" and o: "\<And>a. a \<in> liveO v \<Longrightarrow> same_ord v v' a"
    and b: "\<And>sd. best v' sd = best v sd" and t: "\<And>i. i < ME_MAX_PRICE_LEVELS \<Longrightarrow> tab v' i = tab v i"
    and "liveE v' = liveE v" "liveO v' = liveO v"
  shows "ladder_rep v' S"
proof -
  have "side_rep v' sd (S sd)" if "sd = BUY \<or> sd = SELL" for sd
    by (rule side_rep_frame[OF ladder_side_rep[OF r that] b])
      (use l o ladder_live[OF r that] in auto)
  moreover have "tab_rep v'"
    using ladder_tab[OF r] l t assms(6) by (auto simp: tab_rep_def same_lvl_def)
  ultimately show ?thesis
    using r ladder_live[OF r, of BUY] assms(6,7) by (simp add: ladder_rep_def)
qed

text \<open>One side changed.\<close>

lemma ladder_rep_side:
  assumes r: "ladder_rep v S" and sd: "sd = BUY \<or> sd = SELL" and new: "side_rep v' sd L"
    and l: "\<And>l. l \<in> fst ` set (S (opp sd)) \<Longrightarrow> same_lvl v v' l"
    and o: "\<And>a. a \<in> set (orders_of (S (opp sd))) \<Longrightarrow> same_ord v v' a"
    and b: "best v' (opp sd) = best v (opp sd)" and t: "tab_rep v'"
    and "liveE v' = fst ` set L \<union> fst ` set (S (opp sd))"
    and "liveO v' = set (orders_of L) \<union> set (orders_of (S (opp sd)))"
  shows "ladder_rep v' (S(sd := L))"
proof -
  have "side_rep v' (opp sd) (S (opp sd))"
    by (rule side_rep_frame[OF ladder_side_rep[OF r] b]) (use sd l o in auto)
  then show ?thesis
    using r sd new t assms(8,9) by (auto simp: ladder_rep_def)
qed

lemma other_side_level:
  assumes "ladder_rep v S" "sd = BUY \<or> sd = SELL" "l \<in> fst ` set (S (opp sd))"
  shows "eSd v l = opp sd" "l \<notin> fst ` set (S sd)"
proof -
  have own: "m \<in> fst ` set (S d) \<Longrightarrow> eSd v m = d" if "d = BUY \<or> d = SELL" for m d
    using ladder_lvl_rep[OF assms(1) that] by (auto simp: lvl_rep_def)
  show "eSd v l = opp sd" using own[OF opp_simps(4)] assms(3) .
  then show "l \<notin> fst ` set (S sd)" using own[OF assms(2)] opp_simps(3) by metis
qed

lemma other_side_order:
  assumes "ladder_rep v S" "sd = BUY \<or> sd = SELL" "a \<in> set (orders_of (S (opp sd)))"
  shows "oSd v a = opp sd" "a \<notin> set (orders_of (S sd))"
proof -
  have own: "x \<in> set (orders_of (S d)) \<Longrightarrow> oSd v x = d" if "d = BUY \<or> d = SELL" for x d
    using ladder_lvl_rep[OF assms(1) that] by (auto simp: lvl_rep_def in_orders_of)
  show "oSd v a = opp sd" using own[OF opp_simps(4)] assms(3) .
  then show "a \<notin> set (orders_of (S sd))" using own[OF assms(2)] opp_simps(3) by metis
qed

section \<open>Counting\<close>

lemma ladder_card:
  assumes "ladder_rep v S"
  shows "card (liveE v) = length (S BUY) + length (S SELL)"
    and "card (liveO v) = length (orders_of (S BUY)) + length (orders_of (S SELL))"
proof -
  have r: "side_rep v BUY (S BUY)" "side_rep v SELL (S SELL)"
    using ladder_side_rep[OF assms] by blast+
  have d: "fst ` set (S BUY) \<inter> fst ` set (S SELL) = {}"
    using other_side_level(2)[OF assms, of BUY] by auto
  have c: "card (fst ` set (S sd)) = length (S sd)" if "side_rep v sd (S sd)" for sd
    using distinct_card[OF side_repD(5)[OF that]] by simp
  show "card (liveE v) = length (S BUY) + length (S SELL)"
    using ladder_live(1)[OF assms, of BUY] c[OF r(1)] c[OF r(2)] d by (simp add: card_Un_disjoint)
  have d: "set (orders_of (S BUY)) \<inter> set (orders_of (S SELL)) = {}"
    using other_side_order(2)[OF assms, of BUY] by auto
  show "card (liveO v) = length (orders_of (S BUY)) + length (orders_of (S SELL))"
    using ladder_live(2)[OF assms, of BUY] d distinct_card[OF distinct_orders_of[OF r(1)]]
      distinct_card[OF distinct_orders_of[OF r(2)]] by (simp add: card_Un_disjoint)
qed

end
