(* ===== verification/LadderOps.thy ===== *)
theory LadderOps
  imports Ladder
begin

text \<open>
  The four pointer surgeries of the order books, on the ladder: append an order at a level,
  open a level, unlink an order that has company, close a level with its last order. Each
  lemma takes the views \<open>v\<close> before and \<open>v'\<close> after, related address by address, so that the
  books' functions only have to compute what they write.
\<close>

lemma split_in: "L = us @ x # vs \<Longrightarrow> x \<in> set L"
  by simp

lemma best_replace:
  "fst x = fst y \<Longrightarrow> (case us @ x # vs of [] \<Rightarrow> None | z # zs \<Rightarrow> Some (fst z))
     = (case us @ y # vs of [] \<Rightarrow> None | z # zs \<Rightarrow> Some (fst z))"
  by (cases us) auto

lemma other_levels:
  assumes "side_rep v sd (us @ (l, os) # vs)" "x \<in> set us \<union> set vs"
  shows "fst x \<noteq> l" and "a \<in> set (snd x) \<Longrightarrow> a \<notin> set os"
proof -
  have d: "distinct (map fst (us @ (l, os) # vs))" using side_repD(5)[OF assms(1)] .
  then show "fst x \<noteq> l" using assms(2) by force
  have "distinct (orders_of (us @ (l, os) # vs))" using distinct_orders_of[OF assms(1)] .
  moreover have "a \<in> set (orders_of us) \<union> set (orders_of vs)" if "a \<in> set (snd x)"
    using assms(2) that unfolding Un_iff in_orders_of by blast
  ultimately show "a \<notin> set os" if "a \<in> set (snd x)"
    using that by auto
qed

text \<open>Replacing the orders of one level.\<close>

lemma ladder_set_orders:
  assumes r: "ladder_rep v S" and sd: "sd = BUY \<or> sd = SELL" and S: "S sd = us @ (l, os) # vs"
    and new: "lvl_rep v' sd (l, os')"
    and lv: "\<And>m. m \<in> liveE v \<Longrightarrow> eN v' m = eN v m \<and> eP v' m = eP v m \<and> eSd v' m = eSd v m
       \<and> ePx v' m = ePx v m \<and> (m \<noteq> l \<longrightarrow> e1 v' m = e1 v m)"
    and o: "\<And>a. a \<in> liveO v \<Longrightarrow> a \<notin> set os \<Longrightarrow> same_ord v v' a"
    and b: "\<And>d. best v' d = best v d" and t: "\<And>i. i < ME_MAX_PRICE_LEVELS \<Longrightarrow> tab v' i = tab v i"
    and le: "liveE v' = liveE v" and lo: "liveO v' = (liveO v - set os) \<union> set os'"
  shows "ladder_rep v' (S(sd := us @ (l, os') # vs))"
proof (rule ladder_rep_side[OF r sd])
  have sr: "side_rep v sd (us @ (l, os) # vs)" using ladder_side_rep[OF r sd] S by simp
  have l_live: "l \<in> liveE v" using ladder_live(1)[OF r sd] S by force
  note live = ladder_live[OF r sd]
  have px: "ePx v' (fst x) = ePx v (fst x)" if "x \<in> set (us @ (l, os) # vs)" for x
    using lv live(1) S that by auto
  have "circ (eN v') (eP v') (map fst (us @ (l, os') # vs))"
    by (rule circ_cong[of "eN v" "eP v"])
      (use side_repD(2)[OF sr] lv live(1) S in auto)
  moreover have "lvl_rep v' sd x" if "x \<in> set us \<union> set vs" for x
  proof (rule lvl_rep_frame[of v])
    show "lvl_rep v sd x" using side_repD(3)[OF sr] that by auto
    have "fst x \<in> liveE v" using live(1) S that by auto
    then show "eSd v' (fst x) = eSd v (fst x)" "e1 v' (fst x) = e1 v (fst x)"
      "ePx v' (fst x) = ePx v (fst x)"
      using lv other_levels(1)[OF sr that] by auto
    show "oN v' a = oN v a \<and> oP v' a = oP v a \<and> oSd v' a = oSd v a \<and> oPx v' a = oPx v a"
      if "a \<in> set (snd x)" for a
    proof -
      have "a \<in> liveO v" using that \<open>x \<in> set us \<union> set vs\<close> live(2) S by (auto simp: in_orders_of)
      then show ?thesis
        using o other_levels(2)[OF sr \<open>x \<in> set us \<union> set vs\<close> that] by (simp add: same_ord_def)
    qed
  qed
  moreover have "sorted_wrt (\<lambda>x y. better sd (ePx v' (fst x)) (ePx v' (fst y))) (us @ (l, os') # vs)"
    using sorted_frame[OF side_repD(4)[OF sr] px] by (auto simp: sorted_wrt_append)
  moreover have "best v' sd = (case us @ (l, os') # vs of [] \<Rightarrow> None | x # xs \<Rightarrow> Some (fst x))"
    using b side_repD(1)[OF sr] best_replace[of "(l, os)" "(l, os')" us vs] by simp
  ultimately show "side_rep v' sd (us @ (l, os') # vs)"
    using new by (auto simp: side_rep_def)
  have other: "m \<noteq> l" if "m \<in> fst ` set (S (opp sd))" for m
    using other_side_level(2)[OF r sd that] S by force
  show "same_lvl v v' m" if "m \<in> fst ` set (S (opp sd))" for m
    using lv other[OF that] that live(1) by (auto simp: same_lvl_def)
  have oth: "a \<notin> set os" if "a \<in> set (orders_of (S (opp sd)))" for a
    using other_side_order(2)[OF r sd that] S by auto
  show "same_ord v v' a" if "a \<in> set (orders_of (S (opp sd)))" for a
    using o oth[OF that] that live(2) by auto
  show "best v' (opp sd) = best v (opp sd)" by (rule b)
  show "tab_rep v'" using ladder_tab[OF r] lv t le by (auto simp: tab_rep_def)
  show "liveE v' = fst ` set (us @ (l, os') # vs) \<union> fst ` set (S (opp sd))"
    using le live(1) S by simp
  have "set (orders_of us) \<inter> set os = {}" "set (orders_of vs) \<inter> set os = {}"
    using other_levels(2)[OF sr] by (fastforce simp: in_orders_of)+
  then show "liveO v' = set (orders_of (us @ (l, os') # vs)) \<union> set (orders_of (S (opp sd)))"
    using lo live(2) S oth by auto
qed

lemma ladder_append:
  assumes r: "ladder_rep v S" and sd: "sd = BUY \<or> sd = SELL" and S: "S sd = us @ (l, os) # vs"
    and a: "a \<notin> liveO v" and new: "oSd v' a = sd" "oPx v' a = ePx v l"
    and lv: "\<And>m. m \<in> liveE v \<Longrightarrow> same_lvl v v' m"
    and o: "\<And>x. x \<in> liveO v \<Longrightarrow> oSd v' x = oSd v x \<and> oPx v' x = oPx v x"
    and n: "\<And>x. x \<in> insert a (liveO v) \<Longrightarrow> oN v' x = ((oN v)(last os := Some a, a := Some (hd os))) x"
    and p: "\<And>x. x \<in> insert a (liveO v) \<Longrightarrow> oP v' x = ((oP v)(a := Some (last os), hd os := Some a)) x"
    and b: "\<And>d. best v' d = best v d" and t: "\<And>i. i < ME_MAX_PRICE_LEVELS \<Longrightarrow> tab v' i = tab v i"
    and le: "liveE v' = liveE v" and lo: "liveO v' = insert a (liveO v)"
  shows "ladder_rep v' (S(sd := us @ (l, os @ [a]) # vs))"
proof (rule ladder_set_orders[OF r sd S _ _ _ b t le])
  have lr: "lvl_rep v sd (l, os)" using ladder_lvl_rep[OF r sd split_in[OF S]] .
  have l: "l \<in> liveE v" using ladder_live(1)[OF r sd] S by force
  have os: "set os \<subseteq> liveO v" using ladder_live(2)[OF r sd] S by auto
  have "circ ((oN v)(last os := Some a, a := Some (hd os)))
     ((oP v)(a := Some (last os), hd os := Some a)) (os @ [a])"
    by (rule circ_append[OF lvl_repD(3)[OF lr] _ refl refl]) (use os a in auto)
  then have "circ (oN v') (oP v') (os @ [a])"
    by (rule circ_cong) (use os n p in auto)
  then show "lvl_rep v' sd (l, os @ [a])"
    using lr new o os lv[OF l] lvl_repD(4)[OF lr] by (auto simp: lvl_rep_def same_lvl_def)
  show "same_ord v v' x" if "x \<in> liveO v" "x \<notin> set os" for x
  proof -
    have "last os \<in> set os" "hd os \<in> set os" using lvl_repD(4)[OF lr] by auto
    then show ?thesis using o n p that a by (auto simp: same_ord_def)
  qed
  show "liveO v' = (liveO v - set os) \<union> set (os @ [a])" using lo os by auto
qed (use lv in \<open>auto simp: same_lvl_def\<close>)

lemma ladder_unlink:
  assumes r: "ladder_rep v S" and sd: "sd = BUY \<or> sd = SELL"
    and S: "S sd = us @ (l, os1 @ a # os2) # vs" and ne: "os1 @ os2 \<noteq> []"
    and bf: "oP v a = Some b" and af: "oN v a = Some c"
    and lv: "\<And>m. m \<in> liveE v \<Longrightarrow> eN v' m = eN v m \<and> eP v' m = eP v m \<and> eSd v' m = eSd v m
       \<and> ePx v' m = ePx v m \<and> e1 v' m = (if m = l \<and> e1 v l = Some a then Some c else e1 v m)"
    and o: "\<And>x. x \<in> liveO v \<Longrightarrow> oSd v' x = oSd v x \<and> oPx v' x = oPx v x"
    and n: "\<And>x. x \<in> liveO v - {a} \<Longrightarrow> oN v' x = ((oN v)(b := Some c)) x"
    and p: "\<And>x. x \<in> liveO v - {a} \<Longrightarrow> oP v' x = ((oP v)(c := Some b)) x"
    and be: "\<And>d. best v' d = best v d" and t: "\<And>i. i < ME_MAX_PRICE_LEVELS \<Longrightarrow> tab v' i = tab v i"
    and le: "liveE v' = liveE v" and lo: "liveO v' = liveO v - {a}"
  shows "ladder_rep v' (S(sd := us @ (l, os1 @ os2) # vs))"
proof (rule ladder_set_orders[OF r sd S _ _ _ be t le])
  let ?os = "os1 @ a # os2"
  have lr: "lvl_rep v sd (l, ?os)" using ladder_lvl_rep[OF r sd split_in[OF S]] .
  have l: "l \<in> liveE v" using ladder_live(1)[OF r sd] S by force
  have os: "set ?os \<subseteq> liveO v" using ladder_live(2)[OF r sd] S by auto
  have ci: "circ (oN v) (oP v) ?os" using lvl_repD(3)[OF lr] .
  have d: "a \<notin> set os1 \<union> set os2" using circ_distinct[OF ci] by simp
  obtain b' c' where bc: "b = b'" "c = c'" "b' \<in> set ?os" "c' \<in> set ?os"
    using circ_in_links[OF ci, of a] bf af by auto
  have "circ ((oN v)(b := Some c, a := None)) ((oP v)(c := Some b, a := None)) (os1 @ os2)"
    by (rule circ_unlink[OF ci ne bf af refl refl])
  then have "circ (oN v') (oP v') (os1 @ os2)"
    by (rule circ_cong) (use os n p d in auto)
  moreover have "e1 v' l = Some (hd (os1 @ os2))"
  proof (cases os1)
    case Nil
    then have "e1 v l = Some a" using lvl_repD(2)[OF lr] by simp
    moreover have "c = hd os2"
      using circ_links(2)[of "oN v" "oP v" a os2] ci Nil ne af by (auto simp: hd_append)
    ultimately show ?thesis using lv[OF l] Nil by simp
  next
    case (Cons x xs)
    then have "e1 v l \<noteq> Some a" using lvl_repD(2)[OF lr] d by simp
    then show ?thesis using lv[OF l] Cons lvl_repD(2)[OF lr] by simp
  qed
  ultimately show "lvl_rep v' sd (l, os1 @ os2)"
    using lr o os lv[OF l] by (auto simp: lvl_rep_def)
  show "same_ord v v' x" if "x \<in> liveO v" "x \<notin> set ?os" for x
    using o n p that bc by (auto simp: same_ord_def)
  show "liveO v' = (liveO v - set ?os) \<union> set (os1 @ os2)" using lo os d by auto
qed (use lv in auto)

text \<open>Opening a level: the caller shows that the ring is right, in whatever order the code
  writes the links.\<close>

lemma ladder_open:
  assumes r: "ladder_rep v S" and sd: "sd = BUY \<or> sd = SELL" and S: "S sd = us @ vs"
    and l: "l \<notin> liveE v" and a: "a \<notin> liveO v"
    and nl: "eSd v' l = sd" "e1 v' l = Some a" "ePx v' l = p"
    and na: "oN v' a = Some a" "oP v' a = Some a" "oSd v' a = sd" "oPx v' a = p"
    and up: "\<And>x. x \<in> set us \<Longrightarrow> better sd (ePx v (fst x)) p"
    and dn: "\<And>x. x \<in> set vs \<Longrightarrow> better sd p (ePx v (fst x))"
    and ring: "circ (eN v') (eP v') (map fst us @ l # map fst vs)"
    and be: "best v' sd = Some (hd (map fst us @ [l]))" and bo: "best v' (opp sd) = best v (opp sd)"
    and lv: "\<And>m. m \<in> liveE v \<Longrightarrow> eSd v' m = eSd v m \<and> e1 v' m = e1 v m \<and> ePx v' m = ePx v m"
    and ln: "\<And>m. m \<in> fst ` set (S (opp sd)) \<Longrightarrow> eN v' m = eN v m \<and> eP v' m = eP v m"
    and o: "\<And>x. x \<in> liveO v \<Longrightarrow> same_ord v v' x"
    and fr: "tab v (pidx p) = None"
    and t: "\<And>i. i < ME_MAX_PRICE_LEVELS \<Longrightarrow> tab v' i = ((tab v)(pidx p := Some l)) i"
    and le: "liveE v' = insert l (liveE v)" and lo: "liveO v' = insert a (liveO v)"
  shows "ladder_rep v' (S(sd := us @ (l, [a]) # vs))"
proof (rule ladder_rep_side[OF r sd])
  have sr: "side_rep v sd (us @ vs)" using ladder_side_rep[OF r sd] S by simp
  note live = ladder_live[OF r sd]
  have px: "ePx v' (fst x) = ePx v (fst x)" if "x \<in> set (us @ vs)" for x
    using lv live(1) S that by auto
  have "lvl_rep v' sd x" if "x \<in> set (us @ vs)" for x
  proof (rule lvl_rep_frame[OF side_repD(3)[OF sr that]])
    have "fst x \<in> liveE v" using live(1) S that by auto
    then show "eSd v' (fst x) = eSd v (fst x)" "e1 v' (fst x) = e1 v (fst x)"
      "ePx v' (fst x) = ePx v (fst x)" using lv by auto
    show "oN v' y = oN v y \<and> oP v' y = oP v y \<and> oSd v' y = oSd v y \<and> oPx v' y = oPx v y"
      if "y \<in> set (snd x)" for y
      using o[of y] that \<open>x \<in> set (us @ vs)\<close> live(2) S by (auto simp: in_orders_of same_ord_def)
  qed
  moreover have "lvl_rep v' sd (l, [a])" using nl na by (simp add: lvl_rep_def)
  moreover have "sorted_wrt (\<lambda>x y. better sd (ePx v' (fst x)) (ePx v' (fst y))) (us @ (l, [a]) # vs)"
    using sorted_frame[OF side_repD(4)[OF sr] px] px up dn nl(3) by (auto simp: sorted_wrt_append)
  moreover have "best v' sd = (case us @ (l, [a]) # vs of [] \<Rightarrow> None | x # xs \<Rightarrow> Some (fst x))"
    using be by (cases us) auto
  ultimately show "side_rep v' sd (us @ (l, [a]) # vs)"
    using ring by (auto simp: side_rep_def)
  show "same_lvl v v' m" if "m \<in> fst ` set (S (opp sd))" for m
    using lv ln[OF that] that live(1) by (auto simp: same_lvl_def)
  show "same_ord v v' x" if "x \<in> set (orders_of (S (opp sd)))" for x
    using o that live(2) by auto
  show "best v' (opp sd) = best v (opp sd)" by (rule bo)
  show "tab_rep v'"
    using ladder_tab[OF r] lv t le fr nl(3) l pidx_less[of p] pidx_less
    by (auto simp: tab_rep_def split: if_splits) 
  show "liveE v' = fst ` set (us @ (l, [a]) # vs) \<union> fst ` set (S (opp sd))"
    using le live(1) S by auto
  show "liveO v' = set (orders_of (us @ (l, [a]) # vs)) \<union> set (orders_of (S (opp sd)))"
    using lo live(2) S by auto
qed

text \<open>Closing a level together with its last order.\<close>

lemma ladder_close:
  assumes r: "ladder_rep v S" and sd: "sd = BUY \<or> sd = SELL" and S: "S sd = us @ (l, [a]) # vs"
    and ring: "us @ vs \<noteq> [] \<Longrightarrow> \<exists>b c. eP v l = Some b \<and> eN v l = Some c \<and>
        (\<forall>m \<in> liveE v - {l}. eN v' m = ((eN v)(b := Some c)) m
           \<and> eP v' m = ((eP v)(c := Some b)) m)
        \<and> best v' sd = (if best v sd = Some l then Some c else best v sd)"
    and alone: "us @ vs = [] \<Longrightarrow> best v' sd = None
        \<and> (\<forall>m \<in> liveE v - {l}. eN v' m = eN v m \<and> eP v' m = eP v m)"
    and bo: "best v' (opp sd) = best v (opp sd)"
    and lv: "\<And>m. m \<in> liveE v - {l} \<Longrightarrow> eSd v' m = eSd v m \<and> e1 v' m = e1 v m \<and> ePx v' m = ePx v m"
    and o: "\<And>x. x \<in> liveO v - {a} \<Longrightarrow> same_ord v v' x"
    and t: "\<And>i. i < ME_MAX_PRICE_LEVELS \<Longrightarrow> tab v' i = ((tab v)(pidx (ePx v l) := None)) i"
    and le: "liveE v' = liveE v - {l}" and lo: "liveO v' = liveO v - {a}"
  shows "ladder_rep v' (S(sd := us @ vs))"
proof (rule ladder_rep_side[OF r sd])
  have sr: "side_rep v sd (us @ (l, [a]) # vs)" using ladder_side_rep[OF r sd] S by simp
  note live = ladder_live[OF r sd]
  have ci: "circ (eN v) (eP v) (map fst us @ l # map fst vs)" using side_repD(2)[OF sr] by simp
  have nl: "l \<notin> fst ` set (us @ vs)" using circ_distinct[OF ci] by auto
  have na: "a \<notin> set (orders_of (us @ vs))" using distinct_orders_of[OF sr] by auto
  have px: "ePx v' (fst x) = ePx v (fst x)" if "x \<in> set (us @ vs)" for x
    using lv live(1) S that nl by force
  have lvx: "lvl_rep v' sd x" if x: "x \<in> set (us @ vs)" for x
  proof (rule lvl_rep_frame[of v])
    show "lvl_rep v sd x" using side_repD(3)[OF sr] x by auto
    have "fst x \<in> liveE v - {l}" using live(1) S x nl by force
    then show "eSd v' (fst x) = eSd v (fst x)" "e1 v' (fst x) = e1 v (fst x)"
      "ePx v' (fst x) = ePx v (fst x)" using lv by auto
    show "oN v' y = oN v y \<and> oP v' y = oP v y \<and> oSd v' y = oSd v y \<and> oPx v' y = oPx v y"
      if "y \<in> set (snd x)" for y
    proof -
      have "y \<in> set (orders_of (us @ vs))" using that x by (auto simp: in_orders_of)
      then have "y \<in> liveO v - {a}" using na live(2) S by auto
      then show ?thesis using o by (simp add: same_ord_def)
    qed
  qed
  have sorted: "sorted_wrt (\<lambda>x y. better sd (ePx v' (fst x)) (ePx v' (fst y))) (us @ vs)"
  proof (rule sorted_frame[OF _ px])
    show "sorted_wrt (\<lambda>x y. better sd (ePx v (fst x)) (ePx v (fst y))) (us @ vs)"
      using side_repD(4)[OF sr] by (auto simp: sorted_wrt_append)
  qed
  have bs: "best v sd = Some (hd (map fst us @ [l]))"
    using side_repD(1)[OF sr] by (cases us) auto
  have in_live: "fst ` set (us @ vs) \<subseteq> liveE v - {l}" using live(1) S nl by auto
  show "side_rep v' sd (us @ vs)"
  proof (cases "us @ vs = []")
    case True
    then show ?thesis using alone by (simp add: side_rep_def)
  next
    case False
    then obtain b c where bc: "eP v l = Some b" "eN v l = Some c"
      and w: "\<forall>m \<in> liveE v - {l}. eN v' m = ((eN v)(b := Some c)) m \<and> eP v' m = ((eP v)(c := Some b)) m"
      and best': "best v' sd = (if best v sd = Some l then Some c else best v sd)"
      using ring by blast
    have "circ ((eN v)(b := Some c, l := None)) ((eP v)(c := Some b, l := None)) (map fst us @ map fst vs)"
      by (rule circ_unlink[OF ci _ bc refl refl]) (use False in auto)
    then have "circ (eN v') (eP v') (map fst (us @ vs))"
      unfolding map_append by (rule circ_cong) (use w in_live in auto)
    moreover have "best v' sd = (case us @ vs of [] \<Rightarrow> None | x # xs \<Rightarrow> Some (fst x))"
    proof (cases us)
      case Nil
      then have "c = hd (map fst vs)"
        using circ_links(2)[of "eN v" "eP v" l "map fst vs"] ci bc False by (cases vs) auto
      then show ?thesis using best' bs Nil False by (cases vs) auto
    next
      case (Cons x xs)
      then have "best v sd \<noteq> Some l" using bs nl by auto
      then show ?thesis using best' bs Cons by simp
    qed
    ultimately show ?thesis using lvx sorted by (simp add: side_rep_def)
  qed
  have oth: "m \<in> liveE v - {l}" if "m \<in> fst ` set (S (opp sd))" for m
    using other_side_level(2)[OF r sd that] S that live(1) by force
  have far: "m \<noteq> x" if m: "m \<in> fst ` set (S (opp sd))" and x: "eN v l = Some x \<or> eP v l = Some x" for m x
  proof -
    have "x \<in> set (map fst us @ l # map fst vs)"
    proof -
      obtain b' c' where "eP v l = Some b'" "eN v l = Some c'"
        "b' \<in> set (map fst us @ l # map fst vs)" "c' \<in> set (map fst us @ l # map fst vs)"
        by (rule circ_in_links[OF ci, of l]) auto
      then show ?thesis using x by (metis option.inject)
    qed
    then have "x \<in> fst ` set (S sd)" using S by auto
    then show ?thesis using other_side_level(2)[OF r sd m] by blast
  qed
  show "same_lvl v v' m" if "m \<in> fst ` set (S (opp sd))" for m
  proof -
    have "eN v' m = eN v m \<and> eP v' m = eP v m"
    proof (cases "us @ vs = []")
      case True
      then show ?thesis using alone oth[OF that] by blast
    next
      case False
      then show ?thesis using ring far[OF that] oth[OF that] by fastforce
    qed
    then show ?thesis using lv[OF oth[OF that]] by (simp add: same_lvl_def)
  qed
  show "same_ord v v' x" if "x \<in> set (orders_of (S (opp sd)))" for x
    using o that live(2) other_side_order(2)[OF r sd that] S by auto
  show "best v' (opp sd) = best v (opp sd)" by (rule bo)
  have un: "m = l" if "m \<in> liveE v" "pidx (ePx v m) = pidx (ePx v l)" for m
  proof -
    have "l \<in> liveE v" using live(1) S by auto
    then have "tab v (pidx (ePx v l)) = Some l" "tab v (pidx (ePx v m)) = Some m"
      using ladder_tab[OF r] that(1) by (auto simp: tab_rep_def)
    then show ?thesis using that(2) by simp
  qed
  show "tab_rep v'"
    unfolding tab_rep_def
  proof (intro conjI ballI allI impI)
    fix m assume m: "m \<in> liveE v'"
    then have "m \<in> liveE v" "m \<noteq> l" using le by auto
    moreover have "tab v (pidx (ePx v m)) = Some m"
      using ladder_tab[OF r] \<open>m \<in> liveE v\<close> by (simp add: tab_rep_def)
    ultimately show "tab v' (pidx (ePx v' m)) = Some m"
    proof -
      have px: "ePx v' m = ePx v m" using lv[of m] \<open>m \<in> liveE v\<close> \<open>m \<noteq> l\<close> by simp
      have "pidx (ePx v m) \<noteq> pidx (ePx v l)" using un \<open>m \<in> liveE v\<close> \<open>m \<noteq> l\<close> by blast
      then show ?thesis unfolding px using t[OF pidx_less, of "ePx v m"] \<open>tab v (pidx (ePx v m)) = Some m\<close> by simp
    qed
  next
    fix i m assume i: "i < ME_MAX_PRICE_LEVELS" and m: "tab v' i = Some m"
    then have ne: "i \<noteq> pidx (ePx v l)" and "tab v i = Some m"
      using t[OF i] by (auto split: if_splits)
    then have "m \<in> liveE v" "i = pidx (ePx v m)"
      using ladder_tab[OF r] i by (auto simp: tab_rep_def)
    moreover from this ne have "m \<noteq> l" by blast
    ultimately show "m \<in> liveE v'" "i = pidx (ePx v' m)"
      using le lv[of m] by simp_all
  qed
  have "l \<notin> fst ` set (S (opp sd))" using oth by blast
  then show "liveE v' = fst ` set (us @ vs) \<union> fst ` set (S (opp sd))"
    unfolding le live(1) S using nl by auto
  have "a \<notin> set (orders_of (S (opp sd)))" using other_side_order(2)[OF r sd] S by auto
  then show "liveO v' = set (orders_of (us @ vs)) \<union> set (orders_of (S (opp sd)))"
    unfolding lo live(2) S using na by auto
qed

end
