(* ===== verification/BookSpec.thy ===== *)
theory BookSpec
  imports MEOrder
begin

text \<open>
  What a limit order book promises, without pointers: each side is a list of price levels,
  best price first, each a price with its orders in time priority. \<open>sweep\<close> is the matching
  of an incoming order against the opposite side, \<open>enqueue\<close> the insertion of what is left,
  \<open>withdraw\<close> a cancellation; \<open>fill_responses\<close> and \<open>fill_updates\<close> are the messages a fill
  produces. The lemmas are the contract: quantity is conserved, orders are filled strictly
  in price-time priority, what remains does not cross.
\<close>

record aorder =
  a_client :: ClientId
  a_coid :: OrderId
  a_moid :: OrderId
  a_qty :: Qty
  a_prio :: Priority

type_synonym alevel = "Price \<times> aorder list"
type_synonym abook = "Side \<Rightarrow> alevel list"

record fill =
  f_price :: Price
  f_order :: aorder   \<comment> \<open>the resting order before the fill\<close>
  f_qty :: Qty
  f_left :: Qty       \<comment> \<open>what the incoming order still wants after the fill\<close>

section \<open>Matching\<close>

function sweep :: "(Price \<Rightarrow> bool) \<Rightarrow> Qty \<Rightarrow> alevel list \<Rightarrow> Qty \<times> alevel list \<times> fill list" where
  "sweep crosses q [] = (q, [], [])"
| "sweep crosses q ((p, []) # L) = (q, (p, []) # L, [])"
| "sweep crosses q ((p, ao # os) # L) =
     (if q = 0 \<or> \<not> crosses p then (q, (p, ao # os) # L, [])
      else if q < a_qty ao
      then (0, (p, ao\<lparr>a_qty := a_qty ao - q\<rparr> # os) # L,
            [\<lparr>f_price = p, f_order = ao, f_qty = q, f_left = 0\<rparr>])
      else (case sweep crosses (q - a_qty ao) (if os = [] then L else (p, os) # L) of
              (q', M, fs) \<Rightarrow>
                (q', M, \<lparr>f_price = p, f_order = ao, f_qty = a_qty ao,
                         f_left = q - a_qty ao\<rparr> # fs)))"
  by pat_completeness auto
termination
  by (relation "measure (\<lambda>(c, q, L). length (concat (map snd L)))") auto

definition alevels_ok :: "alevel list \<Rightarrow> bool" where
  "alevels_ok L \<longleftrightarrow> (\<forall>(p, os) \<in> set L. os \<noteq> [] \<and> (\<forall>ao \<in> set os. a_qty ao \<noteq> 0))"

definition resting_qty :: "alevel list \<Rightarrow> nat" where
  "resting_qty L = sum_list (map (\<lambda>ao. unat (a_qty ao)) (concat (map snd L)))"

definition filled_qty :: "fill list \<Rightarrow> nat" where
  "filled_qty fs = sum_list (map (\<lambda>f. unat (f_qty f)) fs)"

lemma alevels_ok_simps [simp]:
  "alevels_ok []"
  "alevels_ok ((p, os) # L) \<longleftrightarrow> os \<noteq> [] \<and> (\<forall>ao \<in> set os. a_qty ao \<noteq> 0) \<and> alevels_ok L"
  "alevels_ok (L @ M) \<longleftrightarrow> alevels_ok L \<and> alevels_ok M"
  by (auto simp: alevels_ok_def)

lemma resting_qty_simps [simp]:
  "resting_qty [] = 0" "resting_qty ((p, []) # L) = resting_qty L"
  "resting_qty ((p, ao # os) # L) = unat (a_qty ao) + resting_qty ((p, os) # L)"
  by (simp_all add: resting_qty_def)

lemma filled_qty_simps [simp]:
  "filled_qty [] = 0" "filled_qty (f # fs) = unat (f_qty f) + filled_qty fs"
  by (simp_all add: filled_qty_def)

lemma sweep_ok: "alevels_ok L \<Longrightarrow> alevels_ok (fst (snd (sweep crosses q L)))"
  by (induction crosses q L rule: sweep.induct) (auto split: prod.splits)

text \<open>Nothing is lost and nothing is made up, on either side of the trade.\<close>

lemma sweep_conserves:
  assumes "sweep crosses q L = (q', M, fs)"
  shows "unat q = unat q' + filled_qty fs" and "resting_qty L = resting_qty M + filled_qty fs"
  using assms
proof (induction crosses q L arbitrary: q' M fs rule: sweep.induct)
  case (3 crosses q p ao os L)
  let ?L = "if os = [] then L else (p, os) # L"
  have r: "resting_qty ?L = resting_qty ((p, os) # L)" by simp
  {
    case 1
    show ?case
    proof (cases "q = 0 \<or> \<not> crosses p \<or> q < a_qty ao")
      case True
      then show ?thesis using 1 by (auto split: if_splits)
    next
      case False
      obtain q1 M1 fs1 where s: "sweep crosses (q - a_qty ao) ?L = (q1, M1, fs1)"
        by (metis prod_cases3)
      have "unat (q - a_qty ao) = unat q1 + filled_qty fs1"
        using "3.IH"(1)[OF _ _ s] False by simp
      then show ?thesis
        using 1 False s unat_minus_le[of "a_qty ao" q]
        by (auto simp: word_le_nat_alt word_less_nat_alt)
    qed
  next
    case 2
    show ?case
    proof (cases "q = 0 \<or> \<not> crosses p \<or> q < a_qty ao")
      case True
      then show ?thesis
        using 2 unat_minus_le[of q "a_qty ao"] by (auto split: if_splits simp: word_less_nat_alt word_le_nat_alt)
    next
      case False
      obtain q1 M1 fs1 where s: "sweep crosses (q - a_qty ao) ?L = (q1, M1, fs1)"
        by (metis prod_cases3)
      have "resting_qty ?L = resting_qty M1 + filled_qty fs1"
        using "3.IH"(2)[OF _ _ s] False by simp
      then show ?thesis using 2 False s r by auto
    qed
  }
qed auto

text \<open>The incoming order is done, or the best remaining price does not cross.\<close>

lemma sweep_done:
  assumes "alevels_ok L" "sweep crosses q L = (q', M, fs)"
  shows "q' = 0 \<or> M = [] \<or> \<not> crosses (fst (hd M))"
  using assms
  by (induction crosses q L arbitrary: q' M fs rule: sweep.induct)
    (auto split: if_splits prod.splits)

text \<open>Price-time priority: the fills hit the resting orders in the order they stand in the
  book, each one completely before the next is touched.\<close>

lemma sweep_priority:
  assumes "alevels_ok L" "sweep crosses q L = (q', M, fs)"
  shows "map f_order fs = take (length fs) (concat (map snd L))"
    and "\<forall>f \<in> set (butlast fs). f_qty f = a_qty (f_order f)"
    and "\<forall>f \<in> set fs. crosses (f_price f)"
  using assms
proof (induction crosses q L arbitrary: q' M fs rule: sweep.induct)
  case (3 crosses q p ao os L)
  let ?L = "if os = [] then L else (p, os) # L"
  have c: "concat (map snd ?L) = os @ concat (map snd L)" by simp
  have ok: "alevels_ok ?L" if "alevels_ok ((p, ao # os) # L)" using that by simp
  obtain q1 M1 fs1 where s: "sweep crosses (q - a_qty ao) ?L = (q1, M1, fs1)"
    by (metis prod_cases3)
  {
    case 1
    then show ?case
      using "3.IH"(1)[OF _ _ ok s] s c by (auto split: if_splits simp del: alevels_ok_simps)
  next
    case 2
    then show ?case
      using "3.IH"(2)[OF _ _ ok s] s c by (auto split: if_splits simp del: alevels_ok_simps)
  next
    case 3
    then show ?case
      using "3.IH"(3)[OF _ _ ok s] s c by (auto split: if_splits simp del: alevels_ok_simps)
  }
qed auto

text \<open>Levels only disappear from the front, and prices never change.\<close>

lemma sweep_prices:
  "\<exists>n. map fst (fst (snd (sweep crosses q L))) = drop n (map fst L)"
proof (induction crosses q L rule: sweep.induct)
  case (3 crosses q p ao os L)
  show ?case
  proof (cases "q = 0 \<or> \<not> crosses p \<or> q < a_qty ao")
    case True
    then show ?thesis by (auto intro: exI[of _ 0])
  next
    case False
    then obtain n where n: "map fst (fst (snd (sweep crosses (q - a_qty ao)
        (if os = [] then L else (p, os) # L)))) = drop n (map fst (if os = [] then L else (p, os) # L))"
      using "3.IH" by blast
    then have "\<exists>m. drop n (map fst (if os = [] then L else (p, os) # L)) = drop m (p # map fst L)"
      by (cases "os = []") (auto intro: exI[of _ "Suc n"] exI[of _ n])
    then show ?thesis using n False by (auto split: prod.splits)
  qed
qed (auto intro: exI[of _ 0])

section \<open>Resting and withdrawing\<close>

fun enqueue :: "Side \<Rightarrow> Price \<Rightarrow> aorder \<Rightarrow> alevel list \<Rightarrow> alevel list" where
  "enqueue sd p ao [] = [(p, [ao])]"
| "enqueue sd p ao ((p', os) # L) =
     (if p' = p then (p', os @ [ao]) # L
      else if better sd p p' then (p, [ao]) # (p', os) # L
      else (p', os) # enqueue sd p ao L)"

lemma enqueue_join:
  assumes "\<forall>x \<in> set us. better sd (fst x) p"
  shows "enqueue sd p ao (us @ (p, os) # vs) = us @ (p, os @ [ao]) # vs"
  using assms by (induction us) (auto dest: better_asym)

lemma enqueue_open:
  assumes "\<forall>x \<in> set us. better sd (fst x) p" "\<forall>x \<in> set vs. better sd p (fst x)"
  shows "enqueue sd p ao (us @ vs) = us @ (p, [ao]) # vs"
  using assms
proof (induction us)
  case Nil
  then show ?case by (cases vs) auto
next
  case (Cons x us)
  then show ?case by (cases x) (auto dest: better_asym)
qed

definition prices_sorted :: "Side \<Rightarrow> alevel list \<Rightarrow> bool" where
  "prices_sorted sd L \<longleftrightarrow> sorted_wrt (\<lambda>x y. better sd (fst x) (fst y)) L"

text \<open>A sorted side splits at any price.\<close>

lemma prices_split:
  assumes "prices_sorted sd L"
  obtains us vs where "L = us @ vs" "\<forall>x \<in> set us. better sd (fst x) p"
    "\<forall>x \<in> set vs. fst x = p \<or> better sd p (fst x)"
proof (rule that[of "takeWhile (\<lambda>x. better sd (fst x) p) L" "dropWhile (\<lambda>x. better sd (fst x) p) L"])
  show "\<forall>x \<in> set (takeWhile (\<lambda>x. better sd (fst x) p) L). better sd (fst x) p"
    by (auto dest: set_takeWhileD)
  show "\<forall>x \<in> set (dropWhile (\<lambda>x. better sd (fst x) p) L). fst x = p \<or> better sd p (fst x)"
    using assms unfolding prices_sorted_def
  proof (induction L)
    case (Cons y L)
    show ?case
    proof (cases "better sd (fst y) p")
      case True
      then show ?thesis using Cons by simp
    next
      case False
      then have y: "fst y = p \<or> better sd p (fst y)" using better_total by blast
      then show ?thesis using False Cons.prems better_trans by fastforce
    qed
  qed simp
qed simp

lemma enqueue_ok: "alevels_ok L \<Longrightarrow> a_qty ao \<noteq> 0 \<Longrightarrow> alevels_ok (enqueue sd p ao L)"
  by (induction sd p ao L rule: enqueue.induct) auto

definition withdraw_level :: "(aorder \<Rightarrow> bool) \<Rightarrow> alevel \<Rightarrow> alevel" where
  "withdraw_level P x = (fst x, filter (\<lambda>ao. \<not> P ao) (snd x))"

definition withdraw :: "(aorder \<Rightarrow> bool) \<Rightarrow> alevel list \<Rightarrow> alevel list" where
  "withdraw P L = filter (\<lambda>x. snd x \<noteq> []) (map (withdraw_level P) L)"

text \<open>The priority the code gives a new order: one more than that of the last at its price.\<close>

definition next_prio :: "Price \<Rightarrow> alevel list \<Rightarrow> Priority" where
  "next_prio p L =
     (case find (\<lambda>x. fst x = p) L of None \<Rightarrow> 1 | Some x \<Rightarrow> a_prio (last (snd x)) + 1)"

section \<open>The messages of a fill\<close>

definition fill_responses ::
  "TickerId \<Rightarrow> ClientId \<Rightarrow> Side \<Rightarrow> OrderId \<Rightarrow> OrderId \<Rightarrow> Side \<Rightarrow> fill \<Rightarrow> MEClientResponse list" where
  "fill_responses tid cid side coid moid other f =
     [\<lparr>rs_type = CRS_FILLED, rs_client_id = cid, rs_ticker_id = tid, rs_client_order_id = coid,
       rs_market_order_id = moid, rs_side = side, rs_price = f_price f, rs_exec_qty = f_qty f,
       rs_leaves_qty = f_left f\<rparr>,
      \<lparr>rs_type = CRS_FILLED, rs_client_id = a_client (f_order f), rs_ticker_id = tid,
       rs_client_order_id = a_coid (f_order f), rs_market_order_id = a_moid (f_order f),
       rs_side = other, rs_price = f_price f, rs_exec_qty = f_qty f,
       rs_leaves_qty = a_qty (f_order f) - f_qty f\<rparr>]"

definition fill_updates :: "TickerId \<Rightarrow> Side \<Rightarrow> Side \<Rightarrow> fill \<Rightarrow> MEMarketUpdate list" where
  "fill_updates tid side other f =
     [\<lparr>mu_type = MUT_TRADE, mu_order_id = OrderId_INVALID, mu_ticker_id = tid, mu_side = side,
       mu_price = f_price f, mu_qty = f_qty f, mu_priority = Priority_INVALID\<rparr>,
      (if f_qty f = a_qty (f_order f)
       then \<lparr>mu_type = MUT_CANCEL, mu_order_id = a_moid (f_order f), mu_ticker_id = tid,
             mu_side = other, mu_price = f_price f, mu_qty = a_qty (f_order f),
             mu_priority = Priority_INVALID\<rparr>
       else \<lparr>mu_type = MUT_MODIFY, mu_order_id = a_moid (f_order f), mu_ticker_id = tid,
             mu_side = other, mu_price = f_price f, mu_qty = a_qty (f_order f) - f_qty f,
             mu_priority = a_prio (f_order f)\<rparr>)]"

section \<open>The two client operations\<close>

text \<open>A resting price \<open>p\<close> trades with an incoming order at \<open>price\<close>.\<close>

definition crosses_at :: "Side \<Rightarrow> Price \<Rightarrow> Price \<Rightarrow> bool" where
  "crosses_at side price p \<longleftrightarrow> (if side = BUY then p \<le> price else price \<le> p)"

lemma crosses_at_self [simp]: "crosses_at side price price"
  by (simp add: crosses_at_def)

lemma crosses_at_better:
  "side = BUY \<or> side = SELL \<Longrightarrow> crosses_at side price p \<Longrightarrow> better (opp side) p' p
    \<Longrightarrow> crosses_at side price p'"
  by (auto simp: crosses_at_def better_def opp_def split: if_splits)

text \<open>The market order id that fills carry: the code cuts it to 32 bits.\<close>

definition fill_id :: "OrderId \<Rightarrow> OrderId" where
  "fill_id moid = ucast (ucast moid :: Qty)"

definition spec_add ::
  "TickerId \<Rightarrow> OrderId \<Rightarrow> ClientId \<Rightarrow> OrderId \<Rightarrow> Side \<Rightarrow> Price \<Rightarrow> Qty \<Rightarrow> abook
    \<Rightarrow> abook \<times> MEClientResponse list \<times> MEMarketUpdate list" where
  "spec_add tid moid cid coid side price qty A =
     (let (left, M, fs) = sweep (crosses_at side price) qty (A (opp side));
          A1 = A(opp side := M);
          prio = next_prio price (A side);
          accepted = \<lparr>rs_type = CRS_ACCEPTED, rs_client_id = cid, rs_ticker_id = tid,
            rs_client_order_id = coid, rs_market_order_id = moid, rs_side = side,
            rs_price = price, rs_exec_qty = 0, rs_leaves_qty = qty\<rparr>;
          rs = accepted # concat (map (fill_responses tid cid side coid (fill_id moid) (opp side)) fs);
          us = concat (map (fill_updates tid side (opp side)) fs)
      in if left = 0 then (A1, rs, us)
         else (A1(side := enqueue side price \<lparr>a_client = cid, a_coid = coid, a_moid = moid,
                            a_qty = left, a_prio = prio\<rparr> (A side)),
               rs,
               us @ [\<lparr>mu_type = MUT_ADD, mu_order_id = moid, mu_ticker_id = tid, mu_side = side,
                      mu_price = price, mu_qty = left, mu_priority = prio\<rparr>]))"

definition ao_ids :: "aorder \<Rightarrow> ClientId \<times> OrderId" where
  "ao_ids ao = (a_client ao, a_coid ao)"

lemma ao_ids_qty [simp]: "ao_ids (ao\<lparr>a_qty := q\<rparr>) = ao_ids ao"
  by (simp add: ao_ids_def)

definition has_ids :: "ClientId \<Rightarrow> OrderId \<Rightarrow> aorder \<Rightarrow> bool" where
  "has_ids cid coid ao \<longleftrightarrow> a_client ao = cid \<and> a_coid ao = coid"

definition book_orders :: "abook \<Rightarrow> aorder list" where
  "book_orders A = concat (map snd (A BUY)) @ concat (map snd (A SELL))"

definition book_levels :: "abook \<Rightarrow> alevel list" where
  "book_levels A = A BUY @ A SELL"

text \<open>What a sweep leaves was there before.\<close>

lemma sweep_shrinks:
  assumes "sweep crosses q L = (q', M, fs)"
  shows "length M \<le> length L"
    and "length (concat (map snd M)) \<le> length (concat (map snd L))"
    and "fst ` set M \<subseteq> fst ` set L"
    and "ao_ids ` set (concat (map snd M))
       \<subseteq> ao_ids ` set (concat (map snd L))"
proof -
  obtain n where n: "map fst M = drop n (map fst L)"
    using sweep_prices[of crosses q L] assms by auto
  from arg_cong[OF n, of length] show "length M \<le> length L" by simp
  show "fst ` set M \<subseteq> fst ` set L"
    using set_drop_subset[of n "map fst L"] n by (metis set_map)
  have "length (concat (map snd M)) \<le> length (concat (map snd L))
    \<and> ao_ids ` set (concat (map snd M))
       \<subseteq> ao_ids ` set (concat (map snd L))"
    using assms
  proof (induction crosses q L arbitrary: q' M fs rule: sweep.induct)
    case (3 crosses q p ao os L)
    show ?case
    proof (cases "q = 0 \<or> \<not> crosses p \<or> q < a_qty ao")
      case True
      then have "M = (p, ao # os) # L \<or> M = (p, ao\<lparr>a_qty := a_qty ao - q\<rparr> # os) # L"
        using "3.prems" by (auto split: if_splits)
      then show ?thesis by (elim disjE) (simp_all add: image_Un)
    next
      case False
      obtain q1 M1 fs1 where s: "sweep crosses (q - a_qty ao) (if os = [] then L else (p, os) # L)
          = (q1, M1, fs1)" by (metis prod_cases3)
      then have "M = M1" using "3.prems" False by simp
      moreover have "length (concat (map snd M1)) \<le> length (os @ concat (map snd L))
        \<and> ao_ids ` set (concat (map snd M1))
          \<subseteq> ao_ids ` set (os @ concat (map snd L))"
        using "3.IH"[OF _ _ s] False by (auto split: if_splits)
      ultimately show ?thesis by (simp add: subset_insertI2)
    qed
  qed auto
  then show "length (concat (map snd M)) \<le> length (concat (map snd L))"
    "ao_ids ` set (concat (map snd M))
       \<subseteq> ao_ids ` set (concat (map snd L))" by blast+
qed

lemma sweep_uncrossed:
  assumes ok: "alevels_ok L" and sd: "side = BUY \<or> side = SELL"
    and sw: "sweep (crosses_at side price) q L = (q', M, fs)" and "q' \<noteq> 0"
    and sorted: "prices_sorted (opp side) M" and x: "x \<in> set M"
  shows "\<not> crosses_at side price (fst x)"
proof
  assume c: "crosses_at side price (fst x)"
  obtain y M' where M: "M = y # M'" using x by (cases M) auto
  have "\<not> crosses_at side price (fst y)" using sweep_done[OF ok sw] assms(4) M by simp
  moreover have "x = y \<or> better (opp side) (fst y) (fst x)"
    using sorted x unfolding prices_sorted_def M by auto
  ultimately show False using c crosses_at_better[OF sd] by blast
qed

lemma withdraw_nothing:
  assumes "\<forall>x \<in> set L. snd x \<noteq> [] \<and> (\<forall>ao \<in> set (snd x). \<not> P ao)"
  shows "withdraw P L = L"
  using assms by (induction L) (auto simp: withdraw_def withdraw_level_def filter_id_conv[THEN iffD2])

lemma withdraw_at:
  assumes "\<forall>x \<in> set us \<union> set vs. snd x \<noteq> [] \<and> (\<forall>ao \<in> set (snd x). \<not> P ao)"
    and "\<forall>ao \<in> set os1 \<union> set os2. \<not> P ao" and "P ao"
  shows "withdraw P (us @ (p, os1 @ ao # os2) # vs)
     = us @ (if os1 @ os2 = [] then vs else (p, os1 @ os2) # vs)"
proof -
  have "withdraw P (us @ (p, os1 @ ao # os2) # vs)
      = withdraw P us @ withdraw P [(p, os1 @ ao # os2)] @ withdraw P vs"
    by (simp add: withdraw_def)
  moreover have "filter (\<lambda>ao. \<not> P ao) os1 = os1" "filter (\<lambda>ao. \<not> P ao) os2 = os2"
    using assms(2) by (simp_all add: filter_id_conv)
  moreover have "withdraw P us = us" "withdraw P vs = vs"
    by (rule withdraw_nothing; use assms(1) in blast)+
  ultimately show ?thesis
    using assms(3) by (simp add: withdraw_def withdraw_level_def)
qed

end
