(* ===== verification/MEOrderBookRep.thy ===== *)
theory MEOrderBookRep
  imports MEOrderBook LadderOps BookSpec
begin

text \<open>
  The representation invariant of the matching engine's order book and what its pointer
  operations do to it. \<open>me_rep b S\<close> says that the heap of \<open>b\<close> holds the ladder \<open>S\<close>, that both
  memory pools are in order, and that an entry of the client order table leads to a live
  order with those two ids.
\<close>

section \<open>The views of a book\<close>

definition me_view :: "'z book \<Rightarrow> ladder" where
  "me_view b =
     \<lparr>eN = (\<lambda>l. l_next (lvl_at b l)), eP = (\<lambda>l. l_prev (lvl_at b l)),
      ePx = (\<lambda>l. l_price (lvl_at b l)), eSd = (\<lambda>l. l_side (lvl_at b l)),
      e1 = (\<lambda>l. l_first (lvl_at b l)),
      oN = (\<lambda>a. o_next (ord_at b a)), oP = (\<lambda>a. o_prev (ord_at b a)),
      oPx = (\<lambda>a. o_price (ord_at b a)), oSd = (\<lambda>a. o_side (ord_at b a)),
      best = (\<lambda>sd. side_head sd b), tab = price_orders_at_prices b,
      liveE = live (orders_at_price_pool b), liveO = live (order_pool b)\<rparr>"

lemma me_view_simps [simp]:
  "eN (me_view b) l = l_next (lvl_at b l)" "eP (me_view b) l = l_prev (lvl_at b l)"
  "ePx (me_view b) l = l_price (lvl_at b l)" "eSd (me_view b) l = l_side (lvl_at b l)"
  "e1 (me_view b) l = l_first (lvl_at b l)"
  "oN (me_view b) a = o_next (ord_at b a)" "oP (me_view b) a = o_prev (ord_at b a)"
  "oPx (me_view b) a = o_price (ord_at b a)" "oSd (me_view b) a = o_side (ord_at b a)"
  "best (me_view b) sd = side_head sd b" "tab (me_view b) = price_orders_at_prices b"
  "liveE (me_view b) = live (orders_at_price_pool b)" "liveO (me_view b) = live (order_pool b)"
  by (simp_all add: me_view_def)

lemma pool_views [view_simps]:
  "ord_at (set_ord a f b) x = (if x = a then f (ord_at b a) else ord_at b x)"
  "lvl_at (set_ord a f b) = lvl_at b"
  "ord_at (set_lvl l g b) = ord_at b"
  "lvl_at (set_lvl l g b) m = (if m = l then g (lvl_at b l) else lvl_at b m)"
  "ord_at (set_side_head sd p b) = ord_at b" "lvl_at (set_side_head sd p b) = lvl_at b"
  "ord_at (b\<lparr>price_orders_at_prices := t\<rparr>) = ord_at b"
  "lvl_at (b\<lparr>price_orders_at_prices := t\<rparr>) = lvl_at b"
  "ord_at (b\<lparr>cid_oid_to_order := c\<rparr>) = ord_at b"
  "lvl_at (b\<lparr>cid_oid_to_order := c\<rparr>) = lvl_at b"
  "ord_at (b\<lparr>orders_at_price_pool := lp\<rparr>) = ord_at b"
  "lvl_at (b\<lparr>orders_at_price_pool := lp\<rparr>) = obj lp"
  "ord_at (b\<lparr>order_pool := op\<rparr>) = obj op"
  "lvl_at (b\<lparr>order_pool := op\<rparr>) = lvl_at b"
  by (auto simp: ord_at_def lvl_at_def set_ord_def set_lvl_def set_side_head_def fun_eq_iff)

lemma head_views [view_simps]:
  "side_head sd (set_ord a f b) = side_head sd b" "side_head sd (set_lvl l g b) = side_head sd b"
  "side_head sd (b\<lparr>price_orders_at_prices := t\<rparr>) = side_head sd b"
  "side_head sd (b\<lparr>cid_oid_to_order := c\<rparr>) = side_head sd b"
  "side_head sd (b\<lparr>orders_at_price_pool := lp\<rparr>) = side_head sd b"
  "side_head sd (b\<lparr>order_pool := op\<rparr>) = side_head sd b"
  "side_head sd (set_side_head sd' p b)
     = (if (sd = BUY) = (sd' = BUY) then p else side_head sd b)"
  by (auto simp: side_head_def set_side_head_def set_ord_def set_lvl_def)

lemma table_views [view_simps]:
  "price_orders_at_prices (set_ord a f b) = price_orders_at_prices b"
  "price_orders_at_prices (set_lvl l g b) = price_orders_at_prices b"
  "price_orders_at_prices (set_side_head sd p b) = price_orders_at_prices b"
  "cid_oid_to_order (set_ord a f b) = cid_oid_to_order b"
  "cid_oid_to_order (set_lvl l g b) = cid_oid_to_order b"
  "cid_oid_to_order (set_side_head sd p b) = cid_oid_to_order b"
  by (simp_all add: set_ord_def set_lvl_def set_side_head_def)

lemma pools_views [view_simps]:
  "order_pool (set_ord a f b) = upd_obj a f (order_pool b)"
  "order_pool (set_lvl l g b) = order_pool b"
  "order_pool (set_side_head sd p b) = order_pool b"
  "orders_at_price_pool (set_ord a f b) = orders_at_price_pool b"
  "orders_at_price_pool (set_lvl l g b) = upd_obj l g (orders_at_price_pool b)"
  "orders_at_price_pool (set_side_head sd p b) = orders_at_price_pool b"
  by (simp_all add: set_ord_def set_lvl_def set_side_head_def)

text \<open>The data members that the pointer operations do not touch.\<close>

definition same_rest :: "'z book \<Rightarrow> 'z book \<Rightarrow> bool" where
  "same_rest b b' \<longleftrightarrow> ticker_id b' = ticker_id b \<and> client_response b' = client_response b
     \<and> market_update b' = market_update b \<and> next_market_order_id b' = next_market_order_id b
     \<and> MEOrderBook.MEOrderBook.more b' = MEOrderBook.MEOrderBook.more b"

lemma same_rest_refl [simp, intro]: "same_rest b b"
  by (simp add: same_rest_def)

lemma same_rest_trans: "same_rest a b \<Longrightarrow> same_rest b c \<Longrightarrow> same_rest a c"
  by (simp add: same_rest_def)

lemma same_rest_steps [view_simps]:
  "same_rest b (set_ord a f c) = same_rest b c" "same_rest b (set_lvl l g c) = same_rest b c"
  "same_rest b (set_side_head sd p c) = same_rest b c"
  "same_rest b (c\<lparr>price_orders_at_prices := t\<rparr>) = same_rest b c"
  "same_rest b (c\<lparr>cid_oid_to_order := ci\<rparr>) = same_rest b c"
  "same_rest b (c\<lparr>orders_at_price_pool := lp\<rparr>) = same_rest b c"
  "same_rest b (c\<lparr>order_pool := op\<rparr>) = same_rest b c"
  by (auto simp: same_rest_def set_ord_def set_lvl_def set_side_head_def)

text \<open>What an order means, its links aside.\<close>

definition odata :: "MEOrder \<Rightarrow> aorder" where
  "odata x = \<lparr>a_client = o_client_id x, a_coid = o_client_order_id x,
     a_moid = o_market_order_id x, a_qty = o_qty x, a_prio = o_priority x\<rparr>"

lemma odata_links [simp]:
  "odata (x\<lparr>o_next := n\<rparr>) = odata x" "odata (x\<lparr>o_prev := n\<rparr>) = odata x"
  "odata (x\<lparr>o_prev := n, o_next := m\<rparr>) = odata x"
  "odata (x\<lparr>o_next := n, o_prev := m\<rparr>) = odata x"
  by (simp_all add: odata_def)

section \<open>The invariant\<close>

definition pools_ok :: "'z book \<Rightarrow> bool" where
  "pools_ok b \<longleftrightarrow> pool_wf (orders_at_price_pool b) \<and> pool_wf (order_pool b)
     \<and> pool_size (orders_at_price_pool b) = ME_MAX_PRICE_LEVELS
     \<and> pool_size (order_pool b) = ME_MAX_ORDER_IDS"

definition ids_ok :: "MEOrder \<Rightarrow> bool" where
  "ids_ok x \<longleftrightarrow> unat (o_client_id x) < ME_MAX_NUM_CLIENTS
     \<and> unat (o_client_order_id x) < ME_MAX_ORDER_IDS"

text \<open>The client table finds exactly the orders in \<open>X\<close>, by their two ids.\<close>

definition cid_rep :: "'z book \<Rightarrow> nat set \<Rightarrow> bool" where
  "cid_rep b X \<longleftrightarrow> (\<forall>c i a. c < ME_MAX_NUM_CLIENTS \<longrightarrow> i < ME_MAX_ORDER_IDS \<longrightarrow>
     (cid_oid_to_order b c i = Some a \<longleftrightarrow>
      a \<in> X \<and> unat (o_client_id (ord_at b a)) = c \<and> unat (o_client_order_id (ord_at b a)) = i))"

definition cid_ok :: "'z book \<Rightarrow> bool" where
  "cid_ok b \<longleftrightarrow> cid_rep b (live (order_pool b))"

definition me_rep :: "'z book \<Rightarrow> levels \<Rightarrow> bool" where
  "me_rep b S \<longleftrightarrow> ladder_rep (me_view b) S \<and> pools_ok b \<and> cid_ok b
     \<and> (\<forall>a \<in> live (order_pool b). ids_ok (ord_at b a))"

lemma me_repD:
  assumes "me_rep b S"
  shows "ladder_rep (me_view b) S" "pools_ok b" "cid_ok b"
    "a \<in> live (order_pool b) \<Longrightarrow> ids_ok (ord_at b a)"
  using assms by (auto simp: me_rep_def)

lemma priceToIndex_pidx: "priceToIndex p = pidx p"
  by (simp add: priceToIndex_def pidx_def)

lemma getOrdersAtPrice_eq [simp]:
  "getOrdersAtPrice p b = Inr (price_orders_at_prices b (pidx p))"
  by (simp add: getOrdersAtPrice_def priceToIndex_pidx)

lemma MEOrderBook_ctor_rep:
  assumes "\<And>i. i < ME_MAX_PRICE_LEVELS \<Longrightarrow> raw_px i = None"
    and "\<And>c i. c < ME_MAX_NUM_CLIENTS \<Longrightarrow> i < ME_MAX_ORDER_IDS \<Longrightarrow> raw_cid c i = None"
  shows "me_rep (MEOrderBook_ctor raw_cid raw_px t) (\<lambda>_. [])"
  unfolding me_rep_def
proof (intro conjI)
  show "ladder_rep (me_view (MEOrderBook_ctor raw_cid raw_px t)) (\<lambda>_. [])"
    by (rule ladder_rep_empty) (use assms in \<open>simp_all add: MEOrderBook_ctor_def side_head_def\<close>)
qed (use assms in \<open>auto simp: MEOrderBook_ctor_def pools_ok_def cid_ok_def cid_rep_def limit_defs ctor_pool_wf\<close>)

lemma set_head_if:
  "(if c then set_side_head sd p b else b) = set_side_head sd (if c then p else side_head sd b) b"
  by (simp add: set_side_head_def side_head_def)

section \<open>Removing an order\<close>

text \<open>The entry of the client table, and the release of the order's block.\<close>

lemma removeOrder_tail:
  assumes wf: "pool_wf (order_pool b)" and sz: "pool_size (order_pool b) = ME_MAX_ORDER_IDS"
    and a: "a \<in> live (order_pool b)" and ids: "ids_ok (ord_at b a)" and cid: "cid_ok b"
  obtains b' where
    "bindr (set_cid_oid (o_client_id (ord_at b a)) (o_client_order_id (ord_at b a)) None b) (\<lambda>b.
       bindr (deallocate a (order_pool b)) (\<lambda>pool. Inr (b\<lparr>order_pool := pool\<rparr>))) = Inr b'"
    "live (order_pool b') = live (order_pool b) - {a}" "pool_wf (order_pool b')"
    "pool_size (order_pool b') = ME_MAX_ORDER_IDS" "cid_ok b'"
    "ord_at b' = ord_at b" "lvl_at b' = lvl_at b" "\<And>sd. side_head sd b' = side_head sd b"
    "price_orders_at_prices b' = price_orders_at_prices b"
    "orders_at_price_pool b' = orders_at_price_pool b" "same_rest b b'"
proof -
  obtain pool where pool: "deallocate a (order_pool b) = Inr pool"
    "live pool = live (order_pool b) - {a}" "pool_wf pool" "pool_size pool = pool_size (order_pool b)"
    "\<And>x. obj pool x = obj (order_pool b) x"
    using deallocate_ok[OF a wf] by metis
  let ?c = "unat (o_client_id (ord_at b a))" and ?o = "unat (o_client_order_id (ord_at b a))"
  let ?tab = "(cid_oid_to_order b)(?c := (cid_oid_to_order b ?c)(?o := None))"
  let ?b = "b\<lparr>cid_oid_to_order := ?tab\<rparr>\<lparr>order_pool := pool\<rparr>"
  have oa: "ord_at ?b = ord_at b"
    using pool(5) by (simp add: fun_eq_iff ord_at_def)
  have "cid_ok ?b"
    unfolding cid_ok_def cid_rep_def oa
  proof (intro allI impI)
    fix c i x assume c: "c < ME_MAX_NUM_CLIENTS" "i < ME_MAX_ORDER_IDS"
    have tab: "cid_oid_to_order b c i = Some x \<longleftrightarrow> x \<in> live (order_pool b)
        \<and> unat (o_client_id (ord_at b x)) = c \<and> unat (o_client_order_id (ord_at b x)) = i" for x
      using cid c by (simp add: cid_ok_def cid_rep_def)
    have lv: "live (order_pool ?b) = live (order_pool b) - {a}" using pool(2) by simp
    show "cid_oid_to_order ?b c i = Some x \<longleftrightarrow> x \<in> live (order_pool ?b)
        \<and> unat (o_client_id (ord_at b x)) = c \<and> unat (o_client_order_id (ord_at b x)) = i"
    proof (cases "c = ?c \<and> i = ?o")
      case True
      then have "cid_oid_to_order b c i = Some a" using tab[of a] a by simp
      then have "x = a" if "x \<in> live (order_pool b)" "unat (o_client_id (ord_at b x)) = c"
          "unat (o_client_order_id (ord_at b x)) = i"
        using tab[of x] that by simp
      then show ?thesis using True lv by auto
    next
      case False
      then have "cid_oid_to_order ?b c i = cid_oid_to_order b c i" by auto
      then show ?thesis using tab[of x] False lv by auto
    qed
  qed
  then show thesis
    using that[of ?b] ids pool oa sz
    by (simp add: set_cid_oid_def ids_ok_def view_simps)
qed


lemma removeOrdersAtPrice_eq:
  assumes r: "ladder_rep (me_view b) S" and po: "pools_ok b" and sd: "sd = BUY \<or> sd = SELL"
    and S: "S sd = us @ (l, os) # vs" and p: "pidx p = pidx (l_price (lvl_at b l))"
  obtains b' where "removeOrdersAtPrice sd p b = Inr b'"
    "ord_at b' = ord_at b" "order_pool b' = order_pool b"
    "cid_oid_to_order b' = cid_oid_to_order b" "same_rest b b'" "pools_ok b'"
    "live (orders_at_price_pool b') = live (orders_at_price_pool b) - {l}"
    "price_orders_at_prices b' = (price_orders_at_prices b)(pidx p := None)"
    "side_head (opp sd) b' = side_head (opp sd) b"
    "\<And>m. l_price (lvl_at b' m) = l_price (lvl_at b m) \<and> l_side (lvl_at b' m) = l_side (lvl_at b m)
       \<and> l_first (lvl_at b' m) = l_first (lvl_at b m)"
    "us @ vs = [] \<Longrightarrow> side_head sd b' = None \<and> (\<forall>m. lvl_at b' m = lvl_at b m)"
    "us @ vs \<noteq> [] \<Longrightarrow> \<exists>x y. l_prev (lvl_at b l) = Some x \<and> l_next (lvl_at b l) = Some y
       \<and> side_head sd b' = (if side_head sd b = Some l then Some y else side_head sd b)
       \<and> (\<forall>m. m \<noteq> l \<longrightarrow> l_next (lvl_at b' m) = (if m = x then Some y else l_next (lvl_at b m))
            \<and> l_prev (lvl_at b' m) = (if m = y then Some x else l_prev (lvl_at b m)))"
proof -
  have ci: "circ (eN (me_view b)) (eP (me_view b)) (map fst us @ l # map fst vs)"
    using side_repD(2)[OF ladder_side_rep[OF r sd]] S by simp
  have l: "l \<in> live (orders_at_price_pool b)"
    using ladder_live(1)[OF r sd] S by auto
  have t: "price_orders_at_prices b (pidx p) = Some l"
    using ladder_tab[OF r] l p by (simp add: tab_rep_def)
  have wf: "pool_wf (orders_at_price_pool b)" using po by (simp add: pools_ok_def)
  have sdd: "(opp sd = BUY) \<noteq> (sd = BUY)" by (auto simp: opp_def)
  show thesis
  proof (cases "us @ vs = []")
    case True
    let ?b1 = "(set_side_head sd None b)\<lparr>price_orders_at_prices :=
      (price_orders_at_prices (set_side_head sd None b))(pidx p := None)\<rparr>"
    have lp: "orders_at_price_pool ?b1 = orders_at_price_pool b" by (simp add: view_simps)
    obtain pool where pool: "deallocate l (orders_at_price_pool b) = Inr pool"
      "live pool = live (orders_at_price_pool b) - {l}" "pool_wf pool"
      "pool_size pool = pool_size (orders_at_price_pool b)"
      "\<And>x. obj pool x = obj (orders_at_price_pool b) x"
      using deallocate_ok[OF l wf] by metis
    have "l_next (lvl_at b l) = Some l" using ci True by simp
    then have "removeOrdersAtPrice sd p b = Inr (?b1\<lparr>orders_at_price_pool := pool\<rparr>)"
      using t pool(1)
      by (simp add: removeOrdersAtPrice_def priceToIndex_pidx lp pools_views del: fun_upd_apply)
    moreover have "lvl_at (?b1\<lparr>orders_at_price_pool := pool\<rparr>) = lvl_at b"
      using pool(5) by (simp add: fun_eq_iff lvl_at_def)
    ultimately show thesis
      using that[of "?b1\<lparr>orders_at_price_pool := pool\<rparr>"] pool po True sdd
      by (simp add: view_simps pools_ok_def del: fun_upd_apply)
  next
    case False
    obtain x y where xy: "l_prev (lvl_at b l) = Some x" "l_next (lvl_at b l) = Some y"
      by (rule circ_in_links[OF ci, of l]) auto
    have "map fst us @ l # map fst vs \<noteq> [l]" using False by (cases us) auto
    then have nl: "l_next (lvl_at b l) \<noteq> Some l" "l_prev (lvl_at b l) \<noteq> Some l"
      using circ_alone[OF ci, of l] by simp_all
    then have xl: "x \<noteq> l" "y \<noteq> l" using xy by auto
    let ?b1 = "set_lvl x (\<lambda>z. z\<lparr>l_next := Some y\<rparr>) b"
    let ?b2 = "set_lvl y (\<lambda>z. z\<lparr>l_prev := Some x\<rparr>) ?b1"
    let ?h = "if Some l = side_head sd b then Some y else side_head sd b"
    let ?b3 = "set_side_head sd ?h ?b2"
    let ?b4 = "set_lvl l (\<lambda>z. z\<lparr>l_prev := None, l_next := None\<rparr>) ?b3"
    let ?b5 = "?b4\<lparr>price_orders_at_prices := (price_orders_at_prices ?b4)(pidx p := None)\<rparr>"
    have lv: "live (orders_at_price_pool ?b5) = live (orders_at_price_pool b)"
      "pool_wf (orders_at_price_pool ?b5)"
      "pool_size (orders_at_price_pool ?b5) = pool_size (orders_at_price_pool b)"
      using wf by (simp_all add: view_simps)
    obtain pool where pool: "deallocate l (orders_at_price_pool ?b5) = Inr pool"
      "live pool = live (orders_at_price_pool b) - {l}" "pool_wf pool"
      "pool_size pool = pool_size (orders_at_price_pool b)"
      "\<And>x. obj pool x = obj (orders_at_price_pool ?b5) x"
      using deallocate_ok[of l "orders_at_price_pool ?b5"] l lv by metis
    have eq: "removeOrdersAtPrice sd p b = Inr (?b5\<lparr>orders_at_price_pool := pool\<rparr>)"
      using t pool(1) xy nl xl
      by (simp add: removeOrdersAtPrice_def priceToIndex_pidx Let_def view_simps set_head_if
          del: fun_upd_apply)
    have la: "lvl_at (?b5\<lparr>orders_at_price_pool := pool\<rparr>) = lvl_at ?b4"
      using pool(5) by (simp add: fun_eq_iff lvl_at_def)
    show thesis
    proof (rule that[OF eq])
      show "\<exists>x y. l_prev (lvl_at b l) = Some x \<and> l_next (lvl_at b l) = Some y
        \<and> side_head sd (?b5\<lparr>orders_at_price_pool := pool\<rparr>)
            = (if side_head sd b = Some l then Some y else side_head sd b)
        \<and> (\<forall>m. m \<noteq> l \<longrightarrow> l_next (lvl_at (?b5\<lparr>orders_at_price_pool := pool\<rparr>) m)
              = (if m = x then Some y else l_next (lvl_at b m))
            \<and> l_prev (lvl_at (?b5\<lparr>orders_at_price_pool := pool\<rparr>) m)
              = (if m = y then Some x else l_prev (lvl_at b m)))"
        unfolding la using xy by (simp add: view_simps)
      show "l_price (lvl_at (?b5\<lparr>orders_at_price_pool := pool\<rparr>) m) = l_price (lvl_at b m)
        \<and> l_side (lvl_at (?b5\<lparr>orders_at_price_pool := pool\<rparr>) m) = l_side (lvl_at b m)
        \<and> l_first (lvl_at (?b5\<lparr>orders_at_price_pool := pool\<rparr>) m) = l_first (lvl_at b m)" for m
        unfolding la by (simp add: view_simps)
    qed (use pool po False sdd in \<open>simp_all add: view_simps pools_ok_def del: fun_upd_apply\<close>)
  qed
qed


lemma removeOrder_alone:
  assumes rep: "me_rep b S" and sd: "sd = BUY \<or> sd = SELL" and S: "S sd = us @ (l, [a]) # vs"
  obtains b' where "removeOrder a b = Inr b'" "me_rep b' (S(sd := us @ vs))" "same_rest b b'"
    "ord_at b' = ord_at b" "\<And>m. l_price (lvl_at b' m) = l_price (lvl_at b m)"
proof -
  note r = me_repD(1)[OF rep]
  have lr: "lvl_rep (me_view b) sd (l, [a])"
    by (rule ladder_lvl_rep[OF r sd]) (simp add: S)
  have ps: "o_prev (ord_at b a) = Some a" "o_side (ord_at b a) = sd"
    "o_price (ord_at b a) = l_price (lvl_at b l)"
    using lvl_repD[OF lr] by auto
  have a: "a \<in> live (order_pool b)" using ladder_live(2)[OF r sd] S by auto
  have pidx: "pidx (o_price (ord_at b a)) = pidx (l_price (lvl_at b l))" using ps by simp
  obtain b1 where b1: "removeOrdersAtPrice sd (o_price (ord_at b a)) b = Inr b1"
    "ord_at b1 = ord_at b" "order_pool b1 = order_pool b"
    "cid_oid_to_order b1 = cid_oid_to_order b" "same_rest b b1" "pools_ok b1"
    "live (orders_at_price_pool b1) = live (orders_at_price_pool b) - {l}"
    "price_orders_at_prices b1 = (price_orders_at_prices b)(pidx (o_price (ord_at b a)) := None)"
    "side_head (opp sd) b1 = side_head (opp sd) b"
    "\<And>m. l_price (lvl_at b1 m) = l_price (lvl_at b m) \<and> l_side (lvl_at b1 m) = l_side (lvl_at b m)
       \<and> l_first (lvl_at b1 m) = l_first (lvl_at b m)"
    "us @ vs = [] \<Longrightarrow> side_head sd b1 = None \<and> (\<forall>m. lvl_at b1 m = lvl_at b m)"
    "us @ vs \<noteq> [] \<Longrightarrow> \<exists>x y. l_prev (lvl_at b l) = Some x \<and> l_next (lvl_at b l) = Some y
       \<and> side_head sd b1 = (if side_head sd b = Some l then Some y else side_head sd b)
       \<and> (\<forall>m. m \<noteq> l \<longrightarrow> l_next (lvl_at b1 m) = (if m = x then Some y else l_next (lvl_at b m))
            \<and> l_prev (lvl_at b1 m) = (if m = y then Some x else l_prev (lvl_at b m)))"
    by (rule removeOrdersAtPrice_eq[OF r me_repD(2)[OF rep] sd S pidx]) blast
  have cid: "cid_ok b1" using me_repD(3)[OF rep] b1 by (simp add: cid_ok_def cid_rep_def)
  obtain b2 where b2:
    "bindr (set_cid_oid (o_client_id (ord_at b1 a)) (o_client_order_id (ord_at b1 a)) None b1) (\<lambda>b.
       bindr (deallocate a (order_pool b)) (\<lambda>pool. Inr (b\<lparr>order_pool := pool\<rparr>))) = Inr b2"
    "live (order_pool b2) = live (order_pool b1) - {a}" "pool_wf (order_pool b2)"
    "pool_size (order_pool b2) = ME_MAX_ORDER_IDS" "cid_ok b2"
    "ord_at b2 = ord_at b1" "lvl_at b2 = lvl_at b1" "\<And>sd. side_head sd b2 = side_head sd b1"
    "price_orders_at_prices b2 = price_orders_at_prices b1"
    "orders_at_price_pool b2 = orders_at_price_pool b1" "same_rest b1 b2"
    by (rule removeOrder_tail[of b1 a]) (use b1 cid me_repD[OF rep] a in \<open>auto simp: pools_ok_def\<close>)
  have eq: "removeOrder a b = Inr b2"
    using b1(1) b2(1) ps by (simp add: removeOrder_def)
  have "ladder_rep (me_view b2) (S(sd := us @ vs))"
  proof (rule ladder_close[OF r sd S])
    show "\<exists>x y. eP (me_view b) l = Some x \<and> eN (me_view b) l = Some y \<and>
        (\<forall>m \<in> liveE (me_view b) - {l}. eN (me_view b2) m = ((eN (me_view b))(x := Some y)) m
           \<and> eP (me_view b2) m = ((eP (me_view b))(y := Some x)) m)
        \<and> best (me_view b2) sd = (if best (me_view b) sd = Some l then Some y else best (me_view b) sd)"
      if "us @ vs \<noteq> []"
      using b1(12)[OF that] b2(7,8) by auto
    show "best (me_view b2) sd = None
        \<and> (\<forall>m \<in> liveE (me_view b) - {l}. eN (me_view b2) m = eN (me_view b) m
           \<and> eP (me_view b2) m = eP (me_view b) m)" if "us @ vs = []"
      using b1(11)[OF that] b2(7,8) by auto
  qed (use b1(2,3,7,8,9,10) b2 ps in \<open>auto simp: same_ord_def\<close>)
  moreover have "pools_ok b2" using b1(6) b2 by (simp add: pools_ok_def)
  ultimately have "me_rep b2 (S(sd := us @ vs))"
    using b1 b2 me_repD(4)[OF rep] by (simp add: me_rep_def)
  then show thesis
    by (rule that[OF eq]) (use b1 b2 same_rest_trans in auto)
qed

lemma removeOrder_linked:
  assumes rep: "me_rep b S" and sd: "sd = BUY \<or> sd = SELL"
    and S: "S sd = us @ (l, os1 @ a # os2) # vs" and ne: "os1 @ os2 \<noteq> []"
  obtains b' where "removeOrder a b = Inr b'" "me_rep b' (S(sd := us @ (l, os1 @ os2) # vs))"
    "same_rest b b'" "\<And>x. odata (ord_at b' x) = odata (ord_at b x)"
    "\<And>m. l_price (lvl_at b' m) = l_price (lvl_at b m)"
proof -
  note r = me_repD(1)[OF rep]
  have lr: "lvl_rep (me_view b) sd (l, os1 @ a # os2)"
    by (rule ladder_lvl_rep[OF r sd]) (simp add: S)
  have ci: "circ (oN (me_view b)) (oP (me_view b)) (os1 @ a # os2)" using lvl_repD(3)[OF lr] .
  obtain x y where xy: "o_prev (ord_at b a) = Some x" "o_next (ord_at b a) = Some y"
    by (rule circ_in_links[OF ci, of a]) auto
  have "os1 @ a # os2 \<noteq> [a]" using ne by (cases os1) auto
  then have na: "x \<noteq> a" "y \<noteq> a" using circ_alone[OF ci, of a] xy by auto
  have a: "a \<in> live (order_pool b)" using ladder_live(2)[OF r sd] S by auto
  have l: "l \<in> live (orders_at_price_pool b)" using ladder_live(1)[OF r sd] S by auto
  have px: "o_price (ord_at b a) = l_price (lvl_at b l)" using lvl_repD(7)[OF lr, of a] by simp
  have t: "price_orders_at_prices b (pidx (o_price (ord_at b a))) = Some l"
    using ladder_tab[OF r] l px by (simp add: tab_rep_def)
  let ?b1 = "set_ord x (\<lambda>z. z\<lparr>o_next := Some y\<rparr>) b"
  let ?b2 = "set_ord y (\<lambda>z. z\<lparr>o_prev := Some x\<rparr>) ?b1"
  let ?b3 = "if l_first (lvl_at b l) = Some a then set_lvl l (\<lambda>z. z\<lparr>l_first := Some y\<rparr>) ?b2 else ?b2"
  let ?b4 = "set_ord a (\<lambda>z. z\<lparr>o_prev := None, o_next := None\<rparr>) ?b3"
  have b4: "cid_oid_to_order ?b4 = cid_oid_to_order b" "live (order_pool ?b4) = live (order_pool b)"
    "pools_ok ?b4" "same_rest b ?b4" "live (orders_at_price_pool ?b4) = live (orders_at_price_pool b)"
    "price_orders_at_prices ?b4 = price_orders_at_prices b" "\<And>d. side_head d ?b4 = side_head d b"
    using me_repD(2)[OF rep] by (simp_all add: view_simps pools_ok_def)
  have lv: "lvl_at ?b4 m = (if m = l \<and> l_first (lvl_at b l) = Some a
      then (lvl_at b l)\<lparr>l_first := Some y\<rparr> else lvl_at b m)" for m
    by (simp add: view_simps)
  have od: "ord_at ?b4 z = (if z = a then (ord_at b a)\<lparr>o_prev := None, o_next := None\<rparr>
      else (ord_at b z)\<lparr>o_next := (if z = x then Some y else o_next (ord_at b z)),
              o_prev := (if z = y then Some x else o_prev (ord_at b z))\<rparr>)" for z
    using na by (simp add: view_simps)
  have ids: "o_client_id (ord_at ?b4 z) = o_client_id (ord_at b z)"
    "o_client_order_id (ord_at ?b4 z) = o_client_order_id (ord_at b z)"
    "odata (ord_at ?b4 z) = odata (ord_at b z)" "ids_ok (ord_at ?b4 z) = ids_ok (ord_at b z)" for z
    unfolding od by (simp_all add: odata_def ids_ok_def)
  have cid: "cid_ok ?b4"
    using me_repD(3)[OF rep] unfolding cid_ok_def cid_rep_def b4(1,2) ids .
  obtain b5 where b5:
    "bindr (set_cid_oid (o_client_id (ord_at ?b4 a)) (o_client_order_id (ord_at ?b4 a)) None ?b4) (\<lambda>b.
       bindr (deallocate a (order_pool b)) (\<lambda>pool. Inr (b\<lparr>order_pool := pool\<rparr>))) = Inr b5"
    "live (order_pool b5) = live (order_pool ?b4) - {a}" "pool_wf (order_pool b5)"
    "pool_size (order_pool b5) = ME_MAX_ORDER_IDS" "cid_ok b5"
    "ord_at b5 = ord_at ?b4" "lvl_at b5 = lvl_at ?b4" "\<And>sd. side_head sd b5 = side_head sd ?b4"
    "price_orders_at_prices b5 = price_orders_at_prices ?b4"
    "orders_at_price_pool b5 = orders_at_price_pool ?b4" "same_rest ?b4 b5"
    by (rule removeOrder_tail[OF _ _ _ _ cid, of a])
      (use b4(2,3) me_repD(4)[OF rep a] a in \<open>auto simp: pools_ok_def ids(4)\<close>)
  have eq: "removeOrder a b = Inr b5"
    using b5(1) xy na t
    by (simp add: removeOrder_def Let_def view_simps split del: if_split cong: if_cong)
  have "ladder_rep (me_view b5) (S(sd := us @ (l, os1 @ os2) # vs))"
  proof (rule ladder_unlink[OF r sd S ne])
    show "oP (me_view b) a = Some x" "oN (me_view b) a = Some y" using xy by simp_all
  qed (use b4 b5 lv od in \<open>auto\<close>)
  moreover have "pools_ok b5" using b4(3) b5 by (simp add: pools_ok_def)
  moreover have "ids_ok (ord_at b5 z)" if "z \<in> live (order_pool b5)" for z
    using me_repD(4)[OF rep, of z] that b5 b4(2) ids(4) by auto
  ultimately have "me_rep b5 (S(sd := us @ (l, os1 @ os2) # vs))"
    using b5(5) by (simp add: me_rep_def)
  then show thesis
  proof (rule that[OF eq])
    show "same_rest b b5" using b4(4) b5(11) by (rule same_rest_trans)
    show "odata (ord_at b5 z) = odata (ord_at b z)" for z using ids(3) b5(6) by simp
    show "l_price (lvl_at b5 m) = l_price (lvl_at b m)" for m using lv b5(7) by simp
  qed
qed


section \<open>Linking a level in\<close>

text \<open>Everything but the levels' links and the two heads.\<close>

definition links_only :: "'z book \<Rightarrow> 'z book \<Rightarrow> bool" where
  "links_only b b' \<longleftrightarrow> order_pool b' = order_pool b \<and> cid_oid_to_order b' = cid_oid_to_order b
     \<and> price_orders_at_prices b' = price_orders_at_prices b \<and> same_rest b b'
     \<and> live (orders_at_price_pool b') = live (orders_at_price_pool b)
     \<and> pool_wf (orders_at_price_pool b') = pool_wf (orders_at_price_pool b)
     \<and> pool_size (orders_at_price_pool b') = pool_size (orders_at_price_pool b)
     \<and> (\<forall>m. l_price (lvl_at b' m) = l_price (lvl_at b m) \<and> l_side (lvl_at b' m) = l_side (lvl_at b m)
          \<and> l_first (lvl_at b' m) = l_first (lvl_at b m))"

lemma links_only_set_lvl:
  "links_only b c \<Longrightarrow> links_only b (set_lvl m (\<lambda>z. z\<lparr>l_prev := p\<rparr>) c)"
  "links_only b c \<Longrightarrow> links_only b (set_lvl m (\<lambda>z. z\<lparr>l_next := n\<rparr>) c)"
  "links_only b c \<Longrightarrow> links_only b (set_lvl m (\<lambda>z. z\<lparr>l_prev := p, l_next := n\<rparr>) c)"
  "links_only b c \<Longrightarrow> links_only b (set_lvl m (\<lambda>z. z\<lparr>l_next := f z\<rparr>) c)"
  "links_only b c \<Longrightarrow> links_only b (set_side_head sd h c)"
  by (simp_all add: links_only_def view_simps)

lemma links_only_refl: "links_only b b"
  by (simp add: links_only_def)

lemma insert_before_target_eq:
  assumes x: "l_prev (lvl_at b t) = Some x" and new: "new \<noteq> t" "new \<noteq> x" "new \<noteq> bst"
    and bt: "better_than b new bst \<Longrightarrow> t = bst \<and> (l_next (lvl_at b bst) = Some bst \<longrightarrow> x = bst)"
  obtains b' where "insert_before_target new t bst b = Inr b'" "links_only b b'"
    "\<And>m. l_next (lvl_at b' m) = ((\<lambda>m. l_next (lvl_at b m))(x := Some new, new := Some t)) m"
    "\<And>m. l_prev (lvl_at b' m) = ((\<lambda>m. l_prev (lvl_at b m))(new := Some x, t := Some new)) m"
    "\<And>d. side_head d b' = (if better_than b new bst \<and> (d = BUY) = (l_side (lvl_at b new) = BUY)
        then Some new else side_head d b)"
proof -
  let ?b1 = "set_lvl new (\<lambda>l. l\<lparr>l_prev := Some x\<rparr>) b"
  let ?b2 = "set_lvl new (\<lambda>l. l\<lparr>l_next := Some t\<rparr>) ?b1"
  let ?b3 = "set_lvl x (\<lambda>l. l\<lparr>l_next := Some new\<rparr>) ?b2"
  let ?b4 = "set_lvl t (\<lambda>l. l\<lparr>l_prev := Some new\<rparr>) ?b3"
  let ?b5 = "set_lvl t (\<lambda>l. l\<lparr>l_next := (if l_next l = Some bst then Some new else l_next l)\<rparr>) ?b4"
  let ?b6 = "set_side_head (l_side (lvl_at b new)) (Some new) ?b5"
  have bt4: "better_than ?b4 new bst = better_than b new bst"
    by (simp add: better_than_def view_simps)
  have sd4: "l_side (lvl_at ?b4 new) = l_side (lvl_at b new)"
    by (simp add: view_simps)
  have eq: "insert_before_target new t bst b = Inr (if better_than b new bst then ?b6 else ?b4)"
    using x new bt4 by (simp add: insert_before_target_def Let_def view_simps)
  have lo: "links_only b ?b4" "links_only b ?b6"
    by (intro links_only_set_lvl links_only_refl)+
  have nx4: "l_next (lvl_at ?b4 m) = ((\<lambda>m. l_next (lvl_at b m))(x := Some new, new := Some t)) m" for m
    using new by (auto simp: view_simps)
  have pv4: "l_prev (lvl_at ?b4 m) = ((\<lambda>m. l_prev (lvl_at b m))(new := Some x, t := Some new)) m" for m
    using new by (auto simp: view_simps)
  have nx6: "l_next (lvl_at ?b6 m) = (if m = t \<and> l_next (lvl_at ?b4 t) = Some bst then Some new
      else l_next (lvl_at ?b4 m))" for m
    by (simp add: view_simps)
  have pv6: "l_prev (lvl_at ?b6 m) = l_prev (lvl_at ?b4 m)" for m
    by (simp add: view_simps)
  have same6: "l_next (lvl_at ?b6 m) = l_next (lvl_at ?b4 m)" if "better_than b new bst" for m
  proof -
    have "l_next (lvl_at ?b4 t) \<noteq> Some bst"
      unfolding nx4 using bt[OF that] new by (cases "t = x") auto
    then show ?thesis unfolding nx6 by simp
  qed
  have hd: "side_head d (if better_than b new bst then ?b6 else ?b4)
      = (if better_than b new bst \<and> (d = BUY) = (l_side (lvl_at b new) = BUY)
        then Some new else side_head d b)" for d
    by (simp add: view_simps)
  show thesis
  proof (rule that[OF eq])
    show "l_next (lvl_at (if better_than b new bst then ?b6 else ?b4) m)
        = ((\<lambda>m. l_next (lvl_at b m))(x := Some new, new := Some t)) m" for m
      by (cases "better_than b new bst") (simp_all only: nx4 same6 if_True if_False)
    show "l_prev (lvl_at (if better_than b new bst then ?b6 else ?b4) m)
        = ((\<lambda>m. l_prev (lvl_at b m))(new := Some x, t := Some new)) m" for m
      by (cases "better_than b new bst") (simp_all only: pv4 pv6 if_True if_False)
  qed (use lo hd in simp_all)
qed

lemma insert_after_target_eq:
  assumes y: "l_next (lvl_at b t) = Some y" and new: "new \<noteq> t" "new \<noteq> y"
  obtains b' where "insert_after_target new t b = Inr b'" "links_only b b'"
    "\<And>m. l_next (lvl_at b' m) = ((\<lambda>m. l_next (lvl_at b m))(t := Some new, new := Some y)) m"
    "\<And>m. l_prev (lvl_at b' m) = ((\<lambda>m. l_prev (lvl_at b m))(new := Some t, y := Some new)) m"
    "\<And>d. side_head d b' = side_head d b"
proof -
  let ?b1 = "set_lvl new (\<lambda>l. l\<lparr>l_prev := Some t\<rparr>) b"
  let ?b2 = "set_lvl y (\<lambda>l. l\<lparr>l_prev := Some new\<rparr>) ?b1"
  let ?b3 = "set_lvl new (\<lambda>l. l\<lparr>l_next := Some y\<rparr>) ?b2"
  let ?b4 = "set_lvl t (\<lambda>l. l\<lparr>l_next := Some new\<rparr>) ?b3"
  have eq: "insert_after_target new t b = Inr ?b4"
    using y new by (cases "t = y") (simp_all add: insert_after_target_def Let_def view_simps)
  have lo: "links_only b ?b4"
    by (intro links_only_set_lvl links_only_refl)
  show thesis
    by (rule that[OF eq lo]) (use new in \<open>auto simp: view_simps\<close>)
qed

lemma links_only_trans: "links_only a b \<Longrightarrow> links_only b c \<Longrightarrow> links_only a c"
  unfolding links_only_def using same_rest_trans by auto


text \<open>
  \<open>addOrdersAtPrice\<close> with the first comparison of its search as a parameter: the client's book
  has the same function but for that comparison.
\<close>

definition find_target ::
  "('z book \<Rightarrow> nat \<Rightarrow> nat \<Rightarrow> bool) \<Rightarrow> 'z book \<Rightarrow> nat \<Rightarrow> nat \<Rightarrow> (nat \<times> bool) res" where
  "find_target fw b new bst =
     bindr (if fw b new bst
            then bindr (deref (l_next (lvl_at b bst))) (\<lambda>target.
                   Inr (target, worse_than b new target))
            else Inr (bst, False)) (\<lambda>(target, add_after).
     returned (level_walk (worse_than b new) (\<lambda>a. l_next (lvl_at b a)) bst target add_after))"

definition add_level :: "('z book \<Rightarrow> nat \<Rightarrow> nat \<Rightarrow> bool) \<Rightarrow> nat \<Rightarrow> 'z book \<Rightarrow> 'z book res" where
  "add_level fw new b =
     (let b = b\<lparr>price_orders_at_prices :=
                 (price_orders_at_prices b)(pidx (l_price (lvl_at b new)) := Some new)\<rparr>;
          side = l_side (lvl_at b new)
      in (case side_head side b of
            None \<Rightarrow>
              Inr (set_lvl new (\<lambda>l. l\<lparr>l_prev := Some new, l_next := Some new\<rparr>)
                    (set_side_head side (Some new) b))
          | Some bst \<Rightarrow>
              bindr (find_target fw b new bst) (\<lambda>(target, add_after).
              if add_after
              then bindr (if target = bst then deref (l_prev (lvl_at b bst)) else Inr target)
                     (\<lambda>target. insert_after_target new target b)
              else insert_before_target new target bst b)))"

lemma addOrdersAtPrice_add_level: "addOrdersAtPrice = add_level worse_than_first"
  by (intro ext) (simp add: addOrdersAtPrice_def add_level_def find_target_def Let_def
      priceToIndex_pidx bindr_assoc case_prod_unfold view_simps cong: if_cong option.case_cong)

lemma worse_better:
  assumes "l_side (lvl_at b new) = sd" "sd = BUY \<or> sd = SELL"
  shows "worse_than b new t = better sd (l_price (lvl_at b t)) (l_price (lvl_at b new))"
    and "better_than b new t = better sd (l_price (lvl_at b new)) (l_price (lvl_at b t))"
    and "better sd (l_price (lvl_at b t)) (l_price (lvl_at b new)) \<Longrightarrow> worse_than_first b new t"
    and "sd = BUY \<Longrightarrow> better sd (l_price (lvl_at b new)) (l_price (lvl_at b t))
      \<Longrightarrow> \<not> worse_than_first b new t"
  using assms by (auto simp: worse_than_def better_than_def better_def worse_than_first_def)

text \<open>
  What the search needs of its first comparison: it never misses a better level, and where it
  takes a new best level for a worse one (which \<open>fits\<close> may exclude) there is but one level.
  With \<open>m\<close> better and \<open>n\<close> worse levels, \<open>fits sd m n\<close> says that the place can be found.
\<close>

locale level_search =
  fixes fw :: "'z book \<Rightarrow> nat \<Rightarrow> nat \<Rightarrow> bool"
    and fits :: "Side \<Rightarrow> nat \<Rightarrow> nat \<Rightarrow> bool"
  assumes fw_worse: "worse_than b new t \<Longrightarrow> fw b new t"
    and fw_fits: "l_side (lvl_at b new) = sd \<Longrightarrow> sd = BUY \<or> sd = SELL \<Longrightarrow> fits sd 0 (Suc n) \<Longrightarrow>
      better sd (l_price (lvl_at b new)) (l_price (lvl_at b t)) \<Longrightarrow> fw b new t \<Longrightarrow> n = 0"
    and fw_levels: "lvl_at b' = lvl_at b \<Longrightarrow> fw b' = fw b"
begin

lemma find_target_eq:
  assumes sd: "l_side (lvl_at b new) = sd" "sd = BUY \<or> sd = SELL"
    and ring: "circ (\<lambda>m. l_next (lvl_at b m)) (\<lambda>m. l_prev (lvl_at b m)) (U @ V)"
    and up: "\<forall>u \<in> set U. better sd (l_price (lvl_at b u)) (l_price (lvl_at b new))"
    and dn: "\<forall>v \<in> set V. better sd (l_price (lvl_at b new)) (l_price (lvl_at b v))"
    and fit: "fits sd (length U) (length V)"
  shows "find_target fw b new (hd (U @ V)) = Inr (if V = [] then (hd U, True) else (hd V, False))"
proof (cases U)
  case Nil
  then obtain v V' where V: "V = v # V'" using ring by (cases V) (auto simp: circ_def)
  have nw: "\<not> worse_than b new v"
    using worse_better(1)[OF sd] dn V better_asym by auto
  show ?thesis
  proof (cases "fw b new v")
    case True
    have "length V' = 0" by (rule fw_fits[OF sd _ _ True]) (use fit dn Nil V in simp_all)
    then have "V' = []" by simp
    then have "l_next (lvl_at b v) = Some v" using ring Nil V by simp
    then show ?thesis using True Nil V nw by (simp add: find_target_def level_walk_stop)
  next
    case False
    then show ?thesis using Nil V by (simp add: find_target_def level_walk_stop)
  qed
next
  case (Cons u U')
  have wf: "fw b new u" using fw_worse worse_better(1)[OF sd] up Cons by simp
  have wU: "\<forall>x \<in> set (u # U'). worse_than b new x" using worse_better(1)[OF sd] up Cons by simp
  have nx: "l_next (lvl_at b u) = Some (hd (U' @ V @ [u]))"
    using circ_links(2)[of _ _ u "U' @ V"] ring Cons by simp
  show ?thesis
  proof (cases V)
    case Nil
    have "worse_than b new (hd (U' @ [u]))" using wU by (cases U') auto
    moreover have "level_walk (worse_than b new) (\<lambda>a. l_next (lvl_at b a)) u (hd (U' @ [u])) True
       = Some (Inr (u, True))"
      by (rule level_walk_round) (use ring wU Cons Nil in auto)
    ultimately show ?thesis using wf nx Cons Nil by (simp add: find_target_def)
  next
    case (Cons v V')
    then have nw: "\<not> worse_than b new v" using worse_better(1)[OF sd] dn better_asym by auto
    have "level_walk (worse_than b new) (\<lambda>a. l_next (lvl_at b a)) u (hd (U' @ [v]))
        (worse_than b new (hd (U' @ [v]))) = Some (Inr (v, False))"
    proof (cases "U' = []")
      case True
      then show ?thesis using nw by (simp add: level_walk_stop)
    next
      case False
      then have "worse_than b new (hd (U' @ [v]))" using wU by (cases U') auto
      moreover have "level_walk (worse_than b new) (\<lambda>a. l_next (lvl_at b a)) u (hd (U' @ [v])) True
         = Some (Inr (v, False))"
        by (rule level_walk_circ[of _ _ u U' v V']) (use ring wU \<open>U = u # U'\<close> Cons nw False in auto)
      ultimately show ?thesis by simp
    qed
    then show ?thesis
      using wf nx \<open>U = u # U'\<close> Cons by (simp add: find_target_def hd_append split: if_splits)
  qed
qed

lemma add_level_ok:
  assumes sd: "l_side (lvl_at b new) = sd" "sd = BUY \<or> sd = SELL"
    and head: "side_head sd b = (case U @ V of [] \<Rightarrow> None | x # _ \<Rightarrow> Some x)"
    and ring: "U @ V \<noteq> [] \<Longrightarrow> circ (\<lambda>m. l_next (lvl_at b m)) (\<lambda>m. l_prev (lvl_at b m)) (U @ V)"
    and new: "new \<notin> set (U @ V)"
    and up: "\<forall>u \<in> set U. better sd (l_price (lvl_at b u)) (l_price (lvl_at b new))"
    and dn: "\<forall>v \<in> set V. better sd (l_price (lvl_at b new)) (l_price (lvl_at b v))"
    and fit: "fits sd (length U) (length V)"
  obtains b' where "add_level fw new b = Inr b'"
    "links_only (b\<lparr>price_orders_at_prices :=
        (price_orders_at_prices b)(pidx (l_price (lvl_at b new)) := Some new)\<rparr>) b'"
    "circ (\<lambda>m. l_next (lvl_at b' m)) (\<lambda>m. l_prev (lvl_at b' m)) (U @ new # V)"
    "\<And>m. m \<notin> set (U @ new # V) \<Longrightarrow> l_next (lvl_at b' m) = l_next (lvl_at b m)
       \<and> l_prev (lvl_at b' m) = l_prev (lvl_at b m)"
    "side_head sd b' = Some (hd (U @ [new]))" "side_head (opp sd) b' = side_head (opp sd) b"
proof -
  let ?c = "b\<lparr>price_orders_at_prices :=
        (price_orders_at_prices b)(pidx (l_price (lvl_at b new)) := Some new)\<rparr>"
  have lc: "lvl_at ?c = lvl_at b" "\<And>d. side_head d ?c = side_head d b" by (simp_all add: view_simps)
  have wt: "fw ?c = fw b" "worse_than ?c = worse_than b" "better_than ?c = better_than b"
    using fw_levels[OF lc(1)] by (simp_all add: fun_eq_iff worse_than_def better_than_def lc)
  have cond: "better_than ?c = better_than b" "find_target fw ?c = find_target fw b"
    by (simp_all add: fun_eq_iff find_target_def wt lc)
  have oppd: "(opp sd = BUY) \<noteq> (sd = BUY)" by (auto simp: opp_def)
  show thesis
  proof (cases "U @ V = []")
    case True
    let ?d = "set_lvl new (\<lambda>l. l\<lparr>l_prev := Some new, l_next := Some new\<rparr>) (set_side_head sd (Some new) ?c)"
    have eq: "add_level fw new b = Inr ?d"
      using True head sd by (simp add: add_level_def Let_def lc)
    have lo: "links_only ?c ?d" by (intro links_only_set_lvl links_only_refl)
    show thesis
      by (rule that[OF eq lo]) (use True oppd in \<open>auto simp: view_simps\<close>)
  next
    case False
    note ci = ring[OF False]
    let ?best = "hd (U @ V)"
    have hd: "side_head sd b = Some ?best" using head False by (cases "U @ V") auto
    have add: "add_level fw new b = bindr (find_target fw b new ?best) (\<lambda>(target, add_after).
       if add_after
       then bindr (if target = ?best then deref (l_prev (lvl_at b ?best)) else Inr target)
              (\<lambda>target. insert_after_target new target ?c)
       else insert_before_target new target ?best ?c)"
      using hd sd unfolding cond(2)[symmetric]
      by (simp add: add_level_def Let_def lc case_prod_unfold cong: if_cong)
    note ft = find_target_eq[OF sd ci up dn fit]
    have nb: "new \<noteq> ?best" using new False by (metis hd_in_set)
    show thesis
    proof (cases V)
      case Nil
      have U: "U \<noteq> []" using False Nil by simp
      have pl: "l_prev (lvl_at b (hd U)) = Some (last U)" "l_next (lvl_at b (last U)) = Some (hd U)"
        using circ_next_last[OF ci] Nil by simp_all
      have "new \<noteq> last U" "new \<noteq> hd U" using new U Nil by auto
      have nl: "l_next (lvl_at ?c (last U)) = Some (hd U)" using pl lc by simp
      obtain d where d: "insert_after_target new (last U) ?c = Inr d" "links_only ?c d"
        "\<And>m. l_next (lvl_at d m) = ((\<lambda>m. l_next (lvl_at ?c m))(last U := Some new, new := Some (hd U))) m"
        "\<And>m. l_prev (lvl_at d m) = ((\<lambda>m. l_prev (lvl_at ?c m))(new := Some (last U), hd U := Some new)) m"
        "\<And>d'. side_head d' d = side_head d' ?c"
        by (rule insert_after_target_eq[OF nl \<open>new \<noteq> last U\<close> \<open>new \<noteq> hd U\<close>]) blast
      have eq: "add_level fw new b = Inr d" using add ft Nil pl d(1) by simp
      have "circ (\<lambda>m. l_next (lvl_at d m)) (\<lambda>m. l_prev (lvl_at d m)) (U @ [new])"
        by (rule circ_append[OF _ _ ext[OF d(3)] ext[OF d(4)]]) (use ci Nil new lc in simp_all)
      then show thesis
        by (intro that[OF eq d(2)]) (use d(3,4,5) Nil U hd lc in \<open>auto simp: hd_append\<close>)
    next
      case (Cons v V')
      have rot: "circ (\<lambda>m. l_next (lvl_at b m)) (\<lambda>m. l_prev (lvl_at b m)) (U @ v # V')"
        using ci Cons by simp
      obtain x where x: "l_prev (lvl_at b v) = Some x" "x \<in> set (U @ V)"
        by (rule circ_in_links[OF ci, of v]) (use Cons in auto)
      have nx: "new \<noteq> v" "new \<noteq> x" using new x Cons by auto
      have bt: "better_than b new ?best \<longleftrightarrow> U = []"
        using worse_better(2)[OF sd] up dn Cons better_asym by (cases U) auto
      have side: "(l_side (lvl_at ?c new) = BUY) = (sd = BUY)" using sd lc by simp
      have al: "l_next (lvl_at b v) = Some v \<Longrightarrow> x = v"
        using circ_alone[OF rot, of v] x by auto
      have q: "v = ?best \<and> (l_next (lvl_at ?c ?best) = Some ?best \<longrightarrow> x = ?best)"
        if "better_than ?c new ?best"
        using that al bt cond(1) lc Cons by simp
      obtain d where d: "insert_before_target new v ?best ?c = Inr d" "links_only ?c d"
        "\<And>m. l_next (lvl_at d m) = ((\<lambda>m. l_next (lvl_at ?c m))(x := Some new, new := Some v)) m"
        "\<And>m. l_prev (lvl_at d m) = ((\<lambda>m. l_prev (lvl_at ?c m))(new := Some x, v := Some new)) m"
        "\<And>d'. side_head d' d = (if better_than ?c new ?best \<and> (d' = BUY) = (l_side (lvl_at ?c new) = BUY)
            then Some new else side_head d' ?c)"
        by (rule insert_before_target_eq[of ?c v x new ?best]) (use x nx nb q lc in auto)
      have eq: "add_level fw new b = Inr d" using add ft Cons d(1) by simp
      have ci': "circ (\<lambda>m. l_next (lvl_at d m)) (\<lambda>m. l_prev (lvl_at d m)) (U @ new # v # V')"
        by (rule circ_insert_before[OF _ _ _ ext[OF d(3)] ext[OF d(4)]])
          (use rot new Cons x lc in simp_all)
      have h: "side_head sd d = Some (hd (U @ [new]))" "side_head (opp sd) d = side_head (opp sd) b"
        unfolding d(5) side cond(1) bt using oppd hd lc by (auto simp: hd_append)
      show thesis
        by (rule that[OF eq d(2)]) (use d(3,4) ci' h Cons x lc in auto)
    qed
  qed
qed

end

text \<open>The first comparison of the engine's book goes wrong for a new best ask over two or more
  ask levels.\<close>

definition engine_fits :: "Side \<Rightarrow> nat \<Rightarrow> nat \<Rightarrow> bool" where
  "engine_fits sd m n \<longleftrightarrow> sd = BUY \<or> m \<noteq> 0 \<or> n \<le> 1"

interpretation engine_search: level_search worse_than_first engine_fits
  by unfold_locales (auto simp: worse_than_def worse_than_first_def engine_fits_def better_def fun_eq_iff)

end
