(* ===== verification/RingWalk.thy ===== *)
theory RingWalk
  imports LevelWalk Types
begin

text \<open>
  The loops that read a ring once around, shared by the printing of the exchange's book and
  of the client's: \<open>for(itr = first; ; itr = itr->next) { ...; if(itr->next == first) break; }\<close>
  over the orders of a level, and the loop over the levels of a side, which computes
  \<open>next == head ? nullptr : next\<close> and stops at \<open>nullptr\<close>. Both are modelled by the list of
  the nodes they visit.
\<close>

partial_function (option) ring_nodes :: "(nat \<Rightarrow> ptr) \<Rightarrow> nat \<Rightarrow> nat \<Rightarrow> nat list res option" where
  "ring_nodes nxt first itr =
     (if nxt itr = Some first then Some (Inr [itr])
      else case nxt itr of
             None \<Rightarrow> Some (Inl (Undefined ''null pointer dereference''))
           | Some n \<Rightarrow> Option.bind (ring_nodes nxt first n)
               (\<lambda>r. Some (bindr r (\<lambda>ns. Inr (itr # ns)))))"

partial_function (option) ring_levels :: "(nat \<Rightarrow> ptr) \<Rightarrow> ptr \<Rightarrow> nat \<Rightarrow> nat list option" where
  "ring_levels nxt head itr =
     (if nxt itr = head then Some [itr]
      else case nxt itr of
             None \<Rightarrow> Some [itr]
           | Some n \<Rightarrow> Option.bind (ring_levels nxt head n) (\<lambda>ns. Some (itr # ns)))"

lemma circ_suffix_next:
  assumes "circ nxt prv (us @ x # y # vs)"
  shows "nxt x = Some y"
  using circ_next_nth[OF assms, of "length us"] by (simp add: nth_append)

lemma circ_last_next:
  assumes "circ nxt prv (us @ [x])"
  shows "nxt x = Some (hd (us @ [x]))"
  using circ_next_last(1)[OF assms] by simp

text \<open>Both loops end on a ring and visit it in order.\<close>

lemma ring_nodes_suffix:
  assumes "circ nxt prv (us @ x # vs)" "first = hd (us @ [x])"
  shows "ring_nodes nxt first x = Some (Inr (x # vs))"
  using assms
proof (induction vs arbitrary: us x)
  case Nil
  then show ?case using circ_last_next[of nxt prv us x]
    by (subst ring_nodes.simps) simp
next
  case (Cons y vs)
  have n: "nxt x = Some y" by (rule circ_suffix_next[OF Cons.prems(1)])
  have "distinct (us @ x # y # vs)" using Cons.prems(1) by (rule circ_distinct)
  then have "y \<noteq> first" using Cons.prems(2) by (cases us) auto
  moreover have "ring_nodes nxt first y = Some (Inr (y # vs))"
    using Cons.IH[of "us @ [x]" y] Cons.prems by (cases us) simp_all
  ultimately show ?case using n by (subst ring_nodes.simps) simp
qed

lemma ring_nodes_circ:
  "circ nxt prv (x # xs) \<Longrightarrow> ring_nodes nxt x x = Some (Inr (x # xs))"
  using ring_nodes_suffix[of nxt prv "[]" x xs x] by simp

lemma ring_levels_suffix:
  assumes "circ nxt prv (us @ x # vs)" "first = hd (us @ [x])"
  shows "ring_levels nxt (Some first) x = Some (x # vs)"
  using assms
proof (induction vs arbitrary: us x)
  case Nil
  then show ?case using circ_last_next[of nxt prv us x]
    by (subst ring_levels.simps) simp
next
  case (Cons y vs)
  have n: "nxt x = Some y" by (rule circ_suffix_next[OF Cons.prems(1)])
  have "distinct (us @ x # y # vs)" using Cons.prems(1) by (rule circ_distinct)
  then have "y \<noteq> first" using Cons.prems(2) by (cases us) auto
  moreover have "ring_levels nxt (Some first) y = Some (y # vs)"
    using Cons.IH[of "us @ [x]" y] Cons.prems by (cases us) simp_all
  ultimately show ?case using n by (subst ring_levels.simps) simp
qed

lemma ring_levels_circ:
  "circ nxt prv (x # xs) \<Longrightarrow> ring_levels nxt (Some x) x = Some (x # xs)"
  using ring_levels_suffix[of nxt prv "[]" x xs x] by simp

text \<open>The \<open>%3s\<close> fields of a printed level.\<close>

definition newline :: string where
  "newline = [CHR 0x0A]"

definition level_line :: "Price \<Rightarrow> Price \<Rightarrow> Price \<Rightarrow> Qty \<Rightarrow> nat \<Rightarrow> string" where
  "level_line price prev nxt qty num_orders =
     '' <px:'' @ pad_left 3 (priceToString price) @ '' p:'' @ pad_left 3 (priceToString prev)
     @ '' n:'' @ pad_left 3 (priceToString nxt) @ ''> '' @ pad_right 3 (priceToString price)
     @ '' @ '' @ pad_right 5 (qtyToString qty) @ ''(''
     @ pad_right 4 (nat_to_string num_orders) @ '')''"

definition order_cell :: "OrderId \<Rightarrow> Qty \<Rightarrow> OrderId \<Rightarrow> OrderId \<Rightarrow> string" where
  "order_cell oid qty prev nxt =
     ''[oid:'' @ orderIdToString oid @ '' q:'' @ qtyToString qty
     @ '' p:'' @ orderIdToString prev @ '' n:'' @ orderIdToString nxt @ ''] ''"

end
