(* ===== verification/MEOrderBookPrint.thy ===== *)
theory MEOrderBookPrint
  imports MEOrderBookRep RingWalk
begin

text \<open>
  \<open>MEOrderBook::toString\<close> and the destructor of \<open>exchange/matcher/me_order_book.cpp\<close>, which
  prints the book with the sanity check on.
\<close>

text \<open>The lambda \<open>printer\<close>: one level, with the last price seen.\<close>

definition print_level ::
  "bool \<Rightarrow> bool \<Rightarrow> 'z book \<Rightarrow> Side \<Rightarrow> nat \<Rightarrow> string \<times> Price \<Rightarrow> (string \<times> Price) res" where
  "print_level detailed sanity_check b side itr acc =
     (let l = lvl_at b itr; price = l_price l
      in bindr (deref (l_first l)) (\<lambda>first.
         bindr (returned (ring_nodes (\<lambda>a. o_next (ord_at b a)) first first)) (\<lambda>orders.
         bindr (deref (l_prev l)) (\<lambda>p. bindr (deref (l_next l)) (\<lambda>n.
         let qty = sum_list (map (\<lambda>a. o_qty (ord_at b a)) orders);
             moid = (\<lambda>q. case q of Some a \<Rightarrow> o_market_order_id (ord_at b a) | None \<Rightarrow> OrderId_INVALID);
             cells = concat (map (\<lambda>a. order_cell (o_market_order_id (ord_at b a))
                        (o_qty (ord_at b a)) (moid (o_prev (ord_at b a)))
                        (moid (o_next (ord_at b a)))) orders);
             text = fst acc @ level_line price (l_price (lvl_at b p)) (l_price (lvl_at b n)) qty
                        (length orders) @ (if detailed then cells else []) @ newline
         in if \<not> sanity_check then Inr (text, snd acc)
            else if (side = SELL \<and> snd acc \<ge> price) \<or> (side = BUY \<and> snd acc \<le> price)
            then FATAL (''Bids/Asks not sorted by ascending/descending prices last:''
                   @ priceToString (snd acc) @ '' itr:''
                   @ MEOrdersAtPrice_toString (order_pool b) (orders_at_price_pool b) l)
            else Inr (text, price))))))"

text \<open>The loop over one side, over its levels and their numbers.\<close>

definition print_side :: "bool \<Rightarrow> bool \<Rightarrow> 'z book \<Rightarrow> Side \<Rightarrow> string \<Rightarrow> string res" where
  "print_side detailed sanity_check b side label =
     (case side_head side b of
        None \<Rightarrow> Inr []
      | Some h \<Rightarrow>
          bindr (returned (map_option Inr (ring_levels (\<lambda>l. l_next (lvl_at b l)) (Some h) h))) (\<lambda>ls.
          bindr (fold_res (\<lambda>(count, itr) acc.
                    print_level detailed sanity_check b side itr
                      (fst acc @ label @ nat_to_string count @ '' => '', snd acc))
                  (enumerate 0 ls) ([], 0)) (\<lambda>acc.
          Inr (fst acc))))"

definition MEOrderBook_toString :: "bool \<Rightarrow> bool \<Rightarrow> 'z book \<Rightarrow> string res" where
  "MEOrderBook_toString detailed validity_check b =
     bindr (print_side detailed validity_check b SELL ''ASKS L:'') (\<lambda>asks.
     bindr (print_side detailed validity_check b BUY ''BIDS L:'') (\<lambda>bids.
     Inr (''Ticker:'' @ TickerIdToString (ticker_id b) @ newline @ asks @ newline
          @ ''                    X'' @ newline @ newline @ bids)))"

text \<open>The destructor logs the book, printed with the check.\<close>

definition MEOrderBook_dtor :: "'z book \<Rightarrow> 'z book res" where
  "MEOrderBook_dtor b =
     bindr (MEOrderBook_toString False True b) (\<lambda>_.
     Inr (b\<lparr>bids_by_price := None, asks_by_price := None, cid_oid_to_order := (\<lambda>_ _. None)\<rparr>))"

section \<open>Printing a well-formed book\<close>

lemma print_level_reads:
  assumes r: "ladder_rep (me_view b) S" and x: "x \<in> set (S sd)" and sd: "sd = BUY \<or> sd = SELL"
  obtains p n where
    "l_first (lvl_at b (fst x)) = Some (hd (snd x))" "l_prev (lvl_at b (fst x)) = Some p"
    "l_next (lvl_at b (fst x)) = Some n"
    "ring_nodes (\<lambda>a. o_next (ord_at b a)) (hd (snd x)) (hd (snd x)) = Some (Inr (snd x))"
proof -
  have sr: "side_rep (me_view b) sd (S sd)" using r sd by (auto simp: ladder_rep_def)
  have lr: "lvl_rep (me_view b) sd x" by (rule side_repD(3)[OF sr x])
  then have c: "circ (\<lambda>a. o_next (ord_at b a)) (\<lambda>a. o_prev (ord_at b a)) (snd x)"
    by (simp add: lvl_rep_def me_view_def)
  have "ring_nodes (\<lambda>a. o_next (ord_at b a)) (hd (snd x)) (hd (snd x)) = Some (Inr (snd x))"
    using c ring_nodes_circ[of _ _ "hd (snd x)" "tl (snd x)"] circ_nonempty[OF c]
    by (metis list.collapse)
  moreover have "S sd \<noteq> []" using x by auto
  then have cl: "circ (\<lambda>l. l_next (lvl_at b l)) (\<lambda>l. l_prev (lvl_at b l)) (map fst (S sd))"
    using side_repD(2)[OF sr] by (simp add: me_view_def)
  have "fst x \<in> set (map fst (S sd))" using x by simp
  then obtain p n where "l_prev (lvl_at b (fst x)) = Some p" "l_next (lvl_at b (fst x)) = Some n"
    using circ_in_links[OF cl] by blast
  moreover have "l_first (lvl_at b (fst x)) = Some (hd (snd x))"
    using lr by (simp add: lvl_rep_def)
  ultimately show thesis using that by blast
qed

lemma print_level_unchecked:
  assumes r: "ladder_rep (me_view b) S" and x: "x \<in> set (S sd)" and sd: "sd = BUY \<or> sd = SELL"
  shows "\<exists>acc'. print_level detailed False b sd (fst x) acc = Inr acc'"
proof -
  obtain p n where "l_first (lvl_at b (fst x)) = Some (hd (snd x))"
    "l_prev (lvl_at b (fst x)) = Some p" "l_next (lvl_at b (fst x)) = Some n"
    "ring_nodes (\<lambda>a. o_next (ord_at b a)) (hd (snd x)) (hd (snd x)) = Some (Inr (snd x))"
    by (rule print_level_reads[OF assms]) blast
  then show ?thesis by (simp add: print_level_def Let_def)
qed

lemma print_level_checked:
  assumes r: "ladder_rep (me_view b) S" and x: "x \<in> set (S sd)" and sd: "sd = BUY \<or> sd = SELL"
    and "(sd = SELL \<and> snd acc \<ge> l_price (lvl_at b (fst x)))
      \<or> (sd = BUY \<and> snd acc \<le> l_price (lvl_at b (fst x)))"
  shows "\<exists>m. print_level detailed True b sd (fst x) acc = Inl (Fatal_exit m)"
proof -
  obtain p n where "l_first (lvl_at b (fst x)) = Some (hd (snd x))"
    "l_prev (lvl_at b (fst x)) = Some p" "l_next (lvl_at b (fst x)) = Some n"
    "ring_nodes (\<lambda>a. o_next (ord_at b a)) (hd (snd x)) (hd (snd x)) = Some (Inr (snd x))"
    by (rule print_level_reads[OF r x sd]) blast
  then show ?thesis using assms(4) by (simp add: print_level_def Let_def FATAL_def)
qed

lemma fold_res_total:
  assumes "\<And>x s. x \<in> set xs \<Longrightarrow> \<exists>t. h x s = Inr t"
  shows "\<exists>t. fold_res h xs s = Inr t"
  using assms
proof (induction xs arbitrary: s)
  case (Cons x xs)
  obtain u where "h x s = Inr u" using Cons.prems by (meson list.set_intros(1))
  then show ?case using Cons.IH Cons.prems by simp
qed simp

lemma side_levels:
  assumes r: "ladder_rep (me_view b) S" and sd: "sd = BUY \<or> sd = SELL"
  shows "S sd = [] \<Longrightarrow> side_head sd b = None"
    and "S sd = x # xs \<Longrightarrow> side_head sd b = Some (fst x)
      \<and> ring_levels (\<lambda>l. l_next (lvl_at b l)) (Some (fst x)) (fst x) = Some (map fst (x # xs))"
proof -
  have sr: "side_rep (me_view b) sd (S sd)" using r sd by (auto simp: ladder_rep_def)
  then show "S sd = [] \<Longrightarrow> side_head sd b = None" by (simp add: side_rep_def)
  assume S: "S sd = x # xs"
  then have "circ (\<lambda>l. l_next (lvl_at b l)) (\<lambda>l. l_prev (lvl_at b l)) (fst x # map fst xs)"
    using side_repD(2)[OF sr] by (simp add: me_view_def)
  note w = ring_levels_circ[OF this]
  have "side_head sd b = Some (fst x)" using sr by (simp add: side_rep_def S)
  then show "side_head sd b = Some (fst x)
      \<and> ring_levels (\<lambda>l. l_next (lvl_at b l)) (Some (fst x)) (fst x) = Some (map fst (x # xs))"
    using w by simp
qed

lemma print_side_unchecked:
  assumes r: "ladder_rep (me_view b) S" and sd: "sd = BUY \<or> sd = SELL"
  shows "\<exists>t. print_side detailed False b sd label = Inr t"
proof (cases "S sd")
  case Nil
  then show ?thesis using side_levels(1)[OF r sd] by (simp add: print_side_def)
next
  case (Cons x xs)
  note lv = side_levels(2)[OF r sd Cons]
  let ?h = "\<lambda>(count, itr) acc. print_level detailed False b sd itr
              (fst acc @ label @ nat_to_string count @ '' => '', snd acc)"
  have "\<exists>t. fold_res ?h (enumerate 0 (map fst (x # xs))) ([], 0) = Inr t"
  proof (rule fold_res_total)
    fix y and s :: "string \<times> Price"
    assume "y \<in> set (enumerate 0 (map fst (x # xs)))"
    then have "snd y \<in> snd ` set (enumerate 0 (map fst (S sd)))" unfolding Cons by (rule imageI)
    then have "snd y \<in> set (map fst (S sd))" by (metis list.set_map map_snd_enumerate)
    then obtain z where "z \<in> set (S sd)" "snd y = fst z" by auto
    then show "\<exists>t. ?h y s = Inr t"
      using print_level_unchecked[OF r _ sd, of z] by (auto simp: case_prod_beta)
  qed
  then show ?thesis using lv by (auto simp: print_side_def)
qed

lemma toString_unchecked_returns:
  assumes "me_rep b S"
  shows "\<exists>t. MEOrderBook_toString detailed False b = Inr t"
  using print_side_unchecked[OF me_repD(1)[OF assms], of SELL detailed "''ASKS L:''"]
    print_side_unchecked[OF me_repD(1)[OF assms], of BUY detailed "''BIDS L:''"]
  by (auto simp: MEOrderBook_toString_def)

lemma print_bids_checked:
  assumes r: "ladder_rep (me_view b) S" and "S BUY \<noteq> []"
  shows "\<exists>m. print_side detailed True b BUY label = Inl (Fatal_exit m)"
proof -
  obtain x xs where x: "S BUY = x # xs" using assms(2) by (cases "S BUY") auto
  note lv = side_levels(2)[OF r disjI1[OF refl] x]
  have x0: "x \<in> set (S BUY)" by (simp add: x)
  obtain m where "print_level detailed True b BUY (fst x) (label @ nat_to_string 0 @ '' => '', 0)
      = Inl (Fatal_exit m)"
    using print_level_checked[OF r x0 disjI1[OF refl], of "(label @ nat_to_string 0 @ '' => '', 0)"
        detailed] by auto
  then show ?thesis using lv by (simp add: print_side_def)
qed

end
