(* ===== verification/MEOrderBookAdd.thy ===== *)
theory MEOrderBookAdd
  imports MEOrderBookRep
begin

text \<open>
  What \<open>addOrder\<close> of the matching engine's book does to the ladder: it joins the level of its
  price at the end of the queue, or opens a level at its place among the prices.
\<close>

section \<open>Adding an order\<close>

text \<open>\<open>addOrder\<close> with the linking of a new level as a parameter.\<close>

definition addOrder_with :: "(nat \<Rightarrow> 'z book \<Rightarrow> 'z book res) \<Rightarrow> nat \<Rightarrow> 'z book \<Rightarrow> 'z book res" where
  "addOrder_with add_lvl order b =
     bindr (case price_orders_at_prices b (pidx (o_price (ord_at b order))) of
              None \<Rightarrow>
                let b = set_ord order (\<lambda>x. x\<lparr>o_next := Some order, o_prev := Some order\<rparr>) b
                in bindr (allocate (MEOrdersAtPrice_ctor (o_side (ord_at b order))
                             (o_price (ord_at b order)) (Some order) None None)
                            (orders_at_price_pool b)) (\<lambda>(new, pool).
                   add_lvl new (b\<lparr>orders_at_price_pool := pool\<rparr>))
            | Some l \<Rightarrow>
                bindr (deref (l_first (lvl_at b l))) (\<lambda>first_order.
                bindr (deref (o_prev (ord_at b first_order))) (\<lambda>lst.
                let b = set_ord lst (\<lambda>x. x\<lparr>o_next := Some order\<rparr>) b;
                    b = set_ord order (\<lambda>x. x\<lparr>o_prev := o_prev (ord_at b first_order)\<rparr>) b;
                    b = set_ord order (\<lambda>x. x\<lparr>o_next := Some first_order\<rparr>) b;
                    b = set_ord first_order (\<lambda>x. x\<lparr>o_prev := Some order\<rparr>) b
                in Inr b))) (\<lambda>b.
     set_cid_oid (o_client_id (ord_at b order)) (o_client_order_id (ord_at b order))
       (Some order) b)"

lemma addOrder_addOrder_with: "addOrder = addOrder_with (add_level worse_than_first)"
  unfolding addOrder_def[abs_def] addOrder_with_def[abs_def] addOrdersAtPrice_add_level
    getOrdersAtPrice_eq bindr_Inr ..

text \<open>The order has its block already: \<open>b\<close> is the book \<open>b0\<close> with the pool after the allocation.\<close>

definition placed :: "'z book \<Rightarrow> nat \<Rightarrow> MEOrder \<Rightarrow> 'z book \<Rightarrow> bool" where
  "placed b0 a x b \<longleftrightarrow> (\<exists>pool. b = b0\<lparr>order_pool := pool\<rparr> \<and> a \<notin> live (order_pool b0)
     \<and> live pool = insert a (live (order_pool b0)) \<and> pool_wf pool
     \<and> pool_size pool = pool_size (order_pool b0)
     \<and> (\<forall>z. obj pool z = (if z = a then x else obj (order_pool b0) z)))"

lemma placedD:
  assumes "placed b0 a x b"
  shows "a \<notin> live (order_pool b0)" "live (order_pool b) = insert a (live (order_pool b0))"
    "pool_wf (order_pool b)" "pool_size (order_pool b) = pool_size (order_pool b0)"
    "ord_at b z = (if z = a then x else ord_at b0 z)" "lvl_at b = lvl_at b0"
    "side_head d b = side_head d b0" "price_orders_at_prices b = price_orders_at_prices b0"
    "cid_oid_to_order b = cid_oid_to_order b0" "orders_at_price_pool b = orders_at_price_pool b0"
    "same_rest b0 b"
  using assms by (auto simp: placed_def view_simps) (simp add: ord_at_def)

lemma placed_cid_rep:
  assumes "placed b0 a x b" "cid_ok b0"
  shows "cid_rep b (live (order_pool b) - {a})"
proof -
  note P = placedD[OF assms(1)]
  have "live (order_pool b) - {a} = live (order_pool b0)" using P(1,2) by auto
  moreover have "ord_at b z = ord_at b0 z" if "z \<in> live (order_pool b0)" for z
    using P(1) P(5)[of z] that by auto
  ultimately show ?thesis
    using assms(2) unfolding cid_ok_def cid_rep_def P(9) by (simp cong: conj_cong)
qed

lemma addOrder_tail:
  assumes ids: "ids_ok (ord_at b a)" and cid: "cid_rep b (live (order_pool b) - {a})"
    and a: "a \<in> live (order_pool b)"
    and fresh: "cid_oid_to_order b (unat (o_client_id (ord_at b a)))
      (unat (o_client_order_id (ord_at b a))) = None"
  obtains b' where
    "set_cid_oid (o_client_id (ord_at b a)) (o_client_order_id (ord_at b a)) (Some a) b = Inr b'"
    "cid_ok b'" "order_pool b' = order_pool b" "orders_at_price_pool b' = orders_at_price_pool b"
    "price_orders_at_prices b' = price_orders_at_prices b" "\<And>d. side_head d b' = side_head d b"
    "same_rest b b'"
proof -
  let ?c = "unat (o_client_id (ord_at b a))" and ?o = "unat (o_client_order_id (ord_at b a))"
  let ?b = "b\<lparr>cid_oid_to_order := (cid_oid_to_order b)(?c := (cid_oid_to_order b ?c)(?o := Some a))\<rparr>"
  have oe: "ord_at ?b = ord_at b" "order_pool ?b = order_pool b" by (simp_all add: view_simps)
  have "cid_ok ?b"
    unfolding cid_ok_def cid_rep_def oe
  proof (intro allI impI)
    fix c i z assume ci: "c < ME_MAX_NUM_CLIENTS" "i < ME_MAX_ORDER_IDS"
    have tab: "cid_oid_to_order b c i = Some z \<longleftrightarrow> z \<in> live (order_pool b) - {a}
        \<and> unat (o_client_id (ord_at b z)) = c \<and> unat (o_client_order_id (ord_at b z)) = i"
      using cid ci unfolding cid_rep_def by blast
    show "cid_oid_to_order ?b c i = Some z \<longleftrightarrow> z \<in> live (order_pool b)
        \<and> unat (o_client_id (ord_at b z)) = c \<and> unat (o_client_order_id (ord_at b z)) = i"
    proof (cases "c = ?c \<and> i = ?o")
      case True
      then show ?thesis using tab fresh a by auto
    next
      case False
      then have "cid_oid_to_order ?b c i = cid_oid_to_order b c i" by auto
      then show ?thesis using tab False by auto
    qed
  qed
  then show thesis
    using that[of ?b] ids by (simp add: set_cid_oid_def ids_ok_def view_simps)
qed

lemma addOrder_join:
  assumes rep: "me_rep b0 S" and pl: "placed b0 a x b" and sd: "sd = BUY \<or> sd = SELL"
    and S: "S sd = us @ (l, os) # vs"
    and x: "o_side x = sd" "o_price x = l_price (lvl_at b0 l)" "ids_ok x"
    and fresh: "cid_oid_to_order b0 (unat (o_client_id x)) (unat (o_client_order_id x)) = None"
  obtains b' where "addOrder_with al a b = Inr b'" "me_rep b' (S(sd := us @ (l, os @ [a]) # vs))"
    "same_rest b0 b'" "\<And>z. odata (ord_at b' z) = odata (ord_at b z)"
    "\<And>m. l_price (lvl_at b' m) = l_price (lvl_at b0 m)"
proof -
  note r = me_repD(1)[OF rep] and P = placedD[OF pl]
  have lr: "lvl_rep (me_view b0) sd (l, os)"
    by (rule ladder_lvl_rep[OF r sd]) (simp add: S)
  have ci: "circ (oN (me_view b0)) (oP (me_view b0)) os" using lvl_repD(3)[OF lr] .
  have l: "l \<in> live (orders_at_price_pool b0)" using ladder_live(1)[OF r sd] S by auto
  have os: "set os \<subseteq> live (order_pool b0)" using ladder_live(2)[OF r sd] S by auto
  have f: "l_first (lvl_at b0 l) = Some (hd os)" using lvl_repD(2)[OF lr] by simp
  have lst: "o_prev (ord_at b0 (hd os)) = Some (last os)" using circ_next_last[OF ci] by simp
  have "hd os \<in> set os" "last os \<in> set os" using lvl_repD(4)[OF lr] by simp_all
  then have na: "hd os \<noteq> a" "last os \<noteq> a" using os P(1) by blast+
  have t: "price_orders_at_prices b (pidx (o_price (ord_at b a))) = Some l"
    using ladder_tab[OF r] l x(2) P(5,8) by (simp add: tab_rep_def)
  let ?b1 = "set_ord (last os) (\<lambda>z. z\<lparr>o_next := Some a\<rparr>) b"
  let ?b2 = "set_ord a (\<lambda>z. z\<lparr>o_prev := Some (last os)\<rparr>) ?b1"
  let ?b3 = "set_ord a (\<lambda>z. z\<lparr>o_next := Some (hd os)\<rparr>) ?b2"
  let ?b4 = "set_ord (hd os) (\<lambda>z. z\<lparr>o_prev := Some a\<rparr>) ?b3"
  have od: "ord_at ?b4 z = (ord_at b z)\<lparr>
      o_next := ((\<lambda>z. o_next (ord_at b z))(last os := Some a, a := Some (hd os))) z,
      o_prev := ((\<lambda>z. o_prev (ord_at b z))(a := Some (last os), hd os := Some a)) z\<rparr>" for z
    using na by (auto simp: view_simps)
  have ids: "o_client_id (ord_at ?b4 z) = o_client_id (ord_at b z)"
    "o_client_order_id (ord_at ?b4 z) = o_client_order_id (ord_at b z)"
    "odata (ord_at ?b4 z) = odata (ord_at b z)" "ids_ok (ord_at ?b4 z) = ids_ok (ord_at b z)" for z
    unfolding od by (simp_all add: odata_def ids_ok_def)
  have cid: "cid_rep ?b4 (live (order_pool ?b4) - {a})"
    using placed_cid_rep[OF pl me_repD(3)[OF rep]] unfolding cid_rep_def ids by (simp add: view_simps)
  have fr4: "cid_oid_to_order ?b4 (unat (o_client_id (ord_at ?b4 a)))
      (unat (o_client_order_id (ord_at ?b4 a))) = None"
    using fresh P(5)[of a] P(9) unfolding ids by (simp add: view_simps)
  have v4: "live (order_pool ?b4) = live (order_pool b)" "pool_wf (order_pool ?b4)"
    "pool_size (order_pool ?b4) = pool_size (order_pool b)" "lvl_at ?b4 = lvl_at b"
    "orders_at_price_pool ?b4 = orders_at_price_pool b" "same_rest b0 ?b4"
    "price_orders_at_prices ?b4 = price_orders_at_prices b" "\<And>d. side_head d ?b4 = side_head d b"
    using P by (simp_all add: view_simps)
  obtain b5 where b5:
    "set_cid_oid (o_client_id (ord_at ?b4 a)) (o_client_order_id (ord_at ?b4 a)) (Some a) ?b4 = Inr b5"
    "cid_ok b5" "order_pool b5 = order_pool ?b4" "orders_at_price_pool b5 = orders_at_price_pool ?b4"
    "price_orders_at_prices b5 = price_orders_at_prices ?b4" "\<And>d. side_head d b5 = side_head d ?b4"
    "same_rest ?b4 b5"
    by (rule addOrder_tail[OF _ cid _ fr4]) (use x P(2,5) ids(4) v4(1) in auto)
  have o5: "ord_at b5 = ord_at ?b4" and l5: "lvl_at b5 = lvl_at b0"
    using b5(3,4) v4(4,5) P(6) by (simp_all add: ord_at_def[abs_def] lvl_at_def[abs_def])
  have eq: "addOrder_with al a b = Inr b5"
    using b5(1) t f lst na P(5,6)
    by (cases "hd os = last os") (simp_all add: addOrder_with_def Let_def view_simps)
  have "ladder_rep (me_view b5) (S(sd := us @ (l, os @ [a]) # vs))"
  proof (rule ladder_append[OF r sd S])
    show "a \<notin> liveO (me_view b0)" using P(1) by simp
    show "oN (me_view b5) z = ((oN (me_view b0))(last os := Some a, a := Some (hd os))) z"
      for z using P(5) by (simp add: o5 od)
    show "oP (me_view b5) z = ((oP (me_view b0))(a := Some (last os), hd os := Some a)) z"
      for z using P(5) by (simp add: o5 od)
  qed (use x P b5 v4 l5 o5 od in \<open>auto simp: same_lvl_def\<close>)
  moreover have "pools_ok b5"
    using me_repD(2)[OF rep] b5 v4 P by (simp add: pools_ok_def)
  moreover have "ids_ok (ord_at b5 z)" if "z \<in> live (order_pool b5)" for z
    using me_repD(4)[OF rep, of z] that b5(3) v4(1) P(2,5) x(3) o5 ids(4) by auto
  ultimately have "me_rep b5 (S(sd := us @ (l, os @ [a]) # vs))"
    using b5(2) by (simp add: me_rep_def)
  then show thesis
  proof (rule that[OF eq])
    show "same_rest b0 b5" using v4(6) b5(7) by (rule same_rest_trans)
    show "odata (ord_at b5 z) = odata (ord_at b z)" for z using ids(3) o5 by simp
    show "l_price (lvl_at b5 m) = l_price (lvl_at b0 m)" for m using l5 by simp
  qed
qed


lemma links_only_tableD:
  assumes "links_only (b\<lparr>price_orders_at_prices := t\<rparr>) b'"
  shows "order_pool b' = order_pool b" "cid_oid_to_order b' = cid_oid_to_order b"
    "price_orders_at_prices b' = t" "same_rest b b'"
    "live (orders_at_price_pool b') = live (orders_at_price_pool b)"
    "pool_wf (orders_at_price_pool b') = pool_wf (orders_at_price_pool b)"
    "pool_size (orders_at_price_pool b') = pool_size (orders_at_price_pool b)"
    "l_price (lvl_at b' m) = l_price (lvl_at b m)" "l_side (lvl_at b' m) = l_side (lvl_at b m)"
    "l_first (lvl_at b' m) = l_first (lvl_at b m)"
  using assms by (auto simp: links_only_def view_simps same_rest_def)

context level_search
begin

lemma addOrder_open:
  assumes rep: "me_rep b0 S" and pl: "placed b0 a x b" and sd: "sd = BUY \<or> sd = SELL"
    and S: "S sd = us @ vs" and x: "o_side x = sd" "ids_ok x"
    and fresh: "cid_oid_to_order b0 (unat (o_client_id x)) (unat (o_client_order_id x)) = None"
    and fr: "price_orders_at_prices b0 (pidx (o_price x)) = None"
    and room: "card (live (orders_at_price_pool b0)) + 1 < ME_MAX_PRICE_LEVELS"
    and up: "\<forall>y \<in> set us. better sd (l_price (lvl_at b0 (fst y))) (o_price x)"
    and dn: "\<forall>y \<in> set vs. better sd (o_price x) (l_price (lvl_at b0 (fst y)))"
    and fit: "fits sd (length us) (length vs)"
  obtains b' l where "addOrder_with (add_level fw) a b = Inr b'" "me_rep b' (S(sd := us @ (l, [a]) # vs))"
    "same_rest b0 b'" "\<And>z. odata (ord_at b' z) = odata (ord_at b z)"
    "\<And>m. m \<in> live (orders_at_price_pool b0) \<Longrightarrow> l_price (lvl_at b' m) = l_price (lvl_at b0 m)"
    "l_price (lvl_at b' l) = o_price x"
proof -
  note r = me_repD(1)[OF rep] and P = placedD[OF pl]
  note live = ladder_live[OF r sd]
  let ?p = "o_price x"
  let ?b1 = "set_ord a (\<lambda>x. x\<lparr>o_next := Some a, o_prev := Some a\<rparr>) b"
  let ?new = "MEOrdersAtPrice_ctor sd ?p (Some a) None None"
  have wf: "pool_wf (orders_at_price_pool b0)" "pool_size (orders_at_price_pool b0) = ME_MAX_PRICE_LEVELS"
    using me_repD(2)[OF rep] by (simp_all add: pools_ok_def)
  obtain l lp where al: "allocate ?new (orders_at_price_pool b0) = Inr (l, lp)"
    "l \<notin> live (orders_at_price_pool b0)" "live lp = insert l (live (orders_at_price_pool b0))"
    "pool_wf lp" "pool_size lp = ME_MAX_PRICE_LEVELS"
    "\<And>m. obj lp m = (if m = l then ?new else obj (orders_at_price_pool b0) m)"
    using allocate_ok[OF wf(1), of ?new] room wf(2) by metis
  define b2 where "b2 = ?b1\<lparr>orders_at_price_pool := lp\<rparr>"
  have lv2: "lvl_at b2 m = (if m = l then ?new else lvl_at b0 m)" for m
    using al(6) P(6) by (simp add: b2_def view_simps) (simp add: lvl_at_def)
  have od2: "ord_at b2 z = (if z = a then x\<lparr>o_next := Some a, o_prev := Some a\<rparr> else ord_at b0 z)" for z
    using P(5) by (simp add: b2_def view_simps)
  have h2: "side_head d b2 = side_head d b0" "price_orders_at_prices b2 = price_orders_at_prices b0"
    "cid_oid_to_order b2 = cid_oid_to_order b0" "live (order_pool b2) = insert a (live (order_pool b0))"
    "pool_wf (order_pool b2)" "pool_size (order_pool b2) = pool_size (order_pool b0)"
    "same_rest b0 b2" "orders_at_price_pool b2 = lp" for d
    using P by (simp_all add: b2_def view_simps)
  let ?U = "map fst us" and ?V = "map fst vs"
  have sr: "side_rep (me_view b0) sd (us @ vs)" using ladder_side_rep[OF r sd] S by simp
  have UV: "set (?U @ ?V) \<subseteq> live (orders_at_price_pool b0)" using live(1) S by auto
  have lUV: "l \<notin> set (?U @ ?V)" using UV al(2) by blast
  have new: "l_side (lvl_at b2 l) = sd" "l_price (lvl_at b2 l) = ?p" "l_first (lvl_at b2 l) = Some a"
    by (simp_all add: lv2 MEOrdersAtPrice_ctor_def)
  have keep: "lvl_at b2 m = lvl_at b0 m" if "m \<in> live (orders_at_price_pool b0)" for m
    using that al(2) lv2 by auto
  have keepU: "lvl_at b2 (fst y) = lvl_at b0 (fst y)" if "y \<in> set us \<union> set vs" for y
    by (rule keep) (use that live(1) S in auto)
  obtain b3 where b3: "add_level fw l b2 = Inr b3"
    "links_only (b2\<lparr>price_orders_at_prices :=
        (price_orders_at_prices b2)(pidx (l_price (lvl_at b2 l)) := Some l)\<rparr>) b3"
    "circ (\<lambda>m. l_next (lvl_at b3 m)) (\<lambda>m. l_prev (lvl_at b3 m)) (?U @ l # ?V)"
    "\<And>m. m \<notin> set (?U @ l # ?V) \<Longrightarrow> l_next (lvl_at b3 m) = l_next (lvl_at b2 m)
       \<and> l_prev (lvl_at b3 m) = l_prev (lvl_at b2 m)"
    "side_head sd b3 = Some (hd (?U @ [l]))" "side_head (opp sd) b3 = side_head (opp sd) b2"
  proof (rule add_level_ok[of b2 l sd ?U ?V])
    show "side_head sd b2 = (case ?U @ ?V of [] \<Rightarrow> None | x # _ \<Rightarrow> Some x)"
      using side_repD(1)[OF sr] h2(1) by (auto split: list.splits simp flip: map_append)
    show "circ (\<lambda>m. l_next (lvl_at b2 m)) (\<lambda>m. l_prev (lvl_at b2 m)) (?U @ ?V)" if "?U @ ?V \<noteq> []"
    proof (rule circ_cong)
      show "circ (eN (me_view b0)) (eP (me_view b0)) (?U @ ?V)"
        using side_repD(2)[OF sr] that by simp
    qed (use UV keep in auto)
    show "\<forall>u \<in> set ?U. better sd (l_price (lvl_at b2 u)) (l_price (lvl_at b2 l))"
      using up keepU new by auto
    show "\<forall>v \<in> set ?V. better sd (l_price (lvl_at b2 l)) (l_price (lvl_at b2 v))"
      using dn keepU new by auto
    show "fits sd (length ?U) (length ?V)" using fit by simp
  qed (use new sd lUV in blast)+
  have L3: "order_pool b3 = order_pool b2" "cid_oid_to_order b3 = cid_oid_to_order b0"
    "price_orders_at_prices b3 = (price_orders_at_prices b0)(pidx ?p := Some l)" "same_rest b0 b3"
    "live (orders_at_price_pool b3) = insert l (live (orders_at_price_pool b0))"
    "pool_wf (orders_at_price_pool b3)" "pool_size (orders_at_price_pool b3) = ME_MAX_PRICE_LEVELS"
    using links_only_tableD[OF b3(2)] new al h2(2,3,7,8) same_rest_trans[OF h2(7)] by simp_all
  have L3v: "l_price (lvl_at b3 m) = l_price (lvl_at b2 m) \<and> l_side (lvl_at b3 m) = l_side (lvl_at b2 m)
      \<and> l_first (lvl_at b3 m) = l_first (lvl_at b2 m)" for m
    using links_only_tableD[OF b3(2)] by simp
  have o3: "ord_at b3 = ord_at b2" using L3(1) by (simp add: ord_at_def[abs_def])
  have ids: "ids_ok (ord_at b3 a)" "odata (ord_at b3 z) = odata (ord_at b z)" for z
    using x(2) P(5) by (simp_all add: o3 od2 ids_ok_def)
  have idf: "o_client_id (ord_at b3 z) = o_client_id (ord_at b z)"
    "o_client_order_id (ord_at b3 z) = o_client_order_id (ord_at b z)" for z
    using P(5)[of z] by (simp_all add: o3 od2)
  have cid: "cid_rep b3 (live (order_pool b3) - {a})"
    using placed_cid_rep[OF pl me_repD(3)[OF rep]] P(2,9)
    unfolding cid_rep_def idf L3(1,2) h2(4) by simp
  have fr3: "cid_oid_to_order b3 (unat (o_client_id (ord_at b3 a)))
      (unat (o_client_order_id (ord_at b3 a))) = None"
    using fresh P(5)[of a] unfolding idf L3(2) by simp
  obtain b4 where b4:
    "set_cid_oid (o_client_id (ord_at b3 a)) (o_client_order_id (ord_at b3 a)) (Some a) b3 = Inr b4"
    "cid_ok b4" "order_pool b4 = order_pool b3" "orders_at_price_pool b4 = orders_at_price_pool b3"
    "price_orders_at_prices b4 = price_orders_at_prices b3" "\<And>d. side_head d b4 = side_head d b3"
    "same_rest b3 b4"
    by (rule addOrder_tail[OF ids(1) cid _ fr3]) (use L3(1) h2(4) in auto)
  have o4: "ord_at b4 = ord_at b2" and l4: "lvl_at b4 = lvl_at b3"
    using b4(3,4) o3 by (simp_all add: ord_at_def[abs_def] lvl_at_def[abs_def])
  have eq: "addOrder_with (add_level fw) a b = Inr b4"
    using b4(1) b3(1) fr al(1) P(5,8,10) x(1)
    unfolding b2_def by (simp add: addOrder_with_def Let_def view_simps)
  have "ladder_rep (me_view b4) (S(sd := us @ (l, [a]) # vs))"
  proof (rule ladder_open[OF r sd S])
    show "circ (eN (me_view b4)) (eP (me_view b4)) (?U @ l # ?V)"
      using b3(3) l4 by (simp add: me_view_def)
    show "eN (me_view b4) m = eN (me_view b0) m \<and> eP (me_view b4) m = eP (me_view b0) m"
      if "m \<in> fst ` set (S (opp sd))" for m
    proof -
      have "m \<in> live (orders_at_price_pool b0)" using that live(1) by auto
      moreover have "m \<notin> set (?U @ l # ?V)"
        using other_side_level(2)[OF r sd that] S al(2) \<open>m \<in> live _\<close> by auto
      ultimately show ?thesis using b3(4) keep l4 by simp
    qed
    show "same_ord (me_view b0) (me_view b4) z" if "z \<in> liveO (me_view b0)" for z
      using that P(1) od2 o4 by (auto simp: same_ord_def)
  qed (use x(1) P(1) L3(1,3,5) L3v new keep b3(5,6) b4(3-6) l4 o4 od2 h2(1,4) al(2) fr up dn
      in simp_all)
  moreover have "pools_ok b4"
    using me_repD(2)[OF rep] b4 L3 h2 by (simp add: pools_ok_def)
  moreover have "ids_ok (ord_at b4 z)" if "z \<in> live (order_pool b4)" for z
    using me_repD(4)[OF rep, of z] that b4(3) L3(1) h2(4) od2 x(2) o4 ids(1) o3 by auto
  ultimately have "me_rep b4 (S(sd := us @ (l, [a]) # vs))"
    using b4(2) by (simp add: me_rep_def)
  then show thesis
  proof (rule that[OF eq])
    show "same_rest b0 b4" using L3(4) b4(7) by (rule same_rest_trans)
    show "odata (ord_at b4 z) = odata (ord_at b z)" for z using ids(2) o4 o3 by simp
    show "l_price (lvl_at b4 m) = l_price (lvl_at b0 m)" if "m \<in> live (orders_at_price_pool b0)" for m
      using L3v keep[OF that] l4 by simp
    show "l_price (lvl_at b4 l) = o_price x" using L3v new l4 by simp
  qed
qed

end

end
