(* ===== verification/MEMatching.thy ===== *)
theory MEMatching
  imports MEOrderBookAdd
begin

text \<open>
  \<open>match\<close> and \<open>checkForMatch\<close> of the matching engine's book refine the sweep of \<open>BookSpec\<close>: on
  any well-formed book they return, leave the book the sweep describes and push exactly the
  messages of its fills, in order, on the engine's two queues.
\<close>

section \<open>The abstraction of a book\<close>

definition abs_lv :: "'z book \<Rightarrow> level \<Rightarrow> alevel" where
  "abs_lv b x = (l_price (lvl_at b (fst x)), map (\<lambda>a. odata (ord_at b a)) (snd x))"

definition book_abs :: "'z book \<Rightarrow> levels \<Rightarrow> abook" where
  "book_abs b S = (\<lambda>sd. map (abs_lv b) (S sd))"

definition me_refines :: "'z book \<Rightarrow> abook \<Rightarrow> bool" where
  "me_refines b A \<longleftrightarrow> (\<exists>S. me_rep b S \<and> A = book_abs b S)"

lemma book_abs_side: "book_abs b S sd = map (abs_lv b) (S sd)"
  by (simp add: book_abs_def)

lemma me_refinesI: "me_rep b S \<Longrightarrow> A = book_abs b S \<Longrightarrow> me_refines b A"
  by (auto simp: me_refines_def)

text \<open>An empty new book, when its tables happen to be zeroed.\<close>

lemma MEOrderBook_ctor_refines:
  assumes "\<And>i. i < ME_MAX_PRICE_LEVELS \<Longrightarrow> raw_px i = None"
    and "\<And>c i. c < ME_MAX_NUM_CLIENTS \<Longrightarrow> i < ME_MAX_ORDER_IDS \<Longrightarrow> raw_cid c i = None"
  shows "me_refines (MEOrderBook_ctor raw_cid raw_px t) (\<lambda>_. [])"
  by (rule me_refinesI[OF MEOrderBook_ctor_rep[OF assms]]) (simp_all add: book_abs_def)

lemma book_abs_upd:
  assumes "\<And>a. odata (ord_at b' a) = odata (ord_at b a)"
    and "\<And>m. l_price (lvl_at b' m) = l_price (lvl_at b m)"
  shows "book_abs b' (S(sd := L)) = (book_abs b S)(sd := map (abs_lv b) L)"
  using assms by (auto simp: book_abs_def abs_lv_def fun_eq_iff)

text \<open>The views decide the invariant: messages and queues do not matter.\<close>

definition same_core :: "'y book \<Rightarrow> 'z book \<Rightarrow> bool" where
  "same_core b b' \<longleftrightarrow> order_pool b' = order_pool b
     \<and> orders_at_price_pool b' = orders_at_price_pool b
     \<and> price_orders_at_prices b' = price_orders_at_prices b
     \<and> bids_by_price b' = bids_by_price b \<and> asks_by_price b' = asks_by_price b
     \<and> cid_oid_to_order b' = cid_oid_to_order b"

lemma same_core_eqs:
  assumes "same_core b b'"
  shows "ord_at b' = ord_at b" "lvl_at b' = lvl_at b" "side_head sd b' = side_head sd b"
    "me_rep b' S = me_rep b S" "book_abs b' S = book_abs b S" "me_refines b' A = me_refines b A"
proof -
  show o: "ord_at b' = ord_at b" and l: "lvl_at b' = lvl_at b"
    and h: "side_head sd b' = side_head sd b" for sd
    using assms by (auto simp: same_core_def ord_at_def lvl_at_def side_head_def fun_eq_iff)
  have "me_view b' = me_view b"
    using assms by (simp add: me_view_def o l h same_core_def)
  then show r: "me_rep b' S = me_rep b S" for S
    using assms by (simp add: me_rep_def pools_ok_def cid_ok_def cid_rep_def o same_core_def)
  show e: "book_abs b' S = book_abs b S" for S
    by (simp add: book_abs_def abs_lv_def[abs_def] o l)
  show "me_refines b' A = me_refines b A" by (simp add: me_refines_def r e)
qed

text \<open>Filling an order in place.\<close>

lemma me_rep_set_qty:
  assumes "me_rep b S"
  shows "me_rep (set_ord a (\<lambda>x. x\<lparr>o_qty := f x\<rparr>) b) S"
proof -
  let ?b = "set_ord a (\<lambda>x. x\<lparr>o_qty := f x\<rparr>) b"
  have o: "ord_at ?b z = (ord_at b z)\<lparr>o_qty := (if z = a then f (ord_at b a) else o_qty (ord_at b z))\<rparr>" for z
    by (simp add: view_simps)
  have "ladder_rep (me_view ?b) S"
    by (rule ladder_rep_cong[OF me_repD(1)[OF assms]])
      (simp_all add: same_lvl_def same_ord_def view_simps)
  moreover have "cid_ok ?b"
    using me_repD(3)[OF assms] by (simp add: cid_ok_def cid_rep_def o) (simp add: view_simps)
  moreover have "ids_ok (ord_at ?b z) = ids_ok (ord_at b z)" for z
    by (simp add: o ids_ok_def)
  ultimately show ?thesis
    using me_repD(2,4)[OF assms] by (simp add: me_rep_def pools_ok_def view_simps)
qed

section \<open>Messages\<close>

definition queues_ok :: "MEContext \<Rightarrow> bool" where
  "queues_ok s \<longleftrightarrow> lfq_wf (outgoing_ogw_responses s) \<and> lfq_wf (outgoing_md_updates s)"

text \<open>\<open>s'\<close> is \<open>s\<close> after the responses \<open>rs\<close> and the updates \<open>us\<close> went out.\<close>

definition sent :: "MEClientResponse list \<Rightarrow> MEMarketUpdate list \<Rightarrow> MEContext \<Rightarrow> MEContext \<Rightarrow> bool" where
  "sent rs us s s' \<longleftrightarrow>
     fold_res lfq_push rs (outgoing_ogw_responses s) = Inr (outgoing_ogw_responses s')
     \<and> fold_res lfq_push us (outgoing_md_updates s) = Inr (outgoing_md_updates s')
     \<and> next_market_order_id s' = next_market_order_id s \<and> ticker_id s' = ticker_id s
     \<and> queues_ok s'"

lemma sent_none: "queues_ok s \<Longrightarrow> sent [] [] s s"
  by (simp add: sent_def)

lemma sent_trans: "sent rs us s t \<Longrightarrow> sent rs' us' t u \<Longrightarrow> sent (rs @ rs') (us @ us') s u"
  by (auto simp: sent_def fold_res_append)

lemma sent_queues: "sent rs us s t \<Longrightarrow> queues_ok t"
  by (simp add: sent_def)

lemma sendClientResponse_ok:
  assumes "queues_ok s"
  obtains s' where "sendClientResponse r s = Inr s'" "sent [r] [] s s'" "same_core s s'"
    "market_update s' = market_update s" "client_response s' = client_response s"
proof -
  obtain q where q: "lfq_push r (outgoing_ogw_responses s) = Inr q" "lfq_wf q"
    using lfq_push_wf assms unfolding queues_ok_def by metis
  then show thesis
    using assms
    by (intro that[of "s\<lparr>outgoing_ogw_responses := q\<rparr>"])
      (simp_all add: sendClientResponse_def sent_def queues_ok_def same_core_def)
qed

lemma sendMarketUpdate_ok:
  assumes "queues_ok s"
  obtains s' where "sendMarketUpdate u s = Inr s'" "sent [] [u] s s'" "same_core s s'"
    "market_update s' = market_update s" "client_response s' = client_response s"
proof -
  obtain q where q: "lfq_push u (outgoing_md_updates s) = Inr q" "lfq_wf q"
    using lfq_push_wf assms unfolding queues_ok_def by metis
  then show thesis
    using assms
    by (intro that[of "s\<lparr>outgoing_md_updates := q\<rparr>"])
      (simp_all add: sendMarketUpdate_def sent_def queues_ok_def same_core_def)
qed

lemma same_core_trans: "same_core a b \<Longrightarrow> same_core b c \<Longrightarrow> same_core a c"
  by (simp add: same_core_def)

lemma respond_ok:
  assumes "queues_ok s"
  obtains s' where "respond r s = Inr s'" "sent [r] [] s s'" "same_core s s'"
proof -
  let ?s = "s\<lparr>client_response := r\<rparr>"
  have "queues_ok ?s" using assms by (simp add: queues_ok_def)
  then obtain s' where s': "sendClientResponse r ?s = Inr s'" "sent [r] [] ?s s'" "same_core ?s s'"
    by (rule sendClientResponse_ok)
  show thesis
    by (rule that[of s']) (use s' in \<open>auto simp: respond_def sent_def same_core_def\<close>)
qed

lemma publish_ok:
  assumes "queues_ok s"
  obtains s' where "publish u s = Inr s'" "sent [] [u] s s'" "same_core s s'"
proof -
  let ?s = "s\<lparr>market_update := u\<rparr>"
  have "queues_ok ?s" using assms by (simp add: queues_ok_def)
  then obtain s' where s': "sendMarketUpdate u ?s = Inr s'" "sent [] [u] ?s s'" "same_core ?s s'"
    by (rule sendMarketUpdate_ok)
  show thesis
    by (rule that[of s']) (use s' in \<open>auto simp: publish_def sent_def same_core_def\<close>)
qed

text \<open>Steps that leave the queues alone.\<close>

lemma same_rest_sent:
  assumes "same_rest s s'" "queues_ok s"
  shows "sent [] [] s s'" "queues_ok s'"
  using assms by (cases s; cases s'; auto simp: sent_def same_rest_def queues_ok_def)+


section \<open>One fill\<close>

lemma abs_lv_same:
  assumes "\<And>a. a \<in> set (snd x) \<Longrightarrow> odata (ord_at b' a) = odata (ord_at b a)"
    and "l_price (lvl_at b' (fst x)) = l_price (lvl_at b (fst x))"
  shows "abs_lv b' x = abs_lv b x"
  using assms by (simp add: abs_lv_def)

lemma book_abs_set_qty:
  assumes rep: "me_rep b S" and sd: "sd = BUY \<or> sd = SELL" and S: "S sd = (l, a # as) # vs"
    and b': "b' = set_ord a (\<lambda>x. x\<lparr>o_qty := f x\<rparr>) b"
  shows "book_abs b' S = (book_abs b S)(sd := (l_price (lvl_at b l),
      (odata (ord_at b a))\<lparr>a_qty := f (ord_at b a)\<rparr> # map (\<lambda>x. odata (ord_at b x)) as)
      # map (abs_lv b) vs)"
proof -
  note r = me_repD(1)[OF rep]
  have sr: "side_rep (me_view b) sd ([] @ (l, a # as) # vs)" using ladder_side_rep[OF r sd] S by simp
  have od: "odata (ord_at b' x) = odata (ord_at b x)" if "x \<noteq> a" for x
    using that by (simp add: b' view_simps)
  have lv: "lvl_at b' = lvl_at b" by (simp add: b' view_simps)
  have oa: "odata (ord_at b' a) = (odata (ord_at b a))\<lparr>a_qty := f (ord_at b a)\<rparr>"
    by (simp add: b' view_simps odata_def)
  have "a \<notin> set as" using lvl_repD(5)[OF side_repD(3)[OF sr, of "(l, a # as)"]] by simp
  then have "map (\<lambda>x. odata (ord_at b' x)) as = map (\<lambda>x. odata (ord_at b x)) as"
    by (intro map_cong[OF refl] od) blast
  then have hd: "abs_lv b' (l, a # as) = (l_price (lvl_at b l),
      (odata (ord_at b a))\<lparr>a_qty := f (ord_at b a)\<rparr> # map (\<lambda>x. odata (ord_at b x)) as)"
    using oa lv by (simp add: abs_lv_def)
  have tl: "abs_lv b' x = abs_lv b x" if "x \<in> set vs" for x
    by (rule abs_lv_same) (use other_levels(2)[OF sr, of x] that od lv in auto)
  have "map (abs_lv b') (S d) = map (abs_lv b) (S d)" if d: "d \<noteq> sd" for d
  proof (rule map_cong[OF refl abs_lv_same])
    fix x y assume y: "x \<in> set (S d)" "y \<in> set (snd x)"
    moreover from this have "d = BUY \<or> d = SELL" using r by (auto simp: ladder_rep_def)
    ultimately have "y \<in> set (orders_of (S (opp sd)))" using d sd by (auto simp: in_orders_of opp_def)
    then have "y \<notin> set (orders_of (S sd))" by (rule other_side_order(2)[OF r sd])
    then have "y \<noteq> a" using S by auto
    then show "odata (ord_at b' y) = odata (ord_at b y)" by (rule od)
  qed (simp add: lv)
  moreover have "map (abs_lv b') vs = map (abs_lv b) vs" using tl by simp
  ultimately show ?thesis using S hd by (simp add: book_abs_def fun_eq_iff)
qed


text \<open>What is left of a level's queue once its first order has gone.\<close>

definition pop_order :: "alevel list \<Rightarrow> alevel list" where
  "pop_order L = (case L of (p, ao # os) # M \<Rightarrow> (if os = [] then M else (p, os) # M) | _ \<Rightarrow> L)"

lemma pop_order_simp [simp]: "pop_order ((p, ao # os) # M) = (if os = [] then M else (p, os) # M)"
  by (simp add: pop_order_def)

lemma removeOrder_first:
  assumes rep: "me_rep b S" and sd: "sd = BUY \<or> sd = SELL" and S: "S sd = (l, a # as) # vs"
  obtains b' where "removeOrder a b = Inr b'" "same_rest b b'"
    "me_refines b' ((book_abs b S)(sd := pop_order (book_abs b S sd)))"
proof (cases as)
  case Nil
  then have S': "S sd = [] @ (l, [a]) # vs" using S by simp
  obtain b' where b': "removeOrder a b = Inr b'" "me_rep b' (S(sd := [] @ vs))" "same_rest b b'"
    "ord_at b' = ord_at b" "\<And>m. l_price (lvl_at b' m) = l_price (lvl_at b m)"
    by (rule removeOrder_alone[OF rep sd S']) blast
  show thesis
    by (rule that[OF b'(1,3) me_refinesI[OF b'(2)]])
      (use b'(4,5) S Nil in \<open>simp add: book_abs_upd book_abs_side abs_lv_def\<close>)
next
  case (Cons x xs)
  then have S': "S sd = [] @ (l, [] @ a # as) # vs" and ne: "[] @ as \<noteq> []" using S by simp_all
  obtain b' where b': "removeOrder a b = Inr b'" "me_rep b' (S(sd := [] @ (l, [] @ as) # vs))"
    "same_rest b b'" "\<And>x. odata (ord_at b' x) = odata (ord_at b x)"
    "\<And>m. l_price (lvl_at b' m) = l_price (lvl_at b m)"
    by (rule removeOrder_linked[OF rep sd S' ne]) blast
  show thesis
    by (rule that[OF b'(1,3) me_refinesI[OF b'(2)]])
      (use b'(4,5) S Cons in \<open>simp add: book_abs_upd book_abs_side abs_lv_def\<close>)
qed

text \<open>One call of \<open>match\<close>, on the first order of the best level.\<close>

lemma match_order_ok:
  assumes ref: "me_refines s A" and q: "queues_ok s" and sd: "sd = BUY \<or> sd = SELL"
    and A: "A sd = (p, ao # os) # L"
    and f: "f = \<lparr>f_price = p, f_order = ao, f_qty = min q (a_qty ao), f_left = q - min q (a_qty ao)\<rparr>"
  obtains l a s' where "side_head sd s = Some l" "l_first (lvl_at s l) = Some a"
    "o_price (ord_at s a) = p"
    "match_order tid cid side coid moid a q s = Inr (f_left f, s')"
    "sent (fill_responses tid cid side coid moid sd f) (fill_updates tid side sd f) s s'"
    "me_refines s' (A(sd := (if q < a_qty ao then (p, ao\<lparr>a_qty := a_qty ao - q\<rparr> # os) # L
                             else pop_order (A sd))))"
proof -
  obtain S where rep: "me_rep s S" and AS: "A = book_abs s S"
    using ref by (auto simp: me_refines_def)
  obtain l a as vs where S: "S sd = (l, a # as) # vs" and e: "l_price (lvl_at s l) = p"
    "odata (ord_at s a) = ao" "map (\<lambda>x. odata (ord_at s x)) as = os" "map (abs_lv s) vs = L"
    using A by (auto simp: AS book_abs_def abs_lv_def map_eq_Cons_conv)
  note r = me_repD(1)[OF rep]
  have lr: "lvl_rep (me_view s) sd (l, a # as)"
    by (rule ladder_lvl_rep[OF r sd]) (simp add: S)
  have head: "side_head sd s = Some l" "l_first (lvl_at s l) = Some a" "o_price (ord_at s a) = p"
    "o_side (ord_at s a) = sd"
    using side_repD(1)[OF ladder_side_rep[OF r sd]] lvl_repD(2)[OF lr]
      lvl_repD(6,7)[OF lr, of a] S e(1) by simp_all
  have ao: "o_client_id (ord_at s a) = a_client ao" "o_client_order_id (ord_at s a) = a_coid ao"
    "o_market_order_id (ord_at s a) = a_moid ao" "o_qty (ord_at s a) = a_qty ao"
    "o_priority (ord_at s a) = a_prio ao"
    using e(2) by (auto simp: odata_def)
  let ?fq = "min q (a_qty ao)"
  define s1 where "s1 = set_ord a (\<lambda>x. x\<lparr>o_qty := o_qty x - ?fq\<rparr>) s"
  have s1: "ord_at s1 a = (ord_at s a)\<lparr>o_qty := a_qty ao - ?fq\<rparr>" "queues_ok s1" "sent [] [] s s1"
    "me_rep s1 S"
    using q me_rep_set_qty[OF rep]
    by (simp_all add: s1_def view_simps ao(4) queues_ok_def sent_def) (simp_all add: set_ord_def)
  have abs1: "book_abs s1 S = A(sd := (p, ao\<lparr>a_qty := a_qty ao - ?fq\<rparr> # os) # L)"
    using book_abs_set_qty[OF rep sd S s1_def] e ao(4) by (simp add: AS)
  let ?r1 = "\<lparr>rs_type = CRS_FILLED, rs_client_id = cid, rs_ticker_id = tid,
                  rs_client_order_id = coid, rs_market_order_id = moid, rs_side = side,
                  rs_price = p, rs_exec_qty = ?fq, rs_leaves_qty = q - ?fq\<rparr>"
  obtain s2 where s2: "respond ?r1 s1 = Inr s2" "sent [?r1] [] s1 s2" "same_core s1 s2"
    by (rule respond_ok[OF s1(2)])
  let ?r2 = "\<lparr>rs_type = CRS_FILLED, rs_client_id = a_client ao, rs_ticker_id = tid,
                  rs_client_order_id = a_coid ao, rs_market_order_id = a_moid ao, rs_side = sd,
                  rs_price = p, rs_exec_qty = ?fq, rs_leaves_qty = a_qty ao - ?fq\<rparr>"
  obtain s3 where s3: "respond ?r2 s2 = Inr s3" "sent [?r2] [] s2 s3" "same_core s2 s3"
    by (rule respond_ok[OF sent_queues[OF s2(2)]])
  let ?u1 = "\<lparr>mu_type = MUT_TRADE, mu_order_id = OrderId_INVALID, mu_ticker_id = tid,
                  mu_side = side, mu_price = p, mu_qty = ?fq, mu_priority = Priority_INVALID\<rparr>"
  obtain s4 where s4: "publish ?u1 s3 = Inr s4" "sent [] [?u1] s3 s4" "same_core s3 s4"
    by (rule publish_ok[OF sent_queues[OF s3(2)]])
  have sent4: "sent [?r1, ?r2] [?u1] s s4"
    using sent_trans[OF sent_trans[OF sent_trans[OF s1(3) s2(2)] s3(2)] s4(2)] by simp
  have core4: "same_core s1 s4" using s2(3) s3(3) s4(3) same_core_trans by blast
  show thesis
  proof (cases "q < a_qty ao")
    case True
    then have ne: "a_qty ao - ?fq \<noteq> 0" and mn: "?fq = q" by (auto simp: min_def)
    let ?u2 = "\<lparr>mu_type = MUT_MODIFY, mu_order_id = a_moid ao,
                       mu_ticker_id = tid, mu_side = sd, mu_price = p,
                       mu_qty = a_qty ao - ?fq, mu_priority = a_prio ao\<rparr>"
    obtain s5 where s5: "publish ?u2 s4 = Inr s5" "sent [] [?u2] s4 s5" "same_core s4 s5"
      by (rule publish_ok[OF sent_queues[OF s4(2)]])
    have eq: "match_order tid cid side coid moid a q s = Inr (q - ?fq, s5)"
      using s2(1) s3(1) s4(1) s5(1) ne s1(1) head ao
      by (simp add: match_order_def Let_def s1_def[symmetric])
    have "me_refines s5 (A(sd := (p, ao\<lparr>a_qty := a_qty ao - q\<rparr> # os) # L))"
      using me_refinesI[OF s1(4) refl] abs1 mn same_core_eqs(6)[OF same_core_trans[OF core4 s5(3)]]
      by simp
    moreover have "sent ([?r1, ?r2] @ []) ([?u1] @ [?u2]) s s5" using sent_trans[OF sent4 s5(2)] .
    ultimately show thesis
      by (intro that[OF head(1-3), of s5])
        (use eq f True mn in \<open>auto simp: fill_responses_def fill_updates_def\<close>)
  next
    case False
    then have mn: "?fq = a_qty ao" by (simp add: min_def)
    let ?u2 = "\<lparr>mu_type = MUT_CANCEL, mu_order_id = a_moid ao,
                       mu_ticker_id = tid, mu_side = sd, mu_price = p,
                       mu_qty = a_qty ao, mu_priority = Priority_INVALID\<rparr>"
    obtain s5 where s5: "publish ?u2 s4 = Inr s5" "sent [] [?u2] s4 s5" "same_core s4 s5"
      by (rule publish_ok[OF sent_queues[OF s4(2)]])
    have core5: "same_core s1 s5" using same_core_trans[OF core4 s5(3)] .
    then have rep5: "me_rep s5 S" using s1(4) same_core_eqs(4) by blast
    obtain s6 where s6: "removeOrder a s5 = Inr s6" "same_rest s5 s6"
      "me_refines s6 ((book_abs s5 S)(sd := pop_order (book_abs s5 S sd)))"
      by (rule removeOrder_first[OF rep5 sd S])
    have abs5: "book_abs s5 S = A(sd := (p, ao\<lparr>a_qty := a_qty ao - ?fq\<rparr> # os) # L)"
      using same_core_eqs(5)[OF core5] abs1 by simp
    have s1': "set_ord a (\<lambda>x. x\<lparr>o_qty := o_qty x - a_qty ao\<rparr>) s = s1"
      by (simp add: s1_def mn)
    have eq: "match_order tid cid side coid moid a q s = Inr (q - ?fq, s6)"
      using s2(1) s3(1) s4(1) s5(1) s6(1) mn s1(1) head ao
      by (simp add: match_order_def Let_def s1' cong: if_cong)
    have "sent ([?r1, ?r2] @ [] @ []) ([?u1] @ [?u2] @ []) s s6"
      using sent_trans[OF sent4 sent_trans[OF s5(2) same_rest_sent(1)[OF s6(2) sent_queues[OF s5(2)]]]] .
    then show thesis
      by (intro that[OF head(1-3), of s6])
        (use eq f False mn s6(3) abs5 A in \<open>auto simp: fill_responses_def fill_updates_def\<close>)
  qed
qed


section \<open>The loop\<close>

lemma me_refines_nonempty:
  assumes "me_refines b A" "sd = BUY \<or> sd = SELL" "(p, os) \<in> set (A sd)"
  shows "os \<noteq> []"
proof -
  obtain S where rep: "me_rep b S" and AS: "A = book_abs b S"
    using assms(1) by (auto simp: me_refines_def)
  then obtain l as where "(l, as) \<in> set (S sd)" "os = map (\<lambda>a. odata (ord_at b a)) as"
    using assms(3) by (auto simp: book_abs_def abs_lv_def)
  moreover from this have "as \<noteq> []"
    using lvl_repD(4)[OF ladder_lvl_rep[OF me_repD(1)[OF rep] assms(2)]] by blast
  ultimately show ?thesis by simp
qed

lemma me_refines_head:
  assumes "me_refines b A" "sd = BUY \<or> sd = SELL"
  shows "side_head sd b = None \<longleftrightarrow> A sd = []"
proof -
  obtain S where rep: "me_rep b S" and AS: "A = book_abs b S"
    using assms(1) by (auto simp: me_refines_def)
  have "side_head sd b = (case S sd of [] \<Rightarrow> None | x # xs \<Rightarrow> Some (fst x))"
    using ladder_best[OF me_repD(1)[OF rep] assms(2)] by simp
  then show ?thesis by (auto simp: AS book_abs_def split: list.splits)
qed

lemma match_loop_ok:
  assumes "me_refines s A" "queues_ok s" "sd = BUY \<or> sd = SELL"
    and "sweep crosses q (A sd) = (q', M, fs)"
  shows "\<exists>s'. match_loop (side_head sd) crosses (match_order tid cid side coid moid) q s
        = Some (Inr (q', s'))
     \<and> sent (concat (map (fill_responses tid cid side coid moid sd) fs))
         (concat (map (fill_updates tid side sd) fs)) s s'
     \<and> me_refines s' (A(sd := M))"
  using assms(4,1,2)
proof (induction crosses q "A sd" arbitrary: A s q' M fs rule: sweep.induct)
  case (1 crosses q)
  then have "side_head sd s = None" using me_refines_head assms(3) by metis
  then show ?case
    using 1 sent_none by (subst match_loop.simps) (auto simp: fun_upd_idem)
next
  case (2 crosses q p L)
  then have False using me_refines_nonempty[OF "2.prems"(2) assms(3), of p "[]"] by (metis list.set_intros(1))
  then show ?case ..
next
  case (3 crosses q p ao os L)
  note A = "3.hyps"(2)[symmetric]
  let ?f = "\<lparr>f_price = p, f_order = ao, f_qty = min q (a_qty ao), f_left = q - min q (a_qty ao)\<rparr>"
  obtain l a s1 where s1: "side_head sd s = Some l" "l_first (lvl_at s l) = Some a"
    "o_price (ord_at s a) = p"
    "match_order tid cid side coid moid a q s = Inr (f_left ?f, s1)"
    "sent (fill_responses tid cid side coid moid sd ?f) (fill_updates tid side sd ?f) s s1"
    "me_refines s1 (A(sd := (if q < a_qty ao then (p, ao\<lparr>a_qty := a_qty ao - q\<rparr> # os) # L
                             else pop_order (A sd))))"
    by (rule match_order_ok[OF "3.prems"(2,3) assms(3) A refl]) blast
  have step: "match_loop (side_head sd) crosses (match_order tid cid side coid moid) q s
     = (if q = 0 \<or> \<not> crosses p then Some (Inr (q, s))
        else match_loop (side_head sd) crosses (match_order tid cid side coid moid) (f_left ?f) s1)"
    using s1 by (subst match_loop.simps) simp
  show ?case
  proof (cases "q = 0 \<or> \<not> crosses p")
    case True
    then have "M = A sd" "fs = []" "q' = q" using "3.prems"(1) A by auto
    then show ?thesis
      using step True "3.prems"(2) sent_none[OF "3.prems"(3)] by (auto simp: fun_upd_idem)
  next
    case nstop: False
    show ?thesis
    proof (cases "q < a_qty ao")
      case True
      then have mn: "min q (a_qty ao) = q" by simp
      have "M = (p, ao\<lparr>a_qty := a_qty ao - q\<rparr> # os) # L" "q' = 0" "fs = [?f]"
        using "3.prems"(1) A nstop True by auto
      moreover have "match_loop (side_head sd) crosses (match_order tid cid side coid moid) 0 s1
         = Some (Inr (0, s1))" by (subst match_loop.simps) simp
      ultimately show ?thesis using step nstop s1(5,6) True mn by auto
    next
      case False
      then have mn: "min q (a_qty ao) = a_qty ao" by simp
      let ?A = "A(sd := pop_order (A sd))"
      have pop: "pop_order (A sd) = (if os = [] then L else (p, os) # L)" by (simp add: A)
      obtain fs1 where fs: "sweep crosses (q - a_qty ao) (pop_order (A sd)) = (q', M, fs1)"
        "fs = ?f # fs1"
        using "3.prems"(1) nstop False mn by (auto simp: A split: prod.splits)
      have "\<exists>s'. match_loop (side_head sd) crosses (match_order tid cid side coid moid) (q - a_qty ao) s1
            = Some (Inr (q', s'))
         \<and> sent (concat (map (fill_responses tid cid side coid moid sd) fs1))
             (concat (map (fill_updates tid side sd) fs1)) s1 s'
         \<and> me_refines s' (?A(sd := M))"
        by (rule "3.hyps"(1)) (use nstop False pop fs s1(6) sent_queues[OF s1(5)] in auto)
      then obtain s' where s': "match_loop (side_head sd) crosses (match_order tid cid side coid moid)
          (q - a_qty ao) s1 = Some (Inr (q', s'))"
        "sent (concat (map (fill_responses tid cid side coid moid sd) fs1))
             (concat (map (fill_updates tid side sd) fs1)) s1 s'" "me_refines s' (?A(sd := M))"
        by blast
      have "sent (concat (map (fill_responses tid cid side coid moid sd) fs))
             (concat (map (fill_updates tid side sd) fs)) s s'"
        using sent_trans[OF s1(5) s'(2)] fs(2) by simp
      then show ?thesis using step nstop s' mn by auto
    qed
  qed
qed

text \<open>\<open>checkForMatch\<close> against the side the incoming order meets.\<close>

lemma checkForMatch_ok:
  assumes ref: "me_refines s A" and q: "queues_ok s" and sd: "side = BUY \<or> side = SELL"
    and sw: "sweep (crosses_at side price) qty (A (opp side)) = (q', M, fs)"
    and m: "m = ucast (ucast moid :: Qty)"
  shows "\<exists>s'. checkForMatch cid coid tid side price qty moid s = Inr (q', s')
     \<and> sent (concat (map (fill_responses tid cid side coid m (opp side)) fs))
         (concat (map (fill_updates tid side (opp side)) fs)) s s'
     \<and> me_refines s' (A(opp side := M))"
proof -
  have hd: "asks_by_price = (side_head SELL :: MEContext \<Rightarrow> ptr)"
    "bids_by_price = (side_head BUY :: MEContext \<Rightarrow> ptr)"
    by (simp_all add: fun_eq_iff side_head_def)
  have "(\<lambda>p. \<not> price < p) = crosses_at BUY price" "(\<lambda>p. \<not> price > p) = crosses_at SELL price"
    by (auto simp: fun_eq_iff crosses_at_def)
  then have "checkForMatch cid coid tid side price qty moid s
     = returned (match_loop (side_head (opp side)) (crosses_at side price)
         (match_order tid cid side coid m) qty s)"
    using sd m by (auto simp: checkForMatch_def Let_def hd)
  then show ?thesis
    using match_loop_ok[OF ref q _ sw, of tid cid side coid m] opp_simps(4) by fastforce
qed

end
