(* ===== verification/MEOrderBookOps.thy ===== *)
theory MEOrderBookOps
  imports MEMatching
begin

text \<open>
  \<open>add\<close> and \<open>cancel\<close> of the matching engine's book against the specification: which messages
  go out and what the book is afterwards. \<open>can_rest\<close> collects what the code takes for
  granted about an order that comes to rest: no other price shares its slot of the price
  table, the pools have room, its ids are within the tables and unused, and it is not a new
  best ask over two or more ask levels.
\<close>

section \<open>Reading the abstraction\<close>

lemma book_levels_side: "sd = BUY \<or> sd = SELL \<Longrightarrow> x \<in> set (A sd) \<Longrightarrow> x \<in> set (book_levels A)"
  by (auto simp: book_levels_def)

lemma orders_abs: "concat (map snd (map (abs_lv b) L)) = map (\<lambda>a. odata (ord_at b a)) (orders_of L)"
  by (induction L) (auto simp: abs_lv_def)

lemma book_orders_abs:
  assumes "me_rep b S"
  shows "set (book_orders (book_abs b S)) = (\<lambda>a. odata (ord_at b a)) ` live (order_pool b)"
    and "length (book_orders (book_abs b S)) = card (live (order_pool b))"
    and "length (book_levels (book_abs b S)) = card (live (orders_at_price_pool b))"
  using ladder_live(2)[OF me_repD(1)[OF assms], of BUY] ladder_card[OF me_repD(1)[OF assms]]
  by (simp_all add: book_orders_def book_levels_def book_abs_side orders_abs image_Un del: map_map)

lemma me_refines_sorted:
  assumes "me_refines b A" "sd = BUY \<or> sd = SELL"
  shows "prices_sorted sd (A sd)"
proof -
  obtain S where rep: "me_rep b S" and AS: "A = book_abs b S"
    using assms(1) by (auto simp: me_refines_def)
  show ?thesis
    using side_repD(4)[OF ladder_side_rep[OF me_repD(1)[OF rep] assms(2)]]
    by (simp add: AS book_abs_side prices_sorted_def sorted_wrt_map abs_lv_def)
qed

text \<open>An entry of the client table, by ids.\<close>

lemma has_ids_odata: "has_ids cid coid (odata x) \<longleftrightarrow> o_client_id x = cid \<and> o_client_order_id x = coid"
  by (auto simp: has_ids_def odata_def)

lemma cid_lookup:
  assumes rep: "me_rep b S" and "unat cid < ME_MAX_NUM_CLIENTS" "unat coid < ME_MAX_ORDER_IDS"
  shows "cid_oid_to_order b (unat cid) (unat coid) = Some a \<longleftrightarrow>
      a \<in> live (order_pool b) \<and> has_ids cid coid (odata (ord_at b a))"
proof -
  have "cid_oid_to_order b (unat cid) (unat coid) = Some a \<longleftrightarrow> a \<in> live (order_pool b)
      \<and> unat (o_client_id (ord_at b a)) = unat cid
      \<and> unat (o_client_order_id (ord_at b a)) = unat coid"
    using me_repD(3)[OF rep] assms(2,3) unfolding cid_ok_def cid_rep_def by blast
  then show ?thesis by (simp only: has_ids_odata word_unat_eq_iff)
qed

lemma cid_none:
  assumes rep: "me_rep b S" and "unat cid < ME_MAX_NUM_CLIENTS" "unat coid < ME_MAX_ORDER_IDS"
  shows "cid_oid_to_order b (unat cid) (unat coid) = None \<longleftrightarrow>
      (\<forall>ao \<in> set (book_orders (book_abs b S)). \<not> has_ids cid coid ao)"
proof -
  have "cid_oid_to_order b (unat cid) (unat coid) = None
    \<longleftrightarrow> (\<forall>a. cid_oid_to_order b (unat cid) (unat coid) \<noteq> Some a)" by auto
  then show ?thesis
    using cid_lookup[OF assms] book_orders_abs(1)[OF rep] by auto
qed

lemma price_slot:
  assumes rep: "me_rep b S" and nocol: "\<forall>x \<in> set (book_levels (book_abs b S)).
      pidx (fst x) = pidx p \<longrightarrow> fst x = p"
  shows "price_orders_at_prices b (pidx p) = None \<longleftrightarrow>
      (\<forall>x \<in> set (book_levels (book_abs b S)). fst x \<noteq> p)"
    and "price_orders_at_prices b (pidx p) = Some l \<Longrightarrow>
      \<exists>sd us os vs. (sd = BUY \<or> sd = SELL) \<and> S sd = us @ (l, os) # vs \<and> l_price (lvl_at b l) = p"
proof -
  note r = me_repD(1)[OF rep]
  have slot: "\<exists>sd us os vs. (sd = BUY \<or> sd = SELL) \<and> S sd = us @ (l, os) # vs \<and> l_price (lvl_at b l) = p"
    if px: "price_orders_at_prices b (pidx p) = Some l" for l
  proof -
    obtain sd us os vs where l: "sd = BUY \<or> sd = SELL" "S sd = us @ (l, os) # vs"
      "pidx p = pidx (l_price (lvl_at b l))"
      by (rule ladder_tab_level[OF r, of p l]) (use px in simp_all)
    have "abs_lv b (l, os) \<in> set (book_abs b S sd)" using l(2) by (simp add: book_abs_side)
    then have "abs_lv b (l, os) \<in> set (book_levels (book_abs b S))"
      by (rule book_levels_side[OF l(1)])
    then have "fst (abs_lv b (l, os)) = p" using nocol l(3) by (simp add: abs_lv_def)
    then have "l_price (lvl_at b l) = p" by (simp add: abs_lv_def)
    then show ?thesis using l by blast
  qed
  then show "price_orders_at_prices b (pidx p) = Some l \<Longrightarrow>
      \<exists>sd us os vs. (sd = BUY \<or> sd = SELL) \<and> S sd = us @ (l, os) # vs \<and> l_price (lvl_at b l) = p" .
  show "price_orders_at_prices b (pidx p) = None \<longleftrightarrow>
      (\<forall>x \<in> set (book_levels (book_abs b S)). fst x \<noteq> p)"
  proof
    assume none: "price_orders_at_prices b (pidx p) = None"
    show "\<forall>x \<in> set (book_levels (book_abs b S)). fst x \<noteq> p"
    proof (intro ballI notI)
      fix x assume "x \<in> set (book_levels (book_abs b S))" "fst x = p"
      then obtain y where y: "y \<in> set (S BUY) \<union> set (S SELL)" "x = abs_lv b y"
        by (auto simp: book_levels_def book_abs_side)
      then have "fst y \<in> live (orders_at_price_pool b)" "l_price (lvl_at b (fst y)) = p"
        using ladder_live(1)[OF r, of BUY] \<open>fst x = p\<close> by (auto simp: abs_lv_def)
      then show False using ladder_tab[OF r] none by (auto simp: tab_rep_def)
    qed
  next
    assume no: "\<forall>x \<in> set (book_levels (book_abs b S)). fst x \<noteq> p"
    show "price_orders_at_prices b (pidx p) = None"
    proof (rule ccontr)
      assume "price_orders_at_prices b (pidx p) \<noteq> None"
      then obtain l where "price_orders_at_prices b (pidx p) = Some l" by auto
      then obtain sd us os vs where l: "sd = BUY \<or> sd = SELL" "S sd = us @ (l, os) # vs"
        "l_price (lvl_at b l) = p" using slot by blast
      have "abs_lv b (l, os) \<in> set (book_abs b S sd)" using l(2) by (simp add: book_abs_side)
      then have "abs_lv b (l, os) \<in> set (book_levels (book_abs b S))"
        by (rule book_levels_side[OF l(1)])
      then have "fst (abs_lv b (l, os)) \<noteq> p" using no by blast
      then show False using l(3) by (simp add: abs_lv_def)
    qed
  qed
qed

section \<open>Coming to rest\<close>

definition can_rest :: "ClientId \<Rightarrow> OrderId \<Rightarrow> Side \<Rightarrow> Price \<Rightarrow> abook \<Rightarrow> bool" where
  "can_rest cid coid side price A \<longleftrightarrow>
     unat cid < ME_MAX_NUM_CLIENTS \<and> unat coid < ME_MAX_ORDER_IDS
     \<and> (\<forall>ao \<in> set (book_orders A). \<not> has_ids cid coid ao)
     \<and> (\<forall>x \<in> set (book_levels A). pidx (fst x) = pidx price \<longrightarrow> fst x = price)
     \<and> length (book_levels A) + 1 < ME_MAX_PRICE_LEVELS
     \<and> length (book_orders A) + 1 < ME_MAX_ORDER_IDS
     \<and> (side = BUY \<or> length (A SELL) \<le> 1 \<or> fst (hd (A SELL)) \<le> price)"

text \<open>The priority of the next order at a price.\<close>

lemma find_level:
  assumes "\<forall>x \<in> set us. better sd (fst x) p"
  shows "find (\<lambda>x. fst x = p) (us @ (p, os) # vs) = Some (p, os)"
  using assms by (induction us) auto

lemma level_at_price:
  assumes rep: "me_rep s S" and AS: "A = book_abs s S" and sd: "side = BUY \<or> side = SELL"
    and nocol: "\<forall>x \<in> set (book_levels A). pidx (fst x) = pidx price \<longrightarrow> fst x = price"
    and opp: "\<forall>x \<in> set (A (opp side)). fst x \<noteq> price"
    and l: "price_orders_at_prices s (pidx price) = Some l"
  obtains us os vs where "S side = us @ (l, os) # vs" "l_price (lvl_at s l) = price"
    "A side = map (abs_lv s) us @ (price, map (\<lambda>a. odata (ord_at s a)) os) # map (abs_lv s) vs"
    "\<forall>x \<in> set (map (abs_lv s) us). better side (fst x) price"
proof -
  obtain d us os vs where d: "d = BUY \<or> d = SELL" "S d = us @ (l, os) # vs"
    "l_price (lvl_at s l) = price"
    using price_slot(2)[OF rep _ l] nocol by (auto simp: AS)
  have "abs_lv s (l, os) \<in> set (A d)" using d(2) by (simp add: AS book_abs_side)
  then have "d = side" using opp d(1,3) sd by (auto simp: opp_def abs_lv_def split: if_splits)
  then have S: "S side = us @ (l, os) # vs" using d(2) by simp
  have Aside: "A side = map (abs_lv s) us @ (price, map (\<lambda>a. odata (ord_at s a)) os) # map (abs_lv s) vs"
    using S d(3) by (simp add: AS book_abs_side abs_lv_def)
  have "prices_sorted side (A side)"
    by (rule me_refines_sorted[OF me_refinesI[OF rep AS] sd])
  then have "\<forall>x \<in> set (map (abs_lv s) us). better side (fst x) price"
    unfolding prices_sorted_def Aside by (auto simp: sorted_wrt_append)
  then show thesis using that S d(3) Aside by blast
qed

lemma getNextPriority_ok:
  assumes rep: "me_rep s S" and AS: "A = book_abs s S" and sd: "side = BUY \<or> side = SELL"
    and nocol: "\<forall>x \<in> set (book_levels A). pidx (fst x) = pidx price \<longrightarrow> fst x = price"
    and opp: "\<forall>x \<in> set (A (opp side)). fst x \<noteq> price"
  shows "getNextPriority price s = Inr (next_prio price (A side))"
proof (cases "price_orders_at_prices s (pidx price)")
  case (Some l)
  obtain us os vs where l: "S side = us @ (l, os) # vs" "l_price (lvl_at s l) = price"
    "A side = map (abs_lv s) us @ (price, map (\<lambda>a. odata (ord_at s a)) os) # map (abs_lv s) vs"
    "\<forall>x \<in> set (map (abs_lv s) us). better side (fst x) price"
    by (rule level_at_price[OF assms Some]) blast
  have lr: "lvl_rep (me_view s) side (l, os)"
    by (rule ladder_lvl_rep[OF me_repD(1)[OF rep] sd]) (simp add: l(1))
  have "o_prev (ord_at s (hd os)) = Some (last os)" "l_first (lvl_at s l) = Some (hd os)"
    using circ_next_last(2)[OF lvl_repD(3)[OF lr]] lvl_repD(2)[OF lr] by simp_all
  then show ?thesis
    using Some lvl_repD(4)[OF lr]
    by (simp add: getNextPriority_def next_prio_def l(3) find_level[OF l(4)] last_map odata_def)
next
  case None
  then have "\<forall>x \<in> set (A side). fst x \<noteq> price"
    using price_slot(1)[OF rep] nocol sd by (auto simp: AS book_levels_def)
  then have "find (\<lambda>x. fst x = price) (A side) = None" by (auto simp: find_None_iff)
  then show ?thesis using None by (simp add: getNextPriority_def next_prio_def)
qed

text \<open>The order in the newly allocated block \<open>a\<close> joins the book: what both books share.\<close>

context level_search
begin

lemma addOrder_enqueues:
  fixes s s1 :: "'z book"
  assumes rep: "me_rep s S" and AS: "A = book_abs s S" and sd: "side = BUY \<or> side = SELL"
    and pl: "placed s a x s1" and x: "o_side x = side" "o_price x = price" "ids_ok x"
    and fresh: "cid_oid_to_order s (unat (o_client_id x)) (unat (o_client_order_id x)) = None"
    and nocol: "\<forall>x \<in> set (book_levels A). pidx (fst x) = pidx price \<longrightarrow> fst x = price"
    and opp: "\<forall>x \<in> set (A (opp side)). fst x \<noteq> price"
    and room: "length (book_levels A) + 1 < ME_MAX_PRICE_LEVELS"
    and fit: "\<And>us vs. A side = us @ vs \<Longrightarrow> \<forall>x \<in> set us. better side (fst x) price
      \<Longrightarrow> \<forall>x \<in> set vs. better side price (fst x) \<Longrightarrow> fits side (length us) (length vs)"
  shows "\<exists>s2. addOrder_with (add_level fw) a s1 = Inr s2 \<and> same_rest s s2
    \<and> me_refines s2 (A(side := enqueue side price (odata x) (A side)))"
proof -
  note r = me_repD(1)[OF rep] and P = placedD[OF pl]
  have od1: "odata (ord_at s1 z) = (if z = a then odata x else odata (ord_at s z))" for z
    using P(5)[of z] by simp
  have sorted: "prices_sorted side (A side)" by (rule me_refines_sorted[OF me_refinesI[OF rep AS] sd])
  have keep: "map (abs_lv s2) (S d) = map (abs_lv s) (S d)"
    if "\<And>z. odata (ord_at s2 z) = odata (ord_at s1 z)"
      "\<And>m. m \<in> live (orders_at_price_pool s) \<Longrightarrow> l_price (lvl_at s2 m) = l_price (lvl_at s m)"
    for s2 :: "'z book" and d
  proof (rule map_cong[OF refl abs_lv_same])
    fix y z assume y: "y \<in> set (S d)" "z \<in> set (snd y)"
    moreover from y have "d = BUY \<or> d = SELL" using r by (auto simp: ladder_rep_def)
    ultimately have "z \<in> live (order_pool s)"
      using ladder_live(2)[OF r, of d] by (auto simp: in_orders_of)
    then show "odata (ord_at s2 z) = odata (ord_at s z)" using that(1) od1 P(1) by auto
  next
    fix y assume y: "y \<in> set (S d)"
    moreover from y have "d = BUY \<or> d = SELL" using r by (auto simp: ladder_rep_def)
    ultimately have "fst y \<in> live (orders_at_price_pool s)" using ladder_live(1)[OF r, of d] by auto
    then show "l_price (lvl_at s2 (fst y)) = l_price (lvl_at s (fst y))" by (rule that(2))
  qed
  have others: "book_abs s2 (S(side := L)) = A(side := map (abs_lv s2) L)"
    if "\<And>z. odata (ord_at s2 z) = odata (ord_at s1 z)"
      "\<And>m. m \<in> live (orders_at_price_pool s) \<Longrightarrow> l_price (lvl_at s2 m) = l_price (lvl_at s m)"
    for s2 :: "'z book" and L
    using keep[OF that] by (simp add: AS book_abs_def fun_eq_iff)
  show ?thesis
  proof (cases "price_orders_at_prices s (pidx price)")
    case (Some l)
    obtain us os vs where l: "S side = us @ (l, os) # vs" "l_price (lvl_at s l) = price"
      "A side = map (abs_lv s) us @ (price, map (\<lambda>a. odata (ord_at s a)) os) # map (abs_lv s) vs"
      "\<forall>x \<in> set (map (abs_lv s) us). better side (fst x) price"
      by (rule level_at_price[OF rep AS sd nocol opp Some]) blast
    obtain s2 where s2: "addOrder_with (add_level fw) a s1 = Inr s2"
      "me_rep s2 (S(side := us @ (l, os @ [a]) # vs))"
      "same_rest s s2" "\<And>z. odata (ord_at s2 z) = odata (ord_at s1 z)"
      "\<And>m. l_price (lvl_at s2 m) = l_price (lvl_at s m)"
      by (rule addOrder_join[OF rep pl sd l(1) x(1) _ x(3)]) (use x l(2) fresh in auto)
    have "map (abs_lv s2) us = map (abs_lv s) us" "map (abs_lv s2) vs = map (abs_lv s) vs"
      "map (\<lambda>z. odata (ord_at s2 z)) os = map (\<lambda>z. odata (ord_at s z)) os"
      using keep[of s2 side] s2(4,5) l(1) by (simp_all add: abs_lv_def)
    moreover have "odata (ord_at s2 a) = odata x" using s2(4) od1 by simp
    ultimately have "map (abs_lv s2) (us @ (l, os @ [a]) # vs) = enqueue side price (odata x) (A side)"
      using enqueue_join[OF l(4)] s2(5) l(2) by (simp add: l(3) abs_lv_def)
    then show ?thesis
      using s2(1,3) me_refinesI[OF s2(2) refl] others[OF s2(4,5)] by auto
  next
    case None
    then have free: "\<forall>x \<in> set (A side). fst x \<noteq> price"
      using price_slot(1)[OF rep] nocol sd by (auto simp: AS book_levels_def)
    obtain us' vs' where split: "A side = us' @ vs'" "\<forall>x \<in> set us'. better side (fst x) price"
      "\<forall>x \<in> set vs'. fst x = price \<or> better side price (fst x)"
      by (rule prices_split[OF sorted, of price])
    then have dn': "\<forall>x \<in> set vs'. better side price (fst x)" using free by auto
    obtain us vs where S: "S side = us @ vs" "us' = map (abs_lv s) us" "vs' = map (abs_lv s) vs"
      using split(1) unfolding AS book_abs_side map_eq_append_conv by blast
    have up: "\<forall>y \<in> set us. better side (l_price (lvl_at s (fst y))) (o_price x)"
      and dn: "\<forall>y \<in> set vs. better side (o_price x) (l_price (lvl_at s (fst y)))"
      using split(2) dn' S x by (simp_all add: abs_lv_def)
    have fl: "fits side (length us) (length vs)" using fit[OF split(1,2) dn'] S by simp
    have rm: "card (live (orders_at_price_pool s)) + 1 < ME_MAX_PRICE_LEVELS"
      using room book_orders_abs(3)[OF rep] by (simp add: AS)
    obtain s2 l where s2: "addOrder_with (add_level fw) a s1 = Inr s2"
      "me_rep s2 (S(side := us @ (l, [a]) # vs))"
      "same_rest s s2" "\<And>z. odata (ord_at s2 z) = odata (ord_at s1 z)"
      "\<And>m. m \<in> live (orders_at_price_pool s) \<Longrightarrow> l_price (lvl_at s2 m) = l_price (lvl_at s m)"
      "l_price (lvl_at s2 l) = o_price x"
      by (rule addOrder_open[OF rep pl sd S(1) x(1,3) fresh _ rm up dn fl]) (use x None in auto)
    have "map (abs_lv s2) us = map (abs_lv s) us" "map (abs_lv s2) vs = map (abs_lv s) vs"
      using keep[of s2 side] s2(4,5) S(1) by simp_all
    moreover have "odata (ord_at s2 a) = odata x" using s2(4) od1 by simp
    ultimately have "map (abs_lv s2) (us @ (l, [a]) # vs) = enqueue side price (odata x) (A side)"
      using enqueue_open[OF split(2) dn'] s2(6) x(2) S split(1) by (simp add: abs_lv_def)
    then show ?thesis
      using s2(1,3) me_refinesI[OF s2(2) refl] others[OF s2(4,5)] by auto
  qed
qed

end

lemma engine_fits_split:
  assumes quirk: "side = BUY \<or> length (A SELL) \<le> 1 \<or> fst (hd (A SELL)) \<le> price"
    and sd: "side = BUY \<or> side = SELL" and split: "A side = us @ vs"
    and dn: "\<forall>x \<in> set vs. better side price (fst x)"
  shows "engine_fits side (length us) (length vs)"
proof (cases "side = BUY \<or> length (A SELL) \<le> 1")
  case True
  then show ?thesis using sd split by (auto simp: engine_fits_def)
next
  case False
  then have "side = SELL" "fst (hd (A SELL)) \<le> price" "A SELL \<noteq> []" using quirk sd by auto
  then show ?thesis using dn split by (cases us; cases vs) (auto simp: engine_fits_def better_def)
qed

lemma rest_order_ok:
  assumes ref: "me_refines s A" and q: "queues_ok s" and sd: "side = BUY \<or> side = SELL"
    and cr: "can_rest cid coid side price A" and opp: "\<forall>x \<in> set (A (opp side)). fst x \<noteq> price"
    and prio: "prio = next_prio price (A side)"
    and ao: "ao = \<lparr>a_client = cid, a_coid = coid, a_moid = moid, a_qty = leaves, a_prio = prio\<rparr>"
  shows "\<exists>s'. rest_order cid coid tid side price leaves moid s = Inr s'
     \<and> sent [] [\<lparr>mu_type = MUT_ADD, mu_order_id = moid, mu_ticker_id = tid, mu_side = side,
           mu_price = price, mu_qty = leaves, mu_priority = prio\<rparr>] s s'
     \<and> me_refines s' (A(side := enqueue side price ao (A side)))"
proof -
  obtain S where rep: "me_rep s S" and AS: "A = book_abs s S"
    using ref by (auto simp: me_refines_def)
  have ids: "unat cid < ME_MAX_NUM_CLIENTS" "unat coid < ME_MAX_ORDER_IDS"
    and nocol: "\<forall>x \<in> set (book_levels A). pidx (fst x) = pidx price \<longrightarrow> fst x = price"
    and quirk: "side = BUY \<or> length (A SELL) \<le> 1 \<or> fst (hd (A SELL)) \<le> price"
    and rooml: "length (book_levels A) + 1 < ME_MAX_PRICE_LEVELS"
    using cr by (auto simp: can_rest_def)
  have room: "card (live (order_pool s)) + 1 < ME_MAX_ORDER_IDS"
    using cr book_orders_abs(2)[OF rep] by (simp add: can_rest_def AS)
  let ?x = "MEOrder_ctor tid cid coid moid side price leaves prio None None"
  have x: "o_side ?x = side" "o_price ?x = price" "ids_ok ?x" "odata ?x = ao"
    using ids by (simp_all add: MEOrder_ctor_def ids_ok_def odata_def ao)
  have fresh: "cid_oid_to_order s (unat (o_client_id ?x)) (unat (o_client_order_id ?x)) = None"
    using cid_none[OF rep ids] cr by (simp add: can_rest_def AS MEOrder_ctor_def)
  obtain a pool where al: "allocate ?x (order_pool s) = Inr (a, pool)" "a \<notin> live (order_pool s)"
    "live pool = insert a (live (order_pool s))" "pool_wf pool"
    "pool_size pool = pool_size (order_pool s)"
    "\<And>z. obj pool z = (if z = a then ?x else obj (order_pool s) z)"
    using allocate_ok[of "order_pool s" ?x] me_repD(2)[OF rep] room unfolding pools_ok_def by metis
  let ?s1 = "s\<lparr>order_pool := pool\<rparr>"
  have pl: "placed s a ?x ?s1" using al by (auto simp: placed_def)
  have gp: "getNextPriority price s = Inr prio"
    unfolding prio by (rule getNextPriority_ok[OF rep AS sd nocol opp])
  obtain s2 where s2: "addOrder a ?s1 = Inr s2" "same_rest s s2"
    "me_refines s2 (A(side := enqueue side price ao (A side)))"
    using engine_search.addOrder_enqueues[OF rep AS sd pl x(1,2,3) fresh nocol opp rooml
        engine_fits_split[of side A price, OF quirk sd]] unfolding x(4) addOrder_addOrder_with by blast
  let ?u = "\<lparr>mu_type = MUT_ADD, mu_order_id = moid, mu_ticker_id = tid, mu_side = side,
         mu_price = price, mu_qty = leaves, mu_priority = prio\<rparr>"
  obtain s3 where s3: "publish ?u s2 = Inr s3" "sent [] [?u] s2 s3" "same_core s2 s3"
    by (rule publish_ok[OF same_rest_sent(2)[OF s2(2) q]]) blast
  have "sent ([] @ []) ([] @ [?u]) s s3"
    using sent_trans[OF same_rest_sent(1)[OF s2(2) q] s3(2)] .
  then show ?thesis
    using gp s2(1,3) s3 al(1) same_core_eqs(6)[OF s3(3)] by (simp add: rest_order_def)
qed

section \<open>add\<close>

text \<open>Room and unused ids carry over to what matching leaves.\<close>

lemma book_orders_upd:
  assumes "sd = BUY \<or> sd = SELL"
  shows "set (book_orders (A(sd := M))) = set (concat (map snd M)) \<union> set (concat (map snd (A (opp sd))))"
    and "length (book_orders (A(sd := M)))
      = length (concat (map snd M)) + length (concat (map snd (A (opp sd))))"
    and "set (book_levels (A(sd := M))) = set M \<union> set (A (opp sd))"
    and "length (book_levels (A(sd := M))) = length M + length (A (opp sd))"
  using assms by (auto simp: book_orders_def book_levels_def)

lemma book_orders_at:
  assumes "sd = BUY \<or> sd = SELL"
  shows "set (book_orders A) = set (concat (map snd (A sd))) \<union> set (concat (map snd (A (opp sd))))"
    and "length (book_orders A) = length (concat (map snd (A sd))) + length (concat (map snd (A (opp sd))))"
    and "set (book_levels A) = set (A sd) \<union> set (A (opp sd))"
    and "length (book_levels A) = length (A sd) + length (A (opp sd))"
  using book_orders_upd[OF assms, of A "A sd"] by simp_all

lemma has_ids_iff: "has_ids cid coid ao \<longleftrightarrow> ao_ids ao = (cid, coid)"
  by (simp add: has_ids_def ao_ids_def)

lemma can_rest_after_sweep:
  assumes cr: "can_rest cid coid side price A" and sd: "side = BUY \<or> side = SELL"
    and sw: "sweep c q (A (opp side)) = (q', M, fs)"
  shows "can_rest cid coid side price (A(opp side := M))"
proof -
  note shr = sweep_shrinks[OF sw]
  have os: "opp side = BUY \<or> opp side = SELL" by (rule opp_simps(4))
  have oo: "opp (opp side) = side" using sd by (auto simp: opp_def)
  note up = book_orders_upd[OF os, of A M, unfolded oo]
    and at = book_orders_at[OF os, of A, unfolded oo]
  have "\<forall>ao \<in> set (book_orders (A(opp side := M))). \<not> has_ids cid coid ao"
  proof
    fix ao assume "ao \<in> set (book_orders (A(opp side := M)))"
    then have "ao_ids ao \<in> ao_ids ` set (book_orders A)"
      using shr(4) unfolding up(1) at(1) by blast
    then show "\<not> has_ids cid coid ao" using cr by (auto simp: can_rest_def has_ids_iff)
  qed
  moreover have "\<forall>x \<in> set (book_levels (A(opp side := M))). pidx (fst x) = pidx price \<longrightarrow> fst x = price"
  proof
    fix x assume "x \<in> set (book_levels (A(opp side := M)))"
    then have "fst x \<in> fst ` set (book_levels A)"
      using shr(3) unfolding up(3) at(3) by blast
    then show "pidx (fst x) = pidx price \<longrightarrow> fst x = price" using cr by (auto simp: can_rest_def)
  qed
  moreover have "length (book_levels (A(opp side := M))) \<le> length (book_levels A)"
    "length (book_orders (A(opp side := M))) \<le> length (book_orders A)"
    using shr(1,2) up(2,4) at(2,4) by simp_all
  moreover have "side = BUY \<or> (A(opp side := M)) SELL = A SELL" using sd by auto
  ultimately show ?thesis using cr unfolding can_rest_def by auto
qed

lemma add_ok:
  assumes ref: "me_refines s A" and q: "queues_ok s" and sd: "side = BUY \<or> side = SELL"
    and ok: "alevels_ok (A (opp side))" and cr: "can_rest cid coid side price A"
    and spec: "spec_add tid (next_market_order_id s) cid coid side price qty A = (A', rs, us)"
  shows "\<exists>s'. add cid coid tid side price qty s = Inr s' \<and> sent rs us s s' \<and> me_refines s' A'"
proof -
  let ?moid = "next_market_order_id s"
  obtain q' M fs where sw: "sweep (crosses_at side price) qty (A (opp side)) = (q', M, fs)"
    by (metis prod_cases3)
  let ?acc = "\<lparr>rs_type = CRS_ACCEPTED, rs_client_id = cid, rs_ticker_id = tid,
            rs_client_order_id = coid, rs_market_order_id = ?moid, rs_side = side,
            rs_price = price, rs_exec_qty = 0, rs_leaves_qty = qty\<rparr>"
  let ?rs = "concat (map (fill_responses tid cid side coid (fill_id ?moid) (opp side)) fs)"
  let ?us = "concat (map (fill_updates tid side (opp side)) fs)"
  obtain s1 where s1: "respond ?acc s = Inr s1" "sent [?acc] [] s s1" "same_core s s1"
    by (rule respond_ok[OF q]) blast
  have ref1: "me_refines s1 A" using ref same_core_eqs(6)[OF s1(3)] by simp
  obtain s2 where s2: "checkForMatch cid coid tid side price qty ?moid s1 = Inr (q', s2)"
    "sent ?rs ?us s1 s2" "me_refines s2 (A(opp side := M))"
    using checkForMatch_ok[OF ref1 sent_queues[OF s1(2)] sd sw fill_id_def] by blast
  have sent2: "sent (?acc # ?rs) ?us s s2" using sent_trans[OF s1(2) s2(2)] by simp
  have gen: "generateNewMarketOrderId s = (?moid, s)" by (simp add: generateNewMarketOrderId_def)
  show ?thesis
  proof (cases "q' = 0")
    case True
    then have "A' = A(opp side := M)" "rs = ?acc # ?rs" "us = ?us"
      using spec sw by (auto simp: spec_add_def Let_def)
    then show ?thesis using s1(1) s2 sent2 True gen by (simp add: add_def)
  next
    case False
    let ?A1 = "A(opp side := M)"
    have side: "?A1 side = A side" using sd by auto
    let ?prio = "next_prio price (?A1 side)"
    let ?ao = "\<lparr>a_client = cid, a_coid = coid, a_moid = ?moid, a_qty = q', a_prio = ?prio\<rparr>"
    let ?add = "\<lparr>mu_type = MUT_ADD, mu_order_id = ?moid, mu_ticker_id = tid, mu_side = side,
                      mu_price = price, mu_qty = q', mu_priority = ?prio\<rparr>"
    have sorted: "prices_sorted (opp side) M"
      using me_refines_sorted[OF s2(3) opp_simps(4), of side] by simp
    have "\<forall>x \<in> set (?A1 (opp side)). fst x \<noteq> price"
    proof
      fix x assume "x \<in> set (?A1 (opp side))"
      then have "\<not> crosses_at side price (fst x)"
        using sweep_uncrossed[OF ok sd sw False sorted, of x] by simp
      then show "fst x \<noteq> price" using crosses_at_self by metis
    qed
    then obtain s3 where s3: "rest_order cid coid tid side price q' ?moid s2 = Inr s3"
      "sent [] [?add] s2 s3" "me_refines s3 (?A1(side := enqueue side price ?ao (?A1 side)))"
      using rest_order_ok[OF s2(3) sent_queues[OF s2(2)] sd can_rest_after_sweep[OF cr sd sw] _ refl refl]
      by blast
    have "A' = ?A1(side := enqueue side price ?ao (?A1 side))" "rs = ?acc # ?rs" "us = ?us @ [?add]"
      using spec sw False side by (auto simp: spec_add_def Let_def)
    moreover have "sent (?acc # ?rs) (?us @ [?add]) s s3" using sent_trans[OF sent2 s3(2)] by simp
    ultimately show ?thesis using s1(1) s2(1) s3 False gen by (simp add: add_def)
  qed
qed

text \<open>The specification keeps its own invariant.\<close>

lemma spec_add_ok:
  assumes "\<forall>sd. alevels_ok (A sd)" "spec_add tid moid cid coid side price qty A = (A', rs, us)"
  shows "\<forall>sd. alevels_ok (A' sd)"
proof -
  obtain q' M fs where sw: "sweep (crosses_at side price) qty (A (opp side)) = (q', M, fs)"
    by (metis prod_cases3)
  have "alevels_ok M" using sweep_ok[of "A (opp side)" "crosses_at side price" qty] sw assms(1) by simp
  then show ?thesis
    using assms sw enqueue_ok by (auto simp: spec_add_def Let_def split: if_splits)
qed

section \<open>cancel\<close>

definition cancel_rejected :: "TickerId \<Rightarrow> ClientId \<Rightarrow> OrderId \<Rightarrow> MEClientResponse" where
  "cancel_rejected tid cid coid =
     \<lparr>rs_type = CRS_CANCEL_REJECTED, rs_client_id = cid, rs_ticker_id = tid,
      rs_client_order_id = coid, rs_market_order_id = OrderId_INVALID,
      rs_side = Side_INVALID, rs_price = Price_INVALID,
      rs_exec_qty = Qty_INVALID, rs_leaves_qty = Qty_INVALID\<rparr>"

lemma cancel_rejects:
  assumes ref: "me_refines s A" and q: "queues_ok s"
    and no: "ME_MAX_NUM_CLIENTS \<le> unat cid
      \<or> unat coid < ME_MAX_ORDER_IDS \<and> (\<forall>ao \<in> set (book_orders A). \<not> has_ids cid coid ao)"
  shows "\<exists>s'. cancel cid coid tid s = Inr s' \<and> sent [cancel_rejected tid cid coid] [] s s'
    \<and> me_refines s' A"
proof -
  obtain S where rep: "me_rep s S" and AS: "A = book_abs s S"
    using ref by (auto simp: me_refines_def)
  have look: "(if unat cid < ME_MAX_NUM_CLIENTS
            then bindr (at_idx ME_MAX_NUM_CLIENTS (unat cid) (cid_oid_to_order s)) (\<lambda>co_itr.
                 at_idx ME_MAX_ORDER_IDS (unat coid) co_itr)
            else Inr None) = Inr None"
    using no cid_none[OF rep, of cid coid] AS by auto
  let ?r = "cancel_rejected tid cid coid"
  have "cancel cid coid tid s = respond ?r s"
    unfolding cancel_def look by (simp add: respond_def cancel_rejected_def)
  then show ?thesis
    using respond_ok[OF q, of ?r] same_core_eqs(6) ref by metis
qed

lemma cancel_out_of_range:
  assumes "unat cid < ME_MAX_NUM_CLIENTS" "ME_MAX_ORDER_IDS \<le> unat coid"
  shows "cancel cid coid tid s = Inl (Terminated ''std::out_of_range'')"
  using assms by (simp add: cancel_def at_idx_def)

text \<open>Taking the order with given ids out of the book.\<close>

lemma removeOrder_withdraws:
  assumes rep: "me_rep s S" and AS: "A = book_abs s S" and sd: "sd = BUY \<or> sd = SELL"
    and x: "(p, os) \<in> set (A sd)" "ao \<in> set os" and h: "has_ids cid coid ao"
  obtains a s' where "cid_oid_to_order s (unat cid) (unat coid) = Some a"
    "unat cid < ME_MAX_NUM_CLIENTS" "unat coid < ME_MAX_ORDER_IDS"
    "odata (ord_at s a) = ao" "o_side (ord_at s a) = sd" "o_price (ord_at s a) = p"
    "removeOrder a s = Inr s'" "same_rest s s'"
    "me_refines s' (A(sd := withdraw (has_ids cid coid) (A sd)))"
proof -
  note r = me_repD(1)[OF rep]
  obtain l as where las: "(l, as) \<in> set (S sd)" "p = l_price (lvl_at s l)"
    "os = map (\<lambda>a. odata (ord_at s a)) as"
    using x(1) by (auto simp: AS book_abs_side abs_lv_def)
  obtain a where a: "a \<in> set as" "odata (ord_at s a) = ao" using x(2) las(3) by auto
  obtain us vs where S1: "S sd = us @ (l, as) # vs" using las(1) by (auto simp: in_set_conv_decomp)
  obtain as1 as2 where as: "as = as1 @ a # as2" using a(1) by (auto simp: in_set_conv_decomp)
  have S: "S sd = us @ (l, as1 @ a # as2) # vs" using S1 as by simp
  have lr: "lvl_rep (me_view s) sd (l, as)" by (rule ladder_lvl_rep[OF r sd las(1)])
  have live: "a \<in> live (order_pool s)" using ladder_live(2)[OF r sd] S by auto
  have fields: "o_client_id (ord_at s a) = cid" "o_client_order_id (ord_at s a) = coid"
    "o_side (ord_at s a) = sd" "o_price (ord_at s a) = p"
    using a(2) h lvl_repD(6,7)[OF lr a(1)] las(2) by (auto simp: odata_def has_ids_def)
  have rng: "unat cid < ME_MAX_NUM_CLIENTS" "unat coid < ME_MAX_ORDER_IDS"
    using me_repD(4)[OF rep live] fields by (simp_all add: ids_ok_def)
  have entry: "cid_oid_to_order s (unat cid) (unat coid) = Some a"
    using cid_lookup[OF rep rng] live a(2) h by simp
  have uniq: "\<not> has_ids cid coid (odata (ord_at s z))" if "z \<in> live (order_pool s)" "z \<noteq> a" for z
    using cid_lookup[OF rep rng, of z] entry that by auto
  let ?L = "us @ (if as1 @ as2 = [] then vs else (l, as1 @ as2) # vs)"
  obtain s2 where s2: "removeOrder a s = Inr s2" "me_rep s2 (S(sd := ?L))" "same_rest s s2"
    "\<And>z. odata (ord_at s2 z) = odata (ord_at s z)" "\<And>m. l_price (lvl_at s2 m) = l_price (lvl_at s m)"
  proof (cases "as1 @ as2 = []")
    case True
    then have S': "S sd = us @ (l, [a]) # vs" using S by simp
    obtain b' where b': "removeOrder a s = Inr b'" "me_rep b' (S(sd := us @ vs))" "same_rest s b'"
      "ord_at b' = ord_at s" "\<And>m. l_price (lvl_at b' m) = l_price (lvl_at s m)"
      by (rule removeOrder_alone[OF rep sd S']) blast
    show thesis by (rule that[of b']) (use b' True in simp_all)
  next
    case False
    obtain b' where b': "removeOrder a s = Inr b'"
      "me_rep b' (S(sd := us @ (l, as1 @ as2) # vs))" "same_rest s b'"
      "\<And>x. odata (ord_at b' x) = odata (ord_at s x)"
      "\<And>m. l_price (lvl_at b' m) = l_price (lvl_at s m)"
      by (rule removeOrder_linked[OF rep sd S False]) blast
    show thesis by (rule that[of b']) (use b' False in auto)
  qed
  have old: "abs_lv s2 = abs_lv s" using s2(4,5) by (simp add: abs_lv_def[abs_def])
  have wd: "map (abs_lv s) ?L = withdraw (has_ids cid coid) (A sd)"
  proof -
    have in_live: "z \<in> live (order_pool s)" if "y \<in> set (S sd)" "z \<in> set (snd y)" for y z
      using that ladder_live(2)[OF r sd] by (auto simp: in_orders_of)
    have sr: "side_rep (me_view s) sd (us @ (l, as) # vs)" using ladder_side_rep[OF r sd] S1 by simp
    have oth: "snd (abs_lv s y) \<noteq> [] \<and> (\<forall>ao \<in> set (snd (abs_lv s y)). \<not> has_ids cid coid ao)"
      if y: "y \<in> set us \<union> set vs" for y
    proof -
      have "lvl_rep (me_view s) sd (fst y, snd y)" using side_repD(3)[OF sr, of y] y by auto
      then have "snd y \<noteq> []" by (rule lvl_repD(4))
      moreover have "z \<noteq> a \<and> z \<in> live (order_pool s)" if "z \<in> set (snd y)" for z
        using other_levels(2)[OF sr y that] a(1) in_live[of y z] that y S by auto
      ultimately show ?thesis using uniq by (auto simp: abs_lv_def)
    qed
    have "distinct as" using lvl_repD(5)[OF lr] .
    then have rest: "\<forall>z \<in> set as1 \<union> set as2. z \<noteq> a \<and> z \<in> live (order_pool s)"
      using in_live[of "(l, as)"] las(1) as by auto
    let ?f = "\<lambda>a. odata (ord_at s a)"
    have "A sd = map (abs_lv s) us @ (p, map ?f as1 @ ao # map ?f as2) # map (abs_lv s) vs"
      using S a(2) by (simp add: AS book_abs_side abs_lv_def las(2))
    moreover have "withdraw (has_ids cid coid)
        (map (abs_lv s) us @ (p, map ?f as1 @ ao # map ?f as2) # map (abs_lv s) vs)
      = map (abs_lv s) us @ (if map ?f as1 @ map ?f as2 = [] then map (abs_lv s) vs
          else (p, map ?f as1 @ map ?f as2) # map (abs_lv s) vs)"
    proof (rule withdraw_at)
      show "\<forall>x \<in> set (map (abs_lv s) us) \<union> set (map (abs_lv s) vs).
          snd x \<noteq> [] \<and> (\<forall>ao \<in> set (snd x). \<not> has_ids cid coid ao)"
      proof
        fix x assume "x \<in> set (map (abs_lv s) us) \<union> set (map (abs_lv s) vs)"
        then obtain y where "y \<in> set us \<union> set vs" "x = abs_lv s y" by auto
        then show "snd x \<noteq> [] \<and> (\<forall>ao \<in> set (snd x). \<not> has_ids cid coid ao)" using oth by blast
      qed
      show "\<forall>ao \<in> set (map ?f as1) \<union> set (map ?f as2). \<not> has_ids cid coid ao"
      proof
        fix x assume "x \<in> set (map ?f as1) \<union> set (map ?f as2)"
        then obtain z where "z \<in> set as1 \<union> set as2" "x = ?f z" by auto
        then show "\<not> has_ids cid coid x" using uniq rest by blast
      qed
      show "has_ids cid coid ao" by (rule h)
    qed
    ultimately show ?thesis
      by (simp add: abs_lv_def las(2))
  qed
  have "book_abs s2 (S(sd := ?L)) = A(sd := withdraw (has_ids cid coid) (A sd))"
    unfolding wd[symmetric] by (rule ext) (simp add: AS book_abs_def old del: map_append)
  then have ref2: "me_refines s2 (A(sd := withdraw (has_ids cid coid) (A sd)))"
    using me_refinesI[OF s2(2) refl] by simp
  show thesis by (rule that[OF entry rng a(2) fields(3,4) s2(1,3) ref2])
qed

lemma cancel_ok:
  assumes ref: "me_refines s A" and q: "queues_ok s" and sd: "sd = BUY \<or> sd = SELL"
    and x: "(p, os) \<in> set (A sd)" "ao \<in> set os" and h: "has_ids cid coid ao"
  shows "\<exists>s'. cancel cid coid tid s = Inr s'
    \<and> sent [\<lparr>rs_type = CRS_CANCELED, rs_client_id = cid, rs_ticker_id = tid,
             rs_client_order_id = coid, rs_market_order_id = a_moid ao, rs_side = sd,
             rs_price = p, rs_exec_qty = Qty_INVALID, rs_leaves_qty = a_qty ao\<rparr>]
           [\<lparr>mu_type = MUT_CANCEL, mu_order_id = a_moid ao, mu_ticker_id = tid, mu_side = sd,
             mu_price = p, mu_qty = 0, mu_priority = a_prio ao\<rparr>] s s'
    \<and> me_refines s' (A(sd := withdraw (has_ids cid coid) (A sd)))"
proof -
  obtain S where rep: "me_rep s S" and AS: "A = book_abs s S"
    using ref by (auto simp: me_refines_def)
  let ?r = "\<lparr>rs_type = CRS_CANCELED, rs_client_id = cid, rs_ticker_id = tid,
             rs_client_order_id = coid, rs_market_order_id = a_moid ao, rs_side = sd,
             rs_price = p, rs_exec_qty = Qty_INVALID, rs_leaves_qty = a_qty ao\<rparr>"
  let ?u = "\<lparr>mu_type = MUT_CANCEL, mu_order_id = a_moid ao, mu_ticker_id = tid, mu_side = sd,
             mu_price = p, mu_qty = 0, mu_priority = a_prio ao\<rparr>"
  define s1 where "s1 = s\<lparr>client_response := ?r\<rparr>\<lparr>market_update := ?u\<rparr>"
  have core1: "same_core s s1" by (simp add: same_core_def s1_def)
  have rep1: "me_rep s1 S" and abs1: "A = book_abs s1 S"
    using rep same_core_eqs(4,5)[OF core1] AS by simp_all
  have q1: "queues_ok s1" "sent [] [] s s1" using q by (simp_all add: queues_ok_def sent_def s1_def)
  obtain a s2 where s2: "cid_oid_to_order s1 (unat cid) (unat coid) = Some a"
    "unat cid < ME_MAX_NUM_CLIENTS" "unat coid < ME_MAX_ORDER_IDS"
    "odata (ord_at s1 a) = ao" "o_side (ord_at s1 a) = sd" "o_price (ord_at s1 a) = p"
    "removeOrder a s1 = Inr s2" "same_rest s1 s2"
    "me_refines s2 (A(sd := withdraw (has_ids cid coid) (A sd)))"
    by (rule removeOrder_withdraws[OF rep1 abs1 sd x h]) blast
  have entry: "cid_oid_to_order s (unat cid) (unat coid) = Some a" using s2(1) by (simp add: s1_def)
  have fields: "o_client_id (ord_at s a) = cid" "o_client_order_id (ord_at s a) = coid"
    "o_market_order_id (ord_at s a) = a_moid ao" "o_side (ord_at s a) = sd"
    "o_price (ord_at s a) = p" "o_qty (ord_at s a) = a_qty ao" "o_priority (ord_at s a) = a_prio ao"
    using s2(4,5,6) h same_core_eqs(1)[OF core1] by (auto simp: odata_def has_ids_def)
  have mu: "market_update s2 = ?u" "client_response s2 = ?r" using s2(8) by (simp_all add: same_rest_def s1_def)
  obtain s3 where s3: "sendMarketUpdate ?u s2 = Inr s3" "sent [] [?u] s2 s3" "same_core s2 s3"
    "market_update s3 = market_update s2" "client_response s3 = client_response s2"
    by (rule sendMarketUpdate_ok[OF same_rest_sent(2)[OF s2(8) q1(1)]])
  obtain s4 where s4: "sendClientResponse ?r s3 = Inr s4" "sent [?r] [] s3 s4" "same_core s3 s4"
    by (rule sendClientResponse_ok[OF sent_queues[OF s3(2)]])
  have "cancel cid coid tid s = Inr s4"
    using entry s2(2,3,7) fields s3(1,5) s4(1) mu by (simp add: cancel_def Let_def s1_def)
  moreover have "sent ([] @ ([] @ ([] @ [?r]))) ([] @ ([] @ ([?u] @ []))) s s4"
    using sent_trans[OF q1(2) sent_trans[OF same_rest_sent(1)[OF s2(8) q1(1)] sent_trans[OF s3(2) s4(2)]]] .
  ultimately show ?thesis
    using s2(9) same_core_eqs(6)[OF same_core_trans[OF s3(3) s4(3)]] by simp
qed

end
