(* ===== verification/Logging.thy ===== *)
theory Logging
  imports Types LockFreeQueue
begin

text \<open>
  \<open>common/logging.h\<close> and \<open>common/thread_utils.h\<close>: the logger every component writes to. A
  call of \<open>log\<close> cuts its arguments into elements and pushes them on the logger's queue; the
  logger's thread writes them to the file. A call whose format has more or fewer
  placeholders than it has arguments ends the process, so the calls matter to the callers:
  \<open>log_call\<close> is what a call does to its caller, with \<open>Logger_log_outcome\<close> as its
  justification. The text of a \<open>float\<close> or \<open>double\<close> is a parameter.
\<close>

section \<open>Threads\<close>

text \<open>The result of \<open>pthread_setaffinity_np\<close> is a parameter.\<close>

definition setThreadCore :: "(int \<Rightarrow> int) \<Rightarrow> int \<Rightarrow> bool" where
  "setThreadCore pthread_setaffinity core_id \<longleftrightarrow> pthread_setaffinity core_id = 0"

text \<open>Whether the new thread got to run its function (\<open>true\<close>) or \<open>nullptr\<close> is returned.\<close>

definition createAndStartThread :: "(int \<Rightarrow> int) \<Rightarrow> int \<Rightarrow> bool" where
  "createAndStartThread pthread_setaffinity core_id \<longleftrightarrow>
     \<not> (core_id \<ge> 0 \<and> \<not> setThreadCore pthread_setaffinity core_id)"

lemma createAndStartThread_any_core [simp]: "createAndStartThread aff (- 1)"
  by (simp add: createAndStartThread_def)

section \<open>Elements\<close>

text \<open>A tagged union, one constructor for each tag.\<close>

datatype LogElement =
    LT_CHAR char
  | LT_INTEGER "32 word"
  | LT_LONG_INTEGER "64 word"
  | LT_LONG_LONG_INTEGER "64 word"
  | LT_UNSIGNED_INTEGER "32 word"
  | LT_UNSIGNED_LONG_INTEGER "64 word"
  | LT_UNSIGNED_LONG_LONG_INTEGER "64 word"
  | LT_FLOAT double
  | LT_DOUBLE double

record Logger =
  file_text :: string
  log_queue :: "LogElement LFQueue"
  running :: bool

definition log_element_text :: "(double \<Rightarrow> string) \<Rightarrow> LogElement \<Rightarrow> string" where
  "log_element_text fmt e =
     (case e of
        LT_CHAR c \<Rightarrow> [c]
      | LT_INTEGER i \<Rightarrow> int_to_string (sint i)
      | LT_LONG_INTEGER l \<Rightarrow> int_to_string (sint l)
      | LT_LONG_LONG_INTEGER ll \<Rightarrow> int_to_string (sint ll)
      | LT_UNSIGNED_INTEGER u \<Rightarrow> nat_to_string (unat u)
      | LT_UNSIGNED_LONG_INTEGER ul \<Rightarrow> nat_to_string (unat ul)
      | LT_UNSIGNED_LONG_LONG_INTEGER ull \<Rightarrow> nat_to_string (unat ull)
      | LT_FLOAT f \<Rightarrow> fmt f
      | LT_DOUBLE d \<Rightarrow> fmt d)"

section \<open>The logger's thread\<close>

text \<open>One pass of the outer loop of \<open>flushQueue\<close>: everything in the queue goes to the file.\<close>

definition flush_pass :: "(double \<Rightarrow> string) \<Rightarrow> Logger \<Rightarrow> Logger res" where
  "flush_pass fmt l =
     bindr (returned (drain lfq_peek_sized updateReadIndex
              (\<lambda>e text. Inr (text @ log_element_text fmt e)) (log_queue l) (file_text l)))
       (\<lambda>(q, text). Inr (l\<lparr>log_queue := q, file_text := text\<rparr>))"

definition flushQueue ::
  "(double \<Rightarrow> string) \<Rightarrow> ((Logger \<Rightarrow> Logger) \<times> bool) list \<Rightarrow> Logger \<Rightarrow> Logger res" where
  "flushQueue fmt sched l = run_while sched (flush_pass fmt) l"

definition Logger_ctor :: "bool \<Rightarrow> (int \<Rightarrow> int) \<Rightarrow> string \<Rightarrow> Logger res" where
  "Logger_ctor is_open aff file_name =
     bindr (ASSERT is_open (''Could not open log file: '' @ file_name)) (\<lambda>_.
     bindr (ASSERT (createAndStartThread aff (- 1)) ''Failed to start Logger thread.'') (\<lambda>_.
     Inr \<lparr>file_text = [], log_queue = LFQueue_ctor (LT_CHAR (CHR 0x00)) LOG_QUEUE_SIZE,
          running = True\<rparr>))"

text \<open>The destructor waits for the queue to empty: \<open>passes\<close> passes of the logger's thread.\<close>

fun Logger_dtor :: "(double \<Rightarrow> string) \<Rightarrow> nat \<Rightarrow> Logger \<Rightarrow> Logger res" where
  "Logger_dtor fmt passes l =
     (if LFQueue_size (log_queue l) = 0 then Inr (l\<lparr>running := False\<rparr>)
      else case passes of 0 \<Rightarrow> Inl Diverges
           | Suc n \<Rightarrow> bindr (flush_pass fmt l) (Logger_dtor fmt n))"

declare Logger_dtor.simps [simp del]

section \<open>Pushing values\<close>

definition pushElement :: "LogElement \<Rightarrow> LogElement LFQueue \<Rightarrow> LogElement LFQueue res" where
  "pushElement log_element q = lfq_push log_element q"

definition pushChar :: "char \<Rightarrow> LogElement LFQueue \<Rightarrow> LogElement LFQueue res" where
  "pushChar value = pushElement (LT_CHAR value)"

definition pushInt :: "32 word \<Rightarrow> LogElement LFQueue \<Rightarrow> LogElement LFQueue res" where
  "pushInt value = pushElement (LT_INTEGER value)"

definition pushLong :: "64 word \<Rightarrow> LogElement LFQueue \<Rightarrow> LogElement LFQueue res" where
  "pushLong value = pushElement (LT_LONG_INTEGER value)"

definition pushLongLong :: "64 word \<Rightarrow> LogElement LFQueue \<Rightarrow> LogElement LFQueue res" where
  "pushLongLong value = pushElement (LT_LONG_LONG_INTEGER value)"

definition pushUnsigned :: "32 word \<Rightarrow> LogElement LFQueue \<Rightarrow> LogElement LFQueue res" where
  "pushUnsigned value = pushElement (LT_UNSIGNED_INTEGER value)"

definition pushUnsignedLong :: "64 word \<Rightarrow> LogElement LFQueue \<Rightarrow> LogElement LFQueue res" where
  "pushUnsignedLong value = pushElement (LT_UNSIGNED_LONG_INTEGER value)"

definition pushUnsignedLongLong :: "64 word \<Rightarrow> LogElement LFQueue \<Rightarrow> LogElement LFQueue res" where
  "pushUnsignedLongLong value = pushElement (LT_UNSIGNED_LONG_LONG_INTEGER value)"

definition pushFloat :: "double \<Rightarrow> LogElement LFQueue \<Rightarrow> LogElement LFQueue res" where
  "pushFloat value = pushElement (LT_FLOAT value)"

definition pushDouble :: "double \<Rightarrow> LogElement LFQueue \<Rightarrow> LogElement LFQueue res" where
  "pushDouble value = pushElement (LT_DOUBLE value)"

text \<open>A C string ends at its first NUL.\<close>

fun pushCString :: "string \<Rightarrow> LogElement LFQueue \<Rightarrow> LogElement LFQueue res" where
  "pushCString [] q = Inr q"
| "pushCString (c # s) q =
     (if c = CHR 0x00 then Inr q else bindr (pushChar c q) (pushCString s))"

definition pushString :: "string \<Rightarrow> LogElement LFQueue \<Rightarrow> LogElement LFQueue res" where
  "pushString value = pushCString value"

text \<open>The argument of a call, by the overload it selects.\<close>

datatype LogArg =
    Char_arg char | Int_arg "32 word" | Long_arg "64 word" | LongLong_arg "64 word"
  | Unsigned_arg "32 word" | UnsignedLong_arg "64 word" | UnsignedLongLong_arg "64 word"
  | Float_arg double | Double_arg double | CString_arg string | String_arg string

fun pushValue :: "LogArg \<Rightarrow> LogElement LFQueue \<Rightarrow> LogElement LFQueue res" where
  "pushValue (Char_arg c) = pushChar c"
| "pushValue (Int_arg i) = pushInt i"
| "pushValue (Long_arg l) = pushLong l"
| "pushValue (LongLong_arg l) = pushLongLong l"
| "pushValue (Unsigned_arg u) = pushUnsigned u"
| "pushValue (UnsignedLong_arg u) = pushUnsignedLong u"
| "pushValue (UnsignedLongLong_arg u) = pushUnsignedLongLong u"
| "pushValue (Float_arg f) = pushFloat f"
| "pushValue (Double_arg d) = pushDouble d"
| "pushValue (CString_arg s) = pushCString s"
| "pushValue (String_arg s) = pushString s"

section \<open>A call of \<open>log\<close>\<close>

text \<open>The overload without arguments, then the variadic one; the format has no NUL.\<close>

fun log_last :: "string \<Rightarrow> LogElement LFQueue \<Rightarrow> LogElement LFQueue res" where
  "log_last [] q = Inr q"
| "log_last (c # s) q =
     (if c = CHR ''%''
      then (case s of
              [] \<Rightarrow> FATAL ''missing arguments to log()''
            | d # s' \<Rightarrow>
                if d = CHR ''%'' then bindr (pushChar d q) (log_last s')
                else FATAL ''missing arguments to log()'')
      else bindr (pushChar c q) (log_last s))"

fun Logger_log :: "string \<Rightarrow> LogArg list \<Rightarrow> LogElement LFQueue \<Rightarrow> LogElement LFQueue res" where
  "Logger_log s [] q = log_last s q"
| "Logger_log [] (value # args) q = FATAL ''extra arguments provided to log()''"
| "Logger_log (c # s) (value # args) q =
     (if c = CHR ''%''
      then (case s of
              [] \<Rightarrow> bindr (pushValue value q) (Logger_log s args)
            | d # s' \<Rightarrow>
                if d = CHR ''%'' then bindr (pushChar d q) (Logger_log s' (value # args))
                else bindr (pushValue value q) (Logger_log s args))
      else bindr (pushChar c q) (Logger_log s (value # args)))"

section \<open>What a call does to its caller\<close>

text \<open>The placeholders of a format; \<open>%%\<close> is a literal percent sign.\<close>

fun placeholders :: "string \<Rightarrow> nat" where
  "placeholders [] = 0"
| "placeholders [c] = (if c = CHR ''%'' then 1 else 0)"
| "placeholders (c # d # s) =
     (if c = CHR ''%'' then if d = CHR ''%'' then placeholders s else Suc (placeholders (d # s))
      else placeholders (d # s))"

definition log_call :: "string \<Rightarrow> nat \<Rightarrow> unit res" where
  "log_call s n =
     (if n < placeholders s then FATAL ''missing arguments to log()''
      else if placeholders s < n then FATAL ''extra arguments provided to log()''
      else Inr ())"

lemma pushElement_wf:
  assumes "lfq_wf q"
  obtains q' where "pushElement e q = Inr q'" "lfq_wf q'"
  using lfq_push_wf[OF assms] unfolding pushElement_def by metis

lemma pushChar_wf: "lfq_wf q \<Longrightarrow> \<exists>q'. pushChar c q = Inr q' \<and> lfq_wf q'"
  unfolding pushChar_def using pushElement_wf by metis

lemma pushCString_wf: "lfq_wf q \<Longrightarrow> \<exists>q'. pushCString s q = Inr q' \<and> lfq_wf q'"
proof (induction s arbitrary: q)
  case (Cons c s)
  obtain q1 where "pushChar c q = Inr q1" "lfq_wf q1" using pushChar_wf[OF Cons.prems] by blast
  then show ?case using Cons.IH Cons.prems by simp
qed simp

lemma pushValue_wf: "lfq_wf q \<Longrightarrow> \<exists>q'. pushValue v q = Inr q' \<and> lfq_wf q'"
  by (cases v; simp add: pushChar_def pushInt_def pushLong_def pushLongLong_def pushUnsigned_def
      pushUnsignedLong_def pushUnsignedLongLong_def pushFloat_def pushDouble_def pushString_def
      pushCString_wf) (metis pushElement_wf)+

lemma log_call_char: "c \<noteq> CHR ''%'' \<Longrightarrow> log_call (c # s) n = log_call s n"
  by (cases s) (simp_all add: log_call_def)

lemma log_call_pct: "log_call (CHR ''%'' # CHR ''%'' # s) n = log_call s n"
  by (simp add: log_call_def)

lemma log_call_place:
  "d \<noteq> CHR ''%'' \<Longrightarrow> log_call (CHR ''%'' # d # s) (Suc n) = log_call (d # s) n"
  "d \<noteq> CHR ''%'' \<Longrightarrow> log_call (CHR ''%'' # d # s) 0 = FATAL ''missing arguments to log()''"
  "log_call [] 0 = Inr ()"
  "log_call [] (Suc n) = FATAL ''extra arguments provided to log()''"
  by (simp_all add: log_call_def)

lemma log_last_steps:
  "c \<noteq> CHR ''%'' \<Longrightarrow> log_last (c # s) q = bindr (pushChar c q) (log_last s)"
  "log_last (CHR ''%'' # CHR ''%'' # s) q = bindr (pushChar (CHR ''%'') q) (log_last s)"
  "d \<noteq> CHR ''%'' \<Longrightarrow> log_last (CHR ''%'' # d # s) q = FATAL ''missing arguments to log()''"
  by simp_all

lemma Logger_log_steps:
  "c \<noteq> CHR ''%'' \<Longrightarrow> Logger_log (c # s) (v # vs) q = bindr (pushChar c q) (Logger_log s (v # vs))"
  "Logger_log (CHR ''%'' # CHR ''%'' # s) (v # vs) q
     = bindr (pushChar (CHR ''%'') q) (Logger_log s (v # vs))"
  "d \<noteq> CHR ''%'' \<Longrightarrow>
    Logger_log (CHR ''%'' # d # s) (v # vs) q = bindr (pushValue v q) (Logger_log (d # s) vs)"
  by simp_all

text \<open>The outcome of a call on any queue is that of \<open>log_call\<close>.\<close>

definition log_agrees :: "unit res \<Rightarrow> LogElement LFQueue res \<Rightarrow> bool" where
  "log_agrees c r \<longleftrightarrow> (case r of Inl e \<Rightarrow> c = Inl e | Inr q \<Rightarrow> c = Inr () \<and> lfq_wf q)"

lemma log_agrees_simps [simp]:
  "log_agrees (FATAL m) (FATAL m)" "log_agrees (Inr ()) (Inr q) \<longleftrightarrow> lfq_wf q"
  by (simp_all add: log_agrees_def FATAL_def)

lemma log_last_outcome: "lfq_wf q \<Longrightarrow> log_agrees (log_call s 0) (log_last s q)"
proof (induction s arbitrary: q rule: placeholders.induct)
  case 1
  then show ?case by (simp add: log_call_place)
next
  case (2 c)
  obtain q1 where "pushChar c q = Inr q1" "lfq_wf q1" using pushChar_wf[OF 2] by blast
  then show ?case by (simp add: log_call_def)
next
  case (3 c d s)
  obtain q1 where q1: "pushChar c q = Inr q1" "lfq_wf q1" using pushChar_wf[OF 3(4)] by blast
  consider "c = CHR ''%''" "d = CHR ''%''" | "c = CHR ''%''" "d \<noteq> CHR ''%''" | "c \<noteq> CHR ''%''"
    by blast
  then show ?case
  proof cases
    case 1
    then show ?thesis using 3(1)[OF 1 q1(2)] q1(1)
      by (simp add: log_call_pct log_last_steps del: log_last.simps)
  next
    case 2
    then show ?thesis by (simp add: log_call_place log_last_steps del: log_last.simps)
  next
    case not: 3
    show ?thesis using 3(3)[OF not q1(2)] q1(1) not
      by (simp add: log_call_char log_last_steps del: log_last.simps)
  qed
qed

lemma Logger_log_outcome:
  "lfq_wf q \<Longrightarrow> log_agrees (log_call s (length vs)) (Logger_log s vs q)"
proof (induction s arbitrary: vs q rule: placeholders.induct)
  case 1
  then show ?case by (cases vs) (simp_all add: log_call_place)
next
  case (2 c)
  obtain q1 where q1: "pushChar c q = Inr q1" "lfq_wf q1" using pushChar_wf[OF 2] by blast
  obtain q2 where q2: "pushValue (hd vs) q = Inr q2" "lfq_wf q2" using pushValue_wf[OF 2] by blast
  show ?case using log_last_outcome[OF 2, of "[c]"] q1 q2
    by (cases vs; cases "tl vs") (auto simp: log_call_def)
next
  case (3 c d s)
  show ?case
  proof (cases vs)
    case Nil
    then show ?thesis using log_last_outcome[OF 3(4), of "c # d # s"]
      by (simp del: log_last.simps)
  next
    case (Cons v vs')
    obtain q1 where q1: "pushChar c q = Inr q1" "lfq_wf q1" using pushChar_wf[OF 3(4)] by blast
    obtain q3 where q3: "pushValue v q = Inr q3" "lfq_wf q3" using pushValue_wf[OF 3(4)] by blast
    consider "c = CHR ''%''" "d = CHR ''%''" | "c = CHR ''%''" "d \<noteq> CHR ''%''" | "c \<noteq> CHR ''%''"
      by blast
    then show ?thesis
    proof cases
      case 1
      then show ?thesis using 3(1)[OF 1 q1(2), of vs] q1(1) Cons
        by (simp add: log_call_pct Logger_log_steps del: Logger_log.simps)
    next
      case 2
      then show ?thesis using 3(2)[OF 2 q3(2), of vs'] q3(1) Cons
        by (simp add: log_call_place Logger_log_steps del: Logger_log.simps)
    next
      case not: 3
      show ?thesis using 3(3)[OF not q1(2), of vs] q1(1) not Cons
        by (simp add: log_call_char Logger_log_steps del: Logger_log.simps)
    qed
  qed
qed

end
