(* ===== verification/MatchingEngine.thy ===== *)
theory MatchingEngine
  imports MEOrderBookPrint MEOrderBookOps Logging
begin

text \<open>
  \<open>exchange/matcher/matching_engine.h\<close> and \<open>matching_engine.cpp\<close>: the thread that takes client
  requests off its queue and hands each to an order book. A request runs on a book together
  with the engine's two outgoing queues (\<open>MEContext\<close>); \<open>context_of\<close> and \<open>put_context\<close> move
  between the two. The log calls all have as many arguments as placeholders and are left out.
\<close>

record MatchingEngine =
  ticker_order_book :: "nat \<Rightarrow> MEOrderBook"
  eng_requests :: ClientRequestLFQueue
  eng_responses :: ClientResponseLFQueue
  eng_updates :: MEMarketUpdateLFQueue
  eng_run :: bool

definition MatchingEngine_ctor ::
  "(nat \<Rightarrow> nat \<Rightarrow> nat \<Rightarrow> ptr) \<Rightarrow> (nat \<Rightarrow> nat \<Rightarrow> ptr) \<Rightarrow> ClientRequestLFQueue \<Rightarrow> ClientResponseLFQueue
    \<Rightarrow> MEMarketUpdateLFQueue \<Rightarrow> MatchingEngine" where
  "MatchingEngine_ctor raw_cid raw_px client_requests client_responses market_updates =
     \<lparr>ticker_order_book = (\<lambda>i. MEOrderBook_ctor (raw_cid i) (raw_px i) (of_nat i)),
      eng_requests = client_requests, eng_responses = client_responses,
      eng_updates = market_updates, eng_run = False\<rparr>"

definition context_of :: "MatchingEngine \<Rightarrow> nat \<Rightarrow> MEContext" where
  "context_of e i = MEOrderBook.MEOrderBook.extend (ticker_order_book e i)
     \<lparr>outgoing_ogw_responses = eng_responses e, outgoing_md_updates = eng_updates e\<rparr>"

definition put_context :: "nat \<Rightarrow> MEContext \<Rightarrow> MatchingEngine \<Rightarrow> MatchingEngine" where
  "put_context i s e =
     e\<lparr>ticker_order_book := (ticker_order_book e)(i := MEOrderBook.MEOrderBook.truncate s),
       eng_responses := outgoing_ogw_responses s, eng_updates := outgoing_md_updates s\<rparr>"

definition MatchingEngine_start :: "(int \<Rightarrow> int) \<Rightarrow> MatchingEngine \<Rightarrow> MatchingEngine res" where
  "MatchingEngine_start aff e =
     bindr (ASSERT (createAndStartThread aff (- 1)) ''Failed to start MatchingEngine thread.'')
       (\<lambda>_. Inr (e\<lparr>eng_run := True\<rparr>))"

definition MatchingEngine_stop :: "MatchingEngine \<Rightarrow> MatchingEngine" where
  "MatchingEngine_stop e = e\<lparr>eng_run := False\<rparr>"

text \<open>The destructor deletes the books; a deleted book prints itself first.\<close>

definition MatchingEngine_dtor :: "MatchingEngine \<Rightarrow> MatchingEngine res" where
  "MatchingEngine_dtor e =
     fold_res (\<lambda>i e. bindr (MEOrderBook_dtor (ticker_order_book e i)) (\<lambda>b.
         Inr (e\<lparr>ticker_order_book := (ticker_order_book e)(i := b)\<rparr>)))
       [0..<ME_MAX_TICKERS] (e\<lparr>eng_run := False\<rparr>)"

text \<open>The array of books is subscripted with the \<^emph>\<open>client\<close> id of the request.\<close>

definition processClientRequest :: "MEClientRequest \<Rightarrow> MatchingEngine \<Rightarrow> MatchingEngine res" where
  "processClientRequest client_request e =
     bindr (sub_idx ME_MAX_TICKERS (unat (rq_client_id client_request)) (\<lambda>i. i)) (\<lambda>order_book.
     bindr (case rq_type client_request of
              CRT_NEW \<Rightarrow>
                add (rq_client_id client_request) (rq_order_id client_request)
                  (rq_ticker_id client_request) (rq_side client_request)
                  (rq_price client_request) (rq_qty client_request) (context_of e order_book)
            | CRT_CANCEL \<Rightarrow>
                cancel (rq_client_id client_request) (rq_order_id client_request)
                  (rq_ticker_id client_request) (context_of e order_book)
            | _ \<Rightarrow> FATAL (''Received invalid client-request-type:''
                     @ clientRequestTypeToString (rq_type client_request))) (\<lambda>s.
     Inr (put_context order_book s e)))"

text \<open>One iteration of the thread's loop, and the loop.\<close>

definition MatchingEngine_iteration :: "MatchingEngine \<Rightarrow> MatchingEngine res" where
  "MatchingEngine_iteration e =
     (case getNextToRead (eng_requests e) of
        None \<Rightarrow> Inr e
      | Some client_request \<Rightarrow>
          bindr (processClientRequest client_request e) (\<lambda>e.
          bindr (updateReadIndex (eng_requests e)) (\<lambda>q. Inr (e\<lparr>eng_requests := q\<rparr>))))"

definition MatchingEngine_run ::
  "((MatchingEngine \<Rightarrow> MatchingEngine) \<times> bool) list \<Rightarrow> MatchingEngine \<Rightarrow> MatchingEngine res" where
  "MatchingEngine_run sched e = run_while sched MatchingEngine_iteration e"

section \<open>The engine refines a family of abstract books\<close>

definition engine_refines :: "MatchingEngine \<Rightarrow> (nat \<Rightarrow> abook) \<Rightarrow> bool" where
  "engine_refines e Bs \<longleftrightarrow>
     (\<forall>i < ME_MAX_TICKERS. me_refines (ticker_order_book e i) (Bs i)
        \<and> next_market_order_id (ticker_order_book e i) = 1)
     \<and> lfq_wf (eng_responses e) \<and> lfq_wf (eng_updates e)"

text \<open>The engine after sending \<open>rs\<close> and \<open>us\<close>.\<close>

definition eng_sent ::
  "MEClientResponse list \<Rightarrow> MEMarketUpdate list \<Rightarrow> MatchingEngine \<Rightarrow> MatchingEngine \<Rightarrow> bool" where
  "eng_sent rs us e e' \<longleftrightarrow>
     fold_res lfq_push rs (eng_responses e) = Inr (eng_responses e')
     \<and> fold_res lfq_push us (eng_updates e) = Inr (eng_updates e')
     \<and> eng_requests e' = eng_requests e"

lemma context_of_core:
  "same_core (ticker_order_book e i) (context_of e i)"
  "next_market_order_id (context_of e i) = next_market_order_id (ticker_order_book e i)"
  "outgoing_ogw_responses (context_of e i) = eng_responses e"
  "outgoing_md_updates (context_of e i) = eng_updates e"
  by (simp_all add: same_core_def context_of_def MEOrderBook.MEOrderBook.extend_def)

lemma truncate_core:
  fixes s :: MEContext
  shows "same_core s (MEOrderBook.MEOrderBook.truncate s)"
  "next_market_order_id (MEOrderBook.MEOrderBook.truncate s) = next_market_order_id s"
  by (simp_all add: same_core_def MEOrderBook.MEOrderBook.truncate_def)

lemma context_of_refines:
  assumes "engine_refines e Bs" "i < ME_MAX_TICKERS"
  shows "me_refines (context_of e i) (Bs i)" "queues_ok (context_of e i)"
    "next_market_order_id (context_of e i) = 1"
proof -
  have "me_refines (ticker_order_book e i) (Bs i)" using assms by (simp add: engine_refines_def)
  then show "me_refines (context_of e i) (Bs i)"
    using same_core_eqs(6)[OF context_of_core(1)] by blast
qed (use assms in \<open>simp_all add: engine_refines_def queues_ok_def context_of_core\<close>)

lemma put_context_refines:
  assumes "engine_refines e Bs" "i < ME_MAX_TICKERS" "me_refines s A" "queues_ok s"
    "next_market_order_id s = 1"
  shows "engine_refines (put_context i s e) (Bs(i := A))"
proof -
  have "me_refines (MEOrderBook.MEOrderBook.truncate s) A"
    using same_core_eqs(6)[OF truncate_core(1)] assms(3) by blast
  then show ?thesis
    using assms truncate_core(2)[of s]
    by (simp add: engine_refines_def put_context_def queues_ok_def)
qed

lemma put_context_sent:
  "sent rs us (context_of e i) s \<Longrightarrow> eng_sent rs us e (put_context i s e)"
  by (simp add: sent_def eng_sent_def context_of_core put_context_def)

lemma process_new:
  assumes e: "engine_refines e Bs" and c: "unat (rq_client_id r) < ME_MAX_TICKERS"
    and t: "rq_type r = CRT_NEW" and sd: "rq_side r = BUY \<or> rq_side r = SELL"
    and "alevels_ok (Bs (unat (rq_client_id r)) (opp (rq_side r)))"
    and "can_rest (rq_client_id r) (rq_order_id r) (rq_side r) (rq_price r) (Bs (unat (rq_client_id r)))"
    and sp: "spec_add (rq_ticker_id r) 1 (rq_client_id r) (rq_order_id r) (rq_side r) (rq_price r)
               (rq_qty r) (Bs (unat (rq_client_id r))) = (A', rs, us)"
  shows "\<exists>e'. processClientRequest r e = Inr e'
    \<and> engine_refines e' (Bs(unat (rq_client_id r) := A')) \<and> eng_sent rs us e e'"
proof -
  let ?i = "unat (rq_client_id r)"
  note ctx = context_of_refines[OF e c]
  obtain s where s: "add (rq_client_id r) (rq_order_id r) (rq_ticker_id r) (rq_side r) (rq_price r)
      (rq_qty r) (context_of e ?i) = Inr s" "sent rs us (context_of e ?i) s" "me_refines s A'"
    using add_ok[OF ctx(1,2) sd assms(5,6), unfolded ctx(3), OF sp] by blast
  have "next_market_order_id s = 1" using s(2) ctx(3) by (simp add: sent_def)
  then have "engine_refines (put_context ?i s e) (Bs(?i := A'))"
    using put_context_refines[OF e c s(3) sent_queues[OF s(2)]] by blast
  then show ?thesis using s(1) put_context_sent[OF s(2)] c t by (simp add: processClientRequest_def)
qed

text \<open>A request does not look at the queue it came from.\<close>

lemma process_frame:
  "processClientRequest r (e\<lparr>eng_requests := q\<rparr>)
     = bindr (processClientRequest r e) (\<lambda>e'. Inr (e'\<lparr>eng_requests := q\<rparr>))"
proof -
  have c: "context_of (e\<lparr>eng_requests := q\<rparr>) i = context_of e i" for i
    by (simp add: context_of_def)
  have p: "put_context i s (e\<lparr>eng_requests := q\<rparr>) = (put_context i s e)\<lparr>eng_requests := q\<rparr>" for i s
    by (simp add: put_context_def)
  show ?thesis
    unfolding processClientRequest_def c p bindr_assoc by (simp add: bindr_def split: sum.splits)
qed

lemma process_keeps_requests:
  "processClientRequest r e = Inr e' \<Longrightarrow> eng_requests e' = eng_requests e"
  by (auto simp: processClientRequest_def put_context_def elim!: bindr_InrE)

text \<open>Iterations of the loop take the requests off the queue in order.\<close>

lemma run_handles_all:
  assumes "lfq_ok (eng_requests e)" "lfq_items (eng_requests e) = rs"
    and "fold_res processClientRequest rs e = Inr ef" "length rs \<le> n"
  shows "\<exists>q. MatchingEngine_run (undisturbed n) e = Inr (ef\<lparr>eng_requests := q\<rparr>)
    \<and> lfq_ok q \<and> lfq_items q = []"
  using assms
proof (induction n arbitrary: rs e ef)
  case 0
  then show ?case by (intro exI[of _ "eng_requests e"]) (simp add: MatchingEngine_run_def)
next
  case (Suc n)
  show ?case
  proof (cases rs)
    case Nil
    then have "MatchingEngine_iteration e = Inr e"
      using lfq.peek_law[OF Suc.prems(1)] Suc.prems(2) by (simp add: MatchingEngine_iteration_def)
    then show ?thesis
      using Suc.IH[OF Suc.prems(1,2)] Suc.prems(3) Nil by (simp add: MatchingEngine_run_def)
  next
    case (Cons r rs')
    obtain e2 where e2: "processClientRequest r e = Inr e2" "fold_res processClientRequest rs' e2 = Inr ef"
      using Suc.prems(3) Cons by (auto elim: bindr_InrE)
    have rq: "eng_requests e2 = eng_requests e" by (rule process_keeps_requests[OF e2(1)])
    obtain q where q: "updateReadIndex (eng_requests e) = Inr q" "lfq_ok q" "lfq_items q = rs'"
      using lfq.pop_law[OF Suc.prems(1)] Suc.prems(2) Cons by auto
    have it: "MatchingEngine_iteration e = Inr (e2\<lparr>eng_requests := q\<rparr>)"
      using lfq.peek_law[OF Suc.prems(1)] Suc.prems(2) Cons e2(1) q(1) rq
      by (simp add: MatchingEngine_iteration_def)
    have f: "fold_res processClientRequest ys (d\<lparr>eng_requests := q\<rparr>)
        = bindr (fold_res processClientRequest ys d) (\<lambda>d'. Inr (d'\<lparr>eng_requests := q\<rparr>))" for ys d q
    proof (induction ys arbitrary: d)
      case (Cons y ys)
      show ?case
        using Cons by (cases "processClientRequest y d") (simp_all add: process_frame bindr_assoc)
    qed simp
    have "\<exists>q'. MatchingEngine_run (undisturbed n) (e2\<lparr>eng_requests := q\<rparr>)
        = Inr ((ef\<lparr>eng_requests := q\<rparr>)\<lparr>eng_requests := q'\<rparr>) \<and> lfq_ok q' \<and> lfq_items q' = []"
      by (rule Suc.IH[of _ rs']) (use q e2(2) f Suc.prems(4) Cons in simp_all)
    then show ?thesis using it by (simp add: MatchingEngine_run_def)
  qed
qed

end
