(* ===== verification/BookProps.thy ===== *)
theory BookProps
  imports MEOrderBookOps
begin

text \<open>
  The properties of the matching engine's order book, each over a book in any state that
  represents an abstract book (\<open>me_refines\<close>), with the concrete states their witnesses use.
\<close>

section \<open>States for the witnesses\<close>

text \<open>A new book whose memory happened to be zeroed, next to two new queues.\<close>

definition new_context :: "TickerId \<Rightarrow> MEContext" where
  "new_context t = MEOrderBook.MEOrderBook.extend (MEOrderBook_ctor (\<lambda>_ _. None) (\<lambda>_. None) t)
     \<lparr>outgoing_ogw_responses = LFQueue_ctor MEClientResponse_default ME_MAX_CLIENT_UPDATES,
      outgoing_md_updates = LFQueue_ctor MEMarketUpdate_default ME_MAX_MARKET_UPDATES\<rparr>"

lemma new_context_simps [simp]:
  "next_market_order_id (new_context t) = 1" "ticker_id (new_context t) = t"
  by (simp_all add: new_context_def MEOrderBook_ctor_def MEOrderBook.MEOrderBook.extend_def)

lemma new_context_queues: "queues_ok (new_context t)"
  by (simp add: queues_ok_def new_context_def MEOrderBook.MEOrderBook.extend_def lfq_wf_def
      LFQueue_ctor_def limit_defs)

lemma new_context_refines: "me_refines (new_context t) (\<lambda>_. [])"
proof -
  have "same_core (MEOrderBook_ctor (\<lambda>_ _. None) (\<lambda>_. None) t) (new_context t)"
    by (simp add: same_core_def new_context_def MEOrderBook.MEOrderBook.extend_def)
  moreover have "me_refines (MEOrderBook_ctor (\<lambda>_ _. None) (\<lambda>_. None) t) (\<lambda>_. [])"
    by (rule MEOrderBook_ctor_refines) auto
  ultimately show ?thesis using same_core_eqs(6) by blast
qed

definition sample_order :: aorder where
  "sample_order = \<lparr>a_client = 1, a_coid = 5, a_moid = 1, a_qty = 10, a_prio = 1\<rparr>"

text \<open>The book after client 1 bids 10 at 100.\<close>

definition sample_book :: abook where
  "sample_book = (\<lambda>_. [])(BUY := [(100, [sample_order])])"

lemma sample_sides [simp]:
  "sample_book BUY = [(100, [sample_order])]" "sample_book SELL = []"
  by (simp_all add: sample_book_def)

lemma sample_bid: "\<exists>s. me_refines s sample_book \<and> queues_ok s \<and> next_market_order_id s = 1"
proof -
  have sp: "\<exists>rs us. spec_add 0 (next_market_order_id (new_context 0)) 1 5 BUY 100 10 (\<lambda>_. [])
     = (sample_book, rs, us)"
    by (simp add: spec_add_def sample_book_def sample_order_def next_prio_def)
      (simp add: fun_eq_iff)
  then obtain rs us where "spec_add 0 (next_market_order_id (new_context 0)) 1 5 BUY 100 10 (\<lambda>_. [])
     = (sample_book, rs, us)" by blast
  moreover have "can_rest 1 5 BUY 100 (\<lambda>_. [])"
    by (simp add: can_rest_def book_orders_def book_levels_def limit_defs)
  ultimately show ?thesis
    using add_ok[OF new_context_refines new_context_queues, of BUY] by (fastforce simp: sent_def)
qed

section \<open>Matching\<close>

text \<open>C2: \<open>checkForMatch\<close> refines the sweep of the specification: on any well-formed book it
  returns (its pointer-chasing loop ends), with the quantity the sweep leaves, the opposite
  side as the sweep leaves it, the own side unchanged, and exactly the responses and updates
  of the sweep's fills on the queues, in order.\<close>

theorem checkForMatch_refines:
  assumes "me_refines s A" "queues_ok s" "side = BUY \<or> side = SELL"
    and "sweep (crosses_at side price) qty (A (opp side)) = (left, M, fs)"
  shows "\<exists>s'. checkForMatch cid coid tid side price qty moid s = Inr (left, s')
     \<and> sent (concat (map (fill_responses tid cid side coid (fill_id moid) (opp side)) fs))
         (concat (map (fill_updates tid side (opp side)) fs)) s s'
     \<and> me_refines s' (A(opp side := M))"
  by (rule checkForMatch_ok[OF assms fill_id_def])

lemma sample_sweep:
  "sweep (crosses_at SELL 90) 4 (sample_book (opp SELL))
     = (0, [(100, [sample_order\<lparr>a_qty := 6\<rparr>])],
        [\<lparr>f_price = 100, f_order = sample_order, f_qty = 4, f_left = 0\<rparr>])"
  by (simp add: sample_book_def sample_order_def crosses_at_def)

theorem checkForMatch_refines_witness:
  "\<exists>s s'. me_refines s sample_book
     \<and> checkForMatch 2 7 0 SELL 90 4 1 s = Inr (0, s')
     \<and> me_refines s' (sample_book(BUY := [(100, [sample_order\<lparr>a_qty := 6\<rparr>])]))"
proof -
  obtain s where s: "me_refines s sample_book" "queues_ok s" using sample_bid by blast
  show ?thesis
    using checkForMatch_refines[OF s disjI2[OF refl] sample_sweep, of 2 7 0 1] s(1) by auto
qed

text \<open>C10: Price-time priority. On a well-formed book without empty orders on the opposite
  side, the orders an incoming BUY or SELL order trades with are the first ones of the opposite side
  in the order of price and then arrival, every one of them but the last is filled completely, and
  every fill is at a price that crosses the limit.\<close>

theorem checkForMatch_priority:
  assumes "me_refines s A" "queues_ok s" "side = BUY \<or> side = SELL" "alevels_ok (A (opp side))"
  shows "\<exists>left s' fs. checkForMatch cid coid tid side price qty moid s = Inr (left, s')
     \<and> sent (concat (map (fill_responses tid cid side coid (fill_id moid) (opp side)) fs))
         (concat (map (fill_updates tid side (opp side)) fs)) s s'
     \<and> map f_order fs = take (length fs) (concat (map snd (A (opp side))))
     \<and> (\<forall>f \<in> set (butlast fs). f_qty f = a_qty (f_order f))
     \<and> (\<forall>f \<in> set fs. crosses_at side price (f_price f))"
proof -
  obtain left M fs where sw: "sweep (crosses_at side price) qty (A (opp side)) = (left, M, fs)"
    by (metis prod_cases3)
  show ?thesis
    using checkForMatch_ok[OF assms(1-3) sw fill_id_def] sweep_priority[OF assms(4) sw] by blast
qed

lemma sample_ok: "alevels_ok (sample_book sd)"
  by (simp add: sample_book_def sample_order_def)

theorem checkForMatch_priority_witness:
  "\<exists>s left s' (fs :: fill list). me_refines s sample_book
     \<and> checkForMatch 2 7 0 SELL 90 4 1 s = Inr (left, s')
     \<and> map f_order fs = take (length fs) (concat (map snd (sample_book BUY)))"
proof -
  obtain s where s: "me_refines s sample_book" "queues_ok s" using sample_bid by blast
  obtain left s' and fs :: "fill list" where "checkForMatch 2 7 0 SELL 90 4 1 s = Inr (left, s')"
    "map f_order fs = take (length fs) (concat (map snd (sample_book BUY)))"
    using checkForMatch_priority[OF s disjI2[OF refl] sample_ok, of 2 7 0 90 4 1]
    unfolding opp_simps(2) by blast
  then show ?thesis using s(1) by blast
qed

text \<open>C11: Matching conserves quantity: on a well-formed book, what the incoming BUY or SELL
  order wanted is what it still wants plus what was filled, and the opposite side lost exactly what
  was filled, with no wrap-around of the 32-bit quantities on the way.\<close>

theorem checkForMatch_conserves:
  assumes "me_refines s A" "queues_ok s" "side = BUY \<or> side = SELL"
  shows "\<exists>left s' M fs. checkForMatch cid coid tid side price qty moid s = Inr (left, s')
     \<and> me_refines s' (A(opp side := M))
     \<and> sent (concat (map (fill_responses tid cid side coid (fill_id moid) (opp side)) fs))
         (concat (map (fill_updates tid side (opp side)) fs)) s s'
     \<and> unat qty = unat left + filled_qty fs
     \<and> resting_qty (A (opp side)) = resting_qty M + filled_qty fs"
proof -
  obtain left M fs where sw: "sweep (crosses_at side price) qty (A (opp side)) = (left, M, fs)"
    by (metis prod_cases3)
  show ?thesis
    using checkForMatch_ok[OF assms sw fill_id_def] sweep_conserves[OF sw] by blast
qed

theorem checkForMatch_conserves_witness:
  "\<exists>s left s' M fs. me_refines s sample_book
     \<and> checkForMatch 2 7 0 SELL 90 4 1 s = Inr (left, s')
     \<and> me_refines s' (sample_book(BUY := M))
     \<and> unat (4::Qty) = unat left + filled_qty fs
     \<and> resting_qty (sample_book BUY) = resting_qty M + filled_qty fs"
proof -
  obtain s where s: "me_refines s sample_book" "queues_ok s" using sample_bid by blast
  show ?thesis
    using checkForMatch_conserves[OF s disjI2[OF refl], of 2 7 0 90 4 1] s(1)
    unfolding opp_simps(2) by blast
qed

section \<open>Adding\<close>

text \<open>C1: \<open>add\<close> refines the specification for orders that can rest
  (\<open>can_rest\<close>): the client gets its ACCEPTED and the fills, the market the trades and
  the change of each resting order, and what is left of the order joins the queue of its price (or
  opens that level at its sorted place) with the next priority, announced by an ADD. The premises:
  the book is well formed, without empty levels or empty orders on the opposite side, the order is a
  BUY or a SELL, its ids lie inside the tables and no live order of the client has its order id, no
  live level of either side has another price with the same index (the price modulo
  \<open>ME_MAX_PRICE_LEVELS\<close>), both pools have room for one more entry, and a SELL does not
  come in front of two or more ask levels (what happens then is
  \<open>new_best_ask_breaks_the_ladder\<close>). All of that is demanded of an order that is filled
  at once, too.\<close>

theorem add_refines:
  assumes "me_refines s A" "queues_ok s" "side = BUY \<or> side = SELL"
    and "alevels_ok (A (opp side))" "can_rest cid coid side price A"
    and "spec_add tid (next_market_order_id s) cid coid side price qty A = (A', rs, us)"
  shows "\<exists>s'. add cid coid tid side price qty s = Inr s' \<and> sent rs us s s' \<and> me_refines s' A'"
  by (rule add_ok[OF assms])

lemma sample_can_rest: "can_rest 2 7 SELL 100 sample_book"
  by (simp add: can_rest_def book_orders_def book_levels_def sample_book_def sample_order_def
      has_ids_def limit_defs)

theorem add_refines_witness:
  "\<exists>s s'. me_refines s sample_book \<and> add 2 7 0 SELL 100 25 s = Inr s'
     \<and> me_refines s' (sample_book(BUY := [], SELL := [(100, [\<lparr>a_client = 2, a_coid = 7,
          a_moid = 1, a_qty = 15, a_prio = 1\<rparr>])]))"
proof -
  obtain s where s: "me_refines s sample_book" "queues_ok s" "next_market_order_id s = 1"
    using sample_bid by blast
  obtain A' rs us where sp: "spec_add 0 (next_market_order_id s) 2 7 SELL 100 25 sample_book = (A', rs, us)"
    by (metis prod_cases3)
  then have "A' = sample_book(BUY := [], SELL := [(100, [\<lparr>a_client = 2, a_coid = 7,
          a_moid = 1, a_qty = 15, a_prio = 1\<rparr>])])"
    by (simp add: spec_add_def Let_def s(3) sample_order_def crosses_at_def next_prio_def)
  then show ?thesis
    using add_refines[OF s(1,2) disjI2[OF refl] sample_ok sample_can_rest sp] s(1) by auto
qed

text \<open>Bids below asks.\<close>

definition uncrossed :: "abook \<Rightarrow> bool" where
  "uncrossed A \<longleftrightarrow> (\<forall>p \<in> fst ` set (A BUY). \<forall>q \<in> fst ` set (A SELL). p < q)"

lemma uncrossed_mono:
  assumes "uncrossed A" "fst ` set (B BUY) \<subseteq> fst ` set (A BUY)" "fst ` set (B SELL) \<subseteq> fst ` set (A SELL)"
  shows "uncrossed B"
  using assms unfolding uncrossed_def by (meson subsetD)

lemma enqueue_prices: "fst ` set (enqueue sd p ao L) = insert p (fst ` set L)"
  by (induction sd p ao L rule: enqueue.induct) auto

lemma spec_add_uncrossed:
  assumes "uncrossed A" "alevels_ok (A (opp side))" "side = BUY \<or> side = SELL"
    and sorted: "prices_sorted (opp side) (A (opp side))"
    and sp: "spec_add tid moid cid coid side price qty A = (A', rs, us)"
  shows "uncrossed A'"
proof -
  obtain left M fs where sw: "sweep (crosses_at side price) qty (A (opp side)) = (left, M, fs)"
    by (metis prod_cases3)
  have sub: "fst ` set M \<subseteq> fst ` set (A (opp side))" using sweep_shrinks(3)[OF sw] .
  have un1: "uncrossed (A(opp side := M))"
  proof (rule uncrossed_mono[OF assms(1)])
    show "fst ` set ((A(opp side := M)) BUY) \<subseteq> fst ` set (A BUY)"
      using sub assms(3) by (elim disjE) simp_all
    show "fst ` set ((A(opp side := M)) SELL) \<subseteq> fst ` set (A SELL)"
      using sub assms(3) by (elim disjE) simp_all
  qed
  show ?thesis
  proof (cases "left = 0")
    case True
    then show ?thesis using sp sw un1 by (simp add: spec_add_def Let_def)
  next
    case False
    obtain n where "map fst M = drop n (map fst (A (opp side)))"
      using sweep_prices[of "crosses_at side price" qty "A (opp side)"] sw by auto
    moreover have "sorted_wrt (better (opp side)) (map fst (A (opp side)))"
      using sorted by (simp add: prices_sorted_def sorted_wrt_map)
    ultimately have "sorted_wrt (better (opp side)) (map fst M)" by (simp add: sorted_wrt_drop)
    then have "prices_sorted (opp side) M" by (simp add: prices_sorted_def sorted_wrt_map)
    note nc = sweep_uncrossed[OF assms(2,3) sw False this]
    obtain ao where A': "A' = A(opp side := M, side := enqueue side price ao (A side))"
      using sp sw False by (auto simp: spec_add_def Let_def)
    note en = enqueue_prices[of side price ao "A side"]
    have far: "\<not> crosses_at side price p" if "p \<in> fst ` set M" for p
      using nc that by blast
    show ?thesis
      using assms(3)
    proof (elim disjE)
      assume sd: "side = BUY"
      then have "price < p" if "p \<in> fst ` set M" for p
        using far[OF that] by (simp add: crosses_at_def)
      then show ?thesis using un1 en sd unfolding uncrossed_def A' by simp
    next
      assume sd: "side = SELL"
      then have "p < price" if "p \<in> fst ` set M" for p
        using far[OF that] by (simp add: crosses_at_def)
      then show ?thesis using un1 en sd unfolding uncrossed_def A' by simp
    qed
  qed
qed

text \<open>C12: The book does not become crossed by an order that can rest: if every bid was below
  every ask before \<open>add\<close>, it is so afterwards, because what trades against the limit is
  gone before the rest is added. The order is a BUY or a SELL that satisfies \<open>can_rest\<close>
  (ids inside the tables and not in use, no live level of either side at another price with the same
  index, room in both pools, no SELL in front of two or more ask levels), and the book is well
  formed, without empty levels or empty orders on the opposite side. Orders outside these conditions
  are not covered: a colliding price would join the level of another price, possibly of the other
  side.\<close>

theorem add_keeps_uncrossed:
  assumes "me_refines s A" "queues_ok s" "side = BUY \<or> side = SELL"
    and "alevels_ok (A (opp side))" "can_rest cid coid side price A" "uncrossed A"
  shows "\<exists>s' A'. add cid coid tid side price qty s = Inr s' \<and> me_refines s' A' \<and> uncrossed A'"
proof -
  obtain A' rs us where sp: "spec_add tid (next_market_order_id s) cid coid side price qty A = (A', rs, us)"
    by (metis prod_cases3)
  show ?thesis
    using add_ok[OF assms(1-5) sp]
      spec_add_uncrossed[OF assms(6,4,3) me_refines_sorted[OF assms(1) opp_simps(4)] sp] by blast
qed

theorem add_keeps_uncrossed_witness:
  "\<exists>s s' A'. me_refines s sample_book \<and> add 2 7 0 SELL 100 25 s = Inr s' \<and> me_refines s' A'
     \<and> uncrossed A'"
proof -
  obtain s where s: "me_refines s sample_book" "queues_ok s" using sample_bid by blast
  have "uncrossed sample_book" by (simp add: uncrossed_def sample_book_def)
  then show ?thesis
    using add_keeps_uncrossed[OF s disjI2[OF refl] sample_ok sample_can_rest] s(1) by blast
qed

section \<open>Cancelling\<close>

text \<open>C3: Cancelling a live order removes exactly that order from the book (and its level, if
  it was alone there), tells the client CANCELED with the remaining quantity and the market
  CANCEL.\<close>

theorem cancel_removes:
  assumes "me_refines s A" "queues_ok s" "sd = BUY \<or> sd = SELL"
    and "(p, os) \<in> set (A sd)" "ao \<in> set os" "has_ids cid coid ao"
  shows "\<exists>s'. cancel cid coid tid s = Inr s'
    \<and> sent [\<lparr>rs_type = CRS_CANCELED, rs_client_id = cid, rs_ticker_id = tid,
             rs_client_order_id = coid, rs_market_order_id = a_moid ao, rs_side = sd,
             rs_price = p, rs_exec_qty = Qty_INVALID, rs_leaves_qty = a_qty ao\<rparr>]
           [\<lparr>mu_type = MUT_CANCEL, mu_order_id = a_moid ao, mu_ticker_id = tid, mu_side = sd,
             mu_price = p, mu_qty = 0, mu_priority = a_prio ao\<rparr>] s s'
    \<and> me_refines s' (A(sd := withdraw (has_ids cid coid) (A sd)))"
  by (rule cancel_ok[OF assms])

theorem cancel_removes_witness:
  "\<exists>s s'. me_refines s sample_book \<and> cancel 1 5 0 s = Inr s' \<and> me_refines s' (\<lambda>_. [])"
proof -
  obtain s where s: "me_refines s sample_book" "queues_ok s" using sample_bid by blast
  have "(100, [sample_order]) \<in> set (sample_book BUY)" "sample_order \<in> set [sample_order]"
    "has_ids 1 5 sample_order"
    by (simp_all add: sample_book_def sample_order_def has_ids_def)
  note c = cancel_removes[OF s disjI1[OF refl] this, of 0]
  have "sample_book(BUY := withdraw (has_ids 1 5) (sample_book BUY)) = (\<lambda>_. [])"
    by (simp add: sample_book_def withdraw_def withdraw_level_def sample_order_def has_ids_def fun_eq_iff)
  then show ?thesis using c s(1) by auto
qed

text \<open>A cancel for an order the book does not have (an unknown client, or no live order with
  these ids) is answered with CANCEL_REJECTED and changes nothing else.\<close>

theorem cancel_unknown:
  assumes "me_refines s A" "queues_ok s"
    and "ME_MAX_NUM_CLIENTS \<le> unat cid
      \<or> unat coid < ME_MAX_ORDER_IDS \<and> (\<forall>ao \<in> set (book_orders A). \<not> has_ids cid coid ao)"
  shows "\<exists>s'. cancel cid coid tid s = Inr s' \<and> sent [cancel_rejected tid cid coid] [] s s'
    \<and> me_refines s' A"
  by (rule cancel_rejects[OF assms])

theorem cancel_unknown_witness:
  "\<exists>s s'. me_refines s sample_book \<and> cancel 3 9 0 s = Inr s'
     \<and> sent [cancel_rejected 0 3 9] [] s s' \<and> me_refines s' sample_book"
proof -
  obtain s where s: "me_refines s sample_book" "queues_ok s" using sample_bid by blast
  have "unat (9::OrderId) < ME_MAX_ORDER_IDS \<and> (\<forall>ao \<in> set (book_orders sample_book). \<not> has_ids 3 9 ao)"
    by (simp add: book_orders_def sample_book_def sample_order_def has_ids_def limit_defs)
  then show ?thesis using cancel_unknown[OF s, of 3 9 0] s(1) by blast
qed

text \<open>A cancel with an order id beyond the table ends the process: \<open>.at()\<close> throws inside a
  \<open>noexcept\<close> function, whatever the book holds.\<close>

theorem cancel_id_out_of_range:
  assumes "unat cid < ME_MAX_NUM_CLIENTS" "ME_MAX_ORDER_IDS \<le> unat coid"
  shows "cancel cid coid tid s = Inl (Terminated ''std::out_of_range'')"
  by (rule cancel_out_of_range[OF assms])

theorem cancel_id_out_of_range_witness:
  "cancel 0 0x100000 0 (new_context 0) = Inl (Terminated ''std::out_of_range'')"
  by (rule cancel_id_out_of_range) (simp_all add: limit_defs)

end
