(* ===== verification/EngineProps.thy ===== *)
theory EngineProps
  imports MatchingEngine BookProps
begin

text \<open>
  The properties of the matching engine: what a request does to the family of books, in which
  order requests are handled, and the consequences of choosing the book by the client id and
  of never advancing the market order id.
\<close>

section \<open>Whose orders a book holds\<close>

text \<open>Every level holds orders, none of them empty, and book \<open>i\<close> holds orders of client \<open>i\<close> only.\<close>

definition own_books :: "(nat \<Rightarrow> abook) \<Rightarrow> bool" where
  "own_books Bs \<longleftrightarrow> (\<forall>i sd. alevels_ok (Bs i sd)
     \<and> (\<forall>ao \<in> set (concat (map snd (Bs i sd))). unat (a_client ao) = i))"

lemma sweep_alevels_ok:
  "alevels_ok L \<Longrightarrow> sweep crosses q L = (q', M, fs) \<Longrightarrow> alevels_ok M"
proof (induction crosses q L arbitrary: q' M fs rule: sweep.induct)
  case (3 crosses q p ao os L)
  show ?case
  proof (cases "q = 0 \<or> \<not> crosses p \<or> q < a_qty ao")
    case True
    then have "M = (p, ao # os) # L \<or> q < a_qty ao \<and> M = (p, ao\<lparr>a_qty := a_qty ao - q\<rparr> # os) # L"
      using "3.prems"(2) by (auto split: if_splits)
    then show ?thesis using "3.prems"(1) by auto
  next
    case False
    obtain q1 M1 fs1 where s: "sweep crosses (q - a_qty ao) (if os = [] then L else (p, os) # L)
        = (q1, M1, fs1)" by (metis prod_cases3)
    have "alevels_ok (if os = [] then L else (p, os) # L)" using "3.prems"(1) by simp
    then have "alevels_ok M1" using "3.IH"[OF _ _ _ s] False by blast
    then show ?thesis using "3.prems"(2) False s by simp
  qed
qed auto

lemma enqueue_alevels_ok:
  "alevels_ok L \<Longrightarrow> a_qty ao \<noteq> 0 \<Longrightarrow> alevels_ok (enqueue sd p ao L)"
  by (induction sd p ao L rule: enqueue.induct) auto

lemma enqueue_orders:
  "set (concat (map snd (enqueue sd p ao L))) = insert ao (set (concat (map snd L)))"
  by (induction sd p ao L rule: enqueue.induct) auto

lemma spec_add_own:
  assumes own: "own_books Bs" and i: "unat cid = i" and sd: "side = BUY \<or> side = SELL"
    and sp: "spec_add tid moid cid coid side price qty (Bs i) = (A', rs, us)"
  shows "own_books (Bs(i := A'))" and "\<forall>r \<in> set rs. rs_client_id r = cid"
    and "\<forall>u \<in> set us. mu_type u = MUT_ADD \<longrightarrow> mu_order_id u = moid"
proof -
  obtain left M fs where sw: "sweep (crosses_at side price) qty (Bs i (opp side)) = (left, M, fs)"
    by (metis prod_cases3)
  have ok: "alevels_ok (Bs i sd')"
    and own': "ao \<in> set (concat (map snd (Bs i sd'))) \<Longrightarrow> unat (a_client ao) = i" for sd' ao
    using own by (auto simp: own_books_def)
  have "f_order f \<in> set (map f_order fs)" if "f \<in> set fs" for f :: fill using that by auto
  then have mine: "a_client (f_order f) = cid" if "f \<in> set fs" for f :: fill
    using own' i that sweep_priority(1)[OF ok sw] by (metis in_set_takeD word_unat_eq_iff)
  have M: "alevels_ok M" "ao \<in> set (concat (map snd M)) \<Longrightarrow> unat (a_client ao) = i" for ao
  proof -
    show "alevels_ok M" by (rule sweep_alevels_ok[OF ok sw])
    assume "ao \<in> set (concat (map snd M))"
    then obtain bo where "bo \<in> set (concat (map snd (Bs i (opp side))))" "ao_ids ao = ao_ids bo"
      using sweep_shrinks(4)[OF sw] by (metis (no_types, lifting) image_iff subsetD)
    then show "unat (a_client ao) = i" using own' by (auto simp: ao_ids_def)
  qed
  let ?ao = "\<lparr>a_client = cid, a_coid = coid, a_moid = moid, a_qty = left,
                a_prio = next_prio price (Bs i side)\<rparr>"
  have A': "A' = (Bs i)(opp side := M) \<or>
      left \<noteq> 0 \<and> A' = (Bs i)(opp side := M, side := enqueue side price ?ao (Bs i side))"
    using sp sw sd by (auto simp: spec_add_def Let_def split: if_splits)
  have "alevels_ok (A' sd') \<and> (\<forall>ao \<in> set (concat (map snd (A' sd'))). unat (a_client ao) = i)" for sd'
    using A'
  proof (elim disjE conjE)
    assume "A' = (Bs i)(opp side := M)"
    then show ?thesis using M ok own' by (cases "sd' = opp side") simp_all
  next
    assume l: "left \<noteq> 0" and A': "A' = (Bs i)(opp side := M, side := enqueue side price ?ao (Bs i side))"
    show ?thesis
    proof (cases "sd' = side")
      case True
      then show ?thesis
        using enqueue_alevels_ok[OF ok, of ?ao] enqueue_orders[of side price ?ao "Bs i side"] l i own'
        unfolding A' by (simp del: set_concat)
    next
      case False
      then show ?thesis using M ok own' unfolding A' by (cases "sd' = opp side") simp_all
    qed
  qed
  then show "own_books (Bs(i := A'))" using own by (simp add: own_books_def)
  have r: "rs = \<lparr>rs_type = CRS_ACCEPTED, rs_client_id = cid, rs_ticker_id = tid,
            rs_client_order_id = coid, rs_market_order_id = moid, rs_side = side,
            rs_price = price, rs_exec_qty = 0, rs_leaves_qty = qty\<rparr>
       # concat (map (fill_responses tid cid side coid (fill_id moid) (opp side)) fs)"
    using sp sw by (auto simp: spec_add_def Let_def split: if_splits)
  then show "\<forall>r \<in> set rs. rs_client_id r = cid"
    using mine by (auto simp: fill_responses_def)
  have "us = concat (map (fill_updates tid side (opp side)) fs)
     \<or> (\<exists>u. mu_order_id u = moid \<and> us = concat (map (fill_updates tid side (opp side)) fs) @ [u])"
    using sp sw by (auto simp: spec_add_def Let_def split: if_splits)
  then show "\<forall>u \<in> set us. mu_type u = MUT_ADD \<longrightarrow> mu_order_id u = moid"
    by (auto simp: fill_updates_def split: if_splits)
qed

section \<open>States for the witnesses\<close>

definition new_engine :: MatchingEngine where
  "new_engine = MatchingEngine_ctor (\<lambda>_ _ _. None) (\<lambda>_ _. None)
     (LFQueue_ctor MEClientRequest_default ME_MAX_CLIENT_UPDATES)
     (LFQueue_ctor MEClientResponse_default ME_MAX_CLIENT_UPDATES)
     (LFQueue_ctor MEMarketUpdate_default ME_MAX_MARKET_UPDATES)"

lemma new_engine_refines: "engine_refines new_engine (\<lambda>_ _. [])"
proof -
  have "me_refines (MEOrderBook_ctor (\<lambda>_ _. None) (\<lambda>_. None) t) (\<lambda>_. [])" for t
    by (rule MEOrderBook_ctor_refines) auto
  then show ?thesis
    by (simp add: engine_refines_def new_engine_def MatchingEngine_ctor_def MEOrderBook_ctor_def
        lfq_wf_def LFQueue_ctor_def limit_defs)
qed

definition sample_new :: MEClientRequest where
  "sample_new = \<lparr>rq_type = CRT_NEW, rq_client_id = 1, rq_ticker_id = 0, rq_order_id = 5,
     rq_side = BUY, rq_price = 100, rq_qty = 10\<rparr>"

lemma sample_new_simps [simp]:
  "rq_type sample_new = CRT_NEW" "rq_client_id sample_new = 1" "rq_ticker_id sample_new = 0"
  "rq_order_id sample_new = 5" "rq_side sample_new = BUY" "rq_price sample_new = 100"
  "rq_qty sample_new = 10"
  by (simp_all add: sample_new_def)

lemma sample_new_conditions:
  "unat (rq_client_id sample_new) < ME_MAX_TICKERS"
  "rq_side sample_new = BUY \<or> rq_side sample_new = SELL"
  "can_rest (rq_client_id sample_new) (rq_order_id sample_new) (rq_side sample_new)
     (rq_price sample_new) (\<lambda>_. [])"
  by (simp_all add: can_rest_def book_orders_def book_levels_def limit_defs)

lemma sample_new_spec:
  "\<exists>rs us. spec_add (rq_ticker_id sample_new) 1 (rq_client_id sample_new) (rq_order_id sample_new)
     (rq_side sample_new) (rq_price sample_new) (rq_qty sample_new) (\<lambda>_. []) = (sample_book, rs, us)"
  by (simp add: spec_add_def sample_book_def sample_order_def next_prio_def) (simp add: fun_eq_iff)

section \<open>Properties\<close>

text \<open>A NEW request runs the specification of \<open>add\<close> on one book, sends that book's responses
  and updates, and leaves every other book as it is. The book is the one with the number of
  the requesting client, whatever ticker the request names.\<close>

theorem request_runs_on_the_clients_book:
  assumes "engine_refines e Bs" "unat (rq_client_id r) < ME_MAX_TICKERS" "rq_type r = CRT_NEW"
    "rq_side r = BUY \<or> rq_side r = SELL"
    and "alevels_ok (Bs (unat (rq_client_id r)) (opp (rq_side r)))"
    and "can_rest (rq_client_id r) (rq_order_id r) (rq_side r) (rq_price r) (Bs (unat (rq_client_id r)))"
    and "spec_add (rq_ticker_id r) 1 (rq_client_id r) (rq_order_id r) (rq_side r) (rq_price r)
           (rq_qty r) (Bs (unat (rq_client_id r))) = (A', rs, us)"
  shows "\<exists>e'. processClientRequest r e = Inr e'
    \<and> engine_refines e' (Bs(unat (rq_client_id r) := A')) \<and> eng_sent rs us e e'"
  by (rule process_new[OF assms])

theorem request_runs_on_the_clients_book_witness:
  "\<exists>e'. processClientRequest sample_new new_engine = Inr e'
    \<and> engine_refines e' ((\<lambda>_ _. [])(1 := sample_book))"
proof -
  obtain rs us where sp: "spec_add (rq_ticker_id sample_new) 1 (rq_client_id sample_new)
     (rq_order_id sample_new) (rq_side sample_new) (rq_price sample_new) (rq_qty sample_new)
     (\<lambda>_. []) = (sample_book, rs, us)" using sample_new_spec by blast
  show ?thesis
    using request_runs_on_the_clients_book[OF new_engine_refines sample_new_conditions(1)
        sample_new_simps(1) sample_new_conditions(2) alevels_ok_simps(1) sample_new_conditions(3) sp]
    by auto
qed

text \<open>C13: Two clients never trade with each other, as far as their orders can rest: from a
  state in which book \<open>i\<close> holds orders of client \<open>i\<close> only, a NEW request
  (BUY or SELL) of a client below \<open>ME_MAX_TICKERS\<close> keeps it so, and every response it
  causes, each fill included, goes to that client itself. The request satisfies
  \<open>can_rest\<close> on that book: its order id lies inside the table and is not in use, no
  live level of either side is at another price with the same index, both pools have room, and it is
  not a SELL in front of two or more ask levels, which would break the book. The choice of the book
  by client id makes this exchange one market per client instead of one per ticker.\<close>

theorem clients_never_trade:
  assumes "engine_refines e Bs" "own_books Bs" "unat (rq_client_id r) < ME_MAX_TICKERS"
    and "rq_type r = CRT_NEW" "rq_side r = BUY \<or> rq_side r = SELL"
    and "can_rest (rq_client_id r) (rq_order_id r) (rq_side r) (rq_price r) (Bs (unat (rq_client_id r)))"
  shows "\<exists>e' Bs' rs us. processClientRequest r e = Inr e' \<and> engine_refines e' Bs' \<and> own_books Bs'
    \<and> eng_sent rs us e e' \<and> (\<forall>s \<in> set rs. rs_client_id s = rq_client_id r)"
proof -
  obtain A' rs us where sp: "spec_add (rq_ticker_id r) 1 (rq_client_id r) (rq_order_id r) (rq_side r)
      (rq_price r) (rq_qty r) (Bs (unat (rq_client_id r))) = (A', rs, us)"
    by (metis prod_cases3)
  have ok: "alevels_ok (Bs (unat (rq_client_id r)) (opp (rq_side r)))"
    using assms(2) by (simp add: own_books_def)
  show ?thesis
    using process_new[OF assms(1,3,4,5) ok assms(6) sp] spec_add_own(1,2)[OF assms(2) refl assms(5) sp]
    by blast
qed

theorem clients_never_trade_witness:
  "\<exists>e' Bs' rs us. processClientRequest sample_new new_engine = Inr e' \<and> engine_refines e' Bs'
    \<and> own_books Bs' \<and> eng_sent rs us new_engine e' \<and> (\<forall>s \<in> set rs. rs_client_id s = 1)"
  using clients_never_trade[OF new_engine_refines _ sample_new_conditions(1) sample_new_simps(1)
      sample_new_conditions(2,3)]
  by (simp add: own_books_def)

text \<open>The market order id is never advanced: from any state of the engine every resting order
  is announced to the market with the id 1, and the next one will be too, so the second
  resting order of a book repeats the id of the first.\<close>

theorem market_order_ids_repeat:
  assumes "engine_refines e Bs" "own_books Bs" "unat (rq_client_id r) < ME_MAX_TICKERS"
    and "rq_type r = CRT_NEW" "rq_side r = BUY \<or> rq_side r = SELL"
    and "can_rest (rq_client_id r) (rq_order_id r) (rq_side r) (rq_price r) (Bs (unat (rq_client_id r)))"
  shows "\<exists>e' Bs' rs us. processClientRequest r e = Inr e' \<and> eng_sent rs us e e'
    \<and> engine_refines e' Bs' \<and> (\<forall>u \<in> set us. mu_type u = MUT_ADD \<longrightarrow> mu_order_id u = 1)
    \<and> (\<forall>i < ME_MAX_TICKERS. next_market_order_id (ticker_order_book e' i) = 1)"
proof -
  obtain A' rs us where sp: "spec_add (rq_ticker_id r) 1 (rq_client_id r) (rq_order_id r) (rq_side r)
      (rq_price r) (rq_qty r) (Bs (unat (rq_client_id r))) = (A', rs, us)"
    by (metis prod_cases3)
  have ok: "alevels_ok (Bs (unat (rq_client_id r)) (opp (rq_side r)))"
    using assms(2) by (simp add: own_books_def)
  obtain e' where e': "processClientRequest r e = Inr e'"
    "engine_refines e' (Bs(unat (rq_client_id r) := A'))" "eng_sent rs us e e'"
    using process_new[OF assms(1,3,4,5) ok assms(6) sp] by blast
  have "\<forall>i < ME_MAX_TICKERS. next_market_order_id (ticker_order_book e' i) = 1"
    using e'(2) by (simp add: engine_refines_def)
  then show ?thesis using e' spec_add_own(3)[OF assms(2) refl assms(5) sp] by blast
qed

theorem market_order_ids_repeat_witness:
  "\<exists>e' rs us. processClientRequest sample_new new_engine = Inr e' \<and> eng_sent rs us new_engine e'
    \<and> (\<forall>u \<in> set us. mu_type u = MUT_ADD \<longrightarrow> mu_order_id u = 1)
    \<and> next_market_order_id (ticker_order_book e' 1) = 1"
proof -
  have "own_books (\<lambda>_ _. [])" by (simp add: own_books_def)
  then obtain e' rs us where "processClientRequest sample_new new_engine = Inr e'"
    "eng_sent rs us new_engine e'" "\<forall>u \<in> set us. mu_type u = MUT_ADD \<longrightarrow> mu_order_id u = 1"
    "\<forall>i < ME_MAX_TICKERS. next_market_order_id (ticker_order_book e' i) = 1"
    using market_order_ids_repeat[OF new_engine_refines _ sample_new_conditions(1)
        sample_new_simps(1) sample_new_conditions(2,3)] by blast
  then show ?thesis by (auto simp: limit_defs)
qed

text \<open>The engine's loop handles the requests of its queue in the order they were written,
  each exactly once, and empties the queue, in as many iterations as there are requests:
  the books, responses and updates are those of handling the list one by one.\<close>

theorem engine_handles_in_order:
  assumes "lfq_ok (eng_requests e)" "lfq_items (eng_requests e) = rs"
    and "fold_res processClientRequest rs e = Inr ef" "length rs \<le> n"
  shows "\<exists>q. MatchingEngine_run (undisturbed n) e = Inr (ef\<lparr>eng_requests := q\<rparr>) \<and> lfq_items q = []"
  using run_handles_all[OF assms] by blast

theorem engine_handles_in_order_witness:
  "\<exists>e ef q. lfq_items (eng_requests e) = [sample_new]
     \<and> MatchingEngine_run (undisturbed 3) e = Inr (ef\<lparr>eng_requests := q\<rparr>) \<and> lfq_items q = []"
proof -
  let ?q = "LFQueue_ctor MEClientRequest_default ME_MAX_CLIENT_UPDATES"
  obtain q where q: "fold_res lfq_push [sample_new] ?q = Inr q" "lfq_ok q" "lfq_items q = [sample_new]"
    using lfq.push_all[of ?q "[sample_new]"] lfq_ctor_ok[of ME_MAX_CLIENT_UPDATES MEClientRequest_default]
    by (auto simp: limit_defs)
  obtain e' where e': "processClientRequest sample_new new_engine = Inr e'"
    using sample_new_spec process_new[OF new_engine_refines sample_new_conditions(1)
        sample_new_simps(1) sample_new_conditions(2) alevels_ok_simps(1) sample_new_conditions(3)]
    by blast
  let ?e = "new_engine\<lparr>eng_requests := q\<rparr>"
  have "fold_res processClientRequest [sample_new] ?e = Inr (e'\<lparr>eng_requests := q\<rparr>)"
    using e' by (simp add: process_frame)
  then have "\<exists>q'. MatchingEngine_run (undisturbed 3) ?e
      = Inr ((e'\<lparr>eng_requests := q\<rparr>)\<lparr>eng_requests := q'\<rparr>) \<and> lfq_items q' = []"
    by (intro engine_handles_in_order[where rs = "[sample_new]"]) (use q(2,3) in simp_all)
  moreover have "lfq_items (eng_requests ?e) = [sample_new]" using q(3) by simp
  ultimately show ?thesis by blast
qed

text \<open>A request with a client id beyond the number of tickers indexes past the array of books,
  although the exchange accepts 256 clients; a request of an unknown type ends the process.\<close>

theorem bad_requests_end_the_exchange:
  assumes "ME_MAX_TICKERS \<le> unat (rq_client_id r)
    \<or> rq_type r \<noteq> CRT_NEW \<and> rq_type r \<noteq> CRT_CANCEL"
  shows "\<exists>m. processClientRequest r e = Inl (Undefined m) \<or> processClientRequest r e = Inl (Fatal_exit m)"
  using assms
  by (cases "rq_type r"; cases "unat (rq_client_id r) < ME_MAX_TICKERS")
    (simp_all add: processClientRequest_def sub_idx_def FATAL_def)

theorem bad_requests_end_the_exchange_witness:
  "\<forall>e. \<exists>m. processClientRequest (sample_new\<lparr>rq_client_id := 9\<rparr>) e = Inl (Undefined m)
     \<or> processClientRequest (sample_new\<lparr>rq_client_id := 9\<rparr>) e = Inl (Fatal_exit m)"
  by (rule allI, rule bad_requests_end_the_exchange) (simp add: limit_defs)

section \<open>Printing the books\<close>

definition inr_or_fatal :: "'a res \<Rightarrow> bool" where
  "inr_or_fatal r \<longleftrightarrow> (case r of Inl e \<Rightarrow> (\<exists>m. e = Fatal_exit m) | Inr x \<Rightarrow> True)"

lemma inr_or_fatal_bind:
  "inr_or_fatal r \<Longrightarrow> (\<And>x. inr_or_fatal (f x)) \<Longrightarrow> inr_or_fatal (bindr r f)"
  by (cases r) (auto simp: inr_or_fatal_def)

lemma inr_or_fatal_fold:
  "(\<And>x s. x \<in> set xs \<Longrightarrow> inr_or_fatal (h x s)) \<Longrightarrow> inr_or_fatal (fold_res h xs s)"
proof (induction xs arbitrary: s)
  case (Cons x xs)
  then show ?case by (simp add: inr_or_fatal_bind)
qed (simp add: inr_or_fatal_def)

lemma print_side_fatal:
  assumes r: "ladder_rep (me_view b) S" and sd: "sd = BUY \<or> sd = SELL"
  shows "inr_or_fatal (print_side detailed True b sd label)"
proof (cases "S sd")
  case Nil
  then show ?thesis using side_levels(1)[OF r sd] by (simp add: print_side_def inr_or_fatal_def)
next
  case (Cons x xs)
  note lv = side_levels(2)[OF r sd Cons]
  let ?h = "\<lambda>(count, itr) acc. print_level detailed True b sd itr
              (fst acc @ label @ nat_to_string count @ '' => '', snd acc)"
  have h: "inr_or_fatal (?h y s)" if y: "y \<in> set (enumerate 0 (map fst (x # xs)))"
    for y and s :: "string \<times> Price"
  proof -
    have "snd y \<in> snd ` set (enumerate 0 (map fst (S sd)))" using y unfolding Cons by (rule imageI)
    then have "snd y \<in> set (map fst (S sd))" by (metis list.set_map map_snd_enumerate)
    then obtain z where z: "z \<in> set (S sd)" "snd y = fst z" by auto
    obtain p n where "l_first (lvl_at b (fst z)) = Some (hd (snd z))"
      "l_prev (lvl_at b (fst z)) = Some p" "l_next (lvl_at b (fst z)) = Some n"
      "ring_nodes (\<lambda>a. o_next (ord_at b a)) (hd (snd z)) (hd (snd z)) = Some (Inr (snd z))"
      by (rule print_level_reads[OF r z(1) sd]) blast
    then show ?thesis
      unfolding case_prod_beta z(2) by (simp add: print_level_def Let_def FATAL_def inr_or_fatal_def)
  qed
  have "inr_or_fatal (fold_res ?h (enumerate 0 (map fst (x # xs))) ([], 0))"
    by (rule inr_or_fatal_fold[OF h])
  then have "inr_or_fatal (bindr (fold_res ?h (enumerate 0 (map fst (x # xs))) ([], 0))
      (\<lambda>acc. Inr (fst acc)))"
    by (rule inr_or_fatal_bind) (simp add: inr_or_fatal_def)
  then show ?thesis using lv by (simp add: print_side_def)
qed

text \<open>Printing a well-formed book without the sanity check always returns, but with the check
  it ends the process as soon as the book has a bid: the last bid price starts at the
  smallest value of the type and every bid is reported as out of order. So destroying a
  book with a resting bid exits with a failure.\<close>

theorem print_check_rejects_every_bid:
  assumes "me_refines b A" "A BUY \<noteq> []"
  shows "(\<exists>t. MEOrderBook_toString detailed False b = Inr t)
    \<and> (\<exists>m. MEOrderBook_toString detailed True b = Inl (Fatal_exit m))
    \<and> (\<exists>m. MEOrderBook_dtor b = Inl (Fatal_exit m))"
proof -
  obtain S where S: "me_rep b S" "A = book_abs b S" using assms(1) by (auto simp: me_refines_def)
  then have ne: "S BUY \<noteq> []" using assms(2) by (simp add: book_abs_def)
  note r = me_repD(1)[OF S(1)]
  have fatal: "\<exists>m. MEOrderBook_toString d True b = Inl (Fatal_exit m)" for d
    using print_side_fatal[OF r disjI2[OF refl], of d "''ASKS L:''"]
      print_bids_checked[OF r ne, of d "''BIDS L:''"]
    by (cases "print_side d True b SELL ''ASKS L:''")
      (auto simp: MEOrderBook_toString_def inr_or_fatal_def)
  obtain m where m: "MEOrderBook_toString False True b = Inl (Fatal_exit m)" using fatal by blast
  then have "MEOrderBook_dtor b = Inl (Fatal_exit m)" by (simp add: MEOrderBook_dtor_def)
  then show ?thesis using toString_unchecked_returns[OF S(1)] fatal by blast
qed

theorem print_check_rejects_every_bid_witness:
  "\<exists>b m. me_refines b sample_book \<and> MEOrderBook_dtor (b::MEContext) = Inl (Fatal_exit m)"
proof -
  obtain s :: MEContext where "me_refines s sample_book" using sample_bid by blast
  moreover have "sample_book BUY \<noteq> []" by simp
  ultimately show ?thesis using print_check_rejects_every_bid by blast
qed

end
