(* ===== verification/BookDefects.thy ===== *)
theory BookDefects
  imports EngineProps
begin

text \<open>
  Where the order book of the exchange does not do what it means to: the search for the
  place of a new price level on the sell side, and two prices with the same table index.
\<close>

definition ladder_book :: "Price list \<Rightarrow> Price \<Rightarrow> MEOrderBook" where
  "ladder_book ps p =
     (let n = length ps;
          lv = (\<lambda>i. \<lparr>l_side = SELL, l_price = (if i < n then ps ! i else p), l_first = None,
                  l_prev = Some (if i = 0 then n - 1 else i - 1),
                  l_next = Some (if i = n - 1 then 0 else i + 1)\<rparr>)
      in (MEOrderBook_ctor (\<lambda>_ _. None) (\<lambda>_. None) 0)
           \<lparr>asks_by_price := Some 0,
            orders_at_price_pool := \<lparr>pool_store = (\<lambda>i. \<lparr>object = lv i, is_free = n < i\<rparr>),
               pool_size = ME_MAX_PRICE_LEVELS, next_free_index = n + 1\<rparr>\<rparr>)"

text \<open>C15: A new best ask in front of at least two ask levels breaks the ladder: the first
  comparison of the search lacks the test for the buy side, so the new level is linked
  between the best and the second best and becomes the head. Walked from the head, the old
  best comes last, and with exactly two levels it is not reached any more, with its orders.\<close>

theorem new_best_ask_breaks_the_ladder:
  assumes "asks_by_price b = Some v1" "l_side (lvl_at b new) = SELL"
    and c: "circ (\<lambda>l. l_next (lvl_at b l)) (\<lambda>l. l_prev (lvl_at b l)) (v1 # v2 # V)"
    and n: "new \<notin> set (v1 # v2 # V)"
    and p: "l_price (lvl_at b new) < l_price (lvl_at b v1)" "l_price (lvl_at b new) < l_price (lvl_at b v2)"
  shows "\<exists>b'. addOrdersAtPrice new b = Inr b' \<and> asks_by_price b' = Some new
    \<and> ring_levels (\<lambda>l. l_next (lvl_at b' l)) (asks_by_price b') new
        = Some (if V = [] then [new, v2] else new # v2 # V @ [v1])"
proof -
  let ?t = "(price_orders_at_prices b)(priceToIndex (l_price (lvl_at b new)) := Some new)"
  define b0 where "b0 = b\<lparr>price_orders_at_prices := ?t\<rparr>"
  have d: "distinct (v1 # v2 # V)" by (rule circ_distinct[OF c])
  have links: "l_next (lvl_at b v1) = Some v2" "l_prev (lvl_at b v2) = Some v1"
    using circ_links(2,4)[OF c] by simp_all
  have l0: "lvl_at b0 = lvl_at b" "side_head SELL b0 = Some v1"
    using assms(1) by (simp_all add: b0_def view_simps side_head_def)
  define b1 where "b1 = set_lvl v2 (\<lambda>l. l\<lparr>l_prev := Some new\<rparr>)
     (set_lvl v1 (\<lambda>l. l\<lparr>l_next := Some new\<rparr>)
       (set_lvl new (\<lambda>l. l\<lparr>l_next := Some v2\<rparr>) (set_lvl new (\<lambda>l. l\<lparr>l_prev := Some v1\<rparr>) b0)))"
  define b2 where "b2 = set_side_head SELL (Some new)
     (set_lvl v2 (\<lambda>l. l\<lparr>l_next := (if l_next l = Some v1 then Some new else l_next l)\<rparr>) b1)"
  have nn: "new \<noteq> v1" "new \<noteq> v2" "v1 \<noteq> v2" using n d by auto
  have "insert_before_target new v2 v1 b0 = Inr b2"
    using links nn assms(2) p
    by (simp add: insert_before_target_def Let_def l0 view_simps better_than_def b2_def b1_def)
  moreover have idx: "priceToIndex (l_price (lvl_at b new)) < ME_MAX_PRICE_LEVELS"
    by (simp add: priceToIndex_def limit_defs)
  ultimately have add: "addOrdersAtPrice new b = Inr b2"
    using p assms(2) links l0 idx less_not_sym[OF p(2)]
    by (simp add: addOrdersAtPrice_def Let_def b0_def[symmetric]
        worse_than_first_def worse_than_def level_walk_stop)
  have head: "asks_by_price b2 = Some new" by (simp add: b2_def set_side_head_def)
  have nx: "l_next (lvl_at b2 l) = (if l = new then Some v2 else if l = v1 then Some new
      else if l = v2 \<and> l_next (lvl_at b v2) = Some v1 then Some new else l_next (lvl_at b l))" for l
    using nn by (simp add: b2_def b1_def view_simps l0)
  have pv: "l_prev (lvl_at b2 l) = (if l = v2 then Some new else if l = new then Some v1
      else l_prev (lvl_at b l))" for l
    using nn by (simp add: b2_def b1_def view_simps l0)
  have "ring_levels (\<lambda>l. l_next (lvl_at b2 l)) (Some new) new
      = Some (if V = [] then [new, v2] else new # v2 # V @ [v1])"
  proof (cases V)
    case Nil
    have "l_next (lvl_at b v2) = Some v1" using circ_next_last(1)[OF c] Nil by simp
    then have "l_next (lvl_at b2 v2) = Some new" using nx nn by simp
    then show ?thesis
      using nx[of new] nn Nil by (subst ring_levels.simps) (simp add: ring_levels.simps[of _ _ v2])
  next
    case (Cons w W)
    have "l_next (lvl_at b v2) = Some w" using circ_suffix_next[of _ _ "[v1]" v2 w W] c Cons by simp
    then have "l_next (lvl_at b v2) \<noteq> Some v1" using d Cons by auto
    then have nx': "(\<lambda>l. l_next (lvl_at b2 l)) = (\<lambda>l. l_next (lvl_at b l))(v1 := Some new, new := Some v2)"
      using nx nn by auto
    have pv': "(\<lambda>l. l_prev (lvl_at b2 l)) = (\<lambda>l. l_prev (lvl_at b l))(new := Some v1, v2 := Some new)"
      using pv nn by auto
    have "circ (\<lambda>l. l_next (lvl_at b2 l)) (\<lambda>l. l_prev (lvl_at b2 l)) ([v1] @ new # v2 # V)"
      by (rule circ_insert_before[where us = "[v1]", OF _ _ links(2) nx' pv']) (use c n in simp_all)
    from circ_rotate[OF this] show ?thesis using ring_levels_circ Cons by simp
  qed
  then show ?thesis using add head by auto
qed

text \<open>Asks at 100 and 101, then 99: the level at 100 is gone from the ladder.\<close>

lemma ladder_book_lvl:
  "lvl_at (ladder_book [100, 101] 99) i = \<lparr>l_side = SELL, l_price = (if i < 2 then [100, 101] ! i else 99),
     l_first = None, l_prev = Some (if i = 0 then 1 else i - 1), l_next = Some (if i = 1 then 0 else i + 1)\<rparr>"
  by (simp add: ladder_book_def lvl_at_def obj_def MEOrderBook_ctor_def)

theorem new_best_ask_breaks_the_ladder_witness:
  "\<exists>b'. addOrdersAtPrice 2 (ladder_book [100, 101] 99) = Inr b'
    \<and> ring_levels (\<lambda>l. l_next (lvl_at b' l)) (asks_by_price b') 2 = Some [2, 1]"
proof -
  let ?b = "ladder_book [100, 101] 99"
  have "asks_by_price ?b = Some 0" by (simp add: ladder_book_def)
  moreover have "circ (\<lambda>l. l_next (lvl_at ?b l)) (\<lambda>l. l_prev (lvl_at ?b l)) [0, 1]"
    by (simp add: circ_def ladder_book_lvl)
  ultimately show ?thesis
    using new_best_ask_breaks_the_ladder[of ?b 0 2 1 "[]"] by (auto simp: ladder_book_lvl)
qed

end
