(* ===== verification/LockFreeQueueSteps.thy ===== *)
theory LockFreeQueueSteps
  imports LockFreeQueue
begin

text \<open>
  One producer thread and one consumer thread on one \<open>LFQueue\<close>, interleaved at the atomic
  accesses of \<open>common/lockfree_queue.h\<close> (all of them sequentially consistent, the default
  of \<open>std::atomic\<close>). \<open>updateWriteIndex\<close> publishes the index before it counts the element,
  and \<open>updateReadIndex\<close> advances the index before it asserts the count: the two orders
  matter. \<open>sized\<close> says whether the consumer's loop tests \<open>size()\<close> before it uses the
  element, as \<open>OrderServer\<close>, \<open>MarketDataPublisher\<close>, \<open>SnapshotSynthesizer\<close> and \<open>Logger\<close> do,
  or not, as \<open>MatchingEngine\<close>, \<open>OrderGateway\<close> and \<open>TradeEngine\<close> do. The lists \<open>produced\<close> and
  \<open>consumed\<close> are history variables.
\<close>

datatype producer_pc = P_idle | P_written | P_indexed

datatype consumer_pc = C_idle | C_have | C_sized | C_read | C_advanced | C_crashed

record 'a chan =
  ch_q :: "'a LFQueue"
  ppc :: producer_pc
  cpc :: consumer_pc
  produced :: "'a list"
  consumed :: "'a list"

definition chan_init :: "'a \<Rightarrow> nat \<Rightarrow> 'a chan" where
  "chan_init d n =
     \<lparr>ch_q = LFQueue_ctor d n, ppc = P_idle, cpc = C_idle, produced = [], consumed = []\<rparr>"

inductive chan_step :: "bool \<Rightarrow> 'a chan \<Rightarrow> 'a chan \<Rightarrow> bool" for sized :: bool where
  p_write: "ppc s = P_idle \<Longrightarrow>
    chan_step sized s
      (s\<lparr>ch_q := (ch_q s)\<lparr>q_store := (q_store (ch_q s))(next_write_index (ch_q s) := v)\<rparr>,
         ppc := P_written, produced := produced s @ [v]\<rparr>)"
| p_index: "ppc s = P_written \<Longrightarrow>
    chan_step sized s
      (s\<lparr>ch_q := (ch_q s)\<lparr>next_write_index := (next_write_index (ch_q s) + 1) mod q_size (ch_q s)\<rparr>,
         ppc := P_indexed\<rparr>)"
| p_count: "ppc s = P_indexed \<Longrightarrow>
    chan_step sized s
      (s\<lparr>ch_q := (ch_q s)\<lparr>num_elements := num_elements (ch_q s) + 1\<rparr>, ppc := P_idle\<rparr>)"
| c_peek: "cpc s = C_idle \<Longrightarrow> next_read_index (ch_q s) \<noteq> next_write_index (ch_q s) \<Longrightarrow>
    chan_step sized s (s\<lparr>cpc := C_have\<rparr>)"
| c_size_some: "cpc s = C_have \<Longrightarrow> sized \<Longrightarrow> num_elements (ch_q s) \<noteq> 0 \<Longrightarrow>
    chan_step sized s (s\<lparr>cpc := C_sized\<rparr>)"
| c_size_none: "cpc s = C_have \<Longrightarrow> sized \<Longrightarrow> num_elements (ch_q s) = 0 \<Longrightarrow>
    chan_step sized s (s\<lparr>cpc := C_idle\<rparr>)"
| c_unsized: "cpc s = C_have \<Longrightarrow> \<not> sized \<Longrightarrow> chan_step sized s (s\<lparr>cpc := C_sized\<rparr>)"
| c_read: "cpc s = C_sized \<Longrightarrow>
    chan_step sized s
      (s\<lparr>cpc := C_read, consumed := consumed s @ [q_store (ch_q s) (next_read_index (ch_q s))]\<rparr>)"
| c_advance: "cpc s = C_read \<Longrightarrow>
    chan_step sized s
      (s\<lparr>ch_q := (ch_q s)\<lparr>next_read_index := (next_read_index (ch_q s) + 1) mod q_size (ch_q s)\<rparr>,
         cpc := C_advanced\<rparr>)"
| c_uncount: "cpc s = C_advanced \<Longrightarrow> num_elements (ch_q s) \<noteq> 0 \<Longrightarrow>
    chan_step sized s
      (s\<lparr>ch_q := (ch_q s)\<lparr>num_elements := num_elements (ch_q s) - 1\<rparr>, cpc := C_idle\<rparr>)"
| c_assert_fails: "cpc s = C_advanced \<Longrightarrow> num_elements (ch_q s) = 0 \<Longrightarrow>
    chan_step sized s (s\<lparr>cpc := C_crashed\<rparr>)"

inductive_cases chan_stepE: "chan_step sized s t"

inductive chan_reach :: "bool \<Rightarrow> 'a \<Rightarrow> nat \<Rightarrow> 'a chan \<Rightarrow> bool"
  for sized :: bool and d :: 'a and n :: nat where
  init: "chan_reach sized d n (chan_init d n)"
| step: "chan_reach sized d n s \<Longrightarrow> chan_step sized s t \<Longrightarrow> chan_reach sized d n t"

section \<open>The count covers the element a sized consumer is using\<close>

definition counted :: "'a chan \<Rightarrow> bool" where
  "counted s \<longleftrightarrow> cpc s \<noteq> C_crashed
     \<and> (cpc s \<in> {C_sized, C_read, C_advanced} \<longrightarrow> num_elements (ch_q s) \<noteq> 0)"

lemma counted_step: "chan_step True s t \<Longrightarrow> counted s \<Longrightarrow> counted t"
  by (erule chan_stepE) (auto simp: counted_def)

lemma counted_reach: "chan_reach True d n s \<Longrightarrow> counted s"
proof (induction rule: chan_reach.induct)
  case init
  show ?case by (simp add: counted_def chan_init_def)
next
  case (step s t)
  then show ?case by (blast intro: counted_step)
qed

section \<open>Order and content, as long as the producer is never a lap ahead\<close>

text \<open>How many elements the producer has published, and how many slots the consumer has
  given back.\<close>

definition published :: "'a chan \<Rightarrow> nat" where
  "published s = length (produced s) - (if ppc s = P_written then 1 else 0)"

definition released :: "'a chan \<Rightarrow> nat" where
  "released s = length (consumed s) - (if cpc s = C_read then 1 else 0)"

definition no_lap :: "'a chan \<Rightarrow> bool" where
  "no_lap s \<longleftrightarrow> length (produced s) \<le> released s + q_size (ch_q s)"

inductive chan_run :: "bool \<Rightarrow> 'a \<Rightarrow> nat \<Rightarrow> 'a chan \<Rightarrow> bool"
  for sized :: bool and d :: 'a and n :: nat where
  run_init: "chan_run sized d n (chan_init d n)"
| run_step: "chan_run sized d n s \<Longrightarrow> chan_step sized s t \<Longrightarrow> no_lap t \<Longrightarrow> chan_run sized d n t"

definition ordered :: "nat \<Rightarrow> 'a chan \<Rightarrow> bool" where
  "ordered n s \<longleftrightarrow> q_size (ch_q s) = n \<and> no_lap s
     \<and> (ppc s = P_written \<longrightarrow> produced s \<noteq> [])
     \<and> (cpc s = C_read \<longrightarrow> consumed s \<noteq> [])
     \<and> (cpc s \<in> {C_have, C_sized} \<longrightarrow> released s < published s)
     \<and> length (consumed s) \<le> published s
     \<and> next_write_index (ch_q s) = published s mod n
     \<and> next_read_index (ch_q s) = released s mod n
     \<and> (\<forall>i. released s \<le> i \<and> i < length (produced s)
           \<longrightarrow> q_store (ch_q s) (i mod n) = produced s ! i)
     \<and> consumed s = take (length (consumed s)) (produced s)"

lemma ordered_init: "0 < n \<Longrightarrow> ordered n (chan_init d n)"
  by (simp add: ordered_def chan_init_def no_lap_def published_def released_def LFQueue_ctor_def)

lemma mod_slots_distinct:
  assumes "i < j" "j < i + n"
  shows "i mod n \<noteq> j mod (n::nat)"
proof -
  have "j - i < n" "0 < j - i" "i + (j - i) = j"
    using assms by linarith+
  then show ?thesis
    using mod_index_inj[of 0 "j - i" n i] by auto
qed

lemma ordered_p_write:
  assumes "ordered n s" "ppc s = P_idle" "0 < n"
    and t: "t = s\<lparr>ch_q := (ch_q s)\<lparr>q_store := (q_store (ch_q s))(next_write_index (ch_q s) := v)\<rparr>,
         ppc := P_written, produced := produced s @ [v]\<rparr>"
    and "no_lap t"
  shows "ordered n t"
proof -
  let ?m = "length (produced s)"
  have pub: "published s = ?m" "published t = ?m" and rel: "released t = released s"
    using assms by (simp_all add: published_def released_def)
  have lap: "?m < released s + n"
    using assms rel by (simp add: no_lap_def ordered_def)
  have le: "released s \<le> ?m"
    using assms(1) pub by (auto simp: ordered_def released_def)
  have "q_store (ch_q t) (i mod n) = produced t ! i"
    if "released t \<le> i" "i < length (produced t)" for i
  proof (cases "i = ?m")
    case True
    then show ?thesis using assms pub by (simp add: ordered_def)
  next
    case False
    then have "i < ?m" using that t by simp
    moreover have "i mod n \<noteq> ?m mod n"
      using mod_slots_distinct[of i ?m n] \<open>i < ?m\<close> lap that rel by simp
    ultimately show ?thesis
      using assms that pub rel by (simp add: ordered_def nth_append)
  qed
  then show ?thesis
    using assms pub rel by (auto simp: ordered_def)
qed

lemma ordered_step:
  assumes st: "chan_step sized s t" and o: "ordered n s" and "0 < n" and "no_lap t"
  shows "ordered n t"
  using st
proof (cases rule: chan_step.cases)
  case (p_write v)
  then show ?thesis
    using ordered_p_write[OF o p_write(2) assms(3) p_write(1) assms(4)] by simp
next
  case p_index
  then have "published t = Suc (published s)" "released t = released s"
    using o by (auto simp: ordered_def published_def released_def)
  then show ?thesis
    using p_index assms by (auto simp: ordered_def mod_Suc_eq)
next
  case p_count
  then show ?thesis
    using assms by (auto simp: ordered_def published_def released_def)
next
  case c_peek
  have "released s \<noteq> published s"
    using c_peek o by (auto simp: ordered_def)
  moreover have "released s \<le> length (consumed s)" "length (consumed s) \<le> published s"
    using o by (auto simp: ordered_def released_def)
  ultimately show ?thesis
    using c_peek assms by (auto simp: ordered_def published_def released_def)
next
  case c_read
  have rel: "released s = length (consumed s)" "released t = length (consumed s)"
    using c_read by (simp_all add: released_def)
  have lt: "released s < published s" "published s \<le> length (produced s)"
    using c_read o by (auto simp: ordered_def published_def)
  then have "q_store (ch_q s) (next_read_index (ch_q s)) = produced s ! length (consumed s)"
    using o rel by (simp add: ordered_def)
  moreover have "take (Suc (length (consumed s))) (produced s)
      = take (length (consumed s)) (produced s) @ [produced s ! length (consumed s)]"
    using lt rel by (intro take_Suc_conv_app_nth) simp
  moreover have "published t = published s"
    using c_read by (simp add: published_def)
  ultimately show ?thesis
    using c_read assms rel lt by (auto simp: ordered_def)
next
  case c_advance
  have "released t = Suc (released s)" "published t = published s"
    using c_advance o by (auto simp: ordered_def released_def published_def)
  then show ?thesis
    using c_advance assms by (auto simp: ordered_def mod_Suc_eq)
qed (use assms in \<open>auto simp: ordered_def published_def released_def\<close>)

lemma ordered_run: "chan_run sized d n s \<Longrightarrow> 0 < n \<Longrightarrow> ordered n s"
proof (induction rule: chan_run.induct)
  case run_init
  then show ?case by (rule ordered_init)
next
  case (run_step s t)
  then show ?case by (blast intro: ordered_step)
qed

section \<open>Between two transfers the ring holds exactly the unread elements\<close>

definition count_exact :: "'a chan \<Rightarrow> bool" where
  "count_exact s \<longleftrightarrow>
     num_elements (ch_q s) + length (consumed s) + (if ppc s = P_idle then 0 else 1)
       = length (produced s) + (if cpc s \<in> {C_read, C_advanced, C_crashed} then 1 else 0)"

lemma count_exact_step: "chan_step sized s t \<Longrightarrow> count_exact s \<Longrightarrow> count_exact t"
  by (erule chan_stepE) (auto simp: count_exact_def)

lemma count_exact_run: "chan_run sized d n s \<Longrightarrow> count_exact s"
proof (induction rule: chan_run.induct)
  case run_init
  show ?case by (simp add: count_exact_def chan_init_def LFQueue_ctor_def)
next
  case (run_step s t)
  then show ?case by (blast intro: count_exact_step)
qed

lemma quiescent_items:
  assumes "ordered n s" and "count_exact s" and "ppc s = P_idle" and "cpc s = C_idle"
  shows "lfq_items (ch_q s) = drop (length (consumed s)) (produced s)"
proof (rule nth_equalityI)
  have num: "num_elements (ch_q s) + length (consumed s) = length (produced s)"
    using assms by (simp add: count_exact_def)
  have rel: "released s = length (consumed s)"
    using assms(4) by (simp add: released_def)
  show "length (lfq_items (ch_q s)) = length (drop (length (consumed s)) (produced s))"
    using num by simp
  fix i assume "i < length (lfq_items (ch_q s))"
  then show "lfq_items (ch_q s) ! i = drop (length (consumed s)) (produced s) ! i"
    using assms(1) num rel by (simp add: lfq_items_def ordered_def mod_simps)
qed

end
