(* ===== verification/ChannelProps.thy ===== *)
theory ChannelProps
  imports LockFreeQueueSteps MemoryPool Types
begin

text \<open>
  The properties of the two building blocks every component rests on: the lock-free queue,
  sequentially and under every interleaving of its two threads, and the memory pool.
\<close>

section \<open>The queue\<close>

text \<open>The queue is a FIFO: what a producer pushes onto an empty queue, up to its capacity of
  one less than its size, a consumer loop hands to its handler in the same order, and the
  queue is empty again. A handler that fails for none of them makes the loop return.\<close>

theorem queue_delivers_in_order:
  assumes "0 < n" "length vs \<le> n - 1" "fold_res h vs s = Inr s'"
  shows "\<exists>q q'. fold_res lfq_push vs (LFQueue_ctor d n) = Inr q
    \<and> drain getNextToRead updateReadIndex h q s = Some (Inr (q', s')) \<and> lfq_items q' = []"
proof -
  obtain q where q: "fold_res lfq_push vs (LFQueue_ctor d n) = Inr q" "lfq_ok q" "lfq_items q = vs"
    using lfq.push_all[of "LFQueue_ctor d n" vs] assms(1,2) lfq_ctor_ok[of n d] by auto
  then show ?thesis using lfq.drain_handles_all[of q h s s'] assms(3) by blast
qed

theorem queue_delivers_in_order_witness:
  "\<exists>q q'. fold_res lfq_push [7, 8, 9] (LFQueue_ctor (0::nat) 4) = Inr q
    \<and> drain getNextToRead updateReadIndex (\<lambda>x s. Inr (s @ [x])) q [] = Some (Inr (q', [7, 8, 9]))
    \<and> lfq_items q' = []"
  by (rule queue_delivers_in_order) simp_all

lemma lfq_push_many:
  assumes "lfq_wf q"
  shows "\<exists>q'. fold_res lfq_push vs q = Inr q' \<and> lfq_wf q' \<and> q_size q' = q_size q
    \<and> num_elements q' = num_elements q + length vs \<and> next_read_index q' = next_read_index q"
  using assms
proof (induction vs arbitrary: q)
  case (Cons v vs)
  obtain q1 where q1: "lfq_push v q = Inr q1" "lfq_wf q1" "q_size q1 = q_size q"
    "num_elements q1 = num_elements q + 1" "next_read_index q1 = next_read_index q"
    using lfq_push_wf[OF Cons.prems] by metis
  then show ?case using Cons.IH[OF q1(2)] by auto
qed auto

text \<open>Nothing in the queue or in its producers checks for a full ring: after as many pushes as
  it has slots the two indices coincide, the reader sees an empty queue, and all the
  elements are lost to it although the counter still says they are there.\<close>

theorem full_queue_reads_empty:
  assumes "0 < n" "length vs = n"
  shows "\<exists>q. fold_res lfq_push vs (LFQueue_ctor d n) = Inr q \<and> LFQueue_size q = n
    \<and> getNextToRead q = None"
proof -
  have "lfq_wf (LFQueue_ctor d n)" using assms(1) by (simp add: lfq_wf_def LFQueue_ctor_def)
  then obtain q where q: "fold_res lfq_push vs (LFQueue_ctor d n) = Inr q" "lfq_wf q" "q_size q = n"
    "num_elements q = n" "next_read_index q = 0"
    using lfq_push_many[of "LFQueue_ctor d n" vs] assms(2) by (auto simp: LFQueue_ctor_def)
  then show ?thesis by (auto simp: LFQueue_size_def getNextToRead_def lfq_wf_def)
qed

theorem full_queue_reads_empty_witness:
  "\<exists>q. fold_res lfq_push [1, 2, 3] (LFQueue_ctor (0::nat) 3) = Inr q \<and> LFQueue_size q = 3
    \<and> getNextToRead q = None"
  by (rule full_queue_reads_empty) simp_all

section \<open>The queue under interleaving\<close>

text \<open>A consumer that tests \<open>size()\<close> before it uses the element never runs into the
  assertion of \<open>updateReadIndex\<close>, in any interleaving with the producer, however far the
  producer is ahead.\<close>

theorem sized_consumer_never_asserts:
  assumes "chan_reach True d n s"
  shows "cpc s \<noteq> C_crashed"
  using counted_reach[OF assms] by (simp add: counted_def)

theorem sized_consumer_never_asserts_witness:
  "\<exists>s. chan_reach True (0::nat) 4 s \<and> produced s = [5] \<and> cpc s \<noteq> C_crashed"
proof -
  have "chan_reach True (0::nat) 4 (chan_init 0 4)" by (rule chan_reach.init)
  from chan_reach.step[OF this p_write[where v = 5]]
  obtain s where s: "chan_reach True (0::nat) 4 s" "produced s = [5]"
    by (auto simp: chan_init_def)
  then show ?thesis using sized_consumer_never_asserts[OF s(1)] by blast
qed

text \<open>A consumer that does not test \<open>size()\<close>, as the loops of the matching engine, the order
  gateway and the trade engine, can reach the failed assertion with a single element: the
  producer publishes the index before it counts the element.\<close>

theorem unsized_consumer_can_assert:
  "\<exists>s. chan_reach False (d::'a) 4 s \<and> cpc s = C_crashed \<and> length (produced s) = 1"
proof -
  let ?s0 = "chan_init d 4"
  let ?q0 = "LFQueue_ctor d 4"
  let ?s1 = "?s0\<lparr>ch_q := ?q0\<lparr>q_store := (q_store ?q0)(0 := d)\<rparr>, ppc := P_written, produced := [d]\<rparr>"
  let ?q2 = "(ch_q ?s1)\<lparr>next_write_index := 1\<rparr>"
  let ?s2 = "?s1\<lparr>ch_q := ?q2, ppc := P_indexed\<rparr>"
  let ?s3 = "?s2\<lparr>cpc := C_have\<rparr>" and ?s4 = "?s2\<lparr>cpc := C_sized\<rparr>"
  let ?s5 = "?s4\<lparr>cpc := C_read, consumed := [d]\<rparr>"
  let ?s6 = "?s5\<lparr>ch_q := ?q2\<lparr>next_read_index := 1\<rparr>, cpc := C_advanced\<rparr>"
  let ?s7 = "?s6\<lparr>cpc := C_crashed\<rparr>"
  have s01: "chan_step False ?s0 ?s1"
    using chan_step.p_write[of ?s0 False d] by (simp add: chan_init_def LFQueue_ctor_def)
  have s12: "chan_step False ?s1 ?s2"
    using chan_step.p_index[of ?s1 False] by (simp add: chan_init_def LFQueue_ctor_def)
  have s23: "chan_step False ?s2 ?s3"
    by (rule chan_step.c_peek) (simp_all add: chan_init_def LFQueue_ctor_def)
  have s34: "chan_step False ?s3 ?s4"
    using chan_step.c_unsized[of ?s3 False] by simp
  have s45: "chan_step False ?s4 ?s5"
    using chan_step.c_read[of ?s4 False] by (simp add: chan_init_def LFQueue_ctor_def)
  have s56: "chan_step False ?s5 ?s6"
    using chan_step.c_advance[of ?s5 False] by (simp add: chan_init_def LFQueue_ctor_def)
  have s67: "chan_step False ?s6 ?s7"
    by (rule chan_step.c_assert_fails) (simp_all add: chan_init_def LFQueue_ctor_def)
  have "chan_reach False d 4 ?s7"
    by (rule chan_reach.step[OF chan_reach.step[OF chan_reach.step[OF chan_reach.step[OF
      chan_reach.step[OF chan_reach.step[OF chan_reach.step[OF
        chan_reach.init s01] s12] s23] s34] s45] s56] s67])
  then show ?thesis by (intro exI[of _ ?s7]) simp
qed

text \<open>C7: In every interleaving in which the producer never gets a full lap ahead, what the
  consumer has read is a prefix of what the producer has written, in order and with no
  element torn, lost or repeated.\<close>

theorem consumed_is_prefix:
  assumes "chan_run sized d n s" "0 < n"
  shows "consumed s = take (length (consumed s)) (produced s)"
  using ordered_run[OF assms] by (simp add: ordered_def)

theorem consumed_is_prefix_witness:
  "\<exists>s. chan_run True (0::nat) 4 s \<and> produced s = [5]
     \<and> consumed s = take (length (consumed s)) (produced s)"
proof -
  have i: "chan_run True (0::nat) 4 (chan_init 0 4)" by (rule chan_run.intros)
  have "chan_run True (0::nat) 4 t" if "chan_step True (chan_init 0 4) t" "no_lap t" for t
    by (rule chan_run.run_step[OF i that])
  from this[OF p_write[where v = 5]]
  obtain s where "chan_run True (0::nat) 4 s" "produced s = [5]"
    by (auto simp: chan_init_def no_lap_def released_def LFQueue_ctor_def)
  then show ?thesis using consumed_is_prefix[of True 0 4 s] by auto
qed

section \<open>The pool\<close>

text \<open>The pool hands out a block nobody holds, leaves every other block as it was, and gives
  room back on release, as long as at most its size minus two blocks are in use.\<close>

theorem pool_allocates_fresh:
  assumes "pool_wf p" "card (live p) + 1 < pool_size p"
  shows "\<exists>a p' p''. allocate v p = Inr (a, p') \<and> a \<notin> live p \<and> a < pool_size p \<and> obj p' a = v
    \<and> (\<forall>b. b \<noteq> a \<longrightarrow> obj p' b = obj p b) \<and> live p' = insert a (live p)
    \<and> deallocate a p' = Inr p'' \<and> live p'' = live p \<and> pool_wf p''"
proof -
  obtain a p' where a: "allocate v p = Inr (a, p')" "a \<notin> live p" "a = next_free_index p"
    "live p' = insert a (live p)" "pool_wf p'" "pool_size p' = pool_size p"
    "\<And>b. obj p' b = (if b = a then v else obj p b)"
    using allocate_ok[OF assms] by metis
  obtain p'' where "deallocate a p' = Inr p''" "live p'' = live p' - {a}" "pool_wf p''"
    by (rule deallocate_ok[of a p']) (use a(4,5) in auto)
  then show ?thesis using a assms(1) by (auto simp: pool_wf_def)
qed

theorem pool_allocates_fresh_witness:
  "\<exists>a p' p''. allocate (7::nat) (MemPool_ctor 0 3) = Inr (a, p') \<and> obj p' a = 7
    \<and> deallocate a p' = Inr p'' \<and> live p'' = {}"
  using pool_allocates_fresh[of "MemPool_ctor (0::nat) 3" 7] by (auto simp: ctor_pool_wf)

text \<open>The last block of a pool can never be used: the allocation that takes it looks for the
  next free one and ends the process, so a pool of \<open>n\<close> blocks serves \<open>n - 1\<close>.\<close>

theorem pool_last_block_asserts:
  assumes "pool_wf p" "card (live p) + 1 = pool_size p"
  shows "allocate v p = Inl (Assert_failed ''Memory pool out of space.'')"
proof -
  let ?a = "next_free_index p"
  let ?p = "p\<lparr>pool_store := (pool_store p)(?a := \<lparr>object = v, is_free = False\<rparr>)\<rparr>"
  have a: "?a < pool_size p" "is_free (pool_store p ?a)" "?a \<notin> live p"
    using assms(1) by (auto simp: pool_wf_def live_def)
  have "insert ?a (live p) = {..<pool_size p}"
    using a assms(2) by (intro card_subset_eq) (auto simp: live_def)
  then have full: "\<forall>k < pool_size p. \<not> is_free (pool_store ?p k)"
    by (auto simp: live_def)
  then show ?thesis
    using a scan_free_full[of ?a "pool_size p" ?a "\<lambda>i. is_free (pool_store ?p i)"]
    by (simp add: allocate_def updateNextFreeIndex_def Let_def)
qed

theorem pool_last_block_asserts_witness:
  "allocate (7::nat) (MemPool_ctor 0 1) = Inl (Assert_failed ''Memory pool out of space.'')"
  by (rule pool_last_block_asserts) (simp_all add: ctor_pool_wf)

end
