(* ===== verification/MarketOrder.thy ===== *)
theory MarketOrder
  imports Types MemoryPool
begin

text \<open>
  \<open>trading/strategy/market_order.h\<close> and \<open>market_order.cpp\<close>: the order and the price level of the
  client's copy of a book, and the best bid and offer. As in the engine's book the pointer
  fields hold indices into the book's two pools.
\<close>

record MarketOrder =
  mo_order_id :: OrderId
  mo_side :: Side
  mo_price :: Price
  mo_qty :: Qty
  mo_priority :: Priority
  mo_prev :: ptr
  mo_next :: ptr

definition MarketOrder_default :: MarketOrder where
  "MarketOrder_default =
     \<lparr>mo_order_id = OrderId_INVALID, mo_side = Side_INVALID, mo_price = Price_INVALID,
      mo_qty = Qty_INVALID, mo_priority = Priority_INVALID, mo_prev = None, mo_next = None\<rparr>"

definition MarketOrder_ctor ::
  "OrderId \<Rightarrow> Side \<Rightarrow> Price \<Rightarrow> Qty \<Rightarrow> Priority \<Rightarrow> ptr \<Rightarrow> ptr \<Rightarrow> MarketOrder" where
  "MarketOrder_ctor order_id side price qty priority prev_order next_order =
     \<lparr>mo_order_id = order_id, mo_side = side, mo_price = price, mo_qty = qty,
      mo_priority = priority, mo_prev = prev_order, mo_next = next_order\<rparr>"

record MarketOrdersAtPrice =
  ml_side :: Side
  ml_price :: Price
  ml_first :: ptr
  ml_prev :: ptr
  ml_next :: ptr

definition MarketOrdersAtPrice_default :: MarketOrdersAtPrice where
  "MarketOrdersAtPrice_default =
     \<lparr>ml_side = Side_INVALID, ml_price = Price_INVALID, ml_first = None, ml_prev = None,
      ml_next = None\<rparr>"

definition MarketOrdersAtPrice_ctor ::
  "Side \<Rightarrow> Price \<Rightarrow> ptr \<Rightarrow> ptr \<Rightarrow> ptr \<Rightarrow> MarketOrdersAtPrice" where
  "MarketOrdersAtPrice_ctor side price first_mkt_order prev_entry next_entry =
     \<lparr>ml_side = side, ml_price = price, ml_first = first_mkt_order, ml_prev = prev_entry,
      ml_next = next_entry\<rparr>"

text \<open>Printing an order reads the orders its links point to.\<close>

definition MarketOrder_toString :: "MarketOrder MemPool \<Rightarrow> MarketOrder \<Rightarrow> string" where
  "MarketOrder_toString pool ord =
     ''MarketOrder'' @ '' [''
     @ ''oid:'' @ orderIdToString (mo_order_id ord) @ '' ''
     @ ''side:'' @ sideToString (mo_side ord) @ '' ''
     @ ''price:'' @ priceToString (mo_price ord) @ '' ''
     @ ''prio:'' @ priorityToString (mo_priority ord) @ '' ''
     @ ''prev:''
     @ orderIdToString (case mo_prev ord of Some p \<Rightarrow> mo_order_id (obj pool p)
                        | None \<Rightarrow> OrderId_INVALID) @ '' ''
     @ ''next:''
     @ orderIdToString (case mo_next ord of Some p \<Rightarrow> mo_order_id (obj pool p)
                        | None \<Rightarrow> OrderId_INVALID)
     @ '']''"

definition MarketOrdersAtPrice_toString ::
  "MarketOrder MemPool \<Rightarrow> MarketOrdersAtPrice MemPool \<Rightarrow> MarketOrdersAtPrice \<Rightarrow> string" where
  "MarketOrdersAtPrice_toString orders levels l =
     ''MarketOrdersAtPrice'' @ '' [''
     @ ''side:'' @ sideToString (ml_side l) @ '' ''
     @ ''price:'' @ priceToString (ml_price l)
     @ ''first_mkt_order:''
     @ (case ml_first l of Some p \<Rightarrow> MarketOrder_toString orders (obj orders p)
        | None \<Rightarrow> ''null'') @ '' ''
     @ ''prev:''
     @ priceToString (case ml_prev l of Some p \<Rightarrow> ml_price (obj levels p) | None \<Rightarrow> Price_INVALID) @ '' ''
     @ ''next:''
     @ priceToString (case ml_next l of Some p \<Rightarrow> ml_price (obj levels p) | None \<Rightarrow> Price_INVALID) @ '' ''
     @ '']''"

record BBO =
  bid_price :: Price
  ask_price :: Price
  bid_qty :: Qty
  ask_qty :: Qty

definition BBO_default :: BBO where
  "BBO_default = \<lparr>bid_price = Price_INVALID, ask_price = Price_INVALID, bid_qty = Qty_INVALID,
     ask_qty = Qty_INVALID\<rparr>"

definition BBO_toString :: "BBO \<Rightarrow> string" where
  "BBO_toString b =
     ''BBO{''
     @ qtyToString (bid_qty b) @ ''@'' @ priceToString (bid_price b)
     @ ''X''
     @ priceToString (ask_price b) @ ''@'' @ qtyToString (ask_qty b)
     @ ''}''"

text \<open>Both prices are there: the test every reader of the best bid and offer makes.\<close>

definition bbo_valid :: "BBO \<Rightarrow> bool" where
  "bbo_valid b \<longleftrightarrow> bid_price b \<noteq> Price_INVALID \<and> ask_price b \<noteq> Price_INVALID"

end
