(* ===== verification/MarketOrderBook.thy ===== *)
theory MarketOrderBook
  imports MarketOrder LevelWalk RingWalk Messages
begin

text \<open>
  \<open>trading/strategy/market_order_book.h\<close> and \<open>market_order_book.cpp\<close>: the book a trading client
  rebuilds from the exchange's market updates, member function by member function. Functions
  that the class shares by name with the engine's book carry the suffix \<open>_mkt\<close>. The calls
  back into the trade engine are parameters of \<open>onMarketUpdate\<close>; the engine reads the book
  only through \<open>getBBO\<close>. The logger is left out where its call matches its format.
\<close>

record MarketOrderBook =
  mb_ticker_id :: TickerId
  has_trade_engine :: bool
  oid_to_order :: "nat \<Rightarrow> ptr"
  mb_levels :: "MarketOrdersAtPrice MemPool"
  mb_bids :: ptr
  mb_asks :: ptr
  price_orders_at_price :: "nat \<Rightarrow> ptr"
  mb_orders :: "MarketOrder MemPool"
  bbo :: BBO

text \<open>The two pointer tables have no initialiser.\<close>

definition MarketOrderBook_ctor ::
  "(nat \<Rightarrow> ptr) \<Rightarrow> (nat \<Rightarrow> ptr) \<Rightarrow> TickerId \<Rightarrow> MarketOrderBook" where
  "MarketOrderBook_ctor raw_oid raw_px tid =
     \<lparr>mb_ticker_id = tid, has_trade_engine = False, oid_to_order = raw_oid,
      mb_levels = MemPool_ctor MarketOrdersAtPrice_default ME_MAX_PRICE_LEVELS,
      mb_bids = None, mb_asks = None, price_orders_at_price = raw_px,
      mb_orders = MemPool_ctor MarketOrder_default ME_MAX_ORDER_IDS, bbo = BBO_default\<rparr>"

definition setTradeEngine :: "MarketOrderBook \<Rightarrow> MarketOrderBook" where
  "setTradeEngine b = b\<lparr>has_trade_engine := True\<rparr>"

section \<open>Reading and writing through pointers\<close>

definition mord_at :: "MarketOrderBook \<Rightarrow> nat \<Rightarrow> MarketOrder" where
  "mord_at b a = obj (mb_orders b) a"

definition mlvl_at :: "MarketOrderBook \<Rightarrow> nat \<Rightarrow> MarketOrdersAtPrice" where
  "mlvl_at b a = obj (mb_levels b) a"

definition set_mord :: "nat \<Rightarrow> (MarketOrder \<Rightarrow> MarketOrder) \<Rightarrow> MarketOrderBook \<Rightarrow> MarketOrderBook" where
  "set_mord a f b = b\<lparr>mb_orders := upd_obj a f (mb_orders b)\<rparr>"

definition set_mlvl ::
  "nat \<Rightarrow> (MarketOrdersAtPrice \<Rightarrow> MarketOrdersAtPrice) \<Rightarrow> MarketOrderBook \<Rightarrow> MarketOrderBook" where
  "set_mlvl a f b = b\<lparr>mb_levels := upd_obj a f (mb_levels b)\<rparr>"

definition mside_head :: "Side \<Rightarrow> MarketOrderBook \<Rightarrow> ptr" where
  "mside_head side b = (if side = BUY then mb_bids b else mb_asks b)"

definition set_mside_head :: "Side \<Rightarrow> ptr \<Rightarrow> MarketOrderBook \<Rightarrow> MarketOrderBook" where
  "set_mside_head side p b = (if side = BUY then b\<lparr>mb_bids := p\<rparr> else b\<lparr>mb_asks := p\<rparr>)"

definition priceToIndex_mkt :: "Price \<Rightarrow> nat" where
  "priceToIndex_mkt price = unat price mod ME_MAX_PRICE_LEVELS"

definition getOrdersAtPrice_mkt :: "Price \<Rightarrow> MarketOrderBook \<Rightarrow> ptr res" where
  "getOrdersAtPrice_mkt price b =
     at_idx ME_MAX_PRICE_LEVELS (priceToIndex_mkt price) (price_orders_at_price b)"

definition getBBO :: "MarketOrderBook \<Rightarrow> BBO" where
  "getBBO b = bbo b"

section \<open>Price levels\<close>

definition mkt_worse_than :: "MarketOrderBook \<Rightarrow> nat \<Rightarrow> nat \<Rightarrow> bool" where
  "mkt_worse_than b new target \<longleftrightarrow>
     (ml_side (mlvl_at b new) = SELL \<and> ml_price (mlvl_at b new) > ml_price (mlvl_at b target))
   \<or> (ml_side (mlvl_at b new) = BUY \<and> ml_price (mlvl_at b new) < ml_price (mlvl_at b target))"

definition mkt_better_than :: "MarketOrderBook \<Rightarrow> nat \<Rightarrow> nat \<Rightarrow> bool" where
  "mkt_better_than b new bst \<longleftrightarrow>
     (ml_side (mlvl_at b new) = BUY \<and> ml_price (mlvl_at b new) > ml_price (mlvl_at b bst))
   \<or> (ml_side (mlvl_at b new) = SELL \<and> ml_price (mlvl_at b new) < ml_price (mlvl_at b bst))"

definition insert_after_target_mkt :: "nat \<Rightarrow> nat \<Rightarrow> MarketOrderBook \<Rightarrow> MarketOrderBook res" where
  "insert_after_target_mkt new target b =
     (let b = set_mlvl new (\<lambda>l. l\<lparr>ml_prev := Some target\<rparr>) b
      in bindr (deref (ml_next (mlvl_at b target))) (\<lambda>after.
         let b = set_mlvl after (\<lambda>l. l\<lparr>ml_prev := Some new\<rparr>) b;
             b = set_mlvl new (\<lambda>l. l\<lparr>ml_next := ml_next (mlvl_at b target)\<rparr>) b;
             b = set_mlvl target (\<lambda>l. l\<lparr>ml_next := Some new\<rparr>) b
         in Inr b))"

definition insert_before_target_mkt ::
  "nat \<Rightarrow> nat \<Rightarrow> nat \<Rightarrow> MarketOrderBook \<Rightarrow> MarketOrderBook res" where
  "insert_before_target_mkt new target bst b =
     (let b = set_mlvl new (\<lambda>l. l\<lparr>ml_prev := ml_prev (mlvl_at b target)\<rparr>) b;
          b = set_mlvl new (\<lambda>l. l\<lparr>ml_next := Some target\<rparr>) b
      in bindr (deref (ml_prev (mlvl_at b target))) (\<lambda>before.
         let b = set_mlvl before (\<lambda>l. l\<lparr>ml_next := Some new\<rparr>) b;
             b = set_mlvl target (\<lambda>l. l\<lparr>ml_prev := Some new\<rparr>) b
         in if mkt_better_than b new bst
            then Inr (set_mside_head (ml_side (mlvl_at b new)) (Some new)
                   (set_mlvl target
                      (\<lambda>l. l\<lparr>ml_next := (if ml_next l = Some bst then Some new else ml_next l)\<rparr>) b))
            else Inr b))"

text \<open>Both comparisons of the search test the side.\<close>

definition addOrdersAtPrice_mkt :: "nat \<Rightarrow> MarketOrderBook \<Rightarrow> MarketOrderBook res" where
  "addOrdersAtPrice_mkt new b =
     bindr (at_idx ME_MAX_PRICE_LEVELS (priceToIndex_mkt (ml_price (mlvl_at b new)))
              (price_orders_at_price b)) (\<lambda>_.
     let b = b\<lparr>price_orders_at_price :=
                 (price_orders_at_price b)(priceToIndex_mkt (ml_price (mlvl_at b new)) := Some new)\<rparr>;
         side = ml_side (mlvl_at b new)
     in (case mside_head side b of
           None \<Rightarrow>
             Inr (set_mlvl new (\<lambda>l. l\<lparr>ml_prev := Some new, ml_next := Some new\<rparr>)
                   (set_mside_head side (Some new) b))
         | Some bst \<Rightarrow>
             bindr (if mkt_worse_than b new bst
                    then bindr (deref (ml_next (mlvl_at b bst))) (\<lambda>target.
                           Inr (target, mkt_worse_than b new target))
                    else Inr (bst, False)) (\<lambda>(target, add_after).
             bindr (returned (level_walk (mkt_worse_than b new) (\<lambda>a. ml_next (mlvl_at b a)) bst
                                target add_after)) (\<lambda>(target, add_after).
             if add_after
             then bindr (if target = bst then deref (ml_prev (mlvl_at b bst)) else Inr target)
                    (\<lambda>target. insert_after_target_mkt new target b)
             else insert_before_target_mkt new target bst b))))"

definition removeOrdersAtPrice_mkt :: "Side \<Rightarrow> Price \<Rightarrow> MarketOrderBook \<Rightarrow> MarketOrderBook res" where
  "removeOrdersAtPrice_mkt side price b =
     (let best_orders_by_price = mside_head side b
      in bindr (getOrdersAtPrice_mkt price b) (\<lambda>p. bindr (deref p) (\<lambda>l.
         bindr (if ml_next (mlvl_at b l) = Some l
                then Inr (set_mside_head side None b)
                else bindr (deref (ml_prev (mlvl_at b l))) (\<lambda>before.
                     let b = set_mlvl before (\<lambda>x. x\<lparr>ml_next := ml_next (mlvl_at b l)\<rparr>) b
                     in bindr (deref (ml_next (mlvl_at b l))) (\<lambda>after.
                        let b = set_mlvl after (\<lambda>x. x\<lparr>ml_prev := ml_prev (mlvl_at b l)\<rparr>) b;
                            b = (if Some l = best_orders_by_price
                                 then set_mside_head side (ml_next (mlvl_at b l)) b else b);
                            b = set_mlvl l (\<lambda>x. x\<lparr>ml_prev := None, ml_next := None\<rparr>) b
                        in Inr b))) (\<lambda>b.
         let b = b\<lparr>price_orders_at_price :=
                     (price_orders_at_price b)(priceToIndex_mkt price := None)\<rparr>
         in bindr (deallocate l (mb_levels b)) (\<lambda>pool. Inr (b\<lparr>mb_levels := pool\<rparr>))))))"

section \<open>Orders\<close>

definition set_oid :: "OrderId \<Rightarrow> ptr \<Rightarrow> MarketOrderBook \<Rightarrow> MarketOrderBook res" where
  "set_oid oid p b =
     bindr (at_idx ME_MAX_ORDER_IDS (unat oid) (oid_to_order b)) (\<lambda>_.
     Inr (b\<lparr>oid_to_order := (oid_to_order b)(unat oid := p)\<rparr>))"

definition addOrder_mkt :: "nat \<Rightarrow> MarketOrderBook \<Rightarrow> MarketOrderBook res" where
  "addOrder_mkt order b =
     bindr (getOrdersAtPrice_mkt (mo_price (mord_at b order)) b) (\<lambda>orders_at_price.
     bindr (case orders_at_price of
              None \<Rightarrow>
                let b = set_mord order (\<lambda>x. x\<lparr>mo_next := Some order, mo_prev := Some order\<rparr>) b
                in bindr (allocate (MarketOrdersAtPrice_ctor (mo_side (mord_at b order))
                             (mo_price (mord_at b order)) (Some order) None None)
                            (mb_levels b)) (\<lambda>(new, pool).
                   addOrdersAtPrice_mkt new (b\<lparr>mb_levels := pool\<rparr>))
            | Some l \<Rightarrow>
                bindr (deref (ml_first (mlvl_at b l))) (\<lambda>first_order.
                bindr (deref (mo_prev (mord_at b first_order))) (\<lambda>lst.
                let b = set_mord lst (\<lambda>x. x\<lparr>mo_next := Some order\<rparr>) b;
                    b = set_mord order (\<lambda>x. x\<lparr>mo_prev := mo_prev (mord_at b first_order)\<rparr>) b;
                    b = set_mord order (\<lambda>x. x\<lparr>mo_next := Some first_order\<rparr>) b;
                    b = set_mord first_order (\<lambda>x. x\<lparr>mo_prev := Some order\<rparr>) b
                in Inr b))) (\<lambda>b.
     set_oid (mo_order_id (mord_at b order)) (Some order) b))"

definition removeOrder_mkt :: "nat \<Rightarrow> MarketOrderBook \<Rightarrow> MarketOrderBook res" where
  "removeOrder_mkt order b =
     bindr (getOrdersAtPrice_mkt (mo_price (mord_at b order)) b) (\<lambda>orders_at_price.
     bindr (if mo_prev (mord_at b order) = Some order
            then removeOrdersAtPrice_mkt (mo_side (mord_at b order)) (mo_price (mord_at b order)) b
            else let order_before = mo_prev (mord_at b order);
                     order_after = mo_next (mord_at b order)
                 in bindr (deref order_before) (\<lambda>before.
                    let b = set_mord before (\<lambda>x. x\<lparr>mo_next := order_after\<rparr>) b
                    in bindr (deref order_after) (\<lambda>after.
                       let b = set_mord after (\<lambda>x. x\<lparr>mo_prev := order_before\<rparr>) b
                       in bindr (deref orders_at_price) (\<lambda>l.
                          let b = (if ml_first (mlvl_at b l) = Some order
                                   then set_mlvl l (\<lambda>x. x\<lparr>ml_first := order_after\<rparr>) b else b);
                              b = set_mord order (\<lambda>x. x\<lparr>mo_prev := None, mo_next := None\<rparr>) b
                          in Inr b)))) (\<lambda>b.
     bindr (set_oid (mo_order_id (mord_at b order)) None b) (\<lambda>b.
     bindr (deallocate order (mb_orders b)) (\<lambda>pool.
     Inr (b\<lparr>mb_orders := pool\<rparr>)))))"

section \<open>The best bid and offer\<close>

text \<open>Price and total quantity at the best level of a side.\<close>

definition best_of_side :: "Side \<Rightarrow> MarketOrderBook \<Rightarrow> (Price \<times> Qty) res" where
  "best_of_side side b =
     (case mside_head side b of
        None \<Rightarrow> Inr (Price_INVALID, Qty_INVALID)
      | Some l \<Rightarrow>
          bindr (deref (ml_first (mlvl_at b l))) (\<lambda>first.
          bindr (returned (ring_nodes (\<lambda>a. mo_next (mord_at b a)) first first)) (\<lambda>orders.
          Inr (ml_price (mlvl_at b l), sum_list (map (\<lambda>a. mo_qty (mord_at b a)) orders)))))"

definition MarketOrderBook_updateBBO :: "bool \<Rightarrow> bool \<Rightarrow> MarketOrderBook \<Rightarrow> MarketOrderBook res" where
  "MarketOrderBook_updateBBO update_bid update_ask b =
     bindr (if update_bid
            then bindr (best_of_side BUY b) (\<lambda>(p, q).
                 Inr (b\<lparr>bbo := (bbo b)\<lparr>bid_price := p, bid_qty := q\<rparr>\<rparr>))
            else Inr b) (\<lambda>b.
     if update_ask
     then bindr (best_of_side SELL b) (\<lambda>(p, q).
          Inr (b\<lparr>bbo := (bbo b)\<lparr>ask_price := p, ask_qty := q\<rparr>\<rparr>))
     else Inr b)"

section \<open>Clearing\<close>

text \<open>The loop over the order table.\<close>

definition free_orders :: "MarketOrderBook \<Rightarrow> MarketOrder MemPool res" where
  "free_orders b =
     fold_res (\<lambda>i pool. case oid_to_order b i of None \<Rightarrow> Inr pool | Some a \<Rightarrow> deallocate a pool)
       [0..<ME_MAX_ORDER_IDS] (mb_orders b)"

text \<open>\<open>for(itr = head->next; itr != head; itr = itr->next) deallocate(itr);\<close> reads the link of a
  block it has just released.\<close>

partial_function (option) free_levels ::
  "nat \<Rightarrow> ptr \<Rightarrow> MarketOrdersAtPrice MemPool \<Rightarrow> MarketOrdersAtPrice MemPool res option" where
  "free_levels head itr pool =
     (case itr of
        None \<Rightarrow> Some (Inl (Undefined ''null pointer dereference''))
      | Some l \<Rightarrow>
          if l = head then Some (Inr pool)
          else (case deallocate l pool of
                  Inl e \<Rightarrow> Some (Inl e)
                | Inr pool' \<Rightarrow> free_levels head (ml_next (obj pool' l)) pool'))"

definition free_side :: "ptr \<Rightarrow> MarketOrdersAtPrice MemPool \<Rightarrow> MarketOrdersAtPrice MemPool res" where
  "free_side head pool =
     (case head of
        None \<Rightarrow> Inr pool
      | Some h \<Rightarrow>
          bindr (returned (free_levels h (ml_next (obj pool h)) pool)) (deallocate h))"

text \<open>The table from prices to levels is left as it is.\<close>

definition clear_book :: "MarketOrderBook \<Rightarrow> MarketOrderBook res" where
  "clear_book b =
     bindr (free_orders b) (\<lambda>orders.
     bindr (free_side (mb_bids b) (mb_levels b)) (\<lambda>levels.
     bindr (free_side (mb_asks b) levels) (\<lambda>levels.
     Inr (b\<lparr>mb_orders := orders, oid_to_order := (\<lambda>_. None), mb_levels := levels,
            mb_bids := None, mb_asks := None\<rparr>))))"

section \<open>Printing\<close>

definition print_level_mkt ::
  "bool \<Rightarrow> bool \<Rightarrow> MarketOrderBook \<Rightarrow> Side \<Rightarrow> nat \<Rightarrow> string \<times> Price \<Rightarrow> (string \<times> Price) res" where
  "print_level_mkt detailed sanity_check b side itr acc =
     (let l = mlvl_at b itr; price = ml_price l
      in bindr (deref (ml_first l)) (\<lambda>first.
         bindr (returned (ring_nodes (\<lambda>a. mo_next (mord_at b a)) first first)) (\<lambda>orders.
         bindr (deref (ml_prev l)) (\<lambda>p. bindr (deref (ml_next l)) (\<lambda>n.
         let qty = sum_list (map (\<lambda>a. mo_qty (mord_at b a)) orders);
             oid = (\<lambda>q. case q of Some a \<Rightarrow> mo_order_id (mord_at b a) | None \<Rightarrow> OrderId_INVALID);
             cells = concat (map (\<lambda>a. order_cell (mo_order_id (mord_at b a))
                        (mo_qty (mord_at b a)) (oid (mo_prev (mord_at b a)))
                        (oid (mo_next (mord_at b a)))) orders);
             text = fst acc @ level_line price (ml_price (mlvl_at b p)) (ml_price (mlvl_at b n)) qty
                        (length orders) @ (if detailed then cells else []) @ newline
         in if \<not> sanity_check then Inr (text, snd acc)
            else if (side = SELL \<and> snd acc \<ge> price) \<or> (side = BUY \<and> snd acc \<le> price)
            then FATAL (''Bids/Asks not sorted by ascending/descending prices last:''
                   @ priceToString (snd acc) @ '' itr:''
                   @ MarketOrdersAtPrice_toString (mb_orders b) (mb_levels b) l)
            else Inr (text, price))))))"

text \<open>The last price seen starts at the smallest price for the asks, at the largest for the bids.\<close>

definition print_side_mkt ::
  "bool \<Rightarrow> bool \<Rightarrow> MarketOrderBook \<Rightarrow> Side \<Rightarrow> string \<Rightarrow> Price \<Rightarrow> string res" where
  "print_side_mkt detailed sanity_check b side label last_price =
     (case mside_head side b of
        None \<Rightarrow> Inr []
      | Some h \<Rightarrow>
          bindr (returned (map_option Inr (ring_levels (\<lambda>l. ml_next (mlvl_at b l)) (Some h) h))) (\<lambda>ls.
          bindr (fold_res (\<lambda>(count, itr) acc.
                    print_level_mkt detailed sanity_check b side itr
                      (fst acc @ label @ nat_to_string count @ '' => '', snd acc))
                  (enumerate 0 ls) ([], last_price)) (\<lambda>acc.
          Inr (fst acc))))"

definition MarketOrderBook_toString :: "bool \<Rightarrow> bool \<Rightarrow> MarketOrderBook \<Rightarrow> string res" where
  "MarketOrderBook_toString detailed validity_check b =
     bindr (print_side_mkt detailed validity_check b SELL ''ASKS L:'' 0) (\<lambda>asks.
     bindr (print_side_mkt detailed validity_check b BUY ''BIDS L:'' (- 1)) (\<lambda>bids.
     Inr (''Ticker:'' @ TickerIdToString (mb_ticker_id b) @ newline @ asks @ newline
          @ ''                          X'' @ newline @ newline @ bids)))"

definition MarketOrderBook_dtor :: "MarketOrderBook \<Rightarrow> MarketOrderBook res" where
  "MarketOrderBook_dtor b =
     bindr (MarketOrderBook_toString False True b) (\<lambda>_.
     Inr (b\<lparr>has_trade_engine := False, mb_bids := None, mb_asks := None, oid_to_order := (\<lambda>_. None)\<rparr>))"

section \<open>A market update\<close>

text \<open>Whether an update touches the best level, decided before the update is applied.\<close>

definition touches_best :: "Side \<Rightarrow> MEMarketUpdate \<Rightarrow> MarketOrderBook \<Rightarrow> bool" where
  "touches_best side u b \<longleftrightarrow>
     (case mside_head side b of
        None \<Rightarrow> False
      | Some l \<Rightarrow> mu_side u = side
          \<and> (if side = BUY then mu_price u \<ge> ml_price (mlvl_at b l)
             else mu_price u \<le> ml_price (mlvl_at b l)))"

definition update_book :: "MEMarketUpdate \<Rightarrow> MarketOrderBook \<Rightarrow> MarketOrderBook res" where
  "update_book u b =
     (case mu_type u of
        MUT_ADD \<Rightarrow>
          bindr (allocate (MarketOrder_ctor (mu_order_id u) (mu_side u) (mu_price u) (mu_qty u)
                   (mu_priority u) None None) (mb_orders b)) (\<lambda>(a, pool).
          addOrder_mkt a (b\<lparr>mb_orders := pool\<rparr>))
      | MUT_MODIFY \<Rightarrow>
          bindr (at_idx ME_MAX_ORDER_IDS (unat (mu_order_id u)) (oid_to_order b)) (\<lambda>p.
          bindr (deref p) (\<lambda>a. Inr (set_mord a (\<lambda>x. x\<lparr>mo_qty := mu_qty u\<rparr>) b)))
      | MUT_CANCEL \<Rightarrow>
          bindr (at_idx ME_MAX_ORDER_IDS (unat (mu_order_id u)) (oid_to_order b)) (\<lambda>p.
          bindr (deref p) (\<lambda>a. removeOrder_mkt a b))
      | MUT_CLEAR \<Rightarrow> clear_book b
      | _ \<Rightarrow> Inr b)"

definition onMarketUpdate ::
  "(MEMarketUpdate \<Rightarrow> BBO \<Rightarrow> 'e \<Rightarrow> 'e res) \<Rightarrow> (TickerId \<Rightarrow> Price \<Rightarrow> Side \<Rightarrow> BBO \<Rightarrow> 'e \<Rightarrow> 'e res)
    \<Rightarrow> MEMarketUpdate \<Rightarrow> MarketOrderBook \<Rightarrow> 'e \<Rightarrow> (MarketOrderBook \<times> 'e) res" where
  "onMarketUpdate onTradeUpdate onOrderBookUpdate u b e =
     (let bid_updated = touches_best BUY u b; ask_updated = touches_best SELL u b
      in if mu_type u = MUT_TRADE
         then if has_trade_engine b
              then bindr (onTradeUpdate u (getBBO b) e) (\<lambda>e. Inr (b, e))
              else Inl (Undefined ''null pointer dereference'')
         else bindr (update_book u b) (\<lambda>b.
              bindr (MarketOrderBook_updateBBO bid_updated ask_updated b) (\<lambda>b.
              if has_trade_engine b
              then bindr (onOrderBookUpdate (mu_ticker_id u) (mu_price u) (mu_side u) (getBBO b) e) (\<lambda>e.
                   bindr (MarketOrderBook_toString False True b) (\<lambda>_. Inr (b, e)))
              else Inl (Undefined ''null pointer dereference''))))"

end
