(* ===== verification/ClientBookRep.thy ===== *)
theory ClientBookRep
  imports MarketOrderBook MEOrderBookOps
begin

text \<open>
  The client's book is the engine's book with less in it: \<open>me_of b\<close> reads a client's book as an
  engine's book whose orders all belong to client 0 and carry their market order id as the
  client's order id. Every pointer operation commutes with \<open>me_of\<close>; only the first comparison
  of the search for a new level's place differs, and the second interpretation of
  \<open>level_search\<close> covers it. So the client's book inherits the invariant and the refinement
  of the engine's book without a second proof.
\<close>

section \<open>Reading a client's book as an engine's book\<close>

definition map_pool :: "('a \<Rightarrow> 'b) \<Rightarrow> 'a MemPool \<Rightarrow> 'b MemPool" where
  "map_pool f p =
     \<lparr>pool_store = (\<lambda>i. \<lparr>object = f (object (pool_store p i)), is_free = is_free (pool_store p i)\<rparr>),
      pool_size = pool_size p, next_free_index = next_free_index p\<rparr>"

lemma map_pool_simps [simp]:
  "obj (map_pool f p) a = f (obj p a)" "live (map_pool f p) = live p"
  "pool_size (map_pool f p) = pool_size p" "pool_wf (map_pool f p) = pool_wf p"
  "map_pool f (MemPool_ctor d n) = MemPool_ctor (f d) n"
  by (simp_all add: map_pool_def obj_def live_def pool_wf_def MemPool_ctor_def)

lemma allocate_map_pool:
  "allocate (f v) (map_pool f p) = bindr (allocate v p) (\<lambda>(a, q). Inr (a, map_pool f q))"
proof -
  have "updateNextFreeIndex (map_pool f q) = bindr (updateNextFreeIndex q) (\<lambda>r. Inr (map_pool f r))" for q
    by (simp add: updateNextFreeIndex_def map_pool_def bindr_def split: sum.splits)
  moreover have "map_pool f p\<lparr>pool_store := (pool_store (map_pool f p))(i := \<lparr>object = f v, is_free = False\<rparr>)\<rparr>
      = map_pool f (p\<lparr>pool_store := (pool_store p)(i := \<lparr>object = v, is_free = False\<rparr>)\<rparr>)" for i
    by (auto simp: map_pool_def fun_eq_iff)
  moreover have "sub_idx n i (pool_store (map_pool f p))
      = bindr (sub_idx n i (pool_store p)) (\<lambda>b. Inr \<lparr>object = f (object b), is_free = is_free b\<rparr>)" for n i
    by (simp add: sub_idx_def map_pool_def)
  moreover have "next_free_index (map_pool f p) = next_free_index p" by (simp add: map_pool_def)
  ultimately show ?thesis
    by (simp add: allocate_def bindr_assoc Let_def)
qed

lemma deallocate_map_pool:
  "deallocate a (map_pool f p) = bindr (deallocate a p) (\<lambda>q. Inr (map_pool f q))"
proof -
  have "map_pool f p\<lparr>pool_store := (pool_store (map_pool f p))(a := (pool_store (map_pool f p) a)\<lparr>is_free := True\<rparr>)\<rparr>
      = map_pool f (p\<lparr>pool_store := (pool_store p)(a := (pool_store p a)\<lparr>is_free := True\<rparr>)\<rparr>)"
    by (auto simp: map_pool_def fun_eq_iff)
  moreover have "is_free (pool_store (map_pool f p) a) = is_free (pool_store p a)"
    by (simp add: map_pool_def)
  ultimately show ?thesis by (simp add: deallocate_def bindr_assoc)
qed

lemma upd_obj_map_pool:
  "f (h (obj p a)) = g (f (obj p a)) \<Longrightarrow> upd_obj a g (map_pool f p) = map_pool f (upd_obj a h p)"
  by (auto simp: upd_obj_def map_pool_def obj_def fun_eq_iff)

definition ord_of :: "MarketOrder \<Rightarrow> MEOrder" where
  "ord_of x =
     \<lparr>o_ticker_id = 0, o_client_id = 0, o_client_order_id = mo_order_id x,
      o_market_order_id = mo_order_id x, o_side = mo_side x, o_price = mo_price x,
      o_qty = mo_qty x, o_priority = mo_priority x, o_prev = mo_prev x, o_next = mo_next x\<rparr>"

definition lvl_of :: "MarketOrdersAtPrice \<Rightarrow> MEOrdersAtPrice" where
  "lvl_of x =
     \<lparr>l_side = ml_side x, l_price = ml_price x, l_first = ml_first x, l_prev = ml_prev x,
      l_next = ml_next x\<rparr>"

definition me_of :: "MarketOrderBook \<Rightarrow> MEOrderBook" where
  "me_of b =
     \<lparr>ticker_id = 0, cid_oid_to_order = (\<lambda>c i. if c = 0 then oid_to_order b i else None),
      orders_at_price_pool = map_pool lvl_of (mb_levels b), bids_by_price = mb_bids b,
      asks_by_price = mb_asks b, price_orders_at_prices = price_orders_at_price b,
      order_pool = map_pool ord_of (mb_orders b), client_response = MEClientResponse_default,
      market_update = MEMarketUpdate_default, next_market_order_id = 1\<rparr>"

named_theorems me_of_push

lemma of_simps [simp]:
  "o_client_id (ord_of x) = 0" "o_client_order_id (ord_of x) = mo_order_id x"
  "o_market_order_id (ord_of x) = mo_order_id x" "o_side (ord_of x) = mo_side x"
  "o_price (ord_of x) = mo_price x" "o_qty (ord_of x) = mo_qty x"
  "o_priority (ord_of x) = mo_priority x" "o_prev (ord_of x) = mo_prev x"
  "o_next (ord_of x) = mo_next x"
  "l_side (lvl_of y) = ml_side y" "l_price (lvl_of y) = ml_price y" "l_first (lvl_of y) = ml_first y"
  "l_prev (lvl_of y) = ml_prev y" "l_next (lvl_of y) = ml_next y"
  by (simp_all add: ord_of_def lvl_of_def)

lemma me_of_reads [simp]:
  "ord_at (me_of b) a = ord_of (mord_at b a)" "lvl_at (me_of b) l = lvl_of (mlvl_at b l)"
  "side_head sd (me_of b) = mside_head sd b"
  "price_orders_at_prices (me_of b) = price_orders_at_price b"
  "order_pool (me_of b) = map_pool ord_of (mb_orders b)"
  "orders_at_price_pool (me_of b) = map_pool lvl_of (mb_levels b)"
  "cid_oid_to_order (me_of b) 0 i = oid_to_order b i"
  by (simp_all add: me_of_def ord_at_def mord_at_def lvl_at_def mlvl_at_def side_head_def mside_head_def)

lemma me_of_writes [me_of_push]:
  "set_ord a (\<lambda>x. x\<lparr>o_next := p\<rparr>) (me_of b) = me_of (set_mord a (\<lambda>x. x\<lparr>mo_next := p\<rparr>) b)"
  "set_ord a (\<lambda>x. x\<lparr>o_prev := p\<rparr>) (me_of b) = me_of (set_mord a (\<lambda>x. x\<lparr>mo_prev := p\<rparr>) b)"
  "set_ord a (\<lambda>x. x\<lparr>o_next := p, o_prev := q\<rparr>) (me_of b)
     = me_of (set_mord a (\<lambda>x. x\<lparr>mo_next := p, mo_prev := q\<rparr>) b)"
  "set_ord a (\<lambda>x. x\<lparr>o_prev := p, o_next := q\<rparr>) (me_of b)
     = me_of (set_mord a (\<lambda>x. x\<lparr>mo_prev := p, mo_next := q\<rparr>) b)"
  "set_ord a (\<lambda>x. x\<lparr>o_qty := k\<rparr>) (me_of b) = me_of (set_mord a (\<lambda>x. x\<lparr>mo_qty := k\<rparr>) b)"
  "set_lvl l (\<lambda>x. x\<lparr>l_next := p\<rparr>) (me_of b) = me_of (set_mlvl l (\<lambda>x. x\<lparr>ml_next := p\<rparr>) b)"
  "set_lvl l (\<lambda>x. x\<lparr>l_prev := p\<rparr>) (me_of b) = me_of (set_mlvl l (\<lambda>x. x\<lparr>ml_prev := p\<rparr>) b)"
  "set_lvl l (\<lambda>x. x\<lparr>l_first := p\<rparr>) (me_of b) = me_of (set_mlvl l (\<lambda>x. x\<lparr>ml_first := p\<rparr>) b)"
  "set_lvl l (\<lambda>x. x\<lparr>l_prev := p, l_next := q\<rparr>) (me_of b)
     = me_of (set_mlvl l (\<lambda>x. x\<lparr>ml_prev := p, ml_next := q\<rparr>) b)"
  "set_lvl l (\<lambda>x. x\<lparr>l_next := (if l_next x = p then q else l_next x)\<rparr>) (me_of b)
     = me_of (set_mlvl l (\<lambda>x. x\<lparr>ml_next := (if ml_next x = p then q else ml_next x)\<rparr>) b)"
  "set_side_head sd p (me_of b) = me_of (set_mside_head sd p b)"
  by (simp_all add: set_ord_def set_lvl_def set_mord_def set_mlvl_def set_side_head_def
      set_mside_head_def)
    (simp_all add: me_of_def upd_obj_map_pool[symmetric] ord_of_def lvl_of_def upd_obj_def map_pool_def
      obj_def fun_eq_iff)

lemma me_of_tables [me_of_push]:
  "me_of b\<lparr>price_orders_at_prices := t\<rparr> = me_of (b\<lparr>price_orders_at_price := t\<rparr>)"
  "me_of b\<lparr>orders_at_price_pool := map_pool lvl_of lp\<rparr> = me_of (b\<lparr>mb_levels := lp\<rparr>)"
  "me_of b\<lparr>order_pool := map_pool ord_of p\<rparr> = me_of (b\<lparr>mb_orders := p\<rparr>)"
  by (simp_all add: me_of_def cong: if_cong)

lemma me_of_worse [simp]:
  "worse_than (me_of b) = mkt_worse_than b" "better_than (me_of b) = mkt_better_than b"
  by (simp_all add: fun_eq_iff worse_than_def mkt_worse_than_def better_than_def mkt_better_than_def)

lemma priceToIndex_mkt_pidx [simp]: "priceToIndex_mkt p = pidx p"
  by (simp add: priceToIndex_mkt_def pidx_def)

lemma getOrdersAtPrice_mkt_eq [simp]:
  "getOrdersAtPrice_mkt p b = Inr (price_orders_at_price b (pidx p))"
  by (simp add: getOrdersAtPrice_mkt_def)

section \<open>The operations commute with the reading\<close>

definition to_me :: "MarketOrderBook res \<Rightarrow> MEOrderBook res" where
  "to_me r = bindr r (\<lambda>b. Inr (me_of b))"

lemma to_me_simps [simp]:
  "to_me (Inr b) = Inr (me_of b)" "to_me (Inl e) = Inl e"
  "to_me (bindr m f) = bindr m (\<lambda>x. to_me (f x))"
  by (simp_all add: to_me_def bindr_assoc)

lemma bindr_to_me [simp]: "bindr (to_me r) f = bindr r (\<lambda>b. f (me_of b))"
  by (simp add: to_me_def bindr_assoc)

lemma bindr_if: "bindr (if c then r else s) f = (if c then bindr r f else bindr s f)"
  by simp

lemma if_me_of: "(if c then me_of b else me_of d) = me_of (if c then b else d)"
  by simp

lemma to_me_if: "to_me (if c then r else s) = (if c then to_me r else to_me s)"
  by simp

lemma to_me_InrD: "to_me r = Inr s \<Longrightarrow> \<exists>b. r = Inr b \<and> s = me_of b"
  by (cases r) auto

lemma insert_after_target_me:
  "insert_after_target new t (me_of b) = to_me (insert_after_target_mkt new t b)"
  by (simp add: insert_after_target_def insert_after_target_mkt_def Let_def me_of_push)

lemma insert_before_target_me:
  "insert_before_target new t bst (me_of b) = to_me (insert_before_target_mkt new t bst b)"
  by (simp add: insert_before_target_def insert_before_target_mkt_def Let_def me_of_push to_me_if
      cong: if_cong)

lemma mkt_reads_table [simp]:
  "mlvl_at (b\<lparr>price_orders_at_price := t\<rparr>) = mlvl_at b"
  "mord_at (b\<lparr>price_orders_at_price := t\<rparr>) = mord_at b"
  "mside_head sd (b\<lparr>price_orders_at_price := t\<rparr>) = mside_head sd b"
  "mkt_worse_than (b\<lparr>price_orders_at_price := t\<rparr>) = mkt_worse_than b"
  by (simp_all add: fun_eq_iff mlvl_at_def mord_at_def mside_head_def mkt_worse_than_def)

lemma addOrdersAtPrice_me: "add_level worse_than new (me_of b) = to_me (addOrdersAtPrice_mkt new b)"
proof -
  let ?b = "b\<lparr>price_orders_at_price := (price_orders_at_price b)(pidx (ml_price (mlvl_at b new)) := Some new)\<rparr>"
  have "find_target worse_than (me_of ?b) new bst =
      bindr (if mkt_worse_than b new bst
             then bindr (deref (ml_next (mlvl_at b bst))) (\<lambda>target.
                    Inr (target, mkt_worse_than b new target))
             else Inr (bst, False)) (\<lambda>(target, add_after).
      returned (level_walk (mkt_worse_than b new) (\<lambda>a. ml_next (mlvl_at b a)) bst target add_after))" for bst
    by (simp add: find_target_def)
  then show ?thesis
    by (cases "mside_head (ml_side (mlvl_at b new)) b")
      (simp_all add: add_level_def addOrdersAtPrice_mkt_def Let_def me_of_push case_prod_unfold bindr_assoc
        insert_after_target_me insert_before_target_me to_me_if cong: if_cong)
qed

lemma removeOrdersAtPrice_me:
  "removeOrdersAtPrice sd p (me_of b) = to_me (removeOrdersAtPrice_mkt sd p b)"
  unfolding removeOrdersAtPrice_def removeOrdersAtPrice_mkt_def bindr_if
  by (simp add: Let_def me_of_push priceToIndex_pidx
        bindr_assoc if_me_of deallocate_map_pool to_me_if bindr_if cong: if_cong)


lemma set_oid_me: "set_cid_oid 0 oid p (me_of b) = to_me (set_oid oid p b)"
  by (simp add: set_cid_oid_def set_oid_def bindr_assoc limit_defs at_idx_def)
    (auto simp: me_of_def fun_eq_iff)

lemma addOrder_me: "addOrder_with (add_level worse_than) a (me_of b) = to_me (addOrder_mkt a b)"
proof -
  have al: "allocate (MEOrdersAtPrice_ctor s q f None None) (orders_at_price_pool (me_of c))
      = bindr (allocate (MarketOrdersAtPrice_ctor s q f None None) (mb_levels c)) (\<lambda>(x, r).
          Inr (x, map_pool lvl_of r))" for s q f c
  proof -
    have "MEOrdersAtPrice_ctor s q f None None = lvl_of (MarketOrdersAtPrice_ctor s q f None None)"
      by (simp add: lvl_of_def MEOrdersAtPrice_ctor_def MarketOrdersAtPrice_ctor_def)
    then show ?thesis by (simp add: allocate_map_pool)
  qed
  show ?thesis
    by (cases "price_orders_at_price b (pidx (mo_price (mord_at b a)))")
      (simp_all add: addOrder_with_def addOrder_mkt_def Let_def me_of_push bindr_assoc al
        case_prod_unfold addOrdersAtPrice_me set_oid_me del: me_of_reads(6))
qed

lemma removeOrder_me: "removeOrder a (me_of b) = to_me (removeOrder_mkt a b)"
  unfolding removeOrder_def removeOrder_mkt_def bindr_if
  by (simp add: Let_def me_of_push removeOrdersAtPrice_me set_oid_me
        bindr_assoc if_me_of deallocate_map_pool to_me_if bindr_if cong: if_cong)


end
