(* ===== verification/ClientBookOps.thy ===== *)
theory ClientBookOps
  imports ClientBookRep
begin

text \<open>
  What a market update does to the client's book, against \<open>BookSpec\<close>: \<open>apply_update\<close> is the
  update on abstract books, and every update but CLEAR is followed exactly. The orders of a
  client's book are abstract orders of client 0 whose two ids are the market order id.
\<close>

interpretation client_search: level_search worse_than "\<lambda>_ _ _. True"
proof (unfold_locales, goal_cases)
  case (2 b new sd n t)
  then show ?case using worse_better(1)[OF 2(1,2)] better_asym by blast
qed (simp_all add: worse_than_def fun_eq_iff)

definition mkt_refines :: "MarketOrderBook \<Rightarrow> abook \<Rightarrow> bool" where
  "mkt_refines b A \<longleftrightarrow> me_refines (me_of b) A"

abbreviation has_oid :: "OrderId \<Rightarrow> aorder \<Rightarrow> bool" where
  "has_oid oid \<equiv> has_ids 0 oid"

definition order_shown :: "MEMarketUpdate \<Rightarrow> aorder" where
  "order_shown u = \<lparr>a_client = 0, a_coid = mu_order_id u, a_moid = mu_order_id u, a_qty = mu_qty u,
     a_prio = mu_priority u\<rparr>"

definition requote :: "(aorder \<Rightarrow> bool) \<Rightarrow> Qty \<Rightarrow> alevel list \<Rightarrow> alevel list" where
  "requote P q L = map (\<lambda>(p, os). (p, map (\<lambda>ao. if P ao then ao\<lparr>a_qty := q\<rparr> else ao) os)) L"

definition apply_update :: "MEMarketUpdate \<Rightarrow> abook \<Rightarrow> abook" where
  "apply_update u A =
     (case mu_type u of
        MUT_ADD \<Rightarrow> A(mu_side u := enqueue (mu_side u) (mu_price u) (order_shown u) (A (mu_side u)))
      | MUT_MODIFY \<Rightarrow> (\<lambda>sd. requote (has_oid (mu_order_id u)) (mu_qty u) (A sd))
      | MUT_CANCEL \<Rightarrow> (\<lambda>sd. withdraw (has_oid (mu_order_id u)) (A sd))
      | MUT_CLEAR \<Rightarrow> (\<lambda>_. [])
      | _ \<Rightarrow> A)"

text \<open>An order with the update's id rests on the update's side at its price.\<close>

definition names_order :: "MEMarketUpdate \<Rightarrow> abook \<Rightarrow> bool" where
  "names_order u A \<longleftrightarrow> (mu_side u = BUY \<or> mu_side u = SELL)
     \<and> (\<exists>os. (mu_price u, os) \<in> set (A (mu_side u)) \<and> (\<exists>ao \<in> set os. has_oid (mu_order_id u) ao))"

text \<open>There is room for a new order, whose id is not in use and whose price slot is its own.\<close>

definition can_show :: "MEMarketUpdate \<Rightarrow> abook \<Rightarrow> bool" where
  "can_show u A \<longleftrightarrow> (mu_side u = BUY \<or> mu_side u = SELL)
     \<and> unat (mu_order_id u) < ME_MAX_ORDER_IDS
     \<and> (\<forall>ao \<in> set (book_orders A). \<not> has_oid (mu_order_id u) ao)
     \<and> (\<forall>x \<in> set (book_levels A). pidx (fst x) = pidx (mu_price u) \<longrightarrow> fst x = mu_price u)
     \<and> (\<forall>x \<in> set (A (opp (mu_side u))). fst x \<noteq> mu_price u)
     \<and> length (book_levels A) + 1 < ME_MAX_PRICE_LEVELS
     \<and> length (book_orders A) + 1 < ME_MAX_ORDER_IDS"

definition followable :: "MEMarketUpdate \<Rightarrow> abook \<Rightarrow> bool" where
  "followable u A \<longleftrightarrow>
     (case mu_type u of
        MUT_ADD \<Rightarrow> can_show u A
      | MUT_MODIFY \<Rightarrow> names_order u A
      | MUT_CANCEL \<Rightarrow> names_order u A
      | MUT_CLEAR \<Rightarrow> False
      | _ \<Rightarrow> True)"

section \<open>A new book\<close>

lemma MarketOrderBook_ctor_refines:
  assumes "\<And>i. i < ME_MAX_PRICE_LEVELS \<Longrightarrow> raw_px i = None"
    and "\<And>i. i < ME_MAX_ORDER_IDS \<Longrightarrow> raw_oid i = None"
  shows "mkt_refines (MarketOrderBook_ctor raw_oid raw_px t) (\<lambda>_. [])"
proof -
  have "ladder_rep (me_view (me_of (MarketOrderBook_ctor raw_oid raw_px t))) (\<lambda>_. [])"
    by (rule ladder_rep_empty)
      (use assms in \<open>simp_all add: MarketOrderBook_ctor_def me_of_def side_head_def\<close>)
  then have "me_rep (me_of (MarketOrderBook_ctor raw_oid raw_px t)) (\<lambda>_. [])"
    using assms by (auto simp: me_rep_def MarketOrderBook_ctor_def me_of_def pools_ok_def cid_ok_def
        cid_rep_def limit_defs ctor_pool_wf)
  then show ?thesis
    by (auto simp: mkt_refines_def book_abs_def intro: me_refinesI)
qed

section \<open>Adding\<close>

lemma mord_at_pool [simp]: "mord_at (b\<lparr>mb_orders := p\<rparr>) = obj p"
  by (simp add: mord_at_def fun_eq_iff)

lemma update_add:
  assumes ref: "mkt_refines b A" and t: "mu_type u = MUT_ADD" and can: "can_show u A"
  shows "\<exists>b'. update_book u b = Inr b' \<and> mkt_refines b' (apply_update u A)"
proof -
  obtain S where rep: "me_rep (me_of b) S" and AS: "A = book_abs (me_of b) S"
    using ref by (auto simp: mkt_refines_def me_refines_def)
  have sd: "mu_side u = BUY \<or> mu_side u = SELL" and id: "unat (mu_order_id u) < ME_MAX_ORDER_IDS"
    and nocol: "\<forall>x \<in> set (book_levels A). pidx (fst x) = pidx (mu_price u) \<longrightarrow> fst x = mu_price u"
    and oppo: "\<forall>x \<in> set (A (opp (mu_side u))). fst x \<noteq> mu_price u"
    and room: "length (book_levels A) + 1 < ME_MAX_PRICE_LEVELS"
    using can by (auto simp: can_show_def)
  let ?m = "MarketOrder_ctor (mu_order_id u) (mu_side u) (mu_price u) (mu_qty u) (mu_priority u) None None"
  have x: "o_side (ord_of ?m) = mu_side u" "o_price (ord_of ?m) = mu_price u" "ids_ok (ord_of ?m)"
    "odata (ord_of ?m) = order_shown u"
    using id by (simp_all add: MarketOrder_ctor_def ids_ok_def odata_def order_shown_def limit_defs)
  have c0: "unat (0 :: ClientId) < ME_MAX_NUM_CLIENTS" by (simp add: limit_defs)
  have fresh: "cid_oid_to_order (me_of b) (unat (o_client_id (ord_of ?m)))
      (unat (o_client_order_id (ord_of ?m))) = None"
    using cid_none[OF rep c0 id] can by (simp add: can_show_def AS MarketOrder_ctor_def)
  have rm: "card (live (mb_orders b)) + 1 < ME_MAX_ORDER_IDS"
    using can book_orders_abs(2)[OF rep] by (simp add: can_show_def AS)
  have "pool_wf (mb_orders b)" "pool_size (mb_orders b) = ME_MAX_ORDER_IDS"
    using me_repD(2)[OF rep] by (simp_all add: pools_ok_def)
  then obtain a pool where al: "allocate ?m (mb_orders b) = Inr (a, pool)" "a \<notin> live (mb_orders b)"
    "live pool = insert a (live (mb_orders b))" "pool_wf pool"
    "pool_size pool = pool_size (mb_orders b)"
    "\<And>z. obj pool z = (if z = a then ?m else obj (mb_orders b) z)"
    using allocate_ok[of "mb_orders b" ?m] rm by metis
  have pl: "placed (me_of b) a (ord_of ?m) (me_of (b\<lparr>mb_orders := pool\<rparr>))"
    using al by (auto simp: placed_def me_of_push[symmetric] intro!: exI[of _ "map_pool ord_of pool"])
  obtain s2 where s2: "addOrder_with (add_level worse_than) a (me_of (b\<lparr>mb_orders := pool\<rparr>)) = Inr s2"
    "me_refines s2 (A(mu_side u := enqueue (mu_side u) (mu_price u) (order_shown u) (A (mu_side u))))"
    using client_search.addOrder_enqueues[OF rep AS sd pl x(1,2,3) fresh nocol oppo room]
    unfolding x(4) by blast
  then obtain b' where "addOrder_mkt a (b\<lparr>mb_orders := pool\<rparr>) = Inr b'" "s2 = me_of b'"
    using to_me_InrD unfolding addOrder_me by blast
  then show ?thesis
    using al(1) s2(2) by (simp add: update_book_def t apply_update_def mkt_refines_def)
qed

section \<open>Changing a quantity, cancelling\<close>

lemma oid_lookup:
  assumes rep: "me_rep (me_of b) S" and "unat oid < ME_MAX_ORDER_IDS"
  shows "oid_to_order b (unat oid) = Some a \<longleftrightarrow>
      a \<in> live (mb_orders b) \<and> has_oid oid (odata (ord_of (mord_at b a)))"
  using cid_lookup[OF rep, of 0 oid a] assms(2) by (simp add: limit_defs)

lemma update_modify:
  assumes ref: "mkt_refines b A" and t: "mu_type u = MUT_MODIFY" and n: "names_order u A"
  shows "\<exists>b'. update_book u b = Inr b' \<and> mkt_refines b' (apply_update u A)"
proof -
  obtain S where rep: "me_rep (me_of b) S" and AS: "A = book_abs (me_of b) S"
    using ref by (auto simp: mkt_refines_def me_refines_def)
  note r = me_repD(1)[OF rep]
  let ?id = "mu_order_id u" and ?sd = "mu_side u"
  have sd: "?sd = BUY \<or> ?sd = SELL" using n by (simp add: names_order_def)
  obtain os ao where os: "(mu_price u, os) \<in> set (A ?sd)" "ao \<in> set os" "has_oid ?id ao"
    using n by (auto simp: names_order_def)
  obtain a where a: "oid_to_order b (unat ?id) = Some a" "unat ?id < ME_MAX_ORDER_IDS"
    by (rule removeOrder_withdraws[OF rep AS sd os]) simp
  let ?b = "set_mord a (\<lambda>x. x\<lparr>mo_qty := mu_qty u\<rparr>) b"
  have up: "update_book u b = Inr ?b" using a t by (simp add: update_book_def)
  have meb: "me_of ?b = set_ord a (\<lambda>x. x\<lparr>o_qty := mu_qty u\<rparr>) (me_of b)" by (simp add: me_of_push)
  have rep': "me_rep (me_of ?b) S" unfolding meb by (rule me_rep_set_qty[OF rep])
  have od: "odata (ord_at (me_of ?b) z)
      = (if has_oid ?id (odata (ord_of (mord_at b z))) then (odata (ord_of (mord_at b z)))\<lparr>a_qty := mu_qty u\<rparr>
         else odata (ord_of (mord_at b z)))" if z: "z \<in> live (mb_orders b)" for z
  proof -
    have "has_oid ?id (odata (ord_of (mord_at b z))) \<longleftrightarrow> z = a"
      using oid_lookup[OF rep a(2), of z] a(1) z by auto
    then show ?thesis unfolding meb by (simp add: view_simps odata_def)
  qed
  have lv: "lvl_at (me_of ?b) = lvl_at (me_of b)" unfolding meb by (simp add: view_simps)
  have "map (abs_lv (me_of ?b)) (S d) = requote (has_oid ?id) (mu_qty u) (map (abs_lv (me_of b)) (S d))" for d
    unfolding requote_def map_map
  proof (rule map_cong[OF refl])
    fix y assume y: "y \<in> set (S d)"
    then have "d = BUY \<or> d = SELL" using r by (auto simp: ladder_rep_def)
    then have "z \<in> live (mb_orders b)" if "z \<in> set (snd y)" for z
      using ladder_live(2)[OF r, of d] y that by (auto simp: in_orders_of)
    then show "abs_lv (me_of ?b) y = ((\<lambda>(p, os). (p, map (\<lambda>ao. if has_oid ?id ao
          then ao\<lparr>a_qty := mu_qty u\<rparr> else ao) os)) \<circ> abs_lv (me_of b)) y"
      using od lv by (simp add: abs_lv_def)
  qed
  then have "book_abs (me_of ?b) S = apply_update u A"
    using t by (simp add: apply_update_def AS book_abs_def fun_eq_iff)
  then show ?thesis using up me_refinesI[OF rep' refl] by (simp add: mkt_refines_def)
qed

lemma update_cancel:
  assumes ref: "mkt_refines b A" and t: "mu_type u = MUT_CANCEL" and n: "names_order u A"
  shows "\<exists>b'. update_book u b = Inr b' \<and> mkt_refines b' (apply_update u A)"
proof -
  obtain S where rep: "me_rep (me_of b) S" and AS: "A = book_abs (me_of b) S"
    using ref by (auto simp: mkt_refines_def me_refines_def)
  note r = me_repD(1)[OF rep]
  let ?id = "mu_order_id u" and ?sd = "mu_side u"
  have sd: "?sd = BUY \<or> ?sd = SELL" using n by (simp add: names_order_def)
  obtain os ao where os: "(mu_price u, os) \<in> set (A ?sd)" "ao \<in> set os" "has_oid ?id ao"
    using n by (auto simp: names_order_def)
  obtain a s' where a: "oid_to_order b (unat ?id) = Some a" "unat ?id < ME_MAX_ORDER_IDS"
    "mo_side (mord_at b a) = ?sd" "removeOrder a (me_of b) = Inr s'"
    "me_refines s' (A(?sd := withdraw (has_oid ?id) (A ?sd)))"
    by (rule removeOrder_withdraws[OF rep AS sd os]) simp
  obtain b' where b': "removeOrder_mkt a b = Inr b'" "s' = me_of b'"
    using a(4) to_me_InrD unfolding removeOrder_me by blast
  have "withdraw (has_oid ?id) (A d) = A d" if d: "d \<noteq> ?sd" for d
  proof (rule withdraw_nothing, rule ballI)
    fix x assume "x \<in> set (A d)"
    then obtain y where y: "y \<in> set (S d)" "x = abs_lv (me_of b) y" by (auto simp: AS book_abs_side)
    then have dd: "d = BUY \<or> d = SELL" using r by (auto simp: ladder_rep_def)
    have lr: "lvl_rep (me_view (me_of b)) d (fst y, snd y)" using ladder_lvl_rep[OF r dd] y(1) by simp
    have "z \<noteq> a" "z \<in> live (mb_orders b)" if "z \<in> set (snd y)" for z
      using lvl_repD(6)[OF lr that] a(3) d ladder_live(2)[OF r dd] y(1) that
      by (auto simp: in_orders_of)
    then have "\<not> has_oid ?id (odata (ord_of (mord_at b z)))" if "z \<in> set (snd y)" for z
      using oid_lookup[OF rep a(2), of z] a(1) that by auto
    then show "snd x \<noteq> [] \<and> (\<forall>ao \<in> set (snd x). \<not> has_oid ?id ao)"
      using y(2) lvl_repD(4)[OF lr] by (auto simp: abs_lv_def)
  qed
  then have "A(?sd := withdraw (has_oid ?id) (A ?sd)) = apply_update u A"
    using t by (auto simp: apply_update_def fun_eq_iff)
  then show ?thesis using a b' t by (simp add: update_book_def mkt_refines_def)
qed

lemma update_book_ok:
  assumes "mkt_refines b A" "followable u A"
  shows "\<exists>b'. update_book u b = Inr b' \<and> mkt_refines b' (apply_update u A)"
proof (cases "mu_type u")
  case MUT_ADD
  then show ?thesis using update_add assms by (simp add: followable_def)
next
  case MUT_MODIFY
  then show ?thesis using update_modify assms by (simp add: followable_def)
next
  case MUT_CANCEL
  then show ?thesis using update_cancel assms by (simp add: followable_def)
qed (use assms in \<open>simp_all add: followable_def update_book_def apply_update_def\<close>)

end
