(* ===== verification/ClientBookPrint.thy ===== *)
theory ClientBookPrint
  imports ClientBookOps
begin

text \<open>
  Reading the client's book: on a book that refines \<open>A\<close>, the best bid and offer are the best
  levels of \<open>A\<close>, and the printing that ends every update, with its sanity check, returns as
  long as no ask has price 0 and no bid the price that stands for none.
\<close>

section \<open>The shape of a side\<close>

lemma mkt_side:
  assumes r: "ladder_rep (me_view (me_of b)) S" and sd: "sd = BUY \<or> sd = SELL"
  shows "S sd = [] \<Longrightarrow> mside_head sd b = None"
    and "S sd = x # xs \<Longrightarrow> mside_head sd b = Some (fst x)
      \<and> ring_levels (\<lambda>l. ml_next (mlvl_at b l)) (Some (fst x)) (fst x) = Some (map fst (x # xs))"
proof -
  have sr: "side_rep (me_view (me_of b)) sd (S sd)" by (rule ladder_side_rep[OF r sd])
  then show "S sd = [] \<Longrightarrow> mside_head sd b = None" by (simp add: side_rep_def)
  assume S: "S sd = x # xs"
  then have "circ (\<lambda>l. ml_next (mlvl_at b l)) (\<lambda>l. ml_prev (mlvl_at b l)) (fst x # map fst xs)"
    using side_repD(2)[OF sr] by (simp add: me_view_def)
  from ring_levels_circ[OF this] show "mside_head sd b = Some (fst x)
      \<and> ring_levels (\<lambda>l. ml_next (mlvl_at b l)) (Some (fst x)) (fst x) = Some (map fst (x # xs))"
    using sr by (simp add: side_rep_def S)
qed

lemma mkt_level:
  assumes r: "ladder_rep (me_view (me_of b)) S" and x: "x \<in> set (S sd)" and sd: "sd = BUY \<or> sd = SELL"
  obtains p n where
    "ml_first (mlvl_at b (fst x)) = Some (hd (snd x))" "ml_prev (mlvl_at b (fst x)) = Some p"
    "ml_next (mlvl_at b (fst x)) = Some n"
    "ring_nodes (\<lambda>a. mo_next (mord_at b a)) (hd (snd x)) (hd (snd x)) = Some (Inr (snd x))"
proof -
  have sr: "side_rep (me_view (me_of b)) sd (S sd)" by (rule ladder_side_rep[OF r sd])
  have lr: "lvl_rep (me_view (me_of b)) sd x" by (rule side_repD(3)[OF sr x])
  then have c: "circ (\<lambda>a. mo_next (mord_at b a)) (\<lambda>a. mo_prev (mord_at b a)) (snd x)"
    by (simp add: lvl_rep_def me_view_def)
  have rn: "ring_nodes (\<lambda>a. mo_next (mord_at b a)) (hd (snd x)) (hd (snd x)) = Some (Inr (snd x))"
    using c ring_nodes_circ[of _ _ "hd (snd x)" "tl (snd x)"] circ_nonempty[OF c]
    by (metis list.collapse)
  have "S sd \<noteq> []" using x by auto
  then have cl: "circ (\<lambda>l. ml_next (mlvl_at b l)) (\<lambda>l. ml_prev (mlvl_at b l)) (map fst (S sd))"
    using side_repD(2)[OF sr] by (simp add: me_view_def)
  have "fst x \<in> set (map fst (S sd))" using x by simp
  then obtain p n where "ml_prev (mlvl_at b (fst x)) = Some p" "ml_next (mlvl_at b (fst x)) = Some n"
    using circ_in_links[OF cl] by blast
  moreover have "ml_first (mlvl_at b (fst x)) = Some (hd (snd x))" using lr by (simp add: lvl_rep_def)
  ultimately show thesis using that rn by blast
qed

section \<open>The best bid and offer\<close>

text \<open>What a side quotes.\<close>

definition quote_of :: "alevel list \<Rightarrow> Price \<times> Qty" where
  "quote_of L = (case L of [] \<Rightarrow> (Price_INVALID, Qty_INVALID)
                 | (p, os) # _ \<Rightarrow> (p, sum_list (map a_qty os)))"

lemma best_of_side_ok:
  assumes ref: "mkt_refines b A" and sd: "sd = BUY \<or> sd = SELL"
  shows "best_of_side sd b = Inr (quote_of (A sd))"
proof -
  obtain S where rep: "me_rep (me_of b) S" and AS: "A = book_abs (me_of b) S"
    using ref by (auto simp: mkt_refines_def me_refines_def)
  note r = me_repD(1)[OF rep]
  show ?thesis
  proof (cases "S sd")
    case Nil
    then show ?thesis using mkt_side(1)[OF r sd] by (simp add: best_of_side_def quote_of_def AS book_abs_side)
  next
    case (Cons x xs)
    have x: "x \<in> set (S sd)" by (simp add: Cons)
    obtain p n where "ml_first (mlvl_at b (fst x)) = Some (hd (snd x))"
      "ring_nodes (\<lambda>a. mo_next (mord_at b a)) (hd (snd x)) (hd (snd x)) = Some (Inr (snd x))"
      by (rule mkt_level[OF r x sd]) blast
    moreover have "mside_head sd b = Some (fst x)" using mkt_side(2)[OF r sd Cons] by blast
    ultimately show ?thesis
      by (simp add: best_of_side_def quote_of_def AS book_abs_side Cons abs_lv_def odata_def o_def)
  qed
qed

text \<open>The quotes of the book's record.\<close>

definition bbo_side :: "Side \<Rightarrow> BBO \<Rightarrow> Price \<times> Qty" where
  "bbo_side sd q = (if sd = BUY then (bid_price q, bid_qty q) else (ask_price q, ask_qty q))"

lemma me_of_bbo [simp]: "me_of (b\<lparr>bbo := q\<rparr>) = me_of b"
  by (simp add: me_of_def cong: if_cong)

lemma updateBBO_ok:
  assumes ref: "mkt_refines b A"
  shows "\<exists>b'. MarketOrderBook_updateBBO ub ua b = Inr b' \<and> me_of b' = me_of b
    \<and> has_trade_engine b' = has_trade_engine b \<and> mb_ticker_id b' = mb_ticker_id b
    \<and> bbo_side BUY (bbo b') = (if ub then quote_of (A BUY) else bbo_side BUY (bbo b))
    \<and> bbo_side SELL (bbo b') = (if ua then quote_of (A SELL) else bbo_side SELL (bbo b))"
proof -
  have q: "best_of_side sd (b\<lparr>bbo := x\<rparr>) = Inr (quote_of (A sd))" if "sd = BUY \<or> sd = SELL" for sd x
    by (rule best_of_side_ok) (use ref that in \<open>simp_all add: mkt_refines_def\<close>)
  have "b\<lparr>bbo := bbo b\<rparr> = b" by simp
  then have q0: "best_of_side sd b = Inr (quote_of (A sd))" if "sd = BUY \<or> sd = SELL" for sd
    using q[OF that, of "bbo b"] by simp
  show ?thesis
    using q q0 by (auto simp: MarketOrderBook_updateBBO_def bbo_side_def case_prod_unfold)
qed

section \<open>Printing\<close>

lemma print_level_mkt_ok:
  assumes r: "ladder_rep (me_view (me_of b)) S" and x: "x \<in> set (S sd)" and sd: "sd = BUY \<or> sd = SELL"
    and up: "better sd (snd acc) (ml_price (mlvl_at b (fst x)))"
  shows "\<exists>t. print_level_mkt detailed True b sd (fst x) acc = Inr (t, ml_price (mlvl_at b (fst x)))"
proof -
  obtain p n where "ml_first (mlvl_at b (fst x)) = Some (hd (snd x))"
    "ml_prev (mlvl_at b (fst x)) = Some p" "ml_next (mlvl_at b (fst x)) = Some n"
    "ring_nodes (\<lambda>a. mo_next (mord_at b a)) (hd (snd x)) (hd (snd x)) = Some (Inr (snd x))"
    by (rule mkt_level[OF r x sd]) blast
  moreover have "\<not> ((sd = SELL \<and> snd acc \<ge> ml_price (mlvl_at b (fst x)))
      \<or> (sd = BUY \<and> snd acc \<le> ml_price (mlvl_at b (fst x))))"
    using up sd by (auto simp: better_def)
  ultimately show ?thesis by (auto simp: print_level_mkt_def Let_def)
qed

text \<open>On a sorted side, the check compares every level with a better one.\<close>

lemma print_levels_ok:
  assumes r: "ladder_rep (me_view (me_of b)) S" and sd: "sd = BUY \<or> sd = SELL"
    and "set L \<subseteq> set (S sd)"
    and "sorted_wrt (\<lambda>x y. better sd (ml_price (mlvl_at b (fst x))) (ml_price (mlvl_at b (fst y)))) L"
    and "L \<noteq> [] \<Longrightarrow> better sd (snd acc) (ml_price (mlvl_at b (fst (hd L))))"
  shows "\<exists>t. fold_res (\<lambda>(count, itr) acc. print_level_mkt detailed True b sd itr
           (fst acc @ label @ nat_to_string count @ '' => '', snd acc)) (enumerate n (map fst L)) acc = Inr t"
  using assms(3-5)
proof (induction L arbitrary: n acc)
  case (Cons x L)
  have x: "x \<in> set (S sd)" using Cons.prems(1) by simp
  obtain t where t: "print_level_mkt detailed True b sd (fst x)
      (fst acc @ label @ nat_to_string n @ '' => '', snd acc) = Inr (t, ml_price (mlvl_at b (fst x)))"
    using print_level_mkt_ok[OF r x sd, of "(fst acc @ label @ nat_to_string n @ '' => '', snd acc)"]
      Cons.prems(3) by auto
  have "better sd (ml_price (mlvl_at b (fst x))) (ml_price (mlvl_at b (fst (hd L))))" if "L \<noteq> []"
    using Cons.prems(2) that by (cases L) auto
  then show ?case
    using Cons.IH[of "(t, ml_price (mlvl_at b (fst x)))" "Suc n"] Cons.prems t by simp
qed simp

definition printable :: "abook \<Rightarrow> bool" where
  "printable A \<longleftrightarrow> (\<forall>x \<in> set (A SELL). fst x \<noteq> 0) \<and> (\<forall>x \<in> set (A BUY). fst x \<noteq> Price_INVALID)"

lemma print_side_mkt_ok:
  assumes ref: "mkt_refines b A" and sd: "sd = BUY \<or> sd = SELL"
    and lp: "\<forall>x \<in> set (A sd). better sd last_price (fst x)"
  shows "\<exists>t. print_side_mkt detailed True b sd label last_price = Inr t"
proof -
  obtain S where rep: "me_rep (me_of b) S" and AS: "A = book_abs (me_of b) S"
    using ref by (auto simp: mkt_refines_def me_refines_def)
  note r = me_repD(1)[OF rep]
  show ?thesis
  proof (cases "S sd")
    case Nil
    then show ?thesis using mkt_side(1)[OF r sd] by (simp add: print_side_mkt_def)
  next
    case (Cons x xs)
    have "better sd last_price (ml_price (mlvl_at b (fst x)))"
      using lp by (simp add: AS book_abs_side Cons abs_lv_def)
    moreover have "sorted_wrt (\<lambda>x y. better sd (ml_price (mlvl_at b (fst x))) (ml_price (mlvl_at b (fst y)))) (x # xs)"
      using side_repD(4)[OF ladder_side_rep[OF r sd]] Cons by simp
    ultimately have "\<exists>t. fold_res (\<lambda>(count, itr) acc. print_level_mkt detailed True b sd itr
           (fst acc @ label @ nat_to_string count @ '' => '', snd acc)) (enumerate 0 (map fst (x # xs)))
           ([], last_price) = Inr t"
      by (intro print_levels_ok[OF r sd]) (simp_all add: Cons)
    then show ?thesis
      using mkt_side(2)[OF r sd Cons] by (auto simp: print_side_mkt_def)
  qed
qed

lemma toString_mkt_ok:
  assumes ref: "mkt_refines b A" and p: "printable A"
  shows "\<exists>t. MarketOrderBook_toString detailed True b = Inr t"
proof -
  have "\<forall>x \<in> set (A SELL). better SELL 0 (fst x)"
    using p by (auto simp: printable_def better_def word_gt_0)
  moreover have "better BUY (- 1) (fst x)" if "x \<in> set (A BUY)" for x
  proof -
    have "fst x \<noteq> - 1" using p that by (auto simp: printable_def Price_INVALID_def)
    moreover have "fst x \<le> - 1" by (rule word_n1_ge)
    ultimately show ?thesis by (simp add: better_def order.strict_iff_order)
  qed
  ultimately show ?thesis
    using print_side_mkt_ok[OF ref, of SELL 0 detailed "''ASKS L:''"]
      print_side_mkt_ok[OF ref, of BUY "- 1" detailed "''BIDS L:''"]
    by (auto simp: MarketOrderBook_toString_def)
qed

section \<open>A whole update\<close>

text \<open>The members no pointer operation writes.\<close>

definition mkt_rest :: "MarketOrderBook \<Rightarrow> bool \<times> BBO \<times> TickerId" where
  "mkt_rest b = (has_trade_engine b, bbo b, mb_ticker_id b)"

lemma mkt_rest_writes [simp]:
  "mkt_rest (set_mord a f b) = mkt_rest b" "mkt_rest (set_mlvl l g b) = mkt_rest b"
  "mkt_rest (set_mside_head sd p b) = mkt_rest b" "mkt_rest (b\<lparr>price_orders_at_price := t\<rparr>) = mkt_rest b"
  "mkt_rest (b\<lparr>mb_levels := lp\<rparr>) = mkt_rest b" "mkt_rest (b\<lparr>mb_orders := op'\<rparr>) = mkt_rest b"
  "mkt_rest (b\<lparr>oid_to_order := ot\<rparr>) = mkt_rest b"
  by (simp_all add: mkt_rest_def set_mord_def set_mlvl_def set_mside_head_def)

lemma set_oid_rest: "set_oid oid p b = Inr b' \<Longrightarrow> mkt_rest b' = mkt_rest b"
  by (auto simp: set_oid_def elim!: bindr_InrE)

lemma addOrdersAtPrice_mkt_rest: "addOrdersAtPrice_mkt n b = Inr b' \<Longrightarrow> mkt_rest b' = mkt_rest b"
  by (auto simp: addOrdersAtPrice_mkt_def insert_after_target_mkt_def insert_before_target_mkt_def Let_def
      elim!: bindr_InrE split: option.splits if_splits prod.splits)

lemma addOrder_mkt_rest: "addOrder_mkt a b = Inr b' \<Longrightarrow> mkt_rest b' = mkt_rest b"
  by (auto simp: addOrder_mkt_def Let_def dest!: addOrdersAtPrice_mkt_rest set_oid_rest elim!: bindr_InrE
      split: option.splits prod.splits)

lemma removeOrder_mkt_rest: "removeOrder_mkt a b = Inr b' \<Longrightarrow> mkt_rest b' = mkt_rest b"
  by (auto simp: removeOrder_mkt_def removeOrdersAtPrice_mkt_def Let_def dest!: set_oid_rest
      elim!: bindr_InrE split: if_splits)

lemma update_book_rest:
  assumes "update_book u b = Inr b'"
  shows "mkt_rest b' = mkt_rest b"
proof -
  have "mkt_rest c = mkt_rest b" if "clear_book b = Inr c" for c
    using that by (auto simp: clear_book_def mkt_rest_def elim!: bindr_InrE)
  then show ?thesis
    using assms by (auto simp: update_book_def dest!: addOrder_mkt_rest removeOrder_mkt_rest
        elim!: bindr_InrE split: MarketUpdateType.splits prod.splits)
qed

lemma touches_best_iff:
  assumes ref: "mkt_refines b A" and sd: "sd = BUY \<or> sd = SELL"
  shows "touches_best sd u b \<longleftrightarrow> A sd \<noteq> [] \<and> mu_side u = sd \<and> \<not> better sd (fst (hd (A sd))) (mu_price u)"
proof -
  obtain S where rep: "me_rep (me_of b) S" and AS: "A = book_abs (me_of b) S"
    using ref by (auto simp: mkt_refines_def me_refines_def)
  note r = me_repD(1)[OF rep]
  show ?thesis
  proof (cases "S sd")
    case Nil
    then show ?thesis using mkt_side(1)[OF r sd] by (simp add: touches_best_def AS book_abs_side)
  next
    case (Cons x xs)
    then show ?thesis
      using mkt_side(2)[OF r sd Cons] sd
      by (auto simp: touches_best_def AS book_abs_side abs_lv_def better_def)
  qed
qed

lemma onMarketUpdate_ok:
  assumes ref: "mkt_refines b A" and f: "followable u A" and te: "has_trade_engine b"
    and p: "printable (apply_update u A)" and t: "mu_type u \<noteq> MUT_TRADE"
  shows "\<exists>b'. onMarketUpdate onT onB u b e
      = bindr (onB (mu_ticker_id u) (mu_price u) (mu_side u) (getBBO b') e) (\<lambda>e. Inr (b', e))
    \<and> mkt_refines b' (apply_update u A) \<and> has_trade_engine b'
    \<and> (\<forall>sd. sd = BUY \<or> sd = SELL \<longrightarrow>
         bbo_side sd (getBBO b') = (if touches_best sd u b then quote_of (apply_update u A sd)
                                    else bbo_side sd (getBBO b)))"
proof -
  obtain b1 where b1: "update_book u b = Inr b1" "mkt_refines b1 (apply_update u A)"
    using update_book_ok[OF ref f] by blast
  have keep: "has_trade_engine b1 = has_trade_engine b \<and> bbo b1 = bbo b"
    using update_book_rest[OF b1(1)] by (simp add: mkt_rest_def)
  obtain b2 where b2: "MarketOrderBook_updateBBO (touches_best BUY u b) (touches_best SELL u b) b1 = Inr b2"
    "me_of b2 = me_of b1" "has_trade_engine b2 = has_trade_engine b1"
    "bbo_side BUY (bbo b2) = (if touches_best BUY u b then quote_of (apply_update u A BUY) else bbo_side BUY (bbo b1))"
    "bbo_side SELL (bbo b2) = (if touches_best SELL u b then quote_of (apply_update u A SELL) else bbo_side SELL (bbo b1))"
    using updateBBO_ok[OF b1(2), of "touches_best BUY u b" "touches_best SELL u b"] by blast
  have ref2: "mkt_refines b2 (apply_update u A)" using b1(2) b2(2) by (simp add: mkt_refines_def)
  obtain s where s: "MarketOrderBook_toString False True b2 = Inr s"
    using toString_mkt_ok[OF ref2 p] by blast
  have "onMarketUpdate onT onB u b e
      = bindr (onB (mu_ticker_id u) (mu_price u) (mu_side u) (getBBO b2) e) (\<lambda>e. Inr (b2, e))"
    using t b1(1) b2(1,3) s te keep by (simp add: onMarketUpdate_def Let_def)
  then show ?thesis using ref2 b2 keep te by (intro exI[of _ b2]) (auto simp: getBBO_def)
qed

end
