(* ===== verification/ClientBookClear.thy ===== *)
theory ClientBookClear
  imports ClientBookPrint
begin

text \<open>
  \<open>CLEAR\<close> on the client's book: the three loops that release its blocks return, every block of
  both pools is free afterwards and both sides are empty; the table from prices to levels is
  the old one.
\<close>

section \<open>Releasing a set of blocks\<close>

text \<open>What releasing the blocks of \<open>X\<close> does to a pool.\<close>

definition released :: "nat set \<Rightarrow> 'a MemPool \<Rightarrow> 'a MemPool \<Rightarrow> bool" where
  "released X p q \<longleftrightarrow> live q = live p - X \<and> (\<forall>a. obj q a = obj p a) \<and> pool_wf q
     \<and> pool_size q = pool_size p \<and> next_free_index q = next_free_index p"

lemma released_refl [simp]: "pool_wf p \<Longrightarrow> released {} p p"
  by (simp add: released_def)

lemma released_trans: "released X p q \<Longrightarrow> released Y q r \<Longrightarrow> released (X \<union> Y) p r"
  by (auto simp: released_def)

lemma released_one:
  assumes "a \<in> live p" "pool_wf p"
  shows "\<exists>q. deallocate a p = Inr q \<and> released {a} p q"
  using assms by (auto simp: deallocate_def released_def live_def pool_wf_def obj_def)

section \<open>The loop over the levels\<close>

lemma free_levels_ok:
  assumes "circ (\<lambda>l. ml_next (obj p l)) prv (us @ vs)" "us \<noteq> []" "hd us = h"
    and "set vs \<subseteq> live p" "pool_wf p"
    and "itr = (case vs of [] \<Rightarrow> Some h | l # _ \<Rightarrow> Some l)"
  shows "\<exists>q. free_levels h itr p = Some (Inr q) \<and> released (set vs) p q"
  using assms
proof (induction vs arbitrary: us p itr)
  case Nil
  then show ?case by (subst free_levels.simps) simp
next
  case (Cons l vs)
  note c = Cons.prems(1)
  have d: "distinct (us @ l # vs)" by (rule circ_distinct[OF c])
  then have ne: "l \<noteq> h" using Cons.prems(2,3) by (cases us) auto
  obtain p1 where p1: "deallocate l p = Inr p1" "released {l} p p1"
    using released_one[of l p] Cons.prems(4,5) by auto
  then have objs: "(\<lambda>x. ml_next (obj p1 x)) = (\<lambda>x. ml_next (obj p x))" and wf1: "pool_wf p1"
    by (simp_all add: released_def)
  have nx: "ml_next (obj p1 l) = (case vs of [] \<Rightarrow> Some h | x # _ \<Rightarrow> Some x)"
  proof (cases vs)
    case Nil
    then show ?thesis using circ_last_next[of "\<lambda>x. ml_next (obj p x)" prv us l] Cons.prems(1-3) objs
      by (simp add: fun_eq_iff)
  next
    case (Cons x xs)
    then have "circ (\<lambda>x. ml_next (obj p x)) prv (us @ l # x # xs)" using c by simp
    from circ_suffix_next[OF this] show ?thesis using objs Cons by (simp add: fun_eq_iff)
  qed
  have "\<exists>q. free_levels h (ml_next (obj p1 l)) p1 = Some (Inr q) \<and> released (set vs) p1 q"
  proof (rule Cons.IH[OF _ _ _ _ wf1 nx])
    show "circ (\<lambda>x. ml_next (obj p1 x)) prv ((us @ [l]) @ vs)"
      using Cons.prems(1) unfolding objs by simp
    show "us @ [l] \<noteq> []" "hd (us @ [l]) = h" using Cons.prems(2,3) by simp_all
    show "set vs \<subseteq> live p1" using Cons.prems(4) p1(2) d by (auto simp: released_def)
  qed
  then obtain q where q: "free_levels h (ml_next (obj p1 l)) p1 = Some (Inr q)" "released (set vs) p1 q"
    by blast
  have "released (set (l # vs)) p q" using released_trans[OF p1(2) q(2)] by simp
  then show ?case
    using q(1) p1(1) ne Cons.prems(6) by (subst free_levels.simps) simp
qed

lemma free_side_ok:
  assumes "case ls of [] \<Rightarrow> head = None
       | h # _ \<Rightarrow> head = Some h \<and> circ (\<lambda>l. ml_next (obj p l)) prv ls"
    and "set ls \<subseteq> live p" "pool_wf p"
  shows "\<exists>q. free_side head p = Inr q \<and> released (set ls) p q"
proof (cases ls)
  case Nil
  then show ?thesis using assms by (simp add: free_side_def)
next
  case (Cons h vs)
  then have c: "circ (\<lambda>l. ml_next (obj p l)) prv ([h] @ vs)" and hd: "head = Some h" using assms(1) by simp_all
  have d: "distinct (h # vs)" using circ_distinct[OF c] by simp
  have "ml_next (obj p h) = (case vs of [] \<Rightarrow> Some h | l # _ \<Rightarrow> Some l)"
    using circ_last_next[of "\<lambda>l. ml_next (obj p l)" prv "[]" h] circ_suffix_next[of "\<lambda>l. ml_next (obj p l)" prv "[]" h]
      c by (cases vs) auto
  then obtain q where q: "free_levels h (ml_next (obj p h)) p = Some (Inr q)" "released (set vs) p q"
    using free_levels_ok[OF c, of h "ml_next (obj p h)"] assms(2,3) Cons by auto
  obtain r where r: "deallocate h q = Inr r" "released {h} q r"
    using released_one[of h q] q(2) assms(2) Cons d by (auto simp: released_def)
  have "released (set ls) p r" using released_trans[OF q(2) r(2)] by (simp add: Cons)
  then show ?thesis using q(1) r(1) by (simp add: free_side_def hd)
qed

section \<open>The loop over the order table\<close>

lemma free_table_ok:
  assumes "pool_wf p" "distinct is" "\<forall>i \<in> set is. \<forall>a. t i = Some a \<longrightarrow> a \<in> live p"
    and "\<forall>i \<in> set is. \<forall>j \<in> set is. \<forall>a. t i = Some a \<longrightarrow> t j = Some a \<longrightarrow> i = j"
  shows "\<exists>q. fold_res (\<lambda>i pool. case t i of None \<Rightarrow> Inr pool | Some a \<Rightarrow> deallocate a pool) is p = Inr q
    \<and> released {a. \<exists>i \<in> set is. t i = Some a} p q"
  using assms
proof (induction "is" arbitrary: p)
  case (Cons i js)
  show ?case
  proof (cases "t i")
    case None
    have "{a. \<exists>j \<in> set (i # js). t j = Some a} = {a. \<exists>j \<in> set js. t j = Some a}" using None by auto
    then show ?thesis using Cons.IH[of p] Cons.prems None by simp
  next
    case (Some a)
    obtain p1 where p1: "deallocate a p = Inr p1" "released {a} p p1"
      using released_one[of a p] Cons.prems(1,3) Some by auto
    have "\<exists>q. fold_res (\<lambda>i pool. case t i of None \<Rightarrow> Inr pool | Some a \<Rightarrow> deallocate a pool) js p1 = Inr q
      \<and> released {a. \<exists>i \<in> set js. t i = Some a} p1 q"
    proof (rule Cons.IH)
      show "pool_wf p1" "distinct js" using p1(2) Cons.prems(2) by (simp_all add: released_def)
      have "b \<in> live p1" if "j \<in> set js" "t j = Some b" for j b
      proof -
        have "b \<noteq> a" using Cons.prems(2,4) Some that by auto
        then show ?thesis using Cons.prems(3) that p1(2) by (simp add: released_def)
      qed
      then show "\<forall>j \<in> set js. \<forall>b. t j = Some b \<longrightarrow> b \<in> live p1" by blast
    qed (use Cons.prems(4) in auto)
    then obtain q where q: "fold_res (\<lambda>i pool. case t i of None \<Rightarrow> Inr pool | Some a \<Rightarrow> deallocate a pool) js p1 = Inr q"
      "released {a. \<exists>i \<in> set js. t i = Some a} p1 q" by blast
    have "{b. \<exists>j \<in> set (i # js). t j = Some b} = {a} \<union> {a. \<exists>i \<in> set js. t i = Some a}"
      using Some by auto
    then show ?thesis using released_trans[OF p1(2) q(2)] p1(1) q(1) Some by simp
  qed
qed simp

section \<open>The whole operation\<close>

lemma free_orders_ok:
  assumes rep: "me_rep (me_of b) S"
  shows "\<exists>q. free_orders b = Inr q \<and> live q = {} \<and> released (live (mb_orders b)) (mb_orders b) q"
proof -
  let ?I = "[0..<ME_MAX_ORDER_IDS]"
  have wf: "pool_wf (mb_orders b)" using me_repD(2)[OF rep] by (simp add: pools_ok_def)
  have c: "cid_oid_to_order (me_of b) 0 i = oid_to_order b i" for i by (simp add: me_of_def)
  have t: "oid_to_order b i = Some a \<longleftrightarrow> a \<in> live (mb_orders b) \<and> unat (mo_order_id (mord_at b a)) = i"
    if "i < ME_MAX_ORDER_IDS" for i a
    using me_repD(3)[OF rep, unfolded cid_ok_def cid_rep_def, rule_format, of 0 i a] that
    unfolding c by (simp add: limit_defs)
  have all: "unat (mo_order_id (mord_at b a)) < ME_MAX_ORDER_IDS" if "a \<in> live (mb_orders b)" for a
    using me_repD(4)[OF rep, of a] that by (simp add: ids_ok_def)
  have "\<exists>q. fold_res (\<lambda>i pool. case oid_to_order b i of None \<Rightarrow> Inr pool | Some a \<Rightarrow> deallocate a pool) ?I (mb_orders b) = Inr q
    \<and> released {a. \<exists>i \<in> set ?I. oid_to_order b i = Some a} (mb_orders b) q"
    by (rule free_table_ok[OF wf]) (use t in \<open>auto simp del: upt_Suc\<close>)
  moreover have "{a. \<exists>i \<in> set ?I. oid_to_order b i = Some a} = live (mb_orders b)"
    using t all by auto
  ultimately show ?thesis by (auto simp: free_orders_def released_def)
qed

lemma clear_book_ok:
  assumes ref: "mkt_refines b A"
  shows "\<exists>b'. clear_book b = Inr b' \<and> mb_bids b' = None \<and> mb_asks b' = None
    \<and> live (mb_orders b') = {} \<and> live (mb_levels b') = {}
    \<and> price_orders_at_price b' = price_orders_at_price b
    \<and> released (live (mb_orders b)) (mb_orders b) (mb_orders b')
    \<and> released (live (mb_levels b)) (mb_levels b) (mb_levels b')"
proof -
  obtain S where rep: "me_rep (me_of b) S" using ref by (auto simp: mkt_refines_def me_refines_def)
  note r = me_repD(1)[OF rep]
  let ?next = "\<lambda>l. ml_next (obj (mb_levels b) l)" and ?prev = "\<lambda>l. ml_prev (obj (mb_levels b) l)"
  have wf: "pool_wf (mb_levels b)" using me_repD(2)[OF rep] by (simp add: pools_ok_def)
  have side: "case map fst (S sd) of [] \<Rightarrow> mside_head sd b = None
       | h # _ \<Rightarrow> mside_head sd b = Some h \<and> circ ?next ?prev (map fst (S sd))"
    if sd: "sd = BUY \<or> sd = SELL" for sd
  proof (cases "S sd")
    case (Cons x xs)
    have "circ (\<lambda>l. ml_next (mlvl_at b l)) (\<lambda>l. ml_prev (mlvl_at b l)) (map fst (S sd))"
      using side_repD(2)[OF ladder_side_rep[OF r sd]] Cons by (simp add: me_view_def)
    then show ?thesis using mkt_side(2)[OF r sd Cons] Cons by (simp add: mlvl_at_def)
  qed (use mkt_side(1)[OF r sd] in simp)
  have lv: "live (mb_levels b) = fst ` set (S BUY) \<union> fst ` set (S SELL)"
    using r by (simp add: ladder_rep_def me_view_def)
  have dis: "fst ` set (S BUY) \<inter> fst ` set (S SELL) = {}"
  proof -
    have "eSd (me_view (me_of b)) (fst x) = sd" if "x \<in> set (S sd)" "sd = BUY \<or> sd = SELL" for x sd
      using ladder_lvl_rep[OF r that(2,1)] by (simp add: lvl_rep_def)
    from this[of _ BUY] this[of _ SELL] show ?thesis by force
  qed
  obtain q where q: "free_orders b = Inr q" "live q = {}"
    "released (live (mb_orders b)) (mb_orders b) q" using free_orders_ok[OF rep] by blast
  have heads: "mside_head BUY b = mb_bids b" "mside_head SELL b = mb_asks b"
    by (simp_all add: mside_head_def)
  obtain p1 where p1: "free_side (mb_bids b) (mb_levels b) = Inr p1"
    "released (fst ` set (S BUY)) (mb_levels b) p1"
    using free_side_ok[where ls = "map fst (S BUY)" and head = "mb_bids b" and p = "mb_levels b" and prv = ?prev]
      side[of BUY, unfolded heads] wf lv by auto
  then have objs: "obj p1 = obj (mb_levels b)" and wf1: "pool_wf p1" by (auto simp: released_def)
  have sell: "set (map fst (S SELL)) \<subseteq> live p1" using p1(2) lv dis by (auto simp: released_def)
  obtain p2 where p2: "free_side (mb_asks b) p1 = Inr p2" "released (fst ` set (S SELL)) p1 p2"
    using free_side_ok[where ls = "map fst (S SELL)" and head = "mb_asks b" and p = p1 and prv = ?prev]
      side[of SELL, unfolded heads] wf1 sell
    unfolding objs by auto
  have "released (live (mb_levels b)) (mb_levels b) p2"
    using released_trans[OF p1(2) p2(2)] lv by simp
  then show ?thesis
    using q p1(1) p2(1) by (auto simp: clear_book_def released_def)
qed

end
