(* ===== verification/ClientFollows.thy ===== *)
theory ClientFollows
  imports ClientBookOps
begin

text \<open>
  The engine's book and the client's: a client that applies the updates which an \<open>add\<close> or a
  \<open>cancel\<close> publishes keeps a copy of the engine's book, provided the market order ids of the
  orders in the book are distinct and the new one is not among them. \<open>market_view A\<close> is what a client
  can see of the book \<open>A\<close>: the owners of the orders are not published.
\<close>

definition shown :: "aorder \<Rightarrow> aorder" where
  "shown ao = ao\<lparr>a_client := 0, a_coid := a_moid ao\<rparr>"

definition view_levels :: "alevel list \<Rightarrow> alevel list" where
  "view_levels L = map (\<lambda>x. (fst x, map shown (snd x))) L"

definition market_view :: "abook \<Rightarrow> abook" where
  "market_view A = (\<lambda>sd. view_levels (A sd))"

definition moids :: "alevel list \<Rightarrow> OrderId list" where
  "moids L = map a_moid (concat (map snd L))"

fun followed :: "MEMarketUpdate list \<Rightarrow> abook \<Rightarrow> bool" where
  "followed [] A = True"
| "followed (u # us) A = (followable u A \<and> followed us (apply_update u A))"

text \<open>The books the engine builds: two sides, no empty level, no empty order, distinct ids.\<close>

definition book_wf :: "abook \<Rightarrow> bool" where
  "book_wf A \<longleftrightarrow> (\<forall>sd. sd \<noteq> BUY \<longrightarrow> sd \<noteq> SELL \<longrightarrow> A sd = []) \<and> (\<forall>sd. alevels_ok (A sd))
     \<and> distinct (moids (A BUY) @ moids (A SELL))"

lemma moids_simps [simp]:
  "moids [] = []" "moids (x # L) = map a_moid (snd x) @ moids L"
  by (simp_all add: moids_def)

lemma moidsI: "x \<in> set L \<Longrightarrow> ao \<in> set (snd x) \<Longrightarrow> a_moid ao \<in> set (moids L)"
  by (auto simp: moids_def)

lemma moids_book: "a_moid ` set (book_orders A) = set (moids (A BUY)) \<union> set (moids (A SELL))"
  by (auto simp: moids_def book_orders_def)

lemma shown_simps [simp]:
  "a_moid (shown ao) = a_moid ao" "a_qty (shown ao) = a_qty ao" "a_coid (shown ao) = a_moid ao"
  "shown (ao\<lparr>a_qty := q\<rparr>) = (shown ao)\<lparr>a_qty := q\<rparr>"
  by (simp_all add: shown_def)

lemma has_oid_shown [simp]: "has_oid oid (shown ao) \<longleftrightarrow> a_moid ao = oid"
  by (simp add: has_ids_def shown_def)

lemma view_levels_simps [simp]:
  "view_levels [] = []" "view_levels (x # L) = (fst x, map shown (snd x)) # view_levels L"
  "view_levels L = [] \<longleftrightarrow> L = []"
  by (simp_all add: view_levels_def)

lemma view_levels_enqueue:
  "view_levels (enqueue sd p ao L) = enqueue sd p (shown ao) (view_levels L)"
  by (induction sd p ao L rule: enqueue.induct) simp_all

lemma in_view_levels: "x \<in> set (view_levels L) \<longleftrightarrow> (\<exists>y \<in> set L. x = (fst y, map shown (snd y)))"
  by (auto simp: view_levels_def)

lemma view_orders:
  "concat (map snd (view_levels L)) = map shown (concat (map snd L))"
  by (induction L) auto

lemma market_view_book:
  "book_orders (market_view A) = map shown (book_orders A)"
  "length (book_levels (market_view A)) = length (book_levels A)"
  "fst ` set (book_levels (market_view A)) = fst ` set (book_levels A)"
  by (simp_all add: book_orders_def book_levels_def market_view_def view_orders)
    (auto simp: view_levels_def image_Un image_image)

lemma market_view_upd: "market_view (A(sd := L)) = (market_view A)(sd := view_levels L)"
  by (auto simp: market_view_def)

section \<open>Fills\<close>

lemma book_wf_upd:
  assumes wf: "book_wf A" and sd: "sd = BUY \<or> sd = SELL" and ok: "alevels_ok M"
    and d: "distinct (moids M)" and sub: "set (moids M) \<subseteq> set (moids (A sd))"
  shows "book_wf (A(sd := M))"
  using assms by (auto simp: book_wf_def)

lemma no_other_oid:
  assumes wf: "book_wf A" and sd: "sd = BUY \<or> sd = SELL" and A: "A sd = (p, ao # os) # L"
  shows "a_moid ao \<notin> a_moid ` set os \<union> set (moids L)"
    and "d \<noteq> sd \<Longrightarrow> a_moid ao \<notin> set (moids (A d))"
proof -
  have d: "distinct (moids (A sd))" "set (moids (A sd)) \<inter> set (moids (A (opp sd))) = {}"
    using wf sd by (auto simp: book_wf_def)
  then show "a_moid ao \<notin> a_moid ` set os \<union> set (moids L)" by (auto simp: A)
  have "a_moid ao \<notin> set (moids (A (opp sd)))" using d(2) by (auto simp: A)
  moreover have "A d = []" if "d \<noteq> BUY" "d \<noteq> SELL" for d using wf that by (simp add: book_wf_def)
  ultimately show "d \<noteq> sd \<Longrightarrow> a_moid ao \<notin> set (moids (A d))"
    using sd by (cases "d = BUY \<or> d = SELL") (auto simp: opp_def split: if_splits)
qed

text \<open>Levels and orders without the id: withdrawing and requoting do nothing.\<close>

lemma no_oid_levels:
  assumes "alevels_ok L" "oid \<notin> set (moids L)"
  shows "\<forall>x \<in> set (view_levels L). snd x \<noteq> [] \<and> (\<forall>a \<in> set (snd x). \<not> has_oid oid a)"
proof
  fix x assume "x \<in> set (view_levels L)"
  then obtain y where y: "y \<in> set L" "x = (fst y, map shown (snd y))" by (auto simp: in_view_levels)
  have "snd y \<noteq> []" using assms(1) y(1) by (auto simp: alevels_ok_def case_prod_unfold)
  moreover have "a_moid ao \<noteq> oid" if "ao \<in> set (snd y)" for ao using moidsI[OF y(1) that] assms(2) by auto
  ultimately show "snd x \<noteq> [] \<and> (\<forall>a \<in> set (snd x). \<not> has_oid oid a)" using y(2) by simp
qed

lemma requote_orders:
  assumes "oid \<notin> a_moid ` set os"
  shows "map (\<lambda>a. if has_oid oid a then a\<lparr>a_qty := q\<rparr> else a) (map shown os) = map shown os"
  unfolding map_map
proof (rule map_cong[OF refl])
  fix x assume "x \<in> set os"
  then have "a_moid x \<noteq> oid" using assms by blast
  then show "((\<lambda>a. if has_oid oid a then a\<lparr>a_qty := q\<rparr> else a) \<circ> shown) x = shown x" by simp
qed

lemma untouched_side:
  assumes ok: "alevels_ok L" and no: "oid \<notin> set (moids L)"
  shows "withdraw (has_oid oid) (view_levels L) = view_levels L"
    and "requote (has_oid oid) q (view_levels L) = view_levels L"
proof -
  show "withdraw (has_oid oid) (view_levels L) = view_levels L"
    by (rule withdraw_nothing[OF no_oid_levels[OF assms]])
  have "oid \<notin> a_moid ` set (snd x)" if "x \<in> set L" for x
    using no moidsI[OF that] by auto
  then show "requote (has_oid oid) q (view_levels L) = view_levels L"
    unfolding requote_def view_levels_def map_map
    by (intro map_cong) (simp_all add: requote_orders del: map_map)
qed

lemma fill_whole:
  assumes wf: "book_wf A" and sd: "sd = BUY \<or> sd = SELL" and A: "A sd = (p, ao # os) # L"
    and u: "mu_type u = MUT_CANCEL" "mu_order_id u = a_moid ao" "mu_side u = sd" "mu_price u = p"
  defines "M \<equiv> if os = [] then L else (p, os) # L"
  shows "followable u (market_view A)" "apply_update u (market_view A) = market_view (A(sd := M))"
    "book_wf (A(sd := M))"
proof -
  note no = no_other_oid[OF wf sd A]
  have ok: "alevels_ok (A d)" for d using wf by (simp add: book_wf_def)
  have okL: "alevels_ok L" "os \<noteq> [] \<Longrightarrow> alevels_ok ((p, os) # L)" using ok[of sd] by (simp_all add: A)
  show "followable u (market_view A)"
    using u sd by (auto simp: followable_def names_order_def market_view_def A)
  have "withdraw (has_oid (a_moid ao)) (view_levels (A sd)) = view_levels M"
  proof -
    have "withdraw (has_oid (a_moid ao)) ([] @ (p, [] @ shown ao # map shown os) # view_levels L)
      = [] @ (if [] @ map shown os = [] then view_levels L else (p, [] @ map shown os) # view_levels L)"
    proof (rule withdraw_at)
      show "\<forall>x \<in> set [] \<union> set (view_levels L). snd x \<noteq> [] \<and> (\<forall>a \<in> set (snd x). \<not> has_oid (a_moid ao) a)"
        using no_oid_levels[OF okL(1), of "a_moid ao"] no(1) by simp
      have "a_moid a \<noteq> a_moid ao" if "a \<in> set os" for a using no(1) that by (metis UnI1 image_eqI)
      then show "\<forall>a \<in> set [] \<union> set (map shown os). \<not> has_oid (a_moid ao) a" by auto
    qed simp
    then show ?thesis by (simp add: A M_def)
  qed
  moreover have "withdraw (has_oid (a_moid ao)) (view_levels (A d)) = view_levels (A d)" if "d \<noteq> sd" for d
    by (rule untouched_side(1)[OF ok no(2)[OF that]])
  ultimately show "apply_update u (market_view A) = market_view (A(sd := M))"
    using u by (auto simp: apply_update_def market_view_def fun_eq_iff)
  have dist: "distinct (moids (A sd))" using wf sd by (auto simp: book_wf_def)
  show "book_wf (A(sd := M))"
    by (rule book_wf_upd[OF wf sd]) (use okL dist in \<open>auto simp: M_def A\<close>)
qed

lemma fill_part:
  assumes wf: "book_wf A" and sd: "sd = BUY \<or> sd = SELL" and A: "A sd = (p, ao # os) # L"
    and u: "mu_type u = MUT_MODIFY" "mu_order_id u = a_moid ao" "mu_side u = sd" "mu_price u = p"
    and q: "mu_qty u = q" "q \<noteq> 0"
  defines "M \<equiv> (p, ao\<lparr>a_qty := q\<rparr> # os) # L"
  shows "followable u (market_view A)" "apply_update u (market_view A) = market_view (A(sd := M))"
    "book_wf (A(sd := M))"
proof -
  note no = no_other_oid[OF wf sd A]
  have ok: "alevels_ok (A d)" for d using wf by (simp add: book_wf_def)
  have okL: "alevels_ok L" using ok[of sd] by (simp add: A)
  show "followable u (market_view A)"
    using u sd by (auto simp: followable_def names_order_def market_view_def A)
  have "map (\<lambda>a. if has_oid (a_moid ao) a then a\<lparr>a_qty := q\<rparr> else a) (map shown os) = map shown os"
    by (rule requote_orders) (use no(1) in blast)
  moreover have "requote (has_oid (a_moid ao)) q (view_levels L) = view_levels L"
    by (rule untouched_side(2)[OF okL]) (use no(1) in auto)
  ultimately have "requote (has_oid (a_moid ao)) q (view_levels (A sd)) = view_levels M"
    by (simp add: A M_def requote_def)
  moreover have "requote (has_oid (a_moid ao)) q (view_levels (A d)) = view_levels (A d)" if "d \<noteq> sd" for d
    by (rule untouched_side(2)[OF ok no(2)[OF that]])
  ultimately show "apply_update u (market_view A) = market_view (A(sd := M))"
    using u q by (auto simp: apply_update_def market_view_def fun_eq_iff)
  have dist: "distinct (moids (A sd))" using wf sd by (auto simp: book_wf_def)
  show "book_wf (A(sd := M))"
    by (rule book_wf_upd[OF wf sd]) (use ok[of sd] q dist in \<open>auto simp: M_def A\<close>)
qed

lemma apply_trade [simp]:
  "mu_type u = MUT_TRADE \<Longrightarrow> apply_update u A = A" "mu_type u = MUT_TRADE \<Longrightarrow> followable u A"
  by (simp_all add: apply_update_def followable_def)

lemma fills_followed:
  assumes "side = BUY \<or> side = SELL" "book_wf A" "A (opp side) = L" "sweep c q L = (q', M, fs)"
  shows "followed (concat (map (fill_updates tid side (opp side)) fs)) (market_view A)
    \<and> fold apply_update (concat (map (fill_updates tid side (opp side)) fs)) (market_view A)
        = market_view (A(opp side := M))
    \<and> book_wf (A(opp side := M)) \<and> set (moids M) \<subseteq> set (moids L)"
  using assms(2-4)
proof (induction c q L arbitrary: A q' M fs rule: sweep.induct)
  case (1 c q)
  then show ?case using fun_upd_triv[of A "opp side"] by simp
next
  case (2 c q p L)
  then show ?case using fun_upd_triv[of A "opp side"] by simp
next
  case (3 c q p ao os L)
  have osd: "opp side = BUY \<or> opp side = SELL" by (rule opp_simps(4))
  show ?case
  proof (cases "q = 0 \<or> \<not> c p")
    case True
    then show ?thesis using 3(2-4) fun_upd_triv[of A "opp side"] by auto
  next
    case go: False
    show ?thesis
    proof (cases "q < a_qty ao")
      case True
      have ne: "a_qty ao - q \<noteq> 0" using True by auto
      have fs: "fs = [\<lparr>f_price = p, f_order = ao, f_qty = q, f_left = 0\<rparr>]"
        "M = (p, ao\<lparr>a_qty := a_qty ao - q\<rparr> # os) # L"
        using 3(4) go True by auto
      have "q \<noteq> a_qty ao" using True by auto
      let ?u = "\<lparr>mu_type = MUT_MODIFY, mu_order_id = a_moid ao, mu_ticker_id = tid,
             mu_side = opp side, mu_price = p, mu_qty = a_qty ao - q, mu_priority = a_prio ao\<rparr>"
      show ?thesis
        using fill_part[OF 3(2) osd 3(3), of ?u "a_qty ao - q"] ne \<open>q \<noteq> a_qty ao\<close>
        by (simp add: fs fill_updates_def del: fun_upd_apply)
    next
      case False
      let ?L = "if os = [] then L else (p, os) # L"
      obtain q1 M1 fs1 where s: "sweep c (q - a_qty ao) ?L = (q1, M1, fs1)" by (metis prod_cases3)
      have fs: "fs = \<lparr>f_price = p, f_order = ao, f_qty = a_qty ao, f_left = q - a_qty ao\<rparr> # fs1" "M = M1"
        using 3(4) go False s by auto
      let ?u = "\<lparr>mu_type = MUT_CANCEL, mu_order_id = a_moid ao, mu_ticker_id = tid,
             mu_side = opp side, mu_price = p, mu_qty = a_qty ao, mu_priority = Priority_INVALID\<rparr>"
      have w: "followable ?u (market_view A)"
        "apply_update ?u (market_view A) = market_view (A(opp side := ?L))" "book_wf (A(opp side := ?L))"
        using fill_whole[OF 3(2) osd 3(3), of ?u] by simp_all
      have fu: "fill_updates tid side (opp side) \<lparr>f_price = p, f_order = ao, f_qty = a_qty ao,
          f_left = q - a_qty ao\<rparr> = [\<lparr>mu_type = MUT_TRADE, mu_order_id = OrderId_INVALID,
            mu_ticker_id = tid, mu_side = side, mu_price = p, mu_qty = a_qty ao,
            mu_priority = Priority_INVALID\<rparr>, ?u]"
        by (simp add: fill_updates_def)
      have L: "set (moids ?L) \<subseteq> set (moids ((p, ao # os) # L))" by auto
      have "followed (concat (map (fill_updates tid side (opp side)) fs1)) (market_view (A(opp side := ?L)))
        \<and> fold apply_update (concat (map (fill_updates tid side (opp side)) fs1)) (market_view (A(opp side := ?L)))
            = market_view (A(opp side := ?L, opp side := M1))
        \<and> book_wf (A(opp side := ?L, opp side := M1)) \<and> set (moids M1) \<subseteq> set (moids ?L)"
        by (rule "3.IH"[OF _ _ w(3) _ s]) (use go False in simp_all)
      then show ?thesis
        using w(1,2) L unfolding fs fu list.map concat.simps fun_upd_upd
        by (auto simp del: fun_upd_apply)
    qed
  qed
qed

section \<open>A whole request\<close>

lemma add_followed:
  assumes sd: "side = BUY \<or> side = SELL" and wf: "book_wf A"
    and cr: "can_rest cid coid side price A" and so: "\<And>d. prices_sorted d (A d)"
    and id: "unat moid < ME_MAX_ORDER_IDS" "moid \<notin> a_moid ` set (book_orders A)"
    and sp: "spec_add tid moid cid coid side price qty A = (A', rs, us)"
  shows "followed us (market_view A) \<and> fold apply_update us (market_view A) = market_view A'"
proof -
  obtain q' M fs where sw: "sweep (crosses_at side price) qty (A (opp side)) = (q', M, fs)"
    by (metis prod_cases3)
  let ?us = "concat (map (fill_updates tid side (opp side)) fs)" and ?A1 = "A(opp side := M)"
  have f: "followed ?us (market_view A)" "fold apply_update ?us (market_view A) = market_view ?A1"
    "book_wf ?A1" "set (moids M) \<subseteq> set (moids (A (opp side)))"
    using fills_followed[OF sd wf refl sw] by blast+
  show ?thesis
  proof (cases "q' = 0")
    case True
    then show ?thesis using sp sw f by (simp add: spec_add_def Let_def)
  next
    case False
    let ?ao = "\<lparr>a_client = cid, a_coid = coid, a_moid = moid, a_qty = q', a_prio = next_prio price (A side)\<rparr>"
    let ?u = "\<lparr>mu_type = MUT_ADD, mu_order_id = moid, mu_ticker_id = tid, mu_side = side,
                      mu_price = price, mu_qty = q', mu_priority = next_prio price (A side)\<rparr>"
    have us: "us = ?us @ [?u]" "A' = ?A1(side := enqueue side price ?ao (A side))"
      using sp sw False by (simp_all add: spec_add_def Let_def)
    have side: "?A1 side = A side" using sd by auto
    have fw: "followed (xs @ ys) B \<longleftrightarrow> followed xs B \<and> followed ys (fold apply_update xs B)" for xs ys B
      by (induction xs arbitrary: B) auto
    have cr1: "can_rest cid coid side price ?A1" by (rule can_rest_after_sweep[OF cr sd sw])
    have sorted: "prices_sorted (opp side) M"
    proof -
      obtain n where "map fst M = drop n (map fst (A (opp side)))"
        using sweep_prices[of "crosses_at side price" qty "A (opp side)"] sw by auto
      moreover have "sorted_wrt (better (opp side)) (map fst (A (opp side)))"
        using so[of "opp side"] by (simp add: prices_sorted_def sorted_wrt_map)
      ultimately have "sorted_wrt (better (opp side)) (map fst M)" by (simp add: sorted_wrt_drop)
      then show ?thesis by (simp add: prices_sorted_def sorted_wrt_map)
    qed
    have "alevels_ok (A (opp side))" using wf by (simp add: book_wf_def)
    note nc = sweep_uncrossed[OF this sd sw False sorted]
    have "fst x \<noteq> price" if x: "x \<in> set (view_levels M)" for x
    proof -
      obtain y where y: "y \<in> set M" "x = (fst y, map shown (snd y))"
        using x unfolding in_view_levels by blast
      then have "fst x = fst y" by simp
      then show ?thesis using nc[OF y(1)] crosses_at_self[of side price] by metis
    qed
    moreover have "\<not> has_oid moid ao" if "ao \<in> set (book_orders (market_view ?A1))" for ao
    proof -
      have "moid \<notin> set (moids (?A1 BUY)) \<union> set (moids (?A1 SELL))"
        using f(4) id(2) sd unfolding moids_book by auto
      then show ?thesis using that unfolding market_view_book(1) moids_book[symmetric] by auto
    qed
    moreover have "pidx (fst x) = pidx price \<longrightarrow> fst x = price"
      if "x \<in> set (book_levels (market_view ?A1))" for x
    proof -
      have "fst x \<in> fst ` set (book_levels ?A1)"
        using that market_view_book(3)[of ?A1] by blast
      then show ?thesis using cr1 by (auto simp: can_rest_def)
    qed
    ultimately have "can_show ?u (market_view ?A1)"
      using sd id(1) cr1 market_view_book(1,2)[of ?A1]
      by (simp add: can_show_def can_rest_def) (simp add: market_view_def)
    moreover have "apply_update ?u (market_view ?A1) = market_view A'"
      using sd by (auto simp: apply_update_def us(2) market_view_upd view_levels_enqueue order_shown_def
          shown_def market_view_def fun_eq_iff)
    ultimately show ?thesis using f us by (simp add: fw followable_def)
  qed
qed

lemma cancel_followed:
  assumes wf: "book_wf A" and sd: "sd = BUY \<or> sd = SELL" and A: "A sd = us @ (p, os1 @ ao # os2) # vs"
    and u: "mu_type u = MUT_CANCEL" "mu_order_id u = a_moid ao" "mu_side u = sd" "mu_price u = p"
    and ids: "\<And>x. x \<in> set (book_orders A) \<Longrightarrow> has_ids cid coid x \<Longrightarrow> x = ao" and h: "has_ids cid coid ao"
  shows "followable u (market_view A)"
    and "apply_update u (market_view A) = market_view (A(sd := withdraw (has_ids cid coid) (A sd)))"
proof -
  have ok: "alevels_ok (A d)" for d using wf by (simp add: book_wf_def)
  have dist: "distinct (moids (A sd))" "set (moids (A sd)) \<inter> set (moids (A (opp sd))) = {}"
    using wf sd by (auto simp: book_wf_def)
  have m: "moids (A sd) = moids us @ map a_moid (os1 @ ao # os2) @ moids vs"
    by (simp add: moids_def A)
  show "followable u (market_view A)"
    using u sd by (auto simp: followable_def names_order_def market_view_def A view_levels_def)
  have new: "a_moid ao \<notin> set (moids us) \<union> set (moids vs) \<union> a_moid ` (set os1 \<union> set os2)"
    using dist(1) unfolding m by auto
  have okuv: "alevels_ok us" "alevels_ok vs" using ok[of sd] by (simp_all add: A)
  have v: "view_levels (xs @ ys) = view_levels xs @ view_levels ys" for xs ys
    by (simp add: view_levels_def)
  let ?R = "if os1 @ os2 = [] then vs else (p, os1 @ os2) # vs"
  have "withdraw (has_oid (a_moid ao)) (view_levels us @ (p, map shown os1 @ shown ao # map shown os2) # view_levels vs)
     = view_levels us @ (if map shown os1 @ map shown os2 = [] then view_levels vs
         else (p, map shown os1 @ map shown os2) # view_levels vs)"
  proof (rule withdraw_at)
    show "\<forall>x \<in> set (view_levels us) \<union> set (view_levels vs).
        snd x \<noteq> [] \<and> (\<forall>a \<in> set (snd x). \<not> has_oid (a_moid ao) a)"
      using no_oid_levels[OF okuv(1), of "a_moid ao"] no_oid_levels[OF okuv(2), of "a_moid ao"] new by auto
    have "a_moid a \<noteq> a_moid ao" if "a \<in> set os1 \<union> set os2" for a
      using new that by (metis UnI2 image_eqI)
    then show "\<forall>a \<in> set (map shown os1) \<union> set (map shown os2). \<not> has_oid (a_moid ao) a" by auto
  qed simp
  then have 1: "withdraw (has_oid (a_moid ao)) (view_levels (A sd)) = view_levels (us @ ?R)"
    by (simp add: A v)
  have inb: "x \<in> set (book_orders A)" if "y \<in> set (A sd)" "x \<in> set (snd y)" for x y
    using that sd by (auto simp: book_orders_def)
  have "withdraw (has_ids cid coid) (us @ (p, os1 @ ao # os2) # vs) = us @ ?R"
  proof (rule withdraw_at)
    show "has_ids cid coid ao" by (rule h)
    show "\<forall>x \<in> set us \<union> set vs. snd x \<noteq> [] \<and> (\<forall>a \<in> set (snd x). \<not> has_ids cid coid a)"
    proof (intro ballI conjI)
      fix x assume x: "x \<in> set us \<union> set vs"
      then show "snd x \<noteq> []" using okuv by (auto simp: alevels_ok_def case_prod_unfold)
      fix a assume a: "a \<in> set (snd x)"
      have "a_moid a \<in> set (moids us) \<union> set (moids vs)" using x moidsI[OF _ a] by auto
      then have "a \<noteq> ao" using new by auto
      moreover have "a \<in> set (book_orders A)" by (rule inb[of x]) (use x a in \<open>auto simp: A\<close>)
      ultimately show "\<not> has_ids cid coid a" using ids by blast
    qed
    show "\<forall>a \<in> set os1 \<union> set os2. \<not> has_ids cid coid a"
    proof
      fix a assume a: "a \<in> set os1 \<union> set os2"
      then have "a \<noteq> ao" using new by auto
      moreover have "a \<in> set (book_orders A)"
        by (rule inb[of "(p, os1 @ ao # os2)"]) (use a in \<open>auto simp: A\<close>)
      ultimately show "\<not> has_ids cid coid a" using ids by blast
    qed
  qed
  then have 2: "withdraw (has_ids cid coid) (A sd) = us @ ?R" by (simp add: A)
  have "a_moid ao \<notin> set (moids (A d))" if "d \<noteq> sd" for d
  proof -
    have "a_moid ao \<in> set (moids (A sd))" unfolding m by simp
    then have "a_moid ao \<notin> set (moids (A (opp sd)))" using dist(2) by blast
    moreover have "A d = []" if "d \<noteq> BUY" "d \<noteq> SELL" for d using wf that by (simp add: book_wf_def)
    ultimately show ?thesis using that sd by (cases "d = BUY \<or> d = SELL") (auto simp: opp_def split: if_splits)
  qed
  then have "withdraw (has_oid (a_moid ao)) (view_levels (A d)) = view_levels (A d)" if "d \<noteq> sd" for d
    using untouched_side(1)[OF ok] that by blast
  then show "apply_update u (market_view A) = market_view (A(sd := withdraw (has_ids cid coid) (A sd)))"
    using u 1 2 by (auto simp: apply_update_def market_view_def fun_eq_iff)
qed

section \<open>The two books\<close>

lemma updates_followed:
  assumes "mkt_refines b A" "followed us A"
  shows "\<exists>b'. fold_res update_book us b = Inr b' \<and> mkt_refines b' (fold apply_update us A)"
  using assms
proof (induction us arbitrary: b A)
  case (Cons u us)
  obtain b1 where "update_book u b = Inr b1" "mkt_refines b1 (apply_update u A)"
    using update_book_ok[OF Cons.prems(1)] Cons.prems(2) by auto
  then show ?case using Cons.IH[of b1] Cons.prems(2) by simp
qed simp

end
