(* ===== verification/ClientProps.thy ===== *)
theory ClientProps
  imports ClientBookClear ClientFollows BookProps
begin

text \<open>
  The properties of the client's copy of a book: it applies updates as the specification says,
  it follows the exchange's book, what it quotes, and what a \<open>CLEAR\<close> does to it.
\<close>

section \<open>States for the witnesses\<close>

definition new_client_book :: MarketOrderBook where
  "new_client_book = setTradeEngine (MarketOrderBook_ctor (\<lambda>_. None) (\<lambda>_. None) 0)"

lemma new_client_book_refines: "mkt_refines new_client_book (\<lambda>_. [])"
proof -
  have "me_of new_client_book = me_of (MarketOrderBook_ctor (\<lambda>_. None) (\<lambda>_. None) 0)"
    by (simp add: new_client_book_def setTradeEngine_def me_of_def cong: if_cong)
  then show ?thesis
    using MarketOrderBook_ctor_refines[of "\<lambda>_. None" "\<lambda>_. None" 0] by (simp add: mkt_refines_def)
qed

definition first_bid :: MEMarketUpdate where
  "first_bid = \<lparr>mu_type = MUT_ADD, mu_order_id = 1, mu_ticker_id = 0, mu_side = BUY,
     mu_price = 100, mu_qty = 10, mu_priority = 1\<rparr>"

lemma first_bid_simps [simp]:
  "mu_type first_bid = MUT_ADD" "mu_side first_bid = BUY" "mu_price first_bid = 100"
  "mu_qty first_bid = 10" "mu_ticker_id first_bid = 0"
  by (simp_all add: first_bid_def)

lemma first_bid_followable: "followable first_bid (\<lambda>_. [])"
  by (simp add: followable_def can_show_def first_bid_def book_orders_def book_levels_def limit_defs)

lemma first_bid_applied:
  "apply_update first_bid (\<lambda>_. []) = (\<lambda>_. [])(BUY := [(100, [order_shown first_bid])])"
  by (simp add: apply_update_def)

section \<open>Applying updates\<close>

text \<open>C6: The client's book refines the abstract book under market updates that fit it
  (\<open>followable\<close>): applying an ADD (of an id inside the table that is not in use, on one
  of the two sides, at a price whose index no other price of the book has, with room in both pools),
  a MODIFY or a CANCEL (of an order in the book, on its side and at its price) to its rings of
  levels and orders returns (the searches along the rings end), and yields a book that represents
  the abstract book with the order queued at its price, its quantity changed or the order
  withdrawn.\<close>

theorem client_book_applies_updates:
  assumes "mkt_refines b A" "followable u A"
  shows "\<exists>b'. update_book u b = Inr b' \<and> mkt_refines b' (apply_update u A)"
  by (rule update_book_ok[OF assms])

theorem client_book_applies_updates_witness:
  "\<exists>b'. update_book first_bid new_client_book = Inr b'
     \<and> mkt_refines b' ((\<lambda>_. [])(BUY := [(100, [order_shown first_bid])]))"
  using client_book_applies_updates[OF new_client_book_refines first_bid_followable]
  by (simp add: first_bid_applied)

section \<open>The exchange's book and the client's\<close>

text \<open>C4: The client follows the exchange, as long as its orders can rest. Premises: the
  engine's book is well formed and holds \<open>A\<close>, with different market ids and no empty
  level or order; a client's book holds what the market can see of \<open>A\<close>; a BUY or SELL
  order satisfies \<open>can_rest\<close> (ids inside the tables and not in use by a live order of
  the client, no live level of either side at another price with the same index, room in both pools,
  no SELL in front of two or more ask levels); the market id it will get is below
  \<open>ME_MAX_ORDER_IDS\<close> and not in use. Then the engine handles the order, the updates it
  queues are updates the client can apply, and after all of them the client's book holds what the
  market can see of the engine's new book: trades, partial fills and the resting remainder included.
  As the engine's ids repeat (\<open>market_order_ids_repeat\<close>), the last premise holds only
  while no other order rests; and a new best ask in front of two levels breaks the engine's book but
  not the client's.\<close>

theorem client_follows_the_exchange:
  assumes "me_refines s A" "queues_ok s" "mkt_refines b (market_view A)" "book_wf A"
    and "side = BUY \<or> side = SELL" "can_rest cid coid side price A"
    and "unat (next_market_order_id s) < ME_MAX_ORDER_IDS"
    and "next_market_order_id s \<notin> a_moid ` set (book_orders A)"
  shows "\<exists>s' A' rs us b'. add cid coid tid side price qty s = Inr s' \<and> sent rs us s s'
     \<and> me_refines s' A' \<and> fold_res update_book us b = Inr b' \<and> mkt_refines b' (market_view A')"
proof -
  obtain A' rs us where sp: "spec_add tid (next_market_order_id s) cid coid side price qty A = (A', rs, us)"
    by (metis prod_cases3)
  have ok: "alevels_ok (A (opp side))" using assms(4) by (simp add: book_wf_def)
  obtain s' where s': "add cid coid tid side price qty s = Inr s'" "sent rs us s s'" "me_refines s' A'"
    using add_ok[OF assms(1,2,5) ok assms(6) sp] by blast
  have so: "prices_sorted d (A d)" for d
  proof (cases "d = BUY \<or> d = SELL")
    case False
    then have "A d = []" using assms(4) by (auto simp: book_wf_def)
    then show ?thesis by (simp add: prices_sorted_def)
  qed (rule me_refines_sorted[OF assms(1)])
  have "followed us (market_view A)" "fold apply_update us (market_view A) = market_view A'"
    using add_followed[OF assms(5,4,6) so assms(7,8) sp] by blast+
  then show ?thesis using updates_followed[OF assms(3)] s' by metis
qed

theorem client_follows_the_exchange_witness:
  "\<exists>s' A' rs us b'. add 1 5 0 BUY 100 10 (new_context 0) = Inr s' \<and> sent rs us (new_context 0) s'
     \<and> me_refines s' A' \<and> fold_res update_book us new_client_book = Inr b'
     \<and> mkt_refines b' (market_view A')"
proof -
  have v: "market_view (\<lambda>_. []) = (\<lambda>_. [])" by (simp add: market_view_def fun_eq_iff)
  show ?thesis
    by (rule client_follows_the_exchange[OF new_context_refines new_context_queues])
      (use new_client_book_refines in \<open>simp_all add: v book_wf_def can_rest_def book_orders_def
        book_levels_def limit_defs\<close>)
qed

section \<open>The best bid and offer\<close>

text \<open>Handling an update tells the trade engine the best bid and offer after the update. On
  every side the update touches (its price is at or better than the best price the side
  had before), the quote is the best price of the new book with the total quantity of all
  orders there; the other side's quote is the old one; and the printing of the book that
  ends the handling, with its check of the price order, does not stop the process.\<close>

theorem quotes_the_touched_side:
  assumes "mkt_refines b A" "followable u A" "has_trade_engine b"
    and "printable (apply_update u A)" "mu_type u \<noteq> MUT_TRADE"
  shows "\<exists>b'. onMarketUpdate onT onB u b e
      = bindr (onB (mu_ticker_id u) (mu_price u) (mu_side u) (getBBO b') e) (\<lambda>e. Inr (b', e))
    \<and> mkt_refines b' (apply_update u A)
    \<and> (\<forall>sd \<in> {BUY, SELL}. bbo_side sd (getBBO b')
         = (if A sd \<noteq> [] \<and> mu_side u = sd \<and> \<not> better sd (fst (hd (A sd))) (mu_price u)
            then quote_of (apply_update u A sd) else bbo_side sd (getBBO b)))"
proof -
  obtain b' where b': "onMarketUpdate onT onB u b e
      = bindr (onB (mu_ticker_id u) (mu_price u) (mu_side u) (getBBO b') e) (\<lambda>e. Inr (b', e))"
    "mkt_refines b' (apply_update u A)"
    "\<And>sd. sd = BUY \<or> sd = SELL \<Longrightarrow>
         bbo_side sd (getBBO b') = (if touches_best sd u b then quote_of (apply_update u A sd)
                                    else bbo_side sd (getBBO b))"
    using onMarketUpdate_ok[OF assms, of onT onB e] by blast
  show ?thesis
  proof (intro exI conjI ballI, rule b'(1), rule b'(2))
    fix sd assume "sd \<in> {BUY, SELL}"
    then have sd: "sd = BUY \<or> sd = SELL" by simp
    show "bbo_side sd (getBBO b')
         = (if A sd \<noteq> [] \<and> mu_side u = sd \<and> \<not> better sd (fst (hd (A sd))) (mu_price u)
            then quote_of (apply_update u A sd) else bbo_side sd (getBBO b))"
      unfolding b'(3)[OF sd] touches_best_iff[OF assms(1) sd] by (rule refl)
  qed
qed

lemma new_client_book_simps [simp]:
  "has_trade_engine new_client_book" "getBBO new_client_book = BBO_default"
  "mb_bids new_client_book = None" "mb_asks new_client_book = None"
  "price_orders_at_price new_client_book = (\<lambda>_. None)"
  by (simp_all add: new_client_book_def setTradeEngine_def MarketOrderBook_ctor_def getBBO_def)

lemma bid_printable: "printable ((\<lambda>_. [])(BUY := [(100, [order_shown first_bid])]))"
  by (simp add: printable_def Price_INVALID_def)

theorem quotes_the_touched_side_witness:
  "\<exists>b'. onMarketUpdate (\<lambda>u q e. Inr e) (\<lambda>t p s q e. Inr q) first_bid new_client_book BBO_default
      = Inr (b', getBBO b')
    \<and> mkt_refines b' ((\<lambda>_. [])(BUY := [(100, [order_shown first_bid])]))"
  using quotes_the_touched_side[OF new_client_book_refines first_bid_followable, of
      "\<lambda>u q e. Inr e" "\<lambda>t p s q e. Inr q" BBO_default] bid_printable
  by (auto simp: first_bid_applied)

text \<open>The first order of an empty side is not quoted: whether the best price changes is decided
  before the update is applied, when the side has no best price yet. The book holds the
  order, but the engine is told the old quote, which for a new book is no price at all.\<close>

theorem first_order_is_not_quoted:
  assumes "mkt_refines b A" "followable u A" "has_trade_engine b"
    and "printable (apply_update u A)" "mu_type u = MUT_ADD" "A (mu_side u) = []"
  shows "\<exists>b'. onMarketUpdate onT onB u b e
      = bindr (onB (mu_ticker_id u) (mu_price u) (mu_side u) (getBBO b') e) (\<lambda>e. Inr (b', e))
    \<and> mkt_refines b' (A(mu_side u := [(mu_price u, [order_shown u])]))
    \<and> getBBO b' = getBBO b"
proof -
  have nt: "mu_type u \<noteq> MUT_TRADE" using assms(5) by simp
  obtain b' where b': "onMarketUpdate onT onB u b e
      = bindr (onB (mu_ticker_id u) (mu_price u) (mu_side u) (getBBO b') e) (\<lambda>e. Inr (b', e))"
    "mkt_refines b' (apply_update u A)"
    "\<And>sd. sd = BUY \<or> sd = SELL \<Longrightarrow>
         bbo_side sd (getBBO b') = (if touches_best sd u b then quote_of (apply_update u A sd)
                                    else bbo_side sd (getBBO b))"
    using onMarketUpdate_ok[OF assms(1-4) nt, of onT onB e] by blast
  have "bbo_side sd (getBBO b') = bbo_side sd (getBBO b)" if "sd = BUY \<or> sd = SELL" for sd
    using b'(3)[OF that] touches_best_iff[OF assms(1) that] assms(6) by auto
  from this[of BUY] this[of SELL] have "getBBO b' = getBBO b" by (simp add: bbo_side_def)
  then show ?thesis
    using b'(1,2) assms(5,6) by (intro exI[of _ b']) (simp add: apply_update_def)
qed

theorem first_order_is_not_quoted_witness:
  "\<exists>b'. onMarketUpdate (\<lambda>u q e. Inr e) (\<lambda>t p s q e. Inr q) first_bid new_client_book BBO_default
      = Inr (b', BBO_default)
    \<and> mkt_refines b' ((\<lambda>_. [])(BUY := [(100, [order_shown first_bid])]))"
  using first_order_is_not_quoted[OF new_client_book_refines first_bid_followable, of
      "\<lambda>u q e. Inr e" "\<lambda>t p s q e. Inr q" BBO_default] bid_printable
  by (auto simp: first_bid_applied)

section \<open>The same code as the engine's\<close>

text \<open>C16: The client's book and the engine's are the same program where their sources say the
  same: read as an engine's book whose orders all belong to one client, removing an order
  from the client's book does, step by step, outcome by outcome, what the engine does, and
  so does removing a price level; the undefined and terminating outcomes included.\<close>

theorem client_removes_as_the_engine:
  "removeOrder a (me_of b) = to_me (removeOrder_mkt a b)
   \<and> removeOrdersAtPrice sd p (me_of b) = to_me (removeOrdersAtPrice_mkt sd p b)"
  by (simp add: removeOrder_me removeOrdersAtPrice_me)

section \<open>Clearing\<close>



text \<open>An addition at a price whose table entry is not null never touches the sides.\<close>

lemma add_at_stale_price:
  assumes t: "mu_type u = MUT_ADD" and s: "price_orders_at_price b (pidx (mu_price u)) = Some l"
    and up: "update_book u b = Inr b'"
  shows "mb_bids b' = mb_bids b \<and> mb_asks b' = mb_asks b"
proof -
  let ?m = "MarketOrder_ctor (mu_order_id u) (mu_side u) (mu_price u) (mu_qty u) (mu_priority u) None None"
  obtain a pool where al: "allocate ?m (mb_orders b) = Inr (a, pool)"
    "addOrder_mkt a (b\<lparr>mb_orders := pool\<rparr>) = Inr b'"
    using up t by (auto simp: update_book_def elim: bindr_InrE)
  have "obj pool a = ?m"
    using al(1) by (auto simp: allocate_def obj_def updateNextFreeIndex_def Let_def elim!: bindr_InrE)
  then have "mo_price (mord_at (b\<lparr>mb_orders := pool\<rparr>) a) = mu_price u"
    by (simp add: mord_at_def MarketOrder_ctor_def)
  moreover have "getOrdersAtPrice_mkt (mu_price u) (b\<lparr>mb_orders := pool\<rparr>) = Inr (Some l)"
    using s by (simp add: getOrdersAtPrice_mkt_def priceToIndex_mkt_def pidx_def limit_defs)
  ultimately show ?thesis
    using al(2) by (auto simp: addOrder_mkt_def Let_def set_oid_def set_mord_def elim!: bindr_InrE)
qed

text \<open>An order added after a \<open>CLEAR\<close> at a price the old book had a level for is lost: its table
  entry still leads to the released level, so the order is linked to a released order and
  the side it belongs to stays empty, whenever the addition returns at all.\<close>

theorem order_after_clear_is_lost:
  assumes "mkt_refines b A" "clear_book b = Inr b1"
    and "price_orders_at_price b (pidx (mu_price u)) = Some l"
    and "mu_type u = MUT_ADD" "update_book u b1 = Inr b2"
  shows "mb_bids b2 = None \<and> mb_asks b2 = None"
proof -
  have "mb_bids b1 = None" "mb_asks b1 = None" "price_orders_at_price b1 = price_orders_at_price b"
    using clear_book_ok[OF assms(1)] assms(2) by auto
  then show ?thesis using add_at_stale_price[OF assms(4) _ assms(5)] assms(3) by simp
qed

lemma scan_free_here: "i < sz \<Longrightarrow> f < sz \<Longrightarrow> free i \<Longrightarrow> scan_free free sz f i = Inr i"
  by (subst scan_free.simps) simp

lemma scan_free_next:
  "i + 1 < sz \<Longrightarrow> \<not> free i \<Longrightarrow> free (i + 1) \<Longrightarrow> scan_free free sz i i = Inr (i + 1)"
  by (subst scan_free.simps) (simp add: Let_def scan_free_here)

text \<open>The first bid in a new book: order 0 in level 0, next to come order 1.\<close>

lemma book_with_first_bid:
  "\<exists>b. update_book first_bid new_client_book = Inr b \<and> mkt_refines b (apply_update first_bid (\<lambda>_. []))
     \<and> price_orders_at_price b (pidx 100) = Some 0 \<and> ml_first (obj (mb_levels b) 0) = Some 0
     \<and> mo_prev (obj (mb_orders b) 0) = Some 0 \<and> next_free_index (mb_orders b) = 1"
proof -
  obtain b where b: "update_book first_bid new_client_book = Inr b" "mkt_refines b (apply_update first_bid (\<lambda>_. []))"
    using update_book_ok[OF new_client_book_refines first_bid_followable] by blast
  have "price_orders_at_price b (pidx 100) = Some 0 \<and> ml_first (obj (mb_levels b) 0) = Some 0
     \<and> mo_prev (obj (mb_orders b) 0) = Some 0 \<and> next_free_index (mb_orders b) = 1"
    using b(1)
    by (auto simp: update_book_def new_client_book_def setTradeEngine_def MarketOrderBook_ctor_def
        allocate_def updateNextFreeIndex_def MemPool_ctor_def Let_def limit_defs scan_free_next
        addOrder_mkt_def getOrdersAtPrice_mkt_def addOrdersAtPrice_mkt_def mside_head_def
        set_mlvl_def set_mside_head_def set_mord_def set_oid_def mlvl_at_def mord_at_def obj_def upd_obj_def
        MarketOrder_ctor_def MarketOrdersAtPrice_ctor_def priceToIndex_mkt_def pidx_def first_bid_def)
  then show ?thesis using b by blast
qed

definition second_bid :: MEMarketUpdate where
  "second_bid = first_bid\<lparr>mu_order_id := 2\<rparr>"

lemma second_bid_returns:
  assumes b: "mkt_refines b A" "price_orders_at_price b (pidx 100) = Some 0"
    "ml_first (obj (mb_levels b) 0) = Some 0" "mo_prev (obj (mb_orders b) 0) = Some 0"
    "next_free_index (mb_orders b) = 1"
  shows "\<exists>b1 b2. clear_book b = Inr b1 \<and> update_book second_bid b1 = Inr b2"
proof -
  obtain b1 where c: "clear_book b = Inr b1" "price_orders_at_price b1 = price_orders_at_price b"
    "live (mb_orders b1) = {}" "released (live (mb_orders b)) (mb_orders b) (mb_orders b1)"
    "released (live (mb_levels b)) (mb_levels b) (mb_levels b1)"
    using clear_book_ok[OF b(1)] by blast
  have sz: "pool_size (mb_orders b) = ME_MAX_ORDER_IDS"
    using b(1) by (auto simp: mkt_refines_def me_refines_def me_rep_def pools_ok_def)
  have free: "is_free (pool_store (mb_orders b1) i)" if "i < 1048576" for i
    using c(3,4) that sz by (auto simp: live_def released_def limit_defs)
  let ?m = "MarketOrder_ctor 2 BUY 100 10 1 None None"
  obtain pool where pool: "allocate ?m (mb_orders b1) = Inr (1, pool)" "obj pool 1 = ?m"
    "obj pool 0 = obj (mb_orders b) 0"
    using c(4) free[of 1] free[of "Suc (Suc 0)"] sz b(5) scan_free_next[of 1 1048576 "\<lambda>i. is_free (((pool_store (mb_orders b1))(Suc 0 := \<lparr>object = ?m, is_free = False\<rparr>)) i)"]
    by (auto simp: allocate_def updateNextFreeIndex_def Let_def released_def limit_defs obj_def)
  have "\<exists>b2. update_book second_bid b1 = Inr b2"
    using pool c(2,5) b(2,3,4)
    by (auto simp: update_book_def second_bid_def first_bid_def addOrder_mkt_def getOrdersAtPrice_mkt_def
        priceToIndex_mkt_def pidx_def limit_defs mord_at_def mlvl_at_def MarketOrder_ctor_def released_def
        Let_def set_mord_def set_oid_def)
  then show ?thesis using c(1) by blast
qed

theorem order_after_clear_is_lost_witness:
  "\<exists>b b1 b2. mkt_refines b (apply_update first_bid (\<lambda>_. [])) \<and> clear_book b = Inr b1
     \<and> update_book second_bid b1 = Inr b2 \<and> mb_bids b2 = None"
proof -
  obtain b where b: "mkt_refines b (apply_update first_bid (\<lambda>_. []))" "price_orders_at_price b (pidx 100) = Some 0"
    "ml_first (obj (mb_levels b) 0) = Some 0" "mo_prev (obj (mb_orders b) 0) = Some 0"
    "next_free_index (mb_orders b) = 1"
    using book_with_first_bid by blast
  obtain b1 b2 where u: "clear_book b = Inr b1" "update_book second_bid b1 = Inr b2"
    using second_bid_returns[OF b] by blast
  show ?thesis
    using order_after_clear_is_lost[OF b(1) u(1) _ _ u(2)] b(1,2) u by (auto simp: second_bid_def)
qed

end
