(* ===== verification/CsappUtil.thy ===== *)
theory CsappUtil
  imports Prelude
begin

text \<open>
  \<open>CSAPP/Chapter11_Networking/csapp.c\<close> beside the Rio package: the conversion of a \<open>long\<close> to a string
  that signal handlers use (\<open>sio_ltoa\<close>), and the helpers that open a socket for a client or a server.
  A character array is the list of the characters before its end. The outcomes of \<open>getaddrinfo\<close>,
  \<open>socket\<close>, \<open>connect\<close>, \<open>bind\<close>, \<open>listen\<close> and \<open>close\<close> are parameters.
\<close>

section \<open>Numbers as strings\<close>

text \<open>The loop of \<open>sio_reverse\<close> with its two indices.\<close>

function reverse_loop :: "'a list \<Rightarrow> int \<Rightarrow> int \<Rightarrow> 'a list" where
  "reverse_loop s i j =
     (if i < j then reverse_loop (s[nat i := s ! nat j, nat j := s ! nat i]) (i + 1) (j - 1) else s)"
  by pat_completeness auto
termination
  by (relation "measure (\<lambda>(s, i, j). nat (j - i))") auto

declare reverse_loop.simps [simp del]

definition sio_reverse :: "'a list \<Rightarrow> 'a list" where
  "sio_reverse s = reverse_loop s 0 (int (length s) - 1)"

definition digit_char :: "int \<Rightarrow> char" where
  "digit_char c = char_of (nat (if c < 10 then c + 48 else c - 10 + 97))"

partial_function (option) ltoa_loop :: "int \<Rightarrow> int \<Rightarrow> string \<Rightarrow> string option" where
  "ltoa_loop b v s =
     (let s = s @ [digit_char (v mod b)] in
      if 0 < v div b then ltoa_loop b (v div b) s else Some s)"

text \<open>Negating the smallest \<open>long\<close> overflows.\<close>

definition sio_ltoa :: "int \<Rightarrow> int \<Rightarrow> string res" where
  "sio_ltoa v b =
     (let neg = v < 0 in
      if v = - (2 ^ 63) then Inl (Undefined ''signed overflow'')
      else (case ltoa_loop b (if neg then - v else v) [] of
          None \<Rightarrow> Inl Diverges
        | Some s \<Rightarrow> Inr (sio_reverse (if neg then s @ ''-'' else s))))"

definition sio_putl :: "int \<Rightarrow> string res" where
  "sio_putl v = sio_ltoa v 10"

text \<open>Reading such a string back.\<close>

definition digit_value :: "char \<Rightarrow> int" where
  "digit_value c = (let n = int (of_char c) in if n < 97 then n - 48 else n - 97 + 10)"

definition read_digits :: "int \<Rightarrow> string \<Rightarrow> int" where
  "read_digits b s = foldl (\<lambda>acc c. b * acc + digit_value c) 0 s"

definition read_long :: "int \<Rightarrow> string \<Rightarrow> int" where
  "read_long b s = (case s of c # cs \<Rightarrow> if c = CHR ''-'' then - read_digits b cs else read_digits b s | [] \<Rightarrow> 0)"

lemma reverse_loop_rev:
  "length xs = length zs \<Longrightarrow> reverse_loop (xs @ ys @ zs) (int (length xs)) (int (length xs + length ys) - 1) = xs @ rev ys @ zs"
proof (induction ys arbitrary: xs zs rule: length_induct)
  case (1 ys)
  show ?case
  proof (cases "length ys < 2")
    case True
    then have "rev ys = ys" by (cases ys) auto
    moreover have "\<not> int (length xs) < int (length xs + length ys) - 1" using True by simp
    ultimately show ?thesis by (subst reverse_loop.simps) simp
  next
    case False
    then obtain y ys' where y: "ys = y # ys'" "ys' \<noteq> []" by (cases ys) auto
    then obtain ms z where ys: "ys = y # ms @ [z]" by (metis rev_exhaust)
    have j: "nat (int (length xs + length ys) - 1) = length xs + Suc (length ms)" by (simp add: ys)
    have "(xs @ ys @ zs)[length xs := z, length xs + Suc (length ms) := y] = (xs @ [z]) @ ms @ (y # zs)"
      by (simp add: ys list_update_append nth_append)
    moreover have "(xs @ ys @ zs) ! (length xs + Suc (length ms)) = z" "(xs @ ys @ zs) ! length xs = y"
      by (simp_all add: ys nth_append)
    moreover have "length ms < length ys" "length (xs @ [z]) = length (y # zs)" using ys 1(2) by simp_all
    then have "reverse_loop ((xs @ [z]) @ ms @ (y # zs)) (int (length (xs @ [z]))) (int (length (xs @ [z]) + length ms) - 1)
        = (xs @ [z]) @ rev ms @ (y # zs)" using 1(1) by blast
    ultimately show ?thesis
      by (subst reverse_loop.simps) (use j in \<open>simp add: ys add.commute\<close>)
  qed
qed

lemma sio_reverse_rev: "sio_reverse s = rev s"
  using reverse_loop_rev[of "[]" "[]" s] by (simp add: sio_reverse_def)

lemma digit_value_char: "0 \<le> d \<Longrightarrow> d < 36 \<Longrightarrow> digit_value (digit_char d) = d"
  by (auto simp: digit_value_def digit_char_def Let_def of_char_of nat_less_iff)

lemma digit_char_not_minus: "0 \<le> d \<Longrightarrow> d < 36 \<Longrightarrow> digit_char d \<noteq> CHR ''-''"
  by (auto simp: digit_char_def dest!: arg_cong[of _ _ "of_char :: char \<Rightarrow> nat"])

lemma ltoa_loop_digits:
  assumes "2 \<le> b" "b \<le> 36" "0 \<le> v" "v < 2 ^ n" "0 < n"
  shows "\<exists>ds. ltoa_loop b v s = Some (s @ ds) \<and> read_digits b (rev ds) = v \<and> ds \<noteq> [] \<and> length ds \<le> n \<and> CHR ''-'' \<notin> set ds"
  using assms(3-)
proof (induction n arbitrary: v s)
  case (Suc n)
  have d: "0 \<le> v mod b" "v mod b < b" using assms(1) by simp_all
  note dig = digit_value_char[OF d(1)] digit_char_not_minus[OF d(1)]
  show ?case
  proof (cases "0 < v div b")
    case False
    then have "v div b = 0" using Suc.prems(1) assms(1) by (simp add: pos_imp_zdiv_nonneg_iff order.antisym)
    then have "v mod b = v" using mult_div_mod_eq[of b v] by simp
    then show ?thesis using False dig d assms(2) ltoa_loop.simps[of b v s]
      by (auto simp: Let_def read_digits_def)
  next
    case True
    have "v div b \<le> v div 2" using Suc.prems(1) assms(1) by (simp add: zdiv_mono2)
    then have lt: "v div b < 2 ^ n" using Suc.prems(2) by simp
    then have "0 < n" using True by (cases n) auto
    from Suc.IH[OF _ lt this, of "s @ [digit_char (v mod b)]"] True
    obtain ds where ds: "ltoa_loop b (v div b) (s @ [digit_char (v mod b)]) = Some (s @ digit_char (v mod b) # ds)"
      "read_digits b (rev ds) = v div b" "length ds \<le> n" "CHR ''-'' \<notin> set ds"
      by auto
    have "read_digits b (rev (digit_char (v mod b) # ds)) = v"
      using ds(2) dig d assms(2) by (simp add: read_digits_def)
    then show ?thesis using ds True dig d assms(2) ltoa_loop.simps[of b v s]
      by (intro exI[of _ "digit_char (v mod b) # ds"]) (auto simp: Let_def)
  qed
qed simp

text \<open>C32: In every base from 2 to 36 \<open>sio_ltoa\<close> converts every
  \<open>long\<close> but the smallest to a string of digits that reads back as the same number, and
  with the sign and the zero at its end the string fits into the 128 characters that
  \<open>sio_putl\<close> has for it. For the smallest \<open>long\<close> it is undefined.\<close>

theorem sio_ltoa_round_trip:
  assumes "2 \<le> b" "b \<le> 36" "- (2 ^ 63) \<le> v" "v < 2 ^ 63"
  shows "if v = - (2 ^ 63) then sio_ltoa v b = Inl (Undefined ''signed overflow'')
    else \<exists>s. sio_ltoa v b = Inr s \<and> read_long b s = v \<and> length s + 1 \<le> 65"
proof (cases "v = - (2 ^ 63)")
  case False
  have "0 \<le> \<bar>v\<bar>" "\<bar>v\<bar> < 2 ^ 63" "0 < (63::nat)" using assms False by auto
  from ltoa_loop_digits[OF assms(1,2) this, of "[]"]
  obtain ds where ds: "ltoa_loop b \<bar>v\<bar> [] = Some ds" "read_digits b (rev ds) = \<bar>v\<bar>" "ds \<noteq> []" "length ds \<le> 63"
    "CHR ''-'' \<notin> set ds" by auto
  show ?thesis
  proof (cases "v < 0")
    case True
    then show ?thesis using False ds by (simp add: sio_ltoa_def sio_reverse_rev read_long_def)
  next
    case nn: False
    obtain c cs where "rev ds = c # cs" using ds(3) by (cases "rev ds") auto
    moreover have "c \<noteq> CHR ''-''" using ds(5) calculation by (metis list.set_intros(1) set_rev)
    ultimately have "read_long b (rev ds) = read_digits b (rev ds)" by (simp add: read_long_def)
    then show ?thesis using False nn ds by (simp add: sio_ltoa_def sio_reverse_rev)
  qed
qed (simp add: sio_ltoa_def)

theorem sio_ltoa_round_trip_witness:
  "\<exists>s. sio_ltoa (- 255) 16 = Inr s \<and> read_long 16 s = - 255 \<and> length s + 1 \<le> 65"
  using sio_ltoa_round_trip[of 16 "- 255"] by simp

section \<open>Opening a socket\<close>

text \<open>The kernel's answers, for each address: the descriptor of a new socket (negative if there is none),
  what \<open>connect\<close>, \<open>bind\<close>, \<open>close\<close> and \<open>listen\<close> return. The state is the set of descriptors that are open
  and whether the list of addresses has been given back; a successful \<open>close\<close> closes.\<close>

record 'a net_calls =
  nc_socket :: "'a \<Rightarrow> int"
  nc_connect :: "int \<Rightarrow> 'a \<Rightarrow> int"
  nc_bind :: "int \<Rightarrow> 'a \<Rightarrow> int"
  nc_close :: "int \<Rightarrow> int"
  nc_listen :: "int \<Rightarrow> int"

record net_state =
  ns_open :: "int set"
  ns_freed :: bool

datatype walk = Walk_found int | Walk_end | Walk_return int

definition open_socket :: "'a net_calls \<Rightarrow> 'a \<Rightarrow> net_state \<Rightarrow> int \<times> net_state" where
  "open_socket N a s = (let fd = nc_socket N a in
     (fd, if fd < 0 then s else s\<lparr>ns_open := insert fd (ns_open s)\<rparr>))"

definition close_fd :: "'a net_calls \<Rightarrow> int \<Rightarrow> net_state \<Rightarrow> int \<times> net_state" where
  "close_fd N fd s = (nc_close N fd, if nc_close N fd < 0 then s else s\<lparr>ns_open := ns_open s - {fd}\<rparr>)"

fun client_walk :: "'a net_calls \<Rightarrow> 'a list \<Rightarrow> net_state \<Rightarrow> walk \<times> net_state" where
  "client_walk N [] s = (Walk_end, s)"
| "client_walk N (p # ps) s =
     (let (clientfd, s) = open_socket N p s in
      if clientfd < 0 then client_walk N ps s
      else if nc_connect N clientfd p \<noteq> - 1 then (Walk_found clientfd, s)
      else let (rc, s) = close_fd N clientfd s in
        if rc < 0 then (Walk_return (- 1), s) else client_walk N ps s)"

fun listen_walk :: "'a net_calls \<Rightarrow> 'a list \<Rightarrow> net_state \<Rightarrow> walk \<times> net_state" where
  "listen_walk N [] s = (Walk_end, s)"
| "listen_walk N (p # ps) s =
     (let (listenfd, s) = open_socket N p s in
      if listenfd < 0 then listen_walk N ps s
      else if nc_bind N listenfd p = 0 then (Walk_found listenfd, s)
      else let (rc, s) = close_fd N listenfd s in
        if rc < 0 then (Walk_return (- 1), s) else listen_walk N ps s)"

text \<open>\<open>None\<close>: \<open>getaddrinfo\<close> fails. The list is not given back when a \<open>close\<close> fails.\<close>

definition open_clientfd :: "'a net_calls \<Rightarrow> 'a list option \<Rightarrow> net_state \<Rightarrow> int \<times> net_state" where
  "open_clientfd N addrs s = (case addrs of None \<Rightarrow> (- 2, s) | Some listp \<Rightarrow>
     (case client_walk N listp (s\<lparr>ns_freed := False\<rparr>) of
        (Walk_return rc, s) \<Rightarrow> (rc, s)
      | (Walk_end, s) \<Rightarrow> (- 1, s\<lparr>ns_freed := True\<rparr>)
      | (Walk_found fd, s) \<Rightarrow> (fd, s\<lparr>ns_freed := True\<rparr>)))"

definition open_listenfd :: "'a net_calls \<Rightarrow> 'a list option \<Rightarrow> net_state \<Rightarrow> int \<times> net_state" where
  "open_listenfd N addrs s = (case addrs of None \<Rightarrow> (- 2, s) | Some listp \<Rightarrow>
     (case listen_walk N listp (s\<lparr>ns_freed := False\<rparr>) of
        (Walk_return rc, s) \<Rightarrow> (rc, s)
      | (Walk_end, s) \<Rightarrow> (- 1, s\<lparr>ns_freed := True\<rparr>)
      | (Walk_found fd, s) \<Rightarrow>
          (let s = s\<lparr>ns_freed := True\<rparr> in
           if nc_listen N fd < 0 then (- 1, snd (close_fd N fd s)) else (fd, s))))"

definition fresh_sockets :: "'a net_calls \<Rightarrow> net_state \<Rightarrow> bool" where
  "fresh_sockets N s \<longleftrightarrow> (\<forall>a. nc_socket N a \<notin> ns_open s)"

lemma client_walk_finds:
  assumes "\<forall>fd. 0 \<le> nc_close N fd" and "fresh_sockets N s"
  shows "client_walk N ps s =
    (case dropWhile (\<lambda>a. nc_socket N a < 0 \<or> nc_connect N (nc_socket N a) a = - 1) ps of
       [] \<Rightarrow> (Walk_end, s) | a # _ \<Rightarrow> (Walk_found (nc_socket N a), s\<lparr>ns_open := insert (nc_socket N a) (ns_open s)\<rparr>))"
  using assms(2)
proof (induction ps arbitrary: s)
  case (Cons p ps)
  have "\<not> nc_close N fd < 0" for fd using assms(1) by (simp add: not_less)
  moreover have "s\<lparr>ns_open := ns_open s - {nc_socket N p}\<rparr> = s"
    using Cons.prems by (simp add: fresh_sockets_def)
  ultimately show ?case
    using Cons by (auto simp: open_socket_def close_fd_def Let_def)
qed simp

lemma listen_walk_finds:
  assumes "\<forall>fd. 0 \<le> nc_close N fd" and "fresh_sockets N s"
  shows "listen_walk N ps s =
    (case dropWhile (\<lambda>a. nc_socket N a < 0 \<or> nc_bind N (nc_socket N a) a \<noteq> 0) ps of
       [] \<Rightarrow> (Walk_end, s) | a # _ \<Rightarrow> (Walk_found (nc_socket N a), s\<lparr>ns_open := insert (nc_socket N a) (ns_open s)\<rparr>))"
  using assms(2)
proof (induction ps arbitrary: s)
  case (Cons p ps)
  have "\<not> nc_close N fd < 0" for fd using assms(1) by (simp add: not_less)
  moreover have "s\<lparr>ns_open := ns_open s - {nc_socket N p}\<rparr> = s"
    using Cons.prems by (simp add: fresh_sockets_def)
  ultimately show ?case
    using Cons by (auto simp: open_socket_def close_fd_def Let_def)
qed simp

text \<open>\<open>open_clientfd\<close> connects to the first address that accepts and leaks nothing: when \<open>close\<close> does
  not fail it returns either the descriptor of a socket connected to the first address for which both
  \<open>socket\<close> and \<open>connect\<close> succeed, which is the only one it leaves open, or \<open>-1\<close> if there is none, with
  every socket closed; the list of addresses is given back.\<close>

theorem open_clientfd_first_address:
  assumes "\<forall>fd. 0 \<le> nc_close N fd" and "fresh_sockets N s"
  shows "open_clientfd N (Some ps) s =
    (case dropWhile (\<lambda>a. nc_socket N a < 0 \<or> nc_connect N (nc_socket N a) a = - 1) ps of
       [] \<Rightarrow> (- 1, s\<lparr>ns_freed := True\<rparr>)
     | a # _ \<Rightarrow> (nc_socket N a, s\<lparr>ns_open := insert (nc_socket N a) (ns_open s), ns_freed := True\<rparr>))"
proof -
  have "fresh_sockets N (s\<lparr>ns_freed := False\<rparr>)" using assms(2) by (simp add: fresh_sockets_def)
  then show ?thesis
    using client_walk_finds[OF assms(1)]
    by (cases "dropWhile (\<lambda>a. nc_socket N a < 0 \<or> nc_connect N (nc_socket N a) a = - 1) ps")
      (simp_all add: open_clientfd_def del: dropWhile_eq_Nil_conv)
qed

definition net3 :: "nat net_calls" where
  "net3 = \<lparr>nc_socket = (\<lambda>a. if a = 0 then - 1 else 3), nc_connect = (\<lambda>_ a. if a = 1 then - 1 else 0), nc_bind = (\<lambda>_ _. 0),
     nc_close = (\<lambda>_. 0), nc_listen = (\<lambda>_. - 1)\<rparr>"

theorem open_clientfd_first_address_witness:
  "open_clientfd net3 (Some [0, 1, 2]) \<lparr>ns_open = {0, 1}, ns_freed = True\<rparr> = (3, \<lparr>ns_open = {3, 0, 1}, ns_freed = True\<rparr>)"
  using open_clientfd_first_address[of net3 "\<lparr>ns_open = {0, 1}, ns_freed = True\<rparr>" "[0, 1, 2]"]
  by (simp add: net3_def fresh_sockets_def)

text \<open>A server's socket that cannot listen is closed again.\<close>

lemma open_listenfd_closes:
  assumes "\<forall>fd. 0 \<le> nc_close N fd" and "fresh_sockets N s"
  shows "open_listenfd N (Some ps) s =
    (case dropWhile (\<lambda>a. nc_socket N a < 0 \<or> nc_bind N (nc_socket N a) a \<noteq> 0) ps of
       [] \<Rightarrow> (- 1, s\<lparr>ns_freed := True\<rparr>)
     | a # _ \<Rightarrow> if nc_listen N (nc_socket N a) < 0 then (- 1, s\<lparr>ns_freed := True\<rparr>)
         else (nc_socket N a, s\<lparr>ns_open := insert (nc_socket N a) (ns_open s), ns_freed := True\<rparr>))"
proof -
  have "fresh_sockets N (s\<lparr>ns_freed := False\<rparr>)" using assms(2) by (simp add: fresh_sockets_def)
  moreover have "\<not> nc_close N fd < 0" for fd using assms(1) by (simp add: not_less)
  ultimately show ?thesis
    using listen_walk_finds[OF assms(1)] assms(2)
    by (cases "dropWhile (\<lambda>a. nc_socket N a < 0 \<or> nc_bind N (nc_socket N a) a \<noteq> 0) ps")
      (simp_all add: open_listenfd_def close_fd_def Let_def fresh_sockets_def del: dropWhile_eq_Nil_conv)
qed

text \<open>When \<open>close\<close> fails the function returns without giving back the list of addresses, and the socket
  stays open.\<close>

lemma failing_close_leaks:
  assumes "nc_close N (nc_socket N p) < 0" "0 \<le> nc_socket N p" "nc_connect N (nc_socket N p) p = - 1"
  shows "open_clientfd N (Some (p # ps)) s = (- 1, s\<lparr>ns_open := insert (nc_socket N p) (ns_open s), ns_freed := False\<rparr>)"
  using assms by (simp add: open_clientfd_def open_socket_def close_fd_def Let_def)

end
