(* ===== verification/EventBus.thy ===== *)
theory EventBus
  imports Prelude
begin

text \<open>
  \<open>Architecture_And_DesignPattern/pub_sub_mediator_event_bus/dymanic_event_bus_subscription_handle.h\<close>:
  an event bus with subscription handles that are meant to unsubscribe when they are
  destroyed, and the three modules of the demonstration. The message types are the topics;
  a callback is a lambda that captures \<open>this\<close>, so it names an object, and \<open>alive\<close> says
  which objects still exist. The identifiers are integers: 2 ^ 31 subscriptions are out of
  reach of the demonstration.
\<close>

section \<open>The bus\<close>

datatype topic = MultiObjOutput | HumanPointOutput | SeatbeltOutput

record 'c EventBus =
  eb_subscribers :: "topic \<rightharpoonup> 'c list"
  eb_type_subscribers :: "topic \<rightharpoonup> int"
  eb_id :: int

text \<open>Whether \<open>bus_\<close> is not null, and \<open>id_\<close>.\<close>

record SubscriptionHandle =
  sh_bus :: bool
  sh_id :: int

definition EventBus_ctor :: "'c EventBus" where
  "EventBus_ctor = \<lparr>eb_subscribers = Map.empty, eb_type_subscribers = Map.empty, eb_id = - 1\<rparr>"

definition eb_subscribe :: "topic \<Rightarrow> 'c \<Rightarrow> 'c EventBus \<Rightarrow> SubscriptionHandle \<times> 'c EventBus" where
  "eb_subscribe t callback b =
     (let n = eb_id b + 1;
          old = (case eb_subscribers b t of None \<Rightarrow> [] | Some cs \<Rightarrow> cs)
      in (\<lparr>sh_bus = True, sh_id = n\<rparr>,
          b\<lparr>eb_id := n, eb_type_subscribers := (eb_type_subscribers b)(t \<mapsto> n),
            eb_subscribers := (eb_subscribers b)(t \<mapsto> old @ [callback])\<rparr>))"

text \<open>The loop over \<open>type_subscribers_\<close> finds an entry with this id.\<close>

definition eb_unsubscribe :: "int \<Rightarrow> 'c EventBus \<Rightarrow> 'c EventBus" where
  "eb_unsubscribe n b =
     (case find (\<lambda>t. eb_type_subscribers b t = Some n) [MultiObjOutput, HumanPointOutput, SeatbeltOutput] of
        None \<Rightarrow> b
      | Some t \<Rightarrow> b\<lparr>eb_subscribers := (eb_subscribers b)(t := None),
                    eb_type_subscribers := (eb_type_subscribers b)(t := None)\<rparr>)"

section \<open>Handles\<close>

text \<open>The move constructor clears its own id where the other's is meant.\<close>

definition Handle_move :: "SubscriptionHandle \<Rightarrow> SubscriptionHandle \<times> SubscriptionHandle" where
  "Handle_move other = (\<lparr>sh_bus = sh_bus other, sh_id = - 1\<rparr>, other\<lparr>sh_bus := False\<rparr>)"

text \<open>Assignment from another handle; it does not unsubscribe the one it overwrites.\<close>

definition Handle_assign :: "SubscriptionHandle \<Rightarrow> SubscriptionHandle \<Rightarrow> SubscriptionHandle \<times> SubscriptionHandle" where
  "Handle_assign self other = (\<lparr>sh_bus = sh_bus other, sh_id = sh_id other\<rparr>, \<lparr>sh_bus = False, sh_id = - 1\<rparr>)"

definition Handle_dtor :: "SubscriptionHandle \<Rightarrow> 'c EventBus \<Rightarrow> 'c EventBus" where
  "Handle_dtor h b = (if sh_bus h \<and> sh_id h \<noteq> - 1 then eb_unsubscribe (sh_id h) b else b)"

text \<open>\<open>std::make_unique<SubscriptionHandle>(bus.subscribe(...))\<close>: the temporary is moved from and
  destroyed.\<close>

definition subscribe_unique :: "topic \<Rightarrow> 'c \<Rightarrow> 'c EventBus \<Rightarrow> SubscriptionHandle \<times> 'c EventBus" where
  "subscribe_unique t callback b =
     (let (tmp, b) = eb_subscribe t callback b; (h, tmp) = Handle_move tmp
      in (h, Handle_dtor tmp b))"

section \<open>The modules\<close>

datatype callback = Human_on_multi nat | Seat_on_multi nat | Seat_on_human nat

definition alive_or_dangling :: "(nat \<Rightarrow> bool) \<Rightarrow> nat \<Rightarrow> string list \<Rightarrow> string list res" where
  "alive_or_dangling alive x out =
     (if alive x then Inr out else Inl (Undefined ''callback of a destroyed object''))"

definition do_work :: string where
  "do_work = ''Seatbelt's dowork''"

text \<open>\<open>publish\<close> works on a copy of the map, so callbacks may use the bus. A callback of the wrong
  type cannot have been registered.\<close>

definition publish_human :: "(nat \<Rightarrow> bool) \<Rightarrow> callback EventBus \<Rightarrow> int \<Rightarrow> string list res" where
  "publish_human alive b data =
     (case eb_subscribers b HumanPointOutput of
        None \<Rightarrow> Inr []
      | Some slots \<Rightarrow> fold_res (\<lambda>slot out.
          case slot of
            Seat_on_human x \<Rightarrow>
              alive_or_dangling alive x (out @ [''Seatbelt received humanpoint: '' @ int_to_string data, do_work])
          | _ \<Rightarrow> Inl (Undefined ''callback of another type'')) slots [])"

definition publish_multi :: "(nat \<Rightarrow> bool) \<Rightarrow> callback EventBus \<Rightarrow> int \<Rightarrow> string list res" where
  "publish_multi alive b data =
     (case eb_subscribers b MultiObjOutput of
        None \<Rightarrow> Inr []
      | Some slots \<Rightarrow> fold_res (\<lambda>slot out.
          case slot of
            Human_on_multi x \<Rightarrow>
              bindr (alive_or_dangling alive x
                       (out @ [''HumanPoint Received: '' @ int_to_string data,
                               ''HumanPoint produce: '' @ int_to_string (data + 1)])) (\<lambda>out.
              bindr (publish_human alive b (data + 1)) (\<lambda>more. Inr (out @ more)))
          | Seat_on_multi x \<Rightarrow>
              alive_or_dangling alive x (out @ [''Seatbelt received multiobj: '' @ int_to_string data, do_work])
          | _ \<Rightarrow> Inl (Undefined ''callback of another type'')) slots [])"

definition produce :: "(nat \<Rightarrow> bool) \<Rightarrow> callback EventBus \<Rightarrow> string list res" where
  "produce alive b = publish_multi alive b 1"

definition HumanPoint_ctor :: "nat \<Rightarrow> callback EventBus \<Rightarrow> SubscriptionHandle \<times> callback EventBus" where
  "HumanPoint_ctor x b = subscribe_unique MultiObjOutput (Human_on_multi x) b"

definition Seatbelt_ctor ::
  "nat \<Rightarrow> callback EventBus \<Rightarrow> SubscriptionHandle \<times> SubscriptionHandle \<times> callback EventBus" where
  "Seatbelt_ctor x b =
     (let (h, b) = subscribe_unique MultiObjOutput (Seat_on_multi x) b;
          (h', b) = subscribe_unique HumanPointOutput (Seat_on_human x) b
      in (h, h', b))"

text \<open>\<open>main\<close>: the lines printed.\<close>

definition main_subscription :: "string list res" where
  "main_subscription =
     (let (_, b) = HumanPoint_ctor 1 EventBus_ctor; (_, _, b) = Seatbelt_ctor 2 b
      in produce (\<lambda>_. True) b)"

lemma main_subscription_prints:
  "main_subscription = Inr
     [''HumanPoint Received: 1'', ''HumanPoint produce: 2'', ''Seatbelt received humanpoint: 2'', do_work,
      ''Seatbelt received multiobj: 1'', do_work]"
  by code_simp

section \<open>What a handle does\<close>

text \<open>The states of a bus.\<close>

inductive eb_reach :: "'c EventBus \<Rightarrow> bool" where
  "eb_reach EventBus_ctor"
| "eb_reach b \<Longrightarrow> eb_reach (snd (eb_subscribe t c b))"
| "eb_reach b \<Longrightarrow> eb_reach (eb_unsubscribe n b)"

lemma find_topic:
  "find P [MultiObjOutput, HumanPointOutput, SeatbeltOutput] = None \<longleftrightarrow> (\<forall>t. \<not> P t)"
  by (metis (full_types) find_None_iff list.set_intros topic.exhaust)

lemma find_topicD: "find P [MultiObjOutput, HumanPointOutput, SeatbeltOutput] = Some t \<Longrightarrow> P t"
  by (auto split: if_splits)

lemma eb_ids:
  "eb_reach b \<Longrightarrow> - 1 \<le> eb_id b \<and> (\<forall>t n. eb_type_subscribers b t = Some n \<longrightarrow> 0 \<le> n \<and> n \<le> eb_id b)
     \<and> (\<forall>t t' n. eb_type_subscribers b t = Some n \<longrightarrow> eb_type_subscribers b t' = Some n \<longrightarrow> t = t')"
proof (induction rule: eb_reach.induct)
  case 1
  then show ?case by (simp add: EventBus_ctor_def)
next
  case (2 b t c)
  let ?b = "snd (eb_subscribe t c b)"
  have id: "eb_id ?b = eb_id b + 1" and ty: "eb_type_subscribers ?b = (eb_type_subscribers b)(t \<mapsto> eb_id b + 1)"
    by (simp_all add: eb_subscribe_def Let_def)
  have old: "0 \<le> n \<and> n < eb_id b + 1" if "eb_type_subscribers b u = Some n" for u n
    using 2 that by fastforce
  have "- 1 \<le> eb_id ?b" using 2 by (simp add: id)
  moreover have "0 \<le> n \<and> n \<le> eb_id ?b" if "eb_type_subscribers ?b u = Some n" for u n
    using that old[of u n] conjunct1[OF "2.IH"] by (auto simp: id ty split: if_splits)
  moreover have "u = u'" if "eb_type_subscribers ?b u = Some n" "eb_type_subscribers ?b u' = Some n" for u u' n
    using that old[of u n] old[of u' n] conjunct2[OF conjunct2[OF "2.IH"]] by (auto simp: ty split: if_splits)
  ultimately show ?case by simp
next
  case (3 b n)
  then show ?case by (auto simp: eb_unsubscribe_def split: option.splits)
qed

lemma unsubscribe_newest:
  assumes "eb_reach b" "eb_type_subscribers b t = Some n"
  shows "eb_unsubscribe n b = b\<lparr>eb_subscribers := (eb_subscribers b)(t := None),
    eb_type_subscribers := (eb_type_subscribers b)(t := None)\<rparr>"
proof (cases "find (\<lambda>t. eb_type_subscribers b t = Some n) [MultiObjOutput, HumanPointOutput, SeatbeltOutput]")
  case None
  then show ?thesis using assms(2) unfolding find_topic by blast
next
  case (Some u)
  then have "u = t" using find_topicD[OF Some] eb_ids[OF assms(1)] assms(2) by blast
  then show ?thesis using Some by (simp add: eb_unsubscribe_def)
qed

lemma unsubscribe_other:
  "\<forall>t. eb_type_subscribers b t \<noteq> Some n \<Longrightarrow> eb_unsubscribe n b = b"
  using find_topic[of "\<lambda>t. eb_type_subscribers b t = Some n"] by (simp add: eb_unsubscribe_def)

lemma subscribe_unique_handle:
  "subscribe_unique t c b = (\<lparr>sh_bus = True, sh_id = - 1\<rparr>, snd (eb_subscribe t c b))"
  by (simp add: subscribe_unique_def eb_subscribe_def Handle_move_def Handle_dtor_def Let_def)

lemma eb_subscribe_adds:
  "eb_subscribers (snd (eb_subscribe t c b)) u
     = (if u = t then Some (case eb_subscribers b t of None \<Rightarrow> [c] | Some cs \<Rightarrow> cs @ [c]) else eb_subscribers b u)"
  by (simp add: eb_subscribe_def Let_def split: option.splits)

lemma fold_res_hits: "x \<in> set xs \<Longrightarrow> (\<And>s. \<exists>e. h x s = Inl e) \<Longrightarrow> \<exists>e. fold_res h xs s = Inl e"
proof (induction xs arbitrary: s)
  case (Cons y xs)
  show ?case
  proof (cases "h y s")
    case (Inr t)
    then have "x \<noteq> y" using Cons.prems(2)[of s] by auto
    then have "x \<in> set xs" using Cons.prems(1) by simp
    then show ?thesis using Cons.IH[of t] Cons.prems(2) Inr by simp
  qed simp
qed simp

section \<open>Properties\<close>

text \<open>A handle unsubscribes everybody or nobody. In every state of the bus, destroying the handle
  of the last subscription of a message type removes all callbacks of that type, those of
  other subscribers included; destroying the handle of an earlier one changes nothing.\<close>

theorem handle_unsubscribes_all_or_nobody:
  assumes "eb_reach b" "eb_subscribe t c b = (h, b1)" "eb_subscribe t c' b1 = (h', b2)"
  shows "Handle_dtor h b2 = b2 \<and> eb_subscribers (Handle_dtor h' b2) t = None
    \<and> eb_subscribers b2 t = Some ((case eb_subscribers b t of None \<Rightarrow> [] | Some cs \<Rightarrow> cs) @ [c, c'])"
proof -
  let ?n = "eb_id b + 1"
  have b1: "b1 = snd (eb_subscribe t c b)" and b2: "b2 = snd (eb_subscribe t c' b1)"
    using assms(2,3) by (simp_all add: prod_eq_iff)
  have r: "eb_reach b2" 
    unfolding b2 b1 by (rule eb_reach.intros(2)[OF eb_reach.intros(2)[OF assms(1)]])
  have h: "h = \<lparr>sh_bus = True, sh_id = ?n\<rparr>" "h' = \<lparr>sh_bus = True, sh_id = ?n + 1\<rparr>"
    using assms(2,3) by (auto simp: eb_subscribe_def Let_def)
  have ty: "eb_type_subscribers b2 = (eb_type_subscribers b)(t \<mapsto> ?n + 1)"
    unfolding b2 b1 by (simp add: eb_subscribe_def Let_def)
  have id: "0 \<le> ?n" "\<forall>u. eb_type_subscribers b u \<noteq> Some ?n" using eb_ids[OF assms(1)] by fastforce+
  have "Handle_dtor h b2 = b2" using id unsubscribe_other[of b2 ?n] by (simp add: Handle_dtor_def h ty)
  moreover have "eb_subscribers (Handle_dtor h' b2) t = None"
    using id(1) unsubscribe_newest[OF r, of t "?n + 1"] by (simp add: Handle_dtor_def h ty)
  moreover have "eb_subscribers b2 t = Some ((case eb_subscribers b t of None \<Rightarrow> [] | Some cs \<Rightarrow> cs) @ [c, c'])"
    unfolding b2 b1 by (simp add: eb_subscribe_adds split: option.splits)
  ultimately show ?thesis by blast
qed

theorem handle_unsubscribes_all_or_nobody_witness:
  "\<exists>h h' (b2 :: callback EventBus). eb_subscribers b2 MultiObjOutput = Some [Human_on_multi 1, Seat_on_multi 2]
     \<and> Handle_dtor h b2 = b2 \<and> eb_subscribers (Handle_dtor h' b2) MultiObjOutput = None"
proof -
  obtain h b1 where 1: "eb_subscribe MultiObjOutput (Human_on_multi 1) EventBus_ctor = (h, b1)" by fastforce
  obtain h' b2 where 2: "eb_subscribe MultiObjOutput (Seat_on_multi 2) b1 = (h', b2)" by fastforce
  show ?thesis
    using handle_unsubscribes_all_or_nobody[OF eb_reach.intros(1) 1 2]
    by (intro exI[of _ h] exI[of _ h'] exI[of _ b2]) (simp add: EventBus_ctor_def)
qed

text \<open>A destroyed module is still called. The move constructor of the handle clears the id of
  the new handle instead of the old one, so the handle a module owns never unsubscribes:
  after a \<open>HumanPoint\<close> is destroyed, with its handle, its callback is still on the bus, and the
  next message of this type calls into the destroyed object.\<close>

theorem destroyed_module_is_still_called:
  assumes "HumanPoint_ctor x b = (h, b1)" "\<not> alive x"
  shows "Handle_dtor h b1 = b1 \<and> (\<exists>e. publish_multi alive (Handle_dtor h b1) data = Inl e)"
proof -
  have h: "h = \<lparr>sh_bus = True, sh_id = - 1\<rparr>" and b1: "b1 = snd (eb_subscribe MultiObjOutput (Human_on_multi x) b)"
    using assms(1) by (simp_all add: HumanPoint_ctor_def subscribe_unique_handle)
  obtain cs where cs: "eb_subscribers b1 MultiObjOutput = Some cs" "Human_on_multi x \<in> set cs"
    unfolding b1 eb_subscribe_adds by (cases "eb_subscribers b MultiObjOutput") auto
  have "\<exists>e. publish_multi alive b1 data = Inl e"
    unfolding publish_multi_def cs(1) option.case
    by (rule fold_res_hits[OF cs(2)]) (use assms(2) in \<open>simp add: alive_or_dangling_def\<close>)
  then show ?thesis by (simp add: Handle_dtor_def h)
qed

theorem destroyed_module_is_still_called_witness:
  "\<exists>h b1 e. HumanPoint_ctor 1 EventBus_ctor = (h, b1) \<and> publish_multi (\<lambda>_. False) (Handle_dtor h b1) 1 = Inl e"
proof -
  obtain h b1 where 1: "HumanPoint_ctor 1 EventBus_ctor = (h, b1)" by fastforce
  show ?thesis using destroyed_module_is_still_called[OF 1, of "\<lambda>_. False" 1] 1 by auto
qed

end
