(* ===== verification/Sockets.thy ===== *)
theory Sockets
  imports Logging
begin

unbundle bit_operations_syntax

text \<open>
  \<open>common/socket_utils.h\<close> and \<open>socket_utils.cpp\<close>: how sockets are made. The operating system
  is a parameter: a \<open>Kernel\<close> says what each system call returns on its arguments. The log
  calls of this file have as many arguments as placeholders and are left out.
\<close>

text \<open>The options the code sets, and the hints it gives to the resolver.\<close>

datatype SockOpt =
  TCP_NODELAY | IP_TTL | IP_ADD_MEMBERSHIP string | IP_MULTICAST_TTL | SO_TIMESTAMP | SO_REUSEADDR

record addrinfo =
  ai_dgram :: bool
  ai_passive :: bool
  ai_numerichost :: bool
  ai_numericserv :: bool

record Kernel =
  k_ifaddrs :: "(string \<times> bool \<times> string) list option"
  k_O_NONBLOCK :: "32 word"
  k_getfl :: "int \<Rightarrow> 32 word"
  k_setfl :: "int \<Rightarrow> 32 word \<Rightarrow> int"
  k_setsockopt :: "int \<Rightarrow> SockOpt \<Rightarrow> int \<Rightarrow> nat \<Rightarrow> int"
  k_getaddrinfo :: "addrinfo \<Rightarrow> string \<Rightarrow> string \<Rightarrow> int \<times> nat list"
  k_socket :: "nat \<Rightarrow> int"
  k_listen :: "int \<Rightarrow> nat \<Rightarrow> int"
  k_connect :: "int \<Rightarrow> nat \<Rightarrow> int"
  k_bind :: "int \<Rightarrow> nat option \<Rightarrow> int \<Rightarrow> int"
  k_error :: string
  k_would_block :: bool

definition MaxTCPServerBacklog :: nat where
  "MaxTCPServerBacklog = 1024"

section \<open>Small helpers\<close>

text \<open>The interfaces are (name, is it an IPv4 address, numeric address); \<open>None\<close> is failure.\<close>

definition getIfaceIP :: "Kernel \<Rightarrow> string \<Rightarrow> string" where
  "getIfaceIP K iface =
     (case k_ifaddrs K of
        None \<Rightarrow> []
      | Some ifaddr \<Rightarrow>
          (case find (\<lambda>(name, inet, addr). inet \<and> iface = name) ifaddr of
             None \<Rightarrow> [] | Some (name, inet, addr) \<Rightarrow> addr))"

definition setNonBlocking :: "Kernel \<Rightarrow> int \<Rightarrow> bool" where
  "setNonBlocking K fd =
     (let flags = k_getfl K fd
      in if flags = - 1 then False
         else if flags AND k_O_NONBLOCK K \<noteq> 0 then True
         else k_setfl K fd (flags OR k_O_NONBLOCK K) \<noteq> - 1)"

definition setNoDelay :: "Kernel \<Rightarrow> int \<Rightarrow> bool" where
  "setNoDelay K fd \<longleftrightarrow> k_setsockopt K fd TCP_NODELAY 1 4 \<noteq> - 1"

definition disableNagle :: "Kernel \<Rightarrow> int \<Rightarrow> bool" where
  "disableNagle K fd \<longleftrightarrow> k_setsockopt K fd TCP_NODELAY 1 4 \<noteq> - 1"

definition wouldBlock :: "Kernel \<Rightarrow> bool" where
  "wouldBlock K = k_would_block K"

text \<open>The parenthesis is misplaced: the comparison is the length argument (\<open>true\<close>, 1), and the
  result of the call itself is converted to \<open>bool\<close>.\<close>

definition setTTL :: "Kernel \<Rightarrow> int \<Rightarrow> int \<Rightarrow> bool" where
  "setTTL K fd ttl \<longleftrightarrow> k_setsockopt K fd IP_TTL ttl 1 \<noteq> 0"

definition join_group :: "Kernel \<Rightarrow> int \<Rightarrow> string \<Rightarrow> bool" where
  "join_group K fd ip \<longleftrightarrow> k_setsockopt K fd (IP_ADD_MEMBERSHIP ip) 0 8 \<noteq> - 1"

definition setMcastTTL :: "Kernel \<Rightarrow> int \<Rightarrow> int \<Rightarrow> bool" where
  "setMcastTTL K fd mcast_ttl \<longleftrightarrow> k_setsockopt K fd IP_MULTICAST_TTL mcast_ttl 4 \<noteq> - 1"

definition setSOTimestamp :: "Kernel \<Rightarrow> int \<Rightarrow> bool" where
  "setSOTimestamp K fd \<longleftrightarrow> k_setsockopt K fd SO_TIMESTAMP 1 4 \<noteq> - 1"

text \<open>\<open>atoi\<close>: blanks, a sign, digits.\<close>

definition atoi :: "string \<Rightarrow> int" where
  "atoi s =
     (let t = dropWhile (\<lambda>c. c = CHR '' '' \<or> c = CHR 0x09 \<or> c = CHR 0x0A) s;
          neg = (t \<noteq> [] \<and> hd t = CHR ''-'');
          u = (if t \<noteq> [] \<and> (hd t = CHR ''-'' \<or> hd t = CHR ''+'') then tl t else t);
          v = int (string_to_nat (takeWhile is_digit u))
      in if neg then - v else v)"

section \<open>The first \<open>createSocket\<close>\<close>

text \<open>The loop opens a socket for each resolved address and keeps the last one.\<close>

fun open_last :: "Kernel \<Rightarrow> nat list \<Rightarrow> int \<Rightarrow> int option" where
  "open_last K [] fd = Some fd"
| "open_last K (rp # rps) fd = (if k_socket K rp = - 1 then None else open_last K rps (k_socket K rp))"

definition createSocket ::
  "Kernel \<Rightarrow> string \<Rightarrow> string \<Rightarrow> int \<Rightarrow> bool \<Rightarrow> bool \<Rightarrow> bool \<Rightarrow> int \<Rightarrow> bool \<Rightarrow> int" where
  "createSocket K t_ip iface port is_udp is_blocking is_listening ttl needs_so_timestamp =
     (let ip = (if t_ip = [] then getIfaceIP K iface else t_ip);
          hints = \<lparr>ai_dgram = is_udp, ai_passive = is_listening,
                   ai_numerichost = (ip \<noteq> [] \<and> is_digit (hd ip)), ai_numericserv = True\<rparr>;
          (rc, result) = k_getaddrinfo K hints ip (int_to_string port)
      in if rc \<noteq> 0 then - 1
         else case open_last K result (- 1) of
           None \<Rightarrow> - 1
         | Some fd \<Rightarrow>
             if \<not> is_blocking \<and> \<not> setNonBlocking K fd then - 1
             else if \<not> is_blocking \<and> \<not> is_udp \<and> \<not> setNoDelay K fd then - 1
             else if is_listening \<and> k_setsockopt K fd SO_REUSEADDR 1 4 = - 1 then - 1
             else if \<not> is_udp \<and> is_listening \<and> k_listen K fd MaxTCPServerBacklog = - 1 then - 1
             else if is_udp \<and> ttl \<noteq> 0 \<and> atoi ip AND 0xe0 \<noteq> 0 \<and> \<not> setMcastTTL K fd ttl then - 1
             else if is_udp \<and> ttl \<noteq> 0 \<and> atoi ip AND 0xe0 = 0 \<and> \<not> setTTL K fd ttl then - 1
             else if needs_so_timestamp \<and> \<not> setSOTimestamp K fd then - 1
             else fd)"

section \<open>The second \<open>createSocket\<close>\<close>

record SocketCfg =
  cfg_ip :: string
  cfg_iface :: string
  cfg_port :: int
  cfg_is_udp :: bool
  cfg_is_listening :: bool
  cfg_needs_so_timestamp :: bool

definition SocketCfg_default :: SocketCfg where
  "SocketCfg_default = \<lparr>cfg_ip = [], cfg_iface = [], cfg_port = - 1, cfg_is_udp = False,
     cfg_is_listening = False, cfg_needs_so_timestamp = False\<rparr>"

definition bool_text :: "bool \<Rightarrow> string" where
  "bool_text b = (if b then ''1'' else ''0'')"

definition SocketCfg_toString :: "SocketCfg \<Rightarrow> string" where
  "SocketCfg_toString c =
     ''SocketCfg[ip:'' @ cfg_ip c @ '' iface:'' @ cfg_iface c
     @ '' port:'' @ int_to_string (cfg_port c) @ '' is_udp:'' @ bool_text (cfg_is_udp c)
     @ '' is_listening:'' @ bool_text (cfg_is_listening c)
     @ '' needs_SO_timestamp:'' @ bool_text (cfg_needs_so_timestamp c) @ '']''"

text \<open>One resolved address: the body of the loop.\<close>

definition setup_address :: "Kernel \<Rightarrow> SocketCfg \<Rightarrow> nat \<Rightarrow> int \<Rightarrow> int res" where
  "setup_address K cfg rp old_fd =
     (let fd = k_socket K rp
      in bindr (ASSERT (fd \<noteq> - 1) (''socket() failed. errno:'' @ k_error K)) (\<lambda>_.
         bindr (ASSERT (setNonBlocking K fd) (''setNonBlocking() failed. errno:'' @ k_error K)) (\<lambda>_.
         bindr (if \<not> cfg_is_udp cfg
                then ASSERT (disableNagle K fd) (''disableNagle() failed. errno:'' @ k_error K)
                else Inr ()) (\<lambda>_.
         bindr (if \<not> cfg_is_listening cfg
                then ASSERT (k_connect K fd rp \<noteq> 1) (''connect() failed. errno:'' @ k_error K)
                else Inr ()) (\<lambda>_.
         bindr (if cfg_is_listening cfg
                then ASSERT (k_setsockopt K fd SO_REUSEADDR 1 4 = 0)
                       (''setsockopt() SO_REUSEADDR failed. errno:'' @ k_error K)
                else Inr ()) (\<lambda>_.
         bindr (if cfg_is_listening cfg
                then ASSERT (k_bind K fd (if cfg_is_udp cfg then None else Some rp) (cfg_port cfg) = 0)
                       (''bind() failed. errno:'' @ k_error K)
                else Inr ()) (\<lambda>_.
         bindr (if \<not> cfg_is_udp cfg \<and> cfg_is_listening cfg
                then ASSERT (k_listen K fd MaxTCPServerBacklog = 0)
                       (''listen() failed. errno:'' @ k_error K)
                else Inr ()) (\<lambda>_.
         bindr (if cfg_needs_so_timestamp cfg
                then ASSERT (setSOTimestamp K fd) (''setSOTimestamp() failed. errno:'' @ k_error K)
                else Inr ()) (\<lambda>_. Inr fd)))))))))"

definition createSocket_cfg :: "Kernel \<Rightarrow> SocketCfg \<Rightarrow> int res" where
  "createSocket_cfg K cfg =
     (let ip = (if cfg_ip cfg = [] then getIfaceIP K (cfg_iface cfg) else cfg_ip cfg);
          hints = \<lparr>ai_dgram = cfg_is_udp cfg, ai_passive = cfg_is_listening cfg,
                   ai_numerichost = True, ai_numericserv = True\<rparr>;
          (rc, result) = k_getaddrinfo K hints ip (int_to_string (cfg_port cfg))
      in bindr (ASSERT (rc = 0) (''getaddrinfo() failed. error:'' @ k_error K)) (\<lambda>_.
         fold_res (setup_address K cfg) result (- 1)))"

section \<open>What the socket of a TCP endpoint is not\<close>

text \<open>The first \<open>createSocket\<close> never binds or connects what it opens.\<close>

lemma kernel_frames:
  fixes K :: Kernel and f :: "int \<Rightarrow> nat option \<Rightarrow> int \<Rightarrow> int" and g :: "int \<Rightarrow> nat \<Rightarrow> int"
  defines "K' \<equiv> K\<lparr>k_bind := f, k_connect := g\<rparr>"
  shows "open_last K' = open_last K" "getIfaceIP K' = getIfaceIP K"
    "setNonBlocking K' = setNonBlocking K" "setNoDelay K' = setNoDelay K"
    "setMcastTTL K' = setMcastTTL K" "setTTL K' = setTTL K" "setSOTimestamp K' = setSOTimestamp K"
    "k_getaddrinfo K' = k_getaddrinfo K" "k_setsockopt K' = k_setsockopt K"
    "k_listen K' = k_listen K"
proof -
  have "open_last K' rps fd = open_last K rps fd" for rps fd
    by (induction rps arbitrary: fd) (simp_all add: K'_def)
  then show "open_last K' = open_last K" by blast
qed (auto simp: K'_def getIfaceIP_def setNonBlocking_def setNoDelay_def setMcastTTL_def setTTL_def
      setSOTimestamp_def fun_eq_iff)

lemma createSocket_frame:
  "createSocket (K\<lparr>k_bind := f, k_connect := g\<rparr>) = createSocket K"
  by (intro ext) (unfold createSocket_def kernel_frames, rule refl)

end
