(* ===== verification/Wire.thy ===== *)
theory Wire
  imports Messages
begin

text \<open>
  The layout of the messages in memory and on the wire: the structs of
  \<open>exchange/order_server/client_request.h\<close>, \<open>client_response.h\<close> and
  \<open>exchange/market_data/market_update.h\<close> are declared under \<open>#pragma pack(push, 1)\<close>, so a
  message is its fields one after the other, each little endian; programs copy it with
  \<open>memcpy\<close> and read it back with \<open>reinterpret_cast\<close>. The locale \<open>codec\<close> is the contract of
  such a format, interpreted for each of the message types.
\<close>

type_synonym byte = "8 word"

section \<open>Little-endian integers\<close>

fun le_bytes :: "nat \<Rightarrow> nat \<Rightarrow> byte list" where
  "le_bytes 0 x = []"
| "le_bytes (Suc n) x = of_nat x # le_bytes n (x div 256)"

fun le_val :: "byte list \<Rightarrow> nat" where
  "le_val [] = 0"
| "le_val (b # bs) = unat b + 256 * le_val bs"

lemma length_le_bytes [simp]: "length (le_bytes n x) = n"
  by (induction n arbitrary: x) auto

lemma le_val_bytes: "x < 256 ^ n \<Longrightarrow> le_val (le_bytes n x) = x"
proof (induction n arbitrary: x)
  case (Suc n)
  have "x div 256 < 256 ^ n" using Suc.prems by (simp add: less_mult_imp_div_less mult.commute)
  then show ?case using Suc.IH by (simp add: unat_of_nat)
qed simp

lemma le_val_less: "le_val bs < 256 ^ length bs"
proof (induction bs)
  case (Cons b bs)
  have "unat b < 256" using unsigned_less[of b] by simp
  then show ?case using Cons by simp
qed simp

lemma le_bytes_val: "le_bytes (length bs) (le_val bs) = bs"
proof (induction bs)
  case (Cons b bs)
  have "unat b < 256" using unsigned_less[of b] by simp
  then have "(unat b + 256 * le_val bs) div 256 = le_val bs" by simp
  moreover have "(of_nat (256 * le_val bs) :: byte) = 0"
    unfolding word_of_nat_eq_0_iff by simp
  ultimately show ?case using Cons by (simp add: of_nat_add)
qed simp

definition put64 :: "64 word \<Rightarrow> byte list" where
  "put64 w = le_bytes 8 (unat w)"

definition put32 :: "32 word \<Rightarrow> byte list" where
  "put32 w = le_bytes 4 (unat w)"

definition get64 :: "byte list \<Rightarrow> 64 word" where
  "get64 bs = of_nat (le_val (take 8 bs))"

definition get32 :: "byte list \<Rightarrow> 32 word" where
  "get32 bs = of_nat (le_val (take 4 bs))"

lemma put_length [simp]: "length (put64 w) = 8" "length (put32 v) = 4"
  by (simp_all add: put64_def put32_def)

lemma get_put [simp]: "get64 (put64 w @ bs) = w" "get32 (put32 v @ bs) = v"
  "get64 (put64 w) = w" "get32 (put32 v) = v"
proof -
  have "unat w < 256 ^ 8" "unat v < 256 ^ 4"
    using unsigned_less[of w] unsigned_less[of v] by simp_all
  then show "get64 (put64 w @ bs) = w" "get32 (put32 v @ bs) = v" "get64 (put64 w) = w"
    "get32 (put32 v) = v"
    by (simp_all add: get64_def get32_def put64_def put32_def le_val_bytes)
qed

lemma put_get: "8 \<le> length bs \<Longrightarrow> put64 (get64 bs) = take 8 bs"
  "4 \<le> length bs \<Longrightarrow> put32 (get32 bs) = take 4 bs"
proof -
  assume l: "8 \<le> length bs"
  have "le_val (take 8 bs) < 256 ^ 8" using le_val_less[of "take 8 bs"] l by simp
  then show "put64 (get64 bs) = take 8 bs"
    using le_bytes_val[of "take 8 bs"] l by (simp add: put64_def get64_def unat_of_nat)
next
  assume l: "4 \<le> length bs"
  have "le_val (take 4 bs) < 256 ^ 4" using le_val_less[of "take 4 bs"] l by simp
  then show "put32 (get32 bs) = take 4 bs"
    using le_bytes_val[of "take 4 bs"] l by (simp add: put32_def get32_def unat_of_nat)
qed

section \<open>The contract of a format\<close>

text \<open>What the code relies on when it copies a packed structure into a buffer or reads one out of it.\<close>

locale codec =
  fixes enc :: "'m \<Rightarrow> byte list"
    and dec :: "byte list \<Rightarrow> 'm"
    and sz :: nat
    and canon :: "'m \<Rightarrow> bool"
  assumes enc_length: "length (enc m) = sz"
    and sz_pos: "0 < sz"
    and dec_enc: "canon m \<Longrightarrow> dec (enc m) = m"
    and enc_dec: "length bs = sz \<Longrightarrow> enc (dec bs) = bs"
begin

lemma enc_inject: "canon m \<Longrightarrow> canon m' \<Longrightarrow> enc m = enc m' \<longleftrightarrow> m = m'"
  using dec_enc by metis

end

section \<open>The enumerations\<close>

fun clientRequestType_byte :: "ClientRequestType \<Rightarrow> byte" where
  "clientRequestType_byte CRT_INVALID = 0"
| "clientRequestType_byte CRT_NEW = 1"
| "clientRequestType_byte CRT_CANCEL = 2"
| "clientRequestType_byte (CRT_other b) = b"

definition clientRequestType_of :: "byte \<Rightarrow> ClientRequestType" where
  "clientRequestType_of b =
     (if b = 0 then CRT_INVALID else if b = 1 then CRT_NEW else if b = 2 then CRT_CANCEL
      else CRT_other b)"

fun clientResponseType_byte :: "ClientResponseType \<Rightarrow> byte" where
  "clientResponseType_byte CRS_INVALID = 0"
| "clientResponseType_byte CRS_ACCEPTED = 1"
| "clientResponseType_byte CRS_CANCELED = 2"
| "clientResponseType_byte CRS_FILLED = 3"
| "clientResponseType_byte CRS_CANCEL_REJECTED = 4"
| "clientResponseType_byte (CRS_other b) = b"

definition clientResponseType_of :: "byte \<Rightarrow> ClientResponseType" where
  "clientResponseType_of b =
     (if b = 0 then CRS_INVALID else if b = 1 then CRS_ACCEPTED else if b = 2 then CRS_CANCELED
      else if b = 3 then CRS_FILLED else if b = 4 then CRS_CANCEL_REJECTED else CRS_other b)"

fun marketUpdateType_byte :: "MarketUpdateType \<Rightarrow> byte" where
  "marketUpdateType_byte MUT_INVALID = 0"
| "marketUpdateType_byte MUT_CLEAR = 1"
| "marketUpdateType_byte MUT_ADD = 2"
| "marketUpdateType_byte MUT_MODIFY = 3"
| "marketUpdateType_byte MUT_CANCEL = 4"
| "marketUpdateType_byte MUT_TRADE = 5"
| "marketUpdateType_byte MUT_SNAPSHOT_START = 6"
| "marketUpdateType_byte MUT_SNAPSHOT_END = 7"
| "marketUpdateType_byte (MUT_other b) = b"

definition marketUpdateType_of :: "byte \<Rightarrow> MarketUpdateType" where
  "marketUpdateType_of b =
     (if b = 0 then MUT_INVALID else if b = 1 then MUT_CLEAR else if b = 2 then MUT_ADD
      else if b = 3 then MUT_MODIFY else if b = 4 then MUT_CANCEL else if b = 5 then MUT_TRADE
      else if b = 6 then MUT_SNAPSHOT_START else if b = 7 then MUT_SNAPSHOT_END
      else MUT_other b)"

lemma type_byte_of [simp]:
  "clientRequestType_byte (clientRequestType_of b) = b"
  "clientResponseType_byte (clientResponseType_of b) = b"
  "marketUpdateType_byte (marketUpdateType_of b) = b"
  by (simp_all add: clientRequestType_of_def clientResponseType_of_def marketUpdateType_of_def)

section \<open>The messages\<close>

definition encode_MEClientRequest :: "MEClientRequest \<Rightarrow> byte list" where
  "encode_MEClientRequest r =
     clientRequestType_byte (rq_type r) # put32 (rq_client_id r) @ put32 (rq_ticker_id r)
     @ put64 (rq_order_id r) @ side_byte (rq_side r) # put64 (rq_price r) @ put32 (rq_qty r)"

definition decode_MEClientRequest :: "byte list \<Rightarrow> MEClientRequest" where
  "decode_MEClientRequest bs =
     \<lparr>rq_type = clientRequestType_of (bs ! 0), rq_client_id = get32 (drop 1 bs),
      rq_ticker_id = get32 (drop 5 bs), rq_order_id = get64 (drop 9 bs),
      rq_side = side_of_byte (bs ! 17), rq_price = get64 (drop 18 bs),
      rq_qty = get32 (drop 26 bs)\<rparr>"

definition encode_OMClientRequest :: "OMClientRequest \<Rightarrow> byte list" where
  "encode_OMClientRequest r = put64 (omrq_seq_num r) @ encode_MEClientRequest (me_client_request r)"

definition decode_OMClientRequest :: "byte list \<Rightarrow> OMClientRequest" where
  "decode_OMClientRequest bs =
     \<lparr>omrq_seq_num = get64 bs, me_client_request = decode_MEClientRequest (drop 8 bs)\<rparr>"

definition encode_MEClientResponse :: "MEClientResponse \<Rightarrow> byte list" where
  "encode_MEClientResponse r =
     clientResponseType_byte (rs_type r) # put32 (rs_client_id r) @ put32 (rs_ticker_id r)
     @ put64 (rs_client_order_id r) @ put64 (rs_market_order_id r)
     @ side_byte (rs_side r) # put64 (rs_price r) @ put32 (rs_exec_qty r) @ put32 (rs_leaves_qty r)"

definition decode_MEClientResponse :: "byte list \<Rightarrow> MEClientResponse" where
  "decode_MEClientResponse bs =
     \<lparr>rs_type = clientResponseType_of (bs ! 0), rs_client_id = get32 (drop 1 bs),
      rs_ticker_id = get32 (drop 5 bs), rs_client_order_id = get64 (drop 9 bs),
      rs_market_order_id = get64 (drop 17 bs), rs_side = side_of_byte (bs ! 25),
      rs_price = get64 (drop 26 bs), rs_exec_qty = get32 (drop 34 bs),
      rs_leaves_qty = get32 (drop 38 bs)\<rparr>"

definition encode_OMClientResponse :: "OMClientResponse \<Rightarrow> byte list" where
  "encode_OMClientResponse r =
     put64 (omrs_seq_num r) @ encode_MEClientResponse (me_client_response r)"

definition decode_OMClientResponse :: "byte list \<Rightarrow> OMClientResponse" where
  "decode_OMClientResponse bs =
     \<lparr>omrs_seq_num = get64 bs, me_client_response = decode_MEClientResponse (drop 8 bs)\<rparr>"

definition encode_MEMarketUpdate :: "MEMarketUpdate \<Rightarrow> byte list" where
  "encode_MEMarketUpdate u =
     marketUpdateType_byte (mu_type u) # put64 (mu_order_id u) @ put32 (mu_ticker_id u)
     @ side_byte (mu_side u) # put64 (mu_price u) @ put32 (mu_qty u) @ put64 (mu_priority u)"

definition decode_MEMarketUpdate :: "byte list \<Rightarrow> MEMarketUpdate" where
  "decode_MEMarketUpdate bs =
     \<lparr>mu_type = marketUpdateType_of (bs ! 0), mu_order_id = get64 (drop 1 bs),
      mu_ticker_id = get32 (drop 9 bs), mu_side = side_of_byte (bs ! 13),
      mu_price = get64 (drop 14 bs), mu_qty = get32 (drop 22 bs),
      mu_priority = get64 (drop 26 bs)\<rparr>"

definition encode_MDPMarketUpdate :: "MDPMarketUpdate \<Rightarrow> byte list" where
  "encode_MDPMarketUpdate u = put64 (mdp_seq_num u) @ encode_MEMarketUpdate (me_market_update u)"

definition decode_MDPMarketUpdate :: "byte list \<Rightarrow> MDPMarketUpdate" where
  "decode_MDPMarketUpdate bs =
     \<lparr>mdp_seq_num = get64 bs, me_market_update = decode_MEMarketUpdate (drop 8 bs)\<rparr>"

section \<open>The formats meet the contract\<close>

text \<open>A value is canonical when no \<open>_other\<close> constructor stands for a named enumerator.\<close>

definition canon_request :: "MEClientRequest \<Rightarrow> bool" where
  "canon_request r \<longleftrightarrow> clientRequestType_of (clientRequestType_byte (rq_type r)) = rq_type r
     \<and> side_of_byte (side_byte (rq_side r)) = rq_side r"

definition canon_response :: "MEClientResponse \<Rightarrow> bool" where
  "canon_response r \<longleftrightarrow> clientResponseType_of (clientResponseType_byte (rs_type r)) = rs_type r
     \<and> side_of_byte (side_byte (rs_side r)) = rs_side r"

definition canon_update :: "MEMarketUpdate \<Rightarrow> bool" where
  "canon_update u \<longleftrightarrow> marketUpdateType_of (marketUpdateType_byte (mu_type u)) = mu_type u
     \<and> side_of_byte (side_byte (mu_side u)) = mu_side u"

lemmas get_put_drop = put_get nth_append drop_Cons' get_put

lemma list_split_nth: "n < length bs \<Longrightarrow> drop n bs = bs ! n # drop (Suc n) bs"
  by (simp add: Cons_nth_drop_Suc)

lemma take_drop_join: "take m (drop n bs) @ drop (n + m) bs = drop n bs"
  by (metis add.commute append_take_drop_id drop_drop)

interpretation request_codec: codec encode_MEClientRequest decode_MEClientRequest 30 canon_request
proof
  fix m assume "canon_request m"
  then show "decode_MEClientRequest (encode_MEClientRequest m) = m"
    by (simp add: decode_MEClientRequest_def encode_MEClientRequest_def canon_request_def
        nth_append drop_Cons')
next
  fix bs :: "byte list" assume l: "length bs = 30"
  have "bs ! 0 # take 4 (drop 1 bs) @ take 4 (drop 5 bs) @ take 8 (drop 9 bs)
      @ bs ! 17 # take 8 (drop 18 bs) @ take 4 (drop 26 bs) = bs"
  proof -
    have "bs = drop 0 bs" by simp
    also have "\<dots> = bs ! 0 # drop 1 bs" using l list_split_nth[of 0 bs] by simp
    also have "drop 1 bs = take 4 (drop 1 bs) @ drop 5 bs" using take_drop_join[of 4 1 bs] by simp
    also have "drop 5 bs = take 4 (drop 5 bs) @ drop 9 bs" using take_drop_join[of 4 5 bs] by simp
    also have "drop 9 bs = take 8 (drop 9 bs) @ drop 17 bs" using take_drop_join[of 8 9 bs] by simp
    also have "drop 17 bs = bs ! 17 # drop 18 bs" using l list_split_nth[of 17 bs] by simp
    also have "drop 18 bs = take 8 (drop 18 bs) @ drop 26 bs" using take_drop_join[of 8 18 bs] by simp
    also have "drop 26 bs = take 4 (drop 26 bs)" using l by simp
    finally show ?thesis by simp
  qed
  then show "encode_MEClientRequest (decode_MEClientRequest bs) = bs"
    using l by (simp add: decode_MEClientRequest_def encode_MEClientRequest_def put_get)
qed (simp_all add: encode_MEClientRequest_def)

interpretation response_codec: codec encode_MEClientResponse decode_MEClientResponse 42 canon_response
proof
  fix m assume "canon_response m"
  then show "decode_MEClientResponse (encode_MEClientResponse m) = m"
    by (simp add: decode_MEClientResponse_def encode_MEClientResponse_def canon_response_def
        nth_append drop_Cons')
next
  fix bs :: "byte list" assume l: "length bs = 42"
  have "bs ! 0 # take 4 (drop 1 bs) @ take 4 (drop 5 bs) @ take 8 (drop 9 bs)
      @ take 8 (drop 17 bs) @ bs ! 25 # take 8 (drop 26 bs) @ take 4 (drop 34 bs)
      @ take 4 (drop 38 bs) = bs"
  proof -
    have "bs = drop 0 bs" by simp
    also have "\<dots> = bs ! 0 # drop 1 bs" using l list_split_nth[of 0 bs] by simp
    also have "drop 1 bs = take 4 (drop 1 bs) @ drop 5 bs" using take_drop_join[of 4 1 bs] by simp
    also have "drop 5 bs = take 4 (drop 5 bs) @ drop 9 bs" using take_drop_join[of 4 5 bs] by simp
    also have "drop 9 bs = take 8 (drop 9 bs) @ drop 17 bs" using take_drop_join[of 8 9 bs] by simp
    also have "drop 17 bs = take 8 (drop 17 bs) @ drop 25 bs" using take_drop_join[of 8 17 bs] by simp
    also have "drop 25 bs = bs ! 25 # drop 26 bs" using l list_split_nth[of 25 bs] by simp
    also have "drop 26 bs = take 8 (drop 26 bs) @ drop 34 bs" using take_drop_join[of 8 26 bs] by simp
    also have "drop 34 bs = take 4 (drop 34 bs) @ drop 38 bs" using take_drop_join[of 4 34 bs] by simp
    also have "drop 38 bs = take 4 (drop 38 bs)" using l by simp
    finally show ?thesis by simp
  qed
  then show "encode_MEClientResponse (decode_MEClientResponse bs) = bs"
    using l by (simp add: decode_MEClientResponse_def encode_MEClientResponse_def put_get)
qed (simp_all add: encode_MEClientResponse_def)

interpretation update_codec: codec encode_MEMarketUpdate decode_MEMarketUpdate 34 canon_update
proof
  fix m assume "canon_update m"
  then show "decode_MEMarketUpdate (encode_MEMarketUpdate m) = m"
    by (simp add: decode_MEMarketUpdate_def encode_MEMarketUpdate_def canon_update_def
        nth_append drop_Cons')
next
  fix bs :: "byte list" assume l: "length bs = 34"
  have "bs ! 0 # take 8 (drop 1 bs) @ take 4 (drop 9 bs) @ bs ! 13 # take 8 (drop 14 bs)
      @ take 4 (drop 22 bs) @ take 8 (drop 26 bs) = bs"
  proof -
    have "bs = drop 0 bs" by simp
    also have "\<dots> = bs ! 0 # drop 1 bs" using l list_split_nth[of 0 bs] by simp
    also have "drop 1 bs = take 8 (drop 1 bs) @ drop 9 bs" using take_drop_join[of 8 1 bs] by simp
    also have "drop 9 bs = take 4 (drop 9 bs) @ drop 13 bs" using take_drop_join[of 4 9 bs] by simp
    also have "drop 13 bs = bs ! 13 # drop 14 bs" using l list_split_nth[of 13 bs] by simp
    also have "drop 14 bs = take 8 (drop 14 bs) @ drop 22 bs" using take_drop_join[of 8 14 bs] by simp
    also have "drop 22 bs = take 4 (drop 22 bs) @ drop 26 bs" using take_drop_join[of 4 22 bs] by simp
    also have "drop 26 bs = take 8 (drop 26 bs)" using l by simp
    finally show ?thesis by simp
  qed
  then show "encode_MEMarketUpdate (decode_MEMarketUpdate bs) = bs"
    using l by (simp add: decode_MEMarketUpdate_def encode_MEMarketUpdate_def put_get)
qed (simp_all add: encode_MEMarketUpdate_def)

text \<open>A message with its sequence number in front, over any message format.\<close>

lemma put64_split: "8 \<le> length bs \<Longrightarrow> put64 (get64 bs) @ drop 8 bs = bs"
  by (simp add: put_get)

interpretation om_request_codec: codec encode_OMClientRequest decode_OMClientRequest 38
  "\<lambda>r. canon_request (me_client_request r)"
proof
  fix bs :: "byte list" assume l: "length bs = 38"
  then show "encode_OMClientRequest (decode_OMClientRequest bs) = bs"
    using request_codec.enc_dec[of "drop 8 bs"] put64_split[of bs]
    by (simp add: encode_OMClientRequest_def decode_OMClientRequest_def)
qed (simp_all add: encode_OMClientRequest_def decode_OMClientRequest_def request_codec.enc_length
      request_codec.dec_enc)

interpretation om_response_codec: codec encode_OMClientResponse decode_OMClientResponse 50
  "\<lambda>r. canon_response (me_client_response r)"
proof
  fix bs :: "byte list" assume l: "length bs = 50"
  then show "encode_OMClientResponse (decode_OMClientResponse bs) = bs"
    using response_codec.enc_dec[of "drop 8 bs"] put64_split[of bs]
    by (simp add: encode_OMClientResponse_def decode_OMClientResponse_def)
qed (simp_all add: encode_OMClientResponse_def decode_OMClientResponse_def
      response_codec.enc_length response_codec.dec_enc)

interpretation mdp_codec: codec encode_MDPMarketUpdate decode_MDPMarketUpdate 42
  "\<lambda>u. canon_update (me_market_update u)"
proof
  fix bs :: "byte list" assume l: "length bs = 42"
  then show "encode_MDPMarketUpdate (decode_MDPMarketUpdate bs) = bs"
    using update_codec.enc_dec[of "drop 8 bs"] put64_split[of bs]
    by (simp add: encode_MDPMarketUpdate_def decode_MDPMarketUpdate_def)
qed (simp_all add: encode_MDPMarketUpdate_def decode_MDPMarketUpdate_def
      update_codec.enc_length update_codec.dec_enc)

end
