(* ===== verification/TcpSocket.thy ===== *)
theory TcpSocket
  imports Sockets Wire
begin

text \<open>
  \<open>common/tcp_socket.h\<close>, \<open>tcp_socket.cpp\<close>, \<open>common/mcast_socket.h\<close> and \<open>mcast_socket.cpp\<close>: a
  socket with its two buffers. A buffer is a function from the offset with the index of its
  first free byte, as in the code, so that bytes behind that index are stale, not absent.
  What the system calls return in one call of \<open>sendAndRecv\<close> is a \<open>NetIO\<close>; the receive
  callback is a parameter that may use the socket and a state of its own.
\<close>

section \<open>Buffers\<close>

definition buf_write :: "nat \<Rightarrow> byte list \<Rightarrow> (nat \<Rightarrow> byte) \<Rightarrow> (nat \<Rightarrow> byte)" where
  "buf_write i bs buf = (\<lambda>k. if i \<le> k \<and> k < i + length bs then bs ! (k - i) else buf k)"

definition buf_read :: "nat \<Rightarrow> nat \<Rightarrow> (nat \<Rightarrow> byte) \<Rightarrow> byte list" where
  "buf_read i n buf = map (\<lambda>k. buf (i + k)) [0..<n]"

text \<open>\<open>memcpy(buf + dst, buf + src, n)\<close> inside an array of \<open>cap\<close> bytes.\<close>

definition memcpy_within :: "nat \<Rightarrow> nat \<Rightarrow> nat \<Rightarrow> nat \<Rightarrow> (nat \<Rightarrow> byte) \<Rightarrow> (nat \<Rightarrow> byte) res" where
  "memcpy_within cap dst src n buf =
     (if cap < src + n \<or> cap < dst + n then Inl (Undefined ''memcpy out of bounds'')
      else if n \<noteq> 0 \<and> dst < src + n \<and> src < dst + n then Inl (Undefined ''memcpy of overlapping ranges'')
      else Inr (buf_write dst (buf_read src n buf) buf))"

lemma buf_read_write [simp]:
  "buf_read i (length bs) (buf_write i bs buf) = bs"
  unfolding buf_read_def buf_write_def by (rule nth_equalityI) simp_all

lemma length_buf_read [simp]: "length (buf_read i n buf) = n"
  by (simp add: buf_read_def)

lemma buf_read_append: "buf_read i (m + n) buf = buf_read i m buf @ buf_read (i + m) n buf"
  by (induction n) (simp_all add: buf_read_def add.assoc)

lemma buf_read_write_before: "i + n \<le> j \<Longrightarrow> buf_read i n (buf_write j bs buf) = buf_read i n buf"
  by (auto simp: buf_read_def buf_write_def)

lemma buf_read_snoc:
  "buf_read 0 (n + length bs) (buf_write n bs buf) = buf_read 0 n buf @ bs"
  unfolding buf_read_append by (simp add: buf_read_write_before)

lemma nth_buf_read: "k < n \<Longrightarrow> buf_read i n buf ! k = buf (i + k)"
  by (simp add: buf_read_def)

text \<open>A buffer that holds encoded messages, read message by message as the receive callbacks do.\<close>

context codec
begin

lemma read_frames:
  assumes "list_all canon ms" and "buf_read i (sz * length ms) buf = concat (map enc ms)"
  shows "map (\<lambda>j. dec (buf_read (i + sz * j) sz buf)) [0..<length ms] = ms"
  using assms
proof (induction ms arbitrary: i)
  case (Cons m ms)
  have "buf_read i sz buf @ buf_read (i + sz) (sz * length ms) buf = enc m @ concat (map enc ms)"
    using Cons.prems(2) by (simp flip: buf_read_append)
  then have b: "buf_read i sz buf = enc m" "buf_read (i + sz) (sz * length ms) buf = concat (map enc ms)"
    by (simp_all add: append_eq_append_conv enc_length)
  have "map (\<lambda>j. dec (buf_read (i + sz + sz * j) sz buf)) [0..<length ms] = ms"
    by (rule Cons.IH) (use Cons.prems(1) b(2) in simp_all)
  moreover have "[0..<length (m # ms)] = 0 # map Suc [0..<length ms]"
    by (simp add: upt_conv_Cons map_Suc_upt del: upt_Suc)
  ultimately show ?case
    using b(1) Cons.prems(1) by (simp add: dec_enc comp_def ac_simps del: upt_Suc)
qed simp

lemma fold_frames:
  assumes "list_all canon ms" and "buf_read 0 (sz * length ms) buf = concat (map enc ms)"
  shows "fold_res (\<lambda>i. h (dec (buf_read i sz buf))) (map (\<lambda>j. sz * j) [0..<length ms]) s = fold_res h ms s"
proof -
  have "fold_res (\<lambda>i. h (dec (buf_read i sz buf))) (map (\<lambda>j. sz * j) [0..<length ms]) s
      = fold_res h (map (\<lambda>j. dec (buf_read (0 + sz * j) sz buf)) [0..<length ms]) s"
    by (simp add: fold_res_map)
  then show ?thesis using read_frames[OF assms] by simp
qed

end

section \<open>The TCP socket\<close>

definition TCPBufferSize :: nat where
  "TCPBufferSize = 64 * 1024 * 1024"

record TCPSocket =
  fd :: int
  send_buffer :: "nat \<Rightarrow> byte"
  next_send_valid_index :: nat
  rcv_buffer :: "nat \<Rightarrow> byte"
  next_rcv_valid_index :: nat
  send_disconnected :: bool
  recv_disconnected :: bool

definition TCPSocket_ctor :: "(nat \<Rightarrow> byte) \<Rightarrow> (nat \<Rightarrow> byte) \<Rightarrow> TCPSocket" where
  "TCPSocket_ctor raw_send raw_rcv =
     \<lparr>fd = - 1, send_buffer = raw_send, next_send_valid_index = 0, rcv_buffer = raw_rcv,
      next_rcv_valid_index = 0, send_disconnected = False, recv_disconnected = False\<rparr>"

definition TCPSocket_destroy :: "TCPSocket \<Rightarrow> TCPSocket" where
  "TCPSocket_destroy s = s\<lparr>fd := - 1\<rparr>"

text \<open>The default callback only logs.\<close>

definition TCPSocket_defaultRecvCallback :: "TCPSocket \<Rightarrow> Nanos \<Rightarrow> 's \<Rightarrow> (TCPSocket \<times> 's) res" where
  "TCPSocket_defaultRecvCallback s rx_time st =
     bindr (log_call ''%:% %() % TCPSocket::defaultRecvCallback() socket:% len:% rx:%'' 7)
       (\<lambda>_. Inr (s, st))"

definition TCPSocket_connect ::
  "Kernel \<Rightarrow> string \<Rightarrow> string \<Rightarrow> int \<Rightarrow> bool \<Rightarrow> TCPSocket \<Rightarrow> int \<times> TCPSocket" where
  "TCPSocket_connect K ip iface port is_listening s =
     (let fd' = createSocket K ip iface port False False is_listening 0 True
      in (fd', (TCPSocket_destroy s)\<lparr>fd := fd'\<rparr>))"

text \<open>\<open>send\<close> copies without comparing with the size of the buffer.\<close>

definition TCPSocket_send :: "byte list \<Rightarrow> TCPSocket \<Rightarrow> TCPSocket res" where
  "TCPSocket_send data s =
     (if data = [] then Inr s
      else if TCPBufferSize < next_send_valid_index s + length data
      then Inl (Undefined ''write past the send buffer'')
      else Inr (s\<lparr>send_buffer := buf_write (next_send_valid_index s) data (send_buffer s),
                  next_send_valid_index := next_send_valid_index s + length data\<rparr>))"

text \<open>What the system does in one \<open>sendAndRecv\<close>: the bytes \<open>recvmsg\<close> delivers for the room it is
  given (none when it returns nothing or an error), the timestamp in the control message,
  what \<open>send\<close> returns for the bytes it is given, and the meaning of \<open>errno\<close>.\<close>

record NetIO =
  io_recv :: "nat \<Rightarrow> byte list"
  io_cmsg :: "(int \<times> int) option"
  io_send :: "byte list \<Rightarrow> int"
  io_would_block :: bool

definition NANOS_TO_MICROS :: int where "NANOS_TO_MICROS = 1000"
definition MICROS_TO_MILLIS :: int where "MICROS_TO_MILLIS = 1000"
definition MILLIS_TO_SECS :: int where "MILLIS_TO_SECS = 1000"
definition NANOS_TO_MILLIS :: int where "NANOS_TO_MILLIS = NANOS_TO_MICROS * MICROS_TO_MILLIS"
definition NANOS_TO_SECS :: int where "NANOS_TO_SECS = NANOS_TO_MILLIS * MILLIS_TO_SECS"

lemmas nanos_defs = NANOS_TO_MICROS_def MICROS_TO_MILLIS_def MILLIS_TO_SECS_def
  NANOS_TO_MILLIS_def NANOS_TO_SECS_def

definition cmsg_time :: "(int \<times> int) option \<Rightarrow> Nanos" where
  "cmsg_time c =
     (case c of None \<Rightarrow> 0
      | Some (tv_sec, tv_usec) \<Rightarrow> of_int (tv_sec * NANOS_TO_SECS + tv_usec * NANOS_TO_MICROS))"

text \<open>The send loop; \<open>n_send\<close> is what is still to be sent.\<close>

partial_function (option) tcp_send_loop :: "NetIO \<Rightarrow> nat \<Rightarrow> TCPSocket \<Rightarrow> TCPSocket res option" where
  "tcp_send_loop io n_send s =
     (if n_send = 0 then Some (Inr s)
      else let n_send_this_msg = min (next_send_valid_index s) n_send;
               n = io_send io (buf_read 0 n_send_this_msg (send_buffer s))
           in if n < 0
              then Some (Inr (if io_would_block io then s else s\<lparr>send_disconnected := True\<rparr>))
              else if n \<noteq> int n_send_this_msg
              then Some (Inl (Assert_failed ''Dont support partial send lengths yet.''))
              else tcp_send_loop io (n_send - nat n) s)"

definition TCPSocket_recv ::
  "NetIO \<Rightarrow> (TCPSocket \<Rightarrow> Nanos \<Rightarrow> 's \<Rightarrow> (TCPSocket \<times> 's) res) \<Rightarrow> TCPSocket \<Rightarrow> 's
    \<Rightarrow> (bool \<times> TCPSocket \<times> 's) res" where
  "TCPSocket_recv io recv_callback s st =
     (let room = TCPBufferSize - next_rcv_valid_index s;
          data = take room (io_recv io room)
      in if data = [] then Inr (False, s, st)
         else bindr (recv_callback
                (s\<lparr>rcv_buffer := buf_write (next_rcv_valid_index s) data (rcv_buffer s),
                   next_rcv_valid_index := next_rcv_valid_index s + length data\<rparr>)
                (cmsg_time (io_cmsg io)) st) (\<lambda>(s, st). Inr (True, s, st)))"

definition TCPSocket_sendAndRecv ::
  "NetIO \<Rightarrow> (TCPSocket \<Rightarrow> Nanos \<Rightarrow> 's \<Rightarrow> (TCPSocket \<times> 's) res) \<Rightarrow> TCPSocket \<Rightarrow> 's
    \<Rightarrow> (bool \<times> TCPSocket \<times> 's) res" where
  "TCPSocket_sendAndRecv io recv_callback s st =
     bindr (TCPSocket_recv io recv_callback s st) (\<lambda>(received, s, st).
     bindr (returned (tcp_send_loop io (min TCPBufferSize (next_send_valid_index s)) s)) (\<lambda>s.
     Inr (received, s\<lparr>next_send_valid_index := 0\<rparr>, st)))"

text \<open>The loop ends after one pass: a short write is an assertion, an error leaves the loop.\<close>

lemma tcp_send_loop_returns:
  assumes "n \<le> next_send_valid_index s"
  shows "\<exists>r. tcp_send_loop io n s = Some r"
  using assms by (subst tcp_send_loop.simps) (simp add: Let_def min_absorb2 tcp_send_loop.simps)

lemma tcp_send_loop_sends:
  assumes "0 < n" "n = next_send_valid_index s" "io_send io (buf_read 0 n (send_buffer s)) = int n"
  shows "tcp_send_loop io n s = Some (Inr s)"
  using assms by (subst tcp_send_loop.simps) (simp add: tcp_send_loop.simps)

lemma TCPSocket_send_bytes:
  assumes "next_send_valid_index s + length data \<le> TCPBufferSize"
  shows "\<exists>s'. TCPSocket_send data s = Inr s'
    \<and> buf_read 0 (next_send_valid_index s') (send_buffer s')
        = buf_read 0 (next_send_valid_index s) (send_buffer s) @ data
    \<and> next_send_valid_index s' = next_send_valid_index s + length data
    \<and> rcv_buffer s' = rcv_buffer s \<and> next_rcv_valid_index s' = next_rcv_valid_index s \<and> fd s' = fd s"
  using assms by (auto simp: TCPSocket_send_def buf_read_snoc)

section \<open>The multicast socket\<close>

definition McastBufferSize :: nat where
  "McastBufferSize = 64 * 1024 * 1024"

record McastSocket =
  socket_fd :: int
  outbound_data :: "nat \<Rightarrow> byte"
  mc_next_send_valid_index :: nat
  inbound_data :: "nat \<Rightarrow> byte"
  mc_next_rcv_valid_index :: nat

definition McastSocket_ctor :: McastSocket where
  "McastSocket_ctor = \<lparr>socket_fd = - 1, outbound_data = (\<lambda>_. 0), mc_next_send_valid_index = 0,
     inbound_data = (\<lambda>_. 0), mc_next_rcv_valid_index = 0\<rparr>"

definition McastSocket_init ::
  "Kernel \<Rightarrow> string \<Rightarrow> string \<Rightarrow> int \<Rightarrow> bool \<Rightarrow> McastSocket \<Rightarrow> (int \<times> McastSocket) res" where
  "McastSocket_init K ip iface port is_listening s =
     bindr (createSocket_cfg K \<lparr>cfg_ip = ip, cfg_iface = iface, cfg_port = port, cfg_is_udp = True,
              cfg_is_listening = is_listening, cfg_needs_so_timestamp = False\<rparr>) (\<lambda>fd'.
     Inr (fd', s\<lparr>socket_fd := fd'\<rparr>))"

definition McastSocket_join :: "Kernel \<Rightarrow> string \<Rightarrow> McastSocket \<Rightarrow> bool" where
  "McastSocket_join K ip s = join_group K (socket_fd s) ip"

definition McastSocket_leave :: "string \<Rightarrow> int \<Rightarrow> McastSocket \<Rightarrow> McastSocket" where
  "McastSocket_leave ip port s = s\<lparr>socket_fd := - 1\<rparr>"

text \<open>The bytes are copied before the index is checked.\<close>

definition McastSocket_send :: "byte list \<Rightarrow> McastSocket \<Rightarrow> McastSocket res" where
  "McastSocket_send data s =
     (if McastBufferSize < mc_next_send_valid_index s + length data
      then Inl (Undefined ''write past the send buffer'')
      else let s = s\<lparr>outbound_data := buf_write (mc_next_send_valid_index s) data (outbound_data s),
                     mc_next_send_valid_index := mc_next_send_valid_index s + length data\<rparr>
           in bindr (ASSERT (mc_next_send_valid_index s < McastBufferSize)
                ''Mcast socket buffer filled up and sendAndRecv() not called'') (\<lambda>_. Inr s))"

text \<open>The result of \<open>send\<close> is logged, not looked at; \<open>wire\<close> is what was handed to it.\<close>

definition McastSocket_sendAndRecv ::
  "NetIO \<Rightarrow> (McastSocket \<Rightarrow> 's \<Rightarrow> (McastSocket \<times> 's) res) \<Rightarrow> McastSocket \<Rightarrow> 's
    \<Rightarrow> (bool \<times> byte list \<times> McastSocket \<times> 's) res" where
  "McastSocket_sendAndRecv io recv_callback s st =
     (let room = McastBufferSize - mc_next_rcv_valid_index s;
          data = take room (io_recv io room)
      in bindr (if data = [] then Inr (s, st)
                else recv_callback
                  (s\<lparr>inbound_data := buf_write (mc_next_rcv_valid_index s) data (inbound_data s),
                     mc_next_rcv_valid_index := mc_next_rcv_valid_index s + length data\<rparr>) st) (\<lambda>(s, st).
         let wire = (if mc_next_send_valid_index s > 0
                     then buf_read 0 (mc_next_send_valid_index s) (outbound_data s) else [])
         in Inr (data \<noteq> [], wire, s\<lparr>mc_next_send_valid_index := 0\<rparr>, st)))"

definition mc_pending :: "McastSocket \<Rightarrow> byte list" where
  "mc_pending s = buf_read 0 (mc_next_send_valid_index s) (outbound_data s)"

lemma McastSocket_send_pending:
  assumes "mc_next_send_valid_index s + length data < McastBufferSize"
  shows "\<exists>s'. McastSocket_send data s = Inr s' \<and> mc_pending s' = mc_pending s @ data
    \<and> mc_next_send_valid_index s' = mc_next_send_valid_index s + length data"
  using assms by (simp add: McastSocket_send_def mc_pending_def buf_read_snoc)

lemma mc_pending_length: "length (mc_pending s) = mc_next_send_valid_index s"
  by (simp add: mc_pending_def)

end
