(* ===== verification/TcpServer.thy ===== *)
theory TcpServer
  imports TcpSocket
begin

text \<open>
  \<open>common/tcp_server.h\<close> and \<open>tcp_server.cpp\<close>: the listening socket, the accepted sockets and
  the lists that say which of them are read, written or dropped. An accepted socket is an
  object of a heap; a pointer in one of the lists is \<open>Listener\<close> (the member) or \<open>Conn n\<close>.
\<close>

datatype SockRef = Listener | Conn nat

record EpollEvent =
  ev_sock :: SockRef
  ev_in :: bool
  ev_err_hup :: bool

record Epoll =
  ep_create :: int
  ep_add :: "int \<Rightarrow> int"
  ep_wait :: "nat \<Rightarrow> EpollEvent list"
  ep_accept :: "int list"

record TCPServer =
  efd :: int
  listener_socket :: TCPSocket
  sockets :: "SockRef list"
  receive_sockets :: "SockRef list"
  send_sockets :: "SockRef list"
  disconnected_sockets :: "SockRef list"
  sock_heap :: "nat \<Rightarrow> TCPSocket"
  sock_next :: nat

definition TCPServer_ctor :: "TCPSocket \<Rightarrow> TCPServer" where
  "TCPServer_ctor raw =
     \<lparr>efd = - 1, listener_socket = TCPSocket_ctor (send_buffer raw) (rcv_buffer raw),
      sockets = [], receive_sockets = [], send_sockets = [], disconnected_sockets = [],
      sock_heap = (\<lambda>_. raw), sock_next = 0\<rparr>"

definition sock_at :: "TCPServer \<Rightarrow> SockRef \<Rightarrow> TCPSocket" where
  "sock_at t p = (case p of Listener \<Rightarrow> listener_socket t | Conn n \<Rightarrow> sock_heap t n)"

definition set_sock :: "SockRef \<Rightarrow> TCPSocket \<Rightarrow> TCPServer \<Rightarrow> TCPServer" where
  "set_sock p s t =
     (case p of Listener \<Rightarrow> t\<lparr>listener_socket := s\<rparr>
      | Conn n \<Rightarrow> t\<lparr>sock_heap := (sock_heap t)(n := s)\<rparr>)"

section \<open>The member functions\<close>

definition TCPServer_defaultRecvCallback :: "TCPSocket \<Rightarrow> Nanos \<Rightarrow> 's \<Rightarrow> (TCPSocket \<times> 's) res" where
  "TCPServer_defaultRecvCallback s rx_time st =
     bindr (log_call ''%:% %() % TCPServer::defaultRecvCallback() socket:% len:% rx:%'' 7)
       (\<lambda>_. Inr (s, st))"

definition TCPServer_defaultRecvFinishedCallback :: "'s \<Rightarrow> 's res" where
  "TCPServer_defaultRecvFinishedCallback st =
     bindr (log_call ''%:% %() % TCPServer::defaultRecvFinishedCallback()'' 4) (\<lambda>_. Inr st)"

definition TCPServer_destroy :: "TCPServer \<Rightarrow> TCPServer" where
  "TCPServer_destroy t =
     t\<lparr>efd := - 1, listener_socket := TCPSocket_destroy (listener_socket t)\<rparr>"

definition epoll_add :: "Epoll \<Rightarrow> SockRef \<Rightarrow> TCPServer \<Rightarrow> bool" where
  "epoll_add E p t \<longleftrightarrow> ep_add E (fd (sock_at t p)) \<noteq> - 1"

definition TCPServer_listen :: "Kernel \<Rightarrow> Epoll \<Rightarrow> string \<Rightarrow> int \<Rightarrow> TCPServer \<Rightarrow> TCPServer res" where
  "TCPServer_listen K E iface port t =
     (let t = (TCPServer_destroy t)\<lparr>efd := ep_create E\<rparr>
      in bindr (ASSERT (efd t > 0) (''epoll_create() failed error:'' @ k_error K)) (\<lambda>_.
         let (rc, s) = TCPSocket_connect K [] iface port True (listener_socket t);
             t = t\<lparr>listener_socket := s\<rparr>
         in bindr (ASSERT (rc \<ge> 0) (''Listener socket failed to connect. iface:'' @ iface
              @ '' port:'' @ int_to_string port @ '' error:'' @ k_error K)) (\<lambda>_.
            bindr (ASSERT (epoll_add E Listener t) (''epoll_add() failed. error:'' @ k_error K))
              (\<lambda>_. Inr t))))"

text \<open>The result of removing the socket from the epoll set is not looked at.\<close>

definition TCPServer_del :: "SockRef \<Rightarrow> TCPServer \<Rightarrow> TCPServer" where
  "TCPServer_del p t =
     t\<lparr>sockets := removeAll p (sockets t), receive_sockets := removeAll p (receive_sockets t),
       send_sockets := removeAll p (send_sockets t)\<rparr>"

definition push_new :: "'a \<Rightarrow> 'a list \<Rightarrow> 'a list" where
  "push_new x xs = (if x \<in> set xs then xs else xs @ [x])"

text \<open>One event; the flag is \<open>have_new_connection\<close>.\<close>

definition handle_event :: "EpollEvent \<Rightarrow> bool \<times> TCPServer \<Rightarrow> bool \<times> TCPServer" where
  "handle_event ev acc =
     (let (have_new, t) = acc
      in if ev_in ev \<and> ev_sock ev = Listener then (True, t)
         else let t = (if ev_in ev
                       then t\<lparr>receive_sockets := push_new (ev_sock ev) (receive_sockets t)\<rparr> else t);
                  t = (if ev_err_hup ev
                       then t\<lparr>disconnected_sockets := push_new (ev_sock ev) (disconnected_sockets t)\<rparr>
                       else t)
              in (have_new, t))"

text \<open>The accept loop, over what successive calls of \<open>accept\<close> return.\<close>

fun accept_loop :: "Kernel \<Rightarrow> Epoll \<Rightarrow> (nat \<Rightarrow> TCPSocket) \<Rightarrow> int list \<Rightarrow> TCPServer \<Rightarrow> TCPServer res" where
  "accept_loop K E raw [] t = Inr t"
| "accept_loop K E raw (afd # afds) t =
     (if afd = - 1 then Inr t
      else bindr (ASSERT (setNonBlocking K afd \<and> setNoDelay K afd)
             (''Failed to set non-blocking or no-delay on socket:'' @ int_to_string afd)) (\<lambda>_.
           let n = sock_next t; p = Conn n;
               s = (TCPSocket_ctor (send_buffer (raw n)) (rcv_buffer (raw n)))\<lparr>fd := afd\<rparr>;
               t = t\<lparr>sock_heap := (sock_heap t)(n := s), sock_next := n + 1\<rparr>
           in bindr (ASSERT (epoll_add E p t) (''Unable to add socket. error:'' @ k_error K)) (\<lambda>_.
              accept_loop K E raw afds
                (t\<lparr>sockets := push_new p (sockets t),
                   receive_sockets := push_new p (receive_sockets t)\<rparr>))))"

text \<open>\<open>events_\<close> has 1024 elements. The list of dropped sockets is never emptied.\<close>

definition TCPServer_poll :: "Kernel \<Rightarrow> Epoll \<Rightarrow> (nat \<Rightarrow> TCPSocket) \<Rightarrow> TCPServer \<Rightarrow> TCPServer res" where
  "TCPServer_poll K E raw t =
     (let max_events = 1 + length (sockets t);
          t = foldl (\<lambda>t p. TCPServer_del p t) t (disconnected_sockets t);
          events = take max_events (ep_wait E max_events)
      in if 1024 < length events then Inl (Undefined ''epoll_wait past the end of events_'')
         else let (have_new_connection, t) = foldl (\<lambda>acc ev. handle_event ev acc) (False, t) events
              in if have_new_connection then accept_loop K E raw (ep_accept E) t else Inr t)"

text \<open>One socket of one of the two loops of \<open>sendAndRecv\<close>.\<close>

definition serve_socket ::
  "(SockRef \<Rightarrow> NetIO) \<Rightarrow> (SockRef \<Rightarrow> TCPSocket \<Rightarrow> Nanos \<Rightarrow> 's \<Rightarrow> (TCPSocket \<times> 's) res) \<Rightarrow> SockRef
    \<Rightarrow> bool \<times> TCPServer \<times> 's \<Rightarrow> (bool \<times> TCPServer \<times> 's) res" where
  "serve_socket io recv_callback p acc =
     (let (recv, t, st) = acc
      in bindr (TCPSocket_sendAndRecv (io p) (recv_callback p) (sock_at t p) st) (\<lambda>(r, s, st).
         Inr (recv \<or> r, set_sock p s t, st)))"

definition TCPServer_sendAndRecv ::
  "(SockRef \<Rightarrow> NetIO) \<Rightarrow> (SockRef \<Rightarrow> TCPSocket \<Rightarrow> Nanos \<Rightarrow> 's \<Rightarrow> (TCPSocket \<times> 's) res)
    \<Rightarrow> ('s \<Rightarrow> 's res) \<Rightarrow> TCPServer \<Rightarrow> 's \<Rightarrow> (TCPServer \<times> 's) res" where
  "TCPServer_sendAndRecv io recv_callback recv_finished t st =
     bindr (fold_res (serve_socket io recv_callback) (receive_sockets t) (False, t, st)) (\<lambda>(recv, t, st).
     bindr (if recv then recv_finished st else Inr st) (\<lambda>st.
     bindr (fold_res (serve_socket io recv_callback) (send_sockets t) (False, t, st)) (\<lambda>(_, t, st).
     Inr (t, st))))"

section \<open>The lists\<close>

text \<open>No list names a socket twice, and every accepted socket was allocated.\<close>

definition server_wf :: "TCPServer \<Rightarrow> bool" where
  "server_wf t \<longleftrightarrow> distinct (sockets t) \<and> distinct (receive_sockets t)
     \<and> distinct (send_sockets t) \<and> distinct (disconnected_sockets t)
     \<and> (\<forall>p \<in> set (sockets t). \<exists>n < sock_next t. p = Conn n)"

lemma push_new_distinct [simp]: "distinct (push_new x xs) = distinct xs"
  by (simp add: push_new_def)

lemma push_new_set [simp]: "set (push_new x xs) = insert x (set xs)"
  by (auto simp: push_new_def)

lemma server_wf_del: "server_wf t \<Longrightarrow> server_wf (TCPServer_del p t)"
  by (auto simp: server_wf_def TCPServer_del_def distinct_removeAll)

lemma server_wf_dels: "server_wf t \<Longrightarrow> server_wf (foldl (\<lambda>t p. TCPServer_del p t) t ps)"
  by (induction ps arbitrary: t) (simp_all add: server_wf_del)

lemma server_wf_events:
  "server_wf t \<Longrightarrow> server_wf (snd (foldl (\<lambda>acc ev. handle_event ev acc) (b, t) evs))"
proof (induction evs arbitrary: b t)
  case (Cons ev evs)
  obtain b' t' where e: "handle_event ev (b, t) = (b', t')" by fastforce
  have "server_wf t'" using Cons.prems e
    by (auto simp: handle_event_def server_wf_def Let_def split: if_splits)
  then show ?case using Cons.IH e by simp
qed simp

lemma server_wf_accept:
  "server_wf t \<Longrightarrow> accept_loop K E raw afds t = Inr t' \<Longrightarrow> server_wf t'"
proof (induction afds arbitrary: t)
  case (Cons afd afds)
  show ?case
  proof (cases "afd = - 1")
    case True
    then show ?thesis using Cons.prems by simp
  next
    case False
    let ?n = "sock_next t"
    let ?t = "t\<lparr>sock_heap := (sock_heap t)(?n := (TCPSocket_ctor (send_buffer (raw ?n))
        (rcv_buffer (raw ?n)))\<lparr>fd := afd\<rparr>), sock_next := ?n + 1,
        sockets := push_new (Conn ?n) (sockets t),
        receive_sockets := push_new (Conn ?n) (receive_sockets t)\<rparr>"
    have "server_wf ?t" using Cons.prems(1) by (fastforce simp: server_wf_def)
    moreover have "accept_loop K E raw afds ?t = Inr t'"
      using Cons.prems(2) False by (auto simp: Let_def elim!: bindr_InrE)
    ultimately show ?thesis by (rule Cons.IH)
  qed
qed simp

lemma server_wf_poll:
  assumes "server_wf t" "TCPServer_poll K E raw t = Inr t'"
  shows "server_wf t'"
proof -
  let ?t = "foldl (\<lambda>t p. TCPServer_del p t) t (disconnected_sockets t)"
  let ?evs = "take (1 + length (sockets t)) (ep_wait E (1 + length (sockets t)))"
  obtain b u where e: "foldl (\<lambda>acc ev. handle_event ev acc) (False, ?t) ?evs = (b, u)"
    by fastforce
  have u: "server_wf u"
    using server_wf_events[OF server_wf_dels[OF assms(1), of "disconnected_sockets t"], of False ?evs] e
    by simp
  have "t' = u \<or> accept_loop K E raw (ep_accept E) u = Inr t'"
    using assms(2) e by (auto simp: TCPServer_poll_def Let_def split: if_splits)
  then show ?thesis using u server_wf_accept by blast
qed

text \<open>Nothing ever puts a socket on \<open>send_sockets\<close>.\<close>

lemma poll_send_sockets:
  assumes "TCPServer_poll K E raw t = Inr t'" "send_sockets t = []"
  shows "send_sockets t' = []"
proof -
  have d: "send_sockets t = [] \<Longrightarrow> send_sockets (foldl (\<lambda>t p. TCPServer_del p t) t ps) = []" for ps t
    by (induction ps arbitrary: t) (simp_all add: TCPServer_del_def)
  have ev: "send_sockets (snd (foldl (\<lambda>acc ev. handle_event ev acc) (b, t) evs)) = send_sockets t"
    for evs b t
  proof (induction evs arbitrary: b t)
    case (Cons ev evs)
    obtain b' t' where e: "handle_event ev (b, t) = (b', t')" by fastforce
    then have "send_sockets t' = send_sockets t"
      by (auto simp: handle_event_def Let_def split: if_splits)
    then show ?case using Cons.IH e by simp
  qed simp
  have acc: "accept_loop K E raw afds t = Inr t' \<Longrightarrow> send_sockets t' = send_sockets t" for afds t
    by (induction afds arbitrary: t) (auto simp: Let_def elim!: bindr_InrE split: if_splits)
  let ?t = "foldl (\<lambda>t p. TCPServer_del p t) t (disconnected_sockets t)"
  let ?evs = "take (1 + length (sockets t)) (ep_wait E (1 + length (sockets t)))"
  obtain b u where e: "foldl (\<lambda>acc ev. handle_event ev acc) (False, ?t) ?evs = (b, u)"
    by fastforce
  have "send_sockets u = []" using ev[of False ?t ?evs] e d[OF assms(2)] by simp
  moreover have "t' = u \<or> accept_loop K E raw (ep_accept E) u = Inr t'"
    using assms(1) e by (auto simp: TCPServer_poll_def Let_def split: if_splits)
  ultimately show ?thesis using acc by auto
qed

end
