(* ===== verification/OrderServer.thy ===== *)
theory OrderServer
  imports TcpServer "HOL-Library.Multiset"
begin

text \<open>
  \<open>exchange/order_server/fifo_sequencer.h\<close>, \<open>order_server.h\<close> and \<open>order_server.cpp\<close>: requests
  arrive on the clients' sockets, are checked against the client's socket and sequence
  number, put in the order of their receive times and published to the matching engine; the
  engine's responses go back to the sockets. The two log calls whose arguments do not match
  their format, \<open>recv_one\<close> and \<open>process_response\<close>, end the process, so the code behind them
  is modelled by definitions of its own.
\<close>

section \<open>The sequencer\<close>

definition ME_MAX_PENDING_REQUESTS :: nat where
  "ME_MAX_PENDING_REQUESTS = 1024"

record RecvTimeClientRequest =
  recv_time :: Nanos
  request :: MEClientRequest

definition recv_before :: "RecvTimeClientRequest \<Rightarrow> RecvTimeClientRequest \<Rightarrow> bool" where
  "recv_before a b \<longleftrightarrow> sint (recv_time a) < sint (recv_time b)"

text \<open>The first \<open>pending_size_\<close> elements of the array, and the queue it publishes to.\<close>

record FIFOSequencer =
  pending_client_requests :: "RecvTimeClientRequest list"
  incoming_requests :: ClientRequestLFQueue

definition FIFOSequencer_ctor :: "ClientRequestLFQueue \<Rightarrow> FIFOSequencer" where
  "FIFOSequencer_ctor client_requests =
     \<lparr>pending_client_requests = [], incoming_requests = client_requests\<rparr>"

definition addClientRequest :: "Nanos \<Rightarrow> MEClientRequest \<Rightarrow> FIFOSequencer \<Rightarrow> FIFOSequencer res" where
  "addClientRequest rx_time rq f =
     (if length (pending_client_requests f) \<ge> ME_MAX_PENDING_REQUESTS
      then FATAL ''Too many pending requests''
      else Inr (f\<lparr>pending_client_requests :=
             pending_client_requests f @ [\<lparr>recv_time = rx_time, request = rq\<rparr>]\<rparr>))"

text \<open>\<open>std::sort\<close> is a parameter: any function that sorts by the receive time; the standard
  does not say how it orders equal elements.\<close>

definition sorts_by_time :: "(RecvTimeClientRequest list \<Rightarrow> RecvTimeClientRequest list) \<Rightarrow> bool" where
  "sorts_by_time srt \<longleftrightarrow>
     (\<forall>xs. mset (srt xs) = mset xs \<and> sorted_wrt (\<lambda>a b. \<not> recv_before b a) (srt xs))"

definition sequenceAndPublish ::
  "(RecvTimeClientRequest list \<Rightarrow> RecvTimeClientRequest list) \<Rightarrow> FIFOSequencer \<Rightarrow> FIFOSequencer res" where
  "sequenceAndPublish srt f =
     (if pending_client_requests f = [] then Inr f
      else bindr (fold_res lfq_push (map request (srt (pending_client_requests f)))
                    (incoming_requests f)) (\<lambda>q.
           Inr (f\<lparr>pending_client_requests := [], incoming_requests := q\<rparr>)))"

section \<open>The order server\<close>

record OrderServer =
  os_iface :: string
  os_port :: int
  outgoing_responses :: ClientResponseLFQueue
  os_run :: bool
  cid_next_outgoing_seq_num :: "nat \<Rightarrow> 64 word"
  cid_next_exp_seq_num :: "nat \<Rightarrow> 64 word"
  cid_tcp_socket :: "nat \<Rightarrow> SockRef option"
  fifo_sequencer :: FIFOSequencer

definition OrderServer_ctor ::
  "ClientRequestLFQueue \<Rightarrow> ClientResponseLFQueue \<Rightarrow> string \<Rightarrow> int \<Rightarrow> OrderServer" where
  "OrderServer_ctor client_requests client_responses iface port =
     \<lparr>os_iface = iface, os_port = port, outgoing_responses = client_responses, os_run = False,
      cid_next_outgoing_seq_num = (\<lambda>_. 1), cid_next_exp_seq_num = (\<lambda>_. 1),
      cid_tcp_socket = (\<lambda>_. None), fifo_sequencer = FIFOSequencer_ctor client_requests\<rparr>"

definition OrderServer_start ::
  "Kernel \<Rightarrow> Epoll \<Rightarrow> (int \<Rightarrow> int) \<Rightarrow> TCPServer \<times> OrderServer \<Rightarrow> (TCPServer \<times> OrderServer) res" where
  "OrderServer_start K E aff st =
     (let os = (snd st)\<lparr>os_run := True\<rparr>
      in bindr (TCPServer_listen K E (os_iface os) (os_port os) (fst st)) (\<lambda>t.
         bindr (ASSERT (createAndStartThread aff (- 1)) ''Failed to start OrderServer thread.'') (\<lambda>_.
         Inr (t, os))))"

definition OrderServer_stop :: "OrderServer \<Rightarrow> OrderServer" where
  "OrderServer_stop os = os\<lparr>os_run := False\<rparr>"

text \<open>A request after the first log call of the loop's body.\<close>

definition accept_request :: "SockRef \<Rightarrow> Nanos \<Rightarrow> OMClientRequest \<Rightarrow> OrderServer \<Rightarrow> OrderServer res" where
  "accept_request p rx_time r os =
     (let c = unat (rq_client_id (me_client_request r))
      in bindr (sub_idx ME_MAX_NUM_CLIENTS c (cid_tcp_socket os)) (\<lambda>sk.
         let os = (if sk = None then os\<lparr>cid_tcp_socket := (cid_tcp_socket os)(c := Some p)\<rparr> else os)
         in if cid_tcp_socket os c \<noteq> Some p
            then bindr (log_call ''%:% %() % Received ClientRequest from ClientId:% on different socket:% expected:%'' 7)
                   (\<lambda>_. Inr os)
            else if omrq_seq_num r \<noteq> cid_next_exp_seq_num os c
            then bindr (log_call ''%:% %() % Incorrect sequence number. ClientId:% SeqNum expected:% received:%'' 7)
                   (\<lambda>_. Inr os)
            else let os = os\<lparr>cid_next_exp_seq_num :=
                          (cid_next_exp_seq_num os)(c := cid_next_exp_seq_num os c + 1)\<rparr>
                 in bindr (addClientRequest rx_time (me_client_request r) (fifo_sequencer os)) (\<lambda>f.
                    Inr (os\<lparr>fifo_sequencer := f\<rparr>))))"

text \<open>One iteration: five placeholders and four arguments.\<close>

definition recv_one :: "SockRef \<Rightarrow> Nanos \<Rightarrow> TCPSocket \<Rightarrow> nat \<Rightarrow> OrderServer \<Rightarrow> OrderServer res" where
  "recv_one p rx_time s i os =
     bindr (log_call ''%:% %() % Received %'' 4) (\<lambda>_.
     accept_request p rx_time (decode_OMClientRequest (buf_read i 38 (rcv_buffer s))) os)"

text \<open>Dropping the \<open>i\<close> bytes read: \<open>memcpy\<close> moves all valid bytes but one, whatever \<open>i\<close> is.\<close>

definition drop_consumed :: "nat \<Rightarrow> TCPSocket \<Rightarrow> TCPSocket res" where
  "drop_consumed i s =
     bindr (memcpy_within TCPBufferSize 0 i (next_rcv_valid_index s - 1) (rcv_buffer s)) (\<lambda>buf.
     Inr (s\<lparr>rcv_buffer := buf, next_rcv_valid_index := next_rcv_valid_index s - i\<rparr>))"

definition recvCallback ::
  "SockRef \<Rightarrow> TCPSocket \<Rightarrow> Nanos \<Rightarrow> OrderServer \<Rightarrow> (TCPSocket \<times> OrderServer) res" where
  "recvCallback p s rx_time os =
     bindr (log_call ''%:% %() % Received socket:% len:% rx:%'' 7) (\<lambda>_.
     if next_rcv_valid_index s \<ge> 38
     then let k = next_rcv_valid_index s div 38
          in bindr (fold_res (recv_one p rx_time s) (map (\<lambda>j. 38 * j) [0..<k]) os) (\<lambda>os.
             bindr (drop_consumed (38 * k) s) (\<lambda>s. Inr (s, os)))
     else Inr (s, os))"

definition recvFinishedCallback ::
  "(RecvTimeClientRequest list \<Rightarrow> RecvTimeClientRequest list) \<Rightarrow> OrderServer \<Rightarrow> OrderServer res" where
  "recvFinishedCallback srt os =
     bindr (sequenceAndPublish srt (fifo_sequencer os)) (\<lambda>f. Inr (os\<lparr>fifo_sequencer := f\<rparr>))"

text \<open>A response after the log call: the sequence number and the response go to the client's
  socket.\<close>

definition send_response ::
  "MEClientResponse \<Rightarrow> TCPServer \<times> OrderServer \<Rightarrow> (TCPServer \<times> OrderServer) res" where
  "send_response r st =
     (let (t, os) = st; c = unat (rs_client_id r); seq = cid_next_outgoing_seq_num os c
      in bindr (ASSERT (cid_tcp_socket os c \<noteq> None)
           (''Dont have a TCPSocket for ClientId:'' @ nat_to_string c)) (\<lambda>_.
         bindr (deref (cid_tcp_socket os c)) (\<lambda>p.
         bindr (TCPSocket_send (put64 seq) (sock_at t p)) (\<lambda>s.
         bindr (TCPSocket_send (encode_MEClientResponse r) s) (\<lambda>s.
         Inr (set_sock p s t,
              os\<lparr>cid_next_outgoing_seq_num := (cid_next_outgoing_seq_num os)(c := seq + 1)\<rparr>))))))"

text \<open>One iteration of the loop over the responses: six placeholders and seven arguments.\<close>

definition process_response ::
  "MEClientResponse \<Rightarrow> TCPServer \<times> OrderServer \<Rightarrow> (TCPServer \<times> OrderServer) res" where
  "process_response r st =
     bindr (sub_idx ME_MAX_NUM_CLIENTS (unat (rs_client_id r)) (cid_next_outgoing_seq_num (snd st))) (\<lambda>_.
     bindr (log_call ''%:% %() Processing cid:% seq:% %'' 7) (\<lambda>_.
     send_response r st))"

definition OrderServer_iteration ::
  "Kernel \<Rightarrow> Epoll \<Rightarrow> (nat \<Rightarrow> TCPSocket) \<Rightarrow> (SockRef \<Rightarrow> NetIO)
    \<Rightarrow> (RecvTimeClientRequest list \<Rightarrow> RecvTimeClientRequest list)
    \<Rightarrow> TCPServer \<times> OrderServer \<Rightarrow> (TCPServer \<times> OrderServer) res" where
  "OrderServer_iteration K E raw io srt st =
     bindr (TCPServer_poll K E raw (fst st)) (\<lambda>t.
     bindr (TCPServer_sendAndRecv io recvCallback (recvFinishedCallback srt) t (snd st)) (\<lambda>(t, os).
     bindr (returned (drain lfq_peek_sized updateReadIndex process_response
              (outgoing_responses os) (t, os))) (\<lambda>(q, t, os).
     Inr (t, os\<lparr>outgoing_responses := q\<rparr>))))"

section \<open>Sequencing\<close>

lemma sorts_by_time_sort_key: "sorts_by_time (sort_key (\<lambda>r. sint (recv_time r)))"
  unfolding sorts_by_time_def recv_before_def
  by (metis (no_types, lifting) linorder_not_le mset_sort sorted_map sorted_sort_key sorted_wrt_mono_rel)

text \<open>The requests of one client, in sequence, on its own socket.\<close>

definition seq_request :: "64 word \<Rightarrow> MEClientRequest \<Rightarrow> OMClientRequest" where
  "seq_request n r = \<lparr>omrq_seq_num = n, me_client_request = r\<rparr>"

fun number_from :: "64 word \<Rightarrow> MEClientRequest list \<Rightarrow> OMClientRequest list" where
  "number_from n [] = []"
| "number_from n (r # rs) = seq_request n r # number_from (n + 1) rs"

lemma accept_in_sequence:
  assumes "c < ME_MAX_NUM_CLIENTS" "\<forall>r \<in> set rs. unat (rq_client_id r) = c"
    and "cid_tcp_socket os c = None \<or> cid_tcp_socket os c = Some p"
    and "length (pending_client_requests (fifo_sequencer os)) + length rs \<le> ME_MAX_PENDING_REQUESTS"
  shows "\<exists>os'. fold_res (accept_request p rx) (number_from (cid_next_exp_seq_num os c) rs) os = Inr os'
    \<and> pending_client_requests (fifo_sequencer os')
        = pending_client_requests (fifo_sequencer os) @ map (\<lambda>r. \<lparr>recv_time = rx, request = r\<rparr>) rs
    \<and> cid_next_exp_seq_num os' c = cid_next_exp_seq_num os c + of_nat (length rs)
    \<and> (\<forall>d. d \<noteq> c \<longrightarrow> cid_next_exp_seq_num os' d = cid_next_exp_seq_num os d
           \<and> cid_tcp_socket os' d = cid_tcp_socket os d)
    \<and> (rs \<noteq> [] \<longrightarrow> cid_tcp_socket os' c = Some p)"
  using assms
proof (induction rs arbitrary: os)
  case (Cons r rs)
  have c: "unat (rq_client_id r) = c" using Cons.prems(2) by simp
  obtain os1 where os1: "accept_request p rx (seq_request (cid_next_exp_seq_num os c) r) os = Inr os1"
    "cid_tcp_socket os1 c = Some p" "cid_next_exp_seq_num os1 c = cid_next_exp_seq_num os c + 1"
    "pending_client_requests (fifo_sequencer os1)
      = pending_client_requests (fifo_sequencer os) @ [\<lparr>recv_time = rx, request = r\<rparr>]"
    "\<And>d. d \<noteq> c \<Longrightarrow> cid_next_exp_seq_num os1 d = cid_next_exp_seq_num os d
       \<and> cid_tcp_socket os1 d = cid_tcp_socket os d"
    using Cons.prems(1,3,4) c
    by (auto simp: accept_request_def seq_request_def Let_def addClientRequest_def)
  obtain os' where os': "fold_res (accept_request p rx) (number_from (cid_next_exp_seq_num os1 c) rs) os1 = Inr os'"
    "pending_client_requests (fifo_sequencer os')
        = pending_client_requests (fifo_sequencer os1) @ map (\<lambda>r. \<lparr>recv_time = rx, request = r\<rparr>) rs"
    "cid_next_exp_seq_num os' c = cid_next_exp_seq_num os1 c + of_nat (length rs)"
    "\<forall>d. d \<noteq> c \<longrightarrow> cid_next_exp_seq_num os' d = cid_next_exp_seq_num os1 d
           \<and> cid_tcp_socket os' d = cid_tcp_socket os1 d"
    "rs \<noteq> [] \<longrightarrow> cid_tcp_socket os' c = Some p"
    using Cons.IH[of os1] Cons.prems os1 by auto
  have "cid_tcp_socket os' c = Some p" using os'(1,5) os1(2) by (cases rs) auto
  then show ?case using os1 os'(1-4) by (simp add: add.assoc)
qed simp

text \<open>What is out of sequence or on another socket changes nothing but, at most, the table entry
  of a client seen for the first time.\<close>

lemma accept_rejects:
  assumes "unat (rq_client_id (me_client_request r)) = c" "c < ME_MAX_NUM_CLIENTS"
    and "(\<exists>q. cid_tcp_socket os c = Some q \<and> q \<noteq> p) \<or> omrq_seq_num r \<noteq> cid_next_exp_seq_num os c"
  shows "\<exists>os'. accept_request p rx r os = Inr os' \<and> fifo_sequencer os' = fifo_sequencer os
    \<and> cid_next_exp_seq_num os' = cid_next_exp_seq_num os"
  using assms by (auto simp: accept_request_def Let_def log_call_def)

text \<open>The order of publication.\<close>

lemma publish_sorted:
  assumes "sorts_by_time srt" "lfq_ok (incoming_requests f)"
    and "length (lfq_items (incoming_requests f)) + length (pending_client_requests f)
      \<le> lfq_capacity (incoming_requests f)"
  shows "\<exists>f' rs. sequenceAndPublish srt f = Inr f' \<and> pending_client_requests f' = []
    \<and> lfq_items (incoming_requests f') = lfq_items (incoming_requests f) @ map request rs
    \<and> mset rs = mset (pending_client_requests f) \<and> sorted_wrt (\<lambda>a b. \<not> recv_before b a) rs"
proof (cases "pending_client_requests f = []")
  case True
  then show ?thesis by (intro exI[of _ f] exI[of _ "[]"]) (simp add: sequenceAndPublish_def)
next
  case False
  let ?rs = "srt (pending_client_requests f)"
  have s: "mset ?rs = mset (pending_client_requests f)" "sorted_wrt (\<lambda>a b. \<not> recv_before b a) ?rs"
    using assms(1) by (simp_all add: sorts_by_time_def)
  have "length (lfq_items (incoming_requests f)) + length (map request ?rs)
      \<le> lfq_capacity (incoming_requests f)"
    using assms(3) mset_eq_length[OF s(1)] by simp
  from lfq.push_all[OF assms(2) this] show ?thesis
    using s False by (auto simp: sequenceAndPublish_def)
qed

end
