(* ===== verification/SnapshotSynthesizer.thy ===== *)
theory SnapshotSynthesizer
  imports TcpSocket MemoryPool
begin

text \<open>
  \<open>exchange/market_data/snapshot_synthesizer.h\<close> and \<open>snapshot_synthesizer.cpp\<close>: the thread that
  keeps the live orders of every ticker from the incremental updates and publishes them as a
  snapshot once a minute. The abstract state is one map per ticker from order ids to updates.
\<close>

record SnapshotSynthesizer =
  ss_updates :: MDPMarketUpdateLFQueue
  ss_run :: bool
  snapshot_socket :: McastSocket
  ticker_orders :: "nat \<Rightarrow> nat \<Rightarrow> ptr"
  last_inc_seq_num :: "64 word"
  last_snapshot_time :: Nanos
  ss_order_pool :: "MEMarketUpdate MemPool"

text \<open>The table has no initialiser: \<open>raw\<close> is what its memory held.\<close>

definition SnapshotSynthesizer_ctor ::
  "Kernel \<Rightarrow> (nat \<Rightarrow> nat \<Rightarrow> ptr) \<Rightarrow> MDPMarketUpdateLFQueue \<Rightarrow> string \<Rightarrow> string \<Rightarrow> int
    \<Rightarrow> SnapshotSynthesizer res" where
  "SnapshotSynthesizer_ctor K raw market_updates iface snapshot_ip snapshot_port =
     bindr (McastSocket_init K snapshot_ip iface snapshot_port False McastSocket_ctor) (\<lambda>(rc, sock).
     bindr (ASSERT (rc \<ge> 0) (''Unable to create snapshot mcast socket. error:'' @ k_error K)) (\<lambda>_.
     Inr \<lparr>ss_updates = market_updates, ss_run = False, snapshot_socket = sock, ticker_orders = raw,
          last_inc_seq_num = 0, last_snapshot_time = 0,
          ss_order_pool = MemPool_ctor MEMarketUpdate_default ME_MAX_ORDER_IDS\<rparr>))"

definition SnapshotSynthesizer_start ::
  "(int \<Rightarrow> int) \<Rightarrow> SnapshotSynthesizer \<Rightarrow> SnapshotSynthesizer res" where
  "SnapshotSynthesizer_start aff s =
     bindr (ASSERT (createAndStartThread aff (- 1)) ''Failed to start SnapshotSynthesizer thread.'')
       (\<lambda>_. Inr (s\<lparr>ss_run := True\<rparr>))"

definition SnapshotSynthesizer_stop :: "SnapshotSynthesizer \<Rightarrow> SnapshotSynthesizer" where
  "SnapshotSynthesizer_stop s = s\<lparr>ss_run := False\<rparr>"

definition SnapshotSynthesizer_dtor :: "SnapshotSynthesizer \<Rightarrow> SnapshotSynthesizer" where
  "SnapshotSynthesizer_dtor s = SnapshotSynthesizer_stop s"

section \<open>Applying an update\<close>

definition set_entry :: "nat \<Rightarrow> nat \<Rightarrow> ptr \<Rightarrow> SnapshotSynthesizer \<Rightarrow> SnapshotSynthesizer" where
  "set_entry t i p s =
     s\<lparr>ticker_orders := (ticker_orders s)(t := (ticker_orders s t)(i := p))\<rparr>"

text \<open>The entry of an existing order, checked against the update.\<close>

definition existing_order :: "MEMarketUpdate \<Rightarrow> SnapshotSynthesizer \<Rightarrow> nat res" where
  "existing_order u s =
     bindr (at_idx ME_MAX_ORDER_IDS (unat (mu_order_id u)) (ticker_orders s (unat (mu_ticker_id u)))) (\<lambda>p.
     bindr (ASSERT (p \<noteq> None) (''Received:'' @ MEMarketUpdate_toString u @ '' but order does not exist.'')) (\<lambda>_.
     bindr (deref p) (\<lambda>a.
     bindr (ASSERT (mu_order_id (obj (ss_order_pool s) a) = mu_order_id u)
              ''Expecting existing order to match new one.'') (\<lambda>_.
     bindr (ASSERT (mu_side (obj (ss_order_pool s) a) = mu_side u)
              ''Expecting existing order to match the new one.'') (\<lambda>_. Inr a)))))"

definition addToSnapshot :: "MDPMarketUpdate \<Rightarrow> SnapshotSynthesizer \<Rightarrow> SnapshotSynthesizer res" where
  "addToSnapshot m s =
     (let u = me_market_update m; t = unat (mu_ticker_id u); i = unat (mu_order_id u)
      in bindr (at_idx ME_MAX_TICKERS t (ticker_orders s)) (\<lambda>orders.
         bindr (case mu_type u of
                  MUT_ADD \<Rightarrow>
                    bindr (at_idx ME_MAX_ORDER_IDS i orders) (\<lambda>order.
                    bindr (ASSERT (order = None) (''Received:'' @ MEMarketUpdate_toString u
                        @ '' but order already exists:''
                        @ (case order of Some a \<Rightarrow> MEMarketUpdate_toString (obj (ss_order_pool s) a)
                           | None \<Rightarrow> []))) (\<lambda>_.
                    bindr (allocate u (ss_order_pool s)) (\<lambda>(a, pool).
                    Inr ((set_entry t i (Some a) s)\<lparr>ss_order_pool := pool\<rparr>))))
                | MUT_MODIFY \<Rightarrow>
                    bindr (existing_order u s) (\<lambda>a.
                    Inr (s\<lparr>ss_order_pool := upd_obj a
                      (\<lambda>x. x\<lparr>mu_qty := mu_qty u, mu_price := mu_price u\<rparr>) (ss_order_pool s)\<rparr>))
                | MUT_CANCEL \<Rightarrow>
                    bindr (existing_order u s) (\<lambda>a.
                    bindr (deallocate a (ss_order_pool s)) (\<lambda>pool.
                    Inr ((set_entry t i None s)\<lparr>ss_order_pool := pool\<rparr>)))
                | _ \<Rightarrow> Inr s) (\<lambda>s.
         bindr (ASSERT (mdp_seq_num m = last_inc_seq_num s + 1)
                  ''Expected incremental seq_nums to increase.'') (\<lambda>_.
         Inr (s\<lparr>last_inc_seq_num := mdp_seq_num m\<rparr>)))))"

section \<open>Publishing\<close>

text \<open>The socket has no receive callback: calling it would throw.\<close>

definition no_callback :: "McastSocket \<Rightarrow> 's \<Rightarrow> (McastSocket \<times> 's) res" where
  "no_callback s st = Inl (Terminated ''std::bad_function_call'')"

text \<open>A message of the snapshot: its number, its bytes into the buffer and, for an order and the
  end, out on the wire. The state is the counter, the socket and the datagrams sent.\<close>

definition send_numbered ::
  "NetIO \<Rightarrow> bool \<Rightarrow> MEMarketUpdate \<Rightarrow> nat \<times> McastSocket \<times> byte list list
    \<Rightarrow> (nat \<times> McastSocket \<times> byte list list) res" where
  "send_numbered io flush u st =
     (let (n, sock, dgrams) = st
      in bindr (McastSocket_send (encode_MDPMarketUpdate
                  \<lparr>mdp_seq_num = of_nat n, me_market_update = u\<rparr>) sock) (\<lambda>sock.
         if flush
         then bindr (McastSocket_sendAndRecv io no_callback sock ()) (\<lambda>(_, wire, sock, _).
              Inr (n + 1, sock, dgrams @ [wire]))
         else Inr (n + 1, sock, dgrams)))"

definition clear_update :: "nat \<Rightarrow> MEMarketUpdate" where
  "clear_update t = MEMarketUpdate_default\<lparr>mu_type := MUT_CLEAR, mu_ticker_id := of_nat t\<rparr>"

definition marker_update :: "MarketUpdateType \<Rightarrow> 64 word \<Rightarrow> MEMarketUpdate" where
  "marker_update ty n = MEMarketUpdate_default\<lparr>mu_type := ty, mu_order_id := n\<rparr>"

definition publish_order ::
  "NetIO \<Rightarrow> SnapshotSynthesizer \<Rightarrow> ptr \<Rightarrow> nat \<times> McastSocket \<times> byte list list
    \<Rightarrow> (nat \<times> McastSocket \<times> byte list list) res" where
  "publish_order io s p st =
     (case p of None \<Rightarrow> Inr st | Some a \<Rightarrow> send_numbered io True (obj (ss_order_pool s) a) st)"

definition publish_ticker ::
  "NetIO \<Rightarrow> SnapshotSynthesizer \<Rightarrow> nat \<Rightarrow> nat \<times> McastSocket \<times> byte list list
    \<Rightarrow> (nat \<times> McastSocket \<times> byte list list) res" where
  "publish_ticker io s t st =
     bindr (send_numbered io False (clear_update t) st)
       (fold_res (publish_order io s) (map (ticker_orders s t) [0..<ME_MAX_ORDER_IDS]))"

definition publishSnapshot ::
  "NetIO \<Rightarrow> SnapshotSynthesizer \<Rightarrow> (byte list list \<times> SnapshotSynthesizer) res" where
  "publishSnapshot io s =
     bindr (send_numbered io False (marker_update MUT_SNAPSHOT_START (last_inc_seq_num s))
              (0, snapshot_socket s, [])) (\<lambda>st.
     bindr (fold_res (publish_ticker io s) [0..<ME_MAX_TICKERS] st) (\<lambda>st.
     bindr (send_numbered io True (marker_update MUT_SNAPSHOT_END (last_inc_seq_num s)) st)
       (\<lambda>(_, sock, dgrams). Inr (dgrams, s\<lparr>snapshot_socket := sock\<rparr>))))"

text \<open>One iteration of the thread's loop; \<open>now\<close> are the two readings of the clock.\<close>

definition SnapshotSynthesizer_iteration ::
  "NetIO \<Rightarrow> Nanos \<Rightarrow> Nanos \<Rightarrow> SnapshotSynthesizer \<Rightarrow> (byte list list \<times> SnapshotSynthesizer) res" where
  "SnapshotSynthesizer_iteration io now now' s =
     bindr (returned (drain lfq_peek_sized updateReadIndex addToSnapshot (ss_updates s) s)) (\<lambda>(q, s).
     let s = s\<lparr>ss_updates := q\<rparr>
     in if sint (now - last_snapshot_time s) > 60 * NANOS_TO_SECS
        then publishSnapshot io (s\<lparr>last_snapshot_time := now'\<rparr>)
        else Inr ([], s))"

section \<open>The abstract snapshot\<close>

type_synonym snapshot = "nat \<Rightarrow> nat \<Rightarrow> MEMarketUpdate option"

definition snap_abs :: "SnapshotSynthesizer \<Rightarrow> snapshot" where
  "snap_abs s = (\<lambda>t i. if t < ME_MAX_TICKERS \<and> i < ME_MAX_ORDER_IDS
     then map_option (obj (ss_order_pool s)) (ticker_orders s t i) else None)"

text \<open>An entry points to a live block, no two entries to the same one, and it holds its own id.\<close>

definition entry :: "SnapshotSynthesizer \<Rightarrow> nat \<Rightarrow> nat \<Rightarrow> nat \<Rightarrow> bool" where
  "entry s t i a \<longleftrightarrow> t < ME_MAX_TICKERS \<and> i < ME_MAX_ORDER_IDS \<and> ticker_orders s t i = Some a"

definition snap_rep :: "SnapshotSynthesizer \<Rightarrow> bool" where
  "snap_rep s \<longleftrightarrow> pool_wf (ss_order_pool s) \<and> pool_size (ss_order_pool s) = ME_MAX_ORDER_IDS
     \<and> (\<forall>t i a. entry s t i a
          \<longrightarrow> a \<in> live (ss_order_pool s) \<and> unat (mu_order_id (obj (ss_order_pool s) a)) = i)
     \<and> (\<forall>t i t' i' a. entry s t i a \<longrightarrow> entry s t' i' a \<longrightarrow> t' = t \<and> i' = i)"

lemma snap_repI:
  assumes "pool_wf (ss_order_pool s)" "pool_size (ss_order_pool s) = ME_MAX_ORDER_IDS"
    and "\<And>t i a. entry s t i a \<Longrightarrow> a \<in> live (ss_order_pool s)"
    and "\<And>t i a. entry s t i a \<Longrightarrow> unat (mu_order_id (obj (ss_order_pool s) a)) = i"
    and "\<And>t i t' i' a. entry s t i a \<Longrightarrow> entry s t' i' a \<Longrightarrow> t' = t \<and> i' = i"
  shows "snap_rep s"
  using assms unfolding snap_rep_def by blast

definition snap_update :: "nat \<Rightarrow> nat \<Rightarrow> MEMarketUpdate option \<Rightarrow> snapshot \<Rightarrow> snapshot" where
  "snap_update t i v M = M(t := (M t)(i := v))"

text \<open>What an update means for the snapshot; \<open>None\<close> is an update the synthesizer refuses.\<close>

definition snap_apply :: "MEMarketUpdate \<Rightarrow> snapshot \<Rightarrow> snapshot option" where
  "snap_apply u M =
     (let t = unat (mu_ticker_id u); i = unat (mu_order_id u)
      in if \<not> t < ME_MAX_TICKERS then None
         else case mu_type u of
           MUT_ADD \<Rightarrow> if i < ME_MAX_ORDER_IDS \<and> M t i = None then Some (snap_update t i (Some u) M) else None
         | MUT_MODIFY \<Rightarrow>
             (case M t i of
                Some x \<Rightarrow> if i < ME_MAX_ORDER_IDS \<and> mu_side x = mu_side u
                  then Some (snap_update t i (Some (x\<lparr>mu_qty := mu_qty u, mu_price := mu_price u\<rparr>)) M)
                  else None
              | None \<Rightarrow> None)
         | MUT_CANCEL \<Rightarrow>
             (case M t i of
                Some x \<Rightarrow> if i < ME_MAX_ORDER_IDS \<and> mu_side x = mu_side u
                  then Some (snap_update t i None M) else None
              | None \<Rightarrow> None)
         | _ \<Rightarrow> Some M)"

lemma ctor_snap_rep:
  assumes "SnapshotSynthesizer_ctor K raw q iface ip port = Inr s"
    and "\<And>t i. t < ME_MAX_TICKERS \<Longrightarrow> i < ME_MAX_ORDER_IDS \<Longrightarrow> raw t i = None"
  shows "snap_rep s" "snap_abs s = (\<lambda>_ _. None)" "last_inc_seq_num s = 0"
  using assms
  by (auto simp: SnapshotSynthesizer_ctor_def snap_rep_def entry_def snap_abs_def fun_eq_iff limit_defs
      intro!: ctor_pool_wf elim!: bindr_InrE)

lemma snap_repD:
  assumes "snap_rep s" "entry s t i a"
  shows "a \<in> live (ss_order_pool s)" "unat (mu_order_id (obj (ss_order_pool s) a)) = i"
    and "entry s t' i' a \<Longrightarrow> t' = t \<and> i' = i"
  using assms unfolding snap_rep_def by blast+

lemma snap_frame [simp]:
  "snap_rep (s\<lparr>last_inc_seq_num := n\<rparr>) = snap_rep s"
  "snap_abs (s\<lparr>last_inc_seq_num := n\<rparr>) = snap_abs s"
  by (simp_all add: snap_rep_def entry_def snap_abs_def cong: if_cong)

text \<open>The abstraction entry by entry.\<close>

lemma snap_abs_entry: "entry s t i a \<Longrightarrow> snap_abs s t i = Some (obj (ss_order_pool s) a)"
  by (simp add: snap_abs_def entry_def)

lemma snap_abs_SomeE:
  assumes "snap_abs s t i = Some x"
  obtains a where "entry s t i a" "obj (ss_order_pool s) a = x"
  using assms by (auto simp: snap_abs_def entry_def split: if_splits)

lemma snap_abs_None: "snap_abs s t i = None \<longleftrightarrow> (\<forall>a. \<not> entry s t i a)"
  by (auto simp: snap_abs_def entry_def)

lemma snap_abs_eqI:
  assumes "\<And>t i a. entry s t i a \<Longrightarrow> M t i = Some (obj (ss_order_pool s) a)"
    and "\<And>t i. (\<And>a. \<not> entry s t i a) \<Longrightarrow> M t i = None"
  shows "snap_abs s = M"
proof (intro ext)
  fix t i
  show "snap_abs s t i = M t i"
    using assms snap_abs_entry snap_abs_None by (cases "snap_abs s t i") (metis snap_abs_SomeE)+
qed

lemma existing_order_ok:
  assumes r: "snap_rep s"
    and x: "snap_abs s (unat (mu_ticker_id u)) (unat (mu_order_id u)) = Some x" "mu_side x = mu_side u"
  obtains a where "existing_order u s = Inr a"
    "entry s (unat (mu_ticker_id u)) (unat (mu_order_id u)) a" "obj (ss_order_pool s) a = x"
proof -
  obtain a where a: "entry s (unat (mu_ticker_id u)) (unat (mu_order_id u)) a"
    "obj (ss_order_pool s) a = x"
    by (rule snap_abs_SomeE[OF x(1)])
  have "mu_order_id x = mu_order_id u"
    using snap_repD(2)[OF r a(1)] a(2) by (simp add: word_unat_eq_iff)
  then show thesis using that[of a] a x(2) by (simp add: existing_order_def entry_def)
qed

text \<open>The synthesizer refines the abstract snapshot, as long as its pool has room.\<close>

lemma addToSnapshot_ok:
  assumes r: "snap_rep s" and sq: "mdp_seq_num m = last_inc_seq_num s + 1"
    and ap: "snap_apply (me_market_update m) (snap_abs s) = Some M"
    and room: "card (live (ss_order_pool s)) + 1 < ME_MAX_ORDER_IDS"
  shows "\<exists>s'. addToSnapshot m s = Inr s' \<and> snap_rep s' \<and> snap_abs s' = M
    \<and> last_inc_seq_num s' = last_inc_seq_num s + 1"
proof -
  let ?u = "me_market_update m"
  let ?t = "unat (mu_ticker_id ?u)" and ?i = "unat (mu_order_id ?u)"
  let ?p = "ss_order_pool s"
  have t: "?t < ME_MAX_TICKERS" using ap by (auto simp: snap_apply_def Let_def split: if_splits)
  have wf: "pool_wf ?p" and sz: "pool_size ?p = ME_MAX_ORDER_IDS" using r by (simp_all add: snap_rep_def)
  note D = snap_repD[OF r]
  have fin: "\<exists>s'. addToSnapshot m s = Inr s' \<and> snap_rep s' \<and> snap_abs s' = M
      \<and> last_inc_seq_num s' = last_inc_seq_num s + 1"
    if "addToSnapshot m s = Inr (s1\<lparr>last_inc_seq_num := mdp_seq_num m\<rparr>)"
      "snap_rep s1" "snap_abs s1 = M" for s1
    using that sq by simp
  consider (a) "mu_type ?u = MUT_ADD" | (b) "mu_type ?u = MUT_MODIFY" | (c) "mu_type ?u = MUT_CANCEL"
    | (d) "mu_type ?u \<noteq> MUT_ADD" "mu_type ?u \<noteq> MUT_MODIFY" "mu_type ?u \<noteq> MUT_CANCEL" by blast
  then show ?thesis
  proof cases
    case a
    then have i: "?i < ME_MAX_ORDER_IDS" and free: "snap_abs s ?t ?i = None"
      and M: "M = snap_update ?t ?i (Some ?u) (snap_abs s)"
      using ap t by (auto simp: snap_apply_def Let_def split: if_splits)
    have none: "ticker_orders s ?t ?i = None" using free i t by (simp add: snap_abs_def)
    obtain b p' where al: "allocate ?u ?p = Inr (b, p')" "b \<notin> live ?p" "live p' = insert b (live ?p)"
      "pool_wf p'" "pool_size p' = pool_size ?p" "\<And>c. obj p' c = (if c = b then ?u else obj ?p c)"
      using allocate_ok[OF wf, of ?u] room sz by metis
    define s1 where "s1 = (set_entry ?t ?i (Some b) s)\<lparr>ss_order_pool := p'\<rparr>"
    have en: "entry s1 t' i' c \<longleftrightarrow> (if t' = ?t \<and> i' = ?i then c = b else entry s t' i' c)"
      for t' i' c using t i by (auto simp: s1_def set_entry_def entry_def)
    have pl: "ss_order_pool s1 = p'" by (simp add: s1_def)
    have fresh: "\<not> entry s t' i' b" for t' i' using D(1) al(2) by blast
    have "snap_rep s1"
    proof (rule snap_repI)
      fix t1 i1 t2 i2 c assume "entry s1 t1 i1 c" "entry s1 t2 i2 c"
      then show "t2 = t1 \<and> i2 = i1" using D(3) fresh unfolding en by (metis (full_types))
    qed (use D(1,2) fresh al(3,4,5,6) sz in \<open>auto simp: en pl split: if_splits\<close>)
    moreover have "snap_abs s1 = M"
    proof (rule snap_abs_eqI)
      fix t' i' c assume "entry s1 t' i' c"
      then show "M t' i' = Some (obj (ss_order_pool s1) c)"
        using fresh by (auto simp: M en pl al(6) snap_update_def snap_abs_entry split: if_splits)
    next
      fix t' i' assume n: "\<And>c. \<not> entry s1 t' i' c"
      then have "\<not> (t' = ?t \<and> i' = ?i)" "snap_abs s t' i' = None"
        unfolding en snap_abs_None by metis+
      then show "M t' i' = None" by (auto simp: M snap_update_def)
    qed
    moreover have "addToSnapshot m s = Inr (s1\<lparr>last_inc_seq_num := mdp_seq_num m\<rparr>)"
      using a t i none al(1) sq by (simp add: addToSnapshot_def Let_def s1_def set_entry_def)
    ultimately show ?thesis by (rule fin[rotated])
  next
    case b
    then obtain x where x: "snap_abs s ?t ?i = Some x" "mu_side x = mu_side ?u"
      and M: "M = snap_update ?t ?i (Some (x\<lparr>mu_qty := mu_qty ?u, mu_price := mu_price ?u\<rparr>)) (snap_abs s)"
      using ap t by (auto simp: snap_apply_def Let_def split: if_splits option.splits)
    obtain e where e: "existing_order ?u s = Inr e" "entry s ?t ?i e" "obj ?p e = x"
      by (rule existing_order_ok[OF r x]) blast
    define s1 where "s1 = s\<lparr>ss_order_pool := upd_obj e
        (\<lambda>x. x\<lparr>mu_qty := mu_qty ?u, mu_price := mu_price ?u\<rparr>) ?p\<rparr>"
    have pl: "ss_order_pool s1 = upd_obj e (\<lambda>x. x\<lparr>mu_qty := mu_qty ?u, mu_price := mu_price ?u\<rparr>) ?p"
      and en: "entry s1 = entry s" by (auto simp: s1_def entry_def fun_eq_iff)
    have "snap_rep s1"
    proof (rule snap_repI)
      fix t1 i1 c assume "entry s1 t1 i1 c"
      then have c: "entry s t1 i1 c" by (simp add: en)
      show "c \<in> live (ss_order_pool s1)" "unat (mu_order_id (obj (ss_order_pool s1) c)) = i1"
        using D(1)[OF c] D(2)[OF c] by (auto simp: pl)
    next
      fix t1 i1 t2 i2 c assume "entry s1 t1 i1 c" "entry s1 t2 i2 c"
      then show "t2 = t1 \<and> i2 = i1" using D(3) unfolding en by blast
    qed (use wf sz in \<open>simp_all add: pl\<close>)
    moreover have "snap_abs s1 = M"
    proof (rule snap_abs_eqI)
      fix t' i' c assume "entry s1 t' i' c"
      then have c: "entry s t' i' c" by (simp add: en)
      have "c = e \<longleftrightarrow> t' = ?t \<and> i' = ?i"
      proof
        assume "c = e"
        then show "t' = ?t \<and> i' = ?i" using D(3)[OF e(2), of t' i'] c by simp
      next
        assume "t' = ?t \<and> i' = ?i"
        then show "c = e" using c e(2) by (simp add: entry_def)
      qed
      then show "M t' i' = Some (obj (ss_order_pool s1) c)"
        using e(3) snap_abs_entry[OF c] by (auto simp: M pl snap_update_def)
    next
      fix t' i' assume n: "\<And>c. \<not> entry s1 t' i' c"
      then have "\<not> (t' = ?t \<and> i' = ?i)" "snap_abs s t' i' = None"
        using e(2) unfolding en snap_abs_None by blast+
      then show "M t' i' = None" by (auto simp: M snap_update_def)
    qed
    moreover have "addToSnapshot m s = Inr (s1\<lparr>last_inc_seq_num := mdp_seq_num m\<rparr>)"
      using b t e(1) sq by (simp add: addToSnapshot_def Let_def s1_def)
    ultimately show ?thesis by (rule fin[rotated])
  next
    case c
    then obtain x where x: "snap_abs s ?t ?i = Some x" "mu_side x = mu_side ?u"
      and M: "M = snap_update ?t ?i None (snap_abs s)"
      using ap t by (auto simp: snap_apply_def Let_def split: if_splits option.splits)
    obtain e where e: "existing_order ?u s = Inr e" "entry s ?t ?i e" "obj ?p e = x"
      by (rule existing_order_ok[OF r x]) blast
    obtain p' where de: "deallocate e ?p = Inr p'" "live p' = live ?p - {e}" "pool_wf p'"
      "pool_size p' = pool_size ?p" "\<And>z. obj p' z = obj ?p z"
      by (rule deallocate_ok[OF D(1)[OF e(2)] wf]) blast
    define s1 where "s1 = (set_entry ?t ?i None s)\<lparr>ss_order_pool := p'\<rparr>"
    have en: "entry s1 t' i' c \<longleftrightarrow> (\<not> (t' = ?t \<and> i' = ?i) \<and> entry s t' i' c)" for t' i' c
      by (auto simp: s1_def set_entry_def entry_def)
    have pl: "ss_order_pool s1 = p'" by (simp add: s1_def)
    have other: "\<not> entry s t' i' e" if "t' \<noteq> ?t \<or> i' \<noteq> ?i" for t' i'
      using D(3)[OF e(2)] that by blast
    have "snap_rep s1"
    proof (rule snap_repI)
      fix t1 i1 c assume "entry s1 t1 i1 c"
      then show "c \<in> live (ss_order_pool s1)" "unat (mu_order_id (obj (ss_order_pool s1) c)) = i1"
        using D(1,2) other unfolding en pl de(2,5) by blast+
    next
      fix t1 i1 t2 i2 c assume "entry s1 t1 i1 c" "entry s1 t2 i2 c"
      then show "t2 = t1 \<and> i2 = i1" using D(3) unfolding en by blast
    qed (use de(3,4) sz in \<open>simp_all add: pl\<close>)
    moreover have "snap_abs s1 = M"
      by (rule snap_abs_eqI)
        (auto simp: M en pl de(5) snap_update_def snap_abs_entry snap_abs_None)
    moreover have "addToSnapshot m s = Inr (s1\<lparr>last_inc_seq_num := mdp_seq_num m\<rparr>)"
      using c t e(1) de(1) sq by (simp add: addToSnapshot_def Let_def s1_def set_entry_def)
    ultimately show ?thesis by (rule fin[rotated])
  next
    case d
    then have "M = snap_abs s"
      using ap t by (auto simp: snap_apply_def Let_def split: MarketUpdateType.splits)
    moreover have "addToSnapshot m s = Inr (s\<lparr>last_inc_seq_num := mdp_seq_num m\<rparr>)"
      using d t sq by (auto simp: addToSnapshot_def Let_def split: MarketUpdateType.splits)
    ultimately show ?thesis using fin[of s] r by simp
  qed
qed

end
