(* ===== verification/MarketDataPublisher.thy ===== *)
theory MarketDataPublisher
  imports SnapshotSynthesizer
begin

text \<open>
  \<open>exchange/market_data/market_data_publisher.h\<close> and \<open>market_data_publisher.cpp\<close>: the thread
  that numbers the engine's updates, multicasts each and passes it on, numbered, to the
  snapshot synthesizer. What leaves on the incremental socket is the list of datagrams.
\<close>

record MarketDataPublisher =
  next_inc_seq_num :: "64 word"
  pub_updates :: MEMarketUpdateLFQueue
  snapshot_md_updates :: MDPMarketUpdateLFQueue
  pub_run :: bool
  incremental_socket :: McastSocket

definition MarketDataPublisher_ctor ::
  "Kernel \<Rightarrow> (nat \<Rightarrow> nat \<Rightarrow> ptr) \<Rightarrow> MEMarketUpdateLFQueue \<Rightarrow> string \<Rightarrow> string \<Rightarrow> int \<Rightarrow> string \<Rightarrow> int
    \<Rightarrow> (MarketDataPublisher \<times> SnapshotSynthesizer) res" where
  "MarketDataPublisher_ctor K raw market_updates iface snapshot_ip snapshot_port incremental_ip
     incremental_port =
     bindr (McastSocket_init K incremental_ip iface incremental_port False McastSocket_ctor) (\<lambda>(rc, sock).
     bindr (ASSERT (rc \<ge> 0) (''Unable to create incremental mcast socket. error:'' @ k_error K)) (\<lambda>_.
     let q = LFQueue_ctor \<lparr>mdp_seq_num = 0, me_market_update = MEMarketUpdate_default\<rparr> ME_MAX_MARKET_UPDATES
     in bindr (SnapshotSynthesizer_ctor K raw q iface snapshot_ip snapshot_port) (\<lambda>ss.
        Inr (\<lparr>next_inc_seq_num = 1, pub_updates = market_updates, snapshot_md_updates = q,
              pub_run = False, incremental_socket = sock\<rparr>, ss))))"

definition MarketDataPublisher_start ::
  "(int \<Rightarrow> int) \<Rightarrow> MarketDataPublisher \<times> SnapshotSynthesizer
    \<Rightarrow> (MarketDataPublisher \<times> SnapshotSynthesizer) res" where
  "MarketDataPublisher_start aff st =
     bindr (ASSERT (createAndStartThread aff (- 1)) ''Failed to start MarketData thread.'') (\<lambda>_.
     bindr (SnapshotSynthesizer_start aff (snd st)) (\<lambda>ss.
     Inr ((fst st)\<lparr>pub_run := True\<rparr>, ss)))"

definition MarketDataPublisher_stop ::
  "MarketDataPublisher \<times> SnapshotSynthesizer \<Rightarrow> MarketDataPublisher \<times> SnapshotSynthesizer" where
  "MarketDataPublisher_stop st = ((fst st)\<lparr>pub_run := False\<rparr>, SnapshotSynthesizer_stop (snd st))"

definition MarketDataPublisher_dtor ::
  "MarketDataPublisher \<times> SnapshotSynthesizer \<Rightarrow> MarketDataPublisher" where
  "MarketDataPublisher_dtor st = fst (MarketDataPublisher_stop st)"

text \<open>One update. The code releases the slot of the update before it copies the update from there to
  the snapshot queue: the copy reads the slot after \<open>updateReadIndex\<close>, when the engine may already
  write to it. Here nothing comes in between.\<close>

definition publish_update :: "MEMarketUpdate \<Rightarrow> MarketDataPublisher \<Rightarrow> MarketDataPublisher res" where
  "publish_update u p =
     (let slot = next_read_index (pub_updates p)
      in bindr (McastSocket_send (put64 (next_inc_seq_num p)) (incremental_socket p)) (\<lambda>sock.
         bindr (McastSocket_send (encode_MEMarketUpdate u) sock) (\<lambda>sock.
         bindr (updateReadIndex (pub_updates p)) (\<lambda>upd.
         bindr (lfq_push \<lparr>mdp_seq_num = next_inc_seq_num p, me_market_update = q_store upd slot\<rparr>
                  (snapshot_md_updates p)) (\<lambda>q.
         Inr (p\<lparr>incremental_socket := sock, pub_updates := upd, snapshot_md_updates := q,
                next_inc_seq_num := next_inc_seq_num p + 1\<rparr>))))))"

partial_function (option) publish_loop :: "MarketDataPublisher \<Rightarrow> MarketDataPublisher res option" where
  "publish_loop p =
     (case lfq_peek_sized (pub_updates p) of
        None \<Rightarrow> Some (Inr p)
      | Some u \<Rightarrow> (case publish_update u p of Inl e \<Rightarrow> Some (Inl e) | Inr p \<Rightarrow> publish_loop p))"

definition MarketDataPublisher_iteration ::
  "NetIO \<Rightarrow> MarketDataPublisher \<Rightarrow> (byte list \<times> MarketDataPublisher) res" where
  "MarketDataPublisher_iteration io p =
     bindr (returned (publish_loop p)) (\<lambda>p.
     bindr (McastSocket_sendAndRecv io no_callback (incremental_socket p) ()) (\<lambda>(_, wire, sock, _).
     Inr (wire, p\<lparr>incremental_socket := sock\<rparr>)))"

section \<open>Numbering\<close>

text \<open>The updates with consecutive sequence numbers.\<close>

fun number_updates :: "64 word \<Rightarrow> MEMarketUpdate list \<Rightarrow> MDPMarketUpdate list" where
  "number_updates n [] = []"
| "number_updates n (u # us) = \<lparr>mdp_seq_num = n, me_market_update = u\<rparr> # number_updates (n + 1) us"

lemma length_number_updates [simp]: "length (number_updates n us) = length us"
  by (induction us arbitrary: n) auto

lemma number_updates_append:
  "number_updates n (us @ vs) = number_updates n us @ number_updates (n + of_nat (length us)) vs"
  by (induction us arbitrary: n) (simp_all add: add.assoc)

lemma number_updates_updates: "map me_market_update (number_updates n us) = us"
  by (induction us arbitrary: n) simp_all

text \<open>Releasing a slot leaves its contents where they are.\<close>

lemma released_slot:
  assumes "lfq_ok q" "lfq_items q = u # us"
  obtains q' where "updateReadIndex q = Inr q'" "lfq_ok q'" "lfq_items q' = us"
    "q_store q' (next_read_index q) = u"
proof -
  obtain q' where q': "updateReadIndex q = Inr q'" "lfq_ok q'" "lfq_items q' = us"
    using lfq.pop_law[OF assms(1)] assms(2) by auto
  then have "q_store q' = q_store q" by (auto simp: updateReadIndex_def elim!: bindr_InrE split: if_splits)
  moreover have "getNextToRead q = Some u" using lfq.peek_law[OF assms(1)] assms(2) by simp
  then have "q_store q (next_read_index q) = u" by (simp add: getNextToRead_def split: if_splits)
  ultimately show thesis using q' that by simp
qed

lemma publish_update_ok:
  assumes "mc_next_send_valid_index (incremental_socket p) + 42 < McastBufferSize"
    and "lfq_ok (snapshot_md_updates p)"
    and "length (lfq_items (snapshot_md_updates p)) < lfq_capacity (snapshot_md_updates p)"
    and "lfq_ok (pub_updates p)" "lfq_items (pub_updates p) = u # us"
  shows "\<exists>p'. publish_update u p = Inr p'
    \<and> mc_pending (incremental_socket p') = mc_pending (incremental_socket p)
        @ encode_MDPMarketUpdate \<lparr>mdp_seq_num = next_inc_seq_num p, me_market_update = u\<rparr>
    \<and> lfq_ok (snapshot_md_updates p')
    \<and> lfq_items (snapshot_md_updates p') = lfq_items (snapshot_md_updates p)
        @ [\<lparr>mdp_seq_num = next_inc_seq_num p, me_market_update = u\<rparr>]
    \<and> lfq_capacity (snapshot_md_updates p') = lfq_capacity (snapshot_md_updates p)
    \<and> next_inc_seq_num p' = next_inc_seq_num p + 1 \<and> lfq_ok (pub_updates p') \<and> lfq_items (pub_updates p') = us"
proof -
  let ?m = "\<lparr>mdp_seq_num = next_inc_seq_num p, me_market_update = u\<rparr>"
  obtain s1 where s1: "McastSocket_send (put64 (next_inc_seq_num p)) (incremental_socket p) = Inr s1"
    "mc_pending s1 = mc_pending (incremental_socket p) @ put64 (next_inc_seq_num p)"
    "mc_next_send_valid_index s1 = mc_next_send_valid_index (incremental_socket p) + 8"
    using McastSocket_send_pending[of "incremental_socket p" "put64 (next_inc_seq_num p)"] assms(1) by auto
  obtain s2 where s2: "McastSocket_send (encode_MEMarketUpdate u) s1 = Inr s2"
    "mc_pending s2 = mc_pending s1 @ encode_MEMarketUpdate u"
    using McastSocket_send_pending[of s1 "encode_MEMarketUpdate u"] assms(1) s1(3)
    by (auto simp: update_codec.enc_length)
  obtain q where q: "lfq_push ?m (snapshot_md_updates p) = Inr q" "lfq_ok q"
    "lfq_items q = lfq_items (snapshot_md_updates p) @ [?m]"
    "lfq_capacity q = lfq_capacity (snapshot_md_updates p)"
    using lfq.push_law[OF assms(2,3), of ?m] by blast
  obtain upd where upd: "updateReadIndex (pub_updates p) = Inr upd" "lfq_ok upd" "lfq_items upd = us"
    "q_store upd (next_read_index (pub_updates p)) = u"
    by (rule released_slot[OF assms(4,5)])
  show ?thesis
    using s1 s2 q upd by (simp add: publish_update_def encode_MDPMarketUpdate_def Let_def)
qed

lemma publish_loop_ok:
  assumes "mc_next_send_valid_index (incremental_socket p) + 42 * length us < McastBufferSize"
    and "lfq_ok (snapshot_md_updates p)"
    and "length (lfq_items (snapshot_md_updates p)) + length us \<le> lfq_capacity (snapshot_md_updates p)"
    and "lfq_ok (pub_updates p)" "lfq_items (pub_updates p) = us"
  shows "\<exists>p'. publish_loop p = Some (Inr p')
    \<and> mc_pending (incremental_socket p') = mc_pending (incremental_socket p)
        @ concat (map encode_MDPMarketUpdate (number_updates (next_inc_seq_num p) us))
    \<and> lfq_ok (snapshot_md_updates p')
    \<and> lfq_items (snapshot_md_updates p') = lfq_items (snapshot_md_updates p)
        @ number_updates (next_inc_seq_num p) us
    \<and> next_inc_seq_num p' = next_inc_seq_num p + of_nat (length us) \<and> lfq_items (pub_updates p') = []"
  using assms
proof (induction us arbitrary: p)
  case Nil
  then have "lfq_peek_sized (pub_updates p) = None" using lfq_sized.peek_law[of "pub_updates p"] by simp
  then show ?case using Nil by (subst publish_loop.simps) simp
next
  case (Cons u us)
  obtain p1 where p1: "publish_update u p = Inr p1"
    "mc_pending (incremental_socket p1) = mc_pending (incremental_socket p)
        @ encode_MDPMarketUpdate \<lparr>mdp_seq_num = next_inc_seq_num p, me_market_update = u\<rparr>"
    "lfq_ok (snapshot_md_updates p1)"
    "lfq_items (snapshot_md_updates p1) = lfq_items (snapshot_md_updates p)
        @ [\<lparr>mdp_seq_num = next_inc_seq_num p, me_market_update = u\<rparr>]"
    "lfq_capacity (snapshot_md_updates p1) = lfq_capacity (snapshot_md_updates p)"
    "next_inc_seq_num p1 = next_inc_seq_num p + 1" "lfq_ok (pub_updates p1)" "lfq_items (pub_updates p1) = us"
    using publish_update_ok[of p u us] Cons.prems by auto
  have len: "mc_next_send_valid_index (incremental_socket p1)
      = mc_next_send_valid_index (incremental_socket p) + 42"
    using arg_cong[OF p1(2), of length] by (simp add: mc_pending_length mdp_codec.enc_length)
  obtain p' where p': "publish_loop p1 = Some (Inr p')"
    "mc_pending (incremental_socket p') = mc_pending (incremental_socket p1)
        @ concat (map encode_MDPMarketUpdate (number_updates (next_inc_seq_num p1) us))"
    "lfq_ok (snapshot_md_updates p')"
    "lfq_items (snapshot_md_updates p') = lfq_items (snapshot_md_updates p1)
        @ number_updates (next_inc_seq_num p1) us"
    "next_inc_seq_num p' = next_inc_seq_num p1 + of_nat (length us)" "lfq_items (pub_updates p') = []"
    using Cons.IH[of p1] Cons.prems len p1(3,4,5,7,8) by auto
  have "lfq_peek_sized (pub_updates p) = Some u" using lfq_sized.peek_law[of "pub_updates p"] Cons.prems by simp
  then have "publish_loop p = Some (Inr p')" using p1(1) p'(1) by (subst publish_loop.simps) simp
  then show ?case using p' p1 by (intro exI[of _ p']) (auto simp: add.assoc)
qed

text \<open>A whole iteration: what was in the queue is on the wire and in the snapshot queue.\<close>

lemma iteration_ok:
  assumes q: "lfq_ok (pub_updates p)" "lfq_items (pub_updates p) = us"
    and e: "mc_next_send_valid_index (incremental_socket p) = 0" "42 * length us < McastBufferSize"
    and s: "lfq_ok (snapshot_md_updates p)"
      "length (lfq_items (snapshot_md_updates p)) + length us \<le> lfq_capacity (snapshot_md_updates p)"
    and io: "\<And>room. io_recv io room = []"
  shows "\<exists>p'. MarketDataPublisher_iteration io p
      = Inr (concat (map encode_MDPMarketUpdate (number_updates (next_inc_seq_num p) us)), p')
    \<and> lfq_items (pub_updates p') = [] \<and> next_inc_seq_num p' = next_inc_seq_num p + of_nat (length us)
    \<and> lfq_items (snapshot_md_updates p') = lfq_items (snapshot_md_updates p)
        @ number_updates (next_inc_seq_num p) us
    \<and> mc_next_send_valid_index (incremental_socket p') = 0"
proof -
  obtain p1 where p1: "publish_loop p = Some (Inr p1)"
    "mc_pending (incremental_socket p1) = mc_pending (incremental_socket p)
        @ concat (map encode_MDPMarketUpdate (number_updates (next_inc_seq_num p) us))"
    "lfq_items (snapshot_md_updates p1) = lfq_items (snapshot_md_updates p)
        @ number_updates (next_inc_seq_num p) us"
    "next_inc_seq_num p1 = next_inc_seq_num p + of_nat (length us)" "lfq_items (pub_updates p1) = []"
    using publish_loop_ok[of p us] e s q by auto
  have pend: "mc_pending (incremental_socket p1)
      = concat (map encode_MDPMarketUpdate (number_updates (next_inc_seq_num p) us))"
    using p1(2) e(1) by (simp add: mc_pending_def buf_read_def)
  have "mc_next_send_valid_index (incremental_socket p1) = 0
      \<Longrightarrow> concat (map encode_MDPMarketUpdate (number_updates (next_inc_seq_num p) us)) = []"
    using pend by (simp add: mc_pending_def buf_read_def)
  then show ?thesis
    using p1(1,3,4,5) pend io
    by (auto simp: MarketDataPublisher_iteration_def McastSocket_sendAndRecv_def Let_def mc_pending_def)
qed

end
