(* ===== verification/SnapshotPublish.thy ===== *)
theory SnapshotPublish
  imports MarketDataPublisher
begin

text \<open>
  What \<open>publishSnapshot\<close> puts on the wire: the numbered messages of the abstract snapshot, in
  order, cut into datagrams that never overflow the socket's buffer.
\<close>

definition snapshot_list :: "snapshot \<Rightarrow> 64 word \<Rightarrow> MEMarketUpdate list" where
  "snapshot_list M last_seq =
     marker_update MUT_SNAPSHOT_START last_seq
     # concat (map (\<lambda>t. clear_update t # List.map_filter (M t) [0..<ME_MAX_ORDER_IDS]) [0..<ME_MAX_TICKERS])
     @ [marker_update MUT_SNAPSHOT_END last_seq]"

text \<open>The bytes sent and pending after the messages \<open>us\<close>, numbered from \<open>n\<close>.\<close>

definition streams :: "nat \<times> McastSocket \<times> byte list list \<Rightarrow> MEMarketUpdate list
    \<Rightarrow> nat \<times> McastSocket \<times> byte list list \<Rightarrow> bool" where
  "streams st us st' \<longleftrightarrow> fst st' = fst st + length us
     \<and> concat (snd (snd st')) @ mc_pending (fst (snd st'))
       = concat (snd (snd st)) @ mc_pending (fst (snd st))
         @ concat (map encode_MDPMarketUpdate (number_updates (of_nat (fst st)) us))"

definition fill_level :: "nat \<times> McastSocket \<times> byte list list \<Rightarrow> nat" where
  "fill_level st = mc_next_send_valid_index (fst (snd st))"

lemma streams_nil: "streams st [] st"
  by (simp add: streams_def)

lemma streams_trans: "streams st us st' \<Longrightarrow> streams st' vs st'' \<Longrightarrow> streams st (us @ vs) st''"
  by (simp add: streams_def number_updates_append)

lemma send_numbered_ok:
  assumes io: "\<And>room. io_recv io room = []" and f: "fill_level st + 42 < McastBufferSize"
  shows "\<exists>st'. send_numbered io flush u st = Inr st' \<and> streams st [u] st'
    \<and> fill_level st' = (if flush then 0 else fill_level st + 42)"
proof -
  obtain n sock d where st: "st = (n, sock, d)" by (metis prod_cases3)
  let ?bs = "encode_MDPMarketUpdate \<lparr>mdp_seq_num = of_nat n, me_market_update = u\<rparr>"
  obtain s1 where s1: "McastSocket_send ?bs sock = Inr s1" "mc_pending s1 = mc_pending sock @ ?bs"
    "mc_next_send_valid_index s1 = mc_next_send_valid_index sock + 42"
    using McastSocket_send_pending[of sock ?bs] f
    by (auto simp: st fill_level_def mdp_codec.enc_length)
  show ?thesis
  proof (cases flush)
    case False
    then show ?thesis using s1 by (simp add: st send_numbered_def streams_def fill_level_def)
  next
    case True
    let ?s2 = "s1\<lparr>mc_next_send_valid_index := 0\<rparr>"
    have "McastSocket_sendAndRecv io no_callback s1 () = Inr (False, mc_pending s1, ?s2, ())"
      using io s1(3) by (simp add: McastSocket_sendAndRecv_def Let_def mc_pending_def)
    moreover have "mc_pending ?s2 = []" by (simp add: mc_pending_def buf_read_def)
    ultimately show ?thesis
      using s1 True by (simp add: st send_numbered_def streams_def fill_level_def)
  qed
qed

lemma publish_orders_ok:
  assumes io: "\<And>room. io_recv io room = []" and f: "fill_level st + 42 < McastBufferSize"
  shows "\<exists>st'. fold_res (publish_order io s) ps st = Inr st'
    \<and> streams st (List.map_filter (map_option (obj (ss_order_pool s))) ps) st' \<and> fill_level st' \<le> fill_level st"
  using f
proof (induction ps arbitrary: st)
  case Nil
  then show ?case by (simp add: streams_nil)
next
  case (Cons p ps)
  show ?case
  proof (cases p)
    case None
    then show ?thesis using Cons by (simp add: publish_order_def)
  next
    case (Some a)
    obtain st1 where st1: "send_numbered io True (obj (ss_order_pool s) a) st = Inr st1"
      "streams st [obj (ss_order_pool s) a] st1" "fill_level st1 = 0"
      using send_numbered_ok[OF io Cons.prems, of True "obj (ss_order_pool s) a"] by auto
    have "fill_level st1 + 42 < McastBufferSize" using st1(3) Cons.prems by simp
    from Cons.IH[OF this] obtain st' where "fold_res (publish_order io s) ps st1 = Inr st'"
      "streams st1 (List.map_filter (map_option (obj (ss_order_pool s))) ps) st'" "fill_level st' \<le> 0"
      using st1(3) by auto
    moreover from this(2) have "streams st (List.map_filter (map_option (obj (ss_order_pool s))) (p # ps)) st'"
      using streams_trans[OF st1(2)] by (simp add: Some)
    moreover have "publish_order io s p st = Inr st1" using st1(1) by (simp add: Some publish_order_def)
    ultimately show ?thesis by (intro exI[of _ st']) simp
  qed
qed

lemma map_filter_map: "List.map_filter f (map g xs) = List.map_filter (\<lambda>x. f (g x)) xs"
  by (induction xs) (simp_all split: option.splits)

lemma map_filter_cong:
  "(\<And>x. x \<in> set xs \<Longrightarrow> f x = g x) \<Longrightarrow> List.map_filter f xs = List.map_filter g xs"
  by (induction xs) (simp_all split: option.splits)

lemma publish_ticker_ok:
  assumes io: "\<And>room. io_recv io room = []" and f: "fill_level st + 84 < McastBufferSize"
    and t: "t < ME_MAX_TICKERS"
  shows "\<exists>st'. publish_ticker io s t st = Inr st'
    \<and> streams st (clear_update t # List.map_filter (snap_abs s t) [0..<ME_MAX_ORDER_IDS]) st'
    \<and> fill_level st' \<le> fill_level st + 42"
proof -
  obtain st1 where st1: "send_numbered io False (clear_update t) st = Inr st1"
    "streams st [clear_update t] st1" "fill_level st1 = fill_level st + 42"
    using send_numbered_ok[OF io, of st False "clear_update t"] f by auto
  have "fill_level st1 + 42 < McastBufferSize" using st1(3) f by simp
  from publish_orders_ok[OF io this] obtain st' where st':
    "fold_res (publish_order io s) (map (ticker_orders s t) [0..<ME_MAX_ORDER_IDS]) st1 = Inr st'"
    "streams st1 (List.map_filter (map_option (obj (ss_order_pool s)))
       (map (ticker_orders s t) [0..<ME_MAX_ORDER_IDS])) st'"
    "fill_level st' \<le> fill_level st + 42"
    using st1(3) by metis
  have "List.map_filter (map_option (obj (ss_order_pool s))) (map (ticker_orders s t) [0..<ME_MAX_ORDER_IDS])
      = List.map_filter (snap_abs s t) [0..<ME_MAX_ORDER_IDS]"
    unfolding map_filter_map by (rule map_filter_cong) (simp add: snap_abs_def t)
  then have "streams st ([clear_update t] @ List.map_filter (snap_abs s t) [0..<ME_MAX_ORDER_IDS]) st'"
    using streams_trans[OF st1(2) st'(2)] by (simp only:)
  then have "streams st (clear_update t # List.map_filter (snap_abs s t) [0..<ME_MAX_ORDER_IDS]) st'"
    by (simp only: append.simps)
  moreover have "publish_ticker io s t st = Inr st'"
    unfolding publish_ticker_def st1(1) bindr_Inr by (rule st'(1))
  ultimately show ?thesis using st'(3) by blast
qed

lemma publish_tickers_ok:
  assumes io: "\<And>room. io_recv io room = []" and "\<forall>t \<in> set ts. t < ME_MAX_TICKERS"
    and "fill_level st + 42 * length ts + 42 < McastBufferSize"
  shows "\<exists>st'. fold_res (publish_ticker io s) ts st = Inr st'
    \<and> streams st (concat (map (\<lambda>t. clear_update t # List.map_filter (snap_abs s t) [0..<ME_MAX_ORDER_IDS]) ts)) st'
    \<and> fill_level st' \<le> fill_level st + 42 * length ts"
  using assms(2,3)
proof (induction ts arbitrary: st)
  case Nil
  then show ?case by (simp add: streams_nil)
next
  case (Cons t ts)
  let ?l = "\<lambda>t. clear_update t # List.map_filter (snap_abs s t) [0..<ME_MAX_ORDER_IDS]"
  have f: "fill_level st + 84 < McastBufferSize" and t: "t < ME_MAX_TICKERS" using Cons.prems by auto
  obtain st1 where st1: "publish_ticker io s t st = Inr st1" "streams st (?l t) st1"
    "fill_level st1 \<le> fill_level st + 42"
    using publish_ticker_ok[OF io f t] by blast
  have "\<exists>st'. fold_res (publish_ticker io s) ts st1 = Inr st'
    \<and> streams st1 (concat (map ?l ts)) st' \<and> fill_level st' \<le> fill_level st1 + 42 * length ts"
    by (rule Cons.IH) (use Cons.prems st1(3) in simp_all)
  then obtain st' where st': "fold_res (publish_ticker io s) ts st1 = Inr st'"
    "streams st1 (concat (map ?l ts)) st'" "fill_level st' \<le> fill_level st1 + 42 * length ts" by blast
  have "streams st (concat (map ?l (t # ts))) st'"
    using streams_trans[OF st1(2) st'(2)] by (simp only: list.map concat.simps)
  moreover have "fold_res (publish_ticker io s) (t # ts) st = Inr st'"
    unfolding fold_res.simps st1(1) bindr_Inr by (rule st'(1))
  moreover have "fill_level st' \<le> fill_level st + 42 * length (t # ts)" using st'(3) st1(3) by simp
  ultimately show ?case by blast
qed

lemma publishSnapshot_ok:
  assumes io: "\<And>room. io_recv io room = []"
    and e: "mc_next_send_valid_index (snapshot_socket s) = 0"
  shows "\<exists>dgrams s'. publishSnapshot io s = Inr (dgrams, s')
    \<and> concat dgrams = concat (map encode_MDPMarketUpdate
        (number_updates 0 (snapshot_list (snap_abs s) (last_inc_seq_num s))))
    \<and> mc_next_send_valid_index (snapshot_socket s') = 0"
proof -
  let ?opening = "marker_update MUT_SNAPSHOT_START (last_inc_seq_num s)"
  let ?closing = "marker_update MUT_SNAPSHOT_END (last_inc_seq_num s)"
  let ?l = "\<lambda>t. clear_update t # List.map_filter (snap_abs s t) [0..<ME_MAX_ORDER_IDS]"
  define st0 where "st0 = (0::nat, snapshot_socket s, [] :: byte list list)"
  have f0: "fill_level st0 = 0" using e by (simp add: st0_def fill_level_def)
  have cap: "800 < McastBufferSize" by (simp add: McastBufferSize_def)
  obtain st1 where st1: "send_numbered io False ?opening st0 = Inr st1" "streams st0 [?opening] st1"
    "fill_level st1 = 42"
    using send_numbered_ok[OF io, of st0 False ?opening] f0 cap by auto
  obtain st2 where st2: "fold_res (publish_ticker io s) [0..<ME_MAX_TICKERS] st1 = Inr st2"
    "streams st1 (concat (map ?l [0..<ME_MAX_TICKERS])) st2"
    "fill_level st2 \<le> fill_level st1 + 42 * length [0..<ME_MAX_TICKERS]"
    using publish_tickers_ok[OF io, of "[0..<ME_MAX_TICKERS]" st1 s] st1(3) cap
    by (auto simp: ME_MAX_TICKERS_def simp del: upt_Suc)
  have "fill_level st2 + 42 < McastBufferSize"
    using st2(3) st1(3) cap by (simp add: ME_MAX_TICKERS_def)
  then obtain st3 where st3: "send_numbered io True ?closing st2 = Inr st3" "streams st2 [?closing] st3"
    "fill_level st3 = 0"
    using send_numbered_ok[OF io, of st2 True ?closing] by auto
  have s: "streams st0 (snapshot_list (snap_abs s) (last_inc_seq_num s)) st3"
    using streams_trans[OF streams_trans[OF st1(2) st2(2)] st3(2)]
    by (simp only: snapshot_list_def append.simps append_assoc)
  obtain n sock d where st3': "st3 = (n, sock, d)" by (metis prod_cases3)
  have "mc_pending sock = []" "mc_pending (snapshot_socket s) = []"
    using st3(3) e by (simp_all add: st3' fill_level_def mc_pending_def buf_read_def)
  then have "concat d = concat (map encode_MDPMarketUpdate
        (number_updates 0 (snapshot_list (snap_abs s) (last_inc_seq_num s))))"
    using s by (simp add: streams_def st3' st0_def)
  moreover have "publishSnapshot io s = Inr (d, s\<lparr>snapshot_socket := sock\<rparr>)"
    unfolding publishSnapshot_def st0_def[symmetric] st1(1) st2(1) st3(1) bindr_Inr
    by (simp add: st3')
  ultimately show ?thesis using st3(3) by (simp add: st3' fill_level_def)
qed

end
