(* ===== verification/ExchangeMain.thy ===== *)
theory ExchangeMain
  imports MatchingEngine OrderServer SnapshotPublish
begin

text \<open>
  \<open>exchange/exchange_main.cpp\<close>: the three components and the queues between them. A queue that
  two components share is a field of both; each step of a thread starts from the other
  side's copy and hands its own back.
\<close>

record Exchange =
  x_engine :: MatchingEngine
  x_publisher :: MarketDataPublisher
  x_synthesizer :: SnapshotSynthesizer
  x_tcp :: TCPServer
  x_server :: OrderServer

text \<open>What the memory of the new objects holds before it is initialised.\<close>

record RawMemory =
  raw_cid :: "nat \<Rightarrow> nat \<Rightarrow> nat \<Rightarrow> ptr"
  raw_px :: "nat \<Rightarrow> nat \<Rightarrow> ptr"
  raw_ticker :: "nat \<Rightarrow> nat \<Rightarrow> ptr"
  raw_socket :: TCPSocket

definition exchange_main :: "Kernel \<Rightarrow> Epoll \<Rightarrow> (int \<Rightarrow> int) \<Rightarrow> RawMemory \<Rightarrow> Exchange res" where
  "exchange_main K E aff raw =
     (let client_requests = LFQueue_ctor MEClientRequest_default ME_MAX_CLIENT_UPDATES;
          client_responses = LFQueue_ctor MEClientResponse_default ME_MAX_CLIENT_UPDATES;
          market_updates = LFQueue_ctor MEMarketUpdate_default ME_MAX_MARKET_UPDATES;
          engine = MatchingEngine_ctor (raw_cid raw) (raw_px raw) client_requests client_responses
                     market_updates
      in bindr (MatchingEngine_start aff engine) (\<lambda>engine.
         bindr (MarketDataPublisher_ctor K (raw_ticker raw) market_updates ''lo'' ''233.252.14.1'' 20000
                  ''233.252.14.3'' 20001) (\<lambda>pub.
         bindr (MarketDataPublisher_start aff pub) (\<lambda>(publisher, synthesizer).
         let server = OrderServer_ctor client_requests client_responses ''lo'' 12345
         in bindr (OrderServer_start K E aff (TCPServer_ctor (raw_socket raw), server)) (\<lambda>(tcp, server).
            Inr \<lparr>x_engine = engine, x_publisher = publisher, x_synthesizer = synthesizer,
                 x_tcp = tcp, x_server = server\<rparr>)))))"

text \<open>The signal handler deletes the components in turn.\<close>

definition exchange_signal_handler :: "Exchange \<Rightarrow> unit res" where
  "exchange_signal_handler x =
     bindr (MatchingEngine_dtor (x_engine x)) (\<lambda>_.
     let _ = MarketDataPublisher_dtor (x_publisher x, x_synthesizer x);
         _ = OrderServer_stop (x_server x)
     in Inr ())"

section \<open>One iteration of each thread on the shared queues\<close>

definition engine_turn :: "Exchange \<Rightarrow> Exchange res" where
  "engine_turn x =
     bindr (MatchingEngine_iteration
              ((x_engine x)\<lparr>eng_requests := incoming_requests (fifo_sequencer (x_server x)),
                 eng_responses := outgoing_responses (x_server x),
                 eng_updates := pub_updates (x_publisher x)\<rparr>)) (\<lambda>e.
     Inr (x\<lparr>x_engine := e,
            x_server := (x_server x)\<lparr>outgoing_responses := eng_responses e,
               fifo_sequencer := (fifo_sequencer (x_server x))\<lparr>incoming_requests := eng_requests e\<rparr>\<rparr>,
            x_publisher := (x_publisher x)\<lparr>pub_updates := eng_updates e\<rparr>\<rparr>))"

definition publisher_turn :: "NetIO \<Rightarrow> Exchange \<Rightarrow> (byte list \<times> Exchange) res" where
  "publisher_turn io x =
     bindr (MarketDataPublisher_iteration io
              ((x_publisher x)\<lparr>snapshot_md_updates := ss_updates (x_synthesizer x)\<rparr>)) (\<lambda>(wire, p).
     Inr (wire, x\<lparr>x_publisher := p,
            x_synthesizer := (x_synthesizer x)\<lparr>ss_updates := snapshot_md_updates p\<rparr>\<rparr>))"

definition synthesizer_turn :: "NetIO \<Rightarrow> Nanos \<Rightarrow> Nanos \<Rightarrow> Exchange \<Rightarrow> (byte list list \<times> Exchange) res" where
  "synthesizer_turn io now now' x =
     bindr (SnapshotSynthesizer_iteration io now now' (x_synthesizer x)) (\<lambda>(dgrams, s).
     Inr (dgrams, x\<lparr>x_synthesizer := s,
            x_publisher := (x_publisher x)\<lparr>snapshot_md_updates := ss_updates s\<rparr>\<rparr>))"

definition server_turn ::
  "Kernel \<Rightarrow> Epoll \<Rightarrow> (nat \<Rightarrow> TCPSocket) \<Rightarrow> (SockRef \<Rightarrow> NetIO)
    \<Rightarrow> (RecvTimeClientRequest list \<Rightarrow> RecvTimeClientRequest list) \<Rightarrow> Exchange \<Rightarrow> Exchange res" where
  "server_turn K E raw io srt x =
     bindr (OrderServer_iteration K E raw io srt (x_tcp x, x_server x)) (\<lambda>(t, os).
     Inr (x\<lparr>x_tcp := t, x_server := os\<rparr>))"

text \<open>An order that comes to rest repeats the market id 1; the synthesizer refuses the repetition.\<close>

lemma add_existing_fails:
  assumes "mu_type (me_market_update m) = MUT_ADD"
    and "unat (mu_ticker_id (me_market_update m)) < ME_MAX_TICKERS"
    and "unat (mu_order_id (me_market_update m)) < ME_MAX_ORDER_IDS"
    and "ticker_orders s (unat (mu_ticker_id (me_market_update m))) (unat (mu_order_id (me_market_update m))) \<noteq> None"
  shows "\<exists>msg. addToSnapshot m s = Inl (Assert_failed msg)"
  using assms by (auto simp: addToSnapshot_def Let_def ASSERT_def)

lemma add_occupies:
  assumes "addToSnapshot m s = Inr s'" "mu_type (me_market_update m) = MUT_ADD"
  shows "ticker_orders s' (unat (mu_ticker_id (me_market_update m))) (unat (mu_order_id (me_market_update m))) \<noteq> None"
    "unat (mu_ticker_id (me_market_update m)) < ME_MAX_TICKERS"
    "unat (mu_order_id (me_market_update m)) < ME_MAX_ORDER_IDS"
  using assms
  by (auto simp: addToSnapshot_def Let_def at_idx_eq_Inr set_entry_def elim!: bindr_InrE
      split: prod.splits)

lemma add_twice_fails:
  assumes "mu_type (me_market_update m) = MUT_ADD" "mu_type (me_market_update m') = MUT_ADD"
    and "mu_ticker_id (me_market_update m') = mu_ticker_id (me_market_update m)"
    and "mu_order_id (me_market_update m') = mu_order_id (me_market_update m)"
  shows "\<exists>e. fold_res addToSnapshot [m, m'] s = Inl e"
proof (cases "addToSnapshot m s")
  case (Inr s1)
  note o = add_occupies[OF Inr assms(1)]
  then have "\<exists>msg. addToSnapshot m' s1 = Inl (Assert_failed msg)"
    using add_existing_fails[OF assms(2)] assms(3,4) by simp
  then show ?thesis using Inr by auto
qed simp

end
