(* ===== verification/ExchangeProps.thy ===== *)
theory ExchangeProps
  imports ExchangeMain EngineProps
begin

text \<open>
  The properties of the exchange around the matching engine: the logger, the order server with
  its sequencer, and the two market data streams.
\<close>

section \<open>Logging\<close>

text \<open>A call of \<open>log\<close> returns exactly when its format has as many placeholders as the call has
  arguments (a doubled percent sign is none); otherwise it ends the process, whatever the
  arguments are.\<close>

theorem log_returns_iff_arguments_match:
  assumes "lfq_wf q"
  shows "if placeholders s = length vs then \<exists>q'. Logger_log s vs q = Inr q'
    else \<exists>m. Logger_log s vs q = Inl (Fatal_exit m)"
  using Logger_log_outcome[OF assms, of s vs]
  by (cases "Logger_log s vs q"; auto simp: log_agrees_def log_call_def FATAL_def split: if_splits)+

theorem log_returns_iff_arguments_match_witness:
  "\<exists>m. Logger_log ''%:% %() % Received %''
     [CString_arg ''f.cpp'', Int_arg 37, CString_arg ''run'', String_arg ''now'']
     (LFQueue_ctor (LT_CHAR (CHR 0x00)) LOG_QUEUE_SIZE) = Inl (Fatal_exit m)"
proof -
  have "lfq_wf (LFQueue_ctor (LT_CHAR (CHR 0x00)) LOG_QUEUE_SIZE)"
    by (simp add: lfq_wf_def LFQueue_ctor_def LOG_QUEUE_SIZE_def)
  from log_returns_iff_arguments_match[OF this, of "''%:% %() % Received %''"
      "[CString_arg ''f.cpp'', Int_arg 37, CString_arg ''run'', String_arg ''now'']"]
  show ?thesis by simp
qed

section \<open>The order server\<close>

text \<open>What stands behind the second log call of \<open>recvCallback\<close> (\<open>accept_request\<close>), which the
  callback never reaches as it is (\<open>first_message_ends_the_exchange\<close>), would do this: the
  requests of a client that come in sequence on its own socket are all accepted, in order, with their receive time, and the expected number of that client advances by as
  many; nothing changes for other clients. A request out of sequence, or on another socket
  than the client's, is dropped and changes neither.\<close>

theorem requests_in_sequence_are_accepted:
  assumes "c < ME_MAX_NUM_CLIENTS" "\<forall>r \<in> set rs. unat (rq_client_id r) = c"
    and "cid_tcp_socket os c = None \<or> cid_tcp_socket os c = Some p"
    and "length (pending_client_requests (fifo_sequencer os)) + length rs \<le> ME_MAX_PENDING_REQUESTS"
    and "unat (rq_client_id (me_client_request bad)) = c"
    and "(\<exists>q. cid_tcp_socket os c = Some q \<and> q \<noteq> p) \<or> omrq_seq_num bad \<noteq> cid_next_exp_seq_num os c"
  shows "(\<exists>os'. fold_res (accept_request p rx) (number_from (cid_next_exp_seq_num os c) rs) os = Inr os'
      \<and> pending_client_requests (fifo_sequencer os')
          = pending_client_requests (fifo_sequencer os) @ map (\<lambda>r. \<lparr>recv_time = rx, request = r\<rparr>) rs
      \<and> cid_next_exp_seq_num os' c = cid_next_exp_seq_num os c + of_nat (length rs)
      \<and> (\<forall>d. d \<noteq> c \<longrightarrow> cid_next_exp_seq_num os' d = cid_next_exp_seq_num os d))
    \<and> (\<exists>os'. accept_request p rx bad os = Inr os' \<and> fifo_sequencer os' = fifo_sequencer os
      \<and> cid_next_exp_seq_num os' = cid_next_exp_seq_num os)"
  using accept_in_sequence[OF assms(1-4), of rx] accept_rejects[OF assms(5,1,6), of rx] by blast

definition new_server :: OrderServer where
  "new_server = OrderServer_ctor (LFQueue_ctor MEClientRequest_default ME_MAX_CLIENT_UPDATES)
     (LFQueue_ctor MEClientResponse_default ME_MAX_CLIENT_UPDATES) ''lo'' 12345"

lemma new_server_simps [simp]:
  "cid_next_exp_seq_num new_server c = 1" "cid_tcp_socket new_server c = None"
  "pending_client_requests (fifo_sequencer new_server) = []"
  by (simp_all add: new_server_def OrderServer_ctor_def FIFOSequencer_ctor_def)

theorem requests_in_sequence_are_accepted_witness:
  "\<exists>os'. fold_res (accept_request (Conn 3) 9) (number_from 1 [sample_new, sample_new]) new_server = Inr os'
     \<and> length (pending_client_requests (fifo_sequencer os')) = 2 \<and> cid_next_exp_seq_num os' 1 = 3"
  using requests_in_sequence_are_accepted[of 1 "[sample_new, sample_new]" new_server "Conn 3"
      "seq_request 5 sample_new" 9]
  by (auto simp: seq_request_def limit_defs ME_MAX_PENDING_REQUESTS_def)

text \<open>At the end of a round of reading, the pending requests are published to the matching
  engine in the order of their receive times, none lost and none invented, whatever order
  the sort gives requests with the same time.\<close>

theorem sequencer_publishes_by_time:
  assumes "sorts_by_time srt" "lfq_ok (incoming_requests f)"
    and "length (lfq_items (incoming_requests f)) + length (pending_client_requests f)
      \<le> lfq_capacity (incoming_requests f)"
  shows "\<exists>f' rs. sequenceAndPublish srt f = Inr f' \<and> pending_client_requests f' = []
    \<and> lfq_items (incoming_requests f') = lfq_items (incoming_requests f) @ map request rs
    \<and> mset rs = mset (pending_client_requests f) \<and> sorted_wrt (\<lambda>a b. \<not> recv_before b a) rs"
  by (rule publish_sorted[OF assms])

theorem sequencer_publishes_by_time_witness:
  "\<exists>f' (rs :: RecvTimeClientRequest list). sequenceAndPublish (sort_key (\<lambda>r. sint (recv_time r)))
      \<lparr>pending_client_requests = [\<lparr>recv_time = 9, request = sample_new\<rparr>,
         \<lparr>recv_time = 4, request = sample_new\<rparr>],
       incoming_requests = LFQueue_ctor MEClientRequest_default 4\<rparr> = Inr f'
    \<and> lfq_items (incoming_requests f') = map request rs \<and> length rs = 2"
proof -
  let ?f = "\<lparr>pending_client_requests = [\<lparr>recv_time = 9, request = sample_new\<rparr>,
         \<lparr>recv_time = 4, request = sample_new\<rparr>],
       incoming_requests = LFQueue_ctor MEClientRequest_default 4\<rparr>"
  have q: "lfq_ok (incoming_requests ?f)" "lfq_items (incoming_requests ?f) = []"
    "lfq_capacity (incoming_requests ?f) = 3"
    using lfq_ctor_ok[of 4 MEClientRequest_default] by auto
  have l: "length (lfq_items (incoming_requests ?f)) + length (pending_client_requests ?f)
      \<le> lfq_capacity (incoming_requests ?f)"
    unfolding q(2,3) by simp
  obtain f' rs where f': "sequenceAndPublish (sort_key (\<lambda>r. sint (recv_time r))) ?f = Inr f'"
    "lfq_items (incoming_requests f') = lfq_items (incoming_requests ?f) @ map request rs"
    "mset rs = mset (pending_client_requests ?f)"
    using sequencer_publishes_by_time[OF sorts_by_time_sort_key q(1) l] by blast
  have "length rs = 2" using mset_eq_length[OF f'(3)] by simp
  moreover have "lfq_items (incoming_requests f') = map request rs" using f'(2) unfolding q(2) by simp
  ultimately show ?thesis using f'(1) by blast
qed

text \<open>C21: No request ever reaches the sequencer: as soon as a socket holds one complete
  request (38 bytes), the receive callback ends the process in its second log call, whose format has
  five placeholders for four arguments. The loop over the responses ends it likewise at a response
  to a client inside the table of clients, with six placeholders for seven arguments.\<close>

theorem first_message_ends_the_exchange:
  assumes "38 \<le> next_rcv_valid_index s" "unat (rs_client_id r) < ME_MAX_NUM_CLIENTS"
  shows "recvCallback p s rx os = Inl (Fatal_exit ''missing arguments to log()'')
    \<and> process_response r st = Inl (Fatal_exit ''extra arguments provided to log()'')"
proof -
  have "0 < next_rcv_valid_index s div 38" using assms(1) by (simp add: div_greater_zero_iff)
  then obtain k where k: "next_rcv_valid_index s div 38 = Suc k" by (cases "next_rcv_valid_index s div 38") auto
  have "map (\<lambda>j. 38 * j) [0..<Suc k] = 0 # map (\<lambda>j. 38 * j) [1..<Suc k]"
    by (simp add: upt_rec del: upt_Suc)
  then have "fold_res (recv_one p rx s) (map (\<lambda>j. 38 * j) [0..<Suc k]) os
      = Inl (Fatal_exit ''missing arguments to log()'')"
    by (simp add: recv_one_def log_call_def FATAL_def)
  then have "recvCallback p s rx os = Inl (Fatal_exit ''missing arguments to log()'')"
    using assms(1) k by (simp add: recvCallback_def log_call_def del: upt_Suc)
  moreover have "process_response r st = Inl (Fatal_exit ''extra arguments provided to log()'')"
    using assms(2) by (simp add: process_response_def log_call_def FATAL_def)
  ultimately show ?thesis ..
qed

theorem first_message_ends_the_exchange_witness:
  "recvCallback (Conn 0) ((TCPSocket_ctor (\<lambda>_. 0) (\<lambda>_. 0))\<lparr>next_rcv_valid_index := 40\<rparr>) 5 new_server
     = Inl (Fatal_exit ''missing arguments to log()'')"
  using first_message_ends_the_exchange[of "(TCPSocket_ctor (\<lambda>_. 0) (\<lambda>_. 0))\<lparr>next_rcv_valid_index := 40\<rparr>"
      "MEClientResponse_default\<lparr>rs_client_id := 1\<rparr>" "Conn 0" 5 new_server]
  by (simp add: limit_defs)

text \<open>After the requests of a read are consumed the rest is moved to the front of the buffer
  with a \<open>memcpy\<close> of all but one valid byte: with a partial message of at least two bytes
  behind the consumed ones, source and destination overlap, which is undefined.\<close>

theorem partial_message_overlaps:
  assumes "next_rcv_valid_index s = i + n" "38 \<le> i" "2 \<le> n"
  shows "\<exists>m. drop_consumed i s = Inl (Undefined m)"
  using assms by (simp add: drop_consumed_def memcpy_within_def)

theorem partial_message_overlaps_witness:
  "\<exists>m. drop_consumed 38 ((TCPSocket_ctor (\<lambda>_. 0) (\<lambda>_. 0))\<lparr>next_rcv_valid_index := 50\<rparr>)
     = Inl (Undefined m)"
  by (rule partial_message_overlaps[where n = 12]) simp_all

section \<open>Sockets\<close>

text \<open>The socket of the order server and of its clients is created without ever binding or
  connecting it: the outcome is the same whatever those system calls would do. And the
  helper that sets the TTL of a unicast socket reports success exactly when the call fails.\<close>

theorem tcp_sockets_are_never_bound:
  "TCPSocket_connect (K\<lparr>k_bind := f, k_connect := g\<rparr>) ip iface port lst s
     = TCPSocket_connect K ip iface port lst s
   \<and> (k_setsockopt K n IP_TTL ttl 1 = 0 \<longleftrightarrow> \<not> setTTL K n ttl)"
  by (simp add: TCPSocket_connect_def createSocket_frame setTTL_def)

section \<open>Market data\<close>

text \<open>The publisher gives the updates it takes off the engine's queue consecutive sequence
  numbers, sends them in order on the incremental stream and hands the same numbered
  updates, in the same order, to the snapshot synthesizer.\<close>

theorem publisher_numbers_and_forwards:
  assumes "lfq_ok (pub_updates p)" "lfq_items (pub_updates p) = us"
    and "mc_next_send_valid_index (incremental_socket p) = 0" "42 * length us < McastBufferSize"
    and "lfq_ok (snapshot_md_updates p)"
    and "length (lfq_items (snapshot_md_updates p)) + length us \<le> lfq_capacity (snapshot_md_updates p)"
    and "\<And>room. io_recv io room = []"
  shows "\<exists>p'. MarketDataPublisher_iteration io p
      = Inr (concat (map encode_MDPMarketUpdate (number_updates (next_inc_seq_num p) us)), p')
    \<and> lfq_items (pub_updates p') = [] \<and> next_inc_seq_num p' = next_inc_seq_num p + of_nat (length us)
    \<and> lfq_items (snapshot_md_updates p') = lfq_items (snapshot_md_updates p)
        @ number_updates (next_inc_seq_num p) us
    \<and> mc_next_send_valid_index (incremental_socket p') = 0"
  using iteration_ok[OF assms] by blast

definition quiet_io :: NetIO where
  "quiet_io = \<lparr>io_recv = (\<lambda>_. []), io_cmsg = None, io_send = (\<lambda>bs. int (length bs)),
     io_would_block = False\<rparr>"

lemma quiet_io_recv [simp]: "io_recv quiet_io room = []"
  by (simp add: quiet_io_def)

definition mdp_zero :: MDPMarketUpdate where
  "mdp_zero = \<lparr>mdp_seq_num = 0, me_market_update = MEMarketUpdate_default\<rparr>"

theorem publisher_numbers_and_forwards_witness:
  "\<exists>p wire p'. lfq_items (pub_updates p) = [MEMarketUpdate_default]
     \<and> MarketDataPublisher_iteration quiet_io p = Inr (wire, p')
     \<and> lfq_items (snapshot_md_updates p') = [\<lparr>mdp_seq_num = 1, me_market_update = MEMarketUpdate_default\<rparr>]"
proof -
  let ?q = "LFQueue_ctor MEMarketUpdate_default 4"
  obtain q where q: "fold_res lfq_push [MEMarketUpdate_default] ?q = Inr q" "lfq_ok q"
    "lfq_items q = [MEMarketUpdate_default]"
    using lfq.push_all[of ?q "[MEMarketUpdate_default]"] lfq_ctor_ok[of 4 MEMarketUpdate_default]
    by auto
  let ?p = "\<lparr>next_inc_seq_num = 1, pub_updates = q, snapshot_md_updates = LFQueue_ctor mdp_zero 4,
     pub_run = True, incremental_socket = McastSocket_ctor\<rparr>"
  have "\<exists>p'. MarketDataPublisher_iteration quiet_io ?p
      = Inr (concat (map encode_MDPMarketUpdate (number_updates (next_inc_seq_num ?p) [MEMarketUpdate_default])), p')
    \<and> lfq_items (pub_updates p') = []
    \<and> next_inc_seq_num p' = next_inc_seq_num ?p + of_nat (length [MEMarketUpdate_default])
    \<and> lfq_items (snapshot_md_updates p') = lfq_items (snapshot_md_updates ?p)
        @ number_updates (next_inc_seq_num ?p) [MEMarketUpdate_default]
    \<and> mc_next_send_valid_index (incremental_socket p') = 0"
    by (rule publisher_numbers_and_forwards)
      (use q(2,3) lfq_ctor_ok[of 4 mdp_zero] in \<open>auto simp: McastSocket_ctor_def McastBufferSize_def\<close>)
  then show ?thesis
    using q(3) lfq_ctor_ok[of 4 mdp_zero] by (intro exI[of _ ?p]) auto
qed

text \<open>C5: The synthesizer refines one map per ticker from order ids to live orders. The update
  it is given has the number after the last one (any other number fails an ASSERT and ends the
  process), names a ticker inside the table, and is one the map has a meaning for
  (\<open>snap_apply\<close>): an ADD of an id inside the table that is not live inserts, a MODIFY
  of a live order on the same side changes its quantity and price, a CANCEL of a live order on the
  same side removes it, every other type of update leaves the map alone. Then, as long as the pool
  of orders has room for one more than it will hold, the synthesizer returns with the map so changed
  and expects the next number.\<close>

theorem synthesizer_refines_snapshot:
  assumes "snap_rep s" "mdp_seq_num m = last_inc_seq_num s + 1"
    and "snap_apply (me_market_update m) (snap_abs s) = Some M"
    and "card (live (ss_order_pool s)) + 1 < ME_MAX_ORDER_IDS"
  shows "\<exists>s'. addToSnapshot m s = Inr s' \<and> snap_rep s' \<and> snap_abs s' = M
    \<and> last_inc_seq_num s' = last_inc_seq_num s + 1"
  by (rule addToSnapshot_ok[OF assms])

definition new_synthesizer :: SnapshotSynthesizer where
  "new_synthesizer = \<lparr>ss_updates = LFQueue_ctor mdp_zero 4, ss_run = True,
     snapshot_socket = McastSocket_ctor, ticker_orders = (\<lambda>_ _. None), last_inc_seq_num = 0,
     last_snapshot_time = 0, ss_order_pool = MemPool_ctor MEMarketUpdate_default ME_MAX_ORDER_IDS\<rparr>"

lemma new_synthesizer_rep: "snap_rep new_synthesizer" "snap_abs new_synthesizer = (\<lambda>_ _. None)"
  by (auto simp: snap_rep_def entry_def snap_abs_def new_synthesizer_def fun_eq_iff limit_defs
      intro!: ctor_pool_wf)

definition sample_add :: MDPMarketUpdate where
  "sample_add = \<lparr>mdp_seq_num = 1, me_market_update = \<lparr>mu_type = MUT_ADD, mu_order_id = 7,
     mu_ticker_id = 2, mu_side = BUY, mu_price = 100, mu_qty = 5, mu_priority = 1\<rparr>\<rparr>"

theorem synthesizer_refines_snapshot_witness:
  "\<exists>s'. addToSnapshot sample_add new_synthesizer = Inr s'
     \<and> snap_abs s' 2 7 = Some (me_market_update sample_add)"
proof -
  let ?M = "snap_update 2 7 (Some (me_market_update sample_add)) (\<lambda>_ _. None)"
  have "snap_apply (me_market_update sample_add) (snap_abs new_synthesizer) = Some ?M"
    by (simp add: new_synthesizer_rep snap_apply_def sample_add_def limit_defs)
  moreover have "mdp_seq_num sample_add = last_inc_seq_num new_synthesizer + 1"
    "card (live (ss_order_pool new_synthesizer)) + 1 < ME_MAX_ORDER_IDS"
    by (simp_all add: sample_add_def new_synthesizer_def limit_defs)
  ultimately obtain s' where "addToSnapshot sample_add new_synthesizer = Inr s'" "snap_abs s' = ?M"
    using synthesizer_refines_snapshot[OF new_synthesizer_rep(1)] by blast
  then show ?thesis by (simp add: snap_update_def)
qed

text \<open>A snapshot on the wire is, byte for byte, the messages of the abstract snapshot numbered
  from 0: START with the last incremental number, for each ticker a CLEAR and then its live
  orders by id, END with the same number; the send buffer never overflows on the way.\<close>

theorem snapshot_stream_is_the_snapshot:
  assumes "\<And>room. io_recv io room = []" "mc_next_send_valid_index (snapshot_socket s) = 0"
  shows "\<exists>dgrams s'. publishSnapshot io s = Inr (dgrams, s')
    \<and> concat dgrams = concat (map encode_MDPMarketUpdate
        (number_updates 0 (snapshot_list (snap_abs s) (last_inc_seq_num s))))
    \<and> mc_next_send_valid_index (snapshot_socket s') = 0"
  by (rule publishSnapshot_ok[OF assms])

theorem snapshot_stream_is_the_snapshot_witness:
  "\<exists>dgrams s'. publishSnapshot quiet_io new_synthesizer = Inr (dgrams, s')
    \<and> concat dgrams = concat (map encode_MDPMarketUpdate (number_updates 0 (snapshot_list (\<lambda>_ _. None) 0)))"
  using snapshot_stream_is_the_snapshot[OF quiet_io_recv, of new_synthesizer]
  unfolding new_synthesizer_rep(2)
  by (auto simp: new_synthesizer_def McastSocket_ctor_def)

section \<open>Two resting orders\<close>

text \<open>C14: Two resting orders of a client are enough to stop the snapshot: on an empty book
  the engine accepts two buy orders for one ticker (with different order ids inside the table,
  quantities that are not zero and prices that do not share an index) and announces both, with
  nothing in between, under the market order id 1, and the synthesizer that receives the two
  announcements ends the process, in whatever state it was.\<close>

theorem two_resting_orders_stop_the_snapshot:
  assumes e: "engine_refines e Bs" and c: "unat c < ME_MAX_TICKERS" and b: "Bs (unat c) = (\<lambda>_. [])"
    and r1: "rq_type r1 = CRT_NEW" "rq_client_id r1 = c" "rq_side r1 = BUY" "rq_qty r1 \<noteq> 0"
      "unat (rq_order_id r1) < ME_MAX_ORDER_IDS"
    and r2: "rq_type r2 = CRT_NEW" "rq_client_id r2 = c" "rq_side r2 = BUY" "rq_qty r2 \<noteq> 0"
      "unat (rq_order_id r2) < ME_MAX_ORDER_IDS"
    and d: "rq_order_id r1 \<noteq> rq_order_id r2" "rq_ticker_id r2 = rq_ticker_id r1"
      "pidx (rq_price r1) = pidx (rq_price r2) \<longrightarrow> rq_price r1 = rq_price r2"
  shows "\<exists>ea eb u1 u2. processClientRequest r1 e = Inr ea \<and> processClientRequest r2 ea = Inr eb
    \<and> fold_res lfq_push [u1, u2] (eng_updates e) = Inr (eng_updates eb)
    \<and> (\<exists>err. fold_res addToSnapshot (number_updates n [u1, u2]) s = Inl err)"
proof -
  let ?i = "unat c"
  let ?u = "\<lambda>r prio. \<lparr>mu_type = MUT_ADD, mu_order_id = 1, mu_ticker_id = rq_ticker_id r1, mu_side = BUY,
    mu_price = rq_price r, mu_qty = rq_qty r, mu_priority = prio\<rparr>"
  let ?ao = "\<lparr>a_client = c, a_coid = rq_order_id r1, a_moid = 1, a_qty = rq_qty r1, a_prio = 1\<rparr>"
  define A1 where "A1 = ((\<lambda>_. [])(BUY := [(rq_price r1, [?ao])]) :: abook)"
  obtain rs1 where s1: "spec_add (rq_ticker_id r1) 1 c (rq_order_id r1) BUY (rq_price r1) (rq_qty r1)
      (Bs ?i) = (A1, rs1, [?u r1 1])"
    using r1(4) by (simp add: b spec_add_def Let_def next_prio_def A1_def fun_upd_def fun_eq_iff)
  have c1: "can_rest c (rq_order_id r1) BUY (rq_price r1) (Bs ?i)"
    using c r1(5) by (simp add: b can_rest_def book_orders_def book_levels_def limit_defs)
  obtain ea where ea: "processClientRequest r1 e = Inr ea" "engine_refines ea (Bs(?i := A1))"
    "eng_sent rs1 [?u r1 1] e ea"
    using process_new[OF e, of r1] c r1 b c1 s1 by auto
  have c2: "can_rest c (rq_order_id r2) BUY (rq_price r2) A1"
    using c r2(5) d(1,3) by (simp add: A1_def can_rest_def book_orders_def book_levels_def limit_defs
        has_ids_def)
  obtain A2 rs2 prio where s2: "spec_add (rq_ticker_id r2) 1 c (rq_order_id r2) BUY (rq_price r2)
      (rq_qty r2) A1 = (A2, rs2, [?u r2 prio])"
    using r2(4) d(2) by (simp add: spec_add_def Let_def A1_def)
  obtain eb where eb: "processClientRequest r2 ea = Inr eb" "eng_sent rs2 [?u r2 prio] ea eb"
    using process_new[OF ea(2), of r2] c r2 c2 s2 by (auto simp: A1_def)
  have "fold_res lfq_push [?u r1 1, ?u r2 prio] (eng_updates e) = Inr (eng_updates eb)"
    using ea(3) eb(2) by (auto simp: eng_sent_def elim!: bindr_InrE)
  moreover have "\<exists>err. fold_res addToSnapshot (number_updates n [?u r1 1, ?u r2 prio]) s = Inl err"
    unfolding number_updates.simps by (rule add_twice_fails) simp_all
  ultimately show ?thesis using ea(1) eb(1) by blast
qed

theorem two_resting_orders_stop_the_snapshot_witness:
  "\<exists>ea eb u1 u2. processClientRequest sample_new new_engine = Inr ea
    \<and> processClientRequest (sample_new\<lparr>rq_order_id := 6, rq_price := 101\<rparr>) ea = Inr eb
    \<and> (\<exists>err. fold_res addToSnapshot (number_updates 1 [u1, u2]) new_synthesizer = Inl err)"
proof -
  have p: "pidx 100 = pidx 101 \<longrightarrow> (100::Price) = 101" by (simp add: pidx_def limit_defs)
  show ?thesis
    using two_resting_orders_stop_the_snapshot[OF new_engine_refines, of 1 sample_new
        "sample_new\<lparr>rq_order_id := 6, rq_price := 101\<rparr>" 1 new_synthesizer] p
    by (auto simp: limit_defs)
qed

end
