(* ===== verification/Fifo.thy ===== *)
theory Fifo
  imports LockFreeQueue
begin

text \<open>
  \<open>Mutex&LockFree/fifo1.h\<close> to \<open>fifo5.h\<close>: five versions of a bounded queue for one producer and
  one consumer. Two cursors of type \<open>size_t\<close> run freely and wrap at \<open>2^64\<close>; the element
  of a cursor is at \<open>cursor % capacity\<close> of uninitialised storage, in which \<open>push\<close>
  constructs an object and \<open>pop\<close> destroys it. Here: the operations called one after the
  other. The versions with cached cursors between two threads are in \<open>FifoSteps\<close>.
\<close>

section \<open>The queue and its cursors\<close>

text \<open>A slot is raw memory (\<open>None\<close>) or holds an object.\<close>

record 'a Fifo =
  ff_capacity :: "64 word"
  ff_ring :: "nat \<Rightarrow> 'a option"
  pushCursor :: "64 word"
  popCursor :: "64 word"

definition Fifo1_ctor :: "64 word \<Rightarrow> 'a Fifo" where
  "Fifo1_ctor n = \<lparr>ff_capacity = n, ff_ring = (\<lambda>_. None), pushCursor = 0, popCursor = 0\<rparr>"

definition fifo_size :: "('a, 'z) Fifo_scheme \<Rightarrow> 64 word" where
  "fifo_size f = pushCursor f - popCursor f"

definition fifo_empty :: "('a, 'z) Fifo_scheme \<Rightarrow> bool" where
  "fifo_empty f \<longleftrightarrow> fifo_size f = 0"

definition fifo_full :: "('a, 'z) Fifo_scheme \<Rightarrow> bool" where
  "fifo_full f \<longleftrightarrow> fifo_size f = ff_capacity f"

text \<open>\<open>cursor % _capacity\<close>, and what the operations do to the slot there.\<close>

definition fifo_slot :: "64 word \<Rightarrow> ('a, 'z) Fifo_scheme \<Rightarrow> nat res" where
  "fifo_slot cursor f =
     (if ff_capacity f = 0 then Inl (Undefined ''remainder by zero'')
      else Inr (unat (cursor mod ff_capacity f)))"

definition construct_at :: "64 word \<Rightarrow> 'a \<Rightarrow> ('a, 'z) Fifo_scheme \<Rightarrow> ('a, 'z) Fifo_scheme res" where
  "construct_at cursor v f =
     bindr (fifo_slot cursor f) (\<lambda>i. Inr (f\<lparr>ff_ring := (ff_ring f)(i := Some v)\<rparr>))"

definition read_at :: "64 word \<Rightarrow> ('a, 'z) Fifo_scheme \<Rightarrow> 'a res" where
  "read_at cursor f =
     bindr (fifo_slot cursor f) (\<lambda>i.
       case ff_ring f i of None \<Rightarrow> Inl (Undefined ''object outside its lifetime'') | Some v \<Rightarrow> Inr v)"

definition destroy_at :: "64 word \<Rightarrow> ('a, 'z) Fifo_scheme \<Rightarrow> ('a, 'z) Fifo_scheme res" where
  "destroy_at cursor f =
     bindr (read_at cursor f) (\<lambda>_.
     bindr (fifo_slot cursor f) (\<lambda>i. Inr (f\<lparr>ff_ring := (ff_ring f)(i := None)\<rparr>)))"

section \<open>\<open>Fifo1\<close>\<close>

definition Fifo1_push :: "'a \<Rightarrow> 'a Fifo \<Rightarrow> (bool \<times> 'a Fifo) res" where
  "Fifo1_push v f =
     (if fifo_full f then Inr (False, f)
      else bindr (construct_at (pushCursor f) v f) (\<lambda>f.
           Inr (True, f\<lparr>pushCursor := pushCursor f + 1\<rparr>)))"

text \<open>The value that \<open>pop\<close> assigns when it returns true.\<close>

definition Fifo1_pop :: "'a Fifo \<Rightarrow> ('a option \<times> 'a Fifo) res" where
  "Fifo1_pop f =
     (if fifo_empty f then Inr (None, f)
      else bindr (read_at (popCursor f) f) (\<lambda>v.
           bindr (destroy_at (popCursor f) f) (\<lambda>f.
           Inr (Some v, f\<lparr>popCursor := popCursor f + 1\<rparr>))))"

text \<open>The loop of the destructor ends: each iteration lowers the size by one.\<close>

lemma unat_minus_1_less: "(x :: 64 word) \<noteq> 0 \<Longrightarrow> unat (x - 1) < unat x"
  by (metis One_nat_def diff_less gr0I unat_eq_0 unat_minus_one zero_less_Suc)

lemma destroy_at_frame:
  "destroy_at c f = Inr g \<Longrightarrow> pushCursor g = pushCursor f \<and> popCursor g = popCursor f \<and> ff_capacity g = ff_capacity f"
  by (auto simp: destroy_at_def elim!: bindr_InrE)

function Fifo1_dtor :: "'a Fifo \<Rightarrow> 'a Fifo res" where
  "Fifo1_dtor f =
     (if fifo_empty f then Inr f
      else case destroy_at (popCursor f) f of
             Inl e \<Rightarrow> Inl e
           | Inr g \<Rightarrow> Fifo1_dtor (g\<lparr>popCursor := popCursor g + 1\<rparr>))"
  by auto
termination
proof (relation "measure (\<lambda>f. unat (fifo_size f))", goal_cases)
  case (2 f g)
  then show ?case
    using unat_minus_1_less[of "fifo_size f"] destroy_at_frame[of "popCursor f" f g]
    by (simp add: fifo_size_def fifo_empty_def diff_diff_eq)
qed simp

declare Fifo1_dtor.simps [simp del]

section \<open>Slots and absolute positions\<close>

text \<open>The position of an element is the number of elements pushed before it; the slots are the
  positions modulo the capacity. When the capacity divides \<open>2^64\<close> the wrap of the cursors
  does not move an element to another slot.\<close>

definition fits :: "64 word \<Rightarrow> bool" where
  "fits c \<longleftrightarrow> 0 < c \<and> unat c dvd 2 ^ 64"

lemma fits_slot: "fits c \<Longrightarrow> unat (of_nat i mod c) = i mod unat c"
  by (simp add: fits_def unat_mod_distrib unat_of_nat mod_mod_cancel)

lemma fits_pos: "fits c \<Longrightarrow> 0 < unat c"
  by (auto simp: fits_def unat_gt_0 word_gt_0)

text \<open>What the storage holds in the window of \<open>cap\<close> positions from \<open>C\<close>.\<close>

definition holds_from :: "nat \<Rightarrow> nat \<Rightarrow> (nat \<Rightarrow> 'a option) \<Rightarrow> (nat \<Rightarrow> 'a option) \<Rightarrow> bool" where
  "holds_from cap C g ring \<longleftrightarrow> (\<forall>i. C \<le> i \<and> i < C + cap \<longrightarrow> ring (i mod cap) = g i)"

lemma holds_from_set:
  assumes "holds_from cap C g ring" "C \<le> j" "j < C + cap"
  shows "holds_from cap C (g(j := x)) (ring(j mod cap := x))"
proof -
  have "i mod cap \<noteq> j mod cap" if "C \<le> i" "i < C + cap" "i \<noteq> j" for i
  proof (cases "i < j")
    case True
    then have "0 < j - i" "j - i < cap" "i + (j - i) = j" using that assms(2,3) by arith+
    then show ?thesis using mod_index_inj[of 0 "j - i" cap i] by auto
  next
    case False
    then have "0 < i - j" "i - j < cap" "j + (i - j) = i" using that assms(2,3) by arith+
    then show ?thesis using mod_index_inj[of 0 "i - j" cap j] by auto
  qed
  then show ?thesis using assms(1) by (auto simp: holds_from_def)
qed

lemma holds_from_advance:
  assumes "holds_from cap C g ring" "0 < cap"
  shows "holds_from cap (Suc C) (g(C + cap := g C)) ring"
  using assms by (auto simp: holds_from_def)

lemma holds_from_at: "holds_from cap C g ring \<Longrightarrow> C \<le> i \<Longrightarrow> i < C + cap \<Longrightarrow> ring (i mod cap) = g i"
  by (simp add: holds_from_def)

lemma holds_from_cong:
  "holds_from cap C g ring \<Longrightarrow> (\<And>i. C \<le> i \<Longrightarrow> i < C + cap \<Longrightarrow> g i = g' i) \<Longrightarrow> holds_from cap C g' ring"
  by (simp add: holds_from_def)

text \<open>The elements \<open>xs\<close> from position \<open>C\<close> on.\<close>

definition content :: "nat \<Rightarrow> 'a list \<Rightarrow> nat \<Rightarrow> 'a option" where
  "content C xs i = (if C \<le> i \<and> i < C + length xs then Some (xs ! (i - C)) else None)"

lemma content_snoc: "content C (xs @ [v]) = (content C xs)(C + length xs := Some v)"
  by (auto simp: content_def fun_eq_iff nth_append)

lemma content_tl: "content (Suc C) xs = (content C (x # xs))(C := None)"
  by (auto simp: content_def fun_eq_iff nth_Cons')

lemma unat_of_small: "n \<le> unat (c :: 64 word) \<Longrightarrow> unat (of_nat n :: 64 word) = n"
proof -
  assume n: "n \<le> unat c"
  have "unat c < 2 ^ LENGTH(64)" by (rule unsigned_less)
  then show ?thesis using n by (simp add: unat_of_nat)
qed

lemma small_of_nat_eq: "n \<le> unat (c :: 64 word) \<Longrightarrow> of_nat n = c \<longleftrightarrow> n = unat c"
  using unat_of_small[of n c] by (auto simp: word_eq_iff_unsigned)

lemma small_of_nat_0: "n \<le> unat (c :: 64 word) \<Longrightarrow> (of_nat n :: 64 word) = 0 \<longleftrightarrow> n = 0"
  using unat_of_small[of n c] by auto

section \<open>A bounded queue\<close>

text \<open>What the five versions promise: \<open>rep q xs\<close> says that \<open>q\<close> holds \<open>xs\<close>, oldest first.\<close>

locale bounded_queue =
  fixes push :: "'a \<Rightarrow> 'q \<Rightarrow> (bool \<times> 'q) res"
    and pop :: "'q \<Rightarrow> ('a option \<times> 'q) res"
    and rep :: "'q \<Rightarrow> 'a list \<Rightarrow> bool"
    and cap :: "'q \<Rightarrow> nat"
  assumes push_full: "rep q xs \<Longrightarrow> length xs = cap q \<Longrightarrow> push v q = Inr (False, q)"
    and push_room: "rep q xs \<Longrightarrow> length xs < cap q \<Longrightarrow>
      \<exists>q'. push v q = Inr (True, q') \<and> rep q' (xs @ [v]) \<and> cap q' = cap q"
    and pop_empty: "rep q [] \<Longrightarrow> pop q = Inr (None, q)"
    and pop_some: "rep q (x # xs) \<Longrightarrow> \<exists>q'. pop q = Inr (Some x, q') \<and> rep q' xs \<and> cap q' = cap q"
begin

lemma push_list:
  assumes "rep q xs" "length xs + length vs \<le> cap q"
  shows "\<exists>q'. fold_res (\<lambda>v q. bindr (push v q) (\<lambda>(ok, q). Inr q)) vs q = Inr q' \<and> rep q' (xs @ vs) \<and> cap q' = cap q"
  using assms
proof (induction vs arbitrary: q xs)
  case (Cons v vs)
  obtain q1 where q1: "push v q = Inr (True, q1)" "rep q1 (xs @ [v])" "cap q1 = cap q"
    using push_room[of q xs v] Cons.prems by auto
  then show ?case using Cons.IH[of q1 "xs @ [v]"] Cons.prems by auto
qed simp

end

section \<open>\<open>Fifo1\<close> is a bounded queue\<close>

definition Fifo1_rep :: "'a Fifo \<Rightarrow> 'a list \<Rightarrow> bool" where
  "Fifo1_rep f xs \<longleftrightarrow> fits (ff_capacity f) \<and> length xs \<le> unat (ff_capacity f)
     \<and> (\<exists>C. popCursor f = of_nat C \<and> pushCursor f = of_nat (C + length xs)
           \<and> holds_from (unat (ff_capacity f)) C (content C xs) (ff_ring f))"

lemma Fifo1_ctor_rep: "fits n \<Longrightarrow> Fifo1_rep (Fifo1_ctor n) []"
  by (auto simp: Fifo1_rep_def Fifo1_ctor_def holds_from_def content_def intro!: exI[of _ 0])

lemma fifo_slot_of_nat: "fits (ff_capacity f) \<Longrightarrow> fifo_slot (of_nat i) f = Inr (i mod unat (ff_capacity f))"
  using fits_slot[of "ff_capacity f" i] by (auto simp: fifo_slot_def fits_def)

lemma Fifo1_rep_size:
  assumes "Fifo1_rep f xs"
  shows "fifo_empty f \<longleftrightarrow> xs = []" "fifo_full f \<longleftrightarrow> length xs = unat (ff_capacity f)"
  using assms small_of_nat_0[of "length xs" "ff_capacity f"] small_of_nat_eq[of "length xs" "ff_capacity f"]
  by (auto simp: Fifo1_rep_def fifo_empty_def fifo_full_def fifo_size_def)

lemma Fifo1_push_room:
  assumes "Fifo1_rep f xs" "length xs < unat (ff_capacity f)"
  shows "\<exists>g. Fifo1_push v f = Inr (True, g) \<and> Fifo1_rep g (xs @ [v]) \<and> ff_capacity g = ff_capacity f"
proof -
  obtain C where C: "popCursor f = of_nat C" "pushCursor f = of_nat (C + length xs)"
    "holds_from (unat (ff_capacity f)) C (content C xs) (ff_ring f)" and fit: "fits (ff_capacity f)"
    using assms(1) by (auto simp: Fifo1_rep_def)
  let ?g = "f\<lparr>ff_ring := (ff_ring f)((C + length xs) mod unat (ff_capacity f) := Some v),
      pushCursor := of_nat (Suc (C + length xs))\<rparr>"
  have "holds_from (unat (ff_capacity f)) C (content C (xs @ [v])) (ff_ring ?g)"
    using holds_from_set[OF C(3), of "C + length xs" "Some v"] assms(2) by (simp add: content_snoc)
  then have "Fifo1_rep ?g (xs @ [v])"
    using C(1) fit assms(2) by (auto simp: Fifo1_rep_def intro!: exI[of _ C])
  moreover have "Fifo1_push v f = Inr (True, ?g)"
    using C(2) Fifo1_rep_size(2)[OF assms(1)] assms(2) fifo_slot_of_nat[OF fit, of "C + length xs"]
    by (simp add: Fifo1_push_def construct_at_def add.commute)
  ultimately show ?thesis by (intro exI[of _ ?g]) simp
qed

lemma destroy_first:
  assumes "Fifo1_rep f (x # xs)"
  shows "read_at (popCursor f) f = Inr x"
    "\<exists>g. destroy_at (popCursor f) f = Inr g \<and> Fifo1_rep (g\<lparr>popCursor := popCursor g + 1\<rparr>) xs
      \<and> ff_capacity g = ff_capacity f"
proof -
  obtain C where C: "popCursor f = of_nat C" "pushCursor f = of_nat (C + length (x # xs))"
    "holds_from (unat (ff_capacity f)) C (content C (x # xs)) (ff_ring f)" and fit: "fits (ff_capacity f)"
    using assms by (auto simp: Fifo1_rep_def)
  let ?c = "unat (ff_capacity f)" and ?g = "f\<lparr>ff_ring := (ff_ring f)(C mod unat (ff_capacity f) := None)\<rparr>"
  note pos = fits_pos[OF fit]
  have "ff_ring f (C mod ?c) = Some x"
    using holds_from_at[OF C(3), of C] pos by (simp add: content_def)
  then show rd: "read_at (popCursor f) f = Inr x"
    using C(1) fifo_slot_of_nat[OF fit, of C] by (simp add: read_at_def)
  have "holds_from ?c (Suc C) (content (Suc C) xs) (ff_ring ?g)"
    using holds_from_advance[OF holds_from_set[OF C(3), of C None] pos] pos assms
    by (auto simp: content_tl[of C xs x] Fifo1_rep_def elim!: holds_from_cong)
       (auto simp: content_def)
  then have "Fifo1_rep (?g\<lparr>popCursor := popCursor ?g + 1\<rparr>) xs"
    using assms C fit by (auto simp: Fifo1_rep_def add.commute intro!: exI[of _ "Suc C"])
  moreover have "destroy_at (popCursor f) f = Inr ?g"
    using rd C(1) fifo_slot_of_nat[OF fit, of C] by (simp add: destroy_at_def)
  ultimately show "\<exists>g. destroy_at (popCursor f) f = Inr g \<and> Fifo1_rep (g\<lparr>popCursor := popCursor g + 1\<rparr>) xs
      \<and> ff_capacity g = ff_capacity f"
    by (intro exI[of _ ?g]) simp
qed

lemma Fifo1_pop_some:
  assumes "Fifo1_rep f (x # xs)"
  shows "\<exists>g. Fifo1_pop f = Inr (Some x, g) \<and> Fifo1_rep g xs \<and> ff_capacity g = ff_capacity f"
proof -
  obtain g where "destroy_at (popCursor f) f = Inr g" "Fifo1_rep (g\<lparr>popCursor := popCursor g + 1\<rparr>) xs"
    "ff_capacity g = ff_capacity f"
    using destroy_first(2)[OF assms] by blast
  then show ?thesis
    using destroy_first(1)[OF assms] Fifo1_rep_size(1)[OF assms] by (simp add: Fifo1_pop_def)
qed

interpretation fifo1: bounded_queue Fifo1_push Fifo1_pop Fifo1_rep "\<lambda>f. unat (ff_capacity f)"
proof (unfold_locales, goal_cases)
  case (1 f xs v)
  then show ?case using Fifo1_rep_size(2)[OF 1(1)] by (simp add: Fifo1_push_def)
next
  case (2 f xs v)
  then show ?case using Fifo1_push_room[of f xs v] by metis
next
  case (3 f)
  then show ?case using Fifo1_rep_size(1)[OF 3] by (simp add: Fifo1_pop_def)
next
  case (4 f x xs)
  then show ?case using Fifo1_pop_some[of f x xs] by metis
qed

text \<open>The destructor destroys every object and nothing else.\<close>

lemma Fifo1_dtor_ok: "Fifo1_rep f xs \<Longrightarrow> \<exists>g. Fifo1_dtor f = Inr g \<and> Fifo1_rep g []"
proof (induction xs arbitrary: f)
  case Nil
  then show ?case using Fifo1_rep_size(1)[OF Nil] by (subst Fifo1_dtor.simps) simp
next
  case (Cons x xs)
  obtain g where g: "destroy_at (popCursor f) f = Inr g" "Fifo1_rep (g\<lparr>popCursor := popCursor g + 1\<rparr>) xs"
    using destroy_first(2)[OF Cons.prems] by blast
  then show ?case
    using Cons.IH[OF g(2)] Fifo1_rep_size(1)[OF Cons.prems] by (subst Fifo1_dtor.simps) simp
qed

lemma Fifo1_rep_Nil_raw:
  assumes "Fifo1_rep f []" "k < unat (ff_capacity f)"
  shows "ff_ring f k = None"
proof -
  let ?c = "unat (ff_capacity f)"
  obtain C where C: "holds_from ?c C (content C []) (ff_ring f)" using assms by (auto simp: Fifo1_rep_def)
  obtain i where i: "C \<le> i" "i < C + ?c" "i mod ?c = k"
  proof
    let ?i = "C + (k + ?c - C mod ?c) mod ?c"
    have "?i mod ?c = (C mod ?c + (k + ?c - C mod ?c)) mod ?c" by (simp add: mod_simps)
    also have "C mod ?c + (k + ?c - C mod ?c) = k + ?c"
      using assms(2) mod_less_divisor[of ?c C] by linarith
    also have "(k + ?c) mod ?c = k" using assms(2) by simp
    finally show "?i mod ?c = k" .
    show "?i < C + ?c" using assms(2) by simp
  qed simp
  show ?thesis using holds_from_at[OF C i(1,2)] i(3) by (simp add: content_def)
qed

section \<open>\<open>Fifo5\<close>\<close>

text \<open>
  The last version hands out a \<open>pusher_t\<close> and a \<open>popper_t\<close>, whose destructors advance the
  cursor; both threads keep the last value they saw of the other's cursor. The destructor
  of \<open>popper_t\<close> stores to \<open>_pushCursor\<close>, as that of \<open>pusher_t\<close> does. \<open>T\<close> is trivial, so an
  assignment to raw storage makes an object, and nothing is destroyed. The members are those
  of \<open>Fifo4\<close>.
\<close>

record 'a Fifo4 = "'a Fifo" +
  cachedPopCursor :: "64 word"
  cachedPushCursor :: "64 word"

type_synonym 'a Fifo5 = "'a Fifo4"

definition Fifo4_ctor :: "64 word \<Rightarrow> 'a Fifo4" where
  "Fifo4_ctor n = \<lparr>ff_capacity = n, ff_ring = (\<lambda>_. None), pushCursor = 0, popCursor = 0,
     cachedPopCursor = 0, cachedPushCursor = 0\<rparr>"

definition full_at :: "64 word \<Rightarrow> 64 word \<Rightarrow> ('a, 'z) Fifo_scheme \<Rightarrow> bool" where
  "full_at pushC popC f \<longleftrightarrow> pushC - popC = ff_capacity f"

definition empty_at :: "64 word \<Rightarrow> 64 word \<Rightarrow> bool" where
  "empty_at pushC popC \<longleftrightarrow> pushC = popC"

text \<open>The token holds the cursor, or nothing when the queue is full or empty.\<close>

definition Fifo5_pusher :: "'a Fifo5 \<Rightarrow> 64 word option \<times> 'a Fifo5" where
  "Fifo5_pusher f =
     (let cur = pushCursor f
      in if full_at cur (cachedPopCursor f) f
         then let f = f\<lparr>cachedPopCursor := popCursor f\<rparr>
              in if full_at cur (cachedPopCursor f) f then (None, f) else (Some cur, f)
         else (Some cur, f))"

definition pusher_t_dtor :: "64 word option \<Rightarrow> 'a Fifo5 \<Rightarrow> 'a Fifo5" where
  "pusher_t_dtor tok f = (case tok of None \<Rightarrow> f | Some cur \<Rightarrow> f\<lparr>pushCursor := cur + 1\<rparr>)"

definition Fifo5_push :: "'a \<Rightarrow> 'a Fifo5 \<Rightarrow> (bool \<times> 'a Fifo5) res" where
  "Fifo5_push v f =
     (case Fifo5_pusher f of
        (None, f) \<Rightarrow> Inr (False, pusher_t_dtor None f)
      | (Some cur, f) \<Rightarrow> bindr (construct_at cur v f) (\<lambda>f. Inr (True, pusher_t_dtor (Some cur) f)))"

definition Fifo5_popper :: "'a Fifo5 \<Rightarrow> 64 word option \<times> 'a Fifo5" where
  "Fifo5_popper f =
     (let cur = popCursor f
      in if empty_at (cachedPushCursor f) cur
         then let f = f\<lparr>cachedPushCursor := pushCursor f\<rparr>
              in if empty_at (cachedPushCursor f) cur then (None, f) else (Some cur, f)
         else (Some cur, f))"

definition popper_t_dtor :: "64 word option \<Rightarrow> 'a Fifo5 \<Rightarrow> 'a Fifo5" where
  "popper_t_dtor tok f = (case tok of None \<Rightarrow> f | Some cur \<Rightarrow> f\<lparr>pushCursor := cur + 1\<rparr>)"

definition Fifo5_pop :: "'a Fifo5 \<Rightarrow> ('a option \<times> 'a Fifo5) res" where
  "Fifo5_pop f =
     (case Fifo5_popper f of
        (None, f) \<Rightarrow> Inr (None, popper_t_dtor None f)
      | (Some cur, f) \<Rightarrow> bindr (read_at cur f) (\<lambda>v. Inr (Some v, popper_t_dtor (Some cur) f)))"

text \<open>A state in which \<open>pop\<close> finds the element \<open>x\<close>; it is one after the pop too.\<close>

definition offers :: "'a \<Rightarrow> 'a Fifo5 \<Rightarrow> bool" where
  "offers x f \<longleftrightarrow> pushCursor f \<noteq> popCursor f \<and> read_at (popCursor f) f = Inr x"

lemma read_at_cong:
  "ff_ring g = ff_ring f \<Longrightarrow> ff_capacity g = ff_capacity f \<Longrightarrow> read_at c g = read_at c f"
  by (simp add: read_at_def fifo_slot_def)

lemma Fifo5_pop_offers:
  assumes "offers x f"
  shows "\<exists>g. Fifo5_pop f = Inr (Some x, g) \<and> offers x g \<and> popCursor g = popCursor f
    \<and> pushCursor g = popCursor f + 1"
proof -
  obtain f' where f': "Fifo5_popper f = (Some (popCursor f), f')" "ff_ring f' = ff_ring f"
    "ff_capacity f' = ff_capacity f" "popCursor f' = popCursor f"
    using assms by (cases "empty_at (cachedPushCursor f) (popCursor f)")
      (auto simp: Fifo5_popper_def offers_def empty_at_def Let_def)
  let ?g = "f'\<lparr>pushCursor := popCursor f + 1\<rparr>"
  have rd: "read_at c h = read_at c f" if "ff_ring h = ff_ring f" "ff_capacity h = ff_capacity f"
    for c and h :: "'a Fifo5"
    using that by (rule read_at_cong)
  have "Fifo5_pop f = Inr (Some x, ?g)"
    using assms f' rd[of f'] by (simp add: Fifo5_pop_def popper_t_dtor_def offers_def)
  moreover have "offers x ?g" using assms f' rd[of ?g] by (simp add: offers_def)
  ultimately show ?thesis using f' by (intro exI[of _ ?g]) simp
qed

text \<open>The values that \<open>n\<close> calls of \<open>pop\<close> in a row deliver.\<close>

fun Fifo5_pops :: "nat \<Rightarrow> 'a Fifo5 \<Rightarrow> ('a option list \<times> 'a Fifo5) res" where
  "Fifo5_pops 0 f = Inr ([], f)"
| "Fifo5_pops (Suc n) f =
     bindr (Fifo5_pop f) (\<lambda>(r, f). bindr (Fifo5_pops n f) (\<lambda>(rs, f). Inr (r # rs, f)))"

lemma Fifo5_pops_offers:
  "offers x f \<Longrightarrow> \<exists>g. Fifo5_pops n f = Inr (replicate n (Some x), g) \<and> offers x g
     \<and> popCursor g = popCursor f \<and> (0 < n \<longrightarrow> pushCursor g = popCursor f + 1)"
proof (induction n arbitrary: f)
  case (Suc n)
  obtain f1 where "Fifo5_pop f = Inr (Some x, f1)" "offers x f1" "popCursor f1 = popCursor f"
    "pushCursor f1 = popCursor f + 1"
    using Fifo5_pop_offers[OF Suc.prems] by blast
  then show ?case using Suc.IH[of f1] by (cases n) auto
qed auto

section \<open>\<open>Fifo3\<close>\<close>

text \<open>\<open>Fifo3\<close> loads both cursors once and works on the copies; called alone that is \<open>Fifo1\<close>.\<close>

definition Fifo3_push :: "'a \<Rightarrow> 'a Fifo \<Rightarrow> (bool \<times> 'a Fifo) res" where
  "Fifo3_push v f =
     (let pushC = pushCursor f; popC = popCursor f
      in if full_at pushC popC f then Inr (False, f)
         else bindr (construct_at pushC v f) (\<lambda>f. Inr (True, f\<lparr>pushCursor := pushC + 1\<rparr>)))"

definition Fifo3_pop :: "'a Fifo \<Rightarrow> ('a option \<times> 'a Fifo) res" where
  "Fifo3_pop f =
     (let pushC = pushCursor f; popC = popCursor f
      in if empty_at pushC popC then Inr (None, f)
         else bindr (read_at popC f) (\<lambda>v. bindr (destroy_at popC f) (\<lambda>f.
              Inr (Some v, f\<lparr>popCursor := popC + 1\<rparr>))))"

lemma construct_at_frame:
  "construct_at c v f = Inr g \<Longrightarrow> pushCursor g = pushCursor f \<and> popCursor g = popCursor f \<and> ff_capacity g = ff_capacity f"
  by (auto simp: construct_at_def elim!: bindr_InrE)

lemma Fifo3_is_Fifo1: "Fifo3_push = Fifo1_push" "Fifo3_pop = Fifo1_pop"
  by (auto simp: fun_eq_iff Fifo3_push_def Fifo1_push_def Fifo3_pop_def Fifo1_pop_def full_at_def
      empty_at_def fifo_full_def fifo_empty_def fifo_size_def Let_def dest: construct_at_frame
      destroy_at_frame intro!: bindr_cong)

interpretation fifo3: bounded_queue Fifo3_push Fifo3_pop Fifo1_rep "\<lambda>f. unat (ff_capacity f)"
  unfolding Fifo3_is_Fifo1 by (rule fifo1.bounded_queue_axioms)

end
