(* ===== verification/FifoSteps.thy ===== *)
theory FifoSteps
  imports Fifo
begin

text \<open>
  \<open>Mutex&LockFree/fifo4.h\<close> between its two threads: every access to shared memory is a step of
  its own, the accesses to the cursors and those to the storage. A thread that finds no room
  (or no element) by the cursor it has cached looks at the real one. Events mark where a call
  takes effect. The orders acquire and release of the cursors make the accesses to the
  storage as ordered as here, since the two threads never use a slot at the same time, which
  is one of the properties.
\<close>

section \<open>The two threads\<close>

datatype 'a push_pc =
    Pu_idle | Pu_reload "64 word" 'a | Pu_write "64 word" 'a | Pu_store "64 word" 'a | Pu_undefined

datatype 'a pop_pc =
    Po_idle | Po_reload "64 word" | Po_read "64 word" | Po_destroy "64 word" 'a
  | Po_store "64 word" 'a | Po_undefined

record 'a Fifo4Threads = "'a Fifo4" +
  pu :: "'a push_pc"
  po :: "'a pop_pc"

datatype 'a fifo_event = Tau | Pushed 'a | Refused | Popped 'a | Nothing

definition Fifo4_start :: "64 word \<Rightarrow> 'a Fifo4Threads" where
  "Fifo4_start n = Fifo4.extend (Fifo4_ctor n) \<lparr>pu = Pu_idle, po = Po_idle\<rparr>"

inductive Fifo4_step :: "'a Fifo4Threads \<Rightarrow> 'a fifo_event \<Rightarrow> 'a Fifo4Threads \<Rightarrow> bool" where
  push_call: "pu s = Pu_idle \<Longrightarrow> cur = pushCursor s \<Longrightarrow>
    Fifo4_step s Tau (s\<lparr>pu := if full_at cur (cachedPopCursor s) s then Pu_reload cur v else Pu_write cur v\<rparr>)"
| push_refused: "pu s = Pu_reload cur v \<Longrightarrow> full_at cur (popCursor s) s \<Longrightarrow>
    Fifo4_step s Refused (s\<lparr>cachedPopCursor := popCursor s, pu := Pu_idle\<rparr>)"
| push_reload: "pu s = Pu_reload cur v \<Longrightarrow> \<not> full_at cur (popCursor s) s \<Longrightarrow>
    Fifo4_step s Tau (s\<lparr>cachedPopCursor := popCursor s, pu := Pu_write cur v\<rparr>)"
| push_write: "pu s = Pu_write cur v \<Longrightarrow> construct_at cur v s = Inr t \<Longrightarrow>
    Fifo4_step s Tau (t\<lparr>pu := Pu_store cur v\<rparr>)"
| push_undefined: "pu s = Pu_write cur v \<Longrightarrow> construct_at cur v s = Inl e \<Longrightarrow>
    Fifo4_step s Tau (s\<lparr>pu := Pu_undefined\<rparr>)"
| push_store: "pu s = Pu_store cur v \<Longrightarrow>
    Fifo4_step s (Pushed v) (s\<lparr>pushCursor := cur + 1, pu := Pu_idle\<rparr>)"
| pop_call: "po s = Po_idle \<Longrightarrow> cur = popCursor s \<Longrightarrow>
    Fifo4_step s Tau (s\<lparr>po := if empty_at (cachedPushCursor s) cur then Po_reload cur else Po_read cur\<rparr>)"
| pop_nothing: "po s = Po_reload cur \<Longrightarrow> empty_at (pushCursor s) cur \<Longrightarrow>
    Fifo4_step s Nothing (s\<lparr>cachedPushCursor := pushCursor s, po := Po_idle\<rparr>)"
| pop_reload: "po s = Po_reload cur \<Longrightarrow> \<not> empty_at (pushCursor s) cur \<Longrightarrow>
    Fifo4_step s Tau (s\<lparr>cachedPushCursor := pushCursor s, po := Po_read cur\<rparr>)"
| pop_read: "po s = Po_read cur \<Longrightarrow> read_at cur s = Inr v \<Longrightarrow>
    Fifo4_step s Tau (s\<lparr>po := Po_destroy cur v\<rparr>)"
| pop_destroy: "po s = Po_destroy cur v \<Longrightarrow> destroy_at cur s = Inr t \<Longrightarrow>
    Fifo4_step s Tau (t\<lparr>po := Po_store cur v\<rparr>)"
| pop_undefined: "po s = Po_read cur \<and> read_at cur s = Inl e \<or> po s = Po_destroy cur v \<and> destroy_at cur s = Inl e \<Longrightarrow>
    Fifo4_step s Tau (s\<lparr>po := Po_undefined\<rparr>)"
| pop_store: "po s = Po_store cur v \<Longrightarrow>
    Fifo4_step s (Popped v) (s\<lparr>popCursor := cur + 1, po := Po_idle\<rparr>)"

inductive_cases Fifo4_stepE: "Fifo4_step s e t"

inductive Fifo4_run :: "64 word \<Rightarrow> 'a fifo_event list \<Rightarrow> 'a Fifo4Threads \<Rightarrow> bool" for n :: "64 word" where
  f4_init: "Fifo4_run n [] (Fifo4_start n)"
| f4_next: "Fifo4_run n es s \<Longrightarrow> Fifo4_step s e t \<Longrightarrow> Fifo4_run n (es @ [e]) t"

section \<open>The bounded queue\<close>

inductive bq_step :: "nat \<Rightarrow> 'a list \<Rightarrow> 'a fifo_event \<Rightarrow> 'a list \<Rightarrow> bool" for n :: nat where
  "bq_step n xs Tau xs"
| "length xs < n \<Longrightarrow> bq_step n xs (Pushed v) (xs @ [v])"
| "length xs = n \<Longrightarrow> bq_step n xs Refused xs"
| "bq_step n (x # xs) (Popped x) xs"
| "bq_step n [] Nothing []"

inductive bq_run :: "nat \<Rightarrow> 'a fifo_event list \<Rightarrow> 'a list \<Rightarrow> bool" for n :: nat where
  "bq_run n [] []"
| "bq_run n es xs \<Longrightarrow> bq_step n xs e ys \<Longrightarrow> bq_run n (es @ [e]) ys"

section \<open>The simulation\<close>

text \<open>What the storage holds: the queue, the object under construction, and not the object
  that has just been destroyed.\<close>

definition slots4 :: "nat \<Rightarrow> 'a list \<Rightarrow> 'a push_pc \<Rightarrow> 'a pop_pc \<Rightarrow> nat \<Rightarrow> 'a option" where
  "slots4 C xs p q i =
     (if i = C \<and> (case q of Po_store _ _ \<Rightarrow> True | _ \<Rightarrow> False) then None
      else if i = C + length xs then (case p of Pu_store _ v \<Rightarrow> Some v | _ \<Rightarrow> None)
      else content C xs i)"

definition pu_ok :: "nat \<Rightarrow> bool \<Rightarrow> 'a push_pc \<Rightarrow> bool" where
  "pu_ok P room p = (case p of Pu_idle \<Rightarrow> True | Pu_reload cur v \<Rightarrow> cur = of_nat P
     | Pu_write cur v \<Rightarrow> cur = of_nat P \<and> room | Pu_store cur v \<Rightarrow> cur = of_nat P \<and> room
     | Pu_undefined \<Rightarrow> False)"

definition po_ok :: "nat \<Rightarrow> bool \<Rightarrow> 'a list \<Rightarrow> 'a pop_pc \<Rightarrow> bool" where
  "po_ok C some xs q = (case q of Po_idle \<Rightarrow> True | Po_reload cur \<Rightarrow> cur = of_nat C
     | Po_read cur \<Rightarrow> cur = of_nat C \<and> some | Po_destroy cur v \<Rightarrow> cur = of_nat C \<and> some \<and> v = hd xs
     | Po_store cur v \<Rightarrow> cur = of_nat C \<and> some \<and> v = hd xs | Po_undefined \<Rightarrow> False)"

text \<open>\<open>C\<close> elements have been taken, the producer has seen \<open>a\<close> of them go, the consumer has
  seen \<open>b\<close> arrive.\<close>

definition sim4 :: "nat \<Rightarrow> nat \<Rightarrow> nat \<Rightarrow> 'a Fifo4Threads \<Rightarrow> 'a list \<Rightarrow> bool" where
  "sim4 C a b s xs \<longleftrightarrow> fits (ff_capacity s)
     \<and> popCursor s = of_nat C \<and> pushCursor s = of_nat (C + length xs)
     \<and> cachedPopCursor s = of_nat a \<and> cachedPushCursor s = of_nat b
     \<and> a \<le> C \<and> C + length xs \<le> a + unat (ff_capacity s) \<and> C \<le> b \<and> b \<le> C + length xs
     \<and> pu_ok (C + length xs) (C + length xs < a + unat (ff_capacity s)) (pu s)
     \<and> po_ok C (C < b) xs (po s)
     \<and> holds_from (unat (ff_capacity s)) C (slots4 C xs (pu s) (po s)) (ff_ring s)"

lemma full_at_of_nat:
  assumes "a \<le> m" "m \<le> a + unat (ff_capacity f)"
  shows "full_at (of_nat m) (of_nat a) f \<longleftrightarrow> m = a + unat (ff_capacity f)"
proof -
  have "(of_nat m :: 64 word) - of_nat a = of_nat (m - a)" using assms(1) by (simp add: of_nat_diff)
  then show ?thesis using small_of_nat_eq[of "m - a" "ff_capacity f"] assms by (auto simp: full_at_def)
qed

lemma empty_at_of_nat:
  assumes "c \<le> m" "m \<le> c + unat (k :: 64 word)"
  shows "empty_at (of_nat m) (of_nat c) \<longleftrightarrow> m = c"
proof -
  have "(of_nat m :: 64 word) = of_nat c \<longleftrightarrow> (of_nat m :: 64 word) - of_nat c = 0" by simp
  also have "\<dots> \<longleftrightarrow> (of_nat (m - c) :: 64 word) = 0" using assms(1) by (simp add: of_nat_diff)
  also have "\<dots> \<longleftrightarrow> m - c = 0" using small_of_nat_0[of "m - c" k] assms by simp
  finally show ?thesis using assms(1) by (auto simp: empty_at_def)
qed

lemma construct_of_nat:
  "fits (ff_capacity f) \<Longrightarrow> construct_at (of_nat i) v f
     = Inr (f\<lparr>ff_ring := (ff_ring f)(i mod unat (ff_capacity f) := Some v)\<rparr>)"
  by (simp add: construct_at_def fifo_slot_of_nat)

lemma read_of_nat:
  "fits (ff_capacity f) \<Longrightarrow> ff_ring f (i mod unat (ff_capacity f)) = Some v \<Longrightarrow> read_at (of_nat i) f = Inr v"
  by (simp add: read_at_def fifo_slot_of_nat)

lemma destroy_of_nat:
  "fits (ff_capacity f) \<Longrightarrow> ff_ring f (i mod unat (ff_capacity f)) = Some v \<Longrightarrow> destroy_at (of_nat i) f
     = Inr (f\<lparr>ff_ring := (ff_ring f)(i mod unat (ff_capacity f) := None)\<rparr>)"
  by (simp add: destroy_at_def read_of_nat fifo_slot_of_nat)

text \<open>The steps of the producer.\<close>

lemma sim4_full:
  assumes "sim4 C a b s xs" "c = a \<or> c = C"
  shows "full_at (of_nat (C + length xs)) (of_nat c) s \<longleftrightarrow> C + length xs = c + unat (ff_capacity s)"
  by (rule full_at_of_nat) (use assms in \<open>auto simp: sim4_def\<close>)

lemma sim4_empty:
  assumes "sim4 C a b s xs" "m = b \<or> m = C + length xs"
  shows "empty_at (of_nat m) (of_nat C) \<longleftrightarrow> m = C"
  by (rule empty_at_of_nat[where k = "ff_capacity s"]) (use assms in \<open>auto simp: sim4_def\<close>)

lemma sim4_first:
  assumes "sim4 C a b s xs" "C < b"
  shows "xs \<noteq> []" "C < C + unat (ff_capacity s)"
    "(case po s of Po_store _ _ \<Rightarrow> False | _ \<Rightarrow> True) \<Longrightarrow> ff_ring s (C mod unat (ff_capacity s)) = Some (hd xs)"
proof -
  show ne: "xs \<noteq> []" using assms by (auto simp: sim4_def)
  show lt: "C < C + unat (ff_capacity s)" using fits_pos assms(1) by (simp add: sim4_def)
  assume "case po s of Po_store _ _ \<Rightarrow> False | _ \<Rightarrow> True"
  then have "slots4 C xs (pu s) (po s) C = Some (hd xs)"
    using ne by (auto simp: slots4_def content_def hd_conv_nth split: pop_pc.splits)
  then show "ff_ring s (C mod unat (ff_capacity s)) = Some (hd xs)"
    using holds_from_at[of "unat (ff_capacity s)" C "slots4 C xs (pu s) (po s)" "ff_ring s" C] assms(1) lt
    by (simp add: sim4_def)
qed

text \<open>Steps that leave the storage alone.\<close>

lemma slots4_quiet [simp]:
  "slots4 C xs (Pu_reload cur v) q = slots4 C xs Pu_idle q" "slots4 C xs (Pu_write cur v) q = slots4 C xs Pu_idle q"
  "slots4 C xs p (Po_reload cur) = slots4 C xs p Po_idle" "slots4 C xs p (Po_read cur) = slots4 C xs p Po_idle"
  "slots4 C xs p (Po_destroy cur v) = slots4 C xs p Po_idle"
  by (simp_all add: slots4_def fun_eq_iff)

lemma sim4_push_call:
  assumes "sim4 C a b s xs" "pu s = Pu_idle"
  shows "sim4 C a b (s\<lparr>pu := if full_at (pushCursor s) (cachedPopCursor s) s then Pu_reload (pushCursor s) v
      else Pu_write (pushCursor s) v\<rparr>) xs"
  using assms sim4_full[OF assms(1), of a] by (auto simp: sim4_def pu_ok_def simp del: of_nat_add)

lemma sim4_push_reload:
  assumes "sim4 C a b s xs" "pu s = Pu_reload cur v"
  shows "full_at cur (popCursor s) s \<Longrightarrow>
      sim4 C C b (s\<lparr>cachedPopCursor := popCursor s, pu := Pu_idle\<rparr>) xs \<and> length xs = unat (ff_capacity s)"
    "\<not> full_at cur (popCursor s) s \<Longrightarrow>
      sim4 C C b (s\<lparr>cachedPopCursor := popCursor s, pu := Pu_write cur v\<rparr>) xs"
  using assms sim4_full[OF assms(1), of C] by (auto simp: sim4_def pu_ok_def simp del: of_nat_add)

lemma sim4_push_write:
  assumes "sim4 C a b s xs" "pu s = Pu_write cur v"
  shows "\<exists>t. construct_at cur v s = Inr t \<and> sim4 C a b (t\<lparr>pu := Pu_store cur v\<rparr>) xs"
proof -
  let ?c = "unat (ff_capacity s)" and ?P = "C + length xs"
  have s: "fits (ff_capacity s)" "cur = of_nat ?P" "?P < a + ?c" "a \<le> C" "C \<le> ?P"
    "holds_from ?c C (slots4 C xs (pu s) (po s)) (ff_ring s)"
    using assms by (auto simp: sim4_def pu_ok_def)
  have "\<not> (?P = C \<and> (case po s of Po_store _ _ \<Rightarrow> True | _ \<Rightarrow> False))"
    using assms(1) by (auto simp: sim4_def po_ok_def split: pop_pc.splits)
  then have st: "slots4 C xs (Pu_store cur v) (po s) = (slots4 C xs (pu s) (po s))(?P := Some v)"
    by (auto simp: slots4_def fun_eq_iff assms(2))
  have "holds_from ?c C (slots4 C xs (Pu_store cur v) (po s)) ((ff_ring s)(?P mod ?c := Some v))"
    unfolding st by (rule holds_from_set[OF s(6)]) (use s in auto)
  then show ?thesis
    using assms s(1,2) construct_of_nat[OF s(1), of ?P v] by (auto simp: sim4_def pu_ok_def)
qed

lemma sim4_push_store:
  assumes "sim4 C a b s xs" "pu s = Pu_store cur v"
  shows "sim4 C a b (s\<lparr>pushCursor := cur + 1, pu := Pu_idle\<rparr>) (xs @ [v]) \<and> length xs < unat (ff_capacity s)"
proof -
  let ?c = "unat (ff_capacity s)" and ?P = "C + length xs"
  have s: "cur = of_nat ?P" "?P < a + ?c" "a \<le> C" "b \<le> ?P"
    "holds_from ?c C (slots4 C xs (pu s) (po s)) (ff_ring s)" "po_ok C (C < b) xs (po s)" "C \<le> b"
    using assms by (auto simp: sim4_def pu_ok_def)
  have "holds_from ?c C (slots4 C (xs @ [v]) Pu_idle (po s)) (ff_ring s)"
    by (rule holds_from_cong[OF s(5)]) (use s in \<open>auto simp: slots4_def assms(2) content_snoc content_def\<close>)
  moreover have "po_ok C (C < b) (xs @ [v]) (po s)"
    using s(4,6,7) by (auto simp: po_ok_def hd_append split: pop_pc.splits)
  ultimately show ?thesis using assms s by (auto simp: sim4_def pu_ok_def add.commute)
qed

text \<open>The steps of the consumer.\<close>

lemma sim4_pop_call:
  assumes "sim4 C a b s xs" "po s = Po_idle"
  shows "sim4 C a b (s\<lparr>po := if empty_at (cachedPushCursor s) (popCursor s) then Po_reload (popCursor s)
      else Po_read (popCursor s)\<rparr>) xs"
  using assms sim4_empty[OF assms(1), of b] by (auto simp: sim4_def po_ok_def simp del: of_nat_add)

lemma sim4_pop_reload:
  assumes "sim4 C a b s xs" "po s = Po_reload cur"
  shows "empty_at (pushCursor s) cur \<Longrightarrow>
      sim4 C a (C + length xs) (s\<lparr>cachedPushCursor := pushCursor s, po := Po_idle\<rparr>) xs \<and> xs = []"
    "\<not> empty_at (pushCursor s) cur \<Longrightarrow>
      sim4 C a (C + length xs) (s\<lparr>cachedPushCursor := pushCursor s, po := Po_read cur\<rparr>) xs"
  using assms sim4_empty[OF assms(1), of "C + length xs"]
  by (auto simp: sim4_def po_ok_def simp del: of_nat_add)

lemma sim4_pop_read:
  assumes "sim4 C a b s xs" "po s = Po_read cur"
  shows "read_at cur s = Inr (hd xs) \<and> sim4 C a b (s\<lparr>po := Po_destroy cur (hd xs)\<rparr>) xs"
  using assms sim4_first[OF assms(1)] read_of_nat[of s C "hd xs"]
  by (auto simp: sim4_def po_ok_def)

lemma sim4_pop_destroy:
  assumes "sim4 C a b s xs" "po s = Po_destroy cur v"
  shows "\<exists>t. destroy_at cur s = Inr t \<and> sim4 C a b (t\<lparr>po := Po_store cur v\<rparr>) xs"
proof -
  let ?c = "unat (ff_capacity s)"
  have s: "fits (ff_capacity s)" "cur = of_nat C" "C < b" "v = hd xs"
    "holds_from ?c C (slots4 C xs (pu s) (po s)) (ff_ring s)"
    using assms by (auto simp: sim4_def po_ok_def)
  have st: "slots4 C xs (pu s) (Po_store cur v) = (slots4 C xs (pu s) (po s))(C := None)"
    by (auto simp: slots4_def fun_eq_iff assms(2))
  have "holds_from ?c C (slots4 C xs (pu s) (Po_store cur v)) ((ff_ring s)(C mod ?c := None))"
    unfolding st by (rule holds_from_set[OF s(5)]) (use sim4_first(2)[OF assms(1) s(3)] in auto)
  then show ?thesis
    using assms s(1-4) destroy_of_nat[OF s(1), of C] sim4_first(3)[OF assms(1) s(3)]
    by (auto simp: sim4_def po_ok_def)
qed

lemma sim4_pop_store:
  assumes "sim4 C a b s xs" "po s = Po_store cur v"
  shows "\<exists>ys. xs = v # ys \<and> sim4 (Suc C) a b (s\<lparr>popCursor := cur + 1, po := Po_idle\<rparr>) ys"
proof -
  let ?c = "unat (ff_capacity s)"
  have s: "fits (ff_capacity s)" "cur = of_nat C" "C < b" "v = hd xs" "C + length xs \<le> a + ?c" "a \<le> C"
    "holds_from ?c C (slots4 C xs (pu s) (po s)) (ff_ring s)" "pu_ok (C + length xs) (C + length xs < a + ?c) (pu s)"
    using assms by (auto simp: sim4_def po_ok_def)
  obtain ys where xs: "xs = v # ys" using sim4_first(1)[OF assms(1) s(3)] s(4) by (cases xs) auto
  let ?g = "slots4 C xs (pu s) (po s)"
  have g: "?g C = None" by (simp add: slots4_def assms(2))
  have "(?g(C + ?c := None)) i = slots4 (Suc C) ys (pu s) Po_idle i" if i: "Suc C \<le> i" "i < Suc C + ?c" for i
  proof (cases "i = C + length xs")
    case True
    have "\<not> C + length xs < a + ?c" if "i = C + ?c" using that True s(5,6) by simp
    then have "i = C + ?c \<Longrightarrow> (case pu s of Pu_store _ w \<Rightarrow> Some w | _ \<Rightarrow> None) = None"
      using s(8) by (auto simp: pu_ok_def split: push_pc.splits)
    then show ?thesis using True i xs by (simp add: slots4_def)
  next
    case False
    have ne: "i \<noteq> Suc C + length ys" using False xs by simp
    have sl: "slots4 (Suc C) ys (pu s) Po_idle i = content (Suc C) ys i" using ne by (simp add: slots4_def)
    have sl': "slots4 C xs (pu s) (po s) i = content C xs i" using False i by (simp add: slots4_def)
    have "content (Suc C) ys i = content C xs i" using i by (simp add: xs content_tl[of C ys v])
    moreover have "content C xs (C + ?c) = None" using s(5,6) by (simp add: content_def)
    ultimately show ?thesis using sl sl' by (auto simp only: fun_upd_def split: if_splits)
  qed
  then have "holds_from ?c (Suc C) (slots4 (Suc C) ys (pu s) Po_idle) (ff_ring s)"
    using holds_from_cong[OF holds_from_advance[OF s(7) fits_pos[OF s(1)], unfolded g]] by blast
  moreover have "cachedPopCursor s = of_nat a" "cachedPushCursor s = of_nat b" "b \<le> C + length xs"
    "pushCursor s = of_nat (C + length xs)"
    using assms(1) by (simp_all add: sim4_def)
  moreover have "C + length xs = Suc C + length ys" by (simp add: xs)
  ultimately have "sim4 (Suc C) a b (s\<lparr>popCursor := cur + 1, po := Po_idle\<rparr>) ys"
    using s(1,2,3,5,6,8) by (simp add: sim4_def po_ok_def)
  then show ?thesis using xs by blast
qed

lemma sim4_step:
  assumes "Fifo4_step s e t" "sim4 C a b s xs"
  shows "\<exists>ys C a b. bq_step (unat (ff_capacity s)) xs e ys \<and> sim4 C a b t ys \<and> ff_capacity t = ff_capacity s"
  using assms(1)
proof (cases rule: Fifo4_step.cases)
  case (push_call cur v)
  then show ?thesis
    using sim4_push_call[OF assms(2), of v] bq_step.intros(1)[of _ xs]
    by (intro exI[of _ xs] exI[of _ C] exI[of _ a] exI[of _ b]) auto
next
  case (push_refused cur v)
  then show ?thesis
    using sim4_push_reload(1)[OF assms(2), of cur v] bq_step.intros(3)[of xs "unat (ff_capacity s)"]
    by (intro exI[of _ xs] exI[of _ C] exI[of _ C] exI[of _ b]) auto
next
  case (push_reload cur v)
  then show ?thesis
    using sim4_push_reload(2)[OF assms(2), of cur v] bq_step.intros(1)[of _ xs]
    by (intro exI[of _ xs] exI[of _ C] exI[of _ C] exI[of _ b]) auto
next
  case (push_write cur v t')
  then show ?thesis
    using sim4_push_write[OF assms(2), of cur v] bq_step.intros(1)[of _ xs]
    by (intro exI[of _ xs] exI[of _ C] exI[of _ a] exI[of _ b]) (auto simp: construct_at_def elim!: bindr_InrE)
next
  case (push_undefined cur v e)
  then show ?thesis using sim4_push_write[OF assms(2), of cur v] by auto
next
  case (push_store cur v)
  then show ?thesis
    using sim4_push_store[OF assms(2), of cur v] bq_step.intros(2)[of xs "unat (ff_capacity s)" v]
    by (intro exI[of _ "xs @ [v]"] exI[of _ C] exI[of _ a] exI[of _ b]) auto
next
  case (pop_call cur)
  then show ?thesis
    using sim4_pop_call[OF assms(2)] bq_step.intros(1)[of _ xs]
    by (intro exI[of _ xs] exI[of _ C] exI[of _ a] exI[of _ b]) auto
next
  case (pop_nothing cur)
  then show ?thesis
    using sim4_pop_reload(1)[OF assms(2), of cur] bq_step.intros(5)
    by (intro exI[of _ xs] exI[of _ C] exI[of _ a] exI[of _ "C + length xs"]) auto
next
  case (pop_reload cur)
  then show ?thesis
    using sim4_pop_reload(2)[OF assms(2), of cur] bq_step.intros(1)[of _ xs]
    by (intro exI[of _ xs] exI[of _ C] exI[of _ a] exI[of _ "C + length xs"]) auto
next
  case (pop_read cur v)
  then show ?thesis
    using sim4_pop_read[OF assms(2), of cur] bq_step.intros(1)[of _ xs]
    by (intro exI[of _ xs] exI[of _ C] exI[of _ a] exI[of _ b]) auto
next
  case (pop_destroy cur v t')
  then show ?thesis
    using sim4_pop_destroy[OF assms(2), of cur v] destroy_at_frame[of cur s t'] bq_step.intros(1)[of _ xs]
    by (intro exI[of _ xs] exI[of _ C] exI[of _ a] exI[of _ b]) auto
next
  case (pop_undefined cur e v)
  then show ?thesis
    using sim4_pop_read[OF assms(2), of cur] sim4_pop_destroy[OF assms(2), of cur v] by auto
next
  case (pop_store cur v)
  obtain ys where "xs = v # ys" "sim4 (Suc C) a b t ys"
    using sim4_pop_store[OF assms(2), of cur v] pop_store by blast
  then show ?thesis
    using pop_store bq_step.intros(4)[of _ v ys]
    by (intro exI[of _ ys] exI[of _ "Suc C"] exI[of _ a] exI[of _ b]) auto
qed

lemma sim4_start: "fits n \<Longrightarrow> sim4 0 0 0 (Fifo4_start n) []"
  by (simp add: sim4_def Fifo4_start_def Fifo4.defs Fifo4_ctor_def pu_ok_def po_ok_def holds_from_def
      slots4_def content_def)

lemma sim4_run:
  assumes "Fifo4_run n es s" "fits n"
  obtains xs C a b where "bq_run (unat n) es xs" "sim4 C a b s xs" "ff_capacity s = n"
proof -
  have "\<exists>xs C a b. bq_run (unat n) es xs \<and> sim4 C a b s xs \<and> ff_capacity s = n"
    using assms
  proof (induction rule: Fifo4_run.induct)
    case f4_init
    then show ?case
      using sim4_start[OF f4_init] bq_run.intros(1)[of "unat n"]
      by (intro exI[of _ "[]"] exI[of _ 0]) (simp add: Fifo4_start_def Fifo4.defs Fifo4_ctor_def)
  next
    case (f4_next es s e t)
    then obtain xs C a b where x: "bq_run (unat n) es xs" "sim4 C a b s xs" "ff_capacity s = n" by blast
    obtain ys C' a' b' where "bq_step (unat n) xs e ys" "sim4 C' a' b' t ys" "ff_capacity t = n"
      using sim4_step[OF f4_next.hyps(2) x(2)] x(3) by auto
    then show ?case using bq_run.intros(2)[OF x(1)] by blast
  qed
  then show thesis using that by blast
qed

text \<open>The values a trace pushes and pops.\<close>

definition pushed_of :: "'a fifo_event list \<Rightarrow> 'a list" where
  "pushed_of es = concat (map (\<lambda>e. case e of Pushed v \<Rightarrow> [v] | _ \<Rightarrow> []) es)"

definition popped_of :: "'a fifo_event list \<Rightarrow> 'a list" where
  "popped_of es = concat (map (\<lambda>e. case e of Popped v \<Rightarrow> [v] | _ \<Rightarrow> []) es)"

lemma bq_run_fifo: "bq_run n es xs \<Longrightarrow> pushed_of es = popped_of es @ xs \<and> length xs \<le> n"
  by (induction rule: bq_run.induct) (auto simp: pushed_of_def popped_of_def elim!: bq_step.cases)

text \<open>The slot a thread is about to access.\<close>

definition push_slot :: "'a Fifo4Threads \<Rightarrow> nat option" where
  "push_slot s = (case pu s of Pu_write cur v \<Rightarrow> Some (unat (cur mod ff_capacity s)) | _ \<Rightarrow> None)"

definition pop_slot :: "'a Fifo4Threads \<Rightarrow> nat option" where
  "pop_slot s = (case po s of Po_read cur \<Rightarrow> Some (unat (cur mod ff_capacity s))
     | Po_destroy cur v \<Rightarrow> Some (unat (cur mod ff_capacity s)) | _ \<Rightarrow> None)"

lemma sim4_no_race:
  assumes "sim4 C a b s xs" "push_slot s = Some i" "pop_slot s = Some j"
  shows "i \<noteq> j"
proof -
  let ?c = "unat (ff_capacity s)" and ?P = "C + length xs"
  have fit: "fits (ff_capacity s)" and w: "C < ?P" "?P < C + ?c" and i: "i = ?P mod ?c" and j: "j = C mod ?c"
    using assms fits_slot[of "ff_capacity s" C] fits_slot[of "ff_capacity s" ?P]
    by (auto simp: sim4_def push_slot_def pop_slot_def pu_ok_def po_ok_def simp del: of_nat_add
        split: push_pc.splits pop_pc.splits)
  show ?thesis using mod_index_inj[of 0 "length xs" ?c C] w i j by auto
qed

end
