(* ===== verification/FifoProps.thy ===== *)
theory FifoProps
  imports FifoSteps
begin

text \<open>The properties of the bounded queues of \<open>Mutex&LockFree\<close>.\<close>

section \<open>Two threads with cached cursors\<close>

text \<open>C22: Whatever the two threads of a \<open>Fifo4\<close> do, with its cursors wrapping at \<open>2^64\<close> and each
  thread looking at the other's cursor only when its cached copy leaves no room or no
  element, every trace of its calls is one of a bounded queue: pushes are refused only when
  \<open>n\<close> elements are in the queue, pops find nothing only when it is empty, what is popped
  is what was pushed, in order, and no thread ever touches an object outside its lifetime.
  The capacity has to divide \<open>2^64\<close>.\<close>

theorem fifo4_refines_a_bounded_queue:
  assumes "Fifo4_run n es s" "fits n"
  shows "\<exists>xs. bq_run (unat n) es xs \<and> pushed_of es = popped_of es @ xs \<and> length xs \<le> unat n
    \<and> pu s \<noteq> Pu_undefined \<and> po s \<noteq> Po_undefined"
proof -
  obtain xs C a b where x: "bq_run (unat n) es xs" "sim4 C a b s xs" "ff_capacity s = n"
    by (rule sim4_run[OF assms])
  have "pu s \<noteq> Pu_undefined" "po s \<noteq> Po_undefined"
    using x(2) by (intro notI; simp add: sim4_def pu_ok_def po_ok_def)+
  then show ?thesis using x(1) bq_run_fifo[OF x(1)] by blast
qed

text \<open>A run: the producer pushes 7, the consumer sees it, the producer is about to write again.\<close>

definition f4_after_push :: "nat Fifo4Threads" where
  "f4_after_push = (Fifo4_start 2)\<lparr>ff_ring := (\<lambda>_. None)(0 := Some 7), pushCursor := 1, pu := Pu_idle\<rparr>"

lemma start2_simps [simp]:
  "pushCursor (Fifo4_start n) = 0" "popCursor (Fifo4_start n) = 0" "cachedPopCursor (Fifo4_start n) = 0"
  "cachedPushCursor (Fifo4_start n) = 0" "ff_capacity (Fifo4_start n) = n" "ff_ring (Fifo4_start n) = (\<lambda>_. None)"
  "pu (Fifo4_start n) = Pu_idle" "po (Fifo4_start n) = Po_idle"
  by (simp_all add: Fifo4_start_def Fifo4.defs Fifo4_ctor_def)

lemma run_push: "Fifo4_run 2 [Tau, Tau, Pushed 7] f4_after_push"
proof -
  let ?s = "Fifo4_start 2 :: nat Fifo4Threads"
  have "Fifo4_run 2 [Tau] (?s\<lparr>pu := Pu_write 0 7\<rparr>)"
    using f4_next[OF f4_init Fifo4_step.push_call[of ?s 0 7]] by (simp add: full_at_def)
  from f4_next[OF this Fifo4_step.push_write[of _ 0 7 "?s\<lparr>pu := Pu_write 0 7, ff_ring := (\<lambda>_. None)(0 := Some 7)\<rparr>"]]
  have "Fifo4_run 2 [Tau, Tau] (?s\<lparr>ff_ring := (\<lambda>_. None)(0 := Some 7), pu := Pu_store 0 7\<rparr>)"
    by (simp add: construct_at_def fifo_slot_def)
  from f4_next[OF this Fifo4_step.push_store[of _ 0 7]] show ?thesis
    by (simp add: f4_after_push_def)
qed

lemma fits_2: "fits 2"
  by (simp add: fits_def)

theorem fifo4_refines_a_bounded_queue_witness:
  "\<exists>s :: nat Fifo4Threads. Fifo4_run 2 [Tau, Tau, Pushed 7] s \<and> bq_run 2 [Tau, Tau, Pushed 7] [7 :: nat]"
proof -
  obtain xs where "bq_run 2 [Tau, Tau, Pushed (7 :: nat)] xs"
    "pushed_of [Tau, Tau, Pushed (7 :: nat)] = popped_of [Tau, Tau, Pushed 7] @ xs"
    using fifo4_refines_a_bounded_queue[OF run_push fits_2] by auto
  then have "bq_run 2 [Tau, Tau, Pushed 7] [7 :: nat]" by (simp add: pushed_of_def popped_of_def)
  then show ?thesis using run_push by blast
qed

text \<open>The producer and the consumer of a \<open>Fifo4\<close> never access the same slot of the storage
  at the same time: when one is about to construct an object and the other about to read or
  destroy one, the two slots differ, also after the cursors have wrapped.\<close>

theorem fifo4_threads_never_share_a_slot:
  assumes "Fifo4_run n es s" "fits n" "push_slot s = Some i" "pop_slot s = Some j"
  shows "i \<noteq> j"
proof -
  obtain xs C a b where "bq_run (unat n) es xs" "sim4 C a b s xs" "ff_capacity s = n"
    by (rule sim4_run[OF assms(1,2)])
  from sim4_no_race[OF this(2) assms(3,4)] show ?thesis .
qed

theorem fifo4_threads_never_share_a_slot_witness:
  "\<exists>es (s :: nat Fifo4Threads) i j. Fifo4_run 2 es s \<and> push_slot s = Some i \<and> pop_slot s = Some j \<and> i \<noteq> j"
proof -
  let ?s = "f4_after_push"
  let ?t = "?s\<lparr>po := Po_reload 0\<rparr>" and ?u = "?s\<lparr>cachedPushCursor := 1, po := Po_read 0\<rparr>"
  let ?v = "?u\<lparr>pu := Pu_write 1 8\<rparr>"
  have f [simp]: "pushCursor ?s = 1" "popCursor ?s = 0" "cachedPopCursor ?s = 0" "cachedPushCursor ?s = 0"
    "ff_capacity ?s = 2" "po ?s = Po_idle" "pu ?s = Pu_idle"
    by (simp_all add: f4_after_push_def)
  have "Fifo4_run 2 [Tau, Tau, Pushed 7, Tau] ?t"
    using f4_next[OF run_push Fifo4_step.pop_call[of ?s 0]] by (simp add: empty_at_def)
  from f4_next[OF this Fifo4_step.pop_reload[of ?t 0]]
  have "Fifo4_run 2 [Tau, Tau, Pushed 7, Tau, Tau] ?u" by (simp add: empty_at_def)
  from f4_next[OF this Fifo4_step.push_call[of ?u 1 8]]
  have r: "Fifo4_run 2 [Tau, Tau, Pushed 7, Tau, Tau, Tau] ?v" by (simp add: full_at_def)
  have ij: "push_slot ?v = Some 1" "pop_slot ?v = Some 0" by (simp_all add: push_slot_def pop_slot_def)
  show ?thesis using r ij fifo4_threads_never_share_a_slot[OF r fits_2 ij] by blast
qed

section \<open>The last version\<close>

text \<open>A \<open>Fifo5\<close> delivers its first element for ever. The destructor of \<open>popper_t\<close> stores to
  \<open>_pushCursor\<close>: in any state in which a pop finds an element, \<open>n\<close> pops all deliver this
  same element, the pop cursor never moves, and after the first of them the queue counts one
  element, so that every other element it held is lost.\<close>

theorem fifo5_pops_the_same_element:
  assumes "pushCursor f \<noteq> popCursor f" "read_at (popCursor f) f = Inr x" "0 < n"
  shows "\<exists>g. Fifo5_pops n f = Inr (replicate n (Some x), g) \<and> popCursor g = popCursor f \<and> fifo_size g = 1"
  using Fifo5_pops_offers[of x f n] assms by (auto simp: offers_def fifo_size_def)

theorem fifo5_pops_the_same_element_witness:
  "\<exists>f g. Fifo5_push (1 :: nat) (Fifo4_ctor 4) = Inr (True, f) \<and> Fifo5_push 2 f = Inr (True, g)
     \<and> (\<exists>h. Fifo5_pops 3 g = Inr ([Some 1, Some 1, Some 1], h) \<and> fifo_size h = 1)"
proof -
  obtain f where f: "Fifo5_push (1 :: nat) (Fifo4_ctor 4) = Inr (True, f)" "pushCursor f = 1" "popCursor f = 0"
    "cachedPopCursor f = 0" "ff_capacity f = 4" "ff_ring f = (\<lambda>_. None)(0 := Some 1)"
    by (simp add: Fifo5_push_def Fifo5_pusher_def full_at_def Fifo4_ctor_def construct_at_def fifo_slot_def
        pusher_t_dtor_def)
  obtain g where g: "Fifo5_push 2 f = Inr (True, g)" "pushCursor g = 2" "popCursor g = 0"
    "ff_capacity g = 4" "ff_ring g = (\<lambda>_. None)(0 := Some 1, 1 := Some 2)"
    using f(2-) by (simp add: Fifo5_push_def Fifo5_pusher_def full_at_def construct_at_def fifo_slot_def
        pusher_t_dtor_def unat_mod_distrib)
  have "read_at (popCursor g) g = Inr 1" using g by (simp add: read_at_def fifo_slot_def)
  then show ?thesis
    using f(1) g fifo5_pops_the_same_element[of g 1 3] by (auto simp: numeral_3_eq_3)
qed

end
