(* ===== verification/FineQueue.thy ===== *)
theory FineQueue
  imports Prelude
begin

text \<open>
  \<open>Cpp_concurrency_in_action/chapter6/6.2.3_thread_safe_queue_with_finegrained_locking.cpp\<close>: a queue
  as a linked list that ends in a dummy node, with one mutex for its head and one for its tail, so
  that a push and a pop can go on at the same time. Any number of threads; each access to
  shared memory and each acquisition of a mutex is a step. A release is part of the access before
  it. The versions of the pops that take a reference move the value out before they unlink the node;
  the value that \<open>Fq_returned\<close> names is that of the element in either case. An address is a number, and \<open>new\<close> may return any that is not in use. \<open>spurious\<close> says whether
  a thread may wake from the condition variable by itself.
\<close>

section \<open>The queue\<close>

text \<open>A node: its value and the address of the next node.\<close>

type_synonym 'a fq_node = "'a option \<times> nat option"

datatype pop_kind = Try_pop | Try_pop_into | Wait_and_pop | Wait_and_pop_into | Empty

datatype 'a fq_pc =
    Fq_idle
  | Fq_push 'a nat | Fq_data 'a nat | Fq_next 'a nat | Fq_tail 'a nat | Fq_notify
  | Fq_lock pop_kind | Fq_get pop_kind | Fq_read pop_kind | Fq_compare pop_kind nat
  | Fq_wait pop_kind | Fq_sleep pop_kind | Fq_move pop_kind | Fq_pop pop_kind | Fq_delete 'a nat
  | Fq_null_deref | Fq_undefined

record 'a FineQueue =
  fq_heap :: "nat \<Rightarrow> 'a fq_node option"
  fq_head :: nat
  fq_tail :: nat
  fq_head_mutex :: "nat option"
  fq_tail_mutex :: "nat option"
  fq_pc :: "nat \<Rightarrow> 'a fq_pc"

definition FineQueue_ctor :: "'a FineQueue" where
  "FineQueue_ctor = \<lparr>fq_heap = [0 \<mapsto> (None, None)], fq_head = 0, fq_tail = 0, fq_head_mutex = None,
     fq_tail_mutex = None, fq_pc = (\<lambda>_. Fq_idle)\<rparr>"

datatype 'a fq_event =
    Fq_tau | Fq_pushed 'a | Fq_saw_empty | Fq_saw_data | Fq_popped nat 'a | Fq_returned nat 'a | Fq_none nat | Fq_is_empty nat bool

definition fq_goes :: "nat \<Rightarrow> 'a fq_pc \<Rightarrow> 'a FineQueue \<Rightarrow> 'a FineQueue" where
  "fq_goes p c s = s\<lparr>fq_pc := (fq_pc s)(p := c)\<rparr>"

definition fq_put :: "nat \<Rightarrow> 'a fq_node option \<Rightarrow> 'a FineQueue \<Rightarrow> 'a FineQueue" where
  "fq_put a n s = s\<lparr>fq_heap := (fq_heap s)(a := n)\<rparr>"

text \<open>What a thread does after the comparison of the head with the tail it was given.\<close>

fun on_empty :: "pop_kind \<Rightarrow> 'a fq_pc" where
  "on_empty Try_pop_into = Fq_null_deref"
| "on_empty k = (if k = Wait_and_pop \<or> k = Wait_and_pop_into then Fq_wait k else Fq_idle)"

fun on_data :: "pop_kind \<Rightarrow> 'a fq_pc" where
  "on_data Empty = Fq_idle"
| "on_data k = (if k = Try_pop_into \<or> k = Wait_and_pop_into then Fq_move k else Fq_pop k)"

fun on_result :: "nat \<Rightarrow> pop_kind \<Rightarrow> bool \<Rightarrow> 'a fq_event" where
  "on_result p Empty b = Fq_is_empty p b"
| "on_result p Try_pop True = Fq_none p"
| "on_result p k b = Fq_tau"

text \<open>Whether the head mutex is still held in that state.\<close>

fun fq_holds_head :: "'a fq_pc \<Rightarrow> bool" where
  "fq_holds_head (Fq_get k) = True" | "fq_holds_head (Fq_read k) = True" | "fq_holds_head (Fq_compare k t) = True"
| "fq_holds_head (Fq_wait k) = True" | "fq_holds_head (Fq_move k) = True" | "fq_holds_head (Fq_pop k) = True"
| "fq_holds_head _ = False"

fun fq_holds_tail :: "'a fq_pc \<Rightarrow> bool" where
  "fq_holds_tail (Fq_data v a) = True" | "fq_holds_tail (Fq_next v a) = True" | "fq_holds_tail (Fq_tail v a) = True"
| "fq_holds_tail (Fq_read k) = True" | "fq_holds_tail _ = False"

definition leave_head :: "'a fq_pc \<Rightarrow> 'a FineQueue \<Rightarrow> 'a FineQueue" where
  "leave_head c s = (if fq_holds_head c then s else s\<lparr>fq_head_mutex := None\<rparr>)"

inductive fq_step :: "bool \<Rightarrow> 'a FineQueue \<Rightarrow> 'a fq_event \<Rightarrow> 'a FineQueue \<Rightarrow> bool" for spurious :: bool where
  fq_new: "fq_pc s p = Fq_idle \<Longrightarrow> fq_heap s a = None \<Longrightarrow>
    fq_step spurious s Fq_tau (fq_goes p (Fq_push v a) (fq_put a (Some (None, None)) s))"
| fq_lock_tail: "fq_pc s p = Fq_push v a \<Longrightarrow> fq_tail_mutex s = None \<Longrightarrow>
    fq_step spurious s Fq_tau (fq_goes p (Fq_data v a) (s\<lparr>fq_tail_mutex := Some p\<rparr>))"
| fq_set_data: "fq_pc s p = Fq_data v a \<Longrightarrow> fq_heap s (fq_tail s) = Some (d, nx) \<Longrightarrow>
    fq_step spurious s Fq_tau (fq_goes p (Fq_next v a) (fq_put (fq_tail s) (Some (Some v, nx)) s))"
| fq_set_next: "fq_pc s p = Fq_next v a \<Longrightarrow> fq_heap s (fq_tail s) = Some (d, nx) \<Longrightarrow>
    fq_step spurious s Fq_tau (fq_goes p (Fq_tail v a) (fq_put (fq_tail s) (Some (d, Some a)) s))"
| fq_set_tail: "fq_pc s p = Fq_tail v a \<Longrightarrow>
    fq_step spurious s (Fq_pushed v) (fq_goes p Fq_notify (s\<lparr>fq_tail := a, fq_tail_mutex := None\<rparr>))"
| fq_wake: "fq_pc s p = Fq_notify \<Longrightarrow> fq_pc s q = Fq_sleep k \<Longrightarrow>
    fq_step spurious s Fq_tau (fq_goes q (Fq_lock k) (fq_goes p Fq_idle s))"
| fq_lost: "fq_pc s p = Fq_notify \<Longrightarrow> \<forall>q k. fq_pc s q \<noteq> Fq_sleep k \<Longrightarrow> fq_step spurious s Fq_tau (fq_goes p Fq_idle s)"
| fq_call: "fq_pc s p = Fq_idle \<Longrightarrow> fq_step spurious s Fq_tau (fq_goes p (Fq_lock k) s)"
| fq_lock_head: "fq_pc s p = Fq_lock k \<Longrightarrow> fq_head_mutex s = None \<Longrightarrow>
    fq_step spurious s Fq_tau (fq_goes p (Fq_get k) (s\<lparr>fq_head_mutex := Some p\<rparr>))"
| fq_lock_both: "fq_pc s p = Fq_get k \<Longrightarrow> fq_tail_mutex s = None \<Longrightarrow>
    fq_step spurious s Fq_tau (fq_goes p (Fq_read k) (s\<lparr>fq_tail_mutex := Some p\<rparr>))"
| fq_get_tail: "fq_pc s p = Fq_read k \<Longrightarrow>
    fq_step spurious s (if fq_head s = fq_tail s then Fq_saw_empty else Fq_saw_data)
      (fq_goes p (Fq_compare k (fq_tail s)) (s\<lparr>fq_tail_mutex := None\<rparr>))"
| fq_equal: "fq_pc s p = Fq_compare k t \<Longrightarrow> fq_head s = t \<Longrightarrow>
    fq_step spurious s (on_result p k True) (fq_goes p (on_empty k) (leave_head (on_empty k) s))"
| fq_differ: "fq_pc s p = Fq_compare k t \<Longrightarrow> fq_head s \<noteq> t \<Longrightarrow>
    fq_step spurious s (on_result p k False) (fq_goes p (on_data k) (leave_head (on_data k) s))"
| fq_go_to_sleep: "fq_pc s p = Fq_wait k \<Longrightarrow>
    fq_step spurious s Fq_tau (fq_goes p (Fq_sleep k) (s\<lparr>fq_head_mutex := None\<rparr>))"
| fq_spurious: "spurious \<Longrightarrow> fq_pc s p = Fq_sleep k \<Longrightarrow> fq_step spurious s Fq_tau (fq_goes p (Fq_lock k) s)"
| fq_move_value: "fq_pc s p = Fq_move k \<Longrightarrow> fq_heap s (fq_head s) = Some (Some v, nx) \<Longrightarrow>
    fq_step spurious s Fq_tau (fq_goes p (Fq_pop k) s)"
| fq_pop_head: "fq_pc s p = Fq_pop k \<Longrightarrow> fq_heap s (fq_head s) = Some (Some v, Some b) \<Longrightarrow>
    fq_step spurious s (Fq_popped p v) (fq_goes p (Fq_delete v (fq_head s))
      (fq_put (fq_head s) (Some (Some v, None)) (s\<lparr>fq_head := b, fq_head_mutex := None\<rparr>)))"
| fq_delete: "fq_pc s p = Fq_delete v a \<Longrightarrow> fq_heap s a = Some (Some w, nx) \<Longrightarrow>
    fq_step spurious s (Fq_returned p w) (fq_goes p Fq_idle (fq_put a None s))"
| fq_bad: "fq_pc s p = Fq_data v a \<and> fq_heap s (fq_tail s) = None \<or> fq_pc s p = Fq_next v a \<and> fq_heap s (fq_tail s) = None
      \<or> fq_pc s p = Fq_move k \<and> (\<forall>v nx. fq_heap s (fq_head s) \<noteq> Some (Some v, nx))
      \<or> fq_pc s p = Fq_pop k \<and> (\<forall>v b. fq_heap s (fq_head s) \<noteq> Some (Some v, Some b))
      \<or> fq_pc s p = Fq_delete v a \<and> (\<forall>w nx. fq_heap s a \<noteq> Some (Some w, nx)) \<Longrightarrow>
    fq_step spurious s Fq_tau (fq_goes p Fq_undefined s)"

inductive fq_run :: "bool \<Rightarrow> 'a fq_event list \<Rightarrow> 'a FineQueue \<Rightarrow> bool" for spurious :: bool where
  fq_init: "fq_run spurious [] FineQueue_ctor"
| fq_more: "fq_run spurious es s \<Longrightarrow> fq_step spurious s e t \<Longrightarrow> fq_run spurious (es @ [e]) t"

section \<open>The specification\<close>

inductive queue_step :: "'a list \<Rightarrow> 'a fq_event \<Rightarrow> 'a list \<Rightarrow> bool" where
  "queue_step xs Fq_tau xs"
| "queue_step xs (Fq_pushed v) (xs @ [v])"
| "queue_step (v # xs) (Fq_popped p v) xs"
| "queue_step [] Fq_saw_empty []"
| "xs \<noteq> [] \<Longrightarrow> queue_step xs Fq_saw_data xs"
| "queue_step xs (Fq_returned p v) xs"
| "queue_step xs (Fq_none p) xs"
| "queue_step xs (Fq_is_empty p b) xs"

inductive queue_run :: "'a fq_event list \<Rightarrow> 'a list \<Rightarrow> bool" where
  "queue_run [] []"
| "queue_run es xs \<Longrightarrow> queue_step xs e ys \<Longrightarrow> queue_run (es @ [e]) ys"

definition last_taken :: "nat \<Rightarrow> 'a fq_event list \<Rightarrow> 'a option" where
  "last_taken p es = foldl (\<lambda>r e. case e of Fq_popped q v \<Rightarrow> if q = p then Some v else r | _ \<Rightarrow> r) None es"

section \<open>The invariant\<close>

text \<open>The nodes before the dummy hold the elements.\<close>

fun fq_chain :: "(nat \<Rightarrow> 'a fq_node option) \<Rightarrow> nat \<Rightarrow> nat list \<Rightarrow> 'a list \<Rightarrow> nat \<Rightarrow> bool" where
  "fq_chain H a [] [] t = (a = t)"
| "fq_chain H a (b # ns) (x # xs) t = (a = b \<and> (\<exists>c. H a = Some (Some x, Some c) \<and> fq_chain H c ns xs t))"
| "fq_chain H a _ _ t = False"

text \<open>The dummy node while a thread that holds the tail mutex fills it.\<close>

fun tail_node :: "'a fq_pc \<Rightarrow> 'a fq_node" where
  "tail_node (Fq_next v a) = (Some v, None)" | "tail_node (Fq_tail v a) = (Some v, Some a)" | "tail_node _ = (None, None)"

text \<open>The node that belongs to a thread: one to be pushed or one that it has taken out.\<close>

fun fq_mine :: "'a fq_pc \<Rightarrow> nat option" where
  "fq_mine (Fq_push v a) = Some a" | "fq_mine (Fq_data v a) = Some a" | "fq_mine (Fq_next v a) = Some a"
| "fq_mine (Fq_tail v a) = Some a" | "fq_mine (Fq_delete v a) = Some a" | "fq_mine _ = None"

fun mine_node :: "'a fq_pc \<Rightarrow> 'a fq_node" where
  "mine_node (Fq_delete v a) = (Some v, None)" | "mine_node _ = (None, None)"

definition fq_locks :: "'a FineQueue \<Rightarrow> bool" where
  "fq_locks s \<longleftrightarrow> (\<forall>p. fq_holds_head (fq_pc s p) \<longleftrightarrow> fq_head_mutex s = Some p)
     \<and> (\<forall>p. fq_holds_tail (fq_pc s p) \<longleftrightarrow> fq_tail_mutex s = Some p)"

definition fq_list :: "'a FineQueue \<Rightarrow> nat list \<Rightarrow> 'a list \<Rightarrow> bool" where
  "fq_list s ns xs \<longleftrightarrow> fq_chain (fq_heap s) (fq_head s) ns xs (fq_tail s) \<and> distinct (ns @ [fq_tail s])
     \<and> fq_heap s (fq_tail s) = Some (case fq_tail_mutex s of None \<Rightarrow> (None, None) | Some p \<Rightarrow> tail_node (fq_pc s p))"

definition fq_owned :: "'a FineQueue \<Rightarrow> nat list \<Rightarrow> bool" where
  "fq_owned s ns \<longleftrightarrow> (\<forall>p a. fq_mine (fq_pc s p) = Some a \<longrightarrow>
       fq_heap s a = Some (mine_node (fq_pc s p)) \<and> a \<notin> set ns \<and> a \<noteq> fq_tail s)
     \<and> (\<forall>p q a. fq_mine (fq_pc s p) = Some a \<longrightarrow> fq_mine (fq_pc s q) = Some a \<longrightarrow> p = q)"

fun fq_local :: "'a fq_event list \<Rightarrow> 'a FineQueue \<Rightarrow> nat list \<Rightarrow> nat \<Rightarrow> 'a fq_pc \<Rightarrow> bool" where
  "fq_local es s ns p (Fq_compare k t) = (t = fq_tail s \<or> t \<in> set ns)"
| "fq_local es s ns p (Fq_move k) = (ns \<noteq> [])"
| "fq_local es s ns p (Fq_pop k) = (ns \<noteq> [])"
| "fq_local es s ns p (Fq_delete v a) = (last_taken p es = Some v)"
| "fq_local es s ns p Fq_undefined = False"
| "fq_local es s ns p c = True"

definition fq_inv :: "'a fq_event list \<Rightarrow> 'a FineQueue \<Rightarrow> nat list \<Rightarrow> 'a list \<Rightarrow> bool" where
  "fq_inv es s ns xs \<longleftrightarrow> fq_locks s \<and> fq_list s ns xs \<and> fq_owned s ns \<and> (\<forall>p. fq_local es s ns p (fq_pc s p))"

lemma fq_simps [simp]:
  "fq_heap (fq_goes p c s) = fq_heap s" "fq_head (fq_goes p c s) = fq_head s" "fq_tail (fq_goes p c s) = fq_tail s"
  "fq_head_mutex (fq_goes p c s) = fq_head_mutex s" "fq_tail_mutex (fq_goes p c s) = fq_tail_mutex s"
  "fq_pc (fq_goes p c s) = (fq_pc s)(p := c)"
  "fq_heap (fq_put a n s) = (fq_heap s)(a := n)" "fq_head (fq_put a n s) = fq_head s" "fq_tail (fq_put a n s) = fq_tail s"
  "fq_head_mutex (fq_put a n s) = fq_head_mutex s" "fq_tail_mutex (fq_put a n s) = fq_tail_mutex s" "fq_pc (fq_put a n s) = fq_pc s"
  "fq_heap (leave_head c s) = fq_heap s" "fq_head (leave_head c s) = fq_head s" "fq_tail (leave_head c s) = fq_tail s"
  "fq_tail_mutex (leave_head c s) = fq_tail_mutex s" "fq_pc (leave_head c s) = fq_pc s"
  "fq_head_mutex (leave_head c s) = (if fq_holds_head c then fq_head_mutex s else None)"
  by (simp_all add: fq_goes_def fq_put_def leave_head_def)

lemma last_taken_append [simp]:
  "last_taken p (es @ [e]) = (case e of Fq_popped q v \<Rightarrow> if q = p then Some v else last_taken p es | _ \<Rightarrow> last_taken p es)"
  by (simp add: last_taken_def split: fq_event.split)

lemma fq_chain_upd: "fq_chain H a ns xs t \<Longrightarrow> b \<notin> set ns \<Longrightarrow> fq_chain (H(b := N)) a ns xs t"
  by (induction H a ns xs t rule: fq_chain.induct) auto

lemma fq_chain_alloc: "fq_chain H a ns xs t \<Longrightarrow> b \<in> set ns \<Longrightarrow> H b \<noteq> None"
  by (induction H a ns xs t rule: fq_chain.induct) auto

lemma fq_chain_snoc:
  "fq_chain H a ns xs t \<Longrightarrow> H t = Some (Some v, Some b) \<Longrightarrow> fq_chain H a (ns @ [t]) (xs @ [v]) b"
  by (induction H a ns xs t rule: fq_chain.induct) auto

lemma fq_chain_cases:
  assumes "fq_chain H a ns xs t"
  obtains "ns = []" "xs = []" "a = t" | c ms x ys where "ns = a # ms" "xs = x # ys" "H a = Some (Some x, Some c)" "fq_chain H c ms ys t"
  using assms by (cases ns; cases xs) auto

lemma on_pcs [simp]:
  "fq_mine (on_empty k :: 'a fq_pc) = None" "fq_mine (on_data k :: 'a fq_pc) = None"
  "tail_node (on_empty k :: 'a fq_pc) = (None, None)" "tail_node (on_data k :: 'a fq_pc) = (None, None)"
  "fq_holds_tail (on_empty k :: 'a fq_pc) = False" "fq_holds_tail (on_data k :: 'a fq_pc) = False"
  "fq_local es s ns p (on_empty k)" "ns \<noteq> [] \<Longrightarrow> fq_local es s ns p (on_data k)"
  by (cases k; simp)+

section \<open>Every step keeps the invariant\<close>

text \<open>The mutexes: a thread takes one, gives one back, or neither.\<close>

lemma mutex_goes:
  assumes "\<forall>q. H (pc q) \<longleftrightarrow> m = Some q"
    and "H c = H (pc p) \<and> m' = m \<or> \<not> H (pc p) \<and> H c \<and> m = None \<and> m' = Some p \<or> H (pc p) \<and> \<not> H c \<and> m' = None"
  shows "\<forall>q. H ((pc(p := c)) q) \<longleftrightarrow> m' = Some q"
  using assms by (metis fun_upd_apply option.inject option.distinct(1))

lemma locks_goes:
  assumes s: "fq_locks s" "fq_pc u = fq_pc s"
    and h: "fq_holds_head c = fq_holds_head (fq_pc s p) \<and> fq_head_mutex u = fq_head_mutex s
      \<or> \<not> fq_holds_head (fq_pc s p) \<and> fq_holds_head c \<and> fq_head_mutex s = None \<and> fq_head_mutex u = Some p
      \<or> fq_holds_head (fq_pc s p) \<and> \<not> fq_holds_head c \<and> fq_head_mutex u = None"
    and t: "fq_holds_tail c = fq_holds_tail (fq_pc s p) \<and> fq_tail_mutex u = fq_tail_mutex s
      \<or> \<not> fq_holds_tail (fq_pc s p) \<and> fq_holds_tail c \<and> fq_tail_mutex s = None \<and> fq_tail_mutex u = Some p
      \<or> fq_holds_tail (fq_pc s p) \<and> \<not> fq_holds_tail c \<and> fq_tail_mutex u = None"
  shows "fq_locks (fq_goes p c u)"
proof -
  have "\<forall>q. fq_holds_head (((fq_pc s)(p := c)) q) \<longleftrightarrow> fq_head_mutex u = Some q"
    by (rule mutex_goes[of fq_holds_head "fq_pc s" "fq_head_mutex s"]) (use s h in \<open>simp_all add: fq_locks_def\<close>)
  moreover have "\<forall>q. fq_holds_tail (((fq_pc s)(p := c)) q) \<longleftrightarrow> fq_tail_mutex u = Some q"
    by (rule mutex_goes[of fq_holds_tail "fq_pc s" "fq_tail_mutex s"]) (use s t in \<open>simp_all add: fq_locks_def\<close>)
  ultimately show ?thesis by (simp add: fq_locks_def s(2))
qed

lemma fq_invD:
  assumes "fq_inv es s ns xs"
  shows "fq_locks s" "fq_list s ns xs" "fq_owned s ns" "\<And>p. fq_local es s ns p (fq_pc s p)"
    "\<And>p. fq_holds_head (fq_pc s p) \<longleftrightarrow> fq_head_mutex s = Some p" "\<And>p. fq_holds_tail (fq_pc s p) \<longleftrightarrow> fq_tail_mutex s = Some p"
    "fq_chain (fq_heap s) (fq_head s) ns xs (fq_tail s)" "distinct (ns @ [fq_tail s])"
    "fq_heap s (fq_tail s) = Some (case fq_tail_mutex s of None \<Rightarrow> (None, None) | Some p \<Rightarrow> tail_node (fq_pc s p))"
    "\<And>p a. fq_mine (fq_pc s p) = Some a \<Longrightarrow> fq_heap s a = Some (mine_node (fq_pc s p)) \<and> a \<notin> set ns \<and> a \<noteq> fq_tail s"
    "\<And>p q a. fq_mine (fq_pc s p) = Some a \<Longrightarrow> fq_mine (fq_pc s q) = Some a \<Longrightarrow> p = q"
  using assms unfolding fq_inv_def fq_locks_def fq_list_def fq_owned_def by blast+

lemma never_bad:
  assumes inv: "fq_inv es s ns xs"
    and bad: "fq_pc s p = Fq_data v a \<and> fq_heap s (fq_tail s) = None \<or> fq_pc s p = Fq_next v a \<and> fq_heap s (fq_tail s) = None
      \<or> fq_pc s p = Fq_move k \<and> (\<forall>v nx. fq_heap s (fq_head s) \<noteq> Some (Some v, nx))
      \<or> fq_pc s p = Fq_pop k \<and> (\<forall>v b. fq_heap s (fq_head s) \<noteq> Some (Some v, Some b))
      \<or> fq_pc s p = Fq_delete v a \<and> (\<forall>w nx. fq_heap s a \<noteq> Some (Some w, nx))"
  shows False
proof -
  have "ns \<noteq> [] \<Longrightarrow> \<exists>v b. fq_heap s (fq_head s) = Some (Some v, Some b)"
    using fq_invD(7)[OF inv] by (rule fq_chain_cases) auto
  then show False
    using bad fq_invD(4,10)[OF inv, of p] fq_invD(9)[OF inv] by auto
qed

lemma locks_step:
  assumes "fq_step b s e t" and inv: "fq_inv es s ns xs"
  shows "fq_locks t"
  using assms(1)
proof cases
  case (fq_wake p q k)
  have "fq_locks (fq_goes p Fq_idle s)"
    by (rule locks_goes[OF fq_invD(1)[OF inv]]) (simp_all add: fq_wake)
  then show ?thesis unfolding fq_wake(2)
    by (rule locks_goes) (use fq_wake in simp_all)
next
  case fq_bad
  then show ?thesis using never_bad[OF inv] by blast
qed ((simp only:, rule locks_goes[OF fq_invD(1)[OF inv]]; simp)+)

text \<open>The list: what a push and a pop do to it, and why no other step changes it.\<close>

fun list_after :: "'a FineQueue \<Rightarrow> 'a fq_event \<Rightarrow> nat list \<times> 'a list \<Rightarrow> nat list \<times> 'a list" where
  "list_after s (Fq_pushed v) (ns, xs) = (ns @ [fq_tail s], xs @ [v])"
| "list_after s (Fq_popped p v) (ns, xs) = (List.tl ns, List.tl xs)"
| "list_after s _ (ns, xs) = (ns, xs)"

lemma list_goes:
  assumes "fq_list s ns xs" "fq_locks s"
    and "fq_heap u = fq_heap s" "fq_head u = fq_head s" "fq_tail u = fq_tail s" "fq_pc u = fq_pc s"
    and "fq_tail_mutex u = fq_tail_mutex s \<and> tail_node c = tail_node (fq_pc s p)
      \<or> fq_tail_mutex s = None \<and> fq_tail_mutex u = Some p \<and> tail_node c = (None, None)
      \<or> fq_tail_mutex s = Some p \<and> fq_tail_mutex u = None \<and> tail_node (fq_pc s p) = (None, None)"
  shows "fq_list (fq_goes p c u) ns xs"
  using assms by (auto simp: fq_list_def split: option.splits)

lemma list_quiet:
  assumes "t = fq_goes p c u" "fq_list s ns xs" "fq_locks s" "ms = ns \<and> ys = xs"
    and "fq_heap u = fq_heap s" "fq_head u = fq_head s" "fq_tail u = fq_tail s" "fq_pc u = fq_pc s"
    and "fq_tail_mutex u = fq_tail_mutex s \<and> tail_node c = tail_node (fq_pc s p)
      \<or> fq_tail_mutex s = None \<and> fq_tail_mutex u = Some p \<and> tail_node c = (None, None)"
  shows "fq_list t ms ys"
  using list_goes[OF assms(2,3,5-8)] assms(1,4,9) by blast

lemma list_after_result [simp]: "list_after s (on_result p k b) ns = ns"
  by (cases ns; cases k; cases b) simp_all

lemma list_step:
  assumes "fq_step b s e t" and inv: "fq_inv es s ns xs" and "list_after s e (ns, xs) = (ms, ys)"
  shows "fq_list t ms ys"
  using assms(1)
proof cases
  case (fq_wake p q k)
  have "fq_list (fq_goes p Fq_idle s) ns xs" and l: "fq_locks (fq_goes p Fq_idle s)"
    by (rule list_goes[OF fq_invD(2,1)[OF inv]], simp_all add: fq_wake)
      (rule locks_goes[OF fq_invD(1)[OF inv]], simp_all add: fq_wake)
  then have "fq_list t ns xs" unfolding fq_wake(2)
    by (rule list_goes) (use fq_wake in simp_all)
  then show ?thesis using assms(3) fq_wake by simp
next
  case fq_bad
  then show ?thesis using never_bad[OF inv] by blast
next
  case (fq_new p a v)
  have new: "a \<noteq> fq_tail s" using fq_invD(9)[OF inv] fq_new by auto
  have "a \<notin> set ns" using fq_chain_alloc[OF fq_invD(7)[OF inv], of a] fq_new by auto
  then show ?thesis
    using assms(3) fq_new new fq_invD(7-9)[OF inv]
    by (auto simp: fq_list_def fq_chain_upd split: option.splits)
next
  case (fq_set_data p v a d nx)
  have "fq_tail_mutex s = Some p" using fq_invD(6)[OF inv, of p] fq_set_data by simp
  then show ?thesis
    using assms(3) fq_set_data fq_invD(7-9)[OF inv] by (auto simp: fq_list_def fq_chain_upd)
next
  case (fq_set_next p v a d nx)
  have "fq_tail_mutex s = Some p" using fq_invD(6)[OF inv, of p] fq_set_next by simp
  then show ?thesis
    using assms(3) fq_set_next fq_invD(7-9)[OF inv] by (auto simp: fq_list_def fq_chain_upd)
next
  case (fq_set_tail p v a)
  have "fq_tail_mutex s = Some p" using fq_invD(6)[OF inv, of p] fq_set_tail by simp
  then have "fq_heap s (fq_tail s) = Some (Some v, Some a)" using fq_invD(9)[OF inv] fq_set_tail by simp
  moreover have "fq_heap s a = Some (None, None)" "a \<notin> set ns" "a \<noteq> fq_tail s"
    using fq_invD(10)[OF inv, of p a] fq_set_tail by auto
  ultimately show ?thesis
    using assms(3) fq_set_tail fq_invD(7,8)[OF inv] by (auto simp: fq_list_def fq_chain_snoc)
next
  case (fq_pop_head p k v c)
  obtain ms' ys' where n: "ns = fq_head s # ms'" "xs = v # ys'" "fq_chain (fq_heap s) c ms' ys' (fq_tail s)"
    using fq_invD(4)[OF inv, of p] fq_invD(7)[OF inv] fq_pop_head by (auto elim: fq_chain_cases)
  then show ?thesis
    using assms(3) fq_pop_head fq_invD(8,9)[OF inv] by (auto simp: fq_list_def fq_chain_upd split: option.splits)
next
  case (fq_delete p v a w nx)
  have "a \<notin> set ns" "a \<noteq> fq_tail s" using fq_invD(10)[OF inv, of p a] fq_delete by auto
  then show ?thesis
    using assms(3) fq_delete fq_invD(7-9)[OF inv] by (auto simp: fq_list_def fq_chain_upd split: option.splits)
next
  case (fq_get_tail p k)
  have "fq_tail_mutex s = Some p" using fq_invD(6)[OF inv, of p] fq_get_tail by simp
  then have "fq_list t ns xs" unfolding fq_get_tail(2)
    by (intro list_goes[OF fq_invD(2,1)[OF inv]]) (simp_all add: fq_get_tail)
  then show ?thesis using assms(3) fq_get_tail(1) by (auto split: if_splits)
next
  case (fq_equal p k)
  have "fq_list t ns xs" unfolding fq_equal(2)
    by (rule list_goes[OF fq_invD(2,1)[OF inv]]) (simp_all add: fq_equal)
  then show ?thesis using assms(3) fq_equal(1) by simp
next
  case (fq_differ p k)
  have "fq_list t ns xs" unfolding fq_differ(2)
    by (rule list_goes[OF fq_invD(2,1)[OF inv]]) (simp_all add: fq_differ)
  then show ?thesis using assms(3) fq_differ(1) by simp
qed (rule list_quiet[OF _ fq_invD(2,1)[OF inv]], assumption; use assms(3) in simp)+

text \<open>Nodes that belong to a thread.\<close>

lemma owned_goes:
  assumes "fq_owned s ns" "fq_pc t = (fq_pc s)(p := c)"
    and "\<And>a. fq_mine c = Some a \<Longrightarrow> fq_heap t a = Some (mine_node c) \<and> a \<notin> set ms \<and> a \<noteq> fq_tail t
        \<and> (\<forall>q. q \<noteq> p \<longrightarrow> fq_mine (fq_pc s q) \<noteq> Some a)"
    and "\<And>q a. q \<noteq> p \<Longrightarrow> fq_mine (fq_pc s q) = Some a \<Longrightarrow> fq_heap t a = fq_heap s a \<and> a \<notin> set ms \<and> a \<noteq> fq_tail t"
  shows "fq_owned t ms"
proof -
  note own = assms(1)[unfolded fq_owned_def]
  have "fq_heap t a = Some (mine_node (fq_pc t q)) \<and> a \<notin> set ms \<and> a \<noteq> fq_tail t" if "fq_mine (fq_pc t q) = Some a" for q a
    using that assms(3)[of a] assms(4)[of q a] own by (cases "q = p") (auto simp: assms(2))
  moreover have "q = r" if "fq_mine (fq_pc t q) = Some a" "fq_mine (fq_pc t r) = Some a" for q r a
    using that assms(3)[of a] own unfolding assms(2) by (metis fun_upd_apply)
  ultimately show ?thesis unfolding fq_owned_def by blast
qed

lemma owned_same:
  assumes "fq_owned s ns" and t: "fq_pc t = (fq_pc s)(p := c)" "fq_heap t = fq_heap s" "fq_tail t = fq_tail s"
    and "fq_mine c = None \<or> fq_mine c = fq_mine (fq_pc s p) \<and> mine_node c = mine_node (fq_pc s p)"
  shows "fq_owned t ns"
proof (rule owned_goes[OF assms(1) t(1)])
  note own = assms(1)[unfolded fq_owned_def]
  fix a
  assume a: "fq_mine c = Some a"
  then have "fq_mine (fq_pc s p) = Some a" "mine_node c = mine_node (fq_pc s p)" using assms(5) by auto
  then show "fq_heap t a = Some (mine_node c) \<and> a \<notin> set ns \<and> a \<noteq> fq_tail t
      \<and> (\<forall>q. q \<noteq> p \<longrightarrow> fq_mine (fq_pc s q) \<noteq> Some a)"
    using own unfolding t by metis
qed (use assms(1) in \<open>auto simp: t fq_owned_def\<close>)

lemma owned_quiet:
  assumes "t = fq_goes p c u" "fq_owned s ns" "ms = ns" "fq_pc u = fq_pc s" "fq_heap u = fq_heap s" "fq_tail u = fq_tail s"
    and "fq_mine c = None \<or> fq_mine c = fq_mine (fq_pc s p) \<and> mine_node c = mine_node (fq_pc s p)"
  shows "fq_owned t ms"
  unfolding assms(3) by (rule owned_same[OF assms(2) _ _ _ assms(7)]) (simp_all add: assms(1,4-6))

lemma owned_step:
  assumes "fq_step b s e t" and inv: "fq_inv es s ns xs" and "list_after s e (ns, xs) = (ms, ys)"
  shows "fq_owned t ms"
  using assms(1)
proof cases
  case (fq_wake p q k)
  have "fq_owned (fq_goes p Fq_idle s) ns" by (rule owned_same[OF fq_invD(3)[OF inv]]) auto
  then have "fq_owned t ns" unfolding fq_wake(2) by (rule owned_same) auto
  then show ?thesis using assms(3) fq_wake by simp
next
  case fq_bad
  then show ?thesis using never_bad[OF inv] by blast
next
  case (fq_new p a v)
  have a: "a \<notin> set ns" "a \<noteq> fq_tail s"
    using fq_chain_alloc[OF fq_invD(7)[OF inv], of a] fq_invD(9)[OF inv] fq_new by auto
  have n: "fq_mine (fq_pc s q) \<noteq> Some a" for q using fq_invD(10)[OF inv, of q a] fq_new by auto
  show ?thesis
    by (rule owned_goes[OF fq_invD(3)[OF inv], of _ p "Fq_push v a"]) (use a n assms(3) fq_new fq_invD(10)[OF inv] in auto)
next
  case (fq_set_data p v a d nx)
  show ?thesis
    by (rule owned_goes[OF fq_invD(3)[OF inv], of _ p "Fq_next v a"])
      (use assms(3) fq_set_data fq_invD(10)[OF inv] fq_invD(10)[OF inv, of p a] fq_invD(11)[OF inv, of p a] in auto)
next
  case (fq_set_next p v a d nx)
  show ?thesis
    by (rule owned_goes[OF fq_invD(3)[OF inv], of _ p "Fq_tail v a"])
      (use assms(3) fq_set_next fq_invD(10)[OF inv] fq_invD(10)[OF inv, of p a] fq_invD(11)[OF inv, of p a] in auto)
next
  case (fq_set_tail p v a)
  have m: "fq_mine (fq_pc s p) = Some a" using fq_set_tail by simp
  show ?thesis
    by (rule owned_goes[OF fq_invD(3)[OF inv], of _ p Fq_notify])
      (use m assms(3) fq_set_tail fq_invD(10,11)[OF inv] in auto)
next
  case (fq_pop_head p k v c)
  have n: "ns \<noteq> []" using fq_invD(4)[OF inv, of p] fq_pop_head by simp
  then obtain ns' where h: "ns = fq_head s # ns'" using fq_invD(7)[OF inv] by (auto elim: fq_chain_cases)
  then have d: "fq_head s \<notin> set ns'" "fq_head s \<noteq> fq_tail s" using fq_invD(8)[OF inv] by auto
  have m: "fq_mine (fq_pc s q) \<noteq> Some (fq_head s)" for q using fq_invD(10)[OF inv, of q] h by auto
  show ?thesis
    by (rule owned_goes[OF fq_invD(3)[OF inv], of _ p "Fq_delete v (fq_head s)"])
      (use assms(3) fq_pop_head h d m fq_invD(10)[OF inv] in auto)
next
  case (fq_delete p v a w nx)
  have m: "fq_mine (fq_pc s p) = Some a" using fq_delete by simp
  show ?thesis
    by (rule owned_goes[OF fq_invD(3)[OF inv], of _ p Fq_idle])
      (use m assms(3) fq_delete fq_invD(10,11)[OF inv] in auto)
next
  case (fq_get_tail p k)
  have "fq_owned t ns" unfolding fq_get_tail(2) by (rule owned_same[OF fq_invD(3)[OF inv]]) auto
  then show ?thesis using assms(3) fq_get_tail(1) by (auto split: if_splits)
next
  case (fq_equal p k)
  have "fq_owned t ns" unfolding fq_equal(2) by (rule owned_same[OF fq_invD(3)[OF inv]]) auto
  then show ?thesis using assms(3) fq_equal(1) by simp
next
  case (fq_differ p k)
  have "fq_owned t ns" unfolding fq_differ(2) by (rule owned_same[OF fq_invD(3)[OF inv]]) auto
  then show ?thesis using assms(3) fq_differ(1) by simp
qed (rule owned_quiet[OF _ fq_invD(3)[OF inv]], assumption; use assms(3) in simp)+

text \<open>What a thread knows.\<close>

lemma local_goes:
  assumes "t = fq_goes p c u" "\<And>q. fq_local es s ns q (fq_pc s q)" "fq_pc u = fq_pc s"
    and "fq_local (es @ [e]) t ms p c" "\<forall>q v. q \<noteq> p \<longrightarrow> e \<noteq> Fq_popped q v"
    and "set ns \<union> {fq_tail s} \<subseteq> set ms \<union> {fq_tail u} \<and> (ns \<noteq> [] \<longrightarrow> ms \<noteq> [])
      \<or> (\<forall>q. q \<noteq> p \<longrightarrow> \<not> fq_holds_head (fq_pc s q))"
  shows "fq_local (es @ [e]) t ms q (fq_pc t q)"
proof (cases "q = p")
  case False
  have "last_taken q (es @ [e]) = last_taken q es" using assms(5) False by (auto split: fq_event.split)
  moreover have "fq_local es s ns q (fq_pc s q)" by (rule assms(2))
  ultimately have "fq_local (es @ [e]) t ms q (fq_pc s q)"
    using assms(1,6) False by (cases "fq_pc s q") auto
  then show ?thesis using False assms(1,3) by simp
qed (use assms(1,3,4) in simp)

lemma on_result_event [simp]: "on_result p k b \<noteq> Fq_popped q v" "on_result p k b \<noteq> Fq_pushed v"
  by (cases k; cases b; simp)+

lemma local_step:
  assumes "fq_step b s e t" and inv: "fq_inv es s ns xs" and l: "list_after s e (ns, xs) = (ms, ys)"
  shows "fq_local (es @ [e]) t ms q (fq_pc t q)"
  using assms(1)
proof cases
  case (fq_wake p r k)
  show ?thesis
  proof (cases "q = r \<or> q = p")
    case False
    then show ?thesis using fq_wake l fq_invD(4)[OF inv, of q] by (cases "fq_pc s q") auto
  qed (use fq_wake in auto)
next
  case fq_bad
  then show ?thesis using never_bad[OF inv] by blast
next
  case (fq_get_tail p k)
  then have "ms = ns" using l by (auto split: if_splits)
  then show ?thesis
    using local_goes[OF fq_get_tail(2) fq_invD(4)[OF inv], of e ms q] by (simp add: fq_get_tail)
next
  case (fq_equal p k)
  then show ?thesis using l
    by (intro local_goes[OF fq_equal(2) fq_invD(4)[OF inv]]) simp_all
next
  case (fq_differ p k u)
  have "ns \<noteq> []"
    using fq_invD(7)[OF inv] by (rule fq_chain_cases) (use fq_invD(4)[OF inv, of p] fq_differ in auto)
  then show ?thesis using l fq_differ
    by (intro local_goes[OF fq_differ(2) fq_invD(4)[OF inv]]) simp_all
next
  case (fq_pop_head p k v c)
  have "fq_head_mutex s = Some p" using fq_invD(5)[OF inv, of p] fq_pop_head by simp
  then have "\<forall>r. r \<noteq> p \<longrightarrow> \<not> fq_holds_head (fq_pc s r)" using fq_invD(5)[OF inv] by simp
  then show ?thesis using fq_pop_head
    by (intro local_goes[OF fq_pop_head(2) fq_invD(4)[OF inv]]) simp_all
next
  case (fq_set_tail p v a)
  then show ?thesis using l
    by (intro local_goes[OF fq_set_tail(2) fq_invD(4)[OF inv]]) auto
next
  case (fq_move_value p k v nx)
  then show ?thesis using l fq_invD(4)[OF inv, of p]
    by (intro local_goes[OF fq_move_value(2) fq_invD(4)[OF inv]]) simp_all
qed (rule local_goes[OF _ fq_invD(4)[OF inv]], assumption; use l in simp)+

lemma fq_step_inv:
  assumes "fq_step b s e t" and inv: "fq_inv es s ns xs" and "list_after s e (ns, xs) = (ms, ys)"
  shows "fq_inv (es @ [e]) t ms ys"
  using locks_step[OF assms(1,2)] list_step[OF assms] owned_step[OF assms] local_step[OF assms]
  by (simp add: fq_inv_def)

lemma fq_step_spec:
  assumes "fq_step b s e t" and inv: "fq_inv es s ns xs" and l: "list_after s e (ns, xs) = (ms, ys)"
  shows "queue_step xs e ys"
  using assms(1)
proof cases
  case (fq_pop_head p k v c)
  have "ns \<noteq> []" using fq_invD(4)[OF inv, of p] fq_pop_head by simp
  then obtain ys' where "xs = v # ys'" using fq_invD(7)[OF inv] fq_pop_head by (auto elim: fq_chain_cases)
  then show ?thesis using fq_pop_head l by (auto intro: queue_step.intros)
next
  case (fq_get_tail p k)
  have "fq_head s = fq_tail s \<longleftrightarrow> xs = []"
    using fq_invD(7)[OF inv] by (rule fq_chain_cases) (use fq_invD(8)[OF inv] in auto)
  then show ?thesis using fq_get_tail l by (auto intro: queue_step.intros split: if_splits)
next
  case (fq_equal p k u)
  then show ?thesis using l by (cases k) (auto intro: queue_step.intros)
next
  case (fq_differ p k u)
  then show ?thesis using l by (cases k) (auto intro: queue_step.intros)
qed (use l in \<open>auto intro: queue_step.intros\<close>)

lemma fq_start: "fq_inv [] FineQueue_ctor [] []"
  by (simp add: fq_inv_def fq_locks_def fq_list_def fq_owned_def FineQueue_ctor_def)

lemma fq_run_inv: "fq_run b es s \<Longrightarrow> \<exists>ns xs. fq_inv es s ns xs \<and> queue_run es xs"
proof (induction rule: fq_run.induct)
  case fq_init
  then show ?case using fq_start queue_run.intros(1) by blast
next
  case (fq_more es s e t)
  then obtain ns xs where inv: "fq_inv es s ns xs" and r: "queue_run es xs" by blast
  obtain ms ys where l: "list_after s e (ns, xs) = (ms, ys)" by fastforce
  show ?case
    using fq_step_inv[OF fq_more(2) inv l] queue_run.intros(2)[OF r fq_step_spec[OF fq_more(2) inv l]] by blast
qed

section \<open>Properties\<close>

text \<open>C33: The queue is a queue. In every interleaving of any number of threads the pushes and
  pops take effect in the order of a first-in first-out queue at the store to \<open>tail_\<close>
  and the move of \<open>head_\<close>, a pop that finds nothing does so at a moment at which the
  queue is empty (when it reads \<open>tail_\<close> with the head mutex held and both are equal,
  the event \<open>Fq_saw_empty\<close>; its return, \<open>Fq_none\<close>, comes later), the list
  from \<open>head_\<close> to the dummy at \<open>tail_\<close> holds the elements that are left,
  and no node is used after it has been freed or before it is complete.\<close>

theorem fine_queue_is_fifo:
  assumes "fq_run spurious es s"
  shows "\<exists>xs ns. queue_run es xs \<and> fq_chain (fq_heap s) (fq_head s) ns xs (fq_tail s)
    \<and> (\<forall>p. fq_pc s p \<noteq> Fq_undefined)"
proof -
  obtain ns xs where inv: "fq_inv es s ns xs" and "queue_run es xs" using fq_run_inv[OF assms] by blast
  moreover have "fq_pc s p \<noteq> Fq_undefined" for p using fq_invD(4)[OF inv, of p] by auto
  ultimately show ?thesis using fq_invD(7)[OF inv] by blast
qed

text \<open>What a pop returns is what it took, although it reads the value from the node when it holds no
  mutex any more.\<close>

theorem fine_queue_returns_what_it_took:
  assumes "fq_run spurious es s" and "fq_step spurious s (Fq_returned p v) t"
  shows "last_taken p es = Some v"
proof -
  obtain ns xs where inv: "fq_inv es s ns xs" using fq_run_inv[OF assms(1)] by blast
  show ?thesis
    using assms(2)
  proof cases
    case (fq_delete w a nx)
    then show ?thesis using fq_invD(4,10)[OF inv, of p] by simp
  next
    case (fq_equal r k u)
    then show ?thesis by (cases k) auto
  next
    case (fq_differ r k u)
    then show ?thesis by (cases k) auto
  qed (auto split: if_splits)
qed

text \<open>The shared locations that the next step of a thread reads (\<open>False\<close>) or writes (\<open>True\<close>). Moving the
  value out of a node counts as a write to its data; the mutexes themselves are no such locations.\<close>

datatype fq_loc = L_head | L_tail | L_data nat | L_next nat

fun fq_accesses :: "'a FineQueue \<Rightarrow> 'a fq_pc \<Rightarrow> (fq_loc \<times> bool) set" where
  "fq_accesses s (Fq_data v a) = {(L_tail, False), (L_data (fq_tail s), True)}"
| "fq_accesses s (Fq_next v a) = {(L_tail, False), (L_next (fq_tail s), True)}"
| "fq_accesses s (Fq_tail v a) = {(L_tail, True)}"
| "fq_accesses s (Fq_read k) = {(L_tail, False)}"
| "fq_accesses s (Fq_compare k t) = {(L_head, False)}"
| "fq_accesses s (Fq_move k) = {(L_head, False), (L_data (fq_head s), True)}"
| "fq_accesses s (Fq_pop k) = {(L_head, True), (L_next (fq_head s), True)}"
| "fq_accesses s (Fq_delete v a) = {(L_data a, True), (L_next a, True)}"
| "fq_accesses s c = {}"

text \<open>C34: There is no data race in the queue: in every interleaving of any number of threads,
  no two threads are ever about to access the same shared location (the pointers
  \<open>head_\<close> and \<open>tail_\<close>, the data and the link of a node;
  \<open>fq_accesses\<close>) when one of them writes to it, though a push and a pop hold different
  mutexes and the last node is reached from both ends. The dummy node keeps them apart.\<close>

theorem fine_queue_has_no_race:
  assumes "fq_run spurious es s" and "p \<noteq> q"
    and "(l, w) \<in> fq_accesses s (fq_pc s p)" "(l, w') \<in> fq_accesses s (fq_pc s q)"
  shows "\<not> w \<and> \<not> w'"
proof -
  obtain ns xs where inv: "fq_inv es s ns xs" using fq_run_inv[OF assms(1)] by blast
  have one: "\<not> (fq_holds_head (fq_pc s p) \<and> fq_holds_head (fq_pc s q))" "\<not> (fq_holds_tail (fq_pc s p) \<and> fq_holds_tail (fq_pc s q))"
    using assms(2) fq_invD(5,6)[OF inv] by auto
  have head: "fq_head s \<in> set ns \<and> fq_head s \<noteq> fq_tail s" if "ns \<noteq> []"
    using fq_invD(7)[OF inv] by (rule fq_chain_cases) (use that fq_invD(8)[OF inv] in auto)
  have mine: "a \<notin> set ns" "a \<noteq> fq_tail s" "fq_mine (fq_pc s (if r = p then q else p)) \<noteq> Some a"
    if "fq_mine (fq_pc s r) = Some a" "r = p \<or> r = q" for r a
    using fq_invD(10)[OF inv that(1)] fq_invD(11)[OF inv that(1), of "if r = p then q else p"] that assms(2)
    by (auto split: if_splits)
  show ?thesis
    using assms(2-4) one head fq_invD(4)[OF inv, of p] fq_invD(4)[OF inv, of q] mine[of p] mine[of q]
    by (cases "fq_pc s p"; cases "fq_pc s q") auto
qed

section \<open>Two runs\<close>

lemma fq_then: "fq_run b es s \<Longrightarrow> fq_step b s e u \<Longrightarrow> u = t \<Longrightarrow> fq_run b (es @ [e]) t"
  using fq_more by blast

text \<open>Threads 0 and 1, over a heap.\<close>

definition fq :: "(nat \<Rightarrow> nat fq_node option) \<Rightarrow> nat \<Rightarrow> nat \<Rightarrow> nat option \<Rightarrow> nat option \<Rightarrow> nat fq_pc \<Rightarrow> nat fq_pc \<Rightarrow> nat FineQueue" where
  "fq H h t hm tm c d = \<lparr>fq_heap = H, fq_head = h, fq_tail = t, fq_head_mutex = hm, fq_tail_mutex = tm,
     fq_pc = (\<lambda>_. Fq_idle)(0 := c, 1 := d)\<rparr>"

lemma fq_fields [simp]:
  "fq_heap (fq H h t hm tm c d) = H" "fq_head (fq H h t hm tm c d) = h" "fq_tail (fq H h t hm tm c d) = t"
  "fq_head_mutex (fq H h t hm tm c d) = hm" "fq_tail_mutex (fq H h t hm tm c d) = tm"
  "fq_pc (fq H h t hm tm c d) = (\<lambda>_. Fq_idle)(0 := c, 1 := d)"
  "fq_goes 0 c' (fq H h t hm tm c d) = fq H h t hm tm c' d" "fq_goes 1 d' (fq H h t hm tm c d) = fq H h t hm tm c d'"
  "fq_goes (Suc 0) d' (fq H h t hm tm c d) = fq H h t hm tm c d'"
  "fq_put a n (fq H h t hm tm c d) = fq (H(a := n)) h t hm tm c d"
  "fq_tail_mutex_update (\<lambda>_. tm') (fq H h t hm tm c d) = fq H h t hm tm' c d"
  "fq_head_mutex_update (\<lambda>_. hm') (fq H h t hm tm c d) = fq H h t hm' tm c d"
  "fq_tail_update (\<lambda>_. t') (fq H h t hm tm c d) = fq H h t' hm tm c d"
  "fq_head_update (\<lambda>_. h') (fq H h t hm tm c d) = fq H h' t hm tm c d"
  "leave_head x (fq H h t hm tm c d) = (if fq_holds_head x then fq H h t hm tm c d else fq H h t None tm c d)"
  by (auto simp: fq_def fq_goes_def fq_put_def leave_head_def)

lemma fq_ctor: "FineQueue_ctor = fq [0 \<mapsto> (None, None)] 0 0 None None Fq_idle Fq_idle"
  by (auto simp: fq_def FineQueue_ctor_def)

abbreviation "H0 \<equiv> [0 \<mapsto> (None, None)] :: nat \<rightharpoonup> nat fq_node"
abbreviation "H1 \<equiv> [0 \<mapsto> (Some 7, Some 1), 1 \<mapsto> (None, None)] :: nat \<rightharpoonup> nat fq_node"

lemma fq_run_start: "fq_run b [] (fq H0 0 0 None None Fq_idle Fq_idle)"
  unfolding fq_ctor[symmetric] by (rule fq_init)

text \<open>Thread 1 pushes 7 while thread 0 is at \<open>c\<close>, up to the notification.\<close>

lemma fq_pushes:
  assumes "fq_run b es (fq H0 0 0 hm None c Fq_idle)"
  shows "fq_run b (es @ [Fq_tau, Fq_tau, Fq_tau, Fq_tau, Fq_pushed 7]) (fq H1 0 1 hm None c Fq_notify)"
proof -
  let ?G = "[0 \<mapsto> (None, None), 1 \<mapsto> (None, None)] :: nat \<rightharpoonup> nat fq_node"
  have 1: "fq_run b (es @ [Fq_tau]) (fq ?G 0 0 hm None c (Fq_push 7 1))"
    by (rule fq_then[OF assms fq_new[of _ 1 1 _ 7]]) simp_all
  have 2: "fq_run b ((es @ [Fq_tau]) @ [Fq_tau]) (fq ?G 0 0 hm (Some 1) c (Fq_data 7 1))"
    by (rule fq_then[OF 1 fq_lock_tail[of _ 1 7 1]]) simp_all
  have 3: "fq_run b (((es @ [Fq_tau]) @ [Fq_tau]) @ [Fq_tau])
      (fq (?G(0 \<mapsto> (Some 7, None))) 0 0 hm (Some 1) c (Fq_next 7 1))"
    by (rule fq_then[OF 2 fq_set_data[of _ 1 7 1 None None]]) simp_all
  have 4: "fq_run b ((((es @ [Fq_tau]) @ [Fq_tau]) @ [Fq_tau]) @ [Fq_tau])
      (fq (?G(0 \<mapsto> (Some 7, Some 1))) 0 0 hm (Some 1) c (Fq_tail 7 1))"
    by (rule fq_then[OF 3 fq_set_next[of _ 1 7 1 "Some 7" None]]) simp_all
  have "fq_run b (((((es @ [Fq_tau]) @ [Fq_tau]) @ [Fq_tau]) @ [Fq_tau]) @ [Fq_pushed 7])
      (fq (?G(0 \<mapsto> (Some 7, Some 1))) 0 1 hm None c Fq_notify)"
    by (rule fq_then[OF 4 fq_set_tail[of _ 1 7 1]]) simp_all
  moreover have "?G(0 \<mapsto> (Some 7, Some 1)) = H1" by auto
  ultimately show ?thesis by simp
qed

text \<open>Thread 0 calls an operation and compares the head with the tail it reads.\<close>

lemma fq_compares:
  assumes "fq_run b es (fq H h t None None Fq_idle d)"
  shows "fq_run b (es @ [Fq_tau, Fq_tau, Fq_tau, if h = t then Fq_saw_empty else Fq_saw_data])
    (fq H h t (Some 0) None (Fq_compare k t) d)"
proof -
  have 1: "fq_run b (es @ [Fq_tau]) (fq H h t None None (Fq_lock k) d)"
    by (rule fq_then[OF assms fq_call[of _ 0 _ k]]) simp_all
  have 2: "fq_run b ((es @ [Fq_tau]) @ [Fq_tau]) (fq H h t (Some 0) None (Fq_get k) d)"
    by (rule fq_then[OF 1 fq_lock_head[of _ 0 k]]) simp_all
  have 3: "fq_run b (((es @ [Fq_tau]) @ [Fq_tau]) @ [Fq_tau]) (fq H h t (Some 0) (Some 0) (Fq_read k) d)"
    by (rule fq_then[OF 2 fq_lock_both[of _ 0 k]]) simp_all
  have "fq_run b ((((es @ [Fq_tau]) @ [Fq_tau]) @ [Fq_tau]) @ [if h = t then Fq_saw_empty else Fq_saw_data])
      (fq H h t (Some 0) None (Fq_compare k t) d)"
    using fq_then[OF 3 fq_get_tail[of _ 0 k] refl] by simp
  then show ?thesis by simp
qed

text \<open>A wake-up can be lost. \<open>push\<close> notifies without holding \<open>head_mutex_\<close>, so it can come between the
  moment at which \<open>wait_and_pop\<close> has found the queue empty and the moment at which it sleeps; the
  consumer then sleeps although there is an element, and nobody is left to wake it.\<close>

theorem fine_queue_can_lose_a_wake_up:
  "\<exists>es (s :: nat FineQueue). fq_run False es s \<and> fq_pc s 0 = Fq_sleep Wait_and_pop \<and> fq_head s \<noteq> fq_tail s
    \<and> (\<forall>q. q \<noteq> 0 \<longrightarrow> fq_pc s q = Fq_idle)"
proof -
  have "fq_run False [] (fq H0 0 0 None None Fq_idle Fq_idle)" by (rule fq_run_start)
  from fq_compares[OF this, of Wait_and_pop]
  obtain es where 1: "fq_run False es (fq H0 0 0 (Some 0) None (Fq_compare Wait_and_pop 0) Fq_idle)" by auto
  have 2: "fq_run False (es @ [Fq_tau]) (fq H0 0 0 (Some 0) None (Fq_wait Wait_and_pop) Fq_idle)"
    using fq_then[OF 1 fq_equal[of _ 0 Wait_and_pop 0]] by simp
  from fq_pushes[OF this] obtain es' where 3: "fq_run False es' (fq H1 0 1 (Some 0) None (Fq_wait Wait_and_pop) Fq_notify)" by blast
  have 4: "fq_run False (es' @ [Fq_tau]) (fq H1 0 1 (Some 0) None (Fq_wait Wait_and_pop) Fq_idle)"
    by (rule fq_then[OF 3 fq_lost[of _ 1]]) simp_all
  have "fq_run False ((es' @ [Fq_tau]) @ [Fq_tau]) (fq H1 0 1 None None (Fq_sleep Wait_and_pop) Fq_idle)"
    by (rule fq_then[OF 4 fq_go_to_sleep[of _ 0 Wait_and_pop]]) simp_all
  then show ?thesis by (intro exI conjI) auto
qed

text \<open>\<open>try_pop(value)\<close> on an empty queue dereferences the null pointer it got.\<close>

lemma try_pop_into_empty: "\<exists>es (s :: nat FineQueue). fq_run False es s \<and> fq_pc s 0 = Fq_null_deref"
proof -
  have "fq_run False [] (fq H0 0 0 None None Fq_idle Fq_idle)" by (rule fq_run_start)
  from fq_compares[OF this, of Try_pop_into]
  obtain es where 1: "fq_run False es (fq H0 0 0 (Some 0) None (Fq_compare Try_pop_into 0) Fq_idle)" by auto
  have "fq_run False (es @ [Fq_tau]) (fq H0 0 0 None None Fq_null_deref Fq_idle)"
    using fq_then[OF 1 fq_equal[of _ 0 Try_pop_into 0]] by simp
  then show ?thesis by (intro exI conjI) auto
qed

text \<open>A push and a pop, and a state in which both go on at the same time.\<close>

lemma fq_push_pop:
  "\<exists>es. fq_run False es (fq H1 0 1 (Some 0) None (Fq_pop Try_pop) Fq_idle)
    \<and> fq_run False (es @ [Fq_popped 0 7]) (fq [0 \<mapsto> (Some 7, None), 1 \<mapsto> (None, None)] 1 1 None None (Fq_delete 7 0) Fq_idle)"
proof -
  have "fq_run False [] (fq H0 0 0 None None Fq_idle Fq_idle)" by (rule fq_run_start)
  from fq_pushes[OF this] obtain es where 1: "fq_run False es (fq H1 0 1 None None Fq_idle Fq_notify)" by blast
  have 2: "fq_run False (es @ [Fq_tau]) (fq H1 0 1 None None Fq_idle Fq_idle)"
    by (rule fq_then[OF 1 fq_lost[of _ 1]]) simp_all
  from fq_compares[OF this, of Try_pop]
  obtain es' where 3: "fq_run False es' (fq H1 0 1 (Some 0) None (Fq_compare Try_pop 1) Fq_idle)" by blast
  have 4: "fq_run False (es' @ [Fq_tau]) (fq H1 0 1 (Some 0) None (Fq_pop Try_pop) Fq_idle)"
    using fq_then[OF 3 fq_differ[of _ 0 Try_pop 1]] by simp
  have "fq_run False ((es' @ [Fq_tau]) @ [Fq_popped 0 7]) (fq [0 \<mapsto> (Some 7, None), 1 \<mapsto> (None, None)] 1 1 None None (Fq_delete 7 0) Fq_idle)"
    by (rule fq_then[OF 4 fq_pop_head[of _ 0 Try_pop 7 1]]) (simp_all add: fun_upd_twist)
  then show ?thesis using 4 by blast
qed

theorem fine_queue_is_fifo_witness:
  "\<exists>es (s :: nat FineQueue) ns. fq_run False (es @ [Fq_popped 0 7]) s \<and> queue_run (es @ [Fq_popped 0 7]) []
     \<and> fq_chain (fq_heap s) (fq_head s) ns [] (fq_tail s) \<and> (\<forall>p. fq_pc s p \<noteq> Fq_undefined)"
proof -
  obtain es where r: "fq_run False (es @ [Fq_popped 0 7])
      (fq [0 \<mapsto> (Some 7, None), 1 \<mapsto> (None, None)] 1 1 None None (Fq_delete 7 0) Fq_idle)" (is "fq_run _ _ ?s")
    using fq_push_pop by blast
  obtain xs ns where q: "queue_run (es @ [Fq_popped 0 7]) xs" "fq_chain (fq_heap ?s) (fq_head ?s) ns xs (fq_tail ?s)"
    "\<forall>p. fq_pc ?s p \<noteq> Fq_undefined"
    using fine_queue_is_fifo[OF r] by blast
  from q(2) have "fq_chain [0 \<mapsto> (Some 7, None), 1 \<mapsto> (None, None)] 1 ns xs 1" by simp
  then have "xs = []" by (rule fq_chain_cases) auto
  then show ?thesis using q r by blast
qed

theorem fine_queue_returns_what_it_took_witness: "\<exists>es. last_taken 0 es = Some (7::nat)"
proof -
  obtain es where r: "fq_run False (es @ [Fq_popped 0 7])
      (fq [0 \<mapsto> (Some 7, None), 1 \<mapsto> (None, None)] 1 1 None None (Fq_delete 7 0) Fq_idle)" (is "fq_run _ _ ?s")
    using fq_push_pop by blast
  have "fq_step False ?s (Fq_returned 0 7) (fq_goes 0 Fq_idle (fq_put 0 None ?s))"
    by (rule fq_delete[of _ 0 7 0 7 None]) simp_all
  from fine_queue_returns_what_it_took[OF r this] show ?thesis by blast
qed

theorem fine_queue_has_no_race_witness:
  "\<exists>es s. fq_run False es (s :: nat FineQueue) \<and> fq_pc s 0 = Fq_pop Try_pop \<and> fq_pc s 1 = Fq_data 7 2
    \<and> (\<forall>l w w'. (l, w) \<in> fq_accesses s (fq_pc s 0) \<longrightarrow> (l, w') \<in> fq_accesses s (fq_pc s 1) \<longrightarrow> \<not> w \<and> \<not> w')"
proof -
  obtain es where 1: "fq_run False es (fq H1 0 1 (Some 0) None (Fq_pop Try_pop) Fq_idle)" using fq_push_pop by blast
  have 2: "fq_run False (es @ [Fq_tau]) (fq (H1(2 \<mapsto> (None, None))) 0 1 (Some 0) None (Fq_pop Try_pop) (Fq_push 7 2))"
    by (rule fq_then[OF 1 fq_new[of _ 1 2 _ 7]]) simp_all
  have 3: "fq_run False ((es @ [Fq_tau]) @ [Fq_tau])
      (fq (H1(2 \<mapsto> (None, None))) 0 1 (Some 0) (Some 1) (Fq_pop Try_pop) (Fq_data 7 2))"
    by (rule fq_then[OF 2 fq_lock_tail[of _ 1 7 2]]) simp_all
  show ?thesis
    using fine_queue_has_no_race[OF 3, of 0 1] 3
    by (intro exI[of _ "(es @ [Fq_tau]) @ [Fq_tau]"] exI conjI) auto
qed

end
