(* ===== verification/HazardStack.thy ===== *)
theory HazardStack
  imports Prelude
begin

text \<open>
  \<open>HazardPointer_RCU/hazard_pointer.cpp\<close>: a stack that retires popped nodes and frees them
  once no hazard pointer names them. \<open>scan\<close> reads the hazard pointers of all threads; what it
  sees is an argument here, so that the theorem about it holds for whatever the other threads
  do. The operations of the stack are modelled for one thread that runs alone. The addresses
  that \<open>new\<close> returns are a parameter.
\<close>

section \<open>Hazard pointers\<close>

definition HP_MAX :: nat where "HP_MAX = 2"
definition THREADS :: nat where "THREADS = 4"
definition RETIRE_THRESHOLD :: nat where "RETIRE_THRESHOLD = 10"

lemmas hp_constants = HP_MAX_def THREADS_def RETIRE_THRESHOLD_def

record HazardPointer =
  hp_pointer :: "nat option"
  hp_active :: bool

record HNode =
  hn_next :: "nat option"
  hn_data :: int

type_synonym hheap = "nat \<Rightarrow> HNode option"

section \<open>Freeing retired nodes\<close>

definition delete_node :: "nat \<Rightarrow> hheap \<Rightarrow> hheap res" where
  "delete_node p H = (if H p = None then Inl (Undefined ''delete of a freed node'') else Inr (H(p := None)))"

text \<open>The loop of \<open>scan\<close> over \<open>retired_list\<close>: \<open>kept\<close> is what stays in the list before the iterator.
  The loop that deletes stands inside it, so each round deletes everything in \<open>to_delete\<close>.\<close>

fun scan_loop :: "nat option list \<Rightarrow> nat list \<Rightarrow> nat list \<Rightarrow> nat list \<Rightarrow> hheap \<Rightarrow> (nat list \<times> hheap) res" where
  "scan_loop hps [] kept to_delete H = Inr (kept, H)"
| "scan_loop hps (p # rest) kept to_delete H =
     (let found = Some p \<in> set hps;
          to_delete = (if found then to_delete else to_delete @ [p]);
          kept = (if found then kept @ [p] else kept)
      in bindr (fold_res delete_node to_delete H) (scan_loop hps rest kept to_delete))"

definition scan_retired :: "nat option list \<Rightarrow> nat list \<Rightarrow> hheap \<Rightarrow> (nat list \<times> hheap) res" where
  "scan_retired hps retired H = scan_loop hps retired [] [] H"

section \<open>The stack\<close>

record HazardStack =
  hs_head :: "nat option"
  hs_heap :: hheap
  hs_hps :: "HazardPointer list"
  hs_retired :: "nat list"

definition HazardStack_start :: HazardStack where
  "HazardStack_start = \<lparr>hs_head = None, hs_heap = (\<lambda>_. None),
     hs_hps = replicate (THREADS * HP_MAX) \<lparr>hp_pointer = None, hp_active = False\<rparr>, hs_retired = []\<rparr>"

definition hs_push :: "(hheap \<Rightarrow> nat) \<Rightarrow> int \<Rightarrow> HazardStack \<Rightarrow> HazardStack" where
  "hs_push new v s = (let a = new (hs_heap s) in
     s\<lparr>hs_heap := (hs_heap s)(a := Some \<lparr>hn_next = hs_head s, hn_data = v\<rparr>), hs_head := Some a\<rparr>)"

text \<open>The first free slot of the thread; a thread whose number is not below \<open>THREADS\<close> has none
  inside the array.\<close>

definition acquire_hp :: "nat \<Rightarrow> HazardStack \<Rightarrow> (nat option \<times> HazardStack) res" where
  "acquire_hp tid s =
     (if THREADS \<le> tid then Inl (Undefined ''hp_list out of range'')
      else case find (\<lambda>i. \<not> hp_active (hs_hps s ! i)) (map (\<lambda>i. tid * HP_MAX + i) [0..<HP_MAX]) of
        None \<Rightarrow> Inr (None, s)
      | Some i \<Rightarrow> Inr (Some i, s\<lparr>hs_hps := (hs_hps s)[i := (hs_hps s ! i)\<lparr>hp_active := True\<rparr>]\<rparr>))"

definition release_hp :: "nat \<Rightarrow> HazardStack \<Rightarrow> HazardStack" where
  "release_hp i s = s\<lparr>hs_hps := (hs_hps s)[i := \<lparr>hp_pointer = None, hp_active = False\<rparr>]\<rparr>"

definition retire_node :: "nat \<Rightarrow> HazardStack \<Rightarrow> HazardStack res" where
  "retire_node a s =
     (let r = hs_retired s @ [a]
      in if RETIRE_THRESHOLD \<le> length r
         then bindr (scan_retired (map hp_pointer (hs_hps s)) r (hs_heap s)) (\<lambda>(kept, H).
                Inr (s\<lparr>hs_retired := kept, hs_heap := H\<rparr>))
         else Inr (s\<lparr>hs_retired := r\<rparr>))"

text \<open>Alone, a thread reads the head once and its exchange succeeds.\<close>

definition hs_pop :: "nat \<Rightarrow> HazardStack \<Rightarrow> (int option \<times> HazardStack) res" where
  "hs_pop tid s =
     bindr (acquire_hp tid s) (\<lambda>(hp, s).
       case hp of None \<Rightarrow> Inr (None, s)
       | Some i \<Rightarrow>
           (let s = s\<lparr>hs_hps := (hs_hps s)[i := (hs_hps s ! i)\<lparr>hp_pointer := hs_head s\<rparr>]\<rparr>
            in case hs_head s of None \<Rightarrow> Inr (None, release_hp i s)
            | Some a \<Rightarrow>
                (case hs_heap s a of None \<Rightarrow> Inl (Undefined ''use of a freed node'')
                 | Some n \<Rightarrow>
                     bindr (retire_node a (release_hp i (s\<lparr>hs_head := hn_next n\<rparr>))) (\<lambda>s.
                     Inr (Some (hn_data n), s)))))"

text \<open>\<open>test_stack\<close> with \<open>n\<close> rounds in place of 1000.\<close>

definition test_stack :: "(hheap \<Rightarrow> nat) \<Rightarrow> nat \<Rightarrow> nat \<Rightarrow> HazardStack \<Rightarrow> HazardStack res" where
  "test_stack new tid n s =
     fold_res (\<lambda>i s. bindr (hs_pop tid (hs_push new (int i) s)) (\<lambda>(_, s). Inr s)) [0..<n] s"

section \<open>Deleting twice\<close>

lemma delete_node_simps [simp]:
  "H p = None \<Longrightarrow> delete_node p H = Inl (Undefined ''delete of a freed node'')"
  "H p = Some n \<Longrightarrow> delete_node p H = Inr (H(p := None))"
  by (simp_all add: delete_node_def)

lemma delete_freed: "x \<in> set ps \<Longrightarrow> H x = None \<Longrightarrow> \<exists>e. fold_res delete_node ps H = Inl e"
proof (induction ps arbitrary: H)
  case (Cons p ps)
  show ?case
  proof (cases "H p = None")
    case False
    then obtain n where n: "H p = Some n" by auto
    then have "x \<in> set ps" using Cons.prems by auto
    then have "\<exists>e. fold_res delete_node ps (H(p := None)) = Inl e" by (rule Cons.IH) (use Cons.prems(2) in simp)
    then show ?thesis by (simp add: n)
  qed simp
qed simp

lemma deleted_gone: "fold_res delete_node ps H = Inr G \<Longrightarrow> x \<in> set ps \<or> H x = None \<Longrightarrow> G x = None"
proof (induction ps arbitrary: H)
  case (Cons p ps)
  then show ?case by (auto simp: delete_node_def split: if_splits)
qed simp

lemma scan_loop_again:
  assumes "rest \<noteq> []" "x \<in> set to_delete" "H x = None"
  shows "\<exists>e. scan_loop hps rest kept to_delete H = Inl e"
proof -
  obtain p r where r: "rest = p # r" using assms(1) by (cases rest) auto
  have "x \<in> set (if Some p \<in> set hps then to_delete else to_delete @ [p])" using assms(2) by simp
  from delete_freed[OF this, of H] assms(3) show ?thesis by (auto simp: r Let_def)
qed

lemma scan_loop_fails:
  assumes "p \<in> set (butlast rest)" "Some p \<notin> set hps"
  shows "\<exists>e. scan_loop hps rest kept to_delete H = Inl e"
  using assms(1)
proof (induction rest arbitrary: kept to_delete H)
  case (Cons q rest)
  have ne: "rest \<noteq> []" using Cons.prems by auto
  let ?d = "if Some q \<in> set hps then to_delete else to_delete @ [q]"
  show ?case
  proof (cases "fold_res delete_node ?d H")
    case (Inl e)
    then show ?thesis by (simp add: Let_def)
  next
    case (Inr G)
    let ?k = "if Some q \<in> set hps then kept @ [q] else kept"
    have "\<exists>e. scan_loop hps rest ?k ?d G = Inl e"
    proof (cases "q = p")
      case True
      then have "p \<in> set ?d" using assms(2) by simp
      then show ?thesis using scan_loop_again[OF ne, of p ?d G hps ?k] deleted_gone[OF Inr, of p] by simp
    next
      case False
      then show ?thesis using Cons.IH Cons.prems ne by simp
    qed
    then show ?thesis using Inr by (simp add: Let_def)
  qed
qed simp

section \<open>Properties\<close>

text \<open>\<open>scan\<close> always frees a node twice. It is called with at least ten retired nodes, at most
  eight of which a hazard pointer can name, whatever the other threads do; so one of them is
  deleted in a round that is not the last, and the next round deletes it again.\<close>

theorem scan_frees_a_node_twice:
  assumes "distinct retired" "RETIRE_THRESHOLD \<le> length retired" "length hps = THREADS * HP_MAX"
  shows "\<exists>e. scan_retired hps retired H = Inl e"
proof -
  have "\<not> set (map Some (butlast retired)) \<subseteq> set hps"
  proof
    assume "set (map Some (butlast retired)) \<subseteq> set hps"
    then have "card (set (map Some (butlast retired))) \<le> card (set hps)" by (intro card_mono) auto
    moreover have "card (set (map Some (butlast retired))) = length retired - 1"
      using distinct_card[of "map Some (butlast retired)"] assms(1) by (simp add: distinct_butlast distinct_map)
    ultimately show False using assms(2,3) card_length[of hps] by (simp add: hp_constants)
  qed
  then obtain p where "p \<in> set (butlast retired)" "Some p \<notin> set hps" by auto
  then show ?thesis unfolding scan_retired_def by (rule scan_loop_fails)
qed

theorem scan_frees_a_node_twice_witness:
  "\<exists>e. scan_retired (replicate 8 (Some 3)) [0, 1, 2, 3, 4, 5, 6, 7, 8, 9]
     (\<lambda>_. Some \<lparr>hn_next = None, hn_data = 1\<rparr>) = Inl e"
  by (rule scan_frees_a_node_twice) (simp_all add: hp_constants)

text \<open>The state after \<open>k\<close> rounds of \<open>test_stack\<close>.\<close>

definition after_rounds :: "nat \<Rightarrow> HazardStack \<Rightarrow> bool" where
  "after_rounds k s \<longleftrightarrow> hs_head s = None \<and> length (hs_retired s) = k \<and> distinct (hs_retired s)
     \<and> (\<forall>a \<in> set (hs_retired s). hs_heap s a \<noteq> None)
     \<and> hs_hps s = replicate (THREADS * HP_MAX) \<lparr>hp_pointer = None, hp_active = False\<rparr>"


lemma test_stack_round:
  assumes "after_rounds k s" "k < RETIRE_THRESHOLD" "tid < THREADS" "hs_heap s (new (hs_heap s)) = None"
  shows "case hs_pop tid (hs_push new v s) of Inl e \<Rightarrow> k + 1 = RETIRE_THRESHOLD
    | Inr (x, t) \<Rightarrow> k + 1 < RETIRE_THRESHOLD \<and> x = Some v \<and> after_rounds (k + 1) t
        \<and> hs_heap t = (hs_heap s)(new (hs_heap s) := Some \<lparr>hn_next = None, hn_data = v\<rparr>)"
proof -
  let ?a = "new (hs_heap s)" and ?idle = "\<lparr>hp_pointer = None, hp_active = False\<rparr>"
  let ?H = "(hs_heap s)(?a := Some \<lparr>hn_next = None, hn_data = v\<rparr>)"
  have st: "hs_head s = None" "length (hs_retired s) = k" "distinct (hs_retired s)"
    "\<forall>a \<in> set (hs_retired s). hs_heap s a \<noteq> None" "hs_hps s = replicate 8 ?idle"
    using assms(1) by (simp_all add: after_rounds_def hp_constants)
  have tid: "tid * 2 < 8" using assms(3) by (simp add: hp_constants)
  have up: "[0..<2] = [0, 1 :: nat]" by (simp add: upt_rec)
  have acq: "acquire_hp tid (hs_push new v s) = Inr (Some (tid * 2),
      (hs_push new v s)\<lparr>hs_hps := (replicate 8 ?idle)[tid * 2 := ?idle\<lparr>hp_active := True\<rparr>]\<rparr>)"
    using assms(3) tid by (simp add: acquire_hp_def hp_constants up hs_push_def Let_def st)
  have new: "?a \<notin> set (hs_retired s)" using st(4) assms(4) by auto
  let ?s = "s\<lparr>hs_heap := ?H, hs_head := None, hs_hps := replicate 8 ?idle\<rparr>"
  have same: "(replicate 8 ?idle)[tid * 2 := ?idle] = replicate 8 ?idle" using tid by (simp add: list_update_same_conv)
  have pop: "hs_pop tid (hs_push new v s) = bindr (retire_node ?a ?s) (\<lambda>s. Inr (Some v, s))"
    using tid unfolding hs_pop_def acq by (simp add: hs_push_def Let_def release_hp_def st same)
  show ?thesis
  proof (cases "k + 1 = RETIRE_THRESHOLD")
    case True
    have "\<exists>e. scan_retired (map hp_pointer (hs_hps ?s)) (hs_retired s @ [?a]) ?H = Inl e"
      by (rule scan_frees_a_node_twice) (use st new True in \<open>simp_all add: hp_constants\<close>)
    then obtain e where "retire_node ?a ?s = Inl e"
      using True by (auto simp: retire_node_def Let_def st(2))
    then show ?thesis using True by (simp add: pop)
  next
    case False
    then have "retire_node ?a ?s = Inr (?s\<lparr>hs_retired := hs_retired s @ [?a]\<rparr>)"
      using assms(2) by (simp add: retire_node_def Let_def st(2))
    then show ?thesis using False assms(2) st new by (simp add: pop after_rounds_def hp_constants)
  qed
qed

lemma fold_res_snoc: "fold_res h (xs @ [x]) s = bindr (fold_res h xs s) (h x)"
proof (cases "fold_res h xs s")
  case (Inr t)
  then show ?thesis by (cases "h x t") (simp_all add: fold_res_append)
qed (simp add: fold_res_append)

text \<open>\<open>test_stack\<close> cannot finish. Run by one thread alone it works for nine rounds; the tenth pop
  retires the tenth node, and the scan that follows frees a node twice. The program asks for
  1000 rounds.\<close>

theorem test_stack_fails_in_round_ten:
  assumes "tid < THREADS" "\<forall>H. finite {a. H a \<noteq> None} \<longrightarrow> H (new H) = None"
  shows "(\<exists>s. test_stack new tid n HazardStack_start = Inr s) \<longleftrightarrow> n < RETIRE_THRESHOLD"
proof -
  have rounds: "case test_stack new tid n HazardStack_start of Inl e \<Rightarrow> RETIRE_THRESHOLD \<le> n
    | Inr s \<Rightarrow> n < RETIRE_THRESHOLD \<and> after_rounds n s \<and> finite {a. hs_heap s a \<noteq> None}" for n
  proof (induction n)
    case 0
    then show ?case by (simp add: test_stack_def after_rounds_def HazardStack_start_def hp_constants)
  next
    case (Suc n)
    have step: "test_stack new tid (Suc n) HazardStack_start = bindr (test_stack new tid n HazardStack_start)
        (\<lambda>s. bindr (hs_pop tid (hs_push new (int n) s)) (\<lambda>(_, s). Inr s))"
      by (simp add: test_stack_def fold_res_snoc)
    show ?case
    proof (cases "test_stack new tid n HazardStack_start")
      case (Inl e)
      then show ?thesis using Suc by (simp add: step)
    next
      case (Inr s)
      then have s: "n < RETIRE_THRESHOLD" "after_rounds n s" "finite {a. hs_heap s a \<noteq> None}" using Suc by simp_all
      note r = test_stack_round[OF s(2,1) assms(1), of new "int n"] assms(2)[rule_format, OF s(3)]
      show ?thesis
      proof (cases "hs_pop tid (hs_push new (int n) s)")
        case (Inl e)
        then show ?thesis unfolding step \<open>test_stack new tid n HazardStack_start = Inr s\<close> using r by simp
      next
        case pop: (Inr x)
        obtain y t where x: "x = (y, t)" by fastforce
        then have t: "n + 1 < RETIRE_THRESHOLD" "after_rounds (n + 1) t"
          "hs_heap t = (hs_heap s)(new (hs_heap s) := Some \<lparr>hn_next = None, hn_data = int n\<rparr>)"
          using r pop by simp_all
        have "{a. hs_heap t a \<noteq> None} \<subseteq> insert (new (hs_heap s)) {a. hs_heap s a \<noteq> None}" by (auto simp: t(3))
        then have "finite {a. hs_heap t a \<noteq> None}" by (rule finite_subset) (use s(3) in simp)
        then show ?thesis unfolding step \<open>test_stack new tid n HazardStack_start = Inr s\<close> using t(1,2) pop x by simp
      qed
    qed
  qed
  show ?thesis using rounds[of n] by (auto split: sum.splits)
qed

theorem test_stack_fails_in_round_ten_witness:
  "(\<exists>s. test_stack (\<lambda>H. LEAST a. H a = None) 0 9 HazardStack_start = Inr s)
    \<and> \<not> (\<exists>s. test_stack (\<lambda>H. LEAST a. H a = None) 0 10 HazardStack_start = Inr s)"
proof -
  have new: "\<forall>H :: hheap. finite {a. H a \<noteq> None} \<longrightarrow> H (LEAST a. H a = None) = None"
  proof (intro allI impI)
    fix H :: hheap
    assume "finite {a. H a \<noteq> None}"
    then obtain a where "a \<notin> {a. H a \<noteq> None}" using ex_new_if_finite infinite_UNIV_nat by blast
    then have "H a = None" by simp
    then show "H (LEAST a. H a = None) = None" by (rule LeastI)
  qed
  have tid: "0 < THREADS" by (simp add: hp_constants)
  show ?thesis unfolding test_stack_fails_in_round_ten[OF tid new] RETIRE_THRESHOLD_def by simp
qed

end
