(* ===== verification/LockFreeMpmc.thy ===== *)
theory LockFreeMpmc
  imports Prelude
begin

text \<open>
  \<open>Mutex&LockFree/lockfreequeue_maybetrash.h\<close>: a bounded queue for any number of producers and
  consumers. The cursors \<open>_tail\<close> and \<open>_head\<close> only count up; a cursor value is a ticket, its
  slot is the ticket modulo the capacity, and each slot carries the ticket it waits for
  (\<open>tail\<close>) and the last ticket that was published in it (\<open>head\<close>). Each access to shared memory
  is a step of its own, and the steps of the threads interleave; the memory orders of the accesses,
  which do not make the program behave so, are the subject of \<open>MpmcRaces\<close>.
\<close>

unbundle bit_operations_syntax

section \<open>The queue\<close>

text \<open>\<open>data\<close> is raw memory until an object is constructed there (\<open>None\<close>).\<close>

record 'a MpmcNode =
  nd_data :: "'a option"
  nd_tail :: "64 word"
  nd_head :: "64 word"

record 'a MpmcQueue =
  mq_mask :: "64 word"
  mq_queue :: "64 word \<Rightarrow> 'a MpmcNode"
  mq_capacity :: "64 word"
  mq_tail :: "64 word"
  mq_head :: "64 word"

text \<open>The loop of the constructor shifts by 1, 2, 4, 8, 16 and 32 (\<open>sizeof(void*)*4\<close>).\<close>

definition smear :: "64 word \<Rightarrow> 64 word" where
  "smear m = foldl (\<lambda>m i. m OR drop_bit i m) m [1, 2, 4, 8, 16, 32]"

definition rounded_capacity :: "64 word \<Rightarrow> 64 word" where
  "rounded_capacity n = smear (n - 1) + 1"

definition MpmcQueue_ctor :: "64 word \<Rightarrow> 'a MpmcQueue" where
  "MpmcQueue_ctor n =
     \<lparr>mq_mask = smear (n - 1), mq_queue = (\<lambda>i. \<lparr>nd_data = None, nd_tail = i, nd_head = - 1\<rparr>),
      mq_capacity = rounded_capacity n, mq_tail = 0, mq_head = 0\<rparr>"

definition mq_size :: "('a, 'z) MpmcQueue_scheme \<Rightarrow> 64 word" where
  "mq_size s = mq_tail s - mq_head s"

text \<open>\<open>_queue[t & _capacityMask]\<close>, which has to be inside the array.\<close>

definition mq_slot :: "('a, 'z) MpmcQueue_scheme \<Rightarrow> 64 word \<Rightarrow> 64 word" where
  "mq_slot s t = t AND mq_mask s"

definition mq_node :: "('a, 'z) MpmcQueue_scheme \<Rightarrow> 64 word \<Rightarrow> 'a MpmcNode" where
  "mq_node s t = mq_queue s (mq_slot s t)"

definition mq_inside :: "('a, 'z) MpmcQueue_scheme \<Rightarrow> 64 word \<Rightarrow> bool" where
  "mq_inside s t \<longleftrightarrow> mq_slot s t < mq_capacity s"

definition upd_node :: "64 word \<Rightarrow> ('a MpmcNode \<Rightarrow> 'a MpmcNode) \<Rightarrow> ('a, 'z) MpmcQueue_scheme \<Rightarrow> ('a, 'z) MpmcQueue_scheme" where
  "upd_node t f s = s\<lparr>mq_queue := (mq_queue s)(mq_slot s t := f (mq_node s t))\<rparr>"

text \<open>The destructor runs through the tickets from \<open>_head\<close> to \<open>_tail\<close>.\<close>

definition mq_destroy :: "64 word \<Rightarrow> ('a, 'z) MpmcQueue_scheme \<Rightarrow> ('a, 'z) MpmcQueue_scheme res" where
  "mq_destroy i s =
     (if mq_inside s i \<and> nd_data (mq_node s i) \<noteq> None then Inr (upd_node i (nd_data_update (\<lambda>_. None)) s)
      else Inl (Undefined ''destructor of no object''))"

definition MpmcQueue_dtor :: "('a, 'z) MpmcQueue_scheme \<Rightarrow> ('a, 'z) MpmcQueue_scheme res" where
  "MpmcQueue_dtor s = fold_res mq_destroy (map (\<lambda>k. mq_head s + of_nat k) [0..<unat (mq_tail s - mq_head s)]) s"

text \<open>The variants for one producer and one consumer, which do not look at the tickets of the slots.
  \<open>tryPop\<close> returns the address of the slot.\<close>

definition mq_tryPush :: "'a \<Rightarrow> 'a MpmcQueue \<Rightarrow> (bool \<times> 'a MpmcQueue) res" where
  "mq_tryPush v s =
     (if mq_head s + mq_capacity s = mq_tail s then Inr (False, s)
      else if mq_capacity s = 0 then Inl (Undefined ''division by zero'')
      else let j = mq_tail s mod mq_capacity s
           in Inr (True, s\<lparr>mq_queue := (mq_queue s)(j := (mq_queue s j)\<lparr>nd_data := Some v\<rparr>), mq_tail := mq_tail s + 1\<rparr>))"

definition mq_tryPop :: "'a MpmcQueue \<Rightarrow> (64 word option \<times> 'a MpmcQueue) res" where
  "mq_tryPop s =
     (if mq_tail s = mq_head s then Inr (None, s)
      else if mq_capacity s = 0 then Inl (Undefined ''division by zero'')
      else Inr (Some (mq_head s mod mq_capacity s), s\<lparr>mq_head := mq_head s + 1\<rparr>))"

section \<open>Threads\<close>

text \<open>Where a thread is, with its local variables: the ticket it has loaded, the value it pushes or
  has read.\<close>

datatype 'a mpmc_pc =
    Mq_idle
  | Push_check 'a "64 word" | Push_cas 'a "64 word" | Push_write 'a "64 word" | Push_publish 'a "64 word"
  | Pop_check "64 word" | Pop_cas "64 word" | Pop_read "64 word" | Pop_destroy "64 word" 'a | Pop_release "64 word" 'a
  | Mq_undefined

record 'a MpmcThreads = "'a MpmcQueue" +
  mq_pc :: "nat \<Rightarrow> 'a mpmc_pc"

datatype 'a mpmc_event = Quiet | Claimed 'a | Full | Empty | Taken "64 word" 'a

definition MpmcQueue_start :: "64 word \<Rightarrow> 'a MpmcThreads" where
  "MpmcQueue_start n = MpmcQueue.extend (MpmcQueue_ctor n) \<lparr>mq_pc = (\<lambda>_. Mq_idle)\<rparr>"

definition goes :: "nat \<Rightarrow> 'a mpmc_pc \<Rightarrow> 'a MpmcThreads \<Rightarrow> 'a MpmcThreads" where
  "goes p c s = s\<lparr>mq_pc := (mq_pc s)(p := c)\<rparr>"

text \<open>\<open>compare_exchange_weak\<close> may also fail when the values agree; it then loads the cursor anew.
  \<open>Claimed\<close> is the moment a producer gets its ticket, \<open>Taken\<close> the return of a consumer.\<close>

inductive mpmc_step :: "'a MpmcThreads \<Rightarrow> 'a mpmc_event \<Rightarrow> 'a MpmcThreads \<Rightarrow> bool" where
  push_call: "mq_pc s p = Mq_idle \<Longrightarrow> mpmc_step s Quiet (goes p (Push_check v (mq_tail s)) s)"
| push_ready: "mq_pc s p = Push_check v t \<Longrightarrow> mq_inside s t \<Longrightarrow> nd_tail (mq_node s t) = t \<Longrightarrow>
    mpmc_step s Quiet (goes p (Push_cas v t) s)"
| push_full: "mq_pc s p = Push_check v t \<Longrightarrow> mq_inside s t \<Longrightarrow> nd_tail (mq_node s t) \<noteq> t \<Longrightarrow>
    mpmc_step s Full (goes p Mq_idle s)"
| push_claim: "mq_pc s p = Push_cas v t \<Longrightarrow> mq_tail s = t \<Longrightarrow>
    mpmc_step s (Claimed v) (goes p (Push_write v t) (s\<lparr>mq_tail := t + 1\<rparr>))"
| push_retry: "mq_pc s p = Push_cas v t \<Longrightarrow> mpmc_step s Quiet (goes p (Push_check v (mq_tail s)) s)"
| push_write: "mq_pc s p = Push_write v t \<Longrightarrow> nd_data (mq_node s t) = None \<Longrightarrow>
    mpmc_step s Quiet (goes p (Push_publish v t) (upd_node t (nd_data_update (\<lambda>_. Some v)) s))"
| push_publish: "mq_pc s p = Push_publish v t \<Longrightarrow>
    mpmc_step s Quiet (goes p Mq_idle (upd_node t (nd_head_update (\<lambda>_. t)) s))"
| pop_call: "mq_pc s p = Mq_idle \<Longrightarrow> mpmc_step s Quiet (goes p (Pop_check (mq_head s)) s)"
| pop_ready: "mq_pc s p = Pop_check h \<Longrightarrow> mq_inside s h \<Longrightarrow> nd_head (mq_node s h) = h \<Longrightarrow>
    mpmc_step s Quiet (goes p (Pop_cas h) s)"
| pop_empty: "mq_pc s p = Pop_check h \<Longrightarrow> mq_inside s h \<Longrightarrow> nd_head (mq_node s h) \<noteq> h \<Longrightarrow>
    mpmc_step s Empty (goes p Mq_idle s)"
| pop_claim: "mq_pc s p = Pop_cas h \<Longrightarrow> mq_head s = h \<Longrightarrow>
    mpmc_step s Quiet (goes p (Pop_read h) (s\<lparr>mq_head := h + 1\<rparr>))"
| pop_retry: "mq_pc s p = Pop_cas h \<Longrightarrow> mpmc_step s Quiet (goes p (Pop_check (mq_head s)) s)"
| pop_read: "mq_pc s p = Pop_read h \<Longrightarrow> nd_data (mq_node s h) = Some x \<Longrightarrow>
    mpmc_step s Quiet (goes p (Pop_destroy h x) s)"
| pop_destroy: "mq_pc s p = Pop_destroy h x \<Longrightarrow> nd_data (mq_node s h) \<noteq> None \<Longrightarrow>
    mpmc_step s Quiet (goes p (Pop_release h x) (upd_node h (nd_data_update (\<lambda>_. None)) s))"
| pop_release: "mq_pc s p = Pop_release h x \<Longrightarrow>
    mpmc_step s (Taken h x) (goes p Mq_idle (upd_node h (nd_tail_update (\<lambda>_. h + mq_capacity s)) s))"
| mq_outside: "mq_pc s p = Push_check v t \<or> mq_pc s p = Pop_check t \<Longrightarrow> \<not> mq_inside s t \<Longrightarrow>
    mpmc_step s Quiet (goes p Mq_undefined s)"
| mq_clash: "mq_pc s p = Push_write v t \<and> nd_data (mq_node s t) \<noteq> None
      \<or> mq_pc s p = Pop_read t \<and> nd_data (mq_node s t) = None
      \<or> mq_pc s p = Pop_destroy t x \<and> nd_data (mq_node s t) = None \<Longrightarrow>
    mpmc_step s Quiet (goes p Mq_undefined s)"

inductive mpmc_run :: "64 word \<Rightarrow> 'a mpmc_event list \<Rightarrow> 'a MpmcThreads \<Rightarrow> bool" for n :: "64 word" where
  mq_init: "mpmc_run n [] (MpmcQueue_start n)"
| mq_next: "mpmc_run n es s \<Longrightarrow> mpmc_step s e t \<Longrightarrow> mpmc_run n (es @ [e]) t"

text \<open>The values in the order in which their producers got their tickets, and what consumers
  returned.\<close>

definition claimed_of :: "'a mpmc_event list \<Rightarrow> 'a list" where
  "claimed_of es = concat (map (\<lambda>e. case e of Claimed v \<Rightarrow> [v] | _ \<Rightarrow> []) es)"

definition taken_of :: "'a mpmc_event list \<Rightarrow> (64 word \<times> 'a) list" where
  "taken_of es = concat (map (\<lambda>e. case e of Taken h x \<Rightarrow> [(h, x)] | _ \<Rightarrow> []) es)"

section \<open>The capacity\<close>

text \<open>After the shifts by 1, 2, 4, ..., a bit is set if one of the next bits was.\<close>

lemma smear_bits:
  assumes "\<forall>i. bit y i \<longleftrightarrow> (\<exists>j<m. bit x (i + j))"
  shows "\<forall>i. bit (y OR drop_bit m y) i \<longleftrightarrow> (\<exists>j<2 * m. bit (x :: 64 word) (i + j))"
proof (intro allI iffI)
  fix i
  assume "bit (y OR drop_bit m y) i"
  then obtain j where "j < m" "bit x (i + j) \<or> bit x (m + i + j)"
    using assms by (auto simp: bit_or_iff bit_drop_bit_eq)
  then have "j < 2 * m \<and> bit x (i + j) \<or> m + j < 2 * m \<and> bit x (i + (m + j))" by (auto simp: ac_simps)
  then show "\<exists>j<2 * m. bit x (i + j)" by blast
next
  fix i
  assume "\<exists>j<2 * m. bit x (i + j)"
  then obtain j where j: "j < 2 * m" "bit x (i + j)" by blast
  show "bit (y OR drop_bit m y) i"
  proof (cases "j < m")
    case True
    then show ?thesis using j assms by (auto simp: bit_or_iff)
  next
    case False
    then have "bit y (m + i)" using j assms by (intro assms[rule_format, THEN iffD2] exI[of _ "j - m"]) (auto simp: ac_simps)
    then show ?thesis by (simp add: bit_or_iff bit_drop_bit_eq)
  qed
qed

lemma bit_smear: "bit (smear x) i \<longleftrightarrow> (\<exists>j<64. bit x (i + j))"
proof -
  have 0: "\<forall>i. bit x i \<longleftrightarrow> (\<exists>j<1. bit x (i + j))" by simp
  note 1 = smear_bits[OF 0] note 2 = smear_bits[OF 1] note 3 = smear_bits[OF 2]
  note 4 = smear_bits[OF 3] note 5 = smear_bits[OF 4] note 6 = smear_bits[OF 5]
  show ?thesis using 6 by (simp add: smear_def)
qed

lemma smear_0: "smear 0 = 0"
  by (simp add: smear_def)

lemma unat_2_power: "k < 64 \<Longrightarrow> unat (2 ^ k :: 64 word) = 2 ^ k"
proof -
  assume "k < 64"
  then have "(2 ^ k :: nat) < 2 ^ LENGTH(64)" using power_strict_increasing[of k 64 "2 :: nat"] by simp
  then have "unat (word_of_nat (2 ^ k) :: 64 word) = 2 ^ k" unfolding unat_of_nat by (rule mod_less)
  then show ?thesis by simp
qed

lemma smear_mask:
  assumes "x \<noteq> (0 :: 64 word)" "unat x < 2 ^ 63"
  obtains k where "k < 63" "smear x = 2 ^ (k + 1) - 1" "2 ^ k \<le> unat x" "unat x < 2 ^ (k + 1)"
proof -
  define k where "k = Max {i. bit x i}"
  have fin: "finite {i. bit x i}" by (rule finite_subset[of _ "{..<64}"]) (auto dest: bit_imp_le_length)
  have "{i. bit x i} \<noteq> {}" using assms(1) by (auto simp: bit_eq_iff)
  then have top: "bit x k" and max: "\<forall>i. bit x i \<longrightarrow> i \<le> k" using Max_in[OF fin] Max_ge[OF fin] by (auto simp: k_def)
  have k64: "k < 64" using top bit_imp_le_length by fastforce
  have "bit (smear x) i \<longleftrightarrow> bit (mask (k + 1) :: 64 word) i" for i
  proof -
    have "(\<exists>j<64. bit x (i + j)) \<longleftrightarrow> i \<le> k"
      using top max k64 by (metis add_leE le_add_diff_inverse less_imp_diff_less)
    then show ?thesis using k64 by (auto simp: bit_smear bit_mask_iff)
  qed
  then have sm: "smear x = mask (k + 1)" by (simp add: bit_eq_iff)
  have "take_bit (k + 1) x = x"
    using max by (auto simp: bit_eq_iff bit_take_bit_iff less_Suc_eq_le)
  then have lt: "unat x < 2 ^ (k + 1)"
    by (metis of_nat_take_bit take_bit_nat_less_exp unsigned_take_bit_eq)
  have ge: "2 ^ k \<le> unat x"
  proof -
    have "odd (unat x div 2 ^ k)" using top by (simp add: bit_iff_odd bit_unsigned_iff flip: bit_iff_odd)
    then show ?thesis by (metis div_less even_zero not_less)
  qed
  have "k < 63" using ge assms(2) using nat_power_less_imp_less[of 2 k 63] by linarith
  then show ?thesis using that[of k] sm ge lt by (simp add: mask_eq_exp_minus_1)
qed


lemma ctor_capacity:
  assumes "0 < n" "unat n \<le> 2 ^ 63"
  obtains k where "k < 64" "rounded_capacity n = 2 ^ k" "smear (n - 1) = 2 ^ k - 1"
    "unat n \<le> 2 ^ k" "2 ^ k < 2 * unat n"
proof (cases "n = 1")
  case True
  then show ?thesis using that[of 0] by (simp add: rounded_capacity_def smear_0)
next
  case False
  have n0: "0 < unat n" using assms(1) by (simp add: word_gt_0 unat_eq_0 gr0_conv_Suc flip: unat_gt_0)
  have u: "unat (n - 1) = unat n - 1" using assms(1) by (metis unat_minus_one word_gt_0)
  have "n - 1 \<noteq> 0" "unat (n - 1) < 2 ^ 63" using False assms(2) u n0 by auto
  from smear_mask[OF this] obtain k where k: "k < 63" "smear (n - 1) = 2 ^ (k + 1) - 1" "2 ^ k \<le> unat (n - 1)"
    "unat (n - 1) < 2 ^ (k + 1)" .
  show ?thesis
    by (rule that[of "k + 1"]) (use k u n0 in \<open>auto simp: rounded_capacity_def\<close>)
qed

section \<open>Slots\<close>

definition pow2 :: "('a, 'z) MpmcQueue_scheme \<Rightarrow> bool" where
  "pow2 s \<longleftrightarrow> (\<exists>k<64. mq_capacity s = 2 ^ k \<and> mq_mask s = 2 ^ k - 1)"

lemma pow2_slot:
  assumes "pow2 s"
  shows "unat (mq_slot s t) = unat t mod unat (mq_capacity s)" "0 < unat (mq_capacity s)" "mq_inside s t"
proof -
  obtain k where k: "k < 64" "mq_capacity s = 2 ^ k" "mq_mask s = 2 ^ k - 1" using assms by (auto simp: pow2_def)
  have "mq_slot s t = take_bit k t"
    by (simp add: mq_slot_def k(3) take_bit_eq_mask mask_eq_exp_minus_1)
  then show sl: "unat (mq_slot s t) = unat t mod unat (mq_capacity s)"
    using k(1) 
    by (simp add: k(2) unat_2_power take_bit_eq_mod unat_mod_distrib)
  show pos: "0 < unat (mq_capacity s)" using k(1) by (simp add: k(2) unat_2_power)
  show "mq_inside s t" using sl pos by (simp add: mq_inside_def word_less_nat_alt)
qed

lemma same_slot: "pow2 s \<Longrightarrow> mq_slot s t = mq_slot s u \<longleftrightarrow> unat t mod unat (mq_capacity s) = unat u mod unat (mq_capacity s)"
  by (metis pow2_slot(1) word_unat_eq_iff)

section \<open>The invariant\<close>

text \<open>The ticket a producer, a consumer holds.\<close>

fun push_ticket :: "'a mpmc_pc \<Rightarrow> 64 word option" where
  "push_ticket (Push_write v t) = Some t" | "push_ticket (Push_publish v t) = Some t" | "push_ticket _ = None"

fun pop_ticket :: "'a mpmc_pc \<Rightarrow> 64 word option" where
  "pop_ticket (Pop_read h) = Some h" | "pop_ticket (Pop_destroy h x) = Some h" | "pop_ticket (Pop_release h x) = Some h"
| "pop_ticket _ = None"

text \<open>A slot \<open>j\<close> serves the ticket in its \<open>tail\<close>: it is free while no producer has this ticket, then
  the producer with the ticket fills and publishes it, then it is full until the consumer with
  the ticket takes the value and hands the slot to the next ticket. \<open>vs\<close> are the values pushed.\<close>

definition node_ok :: "'a list \<Rightarrow> 'a MpmcThreads \<Rightarrow> 64 word \<Rightarrow> 'a MpmcNode \<Rightarrow> bool" where
  "node_ok vs s j N \<longleftrightarrow> (let i = nd_tail N in
     mq_slot s i = j \<and> unat i < unat (mq_head s) + unat (mq_capacity s) \<and> unat (mq_tail s) \<le> unat i + unat (mq_capacity s)
     \<and> (nd_head N \<noteq> i \<longrightarrow> nd_head N < mq_head s \<or> nd_head N = - 1)
     \<and> (mq_tail s \<le> i \<longrightarrow> nd_head N \<noteq> i \<and> nd_data N = None)
     \<and> (nd_head N = i \<and> mq_head s \<le> i \<longrightarrow> nd_data N = Some (vs ! unat i))
     \<and> (i < mq_head s \<longrightarrow> nd_head N = i \<and> (\<exists>p. pop_ticket (mq_pc s p) = Some i))
     \<and> (nd_head N \<noteq> i \<and> i < mq_tail s \<longrightarrow> (\<exists>p. push_ticket (mq_pc s p) = Some i)))"

definition slot_ok :: "'a list \<Rightarrow> 'a MpmcThreads \<Rightarrow> 64 word \<Rightarrow> bool" where
  "slot_ok vs s j \<longleftrightarrow> node_ok vs s j (mq_queue s j)"

fun pc_ok :: "'a list \<Rightarrow> 'a MpmcThreads \<Rightarrow> 'a mpmc_pc \<Rightarrow> bool" where
  "pc_ok vs s Mq_idle = True"
| "pc_ok vs s (Push_check v t) = (t \<le> mq_tail s)"
| "pc_ok vs s (Push_cas v t) = (t \<le> mq_tail s \<and> (t = mq_tail s \<longrightarrow> nd_tail (mq_node s t) = t))"
| "pc_ok vs s (Push_write v t) = (t < mq_tail s \<and> nd_tail (mq_node s t) = t \<and> nd_head (mq_node s t) \<noteq> t
     \<and> vs ! unat t = v \<and> nd_data (mq_node s t) = None)"
| "pc_ok vs s (Push_publish v t) = (t < mq_tail s \<and> nd_tail (mq_node s t) = t \<and> nd_head (mq_node s t) \<noteq> t
     \<and> vs ! unat t = v \<and> nd_data (mq_node s t) = Some v)"
| "pc_ok vs s (Pop_check h) = (h \<le> mq_head s)"
| "pc_ok vs s (Pop_cas h) = (h \<le> mq_head s \<and> (h = mq_head s \<longrightarrow> nd_head (mq_node s h) = h))"
| "pc_ok vs s (Pop_read h) = (h < mq_head s \<and> nd_tail (mq_node s h) = h \<and> nd_data (mq_node s h) = Some (vs ! unat h))"
| "pc_ok vs s (Pop_destroy h x) = (h < mq_head s \<and> nd_tail (mq_node s h) = h \<and> x = vs ! unat h
     \<and> nd_data (mq_node s h) = Some x)"
| "pc_ok vs s (Pop_release h x) = (h < mq_head s \<and> nd_tail (mq_node s h) = h \<and> x = vs ! unat h
     \<and> nd_data (mq_node s h) = None)"
| "pc_ok vs s Mq_undefined = False"

definition tickets_ok :: "'a MpmcThreads \<Rightarrow> bool" where
  "tickets_ok s \<longleftrightarrow>
     (\<forall>p q t. push_ticket (mq_pc s p) = Some t \<and> push_ticket (mq_pc s q) = Some t \<longrightarrow> p = q)
     \<and> (\<forall>p q h. pop_ticket (mq_pc s p) = Some h \<and> pop_ticket (mq_pc s q) = Some h \<longrightarrow> p = q)"

text \<open>What has been returned: the values of tickets below \<open>_head\<close>, each once, and all of them but
  those that a consumer still works on.\<close>

definition taken_ok :: "'a list \<Rightarrow> (64 word \<times> 'a) list \<Rightarrow> 'a MpmcThreads \<Rightarrow> bool" where
  "taken_ok vs tk s \<longleftrightarrow> distinct (map fst tk)
     \<and> (\<forall>(h, x) \<in> set tk. h < mq_head s \<and> x = vs ! unat h \<and> h < nd_tail (mq_node s h))
     \<and> (\<forall>h < mq_head s. h \<in> fst ` set tk \<or> (\<exists>p. pop_ticket (mq_pc s p) = Some h))"

definition mpmc_bound :: "'a list \<Rightarrow> 'a MpmcThreads \<Rightarrow> bool" where
  "mpmc_bound vs s \<longleftrightarrow> pow2 s \<and> length vs = unat (mq_tail s) \<and> mq_head s \<le> mq_tail s
     \<and> unat (mq_tail s) + unat (mq_capacity s) < 2 ^ 64"

definition mpmc_inv :: "'a list \<Rightarrow> (64 word \<times> 'a) list \<Rightarrow> 'a MpmcThreads \<Rightarrow> bool" where
  "mpmc_inv vs tk s \<longleftrightarrow> mpmc_bound vs s \<and> (\<forall>j < mq_capacity s. slot_ok vs s j)
     \<and> (\<forall>p. pc_ok vs s (mq_pc s p)) \<and> tickets_ok s \<and> taken_ok vs tk s"


section \<open>Steps keep the invariant\<close>

lemma goes_simps [simp]:
  "mq_tail (goes p c s) = mq_tail s" "mq_head (goes p c s) = mq_head s" "mq_mask (goes p c s) = mq_mask s"
  "mq_capacity (goes p c s) = mq_capacity s" "mq_queue (goes p c s) = mq_queue s"
  "mq_slot (goes p c s) = mq_slot s" "mq_node (goes p c s) = mq_node s"
  "mq_pc (goes p c s) q = (if q = p then c else mq_pc s q)"
  by (simp_all add: goes_def mq_slot_def mq_node_def fun_eq_iff)

lemma pow2_goes [simp]: "pow2 (goes p c s) = pow2 s"
  by (simp add: pow2_def)

lemma upd_node_simps [simp]:
  "mq_tail (upd_node t f s) = mq_tail s" "mq_head (upd_node t f s) = mq_head s" "mq_mask (upd_node t f s) = mq_mask s"
  "mq_capacity (upd_node t f s) = mq_capacity s" "mq_slot (upd_node t f s) = mq_slot s"
  "mq_queue (upd_node t f s) j = (if j = mq_slot s t then f (mq_node s t) else mq_queue s j)"
  "mq_node (upd_node t f s) u = (if mq_slot s u = mq_slot s t then f (mq_node s u) else mq_node s u)"
  by (simp_all add: upd_node_def mq_slot_def mq_node_def fun_eq_iff)

lemma mq_pc_upd_node [simp]: "mq_pc (upd_node t f s) = mq_pc s"
  by (simp add: upd_node_def)

lemma pow2_upd_node [simp]: "pow2 (upd_node t f s) = pow2 s"
  by (simp add: pow2_def)

lemma cursor_simps [simp]:
  "mq_slot (s\<lparr>mq_tail := t\<rparr>) = mq_slot s" "mq_node (s\<lparr>mq_tail := t\<rparr>) = mq_node s" "pow2 (s\<lparr>mq_tail := t\<rparr>) = pow2 s"
  "mq_slot (s\<lparr>mq_head := t\<rparr>) = mq_slot s" "mq_node (s\<lparr>mq_head := t\<rparr>) = mq_node s" "pow2 (s\<lparr>mq_head := t\<rparr>) = pow2 s"
  by (simp_all add: mq_slot_def mq_node_def pow2_def fun_eq_iff)

lemma pc_ok_goes [simp]: "pc_ok vs (goes p c s) x = pc_ok vs s x"
  by (cases x) simp_all

definition ticket_of :: "'a mpmc_pc \<Rightarrow> 64 word option" where
  "ticket_of c = (case push_ticket c of None \<Rightarrow> pop_ticket c | Some t \<Rightarrow> Some t)"

lemma ticket_of_simps [simp]:
  "ticket_of (Push_write v t) = Some t" "ticket_of (Push_publish v t) = Some t" "ticket_of (Pop_read t) = Some t"
  "ticket_of (Pop_destroy t x) = Some t" "ticket_of (Pop_release t x) = Some t"
  by (simp_all add: ticket_of_def)

lemma mpmc_invD:
  assumes "mpmc_inv vs tk s"
  shows "mpmc_bound vs s" "\<And>j. j < mq_capacity s \<Longrightarrow> slot_ok vs s j" "\<And>p. pc_ok vs s (mq_pc s p)" "tickets_ok s"
    "taken_ok vs tk s" "pow2 s" "length vs = unat (mq_tail s)" "mq_head s \<le> mq_tail s"
    "unat (mq_tail s) + unat (mq_capacity s) < 2 ^ 64"
  using assms by (simp_all add: mpmc_inv_def mpmc_bound_def)

lemma slot_ok_node: "mpmc_inv vs tk s \<Longrightarrow> slot_ok vs s (mq_slot s t)"
  using mpmc_invD(2) pow2_slot(3)[OF mpmc_invD(6)] by (fastforce simp: mq_inside_def)

lemma inv_local:
  assumes "mpmc_inv vs tk s" "push_ticket c = push_ticket (mq_pc s p)" "pop_ticket c = pop_ticket (mq_pc s p)"
    "pc_ok vs s c"
  shows "mpmc_inv vs tk (goes p c s)"
proof -
  have t: "push_ticket (mq_pc (goes p c s) q) = push_ticket (mq_pc s q)"
    "pop_ticket (mq_pc (goes p c s) q) = pop_ticket (mq_pc s q)" for q
    using assms(2,3) by simp_all
  have "slot_ok vs (goes p c s) j = slot_ok vs s j" for j unfolding slot_ok_def node_ok_def t by simp
  moreover have "tickets_ok (goes p c s) = tickets_ok s" unfolding tickets_ok_def t by (rule refl)
  moreover have "taken_ok vs tk (goes p c s) = taken_ok vs tk s" unfolding taken_ok_def t by simp
  ultimately show ?thesis using assms(1,4) by (simp add: mpmc_inv_def mpmc_bound_def)
qed

lemma ticket_tail:
  "pc_ok vs s c \<Longrightarrow> ticket_of c = Some t \<Longrightarrow> nd_tail (mq_node s t) = t"
  by (cases c) (simp_all add: ticket_of_def)

lemma tickets_apart:
  assumes inv: "mpmc_inv vs tk s" and "p \<noteq> q" "ticket_of (mq_pc s p) = Some t" "ticket_of (mq_pc s q) = Some u"
  shows "mq_slot s t \<noteq> mq_slot s u"
proof
  assume "mq_slot s t = mq_slot s u"
  then have "nd_tail (mq_node s t) = nd_tail (mq_node s u)" by (simp add: mq_node_def)
  then have tu: "t = u"
    unfolding ticket_tail[OF mpmc_invD(3)[OF inv] assms(3)] ticket_tail[OF mpmc_invD(3)[OF inv] assms(4)] .
  have push: "nd_head (mq_node s t) \<noteq> t" if "push_ticket (mq_pc s r) = Some t" for r
    using mpmc_invD(3)[OF inv, of r] that by (cases "mq_pc s r") auto
  have pop: "nd_head (mq_node s t) = t" if "pop_ticket (mq_pc s r) = Some t" for r
  proof -
    have "t < mq_head s \<and> nd_tail (mq_node s t) = t" using mpmc_invD(3)[OF inv, of r] that by (cases "mq_pc s r") auto
    then show ?thesis using slot_ok_node[OF inv, of t] by (simp add: slot_ok_def node_ok_def Let_def mq_node_def)
  qed
  show False
  proof (cases "push_ticket (mq_pc s p)"; cases "push_ticket (mq_pc s q)")
    fix x y
    assume "push_ticket (mq_pc s p) = Some x" "push_ticket (mq_pc s q) = Some y"
    then have "p = q" using assms(3,4) tu mpmc_invD(4)[OF inv] by (simp add: ticket_of_def tickets_ok_def)
    then show False using assms(2) by simp
  next
    assume "push_ticket (mq_pc s p) = None" "push_ticket (mq_pc s q) = None"
    then have "p = q" using assms(3,4) tu mpmc_invD(4)[OF inv] by (simp add: ticket_of_def tickets_ok_def)
    then show False using assms(2) by simp
  qed (use assms(3,4) tu push[of p] push[of q] pop[of p] pop[of q] in \<open>simp_all add: ticket_of_def\<close>)
qed

lemma pc_ok_upd:
  assumes "pc_ok vs s c" "\<forall>u. ticket_of c = Some u \<longrightarrow> mq_slot s u \<noteq> mq_slot s t"
    "nd_tail (mq_node s (mq_tail s)) = mq_tail s \<longrightarrow>
       nd_tail (f (mq_node s t)) = nd_tail (mq_node s t) \<or> mq_slot s (mq_tail s) \<noteq> mq_slot s t"
    "nd_head (mq_node s (mq_head s)) = mq_head s \<longrightarrow>
       nd_head (f (mq_node s t)) = nd_head (mq_node s t) \<or> mq_slot s (mq_head s) \<noteq> mq_slot s t"
  shows "pc_ok vs (upd_node t f s) c"
proof -
  have "f (mq_node s u) = f (mq_node s t)" "mq_node s u = mq_node s t" if "mq_slot s u = mq_slot s t" for u
    using that by (simp_all add: mq_node_def)
  note same = this
  show ?thesis
  proof (cases c)
    case (Push_cas v u)
    then show ?thesis using assms(1,3) same[of u] by (cases "mq_slot s u = mq_slot s t") auto
  next
    case (Pop_cas u)
    then show ?thesis using assms(1,4) same[of u] by (cases "mq_slot s u = mq_slot s t") auto
  qed (use assms(1,2) in simp_all)
qed


text \<open>A step of the thread that holds the ticket of a slot changes this slot only: the object, then
  what is published, then the ticket it waits for.\<close>

lemma head_slot_published:
  assumes inv: "mpmc_inv vs tk s" and "nd_head (mq_node s (mq_head s)) = mq_head s"
  shows "nd_tail (mq_node s (mq_head s)) = mq_head s" "mq_head s < mq_tail s"
proof -
  have "mq_head s \<noteq> - 1" using mpmc_invD(8,9)[OF inv] pow2_slot(2)[OF mpmc_invD(6)[OF inv]]
    by (auto simp: word_le_nat_alt unsigned_minus_1_eq_mask mask_eq_exp_minus_1)
  then show t: "nd_tail (mq_node s (mq_head s)) = mq_head s"
    using slot_ok_node[OF inv, of "mq_head s"] assms(2) by (auto simp: slot_ok_def node_ok_def Let_def mq_node_def)
  show "mq_head s < mq_tail s"
    using slot_ok_node[OF inv, of "mq_head s"] assms(2) t by (auto simp: slot_ok_def node_ok_def Let_def mq_node_def not_less[symmetric])
qed

lemma inv_data:
  assumes inv: "mpmc_inv vs tk s" and "ticket_of (mq_pc s p) = Some t"
    and c: "push_ticket c = push_ticket (mq_pc s p)" "pop_ticket c = pop_ticket (mq_pc s p)"
    and N: "nd_tail (mq_node s t) = t" "t < mq_tail s" "\<not> (nd_head (mq_node s t) = t \<and> mq_head s \<le> t)"
    and ok: "pc_ok vs (upd_node t (nd_data_update (\<lambda>_. d)) s) c"
  shows "mpmc_inv vs tk (goes p c (upd_node t (nd_data_update (\<lambda>_. d)) s))"
proof -
  let ?s = "upd_node t (nd_data_update (\<lambda>_. d)) s"
  have tk: "push_ticket (mq_pc (goes p c ?s) q) = push_ticket (mq_pc s q)"
    "pop_ticket (mq_pc (goes p c ?s) q) = pop_ticket (mq_pc s q)" for q
    using c by simp_all
  have nodes: "node_ok vs (goes p c ?s) j N = node_ok vs s j N" for j N
    unfolding node_ok_def tk by simp
  have own: "node_ok vs s j (nd_data_update (\<lambda>_. d) N)" if "node_ok vs s j N" "nd_tail N = t" "t < mq_tail s"
    "\<not> (nd_head N = t \<and> mq_head s \<le> t)" for j N
    using that unfolding node_ok_def Let_def by auto
  have "slot_ok vs (goes p c ?s) j" if "j < mq_capacity s" for j
    unfolding slot_ok_def nodes using mpmc_invD(2)[OF inv that] own N by (auto simp: slot_ok_def mq_node_def)
  moreover have "pc_ok vs (goes p c ?s) (mq_pc (goes p c ?s) q)" for q
  proof (cases "q = p")
    case False
    then have "pc_ok vs ?s (mq_pc s q)"
      by (intro pc_ok_upd mpmc_invD(3)[OF inv]) (use tickets_apart[OF inv False _ assms(2)] in auto)
    then show ?thesis using False by simp
  qed (use ok in simp)
  moreover have "tickets_ok (goes p c ?s)" using mpmc_invD(4)[OF inv] unfolding tickets_ok_def tk .
  moreover have "taken_ok vs tk (goes p c ?s)"
    using mpmc_invD(5)[OF inv] unfolding taken_ok_def tk by auto
  ultimately show ?thesis using mpmc_invD(1)[OF inv] by (simp add: mpmc_inv_def mpmc_bound_def)
qed


lemma node_okD:
  assumes "node_ok vs s j N"
  shows "mq_slot s (nd_tail N) = j" "unat (nd_tail N) < unat (mq_head s) + unat (mq_capacity s)"
    "unat (mq_tail s) \<le> unat (nd_tail N) + unat (mq_capacity s)"
    "nd_head N \<noteq> nd_tail N \<Longrightarrow> nd_head N < mq_head s \<or> nd_head N = - 1"
    "mq_tail s \<le> nd_tail N \<Longrightarrow> nd_head N \<noteq> nd_tail N \<and> nd_data N = None"
    "nd_head N = nd_tail N \<Longrightarrow> mq_head s \<le> nd_tail N \<Longrightarrow> nd_data N = Some (vs ! unat (nd_tail N))"
    "nd_tail N < mq_head s \<Longrightarrow> nd_head N = nd_tail N \<and> (\<exists>p. pop_ticket (mq_pc s p) = Some (nd_tail N))"
    "nd_head N \<noteq> nd_tail N \<Longrightarrow> nd_tail N < mq_tail s \<Longrightarrow> \<exists>p. push_ticket (mq_pc s p) = Some (nd_tail N)"
  using assms unfolding node_ok_def Let_def by argo+

lemma node_okI:
  assumes "mq_slot s (nd_tail N) = j" "unat (nd_tail N) < unat (mq_head s) + unat (mq_capacity s)"
    "unat (mq_tail s) \<le> unat (nd_tail N) + unat (mq_capacity s)"
    "nd_head N \<noteq> nd_tail N \<Longrightarrow> nd_head N < mq_head s \<or> nd_head N = - 1"
    "mq_tail s \<le> nd_tail N \<Longrightarrow> nd_head N \<noteq> nd_tail N \<and> nd_data N = None"
    "nd_head N = nd_tail N \<Longrightarrow> mq_head s \<le> nd_tail N \<Longrightarrow> nd_data N = Some (vs ! unat (nd_tail N))"
    "nd_tail N < mq_head s \<Longrightarrow> nd_head N = nd_tail N \<and> (\<exists>p. pop_ticket (mq_pc s p) = Some (nd_tail N))"
    "nd_head N \<noteq> nd_tail N \<Longrightarrow> nd_tail N < mq_tail s \<Longrightarrow> \<exists>p. push_ticket (mq_pc s p) = Some (nd_tail N)"
  shows "node_ok vs s j N"
  using assms unfolding node_ok_def Let_def by argo

lemma node_ok_mono:
  assumes "node_ok vs s j N" "mq_slot s' = mq_slot s" "mq_capacity s' = mq_capacity s"
    "mq_head s' = mq_head s" "mq_tail s' = mq_tail s"
    "\<forall>i q. mq_slot s i = j \<and> push_ticket (mq_pc s q) = Some i \<longrightarrow> push_ticket (mq_pc s' q) = Some i"
    "\<forall>i q. mq_slot s i = j \<and> pop_ticket (mq_pc s q) = Some i \<longrightarrow> pop_ticket (mq_pc s' q) = Some i"
  shows "node_ok vs s' j N"
proof -
  have "mq_slot s (nd_tail N) = j" using assms(1) by (simp add: node_ok_def Let_def)
  then have "(\<exists>p. push_ticket (mq_pc s p) = Some (nd_tail N)) \<Longrightarrow> (\<exists>p. push_ticket (mq_pc s' p) = Some (nd_tail N))"
    "(\<exists>p. pop_ticket (mq_pc s p) = Some (nd_tail N)) \<Longrightarrow> (\<exists>p. pop_ticket (mq_pc s' p) = Some (nd_tail N))"
    using assms(6,7) by blast+
  then show ?thesis using assms(1-5) unfolding node_ok_def Let_def by auto
qed

lemma taken_ok_mono:
  assumes "taken_ok vs tk s" "mq_head s' = mq_head s" "\<forall>t. nd_tail (mq_node s' t) = nd_tail (mq_node s t)"
    "\<forall>q. pop_ticket (mq_pc s' q) = pop_ticket (mq_pc s q)"
  shows "taken_ok vs tk s'"
  using assms unfolding taken_ok_def by simp

lemma inv_publish:
  assumes inv: "mpmc_inv vs tk s" and pc: "mq_pc s p = Push_publish v t"
  shows "mpmc_inv vs tk (goes p Mq_idle (upd_node t (nd_head_update (\<lambda>_. t)) s))"
proof -
  let ?s = "upd_node t (nd_head_update (\<lambda>_. t)) s" and ?g = "goes p Mq_idle (upd_node t (nd_head_update (\<lambda>_. t)) s)"
  have own: "t < mq_tail s" "nd_tail (mq_node s t) = t" "nd_head (mq_node s t) \<noteq> t" "vs ! unat t = v"
    "nd_data (mq_node s t) = Some v"
    using mpmc_invD(3)[OF inv, of p] pc by simp_all
  have H: "mq_head s \<le> t"
    using slot_ok_node[OF inv, of t] own(2,3) by (auto simp: slot_ok_def node_ok_def Let_def mq_node_def not_less[symmetric])
  have mine: "node_ok vs ?g j (nd_head_update (\<lambda>_. t) N)"
    if "node_ok vs s j N" "nd_tail N = t" "nd_data N = Some v" for j N
    using that own(1,4) H unfolding node_ok_def Let_def by auto
  have keep: "push_ticket (mq_pc s q) = Some i \<longrightarrow> push_ticket (mq_pc ?g q) = Some i"
    "pop_ticket (mq_pc s q) = Some i \<longrightarrow> pop_ticket (mq_pc ?g q) = Some i" if "mq_slot s i \<noteq> mq_slot s t" for i q
    using that pc by auto
  have "slot_ok vs ?g j" if j: "j < mq_capacity s" for j
  proof (cases "j = mq_slot s t")
    case True
    then show ?thesis using mine[OF _ own(2,5)] slot_ok_node[OF inv, of t] by (simp add: slot_ok_def mq_node_def)
  next
    case False
    have "node_ok vs ?g j (mq_queue s j)"
      by (rule node_ok_mono[of _ s]) (use mpmc_invD(2)[OF inv j] False keep in \<open>auto simp: slot_ok_def\<close>)
    then show ?thesis using False by (simp add: slot_ok_def)
  qed
  moreover have "pc_ok vs ?g (mq_pc ?g q)" for q
  proof (cases "q = p")
    case False
    have "mq_slot s (mq_head s) \<noteq> mq_slot s t" if "nd_head (mq_node s (mq_head s)) = mq_head s"
    proof
      assume "mq_slot s (mq_head s) = mq_slot s t"
      then have "mq_node s (mq_head s) = mq_node s t" by (simp add: mq_node_def)
      then show False using that head_slot_published(1)[OF inv that] own(2,3) by metis
    qed
    then have "pc_ok vs ?s (mq_pc s q)"
      by (intro pc_ok_upd mpmc_invD(3)[OF inv]) (use tickets_apart[OF inv False, of _ t] pc in auto)
    then show ?thesis using False by simp
  qed simp
  moreover have "tickets_ok ?g" using mpmc_invD(4)[OF inv] unfolding tickets_ok_def by simp
  moreover have "taken_ok vs tk ?g"
    by (rule taken_ok_mono[OF mpmc_invD(5)[OF inv]]) (use pc in auto)
  ultimately show ?thesis using mpmc_invD(1)[OF inv] by (simp add: mpmc_inv_def mpmc_bound_def)
qed


lemma unat_tail_Suc: "mpmc_inv vs tk s \<Longrightarrow> unat (mq_tail s + 1) = unat (mq_tail s) + 1"
  using mpmc_invD(9)[of vs tk s] pow2_slot(2)[OF mpmc_invD(6)[of vs tk s]] by (subst unat_add_lem[THEN iffD1]) auto

lemma unat_head_Suc: "mpmc_inv vs tk s \<Longrightarrow> unat (mq_head s + 1) = unat (mq_head s) + 1"
  using mpmc_invD(8,9)[of vs tk s] pow2_slot(2)[OF mpmc_invD(6)[of vs tk s]]
  by (subst unat_add_lem[THEN iffD1]) (auto simp: word_le_nat_alt)

text \<open>A producer gets the next ticket.\<close>

lemma inv_push_claim:
  assumes inv: "mpmc_inv vs tk s" and pc: "mq_pc s p = Push_cas v t" and t: "mq_tail s = t"
    and room: "unat t + 1 + unat (mq_capacity s) < 2 ^ 64"
  shows "mpmc_inv (vs @ [v]) tk (goes p (Push_write v t) (s\<lparr>mq_tail := t + 1\<rparr>))" (is "mpmc_inv ?vs tk ?g")
proof -
  note len = mpmc_invD(7)[OF inv, unfolded t] and HT = mpmc_invD(8)[OF inv, unfolded t]
  have T1: "unat (t + 1) = unat t + 1" using unat_tail_Suc[OF inv] by (simp add: t)
  have less: "u < t + 1 \<longleftrightarrow> u \<le> t" "u \<le> t + 1 \<longleftrightarrow> u \<le> t \<or> u = t + 1" "t + 1 \<le> u \<longleftrightarrow> t < u" for u
    using T1 by (auto simp: word_less_nat_alt word_le_nat_alt word_unat_eq_iff)
  have mine: "nd_tail (mq_node s t) = t" using mpmc_invD(3)[OF inv, of p] pc t by simp
  have free: "nd_head (mq_node s t) \<noteq> t" "nd_data (mq_node s t) = None"
    using slot_ok_node[OF inv, of t] mine by (auto simp: slot_ok_def node_ok_def Let_def mq_node_def t)
  have vs: "?vs ! unat u = vs ! unat u" if "u < t" for u
    using that len by (simp add: nth_append word_less_nat_alt)
  have push: "push_ticket (mq_pc ?g q) = (if q = p then Some t else push_ticket (mq_pc s q))"
    and pop: "pop_ticket (mq_pc ?g q) = pop_ticket (mq_pc s q)" for q
    using pc by simp_all
  have fresh: "u < t" if "push_ticket (mq_pc s q) = Some u" for q u
    using mpmc_invD(3)[OF inv, of q] that by (cases "mq_pc s q") (auto simp: t)
  have "slot_ok ?vs ?g j" if j: "j < mq_capacity s" for j
  proof -
    define N where "N = mq_queue s j"
    have ok: "node_ok vs s j N" using mpmc_invD(2)[OF inv j] by (simp add: slot_ok_def N_def)
    have room': "unat t + 1 \<le> unat (nd_tail N) + unat (mq_capacity s)"
    proof (rule ccontr)
      assume "\<not> ?thesis"
      then have eq: "unat t = unat (nd_tail N) + unat (mq_capacity s)"
        using ok by (simp add: node_ok_def Let_def t)
      then have "mq_slot s t = mq_slot s (nd_tail N)" by (simp add: same_slot[OF mpmc_invD(6)[OF inv]])
      also have "\<dots> = j" using ok by (simp add: node_ok_def Let_def)
      finally have "nd_tail N = t" using mine by (simp add: N_def mq_node_def)
      then show False using eq pow2_slot(2)[OF mpmc_invD(6)[OF inv]] by simp
    qed
    note o = node_okD[OF ok, unfolded t]
    have owner: "\<exists>q. push_ticket (mq_pc ?g q) = Some (nd_tail N)" if "nd_head N \<noteq> nd_tail N" "nd_tail N < t + 1"
    proof (cases "nd_tail N = t")
      case False
      then have "nd_tail N < t" using that(2) by (simp add: less)
      from o(8)[OF that(1) this] obtain q where "push_ticket (mq_pc s q) = Some (nd_tail N)" by blast
      then have "push_ticket (mq_pc ?g q) = Some (nd_tail N)" using pc by auto
      then show ?thesis by blast
    qed auto
    have below: "nd_tail N < t" if "nd_head N = nd_tail N" using o(5) that not_le by blast
    have "node_ok ?vs ?g j N"
    proof (rule node_okI)
      show "mq_tail ?g \<le> nd_tail N \<Longrightarrow> nd_head N \<noteq> nd_tail N \<and> nd_data N = None"
        using o(5) by (simp add: less)
      show "nd_data N = Some (?vs ! unat (nd_tail N))" if "nd_head N = nd_tail N" "mq_head ?g \<le> nd_tail N"
        using o(6)[OF that(1)] that(2) vs[OF below[OF that(1)]] by simp
      show "nd_head N = nd_tail N \<and> (\<exists>p. pop_ticket (mq_pc ?g p) = Some (nd_tail N))" if "nd_tail N < mq_head ?g"
        using o(7) that unfolding pop by simp
    qed (use o(1,2,4) room' owner in \<open>simp_all add: T1\<close>)
    then show ?thesis by (simp add: slot_ok_def N_def)
  qed
  moreover have "pc_ok ?vs ?g (mq_pc ?g q)" for q
  proof (cases "q = p")
    case True
    then show ?thesis using mine free len by (simp add: less nth_append)
  next
    case False
    have "pc_ok ?vs (s\<lparr>mq_tail := t + 1\<rparr>) (mq_pc s q)"
      using mpmc_invD(3)[OF inv, of q] HT vs T1
      by (cases "mq_pc s q") (auto simp: t less word_le_nat_alt word_less_nat_alt)
    then show ?thesis using False by simp
  qed
  moreover have "tickets_ok ?g"
    using mpmc_invD(4)[OF inv] fresh unfolding tickets_ok_def push pop by (auto split: if_splits)
  moreover have "taken_ok ?vs tk ?g"
    using mpmc_invD(5)[OF inv] HT vs unfolding taken_ok_def pop by (auto simp: less_le_trans)
  moreover have "mpmc_bound ?vs ?g"
    using mpmc_invD(1)[OF inv] room T1 HT unfolding mpmc_bound_def by (simp add: t less)
  ultimately show ?thesis by (simp add: mpmc_inv_def)
qed


text \<open>A consumer gets the next ticket.\<close>

lemma inv_pop_claim:
  assumes inv: "mpmc_inv vs tk s" and pc: "mq_pc s p = Pop_cas h" and h: "mq_head s = h"
  shows "mpmc_inv vs tk (goes p (Pop_read h) (s\<lparr>mq_head := h + 1\<rparr>))" (is "mpmc_inv vs tk ?g")
proof -
  have H1: "unat (h + 1) = unat h + 1" using unat_head_Suc[OF inv] by (simp add: h)
  have less: "u < h + 1 \<longleftrightarrow> u \<le> h" "h + 1 \<le> u \<longleftrightarrow> h < u" for u
    using H1 by (auto simp: word_less_nat_alt word_le_nat_alt)
  have head: "nd_head (mq_node s h) = h" using mpmc_invD(3)[OF inv, of p] pc h by simp
  have tail: "nd_tail (mq_node s h) = h" and hT: "h < mq_tail s"
    using head_slot_published[OF inv] head by (simp_all add: h)
  have slot: "node_ok vs s (mq_slot s h) (mq_node s h)" using slot_ok_node[OF inv, of h] by (simp add: slot_ok_def mq_node_def)
  have data: "nd_data (mq_node s h) = Some (vs ! unat h)" using node_okD(6)[OF slot] head tail by (simp add: h)
  have push: "push_ticket (mq_pc ?g q) = push_ticket (mq_pc s q)"
    and pop: "pop_ticket (mq_pc ?g q) = (if q = p then Some h else pop_ticket (mq_pc s q))" for q
    using pc by simp_all
  have fresh: "u < h" if "pop_ticket (mq_pc s q) = Some u" for q u
    using mpmc_invD(3)[OF inv, of q] that by (cases "mq_pc s q") (auto simp: h)
  have "slot_ok vs ?g j" if j: "j < mq_capacity s" for j
  proof -
    define N where "N = mq_queue s j"
    have ok: "node_ok vs s j N" using mpmc_invD(2)[OF inv j] by (simp add: slot_ok_def N_def)
    note o = node_okD[OF ok, unfolded h]
    have "nd_head N = nd_tail N \<and> (\<exists>p. pop_ticket (mq_pc ?g p) = Some (nd_tail N))" if "nd_tail N < h + 1"
    proof (cases "nd_tail N = h")
      case True
      then have "N = mq_node s h" using o(1) by (simp add: N_def mq_node_def)
      then show ?thesis using head True by auto
    next
      case False
      then have "nd_tail N < h" using that by (simp add: less)
      from o(7)[OF this] obtain q where q: "nd_head N = nd_tail N" "pop_ticket (mq_pc s q) = Some (nd_tail N)" by blast
      then have "pop_ticket (mq_pc ?g q) = Some (nd_tail N)" using pc by auto
      then show ?thesis using q(1) by blast
    qed
    then have "node_ok vs ?g j N"
      by (intro node_okI) (use o in \<open>auto simp: H1 less push simp del: goes_simps(8)\<close>)
    then show ?thesis by (simp add: slot_ok_def N_def)
  qed
  moreover have "pc_ok vs ?g (mq_pc ?g q)" for q
  proof (cases "q = p")
    case True
    then show ?thesis using tail data by (simp add: less)
  next
    case False
    have "pc_ok vs (s\<lparr>mq_head := h + 1\<rparr>) (mq_pc s q)"
      using mpmc_invD(3)[OF inv, of q]
      by (cases "mq_pc s q") (auto simp: h less H1 word_le_nat_alt word_less_nat_alt word_unat_eq_iff)
    then show ?thesis using False by simp
  qed
  moreover have "tickets_ok ?g"
    using mpmc_invD(4)[OF inv] fresh unfolding tickets_ok_def push pop by (auto split: if_splits)
  moreover have "taken_ok vs tk ?g"
  proof -
    have tk: "distinct (map fst tk)" "\<forall>(u, x) \<in> set tk. u < h \<and> x = vs ! unat u \<and> u < nd_tail (mq_node s u)"
      "\<forall>u < h. u \<in> fst ` set tk \<or> (\<exists>p. pop_ticket (mq_pc s p) = Some u)"
      using mpmc_invD(5)[OF inv] by (simp_all add: taken_ok_def h)
    have "u \<in> fst ` set tk \<or> (\<exists>q. pop_ticket (mq_pc ?g q) = Some u)" if "u < h + 1" for u
    proof (cases "u = h")
      case False
      then have "u < h" using that by (simp add: less)
      from tk(3)[rule_format, OF this] show ?thesis
      proof
        assume "\<exists>q. pop_ticket (mq_pc s q) = Some u"
        then obtain q where "pop_ticket (mq_pc s q) = Some u" by blast
        then have "pop_ticket (mq_pc ?g q) = Some u" using pc by auto
        then show ?thesis by blast
      qed simp
    qed auto
    then show ?thesis using tk(1,2) unfolding taken_ok_def by (auto simp: less)
  qed
  moreover have "mpmc_bound vs ?g"
    using mpmc_invD(1)[OF inv] hT H1 unfolding mpmc_bound_def by (simp add: word_le_nat_alt word_less_nat_alt)
  ultimately show ?thesis by (simp add: mpmc_inv_def)
qed

text \<open>A consumer hands its slot to the next ticket.\<close>

lemma inv_pop_release:
  assumes inv: "mpmc_inv vs tk s" and pc: "mq_pc s p = Pop_release h x"
  shows "mpmc_inv vs (tk @ [(h, x)]) (goes p Mq_idle (upd_node h (nd_tail_update (\<lambda>_. h + mq_capacity s)) s))"
    (is "mpmc_inv vs ?tk ?g")
proof -
  let ?f = "nd_tail_update (\<lambda>_. h + mq_capacity s)"
  have own: "h < mq_head s" "nd_tail (mq_node s h) = h" "x = vs ! unat h" "nd_data (mq_node s h) = None"
    using mpmc_invD(3)[OF inv, of p] pc by simp_all
  have p2: "pow2 s" and C: "0 < unat (mq_capacity s)" using mpmc_invD(6)[OF inv] pow2_slot(2) by auto
  have slot: "node_ok vs s (mq_slot s h) (mq_node s h)" using slot_ok_node[OF inv, of h] by (simp add: slot_ok_def mq_node_def)
  note o = node_okD[OF slot, unfolded own(2)]
  have head: "nd_head (mq_node s h) = h" using o(7) own(1) by simp
  have hC: "unat (h + mq_capacity s) = unat h + unat (mq_capacity s)"
    using own(1) mpmc_invD(8,9)[OF inv] by (subst unat_add_lem[THEN iffD1]) (auto simp: word_le_nat_alt word_less_nat_alt)
  have up: "h < h + mq_capacity s" using hC C by (simp add: word_less_nat_alt)
  have HT: "mq_head s \<le> mq_tail s" "mq_tail s \<le> h + mq_capacity s"
    using mpmc_invD(8)[OF inv] o(3) by (simp_all add: word_le_nat_alt hC)
  have same: "mq_slot s (h + mq_capacity s) = mq_slot s h" by (simp add: same_slot[OF p2] hC)
  have push: "push_ticket (mq_pc ?g q) = push_ticket (mq_pc s q)"
    and pop: "pop_ticket (mq_pc ?g q) = (if q = p then None else pop_ticket (mq_pc s q))" for q
    using pc by simp_all
  have mine: "node_ok vs ?g (mq_slot s h) (?f (mq_node s h))"
    by (rule node_okI) (use own head HT up same o(2,3) in \<open>auto simp: hC word_le_nat_alt word_less_nat_alt\<close>)
  have keep: "push_ticket (mq_pc s q) = Some i \<longrightarrow> push_ticket (mq_pc ?g q) = Some i"
    "pop_ticket (mq_pc s q) = Some i \<longrightarrow> pop_ticket (mq_pc ?g q) = Some i" if "mq_slot s i \<noteq> mq_slot s h" for i q
    using that pc by auto
  have "slot_ok vs ?g j" if j: "j < mq_capacity s" for j
  proof (cases "j = mq_slot s h")
    case True
    then show ?thesis using mine by (simp add: slot_ok_def)
  next
    case False
    have "node_ok vs ?g j (mq_queue s j)"
      by (rule node_ok_mono[of _ s]) (use mpmc_invD(2)[OF inv j] False keep in \<open>auto simp: slot_ok_def\<close>)
    then show ?thesis using False by (simp add: slot_ok_def)
  qed
  moreover have "pc_ok vs ?g (mq_pc ?g q)" for q
  proof (cases "q = p")
    case False
    have "mq_slot s (mq_tail s) \<noteq> mq_slot s h" if "nd_tail (mq_node s (mq_tail s)) = mq_tail s"
    proof
      assume "mq_slot s (mq_tail s) = mq_slot s h"
      then have "mq_node s (mq_tail s) = mq_node s h" by (simp add: mq_node_def)
      then have "mq_tail s = h" using that own(2) by metis
      then show False using own(1) HT(1) by simp
    qed
    then have "pc_ok vs (upd_node h ?f s) (mq_pc s q)"
      by (intro pc_ok_upd mpmc_invD(3)[OF inv]) (use tickets_apart[OF inv False, of _ h] pc in auto)
    then show ?thesis using False by simp
  qed simp
  moreover have "tickets_ok ?g" using mpmc_invD(4)[OF inv] unfolding tickets_ok_def push pop by (auto split: if_splits)
  moreover have "taken_ok vs ?tk ?g"
  proof -
    have tk: "distinct (map fst tk)" "\<forall>(u, y) \<in> set tk. u < mq_head s \<and> y = vs ! unat u \<and> u < nd_tail (mq_node s u)"
      "\<forall>u < mq_head s. u \<in> fst ` set tk \<or> (\<exists>p. pop_ticket (mq_pc s p) = Some u)"
      using mpmc_invD(5)[OF inv] by (simp_all add: taken_ok_def)
    have "h \<notin> fst ` set tk" using tk(2) own(2) by fastforce
    moreover have "u < nd_tail (mq_node ?g u)" if "u < nd_tail (mq_node s u)" for u
    proof (cases "mq_slot s u = mq_slot s h")
      case True
      then have "mq_node s u = mq_node s h" by (simp add: mq_node_def)
      then have "u < h" using that own(2) by metis
      then show ?thesis using up True by simp
    qed (use that in simp)
    moreover have "u \<in> fst ` set ?tk \<or> (\<exists>q. pop_ticket (mq_pc ?g q) = Some u)" if u: "u < mq_head s" for u
      using tk(3)[rule_format, OF u]
    proof
      assume "\<exists>q. pop_ticket (mq_pc s q) = Some u"
      then obtain q where q: "pop_ticket (mq_pc s q) = Some u" by blast
      show ?thesis
      proof (cases "q = p")
        case True
        then show ?thesis using q pc by simp
      next
        case False
        then have "pop_ticket (mq_pc ?g q) = Some u" using q by simp
        then show ?thesis by blast
      qed
    qed simp
    moreover have "h < nd_tail (mq_node ?g h)" using up by simp
    ultimately show ?thesis using tk(1,2) own unfolding taken_ok_def by (auto simp del: upd_node_simps(7) goes_simps(7))
  qed
  moreover have "mpmc_bound vs ?g" using mpmc_invD(1)[OF inv] by (simp add: mpmc_bound_def)
  ultimately show ?thesis by (simp add: mpmc_inv_def)
qed


lemma mpmc_inv_step:
  assumes "mpmc_step s e t" "mpmc_inv vs tk s"
    "unat (mq_tail s) + length (claimed_of [e]) + unat (mq_capacity s) < 2 ^ 64"
  shows "mpmc_inv (vs @ claimed_of [e]) (tk @ taken_of [e]) t"
  using assms(1)
proof cases
  case (push_claim p v u)
  then show ?thesis using inv_push_claim[OF assms(2), of p v u] assms(3) by (simp add: claimed_of_def taken_of_def)
next
  case (push_write p v u)
  have c: "pc_ok vs s (Push_write v u)" using mpmc_invD(3)[OF assms(2), of p] push_write by simp
  show ?thesis using inv_data[OF assms(2), of p u "Push_publish v u" "Some v"] push_write c
    by (simp add: claimed_of_def taken_of_def)
next
  case (push_publish p v u)
  then show ?thesis using inv_publish[OF assms(2), of p v u] by (simp add: claimed_of_def taken_of_def)
next
  case (pop_claim p h)
  then show ?thesis using inv_pop_claim[OF assms(2), of p h] by (simp add: claimed_of_def taken_of_def)
next
  case (pop_destroy p h x)
  have c: "pc_ok vs s (Pop_destroy h x)" using mpmc_invD(3)[OF assms(2), of p] pop_destroy by simp
  then have "h < mq_tail s" "\<not> mq_head s \<le> h" using mpmc_invD(8)[OF assms(2)] by auto
  then show ?thesis using inv_data[OF assms(2), of p h "Pop_release h x" None] pop_destroy c
    by (simp add: claimed_of_def taken_of_def)
next
  case (pop_release p h x)
  then show ?thesis using inv_pop_release[OF assms(2), of p h x] by (simp add: claimed_of_def taken_of_def)
next
  case (mq_outside p v u)
  then show ?thesis using pow2_slot(3)[OF mpmc_invD(6)[OF assms(2)]] by simp
next
  case (mq_clash p v u x)
  then show ?thesis using mpmc_invD(3)[OF assms(2), of p] by auto
next
  case (push_ready p v u)
  then have "pc_ok vs s (Push_cas v u)"
    using mpmc_invD(3)[OF assms(2), of p] by (metis pc_ok.simps(2,3))
  then show ?thesis using inv_local[OF assms(2), of "Push_cas v u" p] push_ready by (simp add: claimed_of_def taken_of_def)
next
  case (pop_ready p h)
  then have "pc_ok vs s (Pop_cas h)"
    using mpmc_invD(3)[OF assms(2), of p] by (metis pc_ok.simps(6,7))
  then show ?thesis using inv_local[OF assms(2), of "Pop_cas h" p] pop_ready by (simp add: claimed_of_def taken_of_def)
next
  case (pop_read p h x)
  then show ?thesis using inv_local[OF assms(2), of "Pop_destroy h x" p] mpmc_invD(3)[OF assms(2), of p]
    by (simp add: claimed_of_def taken_of_def)
qed (use inv_local[OF assms(2)] in \<open>simp_all add: claimed_of_def taken_of_def\<close>)

lemma mpmc_inv_start:
  assumes "0 < n" "unat n \<le> 2 ^ 63"
  shows "mpmc_inv [] [] (MpmcQueue_start n :: 'a MpmcThreads)"
proof -
  let ?s = "MpmcQueue_start n :: 'a MpmcThreads"
  obtain k where k: "k < 64" "rounded_capacity n = 2 ^ k" "smear (n - 1) = 2 ^ k - 1"
    by (rule ctor_capacity[OF assms])
  have f: "mq_capacity ?s = rounded_capacity n" "mq_mask ?s = smear (n - 1)"
    "mq_queue ?s = (\<lambda>i. \<lparr>nd_data = None, nd_tail = i, nd_head = - 1\<rparr>)" "mq_tail ?s = 0" "mq_head ?s = 0"
    "mq_pc ?s = (\<lambda>_. Mq_idle)"
    by (simp_all add: MpmcQueue_start_def MpmcQueue_ctor_def MpmcQueue.defs)
  have p2: "pow2 ?s" using k by (auto simp: pow2_def f)
  have "slot_ok [] ?s j" if "j < mq_capacity ?s" for j
  proof -
    have "unat j < unat (mq_capacity ?s)" using that by (simp add: word_less_nat_alt)
    then have "mq_slot ?s j = j" using pow2_slot(1)[OF p2, of j] by (simp add: word_unat_eq_iff)
    moreover have "j \<noteq> - 1" using that by auto
    ultimately show ?thesis using that by (simp add: slot_ok_def node_ok_def Let_def f word_less_nat_alt)
  qed
  moreover have "unat (mq_capacity ?s) < 2 ^ 64" using unsigned_less[of "mq_capacity ?s"] by simp
  ultimately show ?thesis using p2
    by (simp add: mpmc_inv_def mpmc_bound_def tickets_ok_def taken_ok_def f)
qed

lemma mpmc_step_capacity: "mpmc_step s e t \<Longrightarrow> mq_capacity t = mq_capacity s"
  by (cases rule: mpmc_step.cases) auto

lemma claimed_of_append: "claimed_of (es @ fs) = claimed_of es @ claimed_of fs"
  by (simp add: claimed_of_def)

lemma taken_of_append: "taken_of (es @ fs) = taken_of es @ taken_of fs"
  by (simp add: taken_of_def)

lemma mpmc_inv_run:
  assumes "mpmc_run n es s" "0 < n" "unat n \<le> 2 ^ 63"
    "length (claimed_of es) + unat (rounded_capacity n) < 2 ^ 64"
  shows "mpmc_inv (claimed_of es) (taken_of es) s \<and> mq_capacity s = rounded_capacity n"
  using assms(1,4)
proof (induction rule: mpmc_run.induct)
  case mq_init
  then show ?case using mpmc_inv_start[OF assms(2,3)]
    by (simp add: claimed_of_def taken_of_def MpmcQueue_start_def MpmcQueue_ctor_def MpmcQueue.defs)
next
  case (mq_next es s e t)
  then have ih: "mpmc_inv (claimed_of es) (taken_of es) s" "mq_capacity s = rounded_capacity n"
    by (simp_all add: claimed_of_append)
  then show ?case
    using mpmc_inv_step[OF mq_next.hyps(2) ih(1)] mpmc_step_capacity[OF mq_next.hyps(2)] mpmc_invD(7)[OF ih(1)] mq_next.prems
    by (simp add: claimed_of_append taken_of_append)
qed

end
