(* ===== verification/MpmcProps.thy ===== *)
theory MpmcProps
  imports LockFreeMpmc
begin

text \<open>The properties of the queue of \<open>lockfreequeue_maybetrash.h\<close>.\<close>

section \<open>Room and destruction\<close>

text \<open>Tickets of different slots that all hold an object are destroyed one after the other.\<close>

lemma mq_destroy_all:
  assumes "\<forall>i \<in> set ts. mq_inside s i \<and> nd_data (mq_node s i) \<noteq> None" "distinct (map (mq_slot s) ts)"
  shows "\<exists>t. fold_res mq_destroy ts s = Inr t \<and> mq_slot t = mq_slot s \<and> mq_capacity t = mq_capacity s
    \<and> (\<forall>j. nd_data (mq_queue t j) = (if j \<in> mq_slot s ` set ts then None else nd_data (mq_queue s j)))"
  using assms
proof (induction ts arbitrary: s)
  case (Cons i ts)
  let ?t = "upd_node i (nd_data_update (\<lambda>_. None)) s"
  have "\<forall>k \<in> set ts. mq_slot s k \<noteq> mq_slot s i" using Cons.prems(2) by (auto simp: image_iff)
  then have "\<forall>k \<in> set ts. mq_inside ?t k \<and> nd_data (mq_node ?t k) \<noteq> None"
    using Cons.prems(1) by (simp add: mq_inside_def)
  moreover have "distinct (map (mq_slot ?t) ts)" using Cons.prems(2) by simp
  ultimately obtain t where t: "fold_res mq_destroy ts ?t = Inr t" "mq_slot t = mq_slot ?t" "mq_capacity t = mq_capacity ?t"
    "\<forall>j. nd_data (mq_queue t j) = (if j \<in> mq_slot ?t ` set ts then None else nd_data (mq_queue ?t j))"
    using Cons.IH[of ?t] by blast
  have "mq_destroy i s = Inr ?t" using Cons.prems(1) by (simp add: mq_destroy_def)
  then show ?case using t by (intro exI[of _ t]) (simp add: mq_node_def)
qed simp

lemma claimed_at_most_capacity:
  assumes inv: "mpmc_inv vs tk s"
  shows "unat (mq_tail s) \<le> unat (mq_head s) + unat (mq_capacity s)"
proof -
  have p2: "pow2 s" by (rule mpmc_invD(6)[OF inv])
  let ?N = "mq_node s (mq_head s)" and ?C = "unat (mq_capacity s)"
  have "node_ok vs s (mq_slot s (mq_head s)) ?N" using slot_ok_node[OF inv] by (simp add: slot_ok_def mq_node_def)
  note o = node_okD[OF this]
  have "unat (nd_tail ?N) mod ?C = unat (mq_head s) mod ?C" using o(1) by (simp add: same_slot[OF p2])
  moreover have "\<not> unat (mq_head s) < unat (nd_tail ?N)"
  proof
    assume less: "unat (mq_head s) < unat (nd_tail ?N)"
    then have "?C dvd unat (nd_tail ?N) - unat (mq_head s)" using calculation by (simp add: mod_eq_dvd_iff_nat)
    then show False using less o(2) by (auto dest!: dvd_imp_le)
  qed
  then show ?thesis using o(3) by simp
qed


lemma idle_slots:
  assumes inv: "mpmc_inv vs tk s" and idle: "\<forall>p. mq_pc s p = Mq_idle" and j: "j < mq_capacity s"
  shows "nd_data (mq_queue s j) = (if nd_head (mq_queue s j) = nd_tail (mq_queue s j)
      then Some (vs ! unat (nd_tail (mq_queue s j))) else None)"
    "mq_head s \<le> nd_tail (mq_queue s j)" "mq_slot s (nd_tail (mq_queue s j)) = j"
    "nd_head (mq_queue s j) = nd_tail (mq_queue s j) \<longleftrightarrow> nd_tail (mq_queue s j) < mq_tail s"
    "unat (nd_tail (mq_queue s j)) < unat (mq_head s) + unat (mq_capacity s)"
proof -
  have "node_ok vs s j (mq_queue s j)" using mpmc_invD(2)[OF inv j] by (simp add: slot_ok_def)
  note o = node_okD[OF this]
  show H: "mq_head s \<le> nd_tail (mq_queue s j)" using o(7) idle by (auto simp flip: not_less)
  show full: "nd_head (mq_queue s j) = nd_tail (mq_queue s j) \<longleftrightarrow> nd_tail (mq_queue s j) < mq_tail s"
    using o(5,8) idle not_less by fastforce
  show "nd_data (mq_queue s j) = (if nd_head (mq_queue s j) = nd_tail (mq_queue s j)
      then Some (vs ! unat (nd_tail (mq_queue s j))) else None)"
    using o(5,6) H full not_less by auto
qed (use mpmc_invD(2)[OF inv j] in \<open>auto simp: slot_ok_def node_ok_def Let_def\<close>)

lemma window_mod_inj:
  assumes "(h :: nat) \<le> a" "a < h + c" "h \<le> b" "b < h + c" "a mod c = b mod c"
  shows "a = b"
proof -
  have "\<not> x < y" if "h \<le> x" "y < h + c" "x mod c = y mod c" for x y
  proof
    assume "x < y"
    then have "c dvd y - x" using that(3) by (simp flip: mod_eq_dvd_iff_nat)
    then show False using \<open>x < y\<close> that(1,2) by (auto dest!: dvd_imp_le)
  qed
  then show ?thesis using assms by (metis linorder_neqE_nat)
qed

lemma idle_dtor:
  assumes inv: "mpmc_inv vs tk s" and idle: "\<forall>p. mq_pc s p = Mq_idle"
  shows "\<exists>t. MpmcQueue_dtor s = Inr t \<and> (\<forall>j < mq_capacity t. nd_data (mq_queue t j) = None)"
proof -
  let ?H = "mq_head s" and ?n = "unat (mq_tail s - mq_head s)"
  let ?ts = "map (\<lambda>k. ?H + of_nat k) [0..<?n]"
  note p2 = mpmc_invD(6)[OF inv]
  have n: "?n = unat (mq_tail s) - unat ?H" using mpmc_invD(8)[OF inv] by (simp add: unat_sub)
  have n_le: "?n \<le> unat (mq_capacity s)" using claimed_at_most_capacity[OF inv] n by simp
  have tick: "unat (?H + of_nat k) = unat ?H + k" if "k < ?n" for k
  proof -
    have "unat ?H + k < 2 ^ 64" using that n mpmc_invD(9)[OF inv] by simp
    then have "unat (of_nat k :: 64 word) = k" "unat ?H + unat (of_nat k :: 64 word) < 2 ^ 64" by (simp_all add: unat_of_nat)
    then show ?thesis by (subst unat_add_lem[THEN iffD1]) auto
  qed
  have at: "nd_tail (mq_node s (?H + of_nat k)) = ?H + of_nat k" if k: "k < ?n" for k
  proof -
    let ?u = "?H + of_nat k" and ?N = "mq_node s (?H + of_nat k)"
    have j: "mq_slot s ?u < mq_capacity s" using pow2_slot(3)[OF p2] by (simp add: mq_inside_def)
    note o = idle_slots[OF inv idle j, folded mq_node_def]
    have "unat ?H \<le> unat (nd_tail ?N)" using o(2) by (simp only: word_le_nat_alt)
    moreover have "unat ?H \<le> unat ?u" "unat ?u < unat ?H + unat (mq_capacity s)" using tick[OF k] k n_le by simp_all
    moreover have "unat (nd_tail ?N) mod unat (mq_capacity s) = unat ?u mod unat (mq_capacity s)"
      using o(3) by (simp only: same_slot[OF p2])
    ultimately have "unat (nd_tail ?N) = unat ?u" using o(5) window_mod_inj by blast
    then show ?thesis by (simp only: word_unat_eq_iff)
  qed
  have below: "?H + of_nat k < mq_tail s" if "k < ?n" for k
    using tick[OF that] that n by (simp add: word_less_nat_alt)
  have objects: "mq_inside s (?H + of_nat k) \<and> nd_data (mq_node s (?H + of_nat k)) \<noteq> None" if k: "k < ?n" for k
  proof -
    have j: "mq_slot s (?H + of_nat k) < mq_capacity s" using pow2_slot(3)[OF p2] by (simp add: mq_inside_def)
    note o = idle_slots(1,4)[OF inv idle j, folded mq_node_def]
    have "nd_tail (mq_node s (?H + of_nat k)) < mq_tail s" unfolding at[OF k] by (rule below[OF k])
    then have "nd_data (mq_node s (?H + of_nat k)) \<noteq> None" using o by (metis option.distinct(1))
    then show ?thesis using pow2_slot(3)[OF p2] by blast
  qed
  have "inj_on (\<lambda>k. mq_slot s (?H + of_nat k)) {0..<?n}"
  proof (rule inj_onI)
    fix k l
    assume k: "k \<in> {0..<?n}" and l: "l \<in> {0..<?n}" and "mq_slot s (?H + of_nat k) = mq_slot s (?H + of_nat l)"
    then have "(unat ?H + k) mod unat (mq_capacity s) = (unat ?H + l) mod unat (mq_capacity s)"
      by (simp add: same_slot[OF p2] tick)
    from window_mod_inj[OF _ _ _ _ this, of "unat ?H"] show "k = l" using k l n_le by simp
  qed
  then have "distinct (map (mq_slot s) ?ts)" by (simp add: distinct_map comp_def)
  then obtain t where t: "MpmcQueue_dtor s = Inr t" "mq_capacity t = mq_capacity s"
    "\<forall>j. nd_data (mq_queue t j) = (if j \<in> mq_slot s ` set ?ts then None else nd_data (mq_queue s j))"
    using mq_destroy_all[of ?ts s] objects unfolding MpmcQueue_dtor_def by force
  have "nd_data (mq_queue t j) = None" if j: "j < mq_capacity s" for j
  proof (cases "nd_data (mq_queue s j) = None")
    case False
    let ?i = "nd_tail (mq_queue s j)"
    note o = idle_slots[OF inv idle j]
    have i: "?H \<le> ?i" "?i < mq_tail s" using o False by auto
    then have "unat ?i - unat ?H < ?n" "?i = ?H + of_nat (unat ?i - unat ?H)"
      using n by (auto simp: word_le_nat_alt word_less_nat_alt of_nat_diff)
    then have "?i \<in> set ?ts" by auto
    then have "j \<in> mq_slot s ` set ?ts" using o(3) by (metis imageI)
    then show ?thesis using t(3) by simp
  qed (use t(3) in simp)
  then show ?thesis using t(1,2) by auto
qed


section \<open>Properties\<close>

text \<open>In every interleaving of the accesses producers and consumers, as many as there are,
  hand over each element once and in the order in which the producers got their places: whatever a
  consumer has returned is the element pushed at its ticket, no ticket is served twice, no thread
  reads a destroyed object or constructs one over another, at most the capacity is in the queue, and
  when no call is running exactly the elements before \<open>_head\<close> have been returned and
  the destructor destroys the rest. The bound keeps the 64-bit cursors from wrapping. This is a
  statement about interleavings, that is about the algorithm with sequentially consistent accesses;
  the orders in the source are weaker and do not give it (\<open>mpmc_hands_over_with_a_race\<close>
  in \<open>MpmcRaces\<close>).\<close>

theorem mpmc_delivers_each_element_once:
  assumes "mpmc_run n es s" "0 < n" "unat n \<le> 2 ^ 63"
    "length (claimed_of es) + unat (rounded_capacity n) < 2 ^ 64"
  shows "(\<forall>p. mq_pc s p \<noteq> Mq_undefined) \<and> distinct (map fst (taken_of es))
    \<and> (\<forall>(h, x) \<in> set (taken_of es). unat h < length (claimed_of es) \<and> x = claimed_of es ! unat h)
    \<and> length (claimed_of es) \<le> unat (mq_head s) + unat (rounded_capacity n)
    \<and> ((\<forall>p. mq_pc s p = Mq_idle) \<longrightarrow> fst ` set (taken_of es) = {h. h < mq_head s}
         \<and> (\<exists>t. MpmcQueue_dtor s = Inr t \<and> (\<forall>j < mq_capacity t. nd_data (mq_queue t j) = None)))"
proof -
  have inv: "mpmc_inv (claimed_of es) (taken_of es) s" and C: "mq_capacity s = rounded_capacity n"
    using mpmc_inv_run[OF assms] by simp_all
  have tk: "taken_ok (claimed_of es) (taken_of es) s" by (rule mpmc_invD(5)[OF inv])
  have len: "length (claimed_of es) = unat (mq_tail s)" by (rule mpmc_invD(7)[OF inv])
  have "mq_pc s p \<noteq> Mq_undefined" for p using mpmc_invD(3)[OF inv, of p] by auto
  moreover have "\<forall>(h, x) \<in> set (taken_of es). unat h < length (claimed_of es) \<and> x = claimed_of es ! unat h"
    using tk mpmc_invD(8)[OF inv] unfolding taken_ok_def len by (auto simp: word_less_nat_alt word_le_nat_alt)
  moreover have "length (claimed_of es) \<le> unat (mq_head s) + unat (rounded_capacity n)"
    using claimed_at_most_capacity[OF inv] by (simp add: len C)
  moreover have "fst ` set (taken_of es) = {h. h < mq_head s}" if "\<forall>p. mq_pc s p = Mq_idle"
    using tk that unfolding taken_ok_def by auto
  ultimately show ?thesis using tk idle_dtor[OF inv] unfolding taken_ok_def by blast
qed

lemma step_goes: "mpmc_run n es s \<Longrightarrow> mpmc_step s e t \<Longrightarrow> t = u \<Longrightarrow> mpmc_run n (es @ [e]) u"
  using mq_next by blast

text \<open>One push and one pop, with a second producer that has loaded the ticket 0.\<close>

definition q2 :: "64 word \<Rightarrow> 64 word \<Rightarrow> nat option \<Rightarrow> 64 word \<Rightarrow> 64 word \<Rightarrow> nat mpmc_pc \<Rightarrow> nat mpmc_pc \<Rightarrow> nat MpmcThreads" where
  "q2 tt hh d ndt ndh c0 c1 = \<lparr>mq_mask = 1,
     mq_queue = (\<lambda>i. \<lparr>nd_data = None, nd_tail = i, nd_head = - 1\<rparr>)(0 := \<lparr>nd_data = d, nd_tail = ndt, nd_head = ndh\<rparr>),
     mq_capacity = 2, mq_tail = tt, mq_head = hh, mq_pc = (\<lambda>_. Mq_idle)(0 := c0, 2 := c1)\<rparr>"

lemma q2_simps [simp]:
  "mq_tail (q2 tt hh d ndt ndh c0 c1) = tt" "mq_head (q2 tt hh d ndt ndh c0 c1) = hh"
  "mq_capacity (q2 tt hh d ndt ndh c0 c1) = 2" "mq_slot (q2 tt hh d ndt ndh c0 c1) 0 = 0"
  "mq_node (q2 tt hh d ndt ndh c0 c1) 0 = \<lparr>nd_data = d, nd_tail = ndt, nd_head = ndh\<rparr>"
  "mq_inside (q2 tt hh d ndt ndh c0 c1) 0"
  "mq_pc (q2 tt hh d ndt ndh c0 c1) p = (if p = 2 then c1 else if p = 0 then c0 else Mq_idle)"
  "goes 0 c (q2 tt hh d ndt ndh c0 c1) = q2 tt hh d ndt ndh c c1"
  "goes 2 c (q2 tt hh d ndt ndh c0 c1) = q2 tt hh d ndt ndh c0 c"
  "q2 tt hh d ndt ndh c0 c1\<lparr>mq_tail := tt'\<rparr> = q2 tt' hh d ndt ndh c0 c1"
  "q2 tt hh d ndt ndh c0 c1\<lparr>mq_head := hh'\<rparr> = q2 tt hh' d ndt ndh c0 c1"
  "upd_node 0 f (q2 tt hh d ndt ndh c0 c1) = (let N = f \<lparr>nd_data = d, nd_tail = ndt, nd_head = ndh\<rparr>
     in q2 tt hh (nd_data N) (nd_tail N) (nd_head N) c0 c1)"
  by (simp_all add: q2_def mq_slot_def mq_node_def mq_inside_def goes_def upd_node_def fun_upd_twist Let_def)
    (cases "f \<lparr>nd_data = d, nd_tail = ndt, nd_head = ndh\<rparr>"; simp)

lemma start_q2: "(MpmcQueue_start 2 :: nat MpmcThreads) = q2 0 0 None 0 (- 1) Mq_idle Mq_idle"
proof -
  have "smear 1 = 1" by (simp add: smear_def)
  then show ?thesis
    by (simp add: MpmcQueue_start_def MpmcQueue_ctor_def MpmcQueue.defs rounded_capacity_def q2_def fun_eq_iff)
qed

lemma run_q2:
  "mpmc_run 2 ([Quiet, Quiet, Quiet, Claimed 7, Quiet, Quiet, Quiet, Quiet, Quiet, Quiet, Quiet, Taken 0 7] @ [Full])
     (q2 1 1 None 2 0 Mq_idle Mq_idle)"
proof -
  have "mpmc_run 2 [] (q2 0 0 None 0 (- 1) Mq_idle Mq_idle)" 
    unfolding start_q2[symmetric] by (rule mq_init)
  from mq_next[OF this push_call[of _ 2 8]]
  have "mpmc_run 2 [Quiet] (q2 0 0 None 0 (- 1) Mq_idle (Push_check 8 0))" by simp
  from mq_next[OF this push_call[of _ 0 7]]
  have "mpmc_run 2 [Quiet, Quiet] (q2 0 0 None 0 (- 1) (Push_check 7 0) (Push_check 8 0))" by simp
  from mq_next[OF this push_ready[of _ 0 7 0]]
  have "mpmc_run 2 [Quiet, Quiet, Quiet] (q2 0 0 None 0 (- 1) (Push_cas 7 0) (Push_check 8 0))" by simp
  from mq_next[OF this push_claim[of _ 0 7 0]]
  have "mpmc_run 2 [Quiet, Quiet, Quiet, Claimed 7] (q2 1 0 None 0 (- 1) (Push_write 7 0) (Push_check 8 0))" by simp
  from mq_next[OF this push_write[of _ 0 7 0]]
  have "mpmc_run 2 [Quiet, Quiet, Quiet, Claimed 7, Quiet] (q2 1 0 (Some 7) 0 (- 1) (Push_publish 7 0) (Push_check 8 0))" by simp
  from mq_next[OF this push_publish[of _ 0 7 0]]
  have "mpmc_run 2 [Quiet, Quiet, Quiet, Claimed 7, Quiet, Quiet] (q2 1 0 (Some 7) 0 0 Mq_idle (Push_check 8 0))" by simp
  from mq_next[OF this pop_call[of _ 0]]
  have "mpmc_run 2 [Quiet, Quiet, Quiet, Claimed 7, Quiet, Quiet, Quiet] (q2 1 0 (Some 7) 0 0 (Pop_check 0) (Push_check 8 0))" by simp
  from mq_next[OF this pop_ready[of _ 0 0]]
  have "mpmc_run 2 [Quiet, Quiet, Quiet, Claimed 7, Quiet, Quiet, Quiet, Quiet] (q2 1 0 (Some 7) 0 0 (Pop_cas 0) (Push_check 8 0))" by simp
  from mq_next[OF this pop_claim[of _ 0 0]]
  have "mpmc_run 2 [Quiet, Quiet, Quiet, Claimed 7, Quiet, Quiet, Quiet, Quiet, Quiet] (q2 1 1 (Some 7) 0 0 (Pop_read 0) (Push_check 8 0))" by simp
  from mq_next[OF this pop_read[of _ 0 0 7]]
  have "mpmc_run 2 [Quiet, Quiet, Quiet, Claimed 7, Quiet, Quiet, Quiet, Quiet, Quiet, Quiet] (q2 1 1 (Some 7) 0 0 (Pop_destroy 0 7) (Push_check 8 0))" by simp
  from mq_next[OF this pop_destroy[of _ 0 0 7]]
  have "mpmc_run 2 [Quiet, Quiet, Quiet, Claimed 7, Quiet, Quiet, Quiet, Quiet, Quiet, Quiet, Quiet] (q2 1 1 None 0 0 (Pop_release 0 7) (Push_check 8 0))" by simp
  from mq_next[OF this pop_release[of _ 0 0 7]]
  have "mpmc_run 2 [Quiet, Quiet, Quiet, Claimed 7, Quiet, Quiet, Quiet, Quiet, Quiet, Quiet, Quiet, Taken 0 7] (q2 1 1 None 2 0 Mq_idle (Push_check 8 0))" by simp
  from mq_next[OF this push_full[of _ 2 8 0]] show ?thesis by simp
qed

theorem mpmc_delivers_each_element_once_witness:
  "\<exists>es (s :: nat MpmcThreads). mpmc_run 2 es s \<and> claimed_of es = [7] \<and> fst ` set (taken_of es) = {h. h < mq_head s} \<and> mq_head s = 1"
proof -
  let ?es = "[Quiet, Quiet, Quiet, Claimed (7 :: nat), Quiet, Quiet, Quiet, Quiet, Quiet, Quiet, Quiet, Taken 0 7] @ [Full]"
  have idle: "\<forall>p. mq_pc (q2 1 1 None 2 0 Mq_idle Mq_idle) p = Mq_idle" by simp
  have c: "unat (rounded_capacity 2) = 2" by (simp add: rounded_capacity_def smear_def)
  have "length (claimed_of ?es) + unat (rounded_capacity 2) < 2 ^ 64" unfolding c by (simp add: claimed_of_def)
  then have "fst ` set (taken_of ?es) = {h. h < mq_head (q2 1 1 None 2 0 Mq_idle Mq_idle)}"
    using mpmc_delivers_each_element_once[OF run_q2] idle by simp
  then show ?thesis using run_q2 by (intro exI[of _ ?es] exI[of _ "q2 1 1 None 2 0 Mq_idle Mq_idle"]) (simp add: claimed_of_def)
qed

text \<open>An empty queue can refuse a push. A producer that has loaded \<open>_tail\<close> and is overtaken by
  another push and pop finds its slot waiting for a later ticket and returns false, although
  nothing is in the queue and no other call is running.\<close>

theorem mpmc_empty_queue_refuses_a_push:
  "\<exists>es (s :: nat MpmcThreads). mpmc_run 2 (es @ [Full]) s \<and> mq_size s = 0 \<and> (\<forall>p. mq_pc s p = Mq_idle)
     \<and> length (claimed_of es) = 1 \<and> length (taken_of es) = 1"
proof (intro exI conjI)
  show "mpmc_run 2 ([Quiet, Quiet, Quiet, Claimed 7, Quiet, Quiet, Quiet, Quiet, Quiet, Quiet, Quiet, Taken 0 7] @ [Full])
     (q2 1 1 None 2 0 Mq_idle Mq_idle)" by (rule run_q2)
qed (simp_all add: mq_size_def claimed_of_def taken_of_def)

text \<open>The constructor rounds the capacity up to the next power of two: it is at least what is
  asked for and less than twice as much, and every ticket then has its slot inside the array.\<close>

theorem mpmc_capacity_is_next_power_of_two:
  assumes "0 < n" "unat n \<le> 2 ^ 63"
  shows "\<exists>k. unat (rounded_capacity n) = 2 ^ k \<and> unat n \<le> 2 ^ k \<and> 2 ^ k < 2 * unat n
    \<and> (\<forall>t. mq_inside (MpmcQueue_ctor n :: 'a MpmcQueue) t)"
proof -
  obtain k where k: "k < 64" "rounded_capacity n = 2 ^ k" "smear (n - 1) = 2 ^ k - 1" "unat n \<le> 2 ^ k" "2 ^ k < 2 * unat n"
    by (rule ctor_capacity[OF assms])
  have "pow2 (MpmcQueue_ctor n :: 'a MpmcQueue)" using k(1-3) by (auto simp: pow2_def MpmcQueue_ctor_def)
  then show ?thesis using k pow2_slot(3) by (intro exI[of _ k]) (auto simp: unat_2_power)
qed

theorem mpmc_capacity_is_next_power_of_two_witness:
  "\<exists>k. unat (rounded_capacity 5) = 2 ^ k \<and> (5 :: nat) \<le> 2 ^ k \<and> (2 :: nat) ^ k < 10"
  using mpmc_capacity_is_next_power_of_two[of 5] by auto

text \<open>Capacity 0 (and one above \<open>2 ^ 63\<close>) gives an empty array, in which every ticket is outside.\<close>

lemma mpmc_capacity_0: "rounded_capacity 0 = 0" "\<not> mq_inside (MpmcQueue_ctor 0) t"
proof -
  have "bit (smear (- 1)) i = bit (- 1 :: 64 word) i" for i by (auto simp: bit_smear intro: exI[of _ 0])
  then have "smear (- 1) = - 1" by (simp add: bit_eq_iff)
  then show "rounded_capacity 0 = 0" by (simp add: rounded_capacity_def)
  then show "\<not> mq_inside (MpmcQueue_ctor 0) t" by (simp add: mq_inside_def MpmcQueue_ctor_def)
qed

text \<open>The pointer that \<open>tryPop\<close> returns names a slot it has already released: the next \<open>tryPush\<close>
  into a full queue overwrites the element.\<close>

lemma tryPop_pointer_is_overwritten:
  assumes "mq_tail s = mq_head s + mq_capacity s" "1 < mq_capacity s" "pow2 s"
  shows "\<exists>j t u. mq_tryPop s = Inr (Some j, t) \<and> mq_tryPush v t = Inr (True, u) \<and> nd_data (mq_queue u j) = Some v"
proof -
  obtain k where k: "k < 64" "mq_capacity s = 2 ^ k" using assms(3) by (auto simp: pow2_def)
  let ?C = "unat (mq_capacity s)"
  have C: "?C = 2 ^ k" "?C dvd 2 ^ 64" 
    using k le_imp_power_dvd[of k 64 "2 :: nat"] by (simp_all add: unat_2_power)
  have "unat (mq_tail s) mod ?C = (unat (mq_head s) + ?C) mod 2 ^ 64 mod ?C"
    by (simp add: assms(1) unat_word_ariths)
  also have "\<dots> = unat (mq_head s) mod ?C" using C(2) by (simp add: mod_mod_cancel)
  finally have j: "mq_tail s mod mq_capacity s = mq_head s mod mq_capacity s"
    by (simp add: word_unat_eq_iff unat_mod_distrib)
  have ne: "mq_capacity s \<noteq> 0" "mq_tail s \<noteq> mq_head s" using assms(1,2) by auto
  show ?thesis using ne j by (simp add: mq_tryPop_def mq_tryPush_def Let_def assms(1))
qed

end
