(* ===== verification/MemoryOrders.thy ===== *)
theory MemoryOrders
  imports Prelude
begin

text \<open>
  What the C++ memory model says of an interleaving whose accesses carry memory orders: which
  accesses happen before which, and which pairs race. The step relations of the lock-free
  structures interleave their accesses one after the other. That is what the program does when all
  its accesses are sequentially consistent, or when conflicting plain accesses are ordered by
  happens-before; here it is decided from the orders the source gives. A trace lists the accesses of
  all threads in the order of the interleaving: each load reads from the last write before it.
\<close>

section \<open>Accesses\<close>

text \<open>\<open>Plain\<close> is an access to an object that is not atomic. A failed \<open>compare_exchange\<close> is a load.\<close>

datatype mem_order = Plain | Relaxed | Acquire | Release | Acq_rel | Seq_cst

datatype 'l access =
  Access (acc_thread: nat) (acc_loc: 'l) (acc_reads: bool) (acc_writes: bool) (acc_order: mem_order)

abbreviation Load_acc :: "nat \<Rightarrow> 'l \<Rightarrow> mem_order \<Rightarrow> 'l access" where
  "Load_acc p l \<equiv> Access p l True False"

abbreviation Store_acc :: "nat \<Rightarrow> 'l \<Rightarrow> mem_order \<Rightarrow> 'l access" where
  "Store_acc p l \<equiv> Access p l False True"

abbreviation Rmw_acc :: "nat \<Rightarrow> 'l \<Rightarrow> mem_order \<Rightarrow> 'l access" where
  "Rmw_acc p l \<equiv> Access p l True True"

definition acquires :: "'l access \<Rightarrow> bool" where
  "acquires x \<longleftrightarrow> acc_reads x \<and> acc_order x \<in> {Acquire, Acq_rel, Seq_cst}"

definition releases :: "'l access \<Rightarrow> bool" where
  "releases x \<longleftrightarrow> acc_writes x \<and> acc_order x \<in> {Release, Acq_rel, Seq_cst}"

section \<open>Happens before\<close>

text \<open>A release write synchronizes with an acquire read of the same location that reads it or a later
  write of its release sequence: writes by the same thread and read-modify-writes continue it.\<close>

definition continues :: "'l access \<Rightarrow> 'l access \<Rightarrow> bool" where
  "continues x y \<longleftrightarrow> acc_thread y = acc_thread x \<or> acc_reads y"

definition synchronizes_with :: "'l access list \<Rightarrow> nat \<Rightarrow> nat \<Rightarrow> bool" where
  "synchronizes_with tr i j \<longleftrightarrow> i < j \<and> j < length tr \<and> releases (tr ! i) \<and> acquires (tr ! j)
     \<and> acc_loc (tr ! i) = acc_loc (tr ! j)
     \<and> (\<forall>k. i < k \<and> k < j \<and> acc_loc (tr ! k) = acc_loc (tr ! i) \<and> acc_writes (tr ! k) \<longrightarrow> continues (tr ! i) (tr ! k))"

definition sequenced_before :: "'l access list \<Rightarrow> nat \<Rightarrow> nat \<Rightarrow> bool" where
  "sequenced_before tr i j \<longleftrightarrow> i < j \<and> j < length tr \<and> acc_thread (tr ! i) = acc_thread (tr ! j)"

inductive happens_before :: "'l access list \<Rightarrow> nat \<Rightarrow> nat \<Rightarrow> bool" for tr :: "'l access list" where
  hb_sequenced: "sequenced_before tr i j \<Longrightarrow> happens_before tr i j"
| hb_synchronized: "synchronizes_with tr i j \<Longrightarrow> happens_before tr i j"
| hb_trans: "happens_before tr i j \<Longrightarrow> happens_before tr j k \<Longrightarrow> happens_before tr i k"

text \<open>Two accesses conflict when they touch the same location from different threads, one of them
  writes, and one of them is plain; without happens-before between them they are a data race, and
  the behaviour of the program is undefined.\<close>

definition conflicting :: "'l access \<Rightarrow> 'l access \<Rightarrow> bool" where
  "conflicting x y \<longleftrightarrow> acc_loc x = acc_loc y \<and> acc_thread x \<noteq> acc_thread y \<and> (acc_writes x \<or> acc_writes y)
     \<and> (acc_order x = Plain \<or> acc_order y = Plain)"

definition data_race :: "'l access list \<Rightarrow> nat \<Rightarrow> nat \<Rightarrow> bool" where
  "data_race tr i j \<longleftrightarrow> i < length tr \<and> j < length tr \<and> conflicting (tr ! i) (tr ! j)
     \<and> \<not> happens_before tr i j \<and> \<not> happens_before tr j i"

section \<open>When there is no happens-before\<close>

lemma happens_before_less: "happens_before tr i j \<Longrightarrow> i < j \<and> j < length tr"
  by (induction rule: happens_before.induct) (auto simp: sequenced_before_def synchronizes_with_def)

text \<open>What happens before an access of a thread reached it by an acquire of this thread.\<close>

lemma unacquired:
  assumes "happens_before tr i j" "acc_thread (tr ! i) \<noteq> p"
    and "\<And>k. m < k \<Longrightarrow> k < length tr \<Longrightarrow> acc_thread (tr ! k) = p \<Longrightarrow> \<not> acquires (tr ! k)" "m \<le> i"
  shows "acc_thread (tr ! j) \<noteq> p"
  using assms
proof (induction rule: happens_before.induct)
  case (hb_trans i j k)
  have "i < j" using happens_before_less[OF hb_trans.hyps(1)] by simp
  with hb_trans.IH hb_trans.prems show ?case by simp
qed (auto simp: sequenced_before_def synchronizes_with_def)

lemma race_without_acquire:
  assumes "i < j" "j < length tr" "conflicting (tr ! i) (tr ! j)"
    and "\<And>k. i < k \<Longrightarrow> k < length tr \<Longrightarrow> acc_thread (tr ! k) = acc_thread (tr ! j) \<Longrightarrow> \<not> acquires (tr ! k)"
  shows "data_race tr i j"
proof -
  have "\<not> happens_before tr i j"
    using unacquired[of tr i j "acc_thread (tr ! j)" i] assms(3,4) by (auto simp: conflicting_def)
  moreover have "\<not> happens_before tr j i" using happens_before_less[of tr j i] assms(1) by auto
  ultimately show ?thesis using assms(1-3) by (simp add: data_race_def)
qed

text \<open>With a release store after the one access and an acquire load of it before the other there is
  none: this is what a lock-free structure has to provide.\<close>

lemma message_passing:
  assumes "sequenced_before tr i r" "synchronizes_with tr r a" "sequenced_before tr a j"
  shows "\<not> data_race tr i j"
proof -
  have "happens_before tr i j"
    using assms by (blast intro: hb_sequenced hb_synchronized hb_trans)
  then show ?thesis by (simp add: data_race_def)
qed

end
