(* ===== verification/MpmcRaces.thy ===== *)
theory MpmcRaces
  imports MpmcProps MemoryOrders
begin

text \<open>
  The memory orders of \<open>push\<close> and \<open>pop\<close> in \<open>lockfreequeue_maybetrash.h\<close>: the accesses of each step
  of \<open>mpmc_step\<close> with the orders the source gives them, and the data races that follow.
\<close>

section \<open>The accesses of a step\<close>

datatype mpmc_loc = ML_tail | ML_head | ML_node_tail "64 word" | ML_node_head "64 word" | ML_data "64 word"

text \<open>Every step is one access to shared memory of the thread whose place in the program changes;
  \<open>c\<close> is where it was, \<open>d\<close> where it is afterwards, and \<open>sl\<close> takes a ticket to its slot. Only a
  \<open>compare_exchange\<close> that succeeds writes the cursor.\<close>

fun mq_access :: "(64 word \<Rightarrow> 64 word) \<Rightarrow> nat \<Rightarrow> 'a mpmc_pc \<Rightarrow> 'a mpmc_pc \<Rightarrow> mpmc_loc access list" where
  "mq_access sl p Mq_idle (Push_check v t) = [Load_acc p ML_tail Relaxed]"
| "mq_access sl p Mq_idle (Pop_check h) = [Load_acc p ML_head Relaxed]"
| "mq_access sl p (Push_check v t) d = [Load_acc p (ML_node_tail (sl t)) Relaxed]"
| "mq_access sl p (Push_cas v t) (Push_write w u) = [Rmw_acc p ML_tail Relaxed]"
| "mq_access sl p (Push_cas v t) d = [Load_acc p ML_tail Relaxed]"
| "mq_access sl p (Push_write v t) d = [Store_acc p (ML_data (sl t)) Plain]"
| "mq_access sl p (Push_publish v t) d = [Store_acc p (ML_node_head (sl t)) Release]"
| "mq_access sl p (Pop_check h) d = [Load_acc p (ML_node_head (sl h)) Relaxed]"
| "mq_access sl p (Pop_cas h) (Pop_read i) = [Rmw_acc p ML_head Relaxed]"
| "mq_access sl p (Pop_cas h) d = [Load_acc p ML_head Relaxed]"
| "mq_access sl p (Pop_read h) d = [Load_acc p (ML_data (sl h)) Plain]"
| "mq_access sl p (Pop_destroy h x) d = [Store_acc p (ML_data (sl h)) Plain]"
| "mq_access sl p (Pop_release h x) d = [Store_acc p (ML_node_tail (sl h)) Release]"
| "mq_access sl p c d = []"

definition mq_moves :: "nat \<Rightarrow> 'a MpmcThreads \<Rightarrow> 'a MpmcThreads \<Rightarrow> bool" where
  "mq_moves p s t \<longleftrightarrow> mq_pc t p \<noteq> mq_pc s p \<and> (\<forall>q. q \<noteq> p \<longrightarrow> mq_pc t q = mq_pc s q)"

text \<open>Runs with the list of their accesses.\<close>

inductive mpmc_traced :: "64 word \<Rightarrow> mpmc_loc access list \<Rightarrow> 'a MpmcThreads \<Rightarrow> bool" for n :: "64 word" where
  mt_init: "mpmc_traced n [] (MpmcQueue_start n)"
| mt_step: "mpmc_traced n tr s \<Longrightarrow> mpmc_step s e t \<Longrightarrow> mq_moves p s t
    \<Longrightarrow> mpmc_traced n (tr @ mq_access (mq_slot s) p (mq_pc s p) (mq_pc t p)) t"

text \<open>Every run has such a list, and every such list belongs to a run.\<close>

lemma mq_step_moves: "mpmc_step s e t \<Longrightarrow> \<exists>p. mq_moves p s t"
  by (induction rule: mpmc_step.induct) (auto simp: mq_moves_def)

lemma mpmc_run_is_traced: "mpmc_run n es s \<Longrightarrow> \<exists>tr. mpmc_traced n tr s"
proof (induction rule: mpmc_run.induct)
  case (mq_next es s e t)
  then show ?case using mq_step_moves[OF mq_next.hyps(2)] mt_step by blast
qed (use mt_init in blast)

lemma mpmc_traced_is_run: "mpmc_traced n tr s \<Longrightarrow> \<exists>es. mpmc_run n es s"
proof (induction rule: mpmc_traced.induct)
  case (mt_step tr s e t p)
  then show ?case using mq_next by blast
qed (use mq_init in blast)

section \<open>Nothing is acquired\<close>

lemma no_acquire:
  assumes "mpmc_traced n tr s"
  shows "\<forall>x \<in> set tr. \<not> acquires x"
  using assms
proof (induction rule: mpmc_traced.induct)
  case (mt_step tr s e t p)
  have "\<forall>x \<in> set (mq_access (mq_slot s) p c d). \<not> acquires x" for c d
    by (induction "mq_slot s" p c d rule: mq_access.induct) (auto simp: acquires_def)
  then show ?case using mt_step by auto
qed simp

text \<open>Threads that touch the data of a slot one after the other always race, whatever they did before.\<close>

theorem conflicting_accesses_race:
  assumes "mpmc_traced n tr s" "i < j" "j < length tr" "conflicting (tr ! i) (tr ! j)"
  shows "data_race tr i j"
  by (rule race_without_acquire[OF assms(2-4)]) (use no_acquire[OF assms(1)] in auto)

section \<open>Where an object comes from\<close>

text \<open>An object in a slot was constructed by some thread, and nobody wrote its memory since.\<close>

definition constructed_at :: "mpmc_loc access list \<Rightarrow> 64 word \<Rightarrow> nat \<Rightarrow> bool" where
  "constructed_at tr k i \<longleftrightarrow> i < length tr \<and> (\<exists>p. tr ! i = Store_acc p (ML_data k) Plain)
     \<and> (\<forall>j. i < j \<and> j < length tr \<and> acc_loc (tr ! j) = ML_data k \<longrightarrow> \<not> acc_writes (tr ! j))"

lemma constructed_append:
  "constructed_at tr k i \<Longrightarrow> \<forall>x \<in> set xs. acc_loc x = ML_data k \<longrightarrow> \<not> acc_writes x \<Longrightarrow> constructed_at (tr @ xs) k i"
  by (auto simp: constructed_at_def nth_append split: if_splits)

lemma constructed_last: "constructed_at (tr @ [Store_acc p (ML_data k) Plain]) k (length tr)"
  by (auto simp: constructed_at_def nth_append)

lemma step_data:
  assumes "mpmc_step s e t" "mq_moves p s t" "nd_data (mq_queue t k) \<noteq> None"
  shows "(\<exists>v u. mq_pc s p = Push_write v u \<and> mq_slot s u = k)
    \<or> nd_data (mq_queue s k) \<noteq> None
      \<and> (\<forall>x \<in> set (mq_access (mq_slot s) p (mq_pc s p) (mq_pc t p)). acc_loc x = ML_data k \<longrightarrow> \<not> acc_writes x)"
  using assms by (induction rule: mpmc_step.induct) (auto simp: mq_moves_def mq_node_def split: if_splits)

lemma data_has_a_constructor:
  assumes "mpmc_traced n tr s" "nd_data (mq_queue s k) \<noteq> None"
  shows "\<exists>i. constructed_at tr k i"
  using assms
proof (induction rule: mpmc_traced.induct)
  case mt_init
  then show ?case by (simp add: MpmcQueue_start_def MpmcQueue_ctor_def MpmcQueue.defs)
next
  case (mt_step tr s e t p)
  from step_data[OF mt_step.hyps(2,3) mt_step.prems] show ?case
  proof (elim disjE exE conjE)
    fix v u
    assume "mq_pc s p = Push_write v u" "mq_slot s u = k"
    then show ?thesis using constructed_last[of tr p k] by auto
  qed (use mt_step.IH constructed_append in blast)
qed

section \<open>Properties\<close>

text \<open>C24: The queue hands over its elements without synchronisation, so that every hand-over between two
  threads is a data race. Whenever a consumer is about to read the object in its slot, the object
  was constructed by an access of the run after which nobody wrote there, and the read can come next;
  if another thread constructed it, the two are a data race, in every interleaving and whatever the
  threads did before with the queue: a producer publishes with \<open>release\<close>, but \<open>push\<close> and \<open>pop\<close> load
  \<open>tail\<close> and \<open>head\<close> of the node, and exchange the cursors, with \<open>relaxed\<close>, so nothing is ever acquired.
  So what the interleavings show of this queue (\<open>mpmc_delivers_each_element_once\<close>) the source does not
  guarantee. (The threads have no other synchronisation after their start.)\<close>

theorem mpmc_hands_over_with_a_race:
  assumes "mpmc_traced n tr s" "mq_pc s q = Pop_read h" "nd_data (mq_node s h) = Some x"
  shows "\<exists>i t. constructed_at tr (mq_slot s h) i
    \<and> mpmc_step s Quiet t \<and> mpmc_traced n (tr @ [Load_acc q (ML_data (mq_slot s h)) Plain]) t
    \<and> (acc_thread (tr ! i) \<noteq> q \<longrightarrow> data_race (tr @ [Load_acc q (ML_data (mq_slot s h)) Plain]) i (length tr))"
proof -
  let ?r = "Load_acc q (ML_data (mq_slot s h)) Plain" and ?t = "goes q (Pop_destroy h x) s"
  obtain i where i: "constructed_at tr (mq_slot s h) i"
    using data_has_a_constructor[OF assms(1)] assms(3) by (force simp: mq_node_def)
  have step: "mpmc_step s Quiet ?t" by (rule pop_read[OF assms(2,3)])
  have "mq_moves q s ?t" using assms(2) by (simp add: mq_moves_def)
  from mt_step[OF assms(1) step this] have t: "mpmc_traced n (tr @ [?r]) ?t" using assms(2) by simp
  obtain p where p: "tr ! i = Store_acc p (ML_data (mq_slot s h)) Plain" "i < length tr"
    using i by (auto simp: constructed_at_def)
  then have "conflicting ((tr @ [?r]) ! i) ((tr @ [?r]) ! length tr)" if "acc_thread (tr ! i) \<noteq> q"
    using that by (simp add: conflicting_def nth_append)
  then have "data_race (tr @ [?r]) i (length tr)" if "acc_thread (tr ! i) \<noteq> q"
    using conflicting_accesses_race[OF t, of i "length tr"] p(2) that by simp
  then show ?thesis using i step t by blast
qed

text \<open>Thread 0 pushes 7, thread 2 has claimed the element.\<close>

definition handed_over :: "mpmc_loc access list" where
  "handed_over = [Load_acc 0 ML_tail Relaxed, Load_acc 0 (ML_node_tail 0) Relaxed, Rmw_acc 0 ML_tail Relaxed,
     Store_acc 0 (ML_data 0) Plain, Store_acc 0 (ML_node_head 0) Release,
     Load_acc 2 ML_head Relaxed, Load_acc 2 (ML_node_head 0) Relaxed, Rmw_acc 2 ML_head Relaxed]"

lemma q2_moves: "mq_moves 0 (q2 tt hh d ndt ndh c0 c1) (q2 tt' hh' d' ndt' ndh' c0' c1) \<longleftrightarrow> c0' \<noteq> c0"
  "mq_moves 2 (q2 tt hh d ndt ndh c0 c1) (q2 tt' hh' d' ndt' ndh' c0 c1') \<longleftrightarrow> c1' \<noteq> c1"
  by (auto simp: mq_moves_def)

lemma traced_q2: "mpmc_traced 2 handed_over (q2 1 1 (Some 7) 0 0 Mq_idle (Pop_read 0))"
proof -
  have "mpmc_traced 2 [] (q2 0 0 None 0 (- 1) Mq_idle Mq_idle)"
    unfolding start_q2[symmetric] by (rule mt_init)
  from mt_step[OF this push_call[of _ 0 7], of 0]
  have "mpmc_traced 2 (take 1 handed_over) (q2 0 0 None 0 (- 1) (Push_check 7 0) Mq_idle)" by (simp add: q2_moves handed_over_def)
  from mt_step[OF this push_ready[of _ 0 7 0], of 0]
  have "mpmc_traced 2 (take 2 handed_over) (q2 0 0 None 0 (- 1) (Push_cas 7 0) Mq_idle)" by (simp add: q2_moves handed_over_def)
  from mt_step[OF this push_claim[of _ 0 7 0], of 0]
  have "mpmc_traced 2 (take 3 handed_over) (q2 1 0 None 0 (- 1) (Push_write 7 0) Mq_idle)" by (simp add: q2_moves handed_over_def)
  from mt_step[OF this push_write[of _ 0 7 0], of 0]
  have "mpmc_traced 2 (take 4 handed_over) (q2 1 0 (Some 7) 0 (- 1) (Push_publish 7 0) Mq_idle)" by (simp add: q2_moves handed_over_def)
  from mt_step[OF this push_publish[of _ 0 7 0], of 0]
  have "mpmc_traced 2 (take 5 handed_over) (q2 1 0 (Some 7) 0 0 Mq_idle Mq_idle)" by (simp add: q2_moves handed_over_def)
  from mt_step[OF this pop_call[of _ 2], of 2]
  have "mpmc_traced 2 (take 6 handed_over) (q2 1 0 (Some 7) 0 0 Mq_idle (Pop_check 0))" by (simp add: q2_moves handed_over_def)
  from mt_step[OF this pop_ready[of _ 2 0], of 2]
  have "mpmc_traced 2 (take 7 handed_over) (q2 1 0 (Some 7) 0 0 Mq_idle (Pop_cas 0))" by (simp add: q2_moves handed_over_def)
  from mt_step[OF this pop_claim[of _ 2 0], of 2] show ?thesis by (simp add: q2_moves handed_over_def)
qed

theorem mpmc_hands_over_with_a_race_witness:
  "\<exists>t. mpmc_traced 2 (handed_over @ [Load_acc 2 (ML_data 0) Plain]) (t :: nat MpmcThreads)
     \<and> data_race (handed_over @ [Load_acc 2 (ML_data 0) Plain]) 3 8"
proof -
  have l: "length handed_over = 8" by (simp add: handed_over_def)
  obtain i t where i: "constructed_at handed_over 0 i" "mpmc_traced 2 (handed_over @ [Load_acc 2 (ML_data 0) Plain]) (t :: nat MpmcThreads)"
    and race: "acc_thread (handed_over ! i) \<noteq> 2 \<longrightarrow> data_race (handed_over @ [Load_acc 2 (ML_data 0) Plain]) i 8"
    using mpmc_hands_over_with_a_race[OF traced_q2, of 2 0 7] by (auto simp: l)
  have "i < 8" using i(1) by (simp add: constructed_at_def l)
  then have "i \<in> set [0, 1, 2, 3, 4, 5, 6, 7]" by auto
  then have "i = 3" using i(1) by (auto simp: constructed_at_def handed_over_def)
  moreover have "acc_thread (handed_over ! 3) \<noteq> 2" by (simp add: handed_over_def)
  ultimately show ?thesis using i(2) race by auto
qed

end
