(* ===== verification/OMOrder.thy ===== *)
theory OMOrder
  imports Types
begin

text \<open>\<open>trading/strategy/om_order.h\<close>: the strategy's own order, one for each instrument and side.\<close>

datatype OMOrderState =
  OMS_INVALID | PENDING_NEW | LIVE | PENDING_CANCEL | DEAD | OMS_other "8 word"

fun OMOrderStateToString :: "OMOrderState \<Rightarrow> string" where
  "OMOrderStateToString PENDING_NEW = ''PENDING_NEW''"
| "OMOrderStateToString LIVE = ''LIVE''"
| "OMOrderStateToString PENDING_CANCEL = ''PENDING_CANCEL''"
| "OMOrderStateToString DEAD = ''DEAD''"
| "OMOrderStateToString OMS_INVALID = ''INVALID''"
| "OMOrderStateToString (OMS_other b) = ''UNKNOWN''"

record OMOrder =
  om_ticker_id :: TickerId
  om_order_id :: OrderId
  om_side :: Side
  om_price :: Price
  om_qty :: Qty
  order_state :: OMOrderState

definition OMOrder_default :: OMOrder where
  "OMOrder_default =
     \<lparr>om_ticker_id = TickerId_INVALID, om_order_id = OrderId_INVALID, om_side = Side_INVALID,
      om_price = Price_INVALID, om_qty = Qty_INVALID, order_state = OMS_INVALID\<rparr>"

definition OMOrder_toString :: "OMOrder \<Rightarrow> string" where
  "OMOrder_toString r =
     ''OMOrder'' @ ''[''
     @ ''tid:'' @ TickerIdToString (om_ticker_id r) @ '' ''
     @ ''oid:'' @ orderIdToString (om_order_id r) @ '' ''
     @ ''side:'' @ sideToString (om_side r) @ '' ''
     @ ''price:'' @ priceToString (om_price r) @ '' ''
     @ ''qty:'' @ qtyToString (om_qty r) @ '' ''
     @ ''state:'' @ OMOrderStateToString (order_state r)
     @ '']''"

end
