(* ===== verification/PositionKeeper.thy ===== *)
theory PositionKeeper
  imports MarketOrder Messages Logging
begin

text \<open>
  \<open>trading/strategy/position_keeper.h\<close>: the client's position in each instrument, its volume
  weighted entry prices and its profit. Prices and quantities are unsigned words, profits
  are \<open>double\<close>s, positions 32-bit signed numbers (read with \<open>sint\<close>); a product or an absolute
  value of \<open>int\<close>s that leaves the type is undefined. The log calls match their formats.
\<close>

section \<open>Arithmetic of \<open>int\<close>\<close>

definition int32 :: "int \<Rightarrow> int res" where
  "int32 i = (if - (2 ^ 31) \<le> i \<and> i < 2 ^ 31 then Inr i else Inl (Undefined ''signed overflow''))"

lemma int32_ok [simp]: "- (2 ^ 31) \<le> i \<Longrightarrow> i < 2 ^ 31 \<Longrightarrow> int32 i = Inr i"
  by (simp add: int32_def)

definition dbl_of_word :: "'a::len word \<Rightarrow> double" where
  "dbl_of_word w = dbl_of_int (uint w)"

section \<open>The position in one instrument\<close>

text \<open>\<open>pi_bbo\<close> names the book whose best bid and offer the pointer leads to.\<close>

record PositionInfo =
  position :: "32 word"
  real_pnl :: double
  unreal_pnl :: double
  total_pnl :: double
  open_vwap :: "nat \<Rightarrow> double"
  volume :: Qty
  pi_bbo :: "nat option"

text \<open>The array \<open>open_vwap_\<close> of four elements has no initialiser.\<close>

definition PositionInfo_default :: "(nat \<Rightarrow> double) \<Rightarrow> PositionInfo" where
  "PositionInfo_default raw =
     \<lparr>position = 0, real_pnl = Fin 0, unreal_pnl = Fin 0, total_pnl = Fin 0, open_vwap = raw,
      volume = 0, pi_bbo = None\<rparr>"

definition PositionInfo_toString ::
  "(double \<Rightarrow> string) \<Rightarrow> (nat \<Rightarrow> BBO) \<Rightarrow> PositionInfo \<Rightarrow> string res" where
  "PositionInfo_toString fmt bbos p =
     bindr (int32 \<bar>sint (position p)\<bar>) (\<lambda>n.
     let vwap = (\<lambda>side. if position p = 0 then Fin 0
                        else dbl_div (open_vwap p (sideToIndex side)) (dbl_of_int n))
     in Inr (''Position{''
        @ ''pos:'' @ int_to_string (sint (position p))
        @ ''u-pnl:'' @ fmt (unreal_pnl p)
        @ ''r-pnl:'' @ fmt (real_pnl p)
        @ ''t-pnl:'' @ fmt (total_pnl p)
        @ ''vol:'' @ qtyToString (volume p)
        @ ''vwaps:['' @ fmt (vwap BUY)
        @ ''X'' @ fmt (vwap SELL)
        @ '']''
        @ (case pi_bbo p of Some b \<Rightarrow> BBO_toString (bbos b) | None \<Rightarrow> []) @ ''}''))"

text \<open>The profit not yet realised, at a price; the position is not zero.\<close>

definition unreal_at :: "double \<Rightarrow> PositionInfo \<Rightarrow> double res" where
  "unreal_at price p =
     bindr (int32 \<bar>sint (position p)\<bar>) (\<lambda>n.
     Inr (if sint (position p) > 0
          then dbl_mul (dbl_sub price (dbl_div (open_vwap p (sideToIndex BUY)) (dbl_of_int n))) (dbl_of_int n)
          else dbl_mul (dbl_sub (dbl_div (open_vwap p (sideToIndex SELL)) (dbl_of_int n)) price) (dbl_of_int n)))"

text \<open>\<open>side_value\<close> is the index of the side, not its sign; it multiplies at 64 bits.\<close>

definition bump_position :: "Side \<Rightarrow> Qty \<Rightarrow> 32 word \<Rightarrow> 32 word" where
  "bump_position side qty pos =
     (let side_value = (of_nat (sideToIndex side) :: 64 word)
      in ucast ((scast pos :: 64 word) + ucast qty * side_value))"

text \<open>The branch for a fill against the position. The price times the absolute position is a product of
  64-bit words, which wraps before it is converted; the other products are of \<open>double\<close>s.\<close>

definition reduce_position ::
  "MEClientResponse \<Rightarrow> 32 word \<Rightarrow> PositionInfo \<Rightarrow> PositionInfo res" where
  "reduce_position r old p =
     (let side_index = sideToIndex (rs_side r);
          opp_side_index = sideToIndex (if rs_side r = BUY then SELL else BUY);
          price = dbl_of_word (rs_price r)
      in bindr (int32 \<bar>sint old\<bar>) (\<lambda>n_old.
         bindr (int32 \<bar>sint (position p)\<bar>) (\<lambda>n.
         let opp_side_vwap = dbl_div (open_vwap p opp_side_index) (dbl_of_int n_old);
             p = p\<lparr>open_vwap := (open_vwap p)(opp_side_index := dbl_mul opp_side_vwap (dbl_of_int n))\<rparr>;
             p = p\<lparr>real_pnl := dbl_add (real_pnl p)
                     (dbl_mul (dbl_mul (dbl_of_int (min (sint (rs_exec_qty r)) n_old))
                                       (dbl_sub opp_side_vwap price))
                              (dbl_of_int (sideToValue (rs_side r))))\<rparr>
         in bindr (int32 (sint (position p) * sint old)) (\<lambda>prod.
            bindr (if prod < 0
                   then bindr (sub_idx 4 side_index (\<lambda>i. i)) (\<lambda>i.
                        Inr (p\<lparr>open_vwap := (open_vwap p)(i := dbl_of_word (rs_price r * of_int n),
                                                        opp_side_index := Fin 0)\<rparr>))
                   else Inr p) (\<lambda>p.
            bindr (if position p = 0
                   then Inr (p\<lparr>open_vwap := (open_vwap p)(sideToIndex BUY := Fin 0, sideToIndex SELL := Fin 0),
                               unreal_pnl := Fin 0\<rparr>)
                   else bindr (unreal_at price p) (\<lambda>u. Inr (p\<lparr>unreal_pnl := u\<rparr>))) (\<lambda>p.
            Inr (p\<lparr>total_pnl := dbl_add (unreal_pnl p) (real_pnl p)\<rparr>)))))))"

definition PositionInfo_addFill :: "MEClientResponse \<Rightarrow> PositionInfo \<Rightarrow> PositionInfo res" where
  "PositionInfo_addFill r p =
     (let old_position = position p;
          p = p\<lparr>position := bump_position (rs_side r) (rs_exec_qty r) (position p),
                volume := volume p + rs_exec_qty r\<rparr>
      in bindr (int32 (sint old_position * sideToValue (rs_side r))) (\<lambda>prod.
         if prod \<ge> 0
         then bindr (sub_idx 4 (sideToIndex (rs_side r)) (open_vwap p)) (\<lambda>v.
              Inr (p\<lparr>open_vwap := (open_vwap p)(sideToIndex (rs_side r) :=
                       dbl_add v (dbl_of_word (rs_price r * ucast (rs_exec_qty r))))\<rparr>))
         else reduce_position r old_position p))"

definition PositionInfo_updateBBO :: "nat \<Rightarrow> BBO \<Rightarrow> PositionInfo \<Rightarrow> PositionInfo res" where
  "PositionInfo_updateBBO book b p =
     (let p = p\<lparr>pi_bbo := Some book\<rparr>
      in if position p \<noteq> 0 \<and> bbo_valid b
         then bindr (unreal_at (dbl_mul (dbl_of_word (bid_price b + ask_price b)) (Fin (1 / 2))) p) (\<lambda>u.
              let p = p\<lparr>unreal_pnl := u\<rparr>
              in Inr (p\<lparr>total_pnl := dbl_add (unreal_pnl p) (real_pnl p)\<rparr>))
         else Inr p)"

section \<open>All instruments\<close>

record PositionKeeper =
  ticker_position :: "nat \<Rightarrow> PositionInfo"

definition PositionKeeper_ctor :: "(nat \<Rightarrow> nat \<Rightarrow> double) \<Rightarrow> PositionKeeper" where
  "PositionKeeper_ctor raw = \<lparr>ticker_position = (\<lambda>i. PositionInfo_default (raw i))\<rparr>"

definition getPositionInfo :: "TickerId \<Rightarrow> PositionKeeper \<Rightarrow> PositionInfo res" where
  "getPositionInfo tid k = at_idx ME_MAX_TICKERS (unat tid) (ticker_position k)"

definition PositionKeeper_toString ::
  "(double \<Rightarrow> string) \<Rightarrow> (nat \<Rightarrow> BBO) \<Rightarrow> PositionKeeper \<Rightarrow> string res" where
  "PositionKeeper_toString fmt bbos k =
     bindr (fold_res (\<lambda>i (text, pnl, vol).
              bindr (PositionInfo_toString fmt bbos (ticker_position k i)) (\<lambda>s.
              Inr (text @ ''TickerId:'' @ TickerIdToString (of_nat i) @ '' '' @ s @ [CHR 0x0A],
                   dbl_add pnl (total_pnl (ticker_position k i)),
                   vol + volume (ticker_position k i))))
              [0..<ME_MAX_TICKERS] ([], Fin 0, 0 :: Qty)) (\<lambda>(text, pnl, vol).
     Inr (text @ ''Total PnL:'' @ fmt pnl @ '' Vol:'' @ nat_to_string (unat vol) @ [CHR 0x0A]))"

definition at_ticker ::
  "TickerId \<Rightarrow> (PositionInfo \<Rightarrow> PositionInfo res) \<Rightarrow> PositionKeeper \<Rightarrow> PositionKeeper res" where
  "at_ticker tid f k =
     bindr (getPositionInfo tid k) (\<lambda>p. bindr (f p) (\<lambda>p.
     Inr (k\<lparr>ticker_position := (ticker_position k)(unat tid := p)\<rparr>)))"

definition PositionKeeper_addFill :: "MEClientResponse \<Rightarrow> PositionKeeper \<Rightarrow> PositionKeeper res" where
  "PositionKeeper_addFill r = at_ticker (rs_ticker_id r) (PositionInfo_addFill r)"

definition PositionKeeper_updateBBO :: "TickerId \<Rightarrow> BBO \<Rightarrow> PositionKeeper \<Rightarrow> PositionKeeper res" where
  "PositionKeeper_updateBBO tid b = at_ticker tid (PositionInfo_updateBBO (unat tid) b)"

section \<open>What a fill does to the position\<close>

text \<open>Narrowing to 32 bits commutes with the arithmetic done at 64 bits.\<close>

lemma narrow_of_int: "(ucast (word_of_int i :: 64 word) :: 32 word) = word_of_int i"
  unfolding unsigned_of_int by (simp add: word_of_int_eq_iff)

lemma narrow_widen: "(ucast (scast (w :: 32 word) :: 64 word) :: 32 word) = w"
  "(ucast (ucast (w :: 32 word) :: 64 word) :: 32 word) = w"
proof -
  have "(scast w :: 64 word) = word_of_int (sint w)" by simp
  then have "(ucast (scast w :: 64 word) :: 32 word) = word_of_int (sint w)"
    by (metis narrow_of_int)
  then show "(ucast (scast w :: 64 word) :: 32 word) = w" by simp
  have "(ucast w :: 64 word) = word_of_int (uint w)" by simp
  then have "(ucast (ucast w :: 64 word) :: 32 word) = word_of_int (uint w)"
    by (metis narrow_of_int)
  then show "(ucast (ucast w :: 64 word) :: 32 word) = w" by simp
qed

lemma narrow_ring: fixes a b :: "64 word"
  shows "(ucast (a + b) :: 32 word) = ucast a + ucast b"
    and "(ucast (a * b) :: 32 word) = ucast a * ucast b"
proof -
  obtain i j where "a = word_of_int i" "b = word_of_int j"
    using word_of_int_uint[of a, symmetric] word_of_int_uint[of b, symmetric] by blast
  then show "(ucast (a + b) :: 32 word) = ucast a + ucast b" "(ucast (a * b) :: 32 word) = ucast a * ucast b"
    using narrow_of_int[of i] narrow_of_int[of j] narrow_of_int[of "i + j"] narrow_of_int[of "i * j"]
    by (simp_all only: of_int_add of_int_mult)
qed

lemma bump_position_eq: "bump_position side qty pos = pos + qty * ucast (of_nat (sideToIndex side) :: 64 word)"
  by (simp add: bump_position_def Let_def narrow_ring narrow_widen)

end
