(* ===== verification/RiskManager.thy ===== *)
theory RiskManager
  imports PositionKeeper
begin

text \<open>
  \<open>trading/strategy/risk_manager.h\<close> and \<open>risk_manager.cpp\<close>: the check an order passes before it
  is created. A \<open>RiskInfo\<close> points to the position of its instrument in the position keeper,
  so the check is a function of the keeper's current state.
\<close>

datatype RiskCheckResult =
  RCR_INVALID | ORDER_TOO_LARGE | POSITION_TOO_LARGE | LOSS_TOO_LARGE | ALLOWED | RCR_other "8 word"

fun riskCheckResultToString :: "RiskCheckResult \<Rightarrow> string" where
  "riskCheckResultToString RCR_INVALID = ''INVALID''"
| "riskCheckResultToString ORDER_TOO_LARGE = ''ORDER_TOO_LARGE''"
| "riskCheckResultToString POSITION_TOO_LARGE = ''POSITION_TOO_LARGE''"
| "riskCheckResultToString LOSS_TOO_LARGE = ''LOSS_TOO_LARGE''"
| "riskCheckResultToString ALLOWED = ''ALLOWED''"
| "riskCheckResultToString (RCR_other b) = []"

record RiskInfo =
  position_info :: "nat option"
  ri_cfg :: RiskCfg

definition RiskInfo_default :: RiskInfo where
  "RiskInfo_default = \<lparr>position_info = None, ri_cfg = RiskCfg_default\<rparr>"

definition RiskInfo_toString ::
  "(double \<Rightarrow> string) \<Rightarrow> (nat \<Rightarrow> BBO) \<Rightarrow> PositionKeeper \<Rightarrow> RiskInfo \<Rightarrow> string res" where
  "RiskInfo_toString fmt bbos k i =
     bindr (deref (position_info i)) (\<lambda>t.
     bindr (PositionInfo_toString fmt bbos (ticker_position k t)) (\<lambda>s.
     Inr (''RiskInfo'' @ ''['' @ ''pos:'' @ s @ '' '' @ RiskCfg_toString fmt (ri_cfg i) @ '']'')))"

text \<open>The quantity is read as a signed number; product, sum and absolute value are \<open>int\<close>s.\<close>

definition RiskInfo_checkPreTradeRisk ::
  "PositionKeeper \<Rightarrow> RiskInfo \<Rightarrow> Side \<Rightarrow> Qty \<Rightarrow> RiskCheckResult res" where
  "RiskInfo_checkPreTradeRisk k i side qty =
     (if qty > max_order_size (ri_cfg i) then Inr ORDER_TOO_LARGE
      else bindr (deref (position_info i)) (\<lambda>t.
           let p = ticker_position k t
           in bindr (int32 (sideToValue side * sint qty)) (\<lambda>d.
              bindr (int32 (sint (position p) + d)) (\<lambda>n.
              bindr (int32 \<bar>n\<bar>) (\<lambda>n.
              Inr (if n > sint (max_position (ri_cfg i)) then POSITION_TOO_LARGE
                   else if dbl_less (total_pnl p) (max_loss (ri_cfg i)) then LOSS_TOO_LARGE
                   else ALLOWED))))))"

record RiskManager =
  ticker_risk :: "nat \<Rightarrow> RiskInfo"

definition RiskManager_ctor :: "(nat \<Rightarrow> TradeEngineCfg) \<Rightarrow> RiskManager" where
  "RiskManager_ctor ticker_cfg =
     \<lparr>ticker_risk = (\<lambda>i. \<lparr>position_info = Some i, ri_cfg = risk_cfg (ticker_cfg i)\<rparr>)\<rparr>"

definition checkPreTradeRisk ::
  "PositionKeeper \<Rightarrow> TickerId \<Rightarrow> Side \<Rightarrow> Qty \<Rightarrow> RiskManager \<Rightarrow> RiskCheckResult res" where
  "checkPreTradeRisk k tid side qty rm =
     bindr (at_idx ME_MAX_TICKERS (unat tid) (ticker_risk rm)) (\<lambda>i.
     RiskInfo_checkPreTradeRisk k i side qty)"

section \<open>What the check allows\<close>

text \<open>The position after the order, as the check computes it: no overflow, and inside the limit.\<close>

lemma risk_allowed:
  assumes "checkPreTradeRisk k tid side qty (RiskManager_ctor cfg) = Inr ALLOWED"
  defines "c \<equiv> risk_cfg (cfg (unat tid))" and "p \<equiv> ticker_position k (unat tid)"
  shows "unat tid < ME_MAX_TICKERS" and "qty \<le> max_order_size c"
    and "\<bar>sint (position p) + sideToValue side * sint qty\<bar> \<le> sint (max_position c)"
    and "\<not> dbl_less (total_pnl p) (max_loss c)"
proof -
  have t: "unat tid < ME_MAX_TICKERS"
    using assms(1) by (auto simp: checkPreTradeRisk_def at_idx_eq_Inr elim: bindr_InrE)
  then have "RiskInfo_checkPreTradeRisk k \<lparr>position_info = Some (unat tid), ri_cfg = c\<rparr> side qty = Inr ALLOWED"
    using assms(1) by (simp add: checkPreTradeRisk_def RiskManager_ctor_def c_def)
  then show "unat tid < ME_MAX_TICKERS" and "qty \<le> max_order_size c"
    and "\<bar>sint (position p) + sideToValue side * sint qty\<bar> \<le> sint (max_position c)"
    and "\<not> dbl_less (total_pnl p) (max_loss c)"
    using t by (auto simp: RiskInfo_checkPreTradeRisk_def p_def int32_def Let_def
        split: if_splits elim!: bindr_InrE)
qed

end
