(* ===== verification/OrderManager.thy ===== *)
theory OrderManager
  imports OMOrder RiskManager Messages
begin

text \<open>
  \<open>trading/strategy/order_manager.h\<close> and \<open>order_manager.cpp\<close>: at most one order per instrument
  and side, moved to where the algorithm wants it. An \<open>OMOrder *\<close> is the place of the order in
  the table. The trade engine is reached through \<open>sendClientRequest\<close> and \<open>clientId\<close>: the first
  pushes on the outgoing queue, which is passed along, the second is the parameter \<open>cid\<close>. The
  log calls match their formats.
\<close>

record OrderManager =
  ticker_side_order :: "nat \<Rightarrow> nat \<Rightarrow> OMOrder"
  next_order_id :: OrderId

definition OrderManager_ctor :: OrderManager where
  "OrderManager_ctor = \<lparr>ticker_side_order = (\<lambda>_ _. OMOrder_default), next_order_id = 1\<rparr>"

type_synonym slot = "nat \<times> nat"

definition order_of :: "OrderManager \<Rightarrow> slot \<Rightarrow> OMOrder" where
  "order_of om s = ticker_side_order om (fst s) (snd s)"

definition set_order :: "slot \<Rightarrow> OMOrder \<Rightarrow> OrderManager \<Rightarrow> OrderManager" where
  "set_order s x om =
     om\<lparr>ticker_side_order := (ticker_side_order om)
          (fst s := (ticker_side_order om (fst s))(snd s := x))\<rparr>"

lemma order_of_set [simp]:
  "order_of (set_order s x om) s' = (if s' = s then x else order_of om s')"
  "next_order_id (set_order s x om) = next_order_id om"
  by (auto simp: order_of_def set_order_def prod_eq_iff)

lemma order_of_next_id [simp]: "order_of (om\<lparr>next_order_id := n\<rparr>) s = order_of om s"
  by (simp add: order_of_def)

definition getOMOrderSideHashMap :: "TickerId \<Rightarrow> OrderManager \<Rightarrow> (nat \<Rightarrow> OMOrder) res" where
  "getOMOrderSideHashMap tid om = at_idx ME_MAX_TICKERS (unat tid) (ticker_side_order om)"

section \<open>The engine's outgoing queue\<close>

text \<open>\<open>TradeEngine::sendClientRequest\<close>.\<close>

definition sendClientRequest :: "MEClientRequest \<Rightarrow> ClientRequestLFQueue \<Rightarrow> ClientRequestLFQueue res" where
  "sendClientRequest r q = lfq_push r q"

section \<open>Orders\<close>

text \<open>The request is built and logged; nothing hands it to the engine.\<close>

definition newOrder ::
  "ClientId \<Rightarrow> slot \<Rightarrow> TickerId \<Rightarrow> Price \<Rightarrow> Side \<Rightarrow> Qty \<Rightarrow> OrderManager \<Rightarrow> OrderManager" where
  "newOrder cid s tid price side qty om =
     (let new_request = \<lparr>rq_type = CRT_NEW, rq_client_id = cid, rq_ticker_id = tid,
                         rq_order_id = next_order_id om, rq_side = side, rq_price = price, rq_qty = qty\<rparr>;
          om = set_order s \<lparr>om_ticker_id = tid, om_order_id = next_order_id om, om_side = side,
                 om_price = price, om_qty = qty, order_state = PENDING_NEW\<rparr> om
      in om\<lparr>next_order_id := next_order_id om + 1\<rparr>)"

definition cancel_request :: "ClientId \<Rightarrow> OMOrder \<Rightarrow> MEClientRequest" where
  "cancel_request cid x =
     \<lparr>rq_type = CRT_CANCEL, rq_client_id = cid, rq_ticker_id = om_ticker_id x,
      rq_order_id = om_order_id x, rq_side = om_side x, rq_price = om_price x, rq_qty = om_qty x\<rparr>"

definition cancelOrder ::
  "ClientId \<Rightarrow> slot \<Rightarrow> ClientRequestLFQueue \<times> OrderManager \<Rightarrow> (ClientRequestLFQueue \<times> OrderManager) res" where
  "cancelOrder cid s st =
     (let (q, om) = st
      in bindr (sendClientRequest (cancel_request cid (order_of om s)) q) (\<lambda>q.
         Inr (q, set_order s ((order_of om s)\<lparr>order_state := PENDING_CANCEL\<rparr>) om)))"

definition moveOrder ::
  "ClientId \<Rightarrow> PositionKeeper \<Rightarrow> RiskManager \<Rightarrow> slot \<Rightarrow> TickerId \<Rightarrow> Price \<Rightarrow> Side \<Rightarrow> Qty
    \<Rightarrow> ClientRequestLFQueue \<times> OrderManager \<Rightarrow> (ClientRequestLFQueue \<times> OrderManager) res" where
  "moveOrder cid k rm s tid price side qty st =
     (let (q, om) = st; x = order_of om s
      in if order_state x = LIVE
         then if om_price x \<noteq> price \<or> om_qty x \<noteq> qty then cancelOrder cid s st else Inr st
         else if order_state x = OMS_INVALID \<or> order_state x = DEAD
         then if price \<noteq> Price_INVALID
              then bindr (checkPreTradeRisk k tid side qty rm) (\<lambda>risk_result.
                   Inr (if risk_result = ALLOWED then (q, newOrder cid s tid price side qty om) else st))
              else Inr st
         else Inr st)"

definition moveOrders ::
  "ClientId \<Rightarrow> PositionKeeper \<Rightarrow> RiskManager \<Rightarrow> TickerId \<Rightarrow> Price \<Rightarrow> Price \<Rightarrow> Qty
    \<Rightarrow> ClientRequestLFQueue \<times> OrderManager \<Rightarrow> (ClientRequestLFQueue \<times> OrderManager) res" where
  "moveOrders cid k rm tid bid ask clip_qty st =
     bindr (at_idx ME_MAX_TICKERS (unat tid) (\<lambda>t. t)) (\<lambda>t.
     bindr (at_idx 4 (sideToIndex BUY) (\<lambda>i. i)) (\<lambda>i.
     bindr (moveOrder cid k rm (t, i) tid bid BUY clip_qty st) (\<lambda>st.
     bindr (at_idx 4 (sideToIndex SELL) (\<lambda>i. i)) (\<lambda>i.
     moveOrder cid k rm (t, i) tid ask SELL clip_qty st))))"

text \<open>What the exchange's answer does to an order.\<close>

definition answered :: "MEClientResponse \<Rightarrow> OMOrder \<Rightarrow> OMOrder" where
  "answered r x =
     (case rs_type r of
        CRS_ACCEPTED \<Rightarrow> x\<lparr>order_state := LIVE\<rparr>
      | CRS_CANCELED \<Rightarrow> x\<lparr>order_state := DEAD\<rparr>
      | CRS_FILLED \<Rightarrow>
          (let x = x\<lparr>om_qty := rs_leaves_qty r\<rparr>
           in if om_qty x = 0 then x\<lparr>order_state := DEAD\<rparr> else x)
      | _ \<Rightarrow> x)"

definition OrderManager_onOrderUpdate :: "MEClientResponse \<Rightarrow> OrderManager \<Rightarrow> OrderManager res" where
  "OrderManager_onOrderUpdate r om =
     bindr (at_idx ME_MAX_TICKERS (unat (rs_ticker_id r)) (\<lambda>t. t)) (\<lambda>t.
     bindr (at_idx 4 (sideToIndex (rs_side r)) (\<lambda>i. i)) (\<lambda>i.
     Inr (set_order (t, i) (answered r (order_of om (t, i))) om)))"

section \<open>Moves\<close>

text \<open>What a move does to its slot, whenever it returns.\<close>

lemma moveOrder_cases:
  assumes "moveOrder cid k rm s tid price side qty (q, om) = Inr (q', om')"
  obtains (kept) "q' = q" "om' = om"
  | (cancelled) "order_state (order_of om s) = LIVE"
      "lfq_push (cancel_request cid (order_of om s)) q = Inr q'"
      "om' = set_order s ((order_of om s)\<lparr>order_state := PENDING_CANCEL\<rparr>) om"
  | (created) "order_state (order_of om s) = OMS_INVALID \<or> order_state (order_of om s) = DEAD"
      "price \<noteq> Price_INVALID" "checkPreTradeRisk k tid side qty rm = Inr ALLOWED"
      "q' = q" "om' = newOrder cid s tid price side qty om"
proof -
  let ?x = "order_of om s"
  consider "order_state ?x = LIVE" "om_price ?x \<noteq> price \<or> om_qty ?x \<noteq> qty"
    | "order_state ?x = OMS_INVALID \<or> order_state ?x = DEAD" "price \<noteq> Price_INVALID"
        "checkPreTradeRisk k tid side qty rm = Inr ALLOWED"
    | "Inr (q, om) = (Inr (q', om') :: (ClientRequestLFQueue \<times> OrderManager) res)"
    using assms unfolding moveOrder_def prod.case Let_def
    by (simp split: if_splits) (auto elim!: bindr_InrE split: if_splits)
  then show thesis
  proof cases
    case 1
    then show thesis using assms cancelled
      by (auto simp: moveOrder_def cancelOrder_def sendClientRequest_def Let_def elim!: bindr_InrE)
  next
    case 2
    then show thesis using assms created by (auto simp: moveOrder_def Let_def)
  next
    case 3
    then show thesis using kept by simp
  qed
qed

lemma moveOrdersE:
  assumes "moveOrders cid k rm tid bid ask clip_qty st = Inr st'"
  obtains st1 where "unat tid < ME_MAX_TICKERS"
    "moveOrder cid k rm (unat tid, 2) tid bid BUY clip_qty st = Inr st1"
    "moveOrder cid k rm (unat tid, 0) tid ask SELL clip_qty st1 = Inr st'"
  using assms by (auto simp: moveOrders_def at_idx_eq_Inr elim!: bindr_InrE)

text \<open>Whatever the strategy asks for, what it puts on the queue are cancellations of its own.\<close>

definition sends_cancels :: "ClientId \<Rightarrow> ClientRequestLFQueue \<Rightarrow> ClientRequestLFQueue \<Rightarrow> bool" where
  "sends_cancels cid q q' \<longleftrightarrow>
     (\<exists>rs. fold_res lfq_push rs q = Inr q' \<and> (\<forall>r \<in> set rs. rq_type r = CRT_CANCEL \<and> rq_client_id r = cid))"

lemma sends_cancels_refl [simp]: "sends_cancels cid q q"
  unfolding sends_cancels_def by (rule exI[of _ "[]"]) simp

lemma sends_cancels_trans: "sends_cancels cid p q \<Longrightarrow> sends_cancels cid q r \<Longrightarrow> sends_cancels cid p r"
proof -
  assume "sends_cancels cid p q" "sends_cancels cid q r"
  then obtain xs ys where "fold_res lfq_push xs p = Inr q" "fold_res lfq_push ys q = Inr r"
    "\<forall>r \<in> set (xs @ ys). rq_type r = CRT_CANCEL \<and> rq_client_id r = cid"
    unfolding sends_cancels_def set_append by blast
  then show ?thesis
    unfolding sends_cancels_def by (intro exI[of _ "xs @ ys"]) (simp add: fold_res_append)
qed

lemma moveOrder_sends_cancels:
  assumes "moveOrder cid k rm s tid price side qty (q, om) = Inr (q', om')"
  shows "sends_cancels cid q q'"
  using assms
proof (cases rule: moveOrder_cases)
  case cancelled
  then show ?thesis
    unfolding sends_cancels_def
    by (intro exI[of _ "[cancel_request cid (order_of om s)]"]) (simp add: cancel_request_def)
qed simp_all

lemma moveOrders_sends_cancels:
  assumes "moveOrders cid k rm tid bid ask clip_qty (q, om) = Inr (q', om')"
  shows "sends_cancels cid q q'"
proof (rule moveOrdersE[OF assms])
  fix st1
  assume m: "moveOrder cid k rm (unat tid, 2) tid bid BUY clip_qty (q, om) = Inr st1"
    "moveOrder cid k rm (unat tid, 0) tid ask SELL clip_qty st1 = Inr (q', om')"
  obtain q1 om1 where st1: "st1 = (q1, om1)" by (cases st1)
  show "sends_cancels cid q q'"
    by (rule sends_cancels_trans) (rule m[unfolded st1, THEN moveOrder_sends_cancels])+
qed

end
