(* ===== verification/FeatureEngine.thy ===== *)
theory FeatureEngine
  imports MarketOrder Messages PositionKeeper
begin

text \<open>
  \<open>trading/strategy/feature_engine.h\<close>: the two signals of the trading algorithms, a fair price
  and the share of the resting quantity a trade took. The signals start as a NaN. The log
  calls match their formats and are left out; the book is read only through \<open>getBBO\<close>.
\<close>

definition Feature_INVALID :: double where
  "Feature_INVALID = NaN"

record FeatureEngine =
  mkt_price :: double
  agg_trade_qty_ratio :: double

definition FeatureEngine_ctor :: FeatureEngine where
  "FeatureEngine_ctor = \<lparr>mkt_price = Feature_INVALID, agg_trade_qty_ratio = Feature_INVALID\<rparr>"

definition getMktPrice :: "FeatureEngine \<Rightarrow> double" where
  "getMktPrice f = mkt_price f"

definition getAggTradeQtyRatio :: "FeatureEngine \<Rightarrow> double" where
  "getAggTradeQtyRatio f = agg_trade_qty_ratio f"

text \<open>The products and their sum wrap at 64 bits, the sum of the quantities at 32.\<close>

definition FeatureEngine_onOrderBookUpdate :: "BBO \<Rightarrow> FeatureEngine \<Rightarrow> FeatureEngine" where
  "FeatureEngine_onOrderBookUpdate b f =
     (if bbo_valid b
      then f\<lparr>mkt_price := dbl_div
               (dbl_of_word (bid_price b * ucast (ask_qty b) + ask_price b * ucast (bid_qty b)))
               (dbl_of_word (bid_qty b + ask_qty b))\<rparr>
      else f)"

definition FeatureEngine_onTradeUpdate :: "MEMarketUpdate \<Rightarrow> BBO \<Rightarrow> FeatureEngine \<Rightarrow> FeatureEngine" where
  "FeatureEngine_onTradeUpdate u b f =
     (if bbo_valid b
      then f\<lparr>agg_trade_qty_ratio := dbl_div (dbl_of_word (mu_qty u))
               (dbl_of_word (if mu_side u = BUY then ask_qty b else bid_qty b))\<rparr>
      else f)"

end
