(* ===== verification/TradingAlgorithms.thy ===== *)
theory TradingAlgorithms
  imports OrderManager FeatureEngine
begin

text \<open>
  \<open>trading/strategy/market_maker.h\<close>, \<open>market_maker.cpp\<close>, \<open>liquidity_taker.h\<close> and
  \<open>liquidity_taker.cpp\<close>: the two strategies. Both read the best bid and offer and a signal of
  the feature engine and move the strategy's orders. The log calls match their formats.
\<close>

type_synonym TradeEngineCfgHashMap = "nat \<Rightarrow> TradeEngineCfg"

text \<open>The pair the order manager works on: the outgoing queue and the manager's own state.\<close>

type_synonym OMState = "ClientRequestLFQueue \<times> OrderManager"

section \<open>The market maker\<close>

record MarketMaker =
  mm_ticker_cfg :: TradeEngineCfgHashMap

text \<open>\<open>price - (fair_price - price >= threshold ? 0 : 1)\<close>, the same for both sides.\<close>

definition quote_price :: "double \<Rightarrow> double \<Rightarrow> Price \<Rightarrow> Price" where
  "quote_price fair thr p = p - (if dbl_le thr (dbl_sub fair (dbl_of_word p)) then 0 else 1)"

text \<open>The test for the missing signal compares a NaN with \<open>!=\<close>.\<close>

definition MarketMaker_onOrderBookUpdate ::
  "ClientId \<Rightarrow> PositionKeeper \<Rightarrow> RiskManager \<Rightarrow> FeatureEngine \<Rightarrow> MarketMaker \<Rightarrow> TickerId \<Rightarrow> Price \<Rightarrow> Side
    \<Rightarrow> BBO \<Rightarrow> OMState \<Rightarrow> OMState res" where
  "MarketMaker_onOrderBookUpdate cid k rm f mm tid price side b st =
     (let fair_price = getMktPrice f
      in if bbo_valid b \<and> \<not> dbl_eq fair_price Feature_INVALID
         then bindr (at_idx ME_MAX_TICKERS (unat tid) (mm_ticker_cfg mm)) (\<lambda>c.
              moveOrders cid k rm tid (quote_price fair_price (threshold c) (bid_price b))
                (quote_price fair_price (threshold c) (ask_price b)) (clip c) st)
         else Inr st)"

definition MarketMaker_onTradeUpdate :: "MarketMaker \<Rightarrow> MEMarketUpdate \<Rightarrow> OMState \<Rightarrow> OMState res" where
  "MarketMaker_onTradeUpdate mm u st = Inr st"

definition MarketMaker_onOrderUpdate :: "MarketMaker \<Rightarrow> MEClientResponse \<Rightarrow> OMState \<Rightarrow> OMState res" where
  "MarketMaker_onOrderUpdate mm r st =
     bindr (OrderManager_onOrderUpdate r (snd st)) (\<lambda>om. Inr (fst st, om))"

section \<open>The liquidity taker\<close>

record LiquidityTaker =
  lt_ticker_cfg :: TradeEngineCfgHashMap

definition LiquidityTaker_onTradeUpdate ::
  "ClientId \<Rightarrow> PositionKeeper \<Rightarrow> RiskManager \<Rightarrow> FeatureEngine \<Rightarrow> LiquidityTaker \<Rightarrow> MEMarketUpdate
    \<Rightarrow> BBO \<Rightarrow> OMState \<Rightarrow> OMState res" where
  "LiquidityTaker_onTradeUpdate cid k rm f lt u b st =
     (let agg_qty_ratio = getAggTradeQtyRatio f; tid = mu_ticker_id u
      in if bbo_valid b \<and> \<not> dbl_eq agg_qty_ratio Feature_INVALID
         then bindr (at_idx ME_MAX_TICKERS (unat tid) (lt_ticker_cfg lt)) (\<lambda>c.
              if dbl_le (threshold c) agg_qty_ratio
              then if mu_side u = BUY
                   then moveOrders cid k rm tid (ask_price b) Price_INVALID (clip c) st
                   else moveOrders cid k rm tid Price_INVALID (bid_price b) (clip c) st
              else Inr st)
         else Inr st)"

definition LiquidityTaker_onOrderBookUpdate ::
  "LiquidityTaker \<Rightarrow> TickerId \<Rightarrow> Price \<Rightarrow> Side \<Rightarrow> OMState \<Rightarrow> OMState res" where
  "LiquidityTaker_onOrderBookUpdate lt tid price side st = Inr st"

definition LiquidityTaker_onOrderUpdate :: "LiquidityTaker \<Rightarrow> MEClientResponse \<Rightarrow> OMState \<Rightarrow> OMState res" where
  "LiquidityTaker_onOrderUpdate lt r st =
     bindr (OrderManager_onOrderUpdate r (snd st)) (\<lambda>om. Inr (fst st, om))"

section \<open>The callbacks of the trade engine\<close>

text \<open>
  The constructor of a strategy overwrites the engine's three callbacks, so which strategy
  answers is which was constructed last; without one the callbacks only log.
\<close>

datatype Algo = Default_algo | Maker MarketMaker | Taker LiquidityTaker

definition MarketMaker_ctor :: "TradeEngineCfgHashMap \<Rightarrow> Algo" where
  "MarketMaker_ctor ticker_cfg = Maker \<lparr>mm_ticker_cfg = ticker_cfg\<rparr>"

definition LiquidityTaker_ctor :: "TradeEngineCfgHashMap \<Rightarrow> Algo" where
  "LiquidityTaker_ctor ticker_cfg = Taker \<lparr>lt_ticker_cfg = ticker_cfg\<rparr>"

definition algoOnOrderBookUpdate ::
  "ClientId \<Rightarrow> PositionKeeper \<Rightarrow> RiskManager \<Rightarrow> FeatureEngine \<Rightarrow> Algo \<Rightarrow> TickerId \<Rightarrow> Price \<Rightarrow> Side
    \<Rightarrow> BBO \<Rightarrow> OMState \<Rightarrow> OMState res" where
  "algoOnOrderBookUpdate cid k rm f a tid price side b st =
     (case a of
        Default_algo \<Rightarrow> Inr st
      | Maker mm \<Rightarrow> MarketMaker_onOrderBookUpdate cid k rm f mm tid price side b st
      | Taker lt \<Rightarrow> LiquidityTaker_onOrderBookUpdate lt tid price side st)"

definition algoOnTradeUpdate ::
  "ClientId \<Rightarrow> PositionKeeper \<Rightarrow> RiskManager \<Rightarrow> FeatureEngine \<Rightarrow> Algo \<Rightarrow> MEMarketUpdate \<Rightarrow> BBO
    \<Rightarrow> OMState \<Rightarrow> OMState res" where
  "algoOnTradeUpdate cid k rm f a u b st =
     (case a of
        Default_algo \<Rightarrow> Inr st
      | Maker mm \<Rightarrow> MarketMaker_onTradeUpdate mm u st
      | Taker lt \<Rightarrow> LiquidityTaker_onTradeUpdate cid k rm f lt u b st)"

definition algoOnOrderUpdate :: "Algo \<Rightarrow> MEClientResponse \<Rightarrow> OMState \<Rightarrow> OMState res" where
  "algoOnOrderUpdate a r st =
     (case a of
        Default_algo \<Rightarrow> Inr st
      | Maker mm \<Rightarrow> MarketMaker_onOrderUpdate mm r st
      | Taker lt \<Rightarrow> LiquidityTaker_onOrderUpdate lt r st)"

section \<open>What the strategies send\<close>

lemmas algo_defs = algoOnOrderBookUpdate_def algoOnTradeUpdate_def algoOnOrderUpdate_def
  MarketMaker_onOrderBookUpdate_def MarketMaker_onTradeUpdate_def MarketMaker_onOrderUpdate_def
  LiquidityTaker_onTradeUpdate_def LiquidityTaker_onOrderBookUpdate_def LiquidityTaker_onOrderUpdate_def

lemma algo_sends_cancels:
  "algoOnOrderBookUpdate cid k rm f a tid price side b (q, om) = Inr (q', om') \<Longrightarrow> sends_cancels cid q q'"
  "algoOnTradeUpdate cid k rm f a u b (q, om) = Inr (q', om') \<Longrightarrow> sends_cancels cid q q'"
  "algoOnOrderUpdate a r (q, om) = Inr (q', om') \<Longrightarrow> sends_cancels cid q q'"
  by (auto simp: algo_defs Let_def elim!: bindr_InrE dest: moveOrders_sends_cancels
      split: Algo.splits if_splits)

text \<open>The mistake in the test for a missing signal: it is always passed.\<close>

lemma signal_always_there [simp]: "\<not> dbl_eq x Feature_INVALID"
  by (simp add: Feature_INVALID_def)

text \<open>Where the maker wants its orders. The sell order is never above the best ask, and without
  enough edge it is one tick below it.\<close>

lemma quote_price_cases: "quote_price fair thr p = p \<or> quote_price fair thr p = p - 1"
  by (simp add: quote_price_def)

end
