(* ===== verification/TradeEngine.thy ===== *)
theory TradeEngine
  imports TradingAlgorithms MarketOrderBook TcpSocket "HOL-Library.Signed_Division"
begin

text \<open>
  \<open>trading/strategy/trade_engine.h\<close> and \<open>trade_engine.cpp\<close>: the thread of the trading client
  that takes the exchange's responses and market updates from their queues, keeps the books,
  the positions and the signals, and lets the strategy move its orders. The books call back
  into the engine: \<open>TradeEngine_onTradeUpdate\<close> and \<open>TradeEngine_onOrderBookUpdate\<close> are the
  parameters of \<open>onMarketUpdate\<close>. The log calls match their formats. The clock is a parameter:
  \<open>clock n\<close> is what it shows after the \<open>n\<close>-th event; the field \<open>te_events\<close> counts them.
\<close>

record TradeEngine =
  te_client_id :: ClientId
  ticker_book :: "nat \<Rightarrow> MarketOrderBook"
  outgoing_ogw_requests :: ClientRequestLFQueue
  incoming_ogw_responses :: ClientResponseLFQueue
  incoming_md_updates :: MEMarketUpdateLFQueue
  last_event_time :: Nanos
  te_run :: bool
  feature_engine :: FeatureEngine
  position_keeper :: PositionKeeper
  order_manager :: OrderManager
  risk_manager :: RiskManager
  algo :: Algo
  te_events :: nat

text \<open>What the memory of the new books and positions holds before it is initialised.\<close>

record TradingRaw =
  raw_oid :: "nat \<Rightarrow> nat \<Rightarrow> ptr"
  raw_price :: "nat \<Rightarrow> nat \<Rightarrow> ptr"
  raw_vwap :: "nat \<Rightarrow> nat \<Rightarrow> double"

definition TradeEngine_ctor ::
  "TradingRaw \<Rightarrow> ClientId \<Rightarrow> AlgoType \<Rightarrow> TradeEngineCfgHashMap \<Rightarrow> ClientRequestLFQueue
    \<Rightarrow> ClientResponseLFQueue \<Rightarrow> MEMarketUpdateLFQueue \<Rightarrow> TradeEngine" where
  "TradeEngine_ctor raw client_id algo_type ticker_cfg client_requests client_responses market_updates =
     \<lparr>te_client_id = client_id,
      ticker_book = (\<lambda>i. setTradeEngine (MarketOrderBook_ctor (raw_oid raw i) (raw_price raw i) (of_nat i))),
      outgoing_ogw_requests = client_requests, incoming_ogw_responses = client_responses,
      incoming_md_updates = market_updates, last_event_time = 0, te_run = False,
      feature_engine = FeatureEngine_ctor, position_keeper = PositionKeeper_ctor (raw_vwap raw),
      order_manager = OrderManager_ctor, risk_manager = RiskManager_ctor ticker_cfg,
      algo = (if algo_type = MAKER then MarketMaker_ctor ticker_cfg
              else if algo_type = TAKER then LiquidityTaker_ctor ticker_cfg
              else Default_algo),
      te_events = 0\<rparr>"

definition TradeEngine_clientId :: "TradeEngine \<Rightarrow> ClientId" where
  "TradeEngine_clientId e = te_client_id e"

definition TradeEngine_sendClientRequest :: "MEClientRequest \<Rightarrow> TradeEngine \<Rightarrow> TradeEngine res" where
  "TradeEngine_sendClientRequest r e =
     bindr (sendClientRequest r (outgoing_ogw_requests e)) (\<lambda>q.
     Inr (e\<lparr>outgoing_ogw_requests := q\<rparr>))"

section \<open>Events\<close>

text \<open>A strategy's callback, on the part of the engine it changes.\<close>

definition run_algo :: "(OMState \<Rightarrow> OMState res) \<Rightarrow> TradeEngine \<Rightarrow> TradeEngine res" where
  "run_algo f e =
     bindr (f (outgoing_ogw_requests e, order_manager e)) (\<lambda>(q, om).
     Inr (e\<lparr>outgoing_ogw_requests := q, order_manager := om\<rparr>))"

definition TradeEngine_onOrderBookUpdate ::
  "TickerId \<Rightarrow> Price \<Rightarrow> Side \<Rightarrow> BBO \<Rightarrow> TradeEngine \<Rightarrow> TradeEngine res" where
  "TradeEngine_onOrderBookUpdate tid price side b e =
     bindr (PositionKeeper_updateBBO tid b (position_keeper e)) (\<lambda>k.
     let e = e\<lparr>position_keeper := k,
               feature_engine := FeatureEngine_onOrderBookUpdate b (feature_engine e)\<rparr>
     in run_algo (algoOnOrderBookUpdate (te_client_id e) (position_keeper e) (risk_manager e)
                    (feature_engine e) (algo e) tid price side b) e)"

definition TradeEngine_onTradeUpdate :: "MEMarketUpdate \<Rightarrow> BBO \<Rightarrow> TradeEngine \<Rightarrow> TradeEngine res" where
  "TradeEngine_onTradeUpdate u b e =
     (let e = e\<lparr>feature_engine := FeatureEngine_onTradeUpdate u b (feature_engine e)\<rparr>
      in run_algo (algoOnTradeUpdate (te_client_id e) (position_keeper e) (risk_manager e)
                     (feature_engine e) (algo e) u b) e)"

definition TradeEngine_onOrderUpdate :: "MEClientResponse \<Rightarrow> TradeEngine \<Rightarrow> TradeEngine res" where
  "TradeEngine_onOrderUpdate r e =
     bindr (if rs_type r = CRS_FILLED
            then bindr (PositionKeeper_addFill r (position_keeper e)) (\<lambda>k.
                 Inr (e\<lparr>position_keeper := k\<rparr>))
            else Inr e) (\<lambda>e.
     run_algo (algoOnOrderUpdate (algo e) r) e)"

section \<open>The loop\<close>

definition stamp :: "(nat \<Rightarrow> Nanos) \<Rightarrow> TradeEngine \<Rightarrow> TradeEngine" where
  "stamp clock e = e\<lparr>last_event_time := clock (te_events e), te_events := te_events e + 1\<rparr>"

definition engine_response :: "(nat \<Rightarrow> Nanos) \<Rightarrow> MEClientResponse \<Rightarrow> TradeEngine \<Rightarrow> TradeEngine res" where
  "engine_response clock r e =
     bindr (TradeEngine_onOrderUpdate r e) (\<lambda>e. Inr (stamp clock e))"

definition engine_update :: "(nat \<Rightarrow> Nanos) \<Rightarrow> MEMarketUpdate \<Rightarrow> TradeEngine \<Rightarrow> TradeEngine res" where
  "engine_update clock u e =
     (let t = unat (mu_ticker_id u)
      in bindr (ASSERT (t < ME_MAX_TICKERS)
                  (''Unknown ticker-id on update:'' @ MEMarketUpdate_toString u)) (\<lambda>_.
         bindr (onMarketUpdate TradeEngine_onTradeUpdate TradeEngine_onOrderBookUpdate u
                  (ticker_book e t) e) (\<lambda>(b, e).
         Inr (stamp clock (e\<lparr>ticker_book := (ticker_book e)(t := b)\<rparr>)))))"

definition TradeEngine_iteration :: "(nat \<Rightarrow> Nanos) \<Rightarrow> TradeEngine \<Rightarrow> TradeEngine res" where
  "TradeEngine_iteration clock e =
     bindr (returned (drain getNextToRead updateReadIndex (engine_response clock)
              (incoming_ogw_responses e) e)) (\<lambda>(q, e).
     let e = e\<lparr>incoming_ogw_responses := q\<rparr>
     in bindr (returned (drain getNextToRead updateReadIndex (engine_update clock)
                (incoming_md_updates e) e)) (\<lambda>(q, e).
        Inr (e\<lparr>incoming_md_updates := q\<rparr>)))"

definition TradeEngine_runs ::
  "(nat \<Rightarrow> Nanos) \<Rightarrow> ((TradeEngine \<Rightarrow> TradeEngine) \<times> bool) list \<Rightarrow> TradeEngine \<Rightarrow> TradeEngine res" where
  "TradeEngine_runs clock sched e = run_while sched (TradeEngine_iteration clock) e"

section \<open>Start, stop and the idle time\<close>

definition TradeEngine_start :: "(int \<Rightarrow> int) \<Rightarrow> TradeEngine \<Rightarrow> TradeEngine res" where
  "TradeEngine_start aff e =
     bindr (ASSERT (createAndStartThread aff (- 1)) ''Failed to start TradeEngine thread.'')
       (\<lambda>_. Inr (e\<lparr>te_run := True\<rparr>))"

text \<open>\<open>stop\<close> waits until both queues are empty. \<open>envs\<close> is what the other threads do before each
  look at them; \<open>None\<close> is still waiting when they are used up.\<close>

fun wait_consumed :: "(TradeEngine \<Rightarrow> TradeEngine) list \<Rightarrow> TradeEngine \<Rightarrow> TradeEngine option" where
  "wait_consumed [] e = None"
| "wait_consumed (env # envs) e =
     (let e = env e
      in if LFQueue_size (incoming_ogw_responses e) \<noteq> 0 \<or> LFQueue_size (incoming_md_updates e) \<noteq> 0
         then wait_consumed envs e else Some e)"

definition TradeEngine_stop ::
  "(double \<Rightarrow> string) \<Rightarrow> (TradeEngine \<Rightarrow> TradeEngine) list \<Rightarrow> TradeEngine \<Rightarrow> TradeEngine res option" where
  "TradeEngine_stop fmt envs e =
     (case wait_consumed envs e of
        None \<Rightarrow> None
      | Some e \<Rightarrow>
          Some (bindr (PositionKeeper_toString fmt (\<lambda>i. bbo (ticker_book e i)) (position_keeper e)) (\<lambda>_.
                Inr (e\<lparr>te_run := False\<rparr>))))"

text \<open>The destructor deletes the strategy and the books; a deleted book prints itself first.\<close>

definition TradeEngine_dtor :: "TradeEngine \<Rightarrow> TradeEngine res" where
  "TradeEngine_dtor e =
     fold_res (\<lambda>i e. bindr (MarketOrderBook_dtor (ticker_book e i)) (\<lambda>b.
         Inr (e\<lparr>ticker_book := (ticker_book e)(i := b)\<rparr>)))
       [0..<ME_MAX_TICKERS] (e\<lparr>te_run := False\<rparr>)"

definition initLastEventTime :: "Nanos \<Rightarrow> TradeEngine \<Rightarrow> TradeEngine" where
  "initLastEventTime now e = e\<lparr>last_event_time := now\<rparr>"

definition silentSeconds :: "Nanos \<Rightarrow> TradeEngine \<Rightarrow> int res" where
  "silentSeconds now e =
     (let d = sint now - sint (last_event_time e)
      in if - (2 ^ 63) \<le> d \<and> d < 2 ^ 63 then Inr (d sdiv NANOS_TO_SECS)
         else Inl (Undefined ''signed overflow''))"

section \<open>What an event leaves alone\<close>

lemma run_algo_frame:
  assumes "run_algo f e = Inr e'"
  shows "te_client_id e' = te_client_id e" "ticker_book e' = ticker_book e"
    "incoming_ogw_responses e' = incoming_ogw_responses e" "incoming_md_updates e' = incoming_md_updates e"
    "algo e' = algo e" "risk_manager e' = risk_manager e" "position_keeper e' = position_keeper e"
    "feature_engine e' = feature_engine e"
  using assms by (auto simp: run_algo_def elim!: bindr_InrE)

lemma run_algo_sends:
  assumes "run_algo f e = Inr e'" "\<And>q om q' om'. f (q, om) = Inr (q', om') \<Longrightarrow> sends_cancels cid q q'"
  shows "sends_cancels cid (outgoing_ogw_requests e) (outgoing_ogw_requests e')"
  using assms by (auto simp: run_algo_def elim!: bindr_InrE)

text \<open>The requests an engine has sent are cancellations of its own.\<close>

definition only_cancels :: "TradeEngine \<Rightarrow> TradeEngine \<Rightarrow> bool" where
  "only_cancels e e' \<longleftrightarrow> te_client_id e' = te_client_id e
     \<and> sends_cancels (te_client_id e) (outgoing_ogw_requests e) (outgoing_ogw_requests e')"

lemma only_cancels_refl [simp]: "only_cancels e e"
  by (simp add: only_cancels_def)

lemma only_cancels_trans: "only_cancels e1 e2 \<Longrightarrow> only_cancels e2 e3 \<Longrightarrow> only_cancels e1 e3"
  by (auto simp: only_cancels_def intro: sends_cancels_trans)

lemma only_cancels_algo:
  assumes "run_algo f e = Inr e'"
    and "\<And>q om q' om'. f (q, om) = Inr (q', om') \<Longrightarrow> sends_cancels (te_client_id e) q q'"
  shows "only_cancels e e'"
  unfolding only_cancels_def
  by (rule conjI[OF run_algo_frame(1)[OF assms(1)]]) (rule run_algo_sends[OF assms])

lemma only_cancels_fields [simp]:
  "only_cancels (e\<lparr>position_keeper := k\<rparr>) e' \<longleftrightarrow> only_cancels e e'"
  "only_cancels (e\<lparr>feature_engine := f\<rparr>) e' \<longleftrightarrow> only_cancels e e'"
  "only_cancels (e\<lparr>incoming_ogw_responses := rq\<rparr>) e' \<longleftrightarrow> only_cancels e e'"
  "only_cancels e (stamp clock e') \<longleftrightarrow> only_cancels e e'"
  "only_cancels e (e'\<lparr>ticker_book := bs\<rparr>) \<longleftrightarrow> only_cancels e e'"
  "only_cancels e (e'\<lparr>incoming_ogw_responses := rq\<rparr>) \<longleftrightarrow> only_cancels e e'"
  "only_cancels e (e'\<lparr>incoming_md_updates := mq\<rparr>) \<longleftrightarrow> only_cancels e e'"
  by (simp_all add: only_cancels_def stamp_def)

lemma events_only_cancel:
  "TradeEngine_onOrderUpdate r e = Inr e' \<Longrightarrow> only_cancels e e'"
  "TradeEngine_onTradeUpdate u b e = Inr e' \<Longrightarrow> only_cancels e e'"
  "TradeEngine_onOrderBookUpdate tid price side b e = Inr e' \<Longrightarrow> only_cancels e e'"
proof -
  show "only_cancels e e'" if "TradeEngine_onOrderUpdate r e = Inr e'"
    using that unfolding TradeEngine_onOrderUpdate_def
    by (auto elim!: bindr_InrE split: if_splits dest!: only_cancels_algo[OF _ algo_sends_cancels(3)])
  show "only_cancels e e'" if "TradeEngine_onTradeUpdate u b e = Inr e'"
    using only_cancels_algo[OF that[unfolded TradeEngine_onTradeUpdate_def Let_def] algo_sends_cancels(2)]
    by simp
  show "only_cancels e e'" if "TradeEngine_onOrderBookUpdate tid price side b e = Inr e'"
  proof -
    from that[unfolded TradeEngine_onOrderBookUpdate_def Let_def] obtain k g where
      "run_algo (algoOnOrderBookUpdate (te_client_id e) k (risk_manager e) g (algo e) tid price side b)
        (e\<lparr>position_keeper := k, feature_engine := g\<rparr>) = Inr e'"
      by (rule bindr_InrE) simp
    from only_cancels_algo[OF this] show ?thesis using algo_sends_cancels(1) by simp
  qed
qed

end
