(* ===== verification/OrderGateway.thy ===== *)
theory OrderGateway
  imports TcpSocket OrderServer
begin

text \<open>
  \<open>trading/order_gw/order_gateway.h\<close> and \<open>order_gateway.cpp\<close>: the thread of the trading client
  that numbers the strategy's requests and sends them to the exchange, and checks the
  exchange's responses and hands them to the trade engine. While the socket serves a receive
  callback the gateway's own copy of it is not used. The log calls match their formats.
\<close>

record OrderGateway =
  gw_client_id :: ClientId
  gw_ip :: string
  gw_iface :: string
  gw_port :: int
  outgoing_requests :: ClientRequestLFQueue
  incoming_responses :: ClientResponseLFQueue
  gw_run :: bool
  next_outgoing_seq_num :: "64 word"
  next_exp_seq_num :: "64 word"
  gw_socket :: TCPSocket

definition OrderGateway_ctor ::
  "TCPSocket \<Rightarrow> ClientId \<Rightarrow> ClientRequestLFQueue \<Rightarrow> ClientResponseLFQueue \<Rightarrow> string \<Rightarrow> string \<Rightarrow> int
    \<Rightarrow> OrderGateway" where
  "OrderGateway_ctor raw client_id client_requests client_responses ip iface port =
     \<lparr>gw_client_id = client_id, gw_ip = ip, gw_iface = iface, gw_port = port,
      outgoing_requests = client_requests, incoming_responses = client_responses, gw_run = False,
      next_outgoing_seq_num = 1, next_exp_seq_num = 1,
      gw_socket = TCPSocket_ctor (send_buffer raw) (rcv_buffer raw)\<rparr>"

definition OrderGateway_start :: "Kernel \<Rightarrow> (int \<Rightarrow> int) \<Rightarrow> OrderGateway \<Rightarrow> OrderGateway res" where
  "OrderGateway_start K aff g =
     (let (rc, sock) = TCPSocket_connect K (gw_ip g) (gw_iface g) (gw_port g) False (gw_socket g);
          g = g\<lparr>gw_run := True, gw_socket := sock\<rparr>
      in bindr (ASSERT (rc \<ge> 0) (''Unable to connect to ip:'' @ gw_ip g @ '' port:''
                  @ int_to_string (gw_port g) @ '' on iface:'' @ gw_iface g @ '' error:'' @ k_error K)) (\<lambda>_.
         bindr (ASSERT (createAndStartThread aff (- 1)) ''Failed to start OrderGateway thread.'') (\<lambda>_.
         Inr g)))"

definition OrderGateway_stop :: "OrderGateway \<Rightarrow> OrderGateway" where
  "OrderGateway_stop g = g\<lparr>gw_run := False\<rparr>"

definition OrderGateway_dtor :: "OrderGateway \<Rightarrow> OrderGateway" where
  "OrderGateway_dtor g = OrderGateway_stop g"

section \<open>Responses\<close>

text \<open>One response of the receive buffer: dropped unless it is this client's and next in sequence.\<close>

definition gateway_response :: "OMClientResponse \<Rightarrow> OrderGateway \<Rightarrow> OrderGateway res" where
  "gateway_response r g =
     (if rs_client_id (me_client_response r) \<noteq> gw_client_id g then Inr g
      else if omrs_seq_num r \<noteq> next_exp_seq_num g then Inr g
      else let g = g\<lparr>next_exp_seq_num := next_exp_seq_num g + 1\<rparr>
           in bindr (lfq_push (me_client_response r) (incoming_responses g)) (\<lambda>q.
              Inr (g\<lparr>incoming_responses := q\<rparr>)))"

definition OrderGateway_recvCallback ::
  "TCPSocket \<Rightarrow> Nanos \<Rightarrow> OrderGateway \<Rightarrow> (TCPSocket \<times> OrderGateway) res" where
  "OrderGateway_recvCallback s rx_time g =
     (if next_rcv_valid_index s \<ge> 50
      then let k = next_rcv_valid_index s div 50
           in bindr (fold_res (\<lambda>i. gateway_response (decode_OMClientResponse (buf_read i 50 (rcv_buffer s))))
                      (map (\<lambda>j. 50 * j) [0..<k]) g) (\<lambda>g.
              bindr (memcpy_within TCPBufferSize 0 (50 * k) (next_rcv_valid_index s - 50 * k) (rcv_buffer s)) (\<lambda>buf.
              Inr (s\<lparr>rcv_buffer := buf, next_rcv_valid_index := next_rcv_valid_index s - 50 * k\<rparr>, g)))
      else Inr (s, g))"

section \<open>Requests\<close>

definition gateway_request :: "MEClientRequest \<Rightarrow> OrderGateway \<Rightarrow> OrderGateway res" where
  "gateway_request r g =
     bindr (TCPSocket_send (put64 (next_outgoing_seq_num g)) (gw_socket g)) (\<lambda>s.
     bindr (TCPSocket_send (encode_MEClientRequest r) s) (\<lambda>s.
     Inr (g\<lparr>gw_socket := s, next_outgoing_seq_num := next_outgoing_seq_num g + 1\<rparr>)))"

definition OrderGateway_iteration :: "NetIO \<Rightarrow> OrderGateway \<Rightarrow> OrderGateway res" where
  "OrderGateway_iteration io g =
     bindr (TCPSocket_sendAndRecv io OrderGateway_recvCallback (gw_socket g) g) (\<lambda>(_, s, g).
     let g = g\<lparr>gw_socket := s\<rparr>
     in bindr (returned (drain getNextToRead updateReadIndex gateway_request (outgoing_requests g) g)) (\<lambda>(q, g).
        Inr (g\<lparr>outgoing_requests := q\<rparr>)))"

definition OrderGateway_runs ::
  "NetIO \<Rightarrow> ((OrderGateway \<Rightarrow> OrderGateway) \<times> bool) list \<Rightarrow> OrderGateway \<Rightarrow> OrderGateway res" where
  "OrderGateway_runs io sched g = run_while sched (OrderGateway_iteration io) g"

section \<open>What goes out\<close>

definition gw_pending :: "OrderGateway \<Rightarrow> byte list" where
  "gw_pending g = buf_read 0 (next_send_valid_index (gw_socket g)) (send_buffer (gw_socket g))"

lemma gateway_request_ok:
  assumes "next_send_valid_index (gw_socket g) + 38 \<le> TCPBufferSize"
  shows "\<exists>g'. gateway_request r g = Inr g'
    \<and> gw_pending g' = gw_pending g @ encode_OMClientRequest (seq_request (next_outgoing_seq_num g) r)
    \<and> next_send_valid_index (gw_socket g') = next_send_valid_index (gw_socket g) + 38
    \<and> next_outgoing_seq_num g' = next_outgoing_seq_num g + 1"
proof -
  obtain s1 where s1: "TCPSocket_send (put64 (next_outgoing_seq_num g)) (gw_socket g) = Inr s1"
    "buf_read 0 (next_send_valid_index s1) (send_buffer s1) = gw_pending g @ put64 (next_outgoing_seq_num g)"
    "next_send_valid_index s1 = next_send_valid_index (gw_socket g) + 8"
    using TCPSocket_send_bytes[of "gw_socket g" "put64 (next_outgoing_seq_num g)"] assms
    by (auto simp: gw_pending_def)
  obtain s2 where "TCPSocket_send (encode_MEClientRequest r) s1 = Inr s2"
    "buf_read 0 (next_send_valid_index s2) (send_buffer s2)
      = buf_read 0 (next_send_valid_index s1) (send_buffer s1) @ encode_MEClientRequest r"
    "next_send_valid_index s2 = next_send_valid_index s1 + 30"
    using TCPSocket_send_bytes[of s1 "encode_MEClientRequest r"] assms s1(3)
    by (auto simp: request_codec.enc_length)
  then show ?thesis
    using s1 by (simp add: gateway_request_def gw_pending_def encode_OMClientRequest_def seq_request_def)
qed

lemma gateway_requests_ok:
  assumes "next_send_valid_index (gw_socket g) + 38 * length rs \<le> TCPBufferSize"
  shows "\<exists>g'. fold_res gateway_request rs g = Inr g'
    \<and> gw_pending g' = gw_pending g
        @ concat (map encode_OMClientRequest (number_from (next_outgoing_seq_num g) rs))
    \<and> next_outgoing_seq_num g' = next_outgoing_seq_num g + of_nat (length rs)"
  using assms
proof (induction rs arbitrary: g)
  case (Cons r rs)
  obtain g1 where g1: "gateway_request r g = Inr g1"
    "gw_pending g1 = gw_pending g @ encode_OMClientRequest (seq_request (next_outgoing_seq_num g) r)"
    "next_send_valid_index (gw_socket g1) = next_send_valid_index (gw_socket g) + 38"
    "next_outgoing_seq_num g1 = next_outgoing_seq_num g + 1"
    using gateway_request_ok[of g r] Cons.prems by auto
  have "\<exists>g'. fold_res gateway_request rs g1 = Inr g'
    \<and> gw_pending g' = gw_pending g1
        @ concat (map encode_OMClientRequest (number_from (next_outgoing_seq_num g1) rs))
    \<and> next_outgoing_seq_num g' = next_outgoing_seq_num g1 + of_nat (length rs)"
    by (rule Cons.IH) (use Cons.prems g1(3) in simp)
  then show ?case using g1 by (auto simp: add.assoc)
qed simp

section \<open>What comes in\<close>

fun number_responses :: "64 word \<Rightarrow> MEClientResponse list \<Rightarrow> OMClientResponse list" where
  "number_responses n [] = []"
| "number_responses n (r # rs) = \<lparr>omrs_seq_num = n, me_client_response = r\<rparr> # number_responses (n + 1) rs"

lemma length_number_responses [simp]: "length (number_responses n rs) = length rs"
  by (induction rs arbitrary: n) auto

lemma gateway_responses_ok:
  assumes "\<forall>r \<in> set rs. rs_client_id r = gw_client_id g"
    and "lfq_ok (incoming_responses g)"
    and "length (lfq_items (incoming_responses g)) + length rs \<le> lfq_capacity (incoming_responses g)"
  shows "\<exists>g'. fold_res gateway_response (number_responses (next_exp_seq_num g) rs) g = Inr g'
    \<and> lfq_items (incoming_responses g') = lfq_items (incoming_responses g) @ rs
    \<and> lfq_ok (incoming_responses g')
    \<and> next_exp_seq_num g' = next_exp_seq_num g + of_nat (length rs)"
  using assms
proof (induction rs arbitrary: g)
  case (Cons r rs)
  obtain q where q: "lfq_push r (incoming_responses g) = Inr q" "lfq_ok q"
    "lfq_items q = lfq_items (incoming_responses g) @ [r]"
    "lfq_capacity q = lfq_capacity (incoming_responses g)"
    using lfq.push_law[OF Cons.prems(2), of r] Cons.prems(3) by auto
  let ?g = "g\<lparr>next_exp_seq_num := next_exp_seq_num g + 1, incoming_responses := q\<rparr>"
  have "gateway_response \<lparr>omrs_seq_num = next_exp_seq_num g, me_client_response = r\<rparr> g = Inr ?g"
    using q(1) Cons.prems(1) by (simp add: gateway_response_def)
  moreover have "\<exists>g'. fold_res gateway_response (number_responses (next_exp_seq_num ?g) rs) ?g = Inr g'
    \<and> lfq_items (incoming_responses g') = lfq_items (incoming_responses ?g) @ rs
    \<and> lfq_ok (incoming_responses g')
    \<and> next_exp_seq_num g' = next_exp_seq_num ?g + of_nat (length rs)"
    by (rule Cons.IH) (use Cons.prems q in simp_all)
  ultimately show ?case using q(3) by (auto simp: add.assoc)
qed simp

end
