(* ===== verification/MarketDataConsumer.thy ===== *)
theory MarketDataConsumer
  imports MarketDataPublisher
begin

text \<open>
  \<open>trading/market_data/market_data_consumer.h\<close> and \<open>market_data_consumer.cpp\<close>: the thread of the
  trading client that receives the numbered updates and hands them to the trade engine, and
  that is meant to recover from a lost one by way of the snapshot stream. A \<open>std::map\<close> keyed
  by sequence number is a list sorted by its keys. The socket a callback serves is an argument
  of its own; the consumer's copy of it is not used meanwhile. The log calls match their
  formats.
\<close>

section \<open>\<open>std::map<size_t, MEMarketUpdate>\<close>\<close>

type_synonym QueuedMarketUpdates = "(64 word \<times> MEMarketUpdate) list"

text \<open>\<open>m[k] = v\<close>.\<close>

fun map_put :: "64 word \<Rightarrow> MEMarketUpdate \<Rightarrow> QueuedMarketUpdates \<Rightarrow> QueuedMarketUpdates" where
  "map_put k v [] = [(k, v)]"
| "map_put k v ((k', v') # m) =
     (if k < k' then (k, v) # (k', v') # m
      else if k = k' then (k, v) # m
      else (k', v') # map_put k v m)"

lemma map_put_not_Nil [simp]: "map_put k v m \<noteq> []"
  by (cases "(k, v, m)" rule: map_put.cases) auto

lemma map_put_keys: "fst ` set (map_put k v m) = insert k (fst ` set m)"
  by (induction k v m rule: map_put.induct) auto

lemma map_put_sorted: "sorted_wrt (<) (map fst m) \<Longrightarrow> sorted_wrt (<) (map fst (map_put k v m))"
proof (induction k v m rule: map_put.induct)
  case (2 k v k' v' m)
  have "\<forall>x \<in> fst ` set (map_put k v m). k' < x" if "k' < k"
    using that 2(2) unfolding map_put_keys by simp
  moreover have "sorted_wrt (<) (map fst (map_put k v m))" if "k' < k"
    using 2 that by simp
  ultimately have "k' < k \<Longrightarrow> sorted_wrt (<) (k' # map fst (map_put k v m))" by simp
  moreover have "k < k' \<or> k = k' \<or> k' < k" by (rule less_linear)
  ultimately show ?case using 2(2) by auto
qed simp

lemma map_put_lookup:
  "sorted_wrt (<) (map fst m) \<Longrightarrow> map_of (map_put k v m) = (map_of m)(k \<mapsto> v)"
  by (induction k v m rule: map_put.induct) (auto simp: fun_eq_iff map_of_eq_None_iff)

section \<open>The consumer\<close>

record MarketDataConsumer =
  next_exp_inc_seq_num :: "64 word"
  con_updates :: MEMarketUpdateLFQueue
  con_run :: bool
  incremental_mcast_socket :: McastSocket
  snapshot_mcast_socket :: McastSocket
  in_recovery :: bool
  con_iface :: string
  con_snapshot_ip :: string
  con_snapshot_port :: int
  snapshot_queued_msgs :: QueuedMarketUpdates
  incremental_queued_msgs :: QueuedMarketUpdates

definition MarketDataConsumer_ctor ::
  "Kernel \<Rightarrow> MEMarketUpdateLFQueue \<Rightarrow> string \<Rightarrow> string \<Rightarrow> int \<Rightarrow> string \<Rightarrow> int \<Rightarrow> MarketDataConsumer res" where
  "MarketDataConsumer_ctor K market_updates iface snapshot_ip snapshot_port incremental_ip incremental_port =
     bindr (McastSocket_init K incremental_ip iface incremental_port True McastSocket_ctor) (\<lambda>(rc, sock).
     bindr (ASSERT (rc \<ge> 0) (''Unable to create incremental mcast socket. error:'' @ k_error K)) (\<lambda>_.
     bindr (ASSERT (McastSocket_join K incremental_ip sock)
              (''join failed on:'' @ int_to_string (socket_fd sock) @ ''error:'' @ k_error K)) (\<lambda>_.
     Inr \<lparr>next_exp_inc_seq_num = 1, con_updates = market_updates, con_run = False,
          incremental_mcast_socket = sock, snapshot_mcast_socket = McastSocket_ctor,
          in_recovery = False, con_iface = iface, con_snapshot_ip = snapshot_ip,
          con_snapshot_port = snapshot_port, snapshot_queued_msgs = [],
          incremental_queued_msgs = []\<rparr>)))"

definition MarketDataConsumer_start :: "(int \<Rightarrow> int) \<Rightarrow> MarketDataConsumer \<Rightarrow> MarketDataConsumer res" where
  "MarketDataConsumer_start aff c =
     bindr (ASSERT (createAndStartThread aff (- 1)) ''Failed to start MarketData thread.'')
       (\<lambda>_. Inr (c\<lparr>con_run := True\<rparr>))"

definition MarketDataConsumer_stop :: "MarketDataConsumer \<Rightarrow> MarketDataConsumer" where
  "MarketDataConsumer_stop c = c\<lparr>con_run := False\<rparr>"

definition MarketDataConsumer_dtor :: "MarketDataConsumer \<Rightarrow> MarketDataConsumer" where
  "MarketDataConsumer_dtor c = MarketDataConsumer_stop c"

section \<open>Recovery\<close>

definition startSnapshotSync :: "Kernel \<Rightarrow> MarketDataConsumer \<Rightarrow> MarketDataConsumer res" where
  "startSnapshotSync K c =
     (let c = c\<lparr>snapshot_queued_msgs := [], incremental_queued_msgs := []\<rparr>
      in bindr (McastSocket_init K (con_snapshot_ip c) (con_iface c) (con_snapshot_port c) True
                  (snapshot_mcast_socket c)) (\<lambda>(rc, sock).
         bindr (ASSERT (rc \<ge> 0) (''Unable to create snapshot mcast socket. error:'' @ k_error K)) (\<lambda>_.
         bindr (ASSERT (McastSocket_join K (con_snapshot_ip c) sock)
                  (''Join failed on:'' @ int_to_string (socket_fd sock) @ '' error:'' @ k_error K)) (\<lambda>_.
         Inr (c\<lparr>snapshot_mcast_socket := sock\<rparr>)))))"

definition is_marker :: "MEMarketUpdate \<Rightarrow> bool" where
  "is_marker u \<longleftrightarrow> mu_type u = MUT_SNAPSHOT_START \<or> mu_type u = MUT_SNAPSHOT_END"

text \<open>The loop over the queued incremental updates: whether there was no gap, the next expected
  number, and the events to deliver.\<close>

fun collect_incrementals ::
  "64 word \<Rightarrow> MEMarketUpdate list \<Rightarrow> QueuedMarketUpdates \<Rightarrow> bool \<times> 64 word \<times> MEMarketUpdate list" where
  "collect_incrementals n events [] = (True, n, events)"
| "collect_incrementals n events ((k, v) # m) =
     (if k < n then collect_incrementals n events m
      else if k \<noteq> n then (False, n, events)
      else collect_incrementals (n + 1) (if is_marker v then events else events @ [v]) m)"

text \<open>
  The body of the loop over the queued snapshot messages, at its first element: all that
  should follow the loop stands inside it. It leaves the loop or returns, except after a
  complete recovery: then the map has just been cleared, and the loop advances an iterator
  into it. The test of \<open>have_complete_snapshot\<close> after the \<open>break\<close> that clears it never fails.
\<close>

definition sync_body :: "64 word \<times> MEMarketUpdate \<Rightarrow> MarketDataConsumer \<Rightarrow> MarketDataConsumer res" where
  "sync_body itr c =
     (let (k, v) = itr
      in if k \<noteq> 0 then Inr c
         else let events = (if is_marker v then [] else [v]);
                  last_snapshot_msg = snd (last (snapshot_queued_msgs c))
              in if mu_type last_snapshot_msg \<noteq> MUT_SNAPSHOT_END then Inr c
                 else let (complete, n, events) =
                            collect_incrementals (mu_order_id last_snapshot_msg + 1) events
                              (incremental_queued_msgs c);
                          c = c\<lparr>next_exp_inc_seq_num := n\<rparr>
                      in if \<not> complete then Inr (c\<lparr>snapshot_queued_msgs := []\<rparr>)
                         else bindr (fold_res lfq_push events (con_updates c)) (\<lambda>q.
                              let c = c\<lparr>con_updates := q, snapshot_queued_msgs := [],
                                        incremental_queued_msgs := [], in_recovery := False,
                                        snapshot_mcast_socket := McastSocket_leave (con_snapshot_ip c)
                                          (con_snapshot_port c) (snapshot_mcast_socket c)\<rparr>
                              in Inl (Undefined ''use of an invalidated iterator'')))"

definition checkSnapshotSync :: "MarketDataConsumer \<Rightarrow> MarketDataConsumer res" where
  "checkSnapshotSync c =
     (case snapshot_queued_msgs c of
        [] \<Rightarrow> Inr c
      | first # _ \<Rightarrow>
          if mu_type (snd first) \<noteq> MUT_SNAPSHOT_START
          then Inr (c\<lparr>snapshot_queued_msgs := []\<rparr>)
          else sync_body first c)"

text \<open>Both branches store the message in the snapshot's map.\<close>

definition queueMessage :: "bool \<Rightarrow> MDPMarketUpdate \<Rightarrow> MarketDataConsumer \<Rightarrow> MarketDataConsumer res" where
  "queueMessage is_snapshot m c =
     (let c = (if is_snapshot
               then let q = (if map_of (snapshot_queued_msgs c) (mdp_seq_num m) \<noteq> None then []
                             else snapshot_queued_msgs c)
                    in c\<lparr>snapshot_queued_msgs := map_put (mdp_seq_num m) (me_market_update m) q\<rparr>
               else c\<lparr>snapshot_queued_msgs :=
                        map_put (mdp_seq_num m) (me_market_update m) (snapshot_queued_msgs c)\<rparr>)
      in checkSnapshotSync c)"

section \<open>Receiving\<close>

text \<open>One update of the receive buffer.\<close>

definition consume_one :: "Kernel \<Rightarrow> bool \<Rightarrow> MDPMarketUpdate \<Rightarrow> MarketDataConsumer \<Rightarrow> MarketDataConsumer res" where
  "consume_one K is_snapshot m c =
     (let already_in_recovery = in_recovery c;
          c = c\<lparr>in_recovery := already_in_recovery \<or> mdp_seq_num m \<noteq> next_exp_inc_seq_num c\<rparr>
      in if in_recovery c
         then bindr (if \<not> already_in_recovery then startSnapshotSync K c else Inr c)
                (queueMessage is_snapshot m)
         else if \<not> is_snapshot
         then let c = c\<lparr>next_exp_inc_seq_num := next_exp_inc_seq_num c + 1\<rparr>
              in bindr (lfq_push (me_market_update m) (con_updates c)) (\<lambda>q. Inr (c\<lparr>con_updates := q\<rparr>))
         else Inr c)"

definition MarketDataConsumer_recvCallback ::
  "Kernel \<Rightarrow> McastSocket \<Rightarrow> MarketDataConsumer \<Rightarrow> (McastSocket \<times> MarketDataConsumer) res" where
  "MarketDataConsumer_recvCallback K s c =
     (let is_snapshot = (socket_fd s = socket_fd (snapshot_mcast_socket c))
      in if is_snapshot \<and> \<not> in_recovery c
         then Inr (s\<lparr>mc_next_rcv_valid_index := 0\<rparr>, c)
         else if mc_next_rcv_valid_index s \<ge> 42
         then let k = mc_next_rcv_valid_index s div 42
              in bindr (fold_res (\<lambda>i. consume_one K is_snapshot (decode_MDPMarketUpdate (buf_read i 42 (inbound_data s))))
                          (map (\<lambda>j. 42 * j) [0..<k]) c) (\<lambda>c.
                 bindr (memcpy_within McastBufferSize 0 (42 * k) (mc_next_rcv_valid_index s - 42 * k)
                          (inbound_data s)) (\<lambda>buf.
                 Inr (s\<lparr>inbound_data := buf, mc_next_rcv_valid_index := mc_next_rcv_valid_index s - 42 * k\<rparr>, c)))
         else Inr (s, c))"

text \<open>The callback of the incremental socket may open the snapshot socket, which is the other
  field; the callback of the snapshot socket never does, as it only works during recovery.\<close>

definition MarketDataConsumer_iteration ::
  "Kernel \<Rightarrow> NetIO \<Rightarrow> NetIO \<Rightarrow> MarketDataConsumer \<Rightarrow> MarketDataConsumer res" where
  "MarketDataConsumer_iteration K io io' c =
     bindr (McastSocket_sendAndRecv io (MarketDataConsumer_recvCallback K) (incremental_mcast_socket c) c)
       (\<lambda>(_, _, s, c).
     let c = c\<lparr>incremental_mcast_socket := s\<rparr>
     in bindr (McastSocket_sendAndRecv io' (MarketDataConsumer_recvCallback K) (snapshot_mcast_socket c) c)
          (\<lambda>(_, _, s, c). Inr (c\<lparr>snapshot_mcast_socket := s\<rparr>)))"

definition MarketDataConsumer_runs ::
  "Kernel \<Rightarrow> NetIO \<Rightarrow> NetIO \<Rightarrow> ((MarketDataConsumer \<Rightarrow> MarketDataConsumer) \<times> bool) list
    \<Rightarrow> MarketDataConsumer \<Rightarrow> MarketDataConsumer res" where
  "MarketDataConsumer_runs K io io' sched c = run_while sched (MarketDataConsumer_iteration K io io') c"

section \<open>Updates in sequence\<close>

lemma consume_in_sequence:
  assumes "\<not> in_recovery c" and "lfq_ok (con_updates c)"
    and "length (lfq_items (con_updates c)) + length us \<le> lfq_capacity (con_updates c)"
  shows "\<exists>c'. fold_res (consume_one K False) (number_updates (next_exp_inc_seq_num c) us) c = Inr c'
    \<and> lfq_items (con_updates c') = lfq_items (con_updates c) @ us \<and> lfq_ok (con_updates c')
    \<and> next_exp_inc_seq_num c' = next_exp_inc_seq_num c + of_nat (length us) \<and> \<not> in_recovery c'
    \<and> snapshot_mcast_socket c' = snapshot_mcast_socket c"
  using assms
proof (induction us arbitrary: c)
  case (Cons u us)
  obtain q where q: "lfq_push u (con_updates c) = Inr q" "lfq_ok q"
    "lfq_items q = lfq_items (con_updates c) @ [u]" "lfq_capacity q = lfq_capacity (con_updates c)"
    using lfq.push_law[OF Cons.prems(2), of u] Cons.prems(3) by auto
  let ?c = "c\<lparr>next_exp_inc_seq_num := next_exp_inc_seq_num c + 1, con_updates := q\<rparr>"
  have "c\<lparr>in_recovery := False, next_exp_inc_seq_num := next_exp_inc_seq_num c + 1, con_updates := q\<rparr> = ?c"
    using Cons.prems(1) by simp
  then have "consume_one K False \<lparr>mdp_seq_num = next_exp_inc_seq_num c, me_market_update = u\<rparr> c = Inr ?c"
    using q(1) Cons.prems(1) by (simp add: consume_one_def)
  moreover have "\<exists>c'. fold_res (consume_one K False) (number_updates (next_exp_inc_seq_num ?c) us) ?c = Inr c'
    \<and> lfq_items (con_updates c') = lfq_items (con_updates ?c) @ us \<and> lfq_ok (con_updates c')
    \<and> next_exp_inc_seq_num c' = next_exp_inc_seq_num ?c + of_nat (length us) \<and> \<not> in_recovery c'
    \<and> snapshot_mcast_socket c' = snapshot_mcast_socket ?c"
    by (rule Cons.IH) (use Cons.prems q in simp_all)
  ultimately show ?case using q(3) by (auto simp: add.assoc)
qed simp

section \<open>Recovery does not deliver\<close>

text \<open>During a recovery: the engine's queue stays as it is and the recovery goes on.\<close>

definition stuck :: "MarketDataConsumer \<Rightarrow> MarketDataConsumer \<Rightarrow> bool" where
  "stuck c c' \<longleftrightarrow> con_updates c' = con_updates c \<and> in_recovery c'"

lemma checkSnapshotSync_stuck:
  "in_recovery c \<Longrightarrow> checkSnapshotSync c = Inr c' \<Longrightarrow> stuck c c'"
  by (auto simp: checkSnapshotSync_def sync_body_def stuck_def Let_def split: list.splits if_splits
      prod.splits elim!: bindr_InrE)

lemma queueMessage_stuck:
  "in_recovery c \<Longrightarrow> queueMessage is_snapshot m c = Inr c' \<Longrightarrow> stuck c c'"
  unfolding queueMessage_def Let_def
  by (drule checkSnapshotSync_stuck[rotated]) (auto simp: stuck_def split: if_splits)

lemma consume_stuck:
  assumes "in_recovery c \<or> mdp_seq_num m \<noteq> next_exp_inc_seq_num c" "consume_one K is_snapshot m c = Inr c'"
  shows "stuck c c'"
proof (cases "in_recovery c")
  case True
  have c: "c\<lparr>in_recovery := True\<rparr> = c" using True by simp
  have "queueMessage is_snapshot m (c\<lparr>in_recovery := True\<rparr>) = Inr c'"
    using assms(2) True by (simp add: consume_one_def)
  from this[unfolded c] show ?thesis using queueMessage_stuck True by blast
next
  case False
  let ?c = "c\<lparr>in_recovery := True\<rparr>"
  obtain c1 where c1: "startSnapshotSync K ?c = Inr c1" "queueMessage is_snapshot m c1 = Inr c'"
    using False assms by (auto simp: consume_one_def elim: bindr_InrE)
  then have "in_recovery c1" "con_updates c1 = con_updates c"
    by (auto simp: startSnapshotSync_def Let_def elim!: bindr_InrE)
  then show ?thesis using queueMessage_stuck[OF _ c1(2)] by (simp add: stuck_def)
qed

end
