(* ===== verification/TradingMain.thy ===== *)
theory TradingMain
  imports TradeEngine OrderGateway MarketDataConsumer
begin

text \<open>
  \<open>trading/trading_main.cpp\<close>: the trading client. It reads the configuration from the command
  line, builds and starts the three components, plays random orders when asked to, waits
  until the exchange is silent and shuts down. \<open>atof\<close> and \<open>rand\<close> are parameters; \<open>rand n\<close> is the
  \<open>n\<close>-th value \<open>rand\<close> returns. What the other threads do while main sleeps is an argument.
\<close>

record TradingClient =
  tc_engine :: TradeEngine
  tc_gateway :: OrderGateway
  tc_consumer :: MarketDataConsumer

section \<open>The command line\<close>

text \<open>Five arguments for each instrument; the array of configurations has one place for each of
  the eight instruments, and a pointer behind the last argument is null.\<close>

fun read_cfg ::
  "(string \<Rightarrow> double) \<Rightarrow> string list \<Rightarrow> nat \<Rightarrow> TradeEngineCfgHashMap \<Rightarrow> TradeEngineCfgHashMap res" where
  "read_cfg atof [] next_ticker_id cfg = Inr cfg"
| "read_cfg atof (c # t # o_max # p_max # l_max # args) next_ticker_id cfg =
     bindr (at_idx ME_MAX_TICKERS next_ticker_id cfg) (\<lambda>_.
     read_cfg atof args (next_ticker_id + 1) (cfg(next_ticker_id :=
       \<lparr>clip = of_int (atoi c), threshold = atof t,
        risk_cfg = \<lparr>max_order_size = of_int (atoi o_max), max_position = of_int (atoi p_max),
                    max_loss = atof l_max\<rparr>\<rparr>)))"
| "read_cfg atof args next_ticker_id cfg = Inl (Undefined ''null pointer dereference'')"

section \<open>Construction\<close>

definition trading_start ::
  "Kernel \<Rightarrow> (int \<Rightarrow> int) \<Rightarrow> TradingRaw \<Rightarrow> TCPSocket \<Rightarrow> ClientId \<Rightarrow> AlgoType \<Rightarrow> TradeEngineCfgHashMap
    \<Rightarrow> TradingClient res" where
  "trading_start K aff raw sock client_id algo_type ticker_cfg =
     (let client_requests = LFQueue_ctor MEClientRequest_default ME_MAX_CLIENT_UPDATES;
          client_responses = LFQueue_ctor MEClientResponse_default ME_MAX_CLIENT_UPDATES;
          market_updates = LFQueue_ctor MEMarketUpdate_default ME_MAX_MARKET_UPDATES
      in bindr (TradeEngine_start aff (TradeEngine_ctor raw client_id algo_type ticker_cfg
                  client_requests client_responses market_updates)) (\<lambda>e.
         bindr (OrderGateway_start K aff (OrderGateway_ctor sock client_id client_requests
                  client_responses ''127.0.0.1'' ''lo'' 12345)) (\<lambda>g.
         bindr (MarketDataConsumer_ctor K market_updates ''lo'' ''233.252.14.1'' 20000
                  ''233.252.14.3'' 20001) (\<lambda>c.
         bindr (MarketDataConsumer_start aff c) (\<lambda>c.
         Inr \<lparr>tc_engine = e, tc_gateway = g, tc_consumer = c\<rparr>)))))"

text \<open>\<open>args\<close> are the arguments after the program's name.\<close>

definition trading_main ::
  "Kernel \<Rightarrow> (int \<Rightarrow> int) \<Rightarrow> TradingRaw \<Rightarrow> TCPSocket \<Rightarrow> (string \<Rightarrow> double) \<Rightarrow> string list
    \<Rightarrow> (ClientId \<times> AlgoType \<times> TradingClient) res" where
  "trading_main K aff raw sock atof args =
     (case args of
        cid # alg # cfgs \<Rightarrow>
          let client_id = of_int (atoi cid); algo_type = stringToAlgoType alg
          in bindr (read_cfg atof cfgs 0 (\<lambda>_. TradeEngineCfg_default)) (\<lambda>ticker_cfg.
             bindr (trading_start K aff raw sock client_id algo_type ticker_cfg) (\<lambda>tc.
             Inr (client_id, algo_type, tc)))
      | _ \<Rightarrow> Inl (Undefined ''null pointer dereference''))"

section \<open>Random orders\<close>

definition base_price :: "(nat \<Rightarrow> nat) \<Rightarrow> nat \<Rightarrow> Price" where
  "base_price rand i = of_nat (rand i mod 100 + 100)"

text \<open>The request of the \<open>i\<close>-th iteration.\<close>

definition random_request :: "(nat \<Rightarrow> nat) \<Rightarrow> ClientId \<Rightarrow> nat \<Rightarrow> OrderId \<Rightarrow> MEClientRequest" where
  "random_request rand client_id i order_id =
     (let d = (\<lambda>j. rand (ME_MAX_TICKERS + 5 * i + j));
          ticker_id = d 0 mod ME_MAX_TICKERS
      in \<lparr>rq_type = CRT_NEW, rq_client_id = client_id, rq_ticker_id = of_nat ticker_id,
          rq_order_id = order_id, rq_side = (if d 3 mod 2 \<noteq> 0 then BUY else SELL),
          rq_price = base_price rand ticker_id + of_nat (d 1 mod 10) + 1,
          rq_qty = of_nat (1 + d 2 mod 100 + 1)\<rparr>)"

text \<open>The state of the loop: the next order id, the requests so far, the engine. \<open>envs i\<close> is what
  the other threads do in the two naps of an iteration.\<close>

definition random_step ::
  "(nat \<Rightarrow> nat) \<Rightarrow> ClientId \<Rightarrow> (nat \<Rightarrow> (TradeEngine \<Rightarrow> TradeEngine) \<times> (TradeEngine \<Rightarrow> TradeEngine)) \<Rightarrow> nat
    \<Rightarrow> OrderId \<times> MEClientRequest list \<times> TradeEngine
    \<Rightarrow> (OrderId \<times> MEClientRequest list \<times> TradeEngine) res" where
  "random_step rand client_id envs i st =
     (let (order_id, vec, e) = st; new_request = random_request rand client_id i order_id
      in bindr (TradeEngine_sendClientRequest new_request e) (\<lambda>e.
         let e = fst (envs i) e;
             vec = vec @ [new_request];
             cxl_index = rand (ME_MAX_TICKERS + 5 * i + 4) mod length vec;
             cxl_request = (vec ! cxl_index)\<lparr>rq_type := CRT_CANCEL\<rparr>
         in bindr (TradeEngine_sendClientRequest cxl_request e) (\<lambda>e.
            Inr (order_id + 1, vec, snd (envs i) e))))"

definition random_orders ::
  "(nat \<Rightarrow> nat) \<Rightarrow> ClientId \<Rightarrow> (nat \<Rightarrow> (TradeEngine \<Rightarrow> TradeEngine) \<times> (TradeEngine \<Rightarrow> TradeEngine)) \<Rightarrow> nat
    \<Rightarrow> TradeEngine \<Rightarrow> (OrderId \<times> MEClientRequest list \<times> TradeEngine) res" where
  "random_orders rand client_id envs n e =
     fold_res (random_step rand client_id envs) [0..<n] (ucast (client_id * 1000), [], e)"

section \<open>Waiting and shutting down\<close>

text \<open>Each look at the clock: what happened before it and what it shows.\<close>

fun wait_silent :: "((TradeEngine \<Rightarrow> TradeEngine) \<times> Nanos) list \<Rightarrow> TradeEngine \<Rightarrow> TradeEngine res option" where
  "wait_silent [] e = None"
| "wait_silent ((env, now) # looks) e =
     (case silentSeconds now (env e) of
        Inl x \<Rightarrow> Some (Inl x)
      | Inr s \<Rightarrow> if s < 60 then wait_silent looks (env e) else Some (Inr (env e)))"

definition trading_shutdown ::
  "(double \<Rightarrow> string) \<Rightarrow> (TradeEngine \<Rightarrow> TradeEngine) list \<Rightarrow> TradingClient \<Rightarrow> TradingClient res option" where
  "trading_shutdown fmt envs tc =
     map_option (\<lambda>r. bindr r (\<lambda>e.
         let c = MarketDataConsumer_stop (tc_consumer tc);
             g = OrderGateway_stop (tc_gateway tc)
         in bindr (TradeEngine_dtor e) (\<lambda>e.
            Inr \<lparr>tc_engine = e, tc_gateway = OrderGateway_dtor g, tc_consumer = MarketDataConsumer_dtor c\<rparr>)))
       (TradeEngine_stop fmt envs (tc_engine tc))"

section \<open>One iteration of each thread on the shared queues\<close>

definition trade_turn :: "(nat \<Rightarrow> Nanos) \<Rightarrow> TradingClient \<Rightarrow> TradingClient res" where
  "trade_turn clock tc =
     bindr (TradeEngine_iteration clock
              ((tc_engine tc)\<lparr>outgoing_ogw_requests := outgoing_requests (tc_gateway tc),
                 incoming_ogw_responses := incoming_responses (tc_gateway tc),
                 incoming_md_updates := con_updates (tc_consumer tc)\<rparr>)) (\<lambda>e.
     Inr (tc\<lparr>tc_engine := e,
            tc_gateway := (tc_gateway tc)\<lparr>outgoing_requests := outgoing_ogw_requests e,
               incoming_responses := incoming_ogw_responses e\<rparr>,
            tc_consumer := (tc_consumer tc)\<lparr>con_updates := incoming_md_updates e\<rparr>\<rparr>))"

definition gateway_turn :: "NetIO \<Rightarrow> TradingClient \<Rightarrow> TradingClient res" where
  "gateway_turn io tc =
     bindr (OrderGateway_iteration io (tc_gateway tc)) (\<lambda>g.
     Inr (tc\<lparr>tc_gateway := g,
            tc_engine := (tc_engine tc)\<lparr>outgoing_ogw_requests := outgoing_requests g,
               incoming_ogw_responses := incoming_responses g\<rparr>\<rparr>))"

definition consumer_turn :: "Kernel \<Rightarrow> NetIO \<Rightarrow> NetIO \<Rightarrow> TradingClient \<Rightarrow> TradingClient res" where
  "consumer_turn K io io' tc =
     bindr (MarketDataConsumer_iteration K io io' (tc_consumer tc)) (\<lambda>c.
     Inr (tc\<lparr>tc_consumer := c,
            tc_engine := (tc_engine tc)\<lparr>incoming_md_updates := con_updates c\<rparr>\<rparr>))"

section \<open>Bounds of the random orders\<close>

definition random_ok :: "ClientId \<Rightarrow> OrderId \<Rightarrow> MEClientRequest list \<Rightarrow> bool" where
  "random_ok client_id first vec \<longleftrightarrow>
     (\<forall>i < length vec. rq_order_id (vec ! i) = first + of_nat i \<and> rq_type (vec ! i) = CRT_NEW
        \<and> rq_client_id (vec ! i) = client_id \<and> unat (rq_ticker_id (vec ! i)) < ME_MAX_TICKERS
        \<and> 101 \<le> unat (rq_price (vec ! i)) \<and> unat (rq_price (vec ! i)) \<le> 209
        \<and> 2 \<le> unat (rq_qty (vec ! i)) \<and> unat (rq_qty (vec ! i)) \<le> 101)"

lemma random_request_bounds:
  "unat (rq_ticker_id (random_request rand cid i n)) < ME_MAX_TICKERS"
  "101 \<le> unat (rq_price (random_request rand cid i n)) \<and> unat (rq_price (random_request rand cid i n)) \<le> 209"
  "2 \<le> unat (rq_qty (random_request rand cid i n)) \<and> unat (rq_qty (random_request rand cid i n)) \<le> 101"
proof -
  let ?t = "rand (ME_MAX_TICKERS + 5 * i + 0) mod ME_MAX_TICKERS"
  let ?b = "rand ?t mod 100 + 100" and ?d = "rand (ME_MAX_TICKERS + 5 * i + 1) mod 10"
  have t: "?t < 8" by (simp add: limit_defs)
  then show "unat (rq_ticker_id (random_request rand cid i n)) < ME_MAX_TICKERS"
    by (simp add: random_request_def Let_def unat_of_nat limit_defs)
  have "rq_price (random_request rand cid i n) = of_nat (?b + ?d + 1)"
    by (simp add: random_request_def Let_def base_price_def)
  moreover have "?b + ?d + 1 \<le> 209" "101 \<le> ?b + ?d + 1"
    using mod_less_divisor[of 100 "rand ?t"] mod_less_divisor[of 10 "rand (ME_MAX_TICKERS + 5 * i + 1)"]
    by linarith+
  ultimately show "101 \<le> unat (rq_price (random_request rand cid i n))
      \<and> unat (rq_price (random_request rand cid i n)) \<le> 209"
    by (simp only: unat_of_nat) simp
  let ?q = "1 + rand (ME_MAX_TICKERS + 5 * i + 2) mod 100 + 1"
  have "rq_qty (random_request rand cid i n) = of_nat ?q"
    by (simp add: random_request_def Let_def)
  moreover have "?q \<le> 101" "2 \<le> ?q"
    using mod_less_divisor[of 100 "rand (ME_MAX_TICKERS + 5 * i + 2)"] by linarith+
  ultimately show "2 \<le> unat (rq_qty (random_request rand cid i n))
      \<and> unat (rq_qty (random_request rand cid i n)) \<le> 101"
    by (simp only: unat_of_nat) simp
qed

lemma random_orders_snoc:
  "random_orders rand cid envs (Suc n) e
    = bindr (random_orders rand cid envs n e) (random_step rand cid envs n)"
  by (simp add: random_orders_def fold_res_append bindr_def split: sum.splits)

lemma random_orders_inv:
  "random_orders rand cid envs n e = Inr (oid, vec, e') \<Longrightarrow>
     length vec = n \<and> oid = ucast (cid * 1000) + of_nat n \<and> random_ok cid (ucast (cid * 1000)) vec"
proof (induction n arbitrary: oid vec e')
  case 0
  then show ?case by (simp add: random_orders_def random_ok_def)
next
  case (Suc n)
  then obtain oid1 vec1 e1 where r: "random_orders rand cid envs n e = Inr (oid1, vec1, e1)"
    "random_step rand cid envs n (oid1, vec1, e1) = Inr (oid, vec, e')"
    by (auto simp: random_orders_snoc elim: bindr_InrE)
  note ih = Suc.IH[OF r(1)]
  have v: "vec = vec1 @ [random_request rand cid n oid1]" "oid = oid1 + 1"
    using r(2) by (auto simp: random_step_def Let_def elim!: bindr_InrE)
  have "rq_order_id (random_request rand cid n oid1) = oid1" "rq_type (random_request rand cid n oid1) = CRT_NEW"
    "rq_client_id (random_request rand cid n oid1) = cid"
    by (simp_all add: random_request_def Let_def)
  then have "random_ok cid (ucast (cid * 1000)) vec"
    using ih random_request_bounds[of rand cid n oid1] unfolding random_ok_def v(1)
    by (auto simp: nth_append less_Suc_eq)
  then show ?case using ih v by simp
qed

end
