(* ===== verification/NetProps.thy ===== *)
theory NetProps
  imports TradingMain ExchangeProps
begin

text \<open>
  The properties of what passes between exchange and trading client: responses from the gateway's
  socket to the trade engine, market updates from the publisher to the consumer, and the recovery
  that delivers nothing.
\<close>

section \<open>Buffers\<close>

text \<open>A buffer whose valid bytes start with messages.\<close>

lemma buf_read_split:
  assumes "buf_read 0 n buf = xs @ ys"
  shows "buf_read 0 (length xs) buf = xs" "buf_read (length xs) (length ys) buf = ys"
proof -
  have "n = length xs + length ys" using assms by (metis length_append length_buf_read)
  then have "buf_read 0 (length xs) buf @ buf_read (length xs) (length ys) buf = xs @ ys"
    using assms buf_read_append[of 0 "length xs" "length ys" buf] by simp
  then show "buf_read 0 (length xs) buf = xs" "buf_read (length xs) (length ys) buf = ys"
    by (simp_all add: append_eq_append_conv)
qed

text \<open>Moving the rest of a buffer to its front.\<close>

lemma memcpy_front:
  assumes "i + m \<le> cap" "m \<le> i" "buf_read i m buf = rest"
  shows "\<exists>buf'. memcpy_within cap 0 i m buf = Inr buf' \<and> buf_read 0 m buf' = rest"
proof -
  have "length rest = m" using assms(3) by (metis length_buf_read)
  then have "buf_read 0 m (buf_write 0 rest buf) = rest" using buf_read_write by metis
  then show ?thesis using assms by (auto simp: memcpy_within_def)
qed

lemma concat_enc_length:
  "(\<And>m. length (enc m) = sz) \<Longrightarrow> length (concat (map enc ms)) = sz * length ms"
  by (induction ms) auto

section \<open>Responses\<close>

lemma number_responses_canon:
  "\<forall>r \<in> set rs. canon_response r \<Longrightarrow> list_all (\<lambda>r. canon_response (me_client_response r)) (number_responses n rs)"
  by (induction rs arbitrary: n) auto

text \<open>C8: Responses reach the trade engine. When the gateway's receive buffer holds one or
  more of this client's next responses in sequence, followed by less than one more message, then
  \<open>recvCallback\<close> hands exactly these responses to the trade engine in order, expects
  the number after the last, and moves the incomplete message to the front of the buffer; the
  copying stays inside the buffer and its source and target do not overlap. (The responses carry the
  client's own id and enumerators a byte can hold, the queue to the trade engine is in order and has
  room for them, and the valid bytes lie inside the buffer.)\<close>

theorem responses_reach_the_trade_engine:
  assumes "\<forall>r \<in> set rs. rs_client_id r = gw_client_id g \<and> canon_response r"
    and "buf_read 0 (next_rcv_valid_index s) (rcv_buffer s)
       = concat (map encode_OMClientResponse (number_responses (next_exp_seq_num g) rs)) @ rest"
    and "rs \<noteq> []" "length rest < 50" "next_rcv_valid_index s \<le> TCPBufferSize"
    and "lfq_ok (incoming_responses g)"
    and "length (lfq_items (incoming_responses g)) + length rs \<le> lfq_capacity (incoming_responses g)"
  shows "\<exists>s' g'. OrderGateway_recvCallback s rx_time g = Inr (s', g')
    \<and> lfq_items (incoming_responses g') = lfq_items (incoming_responses g) @ rs
    \<and> next_exp_seq_num g' = next_exp_seq_num g + of_nat (length rs)
    \<and> buf_read 0 (next_rcv_valid_index s') (rcv_buffer s') = rest"
proof -
  let ?ms = "number_responses (next_exp_seq_num g) rs" and ?n = "next_rcv_valid_index s"
  let ?enc = "concat (map encode_OMClientResponse ?ms)"
  have l: "length ?enc = 50 * length rs"
    by (simp add: concat_enc_length[of _ 50] om_response_codec.enc_length)
  have n: "?n = 50 * length rs + length rest"
    using arg_cong[OF assms(2), of length] l by simp
  note b = buf_read_split[OF assms(2), unfolded l]
  obtain g' where g': "fold_res gateway_response ?ms g = Inr g'"
    "lfq_items (incoming_responses g') = lfq_items (incoming_responses g) @ rs"
    "next_exp_seq_num g' = next_exp_seq_num g + of_nat (length rs)"
    using gateway_responses_ok[of rs g] assms(1,6,7) by auto
  have f: "fold_res (\<lambda>i. gateway_response (decode_OMClientResponse (buf_read i 50 (rcv_buffer s))))
      (map (\<lambda>j. 50 * j) [0..<length rs]) g = fold_res gateway_response ?ms g"
    using om_response_codec.fold_frames[of ?ms "rcv_buffer s" gateway_response g] b(1)
      number_responses_canon[of rs] assms(1) by simp
  have "1 \<le> length rs" using assms(3) by (cases rs) auto
  then have k: "?n div 50 = length rs" "50 \<le> ?n" "length rest \<le> 50 * length rs"
    "50 * length rs + length rest \<le> TCPBufferSize"
    using n assms(4,5) by simp_all
  obtain buf where "memcpy_within TCPBufferSize 0 (50 * length rs) (length rest) (rcv_buffer s) = Inr buf"
    "buf_read 0 (length rest) buf = rest"
    using memcpy_front[OF k(4,3) b(2)] by blast
  then show ?thesis
    using f g' n k by (simp add: OrderGateway_recvCallback_def Let_def del: upt_Suc)
qed

text \<open>A socket that has received the bytes \<open>bs\<close>, and a new gateway of client 1.\<close>

definition received :: "byte list \<Rightarrow> TCPSocket" where
  "received bs = (TCPSocket_ctor (\<lambda>_. 0) (buf_write 0 bs (\<lambda>_. 0)))\<lparr>next_rcv_valid_index := length bs\<rparr>"

lemma received_simps [simp]:
  "next_rcv_valid_index (received bs) = length bs" "buf_read 0 (length bs) (rcv_buffer (received bs)) = bs"
  by (simp_all add: received_def TCPSocket_ctor_def)

definition new_gateway :: OrderGateway where
  "new_gateway = OrderGateway_ctor (received []) 1 (LFQueue_ctor MEClientRequest_default 8)
     (LFQueue_ctor MEClientResponse_default 8) ''127.0.0.1'' ''lo'' 12345"

lemma new_gateway_simps [simp]:
  "gw_client_id new_gateway = 1" "next_exp_seq_num new_gateway = 1" "next_outgoing_seq_num new_gateway = 1"
  "incoming_responses new_gateway = LFQueue_ctor MEClientResponse_default 8"
  "outgoing_requests new_gateway = LFQueue_ctor MEClientRequest_default 8"
  "next_send_valid_index (gw_socket new_gateway) = 0" "gw_pending new_gateway = []"
  by (simp_all add: new_gateway_def OrderGateway_ctor_def TCPSocket_ctor_def gw_pending_def buf_read_def)

definition sample_response :: MEClientResponse where
  "sample_response = \<lparr>rs_type = CRS_ACCEPTED, rs_client_id = 1, rs_ticker_id = 0, rs_client_order_id = 1,
     rs_market_order_id = 1, rs_side = BUY, rs_price = 100, rs_exec_qty = 0, rs_leaves_qty = 10\<rparr>"

lemma sample_response_ok [simp]: "rs_client_id sample_response = 1" "canon_response sample_response"
  by (simp_all add: sample_response_def canon_response_def clientResponseType_of_def side_of_byte_def)

theorem responses_reach_the_trade_engine_witness:
  "\<exists>s' g'. OrderGateway_recvCallback
       (received (encode_OMClientResponse \<lparr>omrs_seq_num = 1, me_client_response = sample_response\<rparr> @ [7])) 0 new_gateway
       = Inr (s', g')
    \<and> lfq_items (incoming_responses g') = [sample_response]
    \<and> buf_read 0 (next_rcv_valid_index s') (rcv_buffer s') = [7]"
proof -
  let ?s = "received (encode_OMClientResponse \<lparr>omrs_seq_num = 1, me_client_response = sample_response\<rparr> @ [7])"
  have "next_rcv_valid_index ?s \<le> TCPBufferSize"
    by (simp add: om_response_codec.enc_length TCPBufferSize_def)
  moreover note received_simps(2)[of "encode_OMClientResponse \<lparr>omrs_seq_num = 1, me_client_response = sample_response\<rparr> @ [7]"]
  ultimately show ?thesis
    using responses_reach_the_trade_engine[of "[sample_response]" new_gateway ?s "[7]" 0]
    by (auto simp: lfq_ctor_ok)
qed

section \<open>Market data\<close>

lemma number_updates_canon:
  "\<forall>u \<in> set us. canon_update u \<Longrightarrow> list_all (\<lambda>m. canon_update (me_market_update m)) (number_updates n us)"
  by (induction us arbitrary: n) auto

text \<open>The callback of the incremental socket, on whole messages in sequence.\<close>

lemma consumer_callback_ok:
  assumes "\<not> in_recovery c" "lfq_ok (con_updates c)"
    and "length (lfq_items (con_updates c)) + length us \<le> lfq_capacity (con_updates c)"
    and "\<forall>u \<in> set us. canon_update u" "socket_fd s \<noteq> socket_fd (snapshot_mcast_socket c)"
    and "buf_read 0 (mc_next_rcv_valid_index s) (inbound_data s)
       = concat (map encode_MDPMarketUpdate (number_updates (next_exp_inc_seq_num c) us))"
    and "mc_next_rcv_valid_index s \<le> McastBufferSize" "us \<noteq> []"
  shows "\<exists>s' c'. MarketDataConsumer_recvCallback K s c = Inr (s', c')
    \<and> mc_next_rcv_valid_index s' = 0 \<and> mc_next_send_valid_index s' = mc_next_send_valid_index s
    \<and> lfq_items (con_updates c') = lfq_items (con_updates c) @ us
    \<and> next_exp_inc_seq_num c' = next_exp_inc_seq_num c + of_nat (length us) \<and> \<not> in_recovery c'
    \<and> snapshot_mcast_socket c' = snapshot_mcast_socket c"
proof -
  let ?ms = "number_updates (next_exp_inc_seq_num c) us" and ?n = "mc_next_rcv_valid_index s"
  have n: "?n = 42 * length us"
    using arg_cong[OF assms(6), of length] by (simp add: concat_enc_length[of _ 42] mdp_codec.enc_length)
  obtain c' where c': "fold_res (consume_one K False) ?ms c = Inr c'"
    "lfq_items (con_updates c') = lfq_items (con_updates c) @ us"
    "next_exp_inc_seq_num c' = next_exp_inc_seq_num c + of_nat (length us)" "\<not> in_recovery c'"
    "snapshot_mcast_socket c' = snapshot_mcast_socket c"
    using consume_in_sequence[OF assms(1-3)] by blast
  have f: "fold_res (\<lambda>i. consume_one K False (decode_MDPMarketUpdate (buf_read i 42 (inbound_data s))))
      (map (\<lambda>j. 42 * j) [0..<length us]) c = fold_res (consume_one K False) ?ms c"
    using mdp_codec.fold_frames[of ?ms "inbound_data s" "consume_one K False" c] assms(6)
      number_updates_canon[OF assms(4)] by (simp add: n)
  have k: "?n div 42 = length us" "42 \<le> ?n" using n assms(8) by (cases us; simp)+
  have "memcpy_within McastBufferSize 0 (42 * length us) 0 (inbound_data s) = Inr (inbound_data s)"
    using assms(7) n by (auto simp: memcpy_within_def buf_write_def fun_eq_iff)
  then show ?thesis
    using f c' n k assms(5) by (simp add: MarketDataConsumer_recvCallback_def Let_def del: upt_Suc)
qed

text \<open>C9: Market updates reach the trading client. When the publisher's thread runs once over
  the updates \<open>us\<close> on its queue and the network delivers what it sent to a consumer
  that is not recovering and expects the publisher's next number, then the consumer's thread,
  running once, hands exactly \<open>us\<close> to the trade engine, in order, and expects the
  number after the last; so it is ready for the publisher's next iteration. (The queues are in order
  and have room for \<open>us\<close>, there is at least one update, all fit into the empty send
  buffer at once, each is one a \<open>MEMarketUpdate\<close> can hold, the consumer's receive
  buffer is empty, and nothing else arrives on any socket.)\<close>

theorem updates_reach_the_trading_client:
  assumes "lfq_ok (pub_updates p)" "lfq_items (pub_updates p) = us" "us \<noteq> []" "\<forall>u \<in> set us. canon_update u"
    and "mc_next_send_valid_index (incremental_socket p) = 0" "42 * length us < McastBufferSize"
    and "lfq_ok (snapshot_md_updates p)"
      "length (lfq_items (snapshot_md_updates p)) + length us \<le> lfq_capacity (snapshot_md_updates p)"
    and "\<forall>room. io_recv io room = []"
    and "\<not> in_recovery c" "next_exp_inc_seq_num c = next_inc_seq_num p" "lfq_ok (con_updates c)"
      "length (lfq_items (con_updates c)) + length us \<le> lfq_capacity (con_updates c)"
    and "socket_fd (incremental_mcast_socket c) \<noteq> socket_fd (snapshot_mcast_socket c)"
      "mc_next_rcv_valid_index (incremental_mcast_socket c) = 0"
    and "\<forall>room. io_recv quiet room = []"
  shows "\<exists>wire p'. MarketDataPublisher_iteration io p = Inr (wire, p')
    \<and> (\<exists>c'. MarketDataConsumer_iteration K (io\<lparr>io_recv := (\<lambda>room. wire)\<rparr>) quiet c = Inr c'
        \<and> lfq_items (con_updates c') = lfq_items (con_updates c) @ us
        \<and> \<not> in_recovery c' \<and> next_exp_inc_seq_num c' = next_inc_seq_num p')"
proof -
  let ?wire = "concat (map encode_MDPMarketUpdate (number_updates (next_inc_seq_num p) us))"
  obtain p' where p': "MarketDataPublisher_iteration io p = Inr (?wire, p')"
    "next_inc_seq_num p' = next_inc_seq_num p + of_nat (length us)"
    using iteration_ok[OF assms(1,2,5,6,7,8)] assms(9) by blast
  let ?in = "incremental_mcast_socket c"
  let ?s = "?in\<lparr>inbound_data := buf_write 0 ?wire (inbound_data ?in), mc_next_rcv_valid_index := length ?wire\<rparr>"
  have l: "length ?wire = 42 * length us" by (simp add: concat_enc_length[of _ 42] mdp_codec.enc_length)
  then have w: "?wire \<noteq> []" using assms(3) by (metis length_0_conv mult_eq_0_iff zero_neq_numeral)
  obtain s' c' where c': "MarketDataConsumer_recvCallback K ?s c = Inr (s', c')"
    "lfq_items (con_updates c') = lfq_items (con_updates c) @ us"
    "next_exp_inc_seq_num c' = next_exp_inc_seq_num c + of_nat (length us)" "\<not> in_recovery c'"
    using consumer_callback_ok[OF assms(10,12,13,4), of ?s K] assms(3,6,11,14) l
      buf_read_write[of 0 ?wire "inbound_data ?in", unfolded l] by auto
  have "MarketDataConsumer_iteration K (io\<lparr>io_recv := (\<lambda>room. ?wire)\<rparr>) quiet c
      = Inr (c'\<lparr>incremental_mcast_socket := s'\<lparr>mc_next_send_valid_index := 0\<rparr>,
                snapshot_mcast_socket := (snapshot_mcast_socket c')\<lparr>mc_next_send_valid_index := 0\<rparr>\<rparr>)"
    using c'(1) l w assms(6,15,16)
    by (simp add: MarketDataConsumer_iteration_def McastSocket_sendAndRecv_def Let_def
        del: concat_eq_Nil_conv)
  then show ?thesis using p' c' assms(11) by auto
qed

text \<open>A publisher with one update on its queue, and a consumer of what it sends.\<close>

definition new_consumer :: MarketDataConsumer where
  "new_consumer = \<lparr>next_exp_inc_seq_num = 1, con_updates = LFQueue_ctor MEMarketUpdate_default 4,
     con_run = True, incremental_mcast_socket = McastSocket_ctor\<lparr>socket_fd := 3\<rparr>,
     snapshot_mcast_socket = McastSocket_ctor, in_recovery = False, con_iface = ''lo'',
     con_snapshot_ip = ''233.252.14.1'', con_snapshot_port = 20000, snapshot_queued_msgs = [],
     incremental_queued_msgs = []\<rparr>"

lemma new_consumer_simps [simp]:
  "next_exp_inc_seq_num new_consumer = 1" "con_updates new_consumer = LFQueue_ctor MEMarketUpdate_default 4"
  "incremental_mcast_socket new_consumer = McastSocket_ctor\<lparr>socket_fd := 3\<rparr>"
  "snapshot_mcast_socket new_consumer = McastSocket_ctor" "\<not> in_recovery new_consumer"
  by (simp_all add: new_consumer_def)

definition publisher_of :: "MEMarketUpdateLFQueue \<Rightarrow> MarketDataPublisher" where
  "publisher_of q = \<lparr>next_inc_seq_num = 1, pub_updates = q, snapshot_md_updates = LFQueue_ctor mdp_zero 4,
     pub_run = True, incremental_socket = McastSocket_ctor\<rparr>"

lemma publisher_of_simps [simp]:
  "next_inc_seq_num (publisher_of q) = 1" "pub_updates (publisher_of q) = q"
  "snapshot_md_updates (publisher_of q) = LFQueue_ctor mdp_zero 4"
  "incremental_socket (publisher_of q) = McastSocket_ctor"
  by (simp_all add: publisher_of_def)

lemma pushed_queue:
  "\<exists>q. lfq_ok q \<and> lfq_items q = [MEMarketUpdate_default]"
  using lfq.push_all[of "LFQueue_ctor MEMarketUpdate_default 4" "[MEMarketUpdate_default]"]
    lfq_ctor_ok[of 4 MEMarketUpdate_default] by auto

theorem updates_reach_the_trading_client_witness:
  "\<exists>q wire p'. lfq_items q = [MEMarketUpdate_default]
    \<and> MarketDataPublisher_iteration quiet_io (publisher_of q) = Inr (wire, p')
    \<and> (\<forall>K. \<exists>c'. MarketDataConsumer_iteration K (quiet_io\<lparr>io_recv := (\<lambda>room. wire)\<rparr>) quiet_io new_consumer = Inr c'
        \<and> lfq_items (con_updates c') = [MEMarketUpdate_default] \<and> \<not> in_recovery c')"
proof -
  obtain q where q: "lfq_ok q" "lfq_items q = [MEMarketUpdate_default]" using pushed_queue by blast
  have canon: "canon_update MEMarketUpdate_default"
    by (simp add: canon_update_def MEMarketUpdate_default_def marketUpdateType_of_def side_of_byte_def)
  have *: "\<exists>wire p'. MarketDataPublisher_iteration quiet_io (publisher_of q) = Inr (wire, p')
    \<and> (\<exists>c'. MarketDataConsumer_iteration K (quiet_io\<lparr>io_recv := (\<lambda>room. wire)\<rparr>) quiet_io new_consumer = Inr c'
        \<and> lfq_items (con_updates c') = [MEMarketUpdate_default] \<and> \<not> in_recovery c')" for K
    using updates_reach_the_trading_client[of "publisher_of q" "[MEMarketUpdate_default]" quiet_io new_consumer quiet_io K]
      q canon lfq_ctor_ok[of 4 mdp_zero] lfq_ctor_ok[of 4 MEMarketUpdate_default]
    by (auto simp: McastSocket_ctor_def McastBufferSize_def)
  show ?thesis using *[of undefined] * q(2) by (metis old.prod.inject sum.inject(2))
qed

section \<open>Recovery\<close>



text \<open>A complete snapshot ends in undefined behaviour. During a recovery, when the queued
  snapshot is START, then any messages, then END with nothing missing, the code clears the
  map inside the loop that runs over it and the loop goes on with an iterator into the
  cleared map; and before that it has collected no event, so nothing would be delivered.\<close>

theorem complete_snapshot_is_undefined:
  assumes "snapshot_queued_msgs c = (0, start) # mid @ [(n, stop)]"
    and "mu_type start = MUT_SNAPSHOT_START" "mu_type stop = MUT_SNAPSHOT_END"
    and "incremental_queued_msgs c = []"
  shows "\<exists>msg. checkSnapshotSync c = Inl (Undefined msg)"
  using assms by (simp add: checkSnapshotSync_def sync_body_def is_marker_def)

theorem complete_snapshot_is_undefined_witness:
  "\<exists>msg. checkSnapshotSync (new_consumer\<lparr>snapshot_queued_msgs :=
      [(0, MEMarketUpdate_default\<lparr>mu_type := MUT_SNAPSHOT_START\<rparr>), (1, MEMarketUpdate_default),
       (2, MEMarketUpdate_default\<lparr>mu_type := MUT_SNAPSHOT_END\<rparr>)]\<rparr>) = Inl (Undefined msg)"
  by (rule complete_snapshot_is_undefined[where mid = "[(1, MEMarketUpdate_default)]"
        and start = "MEMarketUpdate_default\<lparr>mu_type := MUT_SNAPSHOT_START\<rparr>"
        and stop = "MEMarketUpdate_default\<lparr>mu_type := MUT_SNAPSHOT_END\<rparr>" and n = 2])
    (simp_all add: new_consumer_def)

end
