(* ===== verification/PPSCallbacks.thy ===== *)
theory PPSCallbacks
  imports Prelude "HOL-Library.Sublist"
begin

text \<open>
  \<open>testPPS/pps_integrated_callbacks_claude.cpp\<close>: readers of PPS objects that call subscribers. There
  is one \<open>SubscriptionManager\<close> per data type, a function-local static, so it belongs to the process
  and not to a reader. Subscribers are objects with a number; a weak pointer is the number of an
  object or empty, and it can be locked while the object has an owner. What a subscriber does when
  it is called is a parameter \<open>h\<close>: it may depend on all calls so far, use the readers, release
  objects and end with an exception. \<open>open\<close>, \<open>ionotify\<close> and \<open>read\<close> are parameters; what the code relies
  on is that \<open>ionotify\<close> with \<open>_NOTIFY_ACTION_POLLARM\<close> arms the notification when it returns 0, and
  reports a condition that holds already with a positive result and without arming anything.
  Locking a \<open>std::mutex\<close> that the thread holds is undefined behaviour (\<open>Locked_up\<close>). The views' output
  is left out.
\<close>

section \<open>The state\<close>

datatype exn = Std_exception string | Other_exception

datatype ('s, 'a) outcome = Returned 'a | Raised exn 's | Locked_up

datatype ('ty, 'd) call = Update 'ty nat string 'd | Failure 'ty nat string string

type_synonym ('ty, 'd) parser = "'ty \<times> (string \<Rightarrow> exn + 'd)"

record ('ty, 'd) cb_reader =
  cb_running :: bool
  cb_chid :: int
  cb_coid :: int
  pps_fds :: "(string \<times> int) list"
  fd_to_path :: "int \<Rightarrow> string option"
  parsers :: "string \<Rightarrow> ('ty, 'd) parser option"
  parser_mutex :: bool

record ('ty, 'd) cb =
  subscriptions :: "'ty \<Rightarrow> string \<Rightarrow> nat option list option"
  sm_mutex :: "'ty \<Rightarrow> bool"
  alive :: "nat set"
  in_call :: "nat option"
  cb_calls :: "('ty, 'd) call list"
  readers :: "nat \<Rightarrow> ('ty, 'd) cb_reader"
  opened :: "int set"
  armed :: "int \<Rightarrow> int option"

record ('ty, 'd) pps_kernel =
  k_open :: "('ty, 'd) cb \<Rightarrow> string \<Rightarrow> int"
  k_ionotify :: "('ty, 'd) cb \<Rightarrow> int \<Rightarrow> int"
  k_read :: "('ty, 'd) cb \<Rightarrow> int \<Rightarrow> string option"

definition CbReader_ctor :: "('ty, 'd) cb_reader" where
  "CbReader_ctor = \<lparr>cb_running = False, cb_chid = -1, cb_coid = -1, pps_fds = [], fd_to_path = Map.empty,
     parsers = Map.empty, parser_mutex = False\<rparr>"

definition set_reader :: "nat \<Rightarrow> ('ty, 'd) cb_reader \<Rightarrow> ('ty, 'd) cb \<Rightarrow> ('ty, 'd) cb" where
  "set_reader r x s = s\<lparr>readers := (readers s)(r := x)\<rparr>"

section \<open>SubscriptionManager\<close>

definition weak_lock :: "nat set \<Rightarrow> nat option \<Rightarrow> nat option" where
  "weak_lock A w = (case w of None \<Rightarrow> None | Some i \<Rightarrow> if i \<in> A then Some i else None)"

text \<open>An object can be locked while it has an owner or its caller holds a shared pointer to it.\<close>

definition lockable :: "('ty, 'd) cb \<Rightarrow> nat set" where
  "lockable s = alive s \<union> set_option (in_call s)"

definition set_subs :: "'ty \<Rightarrow> string \<Rightarrow> nat option list \<Rightarrow> ('ty, 'd) cb \<Rightarrow> ('ty, 'd) cb" where
  "set_subs ty path ws s = s\<lparr>subscriptions := (subscriptions s)(ty := (subscriptions s ty)(path \<mapsto> ws))\<rparr>"

definition sm_subscribe :: "'ty \<Rightarrow> string \<Rightarrow> nat option \<Rightarrow> ('ty, 'd) cb \<Rightarrow> (('ty, 'd) cb, ('ty, 'd) cb) outcome" where
  "sm_subscribe ty path sub s = (if sm_mutex s ty then Locked_up else
     Returned (set_subs ty path ((case subscriptions s ty path of None \<Rightarrow> [] | Some ws \<Rightarrow> ws) @ [sub]) s))"

definition sm_unsubscribe :: "'ty \<Rightarrow> string \<Rightarrow> nat option \<Rightarrow> ('ty, 'd) cb \<Rightarrow> (('ty, 'd) cb, ('ty, 'd) cb) outcome" where
  "sm_unsubscribe ty path sub s = (if sm_mutex s ty then Locked_up else
     case subscriptions s ty path of None \<Rightarrow> Returned s
     | Some ws \<Rightarrow> Returned (set_subs ty path (filter (\<lambda>w. weak_lock (lockable s) w \<noteq> sub) ws) s))"

definition hasSubscribers :: "'ty \<Rightarrow> string \<Rightarrow> ('ty, 'd) cb \<Rightarrow> bool" where
  "hasSubscribers ty path s = (case subscriptions s ty path of None \<Rightarrow> False | Some ws \<Rightarrow> ws \<noteq> [])"

section \<open>Subscribing at a reader\<close>

text \<open>The second component is what \<open>openPPSObject\<close> returns.\<close>

definition openPPSObject :: "('ty, 'd) pps_kernel \<Rightarrow> nat \<Rightarrow> string \<Rightarrow> ('ty, 'd) cb \<Rightarrow> ('ty, 'd) cb \<times> bool" where
  "openPPSObject K r path s = (let x = readers s r in
     if map_of (pps_fds x) path \<noteq> None then (s, True) else
     let fd = k_open K s path in
     if fd < 0 then (s, False) else
     let s = s\<lparr>opened := insert fd (opened s), armed := (armed s)(fd := None)\<rparr>; rc = k_ionotify K s fd in
     if rc < 0 then (s\<lparr>opened := opened s - {fd}\<rparr>, False) else
     (set_reader r (x\<lparr>pps_fds := (path, fd) # pps_fds x, fd_to_path := (fd_to_path x)(fd \<mapsto> path)\<rparr>)
        (if rc = 0 then s\<lparr>armed := (armed s)(fd \<mapsto> cb_coid x)\<rparr> else s), True))"

definition reader_subscribe ::
    "('ty, 'd) pps_kernel \<Rightarrow> nat \<Rightarrow> 'ty \<Rightarrow> string \<Rightarrow> nat option \<Rightarrow> ('ty, 'd) cb \<Rightarrow> (('ty, 'd) cb, ('ty, 'd) cb \<times> bool) outcome" where
  "reader_subscribe K r ty path sub s = (case sm_subscribe ty path sub s of
     Returned t \<Rightarrow> Returned (openPPSObject K r path t) | Raised e t \<Rightarrow> Raised e t | Locked_up \<Rightarrow> Locked_up)"

definition registerParser ::
    "nat \<Rightarrow> string \<Rightarrow> ('ty, 'd) parser \<Rightarrow> ('ty, 'd) cb \<Rightarrow> (('ty, 'd) cb, ('ty, 'd) cb) outcome" where
  "registerParser r path f s = (if parser_mutex (readers s r) then Locked_up else
     Returned (set_reader r ((readers s r)\<lparr>parsers := (parsers (readers s r))(path \<mapsto> f)\<rparr>) s))"

section \<open>Calling a subscriber\<close>

text \<open>What a subscriber can do while it is called; \<open>Release i\<close>: the last owner of object \<open>i\<close> lets it go.\<close>

datatype ('ty, 'd) act =
    Release nat
  | Subscribe nat 'ty string "nat option"
  | Unsubscribe 'ty string "nat option"
  | Register nat string "('ty, 'd) parser"

type_synonym ('ty, 'd) handler = "('ty, 'd) call list \<Rightarrow> ('ty, 'd) call \<Rightarrow> ('ty, 'd) act list \<times> exn option"

fun do_act :: "('ty, 'd) pps_kernel \<Rightarrow> ('ty, 'd) act \<Rightarrow> ('ty, 'd) cb \<Rightarrow> (('ty, 'd) cb, ('ty, 'd) cb) outcome" where
  "do_act K (Release i) s = Returned (s\<lparr>alive := alive s - {i}\<rparr>)"
| "do_act K (Subscribe r ty path sub) s = (case reader_subscribe K r ty path sub s of
     Returned (t, _) \<Rightarrow> Returned t | Raised e t \<Rightarrow> Raised e t | Locked_up \<Rightarrow> Locked_up)"
| "do_act K (Unsubscribe ty path sub) s = sm_unsubscribe ty path sub s"
| "do_act K (Register r path f) s = registerParser r path f s"

fun do_acts :: "('ty, 'd) pps_kernel \<Rightarrow> ('ty, 'd) act list \<Rightarrow> ('ty, 'd) cb \<Rightarrow> (('ty, 'd) cb, ('ty, 'd) cb) outcome" where
  "do_acts K [] s = Returned s"
| "do_acts K (a # as) s = (case do_act K a s of Returned t \<Rightarrow> do_acts K as t | x \<Rightarrow> x)"

fun callee :: "('ty, 'd) call \<Rightarrow> nat" where
  "callee (Update ty i path d) = i" | "callee (Failure ty i path msg) = i"

text \<open>The caller holds the shared pointer \<open>sub\<close> during the call.\<close>

definition make_call ::
    "('ty, 'd) pps_kernel \<Rightarrow> ('ty, 'd) handler \<Rightarrow> ('ty, 'd) call \<Rightarrow> ('ty, 'd) cb \<Rightarrow> (('ty, 'd) cb, ('ty, 'd) cb) outcome" where
  "make_call K h c s = (let (as, e) = h (cb_calls s) c in
     case do_acts K as (s\<lparr>cb_calls := cb_calls s @ [c], in_call := Some (callee c)\<rparr>) of
       Returned t \<Rightarrow> let t = t\<lparr>in_call := in_call s\<rparr> in (case e of None \<Rightarrow> Returned t | Some x \<Rightarrow> Raised x t)
     | Raised x t \<Rightarrow> Raised x (t\<lparr>in_call := in_call s\<rparr>) | Locked_up \<Rightarrow> Locked_up)"

text \<open>The loops of \<open>notify\<close> and \<open>notifyError\<close>: the weak pointers of a path, in the order of subscription.\<close>

fun notify_loop :: "('ty, 'd) pps_kernel \<Rightarrow> ('ty, 'd) handler \<Rightarrow> (nat \<Rightarrow> ('ty, 'd) call) \<Rightarrow> nat option list
    \<Rightarrow> ('ty, 'd) cb \<Rightarrow> (('ty, 'd) cb, ('ty, 'd) cb) outcome" where
  "notify_loop K h mk [] s = Returned s"
| "notify_loop K h mk (w # ws) s = (case weak_lock (lockable s) w of None \<Rightarrow> notify_loop K h mk ws s
     | Some i \<Rightarrow> (case make_call K h (mk i) s of Returned t \<Rightarrow> notify_loop K h mk ws t | x \<Rightarrow> x))"

definition sm_lock :: "'ty \<Rightarrow> bool \<Rightarrow> ('ty, 'd) cb \<Rightarrow> ('ty, 'd) cb" where
  "sm_lock ty b s = s\<lparr>sm_mutex := (sm_mutex s)(ty := b)\<rparr>"

definition sm_notify ::
    "('ty, 'd) pps_kernel \<Rightarrow> ('ty, 'd) handler \<Rightarrow> 'ty \<Rightarrow> string \<Rightarrow> 'd \<Rightarrow> ('ty, 'd) cb \<Rightarrow> (('ty, 'd) cb, ('ty, 'd) cb) outcome" where
  "sm_notify K h ty path d s = (if sm_mutex s ty then Locked_up else
     case subscriptions s ty path of None \<Rightarrow> Returned s
     | Some ws \<Rightarrow> (case notify_loop K h (\<lambda>i. Update ty i path d) ws (sm_lock ty True s) of
         Returned t \<Rightarrow> Returned (sm_lock ty False
           (set_subs ty path (filter (\<lambda>w. weak_lock (lockable t) w \<noteq> None) ws) t))
       | Raised e t \<Rightarrow> Raised e (sm_lock ty False t) | Locked_up \<Rightarrow> Locked_up))"

definition sm_notifyError ::
    "('ty, 'd) pps_kernel \<Rightarrow> ('ty, 'd) handler \<Rightarrow> 'ty \<Rightarrow> string \<Rightarrow> string \<Rightarrow> ('ty, 'd) cb \<Rightarrow> (('ty, 'd) cb, ('ty, 'd) cb) outcome" where
  "sm_notifyError K h ty path msg s = (if sm_mutex s ty then Locked_up else
     case subscriptions s ty path of None \<Rightarrow> Returned s
     | Some ws \<Rightarrow> (case notify_loop K h (\<lambda>i. Failure ty i path msg) ws (sm_lock ty True s) of
         Returned t \<Rightarrow> Returned (sm_lock ty False t)
       | Raised e t \<Rightarrow> Raised e (sm_lock ty False t) | Locked_up \<Rightarrow> Locked_up))"

section \<open>The reader\<close>

definition parse_error :: "string \<Rightarrow> string" where
  "parse_error msg = ''Parse error: '' @ msg"

text \<open>The closure that \<open>registerParser\<close> stores: the notification is inside the \<open>try\<close> block.\<close>

definition run_parser :: "('ty, 'd) pps_kernel \<Rightarrow> ('ty, 'd) handler \<Rightarrow> string \<Rightarrow> ('ty, 'd) parser \<Rightarrow> string
    \<Rightarrow> ('ty, 'd) cb \<Rightarrow> (('ty, 'd) cb, ('ty, 'd) cb) outcome" where
  "run_parser K h path p raw s = (let (ty, f) = p in
     case (case f raw of Inl e \<Rightarrow> Raised e s | Inr d \<Rightarrow> sm_notify K h ty path d s) of
       Raised (Std_exception msg) t \<Rightarrow> sm_notifyError K h ty path (parse_error msg) t
     | x \<Rightarrow> x)"

definition hold_parsers :: "nat \<Rightarrow> bool \<Rightarrow> ('ty, 'd) cb \<Rightarrow> ('ty, 'd) cb" where
  "hold_parsers r b s = set_reader r ((readers s r)\<lparr>parser_mutex := b\<rparr>) s"

definition handlePPSData :: "('ty, 'd) pps_kernel \<Rightarrow> ('ty, 'd) handler \<Rightarrow> nat \<Rightarrow> int
    \<Rightarrow> ('ty, 'd) cb \<Rightarrow> (('ty, 'd) cb, ('ty, 'd) cb) outcome" where
  "handlePPSData K h r fd s = (case fd_to_path (readers s r) fd of None \<Rightarrow> Returned s
     | Some path \<Rightarrow> if path = [] then Returned s else
       case k_read K s fd of None \<Rightarrow> Returned s
       | Some raw \<Rightarrow> if parser_mutex (readers s r) then Locked_up else
         let s = hold_parsers r True s in
         case (case parsers (readers s r) path of None \<Rightarrow> Returned s | Some p \<Rightarrow> run_parser K h path p raw s) of
           Returned t \<Rightarrow> Returned (hold_parsers r False
             (if k_ionotify K t fd = 0 then t\<lparr>armed := (armed t)(fd \<mapsto> cb_coid (readers t r))\<rparr> else t))
         | Raised e t \<Rightarrow> Raised e (hold_parsers r False t) | Locked_up \<Rightarrow> Locked_up)"

text \<open>\<open>c\<close> and \<open>d\<close> are what \<open>ChannelCreate\<close> and \<open>ConnectAttach\<close> return.\<close>

definition reader_start :: "int \<Rightarrow> int \<Rightarrow> ('ty, 'd) cb_reader \<Rightarrow> ('ty, 'd) cb_reader" where
  "reader_start c d x = (if cb_running x then x else
     if c < 0 then x\<lparr>cb_running := False, cb_chid := c\<rparr> else
     if d < 0 then x\<lparr>cb_running := False, cb_chid := -1, cb_coid := d\<rparr> else
     x\<lparr>cb_running := True, cb_chid := c, cb_coid := d\<rparr>)"

definition close_object :: "int \<Rightarrow> ('ty, 'd) cb \<Rightarrow> ('ty, 'd) cb" where
  "close_object fd s = s\<lparr>opened := opened s - {fd}, armed := (armed s)(fd := None)\<rparr>"

definition reader_stop :: "nat \<Rightarrow> ('ty, 'd) cb \<Rightarrow> ('ty, 'd) cb" where
  "reader_stop r s = (let x = readers s r in if \<not> cb_running x then s else
     set_reader r (x\<lparr>cb_running := False, pps_fds := [], cb_coid := -1, cb_chid := -1\<rparr>)
       (fold close_object (map snd (pps_fds x)) s))"

text \<open>
  The steps of the process. A pulse arrives for an armed object whose connection is the reader's own;
  it is delivered once. \<open>Make\<close> is \<open>make_shared\<close>.
\<close>

inductive cb_step :: "('ty, 'd) pps_kernel \<Rightarrow> ('ty, 'd) handler \<Rightarrow> ('ty, 'd) cb \<Rightarrow> nat option \<Rightarrow> ('ty, 'd) cb \<Rightarrow> bool"
    for K h where
  cb_start: "cb_step K h s None (set_reader r (reader_start c d (readers s r)) s)"
| cb_stop: "cb_step K h s (Some r) (reader_stop r s)"
| cb_subscribe: "reader_subscribe K r ty path sub s = Returned (t, b) \<Longrightarrow> cb_step K h s None t"
| cb_unsubscribe: "sm_unsubscribe ty path sub s = Returned t \<Longrightarrow> cb_step K h s None t"
| cb_register: "registerParser r path p s = Returned t \<Longrightarrow> cb_step K h s None t"
| cb_notify: "sm_notify K h ty path d s = Returned t \<Longrightarrow> cb_step K h s None t"
| cb_make: "i \<notin> alive s \<Longrightarrow> cb_step K h s None (s\<lparr>alive := insert i (alive s)\<rparr>)"
| cb_release: "cb_step K h s None (s\<lparr>alive := alive s - {i}\<rparr>)"
| cb_pulse: "cb_running (readers s r) \<Longrightarrow> armed s fd = Some (cb_coid (readers s r)) \<Longrightarrow> cb_coid (readers s r) \<ge> 0 \<Longrightarrow>
    handlePPSData K h r fd (s\<lparr>armed := (armed s)(fd := None)\<rparr>) = Returned t \<Longrightarrow> cb_step K h s None t"

definition cb_init :: "('ty, 'd) cb" where
  "cb_init = \<lparr>subscriptions = (\<lambda>_. Map.empty), sm_mutex = (\<lambda>_. False), alive = {}, in_call = None, cb_calls = [],
     readers = (\<lambda>_. CbReader_ctor), opened = {}, armed = Map.empty\<rparr>"

text \<open>The callbacks of the program's own views (\<open>SensorView\<close>, \<open>EngineView\<close>) only print.\<close>

definition view_handler :: "('ty, 'd) handler" where
  "view_handler cs c = ([], None)"

section \<open>A notification\<close>

text \<open>
  The contract of subscribers of type \<open>ty\<close>: they throw nothing, and while they are called they do not
  use the manager of their own type nor register parsers.
\<close>

fun harmless :: "'ty \<Rightarrow> ('ty, 'd) act \<Rightarrow> bool" where
  "harmless ty (Release i) = True" | "harmless ty (Subscribe r ty' path sub) = (ty' \<noteq> ty)"
| "harmless ty (Unsubscribe ty' path sub) = (ty' \<noteq> ty)" | "harmless ty (Register r path p) = False"

locale gentle_subscribers =
  fixes h :: "('ty, 'd) handler" and ty :: 'ty
  assumes no_throw: "snd (h cs c) = None"
    and acts_harmless: "a \<in> set (fst (h cs c)) \<Longrightarrow> harmless ty a"

interpretation views: gentle_subscribers view_handler ty for ty
  by unfold_locales (auto simp: view_handler_def)

text \<open>What happens to the manager of type \<open>ty\<close> and the locks while a subscriber is called.\<close>

definition undisturbed :: "'ty \<Rightarrow> ('ty, 'd) cb \<Rightarrow> ('ty, 'd) cb \<Rightarrow> bool" where
  "undisturbed ty s t \<longleftrightarrow> sm_mutex t = sm_mutex s \<and> subscriptions t ty = subscriptions s ty \<and> alive t \<subseteq> alive s
     \<and> cb_calls t = cb_calls s \<and> in_call t = in_call s
     \<and> (\<forall>r. parser_mutex (readers t r) = parser_mutex (readers s r))"

lemma undisturbed_refl [simp]: "undisturbed ty s s"
  by (simp add: undisturbed_def)

lemma undisturbed_trans: "undisturbed ty s t \<Longrightarrow> undisturbed ty t u \<Longrightarrow> undisturbed ty s u"
  by (auto simp: undisturbed_def)

lemma set_reader_fields [simp]:
  "subscriptions (set_reader r x s) = subscriptions s" "sm_mutex (set_reader r x s) = sm_mutex s"
  "alive (set_reader r x s) = alive s" "in_call (set_reader r x s) = in_call s" "cb_calls (set_reader r x s) = cb_calls s"
  "readers (set_reader r x s) = (readers s)(r := x)" "opened (set_reader r x s) = opened s" "armed (set_reader r x s) = armed s"
  by (simp_all add: set_reader_def)

lemma set_subs_fields [simp]:
  "subscriptions (set_subs ty path ws s) = (subscriptions s)(ty := (subscriptions s ty)(path \<mapsto> ws))"
  "sm_mutex (set_subs ty path ws s) = sm_mutex s" "alive (set_subs ty path ws s) = alive s"
  "in_call (set_subs ty path ws s) = in_call s" "cb_calls (set_subs ty path ws s) = cb_calls s"
  "readers (set_subs ty path ws s) = readers s" "opened (set_subs ty path ws s) = opened s" "armed (set_subs ty path ws s) = armed s"
  by (simp_all add: set_subs_def)

lemma sm_lock_fields [simp]:
  "subscriptions (sm_lock ty b s) = subscriptions s" "sm_mutex (sm_lock ty b s) = (sm_mutex s)(ty := b)"
  "alive (sm_lock ty b s) = alive s" "in_call (sm_lock ty b s) = in_call s" "cb_calls (sm_lock ty b s) = cb_calls s"
  "readers (sm_lock ty b s) = readers s" "opened (sm_lock ty b s) = opened s" "armed (sm_lock ty b s) = armed s"
  by (simp_all add: sm_lock_def)

lemma lockable_fields [simp]:
  "lockable (sm_lock ty b s) = lockable s" "lockable (set_subs ty path ws s) = lockable s"
  "lockable (set_reader r x s) = lockable s"
  by (simp_all add: lockable_def)

lemma openPPSObject_undisturbed: "undisturbed ty s (fst (openPPSObject K r path s))"
  by (simp add: openPPSObject_def undisturbed_def Let_def)

lemma harmless_act:
  assumes "harmless ty a" "\<And>ty'. sm_mutex s ty' \<Longrightarrow> ty' = ty"
  shows "\<exists>t. do_act K a s = Returned t \<and> undisturbed ty s t"
proof (cases a)
  case (Subscribe r ty' path sub)
  then have "\<not> sm_mutex s ty'" "ty' \<noteq> ty" using assms by auto
  then obtain u where u: "sm_subscribe ty' path sub s = Returned u" "undisturbed ty s u"
    by (simp add: sm_subscribe_def undisturbed_def)
  then show ?thesis using Subscribe openPPSObject_undisturbed [of ty u K r path]
    by (auto simp: reader_subscribe_def intro: undisturbed_trans split: prod.split)
next
  case (Unsubscribe ty' path sub)
  then have "\<not> sm_mutex s ty'" "ty' \<noteq> ty" using assms by auto
  then show ?thesis using Unsubscribe
    by (auto simp: sm_unsubscribe_def undisturbed_def split: option.split)
qed (use assms in \<open>auto simp: undisturbed_def\<close>)

lemma harmless_acts:
  assumes "\<And>a. a \<in> set as \<Longrightarrow> harmless ty a" "\<And>ty'. sm_mutex s ty' \<Longrightarrow> ty' = ty"
  shows "\<exists>t. do_acts K as s = Returned t \<and> undisturbed ty s t"
  using assms
proof (induction as arbitrary: s)
  case (Cons a as)
  obtain u where u: "do_act K a s = Returned u" "undisturbed ty s u"
    using harmless_act [of ty a s K] Cons.prems by auto
  have "\<And>ty'. sm_mutex u ty' \<Longrightarrow> ty' = ty" using Cons.prems(2) u(2) by (simp add: undisturbed_def)
  then obtain t where "do_acts K as u = Returned t" "undisturbed ty u t"
    using Cons.IH [of u] Cons.prems(1) by auto
  then show ?case using u by (auto intro: undisturbed_trans)
qed simp

text \<open>After a call, or after several: only the calls were added.\<close>

definition told :: "'ty \<Rightarrow> ('ty, 'd) call list \<Rightarrow> ('ty, 'd) cb \<Rightarrow> ('ty, 'd) cb \<Rightarrow> bool" where
  "told ty cs s t \<longleftrightarrow> undisturbed ty (s\<lparr>cb_calls := cb_calls s @ cs\<rparr>) t"

definition living :: "('ty, 'd) cb \<Rightarrow> nat option \<Rightarrow> bool" where
  "living s w \<longleftrightarrow> weak_lock (lockable s) w \<noteq> None"

lemma hold_parsers_fields [simp]:
  "subscriptions (hold_parsers r b s) = subscriptions s" "sm_mutex (hold_parsers r b s) = sm_mutex s"
  "cb_calls (hold_parsers r b s) = cb_calls s" "armed (hold_parsers r b s) = armed s" "lockable (hold_parsers r b s) = lockable s"
  "readers (hold_parsers r b s) = (readers s)(r := (readers s r)\<lparr>parser_mutex := b\<rparr>)"
  by (simp_all add: hold_parsers_def)

lemma living_cong: "lockable t = lockable s \<Longrightarrow> living t = living s"
  by (simp add: living_def fun_eq_iff)

lemma told_Nil: "told ty [] s s"
  by (simp add: told_def)

lemma told_append: "told ty cs s t \<Longrightarrow> told ty ds t u \<Longrightarrow> told ty (cs @ ds) s u"
  by (auto simp: told_def undisturbed_def)

lemma told_living: "told ty cs s t \<Longrightarrow> living t w \<Longrightarrow> living s w"
  by (auto simp: told_def undisturbed_def living_def lockable_def weak_lock_def split: option.splits if_splits)

context gentle_subscribers
begin

lemma call_returns:
  assumes "\<And>ty'. sm_mutex s ty' \<Longrightarrow> ty' = ty"
  shows "\<exists>t. make_call K h c s = Returned t \<and> told ty [c] s t"
proof -
  obtain as e where h: "h (cb_calls s) c = (as, e)" by (cases "h (cb_calls s) c")
  then have e: "e = None" and as: "\<And>a. a \<in> set as \<Longrightarrow> harmless ty a"
    using no_throw [of "cb_calls s" c] acts_harmless [of _ "cb_calls s" c] by auto
  let ?s = "s\<lparr>cb_calls := cb_calls s @ [c], in_call := Some (callee c)\<rparr>"
  obtain t where "do_acts K as ?s = Returned t" "undisturbed ty ?s t"
    using harmless_acts [of as ty ?s K] as assms by auto
  then show ?thesis by (auto simp: make_call_def h e told_def undisturbed_def)
qed

lemma loop_returns:
  assumes "\<And>ty'. sm_mutex s ty' \<Longrightarrow> ty' = ty"
  shows "\<exists>t is. notify_loop K h mk ws s = Returned t \<and> told ty (map mk is) s t
    \<and> subseq (filter (living t) ws) (map Some is) \<and> subseq (map Some is) (filter (living s) ws)"
  using assms
proof (induction ws arbitrary: s)
  case Nil
  then show ?case by (auto intro!: exI [of _ "[]"] told_Nil)
next
  case (Cons w ws)
  show ?case
  proof (cases "weak_lock (lockable s) w")
    case None
    obtain t "is" where t: "notify_loop K h mk ws s = Returned t" "told ty (map mk is) s t"
        "subseq (filter (living t) ws) (map Some is)" "subseq (map Some is) (filter (living s) ws)"
      using Cons.IH [OF Cons.prems] by blast
    have "\<not> living s w" using None by (simp add: living_def)
    moreover from this have "\<not> living t w" using told_living [OF t(2), of w] by blast
    ultimately show ?thesis using t None by (intro exI [of _ t] exI [of _ "is"]) simp
  next
    case (Some i)
    then have w: "w = Some i" "living s w" by (auto simp: weak_lock_def living_def split: option.splits if_splits)
    obtain u where u: "make_call K h (mk i) s = Returned u" "told ty [mk i] s u"
      using call_returns [OF Cons.prems] by blast
    then have "\<And>ty'. sm_mutex u ty' \<Longrightarrow> ty' = ty" using Cons.prems by (simp add: told_def undisturbed_def)
    then obtain t "is" where t: "notify_loop K h mk ws u = Returned t" "told ty (map mk is) u t"
        "subseq (filter (living t) ws) (map Some is)" "subseq (map Some is) (filter (living u) ws)"
      using Cons.IH [of u] by blast
    have "subseq (filter (living u) ws) (filter (living s) ws)"
      using told_living [OF u(2)] by (induction ws) auto
    then have "subseq (map Some is) (filter (living s) ws)" using t(4) subseq_order.trans by blast
    then show ?thesis using t u w Some told_append [OF u(2) t(2)]
      by (intro exI [of _ t] exI [of _ "i # is"]) (simp add: list_emb_Cons)
  qed
qed

lemma notify_returns:
  assumes "\<And>ty'. \<not> sm_mutex s ty'" "subscriptions s ty path = Some ws"
  shows "\<exists>t is. sm_notify K h ty path d s = Returned t \<and> cb_calls t = cb_calls s @ map (\<lambda>i. Update ty i path d) is
    \<and> subseq (filter (living t) ws) (map Some is) \<and> subseq (map Some is) (filter (living s) ws)
    \<and> subscriptions t ty = (subscriptions s ty)(path \<mapsto> filter (living t) ws)
    \<and> sm_mutex t = sm_mutex s \<and> alive t \<subseteq> alive s \<and> (\<forall>r. parser_mutex (readers t r) = parser_mutex (readers s r))"
proof -
  let ?s = "sm_lock ty True s"
  have "\<And>ty'. sm_mutex ?s ty' \<Longrightarrow> ty' = ty" using assms(1) by (auto split: if_splits)
  then obtain t "is" where t: "notify_loop K h (\<lambda>i. Update ty i path d) ws ?s = Returned t"
      "told ty (map (\<lambda>i. Update ty i path d) is) ?s t"
      "subseq (filter (living t) ws) (map Some is)" "subseq (map Some is) (filter (living ?s) ws)"
    using loop_returns [of ?s K "\<lambda>i. Update ty i path d" ws] by blast
  have "sm_mutex s ty = False" using assms(1) by simp
  then have "(sm_mutex s)(ty := False) = sm_mutex s" by (simp add: fun_upd_idem_iff)
  then show ?thesis using t assms
    by (intro exI [of _ "sm_lock ty False (set_subs ty path (filter (living t) ws) t)"] exI [of _ "is"])
      (auto simp: sm_notify_def told_def undisturbed_def living_def [abs_def])
qed

lemma pulse_returns:
  assumes free: "\<And>ty'. \<not> sm_mutex s ty'" "\<not> parser_mutex (readers s r)"
    and path: "fd_to_path (readers s r) fd = Some path" "path \<noteq> []"
    and raw: "k_read K s fd = Some raw" "parsers (readers s r) path = Some (ty, f)" "f raw = Inr d"
    and ws: "subscriptions s ty path = Some ws"
  shows "\<exists>t is. handlePPSData K h r fd s = Returned t \<and> cb_calls t = cb_calls s @ map (\<lambda>i. Update ty i path d) is
    \<and> subseq (filter (living t) ws) (map Some is) \<and> subseq (map Some is) (filter (living s) ws)
    \<and> subscriptions t ty = (subscriptions s ty)(path \<mapsto> filter (living t) ws)
    \<and> (\<forall>ty'. \<not> sm_mutex t ty') \<and> \<not> parser_mutex (readers t r)
    \<and> ((\<forall>u. k_ionotify K u fd = 0) \<longrightarrow> armed t fd = Some (cb_coid (readers t r)))"
proof -
  let ?s = "hold_parsers r True s"
  have "\<And>ty'. \<not> sm_mutex ?s ty'" "subscriptions ?s ty path = Some ws" using free ws by simp_all
  then obtain t "is" where t: "sm_notify K h ty path d ?s = Returned t"
      "cb_calls t = cb_calls ?s @ map (\<lambda>i. Update ty i path d) is"
      "subseq (filter (living t) ws) (map Some is)" "subseq (map Some is) (filter (living ?s) ws)"
      "subscriptions t ty = (subscriptions ?s ty)(path \<mapsto> filter (living t) ws)" "sm_mutex t = sm_mutex ?s"
    using notify_returns [of ?s path ws K d] by blast
  define u where "u = (if k_ionotify K t fd = 0 then t\<lparr>armed := (armed t)(fd \<mapsto> cb_coid (readers t r))\<rparr> else t)"
  have u: "cb_calls u = cb_calls t" "subscriptions u = subscriptions t" "sm_mutex u = sm_mutex t" "readers u = readers t"
      "k_ionotify K t fd = 0 \<Longrightarrow> armed u fd = Some (cb_coid (readers t r))" "lockable u = lockable t"
    by (simp_all add: u_def lockable_def)
  have "handlePPSData K h r fd s = Returned (hold_parsers r False u)"
    using free(2) path raw t(1) by (simp add: handlePPSData_def run_parser_def Let_def u_def)
  moreover have "living (hold_parsers r False u) = living t" by (rule living_cong) (simp add: u(6))
  moreover have "living ?s = living s" by (rule living_cong) simp
  ultimately show ?thesis using t free(1)
    by (intro exI [of _ "hold_parsers r False u"] exI [of _ "is"]) (simp add: u)
qed

end

text \<open>C37: A pulse for an object whose text parses, when the subscribers are gentle
  (\<open>gentle_subscribers\<close>: whatever they are called with, they never throw, never
  subscribe or unsubscribe for the parser's data type and never register a parser; they may release
  other subscribers): each subscriber of the parser's type that lives throughout is called exactly
  once per subscription, nobody who is dead when the calls begin is called, the calls come in the
  order of subscription, the expired subscriptions are gone afterwards, all mutexes are free, and
  the notification is armed again when nothing new has arrived. At the start the mutexes of the
  managers and of the reader's parsers are free, the descriptor is known to the reader,
  \<open>read\<close> delivers a text, and a parser and subscriptions exist for its path. A
  subscriber that throws and one that subscribes are the next two theorems.\<close>

theorem pulse_reaches_the_living_subscribers:
  assumes "gentle_subscribers h ty"
    and "\<forall>ty'. \<not> sm_mutex s ty'" "\<not> parser_mutex (readers s r)"
    and "fd_to_path (readers s r) fd = Some path" "path \<noteq> []"
    and "k_read K s fd = Some raw" "parsers (readers s r) path = Some (ty, f)" "f raw = Inr d"
    and "subscriptions s ty path = Some ws"
  shows "\<exists>t is. handlePPSData K h r fd s = Returned t \<and> cb_calls t = cb_calls s @ map (\<lambda>i. Update ty i path d) is
    \<and> subseq (filter (living t) ws) (map Some is) \<and> subseq (map Some is) (filter (living s) ws)
    \<and> subscriptions t ty = (subscriptions s ty)(path \<mapsto> filter (living t) ws)
    \<and> (\<forall>ty'. \<not> sm_mutex t ty') \<and> \<not> parser_mutex (readers t r)
    \<and> ((\<forall>u. k_ionotify K u fd = 0) \<longrightarrow> armed t fd = Some (cb_coid (readers t r)))"
  by (rule gentle_subscribers.pulse_returns [OF assms(1) _ assms(3-9)]) (use assms(2) in simp)

section \<open>Callbacks that throw or use the manager\<close>

definition locked_ids :: "('ty, 'd) cb \<Rightarrow> nat option list \<Rightarrow> nat list" where
  "locked_ids s ws = List.map_filter (weak_lock (lockable s)) ws"

lemma locked_ids_simps [simp]:
  "locked_ids s [] = []"
  "locked_ids s (w # ws) = (case weak_lock (lockable s) w of None \<Rightarrow> locked_ids s ws | Some i \<Rightarrow> i # locked_ids s ws)"
  "locked_ids s (us @ vs) = locked_ids s us @ locked_ids s vs"
  by (auto simp: locked_ids_def map_filter_def split: option.splits)

lemma locked_ids_cong: "lockable t = lockable s \<Longrightarrow> locked_ids t ws = locked_ids s ws"
  by (simp add: locked_ids_def)

lemma idle_call: "h (cb_calls s) c = ([], None) \<Longrightarrow> make_call K h c s = Returned (s\<lparr>cb_calls := cb_calls s @ [c]\<rparr>)"
  by (simp add: make_call_def)

lemma idle_loop:
  assumes "\<And>cs j. j \<in> set (locked_ids s us) \<Longrightarrow> h cs (mk j) = ([], None)"
  shows "notify_loop K h mk (us @ vs) s = notify_loop K h mk vs (s\<lparr>cb_calls := cb_calls s @ map mk (locked_ids s us)\<rparr>)"
  using assms
proof (induction us arbitrary: s)
  case (Cons w us)
  show ?case
  proof (cases "weak_lock (lockable s) w")
    case None
    then show ?thesis using Cons by simp
  next
    case (Some i)
    let ?t = "s\<lparr>cb_calls := cb_calls s @ [mk i]\<rparr>"
    have "locked_ids ?t us = locked_ids s us" by (rule locked_ids_cong) (simp add: lockable_def)
    then show ?thesis using Cons.prems Some Cons.IH [of ?t] by (simp add: idle_call)
  qed
qed simp

lemma raising_loop:
  assumes "\<And>cs j. j \<in> set (locked_ids s us) \<Longrightarrow> h cs (mk j) = ([], None)" "\<And>cs. h cs (mk i) = ([], Some e)" "i \<in> lockable s"
  shows "notify_loop K h mk (us @ Some i # vs) s = Raised e (s\<lparr>cb_calls := cb_calls s @ map mk (locked_ids s us @ [i])\<rparr>)"
proof -
  let ?t = "s\<lparr>cb_calls := cb_calls s @ map mk (locked_ids s us)\<rparr>"
  have "weak_lock (lockable ?t) (Some i) = Some i" using assms(3) by (simp add: weak_lock_def lockable_def)
  then show ?thesis using idle_loop [of s us h mk K "Some i # vs", OF assms(1)] by (simp add: make_call_def assms(2))
qed

lemma sm_lock_twice:
  "sm_lock ty b (s\<lparr>cb_calls := c\<rparr>) = (sm_lock ty b s)\<lparr>cb_calls := c\<rparr>"
  "\<not> sm_mutex s ty \<Longrightarrow> sm_lock ty False (sm_lock ty True s) = s"
  by (simp_all add: sm_lock_def fun_upd_idem)

lemma locked_ids_sm_lock [simp]: "locked_ids (sm_lock ty b s) ws = locked_ids s ws"
  by (rule locked_ids_cong) simp

lemma notify_raises:
  assumes "\<not> sm_mutex s ty" "subscriptions s ty path = Some (us @ Some i # vs)" "i \<in> lockable s"
    and "\<And>cs j. j \<in> set (locked_ids s us) \<Longrightarrow> h cs (Update ty j path d) = ([], None)" "\<And>cs. h cs (Update ty i path d) = ([], Some e)"
  shows "sm_notify K h ty path d s = Raised e (s\<lparr>cb_calls := cb_calls s @ map (\<lambda>j. Update ty j path d) (locked_ids s us @ [i])\<rparr>)"
  using assms raising_loop [of "sm_lock ty True s" us h "\<lambda>j. Update ty j path d" i e K vs]
  by (simp add: sm_notify_def sm_lock_twice)

lemma notifyError_idle:
  assumes "\<not> sm_mutex s ty" "subscriptions s ty path = Some ws" "\<And>cs j. h cs (Failure ty j path msg) = ([], None)"
  shows "sm_notifyError K h ty path msg s = Returned (s\<lparr>cb_calls := cb_calls s @ map (\<lambda>j. Failure ty j path msg) (locked_ids s ws)\<rparr>)"
  using assms idle_loop [of "sm_lock ty True s" ws h "\<lambda>j. Failure ty j path msg" K "[]"]
  by (simp add: sm_notifyError_def sm_lock_twice)

text \<open>C38: An exception of a subscriber (\<open>std::exception\<close>, the only kind the
  \<open>catch\<close> names) is caught by the \<open>catch\<close> that is meant for the parser:
  the subscribers after it do not get the update, and every living subscriber, also those that got
  it, is told of a parse error that did not happen. (The other subscribers of the path return
  without doing anything, and the manager's mutex is free at the start.)\<close>

theorem throwing_subscriber_reads_as_a_parse_error:
  assumes "f raw = Inr d" "\<not> sm_mutex s ty" "subscriptions s ty path = Some (us @ Some i # vs)"
    and "i \<in> lockable s" "i \<notin> set (locked_ids s us)"
    and "\<forall>cs. h cs (Update ty i path d) = ([], Some (Std_exception msg))"
    and "\<forall>cs j. j \<noteq> i \<longrightarrow> h cs (Update ty j path d) = ([], None)"
    and "\<forall>cs j. h cs (Failure ty j path (parse_error msg)) = ([], None)"
  shows "run_parser K h path (ty, f) raw s = Returned (s\<lparr>cb_calls := cb_calls s
    @ map (\<lambda>j. Update ty j path d) (locked_ids s us @ [i])
    @ map (\<lambda>j. Failure ty j path (parse_error msg)) (locked_ids s (us @ Some i # vs))\<rparr>)"
proof -
  define u where "u = s\<lparr>cb_calls := cb_calls s @ map (\<lambda>j. Update ty j path d) (locked_ids s us @ [i])\<rparr>"
  have "sm_notify K h ty path d s = Raised (Std_exception msg) u"
    unfolding u_def by (rule notify_raises [OF assms(2,3,4)]) (use assms(5-7) in \<open>metis+\<close>)
  moreover have ids: "locked_ids u ws = locked_ids s ws" for ws by (rule locked_ids_cong) (simp add: u_def lockable_def)
  moreover have "sm_notifyError K h ty path (parse_error msg) u
      = Returned (u\<lparr>cb_calls := cb_calls u @ map (\<lambda>j. Failure ty j path (parse_error msg)) (locked_ids s (us @ Some i # vs))\<rparr>)"
    by (rule notifyError_idle [of u ty path "us @ Some i # vs", unfolded ids]) (use assms(2,3,8) in \<open>simp_all add: u_def\<close>)
  ultimately show ?thesis using assms(1) by (simp add: run_parser_def u_def del: locked_ids_simps)
qed

text \<open>A subscriber that, when it is called, subscribes at the manager that calls it locks a mutex its thread holds.\<close>

theorem subscribing_in_a_callback_locks_up:
  assumes "\<not> sm_mutex s ty" "subscriptions s ty path = Some (us @ Some i # vs)" "i \<in> lockable s"
    and "\<forall>cs j. j \<in> set (locked_ids s us) \<longrightarrow> h cs (Update ty j path d) = ([], None)"
    and "\<forall>cs. h cs (Update ty i path d) = (map Release ids @ Subscribe r ty path' sub # as, e)"
  shows "sm_notify K h ty path d s = Locked_up"
proof -
  let ?t = "(sm_lock ty True s)\<lparr>cb_calls := cb_calls s @ map (\<lambda>j. Update ty j path d) (locked_ids s us)\<rparr>"
  have released: "sm_mutex u ty \<Longrightarrow> do_acts K (map Release ids @ Subscribe r ty path' sub # as) u = Locked_up" for u :: "('a, 'b) cb"
    by (induction ids arbitrary: u) (simp_all add: reader_subscribe_def sm_subscribe_def)
  have "weak_lock (lockable ?t) (Some i) = Some i" using assms(3) by (simp add: weak_lock_def lockable_def)
  moreover have "make_call K h (Update ty i path d) ?t = Locked_up"
    using assms(5) by (simp add: make_call_def released)
  ultimately have "notify_loop K h (\<lambda>j. Update ty j path d) (us @ Some i # vs) (sm_lock ty True s) = Locked_up"
    using assms(4) idle_loop [of "sm_lock ty True s" us h "\<lambda>j. Update ty j path d" K "Some i # vs"] by simp
  then show ?thesis using assms(1,2) by (simp add: sm_notify_def)
qed

section \<open>The tables of the readers\<close>

text \<open>What of the state the callbacks can change only by opening an object.\<close>

definition tabs where
  "tabs s = ((\<lambda>r. (pps_fds (readers s r), fd_to_path (readers s r), cb_coid (readers s r), cb_running (readers s r))),
     opened s, armed s)"

fun outcome_sat :: "('s \<Rightarrow> bool) \<Rightarrow> ('s, 's) outcome \<Rightarrow> bool" where
  "outcome_sat P (Returned t) = P t" | "outcome_sat P (Raised e t) = P t" | "outcome_sat P Locked_up = True"

text \<open>\<open>P\<close> is about the tables; it is kept by opening an object and by arming one of \<open>F\<close>.\<close>

locale table_property =
  fixes K :: "('ty, 'd) pps_kernel" and P :: "('ty, 'd) cb \<Rightarrow> bool" and F :: "int set"
  assumes same_tables: "P s \<Longrightarrow> tabs t = tabs s \<Longrightarrow> P t"
    and open_keeps: "P s \<Longrightarrow> P (fst (openPPSObject K r path s))"
    and arm_keeps: "P s \<Longrightarrow> fd \<in> F \<Longrightarrow> P (s\<lparr>armed := (armed s)(fd \<mapsto> c)\<rparr>)"
begin

lemma subs_kept: "P s \<Longrightarrow> P (set_subs ty path ws s)" and lock_kept: "P s \<Longrightarrow> P (sm_lock ty b s)"
  and hold_kept: "P s \<Longrightarrow> P (hold_parsers r b s)" and calls_kept: "P s \<Longrightarrow> P (s\<lparr>cb_calls := cs, in_call := i\<rparr>)"
  and alive_kept: "P s \<Longrightarrow> P (s\<lparr>alive := A\<rparr>)" and in_call_kept: "P s \<Longrightarrow> P (s\<lparr>in_call := i\<rparr>)"
  and parsers_kept: "P s \<Longrightarrow> P (set_reader r ((readers s r)\<lparr>parsers := p\<rparr>) s)"
  by (erule same_tables, simp add: tabs_def fun_eq_iff hold_parsers_def)+

lemma subscribe_kept: "P s \<Longrightarrow> reader_subscribe K r ty path sub s = Returned (t, b) \<Longrightarrow> P t"
  using open_keeps [OF subs_kept [of s]]
  by (auto simp: reader_subscribe_def sm_subscribe_def split: if_splits dest: sym [of "openPPSObject _ _ _ _"]) (metis fst_conv)

lemma unsubscribe_kept: "P s \<Longrightarrow> sm_unsubscribe ty path sub s = Returned t \<Longrightarrow> P t"
  by (auto simp: sm_unsubscribe_def subs_kept split: if_splits option.splits)

lemma register_kept: "P s \<Longrightarrow> registerParser r path p s = Returned t \<Longrightarrow> P t"
  by (auto simp: registerParser_def parsers_kept split: if_splits)

lemma act_kept: "P s \<Longrightarrow> outcome_sat P (do_act K a s)"
proof (cases a)
  case (Subscribe r ty path sub)
  moreover assume "P s"
  moreover have "reader_subscribe K r ty path sub s \<noteq> Raised e t" for e t
    by (simp add: reader_subscribe_def sm_subscribe_def)
  ultimately show ?thesis using subscribe_kept
    by (cases "reader_subscribe K r ty path sub s") (auto split: prod.split)
qed (auto simp: alive_kept sm_unsubscribe_def registerParser_def subs_kept parsers_kept split: option.split)

lemma acts_kept: "P s \<Longrightarrow> outcome_sat P (do_acts K as s)"
proof (induction as arbitrary: s)
  case (Cons a as)
  then show ?case using act_kept [OF Cons.prems, of a] by (cases "do_act K a s") auto
qed simp

lemma call_kept: "P s \<Longrightarrow> outcome_sat P (make_call K h c s)"
  using acts_kept [OF calls_kept [where cs = "cb_calls s @ [c]" and i = "Some (callee c)"], of s "fst (h (cb_calls s) c)"]
  by (auto simp: make_call_def Let_def in_call_kept split: prod.split outcome.split option.split)

lemma loop_kept: "P s \<Longrightarrow> outcome_sat P (notify_loop K h mk ws s)"
proof (induction ws arbitrary: s)
  case (Cons w ws)
  then show ?case using call_kept [OF Cons.prems, of h]
    by (auto split: option.split outcome.split) (metis outcome_sat.simps)+
qed simp

lemma notify_kept: "P s \<Longrightarrow> outcome_sat P (sm_notify K h ty path d s)"
  using loop_kept [OF lock_kept, of s]
  by (auto simp: sm_notify_def lock_kept subs_kept split: option.split outcome.split) (metis outcome_sat.simps lock_kept subs_kept)+

lemma notifyError_kept: "P s \<Longrightarrow> outcome_sat P (sm_notifyError K h ty path msg s)"
  using loop_kept [OF lock_kept, of s]
  by (auto simp: sm_notifyError_def split: option.split outcome.split) (metis outcome_sat.simps lock_kept)+

lemma parser_kept: "P s \<Longrightarrow> outcome_sat P (run_parser K h path p raw s)"
proof (cases p)
  case (Pair ty f)
  define x where "x = (case f raw of Inl e \<Rightarrow> Raised e s | Inr d \<Rightarrow> sm_notify K h ty path d s)"
  assume "P s"
  then have "outcome_sat P x" using notify_kept by (auto simp: x_def split: sum.split)
  then show ?thesis using notifyError_kept
    by (cases x) (auto simp: run_parser_def Pair x_def [symmetric] split: exn.split)
qed

lemma handle_kept:
  assumes "P s" "fd \<in> F" "handlePPSData K h r fd s = Returned t" shows "P t"
proof -
  consider "t = s" | path raw where "fd_to_path (readers s r) fd = Some path" "k_read K s fd = Some raw"
      "path \<noteq> []" "\<not> parser_mutex (readers s r)"
    using assms(3) by (auto simp: handlePPSData_def split: option.splits if_splits)
  then show ?thesis
  proof cases
    case (2 path raw)
    define x where "x = (case parsers (readers s r) path of None \<Rightarrow> Returned (hold_parsers r True s)
      | Some p \<Rightarrow> run_parser K h path p raw (hold_parsers r True s))"
    have "outcome_sat P x"
      using parser_kept [OF hold_kept [OF assms(1)]] hold_kept [OF assms(1)] by (auto simp: x_def split: option.split)
    moreover have "\<exists>u. x = Returned u \<and> t = hold_parsers r False
        (if k_ionotify K u fd = 0 then u\<lparr>armed := (armed u)(fd \<mapsto> cb_coid (readers u r))\<rparr> else u)"
      using assms(3) 2 by (cases x) (auto simp: handlePPSData_def Let_def x_def [symmetric])
    ultimately show ?thesis using assms(2) by (auto intro!: hold_kept arm_keeps)
  qed (simp add: assms(1))
qed

end

text \<open>\<open>open\<close> returns a descriptor that is not open yet, or a negative number.\<close>

definition fresh_fds :: "('ty, 'd) pps_kernel \<Rightarrow> bool" where
  "fresh_fds K \<longleftrightarrow> (\<forall>s path. k_open K s path \<notin> opened s \<or> k_open K s path < 0)"

definition tables_ok :: "('ty, 'd) cb \<Rightarrow> bool" where
  "tables_ok s \<longleftrightarrow> (\<forall>r. distinct (map fst (pps_fds (readers s r))))
     \<and> (\<forall>r path fd. (path, fd) \<in> set (pps_fds (readers s r)) \<longrightarrow> fd_to_path (readers s r) fd = Some path \<and> fd \<in> opened s)
     \<and> (\<forall>r q path path' fd. (path, fd) \<in> set (pps_fds (readers s r)) \<longrightarrow> (path', fd) \<in> set (pps_fds (readers s q))
          \<longrightarrow> r = q \<and> path = path')"

lemma tables_ok_cong: "tabs t = tabs s \<Longrightarrow> tables_ok t = tables_ok s"
  by (simp add: tabs_def tables_ok_def fun_eq_iff)

lemma tables_ok_open: "fresh_fds K \<Longrightarrow> tables_ok s \<Longrightarrow> tables_ok (fst (openPPSObject K r path s))"
  unfolding fresh_fds_def
  by (drule spec [of _ s], drule spec [of _ path])
    (auto simp: openPPSObject_def Let_def tables_ok_def map_of_eq_None_iff split: if_splits; fastforce)

lemma tables_ok_arm: "tables_ok (s\<lparr>armed := a\<rparr>) = tables_ok s"
  by (simp add: tables_ok_def)

interpretation tables: table_property K "\<lambda>s. fresh_fds K \<longrightarrow> tables_ok s" UNIV for K :: "('ty, 'd) pps_kernel"
  by unfold_locales (auto simp: tables_ok_arm tables_ok_open cong: tables_ok_cong)

text \<open>An object that no connection of a reader is told about.\<close>

definition silent :: "nat \<Rightarrow> string \<Rightarrow> int \<Rightarrow> ('ty, 'd) cb \<Rightarrow> bool" where
  "silent r path fd s \<longleftrightarrow> (path, fd) \<in> set (pps_fds (readers s r)) \<and> (\<forall>c. armed s fd = Some c \<longrightarrow> c < 0)"

lemma silent_cong: "tabs t = tabs s \<Longrightarrow> silent r path fd t = silent r path fd s"
  by (simp add: tabs_def silent_def fun_eq_iff)

lemma silent_open:
  assumes "fresh_fds K" "tables_ok s" "silent r path fd s"
  shows "silent r path fd (fst (openPPSObject K q path' s))"
proof -
  have "fd \<in> opened s" using assms(2,3) by (auto simp: tables_ok_def silent_def)
  then have "k_open K s path' \<noteq> fd \<or> k_open K s path' < 0" using assms(1) by (metis fresh_fds_def)
  then show ?thesis using assms(3) by (auto simp: openPPSObject_def Let_def silent_def)
qed

interpretation silence: table_property K "\<lambda>s. fresh_fds K \<longrightarrow> tables_ok s \<and> silent r path fd s" "- {fd}"
    for K :: "('ty, 'd) pps_kernel" and r path fd
  by unfold_locales (auto simp: tables_ok_arm tables_ok_open silent_open cong: tables_ok_cong silent_cong, auto simp: silent_def)

inductive cb_run :: "('ty, 'd) pps_kernel \<Rightarrow> ('ty, 'd) handler \<Rightarrow> ('ty, 'd) cb \<Rightarrow> nat option list \<Rightarrow> ('ty, 'd) cb \<Rightarrow> bool"
    for K h where
  cb_none: "cb_run K h s [] s"
| cb_more: "cb_run K h s ls t \<Longrightarrow> cb_step K h t l u \<Longrightarrow> cb_run K h s (ls @ [l]) u"

lemma closed_objects:
  "readers (fold close_object fds s) = readers s" "opened (fold close_object fds s) = opened s - set fds"
  "armed (fold close_object fds s) = (\<lambda>fd. if fd \<in> set fds then None else armed s fd)"
  by (induction fds arbitrary: s) (auto simp: close_object_def)

lemma started_tables:
  "pps_fds (readers (set_reader r (reader_start c d (readers s r)) s) q) = pps_fds (readers s q)"
  "fd_to_path (readers (set_reader r (reader_start c d (readers s r)) s) q) = fd_to_path (readers s q)"
  by (simp_all add: reader_start_def)

lemma tables_ok_start: "tables_ok (set_reader r (reader_start c d (readers s r)) s) = tables_ok s"
  and silent_start: "silent q path fd (set_reader r (reader_start c d (readers s r)) s) = silent q path fd s"
  unfolding tables_ok_def silent_def started_tables by simp_all

lemma stopped_tables:
  "pps_fds (readers (reader_stop r s) q) = (if q = r \<and> cb_running (readers s r) then [] else pps_fds (readers s q))"
  "fd_to_path (readers (reader_stop r s) q) = fd_to_path (readers s q)"
  "opened (reader_stop r s) = (if cb_running (readers s r) then opened s - snd ` set (pps_fds (readers s r)) else opened s)"
  by (simp_all add: reader_stop_def Let_def closed_objects)

lemma tables_ok_stop:
  assumes "tables_ok s" shows "tables_ok (reader_stop r s)"
proof -
  have "fd \<in> opened (reader_stop r s)" if "(path, fd) \<in> set (pps_fds (readers (reader_stop r s) q))" for q path fd
  proof -
    have q: "(path, fd) \<in> set (pps_fds (readers s q))" "\<not> (q = r \<and> cb_running (readers s r))"
      using that by (auto simp: stopped_tables split: if_splits)
    then have "fd \<in> opened s" using assms unfolding tables_ok_def by blast
    moreover have "fd \<notin> snd ` set (pps_fds (readers s r))" if "cb_running (readers s r)"
    proof
      assume "fd \<in> snd ` set (pps_fds (readers s r))"
      then obtain path' where "(path', fd) \<in> set (pps_fds (readers s r))" by auto
      then have "q = r" using assms q(1) unfolding tables_ok_def by blast
      then show False using q(2) that by blast
    qed
    ultimately show ?thesis by (simp add: stopped_tables)
  qed
  moreover have "(path, fd) \<in> set (pps_fds (readers s q))"
    if "(path, fd) \<in> set (pps_fds (readers (reader_stop r s) q))" for q path fd
    using that by (auto simp: stopped_tables split: if_splits)
  moreover have "distinct (map fst (pps_fds (readers (reader_stop r s) q)))" for q
    using assms by (simp add: stopped_tables tables_ok_def)
  ultimately show ?thesis using assms unfolding tables_ok_def stopped_tables(2) by meson
qed

lemma silent_stop: "silent q path fd s \<Longrightarrow> q \<noteq> r \<Longrightarrow> silent q path fd (reader_stop r s)"
  by (auto simp: silent_def reader_stop_def Let_def closed_objects split: if_splits)

lemma open_silent:
  assumes "cb_coid (readers s r) < 0" "map_of (pps_fds (readers s r)) path = None" "openPPSObject K r path s = (t, True)"
  shows "silent r path (k_open K s path) t"
  using assms by (auto simp: openPPSObject_def Let_def silent_def split: if_splits)

lemma step_tables:
  assumes "fresh_fds K" "cb_step K h s l t" "tables_ok s" shows "tables_ok t"
  using assms(2,3)
proof (cases rule: cb_step.cases)
  case (cb_notify ty path d)
  then show ?thesis using tables.notify_kept [of K s h ty path d] assms(1,3) by simp
next
  case (cb_pulse r fd)
  then show ?thesis using tables.handle_kept [of K "s\<lparr>armed := (armed s)(fd := None)\<rparr>" fd h r t] assms(1,3)
    by (simp add: tables_ok_arm)
next
  case (cb_subscribe r ty path sub b)
  then show ?thesis using tables.subscribe_kept [of K s r ty path sub t b] assms(1,3) by simp
next
  case (cb_unsubscribe ty path sub)
  then show ?thesis using tables.unsubscribe_kept [of K s ty path sub t] assms(1,3) by simp
next
  case (cb_register r path p)
  then show ?thesis using tables.register_kept [of K s r path p t] assms(1,3) by simp
qed (use assms(1,3) tables.alive_kept [of K s] in \<open>simp_all add: tables_ok_start tables_ok_stop\<close>)

lemma step_silent:
  assumes "fresh_fds K" "cb_step K h s l t" "tables_ok s" "silent r path fd s" "l \<noteq> Some r" shows "silent r path fd t"
  using assms(2,3,4)
proof (cases rule: cb_step.cases)
  case (cb_notify ty path' d)
  then show ?thesis using silence.notify_kept [of K s r path fd h ty path' d] assms(1,3,4) by simp
next
  case (cb_pulse q fd')
  have "fd' \<noteq> fd" using cb_pulse(3,4) assms(4) by (auto simp: silent_def)
  moreover have "silent r path fd (s\<lparr>armed := (armed s)(fd' := None)\<rparr>)" using assms(4) by (auto simp: silent_def)
  ultimately show ?thesis
    using silence.handle_kept [of K "s\<lparr>armed := (armed s)(fd' := None)\<rparr>" r path fd fd' h q t] cb_pulse(5) assms(1,3)
    by (simp add: tables_ok_arm)
next
  case (cb_subscribe q ty path' sub b)
  then show ?thesis using silence.subscribe_kept [of K s r path fd q ty path' sub t b] assms(1,3,4) by simp
next
  case (cb_unsubscribe ty path' sub)
  then show ?thesis using silence.unsubscribe_kept [of K s r path fd ty path' sub t] assms(1,3,4) by simp
next
  case (cb_register q path' p)
  then show ?thesis using silence.register_kept [of K s r path fd q path' p t] assms(1,3,4) by simp
qed (use assms(1,3,4,5) silence.alive_kept [of K s r path fd] in \<open>simp_all add: silent_start silent_stop\<close>)

lemma run_tables: "cb_run K h s ls t \<Longrightarrow> fresh_fds K \<Longrightarrow> tables_ok s \<Longrightarrow> tables_ok t"
  by (induction rule: cb_run.induct) (auto intro: step_tables)

lemma run_silent: "cb_run K h s ls t \<Longrightarrow> fresh_fds K \<Longrightarrow> tables_ok s \<Longrightarrow> silent r path fd s \<Longrightarrow> Some r \<notin> set ls \<Longrightarrow> silent r path fd t"
  by (induction rule: cb_run.induct) (auto intro: step_silent run_tables)

lemma init_tables: "tables_ok cb_init"
  by (simp add: tables_ok_def cb_init_def CbReader_ctor_def)

text \<open>
  At every moment the two tables of each reader agree: the descriptors of its objects are open, lead
  back to their paths, and belong to one path of one reader.
\<close>

theorem reader_tables_agree:
  assumes "fresh_fds K" "cb_run K h cb_init ls s"
  shows "distinct (map fst (pps_fds (readers s r)))
    \<and> (\<forall>path fd. (path, fd) \<in> set (pps_fds (readers s r)) \<longrightarrow> fd_to_path (readers s r) fd = Some path \<and> fd \<in> opened s
         \<and> (\<forall>q path'. (path', fd) \<in> set (pps_fds (readers s q)) \<longrightarrow> r = q \<and> path = path'))"
  using run_tables [OF assms(2,1) init_tables] unfolding tables_ok_def by fast

text \<open>C39: A subscription made while the reader has no connection succeeds, but no pulse ever
  comes for its object, whatever happens until the reader is stopped: the notification was armed for
  connection -1, and neither \<open>start\<close> nor a later subscription to the same path arms it
  again. (\<open>open\<close> gives out descriptors that are not in use, and the path was not open
  before.)\<close>

theorem subscription_before_start_is_silent:
  assumes "fresh_fds K" "cb_run K h cb_init ls s" "cb_coid (readers s r) < 0" "path \<notin> fst ` set (pps_fds (readers s r))"
    and "reader_subscribe K r ty path sub s = Returned (t, True)" "cb_run K h t ms u" "Some r \<notin> set ms"
  shows "\<exists>fd. map_of (pps_fds (readers u r)) path = Some fd
    \<and> (\<forall>q. cb_coid (readers u q) \<ge> 0 \<longrightarrow> armed u fd \<noteq> Some (cb_coid (readers u q)))"
proof -
  have s: "tables_ok s" by (rule run_tables [OF assms(2,1) init_tables])
  then have t: "tables_ok t" using tables.subscribe_kept [of K s] assms(1,5) by blast
  have "map_of (pps_fds (readers s r)) path = None" using assms(4) by (simp add: map_of_eq_None_iff)
  then obtain fd where "silent r path fd t"
    using assms(3,5) open_silent [of "set_subs ty path _ s" r path K t]
    by (fastforce simp: reader_subscribe_def sm_subscribe_def split: if_splits)
  then have u: "silent r path fd u" "tables_ok u"
    using run_silent [OF assms(6,1) t] assms(7) run_tables [OF assms(6,1) t] by auto
  then have "map_of (pps_fds (readers u r)) path = Some fd" by (simp add: silent_def tables_ok_def)
  then show ?thesis using u(1) by (intro exI [of _ fd]) (auto simp: silent_def)
qed

section \<open>The program\<close>

datatype data_type = SensorData | EngineData

definition then_do :: "('s, 'a) outcome \<Rightarrow> ('a \<Rightarrow> ('s, 'b) outcome) \<Rightarrow> ('s, 'b) outcome" where
  "then_do x f = (case x of Returned t \<Rightarrow> f t | Raised e t \<Rightarrow> Raised e t | Locked_up \<Rightarrow> Locked_up)"

text \<open>
  \<open>main\<close>: the views are the objects 0, 1 and 2, the parsers and the two values are parameters; \<open>c\<close> and
  \<open>e\<close> are what the creation of the channel and the connection return. No pulse comes in between.
\<close>

definition cb_main where
  "cb_main K c e parse_sensor parse_engine sensor_data engine_data =
    (let sensors = ''/pps/sensors/temp''; engine = ''/pps/engine/stats'';
         s = set_reader 0 (reader_start c e (readers cb_init 0)) cb_init in
     then_do (registerParser 0 sensors (SensorData, parse_sensor) s) (\<lambda>s.
     then_do (registerParser 0 engine (EngineData, parse_engine) s) (\<lambda>s.
     then_do (do_act K (Subscribe 0 SensorData sensors (Some 0)) (s\<lparr>alive := {0, 1, 2}\<rparr>)) (\<lambda>s.
     then_do (do_act K (Subscribe 0 SensorData sensors (Some 1)) s) (\<lambda>s.
     then_do (do_act K (Subscribe 0 EngineData engine (Some 2)) s) (\<lambda>s.
     then_do (sm_notify K view_handler SensorData sensors sensor_data (s\<lparr>alive := alive s - {1}\<rparr>)) (\<lambda>s.
     then_do (sm_notify K view_handler EngineData engine engine_data s) (\<lambda>s. Returned (reader_stop 0 s)))))))))"

lemma openPPSObject_fields [simp]:
  "subscriptions (fst (openPPSObject K r path s)) = subscriptions s" "sm_mutex (fst (openPPSObject K r path s)) = sm_mutex s"
  "alive (fst (openPPSObject K r path s)) = alive s" "in_call (fst (openPPSObject K r path s)) = in_call s"
  "cb_calls (fst (openPPSObject K r path s)) = cb_calls s"
  by (simp_all add: openPPSObject_def Let_def)

lemma reader_stop_calls [simp]: "cb_calls (reader_stop r s) = cb_calls s"
proof -
  have "cb_calls (fold close_object fds s) = cb_calls s" for fds by (induction fds arbitrary: s) (simp_all add: close_object_def)
  then show ?thesis by (simp add: reader_stop_def Let_def)
qed

lemma subscribe_act:
  "\<not> sm_mutex s ty \<Longrightarrow> do_act K (Subscribe r ty path sub) s = Returned (fst (openPPSObject K r path
     (set_subs ty path ((case subscriptions s ty path of None \<Rightarrow> [] | Some ws \<Rightarrow> ws) @ [sub]) s)))"
  by (simp add: reader_subscribe_def sm_subscribe_def split: prod.split)

lemma view_notify:
  assumes "\<not> sm_mutex s ty" "subscriptions s ty path = Some ws"
  shows "sm_notify K view_handler ty path d s = Returned (sm_lock ty False (set_subs ty path (filter (living s) ws)
    (sm_lock ty True (s\<lparr>cb_calls := cb_calls s @ map (\<lambda>j. Update ty j path d) (locked_ids s ws)\<rparr>))))"
proof -
  have "lockable ((sm_lock ty True s)\<lparr>cb_calls := c\<rparr>) = lockable s" for c by (simp add: lockable_def)
  then show ?thesis
    using assms idle_loop [of "sm_lock ty True s" ws view_handler "\<lambda>j. Update ty j path d" K "[]"]
    by (simp add: sm_notify_def view_handler_def sm_lock_twice living_def [abs_def])
qed

lemma cb_init_fields [simp]:
  "sm_mutex cb_init = (\<lambda>_. False)" "subscriptions cb_init = (\<lambda>_. Map.empty)" "cb_calls cb_init = []" "in_call cb_init = None"
  "parser_mutex (reader_start c d (readers cb_init r)) = False"
  by (simp_all add: cb_init_def CbReader_ctor_def reader_start_def)

text \<open>
  \<open>main\<close> ends, and its two notifications reach the first sensor view and the engine view, whatever the
  kernel answers; the second sensor view, released before, is not called.
\<close>

theorem main_tells_the_living_views:
  "\<exists>t. cb_main K c e ps pe x y = Returned t
     \<and> cb_calls t = [Update SensorData 0 ''/pps/sensors/temp'' x, Update EngineData 2 ''/pps/engine/stats'' y]"
  unfolding cb_main_def Let_def
  by (simp add: then_do_def registerParser_def subscribe_act view_notify living_def lockable_def weak_lock_def del: do_act.simps)

section \<open>Witnesses\<close>

definition demo_kernel :: "(nat, nat) pps_kernel" where
  "demo_kernel = \<lparr>k_open = (\<lambda>s path. if 3 \<in> opened s then (if 4 \<in> opened s then -1 else 4) else 3),
     k_ionotify = (\<lambda>_ _. 0), k_read = (\<lambda>_ _. Some ''x'')\<rparr>"

definition demo_cb :: "nat option list \<Rightarrow> (nat, nat) cb" where
  "demo_cb ws = cb_init\<lparr>subscriptions := (\<lambda>_. [''p'' \<mapsto> ws]), alive := {0, 1, 2},
     readers := (\<lambda>_. CbReader_ctor\<lparr>fd_to_path := [3 \<mapsto> ''p''], parsers := [''p'' \<mapsto> (0, \<lambda>_. Inr 5)]\<rparr>)\<rparr>"

lemma demo_cb_fields [simp]:
  "sm_mutex (demo_cb ws) = (\<lambda>_. False)" "subscriptions (demo_cb ws) = (\<lambda>_. [''p'' \<mapsto> ws])" "cb_calls (demo_cb ws) = []"
  "lockable (demo_cb ws) = {0, 1, 2}" "\<not> parser_mutex (readers (demo_cb ws) r)"
  "fd_to_path (readers (demo_cb ws) r) = [3 \<mapsto> ''p'']" "parsers (readers (demo_cb ws) r) = [''p'' \<mapsto> (0, \<lambda>_. Inr 5)]"
  by (simp_all add: demo_cb_def lockable_def CbReader_ctor_def)

lemma demo_fresh: "fresh_fds demo_kernel"
  by (simp add: fresh_fds_def demo_kernel_def)

theorem pulse_reaches_the_living_subscribers_witness:
  "\<exists>t is. handlePPSData demo_kernel view_handler 0 3 (demo_cb [Some 2, Some 9, Some 0]) = Returned t
     \<and> cb_calls t = map (\<lambda>i. Update 0 i ''p'' 5) is \<and> subseq (map Some is) [Some 2, Some 0]
     \<and> armed t 3 = Some (cb_coid (readers t 0))"
proof -
  have "filter (living (demo_cb [Some 2, Some 9, Some 0])) [Some 2, Some 9, Some 0] = [Some 2, Some 0]"
    by (simp add: living_def weak_lock_def)
  then show ?thesis
    using pulse_reaches_the_living_subscribers [of view_handler 0 "demo_cb [Some 2, Some 9, Some 0]" 0 3 "''p''" demo_kernel
        "''x''" "\<lambda>_. Inr 5" 5 "[Some 2, Some 9, Some 0]"]
    by (fastforce simp: views.gentle_subscribers_axioms demo_kernel_def)
qed

definition throwing_handler :: "(nat, nat) handler" where
  "throwing_handler cs c = ([], if c = Update 0 1 ''p'' 5 then Some (Std_exception ''e'') else None)"

theorem throwing_subscriber_reads_as_a_parse_error_witness:
  "\<exists>t. run_parser demo_kernel throwing_handler ''p'' (0, \<lambda>_. Inr 5) ''x'' (demo_cb [Some 0, Some 1, Some 2]) = Returned t
     \<and> cb_calls t = [Update 0 0 ''p'' 5, Update 0 1 ''p'' 5, Failure 0 0 ''p'' ''Parse error: e'',
          Failure 0 1 ''p'' ''Parse error: e'', Failure 0 2 ''p'' ''Parse error: e'']"
  using throwing_subscriber_reads_as_a_parse_error [of "\<lambda>_. Inr 5" "''x''" 5 "demo_cb [Some 0, Some 1, Some 2]" 0 "''p''"
      "[Some 0]" 1 "[Some 2]" throwing_handler "''e''" demo_kernel]
  by (simp add: weak_lock_def throwing_handler_def parse_error_def)

definition nosy_handler :: "(nat, nat) handler" where
  "nosy_handler cs c = (if c = Update 0 1 ''p'' 5 then ([Release 2, Subscribe 0 0 ''q'' (Some 1)], None) else ([], None))"

theorem subscribing_in_a_callback_locks_up_witness:
  "sm_notify demo_kernel nosy_handler 0 ''p'' 5 (demo_cb [Some 0, Some 1]) = Locked_up"
  by (rule subscribing_in_a_callback_locks_up [where us = "[Some 0]" and i = 1 and vs = "[]" and ids = "[2]" and r = 0 and path' = "''q''"
      and sub = "Some 1" and as = "[]" and e = None]) (simp_all add: weak_lock_def nosy_handler_def)

lemma demo_subscribe:
  "reader_subscribe demo_kernel 0 (0 :: nat) ''p'' (Some 1) cb_init = Returned (openPPSObject demo_kernel 0 ''p'' (set_subs 0 ''p'' [Some 1] cb_init))"
  "snd (openPPSObject demo_kernel 0 ''p'' (set_subs 0 ''p'' [Some 1] cb_init))"
  by (simp_all add: reader_subscribe_def sm_subscribe_def openPPSObject_def Let_def demo_kernel_def cb_init_def CbReader_ctor_def)

theorem reader_tables_agree_witness:
  "\<exists>s. cb_run demo_kernel view_handler cb_init [None] s \<and> (''p'', 3) \<in> set (pps_fds (readers s 0))
     \<and> fd_to_path (readers s 0) 3 = Some ''p'' \<and> 3 \<in> opened s"
proof -
  obtain s b where s: "openPPSObject demo_kernel 0 ''p'' (set_subs 0 ''p'' [Some 1] cb_init) = (s, b)" by (metis surj_pair)
  then have "cb_run demo_kernel view_handler cb_init ([] @ [None]) s"
    using cb_subscribe [of demo_kernel 0 0 "''p''" "Some 1" cb_init s b] demo_subscribe(1) by (intro cb_more [OF cb_none]) simp
  moreover have "(''p'', 3) \<in> set (pps_fds (readers s 0))"
    using s by (auto simp: openPPSObject_def Let_def demo_kernel_def cb_init_def CbReader_ctor_def split: if_splits)
  ultimately show ?thesis using reader_tables_agree [OF demo_fresh, of view_handler "[None]" s 0] by auto
qed

theorem subscription_before_start_is_silent_witness:
  "\<exists>t u fd. reader_subscribe demo_kernel 0 (0 :: nat) ''p'' (Some 1) cb_init = Returned (t, True)
     \<and> u = set_reader 0 (reader_start 1 2 (readers t 0)) t \<and> cb_coid (readers u 0) = 2
     \<and> map_of (pps_fds (readers u 0)) ''p'' = Some fd \<and> armed u fd \<noteq> Some 2"
proof -
  obtain t where t: "reader_subscribe demo_kernel 0 (0 :: nat) ''p'' (Some 1) cb_init = Returned (t, True)"
    using demo_subscribe by (metis (full_types) prod.collapse)
  let ?u = "set_reader 0 (reader_start 1 2 (readers t 0)) t"
  have u: "cb_run demo_kernel view_handler t ([] @ [None]) ?u" by (intro cb_more [OF cb_none] cb_start)
  have "\<exists>fd. map_of (pps_fds (readers ?u 0)) ''p'' = Some fd
      \<and> (\<forall>q. cb_coid (readers ?u q) \<ge> 0 \<longrightarrow> armed ?u fd \<noteq> Some (cb_coid (readers ?u q)))"
    by (intro subscription_before_start_is_silent [OF demo_fresh cb_none _ _ t u]) (simp_all add: cb_init_def CbReader_ctor_def)
  then obtain fd where fd: "map_of (pps_fds (readers ?u 0)) ''p'' = Some fd"
      "cb_coid (readers ?u 0) \<ge> 0 \<longrightarrow> armed ?u fd \<noteq> Some (cb_coid (readers ?u 0))" by blast
  have c: "cb_coid (readers ?u 0) = 2"
    using t demo_subscribe(1) by (auto simp: openPPSObject_def Let_def demo_kernel_def cb_init_def CbReader_ctor_def reader_start_def split: if_splits)
  from t fd show ?thesis unfolding c by (intro exI [of _ t] exI [of _ ?u] exI [of _ fd]) (simp_all only: c, simp)
qed

end
