(* ===== verification/PPSBuffer.thy ===== *)
theory PPSBuffer
  imports TcpSocket
begin

text \<open>
  \<open>testPPS/pps_qnx_claude_app1_with_buffer.cpp\<close>, the buffers: \<open>PPSBuffer\<close>, which grows and never
  shrinks, its \<open>readFrom\<close>, and the \<open>BufferPool\<close> that keeps buffers for reuse. \<open>size_t\<close> has 64
  bits; \<open>mem n\<close> says whether an allocation of \<open>n\<close> bytes succeeds, \<open>rd p n\<close> what \<open>read\<close> does
  when asked for \<open>n\<close> bytes after \<open>p\<close> bytes have been read.
\<close>

definition add64 :: "nat \<Rightarrow> nat \<Rightarrow> nat" where "add64 a b = (a + b) mod 2 ^ 64"
definition sub64 :: "nat \<Rightarrow> nat \<Rightarrow> nat" where "sub64 a b = (a + 2 ^ 64 - b) mod 2 ^ 64"
definition mul64 :: "nat \<Rightarrow> nat \<Rightarrow> nat" where "mul64 a b = (a * b) mod 2 ^ 64"

lemma sub64_eq: "b \<le> a \<Longrightarrow> a < 2 ^ 64 \<Longrightarrow> sub64 a b = a - b"
proof -
  assume "b \<le> a" "a < 2 ^ 64"
  then have "a + 2 ^ 64 - b = (a - b) + 2 ^ 64" "a - b < 2 ^ 64" by linarith+
  then show ?thesis by (simp only: sub64_def mod_add_self2 mod_less)
qed

lemma mul64_2: "a < 2 ^ 63 \<Longrightarrow> mul64 a 2 = 2 * a"
  by (simp add: mul64_def)

section \<open>\<open>PPSBuffer\<close>\<close>

record PPSBuffer =
  pb_capacity :: nat
  pb_size :: nat
  pb_data :: "nat \<Rightarrow> byte"
  pb_ref_count :: int

definition PPSBuffer_ctor :: "(nat \<Rightarrow> bool) \<Rightarrow> (nat \<Rightarrow> byte) \<Rightarrow> nat \<Rightarrow> PPSBuffer res" where
  "PPSBuffer_ctor mem raw n =
     (if mem n then Inr \<lparr>pb_capacity = n, pb_size = 0, pb_data = raw, pb_ref_count = 0\<rparr>
      else Inl (Terminated ''bad_alloc''))"

text \<open>The moved-from buffer, after the one that takes its memory over.\<close>

definition PPSBuffer_move :: "PPSBuffer \<Rightarrow> PPSBuffer \<times> PPSBuffer" where
  "PPSBuffer_move b = (b, b\<lparr>pb_capacity := 0, pb_size := 0, pb_ref_count := 0\<rparr>)"

definition PPSBuffer_clear :: "PPSBuffer \<Rightarrow> PPSBuffer" where
  "PPSBuffer_clear b = b\<lparr>pb_size := 0\<rparr>"

definition addRef :: "PPSBuffer \<Rightarrow> PPSBuffer" where
  "addRef b = b\<lparr>pb_ref_count := pb_ref_count b + 1\<rparr>"

definition releaseRef :: "PPSBuffer \<Rightarrow> PPSBuffer" where
  "releaseRef b = b\<lparr>pb_ref_count := pb_ref_count b - 1\<rparr>"

definition PPSBuffer_toString :: "PPSBuffer \<Rightarrow> byte list" where
  "PPSBuffer_toString b = buf_read 0 (pb_size b) (pb_data b)"

text \<open>\<open>while (new_capacity < required) new_capacity *= 2\<close>\<close>

partial_function (option) grow :: "nat \<Rightarrow> nat \<Rightarrow> nat option" where
  "grow required new_capacity =
     (if new_capacity < required then grow required (mul64 new_capacity 2) else Some new_capacity)"

definition ensureCapacity :: "(nat \<Rightarrow> bool) \<Rightarrow> nat \<Rightarrow> PPSBuffer \<Rightarrow> (bool \<times> PPSBuffer) option" where
  "ensureCapacity mem required b =
     (if pb_capacity b \<ge> required then Some (True, b)
      else case grow required (pb_capacity b) of
             None \<Rightarrow> None
           | Some n \<Rightarrow> if mem n then Some (True, b\<lparr>pb_capacity := n\<rparr>) else Some (False, b))"

section \<open>\<open>readFrom\<close>\<close>

datatype read_result = R_bytes "byte list" | R_again | R_failed

datatype pps_errno = E_NOMEM | E_FBIG | E_READ

text \<open>Growing by the factor two up to \<open>max_size\<close> when fewer than 1024 bytes are free.\<close>

definition make_room :: "(nat \<Rightarrow> bool) \<Rightarrow> nat \<Rightarrow> PPSBuffer \<Rightarrow> (bool \<times> PPSBuffer) option" where
  "make_room mem max_size b =
     (if sub64 (pb_capacity b) (pb_size b) < 1024
      then let new_capacity = mul64 (pb_capacity b) 2;
               new_capacity = (if new_capacity > max_size then max_size else new_capacity)
           in ensureCapacity mem new_capacity b
      else Some (True, b))"

text \<open>What follows the loop.\<close>

definition terminate_string :: "PPSBuffer \<Rightarrow> (pps_errno + nat) \<times> PPSBuffer" where
  "terminate_string b =
     (Inr (pb_size b),
      if pb_size b < pb_capacity b then b\<lparr>pb_data := (pb_data b)(pb_size b := 0)\<rparr> else b)"

text \<open>One iteration: the result of the function, or the buffer with which the loop goes on.\<close>

definition read_once ::
  "(nat \<Rightarrow> bool) \<Rightarrow> (nat \<Rightarrow> nat \<Rightarrow> read_result) \<Rightarrow> nat \<Rightarrow> PPSBuffer
     \<Rightarrow> (((pps_errno + nat) \<times> PPSBuffer) + PPSBuffer) option" where
  "read_once mem rd max_size b =
     (case make_room mem max_size b of
        None \<Rightarrow> None
      | Some (roomy, b) \<Rightarrow>
          if \<not> roomy then Some (Inl (Inl E_NOMEM, b))
          else if pb_size b \<ge> max_size then Some (Inl (Inl E_FBIG, b))
          else let space = min (sub64 (pb_capacity b) (pb_size b)) (sub64 max_size (pb_size b))
               in case rd (pb_size b) space of
                    R_again \<Rightarrow> Some (Inl (terminate_string b))
                  | R_failed \<Rightarrow> Some (Inl (Inl E_READ, b))
                  | R_bytes bs \<Rightarrow>
                      if bs = [] then Some (Inl (terminate_string b))
                      else let b = b\<lparr>pb_data := buf_write (pb_size b) bs (pb_data b),
                                     pb_size := add64 (pb_size b) (length bs)\<rparr>
                           in if length bs < space then Some (Inl (terminate_string b)) else Some (Inr b))"

partial_function (option) read_loop ::
  "(nat \<Rightarrow> bool) \<Rightarrow> (nat \<Rightarrow> nat \<Rightarrow> read_result) \<Rightarrow> nat \<Rightarrow> PPSBuffer
     \<Rightarrow> ((pps_errno + nat) \<times> PPSBuffer) option" where
  "read_loop mem rd max_size b =
     (case read_once mem rd max_size b of
        None \<Rightarrow> None
      | Some r \<Rightarrow> if isl r then Some (projl r) else read_loop mem rd max_size (projr r))"

definition readFrom ::
  "(nat \<Rightarrow> bool) \<Rightarrow> (nat \<Rightarrow> nat \<Rightarrow> read_result) \<Rightarrow> nat \<Rightarrow> PPSBuffer
     \<Rightarrow> ((pps_errno + nat) \<times> PPSBuffer) option" where
  "readFrom mem rd max_size b = read_loop mem rd max_size (b\<lparr>pb_size := 0\<rparr>)"

definition default_max_size :: nat where
  "default_max_size = 10 * 1024 * 1024"

section \<open>\<open>BufferPool\<close>\<close>

record BufferPool =
  bp_buffer_size :: nat
  bp_max_pool_size :: nat
  bp_available :: "PPSBuffer list"

fun fill_pool :: "(nat \<Rightarrow> bool) \<Rightarrow> (nat \<Rightarrow> byte) \<Rightarrow> nat \<Rightarrow> nat \<Rightarrow> BufferPool \<Rightarrow> BufferPool res" where
  "fill_pool mem raw sz 0 p = Inr p"
| "fill_pool mem raw sz (Suc n) p =
     bindr (PPSBuffer_ctor mem raw sz) (\<lambda>b.
       fill_pool mem raw sz n (p\<lparr>bp_available := bp_available p @ [b]\<rparr>))"

definition BufferPool_ctor :: "(nat \<Rightarrow> bool) \<Rightarrow> (nat \<Rightarrow> byte) \<Rightarrow> nat \<Rightarrow> nat \<Rightarrow> BufferPool res" where
  "BufferPool_ctor mem raw initial_count buffer_size =
     fill_pool mem raw buffer_size initial_count
       \<lparr>bp_buffer_size = buffer_size, bp_max_pool_size = 32, bp_available = []\<rparr>"

definition pool_acquire :: "(nat \<Rightarrow> bool) \<Rightarrow> (nat \<Rightarrow> byte) \<Rightarrow> BufferPool \<Rightarrow> (PPSBuffer \<times> BufferPool) res" where
  "pool_acquire mem raw p =
     (case bp_available p of
        b # bs \<Rightarrow> Inr (addRef (PPSBuffer_clear b), p\<lparr>bp_available := bs\<rparr>)
      | [] \<Rightarrow> bindr (PPSBuffer_ctor mem raw (bp_buffer_size p)) (\<lambda>b. Inr (addRef b, p)))"

definition pool_release :: "PPSBuffer option \<Rightarrow> BufferPool \<Rightarrow> BufferPool" where
  "pool_release ob p =
     (case ob of
        None \<Rightarrow> p
      | Some b \<Rightarrow>
          let b = PPSBuffer_clear (releaseRef b)
          in if length (bp_available p) < bp_max_pool_size p
             then p\<lparr>bp_available := bp_available p @ [b]\<rparr> else p)"

definition availableCount :: "BufferPool \<Rightarrow> nat" where
  "availableCount p = length (bp_available p)"

section \<open>Reading ends inside the buffer\<close>

lemma grow_ok:
  "0 < n \<Longrightarrow> r \<le> 2 ^ 63 \<Longrightarrow> \<exists>m. grow r n = Some m \<and> r \<le> m \<and> n \<le> m \<and> (m = n \<or> m < 2 * r)"
proof (induction "r - n" arbitrary: n rule: less_induct)
  case less
  show ?case
  proof (cases "n < r")
    case True
    have m: "mul64 n 2 = 2 * n" using True less.prems by (intro mul64_2) simp
    have "r - 2 * n < r - n" using True less.prems by simp
    then obtain m where "grow r (2 * n) = Some m" "r \<le> m" "2 * n \<le> m" "m = 2 * n \<or> m < 2 * r"
      using less.hyps[of "2 * n"] less.prems by auto
    then show ?thesis using True m by (subst grow.simps) auto
  next
    case False
    then show ?thesis by (subst grow.simps) simp
  qed
qed

text \<open>A buffer without memory (a moved-from one) makes the loop run for ever.\<close>

lemma grow_0_never: "grow r n = Some m \<Longrightarrow> n = 0 \<Longrightarrow> 0 < r \<Longrightarrow> False"
proof (induction rule: grow.raw_induct[rotated, consumes 1])
  case (1 g r n m)
  show ?case using 1(1)[of r "mul64 n 2" m] 1(2-4) by (simp add: mul64_def)
qed

definition buf_ok :: "nat \<Rightarrow> PPSBuffer \<Rightarrow> bool" where
  "buf_ok max_size b \<longleftrightarrow> 0 < pb_capacity b \<and> pb_capacity b < 2 ^ 63 \<and> pb_size b \<le> pb_capacity b
     \<and> pb_size b \<le> max_size"

lemma make_room_ok:
  assumes "buf_ok max_size b" "max_size \<le> 2 ^ 62"
  obtains roomy cap where "make_room mem max_size b = Some (roomy, b\<lparr>pb_capacity := cap\<rparr>)"
    "buf_ok max_size (b\<lparr>pb_capacity := cap\<rparr>)" "roomy \<and> pb_size b < max_size \<longrightarrow> pb_size b < cap"
    "(\<forall>n. mem n) \<longrightarrow> roomy"
proof (cases "sub64 (pb_capacity b) (pb_size b) < 1024")
  case False
  then have "pb_size b < pb_capacity b" using assms by (auto simp: buf_ok_def sub64_eq)
  then show thesis using that[of True "pb_capacity b"] False assms by (simp add: make_room_def)
next
  case True
  let ?c = "pb_capacity b" and ?n = "min (2 * pb_capacity b) max_size"
  have c: "0 < ?c" "?c < 2 ^ 63" "pb_size b \<le> ?c" using assms by (simp_all add: buf_ok_def)
  have eq: "make_room mem max_size b = ensureCapacity mem ?n b"
    using True mul64_2[OF c(2)] by (simp add: make_room_def Let_def min_def)
  show thesis
  proof (cases "?n \<le> ?c")
    case True
    then have "pb_size b < max_size \<longrightarrow> pb_size b < ?c" using c by (simp add: min_def split: if_splits)
    then show thesis using that[of True ?c] eq True assms by (simp add: ensureCapacity_def)
  next
    case False
    obtain m where m: "grow ?n ?c = Some m" "?n \<le> m" "?c \<le> m" "m = ?c \<or> m < 2 * ?n"
      using grow_ok[OF c(1), of ?n] assms(2) by (auto simp: min_le_iff_disj)
    have "m < 2 ^ 63" using m(4) c(2) assms(2) by auto
    then have ok: "buf_ok max_size (b\<lparr>pb_capacity := m\<rparr>)" using m(3) c assms(1) by (simp add: buf_ok_def)
    have lt: "pb_size b < max_size \<longrightarrow> pb_size b < m" using m(2) c by (simp add: min_def split: if_splits)
    show thesis
    proof (cases "mem m")
      case True
      then show thesis using that[of True m] eq False m(1) ok lt by (simp add: ensureCapacity_def)
    next
      case no_mem: False
      then have "make_room mem max_size b = Some (False, b\<lparr>pb_capacity := ?c\<rparr>)"
        using eq False m(1) by (simp add: ensureCapacity_def)
      then show thesis using that[of False ?c] no_mem assms by auto
    qed
  qed
qed

text \<open>What \<open>read\<close> promises, and what \<open>readFrom\<close> does.\<close>

definition reads_at_most :: "(nat \<Rightarrow> nat \<Rightarrow> read_result) \<Rightarrow> bool" where
  "reads_at_most rd \<longleftrightarrow> (\<forall>p n bs. rd p n = R_bytes bs \<longrightarrow> length bs \<le> n)"

definition read_ended :: "nat \<Rightarrow> (pps_errno + nat) \<times> PPSBuffer \<Rightarrow> bool" where
  "read_ended max_size = (\<lambda>(r, b). pb_size b \<le> pb_capacity b \<and> 0 < pb_capacity b
     \<and> (case r of Inl _ \<Rightarrow> True
         | Inr n \<Rightarrow> n = pb_size b \<and> n \<le> max_size \<and> n < pb_capacity b \<and> pb_data b n = 0))"

lemma terminate_string_ended:
  "buf_ok max_size b \<Longrightarrow> pb_size b < pb_capacity b \<Longrightarrow> read_ended max_size (terminate_string b)"
  by (simp add: buf_ok_def read_ended_def terminate_string_def)

lemma space_eq:
  assumes "buf_ok max_size b" "max_size \<le> 2 ^ 62" "pb_size b < max_size"
  shows "min (sub64 (pb_capacity b) (pb_size b)) (sub64 max_size (pb_size b))
    = min (pb_capacity b - pb_size b) (max_size - pb_size b)"
  using assms by (simp add: buf_ok_def sub64_eq)

lemma buf_ok_read:
  assumes "buf_ok max_size b" "length bs \<le> min (pb_capacity b - pb_size b) (max_size - pb_size b)"
    and b': "b' = b\<lparr>pb_data := buf_write (pb_size b) bs (pb_data b), pb_size := add64 (pb_size b) (length bs)\<rparr>"
  shows "buf_ok max_size b'" "pb_size b' = pb_size b + length bs" "pb_capacity b' = pb_capacity b"
  using assms by (auto simp: buf_ok_def add64_def)

lemma read_once_ok:
  assumes "buf_ok max_size b" "max_size \<le> 2 ^ 62" "reads_at_most rd"
  shows "(\<exists>r. read_once mem rd max_size b = Some (Inl r) \<and> read_ended max_size r)
    \<or> (\<exists>b'. read_once mem rd max_size b = Some (Inr b') \<and> buf_ok max_size b' \<and> pb_size b < pb_size b')"
proof -
  obtain roomy cap where m: "make_room mem max_size b = Some (roomy, b\<lparr>pb_capacity := cap\<rparr>)"
    "buf_ok max_size (b\<lparr>pb_capacity := cap\<rparr>)" "roomy \<and> pb_size b < max_size \<longrightarrow> pb_size b < cap"
    by (rule make_room_ok[OF assms(1,2), of mem])
  let ?b = "b\<lparr>pb_capacity := cap\<rparr>"
  let ?sp = "min (cap - pb_size b) (max_size - pb_size b)"
  have fail: "read_ended max_size (Inl e, ?b)" for e using m(2) by (simp add: read_ended_def buf_ok_def)
  show ?thesis
  proof (cases "roomy \<and> pb_size b < max_size")
    case False
    then show ?thesis using m(1) fail by (auto simp: read_once_def)
  next
    case True
    have lt: "pb_size b < cap" using m(3) True by blast
    have sp: "min (sub64 cap (pb_size b)) (sub64 max_size (pb_size b)) = ?sp"
      using space_eq[OF m(2) assms(2)] True by simp
    show ?thesis
    proof (cases "rd (pb_size b) ?sp")
      case (R_bytes bs)
      let ?c = "?b\<lparr>pb_data := buf_write (pb_size b) bs (pb_data b), pb_size := add64 (pb_size b) (length bs)\<rparr>"
      have l: "length bs \<le> ?sp" using R_bytes assms(3) unfolding reads_at_most_def by blast
      note c = buf_ok_read[OF m(2), of bs ?c]
      have "length bs < ?sp \<Longrightarrow> read_ended max_size (terminate_string ?c)"
        by (rule terminate_string_ended) (use c l in auto)
      moreover have "read_ended max_size (terminate_string ?b)"
        by (rule terminate_string_ended) (use m(2) lt in auto)
      ultimately show ?thesis
        using m(1) True sp R_bytes c l by (auto simp: read_once_def Let_def simp del: split_paired_Ex)
    qed (use m(1) True sp fail lt terminate_string_ended[OF m(2)] in
        \<open>auto simp: read_once_def Let_def simp del: split_paired_Ex\<close>)
  qed
qed

lemma read_loop_ok:
  assumes "buf_ok max_size b" "max_size \<le> 2 ^ 62" "reads_at_most rd"
  shows "\<exists>r. read_loop mem rd max_size b = Some r \<and> read_ended max_size r"
  using assms(1)
proof (induction "max_size - pb_size b" arbitrary: b rule: less_induct)
  case less
  consider r where "read_once mem rd max_size b = Some (Inl r)" "read_ended max_size r"
    | b' where "read_once mem rd max_size b = Some (Inr b')" "buf_ok max_size b'" "pb_size b < pb_size b'"
    using read_once_ok[OF less.prems assms(2,3), of mem] by blast
  then show ?case
  proof cases
    case 1
    then show ?thesis by (subst read_loop.simps) simp
  next
    case 2
    have "max_size - pb_size b' < max_size - pb_size b" using 2(2,3) unfolding buf_ok_def by linarith
    then show ?thesis using less.hyps[OF _ 2(2)] 2(1) by (subst read_loop.simps) simp
  qed
qed

section \<open>Reading a file\<close>

definition reads_file :: "byte list \<Rightarrow> (nat \<Rightarrow> nat \<Rightarrow> read_result) \<Rightarrow> bool" where
  "reads_file f rd \<longleftrightarrow> (\<forall>p n. rd p n = R_bytes (take n (drop p f)))"

definition file_inv :: "byte list \<Rightarrow> PPSBuffer \<Rightarrow> bool" where
  "file_inv f b \<longleftrightarrow> PPSBuffer_toString b = take (pb_size b) f \<and> pb_size b \<le> length f"

definition file_read :: "byte list \<Rightarrow> nat \<Rightarrow> (pps_errno + nat) \<times> PPSBuffer \<Rightarrow> bool" where
  "file_read f max_size = (\<lambda>(r, b).
     if length f < max_size then r = Inr (length f) \<and> PPSBuffer_toString b = f else r = Inl E_FBIG)"

lemma terminate_string_file:
  "file_inv f b \<Longrightarrow> pb_size b = length f \<Longrightarrow> length f < max_size \<Longrightarrow> file_read f max_size (terminate_string b)"
  by (auto simp: file_inv_def file_read_def terminate_string_def PPSBuffer_toString_def buf_read_def)

lemma file_inv_read:
  assumes "file_inv f b" "bs = take n (drop (pb_size b) f)" "pb_size b + length bs < 2 ^ 64"
  shows "file_inv f (b\<lparr>pb_data := buf_write (pb_size b) bs (pb_data b), pb_size := add64 (pb_size b) (length bs)\<rparr>)"
proof -
  have "add64 (pb_size b) (length bs) = pb_size b + length bs" using assms(3) by (simp add: add64_def)
  moreover have "take (pb_size b) f @ bs = take (pb_size b + length bs) f"
    by (simp only: take_add) (simp add: assms(2) min_def)
  ultimately show ?thesis
    using assms(1,2) buf_read_snoc[of "pb_size b" bs "pb_data b"]
    by (auto simp: file_inv_def PPSBuffer_toString_def)
qed

lemma read_once_file:
  assumes "buf_ok max_size b" "max_size \<le> 2 ^ 62" "reads_file f rd" "\<forall>n. mem n" "file_inv f b"
  shows "(\<exists>r. read_once mem rd max_size b = Some (Inl r) \<and> file_read f max_size r)
    \<or> (\<exists>b'. read_once mem rd max_size b = Some (Inr b') \<and> buf_ok max_size b' \<and> pb_size b < pb_size b'
        \<and> file_inv f b')"
proof -
  obtain roomy cap where m: "make_room mem max_size b = Some (roomy, b\<lparr>pb_capacity := cap\<rparr>)"
    "buf_ok max_size (b\<lparr>pb_capacity := cap\<rparr>)" "roomy \<and> pb_size b < max_size \<longrightarrow> pb_size b < cap" "roomy"
    using make_room_ok[OF assms(1,2), of mem] assms(4) by metis
  let ?b = "b\<lparr>pb_capacity := cap\<rparr>"
  have inv: "file_inv f ?b" using assms(5) by (simp add: file_inv_def PPSBuffer_toString_def)
  show ?thesis
  proof (cases "pb_size b < max_size")
    case False
    then have "\<not> length f < max_size" using assms(5) by (simp add: file_inv_def)
    then show ?thesis using m(1,4) False by (simp add: read_once_def file_read_def)
  next
    case True
    let ?sp = "min (cap - pb_size b) (max_size - pb_size b)"
    define bs where bs: "bs = take ?sp (drop (pb_size b) f)"
    have l: "length bs \<le> ?sp" unfolding bs length_take by (rule min.cobounded2)
    let ?c = "?b\<lparr>pb_data := buf_write (pb_size b) bs (pb_data b), pb_size := add64 (pb_size b) (length bs)\<rparr>"
    have sp: "min (sub64 cap (pb_size b)) (sub64 max_size (pb_size b)) = ?sp" "0 < ?sp"
      using space_eq[OF m(2) assms(2)] True m(3,4) by simp_all
    have c: "buf_ok max_size ?c" "pb_size ?c = pb_size b + length bs"
      using buf_ok_read[OF m(2), of bs ?c] l by simp_all
    have "length bs \<le> max_size - pb_size b" using l by simp
    then have "pb_size b + length bs \<le> 2 ^ 62" using True assms(2) by linarith
    then have "pb_size b + length bs < 2 ^ 64" by simp
    then have ci: "file_inv f ?c" using file_inv_read[OF inv, of bs ?sp] bs by simp
    have len: "length bs < ?sp \<Longrightarrow> pb_size b + length bs = length f \<and> length f < max_size"
      using assms(5) True unfolding bs by (auto simp: file_inv_def min_def split: if_splits)
    have rd: "rd (pb_size b) ?sp = R_bytes bs" using assms(3) by (simp add: reads_file_def bs)
    show ?thesis
    proof (cases "bs = []")
      case nil: True
      then have "length f = pb_size b" using sp(2) len assms(5) by (simp add: file_inv_def)
      then have "file_read f max_size (terminate_string ?b)"
        using terminate_string_file[OF inv] True by simp
      then show ?thesis
        using m(1,4) True sp(1) rd nil by (simp add: read_once_def Let_def)
    next
      case cons: False
      show ?thesis
      proof (cases "length bs < ?sp")
        case short: True
        have "file_read f max_size (terminate_string ?c)"
          using terminate_string_file[OF ci] len[OF short] c(2) by simp
        then show ?thesis
          using m(1,4) True sp(1) rd cons short by (simp add: read_once_def Let_def)
      next
        case full: False
        have "read_once mem rd max_size b = Some (Inr ?c)"
          using m(1,4) True sp(1) rd cons full by (simp add: read_once_def Let_def)
        moreover have "pb_size b < pb_size ?c" using c(2) cons by simp
        ultimately show ?thesis using c(1) ci by blast
      qed
    qed
  qed
qed

lemma read_loop_file:
  assumes "buf_ok max_size b" "max_size \<le> 2 ^ 62" "reads_file f rd" "\<forall>n. mem n" "file_inv f b"
  shows "\<exists>r. read_loop mem rd max_size b = Some r \<and> file_read f max_size r"
  using assms(1,5)
proof (induction "max_size - pb_size b" arbitrary: b rule: less_induct)
  case less
  consider r where "read_once mem rd max_size b = Some (Inl r)" "file_read f max_size r"
    | b' where "read_once mem rd max_size b = Some (Inr b')" "buf_ok max_size b'" "pb_size b < pb_size b'" "file_inv f b'"
    using read_once_file[OF less.prems(1) assms(2,3,4) less.prems(2)] by blast
  then show ?case
  proof cases
    case 1
    then show ?thesis by (subst read_loop.simps) simp
  next
    case 2
    have "max_size - pb_size b' < max_size - pb_size b" using 2(2,3) unfolding buf_ok_def by linarith
    then show ?thesis using less.hyps[OF _ 2(2,4)] 2(1) by (subst read_loop.simps) simp
  qed
qed

section \<open>The pool\<close>

text \<open>Buffers wait in the pool empty and without owners; the pool does not grow beyond its bound.\<close>

definition idle_buffer :: "PPSBuffer \<Rightarrow> bool" where
  "idle_buffer b \<longleftrightarrow> pb_size b = 0 \<and> pb_ref_count b = 0"

definition pool_ok :: "nat \<Rightarrow> BufferPool \<Rightarrow> bool" where
  "pool_ok n p \<longleftrightarrow> (\<forall>b \<in> set (bp_available p). idle_buffer b) \<and> availableCount p \<le> n \<and> bp_max_pool_size p \<le> n"

lemma fill_pool_ok:
  "fill_pool mem raw sz k p = Inr q \<Longrightarrow> pool_ok n p \<Longrightarrow> availableCount p + k \<le> n \<Longrightarrow> pool_ok n q"
proof (induction k arbitrary: p)
  case (Suc k)
  let ?b = "\<lparr>pb_capacity = sz, pb_size = 0, pb_data = raw, pb_ref_count = 0\<rparr>"
  have "fill_pool mem raw sz k (p\<lparr>bp_available := bp_available p @ [?b]\<rparr>) = Inr q"
    using Suc.prems(1) by (simp add: PPSBuffer_ctor_def split: if_splits)
  then show ?case
    by (rule Suc.IH) (use Suc.prems(2,3) in \<open>auto simp: pool_ok_def availableCount_def idle_buffer_def\<close>)
qed simp

lemma BufferPool_ctor_ok: "BufferPool_ctor mem raw k sz = Inr p \<Longrightarrow> pool_ok (max k 32) p"
  unfolding BufferPool_ctor_def by (erule fill_pool_ok) (simp_all add: pool_ok_def availableCount_def)

lemma pool_acquire_ok:
  assumes "pool_ok n p" "pool_acquire mem raw p = Inr (b, q)"
  shows "pool_ok n q \<and> pb_size b = 0 \<and> pb_ref_count b = 1"
proof (cases "bp_available p")
  case Nil
  then show ?thesis
    using assms by (cases "mem (bp_buffer_size p)") (auto simp: pool_acquire_def PPSBuffer_ctor_def addRef_def)
next
  case (Cons b' bs)
  then show ?thesis
    using assms by (simp add: pool_acquire_def pool_ok_def availableCount_def idle_buffer_def
        addRef_def PPSBuffer_clear_def) auto
qed

lemma pool_release_ok: "pool_ok n p \<Longrightarrow> pb_ref_count b = 1 \<Longrightarrow> pool_ok n (pool_release (Some b) p)"
  by (auto simp: pool_release_def pool_ok_def availableCount_def idle_buffer_def releaseRef_def PPSBuffer_clear_def Let_def)

end
