(* ===== verification/PPSService.thy ===== *)
theory PPSService
  imports PPSBuffer "HOL-Library.AList"
begin

text \<open>
  \<open>testPPS/pps_qnx_claude_app1_with_buffer.cpp\<close>, the service: a writer with a queue and a thread
  of its own, a reader that is woken by the kernel when a subscribed object has data, and
  the views of the demonstration. The system calls are parameters (\<open>PPSKernel\<close>). What the
  code does to the outside is recorded in the state: the calls of \<open>write\<close>, the calls of
  subscribers, and which descriptors are armed for a notification, which \<open>ionotify\<close> delivers
  once. The decoder of the PPS library is fed but its result is never used, so it is left out.
\<close>

record PPSKernel =
  pk_open :: "string \<Rightarrow> int"
  pk_write :: "int \<Rightarrow> string \<Rightarrow> int"
  pk_ionotify :: "int \<Rightarrow> int"
  pk_ChannelCreate :: int
  pk_ConnectAttach :: int

section \<open>The writer\<close>

datatype writer_pc = W_off | W_wait | W_drain | W_exit

record PPSWriter =
  wr_running :: bool
  wr_queue :: "(string \<times> string) list"
  wr_fds :: "string \<rightharpoonup> int"
  wr_pc :: writer_pc
  wr_published :: "(string \<times> string) list"
  wr_taken :: "(string \<times> string) list"
  wr_writes :: "(int \<times> string) list"

definition PPSWriter_ctor :: PPSWriter where
  "PPSWriter_ctor = \<lparr>wr_running = False, wr_queue = [], wr_fds = Map.empty, wr_pc = W_off,
     wr_published = [], wr_taken = [], wr_writes = []\<rparr>"

definition PPSWriter_start :: "PPSWriter \<Rightarrow> PPSWriter" where
  "PPSWriter_start w = (if wr_running w then w else w\<lparr>wr_running := True, wr_pc := W_wait\<rparr>)"

definition PPSWriter_publish :: "string \<Rightarrow> string \<Rightarrow> PPSWriter \<Rightarrow> PPSWriter" where
  "PPSWriter_publish path data w =
     w\<lparr>wr_queue := wr_queue w @ [(path, data)], wr_published := wr_published w @ [(path, data)]\<rparr>"

definition getOrOpenPPS :: "PPSKernel \<Rightarrow> string \<Rightarrow> PPSWriter \<Rightarrow> int \<times> PPSWriter" where
  "getOrOpenPPS K path w =
     (let fresh = (let des = pk_open K path
                   in (des, if des \<ge> 0 then w\<lparr>wr_fds := (wr_fds w)(path \<mapsto> des)\<rparr> else w))
      in case wr_fds w path of
           Some des \<Rightarrow> if des \<ge> 0 then (des, w) else fresh
         | None \<Rightarrow> fresh)"

definition writeToPPS :: "PPSKernel \<Rightarrow> string \<Rightarrow> string \<Rightarrow> PPSWriter \<Rightarrow> PPSWriter" where
  "writeToPPS K path data w =
     (let (des, w) = getOrOpenPPS K path w
      in if des < 0 then w
         else let bytes_written = pk_write K des data;
                  w = w\<lparr>wr_writes := wr_writes w @ [(des, data)]\<rparr>
              in if bytes_written < 0 then w\<lparr>wr_fds := (wr_fds w)(path := None)\<rparr> else w)"

text \<open>\<open>writerLoop\<close> step by step, with \<open>publish\<close> and the first half of \<open>stop\<close> by other threads
  in between; the second half waits for the thread.\<close>

inductive writer_step :: "PPSKernel \<Rightarrow> PPSWriter \<Rightarrow> PPSWriter \<Rightarrow> bool" for K :: PPSKernel where
  w_publish: "writer_step K w (PPSWriter_publish path data w)"
| w_start: "wr_pc w = W_off \<Longrightarrow> writer_step K w (PPSWriter_start w)"
| w_wake: "wr_pc w = W_wait \<Longrightarrow> wr_queue w \<noteq> [] \<or> \<not> wr_running w \<Longrightarrow>
    writer_step K w (w\<lparr>wr_pc := if wr_running w then W_drain else W_exit\<rparr>)"
| w_take: "wr_pc w = W_drain \<Longrightarrow> wr_queue w = (path, data) # q \<Longrightarrow>
    writer_step K w (writeToPPS K path data (w\<lparr>wr_queue := q, wr_taken := wr_taken w @ [(path, data)]\<rparr>))"
| w_drained: "wr_pc w = W_drain \<Longrightarrow> wr_queue w = [] \<Longrightarrow>
    writer_step K w (w\<lparr>wr_pc := if wr_running w then W_wait else W_exit\<rparr>)"
| w_stop: "wr_running w \<Longrightarrow> writer_step K w (w\<lparr>wr_running := False\<rparr>)"
| w_joined: "\<not> wr_running w \<Longrightarrow> wr_pc w = W_exit \<Longrightarrow> writer_step K w (w\<lparr>wr_fds := Map.empty, wr_pc := W_off\<rparr>)"

inductive_cases writer_stepE: "writer_step K w w'"

inductive writer_reach :: "PPSKernel \<Rightarrow> PPSWriter \<Rightarrow> bool" for K :: PPSKernel where
  wr_init: "writer_reach K PPSWriter_ctor"
| wr_next: "writer_reach K w \<Longrightarrow> writer_step K w w' \<Longrightarrow> writer_reach K w'"

text \<open>The calls of \<open>write\<close> for messages that have been taken from the queue.\<close>

definition writes_of :: "PPSKernel \<Rightarrow> (string \<times> string) list \<Rightarrow> (int \<times> string) list" where
  "writes_of K ms = map (\<lambda>(path, data). (pk_open K path, data)) (filter (\<lambda>(path, data). pk_open K path \<ge> 0) ms)"

definition writer_inv :: "PPSKernel \<Rightarrow> PPSWriter \<Rightarrow> bool" where
  "writer_inv K w \<longleftrightarrow> wr_published w = wr_taken w @ wr_queue w \<and> wr_writes w = writes_of K (wr_taken w)
     \<and> (\<forall>path des. wr_fds w path = Some des \<longrightarrow> des = pk_open K path \<and> des \<ge> 0)"

lemma getOrOpen_ok:
  assumes "\<forall>path des. wr_fds w path = Some des \<longrightarrow> des = pk_open K path \<and> des \<ge> 0"
  shows "fst (getOrOpenPPS K path w) = pk_open K path"
    "wr_published (snd (getOrOpenPPS K path w)) = wr_published w"
    "wr_taken (snd (getOrOpenPPS K path w)) = wr_taken w" "wr_queue (snd (getOrOpenPPS K path w)) = wr_queue w"
    "wr_writes (snd (getOrOpenPPS K path w)) = wr_writes w"
    "\<forall>p des. wr_fds (snd (getOrOpenPPS K path w)) p = Some des \<longrightarrow> des = pk_open K p \<and> des \<ge> 0"
  using assms by (auto simp: getOrOpenPPS_def Let_def split: option.splits)

lemma writeToPPS_inv:
  assumes "writer_inv K w" "wr_queue w = (path, data) # q"
  shows "writer_inv K (writeToPPS K path data (w\<lparr>wr_queue := q, wr_taken := wr_taken w @ [(path, data)]\<rparr>))"
proof -
  let ?w = "w\<lparr>wr_queue := q, wr_taken := wr_taken w @ [(path, data)]\<rparr>"
  obtain des u where u: "getOrOpenPPS K path ?w = (des, u)" by fastforce
  have "\<forall>path des. wr_fds ?w path = Some des \<longrightarrow> des = pk_open K path \<and> des \<ge> 0"
    using assms(1) by (simp add: writer_inv_def)
  from getOrOpen_ok[OF this, of path, unfolded u]
  show ?thesis using assms by (auto simp: writeToPPS_def u writer_inv_def writes_of_def Let_def)
qed

lemma writer_inv_step: "writer_step K w w' \<Longrightarrow> writer_inv K w \<Longrightarrow> writer_inv K w'"
  by (erule writer_stepE)
    (auto simp: writeToPPS_inv, auto simp: writer_inv_def PPSWriter_publish_def PPSWriter_start_def)

lemma writer_inv_reach: "writer_reach K w \<Longrightarrow> writer_inv K w"
proof (induction rule: writer_reach.induct)
  case wr_init
  then show ?case by (simp add: writer_inv_def PPSWriter_ctor_def writes_of_def)
qed (rule writer_inv_step)

section \<open>The reader\<close>

text \<open>Subscribers are held weakly: \<open>alive\<close> says which of them still exist.\<close>

record Subscription =
  sub_fd :: int
  sub_subscribers :: "nat list"

datatype notification = Update nat string "byte list" | Error nat string pps_errno

record PPSReader =
  rd_running :: bool
  rd_chid :: int
  rd_coid :: int
  rd_subscriptions :: "(string \<times> Subscription) list"
  rd_pool :: BufferPool
  rd_armed :: "int set"
  rd_notified :: "notification list"

definition PPSReader_ctor :: "(nat \<Rightarrow> bool) \<Rightarrow> (nat \<Rightarrow> byte) \<Rightarrow> PPSReader res" where
  "PPSReader_ctor mem raw =
     bindr (BufferPool_ctor mem raw 8 4096) (\<lambda>pool.
       Inr \<lparr>rd_running = False, rd_chid = - 1, rd_coid = - 1, rd_subscriptions = [], rd_pool = pool,
            rd_armed = {}, rd_notified = []\<rparr>)"

definition PPSReader_start :: "PPSKernel \<Rightarrow> PPSReader \<Rightarrow> PPSReader" where
  "PPSReader_start K r =
     (if rd_running r then r
      else if pk_ChannelCreate K < 0 then r\<lparr>rd_chid := pk_ChannelCreate K, rd_running := False\<rparr>
      else if pk_ConnectAttach K < 0
           then r\<lparr>rd_chid := - 1, rd_coid := pk_ConnectAttach K, rd_running := False\<rparr>
      else r\<lparr>rd_running := True, rd_chid := pk_ChannelCreate K, rd_coid := pk_ConnectAttach K\<rparr>)"

text \<open>\<open>stop\<close>, once the thread has been joined.\<close>

definition PPSReader_stop :: "PPSReader \<Rightarrow> PPSReader" where
  "PPSReader_stop r =
     (if \<not> rd_running r then r
      else r\<lparr>rd_running := False, rd_subscriptions := [], rd_armed := {}, rd_chid := - 1, rd_coid := - 1\<rparr>)"

text \<open>\<open>ionotify\<close> with \<open>_NOTIFY_ACTION_POLLARM\<close> arms when the condition does not hold yet (0) and
  reports it otherwise.\<close>

definition arm :: "PPSKernel \<Rightarrow> int \<Rightarrow> PPSReader \<Rightarrow> PPSReader" where
  "arm K d r = (if pk_ionotify K d = 0 then r\<lparr>rd_armed := insert d (rd_armed r)\<rparr> else r)"

text \<open>\<open>m[path] = v\<close> on the list of entries.\<close>

definition put_subscription :: "string \<Rightarrow> Subscription \<Rightarrow> PPSReader \<Rightarrow> PPSReader" where
  "put_subscription path sub r = r\<lparr>rd_subscriptions := AList.update path sub (rd_subscriptions r)\<rparr>"

definition Reader_subscribe :: "PPSKernel \<Rightarrow> string \<Rightarrow> nat \<Rightarrow> PPSReader \<Rightarrow> bool \<times> PPSReader" where
  "Reader_subscribe K path subscriber r =
     (case map_of (rd_subscriptions r) path of
        Some sub \<Rightarrow>
          (True, put_subscription path (sub\<lparr>sub_subscribers := sub_subscribers sub @ [subscriber]\<rparr>) r)
      | None \<Rightarrow>
          let d = pk_open K path
          in if d < 0 then (False, r)
             else if pk_ionotify K d < 0 then (False, r)
             else (True, put_subscription path \<lparr>sub_fd = d, sub_subscribers = [subscriber]\<rparr> (arm K d r)))"

text \<open>The buffer goes back to the pool on every path.\<close>

definition readAndNotify ::
  "PPSKernel \<Rightarrow> (nat \<Rightarrow> bool) \<Rightarrow> (nat \<Rightarrow> byte) \<Rightarrow> (nat \<Rightarrow> nat \<Rightarrow> read_result) \<Rightarrow> (nat \<Rightarrow> bool)
     \<Rightarrow> string \<Rightarrow> PPSReader \<Rightarrow> PPSReader res" where
  "readAndNotify K mem raw rd alive path r =
     (case map_of (rd_subscriptions r) path of
        None \<Rightarrow> Inr r
      | Some sub \<Rightarrow>
          bindr (pool_acquire mem raw (rd_pool r)) (\<lambda>(buffer, pool).
          case readFrom mem rd default_max_size buffer of
            None \<Rightarrow> Inl Diverges
          | Some (bytes_read, buffer) \<Rightarrow>
              let live = filter alive (sub_subscribers sub);
                  r = r\<lparr>rd_pool := pool_release (Some buffer) pool\<rparr>
              in case bytes_read of
                   Inr n \<Rightarrow>
                     if n > 0
                     then Inr (arm K (sub_fd sub) (put_subscription path (sub\<lparr>sub_subscribers := live\<rparr>)
                            (r\<lparr>rd_notified := rd_notified r
                                 @ map (\<lambda>s. Update s path (PPSBuffer_toString buffer)) live\<rparr>)))
                     else Inr r
                 | Inl e \<Rightarrow> Inr (r\<lparr>rd_notified := rd_notified r @ map (\<lambda>s. Error s path e) live\<rparr>)))"

text \<open>A pulse of the kernel for a descriptor in \<open>readerLoop\<close>; the notification is used up.\<close>

definition Reader_pulse ::
  "PPSKernel \<Rightarrow> (nat \<Rightarrow> bool) \<Rightarrow> (nat \<Rightarrow> byte) \<Rightarrow> (nat \<Rightarrow> nat \<Rightarrow> read_result) \<Rightarrow> (nat \<Rightarrow> bool)
     \<Rightarrow> int \<Rightarrow> PPSReader \<Rightarrow> PPSReader res" where
  "Reader_pulse K mem raw rd alive d r =
     (let r = r\<lparr>rd_armed := rd_armed r - {d}\<rparr>
      in case find (\<lambda>(p, s). sub_fd s = d) (rd_subscriptions r) of
           None \<Rightarrow> Inr r
         | Some (path, _) \<Rightarrow> if path \<noteq> [] then readAndNotify K mem raw rd alive path r else Inr r)"

text \<open>What happens to a running reader: subscriptions, and pulses for armed descriptors.\<close>

inductive reader_step :: "PPSKernel \<Rightarrow> PPSReader \<Rightarrow> PPSReader \<Rightarrow> bool" for K :: PPSKernel where
  r_subscribe: "Reader_subscribe K path s r = (ok, r') \<Longrightarrow> reader_step K r r'"
| r_pulse: "d \<in> rd_armed r \<Longrightarrow> Reader_pulse K mem raw rd alive d r = Inr r' \<Longrightarrow> reader_step K r r'"

inductive_cases reader_stepE: "reader_step K r r'"

inductive reader_steps :: "PPSKernel \<Rightarrow> PPSReader \<Rightarrow> PPSReader \<Rightarrow> bool" for K :: PPSKernel where
  rs_refl: "reader_steps K r r"
| rs_next: "reader_steps K r r' \<Longrightarrow> reader_step K r' r'' \<Longrightarrow> reader_steps K r r''"

section \<open>A path that is not armed stays silent\<close>

text \<open>\<open>open\<close> gives different objects different descriptors, and the entries of the map have the
  descriptors of their objects.\<close>

definition distinct_fds :: "PPSKernel \<Rightarrow> bool" where
  "distinct_fds K \<longleftrightarrow> (\<forall>p q. 0 \<le> pk_open K p \<and> pk_open K p = pk_open K q \<longrightarrow> p = q)"

definition own_fds :: "PPSKernel \<Rightarrow> PPSReader \<Rightarrow> bool" where
  "own_fds K r \<longleftrightarrow> distinct (map fst (rd_subscriptions r))
     \<and> (\<forall>p s. map_of (rd_subscriptions r) p = Some s \<longrightarrow> sub_fd s = pk_open K p \<and> 0 \<le> sub_fd s)"

definition silent :: "PPSKernel \<Rightarrow> string \<Rightarrow> PPSReader \<Rightarrow> bool" where
  "silent K path r \<longleftrightarrow> own_fds K r \<and> map_of (rd_subscriptions r) path \<noteq> None \<and> pk_open K path \<notin> rd_armed r"

definition about :: "string \<Rightarrow> notification \<Rightarrow> bool" where
  "about path n = (case n of Update _ p _ \<Rightarrow> p = path | Error _ p _ \<Rightarrow> p = path)"

lemma arm_simps [simp]:
  "rd_subscriptions (arm K d r) = rd_subscriptions r" "rd_notified (arm K d r) = rd_notified r"
  by (simp_all add: arm_def)

lemma arm_other: "d \<noteq> d' \<Longrightarrow> d' \<in> rd_armed (arm K d r) \<longleftrightarrow> d' \<in> rd_armed r"
  by (simp add: arm_def)

lemma put_subscription_simps [simp]:
  "rd_armed (put_subscription p s r) = rd_armed r" "rd_notified (put_subscription p s r) = rd_notified r"
  "map_of (rd_subscriptions (put_subscription p s r)) = (map_of (rd_subscriptions r))(p \<mapsto> s)"
  by (simp_all add: put_subscription_def update_conv')

lemma own_fds_lookup:
  "own_fds K r \<Longrightarrow> map_of (rd_subscriptions r) p = Some s \<Longrightarrow> sub_fd s = pk_open K p \<and> 0 \<le> sub_fd s"
  unfolding own_fds_def by blast

lemma own_fds_put:
  assumes "own_fds K r" "sub_fd s = pk_open K p" "0 \<le> sub_fd s"
  shows "own_fds K (put_subscription p s r)"
  unfolding own_fds_def
proof (intro conjI allI impI)
  show "distinct (map fst (rd_subscriptions (put_subscription p s r)))"
    using assms(1) by (simp add: own_fds_def put_subscription_def distinct_update)
next
  fix q t assume "map_of (rd_subscriptions (put_subscription p s r)) q = Some t"
  then have "if q = p then t = s else map_of (rd_subscriptions r) q = Some t" by (auto split: if_splits)
  then show "sub_fd t = pk_open K q" "0 \<le> sub_fd t"
    using own_fds_lookup[OF assms(1), of q t] assms(2,3) by (simp_all split: if_splits)
qed

lemma own_fds_cong:
  "rd_subscriptions r' = rd_subscriptions r \<Longrightarrow> own_fds K r' = own_fds K r"
  by (simp add: own_fds_def)

lemma own_fds_other [simp]:
  "own_fds K (r\<lparr>rd_armed := A\<rparr>) = own_fds K r" "own_fds K (r\<lparr>rd_pool := q\<rparr>) = own_fds K r"
  "own_fds K (r\<lparr>rd_notified := ns\<rparr>) = own_fds K r" "own_fds K (arm K' d r) = own_fds K r"
  by (rule own_fds_cong, simp)+

lemma silent_subscribe:
  assumes "silent K path r" "Reader_subscribe K p s r = (ok, r')" "distinct_fds K"
  shows "silent K path r' \<and> rd_notified r' = rd_notified r"
proof (cases "map_of (rd_subscriptions r) p")
  case None
  then have ne: "p \<noteq> path" using assms(1) by (auto simp: silent_def)
  show ?thesis
  proof (cases "pk_open K p < 0 \<or> pk_ionotify K (pk_open K p) < 0")
    case False
    then have "pk_open K p \<noteq> pk_open K path" using ne assms(3) by (auto simp: distinct_fds_def)
    moreover have "r' = put_subscription p \<lparr>sub_fd = pk_open K p, sub_subscribers = [s]\<rparr> (arm K (pk_open K p) r)"
      using None False assms(2) by (simp add: Reader_subscribe_def Let_def)
    ultimately show ?thesis
      using assms(1) False ne
      by (simp add: silent_def own_fds_put arm_other)
  qed (use None assms in \<open>auto simp: Reader_subscribe_def Let_def split: if_splits\<close>)
next
  case (Some sub)
  then show ?thesis
    using assms own_fds_lookup[of K r p sub] by (auto simp: Reader_subscribe_def silent_def own_fds_put)
qed

text \<open>Reading a path concerns this path only, and re-arms its descriptor only.\<close>

lemma readAndNotify_frame:
  assumes "readAndNotify K mem raw rd alive p r = Inr r'" "own_fds K r"
  shows "own_fds K r' \<and> (\<forall>q. map_of (rd_subscriptions r) q \<noteq> None \<longrightarrow> map_of (rd_subscriptions r') q \<noteq> None)
    \<and> (\<forall>d. d \<noteq> pk_open K p \<longrightarrow> d \<in> rd_armed r' \<longleftrightarrow> d \<in> rd_armed r)
    \<and> (\<exists>ns. rd_notified r' = rd_notified r @ ns \<and> (\<forall>n \<in> set ns. about p n))"
proof (cases "map_of (rd_subscriptions r) p")
  case None
  then show ?thesis using assms by (simp add: readAndNotify_def)
next
  case (Some sub)
  have f: "sub_fd sub = pk_open K p" "0 \<le> pk_open K p" using own_fds_lookup[OF assms(2) Some] by auto
  have o: "own_fds K (put_subscription p (sub\<lparr>sub_subscribers := live\<rparr>) (r\<lparr>rd_pool := q, rd_notified := ns\<rparr>))"
    for live q ns
    by (rule own_fds_put) (use assms(2) f in simp_all)
  obtain buffer pool where ac: "pool_acquire mem raw (rd_pool r) = Inr (buffer, pool)"
    using assms(1) Some by (auto simp: readAndNotify_def elim!: bindr_InrE)
  obtain res buffer' where rf: "readFrom mem rd default_max_size buffer = Some (res, buffer')"
    using assms(1) Some ac by (cases "readFrom mem rd default_max_size buffer") (auto simp: readAndNotify_def)
  show ?thesis
  proof (cases res)
    case (Inl e)
    then show ?thesis
      using assms Some ac rf by (auto simp: readAndNotify_def Let_def about_def)
  next
    case (Inr n)
    show ?thesis
    proof (cases "n = 0")
      case True
      then show ?thesis using assms Some ac rf Inr by (auto simp: readAndNotify_def)
    next
      case False
      let ?live = "filter alive (sub_subscribers sub)"
      let ?r = "put_subscription p (sub\<lparr>sub_subscribers := ?live\<rparr>)
          (r\<lparr>rd_pool := pool_release (Some buffer') pool,
             rd_notified := rd_notified r @ map (\<lambda>s. Update s p (PPSBuffer_toString buffer')) ?live\<rparr>)"
      have r': "r' = arm K (pk_open K p) ?r"
        using assms(1) Some ac rf Inr False f by (simp add: readAndNotify_def Let_def)
      have "own_fds K r'" using o by (simp add: r')
      then show ?thesis by (auto simp: r' arm_other about_def)
    qed
  qed
qed

lemma silent_pulse:
  assumes "silent K path r" "d \<in> rd_armed r" "Reader_pulse K mem raw rd alive d r = Inr r'" "distinct_fds K"
  shows "silent K path r' \<and> (\<exists>ns. rd_notified r' = rd_notified r @ ns \<and> (\<forall>n \<in> set ns. \<not> about path n))"
proof (cases "find (\<lambda>(p, s). sub_fd s = d) (rd_subscriptions r)")
  case None
  then have "r' = r\<lparr>rd_armed := rd_armed r - {d}\<rparr>" using assms(3) by (simp add: Reader_pulse_def)
  then show ?thesis using assms(1) by (simp add: silent_def)
next
  case (Some e)
  obtain p s where e: "e = (p, s)" by fastforce
  let ?r = "r\<lparr>rd_armed := rd_armed r - {d}\<rparr>"
  have o: "own_fds K r" "own_fds K ?r" using assms(1) by (simp_all add: silent_def)
  have "(p, s) \<in> set (rd_subscriptions r)" "sub_fd s = d"
    using Some unfolding e find_Some_iff by (auto simp: in_set_conv_nth)
  then have d: "d = pk_open K p" "0 \<le> d"
    using own_fds_lookup[OF o(1), of p s] map_of_is_SomeI[of "rd_subscriptions r" p s] o(1)
    by (auto simp: own_fds_def)
  have ne: "p \<noteq> path" "pk_open K p \<noteq> pk_open K path" using d assms(1,2) by (auto simp: silent_def)
  show ?thesis
  proof (cases "p = []")
    case True
    then have "r' = ?r" using assms(3) Some e by (simp add: Reader_pulse_def)
    then show ?thesis using assms(1) o by (simp add: silent_def)
  next
    case False
    then have "readAndNotify K mem raw rd alive p ?r = Inr r'"
      using assms(3) Some e by (simp add: Reader_pulse_def)
    note fr = readAndNotify_frame[OF this o(2)]
    then obtain ns where ns: "rd_notified r' = rd_notified r @ ns" "\<forall>n \<in> set ns. about p n" by auto
    have "\<forall>n \<in> set ns. \<not> about path n" using ns(2) ne(1) by (auto simp: about_def split: notification.splits)
    moreover have "silent K path r'" using fr assms(1) ne(2) by (auto simp: silent_def)
    ultimately show ?thesis using ns(1) by blast
  qed
qed

lemma silent_step:
  assumes "reader_step K r r'" "silent K path r" "distinct_fds K"
  shows "silent K path r' \<and> (\<exists>ns. rd_notified r' = rd_notified r @ ns \<and> (\<forall>n \<in> set ns. \<not> about path n))"
  using assms(1)
proof (rule reader_stepE)
  show ?thesis if "Reader_subscribe K p s r = (ok, r')" for p s ok
    using silent_subscribe[OF assms(2) that assms(3)] by simp
  show ?thesis if "d \<in> rd_armed r" "Reader_pulse K mem raw rd alive d r = Inr r'" for d mem raw rd alive
    by (rule silent_pulse[OF assms(2) that assms(3)])
qed

lemma silent_steps:
  assumes "reader_steps K r r'" "silent K path r" "distinct_fds K"
  shows "silent K path r' \<and> (\<exists>ns. rd_notified r' = rd_notified r @ ns \<and> (\<forall>n \<in> set ns. \<not> about path n))"
  using assms(1,2)
proof (induction rule: reader_steps.induct)
  case (rs_refl r)
  then show ?case by simp
next
  case (rs_next r r' r'')
  obtain ns where ns: "silent K path r'" "rd_notified r' = rd_notified r @ ns" "\<forall>n \<in> set ns. \<not> about path n"
    using rs_next.IH[OF rs_next.prems] by blast
  obtain ms where "silent K path r''" "rd_notified r'' = rd_notified r' @ ms" "\<forall>n \<in> set ms. \<not> about path n"
    using silent_step[OF rs_next.hyps(2) ns(1) assms(3)] by blast
  then show ?case using ns by (intro conjI exI[of _ "ns @ ms"]) auto
qed

end
