(* ===== verification/PPSProps.thy ===== *)
theory PPSProps
  imports PPSService
begin

text \<open>
  \<open>testPPS/pps_qnx_claude_app1_with_buffer.cpp\<close>: the manager, the model and the view of the
  demonstration and its \<open>main\<close>, and the properties of buffers, writer and reader.
\<close>

section \<open>The demonstration\<close>

record PPSManager =
  mgr_writer :: PPSWriter
  mgr_reader :: PPSReader

definition PPSManager_ctor :: "(nat \<Rightarrow> bool) \<Rightarrow> (nat \<Rightarrow> byte) \<Rightarrow> PPSManager res" where
  "PPSManager_ctor mem raw =
     bindr (PPSReader_ctor mem raw) (\<lambda>r. Inr \<lparr>mgr_writer = PPSWriter_ctor, mgr_reader = r\<rparr>)"

definition PPSManager_start :: "PPSKernel \<Rightarrow> PPSManager \<Rightarrow> PPSManager" where
  "PPSManager_start K m =
     m\<lparr>mgr_writer := PPSWriter_start (mgr_writer m), mgr_reader := PPSReader_start K (mgr_reader m)\<rparr>"

definition PPSManager_publish :: "string \<Rightarrow> string \<Rightarrow> PPSManager \<Rightarrow> PPSManager" where
  "PPSManager_publish path data m = m\<lparr>mgr_writer := PPSWriter_publish path data (mgr_writer m)\<rparr>"

definition PPSManager_subscribe :: "PPSKernel \<Rightarrow> string \<Rightarrow> nat \<Rightarrow> PPSManager \<Rightarrow> bool \<times> PPSManager" where
  "PPSManager_subscribe K path s m =
     (let (ok, r) = Reader_subscribe K path s (mgr_reader m) in (ok, m\<lparr>mgr_reader := r\<rparr>))"

definition getAvailableBufferCount :: "PPSManager \<Rightarrow> nat" where
  "getAvailableBufferCount m = availableCount (rd_pool (mgr_reader m))"

text \<open>\<open>std::to_string\<close> of the value is a parameter.\<close>

definition updateTemperature :: "string \<Rightarrow> PPSManager \<Rightarrow> PPSManager" where
  "updateTemperature temp m =
     PPSManager_publish ''/pps/sensors/temperature'' (''temperature:n:'' @ temp @ [CHR 0x0A]) m"

definition updateMultipleValues :: "string \<Rightarrow> string \<Rightarrow> string \<Rightarrow> PPSManager \<Rightarrow> PPSManager" where
  "updateMultipleValues temp humidity pressure m =
     PPSManager_publish ''/pps/sensors/multi''
       (''temperature:n:'' @ temp @ [CHR 0x0A] @ ''humidity:n:'' @ humidity @ [CHR 0x0A]
        @ ''pressure:n:'' @ pressure @ [CHR 0x0A]) m"

text \<open>\<open>shared_from_this\<close> needs the owner that \<open>make_shared\<close> sets after the constructor.\<close>

definition shared_from_this :: "nat option \<Rightarrow> nat res" where
  "shared_from_this weak_this = (case weak_this of None \<Rightarrow> Inl (Terminated ''bad_weak_ptr'') | Some p \<Rightarrow> Inr p)"

definition DashboardView_ctor :: "PPSKernel \<Rightarrow> string \<Rightarrow> nat option \<Rightarrow> PPSManager \<Rightarrow> PPSManager res" where
  "DashboardView_ctor K path weak_this m =
     bindr (shared_from_this weak_this) (\<lambda>self. Inr (snd (PPSManager_subscribe K path self m)))"

definition FastGaugeView_ctor :: "PPSKernel \<Rightarrow> nat option \<Rightarrow> PPSManager \<Rightarrow> PPSManager res" where
  "FastGaugeView_ctor K weak_this m =
     bindr (shared_from_this weak_this) (\<lambda>self. Inr (snd (PPSManager_subscribe K ''/pps/sensors/multi'' self m)))"

definition make_shared :: "(nat option \<Rightarrow> PPSManager \<Rightarrow> PPSManager res) \<Rightarrow> PPSManager \<Rightarrow> PPSManager res" where
  "make_shared ctor m = ctor None m"

text \<open>\<open>main\<close> up to its loop.\<close>

definition pps_main :: "PPSKernel \<Rightarrow> (nat \<Rightarrow> bool) \<Rightarrow> (nat \<Rightarrow> byte) \<Rightarrow> PPSManager res" where
  "pps_main K mem raw =
     bindr (PPSManager_ctor mem raw) (\<lambda>m.
     let m = PPSManager_start K m
     in bindr (make_shared (DashboardView_ctor K ''/pps/sensors/temperature'') m)
          (make_shared (FastGaugeView_ctor K)))"

lemma pps_main_never_gets_to_its_loop: "\<exists>msg. pps_main K mem raw = Inl (Terminated msg)"
proof (cases "PPSManager_ctor mem raw")
  case (Inl e)
  have fill: "fill_pool mem raw sz k p = Inl e \<Longrightarrow> \<exists>msg. e = Terminated msg" for sz k p
    by (induction k arbitrary: p) (auto simp: PPSBuffer_ctor_def split: if_splits)
  have "\<exists>msg. e = Terminated msg"
    using Inl fill by (cases "BufferPool_ctor mem raw 8 4096")
      (auto simp: PPSManager_ctor_def PPSReader_ctor_def BufferPool_ctor_def)
  then show ?thesis using Inl by (auto simp: pps_main_def)
qed (auto simp: pps_main_def make_shared_def DashboardView_ctor_def shared_from_this_def Let_def)

section \<open>Buffers\<close>

text \<open>\<open>readFrom\<close> always returns and stays inside its buffer, whatever \<open>read\<close> delivers and
  whether or not memory can be had: the loop ends, it has written within the capacity, and
  if it reports a size, that size is at most \<open>max_size\<close> and smaller than the capacity, so
  that the string is terminated. (A buffer without any memory would make the doubling of the
  capacity run for ever.)\<close>

theorem readFrom_returns_a_terminated_string:
  assumes "0 < pb_capacity b" "pb_capacity b < 2 ^ 63" "max_size \<le> 2 ^ 62" "reads_at_most rd"
  shows "\<exists>r b'. readFrom mem rd max_size b = Some (r, b') \<and> pb_size b' \<le> pb_capacity b'
    \<and> (case r of Inl _ \<Rightarrow> True
        | Inr n \<Rightarrow> n = pb_size b' \<and> n \<le> max_size \<and> n < pb_capacity b' \<and> pb_data b' n = 0)"
proof -
  have "buf_ok max_size (b\<lparr>pb_size := 0\<rparr>)" using assms(1,2) by (simp add: buf_ok_def)
  then obtain r b' where "read_loop mem rd max_size (b\<lparr>pb_size := 0\<rparr>) = Some (r, b')" "read_ended max_size (r, b')"
    using read_loop_ok[OF _ assms(3,4)] by (metis prod.exhaust)
  then show ?thesis unfolding readFrom_def read_ended_def by blast
qed

definition new_buffer :: PPSBuffer where
  "new_buffer = \<lparr>pb_capacity = 4096, pb_size = 0, pb_data = (\<lambda>_. 1), pb_ref_count = 0\<rparr>"

theorem readFrom_returns_a_terminated_string_witness:
  "\<exists>r b'. readFrom (\<lambda>_. False) (\<lambda>p n. R_bytes (replicate n 7)) 10000 new_buffer = Some (r, b')
     \<and> pb_size b' \<le> pb_capacity b'"
  using readFrom_returns_a_terminated_string[of new_buffer 10000 "\<lambda>p n. R_bytes (replicate n 7)" "\<lambda>_. False"]
  by (auto simp: new_buffer_def reads_at_most_def)

text \<open>C23: \<open>readFrom\<close> reads the whole object, when every \<open>read\<close>
  fills the request as far as the object goes (\<open>reads_file\<close>: never fewer bytes than fit
  and are left, no failure) and memory can be had: the buffer holds exactly \<open>f\<close>
  afterwards, however often it has had to grow, provided that \<open>f\<close> is shorter than
  \<open>max_size\<close>; if not, the call fails with \<open>EFBIG\<close>, also for an object of
  exactly \<open>max_size\<close> bytes. The capacity of the buffer is not 0 (with 0 it never grows,
  \<open>grow_0_never\<close>) and below \<open>2^63\<close>, and \<open>max_size\<close> is at most
  \<open>2^62\<close>. A \<open>read\<close> that delivers less than it was asked for ends the loop,
  with what has been read taken for the whole object.\<close>

theorem readFrom_reads_the_object:
  assumes "0 < pb_capacity b" "pb_capacity b < 2 ^ 63" "max_size \<le> 2 ^ 62"
    and "reads_file f rd" "\<forall>n. mem n"
  shows "\<exists>r b'. readFrom mem rd max_size b = Some (r, b')
    \<and> (if length f < max_size then r = Inr (length f) \<and> PPSBuffer_toString b' = f else r = Inl E_FBIG)"
proof -
  let ?b = "b\<lparr>pb_size := 0\<rparr>"
  have "buf_ok max_size ?b" using assms(1,2) by (simp add: buf_ok_def)
  moreover have "file_inv f ?b" by (simp add: file_inv_def PPSBuffer_toString_def buf_read_def)
  ultimately show ?thesis
    using read_loop_file[OF _ assms(3,4,5), of ?b] by (auto simp: readFrom_def file_read_def)
qed

theorem readFrom_reads_the_object_witness:
  "\<exists>b'. readFrom (\<lambda>_. True) (\<lambda>p n. R_bytes (take n (drop p (replicate 5000 7)))) 10000 new_buffer = Some (Inr 5000, b')
     \<and> PPSBuffer_toString b' = replicate 5000 7"
proof -
  have "reads_file (replicate 5000 7) (\<lambda>p n. R_bytes (take n (drop p (replicate 5000 7))))"
    by (simp add: reads_file_def)
  from readFrom_reads_the_object[OF _ _ _ this, of new_buffer 10000 "\<lambda>_. True"]
  show ?thesis by (auto simp: new_buffer_def)
qed

section \<open>The writer\<close>

text \<open>The writer writes what was published, in the order in which it was published, each
  message whose object can be opened once and to the descriptor of its own object, for every
  interleaving of publishers, thread and stop. What has not been written yet is still in the
  queue.\<close>

theorem writer_writes_in_publish_order:
  assumes "writer_reach K w"
  shows "\<exists>taken. wr_published w = taken @ wr_queue w
    \<and> wr_writes w = map (\<lambda>(path, data). (pk_open K path, data)) (filter (\<lambda>(path, data). pk_open K path \<ge> 0) taken)"
  using writer_inv_reach[OF assms] by (auto simp: writer_inv_def writes_of_def)

definition pps_kernel :: PPSKernel where
  "pps_kernel = \<lparr>pk_open = (\<lambda>p. if p = ''a'' then 3 else - 1), pk_write = (\<lambda>_ d. int (length d)),
     pk_ionotify = (\<lambda>_. 0), pk_ChannelCreate = 1, pk_ConnectAttach = 2\<rparr>"

theorem writer_writes_in_publish_order_witness:
  "\<exists>w. writer_reach pps_kernel w \<and> wr_queue w = [] \<and> wr_writes w = [(3, ''x'')]"
proof -
  let ?K = pps_kernel and ?m = "(''a'', ''x'')"
  let ?w1 = "PPSWriter_publish ''a'' ''x'' PPSWriter_ctor"
  let ?w2 = "PPSWriter_start ?w1"
  let ?w3 = "?w2\<lparr>wr_pc := W_drain\<rparr>"
  let ?w4 = "writeToPPS ?K ''a'' ''x'' (?w3\<lparr>wr_queue := [], wr_taken := wr_taken ?w3 @ [?m]\<rparr>)"
  have s: "wr_queue ?w3 = [?m]" "wr_pc ?w2 = W_wait" "wr_pc ?w1 = W_off" "wr_running ?w2" "wr_queue ?w2 = [?m]"
    by (simp_all add: PPSWriter_start_def PPSWriter_publish_def PPSWriter_ctor_def)
  have 1: "writer_reach ?K ?w1" by (rule wr_next[OF wr_init w_publish])
  have 2: "writer_reach ?K ?w2" by (rule wr_next[OF 1 w_start[OF s(3)]])
  have 3: "writer_reach ?K ?w3" using wr_next[OF 2 w_wake[OF s(2)]] s(4,5) by simp
  have 4: "writer_reach ?K ?w4" by (rule wr_next[OF 3 w_take]) (use s(1) in simp_all)
  have q: "wr_queue ?w4 = []" "wr_published ?w4 = [?m]"
    by (simp_all add: writeToPPS_def getOrOpenPPS_def pps_kernel_def PPSWriter_start_def PPSWriter_publish_def
        PPSWriter_ctor_def Let_def)
  obtain taken where "wr_published ?w4 = taken @ wr_queue ?w4"
    "wr_writes ?w4 = map (\<lambda>(path, data). (pk_open ?K path, data)) (filter (\<lambda>(path, data). pk_open ?K path \<ge> 0) taken)"
    using writer_writes_in_publish_order[OF 4] by blast
  moreover from this(1) have "taken = [?m]" unfolding q by simp
  ultimately have "wr_writes ?w4 = map (\<lambda>(path, data). (pk_open ?K path, data))
      (filter (\<lambda>(path, data). pk_open ?K path \<ge> 0) [?m])" by blast
  then have "wr_writes ?w4 = [(3, ''x'')]" by (simp add: pps_kernel_def)
  then show ?thesis using 4 q(1) by blast
qed

section \<open>The reader\<close>

lemma make_room_size: "make_room mem max_size b = Some (ok, b') \<Longrightarrow> pb_size b' = pb_size b"
  by (auto simp: make_room_def ensureCapacity_def Let_def split: if_splits option.splits)

lemma readFrom_nothing:
  assumes "\<forall>n bs. rd 0 n = R_bytes bs \<longrightarrow> bs = []" "readFrom mem rd max_size b = Some (Inr n, b')"
  shows "n = 0"
proof -
  let ?b = "b\<lparr>pb_size := 0\<rparr>"
  obtain ok c where m: "make_room mem max_size ?b = Some (ok, c)"
    using assms(2) by (cases "make_room mem max_size ?b")
      (auto simp: readFrom_def read_loop.simps[of _ _ _ ?b] read_once_def)
  have z: "pb_size c = 0" using make_room_size[OF m] by simp
  show ?thesis
    using assms(2) m z
    by (cases "rd 0 (min (sub64 (pb_capacity c) 0) (sub64 max_size 0))")
      (auto simp: readFrom_def read_loop.simps[of _ _ _ ?b] read_once_def terminate_string_def Let_def assms(1)
        split: if_splits)
qed

lemma find_unique:
  assumes "x \<in> set xs" "P x" "\<And>y. y \<in> set xs \<Longrightarrow> P y \<Longrightarrow> y = x"
  shows "find P xs = Some x"
proof -
  obtain y where y: "find P xs = Some y" using assms(1,2) by (cases "find P xs") (auto simp: find_None_iff)
  then have "y \<in> set xs" "P y" by (auto simp: find_Some_iff in_set_conv_nth)
  then show ?thesis using assms(3) y by blast
qed

lemma pulse_without_data:
  assumes "own_fds K r" "distinct_fds K" "map_of (rd_subscriptions r) path \<noteq> None" "path \<noteq> []"
    and "\<forall>n bs. rd 0 n = R_bytes bs \<longrightarrow> bs = []"
    and "Reader_pulse K mem raw rd alive (pk_open K path) r = Inr r'"
  shows "silent K path r'"
proof -
  obtain sub where sub: "map_of (rd_subscriptions r) path = Some sub" using assms(3) by blast
  let ?r = "r\<lparr>rd_armed := rd_armed r - {pk_open K path}\<rparr>"
  have fd: "sub_fd sub = pk_open K path" "0 \<le> pk_open K path" using own_fds_lookup[OF assms(1) sub] by auto
  have u: "(p, s) = (path, sub)" if ps: "(p, s) \<in> set (rd_subscriptions r)" "sub_fd s = pk_open K path" for p s
  proof -
    have m: "map_of (rd_subscriptions r) p = Some s" using ps(1) assms(1) by (simp add: own_fds_def)
    then have "pk_open K p = pk_open K path" using own_fds_lookup[OF assms(1) m] ps(2) by simp
    then have "p = path" using assms(2) fd(2) unfolding distinct_fds_def by metis
    then show ?thesis using m sub by simp
  qed
  have "find (\<lambda>(p, s). sub_fd s = pk_open K path) (rd_subscriptions r) = Some (path, sub)"
  proof (rule find_unique)
    show "(path, sub) \<in> set (rd_subscriptions r)" by (rule map_of_SomeD[OF sub])
    show "case (path, sub) of (p, s) \<Rightarrow> sub_fd s = pk_open K path" using fd(1) by simp
    show "y = (path, sub)" if "y \<in> set (rd_subscriptions r)" "case y of (p, s) \<Rightarrow> sub_fd s = pk_open K path" for y
      using that u[of "fst y" "snd y"] by (simp add: case_prod_unfold)
  qed
  then have rn: "readAndNotify K mem raw rd alive path ?r = Inr r'"
    using assms(4,6) by (simp add: Reader_pulse_def)
  obtain buffer pool where ac: "pool_acquire mem raw (rd_pool r) = Inr (buffer, pool)"
    using rn sub by (auto simp: readAndNotify_def elim!: bindr_InrE)
  obtain res buffer' where rf: "readFrom mem rd default_max_size buffer = Some (res, buffer')"
    using rn sub ac by (cases "readFrom mem rd default_max_size buffer") (auto simp: readAndNotify_def)
  have "n = 0" if "res = Inr n" for n
    by (rule readFrom_nothing[where rd = rd, OF assms(5)]) (use rf that in simp)
  then have "rd_armed r' = rd_armed ?r \<and> rd_subscriptions r' = rd_subscriptions r"
    using rn sub ac rf by (cases res) (auto simp: readAndNotify_def Let_def)
  then show ?thesis using assms(1,3) own_fds_cong[of r' r K] by (simp add: silent_def)
qed

text \<open>One pulse without data silences an object for good. When the kernel announces data for
  a subscribed path and the read then delivers none (nothing yet, end of file, or an error),
  the reader does not arm the notification again; from then on no subscriber is ever told
  anything about this path, new subscribers of the path included, whatever else happens.\<close>

theorem pulse_without_data_silences_the_path:
  assumes "own_fds K r" "distinct_fds K" "map_of (rd_subscriptions r) path \<noteq> None" "path \<noteq> []"
    and "\<forall>n bs. rd 0 n = R_bytes bs \<longrightarrow> bs = []"
    and "Reader_pulse K mem raw rd alive (pk_open K path) r = Inr r1" "reader_steps K r1 r2"
  shows "\<exists>ns. rd_notified r2 = rd_notified r1 @ ns \<and> (\<forall>n \<in> set ns. \<not> about path n)"
proof -
  have "silent K path r1" by (rule pulse_without_data[where rd = rd, OF assms(1-6)])
  from silent_steps[OF assms(7) this assms(2)] show ?thesis by blast
qed

definition sample_reader :: PPSReader where
  "sample_reader = \<lparr>rd_running = True, rd_chid = 1, rd_coid = 2,
     rd_subscriptions = [(''a'', \<lparr>sub_fd = 3, sub_subscribers = [1]\<rparr>)],
     rd_pool = \<lparr>bp_buffer_size = 4096, bp_max_pool_size = 32, bp_available = [new_buffer]\<rparr>,
     rd_armed = {3}, rd_notified = []\<rparr>"

theorem pulse_without_data_silences_the_path_witness:
  "\<exists>r1. Reader_pulse pps_kernel (\<lambda>_. True) (\<lambda>_. 0) (\<lambda>p n. R_again) (\<lambda>_. True) 3 sample_reader = Inr r1
     \<and> (\<exists>ns. rd_notified (snd (Reader_subscribe pps_kernel ''a'' 2 r1)) = rd_notified r1 @ ns
          \<and> (\<forall>n \<in> set ns. \<not> about ''a'' n))"
proof -
  have "read_loop (\<lambda>_. True) (\<lambda>p n. R_again) default_max_size (addRef (PPSBuffer_clear new_buffer)\<lparr>pb_size := 0\<rparr>)
      \<noteq> None"
    by (subst read_loop.simps) (simp add: read_once_def make_room_def new_buffer_def addRef_def PPSBuffer_clear_def
        sub64_def default_max_size_def Let_def)
  then obtain res b where "readFrom (\<lambda>_. True) (\<lambda>p n. R_again) default_max_size (addRef (PPSBuffer_clear new_buffer))
      = Some (res, b)"
    by (auto simp: readFrom_def)
  then obtain r1 where r1: "Reader_pulse pps_kernel (\<lambda>_. True) (\<lambda>_. 0) (\<lambda>p n. R_again) (\<lambda>_. True)
      (pk_open pps_kernel ''a'') sample_reader = Inr r1"
    by (cases "Reader_pulse pps_kernel (\<lambda>_. True) (\<lambda>_. 0) (\<lambda>p n. R_again) (\<lambda>_. True)
        (pk_open pps_kernel ''a'') sample_reader")
      (auto simp: Reader_pulse_def sample_reader_def pps_kernel_def readAndNotify_def pool_acquire_def Let_def
        split: sum.splits if_splits)
  have k: "own_fds pps_kernel sample_reader" "distinct_fds pps_kernel"
    by (auto simp: own_fds_def sample_reader_def pps_kernel_def distinct_fds_def split: if_splits)
  have st: "reader_steps pps_kernel r1 (snd (Reader_subscribe pps_kernel ''a'' 2 r1))"
    by (rule rs_next[OF rs_refl r_subscribe]) (rule prod.collapse[symmetric])
  have "\<exists>ns. rd_notified (snd (Reader_subscribe pps_kernel ''a'' 2 r1)) = rd_notified r1 @ ns
          \<and> (\<forall>n \<in> set ns. \<not> about ''a'' n)"
    by (rule pulse_without_data_silences_the_path[where rd = "\<lambda>p n. R_again", OF k _ _ _ r1 st])
      (simp_all add: sample_reader_def)
  then show ?thesis using r1 by (auto simp: pps_kernel_def)
qed

end
