(* ===== verification/RobustIO.thy ===== *)
theory RobustIO
  imports Prelude
begin

text \<open>
  The Rio package of \<open>CSAPP/Chapter11_Networking/csapp.c\<close>: reading and writing that survives short
  counts and interrupted system calls. The system calls are parameters over a state \<open>'k\<close> of the
  kernel: \<open>read\<close> delivers some bytes, none at the end of file, or fails with an error number.
  A buffer of the caller is the list of the bytes written to it so far; its length is the offset of
  \<open>bufp\<close>. The \<open>int\<close> that \<open>rio_readlineb\<close> counts with overflows at \<open>2 ^ 31\<close>, which is undefined.
\<close>

section \<open>System calls\<close>

type_synonym byte = "8 word"

datatype sys_read = Got "byte list" | Read_error nat
datatype sys_write = Put nat | Write_error nat

definition EINTR :: nat where "EINTR = 4"

text \<open>What \<open>read\<close> promises: it takes the bytes from the front of a stream, at most as many as asked for,
  and none only at its end; an error takes none. A call is interrupted finitely often, and fails
  otherwise only on a stream that is broken.\<close>

locale byte_source =
  fixes rd :: "nat \<Rightarrow> 'k \<Rightarrow> sys_read \<times> 'k"
    and contents :: "'k \<Rightarrow> byte list"
    and interrupts :: "'k \<Rightarrow> nat"
    and broken :: "'k \<Rightarrow> bool"
  assumes read_got: "0 < n \<Longrightarrow> rd n k = (Got xs, k') \<Longrightarrow>
      length xs \<le> n \<and> contents k = xs @ contents k' \<and> (xs = [] \<longrightarrow> contents k = [])"
    and read_error: "rd n k = (Read_error e, k') \<Longrightarrow> contents k' = contents k
      \<and> (if e = EINTR then interrupts k' < interrupts k else broken k)"
    and read_quiet: "rd n k = (r, k') \<Longrightarrow> interrupts k' \<le> interrupts k \<and> (broken k' \<longrightarrow> broken k)"

text \<open>What \<open>write\<close> promises: it takes bytes from the front of what it is given, at least one, and an
  error takes none.\<close>

locale byte_sink =
  fixes wr :: "byte list \<Rightarrow> 'k \<Rightarrow> sys_write \<times> 'k"
    and written :: "'k \<Rightarrow> byte list"
    and interrupts :: "'k \<Rightarrow> nat"
    and broken :: "'k \<Rightarrow> bool"
  assumes write_put: "xs \<noteq> [] \<Longrightarrow> wr xs k = (Put m, k') \<Longrightarrow>
      0 < m \<and> m \<le> length xs \<and> written k' = written k @ take m xs"
    and write_error: "wr xs k = (Write_error e, k') \<Longrightarrow> written k' = written k
      \<and> (if e = EINTR then interrupts k' < interrupts k else broken k)"
    and write_quiet: "wr xs k = (r, k') \<Longrightarrow> interrupts k' \<le> interrupts k \<and> (broken k' \<longrightarrow> broken k)"

section \<open>Unbuffered\<close>

partial_function (option) readn_loop ::
  "(nat \<Rightarrow> 'k \<Rightarrow> sys_read \<times> 'k) \<Rightarrow> nat \<Rightarrow> nat \<Rightarrow> byte list \<Rightarrow> 'k \<Rightarrow> (int \<times> byte list \<times> 'k) option" where
  "readn_loop rd n nleft buf k =
     (if nleft = 0 then Some (int (n - nleft), buf, k)
      else case rd nleft k of
        (Read_error e, k) \<Rightarrow> if e = EINTR then readn_loop rd n nleft buf k else Some (- 1, buf, k)
      | (Got xs, k) \<Rightarrow> if xs = [] then Some (int (n - nleft), buf, k)
          else readn_loop rd n (nleft - length xs) (buf @ xs) k)"

definition rio_readn :: "(int \<Rightarrow> nat \<Rightarrow> 'k \<Rightarrow> sys_read \<times> 'k) \<Rightarrow> int \<Rightarrow> nat \<Rightarrow> 'k \<Rightarrow> (int \<times> byte list \<times> 'k) option" where
  "rio_readn rd fd n k = readn_loop (rd fd) n n [] k"

text \<open>When \<open>write\<close> takes nothing, \<open>errno\<close> is that of an earlier call.\<close>

partial_function (option) writen_loop ::
  "(byte list \<Rightarrow> 'k \<Rightarrow> sys_write \<times> 'k) \<Rightarrow> nat \<Rightarrow> nat \<Rightarrow> byte list \<Rightarrow> nat \<Rightarrow> 'k \<Rightarrow> (int \<times> nat \<times> 'k) option" where
  "writen_loop wr n nleft bufp errno k =
     (if nleft = 0 then Some (int n, errno, k)
      else case wr bufp k of
        (Write_error e, k) \<Rightarrow> if e = EINTR then writen_loop wr n nleft bufp e k else Some (- 1, e, k)
      | (Put m, k) \<Rightarrow>
          if m = 0 then if errno = EINTR then writen_loop wr n nleft bufp errno k else Some (- 1, errno, k)
          else writen_loop wr n (nleft - m) (drop m bufp) errno k)"

definition rio_writen ::
  "(int \<Rightarrow> byte list \<Rightarrow> 'k \<Rightarrow> sys_write \<times> 'k) \<Rightarrow> int \<Rightarrow> byte list \<Rightarrow> nat \<Rightarrow> 'k \<Rightarrow> (int \<times> nat \<times> 'k) option" where
  "rio_writen wr fd usrbuf errno k = writen_loop (wr fd) (length usrbuf) (length usrbuf) usrbuf errno k"

section \<open>Buffered\<close>

definition RIO_BUFSIZE :: nat where "RIO_BUFSIZE = 8192"

record rio_t =
  rio_fd :: int
  rio_cnt :: int
  rio_bufptr :: nat
  rio_buf :: "byte list"

definition rio_readinitb :: "rio_t \<Rightarrow> int \<Rightarrow> rio_t" where
  "rio_readinitb rp fd = rp\<lparr>rio_fd := fd, rio_cnt := 0, rio_bufptr := 0\<rparr>"

text \<open>The loop of \<open>rio_read\<close> that refills the buffer: \<open>Some rc\<close> when the function returns from inside
  it.\<close>

partial_function (option) rio_fill ::
  "(int \<Rightarrow> nat \<Rightarrow> 'k \<Rightarrow> sys_read \<times> 'k) \<Rightarrow> rio_t \<Rightarrow> 'k \<Rightarrow> (int option \<times> rio_t \<times> 'k) option" where
  "rio_fill rd rp k =
     (if rio_cnt rp \<le> 0
      then case rd (rio_fd rp) RIO_BUFSIZE k of
        (Read_error e, k) \<Rightarrow>
          if e \<noteq> EINTR then Some (Some (- 1), rp\<lparr>rio_cnt := - 1\<rparr>, k)
          else rio_fill rd (rp\<lparr>rio_cnt := - 1\<rparr>) k
      | (Got xs, k) \<Rightarrow>
          if xs = [] then Some (Some 0, rp\<lparr>rio_cnt := 0\<rparr>, k)
          else rio_fill rd (rp\<lparr>rio_cnt := int (length xs), rio_bufptr := 0,
                 rio_buf := xs @ drop (length xs) (rio_buf rp)\<rparr>) k
      else Some (None, rp, k))"

definition rio_read ::
  "(int \<Rightarrow> nat \<Rightarrow> 'k \<Rightarrow> sys_read \<times> 'k) \<Rightarrow> nat \<Rightarrow> rio_t \<times> 'k \<Rightarrow> (int \<times> byte list \<times> rio_t \<times> 'k) option" where
  "rio_read rd n = (\<lambda>(rp, k).
     case rio_fill rd rp k of
       None \<Rightarrow> None
     | Some (Some rc, rp, k) \<Rightarrow> Some (rc, [], rp, k)
     | Some (None, rp, k) \<Rightarrow>
         let cnt = (if rio_cnt rp < int n then nat (rio_cnt rp) else n) in
         Some (int cnt, take cnt (drop (rio_bufptr rp) (rio_buf rp)),
           rp\<lparr>rio_bufptr := rio_bufptr rp + cnt, rio_cnt := rio_cnt rp - int cnt\<rparr>, k))"

text \<open>The loops of \<open>rio_readnb\<close> and \<open>rio_readlineb\<close> over the function they read with.\<close>

partial_function (option) readnb_loop ::
  "(nat \<Rightarrow> 's \<Rightarrow> (int \<times> byte list \<times> 's) option) \<Rightarrow> nat \<Rightarrow> nat \<Rightarrow> byte list \<Rightarrow> 's \<Rightarrow> (int \<times> byte list \<times> 's) option" where
  "readnb_loop rdr n nleft buf s =
     (if nleft = 0 then Some (int (n - nleft), buf, s)
      else case rdr nleft s of
        None \<Rightarrow> None
      | Some (nread, xs, s) \<Rightarrow>
          if nread < 0 then Some (- 1, buf, s)
          else if nread = 0 then Some (int (n - nleft), buf, s)
          else readnb_loop rdr n (nleft - nat nread) (buf @ xs) s)"

partial_function (option) readlineb_loop ::
  "(nat \<Rightarrow> 's \<Rightarrow> (int \<times> byte list \<times> 's) option) \<Rightarrow> nat \<Rightarrow> nat \<Rightarrow> byte list \<Rightarrow> 's
     \<Rightarrow> (int \<times> byte list \<times> 's) res option" where
  "readlineb_loop rdr maxlen n buf s =
     (if n < maxlen
      then case rdr 1 s of
        None \<Rightarrow> None
      | Some (rc, xs, s) \<Rightarrow>
          if rc = 1
          then if 2 ^ 31 \<le> n + 1 then Some (Inl (Undefined ''overflow of n''))
               else if hd xs = 10 then Some (Inr (int (n + 1) - 1, buf @ [hd xs] @ [0], s))
               else readlineb_loop rdr maxlen (n + 1) (buf @ [hd xs]) s
          else if rc = 0 then if n = 1 then Some (Inr (0, buf, s)) else Some (Inr (int n - 1, buf @ [0], s))
          else Some (Inr (- 1, buf, s))
      else Some (Inr (int n - 1, buf @ [0], s)))"

definition rio_readnb where
  "rio_readnb rd n s = readnb_loop (rio_read rd) n n [] s"

definition rio_readlineb where
  "rio_readlineb rd maxlen s = readlineb_loop (rio_read rd) maxlen 1 [] s"

section \<open>What the loops do\<close>

context byte_source
begin

lemma readn_loop_reads:
  assumes "nleft \<le> n"
  shows "\<exists>rc xs k'. readn_loop rd n nleft buf k = Some (rc, buf @ xs, k')
    \<and> contents k = xs @ contents k' \<and> length xs \<le> nleft
    \<and> (rc = int (n - nleft + length xs) \<and> (length xs = nleft \<or> contents k' = []) \<or> rc = - 1 \<and> broken k)"
  using assms
proof (induction "nleft + interrupts k" arbitrary: nleft buf k rule: less_induct)
  case less
  note step = readn_loop.simps[of rd n nleft buf k]
  show ?case
  proof (cases "nleft = 0")
    case True
    then show ?thesis using step by simp
  next
    case False
    obtain r k1 where r: "rd nleft k = (r, k1)" by fastforce
    note quiet = read_quiet[OF r]
    show ?thesis
    proof (cases r)
      case (Read_error e)
      note err = read_error[OF r[unfolded Read_error]]
      show ?thesis
      proof (cases "e = EINTR")
        case True
        then have "nleft + interrupts k1 < nleft + interrupts k" using err by simp
        from less.hyps[OF this less.prems, of buf] show ?thesis
          using step False r Read_error True err quiet by auto
      qed (use step False r Read_error err in simp)
    next
      case (Got xs)
      note got = read_got[OF _ r[unfolded Got]]
      show ?thesis
      proof (cases "xs = []")
        case True
        then have "contents k = []" "contents k1 = []" using got False by auto
        then show ?thesis using step False r Got True by simp
      next
        case ne: False
        have lt: "nleft - length xs + interrupts k1 < nleft + interrupts k"
          using ne got False quiet by (cases xs) auto
        have "nleft - length xs \<le> n" using less.prems by simp
        from less.hyps[OF lt this, of "buf @ xs"] obtain rc ys k' where "readn_loop rd n (nleft - length xs) (buf @ xs) k1 = Some (rc, buf @ xs @ ys, k')"
          "contents k1 = ys @ contents k'" "length ys \<le> nleft - length xs"
          "rc = int (n - (nleft - length xs) + length ys) \<and> (length ys = nleft - length xs \<or> contents k' = []) \<or> rc = - 1 \<and> broken k1"
          by auto
        moreover have "length xs \<le> nleft" "contents k = xs @ contents k1" using got False by simp_all
        ultimately show ?thesis
          using step False r Got ne quiet less.prems by (intro exI[of _ rc] exI[of _ "xs @ ys"] exI[of _ k']) auto
      qed
    qed
  qed
qed

end

context byte_sink
begin

lemma writen_loop_writes:
  assumes "nleft \<le> n" and "length bs = nleft"
  shows "\<exists>rc e m k'. writen_loop wr n nleft bs errno k = Some (rc, e, k')
    \<and> written k' = written k @ take m bs \<and> m \<le> nleft
    \<and> (rc = int n \<and> m = nleft \<or> rc = - 1 \<and> broken k)"
  using assms
proof (induction "nleft + interrupts k" arbitrary: nleft bs errno k rule: less_induct)
  case less
  note step = writen_loop.simps[of wr n nleft bs errno k]
  show ?case
  proof (cases "nleft = 0")
    case True
    then show ?thesis using step by simp
  next
    case False
    obtain r k1 where r: "wr bs k = (r, k1)" by fastforce
    note quiet = write_quiet[OF r]
    show ?thesis
    proof (cases r)
      case (Write_error e)
      note err = write_error[OF r[unfolded Write_error]]
      show ?thesis
      proof (cases "e = EINTR")
        case True
        then have "nleft + interrupts k1 < nleft + interrupts k" using err by simp
        from less.hyps[OF this less.prems, of e] show ?thesis
          using step False r Write_error True err quiet by auto
      qed (use step False r Write_error err in \<open>auto intro: exI[of _ 0]\<close>)
    next
      case (Put m)
      have ne: "bs \<noteq> []" using False less.prems by auto
      note put = write_put[OF ne r[unfolded Put]]
      have "nleft - m + interrupts k1 < nleft + interrupts k" using put False quiet by auto
      moreover have "nleft - m \<le> n" "length (drop m bs) = nleft - m" using less.prems by auto
      ultimately obtain rc e j k' where "writen_loop wr n (nleft - m) (drop m bs) errno k1 = Some (rc, e, k')"
        "written k' = written k1 @ take j (drop m bs)" "j \<le> nleft - m"
        "rc = int n \<and> j = nleft - m \<or> rc = - 1 \<and> broken k1"
        using less.hyps by blast
      moreover have "take m bs @ take j (drop m bs) = take (m + j) bs" by (simp add: take_add)
      ultimately show ?thesis
        using step False r Put put quiet less.prems
        by (intro exI[of _ rc] exI[of _ e] exI[of _ "m + j"] exI[of _ k']) auto
    qed
  qed
qed

end

section \<open>The buffer\<close>

definition rio_ok :: "rio_t \<Rightarrow> bool" where
  "rio_ok rp \<longleftrightarrow> length (rio_buf rp) = RIO_BUFSIZE \<and> (0 < rio_cnt rp \<longrightarrow> rio_bufptr rp + nat (rio_cnt rp) \<le> RIO_BUFSIZE)"

definition rio_unread :: "rio_t \<Rightarrow> byte list" where
  "rio_unread rp = take (nat (rio_cnt rp)) (drop (rio_bufptr rp) (rio_buf rp))"

text \<open>The contract of a function that reads at least a byte unless the stream ends or breaks.\<close>

locale buffered_reader =
  fixes rdr :: "nat \<Rightarrow> 's \<Rightarrow> (int \<times> byte list \<times> 's) option"
    and inv :: "'s \<Rightarrow> bool"
    and contents :: "'s \<Rightarrow> byte list"
    and broken :: "'s \<Rightarrow> bool"
  assumes reads: "inv s \<Longrightarrow> 0 < n \<Longrightarrow> \<exists>rc xs s'. rdr n s = Some (rc, xs, s') \<and> inv s'
      \<and> contents s = xs @ contents s' \<and> length xs \<le> n \<and> (broken s' \<longrightarrow> broken s)
      \<and> (rc = int (length xs) \<and> (xs = [] \<longrightarrow> contents s = []) \<or> rc = - 1 \<and> xs = [] \<and> broken s)"
begin

lemma reads_cases:
  assumes "inv s" "0 < n"
  obtains (data) xs s' where "rdr n s = Some (int (length xs), xs, s')" "xs \<noteq> []" "inv s'"
      "contents s = xs @ contents s'" "length xs \<le> n" "broken s' \<longrightarrow> broken s"
  | (at_end) s' where "rdr n s = Some (0, [], s')" "inv s'" "contents s = []" "contents s' = []" "broken s' \<longrightarrow> broken s"
  | (broken) s' where "rdr n s = Some (- 1, [], s')" "inv s'" "contents s = contents s'" "broken s"
proof -
  obtain rc xs s' where r: "rdr n s = Some (rc, xs, s')" "inv s'" "contents s = xs @ contents s'" "length xs \<le> n"
    "broken s' \<longrightarrow> broken s" "rc = int (length xs) \<and> (xs = [] \<longrightarrow> contents s = []) \<or> rc = - 1 \<and> xs = [] \<and> broken s"
    using reads[OF assms] by blast
  show thesis
  proof (cases "rc = - 1")
    case True
    then show thesis using r broken by auto
  next
    case False
    then show thesis using r data[of xs s'] at_end[of s'] by (cases "xs = []") auto
  qed
qed

lemma readnb_loop_reads:
  assumes "nleft \<le> n" and "inv s"
  shows "\<exists>rc xs s'. readnb_loop rdr n nleft buf s = Some (rc, buf @ xs, s') \<and> inv s'
    \<and> contents s = xs @ contents s' \<and> length xs \<le> nleft \<and> (broken s' \<longrightarrow> broken s)
    \<and> (rc = int (n - nleft + length xs) \<and> (length xs = nleft \<or> contents s' = []) \<or> rc = - 1 \<and> broken s)"
  using assms
proof (induction nleft arbitrary: buf s rule: less_induct)
  case (less nleft)
  note step = readnb_loop.simps[of rdr n nleft buf s]
  show ?case
  proof (cases "nleft = 0")
    case True
    then show ?thesis using step less.prems by simp
  next
    case False
    then have n: "0 < nleft" by simp
    from less.prems(2) n show ?thesis
    proof (cases rule: reads_cases)
      case (data xs s1)
      have "nleft - length xs < nleft" "nleft - length xs \<le> n" using data(2) n less.prems by auto
      from less.IH[OF this data(3), of "buf @ xs"]
      obtain rc ys s' where "readnb_loop rdr n (nleft - length xs) (buf @ xs) s1 = Some (rc, buf @ xs @ ys, s')"
        "inv s'" "contents s1 = ys @ contents s'" "length ys \<le> nleft - length xs" "broken s' \<longrightarrow> broken s1"
        "rc = int (n - (nleft - length xs) + length ys) \<and> (length ys = nleft - length xs \<or> contents s' = []) \<or> rc = - 1 \<and> broken s1"
        by auto
      then show ?thesis
        using step False data less.prems by (intro exI[of _ rc] exI[of _ "xs @ ys"] exI[of _ s']) auto
    next
      case (at_end s1)
      then show ?thesis using step False by simp
    next
      case (broken s1)
      then show ?thesis using step False by (intro exI[of _ "- 1"] exI[of _ "[]"] exI[of _ s1]) auto
    qed
  qed
qed

lemma readlineb_loop_reads:
  assumes "inv s" and "1 \<le> n" and "maxlen < 2 ^ 31 \<or> n + length (contents s) < 2 ^ 31"
  shows "\<exists>rc ys buf' s'. readlineb_loop rdr maxlen n buf s = Some (Inr (rc, buf', s')) \<and> inv s'
    \<and> contents s = ys @ contents s' \<and> 10 \<notin> set (butlast ys) \<and> length ys \<le> maxlen - n \<and> (broken s' \<longrightarrow> broken s)
    \<and> (rc = int (n - 1 + length ys) \<and> buf' = buf @ ys @ [0]
          \<and> (ys \<noteq> [] \<and> last ys = 10 \<or> contents s' = [] \<or> maxlen \<le> n + length ys)
       \<or> rc = 0 \<and> buf' = buf \<and> ys = [] \<and> n = 1 \<and> contents s = [] \<and> 1 < maxlen
       \<or> rc = - 1 \<and> buf' = buf @ ys \<and> broken s)"
  using assms
proof (induction "maxlen - n" arbitrary: n buf s rule: less_induct)
  case less
  note step = readlineb_loop.simps[of rdr maxlen n buf s]
  show ?case
  proof (cases "n < maxlen")
    case False
    then show ?thesis using step less.prems by (intro exI[of _ "int n - 1"] exI[of _ "[]"] exI[of _ "buf @ [0]"] exI[of _ s]) auto
  next
    case True
    have "0 < (1::nat)" by simp
    with less.prems(1) show ?thesis
    proof (cases rule: reads_cases)
      case (data xs s1)
      then obtain c where xs: "xs = [c]" by (cases xs) auto
      have small: "\<not> 2 ^ 31 \<le> n + 1" "maxlen < 2 ^ 31 \<or> n + 1 + length (contents s1) < 2 ^ 31"
        using less.prems(3) True data xs by auto
      show ?thesis
      proof (cases "c = 10")
        case True
        then show ?thesis
          using step \<open>n < maxlen\<close> data xs small(1) less.prems(1,2)
          by (intro exI[of _ "int (n + 1) - 1"] exI[of _ "[c]"] exI[of _ "buf @ [c] @ [0]"] exI[of _ s1]) auto
      next
        case c: False
        have "maxlen - (n + 1) < maxlen - n" "1 \<le> n + 1" using True by simp_all
        from less.hyps[OF this(1) data(3) this(2) small(2), of "buf @ [c]"]
        obtain rc ys buf' s' where r: "readlineb_loop rdr maxlen (n + 1) (buf @ [c]) s1 = Some (Inr (rc, buf', s'))" "inv s'"
          "contents s1 = ys @ contents s'" "10 \<notin> set (butlast ys)" "length ys \<le> maxlen - (n + 1)" "broken s' \<longrightarrow> broken s1"
          "rc = int (n + length ys) \<and> buf' = (buf @ [c]) @ ys @ [0]
             \<and> (ys \<noteq> [] \<and> last ys = 10 \<or> contents s' = [] \<or> maxlen \<le> n + 1 + length ys)
           \<or> rc = - 1 \<and> buf' = (buf @ [c]) @ ys \<and> broken s1"
          using less.prems(2) by auto
        have "10 \<notin> set (butlast (c # ys))" using c r(4) by simp
        then show ?thesis
          using step True data xs c r small(1) less.prems(2)
          by (intro exI[of _ rc] exI[of _ "c # ys"] exI[of _ buf'] exI[of _ s']) auto
      qed
    next
      case (at_end s1)
      then show ?thesis using step True less.prems(2)
        by (cases "n = 1") (auto intro!: exI[of _ "[]"])
    next
      case (broken s1)
      then show ?thesis using step True by (intro exI[of _ "- 1"] exI[of _ "[]"] exI[of _ buf] exI[of _ s1]) auto
    qed
  qed
qed

end

section \<open>The buffered reader keeps the contract\<close>

context byte_source
begin

lemma rio_fill_fills:
  assumes "rio_ok rp" and "\<And>n k. rdf (rio_fd rp) n k = rd n k"
  shows "\<exists>r rp' k'. rio_fill rdf rp k = Some (r, rp', k') \<and> rio_ok rp' \<and> rio_fd rp' = rio_fd rp
    \<and> rio_unread rp @ contents k = rio_unread rp' @ contents k' \<and> (broken k' \<longrightarrow> broken k)
    \<and> (r = None \<and> 0 < rio_cnt rp'
       \<or> r = Some 0 \<and> rio_unread rp' = [] \<and> contents k' = [] \<or> r = Some (- 1) \<and> rio_unread rp' = [] \<and> broken k)"
  using assms
proof (induction "(if rio_cnt rp \<le> 0 then 1 else 0) + interrupts k" arbitrary: rp k rule: less_induct)
  case less
  note step = rio_fill.simps[of rdf rp k]
  show ?case
  proof (cases "rio_cnt rp \<le> 0")
    case False
    then show ?thesis using step less.prems(1) by (intro exI[of _ None]) auto
  next
    case True
    then have un: "rio_unread rp = []" by (simp add: rio_unread_def)
    obtain r k1 where r: "rd RIO_BUFSIZE k = (r, k1)" by fastforce
    then have rf: "rdf (rio_fd rp) RIO_BUFSIZE k = (r, k1)" using less.prems(2) by simp
    note quiet = read_quiet[OF r]
    show ?thesis
    proof (cases r)
      case (Read_error e)
      let ?rp = "rp\<lparr>rio_cnt := - 1\<rparr>"
      note err = read_error[OF r[unfolded Read_error]]
      have ok: "rio_ok ?rp" "rio_unread ?rp = []" using less.prems(1) by (simp_all add: rio_ok_def rio_unread_def)
      show ?thesis
      proof (cases "e = EINTR")
        case eintr: True
        have "(if rio_cnt ?rp \<le> 0 then 1 else 0) + interrupts k1 < (if rio_cnt rp \<le> 0 then 1 else 0) + interrupts k"
          using True err eintr by simp
        from less.hyps[OF this ok(1)] less.prems(2) show ?thesis
          using step True rf Read_error eintr err quiet un ok by auto
      next
        case eintr: False
        then show ?thesis using step True rf Read_error err quiet un ok
          by (intro exI[of _ "Some (- 1)"] exI[of _ ?rp] exI[of _ k1]) auto
      qed
    next
      case (Got xs)
      have b: "0 < RIO_BUFSIZE" by (simp add: RIO_BUFSIZE_def)
      note got = read_got[OF b r[unfolded Got]]
      show ?thesis
      proof (cases "xs = []")
        case e: True
        have "contents k = []" "contents k1 = []" using got e by auto
        then show ?thesis using step True rf Got e quiet un less.prems(1)
          by (intro exI[of _ "Some 0"] exI[of _ "rp\<lparr>rio_cnt := 0\<rparr>"] exI[of _ k1]) (auto simp: rio_ok_def rio_unread_def)
      next
        case ne: False
        let ?rp = "rp\<lparr>rio_cnt := int (length xs), rio_bufptr := 0, rio_buf := xs @ drop (length xs) (rio_buf rp)\<rparr>"
        have "\<not> rio_cnt ?rp \<le> 0" using ne by simp
        then have "rio_fill rdf ?rp k1 = Some (None, ?rp, k1)" using rio_fill.simps[of rdf ?rp k1] by simp
        then have "rio_fill rdf rp k = Some (None, ?rp, k1)" using step True rf Got ne by simp
        moreover have "rio_ok ?rp" "rio_unread ?rp = xs"
          using less.prems(1) got by (auto simp: rio_ok_def rio_unread_def)
        ultimately show ?thesis using un got quiet ne
          by (intro exI[of _ None] exI[of _ ?rp] exI[of _ k1]) auto
      qed
    qed
  qed
qed

lemma rio_read_reads:
  assumes "rio_ok rp" and "\<And>n k. rdf (rio_fd rp) n k = rd n k" and "0 < n"
  shows "\<exists>rc xs rp' k'. rio_read rdf n (rp, k) = Some (rc, xs, rp', k') \<and> rio_ok rp' \<and> rio_fd rp' = rio_fd rp
    \<and> rio_unread rp @ contents k = xs @ rio_unread rp' @ contents k' \<and> length xs \<le> n \<and> (broken k' \<longrightarrow> broken k)
    \<and> (rc = int (length xs) \<and> (xs = [] \<longrightarrow> rio_unread rp @ contents k = []) \<or> rc = - 1 \<and> xs = [] \<and> broken k)"
proof -
  obtain r rp1 k1 where f: "rio_fill rdf rp k = Some (r, rp1, k1)" "rio_ok rp1" "rio_fd rp1 = rio_fd rp"
    "rio_unread rp @ contents k = rio_unread rp1 @ contents k1" "broken k1 \<longrightarrow> broken k"
    and c: "r = None \<and> 0 < rio_cnt rp1 \<or> r = Some 0 \<and> rio_unread rp1 = [] \<and> contents k1 = []
      \<or> r = Some (- 1) \<and> rio_unread rp1 = [] \<and> broken k"
    using rio_fill_fills[OF assms(1), of rdf k] assms(2) by blast
  show ?thesis
  proof (cases r)
    case (Some rc)
    then show ?thesis using f c by (auto simp: rio_read_def)
  next
    case None
    define cnt where "cnt = (if rio_cnt rp1 < int n then nat (rio_cnt rp1) else n)"
    define xs where "xs = take cnt (drop (rio_bufptr rp1) (rio_buf rp1))"
    let ?rp = "rp1\<lparr>rio_bufptr := rio_bufptr rp1 + cnt, rio_cnt := rio_cnt rp1 - int cnt\<rparr>"
    have pos: "0 < rio_cnt rp1" using c None by simp
    have cn: "0 < cnt" "cnt \<le> n" "cnt \<le> nat (rio_cnt rp1)" using pos assms(3) by (auto simp: cnt_def)
    have len: "rio_bufptr rp1 + nat (rio_cnt rp1) \<le> length (rio_buf rp1)" using f(2) pos by (simp add: rio_ok_def)
    have x: "length xs = cnt" using cn(3) len by (simp add: xs_def)
    have "nat (rio_cnt rp1) = cnt + nat (rio_cnt rp1 - int cnt)" using cn(3) by simp
    then have u: "rio_unread rp1 = xs @ rio_unread ?rp"
      by (simp add: rio_unread_def xs_def take_add add.commute)
    have "rio_ok ?rp" using f(2) pos cn(3) by (auto simp: rio_ok_def)
    moreover have "rio_read rdf n (rp, k) = Some (int cnt, xs, ?rp, k1)"
      using f(1) None by (simp add: rio_read_def Let_def xs_def flip: cnt_def)
    ultimately show ?thesis using f u x cn by (intro exI[of _ "int cnt"] exI[of _ xs] exI[of _ ?rp] exI[of _ k1]) auto
  qed
qed

lemma rio_read_is_a_reader:
  assumes "\<And>n k. rdf fd n k = rd n k"
  shows "buffered_reader (rio_read rdf) (\<lambda>(rp, k). rio_ok rp \<and> rio_fd rp = fd)
    (\<lambda>(rp, k). rio_unread rp @ contents k) (\<lambda>(rp, k). broken k)"
proof (unfold_locales, goal_cases)
  case (1 s n)
  obtain rp k where s: "s = (rp, k)" by fastforce
  have "\<And>n k. rdf (rio_fd rp) n k = rd n k" using 1 assms s by simp
  with 1 s show ?case using rio_read_reads[of rp rdf n k] by fastforce
qed

end

text \<open>The contracts on a kernel that follows a script: how much the next calls deliver, and which are
  interrupted or fail.\<close>

datatype delivery = Deliver nat | Interrupted | Fails nat

record script =
  sc_data :: "byte list"
  sc_plan :: "delivery list"

definition script_read :: "nat \<Rightarrow> script \<Rightarrow> sys_read \<times> script" where
  "script_read n k = (case sc_plan k of
     [] \<Rightarrow> (Got (take n (sc_data k)), k\<lparr>sc_data := drop n (sc_data k)\<rparr>)
   | Deliver m # p \<Rightarrow> (Got (take (min n (Suc m)) (sc_data k)), \<lparr>sc_data = drop (min n (Suc m)) (sc_data k), sc_plan = p\<rparr>)
   | Interrupted # p \<Rightarrow> (Read_error EINTR, k\<lparr>sc_plan := p\<rparr>)
   | Fails e # p \<Rightarrow> (Read_error e, k\<lparr>sc_plan := p\<rparr>))"

definition script_write :: "byte list \<Rightarrow> script \<Rightarrow> sys_write \<times> script" where
  "script_write xs k = (case sc_plan k of
     [] \<Rightarrow> (Put (length xs), k\<lparr>sc_data := sc_data k @ xs\<rparr>)
   | Deliver m # p \<Rightarrow> (Put (min (length xs) (Suc m)), \<lparr>sc_data = sc_data k @ take (Suc m) xs, sc_plan = p\<rparr>)
   | Interrupted # p \<Rightarrow> (Write_error EINTR, k\<lparr>sc_plan := p\<rparr>)
   | Fails e # p \<Rightarrow> (Write_error e, k\<lparr>sc_plan := p\<rparr>))"

fun fatal :: "delivery \<Rightarrow> bool" where
  "fatal (Fails e) \<longleftrightarrow> e \<noteq> EINTR"
| "fatal _ \<longleftrightarrow> False"

definition script_broken :: "script \<Rightarrow> bool" where
  "script_broken k \<longleftrightarrow> list_ex fatal (sc_plan k)"

definition script_left :: "script \<Rightarrow> nat" where
  "script_left k = length (sc_plan k)"

interpretation src: byte_source script_read sc_data script_left script_broken
  by unfold_locales
    (auto simp: script_read_def script_broken_def script_left_def split: list.splits delivery.splits)

interpretation snk: byte_sink script_write sc_data script_left script_broken
  by unfold_locales
    (auto simp: script_write_def script_broken_def script_left_def min_def split: list.splits delivery.splits if_splits)

interpretation rio: buffered_reader "rio_read (\<lambda>_. script_read)" "\<lambda>(rp, k). rio_ok rp \<and> rio_fd rp = fd"
    "\<lambda>(rp, k). rio_unread rp @ sc_data k" "\<lambda>(rp, k). script_broken k" for fd
  by (rule src.rio_read_is_a_reader) simp

section \<open>Properties\<close>

text \<open>\<open>rio_readn\<close> reads \<open>n\<close> bytes, or all there are when the file is shorter, in spite of short
  counts and interruptions, and returns their number; it returns \<open>-1\<close> only on a descriptor that
  fails. It always returns.\<close>

theorem rio_readn_reads_n:
  assumes "byte_source (rd fd) contents interrupts broken"
  shows "\<exists>rc xs k'. rio_readn rd fd n k = Some (rc, xs, k') \<and> contents k = xs @ contents k'
    \<and> (rc = int (length xs) \<and> length xs = min n (length (contents k)) \<or> rc = - 1 \<and> broken k)"
proof -
  obtain rc xs k' where r: "rio_readn rd fd n k = Some (rc, xs, k')" "contents k = xs @ contents k'" "length xs \<le> n"
    "rc = int (length xs) \<and> (length xs = n \<or> contents k' = []) \<or> rc = - 1 \<and> broken k"
    using byte_source.readn_loop_reads[OF assms order_refl, of n "[]" k] by (auto simp: rio_readn_def)
  then show ?thesis by (cases "length xs = n") auto
qed

theorem rio_readn_reads_n_witness:
  "\<exists>rc xs k'. rio_readn (\<lambda>_. script_read) 3 2 \<lparr>sc_data = [7, 8, 9], sc_plan = [Deliver 0, Interrupted]\<rparr> = Some (rc, xs, k')
    \<and> rc = 2 \<and> [7, 8, 9] = xs @ sc_data k'"
  using rio_readn_reads_n[of "\<lambda>_. script_read" 3, OF src.byte_source_axioms, of 2 "\<lparr>sc_data = [7, 8, 9], sc_plan = [Deliver 0, Interrupted]\<rparr>"]
  by (auto simp: script_broken_def)

text \<open>C31: \<open>rio_writen\<close> writes all the bytes it is given, in order, in spite of
  short counts and interruptions, and returns their number; it returns \<open>-1\<close> only on a
  descriptor that fails, having written the first of them; and it returns. That is for a descriptor
  on which \<open>write\<close> takes at least one byte of a request that is not empty, or is
  interrupted (finitely often), or fails, which is the contract \<open>byte_sink\<close> with its
  law \<open>write_put\<close>. Without the law it is false: with a \<open>write\<close> that takes
  nothing and an \<open>EINTR\<close> left in \<open>errno\<close> the loop spins for ever
  (\<open>rio_writen_spins\<close>).\<close>

theorem rio_writen_writes_all:
  assumes "byte_sink (wr fd) written interrupts broken"
  shows "\<exists>rc e m k'. rio_writen wr fd usrbuf errno k = Some (rc, e, k') \<and> written k' = written k @ take m usrbuf
    \<and> (rc = int (length usrbuf) \<and> m = length usrbuf \<or> rc = - 1 \<and> broken k)"
  using byte_sink.writen_loop_writes[OF assms order_refl refl, of usrbuf errno k]
  by (auto simp: rio_writen_def)

theorem rio_writen_writes_all_witness:
  "\<exists>rc e k'. rio_writen (\<lambda>_. script_write) 3 [7, 8, 9] 0 \<lparr>sc_data = [], sc_plan = [Deliver 0, Interrupted]\<rparr> = Some (rc, e, k')
    \<and> rc = 3 \<and> sc_data k' = [7, 8, 9]"
  using rio_writen_writes_all[of "\<lambda>_. script_write" 3, OF snk.byte_sink_axioms, of "[7, 8, 9]" 0
      "\<lparr>sc_data = [], sc_plan = [Deliver 0, Interrupted]\<rparr>"]
  by (auto simp: script_broken_def)

text \<open>When \<open>write\<close> takes nothing and an earlier call has left \<open>EINTR\<close> in \<open>errno\<close>, the loop never ends.\<close>

lemma writen_loop_spins:
  "writen_loop wr n nleft bs e k = Some r \<Longrightarrow> wr = (\<lambda>_ k. (Put 0, k)) \<Longrightarrow> nleft \<noteq> 0 \<Longrightarrow> e = EINTR \<Longrightarrow> False"
proof (induction rule: writen_loop.raw_induct[rotated, consumes 1])
  case (1 g wr n nleft bs e k r)
  show ?case using 1(1)[of wr n nleft bs e k r] 1(2-5) by simp
qed

lemma rio_writen_spins: "usrbuf \<noteq> [] \<Longrightarrow> rio_writen (\<lambda>_ _ k. (Put 0, k)) fd usrbuf EINTR k = None"
  using writen_loop_spins[of "\<lambda>_ k. (Put 0, k)" "length usrbuf" "length usrbuf" usrbuf EINTR k]
  by (cases "rio_writen (\<lambda>_ _ k. (Put 0, k)) fd usrbuf EINTR k") (auto simp: rio_writen_def)


definition rio_new :: "int \<Rightarrow> rio_t" where
  "rio_new fd = rio_readinitb \<lparr>rio_fd = 0, rio_cnt = 0, rio_bufptr = 0, rio_buf = replicate RIO_BUFSIZE 0\<rparr> fd"

lemma rio_new_ok [simp]: "rio_ok (rio_new fd)" "rio_unread (rio_new fd) = []" "rio_fd (rio_new fd) = fd"
  by (simp_all add: rio_new_def rio_readinitb_def rio_ok_def rio_unread_def)


text \<open>Calls of \<open>rio_readnb\<close> and \<open>rio_readlineb\<close> one after the other on the same descriptor, and what each
  puts into the caller's buffer, without the zero that ends a line.\<close>

datatype rio_call = Read_line nat | Read_bytes nat

fun rio_calls ::
  "(int \<Rightarrow> nat \<Rightarrow> 'k \<Rightarrow> sys_read \<times> 'k) \<Rightarrow> rio_call list \<Rightarrow> rio_t \<times> 'k \<Rightarrow> ((int \<times> byte list) list \<times> rio_t \<times> 'k) res option" where
  "rio_calls rd [] s = Some (Inr ([], s))"
| "rio_calls rd (c # cs) s =
     (case (case c of Read_line m \<Rightarrow> rio_readlineb rd m s | Read_bytes n \<Rightarrow> map_option Inr (rio_readnb rd n s)) of
        None \<Rightarrow> None
      | Some (Inl e) \<Rightarrow> Some (Inl e)
      | Some (Inr (rc, buf, s)) \<Rightarrow>
          (case rio_calls rd cs s of None \<Rightarrow> None
           | Some (Inl e) \<Rightarrow> Some (Inl e)
           | Some (Inr (rs, s)) \<Rightarrow> Some (Inr ((rc, take (nat rc) buf) # rs, s))))"

text \<open>Lines and blocks can be read from the same descriptor in any order: what the calls
  deliver, one after the other, is the beginning of the file, with nothing lost, repeated or out of
  place at the boundary between two calls or two fillings of the buffer, and each call returns the
  number of bytes it delivered. The descriptor is read as \<open>byte_source\<close> says and does
  not fail, and the lines are asked for with lengths below \<open>2^31\<close>.\<close>

theorem rio_calls_deliver_in_order:
  assumes "byte_source (rd fd) contents interrupts broken" and "\<forall>m. Read_line m \<in> set cs \<longrightarrow> m < 2 ^ 31"
    and "rio_ok rp" "rio_fd rp = fd" "\<not> broken k"
  shows "\<exists>rs rp' k'. rio_calls rd cs (rp, k) = Some (Inr (rs, rp', k'))
    \<and> rio_unread rp @ contents k = concat (map snd rs) @ rio_unread rp' @ contents k'
    \<and> (\<forall>(rc, xs) \<in> set rs. rc = int (length xs))"
  using assms(2-)
proof (induction cs arbitrary: rp k)
  case (Cons c cs)
  have r: "buffered_reader (rio_read rd) (\<lambda>(rp, k). rio_ok rp \<and> rio_fd rp = fd)
      (\<lambda>(rp, k). rio_unread rp @ contents k) (\<lambda>(rp, k). broken k)"
    by (rule byte_source.rio_read_is_a_reader[OF assms(1)]) simp
  obtain rc xs buf rp1 k1 where s: "(case c of Read_line m \<Rightarrow> rio_readlineb rd m (rp, k) | Read_bytes n \<Rightarrow> map_option Inr (rio_readnb rd n (rp, k)))
      = Some (Inr (rc, buf, rp1, k1))" "rc = int (length xs)" "take (length xs) buf = xs"
    "rio_unread rp @ contents k = xs @ rio_unread rp1 @ contents k1" "rio_ok rp1" "rio_fd rp1 = fd" "\<not> broken k1"
  proof (cases c)
    case (Read_line m)
    show thesis
      using buffered_reader.readlineb_loop_reads[OF r _ order_refl, of "(rp, k)" m "[]"] Cons.prems that Read_line
      by (force simp: rio_readlineb_def)
  next
    case (Read_bytes n)
    show thesis
      using buffered_reader.readnb_loop_reads[OF r order_refl, of "(rp, k)" n "[]"] Cons.prems that Read_bytes
      by (force simp: rio_readnb_def)
  qed
  obtain rs rp' k' where t: "rio_calls rd cs (rp1, k1) = Some (Inr (rs, rp', k'))"
    "rio_unread rp1 @ contents k1 = concat (map snd rs) @ rio_unread rp' @ contents k'"
    "\<forall>(rc, xs) \<in> set rs. rc = int (length xs)"
    using Cons.IH[OF _ s(5-7)] Cons.prems(1) by auto
  have "rio_calls rd (c # cs) (rp, k) = Some (Inr ((rc, xs) # rs, rp', k'))" using s t by simp
  then show ?case using s t by force
qed simp

theorem rio_calls_deliver_in_order_witness:
  "\<exists>rs rp' k'. rio_calls (\<lambda>_. script_read) [Read_line 80, Read_bytes 1] (rio_new 3, \<lparr>sc_data = [7, 10, 9], sc_plan = [Deliver 0]\<rparr>)
      = Some (Inr (rs, rp', k'))
    \<and> [7, 10, 9] = concat (map snd rs) @ rio_unread rp' @ sc_data k'"
  using rio_calls_deliver_in_order[of "\<lambda>_. script_read" 3, OF src.byte_source_axioms, of "[Read_line 80, Read_bytes 1]" "rio_new 3"
      "\<lparr>sc_data = [7, 10, 9], sc_plan = [Deliver 0]\<rparr>"]
  by (auto simp: script_broken_def)

end
