(* ===== verification/SplitRefStack.thy ===== *)
theory SplitRefStack
  imports Prelude
begin

text \<open>
  \<open>Cpp_concurrency_in_action/chapter7/lockfree_stack_split_reference_count.h\<close>: a lock-free stack
  whose nodes are freed by reference counts that are split in two: the pointer to a node
  carries a count of the threads that ever came to look at it, the node itself a count of
  those that went. An address is a number; \<open>new\<close> may return any address that is not in use,
  also one that was freed before. Each access to shared memory is a step, and the steps of the threads
  interleave; the memory orders of the accesses, which do not make the program behave so, are the
  subject of \<open>SplitRefRaces\<close>.
\<close>

section \<open>The stack\<close>

type_synonym counted_node_ptr = "int \<times> nat option"

record 'a StackNode =
  sn_data :: "'a option"
  sn_internal :: int
  sn_next :: counted_node_ptr

text \<open>\<open>sr_heap\<close> holds the nodes that are not freed. The head starts as the null pointer with count 0.\<close>

datatype 'a split_pc =
    Sr_idle
  | Sr_push_load nat | Sr_push_cas nat
  | Sr_inc counted_node_ptr | Sr_read int nat | Sr_cas int nat counted_node_ptr
  | Sr_swap int nat | Sr_add int nat "'a option" | Sr_drop nat counted_node_ptr
  | Sr_overflow | Sr_undefined

record 'a SplitStack =
  sr_head :: counted_node_ptr
  sr_heap :: "nat \<Rightarrow> 'a StackNode option"
  sr_pc :: "nat \<Rightarrow> 'a split_pc"

definition SplitStack_ctor :: "'a SplitStack" where
  "SplitStack_ctor = \<lparr>sr_head = (0, None), sr_heap = (\<lambda>_. None), sr_pc = (\<lambda>_. Sr_idle)\<rparr>"

definition INT_MAX :: int where
  "INT_MAX = 2 ^ 31 - 1"

text \<open>Events: a push or a pop takes effect, a pop finds the stack empty, a pop returns.\<close>

datatype 'a split_event = Sr_tau | Sr_pushed 'a | Sr_popped nat 'a | Sr_empty | Sr_returned nat "'a option"

definition sr_goes :: "nat \<Rightarrow> 'a split_pc \<Rightarrow> 'a SplitStack \<Rightarrow> 'a SplitStack" where
  "sr_goes p c s = s\<lparr>sr_pc := (sr_pc s)(p := c)\<rparr>"

definition put_node :: "nat \<Rightarrow> 'a StackNode option \<Rightarrow> 'a SplitStack \<Rightarrow> 'a SplitStack" where
  "put_node a n s = s\<lparr>sr_heap := (sr_heap s)(a := n)\<rparr>"

text \<open>The external count is an \<open>int\<close>, whose overflow is undefined. The internal count is an
  \<open>atomic<int>\<close>; by the invariant below its value stays between the negative of the external
  count and the number of threads.\<close>

inductive split_step :: "'a SplitStack \<Rightarrow> 'a split_event \<Rightarrow> 'a SplitStack \<Rightarrow> bool" where
  push_new: "sr_pc s p = Sr_idle \<Longrightarrow> sr_heap s a = None \<Longrightarrow>
    split_step s Sr_tau (sr_goes p (Sr_push_load a)
      (put_node a (Some \<lparr>sn_data = Some v, sn_internal = 0, sn_next = (0, None)\<rparr>) s))"
| push_load: "sr_pc s p = Sr_push_load a \<Longrightarrow> sr_heap s a = Some n \<Longrightarrow>
    split_step s Sr_tau (sr_goes p (Sr_push_cas a) (put_node a (Some (n\<lparr>sn_next := sr_head s\<rparr>)) s))"
| push_cas: "sr_pc s p = Sr_push_cas a \<Longrightarrow> sr_heap s a = Some n \<Longrightarrow> sr_head s = sn_next n \<Longrightarrow> sn_data n = Some v \<Longrightarrow>
    split_step s (Sr_pushed v) (sr_goes p Sr_idle (s\<lparr>sr_head := (1, Some a)\<rparr>))"
| push_retry: "sr_pc s p = Sr_push_cas a \<Longrightarrow> sr_heap s a = Some n \<Longrightarrow>
    split_step s Sr_tau (put_node a (Some (n\<lparr>sn_next := sr_head s\<rparr>)) s)"
| pop_call: "sr_pc s p = Sr_idle \<Longrightarrow> split_step s Sr_tau (sr_goes p (Sr_inc (sr_head s)) s)"
| inc_retry: "sr_pc s p = Sr_inc old \<Longrightarrow> sr_head s \<noteq> old \<Longrightarrow> split_step s Sr_tau (sr_goes p (Sr_inc (sr_head s)) s)"
| inc_overflow: "sr_pc s p = Sr_inc (e, q) \<Longrightarrow> INT_MAX < e + 1 \<Longrightarrow> split_step s Sr_tau (sr_goes p Sr_overflow s)"
| inc_null: "sr_pc s p = Sr_inc (e, None) \<Longrightarrow> sr_head s = (e, None) \<Longrightarrow> e + 1 \<le> INT_MAX \<Longrightarrow>
    split_step s Sr_empty (sr_goes p Sr_idle (s\<lparr>sr_head := (e + 1, None)\<rparr>))"
| inc_node: "sr_pc s p = Sr_inc (e, Some a) \<Longrightarrow> sr_head s = (e, Some a) \<Longrightarrow> e + 1 \<le> INT_MAX \<Longrightarrow>
    split_step s Sr_tau (sr_goes p (Sr_read (e + 1) a) (s\<lparr>sr_head := (e + 1, Some a)\<rparr>))"
| pop_read: "sr_pc s p = Sr_read e a \<Longrightarrow> sr_heap s a = Some n \<Longrightarrow>
    split_step s Sr_tau (sr_goes p (Sr_cas e a (sn_next n)) s)"
| pop_cas: "sr_pc s p = Sr_cas e a nxt \<Longrightarrow> sr_head s = (e, Some a) \<Longrightarrow> sr_heap s a = Some n \<Longrightarrow> sn_data n = Some v \<Longrightarrow>
    split_step s (Sr_popped p v) (sr_goes p (Sr_swap e a) (s\<lparr>sr_head := nxt\<rparr>))"
| pop_fail: "sr_pc s p = Sr_cas e a nxt \<Longrightarrow> sr_head s \<noteq> (e, Some a) \<Longrightarrow>
    split_step s Sr_tau (sr_goes p (Sr_drop a (sr_head s)) s)"
| pop_swap: "sr_pc s p = Sr_swap e a \<Longrightarrow> sr_heap s a = Some n \<Longrightarrow>
    split_step s Sr_tau (sr_goes p (Sr_add e a (sn_data n)) (put_node a (Some (n\<lparr>sn_data := None\<rparr>)) s))"
| pop_add: "sr_pc s p = Sr_add e a r \<Longrightarrow> sr_heap s a = Some n \<Longrightarrow>
    split_step s (Sr_returned p r) (sr_goes p Sr_idle (put_node a
      (if sn_internal n = - (e - 2) then None else Some (n\<lparr>sn_internal := sn_internal n + (e - 2)\<rparr>)) s))"
| pop_drop: "sr_pc s p = Sr_drop a old \<Longrightarrow> sr_heap s a = Some n \<Longrightarrow>
    split_step s Sr_tau (sr_goes p (Sr_inc old) (put_node a
      (if sn_internal n = 1 then None else Some (n\<lparr>sn_internal := sn_internal n - 1\<rparr>)) s))"
| use_after_free: "sr_pc s p = Sr_push_load a \<or> sr_pc s p = Sr_push_cas a \<or> sr_pc s p = Sr_read e a
      \<or> sr_pc s p = Sr_swap e a \<or> sr_pc s p = Sr_add e a r \<or> sr_pc s p = Sr_drop a old
      \<or> sr_pc s p = Sr_cas e a nxt \<and> sr_head s = (e, Some a) \<Longrightarrow> sr_heap s a = None \<Longrightarrow>
    split_step s Sr_tau (sr_goes p Sr_undefined s)"
| no_value: "sr_pc s p = Sr_push_cas a \<or> sr_pc s p = Sr_cas e a nxt \<and> sr_head s = (e, Some a) \<Longrightarrow> sr_heap s a = Some n \<Longrightarrow> sn_data n = None \<Longrightarrow>
    split_step s Sr_tau (sr_goes p Sr_undefined s)"

inductive split_run :: "'a split_event list \<Rightarrow> 'a SplitStack \<Rightarrow> bool" where
  sr_init: "split_run [] SplitStack_ctor"
| sr_next: "split_run es s \<Longrightarrow> split_step s e t \<Longrightarrow> split_run (es @ [e]) t"

section \<open>The specification\<close>

inductive stack_step :: "'a list \<Rightarrow> 'a split_event \<Rightarrow> 'a list \<Rightarrow> bool" where
  "stack_step xs Sr_tau xs"
| "stack_step xs (Sr_pushed v) (v # xs)"
| "stack_step (v # xs) (Sr_popped p v) xs"
| "stack_step [] Sr_empty []"
| "stack_step xs (Sr_returned p r) xs"

inductive stack_run :: "'a split_event list \<Rightarrow> 'a list \<Rightarrow> bool" where
  "stack_run [] []"
| "stack_run es xs \<Longrightarrow> stack_step xs e ys \<Longrightarrow> stack_run (es @ [e]) ys"

text \<open>What the current or last successful pop of a thread has taken.\<close>

definition last_popped :: "nat \<Rightarrow> 'a split_event list \<Rightarrow> 'a option" where
  "last_popped p es = foldl (\<lambda>r e. case e of Sr_popped q v \<Rightarrow> if q = p then Some v else r | _ \<Rightarrow> r) None es"

section \<open>The invariant\<close>

text \<open>A thread that has counted itself in holds a reference; one that has taken a node out of the
  stack owns it until it has settled the counts; one that pushes owns its new node.\<close>

fun sr_holds :: "'a split_pc \<Rightarrow> nat option" where
  "sr_holds (Sr_read e a) = Some a" | "sr_holds (Sr_cas e a nxt) = Some a" | "sr_holds (Sr_drop a old) = Some a"
| "sr_holds _ = None"

fun sr_owns :: "'a split_pc \<Rightarrow> (int \<times> nat) option" where
  "sr_owns (Sr_swap e a) = Some (e, a)" | "sr_owns (Sr_add e a r) = Some (e, a)" | "sr_owns _ = None"

fun sr_new :: "'a split_pc \<Rightarrow> nat option" where
  "sr_new (Sr_push_load a) = Some a" | "sr_new (Sr_push_cas a) = Some a" | "sr_new _ = None"

definition sr_refs :: "(nat \<Rightarrow> 'a split_pc) \<Rightarrow> nat \<Rightarrow> int" where
  "sr_refs pc a = int (card {p. sr_holds (pc p) = Some a})"

datatype node_status = Freed | Private nat | Linked int | Owned nat int | Orphan

fun linked :: "(nat \<Rightarrow> 'a StackNode option) \<Rightarrow> counted_node_ptr \<Rightarrow> (int \<times> nat) list \<Rightarrow> 'a list \<Rightarrow> bool" where
  "linked H hp [] xs = (snd hp = None \<and> xs = [])"
| "linked H hp ((e, a) # cs) xs = (hp = (e, Some a) \<and>
     (\<exists>n v ys. H a = Some n \<and> sn_data n = Some v \<and> xs = v # ys \<and> linked H (sn_next n) cs ys))"

text \<open>The counts of a node: in the stack and when just taken out, the external count compensates
  the internal one; afterwards the internal count is the number of references.\<close>

fun counts_ok :: "node_status \<Rightarrow> int \<Rightarrow> 'a StackNode option \<Rightarrow> bool" where
  "counts_ok Freed r N = (N = None \<and> r = 0)"
| "counts_ok (Private p) r N = (\<exists>n. N = Some n \<and> sn_internal n = 0 \<and> sn_data n \<noteq> None \<and> r = 0)"
| "counts_ok (Linked e) r N = (\<exists>n. N = Some n \<and> sn_internal n = r - (e - 1) \<and> r \<le> e - 1)"
| "counts_ok (Owned p e) r N = (\<exists>n. N = Some n \<and> sn_internal n = r - (e - 2) \<and> r \<le> e - 2)"
| "counts_ok Orphan r N = (\<exists>n. N = Some n \<and> sn_internal n = r \<and> 0 < r \<and> sn_data n = None)"

definition status_ok :: "'a SplitStack \<Rightarrow> (nat \<Rightarrow> node_status) \<Rightarrow> (int \<times> nat) list \<Rightarrow> nat \<Rightarrow> bool" where
  "status_ok s st cs a \<longleftrightarrow> counts_ok (st a) (sr_refs (sr_pc s) a) (sr_heap s a)
     \<and> (\<forall>e. st a = Linked e \<longleftrightarrow> (e, a) \<in> set cs)
     \<and> (\<forall>p. st a = Private p \<longleftrightarrow> sr_new (sr_pc s p) = Some a)
     \<and> (\<forall>p e. st a = Owned p e \<longleftrightarrow> sr_owns (sr_pc s p) = Some (e, a))"

fun local_ok :: "'a split_event list \<Rightarrow> 'a SplitStack \<Rightarrow> nat \<Rightarrow> 'a split_pc \<Rightarrow> bool" where
  "local_ok es s p (Sr_cas e a nxt) = (\<exists>n. sr_heap s a = Some n \<and> sn_next n = nxt)"
| "local_ok es s p (Sr_swap e a) = (\<exists>n v. sr_heap s a = Some n \<and> sn_data n = Some v \<and> last_popped p es = Some v)"
| "local_ok es s p (Sr_add e a r) = (r \<noteq> None \<and> last_popped p es = r \<and> (\<exists>n. sr_heap s a = Some n \<and> sn_data n = None))"
| "local_ok es s p Sr_undefined = False"
| "local_ok es s p c = True"

definition split_inv :: "'a split_event list \<Rightarrow> 'a list \<Rightarrow> (nat \<Rightarrow> node_status) \<Rightarrow> (int \<times> nat) list \<Rightarrow> 'a SplitStack \<Rightarrow> bool" where
  "split_inv es xs st cs s \<longleftrightarrow> finite {p. sr_pc s p \<noteq> Sr_idle}
     \<and> linked (sr_heap s) (sr_head s) cs xs \<and> distinct (map snd cs)
     \<and> (\<forall>a. status_ok s st cs a) \<and> (\<forall>p. local_ok es s p (sr_pc s p))"


section \<open>Frames\<close>

lemma sr_goes_simps [simp]:
  "sr_head (sr_goes p c s) = sr_head s" "sr_heap (sr_goes p c s) = sr_heap s" "sr_pc (sr_goes p c s) = (sr_pc s)(p := c)"
  by (simp_all add: sr_goes_def)

lemma put_node_simps [simp]:
  "sr_head (put_node a n s) = sr_head s" "sr_heap (put_node a n s) = (sr_heap s)(a := n)" "sr_pc (put_node a n s) = sr_pc s"
  by (simp_all add: put_node_def)

lemma last_popped_append [simp]:
  "last_popped p (es @ [e]) = (case e of Sr_popped q v \<Rightarrow> if q = p then Some v else last_popped p es | _ \<Rightarrow> last_popped p es)"
  by (simp add: last_popped_def split: split_event.split)

lemma finite_holders: "finite {p. pc p \<noteq> Sr_idle} \<Longrightarrow> finite {p. sr_holds (pc p) = Some a}"
  by (rule finite_subset) (auto)

lemma refs_upd:
  assumes "finite {p. pc p \<noteq> Sr_idle}"
  shows "sr_refs (pc(p := c)) a = sr_refs pc a - (if sr_holds (pc p) = Some a then 1 else 0) + (if sr_holds c = Some a then 1 else 0)"
proof -
  let ?S = "{q. sr_holds (pc q) = Some a}"
  have eq: "{q. sr_holds ((pc(p := c)) q) = Some a} = (if sr_holds c = Some a then insert p ?S else ?S - {p})"
    by (auto split: if_splits)
  have fin: "finite ?S" by (rule finite_holders[OF assms])
  have pos: "sr_holds (pc p) = Some a \<Longrightarrow> 0 < card ?S" using fin by (auto simp: card_gt_0_iff)
  show ?thesis unfolding sr_refs_def eq using fin pos by (auto simp: card_insert_if insert_absorb)
qed

lemma refs_pos: "finite {p. pc p \<noteq> Sr_idle} \<Longrightarrow> sr_holds (pc p) = Some a \<Longrightarrow> 0 < sr_refs pc a"
  using finite_holders[of pc a] by (auto simp: sr_refs_def card_gt_0_iff)

lemma refs_0: "finite {p. pc p \<noteq> Sr_idle} \<Longrightarrow> sr_refs pc a = 0 \<Longrightarrow> sr_holds (pc p) \<noteq> Some a"
  using refs_pos[of pc p a] by auto

lemma linked_other: "linked H hp cs xs \<Longrightarrow> \<forall>e. (e, a) \<notin> set cs \<Longrightarrow> linked (H(a := N)) hp cs xs"
  by (induction H hp cs xs rule: linked.induct) auto

lemma linked_keep:
  "linked H hp cs xs \<Longrightarrow> H a = Some n \<Longrightarrow> sn_data n' = sn_data n \<Longrightarrow> sn_next n' = sn_next n \<Longrightarrow>
   linked (H(a := Some n')) hp cs xs"
  by (induction H hp cs xs rule: linked.induct) auto

lemma split_invD:
  assumes "split_inv es xs st cs s"
  shows "finite {p. sr_pc s p \<noteq> Sr_idle}" "linked (sr_heap s) (sr_head s) cs xs" "distinct (map snd cs)"
    "\<And>a. status_ok s st cs a" "\<And>p. local_ok es s p (sr_pc s p)"
    "\<And>a. counts_ok (st a) (sr_refs (sr_pc s) a) (sr_heap s a)"
    "\<And>a e. st a = Linked e \<longleftrightarrow> (e, a) \<in> set cs"
    "\<And>a p. st a = Private p \<longleftrightarrow> sr_new (sr_pc s p) = Some a"
    "\<And>a p e. st a = Owned p e \<longleftrightarrow> sr_owns (sr_pc s p) = Some (e, a)"
  using assms by (simp_all add: split_inv_def status_ok_def)

lemma split_inv_update:
  assumes inv: "split_inv es xs st cs s"
    and s': "sr_heap s' = (sr_heap s)(a := N)" "sr_pc s' = (sr_pc s)(p := c)"
    and only: "\<forall>b. b \<noteq> a \<longrightarrow> sr_holds (sr_pc s p) \<noteq> Some b \<and> sr_holds c \<noteq> Some b \<and> sr_new (sr_pc s p) \<noteq> Some b
      \<and> sr_new c \<noteq> Some b \<and> (\<forall>e. sr_owns (sr_pc s p) \<noteq> Some (e, b) \<and> sr_owns c \<noteq> Some (e, b))"
    and cs': "\<forall>e b. b \<noteq> a \<longrightarrow> (e, b) \<in> set cs' \<longleftrightarrow> (e, b) \<in> set cs" "linked (sr_heap s') (sr_head s') cs' xs'" "distinct (map snd cs')"
    and mine: "status_ok s' (st(a := z)) cs' a"
    and local: "local_ok es' s' p c" "\<forall>q. q \<noteq> p \<longrightarrow> local_ok es' s' q (sr_pc s q)"
  shows "split_inv es' xs' (st(a := z)) cs' s'"
proof -
  have fin: "finite {q. sr_pc s' q \<noteq> Sr_idle}"
    by (rule finite_subset[of _ "insert p {q. sr_pc s q \<noteq> Sr_idle}"]) (use split_invD(1)[OF inv] in \<open>auto simp: s'\<close>)
  have "status_ok s' (st(a := z)) cs' b" for b
  proof (cases "b = a")
    case False
    have r: "sr_refs (sr_pc s') b = sr_refs (sr_pc s) b"
      using only False by (simp add: s' refs_upd[OF split_invD(1)[OF inv]])
    have "sr_new (sr_pc s' q) = Some b \<longleftrightarrow> sr_new (sr_pc s q) = Some b"
      "sr_owns (sr_pc s' q) = Some (e, b) \<longleftrightarrow> sr_owns (sr_pc s q) = Some (e, b)" for q e
      using only False by (auto simp: s')
    then show ?thesis using split_invD(4)[OF inv, of b] False cs'(1) r unfolding status_ok_def by (simp add: s')
  qed (use mine in simp)
  moreover have "local_ok es' s' q (sr_pc s' q)" for q using local by (simp add: s')
  ultimately show ?thesis using fin cs' by (simp add: split_inv_def)
qed

text \<open>What another thread knows of a node survives a change that keeps its link and its value, or
  one of a node that this thread does not use.\<close>

lemma local_other:
  assumes "local_ok es s q c" "sr_heap s' = (sr_heap s)(a := N)" "last_popped q es' = last_popped q es"
    "sr_holds c = Some a \<longrightarrow> (\<forall>n. sr_heap s a = Some n \<longrightarrow> (\<exists>n'. N = Some n' \<and> sn_next n' = sn_next n))"
    "\<forall>e. sr_owns c = Some (e, a) \<longrightarrow> (\<forall>n. sr_heap s a = Some n \<longrightarrow> (\<exists>n'. N = Some n' \<and> sn_data n' = sn_data n))"
  shows "local_ok es' s' q c"
  using assms by (cases c) auto


section \<open>Every step keeps the invariant\<close>

lemma inv_pc:
  assumes inv: "split_inv es xs st cs s"
    and s': "sr_heap s' = sr_heap s" "sr_pc s' = (sr_pc s)(p := c)" "linked (sr_heap s) (sr_head s') cs xs"
    and same: "sr_holds c = sr_holds (sr_pc s p)" "sr_new c = sr_new (sr_pc s p)" "sr_owns c = sr_owns (sr_pc s p)"
    and local: "local_ok es' s' p c" "\<forall>q. last_popped q es' = last_popped q es"
  shows "split_inv es' xs st cs s'"
proof -
  have fin: "finite {q. sr_pc s' q \<noteq> Sr_idle}"
    by (rule finite_subset[of _ "insert p {q. sr_pc s q \<noteq> Sr_idle}"]) (use split_invD(1)[OF inv] in \<open>auto simp: s'\<close>)
  have "sr_holds (sr_pc s' q) = sr_holds (sr_pc s q)" "sr_new (sr_pc s' q) = sr_new (sr_pc s q)"
    "sr_owns (sr_pc s' q) = sr_owns (sr_pc s q)" for q
    using same by (simp_all add: s')
  then have "status_ok s' st cs a = status_ok s st cs a" for a
    unfolding status_ok_def sr_refs_def s'(1) by simp
  moreover have "local_ok es' s' q (sr_pc s' q)" for q
  proof (cases "q = p")
    case False
    have "local_ok es' s' q (sr_pc s q)" using split_invD(5)[OF inv, of q] local(2) s'(1) by (cases "sr_pc s q") auto
    then show ?thesis using False by (simp add: s')
  qed (use local in \<open>simp add: s'\<close>)
  ultimately show ?thesis using inv fin s'(3) by (simp add: split_inv_def s'(1))
qed

lemma others_keep:
  assumes inv: "split_inv es xs st cs s" and s': "sr_heap s' = (sr_heap s)(a := N)"
    and "\<forall>q. q \<noteq> p \<longrightarrow> last_popped q es' = last_popped q es"
    and "\<forall>n. sr_heap s a = Some n \<longrightarrow> (\<exists>n'. N = Some n' \<and> sn_next n' = sn_next n) \<or> (\<forall>q. q \<noteq> p \<longrightarrow> sr_holds (sr_pc s q) \<noteq> Some a)"
    and "\<forall>n. sr_heap s a = Some n \<longrightarrow> (\<exists>n'. N = Some n' \<and> sn_data n' = sn_data n) \<or> (\<forall>q e. q \<noteq> p \<longrightarrow> st a \<noteq> Owned q e)"
  shows "\<forall>q. q \<noteq> p \<longrightarrow> local_ok es' s' q (sr_pc s q)"
proof (intro allI impI)
  fix q
  assume "q \<noteq> p"
  then show "local_ok es' s' q (sr_pc s q)"
  proof (intro local_other[OF split_invD(5)[OF inv] s'])
    show "\<forall>e. sr_owns (sr_pc s q) = Some (e, a) \<longrightarrow>
        (\<forall>n. sr_heap s a = Some n \<longrightarrow> (\<exists>n'. N = Some n' \<and> sn_data n' = sn_data n))"
      using assms(5) \<open>q \<noteq> p\<close> split_invD(9)[OF inv, of a q] by blast
  qed (use assms(3,4) \<open>q \<noteq> p\<close> in auto)
qed

lemma inv_push_new:
  assumes inv: "split_inv es xs st cs s" and pc: "sr_pc s p = Sr_idle" and free: "sr_heap s a = None"
  shows "split_inv (es @ [Sr_tau]) xs (st(a := Private p)) cs (sr_goes p (Sr_push_load a)
      (put_node a (Some \<lparr>sn_data = Some v, sn_internal = 0, sn_next = (0, None)\<rparr>) s))" (is "split_inv _ _ _ _ ?t")
proof -
  have st: "st a = Freed" and r: "sr_refs (sr_pc s) a = 0"
    using split_invD(6)[OF inv, of a] free by (cases "st a"; simp)+
  have no: "\<forall>e. (e, a) \<notin> set cs" using split_invD(7)[OF inv, of a] st by auto
  have new: "sr_new (sr_pc s q) \<noteq> Some a" and own: "sr_owns (sr_pc s q) \<noteq> Some (e, a)" for q e
    using split_invD(8)[OF inv, of a q] split_invD(9)[OF inv, of a q e] st by auto
  show ?thesis
  proof (rule split_inv_update[OF inv])
    show "status_ok ?t (st(a := Private p)) cs a"
      using no new own r pc by (auto simp: status_ok_def refs_upd[OF split_invD(1)[OF inv]])
    show "\<forall>q. q \<noteq> p \<longrightarrow> local_ok (es @ [Sr_tau]) ?t q (sr_pc s q)"
      by (rule others_keep[OF inv]) (use free in auto)
  qed (use pc split_invD(3)[OF inv] linked_other[OF split_invD(2)[OF inv] no] in auto)
qed

text \<open>A thread works on its own node, or one that it holds a reference to, and the links stay.\<close>

lemma private_node:
  assumes inv: "split_inv es xs st cs s" and "sr_new (sr_pc s p) = Some a"
  shows "st a = Private p" "\<exists>n. sr_heap s a = Some n \<and> sn_internal n = 0 \<and> sn_data n \<noteq> None" "sr_refs (sr_pc s) a = 0"
    "\<forall>e. (e, a) \<notin> set cs" "\<And>q. sr_holds (sr_pc s q) \<noteq> Some a"
proof -
  show st: "st a = Private p" using split_invD(8)[OF inv, of a p] assms(2) by simp
  show "\<exists>n. sr_heap s a = Some n \<and> sn_internal n = 0 \<and> sn_data n \<noteq> None" and r: "sr_refs (sr_pc s) a = 0"
    using split_invD(6)[OF inv, of a] st by auto
  show "\<forall>e. (e, a) \<notin> set cs" using split_invD(7)[OF inv, of a] st by auto
  show "sr_holds (sr_pc s q) \<noteq> Some a" for q using refs_0[OF split_invD(1)[OF inv] r] by simp
qed

lemma inv_push_link:
  assumes inv: "split_inv es xs st cs s" and pc: "sr_pc s p = Sr_push_load a \<or> sr_pc s p = Sr_push_cas a"
    and n: "sr_heap s a = Some n"
  shows "split_inv (es @ [Sr_tau]) xs st cs (sr_goes p (Sr_push_cas a) (put_node a (Some (n\<lparr>sn_next := h\<rparr>)) s))"
    (is "split_inv _ _ _ _ ?t")
proof -
  have new: "sr_new (sr_pc s p) = Some a" "sr_holds (sr_pc s p) = None" "sr_owns (sr_pc s p) = None" using pc by auto
  note own = private_node[OF inv new(1)]
  have "split_inv (es @ [Sr_tau]) xs (st(a := Private p)) cs ?t"
  proof (rule split_inv_update[OF inv])
    show "status_ok ?t (st(a := Private p)) cs a"
      using split_invD(4)[OF inv, of a] own(1,2,3,4) new n
      by (auto simp: status_ok_def refs_upd[OF split_invD(1)[OF inv]])
    show "\<forall>q. q \<noteq> p \<longrightarrow> local_ok (es @ [Sr_tau]) ?t q (sr_pc s q)"
      by (rule others_keep[OF inv]) (use own n in auto)
  qed (use new own split_invD(3)[OF inv] linked_other[OF split_invD(2)[OF inv] own(4)] in auto)
  then show ?thesis using own(1) by (simp add: fun_upd_idem)
qed


lemma inv_push_cas:
  assumes inv: "split_inv es xs st cs s" and pc: "sr_pc s p = Sr_push_cas a"
    and n: "sr_heap s a = Some n" "sr_head s = sn_next n" "sn_data n = Some v"
  shows "split_inv (es @ [Sr_pushed v]) (v # xs) (st(a := Linked 1)) ((1, a) # cs) (sr_goes p Sr_idle (s\<lparr>sr_head := (1, Some a)\<rparr>))"
    (is "split_inv _ _ _ _ ?t")
proof -
  have new: "sr_new (sr_pc s p) = Some a" using pc by simp
  note own = private_node[OF inv new]
  show ?thesis
  proof (rule split_inv_update[OF inv])
    show "status_ok ?t (st(a := Linked 1)) ((1, a) # cs) a"
      using split_invD(4)[OF inv, of a] own(1,2,3,4) pc n
      by (auto simp: status_ok_def refs_upd[OF split_invD(1)[OF inv]])
    show "sr_heap ?t = (sr_heap s)(a := sr_heap s a)" by simp
    show "\<forall>q. q \<noteq> p \<longrightarrow> local_ok (es @ [Sr_pushed v]) ?t q (sr_pc s q)"
      by (rule others_keep[OF inv, of _ a "sr_heap s a"]) (use own n in auto)
  qed (use pc own(4) n split_invD(2,3)[OF inv] in \<open>auto\<close>)
qed

lemma head_node:
  assumes inv: "split_inv es xs st cs s" and "sr_head s = (e, Some a)"
  obtains n v cs' ys where "cs = (e, a) # cs'" "st a = Linked e" "\<forall>e'. (e', a) \<notin> set cs'" "sr_heap s a = Some n"
    "sn_data n = Some v" "xs = v # ys" "linked (sr_heap s) (sn_next n) cs' ys"
    "sn_internal n = sr_refs (sr_pc s) a - (e - 1)" "sr_refs (sr_pc s) a \<le> e - 1"
proof -
  obtain cs' where cs: "cs = (e, a) # cs'" using split_invD(2)[OF inv] assms(2) by (cases cs) auto
  have st: "st a = Linked e" using split_invD(7)[OF inv, of a e] cs by simp
  obtain n v ys where n: "sr_heap s a = Some n" "sn_data n = Some v" "xs = v # ys" "linked (sr_heap s) (sn_next n) cs' ys"
    using split_invD(2)[OF inv] by (auto simp: cs)
  have "\<forall>e'. (e', a) \<notin> set cs'" using split_invD(3)[OF inv] by (force simp: cs)
  then show ?thesis using that[OF cs st _ n] split_invD(6)[OF inv, of a] st n(1) by simp
qed

lemma inv_inc_node:
  assumes inv: "split_inv es xs st cs s" and pc: "sr_pc s p = Sr_inc (e, Some a)" and head: "sr_head s = (e, Some a)"
  shows "split_inv (es @ [Sr_tau]) xs (st(a := Linked (e + 1))) ((e + 1, a) # tl cs)
    (sr_goes p (Sr_read (e + 1) a) (s\<lparr>sr_head := (e + 1, Some a)\<rparr>))" (is "split_inv _ _ _ _ ?t")
proof -
  obtain n v cs' ys where h: "cs = (e, a) # cs'" "st a = Linked e" "\<forall>e'. (e', a) \<notin> set cs'" "sr_heap s a = Some n"
    "sn_data n = Some v" "xs = v # ys" "linked (sr_heap s) (sn_next n) cs' ys"
    "sn_internal n = sr_refs (sr_pc s) a - (e - 1)" "sr_refs (sr_pc s) a \<le> e - 1"
    by (rule head_node[OF inv head])
  show ?thesis
  proof (rule split_inv_update[OF inv])
    show "status_ok ?t (st(a := Linked (e + 1))) ((e + 1, a) # tl cs) a"
      using split_invD(4)[OF inv, of a] h pc by (auto simp: status_ok_def refs_upd[OF split_invD(1)[OF inv]])
    show "sr_heap ?t = (sr_heap s)(a := sr_heap s a)" by simp
    show "\<forall>q. q \<noteq> p \<longrightarrow> local_ok (es @ [Sr_tau]) ?t q (sr_pc s q)"
      by (rule others_keep[OF inv, of _ a "sr_heap s a"]) (use h in auto)
  qed (use pc h split_invD(3)[OF inv] in auto)
qed

lemma inv_pop_cas:
  assumes inv: "split_inv es xs st cs s" and pc: "sr_pc s p = Sr_cas e a nxt" and head: "sr_head s = (e, Some a)"
    and v: "sr_heap s a = Some n" "sn_data n = Some v"
  shows "split_inv (es @ [Sr_popped p v]) (tl xs) (st(a := Owned p e)) (tl cs)
    (sr_goes p (Sr_swap e a) (s\<lparr>sr_head := nxt\<rparr>))" (is "split_inv _ _ _ _ ?t") "hd xs = v \<and> xs \<noteq> []"
proof -
  obtain v' cs' ys where h: "cs = (e, a) # cs'" "st a = Linked e" "\<forall>e'. (e', a) \<notin> set cs'" "sn_data n = Some v'"
    "xs = v' # ys" "linked (sr_heap s) (sn_next n) cs' ys"
    "sn_internal n = sr_refs (sr_pc s) a - (e - 1)" "sr_refs (sr_pc s) a \<le> e - 1"
    using head_node[OF inv head] v(1) by (metis option.inject)
  have nxt: "nxt = sn_next n" using split_invD(5)[OF inv, of p] pc v(1) by simp
  show "hd xs = v \<and> xs \<noteq> []" using h(4,5) v(2) by simp
  show "split_inv (es @ [Sr_popped p v]) (tl xs) (st(a := Owned p e)) (tl cs) ?t"
  proof (rule split_inv_update[OF inv])
    show "status_ok ?t (st(a := Owned p e)) (tl cs) a"
      using split_invD(4)[OF inv, of a] h pc v by (auto simp: status_ok_def refs_upd[OF split_invD(1)[OF inv]])
    show "sr_heap ?t = (sr_heap s)(a := sr_heap s a)" by simp
    show "\<forall>q. q \<noteq> p \<longrightarrow> local_ok (es @ [Sr_popped p v]) ?t q (sr_pc s q)"
      by (rule others_keep[OF inv, of _ a "sr_heap s a"]) (use h v in auto)
  qed (use pc h v nxt split_invD(3)[OF inv] in auto)
qed

lemma owned_node:
  assumes inv: "split_inv es xs st cs s" and "sr_owns (sr_pc s p) = Some (e, a)" and n: "sr_heap s a = Some n"
  shows "st a = Owned p e" "\<forall>e. (e, a) \<notin> set cs" "sn_internal n = sr_refs (sr_pc s) a - (e - 2)"
    "sr_refs (sr_pc s) a \<le> e - 2"
proof -
  show st: "st a = Owned p e" using split_invD(9)[OF inv, of a p e] assms(2) by simp
  show "\<forall>e. (e, a) \<notin> set cs" using split_invD(7)[OF inv, of a] st by auto
  show "sn_internal n = sr_refs (sr_pc s) a - (e - 2)" "sr_refs (sr_pc s) a \<le> e - 2"
    using split_invD(6)[OF inv, of a] st n by auto
qed

lemma inv_pop_swap:
  assumes inv: "split_inv es xs st cs s" and pc: "sr_pc s p = Sr_swap e a" and n: "sr_heap s a = Some n"
  shows "split_inv (es @ [Sr_tau]) xs st cs
    (sr_goes p (Sr_add e a (sn_data n)) (put_node a (Some (n\<lparr>sn_data := None\<rparr>)) s))" (is "split_inv _ _ _ _ ?t")
proof -
  have "sr_owns (sr_pc s p) = Some (e, a)" using pc by simp
  note own = owned_node[OF inv this n]
  have "split_inv (es @ [Sr_tau]) xs (st(a := Owned p e)) cs ?t"
  proof (rule split_inv_update[OF inv])
    show "status_ok ?t (st(a := Owned p e)) cs a"
      using split_invD(4)[OF inv, of a] own pc n by (auto simp: status_ok_def refs_upd[OF split_invD(1)[OF inv]])
    show "\<forall>q. q \<noteq> p \<longrightarrow> local_ok (es @ [Sr_tau]) ?t q (sr_pc s q)"
      by (rule others_keep[OF inv]) (use own n in auto)
    show "local_ok (es @ [Sr_tau]) ?t p (Sr_add e a (sn_data n))" using split_invD(5)[OF inv, of p] pc n by auto
  qed (use pc own linked_other[OF split_invD(2)[OF inv] own(2)] split_invD(3)[OF inv] in auto)
  then show ?thesis using own(1) by (simp add: fun_upd_idem)
qed

lemma inv_pop_add:
  assumes inv: "split_inv es xs st cs s" and pc: "sr_pc s p = Sr_add e a r" and n: "sr_heap s a = Some n"
  shows "\<exists>z. split_inv (es @ [Sr_returned p r]) xs (st(a := z)) cs (sr_goes p Sr_idle (put_node a
      (if sn_internal n = - (e - 2) then None else Some (n\<lparr>sn_internal := sn_internal n + (e - 2)\<rparr>)) s))"
    (is "\<exists>z. split_inv _ _ _ _ ?t")
proof -
  have "sr_owns (sr_pc s p) = Some (e, a)" using pc by simp
  note own = owned_node[OF inv this n]
  let ?z = "if sn_internal n = - (e - 2) then Freed else Orphan"
  have d: "sn_data n = None" using split_invD(5)[OF inv, of p] pc n by simp
  have r: "0 \<le> sr_refs (sr_pc s) a" by (simp add: sr_refs_def)
  have none: "sr_holds (sr_pc s q) \<noteq> Some a" if "sn_internal n = - (e - 2)" for q
    using refs_0[OF split_invD(1)[OF inv]] own(3) that by simp
  have "split_inv (es @ [Sr_returned p r]) xs (st(a := ?z)) cs ?t"
  proof (rule split_inv_update[OF inv])
    show "status_ok ?t (st(a := ?z)) cs a"
      using split_invD(4)[OF inv, of a] own pc n r d by (auto simp: status_ok_def refs_upd[OF split_invD(1)[OF inv]])
    show "\<forall>q. q \<noteq> p \<longrightarrow> local_ok (es @ [Sr_returned p r]) ?t q (sr_pc s q)"
      by (cases "sn_internal n = - (e - 2)"; rule others_keep[OF inv]) (use own n none in auto)
  qed (use pc own linked_other[OF split_invD(2)[OF inv] own(2)] split_invD(3)[OF inv] in auto)
  then show ?thesis by blast
qed

lemma inv_pop_drop:
  assumes inv: "split_inv es xs st cs s" and pc: "sr_pc s p = Sr_drop a old" and n: "sr_heap s a = Some n"
  shows "\<exists>z. split_inv (es @ [Sr_tau]) xs (st(a := z)) cs (sr_goes p (Sr_inc old) (put_node a
      (if sn_internal n = 1 then None else Some (n\<lparr>sn_internal := sn_internal n - 1\<rparr>)) s))"
    (is "\<exists>z. split_inv _ _ _ _ ?t")
proof -
  have pos: "0 < sr_refs (sr_pc s) a" using refs_pos[OF split_invD(1)[OF inv], of p a] pc by simp
  have st: "st a \<noteq> Freed" "\<And>q. st a \<noteq> Private q" using split_invD(6)[OF inv, of a] pos by auto
  have one: "st a = Orphan \<and> sr_refs (sr_pc s) a = 1" if "sn_internal n = 1"
    using split_invD(6)[OF inv, of a] n that by (cases "st a") auto
  let ?z = "if sn_internal n = 1 then Freed else st a"
  have fin: "finite {q. sr_pc s q \<noteq> Sr_idle}" by (rule split_invD(1)[OF inv])
  have none: "sr_holds (sr_pc s q) \<noteq> Some a" if "sn_internal n = 1" "q \<noteq> p" for q
  proof
    assume "sr_holds (sr_pc s q) = Some a"
    then have "{p, q} \<subseteq> {q. sr_holds (sr_pc s q) = Some a}" using pc by auto
    then have "card {p, q} \<le> card {q. sr_holds (sr_pc s q) = Some a}" by (rule card_mono[OF finite_holders[OF fin]])
    then show False using one[OF that(1)] that(2) by (simp add: sr_refs_def)
  qed
  have link: "linked ((sr_heap s)(a := if sn_internal n = 1 then None else Some (n\<lparr>sn_internal := sn_internal n - 1\<rparr>)))
      (sr_head s) cs xs"
  proof (cases "sn_internal n = 1")
    case True
    then have "\<forall>e. (e, a) \<notin> set cs" using one split_invD(7)[OF inv, of a] by auto
    then show ?thesis by (rule linked_other[OF split_invD(2)[OF inv]])
  qed (use linked_keep[OF split_invD(2)[OF inv] n] in simp)
  have "counts_ok ?z (sr_refs (sr_pc ?t) a) (sr_heap ?t a)"
    using split_invD(6)[OF inv, of a] st one pos n pc by (cases "st a") (auto simp: refs_upd[OF fin])
  moreover have "\<forall>e. ?z = Linked e \<longleftrightarrow> (e, a) \<in> set cs" using split_invD(7)[OF inv, of a] one by auto
  moreover have "\<forall>q. ?z = Private q \<longleftrightarrow> sr_new (sr_pc ?t q) = Some a"
    using split_invD(8)[OF inv, of a] one pc by auto
  moreover have "\<forall>q e. ?z = Owned q e \<longleftrightarrow> sr_owns (sr_pc ?t q) = Some (e, a)"
    using split_invD(9)[OF inv, of a] one pc by auto
  ultimately have ok: "status_ok ?t (st(a := ?z)) cs a" unfolding status_ok_def by simp
  have "split_inv (es @ [Sr_tau]) xs (st(a := ?z)) cs ?t"
  proof (rule split_inv_update[OF inv _ _ _ _ _ _ ok])
    show "\<forall>q. q \<noteq> p \<longrightarrow> local_ok (es @ [Sr_tau]) ?t q (sr_pc s q)"
      by (cases "sn_internal n = 1"; rule others_keep[OF inv]) (use n none one in auto)
  qed (use pc link split_invD(3)[OF inv] in auto)
  then show ?thesis by blast
qed


lemma held_alive:
  assumes inv: "split_inv es xs st cs s" and "sr_holds (sr_pc s p) = Some a"
  shows "\<exists>n. sr_heap s a = Some n"
proof -
  have "0 < sr_refs (sr_pc s) a" by (rule refs_pos[OF split_invD(1)[OF inv] assms(2)])
  then show ?thesis using split_invD(6)[OF inv, of a] by (cases "st a") auto
qed

lemma used_alive:
  assumes inv: "split_inv es xs st cs s"
    and "sr_pc s p = Sr_push_load a \<or> sr_pc s p = Sr_push_cas a \<or> sr_pc s p = Sr_read e a \<or> sr_pc s p = Sr_cas e a nxt
      \<or> sr_pc s p = Sr_swap e a \<or> sr_pc s p = Sr_add e a r \<or> sr_pc s p = Sr_drop a old"
  shows "\<exists>n. sr_heap s a = Some n"
  using assms(2)
proof (elim disjE)
  assume "sr_pc s p = Sr_swap e a"
  then show ?thesis using split_invD(6)[OF inv, of a] split_invD(9)[OF inv, of a p e] by auto
next
  assume "sr_pc s p = Sr_add e a r"
  then show ?thesis using split_invD(6)[OF inv, of a] split_invD(9)[OF inv, of a p e] by auto
qed (use private_node(2)[OF inv, of p a] held_alive[OF inv, of p a] in auto)

lemma split_step_inv:
  assumes "split_step s e t" "split_inv es xs st cs s"
  shows "\<exists>ys st' cs'. stack_step xs e ys \<and> split_inv (es @ [e]) ys st' cs' t"
  using assms(1)
proof cases
  case (push_new p a v)
  then show ?thesis using inv_push_new[OF assms(2), of p a v] stack_step.intros(1) by blast
next
  case (push_load p a n)
  then show ?thesis using inv_push_link[OF assms(2), of p a n "sr_head s"] stack_step.intros(1) by blast
next
  case (push_cas p a n v)
  then have "split_inv (es @ [e]) (v # xs) (st(a := Linked 1)) ((1, a) # cs) t"
    using inv_push_cas[OF assms(2), of p a n v] by simp
  moreover have "stack_step xs e (v # xs)" unfolding push_cas(1) by (rule stack_step.intros)
  ultimately show ?thesis by blast
next
  case (push_retry p a n)
  then have "sr_goes p (Sr_push_cas a) (put_node a (Some (n\<lparr>sn_next := sr_head s\<rparr>)) s) = t"
    by (simp add: sr_goes_def put_node_def fun_upd_idem)
  then show ?thesis using inv_push_link[OF assms(2), of p a n "sr_head s"] push_retry stack_step.intros(1) by blast
next
  case (pop_call p)
  then have "split_inv (es @ [e]) xs st cs t" by (intro inv_pc[OF assms(2), where p = p and c = "Sr_inc (sr_head s)"]) (use split_invD(2)[OF assms(2)] in auto)
  then show ?thesis using stack_step.intros(1) pop_call by blast
next
  case (inc_retry p old)
  then have "split_inv (es @ [e]) xs st cs t" by (intro inv_pc[OF assms(2), where p = p and c = "Sr_inc (sr_head s)"]) (use split_invD(2)[OF assms(2)] in auto)
  then show ?thesis using stack_step.intros(1) inc_retry by blast
next
  case (inc_overflow p k q)
  then have "split_inv (es @ [e]) xs st cs t" by (intro inv_pc[OF assms(2), where p = p and c = "Sr_overflow"]) (use split_invD(2)[OF assms(2)] in auto)
  then show ?thesis using stack_step.intros(1) inc_overflow by blast
next
  case (inc_null p k)
  then have c: "cs = []" "xs = []" using split_invD(2)[OF assms(2)] by (cases cs; auto)+
  have "split_inv (es @ [e]) xs st cs t" by (intro inv_pc[OF assms(2), where p = p and c = "Sr_idle"]) (use inc_null c in auto)
  then show ?thesis using stack_step.intros(4) inc_null c by blast
next
  case (inc_node p k a)
  then show ?thesis using inv_inc_node[OF assms(2), of p k a] stack_step.intros(1) by blast
next
  case (pop_read p k a n)
  then have "split_inv (es @ [e]) xs st cs t" by (intro inv_pc[OF assms(2), where p = p and c = "Sr_cas k a (sn_next n)"]) (use split_invD(2)[OF assms(2)] in auto)
  then show ?thesis using stack_step.intros(1) pop_read by blast
next
  case (pop_cas p k a nxt n v)
  have h: "hd xs = v \<and> xs \<noteq> []" "split_inv (es @ [e]) (tl xs) (st(a := Owned p k)) (tl cs) t"
    using inv_pop_cas[OF assms(2), of p k a nxt n v] pop_cas by simp_all
  then have "stack_step xs e (tl xs)" using stack_step.intros(3)[of v "tl xs" p] pop_cas(1) by (cases xs) auto
  then show ?thesis using h(2) by blast
next
  case (pop_fail p k a nxt)
  then have "split_inv (es @ [e]) xs st cs t" by (intro inv_pc[OF assms(2), where p = p and c = "Sr_drop a (sr_head s)"]) (use split_invD(2)[OF assms(2)] in auto)
  then show ?thesis using stack_step.intros(1) pop_fail by blast
next
  case (pop_swap p k a n)
  then show ?thesis using inv_pop_swap[OF assms(2), of p k a n] stack_step.intros(1) by blast
next
  case (pop_add p k a r n)
  then show ?thesis using inv_pop_add[OF assms(2), of p k a r n] stack_step.intros(5) by blast
next
  case (pop_drop p a old n)
  then show ?thesis using inv_pop_drop[OF assms(2), of p a old n] stack_step.intros(1) by blast
next
  case (use_after_free p a k r old nxt)
  then show ?thesis using used_alive[OF assms(2), of p a k nxt r old] by auto
next
  case (no_value p a k nxt n)
  have "sn_data n \<noteq> None" using no_value(3)
  proof
    assume "sr_pc s p = Sr_push_cas a"
    then show ?thesis using private_node(2)[OF assms(2), of p a] no_value(4) by simp
  next
    assume "sr_pc s p = Sr_cas k a nxt \<and> sr_head s = (k, Some a)"
    then show ?thesis using head_node[OF assms(2), of k a] no_value(4) by (metis option.distinct(1) option.inject)
  qed
  then show ?thesis using no_value by simp
qed


lemma split_run_inv:
  "split_run es s \<Longrightarrow> \<exists>xs st cs. stack_run es xs \<and> split_inv es xs st cs s"
proof (induction rule: split_run.induct)
  case sr_init
  have "split_inv [] [] (\<lambda>_. Freed) [] (SplitStack_ctor :: 'a SplitStack)"
    by (simp add: split_inv_def status_ok_def SplitStack_ctor_def sr_refs_def)
  then show ?case using stack_run.intros(1) by blast
next
  case (sr_next es s e t)
  then obtain xs st cs where ih: "stack_run es xs" "split_inv es xs st cs s" by blast
  obtain ys st' cs' where "stack_step xs e ys" "split_inv (es @ [e]) ys st' cs' t"
    using split_step_inv[OF sr_next.hyps(2) ih(2)] by blast
  then show ?case using stack_run.intros(2)[OF ih(1)] by blast
qed

section \<open>Properties\<close>

text \<open>In every interleaving the stack with split reference counts is a stack, and it reclaims
  memory exactly when it may: with any number of threads and addresses reused as soon as they are
  freed, the successful exchanges are pushes and pops of one stack (a pop finds null only when it is
  empty), no thread touches a freed node, and when no call is running the nodes that are not freed
  are those in the stack, so that nothing has leaked. This is a statement about interleavings, that
  is about the algorithm with sequentially consistent accesses; the orders in the source are weaker
  and do not give it (\<open>failing_pop_deletes_with_a_race\<close> in
  \<open>SplitRefRaces\<close>).\<close>

theorem split_stack_is_a_safe_stack:
  assumes "split_run es s"
  shows "\<exists>xs cs. stack_run es xs \<and> linked (sr_heap s) (sr_head s) cs xs \<and> (\<forall>p. sr_pc s p \<noteq> Sr_undefined)
    \<and> ((\<forall>p. sr_pc s p = Sr_idle) \<longrightarrow> {a. sr_heap s a \<noteq> None} = snd ` set cs)"
proof -
  obtain xs st cs where run: "stack_run es xs" and inv: "split_inv es xs st cs s" using split_run_inv[OF assms] by blast
  have "sr_pc s p \<noteq> Sr_undefined" for p using split_invD(5)[OF inv, of p] by auto
  moreover have "{a. sr_heap s a \<noteq> None} = snd ` set cs" if idle: "\<forall>p. sr_pc s p = Sr_idle"
  proof -
    have "sr_refs (sr_pc s) a = 0" for a using idle by (simp add: sr_refs_def)
    then have "sr_heap s a \<noteq> None \<longleftrightarrow> (\<exists>e. st a = Linked e)" for a
      using split_invD(6)[OF inv, of a] split_invD(8)[OF inv, of a] split_invD(9)[OF inv, of a] idle by (cases "st a") auto
    then show ?thesis using split_invD(7)[OF inv] by (force simp: image_iff)
  qed
  ultimately show ?thesis using run split_invD(2)[OF inv] by blast
qed

text \<open>One thread pushes 7 and pops it.\<close>

definition sp :: "counted_node_ptr \<Rightarrow> (nat option \<times> int \<times> counted_node_ptr) option \<Rightarrow> nat split_pc \<Rightarrow> nat SplitStack" where
  "sp h n c = \<lparr>sr_head = h, sr_heap = (\<lambda>_. None)(3 := map_option (\<lambda>(d, i, x). \<lparr>sn_data = d, sn_internal = i, sn_next = x\<rparr>) n),
     sr_pc = (\<lambda>_. Sr_idle)(0 := c)\<rparr>"

lemma sp_simps [simp]:
  "sr_head (sp h n c) = h" "sr_heap (sp h n c) 3 = map_option (\<lambda>(d, i, x). \<lparr>sn_data = d, sn_internal = i, sn_next = x\<rparr>) n"
  "sr_pc (sp h n c) 0 = c" "sp h n c\<lparr>sr_head := h'\<rparr> = sp h' n c" "sr_goes 0 c' (sp h n c) = sp h n c'"
  "put_node 3 None (sp h n c) = sp h None c"
  "put_node 3 (Some \<lparr>sn_data = d, sn_internal = i, sn_next = x\<rparr>) (sp h n c) = sp h (Some (d, i, x)) c"
  by (simp_all add: sp_def sr_goes_def put_node_def)

lemma sp_push: "split_run [Sr_tau, Sr_tau, Sr_pushed 7] (sp (1, Some 3) (Some (Some 7, 0, 0, None)) Sr_idle)"
proof -
  have "(SplitStack_ctor :: nat SplitStack) = sp (0, None) None Sr_idle" by (simp add: SplitStack_ctor_def sp_def fun_eq_iff)
  then have "split_run [] (sp (0, None) None Sr_idle)" using sr_init[where 'a = nat] by simp
  from sr_next[OF this push_new[of _ 0 3 7]]
  have "split_run [Sr_tau] (sp (0, None) (Some (Some 7, 0, 0, None)) (Sr_push_load 3))" by simp
  from sr_next[OF this push_load[of _ 0 3]]
  have "split_run [Sr_tau, Sr_tau] (sp (0, None) (Some (Some 7, 0, 0, None)) (Sr_push_cas 3))" by simp
  from sr_next[OF this push_cas[of _ 0 3 "\<lparr>sn_data = Some 7, sn_internal = 0, sn_next = (0, None)\<rparr>" 7]] show ?thesis by simp
qed

theorem split_stack_is_a_safe_stack_witness:
  "\<exists>es (s :: nat SplitStack). split_run es s \<and> stack_run es [7] \<and> {a. sr_heap s a \<noteq> None} = {3}"
proof -
  let ?s = "sp (1, Some 3) (Some (Some 7, 0, 0, None)) Sr_idle"
  obtain xs cs where r: "stack_run [Sr_tau, Sr_tau, Sr_pushed 7] xs" "linked (sr_heap ?s) (sr_head ?s) cs xs"
    "{a. sr_heap ?s a \<noteq> None} = snd ` set cs"
    using split_stack_is_a_safe_stack[OF sp_push] by (auto simp: sp_def)
  obtain cs' where "cs = (1, 3) # cs'" using r(2) by (cases cs) auto
  then have "cs = [(1, 3)]" "xs = [7]" using r(2) by (cases cs'; auto)+
  then show ?thesis using sp_push r by auto
qed

text \<open>What a pop returns is what it took from the top of the stack, although it reads the value
  only after the node is out of the stack.\<close>

theorem split_pop_returns_what_it_took:
  assumes "split_run es s" "split_step s (Sr_returned p r) t"
  shows "r \<noteq> None \<and> last_popped p es = r"
proof -
  obtain xs st cs where inv: "split_inv es xs st cs s" using split_run_inv[OF assms(1)] by blast
  show ?thesis using assms(2)
  proof cases
    case (pop_add e a n)
    then show ?thesis using split_invD(5)[OF inv, of p] by simp
  qed
qed

theorem split_pop_returns_what_it_took_witness:
  "\<exists>es (s :: nat SplitStack) t. split_run es s \<and> split_step s (Sr_returned 0 (Some 7)) t \<and> last_popped 0 es = Some 7"
proof -
  let ?v = "Some (Some (7 :: nat), 0 :: int, 0 :: int, None :: nat option)"
  have i: "2 \<le> INT_MAX" by (simp add: INT_MAX_def)
  note sp_push
  from sr_next[OF this pop_call[of _ 0]]
  have "split_run [Sr_tau, Sr_tau, Sr_pushed 7, Sr_tau] (sp (1, Some 3) ?v (Sr_inc (1, Some 3)))" by simp
  from sr_next[OF this inc_node[of _ 0 1 3]] i
  have "split_run [Sr_tau, Sr_tau, Sr_pushed 7, Sr_tau, Sr_tau] (sp (2, Some 3) ?v (Sr_read 2 3))" by simp
  from sr_next[OF this pop_read[of _ 0 2 3 "\<lparr>sn_data = Some 7, sn_internal = 0, sn_next = (0, None)\<rparr>"]]
  have "split_run [Sr_tau, Sr_tau, Sr_pushed 7, Sr_tau, Sr_tau, Sr_tau] (sp (2, Some 3) ?v (Sr_cas 2 3 (0, None)))" by simp
  from sr_next[OF this pop_cas[of _ 0 2 3 _ "\<lparr>sn_data = Some 7, sn_internal = 0, sn_next = (0, None)\<rparr>" 7]]
  have "split_run [Sr_tau, Sr_tau, Sr_pushed 7, Sr_tau, Sr_tau, Sr_tau, Sr_popped 0 7] (sp (0, None) ?v (Sr_swap 2 3))" by simp
  from sr_next[OF this pop_swap[of _ 0 2 3 "\<lparr>sn_data = Some 7, sn_internal = 0, sn_next = (0, None)\<rparr>"]]
  have r: "split_run [Sr_tau, Sr_tau, Sr_pushed 7, Sr_tau, Sr_tau, Sr_tau, Sr_popped 0 7, Sr_tau]
      (sp (0, None) (Some (None, 0, 0, None)) (Sr_add 2 3 (Some 7)))" by simp
  have "\<exists>t. split_step (sp (0, None) (Some (None, 0, 0, None)) (Sr_add 2 3 (Some 7))) (Sr_returned 0 (Some 7)) t"
    using pop_add[of "sp (0, None) (Some (None, 0, 0, None)) (Sr_add 2 3 (Some 7))" 0 2 3 "Some 7"] by auto
  then show ?thesis using r split_pop_returns_what_it_took[OF r] by blast
qed

lemma empty_pops:
  "int k \<le> INT_MAX \<Longrightarrow> \<exists>es. split_run es ((SplitStack_ctor :: 'a SplitStack)\<lparr>sr_head := (int k, None)\<rparr>)
     \<and> (\<forall>v. Sr_pushed v \<notin> set es)"
proof (induction k)
  case 0
  have "SplitStack_ctor\<lparr>sr_head := (int 0, None)\<rparr> = (SplitStack_ctor :: 'a SplitStack)" by (simp add: SplitStack_ctor_def)
  then show ?case using sr_init by (metis empty_iff list.set(1))
next
  case (Suc k)
  let ?s = "(SplitStack_ctor :: 'a SplitStack)\<lparr>sr_head := (int k, None)\<rparr>"
  obtain es where es: "split_run es ?s" "\<forall>v. Sr_pushed v \<notin> set es" using Suc by auto
  have idle: "sr_pc ?s 0 = Sr_idle" by (simp add: SplitStack_ctor_def)
  note 1 = sr_next[OF es(1) pop_call[of ?s 0, OF idle]]
  have "split_step (sr_goes 0 (Sr_inc (sr_head ?s)) ?s) Sr_empty
      (sr_goes 0 Sr_idle (sr_goes 0 (Sr_inc (sr_head ?s)) ?s\<lparr>sr_head := (int k + 1, None)\<rparr>))"
    by (rule inc_null) (use Suc.prems in simp_all)
  moreover have "sr_goes 0 Sr_idle (sr_goes 0 (Sr_inc (sr_head ?s)) ?s\<lparr>sr_head := (int k + 1, None)\<rparr>)
      = SplitStack_ctor\<lparr>sr_head := (int (Suc k), None)\<rparr>"
    by (simp add: sr_goes_def SplitStack_ctor_def add.commute fun_upd_idem)
  ultimately have "split_run ((es @ [Sr_tau]) @ [Sr_empty]) (SplitStack_ctor\<lparr>sr_head := (int (Suc k), None)\<rparr>)"
    using sr_next[OF 1] by simp
  then show ?case using es(2) by (intro exI[of _ "(es @ [Sr_tau]) @ [Sr_empty]"]) auto
qed

text \<open>A pop of an empty stack counts itself in and never out. After \<open>2 ^ 31 - 1\<close> of them, on a
  stack in which nothing was ever pushed, the next one overflows the external count.\<close>

theorem empty_pops_overflow_the_count:
  "\<exists>es (s :: 'a SplitStack). split_run es s \<and> sr_pc s 0 = Sr_overflow \<and> (\<forall>v. Sr_pushed v \<notin> set es)"
proof -
  let ?s = "(SplitStack_ctor :: 'a SplitStack)\<lparr>sr_head := (INT_MAX, None)\<rparr>"
  have "int (nat INT_MAX) = INT_MAX" by (simp add: INT_MAX_def)
  then obtain es where es: "split_run es ?s" "\<forall>v. Sr_pushed v \<notin> set es"
    using empty_pops[of "nat INT_MAX"] by auto
  have idle: "sr_pc ?s 0 = Sr_idle" by (simp add: SplitStack_ctor_def)
  note 1 = sr_next[OF es(1) pop_call[of ?s 0, OF idle]]
  have "split_step (sr_goes 0 (Sr_inc (sr_head ?s)) ?s) Sr_tau (sr_goes 0 Sr_overflow (sr_goes 0 (Sr_inc (sr_head ?s)) ?s))"
    by (rule inc_overflow[of _ _ INT_MAX None]) simp_all
  from sr_next[OF 1 this] show ?thesis
    using es(2) by (intro exI[of _ "(es @ [Sr_tau]) @ [Sr_tau]"] exI conjI) auto
qed

end
