(* ===== verification/SplitRefRaces.thy ===== *)
theory SplitRefRaces
  imports SplitRefStack MemoryOrders
begin

text \<open>
  The memory orders of \<open>push\<close>, \<open>increase_head_count\<close> and \<open>pop\<close> in
  \<open>lockfree_stack_split_reference_count.h\<close>: the accesses of each step of \<open>split_step\<close> with the
  orders the source gives them, and what that means for the node a failing \<open>pop\<close> deletes.
\<close>

section \<open>The accesses of a step\<close>

datatype split_loc = SL_head | SL_data nat | SL_internal nat | SL_next nat

text \<open>The constructor of a node and \<open>delete\<close> access each of its members.\<close>

definition node_members :: "nat \<Rightarrow> nat \<Rightarrow> split_loc access list" where
  "node_members p a = [Store_acc p (SL_data a) Plain, Store_acc p (SL_internal a) Plain, Store_acc p (SL_next a) Plain]"

text \<open>A thread goes from \<open>c\<close> to \<open>d\<close>; \<open>freed\<close> are the addresses that are free afterwards. A
  \<open>compare_exchange\<close> of \<open>push\<close> that fails loads the head into the \<open>next_\<close> of the new node.\<close>

fun sr_access :: "(nat \<Rightarrow> bool) \<Rightarrow> nat \<Rightarrow> 'a split_pc \<Rightarrow> 'a split_pc \<Rightarrow> split_loc access list" where
  "sr_access freed p Sr_idle (Sr_push_load a) = node_members p a"
| "sr_access freed p (Sr_push_load a) d = [Load_acc p SL_head Relaxed, Store_acc p (SL_next a) Plain]"
| "sr_access freed p (Sr_push_cas a) Sr_idle = [Load_acc p (SL_next a) Plain, Rmw_acc p SL_head Release]"
| "sr_access freed p (Sr_push_cas a) d =
     [Load_acc p (SL_next a) Plain, Load_acc p SL_head Relaxed, Store_acc p (SL_next a) Plain]"
| "sr_access freed p Sr_idle (Sr_inc old) = [Load_acc p SL_head Relaxed]"
| "sr_access freed p (Sr_inc old) Sr_overflow = []"
| "sr_access freed p (Sr_inc old) (Sr_inc old') = [Load_acc p SL_head Relaxed]"
| "sr_access freed p (Sr_inc old) d = [Rmw_acc p SL_head Acquire]"
| "sr_access freed p (Sr_read e a) d = [Load_acc p (SL_next a) Plain]"
| "sr_access freed p (Sr_cas e a nxt) (Sr_swap e' a') = [Rmw_acc p SL_head Relaxed]"
| "sr_access freed p (Sr_cas e a nxt) d = [Load_acc p SL_head Relaxed]"
| "sr_access freed p (Sr_swap e a) d = [Rmw_acc p (SL_data a) Plain]"
| "sr_access freed p (Sr_add e a r) d =
     Rmw_acc p (SL_internal a) Release # (if freed a then node_members p a else [])"
| "sr_access freed p (Sr_drop a old) d =
     Rmw_acc p (SL_internal a) Relaxed # (if freed a then node_members p a else [])"
| "sr_access freed p c d = []"

text \<open>The thread that takes a step: its place changes, or its exchange in \<open>push\<close> fails.\<close>

definition sr_moves :: "nat \<Rightarrow> 'a SplitStack \<Rightarrow> 'a SplitStack \<Rightarrow> bool" where
  "sr_moves p s t \<longleftrightarrow> (\<forall>q. q \<noteq> p \<longrightarrow> sr_pc t q = sr_pc s q)
     \<and> (sr_pc t p = sr_pc s p \<longrightarrow> (\<exists>a n. sr_pc s p = Sr_push_cas a \<and> sr_heap s a = Some n
          \<and> t = put_node a (Some (n\<lparr>sn_next := sr_head s\<rparr>)) s))"

abbreviation sr_step_access :: "nat \<Rightarrow> 'a SplitStack \<Rightarrow> 'a SplitStack \<Rightarrow> split_loc access list" where
  "sr_step_access p s t \<equiv> sr_access (\<lambda>a. sr_heap t a = None) p (sr_pc s p) (sr_pc t p)"

inductive split_traced :: "split_loc access list \<Rightarrow> 'a SplitStack \<Rightarrow> bool" where
  st_init: "split_traced [] SplitStack_ctor"
| st_step: "split_traced tr s \<Longrightarrow> split_step s e t \<Longrightarrow> sr_moves p s t \<Longrightarrow> split_traced (tr @ sr_step_access p s t) t"

lemma sr_step_moves: "split_step s e t \<Longrightarrow> \<exists>p. sr_moves p s t"
  by (induction rule: split_step.induct) (auto simp: sr_moves_def)

lemma split_run_is_traced: "split_run es s \<Longrightarrow> \<exists>tr. split_traced tr s"
proof (induction rule: split_run.induct)
  case (sr_next es s e t)
  then show ?case using sr_step_moves[OF sr_next.hyps(2)] st_step by blast
qed (use st_init in blast)

lemma split_traced_is_run: "split_traced tr s \<Longrightarrow> \<exists>es. split_run es s"
proof (induction rule: split_traced.induct)
  case (st_step tr s e t p)
  then show ?case using sr_next by blast
qed (use sr_init in blast)

section \<open>The swap that no reader has acquired\<close>

text \<open>The data of \<open>a\<close> was swapped out by another thread than \<open>p\<close>, and \<open>p\<close> has acquired nothing since.\<close>

definition swapped_behind :: "nat \<Rightarrow> nat \<Rightarrow> split_loc access list \<Rightarrow> nat \<Rightarrow> bool" where
  "swapped_behind p a tr i \<longleftrightarrow> i < length tr \<and> (\<exists>q. q \<noteq> p \<and> tr ! i = Rmw_acc q (SL_data a) Plain)
     \<and> (\<forall>k. i < k \<and> k < length tr \<and> acc_thread (tr ! k) = p \<longrightarrow> \<not> acquires (tr ! k))"

lemma swapped_append:
  assumes "swapped_behind p a tr i" "\<forall>x \<in> set xs. acc_thread x = p \<longrightarrow> \<not> acquires x"
  shows "swapped_behind p a (tr @ xs) i"
  using assms by (auto simp: swapped_behind_def nth_append)

lemma swapped_now: "q \<noteq> p \<Longrightarrow> swapped_behind p a (tr @ [Rmw_acc q (SL_data a) Plain]) (length tr)"
  by (auto simp: swapped_behind_def nth_append)

lemma access_thread: "x \<in> set (sr_access freed p c d) \<Longrightarrow> acc_thread x = p"
  by (induction freed p c d rule: sr_access.induct) (auto simp: node_members_def split: if_splits)

lemma access_acquires:
  "x \<in> set (sr_access freed p c d) \<Longrightarrow> acquires x \<Longrightarrow> \<exists>old. c = Sr_inc old"
  by (induction freed p c d rule: sr_access.induct) (auto simp: node_members_def acquires_def split: if_splits)

text \<open>A thread becomes a reader of a node only through the head, where no node has lost its data.\<close>

lemma step_readers:
  assumes "split_step s ev t" "sr_moves p s t" "split_inv es xs st cs s"
    and "sr_heap t a = Some n" "sn_data n = None" "sr_holds (sr_pc t q) = Some a"
  shows "(\<exists>e. sr_pc s p = Sr_swap e a) \<and> q \<noteq> p
    \<or> (\<exists>n. sr_heap s a = Some n \<and> sn_data n = None) \<and> sr_holds (sr_pc s q) = Some a"
  using assms(1)
proof cases
  case (inc_node r e b)
  obtain m v where "sr_heap s b = Some m" "sn_data m = Some v"
    using head_node[OF assms(3) inc_node(4)] by metis
  then show ?thesis using inc_node assms(4-6) by (auto split: if_splits)
next
  case (pop_swap r e b m)
  then show ?thesis using assms(2,4-6) by (auto simp: sr_moves_def split: if_splits)
qed (use assms(2,4-6) in \<open>auto split: if_splits\<close>)

lemma readers_behind_a_swap:
  assumes "split_traced tr s" "sr_heap s a = Some n" "sn_data n = None" "sr_holds (sr_pc s q) = Some a"
  shows "\<exists>i. swapped_behind q a tr i"
  using assms
proof (induction arbitrary: n rule: split_traced.induct)
  case st_init
  then show ?case by (simp add: SplitStack_ctor_def)
next
  case (st_step tr s e t p)
  obtain es where "split_run es s" using split_traced_is_run[OF st_step.hyps(1)] by blast
  then obtain xs st cs where inv: "split_inv es xs st cs s" using split_run_inv by blast
  from step_readers[OF st_step.hyps(2,3) inv st_step.prems] show ?case
  proof (elim disjE conjE exE)
    fix e' assume "sr_pc s p = Sr_swap e' a" "q \<noteq> p"
    then show ?thesis using swapped_now[of p q a tr] by auto
  next
    fix m assume m: "sr_holds (sr_pc s q) = Some a" "sr_heap s a = Some m" "sn_data m = None"
    have "\<not> acquires x" if "x \<in> set (sr_step_access p s t)" "acc_thread x = q" for x
      using access_thread[OF that(1)] access_acquires[OF that(1)] that(2) m(1) by auto
    then show ?thesis using st_step.IH[OF m(2,3,1)] swapped_append by blast
  qed
qed

section \<open>Properties\<close>

text \<open>C25: A pop that fails and drops the last reference deletes the node with a data race. Whenever a thread
  is about to execute the \<open>fetch_sub\<close> that finds 1 and the \<open>delete\<close> behind it, another thread has
  swapped the data out of the node earlier in the run, and the destructor's access to the data and this
  swap are a data race, in every interleaving: the \<open>fetch_add\<close> behind the swap is a release, but the
  \<open>fetch_sub\<close> is \<open>relaxed\<close> and the deleting thread has acquired nothing since it counted itself in.
  So what the interleavings show of the reclamation (\<open>split_stack_is_a_safe_stack\<close>) the source does
  not guarantee. (The threads have no other synchronisation after their start.)\<close>

theorem failing_pop_deletes_with_a_race:
  assumes "split_traced tr s" "sr_pc s p = Sr_drop a old" "sr_heap s a = Some n" "sn_internal n = 1"
  shows "\<exists>i t. split_step s Sr_tau t \<and> sr_heap t a = None
    \<and> split_traced (tr @ Rmw_acc p (SL_internal a) Relaxed # node_members p a) t
    \<and> swapped_behind p a tr i
    \<and> data_race (tr @ Rmw_acc p (SL_internal a) Relaxed # node_members p a) i (Suc (length tr))"
proof -
  let ?xs = "Rmw_acc p (SL_internal a) Relaxed # node_members p a"
  obtain es where "split_run es s" using split_traced_is_run[OF assms(1)] by blast
  then obtain xs st cs where inv: "split_inv es xs st cs s" using split_run_inv by blast
  have "0 < sr_refs (sr_pc s) a" by (rule refs_pos[OF split_invD(1)[OF inv], of p]) (simp add: assms(2))
  then have "sn_data n = None" using split_invD(6)[OF inv, of a] assms(3,4) by (cases "st a") auto
  then obtain i where i: "swapped_behind p a tr i"
    using readers_behind_a_swap[OF assms(1,3), of p] assms(2) by auto
  define t where "t = sr_goes p (Sr_inc old) (put_node a None s)"
  have step: "split_step s Sr_tau t" using pop_drop[OF assms(2,3)] assms(4) by (simp add: t_def)
  have "sr_moves p s t" using assms(2) by (simp add: sr_moves_def t_def)
  from st_step[OF assms(1) step this] have tr: "split_traced (tr @ ?xs) t" using assms(2) by (simp add: t_def)
  have "swapped_behind p a (tr @ ?xs) i"
    by (rule swapped_append[OF i]) (auto simp: acquires_def node_members_def)
  then have "data_race (tr @ ?xs) i (Suc (length tr))"
    using i by (intro race_without_acquire)
      (auto simp: swapped_behind_def conflicting_def node_members_def nth_append)
  moreover have "sr_heap t a = None" by (simp add: t_def)
  ultimately show ?thesis using i step tr by blast
qed

text \<open>Two threads: thread 0 pushes 7, both count themselves in, thread 2 takes the node.\<close>

definition sp2 :: "counted_node_ptr \<Rightarrow> (nat option \<times> int \<times> counted_node_ptr) option \<Rightarrow> nat split_pc \<Rightarrow> nat split_pc \<Rightarrow> nat SplitStack" where
  "sp2 h n c d = \<lparr>sr_head = h, sr_heap = (\<lambda>_. None)(3 := map_option (\<lambda>(d, i, x). \<lparr>sn_data = d, sn_internal = i, sn_next = x\<rparr>) n),
     sr_pc = (\<lambda>_. Sr_idle)(0 := c, 2 := d)\<rparr>"

lemma sp2_simps [simp]:
  "sr_head (sp2 h n c d) = h" "sr_heap (sp2 h n c d) 3 = map_option (\<lambda>(d, i, x). \<lparr>sn_data = d, sn_internal = i, sn_next = x\<rparr>) n"
  "sr_pc (sp2 h n c d) 0 = c" "sr_pc (sp2 h n c d) 2 = d" "sp2 h n c d\<lparr>sr_head := h'\<rparr> = sp2 h' n c d"
  "sr_goes 0 c' (sp2 h n c d) = sp2 h n c' d" "sr_goes 2 d' (sp2 h n c d) = sp2 h n c d'"
  "put_node 3 None (sp2 h n c d) = sp2 h None c d"
  "put_node 3 (Some \<lparr>sn_data = v, sn_internal = i, sn_next = x\<rparr>) (sp2 h n c d) = sp2 h (Some (v, i, x)) c d"
  by (auto simp: sp2_def sr_goes_def put_node_def fun_eq_iff)

lemma sp2_moves:
  "c' \<noteq> c \<Longrightarrow> sr_moves 0 (sp2 h n c d) (sp2 h' n' c' d)" "d' \<noteq> d \<Longrightarrow> sr_moves 2 (sp2 h n c d) (sp2 h' n' c d')"
  by (auto simp: sr_moves_def sp2_def)

definition dropped :: "split_loc access list" where
  "dropped = node_members 0 3 @ [Load_acc 0 SL_head Relaxed, Store_acc 0 (SL_next 3) Plain,
     Load_acc 0 (SL_next 3) Plain, Rmw_acc 0 SL_head Release,
     Load_acc 0 SL_head Relaxed, Rmw_acc 0 SL_head Acquire, Load_acc 2 SL_head Relaxed, Rmw_acc 2 SL_head Acquire,
     Load_acc 2 (SL_next 3) Plain, Rmw_acc 2 SL_head Relaxed, Rmw_acc 2 (SL_data 3) Plain, Rmw_acc 2 (SL_internal 3) Release,
     Load_acc 0 (SL_next 3) Plain, Load_acc 0 SL_head Relaxed]"

lemma traced_sp2: "split_traced dropped (sp2 (0, None) (Some (None, 1, 0, None)) (Sr_drop 3 (0, None)) Sr_idle)"
proof -
  let ?v = "Some (Some (7 :: nat), 0 :: int, 0 :: int, None :: nat option)"
  let ?n = "\<lparr>sn_data = Some 7, sn_internal = 0, sn_next = (0, None)\<rparr> :: nat StackNode"
  have i: "3 \<le> INT_MAX" by (simp add: INT_MAX_def)
  note d = dropped_def node_members_def sp2_moves
  have "(SplitStack_ctor :: nat SplitStack) = sp2 (0, None) None Sr_idle Sr_idle"
    by (simp add: SplitStack_ctor_def sp2_def fun_eq_iff)
  then have "split_traced (take 0 dropped) (sp2 (0, None) None Sr_idle Sr_idle)" using st_init[where 'a = nat] by simp
  from st_step[OF this push_new[of _ 0 3 7], of 0]
  have "split_traced (take 3 dropped) (sp2 (0, None) ?v (Sr_push_load 3) Sr_idle)" by (simp add: d)
  from st_step[OF this push_load[of _ 0 3 ?n], of 0]
  have "split_traced (take 5 dropped) (sp2 (0, None) ?v (Sr_push_cas 3) Sr_idle)" by (simp add: d)
  from st_step[OF this push_cas[of _ 0 3 ?n 7], of 0]
  have "split_traced (take 7 dropped) (sp2 (1, Some 3) ?v Sr_idle Sr_idle)" by (simp add: d)
  from st_step[OF this pop_call[of _ 0], of 0]
  have "split_traced (take 8 dropped) (sp2 (1, Some 3) ?v (Sr_inc (1, Some 3)) Sr_idle)" by (simp add: d)
  from st_step[OF this inc_node[of _ 0 1 3], of 0] i
  have "split_traced (take 9 dropped) (sp2 (2, Some 3) ?v (Sr_read 2 3) Sr_idle)" by (simp add: d)
  from st_step[OF this pop_call[of _ 2], of 2]
  have "split_traced (take 10 dropped) (sp2 (2, Some 3) ?v (Sr_read 2 3) (Sr_inc (2, Some 3)))" by (simp add: d)
  from st_step[OF this inc_node[of _ 2 2 3], of 2] i
  have "split_traced (take 11 dropped) (sp2 (3, Some 3) ?v (Sr_read 2 3) (Sr_read 3 3))" by (simp add: d)
  from st_step[OF this pop_read[of _ 2 3 3 ?n], of 2]
  have "split_traced (take 12 dropped) (sp2 (3, Some 3) ?v (Sr_read 2 3) (Sr_cas 3 3 (0, None)))" by (simp add: d)
  from st_step[OF this pop_cas[of _ 2 3 3 "(0, None)" ?n 7], of 2]
  have "split_traced (take 13 dropped) (sp2 (0, None) ?v (Sr_read 2 3) (Sr_swap 3 3))" by (simp add: d)
  from st_step[OF this pop_swap[of _ 2 3 3 ?n], of 2]
  have "split_traced (take 14 dropped) (sp2 (0, None) (Some (None, 0, 0, None)) (Sr_read 2 3) (Sr_add 3 3 (Some 7)))" by (simp add: d)
  from st_step[OF this pop_add[of _ 2 3 3 "Some 7" "?n\<lparr>sn_data := None\<rparr>"], of 2]
  have "split_traced (take 15 dropped) (sp2 (0, None) (Some (None, 1, 0, None)) (Sr_read 2 3) Sr_idle)" by (simp add: d)
  from st_step[OF this pop_read[of _ 0 2 3 "?n\<lparr>sn_data := None, sn_internal := 1\<rparr>"], of 0]
  have "split_traced (take 16 dropped) (sp2 (0, None) (Some (None, 1, 0, None)) (Sr_cas 2 3 (0, None)) Sr_idle)" by (simp add: d)
  from st_step[OF this pop_fail[of _ 0 2 3 "(0, None)"], of 0] show ?thesis by (simp add: d)
qed

theorem failing_pop_deletes_with_a_race_witness:
  "\<exists>t :: nat SplitStack. split_traced (dropped @ Rmw_acc 0 (SL_internal 3) Relaxed # node_members 0 3) t \<and> sr_heap t 3 = None
     \<and> data_race (dropped @ Rmw_acc 0 (SL_internal 3) Relaxed # node_members 0 3) 13 18"
proof -
  have l: "length dropped = 17" by (simp add: dropped_def node_members_def)
  obtain i and t :: "nat SplitStack" where t: "split_traced (dropped @ Rmw_acc 0 (SL_internal 3) Relaxed # node_members 0 3) t"
    "sr_heap t 3 = None" and i: "swapped_behind 0 3 dropped i"
    and race: "data_race (dropped @ Rmw_acc 0 (SL_internal 3) Relaxed # node_members 0 3) i 18"
    using failing_pop_deletes_with_a_race[OF traced_sp2, of 0 3 "(0, None)"] by (auto simp: l)
  have "i < 17" using i by (simp add: swapped_behind_def l)
  then have "i \<in> set [0, 1, 2, 3, 4, 5, 6, 7, 8, 9, 10, 11, 12, 13, 14, 15, 16]" by simp presburger
  then have "i = 13" using i by (auto simp: swapped_behind_def dropped_def node_members_def)
  then show ?thesis using t race by auto
qed

end
