(* ===== verification/SpscCv.thy ===== *)
theory SpscCv
  imports Prelude
begin

text \<open>
  \<open>SPSC/SPSC.h\<close>: \<open>produce_cv\<close> and \<open>consume_cv\<close>, a producer and a consumer that hand over the
  numbers below \<open>size\<close> one at a time with a mutex and two condition variables. A thread that
  waits evaluates its predicate under the mutex, then releases the mutex and goes to sleep in
  one atomic step; a notification wakes a thread that is asleep and is lost otherwise. The
  producer sets \<open>producedAll\<close> under another mutex than the one of the predicate that reads
  it. \<open>spurious\<close> says whether threads may also wake without a notification.
\<close>

datatype thread = Producer | Consumer

datatype p_pc = P_loop | P_check | P_about | P_asleep | P_woken | P_pushed | P_notify | P_last | P_done

datatype c_pc = C_loop | C_check | C_about | C_asleep | C_woken | C_go | C_popped | C_notify | C_done

record SPSC =
  sp_q :: "int list"
  sp_size :: int
  producedAll :: bool
  sp_mtx :: "thread option"
  sp_idx :: int
  sp_p :: p_pc
  sp_c :: c_pc
  sp_vals :: "int list"

definition SPSC_ctor :: "int \<Rightarrow> SPSC" where
  "SPSC_ctor n = \<lparr>sp_q = [], sp_size = n, producedAll = False, sp_mtx = None, sp_idx = 0,
     sp_p = P_loop, sp_c = C_loop, sp_vals = []\<rparr>"

definition notify_consumer :: "SPSC \<Rightarrow> SPSC" where
  "notify_consumer s = (if sp_c s = C_asleep then s\<lparr>sp_c := C_woken\<rparr> else s)"

definition notify_producer :: "SPSC \<Rightarrow> SPSC" where
  "notify_producer s = (if sp_p s = P_asleep then s\<lparr>sp_p := P_woken\<rparr> else s)"

inductive produce_cv :: "SPSC \<Rightarrow> SPSC \<Rightarrow> bool" where
  p_lock: "sp_p s = P_loop \<and> sp_idx s < sp_size s \<or> sp_p s = P_woken \<Longrightarrow> sp_mtx s = None \<Longrightarrow>
    produce_cv s (s\<lparr>sp_mtx := Some Producer, sp_p := P_check\<rparr>)"
| p_wait: "sp_p s = P_check \<Longrightarrow> sp_q s \<noteq> [] \<Longrightarrow> produce_cv s (s\<lparr>sp_p := P_about\<rparr>)"
| p_sleep: "sp_p s = P_about \<Longrightarrow> produce_cv s (s\<lparr>sp_mtx := None, sp_p := P_asleep\<rparr>)"
| p_push: "sp_p s = P_check \<Longrightarrow> sp_q s = [] \<Longrightarrow> produce_cv s (s\<lparr>sp_q := sp_q s @ [sp_idx s], sp_p := P_pushed\<rparr>)"
| p_unlock: "sp_p s = P_pushed \<Longrightarrow> produce_cv s (s\<lparr>sp_mtx := None, sp_p := P_notify\<rparr>)"
| p_notify: "sp_p s = P_notify \<Longrightarrow>
    produce_cv s (notify_consumer s\<lparr>sp_idx := sp_idx s + 1, sp_p := P_loop\<rparr>)"
| p_set: "sp_p s = P_loop \<Longrightarrow> \<not> sp_idx s < sp_size s \<Longrightarrow>
    produce_cv s (s\<lparr>producedAll := True, sp_p := P_last\<rparr>)"
| p_last: "sp_p s = P_last \<Longrightarrow> produce_cv s (notify_consumer s\<lparr>sp_p := P_done\<rparr>)"

inductive consume_cv :: "SPSC \<Rightarrow> SPSC \<Rightarrow> bool" where
  c_lock: "sp_c s = C_loop \<or> sp_c s = C_woken \<Longrightarrow> sp_mtx s = None \<Longrightarrow>
    consume_cv s (s\<lparr>sp_mtx := Some Consumer, sp_c := C_check\<rparr>)"
| c_wait: "sp_c s = C_check \<Longrightarrow> \<not> (sp_q s \<noteq> [] \<or> producedAll s) \<Longrightarrow> consume_cv s (s\<lparr>sp_c := C_about\<rparr>)"
| c_sleep: "sp_c s = C_about \<Longrightarrow> consume_cv s (s\<lparr>sp_mtx := None, sp_c := C_asleep\<rparr>)"
| c_ready: "sp_c s = C_check \<Longrightarrow> sp_q s \<noteq> [] \<or> producedAll s \<Longrightarrow> consume_cv s (s\<lparr>sp_c := C_go\<rparr>)"
| c_pop: "sp_c s = C_go \<Longrightarrow> sp_q s = v # q \<Longrightarrow>
    consume_cv s (s\<lparr>sp_q := q, sp_vals := sp_vals s @ [v], sp_c := C_popped\<rparr>)"
| c_break: "sp_c s = C_go \<Longrightarrow> sp_q s = [] \<Longrightarrow> producedAll s \<Longrightarrow>
    consume_cv s (s\<lparr>sp_mtx := None, sp_c := C_done\<rparr>)"
| c_again: "sp_c s = C_go \<Longrightarrow> sp_q s = [] \<Longrightarrow> \<not> producedAll s \<Longrightarrow>
    consume_cv s (s\<lparr>sp_mtx := None, sp_c := C_loop\<rparr>)"
| c_unlock: "sp_c s = C_popped \<Longrightarrow> consume_cv s (s\<lparr>sp_mtx := None, sp_c := C_notify\<rparr>)"
| c_notify: "sp_c s = C_notify \<Longrightarrow> consume_cv s (notify_producer s\<lparr>sp_c := C_loop\<rparr>)"

inductive_cases produce_cvE: "produce_cv s t"
inductive_cases consume_cvE: "consume_cv s t"

inductive spsc_step :: "bool \<Rightarrow> SPSC \<Rightarrow> SPSC \<Rightarrow> bool" for spurious :: bool where
  "produce_cv s t \<Longrightarrow> spsc_step spurious s t"
| "consume_cv s t \<Longrightarrow> spsc_step spurious s t"
| "spurious \<Longrightarrow> sp_p s = P_asleep \<Longrightarrow> spsc_step spurious s (s\<lparr>sp_p := P_woken\<rparr>)"
| "spurious \<Longrightarrow> sp_c s = C_asleep \<Longrightarrow> spsc_step spurious s (s\<lparr>sp_c := C_woken\<rparr>)"

inductive_cases spsc_stepE: "spsc_step spurious s t"

inductive spsc_reach :: "bool \<Rightarrow> int \<Rightarrow> SPSC \<Rightarrow> bool" for spurious :: bool and n :: int where
  spsc_init: "spsc_reach spurious n (SPSC_ctor n)"
| spsc_next: "spsc_reach spurious n s \<Longrightarrow> spsc_step spurious s t \<Longrightarrow> spsc_reach spurious n t"

section \<open>What is handed over\<close>

text \<open>Whether a thread holds the mutex, whether the producer is inside its loop, how many numbers
  it has pushed, and whether it has left the loop.\<close>

fun p_holds :: "p_pc \<Rightarrow> bool" where
  "p_holds P_check = True" | "p_holds P_about = True" | "p_holds P_pushed = True" | "p_holds _ = False"

fun c_holds :: "c_pc \<Rightarrow> bool" where
  "c_holds C_check = True" | "c_holds C_about = True" | "c_holds C_go = True" | "c_holds C_popped = True"
| "c_holds _ = False"

fun p_inside :: "p_pc \<Rightarrow> bool" where
  "p_inside P_loop = False" | "p_inside P_last = False" | "p_inside P_done = False" | "p_inside _ = True"

fun p_ahead :: "p_pc \<Rightarrow> bool" where
  "p_ahead P_pushed = True" | "p_ahead P_notify = True" | "p_ahead _ = False"

fun p_over :: "p_pc \<Rightarrow> bool" where
  "p_over P_last = True" | "p_over P_done = True" | "p_over _ = False"

definition pushed_below :: "SPSC \<Rightarrow> int" where
  "pushed_below s = sp_idx s + (if p_ahead (sp_p s) then 1 else 0)"

definition lock_inv :: "SPSC \<Rightarrow> bool" where
  "lock_inv s \<longleftrightarrow> (p_holds (sp_p s) \<longleftrightarrow> sp_mtx s = Some Producer) \<and> (c_holds (sp_c s) \<longleftrightarrow> sp_mtx s = Some Consumer)"

definition flow_inv :: "int \<Rightarrow> SPSC \<Rightarrow> bool" where
  "flow_inv n s \<longleftrightarrow> sp_size s = n \<and> 0 \<le> sp_idx s \<and> sp_idx s \<le> max 0 n
     \<and> (p_inside (sp_p s) \<longrightarrow> sp_idx s < n)
     \<and> (producedAll s \<longleftrightarrow> p_over (sp_p s)) \<and> (producedAll s \<longrightarrow> sp_idx s = max 0 n)"

definition data_inv :: "SPSC \<Rightarrow> bool" where
  "data_inv s \<longleftrightarrow> length (sp_q s) \<le> 1 \<and> sp_vals s @ sp_q s = [0..pushed_below s - 1]
     \<and> (sp_c s = C_go \<longrightarrow> sp_q s \<noteq> [] \<or> producedAll s)
     \<and> (sp_c s = C_done \<longrightarrow> sp_q s = [] \<and> producedAll s)"

lemmas spsc_inv_defs = lock_inv_def flow_inv_def data_inv_def pushed_below_def

lemma notify_consumer_simps [simp]:
  "sp_q (notify_consumer s) = sp_q s" "sp_size (notify_consumer s) = sp_size s"
  "producedAll (notify_consumer s) = producedAll s" "sp_mtx (notify_consumer s) = sp_mtx s"
  "sp_idx (notify_consumer s) = sp_idx s" "sp_p (notify_consumer s) = sp_p s"
  "sp_vals (notify_consumer s) = sp_vals s" "c_holds (sp_c (notify_consumer s)) = c_holds (sp_c s)"
  "sp_c (notify_consumer s) = C_go \<longleftrightarrow> sp_c s = C_go" "sp_c (notify_consumer s) = C_done \<longleftrightarrow> sp_c s = C_done"
  by (simp_all add: notify_consumer_def)

lemma notify_producer_simps [simp]:
  "sp_q (notify_producer s) = sp_q s" "sp_size (notify_producer s) = sp_size s"
  "producedAll (notify_producer s) = producedAll s" "sp_mtx (notify_producer s) = sp_mtx s"
  "sp_idx (notify_producer s) = sp_idx s" "sp_c (notify_producer s) = sp_c s"
  "sp_vals (notify_producer s) = sp_vals s" "p_holds (sp_p (notify_producer s)) = p_holds (sp_p s)"
  "p_inside (sp_p (notify_producer s)) = p_inside (sp_p s)" "p_ahead (sp_p (notify_producer s)) = p_ahead (sp_p s)"
  "p_over (sp_p (notify_producer s)) = p_over (sp_p s)"
  by (simp_all add: notify_producer_def)

lemma upto_snoc: "0 \<le> i \<Longrightarrow> [0..i] = [0..i - 1] @ [i :: int]"
  by (simp add: upto_rec2)

lemma lock_inv_step: "spsc_step spurious s t \<Longrightarrow> lock_inv s \<Longrightarrow> lock_inv t"
  by (erule spsc_stepE; (erule produce_cvE consume_cvE)?) (simp_all add: lock_inv_def)

lemma flow_inv_step: "spsc_step spurious s t \<Longrightarrow> flow_inv n s \<Longrightarrow> flow_inv n t"
  by (erule spsc_stepE; (erule produce_cvE consume_cvE)?) (auto simp add: flow_inv_def)

lemma data_inv_produce: "produce_cv s t \<Longrightarrow> lock_inv s \<Longrightarrow> flow_inv n s \<Longrightarrow> data_inv s \<Longrightarrow> data_inv t"
  by (erule produce_cvE) (simp_all add: spsc_inv_defs upto_snoc, auto)

lemma data_inv_consume: "consume_cv s t \<Longrightarrow> data_inv s \<Longrightarrow> data_inv t"
  by (erule consume_cvE) (simp_all add: data_inv_def pushed_below_def)

lemma spsc_inv_reach: "spsc_reach spurious n s \<Longrightarrow> lock_inv s \<and> flow_inv n s \<and> data_inv s"
proof (induction rule: spsc_reach.induct)
  case spsc_init
  then show ?case by (simp add: spsc_inv_defs SPSC_ctor_def)
next
  case (spsc_next s t)
  then have inv: "lock_inv s" "flow_inv n s" "data_inv s" by simp_all
  have "data_inv t"
    using spsc_next.hyps(2) data_inv_produce[OF _ inv] data_inv_consume[OF _ inv(3)] inv(3)
    by (cases rule: spsc_step.cases) (auto simp: data_inv_def pushed_below_def)
  then show ?case using lock_inv_step[OF spsc_next.hyps(2) inv(1)] flow_inv_step[OF spsc_next.hyps(2) inv(2)] by simp
qed

section \<open>One round, and the end\<close>

text \<open>Both threads are at the head of their loops and \<open>k\<close> numbers have been handed over.\<close>

definition between :: "int \<Rightarrow> int \<Rightarrow> SPSC" where
  "between n k = (SPSC_ctor n)\<lparr>sp_idx := k, sp_vals := [0..k - 1]\<rparr>"

inductive spsc_steps :: "bool \<Rightarrow> SPSC \<Rightarrow> SPSC \<Rightarrow> bool" for spurious :: bool where
  "spsc_steps spurious s s"
| "spsc_step spurious s t \<Longrightarrow> spsc_steps spurious t u \<Longrightarrow> spsc_steps spurious s u"

lemma reach_steps: "spsc_steps b s t \<Longrightarrow> spsc_reach b n s \<Longrightarrow> spsc_reach b n t"
  by (induction rule: spsc_steps.induct) (auto intro: spsc_next)

lemma step_p: "produce_cv s t \<Longrightarrow> spsc_steps b t u \<Longrightarrow> spsc_steps b s u"
  by (meson spsc_step.intros(1) spsc_steps.intros(2))

lemma step_c: "consume_cv s t \<Longrightarrow> spsc_steps b t u \<Longrightarrow> spsc_steps b s u"
  by (meson spsc_step.intros(2) spsc_steps.intros(2))

lemma one_round: "0 \<le> k \<Longrightarrow> k < n \<Longrightarrow> spsc_steps b (between n k) (between n (k + 1))"
  apply (rule step_p[OF p_lock]; simp add: between_def SPSC_ctor_def)
  apply (rule step_p[OF p_push]; simp)
  apply (rule step_p[OF p_unlock]; simp)
  apply (rule step_p[OF p_notify]; simp add: notify_consumer_def)
  apply (rule step_c[OF c_lock]; simp)
  apply (rule step_c[OF c_ready]; simp)
  apply (rule step_c[OF c_pop]; simp)
  apply (rule step_c[OF c_unlock]; simp)
  apply (rule step_c[OF c_notify]; simp add: notify_producer_def)
  apply (simp add: upto_snoc[of k] spsc_steps.intros(1))
  done

lemma spsc_steps_trans: "spsc_steps b s t \<Longrightarrow> spsc_steps b t u \<Longrightarrow> spsc_steps b s u"
  by (induction rule: spsc_steps.induct) (auto intro: spsc_steps.intros)

lemma rounds: "int k \<le> max 0 n \<Longrightarrow> spsc_reach b n (between n (int k))"
proof (induction k)
  case 0
  have "between n 0 = SPSC_ctor n" by (simp add: between_def SPSC_ctor_def)
  then show ?case by (simp add: spsc_init)
next
  case (Suc k)
  then show ?case using reach_steps[OF one_round[of "int k" n b]] by (simp add: add.commute)
qed

lemma all_rounds: "spsc_reach b n (between n (max 0 n))"
  using rounds[of "nat n" n b] by (cases "0 \<le> n") (simp_all add: max_def)

section \<open>Properties\<close>

text \<open>The consumer that waits on a condition variable gets everything: in every interleaving,
  with and without spurious wake-ups, what it has taken followed by what is in the queue are
  the numbers from 0 on in order, at most one of them in the queue, and when its loop ends it
  has all \<open>n\<close> of them.\<close>

theorem spsc_cv_hands_over_everything:
  assumes "spsc_reach spurious n s"
  shows "sp_vals s @ sp_q s = [0..pushed_below s - 1] \<and> length (sp_q s) \<le> 1
    \<and> (sp_c s = C_done \<longrightarrow> sp_vals s = [0..n - 1])"
proof -
  have inv: "flow_inv n s" "data_inv s" using spsc_inv_reach[OF assms] by simp_all
  have "sp_vals s = [0..n - 1]" if "sp_c s = C_done"
  proof -
    have "sp_q s = []" "p_over (sp_p s)" "sp_idx s = max 0 n"
      using inv that by (simp_all add: data_inv_def flow_inv_def)
    then show ?thesis using inv(2) by (cases "sp_p s") (auto simp: data_inv_def pushed_below_def max_def)
  qed
  then show ?thesis using inv(2) by (simp add: data_inv_def)
qed

theorem spsc_cv_hands_over_everything_witness:
  "\<exists>s. spsc_reach False 2 s \<and> sp_c s = C_done \<and> sp_vals s = [0, 1]"
proof -
  let ?s = "between 2 2\<lparr>producedAll := True, sp_mtx := None, sp_p := P_done, sp_c := C_done\<rparr>"
  have "spsc_steps False (between 2 2) ?s"
    apply (rule step_p[OF p_set]; simp add: between_def SPSC_ctor_def)
    apply (rule step_p[OF p_last]; simp add: notify_consumer_def)
    apply (rule step_c[OF c_lock]; simp)
    apply (rule step_c[OF c_ready]; simp)
    apply (rule step_c[OF c_break]; simp)
    apply (rule spsc_steps.intros(1))
    done
  then have r: "spsc_reach False 2 ?s" using reach_steps all_rounds[of False 2] by simp
  then show ?thesis
    using spsc_cv_hands_over_everything[OF r] by (intro exI[of _ ?s]) (simp add: upto.simps)
qed

text \<open>The consumer can sleep for ever. For every number of elements, zero included, there is a
  run without spurious wake-ups in which the consumer finds the queue empty and
  \<open>producedAll\<close> not set, the producer then sets it, which does not need the consumer's
  mutex, and notifies nobody, and the consumer goes to sleep: the producer has ended and no
  step is left.\<close>

theorem spsc_cv_consumer_can_sleep_forever:
  "\<exists>s. spsc_reach False n s \<and> sp_p s = P_done \<and> sp_c s = C_asleep \<and> (\<forall>t. \<not> spsc_step False s t)"
proof -
  let ?k = "max 0 n"
  let ?s = "between n ?k\<lparr>producedAll := True, sp_mtx := None, sp_p := P_done, sp_c := C_asleep\<rparr>"
  have "spsc_steps False (between n ?k) ?s"
    apply (rule step_c[OF c_lock]; simp add: between_def SPSC_ctor_def)
    apply (rule step_c[OF c_wait]; simp)
    apply (rule step_p[OF p_set]; simp)
    apply (rule step_p[OF p_last]; simp add: notify_consumer_def)
    apply (rule step_c[OF c_sleep]; simp)
    apply (rule spsc_steps.intros(1))
    done
  then have "spsc_reach False n ?s" using reach_steps all_rounds by blast
  moreover have "\<not> spsc_step False ?s t" for t
    by (auto elim!: spsc_stepE produce_cvE consume_cvE)
  ultimately show ?thesis by (intro exI[of _ ?s]) simp
qed

end
