(* ===== verification/SpscLocks.thy ===== *)
theory SpscLocks
  imports Prelude "HOL-Library.Word"
begin

text \<open>
  \<open>SPSC/SPSC.h\<close>, the variants that poll: a producer and a consumer that hand over the numbers below
  \<open>size\<close> under a lock. The locks are \<open>SpinLock\<close> (\<open>produce_sp\<close>), a compare-and-exchange on \<open>spin2\<close>
  (\<open>produce_sp2\<close>), \<open>MySpin\<close> (\<open>produce_my_sp\<close>) and a \<open>std::mutex\<close> (\<open>produce_mtx\<close>). A lock is a step
  relation on its memory and the control state of one thread; the programs are parameterised by it.
  \<open>lk_step\<close> of a thread that holds the lock is \<open>unlock\<close>. Sleeping is no step of its own.
\<close>

section \<open>The locks\<close>

text \<open>\<open>SpinLock\<close>: \<open>i\<close> is the counter of the \<open>for\<close> loop; \<open>Sp_body\<close> is its body with the \<open>++i\<close> after it.\<close>

datatype spin_pc = Sp_out | Sp_load nat | Sp_swap nat | Sp_body nat | Sp_held

inductive SpinLock_step :: "32 word \<times> spin_pc \<Rightarrow> 32 word \<times> spin_pc \<Rightarrow> bool" where
  "SpinLock_step (f, Sp_out) (f, Sp_load 0)"
| "f \<noteq> 0 \<Longrightarrow> SpinLock_step (f, Sp_load i) (f, Sp_body i)"
| "SpinLock_step (0, Sp_load i) (0, Sp_swap i)"
| "f \<noteq> 0 \<Longrightarrow> SpinLock_step (f, Sp_swap i) (1, Sp_body i)"
| "SpinLock_step (0, Sp_swap i) (1, Sp_held)"
| "SpinLock_step (f, Sp_body i) (f, Sp_load ((if i = 8 then 0 else i) + 1))"
| "SpinLock_step (f, Sp_held) (0, Sp_out)"

text \<open>\<open>MySpin\<close>, and the same loop in \<open>produce_sp2\<close>: the exchange may fail although the lock is free.\<close>

datatype my_pc = My_out | My_try | My_held

inductive MySpin_step :: "32 word \<times> my_pc \<Rightarrow> 32 word \<times> my_pc \<Rightarrow> bool" where
  "MySpin_step (f, My_out) (f, My_try)"
| "MySpin_step (f, My_try) (f, My_try)"
| "MySpin_step (0, My_try) (1, My_held)"
| "MySpin_step (f, My_held) (0, My_out)"

text \<open>\<open>std::mutex\<close>: the memory and the control state say whether it is taken.\<close>

inductive mutex_step :: "bool \<times> bool \<Rightarrow> bool \<times> bool \<Rightarrow> bool" where
  "mutex_step (False, False) (True, True)"
| "mutex_step (m, True) (False, False)"

section \<open>The programs\<close>

datatype poll_pc = Po_test | Po_lock | Po_unlock | Po_break | Po_end

record ('l, 'k) poll =
  po_lock :: 'l
  po_q :: "int list"
  po_size :: int
  po_idx :: int
  po_pushed :: bool
  po_pk :: 'k
  po_count :: int
  po_vals :: "int list"
  po_ck :: 'k
  po_pc :: poll_pc

definition poll_start :: "'l \<Rightarrow> 'k \<Rightarrow> poll_pc \<Rightarrow> int \<Rightarrow> ('l, 'k) poll" where
  "poll_start l k c n = \<lparr>po_lock = l, po_q = [], po_size = n, po_idx = 0, po_pushed = False, po_pk = k,
     po_count = 0, po_vals = [], po_ck = k, po_pc = c\<rparr>"

inductive produce_locked :: "('l \<times> 'k \<Rightarrow> 'l \<times> 'k \<Rightarrow> bool) \<Rightarrow> ('k \<Rightarrow> bool) \<Rightarrow> ('l, 'k) poll \<Rightarrow> ('l, 'k) poll \<Rightarrow> bool"
    for L held where
  pl_lock: "po_idx s < po_size s \<Longrightarrow> \<not> held (po_pk s) \<Longrightarrow> L (po_lock s, po_pk s) (l, k) \<Longrightarrow>
    produce_locked L held s (s\<lparr>po_lock := l, po_pk := k\<rparr>)"
| pl_push: "held (po_pk s) \<Longrightarrow> \<not> po_pushed s \<Longrightarrow>
    produce_locked L held s (s\<lparr>po_q := po_q s @ [po_idx s], po_pushed := True\<rparr>)"
| pl_unlock: "held (po_pk s) \<Longrightarrow> po_pushed s \<Longrightarrow> L (po_lock s, po_pk s) (l, k) \<Longrightarrow>
    produce_locked L held s (s\<lparr>po_lock := l, po_pk := k, po_pushed := False, po_idx := po_idx s + 1\<rparr>)"

text \<open>What the consumer does under the lock.\<close>

definition take_one :: "('l, 'k) poll \<Rightarrow> ('l, 'k) poll" where
  "take_one s = (case po_q s of [] \<Rightarrow> s
     | v # q \<Rightarrow> s\<lparr>po_q := q, po_vals := po_vals s @ [v], po_count := po_count s + 1\<rparr>)"

inductive consume_locked :: "('l \<times> 'k \<Rightarrow> 'l \<times> 'k \<Rightarrow> bool) \<Rightarrow> ('k \<Rightarrow> bool) \<Rightarrow> ('l, 'k) poll \<Rightarrow> ('l, 'k) poll \<Rightarrow> bool"
    for L held where
  cl_test: "po_pc s = Po_test \<Longrightarrow>
    consume_locked L held s (s\<lparr>po_pc := if po_count s < po_size s then Po_lock else Po_end\<rparr>)"
| cl_lock: "po_pc s = Po_lock \<Longrightarrow> \<not> held (po_ck s) \<Longrightarrow> L (po_lock s, po_ck s) (l, k) \<Longrightarrow>
    consume_locked L held s (s\<lparr>po_lock := l, po_ck := k\<rparr>)"
| cl_take: "po_pc s = Po_lock \<Longrightarrow> held (po_ck s) \<Longrightarrow> consume_locked L held s ((take_one s)\<lparr>po_pc := Po_unlock\<rparr>)"
| cl_unlock: "po_pc s = Po_unlock \<Longrightarrow> L (po_lock s, po_ck s) (l, k) \<Longrightarrow>
    consume_locked L held s (s\<lparr>po_lock := l, po_ck := k, po_pc := Po_test\<rparr>)"

text \<open>\<open>consume_mtx\<close> looks at the count under the lock, and only for equality.\<close>

inductive consume_mtx :: "('l \<times> 'k \<Rightarrow> 'l \<times> 'k \<Rightarrow> bool) \<Rightarrow> ('k \<Rightarrow> bool) \<Rightarrow> ('l, 'k) poll \<Rightarrow> ('l, 'k) poll \<Rightarrow> bool"
    for L held where
  cm_lock: "po_pc s = Po_lock \<Longrightarrow> \<not> held (po_ck s) \<Longrightarrow> L (po_lock s, po_ck s) (l, k) \<Longrightarrow>
    consume_mtx L held s (s\<lparr>po_lock := l, po_ck := k\<rparr>)"
| cm_take: "po_pc s = Po_lock \<Longrightarrow> held (po_ck s) \<Longrightarrow>
    consume_mtx L held s ((take_one s)\<lparr>po_pc := if po_count (take_one s) = po_size s then Po_break else Po_unlock\<rparr>)"
| cm_unlock: "po_pc s = Po_unlock \<Longrightarrow> L (po_lock s, po_ck s) (l, k) \<Longrightarrow>
    consume_mtx L held s (s\<lparr>po_lock := l, po_ck := k, po_pc := Po_lock\<rparr>)"
| cm_break: "po_pc s = Po_break \<Longrightarrow> L (po_lock s, po_ck s) (l, k) \<Longrightarrow>
    consume_mtx L held s (s\<lparr>po_lock := l, po_ck := k, po_pc := Po_end\<rparr>)"

definition poll_step where
  "poll_step L held s t \<longleftrightarrow> produce_locked L held s t \<or> consume_locked L held s t"

definition mtx_step where
  "mtx_step L held s t \<longleftrightarrow> produce_locked L held s t \<or> consume_mtx L held s t"

inductive_cases produce_lockedE: "produce_locked L held s t"
inductive_cases consume_lockedE: "consume_locked L held s t"
inductive_cases consume_mtxE: "consume_mtx L held s t"

section \<open>The interface of a lock\<close>

locale spsc_lock =
  fixes L :: "'l \<times> 'k \<Rightarrow> 'l \<times> 'k \<Rightarrow> bool" and held :: "'k \<Rightarrow> bool" and free :: "'l \<Rightarrow> bool"
  assumes acquires: "L (l, k) (l', k') \<Longrightarrow> \<not> held k \<Longrightarrow> held k' \<Longrightarrow> free l \<and> \<not> free l'"
    and spins: "L (l, k) (l', k') \<Longrightarrow> \<not> held k \<Longrightarrow> \<not> held k' \<Longrightarrow> free l' = free l"
    and releases: "L (l, k) (l', k') \<Longrightarrow> held k \<Longrightarrow> free l' \<and> \<not> held k'"
    and unlocks: "held k \<Longrightarrow> \<exists>x. L (l, k) x"
    and can_acquire: "free l \<Longrightarrow> \<not> held k \<Longrightarrow>
      \<exists>l1 k1 l2 k2. (\<lambda>x y. L x y \<and> \<not> held (snd y))\<^sup>*\<^sup>* (l, k) (l1, k1) \<and> L (l1, k1) (l2, k2) \<and> held k2"

fun sp_held :: "spin_pc \<Rightarrow> bool" where "sp_held Sp_held = True" | "sp_held _ = False"
fun my_held :: "my_pc \<Rightarrow> bool" where "my_held My_held = True" | "my_held _ = False"

inductive_simps SpinLock_simps: "SpinLock_step (f, k) x"
inductive_simps MySpin_simps: "MySpin_step (f, k) x"
inductive_simps mutex_simps: "mutex_step (f, k) x"

lemma spin_reaches:
  "\<not> sp_held k \<Longrightarrow> \<exists>i. (\<lambda>x y. SpinLock_step x y \<and> \<not> sp_held (snd y))\<^sup>*\<^sup>* (0, k) (0, Sp_swap i)"
proof -
  let ?R = "\<lambda>x y. SpinLock_step x y \<and> \<not> sp_held (snd y)"
  have load: "?R\<^sup>*\<^sup>* (0, Sp_load i) (0, Sp_swap i)" for i by (rule r_into_rtranclp) (simp add: SpinLock_simps)
  have out: "?R (0, Sp_out) (0, Sp_load 0)" by (simp add: SpinLock_simps)
  have body: "?R (0, Sp_body i) (0, Sp_load ((if i = 8 then 0 else i) + 1))" for i by (simp add: SpinLock_simps)
  show "\<not> sp_held k \<Longrightarrow> ?thesis"
    using load converse_rtranclp_into_rtranclp [OF out load] converse_rtranclp_into_rtranclp [OF body load]
    by (cases k) (simp_all, blast+)
qed

interpretation spin: spsc_lock SpinLock_step sp_held "\<lambda>f. f = 0"
proof
  fix l :: "32 word" and k
  assume "l = 0" "\<not> sp_held k"
  moreover have "SpinLock_step (0, Sp_swap i) (1, Sp_held)" for i by (simp add: SpinLock_simps)
  moreover obtain i where "(\<lambda>x y. SpinLock_step x y \<and> \<not> sp_held (snd y))\<^sup>*\<^sup>* (0, k) (0, Sp_swap i)"
    using spin_reaches [of k] calculation(2) by blast
  ultimately show "\<exists>l1 k1 l2 k2. (\<lambda>x y. SpinLock_step x y \<and> \<not> sp_held (snd y))\<^sup>*\<^sup>* (l, k) (l1, k1)
      \<and> SpinLock_step (l1, k1) (l2, k2) \<and> sp_held k2"
    by (intro exI [of _ 0] exI [of _ "Sp_swap i"] exI [of _ 1] exI [of _ Sp_held]) simp
next
  fix l :: "32 word" and k
  show "sp_held k \<Longrightarrow> \<exists>x. SpinLock_step (l, k) x" by (cases k) (auto simp: SpinLock_simps)
qed (auto simp: SpinLock_simps)

interpretation my_spin: spsc_lock MySpin_step my_held "\<lambda>f. f = 0"
proof
  fix l :: "32 word" and k
  assume l: "l = 0" "\<not> my_held k"
  have "(\<lambda>x y. MySpin_step x y \<and> \<not> my_held (snd y))\<^sup>*\<^sup>* (0, k) (0, My_try)"
    using l(2) by (cases k) (auto simp: MySpin_simps)
  moreover have "MySpin_step (0, My_try) (1, My_held)" by (simp add: MySpin_simps)
  ultimately show "\<exists>l1 k1 l2 k2. (\<lambda>x y. MySpin_step x y \<and> \<not> my_held (snd y))\<^sup>*\<^sup>* (l, k) (l1, k1)
      \<and> MySpin_step (l1, k1) (l2, k2) \<and> my_held k2"
    by (intro exI [of _ 0] exI [of _ My_try] exI [of _ 1] exI [of _ My_held]) (simp add: l(1))
next
  fix l :: "32 word" and k
  show "my_held k \<Longrightarrow> \<exists>x. MySpin_step (l, k) x" by (cases k) (auto simp: MySpin_simps)
qed (auto simp: MySpin_simps)

interpretation mtx: spsc_lock mutex_step "\<lambda>k. k" "\<lambda>m. \<not> m"
proof
  fix l k :: bool
  assume "\<not> l" "\<not> k"
  moreover have "mutex_step (False, False) (True, True)" by (simp add: mutex_simps)
  ultimately show "\<exists>l1 k1 l2 k2. (\<lambda>x y. mutex_step x y \<and> \<not> snd y)\<^sup>*\<^sup>* (l, k) (l1, k1) \<and> mutex_step (l1, k1) (l2, k2) \<and> k2"
    by auto
qed (auto simp: mutex_simps)

section \<open>What is handed over\<close>

definition poll_inv :: "('k \<Rightarrow> bool) \<Rightarrow> ('l \<Rightarrow> bool) \<Rightarrow> int \<Rightarrow> ('l, 'k) poll \<Rightarrow> bool" where
  "poll_inv held free n s \<longleftrightarrow> po_size s = n \<and> \<not> (held (po_pk s) \<and> held (po_ck s))
     \<and> (free (po_lock s) \<longleftrightarrow> \<not> held (po_pk s) \<and> \<not> held (po_ck s))
     \<and> 0 \<le> po_idx s \<and> po_idx s \<le> max 0 n \<and> (held (po_pk s) \<longrightarrow> po_idx s < n) \<and> (po_pushed s \<longrightarrow> held (po_pk s))
     \<and> po_vals s @ po_q s = [0..(if po_pushed s then po_idx s else po_idx s - 1)] \<and> po_count s = int (length (po_vals s))
     \<and> (po_pc s = Po_unlock \<or> po_pc s = Po_break \<longrightarrow> held (po_ck s)) \<and> (po_pc s = Po_test \<or> po_pc s = Po_end \<longrightarrow> \<not> held (po_ck s))
     \<and> (po_pc s = Po_break \<or> po_pc s = Po_end \<longrightarrow> n \<le> po_count s)"

lemma upto_next: "0 \<le> i \<Longrightarrow> [0..i] = [0..i - 1] @ [i :: int]"
  by (simp add: upto_rec2)

lemma take_one_fields [simp]:
  "po_lock (take_one s) = po_lock s" "po_size (take_one s) = po_size s" "po_idx (take_one s) = po_idx s"
  "po_pushed (take_one s) = po_pushed s" "po_pk (take_one s) = po_pk s" "po_ck (take_one s) = po_ck s"
  "po_vals (take_one s) @ po_q (take_one s) = po_vals s @ po_q s"
  "po_count s = int (length (po_vals s)) \<Longrightarrow> po_count (take_one s) = int (length (po_vals (take_one s)))"
  by (simp_all add: take_one_def split: list.split)

context spsc_lock
begin

lemma produce_inv: "produce_locked L held s t \<Longrightarrow> poll_inv held free n s \<Longrightarrow> poll_inv held free n t"
proof (erule produce_lockedE)
  fix l k
  assume s: "poll_inv held free n s" "\<not> held (po_pk s)" "po_idx s < po_size s" and L: "L (po_lock s, po_pk s) (l, k)"
    and t: "t = s\<lparr>po_lock := l, po_pk := k\<rparr>"
  show "poll_inv held free n t"
    using s t acquires [OF L s(2)] spins [OF L s(2)] by (cases "held k") (auto simp: poll_inv_def)
next
  assume s: "poll_inv held free n s" "held (po_pk s)" "\<not> po_pushed s" and t: "t = s\<lparr>po_q := po_q s @ [po_idx s], po_pushed := True\<rparr>"
  then have "po_vals s @ po_q s @ [po_idx s] = [0..po_idx s]"
    using append_assoc [of "po_vals s" "po_q s" "[po_idx s]"] by (simp add: poll_inv_def upto_next [of "po_idx s"])
  then show "poll_inv held free n t" using s t by (auto simp: poll_inv_def)
next
  fix l k
  assume s: "poll_inv held free n s" "held (po_pk s)" "po_pushed s" and L: "L (po_lock s, po_pk s) (l, k)"
    and t: "t = s\<lparr>po_lock := l, po_pk := k, po_pushed := False, po_idx := po_idx s + 1\<rparr>"
  show "poll_inv held free n t" using s t releases [OF L s(2)] by (auto simp: poll_inv_def)
qed

lemma consumer_acquires:
  assumes "poll_inv held free n s" "po_pc s = Po_lock" "\<not> held (po_ck s)" "L (po_lock s, po_ck s) (l, k)"
  shows "poll_inv held free n (s\<lparr>po_lock := l, po_ck := k\<rparr>)"
  using assms(1-3) acquires [OF assms(4,3)] spins [OF assms(4,3)] by (cases "held k") (auto simp: poll_inv_def)

lemma consumer_releases:
  assumes "poll_inv held free n s" "held (po_ck s)" "L (po_lock s, po_ck s) (l, k)" "c = Po_test \<or> c = Po_lock \<or> c = Po_end \<and> n \<le> po_count s"
  shows "poll_inv held free n (s\<lparr>po_lock := l, po_ck := k, po_pc := c\<rparr>)"
  using assms(1,2,4) releases [OF assms(3,2)] by (auto simp: poll_inv_def)

lemma consumer_takes:
  assumes "poll_inv held free n s" "held (po_ck s)" "c = Po_unlock \<or> c = Po_break \<and> n \<le> po_count (take_one s)"
  shows "poll_inv held free n ((take_one s)\<lparr>po_pc := c\<rparr>)"
  using assms by (auto simp: poll_inv_def)

lemma consume_inv:
  assumes "consume_locked L held s t" "poll_inv held free n s" shows "poll_inv held free n t"
  using assms(1)
proof cases
  case cl_test
  then show ?thesis using assms(2) by (auto simp: poll_inv_def)
next
  case (cl_lock l k)
  then show ?thesis using consumer_acquires [OF assms(2)] by simp
next
  case cl_take
  then show ?thesis using consumer_takes [OF assms(2)] by simp
next
  case (cl_unlock l k)
  then show ?thesis using consumer_releases [OF assms(2), of l k Po_test] assms(2) by (simp add: poll_inv_def)
qed

lemma consume_mtx_inv:
  assumes "consume_mtx L held s t" "poll_inv held free n s" shows "poll_inv held free n t"
  using assms(1)
proof cases
  case (cm_lock l k)
  then show ?thesis using consumer_acquires [OF assms(2)] by simp
next
  case cm_take
  moreover have "po_size s = n" using assms(2) by (simp add: poll_inv_def)
  ultimately show ?thesis using consumer_takes [OF assms(2)] by simp
next
  case (cm_unlock l k)
  then show ?thesis using consumer_releases [OF assms(2), of l k Po_lock] assms(2) by (simp add: poll_inv_def)
next
  case (cm_break l k)
  then show ?thesis using consumer_releases [OF assms(2), of l k Po_end] assms(2) by (simp add: poll_inv_def)
qed

lemma start_inv: "free l \<Longrightarrow> \<not> held k \<Longrightarrow> c = Po_test \<or> c = Po_lock \<Longrightarrow> poll_inv held free n (poll_start l k c n)"
  by (auto simp: poll_inv_def poll_start_def)

lemma poll_inv_run: "(poll_step L held)\<^sup>*\<^sup>* s t \<Longrightarrow> poll_inv held free n s \<Longrightarrow> poll_inv held free n t"
  by (induction rule: rtranclp_induct) (auto simp: poll_step_def intro: produce_inv consume_inv)

lemma mtx_inv_run: "(mtx_step L held)\<^sup>*\<^sup>* s t \<Longrightarrow> poll_inv held free n s \<Longrightarrow> poll_inv held free n t"
  by (induction rule: rtranclp_induct) (auto simp: mtx_step_def intro: produce_inv consume_mtx_inv)

lemma handed_over:
  assumes "poll_inv held free n s" "po_pc s = Po_end"
  shows "po_vals s = [0..n - 1] \<and> po_q s = []"
proof -
  have n: "n \<le> int (length (po_vals s))" "po_vals s @ po_q s = [0..(if po_pushed s then po_idx s else po_idx s - 1)]"
      "(if po_pushed s then po_idx s else po_idx s - 1) \<le> max 0 n - 1"
    using assms by (auto simp: poll_inv_def)
  have "length (po_vals s) + length (po_q s) \<le> nat (max 0 n)"
    using arg_cong [OF n(2), of length] n(3) by simp
  then have "length (po_q s) = 0" "length (po_vals s) = nat (max 0 n)" using n(1) by linarith+
  moreover have "[0..m] = [0..n - 1]" if "length [0..m] = nat (max 0 n)" for m :: int
  proof (cases "n \<le> 0")
    case False
    then have "m = n - 1" using that by simp
    then show ?thesis by simp
  qed (use that in simp)
  ultimately show ?thesis using n(2) by (metis append_Nil2 length_0_conv)
qed

text \<open>What every state on the way has.\<close>

lemma poll_safe:
  assumes "poll_inv held free n s"
  shows "\<not> (held (po_pk s) \<and> held (po_ck s)) \<and> (\<exists>m. po_vals s @ po_q s = [0..m - 1] \<and> m \<le> max 0 n)
    \<and> (po_pc s = Po_end \<longrightarrow> po_vals s = [0..n - 1] \<and> po_q s = [])"
proof -
  have "po_vals s @ po_q s = [0..(if po_pushed s then po_idx s + 1 else po_idx s) - 1]"
    "(if po_pushed s then po_idx s + 1 else po_idx s) \<le> max 0 n"
    using assms by (auto simp: poll_inv_def)
  moreover have "\<not> (held (po_pk s) \<and> held (po_ck s))" using assms by (simp add: poll_inv_def)
  ultimately show ?thesis using handed_over [OF assms] by blast
qed

text \<open>Nobody is locked out: the two threads can always finish.\<close>

lemma producer_spins:
  "(\<lambda>x y. L x y \<and> \<not> held (snd y))\<^sup>*\<^sup>* (l, k) (l', k') \<Longrightarrow> \<not> held k \<Longrightarrow> po_lock s = l \<Longrightarrow> po_pk s = k \<Longrightarrow> po_idx s < po_size s
    \<Longrightarrow> (produce_locked L held)\<^sup>*\<^sup>* s (s\<lparr>po_lock := l', po_pk := k'\<rparr>) \<and> \<not> held k'"
proof (induction rule: rtranclp_induct2)
  case (step l1 k1 l2 k2)
  then show ?case using pl_lock [of "s\<lparr>po_lock := l1, po_pk := k1\<rparr>" held L l2 k2] by (auto intro: rtranclp.rtrancl_into_rtrancl)
qed auto

lemma consumer_spins:
  assumes acq: "\<And>s l k. po_pc s = Po_lock \<Longrightarrow> \<not> held (po_ck s) \<Longrightarrow> L (po_lock s, po_ck s) (l, k) \<Longrightarrow> C s (s\<lparr>po_lock := l, po_ck := k\<rparr>)"
  shows "(\<lambda>x y. L x y \<and> \<not> held (snd y))\<^sup>*\<^sup>* (l, k) (l', k') \<Longrightarrow> \<not> held k \<Longrightarrow> po_lock s = l \<Longrightarrow> po_ck s = k \<Longrightarrow> po_pc s = Po_lock
    \<Longrightarrow> C\<^sup>*\<^sup>* s (s\<lparr>po_lock := l', po_ck := k'\<rparr>) \<and> \<not> held k'"
proof (induction rule: rtranclp_induct2)
  case (step l1 k1 l2 k2)
  then show ?case using acq [of "s\<lparr>po_lock := l1, po_ck := k1\<rparr>" l2 k2] by (auto intro: rtranclp.rtrancl_into_rtrancl)
qed auto

lemma producer_gets:
  assumes "poll_inv held free n s" "\<not> held (po_pk s)" "\<not> held (po_ck s)" "po_idx s < n"
  shows "\<exists>l k. (produce_locked L held)\<^sup>*\<^sup>* s (s\<lparr>po_lock := l, po_pk := k\<rparr>) \<and> held k"
proof -
  have "free (po_lock s)" "po_size s = n" using assms by (simp_all add: poll_inv_def)
  then obtain l1 k1 l2 k2 where p: "(\<lambda>x y. L x y \<and> \<not> held (snd y))\<^sup>*\<^sup>* (po_lock s, po_pk s) (l1, k1)" "L (l1, k1) (l2, k2)" "held k2"
    using can_acquire assms(2) by blast
  then have "(produce_locked L held)\<^sup>*\<^sup>* s (s\<lparr>po_lock := l1, po_pk := k1\<rparr>)" "\<not> held k1"
    using producer_spins [OF p(1) assms(2) refl refl] assms(4) \<open>po_size s = n\<close> by auto
  then show ?thesis using pl_lock [of "s\<lparr>po_lock := l1, po_pk := k1\<rparr>" held L l2 k2] p(2,3) assms(4) \<open>po_size s = n\<close>
    by (intro exI [of _ l2] exI [of _ k2]) (auto intro: rtranclp.rtrancl_into_rtrancl)
qed

lemma consumer_gets:
  assumes "\<And>s l k. po_pc s = Po_lock \<Longrightarrow> \<not> held (po_ck s) \<Longrightarrow> L (po_lock s, po_ck s) (l, k) \<Longrightarrow> C s (s\<lparr>po_lock := l, po_ck := k\<rparr>)"
    and "poll_inv held free n s" "\<not> held (po_pk s)" "\<not> held (po_ck s)" "po_pc s = Po_lock"
  shows "\<exists>l k. C\<^sup>*\<^sup>* s (s\<lparr>po_lock := l, po_ck := k\<rparr>) \<and> held k"
proof -
  have "free (po_lock s)" using assms(2-4) by (simp add: poll_inv_def)
  then obtain l1 k1 l2 k2 where p: "(\<lambda>x y. L x y \<and> \<not> held (snd y))\<^sup>*\<^sup>* (po_lock s, po_ck s) (l1, k1)" "L (l1, k1) (l2, k2)" "held k2"
    using can_acquire assms(4) by blast
  then have "C\<^sup>*\<^sup>* s (s\<lparr>po_lock := l1, po_ck := k1\<rparr>)" "\<not> held k1"
    using consumer_spins [where C = C, OF assms(1) p(1) assms(4) refl refl assms(5)] by auto
  then show ?thesis using assms(1) [of "s\<lparr>po_lock := l1, po_ck := k1\<rparr>" l2 k2] p(2,3) assms(5)
    by (intro exI [of _ l2] exI [of _ k2]) (auto intro: rtranclp.rtrancl_into_rtrancl)
qed

lemma produce_inv_run: "(produce_locked L held)\<^sup>*\<^sup>* s t \<Longrightarrow> poll_inv held free n s \<Longrightarrow> poll_inv held free n t"
  by (induction rule: rtranclp_induct) (auto intro: produce_inv)

lemma produce_round:
  assumes s: "poll_inv held free n s" "\<not> held (po_ck s)" "po_idx s < n"
  shows "\<exists>t. (produce_locked L held)\<^sup>*\<^sup>* s t \<and> po_idx t = po_idx s + 1 \<and> po_ck t = po_ck s \<and> po_pc t = po_pc s"
proof -
  have unlock: "\<exists>t. (produce_locked L held)\<^sup>*\<^sup>* u t \<and> po_idx t = po_idx u + 1 \<and> po_ck t = po_ck u \<and> po_pc t = po_pc u"
    if u: "held (po_pk u)" "po_pushed u" for u
  proof -
    obtain l k where "L (po_lock u, po_pk u) (l, k)" using unlocks [OF u(1)] by (metis surj_pair)
    then show ?thesis using pl_unlock [of held u L l k] u
      by (intro exI [of _ "u\<lparr>po_lock := l, po_pk := k, po_pushed := False, po_idx := po_idx u + 1\<rparr>"]) auto
  qed
  have push: "\<exists>t. (produce_locked L held)\<^sup>*\<^sup>* u t \<and> po_idx t = po_idx u + 1 \<and> po_ck t = po_ck u \<and> po_pc t = po_pc u"
    if u: "held (po_pk u)" for u
  proof (cases "po_pushed u")
    case False
    obtain t where "(produce_locked L held)\<^sup>*\<^sup>* (u\<lparr>po_q := po_q u @ [po_idx u], po_pushed := True\<rparr>) t"
        "po_idx t = po_idx u + 1" "po_ck t = po_ck u" "po_pc t = po_pc u"
      using unlock [of "u\<lparr>po_q := po_q u @ [po_idx u], po_pushed := True\<rparr>"] u by auto
    then show ?thesis using pl_push [of held u L, OF u False] by (meson converse_rtranclp_into_rtranclp)
  qed (rule unlock [OF u])
  show ?thesis
  proof (cases "held (po_pk s)")
    case False
    obtain l k where g: "(produce_locked L held)\<^sup>*\<^sup>* s (s\<lparr>po_lock := l, po_pk := k\<rparr>)" "held k"
      using producer_gets [OF s(1) False s(2,3)] by blast
    then obtain t where "(produce_locked L held)\<^sup>*\<^sup>* (s\<lparr>po_lock := l, po_pk := k\<rparr>) t"
        "po_idx t = po_idx s + 1" "po_ck t = po_ck s" "po_pc t = po_pc s"
      using push [of "s\<lparr>po_lock := l, po_pk := k\<rparr>"] by auto
    then show ?thesis using g(1) rtranclp_trans by meson
  qed (rule push)
qed

lemma produce_all:
  assumes "poll_inv held free n s" "\<not> held (po_ck s)"
  shows "\<exists>t. (produce_locked L held)\<^sup>*\<^sup>* s t \<and> n \<le> po_idx t \<and> \<not> held (po_ck t) \<and> po_pc t = po_pc s"
  using assms
proof (induction "nat (n - po_idx s)" arbitrary: s rule: less_induct)
  case less
  show ?case
  proof (cases "po_idx s < n")
    case True
    then obtain u where u: "(produce_locked L held)\<^sup>*\<^sup>* s u" "po_idx u = po_idx s + 1" "po_ck u = po_ck s" "po_pc u = po_pc s"
      using produce_round [OF less.prems] by blast
    then obtain t where "(produce_locked L held)\<^sup>*\<^sup>* u t" "n \<le> po_idx t" "\<not> held (po_ck t)" "po_pc t = po_pc u"
      using less.hyps [of u] produce_inv_run [OF u(1) less.prems(1)] less.prems(2) True by auto
    then show ?thesis using u rtranclp_trans by metis
  qed (use less.prems in auto)
qed

text \<open>When the producer is done, the queue is empty exactly when everything has been taken.\<close>

lemma all_pushed:
  assumes "poll_inv held free n s" "n \<le> po_idx s"
  shows "\<not> held (po_pk s)" "po_count s < n \<Longrightarrow> po_count (take_one s) = po_count s + 1" "0 \<le> n \<Longrightarrow> po_count s \<le> n"
    "po_count s = n \<Longrightarrow> take_one s = s"
proof -
  show "\<not> held (po_pk s)" using assms by (auto simp: poll_inv_def)
  then have v: "po_vals s @ po_q s = [0..po_idx s - 1]" "po_count s = int (length (po_vals s))" "po_idx s \<le> max 0 n"
    using assms(1) by (auto simp: poll_inv_def)
  have l: "length (po_vals s) + length (po_q s) = nat (po_idx s)" using arg_cong [OF v(1), of length] by simp
  show "po_count (take_one s) = po_count s + 1" if "po_count s < n"
  proof -
    have "0 < length (po_q s)" using that l v(2) assms(2) by linarith
    then have "po_q s \<noteq> []" by simp
    then show ?thesis by (auto simp: take_one_def split: list.split)
  qed
  show "0 \<le> n \<Longrightarrow> po_count s \<le> n" using l v(2,3) by linarith
  assume "po_count s = n"
  then have "length (po_q s) = 0" using l v(2,3) by linarith
  then show "take_one s = s" by (simp add: take_one_def)
qed

lemma locked_release:
  assumes "held (po_ck s)" "po_pc s = Po_unlock"
  shows "\<exists>l k. consume_locked L held s (s\<lparr>po_lock := l, po_ck := k, po_pc := Po_test\<rparr>) \<and> \<not> held k"
proof -
  obtain l k where "L (po_lock s, po_ck s) (l, k)" using unlocks [OF assms(1)] by (metis surj_pair)
  then show ?thesis using cl_unlock [OF assms(2)] releases [OF _ assms(1)] by blast
qed

lemma mtx_release:
  assumes "held (po_ck s)" "po_pc s = Po_unlock \<and> c = Po_lock \<or> po_pc s = Po_break \<and> c = Po_end"
  shows "\<exists>l k. consume_mtx L held s (s\<lparr>po_lock := l, po_ck := k, po_pc := c\<rparr>) \<and> \<not> held k"
proof -
  obtain l k where "L (po_lock s, po_ck s) (l, k)" using unlocks [OF assms(1)] by (metis surj_pair)
  then show ?thesis using cm_unlock [of s L l k] cm_break [of s L l k] releases [OF _ assms(1)] assms(2) by blast
qed

text \<open>One round of each consumer from where it takes the lock.\<close>

lemma locked_round:
  assumes "held (po_ck s)" "po_pc s = Po_lock"
  shows "\<exists>t. (consume_locked L held)\<^sup>*\<^sup>* s t \<and> \<not> held (po_ck t) \<and> po_pc t = Po_test \<and> po_idx t = po_idx s
    \<and> po_count t = po_count (take_one s)"
proof -
  let ?u = "(take_one s)\<lparr>po_pc := Po_unlock\<rparr>"
  obtain l k where "consume_locked L held ?u (?u\<lparr>po_lock := l, po_ck := k, po_pc := Po_test\<rparr>)" "\<not> held k"
    using locked_release [of ?u] assms(1) by auto
  then show ?thesis using cl_take [of s held L] assms
    by (intro exI [of _ "?u\<lparr>po_lock := l, po_ck := k, po_pc := Po_test\<rparr>"]) (auto intro: converse_rtranclp_into_rtranclp)
qed

lemma mtx_round:
  assumes "held (po_ck s)" "po_pc s = Po_lock"
  shows "\<exists>t. (consume_mtx L held)\<^sup>*\<^sup>* s t \<and> \<not> held (po_ck t) \<and> po_idx t = po_idx s \<and> po_count t = po_count (take_one s)
    \<and> po_pc t = (if po_count (take_one s) = po_size s then Po_end else Po_lock)"
proof -
  define b where "b = (po_count (take_one s) = po_size s)"
  let ?u = "(take_one s)\<lparr>po_pc := if b then Po_break else Po_unlock\<rparr>"
  have "\<exists>l k. consume_mtx L held ?u (?u\<lparr>po_lock := l, po_ck := k, po_pc := if b then Po_end else Po_lock\<rparr>) \<and> \<not> held k"
    by (rule mtx_release) (use assms(1) in auto)
  then obtain l k where "consume_mtx L held ?u (?u\<lparr>po_lock := l, po_ck := k, po_pc := if b then Po_end else Po_lock\<rparr>)" "\<not> held k"
    by blast
  then show ?thesis using cm_take [of s held L] assms unfolding b_def [symmetric]
    by (intro exI [of _ "?u\<lparr>po_lock := l, po_ck := k, po_pc := if b then Po_end else Po_lock\<rparr>"])
      (auto intro: converse_rtranclp_into_rtranclp)
qed

lemma consume_inv_run: "(consume_locked L held)\<^sup>*\<^sup>* s t \<Longrightarrow> poll_inv held free n s \<Longrightarrow> poll_inv held free n t"
  by (induction rule: rtranclp_induct) (auto intro: consume_inv)

lemma consume_mtx_inv_run: "(consume_mtx L held)\<^sup>*\<^sup>* s t \<Longrightarrow> poll_inv held free n s \<Longrightarrow> poll_inv held free n t"
  by (induction rule: rtranclp_induct) (auto intro: consume_mtx_inv)

lemma locked_round_done:
  assumes "poll_inv held free n s" "n \<le> po_idx s" "\<not> held (po_ck s)" "po_pc s = Po_lock"
  shows "\<exists>t. (consume_locked L held)\<^sup>*\<^sup>* s t \<and> \<not> held (po_ck t) \<and> po_pc t = Po_test \<and> po_idx t = po_idx s
    \<and> (po_count s < n \<longrightarrow> po_count t = po_count s + 1)"
proof -
  obtain l k where g: "(consume_locked L held)\<^sup>*\<^sup>* s (s\<lparr>po_lock := l, po_ck := k\<rparr>)" "held k"
    using consumer_gets [of "consume_locked L held", OF cl_lock assms(1) all_pushed(1) [OF assms(1,2)] assms(3,4)] by blast
  have i: "poll_inv held free n (s\<lparr>po_lock := l, po_ck := k\<rparr>)" by (rule consume_inv_run [OF g(1) assms(1)])
  obtain t where t: "(consume_locked L held)\<^sup>*\<^sup>* (s\<lparr>po_lock := l, po_ck := k\<rparr>) t" "\<not> held (po_ck t)" "po_pc t = Po_test"
      "po_idx t = po_idx s" "po_count t = po_count (take_one (s\<lparr>po_lock := l, po_ck := k\<rparr>))"
    using locked_round [of "s\<lparr>po_lock := l, po_ck := k\<rparr>"] g(2) assms(4) by auto
  show ?thesis using t all_pushed(2) [OF i] assms(2) g(1)
    by (intro exI [of _ t]) (auto intro: rtranclp_trans)
qed

lemma locked_from_test:
  assumes "poll_inv held free n s" "n \<le> po_idx s" "po_pc s = Po_test"
  shows "\<exists>t. (consume_locked L held)\<^sup>*\<^sup>* s t \<and> po_pc t = Po_end"
  using assms
proof (induction "nat (n - po_count s)" arbitrary: s rule: less_induct)
  case less
  have n: "po_size s = n" "\<not> held (po_ck s)" using less.prems by (auto simp: poll_inv_def)
  note test = cl_test [OF less.prems(3), of L held]
  show ?case
  proof (cases "po_count s < n")
    case True
    let ?u = "s\<lparr>po_pc := Po_lock\<rparr>"
    have u: "(consume_locked L held)\<^sup>*\<^sup>* s ?u" using test True n(1) by auto
    obtain v where v: "(consume_locked L held)\<^sup>*\<^sup>* ?u v" "po_pc v = Po_test" "po_idx v = po_idx s" "po_count v = po_count s + 1"
      using locked_round_done [OF consume_inv_run [OF u less.prems(1)]] less.prems(2) n(2) True by auto
    have sv: "(consume_locked L held)\<^sup>*\<^sup>* s v" using u v(1) by (rule rtranclp_trans)
    then obtain t where "(consume_locked L held)\<^sup>*\<^sup>* v t" "po_pc t = Po_end"
      using less.hyps [of v] consume_inv_run [OF sv less.prems(1)] less.prems(2) v(2-4) True by auto
    then show ?thesis using sv rtranclp_trans by metis
  next
    case False
    then show ?thesis using test n(1) by (intro exI [of _ "s\<lparr>po_pc := Po_end\<rparr>"]) auto
  qed
qed

lemma mtx_from_lock:
  assumes "poll_inv held free n s" "0 \<le> n" "n \<le> po_idx s" "po_pc s = Po_lock" "\<not> held (po_ck s)"
  shows "\<exists>t. (consume_mtx L held)\<^sup>*\<^sup>* s t \<and> po_pc t = Po_end"
  using assms
proof (induction "nat (n - po_count s)" arbitrary: s rule: less_induct)
  case less
  note inv = less.prems(1) and idx = less.prems(3)
  obtain l k where g: "(consume_mtx L held)\<^sup>*\<^sup>* s (s\<lparr>po_lock := l, po_ck := k\<rparr>)" "held k"
    using consumer_gets [of "consume_mtx L held", OF cm_lock inv all_pushed(1) [OF inv idx] less.prems(5,4)] by blast
  let ?u = "s\<lparr>po_lock := l, po_ck := k\<rparr>"
  have i: "poll_inv held free n ?u" by (rule consume_mtx_inv_run [OF g(1) inv])
  obtain v where v: "(consume_mtx L held)\<^sup>*\<^sup>* ?u v" "\<not> held (po_ck v)" "po_idx v = po_idx s" "po_count v = po_count (take_one ?u)"
      "po_pc v = (if po_count (take_one ?u) = po_size s then Po_end else Po_lock)"
    using mtx_round [of ?u] g(2) less.prems(4) by auto
  have sv: "(consume_mtx L held)\<^sup>*\<^sup>* s v" using g(1) v(1) by (rule rtranclp_trans)
  have n: "po_size s = n" using inv by (simp add: poll_inv_def)
  have le: "po_count s \<le> n" using all_pushed(3) [OF i] idx less.prems(2) by simp
  show ?case
  proof (cases "po_pc v = Po_end")
    case False
    then have "po_pc v = Po_lock" "po_count v \<noteq> n" using v(4,5) n by (auto split: if_splits)
    moreover have "po_count v = po_count s + 1" if "po_count s < n" using all_pushed(2) [OF i] idx that v(4) by simp
    moreover have "po_count v = po_count s" if "po_count s = n" using all_pushed(4) [OF i] idx that v(4) by simp
    moreover have "po_count s < n" using calculation le by (cases "po_count s = n") auto
    ultimately have "po_pc v = Po_lock" "po_count v = po_count s + 1" "po_count s < n" by auto
    then obtain t where "(consume_mtx L held)\<^sup>*\<^sup>* v t" "po_pc t = Po_end"
      using less.hyps [of v] consume_mtx_inv_run [OF sv inv] less.prems(2) idx v(2,3) by auto
    then show ?thesis using sv rtranclp_trans by metis
  qed (use sv in blast)
qed

lemma locked_leaves:
  assumes "poll_inv held free n s" "po_pc s \<noteq> Po_break"
  shows "\<exists>t. (consume_locked L held)\<^sup>*\<^sup>* s t \<and> \<not> held (po_ck t) \<and> po_pc t \<in> {Po_test, Po_lock, Po_end}"
proof (cases "held (po_ck s)")
  case True
  then have "po_pc s = Po_lock \<or> po_pc s = Po_unlock" using assms by (cases "po_pc s") (auto simp: poll_inv_def)
  then show ?thesis
  proof
    assume "po_pc s = Po_unlock"
    then obtain l k where "consume_locked L held s (s\<lparr>po_lock := l, po_ck := k, po_pc := Po_test\<rparr>)" "\<not> held k"
      using locked_release [OF True] by blast
    then show ?thesis by (intro exI [of _ "s\<lparr>po_lock := l, po_ck := k, po_pc := Po_test\<rparr>"]) auto
  qed (use locked_round [OF True] in blast)
qed (use assms in \<open>cases "po_pc s"; auto simp: poll_inv_def\<close>)

lemma mtx_leaves:
  assumes "poll_inv held free n s" "po_pc s \<noteq> Po_test"
  shows "\<exists>t. (consume_mtx L held)\<^sup>*\<^sup>* s t \<and> \<not> held (po_ck t) \<and> po_pc t \<in> {Po_lock, Po_end}"
proof (cases "held (po_ck s)")
  case True
  then consider "po_pc s = Po_lock" | c where "po_pc s = Po_unlock \<and> c = Po_lock \<or> po_pc s = Po_break \<and> c = Po_end"
    using assms by (cases "po_pc s") (auto simp: poll_inv_def)
  then show ?thesis
  proof cases
    case 1
    then show ?thesis using mtx_round [OF True] by (metis insertCI)
  next
    case (2 c)
    obtain l k where "consume_mtx L held s (s\<lparr>po_lock := l, po_ck := k, po_pc := c\<rparr>)" "\<not> held k"
      using mtx_release [OF True 2] by blast
    then show ?thesis using 2 by (intro exI [of _ "s\<lparr>po_lock := l, po_ck := k, po_pc := c\<rparr>"]) auto
  qed
qed (use assms in \<open>cases "po_pc s"; auto simp: poll_inv_def\<close>)

lemma poll_can_finish:
  assumes "poll_inv held free n s" "po_pc s \<noteq> Po_break"
  shows "\<exists>t. (poll_step L held)\<^sup>*\<^sup>* s t \<and> po_pc t = Po_end"
proof -
  have P: "(poll_step L held)\<^sup>*\<^sup>* u v" if "(produce_locked L held)\<^sup>*\<^sup>* u v" for u v
    using that by (rule rtranclp_mono [THEN predicate2D, rotated]) (auto simp: poll_step_def)
  have C: "(poll_step L held)\<^sup>*\<^sup>* u v" if "(consume_locked L held)\<^sup>*\<^sup>* u v" for u v
    using that by (rule rtranclp_mono [THEN predicate2D, rotated]) (auto simp: poll_step_def)
  obtain u where u: "(consume_locked L held)\<^sup>*\<^sup>* s u" "\<not> held (po_ck u)" "po_pc u \<in> {Po_test, Po_lock, Po_end}"
    using locked_leaves [OF assms] by blast
  have ui: "poll_inv held free n u" by (rule consume_inv_run [OF u(1) assms(1)])
  obtain v where v: "(produce_locked L held)\<^sup>*\<^sup>* u v" "n \<le> po_idx v" "\<not> held (po_ck v)" "po_pc v = po_pc u"
    using produce_all [OF ui u(2)] by blast
  have vi: "poll_inv held free n v" by (rule produce_inv_run [OF v(1) ui])
  have "\<exists>t. (consume_locked L held)\<^sup>*\<^sup>* v t \<and> po_pc t = Po_end"
  proof (cases "po_pc v = Po_lock")
    case True
    obtain w where w: "(consume_locked L held)\<^sup>*\<^sup>* v w" "po_pc w = Po_test" "po_idx w = po_idx v"
      using locked_round_done [OF vi v(2,3) True] by blast
    then show ?thesis using locked_from_test [OF consume_inv_run [OF w(1) vi]] v(2) rtranclp_trans by metis
  qed (use locked_from_test [OF vi v(2)] v(4) u(3) in auto)
  then show ?thesis using C [OF u(1)] P [OF v(1)] C rtranclp_trans by meson
qed

lemma mtx_can_finish:
  assumes "poll_inv held free n s" "po_pc s \<noteq> Po_test" "0 \<le> n"
  shows "\<exists>t. (mtx_step L held)\<^sup>*\<^sup>* s t \<and> po_pc t = Po_end"
proof -
  have P: "(mtx_step L held)\<^sup>*\<^sup>* u v" if "(produce_locked L held)\<^sup>*\<^sup>* u v" for u v
    using that by (rule rtranclp_mono [THEN predicate2D, rotated]) (auto simp: mtx_step_def)
  have C: "(mtx_step L held)\<^sup>*\<^sup>* u v" if "(consume_mtx L held)\<^sup>*\<^sup>* u v" for u v
    using that by (rule rtranclp_mono [THEN predicate2D, rotated]) (auto simp: mtx_step_def)
  obtain u where u: "(consume_mtx L held)\<^sup>*\<^sup>* s u" "\<not> held (po_ck u)" "po_pc u \<in> {Po_lock, Po_end}"
    using mtx_leaves [OF assms(1,2)] by blast
  have ui: "poll_inv held free n u" by (rule consume_mtx_inv_run [OF u(1) assms(1)])
  obtain v where v: "(produce_locked L held)\<^sup>*\<^sup>* u v" "n \<le> po_idx v" "\<not> held (po_ck v)" "po_pc v = po_pc u"
    using produce_all [OF ui u(2)] by blast
  have vi: "poll_inv held free n v" by (rule produce_inv_run [OF v(1) ui])
  have "\<exists>t. (consume_mtx L held)\<^sup>*\<^sup>* v t \<and> po_pc t = Po_end"
    using mtx_from_lock [OF vi assms(3) v(2) _ v(3)] v(4) u(3) by auto
  then show ?thesis using C [OF u(1)] P [OF v(1)] C rtranclp_trans by meson
qed

lemma poll_never_breaks: "(poll_step L held)\<^sup>*\<^sup>* s t \<Longrightarrow> po_pc s \<noteq> Po_break \<Longrightarrow> po_pc t \<noteq> Po_break"
  by (induction rule: rtranclp_induct) (auto simp: poll_step_def take_one_def elim!: produce_lockedE consume_lockedE split: if_splits)

lemma mtx_never_tests: "(mtx_step L held)\<^sup>*\<^sup>* s t \<Longrightarrow> po_pc s \<noteq> Po_test \<Longrightarrow> po_pc t \<noteq> Po_test"
  by (induction rule: rtranclp_induct) (auto simp: mtx_step_def take_one_def elim!: produce_lockedE consume_mtxE split: if_splits)

lemma poll_correct:
  assumes "(poll_step L held)\<^sup>*\<^sup>* (poll_start l k Po_test n) s" "free l" "\<not> held k"
  shows "\<not> (held (po_pk s) \<and> held (po_ck s)) \<and> (\<exists>m. po_vals s @ po_q s = [0..m - 1] \<and> m \<le> max 0 n)
    \<and> (po_pc s = Po_end \<longrightarrow> po_vals s = [0..n - 1] \<and> po_q s = []) \<and> (\<exists>t. (poll_step L held)\<^sup>*\<^sup>* s t \<and> po_pc t = Po_end)"
proof -
  have "poll_inv held free n s" using poll_inv_run [OF assms(1) start_inv [OF assms(2,3)]] by simp
  moreover have "po_pc s \<noteq> Po_break" using poll_never_breaks [OF assms(1)] by (simp add: poll_start_def)
  ultimately show ?thesis using poll_safe poll_can_finish by simp
qed

lemma mtx_correct:
  assumes "(mtx_step L held)\<^sup>*\<^sup>* (poll_start l k Po_lock n) s" "free l" "\<not> held k" "0 \<le> n"
  shows "\<not> (held (po_pk s) \<and> held (po_ck s)) \<and> (\<exists>m. po_vals s @ po_q s = [0..m - 1] \<and> m \<le> max 0 n)
    \<and> (po_pc s = Po_end \<longrightarrow> po_vals s = [0..n - 1] \<and> po_q s = []) \<and> (\<exists>t. (mtx_step L held)\<^sup>*\<^sup>* s t \<and> po_pc t = Po_end)"
proof -
  have "poll_inv held free n s" using mtx_inv_run [OF assms(1) start_inv [OF assms(2,3)]] by simp
  moreover have "po_pc s \<noteq> Po_test" using mtx_never_tests [OF assms(1)] by (simp add: poll_start_def)
  ultimately show ?thesis using poll_safe mtx_can_finish assms(4) by blast
qed

end

section \<open>The four variants\<close>

definition produce_mtx where "produce_mtx = produce_locked mutex_step (\<lambda>k. k)"
definition consume_mtx_std where "consume_mtx_std = consume_mtx mutex_step (\<lambda>k. k)"
definition produce_sp where "produce_sp = produce_locked SpinLock_step sp_held"
definition consume_sp where "consume_sp = consume_locked SpinLock_step sp_held"
definition produce_sp2 where "produce_sp2 = produce_locked MySpin_step my_held"
definition consume_sp2 where "consume_sp2 = consume_locked MySpin_step my_held"
definition produce_my_sp where "produce_my_sp = produce_locked MySpin_step my_held"
definition consume_my_sp where "consume_my_sp = consume_locked MySpin_step my_held"

definition either :: "('s \<Rightarrow> 's \<Rightarrow> bool) \<Rightarrow> ('s \<Rightarrow> 's \<Rightarrow> bool) \<Rightarrow> 's \<Rightarrow> 's \<Rightarrow> bool" where
  "either P C s t \<longleftrightarrow> P s t \<or> C s t"

lemma programs:
  "either produce_sp consume_sp = poll_step SpinLock_step sp_held" "either produce_sp2 consume_sp2 = poll_step MySpin_step my_held"
  "either produce_my_sp consume_my_sp = poll_step MySpin_step my_held" "either produce_mtx consume_mtx_std = mtx_step mutex_step (\<lambda>k. k)"
  by (simp_all add: fun_eq_iff either_def poll_step_def mtx_step_def produce_sp_def consume_sp_def produce_sp2_def consume_sp2_def
    produce_my_sp_def consume_my_sp_def produce_mtx_def consume_mtx_std_def)


text \<open>C40: \<open>produce_sp\<close> and \<open>consume_sp\<close>: never are both threads in their critical sections, what was taken
  and what waits are together an initial piece of the numbers, a consumer that has returned has
  taken all of them in order, and from every state both threads can still finish.
\<close>

theorem spinning_threads_hand_over_everything:
  assumes "(either produce_sp consume_sp)\<^sup>*\<^sup>* (poll_start 0 Sp_out Po_test n) s"
  shows "\<not> (sp_held (po_pk s) \<and> sp_held (po_ck s)) \<and> (\<exists>m. po_vals s @ po_q s = [0..m - 1] \<and> m \<le> max 0 n)
    \<and> (po_pc s = Po_end \<longrightarrow> po_vals s = [0..n - 1] \<and> po_q s = [])
    \<and> (\<exists>t. (either produce_sp consume_sp)\<^sup>*\<^sup>* s t \<and> po_pc t = Po_end)"
  using spin.poll_correct [OF assms [unfolded programs]] by (simp add: programs)

theorem spinning_threads_hand_over_everything_witness:
  "\<exists>s :: (32 word, spin_pc) poll. (either produce_sp consume_sp)\<^sup>*\<^sup>* (poll_start 0 Sp_out Po_test 2) s
     \<and> po_pc s = Po_end \<and> po_vals s = [0, 1]"
proof -
  obtain s where s: "(either produce_sp consume_sp)\<^sup>*\<^sup>* (poll_start 0 Sp_out Po_test 2) s" "po_pc s = Po_end"
    using spinning_threads_hand_over_everything [of 2 "poll_start 0 Sp_out Po_test 2"] by blast
  then have "po_vals s = [0..2 - 1]" using spinning_threads_hand_over_everything [OF s(1)] by blast
  moreover have "[0..2 - 1] = [0, 1 :: int]" by (simp add: upto.simps)
  ultimately show ?thesis using s by auto
qed

text \<open>The same of \<open>produce_my_sp\<close> and \<open>produce_sp2\<close> with their consumers.\<close>

theorem exchanging_threads_hand_over_everything:
  assumes "(either produce_my_sp consume_my_sp)\<^sup>*\<^sup>* (poll_start 0 My_out Po_test n) s"
  shows "\<not> (my_held (po_pk s) \<and> my_held (po_ck s)) \<and> (\<exists>m. po_vals s @ po_q s = [0..m - 1] \<and> m \<le> max 0 n)
    \<and> (po_pc s = Po_end \<longrightarrow> po_vals s = [0..n - 1] \<and> po_q s = [])
    \<and> (\<exists>t. (either produce_my_sp consume_my_sp)\<^sup>*\<^sup>* s t \<and> po_pc t = Po_end)"
  using my_spin.poll_correct [OF assms [unfolded programs]] by (simp add: programs)

text \<open>\<open>produce_mtx\<close> and \<open>consume_mtx\<close>; a negative size, which the consumer never meets, is excluded.\<close>

theorem mutex_threads_hand_over_everything:
  assumes "(either produce_mtx consume_mtx_std)\<^sup>*\<^sup>* (poll_start False False Po_lock n) s" "0 \<le> n"
  shows "\<not> (po_pk s \<and> po_ck s) \<and> (\<exists>m. po_vals s @ po_q s = [0..m - 1] \<and> m \<le> max 0 n)
    \<and> (po_pc s = Po_end \<longrightarrow> po_vals s = [0..n - 1] \<and> po_q s = [])
    \<and> (\<exists>t. (either produce_mtx consume_mtx_std)\<^sup>*\<^sup>* s t \<and> po_pc t = Po_end)"
  using mtx.mtx_correct [OF assms(1) [unfolded programs] _ _ assms(2)] by (simp add: programs)

end
