(* ===== verification/ThreadPool.thy ===== *)
theory ThreadPool
  imports Prelude "HOL-Library.Multiset"
begin

text \<open>
  \<open>thread_pool.cpp\<close>: a pool of \<open>n\<close> workers that run the tasks of a queue, with clients that
  submit tasks, terminate or cancel the pool. The queue has a mutex of its own, so that its
  operations are single steps; \<open>mtx_\<close> protects the flags and is the mutex of the condition
  variable. \<open>async\<close> takes \<open>mtx_\<close> only to look at the flags. Waiting on the condition
  variable releases \<open>mtx_\<close> and sleeps in one step; a notification wakes a sleeper and is lost
  when there is none. \<open>spurious\<close> says whether sleepers may also wake by themselves.
\<close>

section \<open>The pool\<close>

text \<open>A worker: before the mutex, inside the predicate, about to sleep, asleep, out of the wait with
  what it popped, running a task, returned.\<close>

datatype 'a worker_pc =
    W_lock | W_pred | W_wait | W_sleep | W_check "'a option" | W_run 'a | W_done | W_bad_call

datatype 'a client_pc =
    C_idle | C_emplace 'a | C_notify | C_stop_notify | C_clear | C_cancel_notify | C_join nat

record 'a threadpool =
  tp_stop :: bool
  tp_cancel :: bool
  tp_mtx :: "nat option"
  tp_tasks :: "'a list"
  tp_worker :: "nat \<Rightarrow> 'a worker_pc"
  tp_client :: "nat \<Rightarrow> 'a client_pc"

text \<open>After \<open>init(n)\<close>, which spawns the workers once.\<close>

definition threadpool_init :: "'a threadpool" where
  "threadpool_init = \<lparr>tp_stop = False, tp_cancel = False, tp_mtx = None, tp_tasks = [],
     tp_worker = (\<lambda>_. W_lock), tp_client = (\<lambda>_. C_idle)\<rparr>"

definition is_running :: "'a threadpool \<Rightarrow> bool" where
  "is_running s \<longleftrightarrow> \<not> tp_stop s \<and> \<not> tp_cancel s"

definition w_goes :: "nat \<Rightarrow> 'a worker_pc \<Rightarrow> 'a threadpool \<Rightarrow> 'a threadpool" where
  "w_goes w c s = s\<lparr>tp_worker := (tp_worker s)(w := c)\<rparr>"

definition c_goes :: "nat \<Rightarrow> 'a client_pc \<Rightarrow> 'a threadpool \<Rightarrow> 'a threadpool" where
  "c_goes k c s = s\<lparr>tp_client := (tp_client s)(k := c)\<rparr>"

definition wake_all :: "'a threadpool \<Rightarrow> 'a threadpool" where
  "wake_all s = s\<lparr>tp_worker := (\<lambda>w. if tp_worker s w = W_sleep then W_lock else tp_worker s w)\<rparr>"

datatype 'a pool_event = Tp_tau | Accepted 'a | Rejected 'a | Took 'a | Ran 'a | Dropped 'a | Stopped | Cleared | Joined

section \<open>Steps\<close>

text \<open>\<open>spawn\<close>. The flags are read once more after the mutex is released.\<close>

inductive spawn :: "nat \<Rightarrow> 'a threadpool \<Rightarrow> 'a pool_event \<Rightarrow> 'a threadpool \<Rightarrow> bool" where
  w_lock: "tp_worker s w = W_lock \<Longrightarrow> tp_mtx s = None \<Longrightarrow>
    spawn w s Tp_tau (w_goes w W_pred (s\<lparr>tp_mtx := Some w\<rparr>))"
| w_pop: "tp_worker s w = W_pred \<Longrightarrow> tp_tasks s = t # ts \<Longrightarrow>
    spawn w s (Took t) (w_goes w (W_check (Some t)) (s\<lparr>tp_tasks := ts, tp_mtx := None\<rparr>))"
| w_flag: "tp_worker s w = W_pred \<Longrightarrow> tp_tasks s = [] \<Longrightarrow> tp_cancel s \<or> tp_stop s \<Longrightarrow>
    spawn w s Tp_tau (w_goes w (W_check None) (s\<lparr>tp_mtx := None\<rparr>))"
| w_none: "tp_worker s w = W_pred \<Longrightarrow> tp_tasks s = [] \<Longrightarrow> \<not> (tp_cancel s \<or> tp_stop s) \<Longrightarrow>
    spawn w s Tp_tau (w_goes w W_wait s)"
| w_sleep: "tp_worker s w = W_wait \<Longrightarrow> spawn w s Tp_tau (w_goes w W_sleep (s\<lparr>tp_mtx := None\<rparr>))"
| w_drop: "tp_worker s w = W_check (Some t) \<Longrightarrow> tp_cancel s \<Longrightarrow> spawn w s (Dropped t) (w_goes w W_done s)"
| w_exit: "tp_worker s w = W_check None \<Longrightarrow> tp_cancel s \<or> tp_stop s \<Longrightarrow> spawn w s Tp_tau (w_goes w W_done s)"
| w_bad: "tp_worker s w = W_check None \<Longrightarrow> \<not> (tp_cancel s \<or> tp_stop s) \<Longrightarrow> spawn w s Tp_tau (w_goes w W_bad_call s)"
| w_start: "tp_worker s w = W_check (Some t) \<Longrightarrow> \<not> tp_cancel s \<Longrightarrow> spawn w s (Ran t) (w_goes w (W_run t) s)"
| w_end: "tp_worker s w = W_run t \<Longrightarrow> spawn w s Tp_tau (w_goes w W_lock s)"

text \<open>\<open>async\<close>, \<open>terminate\<close> and \<open>cancel\<close>. \<open>n\<close> is the number of workers.\<close>

inductive client :: "nat \<Rightarrow> nat \<Rightarrow> 'a threadpool \<Rightarrow> 'a pool_event \<Rightarrow> 'a threadpool \<Rightarrow> bool" for n :: nat where
  a_check: "tp_client s k = C_idle \<Longrightarrow> tp_mtx s = None \<Longrightarrow> \<not> (tp_stop s \<or> tp_cancel s) \<Longrightarrow>
    client n k s Tp_tau (c_goes k (C_emplace t) s)"
| a_throw: "tp_client s k = C_idle \<Longrightarrow> tp_mtx s = None \<Longrightarrow> tp_stop s \<or> tp_cancel s \<Longrightarrow> client n k s (Rejected t) s"
| a_emplace: "tp_client s k = C_emplace t \<Longrightarrow>
    client n k s (Accepted t) (c_goes k C_notify (s\<lparr>tp_tasks := tp_tasks s @ [t]\<rparr>))"
| a_notify: "tp_client s k = C_notify \<Longrightarrow> tp_worker s w = W_sleep \<Longrightarrow> w < n \<Longrightarrow>
    client n k s Tp_tau (c_goes k C_idle (w_goes w W_lock s))"
| a_lost: "tp_client s k = C_notify \<Longrightarrow> \<forall>w<n. tp_worker s w \<noteq> W_sleep \<Longrightarrow> client n k s Tp_tau (c_goes k C_idle s)"
| t_stop: "tp_client s k = C_idle \<Longrightarrow> tp_mtx s = None \<Longrightarrow> is_running s \<Longrightarrow>
    client n k s Stopped (c_goes k C_stop_notify (s\<lparr>tp_stop := True\<rparr>))"
| t_not: "tp_client s k = C_idle \<Longrightarrow> tp_mtx s = None \<Longrightarrow> \<not> is_running s \<Longrightarrow> client n k s Tp_tau s"
| t_notify: "tp_client s k = C_stop_notify \<or> tp_client s k = C_cancel_notify \<Longrightarrow>
    client n k s Tp_tau (c_goes k (C_join 0) (wake_all s))"
| x_cancel: "tp_client s k = C_idle \<Longrightarrow> tp_mtx s = None \<Longrightarrow> is_running s \<Longrightarrow>
    client n k s Tp_tau (c_goes k C_clear (s\<lparr>tp_cancel := True\<rparr>))"
| x_clear: "tp_client s k = C_clear \<Longrightarrow> client n k s Cleared (c_goes k C_cancel_notify (s\<lparr>tp_tasks := []\<rparr>))"
| j_next: "tp_client s k = C_join i \<Longrightarrow> i < n \<Longrightarrow> tp_worker s i = W_done \<Longrightarrow>
    client n k s Tp_tau (c_goes k (C_join (i + 1)) s)"
| j_done: "tp_client s k = C_join i \<Longrightarrow> \<not> i < n \<Longrightarrow> client n k s Joined (c_goes k C_idle s)"

inductive pool_step :: "bool \<Rightarrow> nat \<Rightarrow> 'a threadpool \<Rightarrow> 'a pool_event \<Rightarrow> 'a threadpool \<Rightarrow> bool"
  for spurious :: bool and n :: nat where
  "w < n \<Longrightarrow> spawn w s e t \<Longrightarrow> pool_step spurious n s e t"
| "client n k s e t \<Longrightarrow> pool_step spurious n s e t"
| "spurious \<Longrightarrow> w < n \<Longrightarrow> tp_worker s w = W_sleep \<Longrightarrow> pool_step spurious n s Tp_tau (w_goes w W_lock s)"

inductive pool_run :: "bool \<Rightarrow> nat \<Rightarrow> 'a pool_event list \<Rightarrow> 'a threadpool \<Rightarrow> bool" for spurious :: bool and n :: nat where
  tp_init: "pool_run spurious n [] threadpool_init"
| tp_next: "pool_run spurious n es s \<Longrightarrow> pool_step spurious n s e t \<Longrightarrow> pool_run spurious n (es @ [e]) t"

section \<open>What happens to tasks\<close>

definition accepted_of :: "'a pool_event list \<Rightarrow> 'a list" where
  "accepted_of es = concat (map (\<lambda>e. case e of Accepted t \<Rightarrow> [t] | _ \<Rightarrow> []) es)"

definition took_of :: "'a pool_event list \<Rightarrow> 'a list" where
  "took_of es = concat (map (\<lambda>e. case e of Took t \<Rightarrow> [t] | _ \<Rightarrow> []) es)"

definition ran_of :: "'a pool_event list \<Rightarrow> 'a list" where
  "ran_of es = concat (map (\<lambda>e. case e of Ran t \<Rightarrow> [t] | _ \<Rightarrow> []) es)"

fun in_hand :: "'a worker_pc \<Rightarrow> 'a multiset" where
  "in_hand (W_check (Some t)) = {#t#}" | "in_hand _ = {#}"

text \<open>No task was accepted after the pool had been stopped.\<close>

fun none_late :: "bool \<Rightarrow> 'a pool_event list \<Rightarrow> bool" where
  "none_late stopped [] = True"
| "none_late stopped (Stopped # es) = none_late True es"
| "none_late stopped (Accepted t # es) = (\<not> stopped \<and> none_late stopped es)"
| "none_late stopped (e # es) = none_late stopped es"

definition hands :: "nat \<Rightarrow> 'a threadpool \<Rightarrow> 'a multiset" where
  "hands n s = (\<Sum>w<n. in_hand (tp_worker s w))"

text \<open>As long as the pool is not cancelled, the queue holds what was accepted and not yet taken, and
  what was taken has been run or is in the hands of a worker about to run it.\<close>

definition flow_ok :: "nat \<Rightarrow> 'a pool_event list \<Rightarrow> 'a threadpool \<Rightarrow> bool" where
  "flow_ok n es s \<longleftrightarrow> (\<not> tp_cancel s \<longrightarrow> accepted_of es = took_of es @ tp_tasks s
     \<and> mset (took_of es) = mset (ran_of es) + hands n s)"

definition leaving :: "'a worker_pc \<Rightarrow> bool" where
  "leaving c \<longleftrightarrow> c = W_check None \<or> c = W_done"

definition flags_ok :: "nat \<Rightarrow> 'a pool_event list \<Rightarrow> 'a threadpool \<Rightarrow> bool" where
  "flags_ok n es s \<longleftrightarrow> (\<forall>w<n. tp_worker s w \<noteq> W_bad_call \<and> (leaving (tp_worker s w) \<longrightarrow> tp_cancel s \<or> tp_stop s))
     \<and> (Stopped \<in> set es \<longleftrightarrow> tp_stop s)
     \<and> (\<forall>k. tp_client s k = C_clear \<or> tp_client s k = C_cancel_notify \<longrightarrow> tp_cancel s)
     \<and> (\<forall>k i. tp_client s k = C_join i \<longrightarrow> (\<forall>j<i. j < n \<longrightarrow> tp_worker s j = W_done))"

definition drained_ok :: "nat \<Rightarrow> 'a pool_event list \<Rightarrow> 'a threadpool \<Rightarrow> bool" where
  "drained_ok n es s \<longleftrightarrow>
     (none_late False es \<and> \<not> tp_cancel s \<and> (\<exists>w<n. leaving (tp_worker s w)) \<longrightarrow> tp_tasks s = [])"

lemma w_goes_simps [simp]:
  "tp_stop (w_goes w c s) = tp_stop s" "tp_cancel (w_goes w c s) = tp_cancel s" "tp_mtx (w_goes w c s) = tp_mtx s"
  "tp_tasks (w_goes w c s) = tp_tasks s" "tp_client (w_goes w c s) = tp_client s"
  "tp_worker (w_goes w c s) = (tp_worker s)(w := c)"
  "tp_stop (c_goes k d s) = tp_stop s" "tp_cancel (c_goes k d s) = tp_cancel s" "tp_mtx (c_goes k d s) = tp_mtx s"
  "tp_tasks (c_goes k d s) = tp_tasks s" "tp_worker (c_goes k d s) = tp_worker s"
  "tp_client (c_goes k d s) = (tp_client s)(k := d)"
  "tp_stop (wake_all s) = tp_stop s" "tp_cancel (wake_all s) = tp_cancel s" "tp_tasks (wake_all s) = tp_tasks s"
  "tp_client (wake_all s) = tp_client s"
  by (simp_all add: w_goes_def c_goes_def wake_all_def)

lemma events_append [simp]:
  "accepted_of (es @ [e]) = accepted_of es @ (case e of Accepted t \<Rightarrow> [t] | _ \<Rightarrow> [])"
  "took_of (es @ [e]) = took_of es @ (case e of Took t \<Rightarrow> [t] | _ \<Rightarrow> [])"
  "ran_of (es @ [e]) = ran_of es @ (case e of Ran t \<Rightarrow> [t] | _ \<Rightarrow> [])"
  by (simp_all add: accepted_of_def took_of_def ran_of_def)

lemma none_late_append:
  "none_late b (es @ [e]) \<longleftrightarrow> none_late b es \<and> (case e of Accepted t \<Rightarrow> \<not> b \<and> Stopped \<notin> set es | _ \<Rightarrow> True)"
  by (induction b es rule: none_late.induct) (auto split: pool_event.splits)

lemma hands_goes:
  assumes "w < n"
  shows "hands n (w_goes w c s) + in_hand (tp_worker s w) = hands n s + in_hand c"
proof -
  have "hands n (w_goes w c s) = in_hand c + (\<Sum>v\<in>{..<n} - {w}. in_hand (tp_worker s v))"
    using assms unfolding hands_def by (subst sum.remove[of _ w]) (auto intro: sum.cong)
  moreover have "hands n s = in_hand (tp_worker s w) + (\<Sum>v\<in>{..<n} - {w}. in_hand (tp_worker s v))"
    using assms unfolding hands_def by (subst sum.remove[of _ w]) auto
  ultimately show ?thesis by (simp add: ac_simps)
qed

lemma hands_cong: "tp_worker s = tp_worker t \<Longrightarrow> hands n s = hands n t"
  by (simp add: hands_def)

lemma hands_wake [simp]: "hands n (wake_all s) = hands n s"
  unfolding hands_def by (rule sum.cong) (simp_all add: wake_all_def)

lemma hands_fields [simp]:
  "hands n (s\<lparr>tp_mtx := m\<rparr>) = hands n s" "hands n (s\<lparr>tp_tasks := ts\<rparr>) = hands n s" "hands n (s\<lparr>tp_stop := b\<rparr>) = hands n s"
  "hands n (s\<lparr>tp_cancel := b\<rparr>) = hands n s" "hands n (c_goes k d s) = hands n s"
  by (simp_all add: hands_def)

lemma hands_idle: "w < n \<Longrightarrow> in_hand c = in_hand (tp_worker s w) \<Longrightarrow> hands n (w_goes w c s) = hands n s"
  using hands_goes[of w n c s] by simp

lemma flow_spawn:
  assumes "spawn w s e t" "w < n" "flow_ok n es s"
  shows "flow_ok n (es @ [e]) t"
  using assms(1)
proof cases
  case (w_pop x ts)
  then show ?thesis using hands_goes[OF assms(2), of "W_check (Some x)" s] assms(3)
    by (auto simp: flow_ok_def hands_def)
next
  case (w_start x)
  then show ?thesis using hands_goes[OF assms(2), of "W_run x" s] assms(3) by (simp add: flow_ok_def)
qed (use assms(2,3) in \<open>auto simp: flow_ok_def hands_idle\<close>)

lemma flow_step:
  assumes "pool_step b n s e t" "flow_ok n es s" "flags_ok n es s"
  shows "flow_ok n (es @ [e]) t"
  using assms(1)
proof cases
  case (1 w)
  then show ?thesis using flow_spawn assms(2) by blast
next
  case (2 k)
  show ?thesis using 2 assms(2,3) by cases (auto simp: flow_ok_def flags_ok_def hands_idle)
qed (use assms(2) in \<open>auto simp: flow_ok_def hands_idle\<close>)

lemma flags_step:
  assumes "pool_step b n s e t" "flags_ok n es s"
  shows "flags_ok n (es @ [e]) t"
  using assms(1)
proof cases
  case (1 w)
  show ?thesis using 1(2) assms(2) by cases (auto simp: flags_ok_def leaving_def)
next
  case (2 k)
  show ?thesis using 2 assms(2) by cases (auto simp: flags_ok_def leaving_def wake_all_def less_Suc_eq)
qed (use assms(2) in \<open>auto simp: flags_ok_def leaving_def\<close>)

lemma drained_step:
  assumes "pool_step b n s e t" "drained_ok n es s" "flags_ok n es s"
  shows "drained_ok n (es @ [e]) t"
  using assms(1)
proof cases
  case (1 w)
  show ?thesis using 1(2) assms(2) by cases (auto simp: drained_ok_def leaving_def none_late_append split: if_splits)
next
  case (2 k)
  show ?thesis using 2 assms(2,3)
    by cases (auto simp: drained_ok_def flags_ok_def leaving_def none_late_append wake_all_def split: if_splits)
qed (use assms(2) in \<open>auto simp: drained_ok_def leaving_def none_late_append split: if_splits\<close>)

lemma pool_run_inv:
  "pool_run b n es s \<Longrightarrow> flow_ok n es s \<and> flags_ok n es s \<and> drained_ok n es s"
proof (induction rule: pool_run.induct)
  case tp_init
  then show ?case
    by (simp add: flow_ok_def flags_ok_def drained_ok_def threadpool_init_def leaving_def hands_def accepted_of_def
        took_of_def ran_of_def)
next
  case (tp_next es s e t)
  then show ?case using flow_step flags_step drained_step by blast
qed


section \<open>Properties\<close>

text \<open>C26: The pool runs every task once. In every interleaving of any number of workers and clients,
  as long as the pool is not cancelled, the tasks are taken from the queue in the order in
  which \<open>async\<close> accepted them, each taken task is started once or is in the hands of a worker
  that is about to start it, and no worker ever calls an empty function.\<close>

theorem pool_runs_each_task_once:
  assumes "pool_run spurious n es s" "\<not> tp_cancel s"
  shows "accepted_of es = took_of es @ tp_tasks s \<and> mset (took_of es) = mset (ran_of es) + hands n s
    \<and> (\<forall>w<n. tp_worker s w \<noteq> W_bad_call)"
  using pool_run_inv[OF assms(1)] assms(2) by (auto simp: flow_ok_def flags_ok_def)

text \<open>C27: \<open>terminate\<close> lets the pool finish its work: when it returns in a pool that has workers, was
  not cancelled and accepted nothing after the flag was set, all workers have returned and
  the tasks that were run are exactly the accepted ones.\<close>

theorem terminate_runs_everything:
  assumes "pool_run spurious n es s" "pool_step spurious n s Joined t" "none_late False es" "\<not> tp_cancel t" "0 < n"
  shows "(\<forall>w<n. tp_worker t w = W_done) \<and> tp_tasks t = [] \<and> mset (ran_of es) = mset (accepted_of es)"
proof -
  have inv: "flow_ok n es s" "flags_ok n es s" "drained_ok n es s" using pool_run_inv[OF assms(1)] by simp_all
  obtain k i where k: "tp_client s k = C_join i" "\<not> i < n" "t = c_goes k C_idle s"
    using assms(2)
  proof cases
    case (1 w)
    then show ?thesis by (auto elim: spawn.cases)
  next
    case (2 k)
    then show ?thesis by cases (use that in auto)
  qed
  have all: "\<forall>w<n. tp_worker s w = W_done" using inv(2) k(1,2) by (auto simp: flags_ok_def)
  have nc: "\<not> tp_cancel s" using assms(4) k(3) by simp
  have "tp_tasks s = []" using inv(3) all assms(3,5) nc by (auto simp: drained_ok_def leaving_def)
  moreover have "hands n s = {#}" using all by (simp add: hands_def)
  ultimately show ?thesis using inv(1) all nc by (simp add: flow_ok_def k(3))
qed

text \<open>One worker and the clients 0 and 1.\<close>

definition tp :: "bool \<Rightarrow> nat option \<Rightarrow> nat list \<Rightarrow> nat worker_pc \<Rightarrow> nat client_pc \<Rightarrow> nat client_pc \<Rightarrow> nat threadpool" where
  "tp st m ts w c d = \<lparr>tp_stop = st, tp_cancel = False, tp_mtx = m, tp_tasks = ts,
     tp_worker = (\<lambda>_. W_lock)(0 := w), tp_client = (\<lambda>_. C_idle)(0 := c, 1 := d)\<rparr>"

lemma tp_simps [simp]:
  "tp_stop (tp st m ts w c d) = st" "\<not> tp_cancel (tp st m ts w c d)" "tp_mtx (tp st m ts w c d) = m"
  "tp_tasks (tp st m ts w c d) = ts" "tp_worker (tp st m ts w c d) 0 = w" "tp_client (tp st m ts w c d) 0 = c"
  "tp_client (tp st m ts w c d) 1 = d" "tp_client (tp st m ts w c d) (Suc 0) = d"
  "w_goes 0 w' (tp st m ts w c d) = tp st m ts w' c d" "c_goes 0 c' (tp st m ts w c d) = tp st m ts w c' d"
  "c_goes 1 d' (tp st m ts w c d) = tp st m ts w c d'" "c_goes (Suc 0) d' (tp st m ts w c d) = tp st m ts w c d'"
  "tp st m ts w c d\<lparr>tp_mtx := m'\<rparr> = tp st m' ts w c d" "tp st m ts w c d\<lparr>tp_tasks := ts'\<rparr> = tp st m ts' w c d"
  "tp st m ts w c d\<lparr>tp_stop := st'\<rparr> = tp st' m ts w c d"
  by (simp_all add: tp_def w_goes_def c_goes_def fun_upd_twist)

lemma tp_wake [simp]: "wake_all (tp st m ts w c d) = tp st m ts (if w = W_sleep then W_lock else w) c d"
  by (auto simp: tp_def wake_all_def fun_eq_iff)

lemma tp_start: "(threadpool_init :: nat threadpool) = tp False None [] W_lock C_idle C_idle"
  by (simp add: threadpool_init_def tp_def fun_eq_iff)

lemma run_w: "pool_run False 1 es s \<Longrightarrow> spawn 0 s e t \<Longrightarrow> pool_run False 1 (es @ [e]) t"
  by (rule pool_run.tp_next[OF _ pool_step.intros(1)]) auto

lemma run_c: "pool_run False 1 es s \<Longrightarrow> client 1 k s e t \<Longrightarrow> pool_run False 1 (es @ [e]) t"
  by (rule pool_run.tp_next[OF _ pool_step.intros(2)]) auto

lemma tp_running [simp]: "is_running (tp st m ts w c d) \<longleftrightarrow> \<not> st"
  by (simp add: is_running_def)

lemma tp_lost:
  "pool_run False 1 [Tp_tau, Tp_tau, Tp_tau, Accepted 7, Tp_tau, Tp_tau]
     (tp False None [7] W_sleep C_idle C_idle)"
proof -
  have "pool_run False 1 [] (tp False None [] W_lock C_idle C_idle)" unfolding tp_start[symmetric] by (rule pool_run.tp_init)
  from run_c[OF this a_check[of _ 0 1 7]]
  have "pool_run False 1 [Tp_tau] (tp False None [] W_lock (C_emplace 7) C_idle)" by simp
  from run_w[OF this w_lock[of _ 0]]
  have "pool_run False 1 [Tp_tau, Tp_tau] (tp False (Some 0) [] W_pred (C_emplace 7) C_idle)" by simp
  from run_w[OF this w_none[of _ 0]]
  have "pool_run False 1 [Tp_tau, Tp_tau, Tp_tau] (tp False (Some 0) [] W_wait (C_emplace 7) C_idle)" by simp
  from run_c[OF this a_emplace[of _ 0 7 1]]
  have "pool_run False 1 [Tp_tau, Tp_tau, Tp_tau, Accepted 7] (tp False (Some 0) [7] W_wait C_notify C_idle)" by simp
  from run_c[OF this a_lost[of _ 0 1]]
  have "pool_run False 1 [Tp_tau, Tp_tau, Tp_tau, Accepted 7, Tp_tau] (tp False (Some 0) [7] W_wait C_idle C_idle)" by simp
  from run_w[OF this w_sleep[of _ 0]] show ?thesis by simp
qed

lemma tp_late:
  "pool_run False 1 [Tp_tau, Stopped, Tp_tau, Tp_tau, Tp_tau, Tp_tau, Tp_tau, Joined, Accepted 7, Tp_tau]
     (tp True None [7] W_done C_idle C_idle)"
proof -
  have "pool_run False 1 [] (tp False None [] W_lock C_idle C_idle)" unfolding tp_start[symmetric] by (rule pool_run.tp_init)
  from run_c[OF this a_check[of _ 0 1 7]]
  have "pool_run False 1 [Tp_tau] (tp False None [] W_lock (C_emplace 7) C_idle)" by simp
  from run_c[OF this t_stop[of _ 1 1]]
  have "pool_run False 1 [Tp_tau, Stopped] (tp True None [] W_lock (C_emplace 7) C_stop_notify)" by simp
  from run_c[OF this t_notify[of _ 1 1]]
  have "pool_run False 1 [Tp_tau, Stopped, Tp_tau] (tp True None [] W_lock (C_emplace 7) (C_join 0))" by simp
  from run_w[OF this w_lock[of _ 0]]
  have "pool_run False 1 [Tp_tau, Stopped, Tp_tau, Tp_tau] (tp True (Some 0) [] W_pred (C_emplace 7) (C_join 0))" by simp
  from run_w[OF this w_flag[of _ 0]]
  have "pool_run False 1 [Tp_tau, Stopped, Tp_tau, Tp_tau, Tp_tau] (tp True None [] (W_check None) (C_emplace 7) (C_join 0))" by simp
  from run_w[OF this w_exit[of _ 0]]
  have "pool_run False 1 [Tp_tau, Stopped, Tp_tau, Tp_tau, Tp_tau, Tp_tau] (tp True None [] W_done (C_emplace 7) (C_join 0))" by simp
  from run_c[OF this j_next[of _ 1 0 1]]
  have "pool_run False 1 [Tp_tau, Stopped, Tp_tau, Tp_tau, Tp_tau, Tp_tau, Tp_tau] (tp True None [] W_done (C_emplace 7) (C_join 1))" by simp
  from run_c[OF this j_done[of _ 1 1 1]]
  have "pool_run False 1 [Tp_tau, Stopped, Tp_tau, Tp_tau, Tp_tau, Tp_tau, Tp_tau, Joined] (tp True None [] W_done (C_emplace 7) C_idle)" by simp
  from run_c[OF this a_emplace[of _ 0 7 1]]
  have "pool_run False 1 [Tp_tau, Stopped, Tp_tau, Tp_tau, Tp_tau, Tp_tau, Tp_tau, Joined, Accepted 7] (tp True None [7] W_done C_notify C_idle)" by simp
  from run_c[OF this a_lost[of _ 0 1]] show ?thesis by simp
qed

lemma tp_ok:
  "pool_run False 1 [Tp_tau, Accepted 7, Tp_tau, Stopped, Tp_tau, Tp_tau, Took 7, Ran 7, Tp_tau, Tp_tau, Tp_tau, Tp_tau, Tp_tau]
     (tp True None [] W_done C_idle (C_join 1))"
proof -
  have "pool_run False 1 [] (tp False None [] W_lock C_idle C_idle)" unfolding tp_start[symmetric] by (rule pool_run.tp_init)
  from run_c[OF this a_check[of _ 0 1 7]]
  have "pool_run False 1 [Tp_tau] (tp False None [] W_lock (C_emplace 7) C_idle)" by simp
  from run_c[OF this a_emplace[of _ 0 7 1]]
  have "pool_run False 1 [Tp_tau, Accepted 7] (tp False None [7] W_lock C_notify C_idle)" by simp
  from run_c[OF this a_lost[of _ 0 1]]
  have "pool_run False 1 [Tp_tau, Accepted 7, Tp_tau] (tp False None [7] W_lock C_idle C_idle)" by simp
  from run_c[OF this t_stop[of _ 1 1]]
  have "pool_run False 1 [Tp_tau, Accepted 7, Tp_tau, Stopped] (tp True None [7] W_lock C_idle C_stop_notify)" by simp
  from run_c[OF this t_notify[of _ 1 1]]
  have "pool_run False 1 [Tp_tau, Accepted 7, Tp_tau, Stopped, Tp_tau] (tp True None [7] W_lock C_idle (C_join 0))" by simp
  from run_w[OF this w_lock[of _ 0]]
  have "pool_run False 1 [Tp_tau, Accepted 7, Tp_tau, Stopped, Tp_tau, Tp_tau] (tp True (Some 0) [7] W_pred C_idle (C_join 0))" by simp
  from run_w[OF this w_pop[of _ 0 7 "[]"]]
  have "pool_run False 1 [Tp_tau, Accepted 7, Tp_tau, Stopped, Tp_tau, Tp_tau, Took 7] (tp True None [] (W_check (Some 7)) C_idle (C_join 0))" by simp
  from run_w[OF this w_start[of _ 0 7]]
  have "pool_run False 1 [Tp_tau, Accepted 7, Tp_tau, Stopped, Tp_tau, Tp_tau, Took 7, Ran 7] (tp True None [] (W_run 7) C_idle (C_join 0))" by simp
  from run_w[OF this w_end[of _ 0 7]]
  have "pool_run False 1 [Tp_tau, Accepted 7, Tp_tau, Stopped, Tp_tau, Tp_tau, Took 7, Ran 7, Tp_tau] (tp True None [] W_lock C_idle (C_join 0))" by simp
  from run_w[OF this w_lock[of _ 0]]
  have "pool_run False 1 [Tp_tau, Accepted 7, Tp_tau, Stopped, Tp_tau, Tp_tau, Took 7, Ran 7, Tp_tau, Tp_tau] (tp True (Some 0) [] W_pred C_idle (C_join 0))" by simp
  from run_w[OF this w_flag[of _ 0]]
  have "pool_run False 1 [Tp_tau, Accepted 7, Tp_tau, Stopped, Tp_tau, Tp_tau, Took 7, Ran 7, Tp_tau, Tp_tau, Tp_tau] (tp True None [] (W_check None) C_idle (C_join 0))" by simp
  from run_w[OF this w_exit[of _ 0]]
  have "pool_run False 1 [Tp_tau, Accepted 7, Tp_tau, Stopped, Tp_tau, Tp_tau, Took 7, Ran 7, Tp_tau, Tp_tau, Tp_tau, Tp_tau] (tp True None [] W_done C_idle (C_join 0))" by simp
  from run_c[OF this j_next[of _ 1 0 1]] show ?thesis by simp
qed

theorem pool_runs_each_task_once_witness:
  "\<exists>es s. pool_run False 1 es s \<and> accepted_of es = [7 :: nat] \<and> took_of es = [7] \<and> tp_tasks s = []"
proof -
  let ?es = "[Tp_tau, Accepted 7, Tp_tau, Stopped, Tp_tau, Tp_tau, Took 7, Ran 7, Tp_tau, Tp_tau, Tp_tau, Tp_tau, Tp_tau] :: nat pool_event list"
  have "accepted_of ?es = took_of ?es @ []" using pool_runs_each_task_once[OF tp_ok] by simp
  then show ?thesis using tp_ok by (intro exI[of _ ?es] exI[of _ "tp True None [] W_done C_idle (C_join 1)"]) (simp add: accepted_of_def)
qed

theorem terminate_runs_everything_witness:
  "\<exists>es s t. pool_run False 1 es s \<and> pool_step False 1 s Joined t \<and> accepted_of es = [7 :: nat] \<and> mset (ran_of es) = {#7#}"
proof -
  let ?es = "[Tp_tau, Accepted 7, Tp_tau, Stopped, Tp_tau, Tp_tau, Took 7, Ran 7, Tp_tau, Tp_tau, Tp_tau, Tp_tau, Tp_tau] :: nat pool_event list"
  let ?s = "tp True None [] W_done C_idle (C_join 1)"
  have j: "pool_step False 1 ?s Joined (c_goes 1 C_idle ?s)"
    by (rule pool_step.intros(2)[OF j_done[of _ 1 1]]) simp_all
  have a: "accepted_of ?es = [7]" by (simp add: accepted_of_def)
  have "mset (ran_of ?es) = mset (accepted_of ?es)" using terminate_runs_everything[OF tp_ok j] by simp
  then have "mset (ran_of ?es) = {#7#}" by (simp add: a)
  then show ?thesis using tp_ok j a by (intro exI[of _ ?es] exI[of _ ?s] exI[of _ "c_goes 1 C_idle ?s"] conjI)
qed

text \<open>A wake-up can be lost. \<open>async\<close> puts its task into the queue without holding \<open>mtx_\<close>, so it
  can do so, and notify nobody, between the predicate of a worker and its sleep: the task is
  in the queue, every call has returned, and the only worker sleeps and has no step.\<close>

theorem pool_can_sleep_on_a_task:
  "\<exists>es s. pool_run False 1 es s \<and> accepted_of es = [7 :: nat] \<and> tp_tasks s = [7] \<and> is_running s
     \<and> (\<forall>k. tp_client s k = C_idle) \<and> tp_worker s 0 = W_sleep \<and> (\<forall>e t. \<not> spawn 0 s e t)"
proof (intro exI conjI)
  show "pool_run False 1 [Tp_tau, Tp_tau, Tp_tau, Accepted 7, Tp_tau, Tp_tau] (tp False None [7] W_sleep C_idle C_idle)" by (rule tp_lost)
  show "\<forall>e t. \<not> spawn 0 (tp False None [7] W_sleep C_idle C_idle) e t" by (auto elim: spawn.cases)
qed (simp_all add: accepted_of_def, simp add: tp_def)

text \<open>A task can be accepted and never run. A client that has passed the check of the flags
  before \<open>terminate\<close> set them puts its task into the queue after all workers have returned and
  \<open>terminate\<close> has joined them; its future never becomes ready.\<close>

theorem late_task_is_never_run:
  "\<exists>es s. pool_run False 1 es s \<and> Joined \<in> set es \<and> accepted_of es = [7 :: nat] \<and> ran_of es = []
     \<and> (\<forall>k. tp_client s k = C_idle) \<and> tp_worker s 0 = W_done \<and> (\<forall>e t. \<not> spawn 0 s e t)"
proof (intro exI conjI)
  show "pool_run False 1 [Tp_tau, Stopped, Tp_tau, Tp_tau, Tp_tau, Tp_tau, Tp_tau, Joined, Accepted 7, Tp_tau]
      (tp True None [7] W_done C_idle C_idle)" by (rule tp_late)
  show "\<forall>e t. \<not> spawn 0 (tp True None [7] W_done C_idle C_idle) e t" by (auto elim: spawn.cases)
qed (simp_all add: accepted_of_def ran_of_def, simp add: tp_def)

end
