(* ===== verification/ThreadsafeList.thy ===== *)
theory ThreadsafeList
  imports Prelude
begin

text \<open>
  \<open>Cpp_concurrency_in_action/chapter6/6.3.2_threadsafe_list.cpp\<close>: a singly linked list with a mutex in
  each node. A thread walks along it hand over hand: it takes the mutex of the next node before it
  gives back that of the current one. Any number of threads; taking a mutex is a step, and what is
  done to nodes whose mutexes are held, together with the release that follows, is a step. An
  address is a number, 0 is the head, and \<open>new\<close> may return any address that is not in use.
\<close>

section \<open>The list\<close>

text \<open>A node: its value, which the head does not have, and the address of the next node.\<close>

type_synonym 'a tsl_node = "'a option \<times> nat option"

text \<open>The function of \<open>for_each\<close> gets a reference to the element and may change it; the predicates only
  read theirs.\<close>

datatype 'a walk_kind = For_each "'a \<Rightarrow> 'a" | Find_first_if "'a \<Rightarrow> bool" | Remove_if "'a \<Rightarrow> bool"

datatype 'a tsl_pc =
    T_idle
  | T_push 'a nat
  | T_start "'a walk_kind" | T_at "'a walk_kind" nat | T_want "'a walk_kind" nat nat
  | T_both "'a walk_kind" nat nat | T_visit "'a walk_kind" nat | T_delete "'a walk_kind" nat nat
  | T_undefined

record 'a tsl =
  tl_heap :: "nat \<Rightarrow> 'a tsl_node option"
  tl_owner :: "nat \<Rightarrow> nat option"
  tl_pc :: "nat \<Rightarrow> 'a tsl_pc"

definition tsl_ctor :: "'a tsl" where
  "tsl_ctor = \<lparr>tl_heap = [0 \<mapsto> (None, None)], tl_owner = (\<lambda>_. None), tl_pc = (\<lambda>_. T_idle)\<rparr>"

datatype 'a tsl_event = Tl_tau | Tl_pushed 'a | Tl_visited 'a 'a | Tl_found 'a | Tl_removed 'a | Tl_end

definition tl_goes :: "nat \<Rightarrow> 'a tsl_pc \<Rightarrow> 'a tsl \<Rightarrow> 'a tsl" where
  "tl_goes p c s = s\<lparr>tl_pc := (tl_pc s)(p := c)\<rparr>"

definition tl_put :: "nat \<Rightarrow> 'a tsl_node option \<Rightarrow> 'a tsl \<Rightarrow> 'a tsl" where
  "tl_put a n s = s\<lparr>tl_heap := (tl_heap s)(a := n)\<rparr>"

definition tl_own :: "nat \<Rightarrow> nat option \<Rightarrow> 'a tsl \<Rightarrow> 'a tsl" where
  "tl_own a q s = s\<lparr>tl_owner := (tl_owner s)(a := q)\<rparr>"

fun removes :: "'a walk_kind \<Rightarrow> bool" where
  "removes (Remove_if P) = True" | "removes _ = False"

text \<open>The first argument is the thread that makes the step.\<close>

inductive tsl_step :: "nat \<Rightarrow> 'a tsl \<Rightarrow> 'a tsl_event \<Rightarrow> 'a tsl \<Rightarrow> bool" for p :: nat where
  tl_new: "tl_pc s p = T_idle \<Longrightarrow> tl_heap s a = None \<Longrightarrow>
    tsl_step p s Tl_tau (tl_goes p (T_push v a) (tl_put a (Some (Some v, None)) s))"
| tl_push: "tl_pc s p = T_push v a \<Longrightarrow> tl_owner s 0 = None \<Longrightarrow> tl_heap s 0 = Some (d, nx) \<Longrightarrow>
    tsl_step p s (Tl_pushed v) (tl_goes p T_idle (tl_put 0 (Some (d, Some a)) (tl_put a (Some (Some v, nx)) s)))"
| tl_call: "tl_pc s p = T_idle \<Longrightarrow> tsl_step p s Tl_tau (tl_goes p (T_start k) s)"
| tl_lock_head: "tl_pc s p = T_start k \<Longrightarrow> tl_owner s 0 = None \<Longrightarrow>
    tsl_step p s Tl_tau (tl_goes p (T_at k 0) (tl_own 0 (Some p) s))"
| tl_next: "tl_pc s p = T_at k c \<Longrightarrow> tl_heap s c = Some (d, Some n) \<Longrightarrow>
    tsl_step p s Tl_tau (tl_goes p (T_want k c n) s)"
| tl_last: "tl_pc s p = T_at k c \<Longrightarrow> tl_heap s c = Some (d, None) \<Longrightarrow>
    tsl_step p s Tl_end (tl_goes p T_idle (tl_own c None s))"
| tl_lock_next: "tl_pc s p = T_want k c n \<Longrightarrow> tl_owner s n = None \<Longrightarrow> tl_heap s n \<noteq> None \<Longrightarrow>
    tsl_step p s Tl_tau (tl_goes p (T_both k c n) (tl_own n (Some p) s))"
| tl_unlock: "tl_pc s p = T_both k c n \<Longrightarrow> \<not> removes k \<Longrightarrow>
    tsl_step p s Tl_tau (tl_goes p (T_visit k n) (tl_own c None s))"
| tl_visit: "tl_pc s p = T_visit (For_each f) n \<Longrightarrow> tl_heap s n = Some (Some x, nx) \<Longrightarrow>
    tsl_step p s (Tl_visited x (f x)) (tl_goes p (T_at (For_each f) n) (tl_put n (Some (Some (f x), nx)) s))"
| tl_found: "tl_pc s p = T_visit (Find_first_if P) n \<Longrightarrow> tl_heap s n = Some (Some x, nx) \<Longrightarrow> P x \<Longrightarrow>
    tsl_step p s (Tl_found x) (tl_goes p T_idle (tl_own n None s))"
| tl_pass: "tl_pc s p = T_visit (Find_first_if P) n \<Longrightarrow> tl_heap s n = Some (Some x, nx) \<Longrightarrow> \<not> P x \<Longrightarrow>
    tsl_step p s Tl_tau (tl_goes p (T_at (Find_first_if P) n) s)"
| tl_unlink: "tl_pc s p = T_both (Remove_if P) c n \<Longrightarrow> tl_heap s n = Some (Some x, nx) \<Longrightarrow> P x \<Longrightarrow> tl_heap s c = Some (d, Some n) \<Longrightarrow>
    tsl_step p s (Tl_removed x) (tl_goes p (T_delete (Remove_if P) c n)
      (tl_own n None (tl_put n (Some (Some x, None)) (tl_put c (Some (d, nx)) s))))"
| tl_keep: "tl_pc s p = T_both (Remove_if P) c n \<Longrightarrow> tl_heap s n = Some (Some x, nx) \<Longrightarrow> \<not> P x \<Longrightarrow>
    tsl_step p s Tl_tau (tl_goes p (T_at (Remove_if P) n) (tl_own c None s))"
| tl_delete: "tl_pc s p = T_delete k c n \<Longrightarrow> tl_owner s n = None \<Longrightarrow> tl_heap s n \<noteq> None \<Longrightarrow>
    tsl_step p s Tl_tau (tl_goes p (T_at k c) (tl_put n None s))"
| tl_bad: "tl_pc s p = T_push v a \<and> tl_owner s 0 = None \<and> tl_heap s 0 = None \<or> tl_pc s p = T_at k c \<and> tl_heap s c = None
      \<or> tl_pc s p = T_want k c n \<and> tl_heap s n = None
      \<or> (tl_pc s p = T_visit k n \<or> tl_pc s p = T_both k c n \<and> removes k) \<and> (\<forall>x nx. tl_heap s n \<noteq> Some (Some x, nx))
      \<or> tl_pc s p = T_both k c n \<and> removes k \<and> (\<forall>d. tl_heap s c \<noteq> Some (d, Some n))
      \<or> tl_pc s p = T_delete k c n \<and> (tl_owner s n \<noteq> None \<or> (\<exists>q k c. tl_pc s q = T_want k c n) \<or> tl_heap s n = None) \<Longrightarrow>
    tsl_step p s Tl_tau (tl_goes p T_undefined s)"

inductive tsl_run :: "'a tsl_event list \<Rightarrow> 'a tsl \<Rightarrow> bool" where
  tl_init: "tsl_run [] tsl_ctor"
| tl_more: "tsl_run es s \<Longrightarrow> tsl_step p s e t \<Longrightarrow> tsl_run (es @ [e]) t"

section \<open>The specification\<close>

inductive list_step :: "'a list \<Rightarrow> 'a tsl_event \<Rightarrow> 'a list \<Rightarrow> bool" where
  "list_step xs Tl_tau xs"
| "list_step xs (Tl_pushed v) (v # xs)"
| "list_step (xs @ x # ys) (Tl_visited x y) (xs @ y # ys)"
| "x \<in> set xs \<Longrightarrow> list_step xs (Tl_found x) xs"
| "list_step (xs @ x # ys) (Tl_removed x) (xs @ ys)"
| "list_step xs Tl_end xs"

inductive list_run :: "'a tsl_event list \<Rightarrow> 'a list \<Rightarrow> bool" where
  "list_run [] []"
| "list_run es xs \<Longrightarrow> list_step xs e ys \<Longrightarrow> list_run (es @ [e]) ys"

section \<open>The invariant\<close>

text \<open>The nodes \<open>ns\<close> from \<open>a\<close> on and their values.\<close>

fun tl_chain :: "(nat \<Rightarrow> 'a tsl_node option) \<Rightarrow> nat option \<Rightarrow> nat list \<Rightarrow> 'a list \<Rightarrow> bool" where
  "tl_chain H a [] [] = (a = None)"
| "tl_chain H a (n # ns) (x # xs) = (a = Some n \<and> (\<exists>b. H n = Some (Some x, b) \<and> tl_chain H b ns xs))"
| "tl_chain H a _ _ = False"

fun tl_holds :: "'a tsl_pc \<Rightarrow> nat set" where
  "tl_holds (T_at k c) = {c}" | "tl_holds (T_want k c n) = {c}" | "tl_holds (T_both k c n) = {c, n}"
| "tl_holds (T_visit k n) = {n}" | "tl_holds (T_delete k c n) = {c}" | "tl_holds _ = {}"

fun tl_mine :: "'a tsl_pc \<Rightarrow> nat option" where
  "tl_mine (T_push v a) = Some a" | "tl_mine (T_delete k c n) = Some n" | "tl_mine _ = None"

definition tl_list :: "'a tsl \<Rightarrow> nat list \<Rightarrow> 'a list \<Rightarrow> bool" where
  "tl_list s ns xs \<longleftrightarrow> distinct (0 # ns) \<and> (\<exists>a. tl_heap s 0 = Some (None, a) \<and> tl_chain (tl_heap s) a ns xs)"

definition tl_locks :: "'a tsl \<Rightarrow> nat list \<Rightarrow> bool" where
  "tl_locks s ns \<longleftrightarrow> (\<forall>p a. a \<in> tl_holds (tl_pc s p) \<longleftrightarrow> tl_owner s a = Some p)
     \<and> (\<forall>p. tl_holds (tl_pc s p) \<subseteq> set (0 # ns))"

definition tl_owned :: "'a tsl \<Rightarrow> nat list \<Rightarrow> bool" where
  "tl_owned s ns \<longleftrightarrow> (\<forall>p a. tl_mine (tl_pc s p) = Some a \<longrightarrow> tl_heap s a \<noteq> None \<and> a \<notin> set (0 # ns))
     \<and> (\<forall>p q a. tl_mine (tl_pc s p) = Some a \<longrightarrow> tl_mine (tl_pc s q) = Some a \<longrightarrow> p = q)"

text \<open>A thread that looks at the next node has read its address from the current one.\<close>

fun tl_local :: "'a tsl \<Rightarrow> 'a tsl_pc \<Rightarrow> bool" where
  "tl_local s (T_want k c n) = (\<exists>d. tl_heap s c = Some (d, Some n))"
| "tl_local s (T_both k c n) = (\<exists>d. tl_heap s c = Some (d, Some n))"
| "tl_local s (T_visit k n) = (\<not> removes k \<and> n \<noteq> 0)"
| "tl_local s T_undefined = False"
| "tl_local s c = True"

definition tl_inv :: "'a tsl \<Rightarrow> nat list \<Rightarrow> 'a list \<Rightarrow> bool" where
  "tl_inv s ns xs \<longleftrightarrow> tl_list s ns xs \<and> tl_locks s ns \<and> tl_owned s ns \<and> (\<forall>p. tl_local s (tl_pc s p))"

lemma tl_simps [simp]:
  "tl_heap (tl_goes p c s) = tl_heap s" "tl_owner (tl_goes p c s) = tl_owner s" "tl_pc (tl_goes p c s) = (tl_pc s)(p := c)"
  "tl_heap (tl_put a n s) = (tl_heap s)(a := n)" "tl_owner (tl_put a n s) = tl_owner s" "tl_pc (tl_put a n s) = tl_pc s"
  "tl_heap (tl_own a q s) = tl_heap s" "tl_owner (tl_own a q s) = (tl_owner s)(a := q)" "tl_pc (tl_own a q s) = tl_pc s"
  by (simp_all add: tl_goes_def tl_put_def tl_own_def)

lemma tl_chain_upd: "tl_chain H a ns xs \<Longrightarrow> b \<notin> set ns \<Longrightarrow> tl_chain (H(b := N)) a ns xs"
  by (induction H a ns xs rule: tl_chain.induct) auto

lemma tl_chain_node: "tl_chain H a ns xs \<Longrightarrow> n \<in> set ns \<Longrightarrow> \<exists>x b. H n = Some (Some x, b) \<and> x \<in> set xs"
  by (induction H a ns xs rule: tl_chain.induct) fastforce+

lemma tl_chain_start: "tl_chain H (Some n) ns xs \<Longrightarrow> n \<in> set ns"
  by (cases ns; cases xs) auto

lemma tl_chain_next: "tl_chain H a ns xs \<Longrightarrow> c \<in> set ns \<Longrightarrow> H c = Some (d, Some n) \<Longrightarrow> n \<in> set ns"
  by (induction H a ns xs rule: tl_chain.induct) (auto dest: tl_chain_start)

text \<open>Taking a node out of the chain.\<close>

lemma tl_chain_remove:
  assumes "tl_chain H a ns xs" "distinct ns" "c \<in> set ns" "H c = Some (Some y, Some n)" "H n = Some (Some x, b)"
  shows "\<exists>us vs. xs = us @ x # vs \<and> tl_chain (H(c := Some (Some y, b), n := N)) a (remove1 n ns) (us @ vs)"
  using assms
proof (induction H a ns xs rule: tl_chain.induct)
  case (2 H a m ns z xs)
  show ?case
  proof (cases "c = m")
    case True
    then obtain ms vs where ns: "ns = n # ms" "xs = x # vs" "tl_chain H b ms vs" "z = y"
      using 2 by (cases ns; cases xs) auto
    have "tl_chain (H(c := Some (Some y, b), n := N)) b ms vs"
      using ns(3) 2(3) True ns(1) by (intro tl_chain_upd) auto
    moreover have "m \<noteq> n" using 2(3) ns(1) by auto
    ultimately have "tl_chain (H(c := Some (Some y, b), n := N)) a (remove1 n (m # ns)) ([y] @ vs)"
      using True ns 2(2) by simp
    moreover have "z # xs = [y] @ x # vs" using ns by simp
    ultimately show ?thesis by blast
  next
    case False
    then have c: "c \<in> set ns" using 2 by simp
    obtain b' where b': "H m = Some (Some z, b')" "tl_chain H b' ns xs" "a = Some m" using 2 by auto
    have n: "n \<in> set ns" using tl_chain_next[OF b'(2) c] 2 by simp
    then have m: "m \<noteq> n" using 2 by auto
    obtain us vs where "xs = us @ x # vs" "tl_chain (H(c := Some (Some y, b), n := N)) b' (remove1 n ns) (us @ vs)"
      using 2(1)[OF b'(2) _ c 2(5,6)] 2(3) unfolding distinct.simps by blast
    then have "tl_chain (H(c := Some (Some y, b), n := N)) a (remove1 n (m # ns)) ((z # us) @ vs)" "z # xs = (z # us) @ x # vs"
      using False m b' by simp_all
    then show ?thesis by blast
  qed
qed auto

text \<open>Changing the value of a node.\<close>

lemma tl_chain_change:
  assumes "tl_chain H a ns xs" "distinct ns" "n \<in> set ns" "H n = Some (Some x, b)"
  shows "\<exists>us vs. xs = us @ x # vs \<and> tl_chain (H(n := Some (Some y, b))) a ns (us @ y # vs)"
  using assms
proof (induction H a ns xs rule: tl_chain.induct)
  case (2 H a m ns z xs)
  obtain b' where b': "H m = Some (Some z, b')" "tl_chain H b' ns xs" "a = Some m" using 2(2) by auto
  show ?case
  proof (cases "n = m")
    case True
    then have "tl_chain (H(n := Some (Some y, b))) b' ns xs" using b'(2) 2(3) by (intro tl_chain_upd) auto
    moreover have "z = x" "b' = b" using True b'(1) 2(5) by simp_all
    ultimately have "tl_chain (H(n := Some (Some y, b))) a (m # ns) ([] @ y # xs)" "z # xs = [] @ x # xs"
      using True b'(3) by simp_all
    then show ?thesis by blast
  next
    case False
    then have "n \<in> set ns" "distinct ns" using 2(3,4) by auto
    from 2(1)[OF b'(2) this(2,1) 2(5)] obtain us vs where
      "xs = us @ x # vs" "tl_chain (H(n := Some (Some y, b))) b' ns (us @ y # vs)" by blast
    then have "tl_chain (H(n := Some (Some y, b))) a (m # ns) ((z # us) @ y # vs)" "z # xs = (z # us) @ x # vs"
      using False b' by simp_all
    then show ?thesis by blast
  qed
qed auto

section \<open>Every step keeps the invariant\<close>

lemma tl_invD:
  assumes "tl_inv s ns xs"
  shows "tl_list s ns xs" "tl_locks s ns" "tl_owned s ns" "\<And>p. tl_local s (tl_pc s p)"
    "distinct (0 # ns)" "\<exists>a. tl_heap s 0 = Some (None, a) \<and> tl_chain (tl_heap s) a ns xs"
    "\<And>p a. a \<in> tl_holds (tl_pc s p) \<longleftrightarrow> tl_owner s a = Some p" "\<And>p. tl_holds (tl_pc s p) \<subseteq> set (0 # ns)"
    "\<And>p a. tl_mine (tl_pc s p) = Some a \<Longrightarrow> tl_heap s a \<noteq> None \<and> a \<notin> set (0 # ns)"
    "\<And>p q a. tl_mine (tl_pc s p) = Some a \<Longrightarrow> tl_mine (tl_pc s q) = Some a \<Longrightarrow> p = q"
  using assms unfolding tl_inv_def tl_list_def tl_locks_def tl_owned_def by blast+

lemma tl_next_in:
  assumes "tl_inv s ns xs" "c \<in> set (0 # ns)" "tl_heap s c = Some (d, Some n)"
  shows "n \<in> set ns" "\<exists>x b. tl_heap s n = Some (Some x, b) \<and> x \<in> set xs" "n \<noteq> c"
proof -
  obtain a where a: "tl_heap s 0 = Some (None, a)" "tl_chain (tl_heap s) a ns xs" using tl_invD(6)[OF assms(1)] by blast
  show n: "n \<in> set ns"
    using assms(2,3) a by (cases "c = 0") (auto dest: tl_chain_start tl_chain_next)
  then show "\<exists>x b. tl_heap s n = Some (Some x, b) \<and> x \<in> set xs" using tl_chain_node[OF a(2)] by blast
  have d: "distinct ns" "0 \<notin> set ns" using tl_invD(5)[OF assms(1)] by simp_all
  show "n \<noteq> c"
  proof
    assume "n = c"
    moreover from this have "c \<in> set ns" using n by simp
    ultimately show False
      using a(2) d(1) assms(3)
    proof (induction "tl_heap s" a ns xs rule: tl_chain.induct)
      case (2 a m ms x ys)
      then show ?case by (cases "c = m") (auto dest: tl_chain_start)
    qed auto
  qed
qed

lemma tl_held_in: "tl_inv s ns xs \<Longrightarrow> c \<in> tl_holds (tl_pc s p) \<Longrightarrow> c \<in> set (0 # ns) \<and> tl_heap s c \<noteq> None"
  using tl_invD(6,8)[of s ns xs] by (cases "c = 0") (auto dest!: tl_chain_node)

lemma tl_never_bad:
  assumes inv: "tl_inv s ns xs"
    and bad: "tl_pc s p = T_push v a \<and> tl_owner s 0 = None \<and> tl_heap s 0 = None \<or> tl_pc s p = T_at k c \<and> tl_heap s c = None
      \<or> tl_pc s p = T_want k c n \<and> tl_heap s n = None
      \<or> (tl_pc s p = T_visit k n \<or> tl_pc s p = T_both k c n \<and> removes k) \<and> (\<forall>x nx. tl_heap s n \<noteq> Some (Some x, nx))
      \<or> tl_pc s p = T_both k c n \<and> removes k \<and> (\<forall>d. tl_heap s c \<noteq> Some (d, Some n))
      \<or> tl_pc s p = T_delete k c n \<and> (tl_owner s n \<noteq> None \<or> (\<exists>q k c. tl_pc s q = T_want k c n) \<or> tl_heap s n = None)"
  shows False
proof -
  have 1: "\<not> (tl_pc s p = T_push v a \<and> tl_heap s 0 = None)" using tl_invD(6)[OF inv] by auto
  have 2: "\<not> (tl_pc s p = T_at k c \<and> tl_heap s c = None)" using tl_held_in[OF inv, of c p] by auto
  have want: "n \<in> set ns \<and> (\<exists>x b. tl_heap s n = Some (Some x, b)) \<and> (\<exists>d. tl_heap s c = Some (d, Some n))"
    if w: "tl_pc s q = T_want k c n \<or> tl_pc s q = T_both k c n" for q k c
  proof -
    have "c \<in> set (0 # ns)" using w tl_invD(8)[OF inv, of q] by auto
    moreover obtain d where d: "tl_heap s c = Some (d, Some n)" using w tl_invD(4)[OF inv, of q] by auto
    ultimately have "n \<in> set ns" "\<exists>x b. tl_heap s n = Some (Some x, b) \<and> x \<in> set xs"
      using tl_next_in(1,2)[OF inv] by blast+
    then show ?thesis using d by blast
  qed
  have visit: "\<exists>x b. tl_heap s n = Some (Some x, b)" if "tl_pc s p = T_visit k n"
    using that tl_invD(4,8)[OF inv, of p] tl_invD(6)[OF inv] by (auto dest!: tl_chain_node)
  have 3: "\<not> (tl_pc s p = T_delete k c n \<and> (tl_owner s n \<noteq> None \<or> (\<exists>q k c. tl_pc s q = T_want k c n) \<or> tl_heap s n = None))"
  proof
    assume a: "tl_pc s p = T_delete k c n \<and> (tl_owner s n \<noteq> None \<or> (\<exists>q k c. tl_pc s q = T_want k c n) \<or> tl_heap s n = None)"
    then have n: "n \<notin> set (0 # ns)" "tl_heap s n \<noteq> None" using tl_invD(9)[OF inv, of p n] by auto
    moreover have "tl_owner s n = None" using n(1) tl_invD(7,8)[OF inv] by (metis not_None_eq subsetD)
    ultimately show False using a want by auto
  qed
  have 4: "\<not> (tl_pc s p = T_want k c n \<and> tl_heap s n = None)" using want[of p k c] by auto
  have 5: "\<not> ((tl_pc s p = T_visit k n \<or> tl_pc s p = T_both k c n \<and> removes k) \<and> (\<forall>x nx. tl_heap s n \<noteq> Some (Some x, nx)))"
    using want[of p k c] visit by blast
  have 6: "\<not> (tl_pc s p = T_both k c n \<and> removes k \<and> (\<forall>d. tl_heap s c \<noteq> Some (d, Some n)))"
    using want[of p k c] by blast
  show False using bad 1 2 3 4 5 6 by argo
qed

lemma tl_locks_goes:
  assumes "tl_locks s ns" "tl_pc t = (tl_pc s)(p := c)"
    and "\<And>a. tl_owner t a = (if a \<in> tl_holds c then Some p else if a \<in> tl_holds (tl_pc s p) then None else tl_owner s a)"
    and "\<And>a. a \<in> tl_holds c \<Longrightarrow> a \<notin> tl_holds (tl_pc s p) \<Longrightarrow> tl_owner s a = None"
    and "tl_holds c \<subseteq> set (0 # ms)" "\<And>q. q \<noteq> p \<Longrightarrow> tl_holds (tl_pc s q) \<subseteq> set (0 # ms)"
  shows "tl_locks t ms"
proof -
  have own: "a \<in> tl_holds (tl_pc s q) \<longleftrightarrow> tl_owner s a = Some q" for q a using assms(1) by (simp add: tl_locks_def)
  have "a \<in> tl_holds (tl_pc t q) \<longleftrightarrow> tl_owner t a = Some q" for q a
    using own[of a q] own[of a p] assms(4)[of a] by (cases "q = p") (auto simp: assms(2,3))
  moreover have "tl_holds (tl_pc t q) \<subseteq> set (0 # ms)" for q using assms(5,6) by (cases "q = p") (simp_all add: assms(2))
  ultimately show ?thesis unfolding tl_locks_def by blast
qed

lemma tl_owned_goes:
  assumes "tl_owned s ns" "tl_pc t = (tl_pc s)(p := c)"
    and "\<And>a. tl_mine c = Some a \<Longrightarrow> tl_heap t a \<noteq> None \<and> a \<notin> set (0 # ms) \<and> (\<forall>q. q \<noteq> p \<longrightarrow> tl_mine (tl_pc s q) \<noteq> Some a)"
    and "\<And>q a. q \<noteq> p \<Longrightarrow> tl_mine (tl_pc s q) = Some a \<Longrightarrow> tl_heap t a \<noteq> None \<and> a \<notin> set (0 # ms)"
  shows "tl_owned t ms"
proof -
  note own = assms(1)[unfolded tl_owned_def]
  have "tl_heap t a \<noteq> None \<and> a \<notin> set (0 # ms)" if "tl_mine (tl_pc t q) = Some a" for q a
    using that assms(3)[of a] assms(4)[of q a] by (cases "q = p") (auto simp: assms(2))
  moreover have "q = r" if "tl_mine (tl_pc t q) = Some a" "tl_mine (tl_pc t r) = Some a" for q r a
    using that assms(3)[of a] own unfolding assms(2) by (metis fun_upd_apply)
  ultimately show ?thesis unfolding tl_owned_def by blast
qed

lemma tl_local_goes:
  assumes inv: "tl_inv s ns xs" "tl_pc t = (tl_pc s)(p := c)" and "tl_local t c"
    and "\<And>q a. q \<noteq> p \<Longrightarrow> a \<in> tl_holds (tl_pc s q) \<Longrightarrow> tl_heap t a = tl_heap s a"
  shows "tl_local t (tl_pc t q)"
proof (cases "q = p")
  case False
  have "tl_local t (tl_pc s q)"
    using tl_invD(4)[OF inv(1), of q] assms(4)[OF False] by (cases "tl_pc s q") auto
  then show ?thesis using False assms(2) by simp
qed (use assms(2,3) in simp)

text \<open>A thread moves without changing a node.\<close>

lemma tl_inv_moves:
  assumes inv: "tl_inv s ns xs" and t: "tl_pc t = (tl_pc s)(p := c)" "tl_heap t = tl_heap s"
    and "\<And>a. tl_owner t a = (if a \<in> tl_holds c then Some p else if a \<in> tl_holds (tl_pc s p) then None else tl_owner s a)"
    and "\<And>a. a \<in> tl_holds c \<Longrightarrow> a \<notin> tl_holds (tl_pc s p) \<Longrightarrow> tl_owner s a = None"
    and "tl_holds c \<subseteq> set (0 # ns)" "tl_mine c = None" "tl_local s c"
  shows "tl_inv t ns xs"
proof -
  have "tl_locks t ns"
    by (rule tl_locks_goes[OF tl_invD(2)[OF inv] t(1) assms(4,5,6)]) (use tl_invD(8)[OF inv] in auto)
  moreover have "tl_owned t ns"
    by (rule tl_owned_goes[OF tl_invD(3)[OF inv] t(1)]) (use assms(7) tl_invD(9)[OF inv] in \<open>auto simp: t(2)\<close>)
  moreover have "tl_local t (tl_pc t q)" for q
  proof (rule tl_local_goes[OF inv t(1)])
    show "tl_local t c" using assms(8) by (cases c) (auto simp: t(2))
  qed (simp add: t(2))
  moreover have "tl_list t ns xs" using tl_invD(1)[OF inv] by (simp add: tl_list_def t(2))
  ultimately show ?thesis by (simp add: tl_inv_def)
qed

lemma tl_step_moves:
  assumes "tl_inv s ns xs" "tl_inv t ns xs" "list_step xs e xs"
  shows "\<exists>ms ys. tl_inv t ms ys \<and> list_step xs e ys"
  using assms by blast

lemma tl_visits:
  assumes inv: "tl_inv s ns xs" and "tl_pc s p = T_visit k n" "tl_heap s n = Some (Some x, nx)"
  shows "x \<in> set xs"
proof -
  have "n \<in> set ns" using tl_invD(4)[OF inv, of p] tl_invD(8)[OF inv, of p] assms(2) by simp
  moreover obtain a where "tl_chain (tl_heap s) a ns xs" using tl_invD(6)[OF inv] by blast
  ultimately obtain y b where "tl_heap s n = Some (Some y, b)" "y \<in> set xs" using tl_chain_node by blast
  then show ?thesis using assms(3) by simp
qed

lemma tl_step_inv:
  assumes "tsl_step p s e t" and inv: "tl_inv s ns xs"
  shows "\<exists>ms ys. tl_inv t ms ys \<and> list_step xs e ys"
  using assms(1)
proof cases
  case tl_bad
  then show ?thesis using tl_never_bad[OF inv] by blast
next
  case (tl_call k)
  have "tl_inv t ns xs" by (rule tl_inv_moves[OF inv, of _ p "T_start k"]) (use tl_call in auto)
  then show ?thesis using tl_call by (auto intro: list_step.intros)
next
  case (tl_lock_head k)
  have "tl_inv t ns xs" by (rule tl_inv_moves[OF inv, of _ p "T_at k 0"]) (use tl_lock_head in auto)
  then show ?thesis using tl_lock_head by (auto intro: list_step.intros)
next
  case (tl_next k c d n)
  have "tl_inv t ns xs"
    by (rule tl_inv_moves[OF inv, of _ p "T_want k c n"]) (use tl_next tl_invD(7)[OF inv, of c p] tl_invD(8)[OF inv, of p] in auto)
  then show ?thesis using tl_next by (auto intro: list_step.intros)
next
  case (tl_last k c d)
  have "tl_inv t ns xs" by (rule tl_inv_moves[OF inv, of _ p T_idle]) (use tl_last in auto)
  then show ?thesis using tl_last by (auto intro: list_step.intros)
next
  case (tl_lock_next k c n)
  obtain d where d: "tl_heap s c = Some (d, Some n)" using tl_invD(4)[OF inv, of p] tl_lock_next by auto
  have c: "c \<in> set (0 # ns)" "tl_owner s c = Some p" using tl_invD(7)[OF inv, of c p] tl_invD(8)[OF inv, of p] tl_lock_next by auto
  have "tl_inv t ns xs"
    by (rule tl_inv_moves[OF inv, of _ p "T_both k c n"]) (use tl_lock_next d c tl_next_in(1)[OF inv c(1) d] in auto)
  then show ?thesis using tl_lock_next by (auto intro: list_step.intros)
next
  case (tl_unlock k c n)
  obtain d where d: "tl_heap s c = Some (d, Some n)" using tl_invD(4)[OF inv, of p] tl_unlock by auto
  have c: "c \<in> set (0 # ns)" "tl_owner s n = Some p" using tl_invD(7)[OF inv, of n p] tl_invD(8)[OF inv, of p] tl_unlock by auto
  have "n \<noteq> 0" using tl_next_in(1)[OF inv c(1) d] tl_invD(5)[OF inv] by (metis distinct.simps(2))
  then have "tl_inv t ns xs"
    by (intro tl_inv_moves[OF inv, of _ p "T_visit k n"])
      (use tl_unlock c tl_next_in(1,3)[OF inv c(1) d] in auto)
  then show ?thesis using tl_unlock by (auto intro: list_step.intros)
next
  case (tl_visit f n x nx)
  let ?N = "Some (Some (f x), nx)"
  obtain a where a: "tl_heap s 0 = Some (None, a)" "tl_chain (tl_heap s) a ns xs" using tl_invD(6)[OF inv] by blast
  have n: "n \<in> set ns" "n \<noteq> 0" "tl_owner s n = Some p"
    using tl_visit(3) tl_invD(4)[OF inv, of p] tl_invD(8)[OF inv, of p] tl_invD(7)[OF inv, of n p] by auto
  have d: "distinct ns" using tl_invD(5)[OF inv] by simp
  obtain us vs where xs: "xs = us @ x # vs" "tl_chain ((tl_heap s)(n := ?N)) a ns (us @ f x # vs)"
    using tl_chain_change[OF a(2) d n(1) tl_visit(4)] by blast
  have "tl_list t ns (us @ f x # vs)" using xs(2) a(1) n(2) tl_invD(5)[OF inv] tl_visit(2) by (simp add: tl_list_def)
  moreover have "tl_locks t ns"
    by (rule tl_locks_goes[OF tl_invD(2)[OF inv], of _ p "T_at (For_each f) n"])
      (use tl_visit n tl_invD(8)[OF inv] in auto)
  moreover have "tl_owned t ns"
    by (rule tl_owned_goes[OF tl_invD(3)[OF inv], of _ p "T_at (For_each f) n"])
      (use tl_visit n tl_invD(9)[OF inv] in auto)
  moreover have "tl_local t (tl_pc t q)" for q
    by (rule tl_local_goes[OF inv, of t p "T_at (For_each f) n"]) (use tl_visit n tl_invD(7)[OF inv] in auto)
  ultimately have "tl_inv t ns (us @ f x # vs)" by (simp add: tl_inv_def)
  then show ?thesis using tl_visit(1) xs(1) by (auto intro: list_step.intros)
next
  case (tl_found P n x nx)
  have "tl_inv t ns xs" by (rule tl_inv_moves[OF inv, of _ p T_idle]) (use tl_found in auto)
  then show ?thesis using tl_found(1) tl_visits[OF inv tl_found(3,4)] by (auto intro: list_step.intros)
next
  case (tl_pass P n x nx)
  have "tl_inv t ns xs"
    by (rule tl_inv_moves[OF inv, of _ p "T_at (Find_first_if P) n"])
      (use tl_pass tl_invD(7)[OF inv, of n p] tl_invD(8)[OF inv, of p] in auto)
  then show ?thesis using tl_pass by (auto intro: list_step.intros)
next
  case (tl_keep P c n x nx)
  obtain d where d: "tl_heap s c = Some (d, Some n)" using tl_invD(4)[OF inv, of p] tl_keep by auto
  have c: "c \<in> set (0 # ns)" "tl_owner s n = Some p" using tl_invD(7)[OF inv, of n p] tl_invD(8)[OF inv, of p] tl_keep by auto
  have "tl_inv t ns xs"
    by (rule tl_inv_moves[OF inv, of _ p "T_at (Remove_if P) n"])
      (use tl_keep c tl_next_in(1,3)[OF inv c(1) d] in auto)
  then show ?thesis using tl_keep by (auto intro: list_step.intros)
next
  case (tl_new a v)
  obtain b where b: "tl_heap s 0 = Some (None, b)" "tl_chain (tl_heap s) b ns xs" using tl_invD(6)[OF inv] by blast
  have a: "a \<notin> set (0 # ns)" using b(1) tl_chain_node[OF b(2), of a] tl_new by (cases "a = 0") auto
  have m: "tl_mine (tl_pc s q) \<noteq> Some a" for q using tl_invD(9)[OF inv, of q a] tl_new by auto
  have "tl_owner s a = None" using a tl_invD(7,8)[OF inv] by (metis not_None_eq subsetD)
  have "tl_list t ns xs" using tl_invD(1)[OF inv] a tl_new by (auto simp: tl_list_def tl_chain_upd)
  moreover have "tl_locks t ns"
    by (rule tl_locks_goes[OF tl_invD(2)[OF inv], of _ p "T_push v a"]) (use tl_new tl_invD(8)[OF inv] in auto)
  moreover have "tl_owned t ns"
    by (rule tl_owned_goes[OF tl_invD(3)[OF inv], of _ p "T_push v a"]) (use tl_new a m tl_invD(9)[OF inv] in auto)
  moreover have "tl_local t (tl_pc t q)" for q
    by (rule tl_local_goes[OF inv, of _ p "T_push v a"]) (use tl_new tl_invD(8)[OF inv] a in auto)
  ultimately have "tl_inv t ns xs" by (simp add: tl_inv_def)
  then show ?thesis using tl_new by (auto intro: list_step.intros)
next
  case (tl_push v a d nx)
  have a: "a \<notin> set (0 # ns)" using tl_invD(9)[OF inv, of p a] tl_push by simp
  have free: "0 \<notin> tl_holds (tl_pc s q)" "a \<notin> tl_holds (tl_pc s q)" for q
    using tl_push tl_invD(7)[OF inv, of 0 q] tl_invD(8)[OF inv, of q] a by auto
  have "tl_list t (a # ns) (v # xs)" using tl_invD(5,6)[OF inv] a tl_push by (auto simp: tl_list_def tl_chain_upd)
  moreover have "tl_locks t (a # ns)"
    by (rule tl_locks_goes[OF tl_invD(2)[OF inv], of _ p T_idle]) (use tl_push tl_invD(8)[OF inv] in auto)
  moreover have "tl_owned t (a # ns)"
    by (rule tl_owned_goes[OF tl_invD(3)[OF inv], of _ p T_idle])
      (use tl_push tl_invD(9)[OF inv] tl_invD(10)[OF inv, of p a] in auto)
  moreover have "tl_local t (tl_pc t q)" for q
    by (rule tl_local_goes[OF inv, of _ p T_idle]) (use tl_push free in auto)
  ultimately have "tl_inv t (a # ns) (v # xs)" by (simp add: tl_inv_def)
  then show ?thesis using tl_push by (auto intro: list_step.intros)
next
  case (tl_delete k c n)
  have n: "n \<notin> set (0 # ns)" using tl_invD(9)[OF inv, of p n] tl_delete by simp
  have "tl_list t ns xs" using tl_invD(1)[OF inv] n tl_delete by (auto simp: tl_list_def tl_chain_upd)
  moreover have "tl_locks t ns"
    by (rule tl_locks_goes[OF tl_invD(2)[OF inv], of _ p "T_at k c"])
      (use tl_delete tl_invD(7)[OF inv, of c p] tl_invD(8)[OF inv] tl_invD(8)[OF inv, of p] in auto)
  moreover have "tl_owned t ns"
    by (rule tl_owned_goes[OF tl_invD(3)[OF inv], of _ p "T_at k c"])
      (use tl_delete tl_invD(9)[OF inv] tl_invD(10)[OF inv, of p n] in auto)
  moreover have "tl_local t (tl_pc t q)" for q
    by (rule tl_local_goes[OF inv, of _ p "T_at k c"]) (use tl_delete tl_invD(8)[OF inv] n in auto)
  ultimately have "tl_inv t ns xs" by (simp add: tl_inv_def)
  then show ?thesis using tl_delete by (auto intro: list_step.intros)
next
  case (tl_unlink P c n x nx d)
  have c: "c \<in> set (0 # ns)" and own: "tl_owner s c = Some p" "tl_owner s n = Some p"
    using tl_invD(7)[OF inv, of c p] tl_invD(7)[OF inv, of n p] tl_invD(8)[OF inv, of p] tl_unlink by auto
  have n: "n \<in> set ns" "n \<noteq> c" using tl_next_in(1,3)[OF inv c tl_unlink(6)] by simp_all
  have dist: "distinct ns" "0 \<notin> set ns" using tl_invD(5)[OF inv] by simp_all
  have n0: "n \<noteq> 0" using dist(2) n(1) by metis
  have ms: "set (remove1 n ns) = set ns - {n}" "distinct (remove1 n ns)" using dist by simp_all
  have theirs: "a \<noteq> c \<and> a \<noteq> n" if "q \<noteq> p" "a \<in> tl_holds (tl_pc s q)" for q a
    using that own tl_invD(7)[OF inv, of a q] by auto
  have m: "tl_mine (tl_pc s q) \<noteq> Some n" for q using tl_invD(9)[OF inv, of q n] n(1) by auto
  obtain b where b: "tl_heap s 0 = Some (None, b)" "tl_chain (tl_heap s) b ns xs" using tl_invD(6)[OF inv] by blast
  have "\<exists>us vs. xs = us @ x # vs \<and> tl_list t (remove1 n ns) (us @ vs)"
  proof (cases "c = 0")
    case True
    then have bn: "b = Some n" "d = None" using b(1) tl_unlink(6) by simp_all
    obtain m qs vs where q: "ns = n # qs" "xs = x # vs" "tl_chain (tl_heap s) nx qs vs"
      using b(2) bn tl_unlink(4) by (cases ns; cases xs) auto
    have "tl_chain ((tl_heap s)(0 := Some (None, nx), n := Some (Some x, None))) nx qs vs"
      using q dist by (intro tl_chain_upd) auto
    then have "tl_list t (remove1 n ns) ([] @ vs)"
      unfolding tl_list_def using tl_unlink(2) True bn(2) q(1) dist n0 by simp
    then show ?thesis using q(2) by (metis append_Nil)
  next
    case False
    then have cn: "c \<in> set ns" using c by simp
    obtain y where y: "tl_heap s c = Some (Some y, Some n)" using tl_chain_node[OF b(2) cn] tl_unlink(6) by auto
    then have dy: "d = Some y" using tl_unlink(6) by simp
    obtain us vs where uv: "xs = us @ x # vs"
      "tl_chain ((tl_heap s)(c := Some (Some y, nx), n := Some (Some x, None))) b (remove1 n ns) (us @ vs)"
      using tl_chain_remove[OF b(2) dist(1) cn y tl_unlink(4)] by blast
    have "tl_list t (remove1 n ns) (us @ vs)"
      unfolding tl_list_def using tl_unlink(2) uv(2) dy b(1) False n0 ms dist by simp
    then show ?thesis using uv(1) by blast
  qed
  then obtain us vs where uv: "xs = us @ x # vs" "tl_list t (remove1 n ns) (us @ vs)" by blast
  moreover have "tl_locks t (remove1 n ns)"
  proof (rule tl_locks_goes[OF tl_invD(2)[OF inv], of _ p "T_delete (Remove_if P) c n"])
    show "tl_holds (tl_pc s q) \<subseteq> set (0 # remove1 n ns)" if "q \<noteq> p" for q
      using tl_invD(8)[OF inv, of q] theirs[OF that] ms(1) by auto
  qed (use tl_unlink own n c ms in auto)
  moreover have "tl_owned t (remove1 n ns)"
    by (rule tl_owned_goes[OF tl_invD(3)[OF inv], of _ p "T_delete (Remove_if P) c n"])
      (use tl_unlink n n0 ms m tl_invD(9)[OF inv] in auto)
  moreover have "tl_local t (tl_pc t q)" for q
    by (rule tl_local_goes[OF inv, of _ p "T_delete (Remove_if P) c n"]) (use tl_unlink theirs in auto)
  ultimately have "tl_inv t (remove1 n ns) (us @ vs)" by (simp add: tl_inv_def)
  moreover have "list_step xs e (us @ vs)" unfolding uv(1) tl_unlink(1) by (rule list_step.intros)
  ultimately show ?thesis by (intro exI conjI)
qed

lemma tl_start: "tl_inv tsl_ctor [] []"
  by (simp add: tl_inv_def tl_list_def tl_locks_def tl_owned_def tsl_ctor_def)

lemma tsl_run_inv: "tsl_run es s \<Longrightarrow> \<exists>ns xs. tl_inv s ns xs \<and> list_run es xs"
proof (induction rule: tsl_run.induct)
  case tl_init
  then show ?case using tl_start list_run.intros(1) by blast
next
  case (tl_more es s p e t)
  then show ?case using tl_step_inv list_run.intros(2) by blast
qed

section \<open>Somebody can always go on\<close>

text \<open>A thread that cannot step waits for a mutex that another thread holds.\<close>

definition tl_waits :: "'a tsl \<Rightarrow> nat \<Rightarrow> bool" where
  "tl_waits s p \<longleftrightarrow> (case tl_pc s p of T_push v a \<Rightarrow> tl_owner s 0 \<noteq> None | T_start k \<Rightarrow> tl_owner s 0 \<noteq> None
     | T_want k c n \<Rightarrow> tl_owner s n \<noteq> None | _ \<Rightarrow> False)"

lemma steps_or_waits:
  assumes inv: "tl_inv s ns xs" and "tl_pc s p \<noteq> T_idle"
  shows "tl_waits s p \<or> (\<exists>e t. tsl_step p s e t)"
proof (cases "tl_pc s p")
  case (T_push v a)
  then show ?thesis using tl_invD(6)[OF inv] tsl_step.tl_push[OF T_push] by (cases "tl_owner s 0") (auto simp: tl_waits_def)
next
  case (T_start k)
  then show ?thesis using tsl_step.tl_lock_head[OF T_start] by (cases "tl_owner s 0") (auto simp: tl_waits_def)
next
  case (T_at k c)
  obtain d b where "tl_heap s c = Some (d, b)" using tl_held_in[OF inv, of c p] T_at by auto
  then show ?thesis using tsl_step.tl_next[OF T_at] tsl_step.tl_last[OF T_at] by (cases b) blast+
next
  case (T_want k c n)
  have "tl_heap s n \<noteq> None" using tl_never_bad[OF inv, of p undefined undefined k c n] T_want by (intro notI) simp
  then show ?thesis using tsl_step.tl_lock_next[OF T_want] T_want by (cases "tl_owner s n") (auto simp: tl_waits_def)
next
  case (T_both k c n)
  show ?thesis
  proof (cases "removes k")
    case True
    then obtain P where k: "k = Remove_if P" by (cases k) auto
    obtain x nx where x: "tl_heap s n = Some (Some x, nx)" using tl_never_bad[OF inv, of p undefined undefined k c n] T_both True by blast
    obtain d where d: "tl_heap s c = Some (d, Some n)" using tl_never_bad[OF inv, of p undefined undefined k c n] T_both True by blast
    show ?thesis
      using tsl_step.tl_unlink[OF T_both[unfolded k] x _ d] tsl_step.tl_keep[OF T_both[unfolded k] x] by (cases "P x") blast+
  qed (use tsl_step.tl_unlock[OF T_both] in blast)
next
  case (T_visit k n)
  obtain x nx where x: "tl_heap s n = Some (Some x, nx)" using tl_never_bad[OF inv, of p undefined undefined k undefined n] T_visit by blast
  have nr: "\<not> removes k" using tl_invD(4)[OF inv, of p] T_visit by simp
  show ?thesis
  proof (cases k)
    case (For_each f)
    then show ?thesis using tsl_step.tl_visit[OF T_visit[unfolded For_each] x] by blast
  next
    case (Find_first_if P)
    then show ?thesis
      using tsl_step.tl_found[OF T_visit[unfolded Find_first_if] x] tsl_step.tl_pass[OF T_visit[unfolded Find_first_if] x]
      by (cases "P x") blast+
  qed (use nr in simp)
next
  case (T_delete k c n)
  have "tl_owner s n = None" "tl_heap s n \<noteq> None" using tl_never_bad[OF inv, of p undefined undefined k c n] T_delete by blast+
  then show ?thesis using tsl_step.tl_delete[OF T_delete] by blast
next
  case T_undefined
  then show ?thesis using tl_invD(4)[OF inv, of p] by simp
qed (use assms(2) in simp)

text \<open>If all threads waited, each node whose mutex is held would be followed by another such node.\<close>

lemma waiting_chain_ends:
  assumes inv: "tl_inv s ns xs" and w: "\<And>q. tl_pc s q \<noteq> T_idle \<Longrightarrow> tl_waits s q"
    and "tl_owner s n \<noteq> None" "tl_heap s n = Some (d, b)" "tl_chain (tl_heap s) b ms ys"
  shows False
  using assms(3-5)
proof (induction ms arbitrary: n d b ys)
  case (Nil n d b)
  then obtain q where "n \<in> tl_holds (tl_pc s q)" using tl_invD(7)[OF inv] by blast
  then obtain k m where "tl_pc s q = T_want k n m" using w[of q] by (cases "tl_pc s q") (auto simp: tl_waits_def)
  then show ?case using tl_invD(4)[OF inv, of q] Nil by (cases ys) auto
next
  case (Cons m ms n d b)
  then obtain q where "n \<in> tl_holds (tl_pc s q)" using tl_invD(7)[OF inv] by blast
  then obtain k m' where q: "tl_pc s q = T_want k n m'" "tl_owner s m' \<noteq> None"
    using w[of q] by (cases "tl_pc s q") (auto simp: tl_waits_def)
  then have "b = Some m'" using tl_invD(4)[OF inv, of q] Cons.prems(2) by auto
  then obtain x zs b' where "m' = m" "tl_heap s m = Some (Some x, b')" "tl_chain (tl_heap s) b' ms zs"
    using Cons.prems(3) by (cases ys) auto
  then show ?case using Cons.IH q(2) by blast
qed

section \<open>One thread alone\<close>

definition solo :: "nat \<Rightarrow> 'a tsl \<Rightarrow> 'a tsl \<Rightarrow> bool" where
  "solo p s t \<longleftrightarrow> (\<exists>e. tsl_step p s e t)"

lemma solo_run: "(solo p)\<^sup>*\<^sup>* s t \<Longrightarrow> tsl_run es s \<Longrightarrow> \<exists>es'. tsl_run (es @ es') t"
proof (induction rule: rtranclp_induct)
  case base
  then show ?case by (metis append_Nil2)
next
  case (step t u)
  then show ?case unfolding solo_def using tl_more append_assoc by metis
qed

lemma solo_steps:
  "(solo p)\<^sup>*\<^sup>* a b \<Longrightarrow> solo p b c \<Longrightarrow> (solo p)\<^sup>*\<^sup>* c d \<Longrightarrow> (solo p)\<^sup>*\<^sup>* a d"
  by (meson rtranclp.rtrancl_into_rtrancl rtranclp_trans)

lemma solo_two: "solo p a b \<Longrightarrow> solo p b c \<Longrightarrow> (solo p)\<^sup>*\<^sup>* a c"
  by (meson r_into_rtranclp rtranclp.rtrancl_into_rtrancl)

lemma solo_removes:
  assumes "tl_pc s p = T_at (Remove_if P) c" "tl_heap s c = Some (d, b)" "tl_chain (tl_heap s) b ms vs" "distinct (c # ms)"
    and "tl_owner s = (\<lambda>_. None)(c := Some p)"
  shows "\<exists>t b' ms'. (solo p)\<^sup>*\<^sup>* s t \<and> tl_pc t = (tl_pc s)(p := T_idle) \<and> tl_heap t c = Some (d, b')
    \<and> tl_chain (tl_heap t) b' ms' (filter (\<lambda>x. \<not> P x) vs) \<and> set ms' \<subseteq> set ms \<and> distinct ms'
    \<and> (\<forall>a. a \<notin> set (c # ms) \<longrightarrow> tl_heap t a = tl_heap s a)"
  using assms
proof (induction ms arbitrary: s c d b vs)
  case Nil
  then have "b = None" "vs = []" by (cases vs; simp)+
  then have "solo p s (tl_goes p T_idle (tl_own c None s))" unfolding solo_def
    using tsl_step.tl_last[OF Nil(1)] Nil(2) by blast
  then show ?case using Nil \<open>vs = []\<close> \<open>b = None\<close>
    by (intro exI[of _ "tl_goes p T_idle (tl_own c None s)"] exI[of _ None] exI[of _ "[]"]) auto
next
  case (Cons n ms)
  obtain x ws b1 where v: "vs = x # ws" "b = Some n" "tl_heap s n = Some (Some x, b1)" "tl_chain (tl_heap s) b1 ms ws"
    using Cons.prems(3) by (cases vs) auto
  have ne: "n \<noteq> c" "c \<notin> set ms" "n \<notin> set ms" "distinct ms" using Cons.prems(4) by auto
  let ?k = "Remove_if P"
  let ?s1 = "tl_goes p (T_want ?k c n) s"
  let ?s2 = "tl_goes p (T_both ?k c n) (tl_own n (Some p) ?s1)"
  have 1: "solo p s ?s1" unfolding solo_def using tsl_step.tl_next[OF Cons.prems(1)] Cons.prems(2) v(2) by blast
  have 2: "solo p ?s1 ?s2" unfolding solo_def
    by (rule exI, rule tsl_step.tl_lock_next) (use Cons.prems(5) ne(1) v(3) in simp_all)
  have go: "(solo p)\<^sup>*\<^sup>* s ?s2" by (rule solo_two[OF 1 2])
  show ?case
  proof (cases "P x")
    case True
    let ?s3 = "tl_goes p (T_delete ?k c n) (tl_own n None (tl_put n (Some (Some x, None)) (tl_put c (Some (d, b1)) ?s2)))"
    let ?s4 = "tl_goes p (T_at ?k c) (tl_put n None ?s3)"
    have 3: "solo p ?s2 ?s3" unfolding solo_def
      by (rule exI, rule tsl_step.tl_unlink[where P = P]) (use True v(2,3) Cons.prems(2) in simp_all)
    have 4: "solo p ?s3 ?s4" unfolding solo_def
      by (rule exI, rule tsl_step.tl_delete) simp_all
    have ch: "tl_chain (tl_heap ?s4) b1 ms ws" using v(4) ne by (auto intro!: tl_chain_upd)
    have dm: "distinct (c # ms)" using ne by simp
    have "tl_pc ?s4 p = T_at ?k c" "tl_heap ?s4 c = Some (d, b1)" "tl_owner ?s4 = (\<lambda>_. None)(c := Some p)"
      using ne(1) Cons.prems(5) by auto
    from Cons.IH[OF this(1,2) ch dm this(3)]
    obtain t b' ms' where t: "(solo p)\<^sup>*\<^sup>* ?s4 t" "tl_pc t = (tl_pc ?s4)(p := T_idle)" "tl_heap t c = Some (d, b')"
      "tl_chain (tl_heap t) b' ms' (filter (\<lambda>x. \<not> P x) ws)" "set ms' \<subseteq> set ms" "distinct ms'"
      "\<forall>a. a \<notin> set (c # ms) \<longrightarrow> tl_heap t a = tl_heap ?s4 a" by blast
    have "(solo p)\<^sup>*\<^sup>* s t"
      by (rule rtranclp_trans[OF go rtranclp_trans[OF solo_two[OF 3 4] t(1)]])
    moreover have "tl_pc t = (tl_pc s)(p := T_idle)" using t(2) by simp
    moreover have "tl_heap t a = tl_heap s a" if "a \<notin> set (c # n # ms)" for a using t(7) that by simp
    ultimately show ?thesis using t(3-6) v(1) True by (intro exI[of _ t] exI[of _ b'] exI[of _ ms']) auto
  next
    case False
    let ?s3 = "tl_goes p (T_at ?k n) (tl_own c None ?s2)"
    have 3: "solo p ?s2 ?s3" unfolding solo_def
      by (rule exI, rule tsl_step.tl_keep[where P = P]) (use False v(3) in simp_all)
    have "tl_pc ?s3 p = T_at ?k n" "tl_heap ?s3 n = Some (Some x, b1)" "tl_chain (tl_heap ?s3) b1 ms ws"
      "distinct (n # ms)" "tl_owner ?s3 = (\<lambda>_. None)(n := Some p)"
      using ne v Cons.prems(5) by auto
    from Cons.IH[OF this]
    obtain t b' ms' where t: "(solo p)\<^sup>*\<^sup>* ?s3 t" "tl_pc t = (tl_pc ?s3)(p := T_idle)" "tl_heap t n = Some (Some x, b')"
      "tl_chain (tl_heap t) b' ms' (filter (\<lambda>x. \<not> P x) ws)" "set ms' \<subseteq> set ms" "distinct ms'"
      "\<forall>a. a \<notin> set (n # ms) \<longrightarrow> tl_heap t a = tl_heap ?s3 a" by blast
    have "(solo p)\<^sup>*\<^sup>* s t"
      by (rule solo_steps[OF go 3 t(1)])
    moreover have "tl_heap t c = Some (d, Some n)" using t(7) ne Cons.prems(2) v(2) by simp
    moreover have "tl_pc t = (tl_pc s)(p := T_idle)" using t(2) by simp
    moreover have "tl_chain (tl_heap t) (Some n) (n # ms') (filter (\<lambda>x. \<not> P x) vs)" using t(3,4) v(1) False by simp
    moreover have "set (n # ms') \<subseteq> set (n # ms)" "distinct (n # ms')" using t(5,6) ne(3) by auto
    moreover have "tl_heap t a = tl_heap s a" if "a \<notin> set (c # n # ms)" for a using t(7) that by simp
    ultimately show ?thesis by blast
  qed
qed

section \<open>Properties\<close>

text \<open>C35: The list is a list. In every interleaving of any number of threads a push takes
  effect at the front, a removal takes out one element, \<open>for_each\<close> applies its function
  to one element after the other and each time the result takes the place of an element that is in
  the list at that moment, \<open>find_first_if\<close> finds only elements that are in the list at
  that moment, the nodes from the head on hold what is left, and no thread ever uses a freed node or
  frees one whose mutex is held or waited for. (The function and the predicates return, do not throw
  and do not use the list themselves.)\<close>

theorem threadsafe_list_is_a_list:
  assumes "tsl_run es s"
  shows "\<exists>xs ns. list_run es xs \<and> tl_list s ns xs \<and> (\<forall>p. tl_pc s p \<noteq> T_undefined)"
proof -
  obtain ns xs where inv: "tl_inv s ns xs" and "list_run es xs" using tsl_run_inv[OF assms] by blast
  moreover have "tl_pc s p \<noteq> T_undefined" for p using tl_invD(4)[OF inv, of p] by auto
  ultimately show ?thesis using tl_invD(1)[OF inv] by blast
qed

text \<open>C36: There is no deadlock: whenever some threads are inside an operation, one of them
  can go on, because all of them take the mutexes in the order of the list. (The functions given to
  the walks return and do not use the list themselves.)\<close>

theorem threadsafe_list_never_deadlocks:
  assumes "tsl_run es s" and "tl_pc s p \<noteq> T_idle"
  shows "\<exists>q e t. tl_pc s q \<noteq> T_idle \<and> tsl_step q s e t"
proof (rule ccontr)
  assume none: "\<not> ?thesis"
  obtain ns xs where inv: "tl_inv s ns xs" using tsl_run_inv[OF assms(1)] by blast
  have w: "tl_waits s q" if "tl_pc s q \<noteq> T_idle" for q using steps_or_waits[OF inv that] none that by blast
  obtain n where n: "tl_owner s n \<noteq> None" using w[OF assms(2)] by (auto simp: tl_waits_def split: tsl_pc.splits)
  then have "n \<in> set (0 # ns)" using tl_invD(7,8)[OF inv] by (metis not_None_eq subsetD)
  obtain a where a: "tl_heap s 0 = Some (None, a)" "tl_chain (tl_heap s) a ns xs" using tl_invD(6)[OF inv] by blast
  have "\<exists>d b ms ys. tl_heap s n = Some (d, b) \<and> tl_chain (tl_heap s) b ms ys"
  proof (cases "n = 0")
    case False
    then have "n \<in> set ns" using \<open>n \<in> set (0 # ns)\<close> by simp
    with a(2) show ?thesis
      by (induction "tl_heap s" a ns xs rule: tl_chain.induct) auto
  qed (use a in blast)
  then show False using waiting_chain_ends[OF inv w n] by blast
qed

text \<open>\<open>remove_if\<close> removes exactly the elements that satisfy the predicate and then returns, when no
  other thread is inside an operation; in particular the destructor, which removes all, empties the
  list.\<close>

theorem remove_if_filters:
  assumes "tsl_run es s" and "tl_pc s p = T_start (Remove_if P)" and "\<forall>q. q \<noteq> p \<longrightarrow> tl_pc s q = T_idle"
  shows "\<exists>xs es' t ms. list_run es xs \<and> tsl_run (es @ es') t \<and> tl_pc t p = T_idle \<and> tl_list t ms (filter (\<lambda>x. \<not> P x) xs)"
proof -
  obtain ns xs where inv: "tl_inv s ns xs" and xs: "list_run es xs" using tsl_run_inv[OF assms(1)] by blast
  obtain a where a: "tl_heap s 0 = Some (None, a)" "tl_chain (tl_heap s) a ns xs" using tl_invD(6)[OF inv] by blast
  have "tl_holds (tl_pc s q) = {}" for q using assms(2,3) by (cases "q = p") auto
  then have own: "tl_owner s n = None" for n using tl_invD(7)[OF inv, of n] by (cases "tl_owner s n") auto
  let ?s = "tl_goes p (T_at (Remove_if P) 0) (tl_own 0 (Some p) s)"
  have 1: "solo p s ?s" unfolding solo_def using tsl_step.tl_lock_head[OF assms(2) own] by blast
  have o: "tl_owner ?s = (\<lambda>_. None)(0 := Some p)" using own by auto
  obtain t b ms where t: "(solo p)\<^sup>*\<^sup>* ?s t" "tl_pc t = (tl_pc ?s)(p := T_idle)" "tl_heap t 0 = Some (None, b)"
    "tl_chain (tl_heap t) b ms (filter (\<lambda>x. \<not> P x) xs)" "set ms \<subseteq> set ns" "distinct ms"
    using solo_removes[of ?s p P 0 None a ns xs, OF _ _ _ tl_invD(5)[OF inv] o] a by auto
  have "(solo p)\<^sup>*\<^sup>* s t" using 1 t(1) by (rule converse_rtranclp_into_rtranclp)
  then obtain es' where "tsl_run (es @ es') t" using solo_run assms(1) by blast
  moreover have "tl_list t ms (filter (\<lambda>x. \<not> P x) xs)"
    using t(3-6) tl_invD(5)[OF inv] by (auto simp: tl_list_def)
  moreover have "tl_pc t p = T_idle" using t(2) by simp
  ultimately show ?thesis using xs by blast
qed

text \<open>Thread 0 pushes 7 and calls an operation.\<close>

definition tl2 :: "nat tsl_pc \<Rightarrow> nat tsl" where
  "tl2 c = \<lparr>tl_heap = [0 \<mapsto> (None, Some 1), 1 \<mapsto> (Some 7, None)], tl_owner = (\<lambda>_. None), tl_pc = (\<lambda>_. T_idle)(0 := c)\<rparr>"

lemma tl2_run: "tsl_run [Tl_tau, Tl_pushed 7] (tl2 T_idle)"
proof -
  let ?s = "tl_goes 0 (T_push 7 1) (tl_put 1 (Some (Some (7::nat), None)) tsl_ctor)"
  have 1: "tsl_run ([] @ [Tl_tau]) ?s"
    by (rule tl_more[OF tl_init tsl_step.tl_new[of _ 0 1 7]]) (simp_all add: tsl_ctor_def)
  have "tsl_step 0 ?s (Tl_pushed 7) (tl_goes 0 T_idle (tl_put 0 (Some (None, Some 1)) (tl_put 1 (Some (Some 7, None)) ?s)))"
    by (rule tsl_step.tl_push) (simp_all add: tsl_ctor_def)
  moreover have "tl_goes 0 T_idle (tl_put 0 (Some (None, Some 1)) (tl_put 1 (Some (Some 7, None)) ?s)) = tl2 T_idle"
    by (auto simp: tl2_def tsl_ctor_def tl_goes_def tl_put_def fun_upd_twist)
  ultimately show ?thesis using tl_more[OF 1] by simp
qed

lemma tl2_call: "tsl_run [Tl_tau, Tl_pushed 7, Tl_tau] (tl2 (T_start k))"
proof -
  have "tsl_step 0 (tl2 T_idle) Tl_tau (tl_goes 0 (T_start k) (tl2 T_idle))"
    by (rule tsl_step.tl_call) (simp add: tl2_def)
  moreover have "tl_goes 0 (T_start k) (tl2 T_idle) = tl2 (T_start k)" by (simp add: tl2_def tl_goes_def)
  ultimately show ?thesis using tl_more[OF tl2_run] by simp
qed

theorem threadsafe_list_is_a_list_witness:
  "\<exists>(s :: nat tsl) ns. tsl_run [Tl_tau, Tl_pushed 7] s \<and> list_run [Tl_tau, Tl_pushed 7] [7 :: nat] \<and> tl_list s ns [7]
     \<and> (\<forall>p. tl_pc s p \<noteq> T_undefined)"
proof -
  obtain xs ns where r: "list_run [Tl_tau, Tl_pushed 7] xs" "tl_list (tl2 T_idle) ns xs" "\<forall>p. tl_pc (tl2 T_idle) p \<noteq> T_undefined"
    using threadsafe_list_is_a_list[OF tl2_run] by blast
  obtain n ms x ys where c: "ns = n # ms" "xs = x # ys" using r(2) by (cases ns; cases xs) (auto simp: tl_list_def tl2_def)
  then have "xs = [7]" using r(2) by (cases ms; cases ys) (auto simp: tl_list_def tl2_def)
  then show ?thesis using r tl2_run by blast
qed

theorem threadsafe_list_never_deadlocks_witness:
  "\<exists>q e t. tl_pc (tl2 (T_start (For_each Suc))) q \<noteq> T_idle \<and> tsl_step q (tl2 (T_start (For_each Suc))) e t"
  by (rule threadsafe_list_never_deadlocks[OF tl2_call, of _ 0]) (simp add: tl2_def)

theorem remove_if_filters_witness:
  "\<exists>xs es' t ms. list_run [Tl_tau, Tl_pushed 7, Tl_tau] xs \<and> tsl_run ([Tl_tau, Tl_pushed 7, Tl_tau] @ es') t
    \<and> tl_pc t 0 = T_idle \<and> tl_list t ms (filter (\<lambda>x. \<not> x = (7::nat)) xs)"
  by (rule remove_if_filters[OF tl2_call]) (simp_all add: tl2_def)

end
