(* ===== verification/ThuVector.thy ===== *)
theory ThuVector
  imports Prelude
begin

text \<open>
  \<open>vector.cpp\<close>: \<open>thu::vector\<close>, a growing array over raw memory. A block is a list of slots,
  \<open>None\<close> where no object lives; constructing over an object, destroying none, and giving back a
  block in which objects live are errors. Copying an element may throw: \<open>cp\<close> says which
  elements cannot be copied. Allocating may throw: \<open>al\<close> says which sizes can be had. Moving an
  element does not throw here.
\<close>

section \<open>Memory\<close>

definition construct :: "nat \<Rightarrow> 'a \<Rightarrow> 'a option list \<Rightarrow> 'a option list res" where
  "construct i x mem = (if i < length mem \<and> mem ! i = None then Inr (mem[i := Some x])
     else Inl (Undefined ''construct''))"

definition destroy :: "nat \<Rightarrow> 'a option list \<Rightarrow> 'a option list res" where
  "destroy i mem = (if i < length mem \<and> mem ! i \<noteq> None then Inr (mem[i := None])
     else Inl (Undefined ''destroy''))"

definition block_deallocate :: "'a option list \<Rightarrow> unit res" where
  "block_deallocate mem = (if list_all (\<lambda>x. x = None) mem then Inr () else Inl (Undefined ''deallocate''))"

definition block_allocate :: "nat \<Rightarrow> 'a option list" where
  "block_allocate n = replicate n None"

section \<open>The vector\<close>

text \<open>\<open>begin_\<close> is null or the start of \<open>v_mem\<close>; \<open>v_end\<close> is \<open>end_ - begin_\<close>, and the capacity the
  length of the block.\<close>

record 'a vector =
  v_null :: bool
  v_mem :: "'a option list"
  v_end :: nat

definition vector_empty :: "'a vector" where
  "vector_empty = \<lparr>v_null = True, v_mem = [], v_end = 0\<rparr>"

definition v_capacity :: "'a vector \<Rightarrow> nat" where
  "v_capacity v = length (v_mem v)"

text \<open>The loops of the constructors: copies of the values one after the other; when one cannot be
  copied, what has been constructed is destroyed from the end, the block given back and the
  exception rethrown (\<open>None\<close>). The allocation stands before the \<open>try\<close>: when it throws, the
  constructor ends with nothing to give back.\<close>

fun destroy_back :: "nat \<Rightarrow> 'a option list \<Rightarrow> 'a option list res" where
  "destroy_back 0 mem = Inr mem"
| "destroy_back (Suc k) mem = bindr (destroy k mem) (destroy_back k)"

fun copy_all :: "('a \<Rightarrow> 'a option) \<Rightarrow> 'a list \<Rightarrow> nat \<Rightarrow> 'a option list \<Rightarrow> 'a vector option res" where
  "copy_all cp [] k mem = Inr (Some \<lparr>v_null = False, v_mem = mem, v_end = k\<rparr>)"
| "copy_all cp (x # xs) k mem =
     (case cp x of
        Some y \<Rightarrow> bindr (construct k y mem) (copy_all cp xs (k + 1))
      | None \<Rightarrow> bindr (destroy_back k mem) (\<lambda>mem. bindr (block_deallocate mem) (\<lambda>_. Inr None)))"

definition vector_fill :: "('a \<Rightarrow> 'a option) \<Rightarrow> (nat \<Rightarrow> bool) \<Rightarrow> nat \<Rightarrow> 'a \<Rightarrow> 'a vector option res" where
  "vector_fill cp al count x =
     (if 0 < count
      then if al count then copy_all cp (replicate count x) 0 (block_allocate count) else Inr None
      else Inr (Some vector_empty))"

definition vector_copy :: "('a \<Rightarrow> 'a option) \<Rightarrow> (nat \<Rightarrow> bool) \<Rightarrow> 'a vector \<Rightarrow> 'a vector option res" where
  "vector_copy cp al other =
     (if 0 < v_end other
      then if al (v_capacity other)
        then copy_all cp (map the (take (v_end other) (v_mem other))) 0 (block_allocate (v_capacity other))
        else Inr None
      else Inr (Some vector_empty))"

definition vector_move :: "'a vector \<Rightarrow> 'a vector \<times> 'a vector" where
  "vector_move other = (other, vector_empty)"

definition vector_dtor :: "'a vector \<Rightarrow> unit res" where
  "vector_dtor v =
     bindr (fold_res destroy [0..<v_end v] (v_mem v)) (\<lambda>mem.
       if v_null v then Inr () else block_deallocate mem)"

text \<open>\<open>reserve\<close> moves the elements one by one, each constructed in the new block and destroyed in the
  old one. It leaves the vector and tells whether it returned (\<open>False\<close>: an exception got out).\<close>

definition move_element :: "nat \<Rightarrow> 'a option list \<times> 'a option list \<Rightarrow> ('a option list \<times> 'a option list) res" where
  "move_element i = (\<lambda>(old, new).
     if i < length old \<and> old ! i \<noteq> None
     then bindr (construct i (the (old ! i)) new) (\<lambda>new. bindr (destroy i old) (\<lambda>old. Inr (old, new)))
     else Inl (Undefined ''move of no object''))"

definition vector_reserve :: "(nat \<Rightarrow> bool) \<Rightarrow> nat \<Rightarrow> 'a vector \<Rightarrow> ('a vector \<times> bool) res" where
  "vector_reserve al new_cap v =
     (if new_cap \<le> v_capacity v then Inr (v, True)
      else if \<not> al new_cap then Inr (v, False)
      else bindr (fold_res move_element [0..<v_end v] (v_mem v, block_allocate new_cap)) (\<lambda>(old, new).
           bindr (block_deallocate old) (\<lambda>_. Inr (\<lparr>v_null = False, v_mem = new, v_end = v_end v\<rparr>, True))))"

text \<open>The argument of \<open>push_back\<close> is a reference, to a value elsewhere or to an element of this
  vector; it is read after \<open>reserve\<close>, which gives back the block of the element.\<close>

datatype 'a vref = Outside 'a | Element nat

definition read_ref :: "bool \<Rightarrow> 'a option list \<Rightarrow> 'a vref \<Rightarrow> 'a res" where
  "read_ref moved mem r = (case r of Outside x \<Rightarrow> Inr x
     | Element i \<Rightarrow> if moved then Inl (Undefined ''reference into a freed block'')
         else if i < length mem \<and> mem ! i \<noteq> None then Inr (the (mem ! i)) else Inl (Undefined ''no object''))"

text \<open>\<open>end_++\<close> is done before \<open>construct\<close> is called: when the copy throws, the end has moved.\<close>

definition push_back :: "('a \<Rightarrow> 'a option) \<Rightarrow> (nat \<Rightarrow> bool) \<Rightarrow> 'a vref \<Rightarrow> 'a vector \<Rightarrow> ('a vector \<times> bool) res" where
  "push_back cp al r v =
     (let full = v_end v = v_capacity v in
      bindr (if full then vector_reserve al (if v_capacity v = 0 then 1 else v_capacity v * 2) v else Inr (v, True)) (\<lambda>(v, ok).
      if \<not> ok then Inr (v, False)
      else bindr (read_ref full (v_mem v) r) (\<lambda>x.
        case cp x of
          None \<Rightarrow> Inr (v\<lparr>v_end := v_end v + 1\<rparr>, False)
        | Some y \<Rightarrow> bindr (construct (v_end v) y (v_mem v)) (\<lambda>mem.
            Inr (v\<lparr>v_mem := mem, v_end := v_end v + 1\<rparr>, True)))))"

text \<open>\<open>throw;\<close> without a current exception ends the program.\<close>

definition vector_at :: "'a vector \<Rightarrow> int \<Rightarrow> 'a res" where
  "vector_at v i =
     (if i < 0 \<or> int (v_end v) \<le> i then Inl (Terminated ''throw without exception'')
      else if nat i < length (v_mem v) \<and> v_mem v ! nat i \<noteq> None then Inr (the (v_mem v ! nat i))
      else Inl (Undefined ''no object''))"

section \<open>Contents\<close>

text \<open>The vector holds the list \<open>xs\<close>: its elements and then raw memory.\<close>

definition vec_holds :: "'a list \<Rightarrow> 'a vector \<Rightarrow> bool" where
  "vec_holds xs v \<longleftrightarrow> v_end v = length xs \<and> length xs \<le> v_capacity v
     \<and> v_mem v = map Some xs @ replicate (v_capacity v - length xs) None \<and> (v_null v \<longrightarrow> v_mem v = [])"

lemma vec_holds_empty: "vec_holds [] vector_empty"
  by (simp add: vec_holds_def vector_empty_def v_capacity_def)

lemma construct_next:
  "construct (length xs) x (map Some xs @ replicate (Suc k) None) = Inr (map Some (xs @ [x]) @ replicate k None)"
  by (simp add: construct_def nth_append list_update_append)

lemma destroy_from_front:
  "fold_res destroy [k..<k + length xs] (replicate k None @ map Some xs @ rest)
     = Inr (replicate (k + length xs) None @ rest)"
proof (induction xs arbitrary: k)
  case (Cons x xs)
  have "destroy k (replicate k None @ Some x # map Some xs @ rest) = Inr (replicate (Suc k) None @ map Some xs @ rest)"
    by (simp add: destroy_def nth_append list_update_append replicate_app_Cons_same)
  moreover have "[k..<k + length (x # xs)] = k # [Suc k..<Suc k + length xs]"
    by (simp add: upt_conv_Cons del: upt_Suc)
  ultimately show ?case using Cons.IH[of "Suc k"] by (simp del: upt_Suc)
qed simp

lemma destroy_from_back:
  "destroy_back (length xs) (map Some xs @ rest) = Inr (replicate (length xs) None @ rest)"
proof (induction xs arbitrary: rest rule: rev_induct)
  case (snoc x xs)
  have "destroy (length xs) (map Some xs @ Some x # rest) = Inr (map Some xs @ None # rest)"
    by (simp add: destroy_def nth_append list_update_append)
  then show ?case using snoc.IH[of "None # rest"] by (simp add: replicate_app_Cons_same)
qed simp

lemma move_elements:
  "fold_res move_element [length ys..<length ys + length xs]
     (replicate (length ys) None @ map Some xs @ rest, map Some ys @ replicate (length xs + k) None)
   = Inr (replicate (length ys + length xs) None @ rest, map Some (ys @ xs) @ replicate k None)"
proof (induction xs arbitrary: ys)
  case (Cons x xs)
  have c: "construct (length ys) x (map Some ys @ replicate (Suc (length xs + k)) None)
      = Inr (map Some (ys @ [x]) @ replicate (length xs + k) None)" by (rule construct_next)
  have d: "destroy (length ys) (replicate (length ys) None @ Some x # map Some xs @ rest)
      = Inr (replicate (Suc (length ys)) None @ map Some xs @ rest)"
    by (simp add: destroy_def nth_append list_update_append replicate_app_Cons_same)
  have "move_element (length ys) (replicate (length ys) None @ Some x # map Some xs @ rest,
      map Some ys @ replicate (Suc (length xs + k)) None)
    = Inr (replicate (Suc (length ys)) None @ map Some xs @ rest, map Some (ys @ [x]) @ replicate (length xs + k) None)"
    using c d by (simp add: move_element_def nth_append)
  moreover have "[length ys..<length ys + length (x # xs)] = length ys # [Suc (length ys)..<Suc (length ys) + length xs]"
    by (simp add: upt_conv_Cons del: upt_Suc)
  ultimately show ?case using Cons.IH[of "ys @ [x]"] by (simp del: upt_Suc)
qed simp

section \<open>Growing\<close>

lemma vec_holdsE:
  assumes "vec_holds xs v"
  obtains "v_end v = length xs" and "v_mem v = map Some xs @ replicate (v_capacity v - length xs) None"
    and "length xs \<le> v_capacity v"
  using assms by (simp add: vec_holds_def)

lemma block_deallocate_raw [simp]: "block_deallocate (replicate a None @ replicate b None) = Inr ()"
  by (auto simp: block_deallocate_def list_all_iff)

lemma vec_at:
  assumes "vec_holds xs v" "i < length xs"
  shows "vector_at v (int i) = Inr (xs ! i)"
proof -
  have e: "v_end v = length xs" and v: "v_mem v = map Some xs @ replicate (v_capacity v - length xs) None"
    using assms(1) by (auto elim: vec_holdsE)
  have m: "v_mem v ! i = Some (xs ! i)" and l: "i < length (v_mem v)"
    using assms(2) by (subst v, simp add: nth_append)+
  show ?thesis using assms(2) e m l by (simp add: vector_at_def)
qed

lemma vec_dtor:
  assumes "vec_holds xs v"
  shows "vector_dtor v = Inr ()"
proof -
  have e: "v_end v = length xs" and m: "v_mem v = map Some xs @ replicate (v_capacity v - length xs) None"
    using assms by (auto elim: vec_holdsE)
  show ?thesis
    using destroy_from_front[of 0 xs "replicate (v_capacity v - length xs) None"]
    by (simp add: vector_dtor_def e m del: upt_Suc)
qed

lemma vec_reserve:
  assumes "vec_holds xs v" "v_capacity v < n" "al n"
  shows "\<exists>w. vector_reserve al n v = Inr (w, True) \<and> vec_holds xs w \<and> v_capacity w = n"
proof -
  have e: "v_end v = length xs" and m: "v_mem v = map Some xs @ replicate (v_capacity v - length xs) None"
    and l: "length xs \<le> v_capacity v" using assms(1) by (auto elim: vec_holdsE)
  define rest where "rest = replicate (v_capacity v - length xs) (None :: 'a option)"
  have n: "block_allocate n = replicate (length xs + (n - length xs)) None"
    using l assms(2) by (simp add: block_allocate_def)
  have "fold_res move_element [0..<v_end v] (v_mem v, block_allocate n)
      = Inr (replicate (length xs) None @ rest, map Some xs @ replicate (n - length xs) None)"
    using move_elements[of "[]" xs rest "n - length xs"] by (simp add: e m n rest_def del: upt_Suc)
  then show ?thesis
    using assms(2,3) l
    by (simp add: vector_reserve_def rest_def vec_holds_def v_capacity_def e)
qed

text \<open>The capacity after a push, and the room that \<open>push_back\<close> makes first.\<close>

definition grown :: "'a vector \<Rightarrow> nat" where
  "grown v = (if v_end v = v_capacity v then if v_capacity v = 0 then 1 else 2 * v_capacity v else v_capacity v)"

lemma vec_room:
  assumes "vec_holds xs v" "v_end v = v_capacity v \<longrightarrow> al (grown v)"
  obtains u where "(if v_end v = v_capacity v then vector_reserve al (if v_capacity v = 0 then 1 else v_capacity v * 2) v
      else Inr (v, True)) = Inr (u, True)"
    "vec_holds xs u" "v_capacity u = grown v" "length xs < grown v"
proof (cases "v_end v = v_capacity v")
  case True
  have g: "grown v = (if v_capacity v = 0 then 1 else v_capacity v * 2)" using True by (simp add: grown_def mult.commute)
  have less: "v_capacity v < grown v" using True by (simp add: grown_def)
  have "al (grown v)" using assms(2) True by simp
  then obtain u where u: "vector_reserve al (grown v) v = Inr (u, True)" "vec_holds xs u" "v_capacity u = grown v"
    using vec_reserve[where al = al, OF assms(1) less] by blast
  have "length xs < grown v" using less True assms(1) by (simp add: vec_holds_def)
  moreover have "(if v_end v = v_capacity v then vector_reserve al (if v_capacity v = 0 then 1 else v_capacity v * 2) v
      else Inr (v, True)) = Inr (u, True)" unfolding if_P[OF True] g[symmetric] by (rule u(1))
  ultimately show ?thesis using that u(2,3) by blast
next
  case False
  have "v_end v = length xs" "length xs \<le> v_capacity v" using assms(1) by (simp_all add: vec_holds_def)
  with False have "length xs < grown v" by (simp add: grown_def)
  then show ?thesis by (intro that[of v]) (use False assms(1) in \<open>simp_all add: grown_def\<close>)
qed

lemma vec_push:
  assumes "vec_holds xs v" "v_end v = v_capacity v \<longrightarrow> al (grown v)" "cp x = Some y"
  shows "\<exists>w. push_back cp al (Outside x) v = Inr (w, True) \<and> vec_holds (xs @ [y]) w \<and> v_capacity w = grown v"
proof -
  obtain u where r: "(if v_end v = v_capacity v then vector_reserve al (if v_capacity v = 0 then 1 else v_capacity v * 2) v
      else Inr (v, True)) = Inr (u, True)"
    and u: "vec_holds xs u" "v_capacity u = grown v" "length xs < grown v"
    by (rule vec_room[where al = al, OF assms(1,2)])
  obtain k where k: "grown v - length xs = Suc k" using u(3) by (metis Suc_diff_Suc)
  have e: "v_end u = length xs" and m: "v_mem u = map Some xs @ replicate (Suc k) None"
    using u(1,2) k by (auto elim: vec_holdsE)
  have c: "construct (v_end u) y (v_mem u) = Inr (map Some (xs @ [y]) @ replicate k None)"
    unfolding e m by (rule construct_next)
  have nn: "\<not> v_null u" using u(1) by (auto simp: vec_holds_def m)
  have "push_back cp al (Outside x) v = Inr (u\<lparr>v_mem := map Some (xs @ [y]) @ replicate k None, v_end := length xs + 1\<rparr>, True)"
    using c r assms(3) by (simp add: push_back_def read_ref_def Let_def e)
  moreover have "length xs + 1 + k = grown v" using k u(3) by simp
  ultimately show ?thesis using nn by (simp add: vec_holds_def v_capacity_def)
qed

text \<open>Pushes one after the other until one throws, and how many elements they moved to a new block.\<close>

fun pushes :: "('a \<Rightarrow> 'a option) \<Rightarrow> (nat \<Rightarrow> bool) \<Rightarrow> 'a list \<Rightarrow> 'a vector \<Rightarrow> ('a vector \<times> nat \<times> bool) res" where
  "pushes cp al [] v = Inr (v, 0, True)"
| "pushes cp al (x # xs) v =
     bindr (push_back cp al (Outside x) v) (\<lambda>(w, ok).
     if \<not> ok then Inr (w, 0, False)
     else bindr (pushes cp al xs w) (\<lambda>(u, c, ok).
       Inr (u, c + (if v_end v = v_capacity v then v_end v else 0), ok)))"

lemma pushes_hold:
  assumes "vec_holds xs v" "\<forall>n. al n" "\<forall>y \<in> set ys. cp y \<noteq> None"
  shows "\<exists>w c. pushes cp al ys v = Inr (w, c, True) \<and> vec_holds (xs @ map (the \<circ> cp) ys) w
    \<and> c + v_capacity v \<le> v_capacity w
    \<and> (v_capacity v \<le> 2 * length xs \<longrightarrow> v_capacity w \<le> 2 * length (xs @ ys))"
  using assms(1,3)
proof (induction ys arbitrary: xs v)
  case (Cons y ys)
  let ?k = "if v_end v = v_capacity v then v_end v else 0"
  obtain z where z: "cp y = Some z" using Cons.prems(2) by auto
  have e: "v_end v = length xs" "length xs \<le> v_capacity v" using Cons.prems(1) by (auto elim: vec_holdsE)
  obtain w where w: "push_back cp al (Outside y) v = Inr (w, True)" "vec_holds (xs @ [z]) w" "v_capacity w = grown v"
    using vec_push[of xs v al cp y z] Cons.prems(1) assms(2) z by auto
  then have g: "?k + v_capacity v \<le> v_capacity w"
    "v_capacity v \<le> 2 * length xs \<Longrightarrow> v_capacity w \<le> 2 * length (xs @ [z])"
    using e by (auto simp: grown_def)
  obtain u c where u: "pushes cp al ys w = Inr (u, c, True)" "vec_holds ((xs @ [z]) @ map (the \<circ> cp) ys) u"
    "c + v_capacity w \<le> v_capacity u"
    "v_capacity w \<le> 2 * length (xs @ [z]) \<longrightarrow> v_capacity u \<le> 2 * length ((xs @ [z]) @ ys)"
    using Cons.IH[OF w(2)] Cons.prems(2) by (meson list.set_intros(2))
  have "pushes cp al (y # ys) v = Inr (u, c + ?k, True)" using w(1) u(1) by simp
  moreover have "c + ?k + v_capacity v \<le> v_capacity u" using g(1) u(3) by linarith
  ultimately show ?case using u(2,4) g(2) z by (simp add: comp_def del: pushes.simps)
qed simp

section \<open>Copying\<close>

lemma copy_all_holds:
  assumes "length xs + length ys \<le> n"
  shows "if \<exists>x\<in>set xs. cp x = None
    then copy_all cp xs (length ys) (map Some ys @ replicate (n - length ys) None) = Inr None
    else \<exists>w. copy_all cp xs (length ys) (map Some ys @ replicate (n - length ys) None) = Inr (Some w)
      \<and> vec_holds (ys @ map (the \<circ> cp) xs) w \<and> v_capacity w = n"
  using assms
proof (induction xs arbitrary: ys)
  case Nil
  then show ?case by (simp add: vec_holds_def v_capacity_def)
next
  case (Cons x xs)
  show ?case
  proof (cases "cp x")
    case None
    then show ?thesis using destroy_from_back[of ys] by simp
  next
    case (Some y)
    obtain k where k: "n - length ys = Suc k" "n - length (ys @ [y]) = k"
      using Cons.prems by (metis Suc_diff_Suc Suc_le_lessD add_Suc diff_Suc_Suc diff_Suc_eq_diff_pred
        add_lessD1 add.commute length_Cons length_append_singleton diff_Suc_1)
    have "construct (length ys) y (map Some ys @ replicate (n - length ys) None)
        = Inr (map Some (ys @ [y]) @ replicate k None)" unfolding k(1) by (rule construct_next)
    then show ?thesis using Cons.IH[of "ys @ [y]"] Cons.prems Some k by (simp cong: if_cong)
  qed
qed

section \<open>Properties\<close>

text \<open>C28: A vector is the list of what was pushed. Pushes of any number of values to a vector that holds
  \<open>xs\<close>, whatever its capacity, all return when every allocation succeeds and every value can be
  copied (and moving an element never throws); afterwards every index gives the element of the list
  at that place, and the destructor destroys every element once and gives the block back with no
  object left in it. What a push does that fails is the next theorem.\<close>

theorem vector_is_the_list_of_its_pushes:
  assumes "vec_holds xs v" "\<forall>n. al n" "\<forall>y \<in> set ys. cp y \<noteq> None"
  shows "\<exists>w c. pushes cp al ys v = Inr (w, c, True) \<and> v_end w = length (xs @ ys)
    \<and> (\<forall>i<length (xs @ ys). vector_at w (int i) = Inr ((xs @ map (the \<circ> cp) ys) ! i)) \<and> vector_dtor w = Inr ()"
proof -
  obtain w c where w: "pushes cp al ys v = Inr (w, c, True)" "vec_holds (xs @ map (the \<circ> cp) ys) w"
    using pushes_hold[OF assms] by blast
  have "v_end w = length (xs @ map (the \<circ> cp) ys)" using w(2) by (rule vec_holdsE)
  then show ?thesis using w(1) vec_at[OF w(2)] vec_dtor[OF w(2)] by auto
qed

theorem vector_is_the_list_of_its_pushes_witness:
  "\<exists>w c. pushes Some (\<lambda>_. True) [1, 2, 3::int] (\<lparr>v_null = False, v_mem = [Some 5, None, None, None], v_end = 1\<rparr>) = Inr (w, c, True)
    \<and> v_end w = 4 \<and> (\<forall>i<4. vector_at w (int i) = Inr ([5, 1, 2, 3] ! i)) \<and> vector_dtor w = Inr ()"
proof -
  have "vec_holds [5::int] \<lparr>v_null = False, v_mem = [Some 5, None, None, None], v_end = 1\<rparr>"
    by (simp add: vec_holds_def v_capacity_def numeral_eq_Suc)
  from vector_is_the_list_of_its_pushes[OF this, of "\<lambda>_. True" "[1, 2, 3]" Some] show ?thesis by (simp add: numeral_eq_Suc del: pushes.simps)
qed

text \<open>C29: A push that throws. When there is room, or can be had, and the value cannot be copied, the
  exception leaves \<open>push_back\<close> after \<open>end_++\<close>: the vector counts one element more than it has, the
  old elements are still there, but reading the last one is undefined, and so is the destructor,
  which destroys a slot without an object.\<close>

theorem failing_push_back_counts_no_object:
  assumes "vec_holds xs v" "v_end v = v_capacity v \<longrightarrow> al (grown v)" "cp x = None"
  shows "\<exists>w. push_back cp al (Outside x) v = Inr (w, False) \<and> v_end w = Suc (length xs)
    \<and> (\<forall>i<length xs. vector_at w (int i) = Inr (xs ! i))
    \<and> vector_at w (int (length xs)) = Inl (Undefined ''no object'') \<and> vector_dtor w = Inl (Undefined ''destroy'')"
proof -
  obtain u where r: "(if v_end v = v_capacity v then vector_reserve al (if v_capacity v = 0 then 1 else v_capacity v * 2) v
      else Inr (v, True)) = Inr (u, True)"
    and u: "vec_holds xs u" "v_capacity u = grown v" "length xs < grown v"
    by (rule vec_room[where al = al, OF assms(1,2)])
  let ?w = "u\<lparr>v_end := Suc (v_end u)\<rparr>"
  obtain k where k: "grown v - length xs = Suc k" using u(3) by (metis Suc_diff_Suc)
  have e: "v_end u = length xs" and m: "v_mem u = map Some xs @ replicate (Suc k) None"
    using u(1,2) k by (auto elim: vec_holdsE)
  have "push_back cp al (Outside x) v = Inr (?w, False)"
    using r assms(3) by (simp add: push_back_def read_ref_def Let_def)
  moreover have "vector_at ?w (int i) = Inr (xs ! i)" if "i < length xs" for i
    using that by (simp add: vector_at_def e m nth_append)
  moreover have "vector_at ?w (int (length xs)) = Inl (Undefined ''no object'')"
    by (simp add: vector_at_def e m nth_append)
  moreover have "fold_res destroy [0..<Suc (length xs)] (map Some xs @ replicate (Suc k) None) = Inl (Undefined ''destroy'')"
    using destroy_from_front[of 0 xs "replicate (Suc k) None"]
    by (simp add: fold_res_append destroy_def nth_append)
  then have "vector_dtor ?w = Inl (Undefined ''destroy'')" by (simp add: vector_dtor_def e m del: upt_Suc replicate_Suc)
  ultimately show ?thesis using e by auto
qed

theorem failing_push_back_counts_no_object_witness:
  "\<exists>w. push_back (\<lambda>x. if x = 7 then None else Some x) (\<lambda>_. True) (Outside (7::int)) vector_empty = Inr (w, False)
    \<and> v_end w = 1 \<and> vector_dtor w = Inl (Undefined ''destroy'')"
  using failing_push_back_counts_no_object[OF vec_holds_empty, of "\<lambda>_. True" "\<lambda>x. if x = 7 then None else Some x" 7] by auto

text \<open>When the block cannot be had, nothing has changed.\<close>

lemma push_back_without_memory:
  assumes "v_end v = v_capacity v" "\<not> al (grown v)"
  shows "push_back cp al r v = Inr (v, False)"
proof -
  have "grown v = (if v_capacity v = 0 then 1 else v_capacity v * 2)" using assms(1) by (simp add: grown_def mult.commute)
  moreover from this have "v_capacity v < grown v" by (auto split: if_splits)
  ultimately have "vector_reserve al (if v_capacity v = 0 then 1 else v_capacity v * 2) v = Inr (v, False)"
    using assms(2) by (simp add: vector_reserve_def)
  then show ?thesis using assms(1) by (simp add: push_back_def)
qed

text \<open>Growing is cheap on average: \<open>n\<close> pushes to an empty vector move at most \<open>2 n\<close> elements
  altogether from an old block to a new one, as each growth doubles the capacity.\<close>

theorem pushes_move_few_elements:
  assumes "\<forall>n. al n" "\<forall>y \<in> set ys. cp y \<noteq> None"
  shows "\<exists>w c. pushes cp al ys vector_empty = Inr (w, c, True) \<and> c \<le> v_capacity w \<and> v_capacity w \<le> 2 * length ys"
  using pushes_hold[OF vec_holds_empty assms] by (fastforce simp: vector_empty_def v_capacity_def)

text \<open>Pushing an element of the vector itself is undefined exactly when the vector is full:
  \<open>reserve\<close> has then freed the block the reference points into. Otherwise it pushes a copy.\<close>

theorem own_element_dangles_when_full:
  assumes "vec_holds xs v" and "i < length xs" "\<forall>n. al n"
  shows "push_back cp al (Element i) v = (if v_end v = v_capacity v
    then Inl (Undefined ''reference into a freed block'') else push_back cp al (Outside (xs ! i)) v)"
proof (cases "v_end v = v_capacity v")
  case True
  have c: "v_capacity v \<noteq> 0" using assms by (auto elim: vec_holdsE)
  obtain w where "vector_reserve al (v_capacity v * 2) v = Inr (w, True)"
    using vec_reserve[OF assms(1), of "v_capacity v * 2" al] c assms(3) by auto
  then show ?thesis using True c by (simp add: push_back_def read_ref_def)
next
  case False
  have v: "v_mem v = map Some xs @ replicate (v_capacity v - length xs) None"
    using assms(1) by (rule vec_holdsE)
  have "v_mem v ! i = Some (xs ! i)" and "i < length (v_mem v)"
    using assms(2) by (subst v, simp add: nth_append)+
  then show ?thesis using False by (simp add: push_back_def read_ref_def)
qed

lemma vec_holds_one: "vec_holds [5::int] \<lparr>v_null = False, v_mem = [Some 5], v_end = 1\<rparr>"
  by (simp add: vec_holds_def v_capacity_def)

theorem own_element_dangles_when_full_witness:
  "push_back Some (\<lambda>_. True) (Element 0) \<lparr>v_null = False, v_mem = [Some (5::int)], v_end = 1\<rparr>
     = Inl (Undefined ''reference into a freed block'')"
  using own_element_dangles_when_full[OF vec_holds_one, of 0 "\<lambda>_. True" Some] by (simp add: v_capacity_def)

text \<open>Copying a vector is all or nothing. If the block cannot be had, or an element cannot be copied,
  the constructor destroys the copies it made, gives the block back and throws; otherwise the copy
  holds the copies of all elements, in a block of the same capacity.\<close>

theorem copy_is_all_or_nothing:
  assumes "vec_holds xs v" and "xs \<noteq> []"
  shows "if \<not> al (v_capacity v) \<or> (\<exists>x\<in>set xs. cp x = None) then vector_copy cp al v = Inr None
    else \<exists>w. vector_copy cp al v = Inr (Some w) \<and> vec_holds (map (the \<circ> cp) xs) w \<and> v_capacity w = v_capacity v"
proof -
  have e: "v_end v = length xs" and m: "v_mem v = map Some xs @ replicate (v_capacity v - length xs) None"
    and l: "length xs \<le> v_capacity v" using assms(1) by (auto elim: vec_holdsE)
  have t: "map the (take (v_end v) (v_mem v)) = xs" by (subst m) (simp add: e comp_def)
  have "vector_copy cp al v = (if al (v_capacity v) then copy_all cp xs 0 (block_allocate (v_capacity v)) else Inr None)"
    using assms(2) by (simp add: vector_copy_def t) (simp add: e)
  then show ?thesis
    using copy_all_holds[of xs "[]" "v_capacity v" cp] l by (simp add: block_allocate_def cong: if_cong)
qed

theorem copy_is_all_or_nothing_witness:
  "vector_copy (\<lambda>x. if x = 5 then None else Some x) (\<lambda>_. True) \<lparr>v_null = False, v_mem = [Some (5::int)], v_end = 1\<rparr> = Inr None"
  using copy_is_all_or_nothing[OF vec_holds_one, of "\<lambda>_. True" "\<lambda>x. if x = 5 then None else Some x"] by simp

text \<open>The same for \<open>count\<close> copies of one value.\<close>

lemma fill_is_all_or_nothing:
  "0 < n \<Longrightarrow> if \<not> al n \<or> cp x = None then vector_fill cp al n x = Inr None
    else \<exists>w. vector_fill cp al n x = Inr (Some w) \<and> vec_holds (replicate n (the (cp x))) w \<and> v_capacity w = n"
  using copy_all_holds[of "replicate n x" "[]" n cp] by (simp add: vector_fill_def block_allocate_def cong: if_cong)

end
