(* ===== verification/TradingProps.thy ===== *)
theory TradingProps
  imports ClientProps TradingMain
begin

text \<open>
  The properties of the trading client's strategy side: what it can send, which orders it
  creates, what a fill does to its position.
\<close>

section \<open>A new trade engine\<close>

definition sample_cfg :: TradeEngineCfgHashMap where
  "sample_cfg = (\<lambda>_. \<lparr>clip = 10, threshold = Fin 0,
     risk_cfg = \<lparr>max_order_size = 100, max_position = 1000, max_loss = Fin (- 1000)\<rparr>\<rparr>)"

definition zeroed :: TradingRaw where
  "zeroed = \<lparr>raw_oid = (\<lambda>_ _. None), raw_price = (\<lambda>_ _. None), raw_vwap = (\<lambda>_ _. Fin 0)\<rparr>"

definition new_trader :: TradeEngine where
  "new_trader = TradeEngine_ctor zeroed 1 MAKER sample_cfg
     (LFQueue_ctor MEClientRequest_default ME_MAX_CLIENT_UPDATES)
     (LFQueue_ctor MEClientResponse_default ME_MAX_CLIENT_UPDATES)
     (LFQueue_ctor MEMarketUpdate_default ME_MAX_MARKET_UPDATES)"

section \<open>What the strategy sends\<close>

lemma onMarketUpdate_calls:
  assumes "onMarketUpdate onT onB u b e = Inr (b', e')"
  shows "(\<exists>q. onT u q e = Inr e') \<or> (\<exists>t p s q. onB t p s q e = Inr e')"
proof (cases "mu_type u = MUT_TRADE")
  case True
  then show ?thesis using assms
    by (auto simp: onMarketUpdate_def Let_def split: if_splits elim!: bindr_InrE)
next
  case False
  then show ?thesis using assms
    unfolding onMarketUpdate_def Let_def by (auto split: if_splits elim!: bindr_InrE)
qed

lemma handlers_only_cancel:
  "engine_response clock r e = Inr e' \<Longrightarrow> only_cancels e e'"
  "engine_update clock u e = Inr e' \<Longrightarrow> only_cancels e e'"
proof -
  assume "engine_response clock r e = Inr e'"
  then show "only_cancels e e'"
    using events_only_cancel(1) by (auto simp: engine_response_def elim!: bindr_InrE)
next
  assume "engine_update clock u e = Inr e'"
  then obtain b e1 where "onMarketUpdate TradeEngine_onTradeUpdate TradeEngine_onOrderBookUpdate u
      (ticker_book e (unat (mu_ticker_id u))) e = Inr (b, e1)"
    "e' = stamp clock (e1\<lparr>ticker_book := (ticker_book e1)(unat (mu_ticker_id u) := b)\<rparr>)"
    by (auto simp: engine_update_def Let_def elim!: bindr_InrE)
  then show "only_cancels e e'"
    using onMarketUpdate_calls events_only_cancel(2,3) by (metis only_cancels_fields(4,5))
qed

lemma iteration_only_cancels:
  assumes "TradeEngine_iteration clock e = Inr e'"
  shows "only_cancels e e'"
proof -
  obtain q1 e1 q2 e2 where d:
    "drain getNextToRead updateReadIndex (engine_response clock) (incoming_ogw_responses e) e = Some (Inr (q1, e1))"
    "drain getNextToRead updateReadIndex (engine_update clock) (incoming_md_updates (e1\<lparr>incoming_ogw_responses := q1\<rparr>))
       (e1\<lparr>incoming_ogw_responses := q1\<rparr>) = Some (Inr (q2, e2))"
    "e' = e2\<lparr>incoming_md_updates := q2\<rparr>"
    using assms
    by (auto simp: TradeEngine_iteration_def Let_def returned_def elim!: bindr_InrE split: option.splits)
  have 1: "only_cancels e e1"
    by (rule drain_invariant[OF d(1)]) (auto intro: only_cancels_trans handlers_only_cancel)
  have "only_cancels (e1\<lparr>incoming_ogw_responses := q1\<rparr>) e2"
    by (rule drain_invariant[OF d(2)]) (auto intro: only_cancels_trans handlers_only_cancel)
  then show ?thesis using 1 d(3) by (auto intro: only_cancels_trans)
qed

text \<open>C18: A strategy never sends a new order. Over any run of the trade engine's thread,
  whatever responses and updates arrive in between and whichever strategy was chosen, the requests
  it has put on the queue to the gateway are cancellations with its own client id:
  \<open>newOrder\<close> builds the request and hands it to nobody. (Between the iterations the
  other threads change neither the outgoing queue nor the client id; the gateway's reading of the
  queue is left out of the run.)\<close>

theorem strategy_sends_only_cancels:
  assumes "TradeEngine_runs clock sched e = Inr e'"
    and "\<forall>(env, run) \<in> set sched. \<forall>x. te_client_id (env x) = te_client_id x
           \<and> outgoing_ogw_requests (env x) = outgoing_ogw_requests x"
  shows "\<exists>rs. fold_res lfq_push rs (outgoing_ogw_requests e) = Inr (outgoing_ogw_requests e')
     \<and> (\<forall>r \<in> set rs. rq_type r = CRT_CANCEL \<and> rq_client_id r = te_client_id e)"
proof -
  have "only_cancels e e'"
  proof (rule run_while_invariant[OF assms(1)[unfolded TradeEngine_runs_def]])
    show "only_cancels e (env x)" if "(env, run) \<in> set sched" "only_cancels e x" for env run x
      using that assms(2) by (fastforce simp: only_cancels_def)
    show "only_cancels e y" if "only_cancels e x" "TradeEngine_iteration clock x = Inr y" for x y
      using only_cancels_trans[OF that(1) iteration_only_cancels[OF that(2)]] .
  qed simp
  then show ?thesis by (simp add: only_cancels_def sends_cancels_def)
qed

text \<open>The exchange accepts an order of the strategy.\<close>

definition accepted :: MEClientResponse where
  "accepted = \<lparr>rs_type = CRS_ACCEPTED, rs_client_id = 1, rs_ticker_id = 0, rs_client_order_id = 1,
     rs_market_order_id = 1, rs_side = BUY, rs_price = 100, rs_exec_qty = 0, rs_leaves_qty = 10\<rparr>"

definition arrives :: "MEClientResponse \<Rightarrow> TradeEngine \<Rightarrow> TradeEngine" where
  "arrives r e =
     (case lfq_push r (incoming_ogw_responses e) of
        Inl x \<Rightarrow> e | Inr q \<Rightarrow> e\<lparr>incoming_ogw_responses := q\<rparr>)"

lemma arrives_frame [simp]:
  "te_client_id (arrives r e) = te_client_id e" "outgoing_ogw_requests (arrives r e) = outgoing_ogw_requests e"
  by (simp_all add: arrives_def split: sum.splits)

lemma accepted_run:
  "\<exists>e'. TradeEngine_runs clock [(arrives accepted, True)] new_trader = Inr e'
     \<and> order_state (order_of (order_manager e') (0, 2)) = LIVE"
proof -
  let ?q = "incoming_ogw_responses new_trader" and ?m = "incoming_md_updates new_trader"
  have q: "lfq_ok ?q" "lfq_items ?q = []" "lfq_capacity ?q = ME_MAX_CLIENT_UPDATES - 1"
    and m: "lfq_ok ?m" "lfq_items ?m = []"
    by (simp_all add: new_trader_def TradeEngine_ctor_def wf_intros limit_defs)
  obtain q1 where q1: "lfq_push accepted ?q = Inr q1" "lfq_ok q1" "lfq_items q1 = [accepted]"
    using lfq.push_law[OF q(1), of accepted] q(2,3) by (auto simp: limit_defs)
  let ?e = "new_trader\<lparr>incoming_ogw_responses := q1\<rparr>"
  have a: "arrives accepted new_trader = ?e" by (simp add: arrives_def q1(1))
  obtain e1 where e1: "engine_response clock accepted ?e = Inr e1"
    "order_state (order_of (order_manager e1) (0, 2)) = LIVE" "incoming_md_updates e1 = ?m"
    by (simp add: engine_response_def TradeEngine_onOrderUpdate_def accepted_def run_algo_def
        new_trader_def TradeEngine_ctor_def algoOnOrderUpdate_def MarketMaker_ctor_def
        MarketMaker_onOrderUpdate_def OrderManager_onOrderUpdate_def limit_defs answered_def stamp_def)
  obtain q2 where q2: "drain getNextToRead updateReadIndex (engine_response clock) q1 ?e = Some (Inr (q2, e1))"
    using lfq.drain_handles_all[OF q1(2), of "engine_response clock" ?e e1] q1(3) e1(1) by auto
  obtain m2 where m2: "drain getNextToRead updateReadIndex (engine_update clock) ?m
      (e1\<lparr>incoming_ogw_responses := q2\<rparr>) = Some (Inr (m2, e1\<lparr>incoming_ogw_responses := q2\<rparr>))"
    using lfq.drain_handles_all[OF m(1), of "engine_update clock"] m(2) by auto
  have "TradeEngine_iteration clock ?e
      = Inr (e1\<lparr>incoming_ogw_responses := q2, incoming_md_updates := m2\<rparr>)"
    using q2 m2 e1(3) by (simp add: TradeEngine_iteration_def Let_def)
  then show ?thesis using a e1(2) by (simp add: TradeEngine_runs_def)
qed

theorem strategy_sends_only_cancels_witness:
  "\<exists>e' rs. TradeEngine_runs (\<lambda>_. 0) [(arrives accepted, True)] new_trader = Inr e'
     \<and> order_state (order_of (order_manager e') (0, 2)) = LIVE
     \<and> fold_res lfq_push rs (outgoing_ogw_requests new_trader) = Inr (outgoing_ogw_requests e')
     \<and> (\<forall>r \<in> set rs. rq_type r = CRT_CANCEL)"
proof -
  obtain e' where e': "TradeEngine_runs (\<lambda>_. 0) [(arrives accepted, True)] new_trader = Inr e'"
    "order_state (order_of (order_manager e') (0, 2)) = LIVE"
    using accepted_run by blast
  show ?thesis using strategy_sends_only_cancels[OF e'(1)] e' by auto
qed

section \<open>Orders and risk\<close>

text \<open>C19: An order is only created inside the limits. When moving an order brings a new pending
  order into its place, then its quantity is at most the largest order size, the position
  counted with the whole order is within the largest position on either side, computed
  without overflow, the profit is not below the largest loss, and the price is a price.\<close>

theorem created_orders_respect_the_limits:
  assumes "moveOrder cid k (RiskManager_ctor cfg) s tid price side qty (q, om) = Inr (q', om')"
    and "order_state (order_of om s) \<noteq> PENDING_NEW" "order_state (order_of om' s) = PENDING_NEW"
  shows "om_qty (order_of om' s) \<le> max_order_size (risk_cfg (cfg (unat tid)))
    \<and> \<bar>sint (position (ticker_position k (unat tid))) + sideToValue side * sint (om_qty (order_of om' s))\<bar>
        \<le> sint (max_position (risk_cfg (cfg (unat tid))))
    \<and> \<not> dbl_less (total_pnl (ticker_position k (unat tid))) (max_loss (risk_cfg (cfg (unat tid))))
    \<and> om_price (order_of om' s) \<noteq> Price_INVALID"
  using assms(1)
proof (cases rule: moveOrder_cases)
  case created
  then show ?thesis using risk_allowed[OF created(3)] by (simp add: newOrder_def)
qed (use assms(2,3) in auto)

lemma sample_move:
  "\<exists>q' om'. moveOrder 1 (PositionKeeper_ctor (\<lambda>_ _. Fin 0)) (RiskManager_ctor sample_cfg) (0, 2) 0 100 BUY 10
      (LFQueue_ctor MEClientRequest_default 4, OrderManager_ctor) = Inr (q', om')
    \<and> order_state (order_of OrderManager_ctor (0, 2)) \<noteq> PENDING_NEW
    \<and> order_state (order_of om' (0, 2)) = PENDING_NEW"
  by (simp add: moveOrder_def OrderManager_ctor_def order_of_def OMOrder_default_def checkPreTradeRisk_def
      RiskManager_ctor_def RiskInfo_checkPreTradeRisk_def sample_cfg_def PositionKeeper_ctor_def
      PositionInfo_default_def newOrder_def Price_INVALID_def limit_defs set_order_def Let_def)

theorem created_orders_respect_the_limits_witness:
  "\<exists>q' om'. moveOrder 1 (PositionKeeper_ctor (\<lambda>_ _. Fin 0)) (RiskManager_ctor sample_cfg) (0, 2) 0 100 BUY 10
      (LFQueue_ctor MEClientRequest_default 4, OrderManager_ctor) = Inr (q', om')
    \<and> om_qty (order_of om' (0, 2)) \<le> 100"
proof -
  obtain q' om' where m: "moveOrder 1 (PositionKeeper_ctor (\<lambda>_ _. Fin 0)) (RiskManager_ctor sample_cfg) (0, 2) 0 100 BUY 10
      (LFQueue_ctor MEClientRequest_default 4, OrderManager_ctor) = Inr (q', om')"
    "order_state (order_of OrderManager_ctor (0, 2)) \<noteq> PENDING_NEW"
    "order_state (order_of om' (0, 2)) = PENDING_NEW"
    using sample_move by blast
  show ?thesis using created_orders_respect_the_limits[OF m] m(1) by (simp add: sample_cfg_def)
qed

section \<open>Fills and positions\<close>

lemma addFill_position:
  assumes "PositionInfo_addFill r p = Inr p'"
  shows "position p' = bump_position (rs_side r) (rs_exec_qty r) (position p)"
    and "volume p' = volume p + rs_exec_qty r"
proof -
  let ?p = "p\<lparr>position := bump_position (rs_side r) (rs_exec_qty r) (position p),
               volume := volume p + rs_exec_qty r\<rparr>"
  have red: "position p' = position p1 \<and> volume p' = volume p1"
    if "reduce_position r old p1 = Inr p'" for old p1
    using that by (auto simp: reduce_position_def Let_def elim!: bindr_InrE split: if_splits)
  consider v where "p' = ?p\<lparr>open_vwap := v\<rparr>" | "reduce_position r (position p) ?p = Inr p'"
    using assms unfolding PositionInfo_addFill_def Let_def
    by (auto elim!: bindr_InrE split: if_splits)
  then have "position p' = position ?p \<and> volume p' = volume ?p"
    by cases (simp, rule red)
  then show "position p' = bump_position (rs_side r) (rs_exec_qty r) (position p)"
    and "volume p' = volume p + rs_exec_qty r" by simp_all
qed

text \<open>Fills are booked wrongly: the quantity is multiplied by the index of the side in an array,
  which is 2 for a purchase and 0 for a sale, and not by its sign. A purchase counts twice,
  a sale not at all, so the position never goes down; the volume is right.\<close>

theorem fills_misbook_the_position:
  assumes "PositionInfo_addFill r p = Inr p'" "rs_side r = BUY \<or> rs_side r = SELL"
  shows "position p' = position p + (if rs_side r = BUY then 2 * rs_exec_qty r else 0)
    \<and> volume p' = volume p + rs_exec_qty r"
  using addFill_position[OF assms(1)] assms(2) by (auto simp: bump_position_eq)

definition bought :: MEClientResponse where
  "bought = accepted\<lparr>rs_type := CRS_FILLED, rs_exec_qty := 7, rs_leaves_qty := 3\<rparr>"

theorem fills_misbook_the_position_witness:
  "\<exists>p'. PositionInfo_addFill bought (PositionInfo_default (\<lambda>_. Fin 0)) = Inr p' \<and> position p' = 14"
proof -
  obtain p' where p': "PositionInfo_addFill bought (PositionInfo_default (\<lambda>_. Fin 0)) = Inr p'"
    by (simp add: PositionInfo_addFill_def bought_def accepted_def PositionInfo_default_def Let_def)
  then show ?thesis
    using fills_misbook_the_position[OF p'] by (simp add: bought_def accepted_def PositionInfo_default_def)
qed

end
